(* ===== verification/CxPrelude.thy ===== *)
theory CxPrelude
  imports Main "HOL-Library.Word"
begin

text \<open>
  Shared vocabulary of the development: the machine integer types of
  \<^verbatim>\<open>src/cx/platform/base.h\<close>, byte buffers as lists, the effect of \<^verbatim>\<open>memcpy\<close> on a
  buffer, and the big-endian byte conversions that both the QUIC codec and the digests use.

  Conventions used by every theory:
  \<^item> \<^verbatim>\<open>uint8\<close>, \<^verbatim>\<open>uint32\<close>, \<^verbatim>\<open>uint64\<close> values are words of that width, so \<open>+\<close> and
    \<open>*\<close> wrap exactly as the C operators do;
  \<^item> \<^verbatim>\<open>size_t\<close> lengths and offsets inside one memory object are \<open>nat\<close>: pointer
    arithmetic inside an object never wraps;
  \<^item> a pointer together with a length is the list of bytes it denotes, and a pointer that may
    be null is an option;
  \<^item> a memory object of fixed size is a list whose length never changes.
\<close>

unbundle bit_operations_syntax

type_synonym u8 = "8 word"
type_synonym u32 = "32 word"
type_synonym u64 = "64 word"

named_theorems mem_simps \<open>equations for writes into fixed-size buffers\<close>
named_theorems be_simps \<open>equations for big-endian conversions\<close>


section \<open>Buffers\<close>

text \<open>\<^verbatim>\<open>memcpy(buf + p, bs, len)\<close> on an object that has room for it.\<close>

definition mem_write :: "'a list \<Rightarrow> nat \<Rightarrow> 'a list \<Rightarrow> 'a list" where
  "mem_write buf p bs = take p buf @ bs @ drop (p + length bs) buf"

lemma length_mem_write [simp]:
  "p + length bs \<le> length buf \<Longrightarrow> length (mem_write buf p bs) = length buf"
  by (simp add: mem_write_def)

lemma take_mem_write [mem_simps]:
  "p + length bs \<le> length buf \<Longrightarrow> take (p + length bs) (mem_write buf p bs) = take p buf @ bs"
  by (simp add: mem_write_def)

lemma drop_mem_write [mem_simps]:
  "p + length bs \<le> length buf \<Longrightarrow>
   drop (p + length bs) (mem_write buf p bs) = drop (p + length bs) buf"
  by (simp add: mem_write_def)

lemma nth_mem_write [mem_simps]:
  assumes "p + length bs \<le> length buf"
  shows "mem_write buf p bs ! i =
    (if p \<le> i \<and> i < p + length bs then bs ! (i - p) else buf ! i)"
proof -
  have "length (take p buf) = p" using assms by simp
  with assms show ?thesis by (auto simp: mem_write_def nth_append)
qed


section \<open>Big-endian bytes\<close>

text \<open>The loop \<^verbatim>\<open>for (i = 0; i < n; i++) p[i] = (uint8)(val >> ((n - 1 - i) * 8));\<close>\<close>

definition be_bytes :: "nat \<Rightarrow> u64 \<Rightarrow> u8 list" where
  "be_bytes n v = map (\<lambda>i. ucast (drop_bit ((n - 1 - i) * 8) v)) [0..<n]"

text \<open>One turn of the loop \<^verbatim>\<open>val = (val << 8) | p[i];\<close>\<close>

definition be_step :: "u64 \<Rightarrow> u8 \<Rightarrow> u64" where
  "be_step val b = push_bit 8 val OR ucast b"

lemma be_bytes_0 [simp]: "be_bytes 0 v = []"
  by (simp add: be_bytes_def)

lemma length_be_bytes [simp]: "length (be_bytes n v) = n"
  by (simp add: be_bytes_def)

lemma be_bytes_eq_Nil [simp]: "be_bytes n v = [] \<longleftrightarrow> n = 0"
  by (simp add: be_bytes_def)

lemma be_bytes_Suc: "be_bytes (Suc n) v = ucast (drop_bit (n * 8) v) # be_bytes n v"
proof (rule nth_equalityI)
  fix i assume "i < length (be_bytes (Suc n) v)"
  then show "be_bytes (Suc n) v ! i = (ucast (drop_bit (n * 8) v) # be_bytes n v) ! i"
    by (cases i) (auto simp: be_bytes_def nth_Cons simp del: upt_Suc)
qed simp

lemma hd_be_bytes: "0 < n \<Longrightarrow> hd (be_bytes n v) = ucast (drop_bit ((n - 1) * 8) v)"
  by (cases n) (simp_all add: be_bytes_Suc)

lemma tl_be_bytes: "tl (be_bytes n v) = be_bytes (n - 1) v"
  by (cases n) (simp_all add: be_bytes_Suc)

lemma be_step_cat:
  "push_bit m (be_step a (ucast (drop_bit m v))) OR take_bit m v =
   push_bit (m + 8) a OR take_bit (m + 8) v"
  for a v :: u64
  by (rule bit_word_eqI) (auto simp: be_step_def bit_simps)

lemma foldl_be_step:
  "foldl be_step a (be_bytes n v) = push_bit (n * 8) a OR take_bit (n * 8) v"
proof (induction n arbitrary: a)
  case 0
  then show ?case by simp
next
  case (Suc n)
  show ?case
    by (simp add: be_bytes_Suc Suc be_step_cat add.commute)
qed

lemma foldl_be_step_0 [be_simps]: "foldl be_step 0 (be_bytes n v) = take_bit (n * 8) v"
  by (simp add: foldl_be_step)

section \<open>Words\<close>

lemma take_bit_word_small: "v < 2 ^ n \<Longrightarrow> take_bit n v = v"
  for v :: "'a::len word"
  by (simp add: take_bit_eq_mask less_mask_eq)

lemma unat_pow2: "n < LENGTH('a) \<Longrightarrow> unat (2 ^ n :: 'a::len word) = 2 ^ n"
  using word_2p_lem [of n "0 :: 'a word"] uint_2p [where 'a = 'a and n = n]
  by (simp add: word_size nat_power_eq flip: nat_uint_eq)

lemma less_pow2_iff_unat: "n < LENGTH('a) \<Longrightarrow> v < 2 ^ n \<longleftrightarrow> unat v < 2 ^ n"
  for v :: "'a::len word"
  by (simp add: word_less_nat_alt unat_pow2)

lemma unat_of_nat_small: "n < 2 ^ LENGTH('a) \<Longrightarrow> unat (of_nat n :: 'a::len word) = n"
  by (simp add: unsigned_of_nat take_bit_nat_eq_self)

lemma unat_word_add: "unat a + unat b < 2 ^ LENGTH('a) \<Longrightarrow> unat (a + b) = unat a + unat b"
  for a b :: "'a::len word"
  by (simp add: unat_word_ariths)

lemma unat_word_sub: "b \<le> a \<Longrightarrow> unat (a - b) = unat a - unat b"
  for a b :: "'a::len word"
  by (simp add: unat_sub)

end
