(* ===== verification/QuicWire.thy ===== *)
theory QuicWire
  imports CxPrelude
begin

text \<open>
  The byte readers and writers, the variable-length integers and the packet number encoding of
  \<^verbatim>\<open>src/cxquic/wire.c\<close> (types in \<^verbatim>\<open>src/cxquic/quic_private.h\<close>).

  A cursor is a record over the object it walks: \<^verbatim>\<open>p\<close> is an offset into it and \<^verbatim>\<open>end\<close> is the
  object's length. Names drop the leading underscore of the source.
\<close>

section \<open>Readers\<close>

record QuicRd =
  rd_buf :: "u8 list"
  rd_p :: nat
  rd_bad :: bool

definition quicRdInit :: "u8 list \<Rightarrow> QuicRd" where
  "quicRdInit data = \<lparr>rd_buf = data, rd_p = 0, rd_bad = False\<rparr>"

definition quicRdLeft :: "QuicRd \<Rightarrow> nat" where
  "quicRdLeft rd = (if rd_bad rd then 0 else length (rd_buf rd) - rd_p rd)"

definition quicRdBytes :: "QuicRd \<Rightarrow> nat \<Rightarrow> u8 list option \<times> QuicRd" where
  "quicRdBytes rd n =
     (if rd_bad rd \<or> length (rd_buf rd) - rd_p rd < n
      then (None, rd\<lparr>rd_bad := True\<rparr>)
      else (Some (take n (drop (rd_p rd) (rd_buf rd))), rd\<lparr>rd_p := rd_p rd + n\<rparr>))"

definition quicRdInt :: "QuicRd \<Rightarrow> nat \<Rightarrow> u64 \<times> QuicRd" where
  "quicRdInt rd nbytes =
     (case quicRdBytes rd nbytes of
        (None, rd') \<Rightarrow> (0, rd')
      | (Some bs, rd') \<Rightarrow> (foldl be_step 0 bs, rd'))"

definition quicRd8 :: "QuicRd \<Rightarrow> u8 \<times> QuicRd" where
  "quicRd8 rd = (case quicRdInt rd 1 of (v, rd') \<Rightarrow> (ucast v, rd'))"

definition quicRd16 :: "QuicRd \<Rightarrow> 16 word \<times> QuicRd" where
  "quicRd16 rd = (case quicRdInt rd 2 of (v, rd') \<Rightarrow> (ucast v, rd'))"

definition quicRd32 :: "QuicRd \<Rightarrow> u32 \<times> QuicRd" where
  "quicRd32 rd = (case quicRdInt rd 4 of (v, rd') \<Rightarrow> (ucast v, rd'))"

definition quicRdVarint :: "QuicRd \<Rightarrow> u64 \<times> QuicRd" where
  "quicRdVarint rd =
     (if rd_bad rd \<or> rd_p rd = length (rd_buf rd) then (0, rd\<lparr>rd_bad := True\<rparr>)
      else
        let b0 = rd_buf rd ! rd_p rd;
            n = 2 ^ unat (drop_bit 6 b0)
        in if length (rd_buf rd) - rd_p rd < n then (0, rd\<lparr>rd_bad := True\<rparr>)
           else (foldl be_step (ucast (b0 AND 0x3f))
                   (take (n - 1) (drop (Suc (rd_p rd)) (rd_buf rd))),
                 rd\<lparr>rd_p := rd_p rd + n\<rparr>))"

definition quicRdVarintBytes :: "QuicRd \<Rightarrow> u8 list option \<times> QuicRd" where
  "quicRdVarintBytes rd =
     (case quicRdVarint rd of (n, rd') \<Rightarrow>
        if rd_bad rd' \<or> quicRdLeft rd' < unat n then (None, rd'\<lparr>rd_bad := True\<rparr>)
        else quicRdBytes rd' (unat n))"


section \<open>Writers\<close>

record QuicWr =
  wr_buf :: "u8 list"
  wr_p :: nat
  wr_bad :: bool

definition quicWrInit :: "u8 list \<Rightarrow> QuicWr" where
  "quicWrInit buf = \<lparr>wr_buf = buf, wr_p = 0, wr_bad = False\<rparr>"

definition quicWrLen :: "QuicWr \<Rightarrow> nat" where
  "quicWrLen wr = wr_p wr"

definition quicWrLeft :: "QuicWr \<Rightarrow> nat" where
  "quicWrLeft wr = (if wr_bad wr then 0 else length (wr_buf wr) - wr_p wr)"

definition quicWrBytes :: "QuicWr \<Rightarrow> u8 list \<Rightarrow> QuicWr" where
  "quicWrBytes wr data =
     (if wr_bad wr \<or> length (wr_buf wr) - wr_p wr < length data then wr\<lparr>wr_bad := True\<rparr>
      else wr\<lparr>wr_buf := mem_write (wr_buf wr) (wr_p wr) data, wr_p := wr_p wr + length data\<rparr>)"

definition quicWrInt :: "QuicWr \<Rightarrow> u64 \<Rightarrow> nat \<Rightarrow> QuicWr" where
  "quicWrInt wr val nbytes =
     (if wr_bad wr \<or> length (wr_buf wr) - wr_p wr < nbytes then wr\<lparr>wr_bad := True\<rparr>
      else wr\<lparr>wr_buf := mem_write (wr_buf wr) (wr_p wr) (be_bytes nbytes val),
              wr_p := wr_p wr + nbytes\<rparr>)"

definition quicWr8 :: "QuicWr \<Rightarrow> u8 \<Rightarrow> QuicWr" where
  "quicWr8 wr val = quicWrInt wr (ucast val) 1"

definition quicWr16 :: "QuicWr \<Rightarrow> 16 word \<Rightarrow> QuicWr" where
  "quicWr16 wr val = quicWrInt wr (ucast val) 2"

definition quicWr32 :: "QuicWr \<Rightarrow> u32 \<Rightarrow> QuicWr" where
  "quicWr32 wr val = quicWrInt wr (ucast val) 4"

definition QUIC_MAX_PACKET_NUMBER :: u64 where
  "QUIC_MAX_PACKET_NUMBER = push_bit 62 1"

definition quicVarintSize :: "u64 \<Rightarrow> nat" where
  "quicVarintSize val =
     (if val < 0x40 then 1
      else if val < 0x4000 then 2
      else if val < 0x40000000 then 4
      else if val < QUIC_MAX_PACKET_NUMBER then 8
      else 0)"

definition quicWrVarintSized :: "QuicWr \<Rightarrow> u64 \<Rightarrow> nat \<Rightarrow> QuicWr" where
  "quicWrVarintSized wr val sz =
     (let need = quicVarintSize val in
      if need = 0 \<or> sz < need \<or> (sz \<noteq> 1 \<and> sz \<noteq> 2 \<and> sz \<noteq> 4 \<and> sz \<noteq> 8)
      then wr\<lparr>wr_bad := True\<rparr>
      else if wr_bad wr \<or> length (wr_buf wr) - wr_p wr < sz then wr\<lparr>wr_bad := True\<rparr>
      else
        let bs = be_bytes sz val;
            prefix = (if sz = 1 then 0 else if sz = 2 then 1 else if sz = 4 then 2 else 3)
        in wr\<lparr>wr_buf := mem_write (wr_buf wr) (wr_p wr) (bs[0 := bs ! 0 OR push_bit 6 prefix]),
              wr_p := wr_p wr + sz\<rparr>)"

definition quicWrVarint :: "QuicWr \<Rightarrow> u64 \<Rightarrow> QuicWr" where
  "quicWrVarint wr val = quicWrVarintSized wr val (quicVarintSize val)"

definition quicWrVarintBytes :: "QuicWr \<Rightarrow> u8 list \<Rightarrow> QuicWr" where
  "quicWrVarintBytes wr data = quicWrBytes (quicWrVarint wr (of_nat (length data))) data"


section \<open>Packet numbers\<close>

abbreviation (input) QUIC_PN_NONE :: u64 where
  "QUIC_PN_NONE \<equiv> - 1"

text \<open>The loop that counts the significant bits of \<^verbatim>\<open>range\<close>.\<close>

function pnBits :: "u64 \<Rightarrow> nat \<Rightarrow> nat" where
  "pnBits rng bits = (if 0 < rng then pnBits (drop_bit 1 rng) (Suc bits) else bits)"
  by pat_completeness auto
termination
proof (relation "measure (\<lambda>(rng, bits). unat rng)")
  fix rng :: u64 and bits :: nat
  assume "0 < rng"
  then have "0 < unat rng" by (simp add: unat_gt_0)
  then show "((drop_bit 1 rng, Suc bits), rng, bits) \<in> measure (\<lambda>(rng, bits). unat rng)"
    by (simp add: drop_bit_eq_div unat_div)
qed simp

declare pnBits.simps [simp del]

definition quicPnSize :: "u64 \<Rightarrow> u64 \<Rightarrow> nat" where
  "quicPnSize pn largestAcked =
     (let unacked = (if largestAcked = QUIC_PN_NONE \<or> largestAcked > pn then pn + 1
                     else pn - largestAcked);
          rng = unacked * 2;
          n = (pnBits rng 0 + 7) div 8
      in if n < 1 then 1 else if n > 4 then 4 else n)"

definition quicPnDecode :: "u64 \<Rightarrow> u64 \<Rightarrow> nat \<Rightarrow> u64" where
  "quicPnDecode largestPn truncated pnLen =
     (if pnLen < 1 \<or> pnLen > 4 then truncated
      else
        let expected = (if largestPn = QUIC_PN_NONE then 0 else largestPn + 1);
            win = push_bit (pnLen * 8) 1;
            hwin = win div 2;
            candidate = (expected AND NOT (win - 1)) OR truncated
        in if candidate + hwin \<le> expected \<and> candidate < QUIC_MAX_PACKET_NUMBER - win
           then candidate + win
           else if candidate > expected + hwin \<and> candidate \<ge> win then candidate - win
           else candidate)"


section \<open>Cursors in normal form\<close>

text \<open>
  Every good reader is \<open>rd_mk pre rest\<close>: what it has consumed and what is left. Every good
  writer is \<open>wr_mk out room\<close>: what it has written and the bytes it may still overwrite. The
  lemmas of the codec are rewrite rules between these normal forms.
\<close>

named_theorems wire_rd \<open>reads from a reader in normal form\<close>
named_theorems wire_wr \<open>writes in terms of \<^verbatim>\<open>quicWrBytes\<close>\<close>

definition rd_mk :: "u8 list \<Rightarrow> u8 list \<Rightarrow> QuicRd" where
  "rd_mk pre rest = \<lparr>rd_buf = pre @ rest, rd_p = length pre, rd_bad = False\<rparr>"

lemma rd_mk_sel [simp]:
  "rd_buf (rd_mk pre rest) = pre @ rest"
  "rd_p (rd_mk pre rest) = length pre"
  "\<not> rd_bad (rd_mk pre rest)"
  by (simp_all add: rd_mk_def)

lemma quicRdInit_mk: "quicRdInit data = rd_mk [] data"
  by (simp add: quicRdInit_def rd_mk_def)

lemma quicRdLeft_mk [simp]: "quicRdLeft (rd_mk pre rest) = length rest"
  by (simp add: quicRdLeft_def)

lemma quicRdBytes_mk [wire_rd]:
  "length bs = n \<Longrightarrow> quicRdBytes (rd_mk pre (bs @ rest)) n = (Some bs, rd_mk (pre @ bs) rest)"
  by (auto simp: quicRdBytes_def rd_mk_def)

lemma quicRdBytes_short [wire_rd]:
  "length rest < n \<Longrightarrow> quicRdBytes (rd_mk pre rest) n = (None, (rd_mk pre rest)\<lparr>rd_bad := True\<rparr>)"
  by (simp add: quicRdBytes_def)

lemma quicRdInt_mk [wire_rd]:
  "quicRdInt (rd_mk pre (be_bytes n v @ rest)) n =
     (take_bit (n * 8) v, rd_mk (pre @ be_bytes n v) rest)"
  by (simp add: quicRdInt_def wire_rd be_simps)

lemma be_bytes_1: "be_bytes 1 v = [ucast v]"
  by (simp add: be_bytes_Suc [of 0, simplified])

lemma ucast_u8_u64 [simp]: "ucast (ucast b :: u64) = b"
  for b :: u8
  by (rule bit_word_eqI) (auto simp: bit_simps)

lemma quicRd8_mk [wire_rd]: "quicRd8 (rd_mk pre (b # rest)) = (b, rd_mk (pre @ [b]) rest)"
  by (simp add: quicRd8_def quicRdInt_def quicRdBytes_mk [of "[b]", simplified] be_step_def)

lemma quicRd32_mk [wire_rd]:
  "quicRd32 (rd_mk pre (be_bytes 4 (ucast v) @ rest)) = (v, rd_mk (pre @ be_bytes 4 (ucast v)) rest)"
  by (simp add: quicRd32_def wire_rd) (rule bit_word_eqI, auto simp: bit_simps)


subsection \<open>Variable-length integers\<close>

definition varint_prefix :: "nat \<Rightarrow> u8" where
  "varint_prefix n = (if n = 1 then 0 else if n = 2 then 1 else if n = 4 then 2 else 3)"

text \<open>The bytes of RFC 9000 section 16: the value, big-endian, under a two-bit length prefix.\<close>

definition varint_enc :: "nat \<Rightarrow> u64 \<Rightarrow> u8 list" where
  "varint_enc n v = (ucast (drop_bit ((n - 1) * 8) v) OR push_bit 6 (varint_prefix n)) # be_bytes (n - 1) v"

definition varint_bytes :: "u64 \<Rightarrow> u8 list" where
  "varint_bytes v = varint_enc (quicVarintSize v) v"

definition varint_ok :: "u64 \<Rightarrow> bool" where
  "varint_ok v \<longleftrightarrow> v < QUIC_MAX_PACKET_NUMBER"

lemma varint_ok_unat: "varint_ok v \<longleftrightarrow> unat v < 2 ^ 62"
  by (simp add: varint_ok_def QUIC_MAX_PACKET_NUMBER_def word_less_nat_alt)

lemma length_varint_enc: "0 < n \<Longrightarrow> length (varint_enc n v) = n"
  by (simp add: varint_enc_def)

lemma quicVarintSize_eq_0 [simp]: "quicVarintSize v = 0 \<longleftrightarrow> \<not> varint_ok v"
  unfolding quicVarintSize_def varint_ok_def QUIC_MAX_PACKET_NUMBER_def
  by (auto simp: word_less_nat_alt)

lemma quicVarintSize_gt_0 [simp]: "0 < quicVarintSize v \<longleftrightarrow> varint_ok v"
  using quicVarintSize_eq_0 [of v] by linarith

lemma quicVarintSize_cases:
  "quicVarintSize v \<in> {0, 1, 2, 4, 8}"
  by (simp add: quicVarintSize_def)

lemma varint_size_fits:
  assumes "quicVarintSize v \<le> n" "varint_ok v" "n \<in> {1, 2, 4, 8}"
  shows "v < 2 ^ (n * 8 - 2)"
proof -
  have "unat v < 2 ^ (n * 8 - 2)"
    using assms
    by (auto simp: quicVarintSize_def varint_ok_def QUIC_MAX_PACKET_NUMBER_def word_less_nat_alt
        split: if_splits)
  then show ?thesis
    using assms(3) by (auto simp: word_less_nat_alt)
qed

lemma prefixed_byte:
  fixes h q :: u8
  assumes h: "\<And>m. bit h m \<Longrightarrow> m < 6" and q: "\<And>m. bit q m \<Longrightarrow> m < 2"
  shows "drop_bit 6 (h OR push_bit 6 q) = q" and "(h OR push_bit 6 q) AND 0x3f = h"
proof -
  have mask: "(0x3f :: u8) = mask 6" by (simp add: mask_eq_exp_minus_1)
  show "drop_bit 6 (h OR push_bit 6 q) = q"
    by (rule bit_word_eqI) (auto simp: bit_simps dest!: h dest: q)
  show "(h OR push_bit 6 q) AND 0x3f = h"
    unfolding mask by (rule bit_word_eqI) (auto simp: bit_simps dest: h)
qed

lemma varint_prefix_bits: "bit (varint_prefix n) m \<Longrightarrow> m < 2"
proof -
  have "varint_prefix n = take_bit 2 (varint_prefix n)" by (simp add: varint_prefix_def)
  then show "bit (varint_prefix n) m \<Longrightarrow> m < 2" by (metis bit_take_bit_iff)
qed

lemma small_bits: "v < 2 ^ n \<Longrightarrow> bit v m \<Longrightarrow> m < n"
  for v :: u64
  by (metis bit_take_bit_iff take_bit_word_small)

lemma varint_head:
  assumes "v < 2 ^ (n * 8 - 2)" "n \<in> {1, 2, 4, 8}"
  shows "drop_bit 6 (hd (varint_enc n v)) = varint_prefix n"
    and "hd (varint_enc n v) AND 0x3f = ucast (drop_bit ((n - 1) * 8) v)"
proof -
  have "bit (ucast (drop_bit ((n - 1) * 8) v) :: u8) m \<Longrightarrow> m < 6" for m
    using assms(2) by (auto simp: bit_simps dest!: small_bits [OF assms(1)])
  note prefixed_byte [OF this varint_prefix_bits [of n]]
  then show "drop_bit 6 (hd (varint_enc n v)) = varint_prefix n"
    and "hd (varint_enc n v) AND 0x3f = ucast (drop_bit ((n - 1) * 8) v)"
    by (simp_all add: varint_enc_def)
qed

lemma varint_value:
  assumes "v < 2 ^ (n * 8 - 2)" "n \<in> {1, 2, 4, 8}"
  shows "foldl be_step (ucast (hd (varint_enc n v) AND 0x3f)) (tl (varint_enc n v)) = v"
proof -
  have "foldl be_step (ucast (hd (varint_enc n v) AND 0x3f)) (tl (varint_enc n v)) =
      push_bit ((n - 1) * 8) (ucast (ucast (drop_bit ((n - 1) * 8) v) :: u8))
        OR take_bit ((n - 1) * 8) v"
    by (simp only: varint_head(2) [OF assms]) (simp add: varint_enc_def foldl_be_step)
  also have "\<dots> = v"
    using assms(2) by (intro bit_word_eqI) (auto simp: bit_simps dest: small_bits [OF assms(1)])
  finally show ?thesis .
qed

lemma quicRdVarint_enc [wire_rd]:
  assumes "v < 2 ^ (n * 8 - 2)" "n \<in> {1, 2, 4, 8}"
  shows "quicRdVarint (rd_mk pre (varint_enc n v @ rest)) =
    (v, rd_mk (pre @ varint_enc n v) rest)"
proof -
  obtain b bs where enc: "varint_enc n v = b # bs" by (simp add: varint_enc_def)
  have len: "length bs = n - 1" using enc assms(2) by (auto simp: varint_enc_def)
  have "unat (drop_bit 6 b) = unat (varint_prefix n)"
    using varint_head(1) [OF assms] enc by simp
  then have n: "2 ^ unat (drop_bit 6 b) = n"
    using assms(2) by (auto simp: varint_prefix_def)
  have "foldl be_step (ucast (b AND 0x3f)) bs = v"
    using varint_value [OF assms] enc by simp
  with n len assms(2) show ?thesis
    by (auto simp: quicRdVarint_def enc Let_def rd_mk_def)
qed

lemma quicRdVarint_mk [wire_rd]:
  assumes "varint_ok v"
  shows "quicRdVarint (rd_mk pre (varint_bytes v @ rest)) =
    (v, rd_mk (pre @ varint_bytes v) rest)"
proof -
  have "quicVarintSize v \<in> {1, 2, 4, 8}"
    using quicVarintSize_cases [of v] assms by auto
  with assms show ?thesis
    unfolding varint_bytes_def
    by (intro quicRdVarint_enc varint_size_fits) simp_all
qed

lemma length_varint_bytes [simp]: "varint_ok v \<Longrightarrow> length (varint_bytes v) = quicVarintSize v"
  by (simp add: varint_bytes_def length_varint_enc)

lemma varint_bytes_neq_Nil [simp]: "varint_bytes v \<noteq> []"
  by (simp add: varint_bytes_def varint_enc_def)

text \<open>A length-prefixed byte string, as tokens and reason phrases are written.\<close>

definition varint_string :: "u8 list \<Rightarrow> u8 list" where
  "varint_string data = varint_bytes (of_nat (length data)) @ data"

definition string_ok :: "'a list \<Rightarrow> bool" where
  "string_ok data \<longleftrightarrow> length data < 2 ^ 62"

lemma string_ok_varint: "string_ok data \<Longrightarrow> varint_ok (of_nat (length data))"
  by (simp add: string_ok_def varint_ok_def QUIC_MAX_PACKET_NUMBER_def word_less_nat_alt
      unat_of_nat_small)

lemma string_ok_unat: "string_ok data \<Longrightarrow> unat (of_nat (length data) :: u64) = length data"
  by (simp add: string_ok_def unat_of_nat_small)

lemma quicRdVarintBytes_mk [wire_rd]:
  assumes "string_ok data"
  shows "quicRdVarintBytes (rd_mk pre (varint_string data @ rest)) =
    (Some data, rd_mk (pre @ varint_string data) rest)"
  using assms
  by (simp add: quicRdVarintBytes_def varint_string_def wire_rd string_ok_varint string_ok_unat)


subsection \<open>Writers in terms of their output\<close>

definition wr_out :: "QuicWr \<Rightarrow> u8 list" where
  "wr_out wr = take (wr_p wr) (wr_buf wr)"

definition wr_room :: "QuicWr \<Rightarrow> nat" where
  "wr_room wr = length (wr_buf wr) - wr_p wr"

definition wr_wf :: "QuicWr \<Rightarrow> bool" where
  "wr_wf wr \<longleftrightarrow> wr_p wr \<le> length (wr_buf wr)"

text \<open>
  \<open>wr_grow wr wr' bs\<close>: the writer went from one state to the other by appending exactly
  \<open>bs\<close>, or else is marked bad because it did not fit.
\<close>

definition wr_grow :: "QuicWr \<Rightarrow> QuicWr \<Rightarrow> u8 list \<Rightarrow> bool" where
  "wr_grow wr wr' bs \<longleftrightarrow>
     wr_wf wr' \<and> length (wr_buf wr') = length (wr_buf wr) \<and>
     (wr_bad wr' \<longleftrightarrow> wr_bad wr \<or> wr_room wr < length bs) \<and>
     (\<not> wr_bad wr' \<longrightarrow> wr_out wr' = wr_out wr @ bs)"

lemma wr_grow_wf: "wr_grow wr wr' bs \<Longrightarrow> wr_wf wr'"
  by (simp add: wr_grow_def)

lemma wr_grow_Nil: "wr_wf wr \<Longrightarrow> wr_grow wr wr []"
  by (simp add: wr_grow_def)

lemma length_wr_out: "wr_wf wr \<Longrightarrow> length (wr_out wr) = wr_p wr"
  by (simp add: wr_out_def wr_wf_def)

lemma wr_grow_room: "wr_grow wr wr' bs \<Longrightarrow> wr_wf wr \<Longrightarrow> \<not> wr_bad wr' \<Longrightarrow> wr_room wr' = wr_room wr - length bs"
  unfolding wr_grow_def wr_room_def
  by (metis diff_diff_left length_append length_wr_out)

lemma wr_grow_trans:
  assumes "wr_wf wr" "wr_grow wr wr1 a" "wr_grow wr1 wr2 b"
  shows "wr_grow wr wr2 (a @ b)"
proof (cases "wr_bad wr1")
  case True
  with assms show ?thesis by (auto simp: wr_grow_def)
next
  case False
  with assms have "wr_room wr1 = wr_room wr - length a" by (simp add: wr_grow_room)
  with False assms show ?thesis by (auto simp: wr_grow_def)
qed

lemma quicWrBytes_grow: "wr_wf wr \<Longrightarrow> wr_grow wr (quicWrBytes wr bs) bs"
  by (auto simp: wr_grow_def quicWrBytes_def wr_room_def wr_wf_def wr_out_def mem_simps)

text \<open>Rules that follow a chain of writes from its last call to its first.\<close>

lemma wr_growI: "wr_grow wr wr' bs \<Longrightarrow> bs = bs' \<Longrightarrow> wr_grow wr wr' bs'"
  by simp

lemma wr_grow_bytes: "wr_wf wr \<Longrightarrow> wr_grow wr wr1 a \<Longrightarrow> wr_grow wr (quicWrBytes wr1 b) (a @ b)"
  by (blast intro: wr_grow_trans quicWrBytes_grow wr_grow_wf)

lemma quicWrInt_bytes [wire_wr]: "quicWrInt wr v n = quicWrBytes wr (be_bytes n v)"
  by (simp add: quicWrInt_def quicWrBytes_def)

lemma quicWr8_bytes [wire_wr]: "quicWr8 wr b = quicWrBytes wr [b]"
  by (simp add: quicWr8_def wire_wr be_bytes_1 [unfolded One_nat_def])

lemma quicWr32_bytes [wire_wr]: "quicWr32 wr v = quicWrBytes wr (be_bytes 4 (ucast v))"
  by (simp add: quicWr32_def wire_wr)

lemma be_bytes_prefixed:
  "0 < n \<Longrightarrow> (be_bytes n v)[0 := be_bytes n v ! 0 OR push_bit 6 (varint_prefix n)] = varint_enc n v"
  by (cases n) (simp_all add: be_bytes_Suc varint_enc_def)

lemma quicWrVarintSized_bytes [wire_wr]:
  "quicWrVarintSized wr v n =
     (if varint_ok v \<and> quicVarintSize v \<le> n \<and> n \<in> {1, 2, 4, 8}
      then quicWrBytes wr (varint_enc n v) else wr\<lparr>wr_bad := True\<rparr>)"
proof (cases "varint_ok v \<and> quicVarintSize v \<le> n \<and> n \<in> {1, 2, 4, 8}")
  case True
  then have "0 < n" by auto
  with True show ?thesis
    using be_bytes_prefixed [OF \<open>0 < n\<close>, of v]
    by (auto simp: quicWrVarintSized_def quicWrBytes_def Let_def length_varint_enc
        varint_prefix_def)
next
  case False
  then show ?thesis by (auto simp: quicWrVarintSized_def Let_def)
qed

lemma quicWrVarint_bytes [wire_wr]:
  "quicWrVarint wr v =
     (if varint_ok v then quicWrBytes wr (varint_bytes v) else wr\<lparr>wr_bad := True\<rparr>)"
  using quicVarintSize_cases [of v]
  by (auto simp: quicWrVarint_def wire_wr varint_bytes_def)

lemma quicWrVarint_grow: "wr_wf wr \<Longrightarrow> varint_ok v \<Longrightarrow> wr_grow wr (quicWrVarint wr v) (varint_bytes v)"
  by (simp add: wire_wr quicWrBytes_grow)

lemma quicWrVarintBytes_grow:
  assumes "wr_wf wr" "string_ok data"
  shows "wr_grow wr (quicWrVarintBytes wr data) (varint_string data)"
proof -
  have 1: "wr_grow wr (quicWrVarint wr (of_nat (length data))) (varint_bytes (of_nat (length data)))"
    using assms by (intro quicWrVarint_grow string_ok_varint)
  then have "wr_wf (quicWrVarint wr (of_nat (length data)))" by (simp add: wr_grow_def)
  then show ?thesis
    unfolding quicWrVarintBytes_def varint_string_def
    by (intro wr_grow_trans [OF assms(1) 1] quicWrBytes_grow)
qed

lemma wr_grow_varint:
  "wr_wf wr \<Longrightarrow> wr_grow wr wr1 a \<Longrightarrow> varint_ok v \<Longrightarrow>
   wr_grow wr (quicWrVarint wr1 v) (a @ varint_bytes v)"
  by (blast intro: wr_grow_trans quicWrVarint_grow wr_grow_wf)

lemma wr_grow_string:
  "wr_wf wr \<Longrightarrow> wr_grow wr wr1 a \<Longrightarrow> string_ok d \<Longrightarrow>
   wr_grow wr (quicWrVarintBytes wr1 d) (a @ varint_string d)"
  by (blast intro: wr_grow_trans quicWrVarintBytes_grow wr_grow_wf)

lemma wr_grow_sized:
  "wr_wf wr \<Longrightarrow> wr_grow wr wr1 a \<Longrightarrow> varint_ok v \<Longrightarrow> quicVarintSize v \<le> n \<Longrightarrow> n \<in> {1, 2, 4, 8} \<Longrightarrow>
   wr_grow wr (quicWrVarintSized wr1 v n) (a @ varint_enc n v)"
  by (simp add: quicWrVarintSized_bytes wr_grow_bytes)

lemmas wr_grow_chain = wr_grow_Nil wr_grow_bytes wr_grow_varint wr_grow_string wr_grow_sized


lemma wr_wf_init [simp]: "wr_wf (quicWrInit buf)" "wr_out (quicWrInit buf) = []"
  "\<not> wr_bad (quicWrInit buf)" "wr_room (quicWrInit buf) = length buf"
  by (simp_all add: wr_wf_def wr_out_def wr_room_def quicWrInit_def)


section \<open>Memory safety of the readers\<close>

definition rd_wf :: "QuicRd \<Rightarrow> bool" where
  "rd_wf rd \<longleftrightarrow> rd_p rd \<le> length (rd_buf rd)"

text \<open>
  What every read guarantees about the cursor: the object is untouched, the position only moves
  forward and stays inside the object, and a cursor that went bad stays bad.
\<close>

definition rd_step :: "QuicRd \<Rightarrow> QuicRd \<Rightarrow> bool" where
  "rd_step rd rd' \<longleftrightarrow>
     rd_wf rd' \<and> rd_buf rd' = rd_buf rd \<and> rd_p rd \<le> rd_p rd' \<and> (rd_bad rd \<longrightarrow> rd_bad rd')"

lemma rd_step_refl: "rd_wf rd \<Longrightarrow> rd_step rd rd"
  by (simp add: rd_step_def)

lemma rd_step_wf: "rd_step rd rd' \<Longrightarrow> rd_wf rd'"
  by (simp add: rd_step_def)

lemma rd_step_trans: "rd_step rd rd1 \<Longrightarrow> rd_step rd1 rd2 \<Longrightarrow> rd_step rd rd2"
  by (auto simp: rd_step_def)

lemma rd_step_bad: "rd_step rd rd' \<Longrightarrow> rd_step rd (rd'\<lparr>rd_bad := True\<rparr>)"
  by (auto simp: rd_step_def rd_wf_def)

lemma quicRdBytes_step: "rd_wf rd \<Longrightarrow> rd_step rd (snd (quicRdBytes rd n))"
  by (auto simp: rd_step_def rd_wf_def quicRdBytes_def)

lemma quicRdBytes_length: "quicRdBytes rd n = (Some bs, rd') \<Longrightarrow> rd_wf rd \<Longrightarrow> length bs = n"
  by (auto simp: quicRdBytes_def rd_wf_def split: if_splits)

lemma quicRdBytes_None: "quicRdBytes rd n = (None, rd') \<longleftrightarrow> rd' = rd\<lparr>rd_bad := True\<rparr> \<and>
    (rd_bad rd \<or> length (rd_buf rd) - rd_p rd < n)"
  by (auto simp: quicRdBytes_def split: if_splits)

lemma quicRdInt_step: "rd_wf rd \<Longrightarrow> rd_step rd (snd (quicRdInt rd n))"
  using quicRdBytes_step [of rd n] by (auto simp: quicRdInt_def split: prod.splits option.splits)

lemma quicRd8_step: "rd_wf rd \<Longrightarrow> rd_step rd (snd (quicRd8 rd))"
  using quicRdInt_step [of rd 1] by (auto simp: quicRd8_def split: prod.splits)

lemma quicRd32_step: "rd_wf rd \<Longrightarrow> rd_step rd (snd (quicRd32 rd))"
  using quicRdInt_step [of rd 4] by (auto simp: quicRd32_def split: prod.splits)

lemma quicRdVarint_step: "rd_wf rd \<Longrightarrow> rd_step rd (snd (quicRdVarint rd))"
  by (auto simp: rd_step_def rd_wf_def quicRdVarint_def Let_def)

lemma quicRdVarintBytes_step: "rd_wf rd \<Longrightarrow> rd_step rd (snd (quicRdVarintBytes rd))"
proof -
  assume wf: "rd_wf rd"
  obtain n rd1 where rd1: "quicRdVarint rd = (n, rd1)" by (cases "quicRdVarint rd")
  with quicRdVarint_step [OF wf] have st: "rd_step rd rd1" by simp
  then have "rd_step rd (snd (quicRdBytes rd1 (unat n)))"
    by (rule rd_step_trans) (simp add: quicRdBytes_step rd_step_wf [OF st])
  with st show ?thesis
    by (simp add: quicRdVarintBytes_def rd1 rd_step_bad)
qed

lemmas rd_steps = quicRdBytes_step quicRdInt_step quicRd8_step quicRd32_step quicRdVarint_step
  quicRdVarintBytes_step


text \<open>Whatever the bytes are, a varint that is read has at most 62 bits.\<close>

lemma be_step_bound:
  fixes a :: u64
  assumes "unat a < 2 ^ k" "k + 8 \<le> 64"
  shows "unat (be_step a b) < 2 ^ (k + 8)"
proof -
  have "a < 2 ^ k" using assms by (simp add: less_pow2_iff_unat)
  then have a: "bit a m \<Longrightarrow> m < k" for m by (rule small_bits)
  have "take_bit (k + 8) (be_step a b) = be_step a b"
    by (rule bit_word_eqI) (auto simp: be_step_def bit_simps dest: a bit_imp_le_length)
  then have "unat (be_step a b) = take_bit (k + 8) (unat (be_step a b))"
    by (metis unsigned_take_bit_eq)
  then show ?thesis by (metis take_bit_nat_less_exp)
qed

lemma foldl_be_step_bound:
  "unat a < 2 ^ k \<Longrightarrow> k + 8 * length bs \<le> 64 \<Longrightarrow> unat (foldl be_step a bs) < 2 ^ (k + 8 * length bs)"
proof (induction bs arbitrary: a k)
  case (Cons b bs)
  have "unat (foldl be_step (be_step a b) bs) < 2 ^ (k + 8 + 8 * length bs)"
    using Cons.prems by (intro Cons.IH be_step_bound) simp_all
  moreover have "k + 8 + 8 * length bs = k + 8 * length (b # bs)" by simp
  ultimately show ?case by (simp only: foldl_Cons)
qed simp

lemma quicRdVarint_value: "quicRdVarint rd = (v, rd1) \<Longrightarrow> unat v < 2 ^ 62"
proof -
  assume v: "quicRdVarint rd = (v, rd1)"
  let ?b = "rd_buf rd ! rd_p rd"
  let ?bs = "take (2 ^ unat (drop_bit 6 ?b) - 1) (drop (Suc (rd_p rd)) (rd_buf rd))"
  have "unat (drop_bit 6 ?b) = unat ?b div 64" by (simp add: drop_bit_eq_div unat_div)
  also have "\<dots> < 4" using unsigned_less [where 'a = nat, of ?b] by simp
  finally have "(2::nat) ^ unat (drop_bit 6 ?b) \<le> 2 ^ 3"
    by (intro power_increasing) simp_all
  then have len: "length ?bs \<le> 7" by simp
  have "unat (?b AND 0x3f) < 2 ^ 6"
  proof -
    have "?b AND 0x3f = take_bit 6 ?b" by (simp add: take_bit_eq_mask mask_eq_exp_minus_1)
    then show ?thesis
      using take_bit_nat_less_exp [of 6 "unat ?b"] by (simp add: unsigned_take_bit_eq)
  qed
  then have "unat (ucast (?b AND 0x3f) :: u64) < 2 ^ 6"
    by (simp add: unsigned_ucast_eq take_bit_nat_eq_self)
  then have "unat (foldl be_step (ucast (?b AND 0x3f)) ?bs) < 2 ^ (6 + 8 * length ?bs)"
    using foldl_be_step_bound [of "ucast (?b AND 0x3f)" 6 ?bs] len by simp
  also have "\<dots> \<le> 2 ^ 62" using len by (intro power_increasing) simp_all
  finally show ?thesis
    using v by (auto simp: quicRdVarint_def Let_def split: if_splits)
qed


section \<open>Wire items\<close>

text \<open>
  The contract between one kind of field on the wire and the code that strings such fields
  together: writing appends a fixed encoding, and reading that encoding gives the value back and
  leaves the rest.
\<close>

locale wire_item =
  fixes put :: "QuicWr \<Rightarrow> 'a \<Rightarrow> QuicWr"
    and get :: "QuicRd \<Rightarrow> 'b \<times> QuicRd"
    and bytes :: "'a \<Rightarrow> u8 list"
    and ok :: "'a \<Rightarrow> bool"
    and res :: "'a \<Rightarrow> 'b"
  assumes put_grow: "wr_wf wr \<Longrightarrow> ok x \<Longrightarrow> wr_grow wr (put wr x) (bytes x)"
    and get_mk: "ok x \<Longrightarrow>
      get (rd_mk pre (bytes x @ rest)) = (res x, rd_mk (pre @ bytes x) rest)"
begin

text \<open>Writing a list of items, and reading \<open>n\<close> of them.\<close>

primrec put_all :: "QuicWr \<Rightarrow> 'a list \<Rightarrow> QuicWr" where
  "put_all wr [] = wr"
| "put_all wr (x # xs) = put_all (put wr x) xs"

primrec get_n :: "nat \<Rightarrow> QuicRd \<Rightarrow> 'b list \<times> QuicRd" where
  "get_n 0 rd = ([], rd)"
| "get_n (Suc n) rd =
     (case get rd of (y, rd1) \<Rightarrow> case get_n n rd1 of (ys, rd2) \<Rightarrow> (y # ys, rd2))"

lemma put_all_grow:
  "wr_wf wr \<Longrightarrow> list_all ok xs \<Longrightarrow> wr_grow wr (put_all wr xs) (concat (map bytes xs))"
proof (induction xs arbitrary: wr)
  case Nil
  then show ?case by (simp add: wr_grow_Nil)
next
  case (Cons x xs)
  then have "wr_grow wr (put wr x) (bytes x)" by (simp add: put_grow)
  moreover from this have "wr_wf (put wr x)" by (simp add: wr_grow_def)
  ultimately show ?case
    using Cons by (auto intro: wr_grow_trans)
qed

lemma get_n_mk:
  "list_all ok xs \<Longrightarrow>
   get_n (length xs) (rd_mk pre (concat (map bytes xs) @ rest)) =
     (map res xs, rd_mk (pre @ concat (map bytes xs)) rest)"
  by (induction xs arbitrary: pre) (simp_all add: get_mk)

lemma put_get:
  assumes "wr_wf wr" "ok x" "\<not> wr_bad (put wr x)"
  shows "wr_out (put wr x) = wr_out wr @ bytes x"
    and "get (quicRdInit (drop (length (wr_out wr)) (wr_out (put wr x)) @ rest)) =
      (res x, rd_mk (bytes x) rest)"
proof -
  show out: "wr_out (put wr x) = wr_out wr @ bytes x"
    using put_grow [OF assms(1,2)] assms(3) by (simp add: wr_grow_def)
  show "get (quicRdInit (drop (length (wr_out wr)) (wr_out (put wr x)) @ rest)) =
      (res x, rd_mk (bytes x) rest)"
    using get_mk [OF assms(2), of "[]"] by (simp add: out quicRdInit_mk)
qed

end

interpretation varint: wire_item quicWrVarint quicRdVarint varint_bytes varint_ok id
  by unfold_locales (simp_all add: quicWrVarint_grow wire_rd)

interpretation vstring: wire_item quicWrVarintBytes quicRdVarintBytes varint_string string_ok Some
  by unfold_locales (simp_all add: quicWrVarintBytes_grow wire_rd)


section \<open>Recovering packet numbers\<close>

lemma pnBits_bound: "unat rng < 2 ^ (pnBits rng b - b) \<and> b \<le> pnBits rng b"
proof (induction rng b rule: pnBits.induct)
  case (1 rng b)
  show ?case
  proof (cases "0 < rng")
    case True
    with 1 have IH: "unat rng div 2 < 2 ^ (pnBits (drop_bit 1 rng) (Suc b) - Suc b)"
      "Suc b \<le> pnBits (drop_bit 1 rng) (Suc b)"
      by (simp_all add: drop_bit_eq_div unat_div)
    let ?k = "pnBits (drop_bit 1 rng) (Suc b)"
    have "2 ^ (?k - b) = 2 * (2::nat) ^ (?k - Suc b)"
      using IH(2) by (metis Suc_diff_le diff_Suc_Suc power_Suc)
    with IH True show ?thesis
      by (simp add: pnBits.simps [of rng b])
  next
    case False
    then have "rng = 0" using word_gt_0 by blast
    then show ?thesis by (simp add: pnBits.simps [of 0 b])
  qed
qed

lemma window_nearest:
  fixes e pn W H :: nat
  assumes W: "W = 2 * H" "0 < H" and lo: "e < pn + H" and hi: "pn \<le> e + H"
  defines "c \<equiv> e div W * W + pn mod W"
  shows "(if c + H \<le> e then c + W else if c > e + H \<and> c \<ge> W then c - W else c) = pn"
proof -
  define j k r s where "j = e div W" and "k = pn div W" and "r = pn mod W" and "s = e mod W"
  have e: "e = j * W + s" and p: "pn = k * W + r" and rs: "r < W" "s < W"
    using W by (simp_all only: j_def k_def r_def s_def div_mult_mod_eq) simp_all
  have c: "c = j * W + r" by (simp add: c_def j_def r_def)
  have "k < j + 2"
  proof (rule ccontr)
    assume "\<not> k < j + 2"
    then have "(j + 2) * W \<le> k * W" by (intro mult_le_mono1) simp
    with hi e p rs W show False by (simp add: algebra_simps)
  qed
  moreover have "j < k + 2"
  proof (rule ccontr)
    assume "\<not> j < k + 2"
    then have "(k + 2) * W \<le> j * W" by (intro mult_le_mono1) simp
    with lo e p rs W show False by (simp add: algebra_simps)
  qed
  ultimately consider "k = j" | "k = Suc j" | "j = Suc k" by linarith
  then show ?thesis
    using lo hi e p rs W c by cases auto
qed

lemma pn_candidate:
  fixes e t :: u64
  assumes "n < 64" "unat t < 2 ^ n"
  shows "unat ((e AND NOT (push_bit n 1 - 1)) OR t) = unat e div 2 ^ n * 2 ^ n + unat t"
proof -
  have m: "push_bit n 1 - 1 = (mask n :: u64)"
    by (simp add: mask_eq_exp_minus_1 push_bit_eq_mult)
  have "unat t = take_bit n (unat t)"
    using assms by (simp add: take_bit_nat_eq_self)
  then have tb: "bit (unat t) i \<Longrightarrow> i < n" for i by (metis bit_take_bit_iff)
  have "unat ((e AND NOT (mask n)) OR t) = push_bit n (drop_bit n (unat e)) OR unat t"
    by (rule bit_eqI) (auto simp: bit_simps dest: bit_imp_le_length)
  also have "\<dots> = push_bit n (drop_bit n (unat e)) + unat t"
    by (rule disjunctive_add [symmetric]) (auto simp: bit_push_bit_iff dest: tb)
  finally show ?thesis
    unfolding m by (simp add: push_bit_eq_mult drop_bit_eq_div)
qed

lemma pn_window:
  assumes "1 \<le> n" "n \<le> 4"
  shows "(2::nat) ^ (n * 8) = 2 * 2 ^ (n * 8 - 1)" and "(2::nat) ^ (n * 8) \<le> 2 ^ 32"
    and "unat (push_bit (n * 8) 1 :: u64) = 2 ^ (n * 8)"
    and "unat (push_bit (n * 8) 1 div 2 :: u64) = 2 ^ (n * 8 - 1)"
    and "unat (QUIC_MAX_PACKET_NUMBER - push_bit (n * 8) 1) = 2 ^ 62 - 2 ^ (n * 8)"
proof -
  show half: "(2::nat) ^ (n * 8) = 2 * 2 ^ (n * 8 - 1)"
    using assms by (simp flip: power_Suc)
  show le: "(2::nat) ^ (n * 8) \<le> 2 ^ 32"
    using assms power_increasing [of "n * 8" 32 "2::nat"] by simp
  show win: "unat (push_bit (n * 8) 1 :: u64) = 2 ^ (n * 8)"
    using assms by (simp add: push_bit_eq_mult unat_pow2)
  show "unat (push_bit (n * 8) 1 div 2 :: u64) = 2 ^ (n * 8 - 1)"
    using win half by (simp add: unat_div)
  show "unat (QUIC_MAX_PACKET_NUMBER - push_bit (n * 8) 1) = 2 ^ 62 - 2 ^ (n * 8)"
    using le win
    by (subst unat_word_sub) (simp_all add: QUIC_MAX_PACKET_NUMBER_def word_le_nat_alt)
qed

lemma quicPnDecode_nearest:
  fixes largest pn :: u64
  defines "e \<equiv> (if largest = QUIC_PN_NONE then 0 else unat largest + 1)"
  assumes n: "1 \<le> n" "n \<le> 4" and pn: "pn < QUIC_MAX_PACKET_NUMBER"
    and e: "e \<le> 2 ^ 62"
    and lo: "e < unat pn + 2 ^ (n * 8 - 1)" and hi: "unat pn \<le> e + 2 ^ (n * 8 - 1)"
  shows "quicPnDecode largest (take_bit (n * 8) pn) n = pn"
proof -
  define W :: nat where "W = 2 ^ (n * 8)"
  define H :: nat where "H = 2 ^ (n * 8 - 1)"
  define x :: u64 where "x = (if largest = QUIC_PN_NONE then 0 else largest + 1)"
  define w :: u64 where "w = push_bit (n * 8) 1"
  define c :: u64 where "c = (x AND NOT (w - 1)) OR take_bit (n * 8) pn"
  have dec: "quicPnDecode largest (take_bit (n * 8) pn) n =
      (if c + w div 2 \<le> x \<and> c < QUIC_MAX_PACKET_NUMBER - w then c + w
       else if c > x + w div 2 \<and> c \<ge> w then c - w else c)"
    using n unfolding quicPnDecode_def Let_def c_def w_def x_def by simp
  have WH: "W = 2 * H" "0 < H" and Wle: "W \<le> 2 ^ 32"
    and win: "unat w = W" and hwin: "unat (w div 2) = H"
    and max: "unat (QUIC_MAX_PACKET_NUMBER - w) = 2 ^ 62 - W"
    using pn_window [OF n] by (simp_all add: W_def H_def w_def)
  have x: "unat x = e"
    using e by (auto simp: x_def e_def unat_word_ariths)
  have c: "unat c = e div W * W + unat pn mod W"
  proof -
    have "unat (take_bit (n * 8) pn) = unat pn mod W"
      by (simp only: unsigned_take_bit_eq) (simp add: take_bit_eq_mod W_def)
    then show ?thesis
      using pn_candidate [of "n * 8" "take_bit (n * 8) pn" x] WH x n
      unfolding c_def w_def W_def by simp
  qed
  have pn62: "unat pn < 2 ^ 62"
    using pn by (simp add: QUIC_MAX_PACKET_NUMBER_def word_less_nat_alt)
  have "e div W * W \<le> e" "unat pn mod W < W" using WH by simp_all
  then have cle: "unat c < e + W" unfolding c by linarith
  have near: "(if unat c + H \<le> e then unat c + W
      else if unat c > e + H \<and> unat c \<ge> W then unat c - W else unat c) = unat pn"
    unfolding c by (rule window_nearest [OF WH]) (use lo hi in \<open>simp_all add: H_def\<close>)
  have sums: "unat (c + w) = unat c + W" "unat (c + w div 2) = unat c + H"
      "unat (x + w div 2) = e + H"
    using win hwin x e Wle WH cle by (simp_all add: unat_word_add)
  have diff: "unat (c - w) = unat c - W" if "W \<le> unat c"
    using that win by (simp add: unat_word_sub word_le_nat_alt)
  have "unat (quicPnDecode largest (take_bit (n * 8) pn) n) = unat pn"
    unfolding dec using near sums diff pn62 x win max WH
    by (auto simp: word_le_nat_alt word_less_nat_alt split: if_splits)
  then show ?thesis by (rule unsigned_word_eqI)
qed

definition pn_expected :: "u64 \<Rightarrow> nat" where
  "pn_expected largest = (if largest = QUIC_PN_NONE then 0 else unat largest + 1)"

lemma quicPnSize_range: "1 \<le> quicPnSize pn acked" "quicPnSize pn acked \<le> 4"
  by (simp_all add: quicPnSize_def Let_def)

lemma pnBits_bytes:
  assumes "unat x < 2 ^ 31"
  shows "unat x < 2 ^ ((if (pnBits (x * 2) 0 + 7) div 8 < 1 then 1
    else if 4 < (pnBits (x * 2) 0 + 7) div 8 then 4 else (pnBits (x * 2) 0 + 7) div 8) * 8 - 1)"
    (is "_ < 2 ^ (?n * 8 - 1)")
proof -
  let ?b = "pnBits (x * 2) 0"
  have "unat (x * 2) = 2 * unat x"
    using assms by (simp add: unat_word_ariths)
  then have b: "2 * unat x < 2 ^ ?b"
    using pnBits_bound [of "x * 2" 0] by simp
  have "2 * unat x < 2 ^ (?n * 8)"
  proof (cases "4 < (?b + 7) div 8")
    case True
    then have "?n = 4" by simp
    with assms show ?thesis by simp
  next
    case False
    then have "?b \<le> ?n * 8" by auto
    with b show ?thesis by (meson less_le_trans one_le_numeral power_increasing)
  qed
  moreover have "?n * 8 = Suc (?n * 8 - 1)" by simp
  then have "(2::nat) ^ (?n * 8) = 2 * 2 ^ (?n * 8 - 1)" by (metis power_Suc)
  ultimately show ?thesis by linarith
qed

lemma quicPnSize_wide:
  assumes pn: "pn < QUIC_MAX_PACKET_NUMBER"
    and few: "unat pn + 1 - pn_expected acked < 2 ^ 31"
    and le: "acked = QUIC_PN_NONE \<or> acked \<le> pn"
  shows "unat pn + 1 - pn_expected acked < 2 ^ (quicPnSize pn acked * 8 - 1)"
proof -
  define u :: u64 where "u = (if acked = QUIC_PN_NONE \<or> acked > pn then pn + 1 else pn - acked)"
  have pn62: "unat pn < 2 ^ 62"
    using pn by (simp add: QUIC_MAX_PACKET_NUMBER_def word_less_nat_alt)
  have u: "unat u = unat pn + 1 - pn_expected acked"
    using le pn62
    by (auto simp: u_def pn_expected_def unat_word_add unat_word_sub word_le_nat_alt word_less_nat_alt)
  then show ?thesis
    using pnBits_bytes [of u] few
    by (simp add: quicPnSize_def Let_def flip: u_def)
qed


section \<open>Properties\<close>

text \<open>
  Variable-length integers round trip at every width: what \<^verbatim>\<open>_quicWrVarintSized\<close> appends is
  exactly \<open>n\<close> bytes, and \<^verbatim>\<open>_quicRdVarint\<close> reads the value back from them, consumes exactly those
  bytes and leaves whatever follows, for the minimal width as well as for a padded one.
\<close>

theorem varint_roundtrip:
  assumes "wr_wf wr" "\<not> wr_bad (quicWrVarintSized wr v n)"
  shows "\<exists>enc. wr_out (quicWrVarintSized wr v n) = wr_out wr @ enc \<and> length enc = n \<and>
    quicRdVarint (quicRdInit (enc @ rest)) =
      (v, \<lparr>rd_buf = enc @ rest, rd_p = n, rd_bad = False\<rparr>)"
proof -
  have ok: "varint_ok v" "quicVarintSize v \<le> n" "n \<in> {1, 2, 4, 8}"
    using assms(2) by (auto simp: wire_wr split: if_splits)
  then have len: "length (varint_enc n v) = n" by (auto simp: length_varint_enc)
  have "wr_out (quicWrVarintSized wr v n) = wr_out wr @ varint_enc n v"
    using quicWrBytes_grow [OF assms(1), of "varint_enc n v"] assms(2) ok
    by (simp add: quicWrVarintSized_bytes wr_grow_def)
  moreover have "quicRdVarint (quicRdInit (varint_enc n v @ rest)) =
      (v, \<lparr>rd_buf = varint_enc n v @ rest, rd_p = n, rd_bad = False\<rparr>)"
    using quicRdVarint_enc [OF varint_size_fits [OF ok(2,1,3)] ok(3), of "[]" rest] len
    by (simp add: quicRdInit_mk rd_mk_def)
  ultimately show ?thesis using len by blast
qed

theorem varint_roundtrip_witness:
  "\<exists>enc. wr_out (quicWrVarintSized (quicWrInit (replicate 8 0)) 15293 4) = [] @ enc \<and>
    length enc = 4 \<and> fst (quicRdVarint (quicRdInit (enc @ [7]))) = 15293"
proof -
  have "\<not> wr_bad (quicWrVarintSized (quicWrInit (replicate 8 0)) 15293 4)" by code_simp
  from varint_roundtrip [OF _ this, of "[7]"] show ?thesis by auto
qed

text \<open>
  The error flag of the varint writer says exactly when nothing was written: the value needs
  more than 62 bits, the width is too small or is not one of the four, the buffer is too full, or
  an earlier write had already failed. \<^verbatim>\<open>_quicVarintSize\<close> is the least width that is accepted.
\<close>

theorem varint_refused_iff:
  "(wr_bad (quicWrVarintSized wr v n) \<longleftrightarrow>
     wr_bad wr \<or> n \<notin> {1, 2, 4, 8} \<or> 2 ^ (n * 8 - 2) \<le> unat v \<or> length (wr_buf wr) - wr_p wr < n)
   \<and> (wr_bad (quicWrVarintSized wr v n) \<longrightarrow>
       quicWrVarintSized wr v n = wr\<lparr>wr_bad := True\<rparr>)
   \<and> (quicVarintSize v = 0 \<longleftrightarrow> 2 ^ 62 \<le> unat v)
   \<and> (n \<in> {1, 2, 4, 8} \<and> unat v < 2 ^ (n * 8 - 2) \<longrightarrow>
        quicVarintSize v \<in> {1, 2, 4, 8} \<and> quicVarintSize v \<le> n)"
proof (intro conjI)
  have fit: "(varint_ok v \<and> quicVarintSize v \<le> n) \<longleftrightarrow> unat v < 2 ^ (n * 8 - 2)" if "n \<in> {1, 2, 4, 8}"
    using that
    by (auto simp: quicVarintSize_def varint_ok_def QUIC_MAX_PACKET_NUMBER_def word_less_nat_alt)
  show "wr_bad (quicWrVarintSized wr v n) \<longleftrightarrow>
      wr_bad wr \<or> n \<notin> {1, 2, 4, 8} \<or> 2 ^ (n * 8 - 2) \<le> unat v \<or> length (wr_buf wr) - wr_p wr < n"
  proof (cases "n \<in> {1, 2, 4, 8}")
    case True
    then have "length (varint_enc n v) = n" by (auto simp: length_varint_enc)
    with True fit [OF True] show ?thesis
      by (auto simp: quicWrVarintSized_bytes quicWrBytes_def)
  qed (simp add: quicWrVarintSized_bytes)
  show "wr_bad (quicWrVarintSized wr v n) \<longrightarrow> quicWrVarintSized wr v n = wr\<lparr>wr_bad := True\<rparr>"
    by (auto simp: quicWrVarintSized_bytes quicWrBytes_def)
  show "quicVarintSize v = 0 \<longleftrightarrow> 2 ^ 62 \<le> unat v"
    by (simp add: varint_ok_def QUIC_MAX_PACKET_NUMBER_def word_less_nat_alt linorder_not_less)
  show "n \<in> {1, 2, 4, 8} \<and> unat v < 2 ^ (n * 8 - 2) \<longrightarrow>
      quicVarintSize v \<in> {1, 2, 4, 8} \<and> quicVarintSize v \<le> n"
    using fit quicVarintSize_cases [of v] quicVarintSize_eq_0 [of v] by auto
qed

theorem varint_refused_iff_witness:
  "wr_bad (quicWrVarintSized (quicWrInit (replicate 8 0)) 64 1) \<and> quicVarintSize 64 = 2"
  using varint_refused_iff [of "quicWrInit (replicate 8 0)" 64 1]
  by (simp add: quicVarintSize_def)

text \<open>
  Readers never leave their object: from a cursor inside the object, every read primitive
  leaves a cursor inside the same object, only moves forward, keeps the sticky error flag, and a
  string it returns is the bytes of the object just before the new position.
\<close>

theorem readers_in_bounds:
  assumes "rd_wf rd"
  shows "list_all (rd_step rd) [snd (quicRdBytes rd n), snd (quicRdInt rd n), snd (quicRd8 rd),
      snd (quicRd16 rd), snd (quicRd32 rd), snd (quicRdVarint rd), snd (quicRdVarintBytes rd)]
    \<and> (\<forall>bs. fst (quicRdBytes rd n) = Some bs \<longrightarrow>
        length bs = n \<and> rd_p (snd (quicRdBytes rd n)) = rd_p rd + n
        \<and> (\<forall>i<n. bs ! i = rd_buf rd ! (rd_p rd + i)))
    \<and> (fst (quicRdBytes rd n) = None \<longleftrightarrow> rd_bad (snd (quicRdBytes rd n)))"
proof (intro conjI)
  show "list_all (rd_step rd) [snd (quicRdBytes rd n), snd (quicRdInt rd n), snd (quicRd8 rd),
      snd (quicRd16 rd), snd (quicRd32 rd), snd (quicRdVarint rd), snd (quicRdVarintBytes rd)]"
    using rd_steps [OF assms] quicRdInt_step [OF assms, of 2]
    by (simp add: quicRd16_def split: prod.splits) (metis snd_conv)
  show "\<forall>bs. fst (quicRdBytes rd n) = Some bs \<longrightarrow>
        length bs = n \<and> rd_p (snd (quicRdBytes rd n)) = rd_p rd + n
        \<and> (\<forall>i<n. bs ! i = rd_buf rd ! (rd_p rd + i))"
    using assms by (auto simp: quicRdBytes_def rd_wf_def)
  show "fst (quicRdBytes rd n) = None \<longleftrightarrow> rd_bad (snd (quicRdBytes rd n))"
    by (auto simp: quicRdBytes_def)
qed

theorem readers_in_bounds_witness:
  "rd_step (quicRdInit [0x40]) (snd (quicRdVarint (quicRdInit [0x40])))"
  using readers_in_bounds [of "quicRdInit [0x40]" 0]
  by (simp add: rd_wf_def quicRdInit_def)

text \<open>
  A packet number sent in the number of bytes \<^verbatim>\<open>_quicPnSize\<close> chooses is recovered by
  \<^verbatim>\<open>_quicPnDecode\<close>: whatever the receiver's largest packet number is between the one the sender
  knows acknowledged and half a window past the packet, the receiver finds the full 62-bit number,
  as long as fewer than \<open>2 ^ 31\<close> packets are unacknowledged.
\<close>

theorem packet_number_recovered:
  assumes "pn < QUIC_MAX_PACKET_NUMBER"
    and "acked = QUIC_PN_NONE \<or> acked \<le> pn"
    and "unat pn + 1 - pn_expected acked < 2 ^ 31"
    and "pn_expected acked \<le> pn_expected largest"
    and "pn_expected largest \<le> 2 ^ 62"
    and "pn_expected largest < unat pn + 2 ^ (quicPnSize pn acked * 8 - 1)"
  shows "quicPnDecode largest (take_bit (quicPnSize pn acked * 8) pn) (quicPnSize pn acked) = pn"
  using assms quicPnSize_range [of pn acked] quicPnSize_wide [OF assms(1) assms(3) assms(2)]
  by (intro quicPnDecode_nearest) (auto simp flip: pn_expected_def)

theorem packet_number_recovered_witness:
  "quicPnSize 0xac5c02 0xabe8b3 = 2 \<and> quicPnDecode 0xabe8b3 0x5c02 2 = 0xac5c02"
proof -
  have sz: "quicPnSize 0xac5c02 0xabe8b3 = 2" by code_simp
  have tr: "take_bit 16 (0xac5c02 :: u64) = 0x5c02" by simp
  show ?thesis
    using packet_number_recovered [of "0xac5c02" "0xabe8b3" "0xabe8b3"] sz tr
    by (simp add: QUIC_MAX_PACKET_NUMBER_def pn_expected_def)
qed

end
