(* ===== verification/QuicHdr.thy ===== *)
theory QuicHdr
  imports QuicWire
begin

text \<open>
  Packet headers: \<^verbatim>\<open>QuicPktHdr\<close> of \<^verbatim>\<open>src/cxquic/quic_private.h\<close> and the encoder and the
  two-step decoder of \<^verbatim>\<open>src/cxquic/wire.c\<close>.

  A connection ID (\<^verbatim>\<open>len\<close> plus the first \<^verbatim>\<open>len\<close> bytes of \<^verbatim>\<open>id\<close>) is the list of its
  bytes. Pointers into the packet are the bytes they denote, so \<^verbatim>\<open>token\<close> with \<^verbatim>\<open>tokenLen\<close>
  is one list, \<^verbatim>\<open>payload\<close> with \<^verbatim>\<open>payloadLen\<close> another. A decoder that returns false leaves
  its output unspecified for the caller (\<^verbatim>\<open>_Success_(return)\<close>), which is \<open>None\<close> here.
\<close>

section \<open>Data\<close>

datatype QuicPktType =
    QUIC_PKT_INITIAL
  | QUIC_PKT_0RTT
  | QUIC_PKT_HANDSHAKE
  | QUIC_PKT_RETRY
  | QUIC_PKT_SHORT
  | QUIC_PKT_VERSIONNEG
  | QUIC_PKT_UNKNOWN

primrec pktTypeCode :: "QuicPktType \<Rightarrow> u8" where
  "pktTypeCode QUIC_PKT_INITIAL = 0"
| "pktTypeCode QUIC_PKT_0RTT = 1"
| "pktTypeCode QUIC_PKT_HANDSHAKE = 2"
| "pktTypeCode QUIC_PKT_RETRY = 3"
| "pktTypeCode QUIC_PKT_SHORT = 4"
| "pktTypeCode QUIC_PKT_VERSIONNEG = 5"
| "pktTypeCode QUIC_PKT_UNKNOWN = 6"

text \<open>The two type bits of a version 1 long header.\<close>

definition pktTypeOfBits :: "u8 \<Rightarrow> QuicPktType" where
  "pktTypeOfBits t =
     (if t = 0 then QUIC_PKT_INITIAL else if t = 1 then QUIC_PKT_0RTT
      else if t = 2 then QUIC_PKT_HANDSHAKE else QUIC_PKT_RETRY)"

type_synonym QuicCid = "u8 list"

record QuicPktHdr =
  h_type :: QuicPktType
  h_pnLen :: nat
  h_lenSize :: nat
  h_keyPhase :: bool
  h_spin :: bool
  h_version :: u32
  h_dcid :: QuicCid
  h_scid :: QuicCid
  h_token :: "u8 list"
  h_tag :: "u8 list option"
  h_pn :: u64
  h_pnEnc :: u64
  h_len :: nat
  h_pnOff :: nat
  h_pktLen :: nat
  h_payload :: "u8 list"

definition hdrZero :: QuicPktHdr where
  "hdrZero = \<lparr>h_type = QUIC_PKT_INITIAL, h_pnLen = 0, h_lenSize = 0, h_keyPhase = False,
     h_spin = False, h_version = 0, h_dcid = [], h_scid = [], h_token = [], h_tag = None,
     h_pn = 0, h_pnEnc = 0, h_len = 0, h_pnOff = 0, h_pktLen = 0, h_payload = []\<rparr>"

abbreviation (input) QUIC_MAX_CID :: nat where "QUIC_MAX_CID \<equiv> 20"
abbreviation (input) QUIC_TAG_LEN :: nat where "QUIC_TAG_LEN \<equiv> 16"
abbreviation (input) QUIC_VERSION_1 :: u32 where "QUIC_VERSION_1 \<equiv> 1"
abbreviation (input) QUIC_VERSION_NEGOTIATE :: u32 where "QUIC_VERSION_NEGOTIATE \<equiv> 0"


section \<open>Decoding\<close>

definition hdrRdCid :: "QuicRd \<Rightarrow> QuicCid option \<times> QuicRd" where
  "hdrRdCid rd =
     (case quicRd8 rd of (n, rd1) \<Rightarrow>
        if rd_bad rd1 \<or> unat n > QUIC_MAX_CID then (None, rd1)
        else quicRdBytes rd1 (unat n))"

text \<open>The part of \<^verbatim>\<open>_quicHdrDecode\<close> for a short header, whose first byte has been read.\<close>

definition hdrDecodeShort :: "u8 list \<Rightarrow> u8 \<Rightarrow> QuicRd \<Rightarrow> nat \<Rightarrow> QuicPktHdr option" where
  "hdrDecodeShort pkt b0 rd dcidLen =
     (if b0 AND 0x40 = 0 \<or> dcidLen > QUIC_MAX_CID then None
      else
        case quicRdBytes rd dcidLen of
          (None, rd1) \<Rightarrow> None
        | (Some p, rd1) \<Rightarrow>
            let h = hdrZero\<lparr>h_type := QUIC_PKT_SHORT, h_dcid := p, h_spin := (b0 AND 0x20 \<noteq> 0),
                  h_pnOff := rd_p rd1, h_pktLen := length pkt,
                  h_len := length pkt - rd_p rd1\<rparr>
            in if h_len h \<ge> 1 + QUIC_TAG_LEN then Some h else None)"

text \<open>
  The part for a version 1 long header, once the version and the connection IDs are in \<open>h\<close>.
\<close>

definition hdrDecodeLong :: "u8 \<Rightarrow> QuicPktHdr \<Rightarrow> QuicRd \<Rightarrow> QuicPktHdr option" where
  "hdrDecodeLong b0 h rd =
     (if b0 AND 0x40 = 0 then None
      else
        let h1 = h\<lparr>h_type := pktTypeOfBits (drop_bit 4 b0 AND 0x03)\<rparr> in
        if h_type h1 = QUIC_PKT_RETRY then
          let left = quicRdLeft rd in
          if left < QUIC_TAG_LEN then None
          else
            let rest = drop (rd_p rd) (rd_buf rd); tl = left - QUIC_TAG_LEN in
            Some (h1\<lparr>h_token := take tl rest, h_tag := Some (take QUIC_TAG_LEN (drop tl rest)),
                     h_pktLen := length (rd_buf rd)\<rparr>)
        else
          case (if h_type h1 = QUIC_PKT_INITIAL
                then case quicRdVarintBytes rd of
                       (tok, rd1) \<Rightarrow> (h1\<lparr>h_token := (case tok of None \<Rightarrow> [] | Some t \<Rightarrow> t)\<rparr>, rd1)
                else (h1, rd)) of
            (h2, rd1) \<Rightarrow>
              if rd_bad rd1 then None
              else
                case quicRdVarint rd1 of
                  (plen, rd2) \<Rightarrow>
                    if rd_bad rd2 \<or> unat plen > quicRdLeft rd2 then None
                    else
                      let h3 = h2\<lparr>h_len := unat plen, h_pnOff := rd_p rd2,
                                  h_pktLen := rd_p rd2 + unat plen\<rparr>
                      in if h_len h3 \<ge> 1 + QUIC_TAG_LEN then Some h3 else None)"

definition quicHdrDecode :: "u8 list \<Rightarrow> nat \<Rightarrow> QuicPktHdr option" where
  "quicHdrDecode pkt dcidLen =
     (case quicRd8 (quicRdInit pkt) of
        (b0, rd) \<Rightarrow>
          if rd_bad rd then None
          else if b0 AND 0x80 = 0 then hdrDecodeShort pkt b0 rd dcidLen
          else
            case quicRd32 rd of
              (ver, rd1) \<Rightarrow>
                case hdrRdCid rd1 of
                  (None, rd2) \<Rightarrow> None
                | (Some dcid, rd2) \<Rightarrow>
                    case hdrRdCid rd2 of
                      (None, rd3) \<Rightarrow> None
                    | (Some scid, rd3) \<Rightarrow>
                        let h = hdrZero\<lparr>h_version := ver, h_dcid := dcid, h_scid := scid\<rparr> in
                        if ver = QUIC_VERSION_NEGOTIATE then
                          (let h1 = h\<lparr>h_type := QUIC_PKT_VERSIONNEG,
                                      h_payload := drop (rd_p rd3) (rd_buf rd3),
                                      h_pktLen := length pkt\<rparr>
                           in if length (h_payload h1) > 0 \<and> length (h_payload h1) mod 4 = 0
                              then Some h1 else None)
                        else if ver \<noteq> QUIC_VERSION_1 then
                          Some (h\<lparr>h_type := QUIC_PKT_UNKNOWN, h_pktLen := length pkt\<rparr>)
                        else hdrDecodeLong b0 h rd3)"

definition quicHdrDecodePN :: "QuicPktHdr \<Rightarrow> u8 list \<Rightarrow> u64 \<Rightarrow> QuicPktHdr option" where
  "quicHdrDecodePN h pkt largestPn =
     (if h_type h \<notin> {QUIC_PKT_SHORT, QUIC_PKT_INITIAL, QUIC_PKT_0RTT, QUIC_PKT_HANDSHAKE}
      then None
      else
        let b0 = pkt ! 0;
            reserved = (if h_type h = QUIC_PKT_SHORT then 0x18 else 0x0c)
        in if b0 AND reserved \<noteq> 0 then None
           else
             let h1 = (if h_type h = QUIC_PKT_SHORT then h\<lparr>h_keyPhase := (b0 AND 0x04 \<noteq> 0)\<rparr>
                       else h);
                 h2 = h1\<lparr>h_pnLen := unat (b0 AND 0x03) + 1\<rparr>
             in if h_len h2 < h_pnLen h2 + QUIC_TAG_LEN then None
                else
                  case quicRdInt (quicRdInit (take (h_pnLen h2) (drop (h_pnOff h2) pkt)))
                         (h_pnLen h2) of
                    (enc, rd) \<Rightarrow>
                      if rd_bad rd then None
                      else Some (h2\<lparr>h_pnEnc := enc,
                                   h_pn := quicPnDecode largestPn enc (h_pnLen h2),
                                   h_payload := take (h_len h2 - h_pnLen h2)
                                     (drop (h_pnOff h2 + h_pnLen h2) pkt)\<rparr>))"


section \<open>Encoding\<close>

definition hdrLenSize :: "QuicPktHdr \<Rightarrow> nat" where
  "hdrLenSize h =
     (if h_lenSize h = 0 then quicVarintSize (of_nat (h_len h))
      else
        let n = quicVarintSize (of_nat (h_len h))
        in if n \<noteq> 0 \<and> h_lenSize h \<ge> n then h_lenSize h else 0)"

definition hdrFirstByte :: "QuicPktHdr \<Rightarrow> u8" where
  "hdrFirstByte h =
     (case h_type h of
        QUIC_PKT_SHORT \<Rightarrow>
          0x40 OR (if h_spin h then 0x20 else 0) OR (if h_keyPhase h then 0x04 else 0)
            OR (of_nat (h_pnLen h) - 1)
      | QUIC_PKT_VERSIONNEG \<Rightarrow> 0x80
      | QUIC_PKT_RETRY \<Rightarrow> 0xc0 OR push_bit 4 (pktTypeCode QUIC_PKT_RETRY)
      | t \<Rightarrow> 0xc0 OR push_bit 4 (pktTypeCode t) OR (of_nat (h_pnLen h) - 1))"

definition quicHdrSize :: "QuicPktHdr \<Rightarrow> nat" where
  "quicHdrSize h =
     (if length (h_dcid h) > QUIC_MAX_CID \<or> length (h_scid h) > QUIC_MAX_CID then 0
      else
        case h_type h of
          QUIC_PKT_SHORT \<Rightarrow>
            if h_pnLen h < 1 \<or> h_pnLen h > 4 then 0 else 1 + length (h_dcid h) + h_pnLen h
        | QUIC_PKT_VERSIONNEG \<Rightarrow> 1 + 4 + 1 + length (h_dcid h) + 1 + length (h_scid h)
        | QUIC_PKT_RETRY \<Rightarrow>
            1 + 4 + 1 + length (h_dcid h) + 1 + length (h_scid h) + length (h_token h)
              + QUIC_TAG_LEN
        | QUIC_PKT_UNKNOWN \<Rightarrow> 0
        | t \<Rightarrow>
            if h_pnLen h < 1 \<or> h_pnLen h > 4 then 0
            else
              let ls = hdrLenSize h in
              if ls = 0 then 0
              else
                let sz = 1 + 4 + 1 + length (h_dcid h) + 1 + length (h_scid h) + ls + h_pnLen h in
                if t = QUIC_PKT_INITIAL then
                  let ts = quicVarintSize (of_nat (length (h_token h))) in
                  if ts = 0 then 0 else sz + (ts + length (h_token h))
                else sz)"

definition quicHdrEncode :: "QuicWr \<Rightarrow> QuicPktHdr \<Rightarrow> bool \<times> QuicWr" where
  "quicHdrEncode wr h =
     (if quicHdrSize h = 0 then (False, wr)
      else
        let wr1 = quicWr8 wr (hdrFirstByte h) in
        if h_type h = QUIC_PKT_SHORT then
          let wr2 = quicWrBytes wr1 (h_dcid h);
              wr3 = quicWrInt wr2 (h_pnEnc h) (h_pnLen h)
          in (\<not> wr_bad wr3, wr3)
        else
          let wr2 = quicWr32 wr1 (if h_type h = QUIC_PKT_VERSIONNEG then QUIC_VERSION_NEGOTIATE
                                  else h_version h);
              wr3 = quicWr8 wr2 (of_nat (length (h_dcid h)));
              wr4 = quicWrBytes wr3 (h_dcid h);
              wr5 = quicWr8 wr4 (of_nat (length (h_scid h)));
              wr6 = quicWrBytes wr5 (h_scid h)
          in case h_type h of
               QUIC_PKT_VERSIONNEG \<Rightarrow> (\<not> wr_bad wr6, wr6)
             | QUIC_PKT_RETRY \<Rightarrow>
                 (case h_tag h of
                    None \<Rightarrow> (False, wr6)
                  | Some tag \<Rightarrow>
                      let wr7 = quicWrBytes wr6 (h_token h);
                          wr8 = quicWrBytes wr7 (take QUIC_TAG_LEN tag)
                      in (\<not> wr_bad wr8, wr8))
             | _ \<Rightarrow>
                 let wr7 = (if h_type h = QUIC_PKT_INITIAL
                            then quicWrVarintBytes wr6 (h_token h) else wr6);
                     wr8 = quicWrVarintSized wr7 (of_nat (h_len h)) (hdrLenSize h);
                     wr9 = quicWrInt wr8 (h_pnEnc h) (h_pnLen h)
                 in (\<not> wr_bad wr9, wr9))"


section \<open>The bytes of a header\<close>

text \<open>Everything up to the source connection ID of a long header.\<close>

definition long_pre :: "QuicPktHdr \<Rightarrow> u32 \<Rightarrow> u8 list" where
  "long_pre h ver =
     [hdrFirstByte h] @ be_bytes 4 (ucast ver) @ [of_nat (length (h_dcid h))] @ h_dcid h
       @ [of_nat (length (h_scid h))] @ h_scid h"

definition hdr_bytes :: "QuicPktHdr \<Rightarrow> u8 list" where
  "hdr_bytes h =
     (case h_type h of
        QUIC_PKT_SHORT \<Rightarrow> [hdrFirstByte h] @ h_dcid h @ be_bytes (h_pnLen h) (h_pnEnc h)
      | QUIC_PKT_VERSIONNEG \<Rightarrow> long_pre h QUIC_VERSION_NEGOTIATE
      | QUIC_PKT_RETRY \<Rightarrow>
          long_pre h (h_version h) @ h_token h
            @ (case h_tag h of None \<Rightarrow> [] | Some tag \<Rightarrow> take QUIC_TAG_LEN tag)
      | t \<Rightarrow>
          long_pre h (h_version h)
            @ (if t = QUIC_PKT_INITIAL then varint_string (h_token h) else [])
            @ varint_enc (hdrLenSize h) (of_nat (h_len h))
            @ be_bytes (h_pnLen h) (h_pnEnc h))"

text \<open>
  What a caller has to supply beyond what \<^verbatim>\<open>_quicHdrSize\<close> checks: lengths that are real object
  sizes, a pinned length width that is one of the four varint widths, and the tag of a Retry.
\<close>

definition hdr_caller_ok :: "QuicPktHdr \<Rightarrow> bool" where
  "hdr_caller_ok h \<longleftrightarrow>
     h_lenSize h \<in> {0, 1, 2, 4, 8} \<and> h_len h < 2 ^ 64 \<and> length (h_token h) < 2 ^ 64 \<and>
     (h_type h = QUIC_PKT_RETRY \<longrightarrow> (\<exists>tag. h_tag h = Some tag \<and> length tag = QUIC_TAG_LEN))"

lemma hdrLenSize_facts:
  assumes "hdrLenSize h \<noteq> 0" "h_lenSize h \<in> {0, 1, 2, 4, 8}"
  shows "varint_ok (of_nat (h_len h))" "quicVarintSize (of_nat (h_len h)) \<le> hdrLenSize h"
    "hdrLenSize h \<in> {1, 2, 4, 8}"
  using assms quicVarintSize_cases [of "of_nat (h_len h)"]
  by (auto simp: hdrLenSize_def Let_def split: if_splits)

lemma size_string_ok:
  assumes "quicVarintSize (of_nat (length d)) \<noteq> 0" "length d < 2 ^ 64"
  shows "string_ok d"
  using assms
  by (simp add: string_ok_def varint_ok_def QUIC_MAX_PACKET_NUMBER_def word_less_nat_alt
      unat_of_nat_small)

lemma long_pre_grow:
  assumes "wr_wf wr"
  shows "wr_grow wr
    (quicWrBytes (quicWr8 (quicWrBytes (quicWr8 (quicWr32 (quicWr8 wr (hdrFirstByte h)) ver)
       (of_nat (length (h_dcid h)))) (h_dcid h)) (of_nat (length (h_scid h)))) (h_scid h))
    (long_pre h ver)"
  unfolding quicWr8_bytes quicWr32_bytes
  by (rule wr_growI, (rule wr_grow_chain assms)+) (simp add: long_pre_def)

lemma hdr_long_facts:
  assumes "quicHdrSize h \<noteq> 0" "hdr_caller_ok h"
    and "h_type h \<in> {QUIC_PKT_INITIAL, QUIC_PKT_0RTT, QUIC_PKT_HANDSHAKE}"
  shows "varint_ok (of_nat (h_len h))" "quicVarintSize (of_nat (h_len h)) \<le> hdrLenSize h"
    "hdrLenSize h \<in> {1, 2, 4, 8}" "h_type h = QUIC_PKT_INITIAL \<Longrightarrow> string_ok (h_token h)"
    "1 \<le> h_pnLen h" "h_pnLen h \<le> 4"
    "length (h_dcid h) \<le> QUIC_MAX_CID" "length (h_scid h) \<le> QUIC_MAX_CID"
proof -
  have ls: "hdrLenSize h \<noteq> 0"
    using assms by (auto simp: quicHdrSize_def Let_def split: if_splits)
  show "varint_ok (of_nat (h_len h))" "quicVarintSize (of_nat (h_len h)) \<le> hdrLenSize h"
    "hdrLenSize h \<in> {1, 2, 4, 8}"
    using hdrLenSize_facts [OF ls] assms(2) by (simp_all add: hdr_caller_ok_def)
  show "string_ok (h_token h)" if "h_type h = QUIC_PKT_INITIAL"
    using that assms size_string_ok [of "h_token h"]
    by (auto simp: quicHdrSize_def hdr_caller_ok_def Let_def split: if_splits)
  show "1 \<le> h_pnLen h" "h_pnLen h \<le> 4"
    "length (h_dcid h) \<le> QUIC_MAX_CID" "length (h_scid h) \<le> QUIC_MAX_CID"
    using assms by (auto simp: quicHdrSize_def Let_def split: if_splits)
qed

lemma quicHdrEncode_grow:
  assumes wf: "wr_wf wr" and sz: "quicHdrSize h \<noteq> 0" and ok: "hdr_caller_ok h"
  shows "wr_grow wr (snd (quicHdrEncode wr h)) (hdr_bytes h)"
proof (cases "h_type h \<in> {QUIC_PKT_INITIAL, QUIC_PKT_0RTT, QUIC_PKT_HANDSHAKE}")
  case True
  note facts = hdr_long_facts [OF sz ok True]
  note pre = long_pre_grow [OF wf, of h "h_version h"]
  show ?thesis
  proof (cases "h_type h = QUIC_PKT_INITIAL")
    case init: True
    show ?thesis
      using sz init unfolding quicHdrEncode_def hdr_bytes_def Let_def quicWrInt_bytes
      by simp (rule wr_growI, (rule wr_grow_chain wf pre facts init)+, simp)
  next
    case False
    with True show ?thesis
      using sz unfolding quicHdrEncode_def hdr_bytes_def Let_def quicWrInt_bytes
      by auto (rule wr_growI, (rule wr_grow_chain wf pre facts)+, simp)+
  qed
next
  case False
  note pre = long_pre_grow [OF wf, of h]
  show ?thesis
  proof (cases "h_type h")
    case QUIC_PKT_SHORT
    with sz show ?thesis
      unfolding quicHdrEncode_def hdr_bytes_def Let_def quicWrInt_bytes quicWr8_bytes
      by simp (rule wr_growI, (rule wr_grow_chain wf)+, simp)
  next
    case QUIC_PKT_RETRY
    with sz ok obtain tag where "h_tag h = Some tag" by (auto simp: hdr_caller_ok_def)
    with QUIC_PKT_RETRY sz show ?thesis
      unfolding quicHdrEncode_def hdr_bytes_def Let_def
      by simp (rule wr_growI, (rule wr_grow_chain wf pre)+, simp)
  next
    case QUIC_PKT_VERSIONNEG
    with sz pre [of 0] show ?thesis
      by (simp add: quicHdrEncode_def hdr_bytes_def Let_def)
  next
    case QUIC_PKT_UNKNOWN
    with sz show ?thesis by (simp add: quicHdrSize_def split: if_splits)
  qed (use False in simp_all)
qed

lemma quicHdrEncode_result:
  assumes "quicHdrSize h \<noteq> 0" "hdr_caller_ok h"
  shows "fst (quicHdrEncode wr h) \<longleftrightarrow> \<not> wr_bad (snd (quicHdrEncode wr h))"
  using assms
  by (auto simp: quicHdrEncode_def hdr_caller_ok_def Let_def split: QuicPktType.splits option.splits)

lemma length_hdr_bytes:
  assumes "quicHdrSize h \<noteq> 0" "hdr_caller_ok h"
  shows "length (hdr_bytes h) = quicHdrSize h"
proof (cases "h_type h \<in> {QUIC_PKT_INITIAL, QUIC_PKT_0RTT, QUIC_PKT_HANDSHAKE}")
  case True
  note facts = hdr_long_facts [OF assms True]
  have "0 < hdrLenSize h" using facts(3) by auto
  with facts True assms(1) show ?thesis
    by (auto simp: hdr_bytes_def long_pre_def quicHdrSize_def Let_def length_varint_enc
        varint_string_def string_ok_varint split: if_splits)
next
  case False
  with assms show ?thesis
    by (cases "h_type h")
      (auto simp: hdr_bytes_def long_pre_def quicHdrSize_def hdr_caller_ok_def split: if_splits)
qed


section \<open>Decoding what was encoded\<close>

lemma hdrRdCid_mk:
  assumes "length c \<le> QUIC_MAX_CID"
  shows "hdrRdCid (rd_mk pre (of_nat (length c) # c @ rest)) =
    (Some c, rd_mk (pre @ of_nat (length c) # c) rest)"
proof -
  have "unat (of_nat (length c) :: u8) = length c"
    using assms by (simp add: unat_of_nat_small)
  with assms show ?thesis by (simp add: hdrRdCid_def wire_rd)
qed

lemma hdrFirstByte_long:
  assumes "h_type h \<in> {QUIC_PKT_INITIAL, QUIC_PKT_0RTT, QUIC_PKT_HANDSHAKE}"
    and "1 \<le> h_pnLen h" "h_pnLen h \<le> 4"
  shows "hdrFirstByte h AND 0x80 \<noteq> 0" "hdrFirstByte h AND 0x40 \<noteq> 0"
    "pktTypeOfBits (drop_bit 4 (hdrFirstByte h) AND 0x03) = h_type h"
    "hdrFirstByte h AND 0x0c = 0" "Suc (unat (hdrFirstByte h AND 0x03)) = h_pnLen h"
proof -
  consider "h_pnLen h = 1" | "h_pnLen h = 2" | "h_pnLen h = 3" | "h_pnLen h = 4"
    using assms(2,3) by linarith
  then show "hdrFirstByte h AND 0x80 \<noteq> 0" "hdrFirstByte h AND 0x40 \<noteq> 0"
    "pktTypeOfBits (drop_bit 4 (hdrFirstByte h) AND 0x03) = h_type h"
    "hdrFirstByte h AND 0x0c = 0" "Suc (unat (hdrFirstByte h AND 0x03)) = h_pnLen h"
    by (cases; insert assms(1); auto simp: hdrFirstByte_def pktTypeOfBits_def)+
qed

lemma hdrFirstByte_short:
  assumes "h_type h = QUIC_PKT_SHORT" "1 \<le> h_pnLen h" "h_pnLen h \<le> 4"
  shows "hdrFirstByte h AND 0x80 = 0" "hdrFirstByte h AND 0x40 \<noteq> 0"
    "hdrFirstByte h AND 0x20 \<noteq> 0 \<longleftrightarrow> h_spin h" "hdrFirstByte h AND 0x04 \<noteq> 0 \<longleftrightarrow> h_keyPhase h"
    "hdrFirstByte h AND 0x18 = 0" "Suc (unat (hdrFirstByte h AND 0x03)) = h_pnLen h"
proof -
  consider "h_pnLen h = 1" | "h_pnLen h = 2" | "h_pnLen h = 3" | "h_pnLen h = 4"
    using assms(2,3) by linarith
  then show "hdrFirstByte h AND 0x80 = 0" "hdrFirstByte h AND 0x40 \<noteq> 0"
    "hdrFirstByte h AND 0x20 \<noteq> 0 \<longleftrightarrow> h_spin h" "hdrFirstByte h AND 0x04 \<noteq> 0 \<longleftrightarrow> h_keyPhase h"
    "hdrFirstByte h AND 0x18 = 0" "Suc (unat (hdrFirstByte h AND 0x03)) = h_pnLen h"
    by (cases; auto simp: hdrFirstByte_def assms(1))+
qed

text \<open>What the first decoding step reports for an encoded header followed by its payload.\<close>

definition hdr_decoded :: "QuicPktHdr \<Rightarrow> nat \<Rightarrow> QuicPktHdr" where
  "hdr_decoded h plen =
     hdrZero\<lparr>h_type := h_type h, h_dcid := h_dcid h, h_pnOff := quicHdrSize h - h_pnLen h,
       h_len := h_len h, h_pktLen := plen,
       h_spin := h_type h = QUIC_PKT_SHORT \<and> h_spin h,
       h_version := (if h_type h = QUIC_PKT_SHORT then 0 else h_version h),
       h_scid := (if h_type h = QUIC_PKT_SHORT then [] else h_scid h),
       h_token := (if h_type h = QUIC_PKT_INITIAL then h_token h else [])\<rparr>"

lemma hdrDecodeLong_mk:
  assumes b0: "b0 AND 0x40 \<noteq> 0" "pktTypeOfBits (drop_bit 4 b0 AND 0x03) = t"
    and ty: "t \<in> {QUIC_PKT_INITIAL, QUIC_PKT_0RTT, QUIC_PKT_HANDSHAKE}"
    and tok: "t = QUIC_PKT_INITIAL \<Longrightarrow> string_ok tok"
    and v: "v < 2 ^ (n * 8 - 2)" "n \<in> {1, 2, 4, 8}"
    and len: "unat v \<le> length tail" "1 + QUIC_TAG_LEN \<le> unat v"
  shows "hdrDecodeLong b0 h
      (rd_mk pre ((if t = QUIC_PKT_INITIAL then varint_string tok else []) @ varint_enc n v @ tail))
    = Some (let off = length pre
              + length (if t = QUIC_PKT_INITIAL then varint_string tok else []) + n in
        h\<lparr>h_type := t, h_token := (if t = QUIC_PKT_INITIAL then tok else h_token h),
          h_len := unat v, h_pnOff := off, h_pktLen := off + unat v\<rparr>)"
proof (cases "t = QUIC_PKT_INITIAL")
  case True
  have "0 < n" using v(2) by auto
  with True b0 tok len show ?thesis
    by (simp add: hdrDecodeLong_def quicRdVarintBytes_mk quicRdVarint_enc [OF v]
        length_varint_enc Let_def add.assoc)
next
  case False
  have "0 < n" using v(2) by auto
  with False b0 ty len show ?thesis
    by (auto simp: hdrDecodeLong_def quicRdVarint_enc [OF v] length_varint_enc Let_def)
qed

text \<open>
  The bytes between the first byte and the packet number. Header protection masks the low bits of
  the first byte and the packet number, neither of which the first decoding step looks at.
\<close>

definition hdr_middle :: "QuicPktHdr \<Rightarrow> u8 list" where
  "hdr_middle h =
     (if h_type h = QUIC_PKT_SHORT then h_dcid h
      else tl (long_pre h (h_version h))
        @ (if h_type h = QUIC_PKT_INITIAL then varint_string (h_token h) else [])
        @ varint_enc (hdrLenSize h) (of_nat (h_len h)))"

lemma hdr_bytes_middle:
  assumes "h_type h \<in> {QUIC_PKT_SHORT, QUIC_PKT_INITIAL, QUIC_PKT_0RTT, QUIC_PKT_HANDSHAKE}"
  shows "hdr_bytes h = hdrFirstByte h # hdr_middle h @ be_bytes (h_pnLen h) (h_pnEnc h)"
  using assms by (auto simp: hdr_bytes_def hdr_middle_def long_pre_def)

lemma and_submask:
  "a AND m = b AND m \<Longrightarrow> n AND m = n \<Longrightarrow> a AND n = b AND n"
  for a b m n :: "'a::len word"
  by (rule bit_word_eqI) (metis bit_and_iff)

lemma type_bits_masked: "drop_bit 4 b AND 0x03 = drop_bit 4 (b AND 0x30)"
  for b :: u8
  by (simp add: drop_bit_and)

lemma quicHdrDecode_long_masked:
  assumes sz: "quicHdrSize h \<noteq> 0" and ok: "hdr_caller_ok h"
    and ty: "h_type h \<in> {QUIC_PKT_INITIAL, QUIC_PKT_0RTT, QUIC_PKT_HANDSHAKE}"
    and ver: "h_version h = QUIC_VERSION_1"
    and pay: "h_len h = h_pnLen h + length payload" "QUIC_TAG_LEN \<le> length payload"
    and b0: "b0 AND 0xf0 = hdrFirstByte h AND 0xf0" and pnb: "length pnb = h_pnLen h"
  shows "quicHdrDecode (b0 # hdr_middle h @ pnb @ payload @ rest) dcidLen =
    Some (hdr_decoded h (quicHdrSize h + length payload))"
proof -
  note facts = hdr_long_facts [OF sz ok ty]
  note fb0 = hdrFirstByte_long [OF ty facts(5,6)]
  have fb: "b0 AND 0x80 \<noteq> 0" "b0 AND 0x40 \<noteq> 0"
    "pktTypeOfBits (drop_bit 4 b0 AND 0x03) = h_type h"
  proof -
    have "b0 AND 0x80 = hdrFirstByte h AND 0x80" "b0 AND 0x40 = hdrFirstByte h AND 0x40"
      "b0 AND 0x30 = hdrFirstByte h AND 0x30"
      by (rule and_submask [OF b0], simp)+
    then show "b0 AND 0x80 \<noteq> 0" "b0 AND 0x40 \<noteq> 0"
      "pktTypeOfBits (drop_bit 4 b0 AND 0x03) = h_type h"
      using fb0(1-3) by (simp_all only: type_bits_masked not_False_eq_True)
  qed
  define v :: u64 where "v = of_nat (h_len h)"
  have vlt: "v < 2 ^ (hdrLenSize h * 8 - 2)"
    using facts unfolding v_def by (intro varint_size_fits)
  have len: "unat v = h_len h"
    using ok by (simp add: hdr_caller_ok_def unat_of_nat_small v_def)
  have pkt: "quicHdrSize h = length (hdr_bytes h)"
    using length_hdr_bytes [OF sz ok] by simp
  have middle: "hdr_middle h = be_bytes 4 (ucast QUIC_VERSION_1)
      @ of_nat (length (h_dcid h)) # h_dcid h @ of_nat (length (h_scid h)) # h_scid h
      @ (if h_type h = QUIC_PKT_INITIAL then varint_string (h_token h) else [])
      @ varint_enc (hdrLenSize h) v"
    using ty ver by (auto simp: hdr_middle_def long_pre_def v_def)
  have bytes: "hdr_bytes h = hdrFirstByte h # hdr_middle h @ be_bytes (h_pnLen h) (h_pnEnc h)"
    using ty by (intro hdr_bytes_middle) auto
  define pre0 where "pre0 = b0 # tl (long_pre h QUIC_VERSION_1)"
  have pre: "quicHdrDecode (b0 # hdr_middle h @ pnb @ payload @ rest) dcidLen =
      hdrDecodeLong b0
        (hdrZero\<lparr>h_version := QUIC_VERSION_1, h_dcid := h_dcid h, h_scid := h_scid h\<rparr>)
        (rd_mk pre0
          ((if h_type h = QUIC_PKT_INITIAL then varint_string (h_token h) else [])
            @ varint_enc (hdrLenSize h) v @ pnb @ payload @ rest))"
    using fb(1) unfolding quicHdrDecode_def quicRdInit_mk middle append_Cons append_assoc quicRd8_mk
    by (simp add: hdrRdCid_mk [OF facts(7)] hdrRdCid_mk [OF facts(8)] long_pre_def pre0_def
        quicRd32_mk [of _ QUIC_VERSION_1, simplified])
  have "0 < hdrLenSize h" using facts(3) by auto
  then have off: "length pre0
      + length (if h_type h = QUIC_PKT_INITIAL then varint_string (h_token h) else [])
      + hdrLenSize h = quicHdrSize h - h_pnLen h" and "h_pnLen h \<le> quicHdrSize h"
    unfolding pkt bytes middle by (simp_all add: pre0_def long_pre_def length_varint_enc)
  with pay have total: "quicHdrSize h - h_pnLen h + h_len h = quicHdrSize h + length payload"
    by simp
  show ?thesis
    unfolding pre using ty ver pay len total facts(5) pnb
    by (subst hdrDecodeLong_mk [OF fb(2,3) ty facts(4) vlt facts(3)])
      (auto simp: off hdr_decoded_def hdrZero_def Let_def)
qed

lemma quicHdrDecode_long:
  assumes sz: "quicHdrSize h \<noteq> 0" and ok: "hdr_caller_ok h"
    and ty: "h_type h \<in> {QUIC_PKT_INITIAL, QUIC_PKT_0RTT, QUIC_PKT_HANDSHAKE}"
    and ver: "h_version h = QUIC_VERSION_1"
    and pay: "h_len h = h_pnLen h + length payload" "QUIC_TAG_LEN \<le> length payload"
  shows "quicHdrDecode (hdr_bytes h @ payload @ rest) dcidLen =
    Some (hdr_decoded h (quicHdrSize h + length payload))"
proof -
  have "hdr_bytes h = hdrFirstByte h # hdr_middle h @ be_bytes (h_pnLen h) (h_pnEnc h)"
    using ty by (intro hdr_bytes_middle) auto
  then show ?thesis
    using quicHdrDecode_long_masked [OF assms refl, of "be_bytes (h_pnLen h) (h_pnEnc h)"] by simp
qed

lemma quicHdrDecode_short_masked:
  assumes sz: "quicHdrSize h \<noteq> 0" and ty: "h_type h = QUIC_PKT_SHORT"
    and pay: "h_len h = h_pnLen h + length payload" "QUIC_TAG_LEN \<le> length payload"
    and b0: "b0 AND 0xe0 = hdrFirstByte h AND 0xe0" and pnb: "length pnb = h_pnLen h"
  shows "quicHdrDecode (b0 # hdr_middle h @ pnb @ payload) (length (h_dcid h)) =
    Some (hdr_decoded h (quicHdrSize h + length payload))"
proof -
  have pn: "1 \<le> h_pnLen h" "h_pnLen h \<le> 4" and cid: "length (h_dcid h) \<le> QUIC_MAX_CID"
    using sz ty by (auto simp: quicHdrSize_def split: if_splits)
  have fb: "b0 AND 0x80 = 0" "b0 AND 0x40 \<noteq> 0" "b0 AND 0x20 \<noteq> 0 \<longleftrightarrow> h_spin h"
  proof -
    have "b0 AND 0x80 = hdrFirstByte h AND 0x80" "b0 AND 0x40 = hdrFirstByte h AND 0x40"
      "b0 AND 0x20 = hdrFirstByte h AND 0x20"
      by (rule and_submask [OF b0], simp)+
    then show "b0 AND 0x80 = 0" "b0 AND 0x40 \<noteq> 0" "b0 AND 0x20 \<noteq> 0 \<longleftrightarrow> h_spin h"
      using hdrFirstByte_short(1-3) [OF ty pn] by simp_all
  qed
  have size: "quicHdrSize h = 1 + length (h_dcid h) + h_pnLen h"
    using sz ty by (simp add: quicHdrSize_def split: if_splits)
  show ?thesis
    using fb cid pay pn ty pnb
    unfolding quicHdrDecode_def hdrDecodeShort_def hdr_middle_def quicRdInit_mk append_Cons
      append_assoc quicRd8_mk size
    by (simp add: quicRdBytes_mk hdr_decoded_def hdrZero_def size)
qed

lemma quicHdrDecode_short:
  assumes sz: "quicHdrSize h \<noteq> 0" and ty: "h_type h = QUIC_PKT_SHORT"
    and pay: "h_len h = h_pnLen h + length payload" "QUIC_TAG_LEN \<le> length payload"
  shows "quicHdrDecode (hdr_bytes h @ payload) (length (h_dcid h)) =
    Some (hdr_decoded h (quicHdrSize h + length payload))"
  using quicHdrDecode_short_masked [OF assms refl, of "be_bytes (h_pnLen h) (h_pnEnc h)"] ty
  by (simp add: hdr_bytes_middle)

lemma quicHdrDecodePN_mk:
  assumes ty: "h_type h \<in> {QUIC_PKT_SHORT, QUIC_PKT_INITIAL, QUIC_PKT_0RTT, QUIC_PKT_HANDSHAKE}"
    and pkt: "pkt = b0 # mid @ be_bytes n pnEnc @ payload @ rest"
    and res: "b0 AND (if h_type h = QUIC_PKT_SHORT then 0x18 else 0x0c) = 0"
    and n: "Suc (unat (b0 AND 0x03)) = n"
    and off: "h_pnOff h = Suc (length mid)"
    and len: "h_len h = n + length payload" "QUIC_TAG_LEN \<le> length payload"
  shows "quicHdrDecodePN h pkt largest =
    Some (h\<lparr>h_keyPhase := (if h_type h = QUIC_PKT_SHORT then b0 AND 0x04 \<noteq> 0 else h_keyPhase h),
            h_pnLen := n, h_pnEnc := take_bit (n * 8) pnEnc,
            h_pn := quicPnDecode largest (take_bit (n * 8) pnEnc) n, h_payload := payload\<rparr>)"
proof -
  have "drop (Suc (length mid)) pkt = be_bytes n pnEnc @ payload @ rest"
    "drop (Suc (length mid) + n) pkt = payload @ rest" "pkt ! 0 = b0"
    by (simp_all add: pkt)
  moreover have "quicRdInt (quicRdInit (be_bytes n pnEnc)) n =
      (take_bit (n * 8) pnEnc, rd_mk (be_bytes n pnEnc) [])"
    using quicRdInt_mk [of "[]" n pnEnc "[]"] by (simp add: quicRdInit_mk)
  ultimately show ?thesis
    using ty res n off len
    by (simp add: quicHdrDecodePN_def Let_def)
qed


section \<open>Extent of a decoded header\<close>

text \<open>
  The extent a caller relies on to sample the header protection and to find the next coalesced
  packet.
\<close>

definition hdr_extent_ok :: "u8 list \<Rightarrow> QuicPktHdr \<Rightarrow> bool" where
  "hdr_extent_ok pkt h \<longleftrightarrow>
     0 < h_pktLen h \<and> h_pktLen h \<le> length pkt \<and>
     length (h_dcid h) \<le> QUIC_MAX_CID \<and> length (h_scid h) \<le> QUIC_MAX_CID \<and>
     (h_type h \<in> {QUIC_PKT_SHORT, QUIC_PKT_INITIAL, QUIC_PKT_0RTT, QUIC_PKT_HANDSHAKE} \<longrightarrow>
        0 < h_pnOff h \<and> h_pktLen h = h_pnOff h + h_len h \<and> 1 + QUIC_TAG_LEN \<le> h_len h)"

lemma hdrRdCid_step: "rd_wf rd \<Longrightarrow> rd_step rd (snd (hdrRdCid rd))"
proof -
  assume wf: "rd_wf rd"
  obtain n rd1 where rd1: "quicRd8 rd = (n, rd1)" by (cases "quicRd8 rd")
  with quicRd8_step [OF wf] have st: "rd_step rd rd1" by simp
  then have "rd_step rd (snd (quicRdBytes rd1 (unat n)))"
    by (rule rd_step_trans) (simp add: quicRdBytes_step rd_step_wf [OF st])
  with st show ?thesis by (simp add: hdrRdCid_def rd1)
qed

lemma hdrRdCid_length: "hdrRdCid rd = (Some c, rd') \<Longrightarrow> rd_wf rd \<Longrightarrow> length c \<le> QUIC_MAX_CID"
  using quicRd8_step [of rd]
  by (auto simp: hdrRdCid_def dest!: quicRdBytes_length split: prod.splits if_splits
      intro: rd_step_wf)

lemma hdrRdCid_not_bad: "hdrRdCid rd = (Some c, rd') \<Longrightarrow> \<not> rd_bad rd'"
  by (auto simp: hdrRdCid_def quicRdBytes_def split: prod.splits if_splits)

lemma hdrDecodeShort_extent:
  assumes "hdrDecodeShort pkt b0 rd dcidLen = Some h" "rd_wf rd" "rd_buf rd = pkt" "0 < rd_p rd"
  shows "hdr_extent_ok pkt h"
  using assms quicRdBytes_step [of rd dcidLen] quicRdBytes_length [of rd dcidLen]
  by (auto simp: hdrDecodeShort_def hdr_extent_ok_def hdrZero_def Let_def rd_step_def rd_wf_def
      split: if_splits prod.splits option.splits)

lemma hdrDecodeLong_extent:
  assumes dec: "hdrDecodeLong b0 h0 rd = Some h" and wf: "rd_wf rd" "0 < rd_p rd"
    and cid: "length (h_dcid h0) \<le> QUIC_MAX_CID" "length (h_scid h0) \<le> QUIC_MAX_CID"
  shows "hdr_extent_ok (rd_buf rd) h"
proof (cases "pktTypeOfBits (drop_bit 4 b0 AND 0x03) = QUIC_PKT_RETRY")
  case True
  with assms show ?thesis
    by (auto simp: hdrDecodeLong_def hdr_extent_ok_def Let_def rd_wf_def split: if_splits)
next
  case False
  define rd1 where "rd1 = (if pktTypeOfBits (drop_bit 4 b0 AND 0x03) = QUIC_PKT_INITIAL
    then snd (quicRdVarintBytes rd) else rd)"
  obtain plen rd2 where rd2: "quicRdVarint rd1 = (plen, rd2)" by (cases "quicRdVarint rd1")
  have st1: "rd_step rd rd1"
    using quicRdVarintBytes_step [OF wf(1)] rd_step_refl [OF wf(1)] by (simp add: rd1_def)
  have st: "rd_step rd rd2"
    using quicRdVarint_step [OF rd_step_wf [OF st1]] st1 by (auto simp: rd2 intro: rd_step_trans)
  have "h_len h = unat plen \<and> h_pnOff h = rd_p rd2 \<and> h_pktLen h = rd_p rd2 + unat plen
      \<and> h_dcid h = h_dcid h0 \<and> h_scid h = h_scid h0 \<and> \<not> rd_bad rd2
      \<and> unat plen \<le> quicRdLeft rd2 \<and> 1 + QUIC_TAG_LEN \<le> unat plen"
    using dec False rd2
    by (auto simp: hdrDecodeLong_def Let_def rd1_def split: if_splits prod.splits)
  with st cid wf show ?thesis
    by (auto simp: hdr_extent_ok_def rd_step_def rd_wf_def quicRdLeft_def)
qed

lemma quicHdrDecode_extent:
  assumes dec: "quicHdrDecode pkt dcidLen = Some h"
  shows "hdr_extent_ok pkt h"
proof -
  have wf0: "rd_wf (quicRdInit pkt)" by (simp add: rd_wf_def quicRdInit_def)
  obtain b0 rd where rd: "quicRd8 (quicRdInit pkt) = (b0, rd)" by (cases "quicRd8 (quicRdInit pkt)")
  have st: "rd_step (quicRdInit pkt) rd" using quicRd8_step [OF wf0] rd by simp
  have nb: "\<not> rd_bad rd" using dec rd by (auto simp: quicHdrDecode_def)
  then have p: "rd_p rd = 1" "rd_buf rd = pkt"
    using rd by (auto simp: quicRd8_def quicRdInt_def quicRdBytes_def quicRdInit_def
        split: prod.splits option.splits if_splits)
  show ?thesis
  proof (cases "b0 AND 0x80 = 0")
    case True
    with dec rd nb p rd_step_wf [OF st] show ?thesis
      by (auto simp: quicHdrDecode_def intro: hdrDecodeShort_extent)
  next
    case False
    obtain ver rd1 where rd1: "quicRd32 rd = (ver, rd1)" by (cases "quicRd32 rd")
    have st1: "rd_step rd rd1" using quicRd32_step [OF rd_step_wf [OF st]] rd1 by simp
    obtain dcid rd2 where rd2: "hdrRdCid rd1 = (Some dcid, rd2)"
      using dec rd nb False rd1 by (auto simp: quicHdrDecode_def split: prod.splits option.splits)
    have st2: "rd_step rd1 rd2" using hdrRdCid_step [OF rd_step_wf [OF st1]] rd2 by simp
    obtain scid rd3 where rd3: "hdrRdCid rd2 = (Some scid, rd3)"
      using dec rd nb False rd1 rd2
      by (auto simp: quicHdrDecode_def split: prod.splits option.splits)
    have st3: "rd_step rd2 rd3" using hdrRdCid_step [OF rd_step_wf [OF st2]] rd3 by simp
    have all: "rd_step rd rd3" using st1 st2 st3 by (blast intro: rd_step_trans)
    have cids: "length dcid \<le> QUIC_MAX_CID" "length scid \<le> QUIC_MAX_CID"
      using hdrRdCid_length [OF rd2 rd_step_wf [OF st1]] hdrRdCid_length [OF rd3 rd_step_wf [OF st2]]
      by simp_all
    show ?thesis
      using dec rd nb False rd1 rd2 rd3 all cids p
        hdrDecodeLong_extent [of b0 _ rd3 h, OF _ rd_step_wf [OF st3]]
      by (auto simp: quicHdrDecode_def Let_def hdr_extent_ok_def hdrZero_def rd_step_def rd_wf_def
          split: if_splits)
  qed
qed


section \<open>Properties\<close>

lemma quicHdrEncode_True_size: "quicHdrEncode wr h = (True, wr') \<Longrightarrow> quicHdrSize h \<noteq> 0"
  by (rule notI) (simp add: quicHdrEncode_def)

lemma quicHdrEncode_out:
  assumes "wr_wf wr" "hdr_caller_ok h" "quicHdrEncode wr h = (True, wr')"
  shows "wr_out wr' = wr_out wr @ hdr_bytes h"
proof -
  have sz: "quicHdrSize h \<noteq> 0" using quicHdrEncode_True_size [OF assms(3)] .
  with assms quicHdrEncode_grow [OF assms(1) sz assms(2)] quicHdrEncode_result [OF sz assms(2), of wr]
  show ?thesis by (simp add: wr_grow_def)
qed

lemma decode_both_steps:
  assumes ok: "hdr_caller_ok h" and sz: "quicHdrSize h \<noteq> 0"
    and ty: "h_type h \<in> {QUIC_PKT_SHORT, QUIC_PKT_INITIAL, QUIC_PKT_0RTT, QUIC_PKT_HANDSHAKE}"
    and ver: "h_type h \<noteq> QUIC_PKT_SHORT \<longrightarrow> h_version h = QUIC_VERSION_1"
    and pay: "h_len h = h_pnLen h + length payload" "QUIC_TAG_LEN \<le> length payload"
    and short: "h_type h = QUIC_PKT_SHORT \<longrightarrow> rest = [] \<and> dcidLen = length (h_dcid h)"
  shows "quicHdrDecode (hdr_bytes h @ payload @ rest) dcidLen =
      Some (hdr_decoded h (quicHdrSize h + length payload))"
    and "quicHdrDecodePN (hdr_decoded h n) (hdr_bytes h @ payload @ rest) largest =
      Some ((hdr_decoded h n)\<lparr>
        h_keyPhase := h_type h = QUIC_PKT_SHORT \<and> h_keyPhase h, h_pnLen := h_pnLen h,
        h_pnEnc := take_bit (h_pnLen h * 8) (h_pnEnc h),
        h_pn := quicPnDecode largest (take_bit (h_pnLen h * 8) (h_pnEnc h)) (h_pnLen h),
        h_payload := payload\<rparr>)"
proof -
  show "quicHdrDecode (hdr_bytes h @ payload @ rest) dcidLen =
      Some (hdr_decoded h (quicHdrSize h + length payload))"
    using quicHdrDecode_short [OF sz _ pay] quicHdrDecode_long [OF sz ok _ _ pay] ty ver short
    by (cases "h_type h = QUIC_PKT_SHORT") auto
  have pn: "1 \<le> h_pnLen h" "h_pnLen h \<le> 4"
    using sz ty by (auto simp: quicHdrSize_def Let_def split: if_splits)
  obtain mid where mid: "hdr_bytes h = hdrFirstByte h # mid @ be_bytes (h_pnLen h) (h_pnEnc h)"
    using ty by (auto simp: hdr_bytes_def long_pre_def)
  have off: "h_pnOff (hdr_decoded h n) = Suc (length mid)"
    using length_hdr_bytes [OF sz ok] mid by (simp add: hdr_decoded_def flip: length_hdr_bytes)
  have sel: "h_type (hdr_decoded h n) = h_type h" "h_len (hdr_decoded h n) = h_len h"
    "\<not> h_keyPhase (hdr_decoded h n)"
    by (simp_all add: hdr_decoded_def hdrZero_def)
  have first: "hdrFirstByte h AND (if h_type h = QUIC_PKT_SHORT then 0x18 else 0x0c) = 0"
    "Suc (unat (hdrFirstByte h AND 0x03)) = h_pnLen h"
    "h_type h = QUIC_PKT_SHORT \<Longrightarrow> hdrFirstByte h AND 0x04 \<noteq> 0 \<longleftrightarrow> h_keyPhase h"
    using hdrFirstByte_short [OF _ pn] hdrFirstByte_long [OF _ pn] ty
    by (cases "h_type h = QUIC_PKT_SHORT"; auto)+
  show "quicHdrDecodePN (hdr_decoded h n) (hdr_bytes h @ payload @ rest) largest =
      Some ((hdr_decoded h n)\<lparr>
        h_keyPhase := h_type h = QUIC_PKT_SHORT \<and> h_keyPhase h, h_pnLen := h_pnLen h,
        h_pnEnc := take_bit (h_pnLen h * 8) (h_pnEnc h),
        h_pn := quicPnDecode largest (take_bit (h_pnLen h * 8) (h_pnEnc h)) (h_pnLen h),
        h_payload := payload\<rparr>)"
    using quicHdrDecodePN_mk [of "hdr_decoded h n" _ "hdrFirstByte h" mid "h_pnLen h" "h_pnEnc h"
        payload rest largest] ty off pay first sel
    by (auto simp: mid)
qed


text \<open>
  Every header an encoder produces is decoded to the same header: the first step finds the
  packet's extent and every unprotected field, and the second step the packet number, resolved
  against the window of \<^verbatim>\<open>_quicPnDecode\<close>, and the payload. \<open>rest\<close> is the packets coalesced
  after a long header packet.
\<close>

theorem header_roundtrip:
  assumes "hdr_caller_ok h"
    and "h_type h \<in> {QUIC_PKT_SHORT, QUIC_PKT_INITIAL, QUIC_PKT_0RTT, QUIC_PKT_HANDSHAKE}"
    and "h_type h \<noteq> QUIC_PKT_SHORT \<longrightarrow> h_version h = QUIC_VERSION_1"
    and "h_len h = h_pnLen h + length payload" "QUIC_TAG_LEN \<le> length payload"
    and "h_type h = QUIC_PKT_SHORT \<longrightarrow> rest = [] \<and> dcidLen = length (h_dcid h)"
    and "quicHdrEncode (quicWrInit buf) h = (True, wr)"
    and "pkt = wr_out wr @ payload @ rest"
  shows "\<exists>h1 h2. quicHdrDecode pkt dcidLen = Some h1 \<and> quicHdrDecodePN h1 pkt largest = Some h2
    \<and> h_pktLen h1 = length (wr_out wr) + length payload
    \<and> h_type h2 = h_type h \<and> h_dcid h2 = h_dcid h \<and> h_payload h2 = payload
    \<and> h_pnLen h2 = h_pnLen h
    \<and> h_pn h2 = quicPnDecode largest (take_bit (h_pnLen h * 8) (h_pnEnc h)) (h_pnLen h)
    \<and> (if h_type h = QUIC_PKT_SHORT then h_spin h2 = h_spin h \<and> h_keyPhase h2 = h_keyPhase h
       else h_scid h2 = h_scid h \<and> h_version h2 = h_version h)
    \<and> (h_type h = QUIC_PKT_INITIAL \<longrightarrow> h_token h2 = h_token h)"
proof -
  have out: "wr_out wr = hdr_bytes h"
    using quicHdrEncode_out [OF _ assms(1,7)] by simp
  have sz: "quicHdrSize h \<noteq> 0" by (rule quicHdrEncode_True_size [OF assms(7)])
  note steps = decode_both_steps [OF assms(1) sz assms(2-6)]
  show ?thesis
    unfolding assms(8) out
    by (rule exI, rule exI, rule conjI [OF steps(1)], rule conjI [OF steps(2)])
      (auto simp: hdr_decoded_def hdrZero_def length_hdr_bytes [OF sz assms(1)])
qed

definition example_hdr :: QuicPktHdr where
  "example_hdr = hdrZero\<lparr>h_type := QUIC_PKT_INITIAL, h_version := 1, h_dcid := [1, 2],
     h_scid := [3], h_token := [7], h_pnLen := 1, h_pnEnc := 5, h_len := 17\<rparr>"

lemma example_hdr_encodes:
  "quicHdrEncode (quicWrInit (replicate 40 0)) example_hdr =
    (True, snd (quicHdrEncode (quicWrInit (replicate 40 0)) example_hdr))"
  by code_simp

lemma example_hdr_ok: "hdr_caller_ok example_hdr" "quicHdrSize example_hdr = 14"
  by (simp add: example_hdr_def hdr_caller_ok_def hdrZero_def) code_simp

theorem header_roundtrip_witness:
  "\<exists>h1 h2. quicHdrDecode (wr_out (snd (quicHdrEncode (quicWrInit (replicate 40 0)) example_hdr))
        @ replicate 16 9 @ [1, 2, 3]) 0 = Some h1
    \<and> quicHdrDecodePN h1 (wr_out (snd (quicHdrEncode (quicWrInit (replicate 40 0)) example_hdr))
        @ replicate 16 9 @ [1, 2, 3]) QUIC_PN_NONE = Some h2
    \<and> h_type h2 = QUIC_PKT_INITIAL \<and> h_token h2 = [7] \<and> h_payload h2 = replicate 16 9"
proof -
  have sel: "h_type example_hdr = QUIC_PKT_INITIAL" "h_token example_hdr = [7]"
    "h_version example_hdr = 1" "h_len example_hdr = 17" "h_pnLen example_hdr = 1"
    by (simp_all add: example_hdr_def)
  show ?thesis
    using header_roundtrip [OF example_hdr_ok(1) _ _ _ _ _ example_hdr_encodes refl,
        where payload = "replicate 16 9" and rest = "[1, 2, 3]" and dcidLen = 0
          and largest = QUIC_PN_NONE]
    by (simp only: sel) auto
qed

text \<open>
  \<^verbatim>\<open>_quicHdrSize\<close> is exact: \<^verbatim>\<open>_quicHdrEncode\<close> succeeds exactly when that many bytes are free,
  and then appends exactly that many bytes, leaving everything written before in place.
\<close>

theorem hdr_size_exact:
  assumes "wr_wf wr" "\<not> wr_bad wr" "quicHdrSize h \<noteq> 0" "hdr_caller_ok h"
  shows "(fst (quicHdrEncode wr h) \<longleftrightarrow> quicHdrSize h \<le> quicWrLeft wr)
    \<and> (fst (quicHdrEncode wr h) \<longrightarrow>
        length (wr_out (snd (quicHdrEncode wr h))) = length (wr_out wr) + quicHdrSize h
        \<and> take (length (wr_out wr)) (wr_out (snd (quicHdrEncode wr h))) = wr_out wr)"
proof -
  note grow = quicHdrEncode_grow [OF assms(1,3,4)]
    and len = length_hdr_bytes [OF assms(3,4)]
    and res = quicHdrEncode_result [OF assms(3,4), of wr]
  have "fst (quicHdrEncode wr h) \<longleftrightarrow> quicHdrSize h \<le> quicWrLeft wr"
    using grow len res assms(2) by (auto simp: wr_grow_def quicWrLeft_def wr_room_def)
  moreover have "wr_out (snd (quicHdrEncode wr h)) = wr_out wr @ hdr_bytes h"
    if "fst (quicHdrEncode wr h)"
    using that grow res by (simp add: wr_grow_def)
  ultimately show ?thesis using len by simp
qed


theorem hdr_size_exact_witness:
  "fst (quicHdrEncode (quicWrInit (replicate 40 0)) example_hdr)
    \<and> \<not> fst (quicHdrEncode (quicWrInit (replicate 13 0)) example_hdr)"
  using hdr_size_exact [of "quicWrInit (replicate 40 0)" example_hdr]
    hdr_size_exact [of "quicWrInit (replicate 13 0)" example_hdr]
  by (simp add: example_hdr_ok quicWrLeft_def quicWrInit_def wr_wf_def)

text \<open>
  A header the first step accepts lies inside the datagram: the packet is non-empty and ends
  within it, the connection IDs fit their arrays, and for the packet types that carry a packet
  number the packet number and the protected payload are exactly the bytes from \<^verbatim>\<open>pnOff\<close> to the
  packet's end and leave room for a one-byte packet number and the tag.
\<close>

theorem hdr_decode_in_bounds:
  assumes "quicHdrDecode pkt dcidLen = Some h"
  shows "0 < h_pktLen h \<and> h_pktLen h \<le> length pkt
    \<and> length (h_dcid h) \<le> QUIC_MAX_CID \<and> length (h_scid h) \<le> QUIC_MAX_CID
    \<and> (h_type h \<in> {QUIC_PKT_SHORT, QUIC_PKT_INITIAL, QUIC_PKT_0RTT, QUIC_PKT_HANDSHAKE} \<longrightarrow>
        0 < h_pnOff h \<and> h_pktLen h = h_pnOff h + h_len h \<and> 1 + QUIC_TAG_LEN \<le> h_len h)"
  using quicHdrDecode_extent [OF assms] by (simp add: hdr_extent_ok_def)

definition example_pkt :: "u8 list" where
  "example_pkt = 0x40 # replicate 17 0"

theorem hdr_decode_in_bounds_witness:
  "h_pktLen (the (quicHdrDecode example_pkt 0)) \<le> 18"
proof -
  have "quicHdrDecode example_pkt 0 = Some (the (quicHdrDecode example_pkt 0))"
    unfolding example_pkt_def by code_simp
  from hdr_decode_in_bounds [OF this] show ?thesis
    by (simp add: example_pkt_def)
qed

text \<open>
  The bound of \<^verbatim>\<open>_quicHdrDecode\<close> does not cover the header protection sample, which is the
  sixteen bytes from \<^verbatim>\<open>pnOff + 4\<close>: a packet is accepted whose sample would end past the packet.
  The comment beside the check says that it keeps the sampling read in range; the check that does
  is the one \<^verbatim>\<open>_quicPktOpen\<close> makes before it samples.
\<close>

lemma hdr_decode_sample_out_of_range:
  "\<exists>h. quicHdrDecode example_pkt 0 = Some h \<and> h_pktLen h < h_pnOff h + 4 + 16"
proof (intro exI conjI)
  show "quicHdrDecode example_pkt 0 = Some (the (quicHdrDecode example_pkt 0))"
    unfolding example_pkt_def by code_simp
  show "h_pktLen (the (quicHdrDecode example_pkt 0)) <
      h_pnOff (the (quicHdrDecode example_pkt 0)) + 4 + 16"
    unfolding example_pkt_def by code_simp
qed

end
