(* ===== verification/QuicFrame.thy ===== *)
theory QuicFrame
  imports QuicHdr
begin

text \<open>
  Frames: the tagged union \<^verbatim>\<open>QuicFrame\<close> of \<^verbatim>\<open>src/cxquic/quic_private.h\<close> with the decoder, the
  size function and the encoder of \<^verbatim>\<open>src/cxquic/frame.c\<close>.

  The union is a datatype with one constructor per member. A constructor carries what its type
  number adds to the member: the ECN counts of an \<^verbatim>\<open>ACK_ECN\<close>, the three flag bits of a
  \<^verbatim>\<open>STREAM\<close> frame, and a flag where two type numbers share one member. The type number itself is
  \<open>frameType\<close>. Data pointers with their lengths are byte lists. The decoder returns the cursor
  it has moved also when it refuses the frame.
\<close>

section \<open>Data\<close>

datatype QuicFrame =
    FPadding u64
  | FPing
  | FAck (ackLargest: u64) (ackDelay: u64) (ackRangeCount: u64) (ackFirstRange: u64)
      (ackRangeData: "u8 list") (ackEcn: "(u64 \<times> u64 \<times> u64) option")
  | FResetStream u64 u64 u64
  | FStopSending u64 u64
  | FCrypto u64 "u8 list"
  | FNewToken "u8 list"
  | FStream (streamOff: bool) (streamLen: bool) (streamFin: bool)
      (streamId: u64) (streamOffset: u64) (streamData: "u8 list")
  | FMaxData u64
  | FMaxStreamData u64 u64
  | FMaxStreams bool u64
  | FDataBlocked u64
  | FStreamDataBlocked u64 u64
  | FStreamsBlocked bool u64
  | FNewConnId u64 u64 QuicCid "u8 list"
  | FRetireConnId u64
  | FPath bool "u8 list"
  | FConnClose u64 "u64 option" "u8 list"
  | FHandshakeDone
  | FDatagram bool "u8 list"
  | FUnknown u64

abbreviation (input) QUIC_STREAM_FIN :: u64 where "QUIC_STREAM_FIN \<equiv> 0x01"
abbreviation (input) QUIC_STREAM_LEN :: u64 where "QUIC_STREAM_LEN \<equiv> 0x02"
abbreviation (input) QUIC_STREAM_OFF :: u64 where "QUIC_STREAM_OFF \<equiv> 0x04"
abbreviation (input) QUIC_RESET_TOKEN_LEN :: nat where "QUIC_RESET_TOKEN_LEN \<equiv> 16"
abbreviation (input) QUIC_PATH_DATA_LEN :: nat where "QUIC_PATH_DATA_LEN \<equiv> 8"

text \<open>The type numbers; the flag of \<open>FMaxStreams\<close>, \<open>FStreamsBlocked\<close> says unidirectional, of \<open>FPath\<close> response.\<close>

primrec frameType :: "QuicFrame \<Rightarrow> u64" where
  "frameType (FPadding n) = 0x00"
| "frameType FPing = 0x01"
| "frameType (FAck largest delay rangeCount firstRange rangeData ecn) =
     (if ecn = None then 0x02 else 0x03)"
| "frameType (FResetStream i err finalSize) = 0x04"
| "frameType (FStopSending i err) = 0x05"
| "frameType (FCrypto offset data) = 0x06"
| "frameType (FNewToken token) = 0x07"
| "frameType (FStream off len fin i offset data) =
     0x08 OR (if off then QUIC_STREAM_OFF else 0) OR (if len then QUIC_STREAM_LEN else 0)
       OR (if fin then QUIC_STREAM_FIN else 0)"
| "frameType (FMaxData limit) = 0x10"
| "frameType (FMaxStreamData i limit) = 0x11"
| "frameType (FMaxStreams uni limit) = (if uni then 0x13 else 0x12)"
| "frameType (FDataBlocked limit) = 0x14"
| "frameType (FStreamDataBlocked i limit) = 0x15"
| "frameType (FStreamsBlocked uni limit) = (if uni then 0x17 else 0x16)"
| "frameType (FNewConnId sq retirePrior cid token) = 0x18"
| "frameType (FRetireConnId sq) = 0x19"
| "frameType (FPath resp data) = (if resp then 0x1b else 0x1a)"
| "frameType (FConnClose err ftype reason) = (if ftype = None then 0x1d else 0x1c)"
| "frameType FHandshakeDone = 0x1e"
| "frameType (FDatagram len data) = (if len then 0x31 else 0x30)"
| "frameType (FUnknown ty) = ty"

definition QUIC_MAX_STREAMS :: u64 where
  "QUIC_MAX_STREAMS = push_bit 60 1"


section \<open>Decoding\<close>

definition frameOffsetOk :: "u64 \<Rightarrow> u64 \<Rightarrow> bool" where
  "frameOffsetOk offset len \<longleftrightarrow>
     offset < QUIC_MAX_PACKET_NUMBER \<and> len \<le> QUIC_MAX_PACKET_NUMBER - offset"

text \<open>The scan over the gap and length pairs of an ACK frame.\<close>

primrec ackScan :: "nat \<Rightarrow> QuicRd \<Rightarrow> bool \<times> QuicRd" where
  "ackScan 0 rd = (True, rd)"
| "ackScan (Suc n) rd =
     (let (_, rd1) = quicRdVarint rd;
          (_, rd2) = quicRdVarint rd1
      in if rd_bad rd2 then (False, rd2) else ackScan n rd2)"

definition frameDecodeAck :: "bool \<Rightarrow> QuicRd \<Rightarrow> QuicFrame option \<times> QuicRd" where
  "frameDecodeAck isEcn rd =
     (let (largest, rd) = quicRdVarint rd;
          (delay, rd) = quicRdVarint rd;
          (rangeCount, rd) = quicRdVarint rd;
          (firstRange, rd) = quicRdVarint rd
      in if rd_bad rd \<or> firstRange > largest then (None, rd)
         else
           let (scanned, rd1) = ackScan (unat rangeCount) rd in
           if \<not> scanned then (None, rd1)
           else
             let rangeData = take (rd_p rd1 - rd_p rd) (drop (rd_p rd) (rd_buf rd)) in
             if isEcn then
               let (ect0, rd2) = quicRdVarint rd1;
                   (ect1, rd3) = quicRdVarint rd2;
                   (ecnce, rd4) = quicRdVarint rd3
               in (if rd_bad rd4 then None
                   else Some (FAck largest delay rangeCount firstRange rangeData
                                (Some (ect0, ect1, ecnce))), rd4)
             else (if rd_bad rd1 then None
                   else Some (FAck largest delay rangeCount firstRange rangeData None), rd1))"

definition frameDecodeStream :: "u64 \<Rightarrow> QuicRd \<Rightarrow> QuicFrame option \<times> QuicRd" where
  "frameDecodeStream ty rd =
     (let (i, rd1) = quicRdVarint rd;
          (offset, rd2) = (if ty AND QUIC_STREAM_OFF \<noteq> 0 then quicRdVarint rd1 else (0, rd1))
      in if rd_bad rd2 then (None, rd2)
         else
           let (data, rd3) = (if ty AND QUIC_STREAM_LEN \<noteq> 0 then quicRdVarintBytes rd2
                              else quicRdBytes rd2 (quicRdLeft rd2))
           in case data of
                None \<Rightarrow> (None, rd3)
              | Some d \<Rightarrow>
                  (if frameOffsetOk offset (of_nat (length d))
                   then Some (FStream (ty AND QUIC_STREAM_OFF \<noteq> 0) (ty AND QUIC_STREAM_LEN \<noteq> 0)
                                (ty AND QUIC_STREAM_FIN \<noteq> 0) i offset d)
                   else None, rd3))"

definition frameDecodeNewConnId :: "QuicRd \<Rightarrow> QuicFrame option \<times> QuicRd" where
  "frameDecodeNewConnId rd =
     (let (sq, rd1) = quicRdVarint rd;
          (retirePrior, rd2) = quicRdVarint rd1;
          (n, rd3) = quicRd8 rd2
      in if rd_bad rd3 \<or> n = 0 \<or> unat n > QUIC_MAX_CID \<or> retirePrior > sq then (None, rd3)
         else
           let (cid, rd4) = quicRdBytes rd3 (unat n);
               (token, rd5) = quicRdBytes rd4 QUIC_RESET_TOKEN_LEN
           in case (cid, token) of
                (Some c, Some t) \<Rightarrow> (Some (FNewConnId sq retirePrior c t), rd5)
              | _ \<Rightarrow> (None, rd5))"

text \<open>The loop that counts a run of padding.\<close>

function padRun :: "QuicRd \<Rightarrow> u64 \<Rightarrow> u64 \<times> QuicRd" where
  "padRun rd n =
     (if quicRdLeft rd > 0 \<and> rd_buf rd ! rd_p rd = 0
      then padRun (rd\<lparr>rd_p := rd_p rd + 1\<rparr>) (n + 1) else (n, rd))"
  by pat_completeness auto
termination
  by (relation "measure (\<lambda>(rd, n). quicRdLeft rd)") (auto simp: quicRdLeft_def split: if_splits)

declare padRun.simps [simp del]

text \<open>A frame made of one, two or three varints.\<close>

definition rdFrame1 :: "QuicRd \<Rightarrow> (u64 \<Rightarrow> QuicFrame option) \<Rightarrow> QuicFrame option \<times> QuicRd" where
  "rdFrame1 rd mk =
     (let (a, rd1) = quicRdVarint rd in (if rd_bad rd1 then None else mk a, rd1))"

definition rdFrame2 :: "QuicRd \<Rightarrow> (u64 \<Rightarrow> u64 \<Rightarrow> QuicFrame) \<Rightarrow> QuicFrame option \<times> QuicRd" where
  "rdFrame2 rd mk =
     (let (a, rd1) = quicRdVarint rd;
          (b, rd2) = quicRdVarint rd1
      in (if rd_bad rd2 then None else Some (mk a b), rd2))"

definition rdFrame3 ::
  "QuicRd \<Rightarrow> (u64 \<Rightarrow> u64 \<Rightarrow> u64 \<Rightarrow> QuicFrame) \<Rightarrow> QuicFrame option \<times> QuicRd" where
  "rdFrame3 rd mk =
     (let (a, rd1) = quicRdVarint rd;
          (b, rd2) = quicRdVarint rd1;
          (c, rd3) = quicRdVarint rd2
      in (if rd_bad rd3 then None else Some (mk a b c), rd3))"

definition frameDecodeCrypto :: "QuicRd \<Rightarrow> QuicFrame option \<times> QuicRd" where
  "frameDecodeCrypto rd =
     (let (offset, rd1) = quicRdVarint rd;
          (data, rd2) = quicRdVarintBytes rd1
      in case data of
           None \<Rightarrow> (None, rd2)
         | Some d \<Rightarrow>
             (if frameOffsetOk offset (of_nat (length d)) then Some (FCrypto offset d) else None,
              rd2))"

definition frameDecodeConnClose :: "bool \<Rightarrow> QuicRd \<Rightarrow> QuicFrame option \<times> QuicRd" where
  "frameDecodeConnClose app rd =
     (let (err, rd1) = quicRdVarint rd;
          (ftype, rd2) = (if app then (0, rd1) else quicRdVarint rd1);
          (reason, rd3) = quicRdVarintBytes rd2
      in case reason of
           None \<Rightarrow> (None, rd3)
         | Some r \<Rightarrow> (Some (FConnClose err (if app then None else Some ftype) r), rd3))"

definition frameDecodeDatagram :: "bool \<Rightarrow> QuicRd \<Rightarrow> QuicFrame option \<times> QuicRd" where
  "frameDecodeDatagram hasLen rd =
     (let (data, rd1) = (if hasLen then quicRdVarintBytes rd else quicRdBytes rd (quicRdLeft rd))
      in case data of None \<Rightarrow> (None, rd1) | Some d \<Rightarrow> (Some (FDatagram hasLen d), rd1))"

text \<open>The \<^verbatim>\<open>switch\<close> of \<^verbatim>\<open>_quicFrameDecode\<close>, after the type number has been read.\<close>

definition frameBody :: "u64 \<Rightarrow> QuicRd \<Rightarrow> QuicFrame option \<times> QuicRd" where
  "frameBody ty rd =
     (if ty = 0x00 then (let (n, rd1) = padRun rd 1 in (Some (FPadding n), rd1))
      else if ty = 0x01 then (Some FPing, rd)
      else if ty = 0x1e then (Some FHandshakeDone, rd)
      else if ty = 0x02 \<or> ty = 0x03 then frameDecodeAck (ty = 0x03) rd
      else if ty = 0x04 then rdFrame3 rd FResetStream
      else if ty = 0x05 then rdFrame2 rd FStopSending
      else if ty = 0x06 then frameDecodeCrypto rd
      else if ty = 0x07 then
        (case quicRdVarintBytes rd of
           (None, rd1) \<Rightarrow> (None, rd1)
         | (Some t, rd1) \<Rightarrow> (if length t > 0 then Some (FNewToken t) else None, rd1))
      else if ty = 0x10 then rdFrame1 rd (\<lambda>m. Some (FMaxData m))
      else if ty = 0x11 then rdFrame2 rd FMaxStreamData
      else if ty = 0x12 \<or> ty = 0x13 then
        rdFrame1 rd (\<lambda>m. if m \<le> QUIC_MAX_STREAMS then Some (FMaxStreams (ty = 0x13) m) else None)
      else if ty = 0x14 then rdFrame1 rd (\<lambda>m. Some (FDataBlocked m))
      else if ty = 0x15 then rdFrame2 rd FStreamDataBlocked
      else if ty = 0x16 \<or> ty = 0x17 then
        rdFrame1 rd (\<lambda>m. if m \<le> QUIC_MAX_STREAMS then Some (FStreamsBlocked (ty = 0x17) m) else None)
      else if ty = 0x18 then frameDecodeNewConnId rd
      else if ty = 0x19 then rdFrame1 rd (\<lambda>s. Some (FRetireConnId s))
      else if ty = 0x1a \<or> ty = 0x1b then
        (case quicRdBytes rd QUIC_PATH_DATA_LEN of
           (None, rd1) \<Rightarrow> (None, rd1)
         | (Some p, rd1) \<Rightarrow> (Some (FPath (ty = 0x1b) p), rd1))
      else if ty = 0x30 \<or> ty = 0x31 then frameDecodeDatagram (ty = 0x31) rd
      else if ty = 0x1c \<or> ty = 0x1d then frameDecodeConnClose (ty = 0x1d) rd
      else if 0x08 \<le> ty \<and> ty \<le> 0x0f then frameDecodeStream ty rd
      else (None, rd))"

definition quicFrameDecode :: "QuicRd \<Rightarrow> QuicFrame option \<times> QuicRd" where
  "quicFrameDecode rd =
     (if rd_bad rd \<or> quicRdLeft rd = 0 then (None, rd)
      else
        let (ty, rd1) = quicRdVarint rd in
        if rd_bad rd1 then (None, rd1) else frameBody ty rd1)"


section \<open>Encoding\<close>

text \<open>\<^verbatim>\<open>_quicFrameSize\<close>; \<open>vs\<close> is \<^verbatim>\<open>_quicVarintSize\<close> and \<open>ls\<close> the size of a length field.\<close>

definition quicFrameSize :: "QuicFrame \<Rightarrow> nat" where
  "quicFrameSize f =
     (let vs = quicVarintSize;
          ls = (\<lambda>d :: u8 list. quicVarintSize (of_nat (length d)));
          t = vs (frameType f)
      in if t = 0 then 0
         else
           case f of
             FPadding n \<Rightarrow> unat n
           | FPing \<Rightarrow> t
           | FHandshakeDone \<Rightarrow> t
           | FAck largest delay rangeCount firstRange rangeData ecn \<Rightarrow>
               t + vs largest + vs delay + vs rangeCount + vs firstRange + length rangeData
                 + (case ecn of None \<Rightarrow> 0 | Some (e0, e1, ce) \<Rightarrow> vs e0 + vs e1 + vs ce)
           | FResetStream i err finalSize \<Rightarrow> t + vs i + vs err + vs finalSize
           | FStopSending i err \<Rightarrow> t + vs i + vs err
           | FCrypto offset d \<Rightarrow> t + vs offset + ls d + length d
           | FNewToken d \<Rightarrow> t + ls d + length d
           | FMaxData m \<Rightarrow> t + vs m
           | FMaxStreamData i m \<Rightarrow> t + vs i + vs m
           | FMaxStreams uni m \<Rightarrow> t + vs m
           | FDataBlocked m \<Rightarrow> t + vs m
           | FStreamDataBlocked i m \<Rightarrow> t + vs i + vs m
           | FStreamsBlocked uni m \<Rightarrow> t + vs m
           | FNewConnId sq retirePrior cid token \<Rightarrow>
               t + vs sq + vs retirePrior + 1 + length cid + QUIC_RESET_TOKEN_LEN
           | FRetireConnId sq \<Rightarrow> t + vs sq
           | FPath resp d \<Rightarrow> t + QUIC_PATH_DATA_LEN
           | FDatagram hasLen d \<Rightarrow> if hasLen then t + ls d + length d else 0
           | FConnClose err ftype reason \<Rightarrow>
               t + vs err + ls reason + length reason
                 + (case ftype of None \<Rightarrow> 0 | Some ft \<Rightarrow> vs ft)
           | FStream off len fin i offset d \<Rightarrow>
               t + vs i + length d + (if off then vs offset else 0) + (if len then ls d else 0)
           | FUnknown ty \<Rightarrow> 0)"

definition quicFrameEncode :: "QuicWr \<Rightarrow> QuicFrame \<Rightarrow> bool \<times> QuicWr" where
  "quicFrameEncode wr f =
     (case f of
        FPadding n \<Rightarrow>
          if quicWrLeft wr < unat n then (False, wr\<lparr>wr_bad := True\<rparr>)
          else (True, wr\<lparr>wr_buf := mem_write (wr_buf wr) (wr_p wr) (replicate (unat n) 0),
                         wr_p := wr_p wr + unat n\<rparr>)
      | _ \<Rightarrow>
          if quicFrameSize f = 0 then (False, wr)
          else
            let w = quicWrVarint; wt = quicWrVarint wr (frameType f) in
            case f of
              FNewConnId sq retirePrior cid token \<Rightarrow>
                if length cid = 0 \<or> length cid > QUIC_MAX_CID then (False, wt)
                else
                  let wr1 = quicWrBytes (quicWrBytes
                        (quicWr8 (w (w wt sq) retirePrior) (of_nat (length cid))) cid) token
                  in (\<not> wr_bad wr1, wr1)
            | _ \<Rightarrow>
                let wr1 =
                  (case f of
                     FAck largest delay rangeCount firstRange rangeData ecn \<Rightarrow>
                       let wa = quicWrBytes (w (w (w (w wt largest) delay) rangeCount) firstRange)
                                  rangeData
                       in (case ecn of None \<Rightarrow> wa | Some (e0, e1, ce) \<Rightarrow> w (w (w wa e0) e1) ce)
                   | FResetStream i err finalSize \<Rightarrow> w (w (w wt i) err) finalSize
                   | FStopSending i err \<Rightarrow> w (w wt i) err
                   | FCrypto offset d \<Rightarrow> quicWrVarintBytes (w wt offset) d
                   | FNewToken d \<Rightarrow> quicWrVarintBytes wt d
                   | FMaxData m \<Rightarrow> w wt m
                   | FMaxStreamData i m \<Rightarrow> w (w wt i) m
                   | FMaxStreams uni m \<Rightarrow> w wt m
                   | FDataBlocked m \<Rightarrow> w wt m
                   | FStreamDataBlocked i m \<Rightarrow> w (w wt i) m
                   | FStreamsBlocked uni m \<Rightarrow> w wt m
                   | FRetireConnId sq \<Rightarrow> w wt sq
                   | FPath resp d \<Rightarrow> quicWrBytes wt d
                   | FDatagram hasLen d \<Rightarrow> quicWrVarintBytes wt d
                   | FConnClose err ftype reason \<Rightarrow>
                       quicWrVarintBytes
                         (case ftype of None \<Rightarrow> w wt err | Some ft \<Rightarrow> w (w wt err) ft) reason
                   | FStream off len fin i offset d \<Rightarrow>
                       let wi = w wt i;
                           wo = (if off then w wi offset else wi);
                           wl = (if len then w wo (of_nat (length d)) else wo)
                       in quicWrBytes wl d
                   | _ \<Rightarrow> wt)
                in (\<not> wr_bad wr1, wr1))"

section \<open>The bytes of a frame\<close>

text \<open>The gap and length pairs of an ACK frame, as values and as bytes.\<close>

definition pair_bytes :: "(u64 \<times> u64) list \<Rightarrow> u8 list" where
  "pair_bytes ps = concat (map (\<lambda>(g, l). varint_bytes g @ varint_bytes l) ps)"

definition pairs_ok :: "(u64 \<times> u64) list \<Rightarrow> bool" where
  "pairs_ok ps \<longleftrightarrow> list_all (\<lambda>(g, l). varint_ok g \<and> varint_ok l) ps"

definition frame_bytes :: "QuicFrame \<Rightarrow> u8 list" where
  "frame_bytes f =
     (let v = varint_bytes; t = varint_bytes (frameType f) in
      case f of
        FPadding n \<Rightarrow> replicate (unat n) 0
      | FAck largest delay rangeCount firstRange rangeData ecn \<Rightarrow>
          t @ v largest @ v delay @ v rangeCount @ v firstRange @ rangeData
            @ (case ecn of None \<Rightarrow> [] | Some (e0, e1, ce) \<Rightarrow> v e0 @ v e1 @ v ce)
      | FResetStream i err finalSize \<Rightarrow> t @ v i @ v err @ v finalSize
      | FStopSending i err \<Rightarrow> t @ v i @ v err
      | FCrypto offset d \<Rightarrow> t @ v offset @ varint_string d
      | FNewToken d \<Rightarrow> t @ varint_string d
      | FMaxData m \<Rightarrow> t @ v m
      | FMaxStreamData i m \<Rightarrow> t @ v i @ v m
      | FMaxStreams uni m \<Rightarrow> t @ v m
      | FDataBlocked m \<Rightarrow> t @ v m
      | FStreamDataBlocked i m \<Rightarrow> t @ v i @ v m
      | FStreamsBlocked uni m \<Rightarrow> t @ v m
      | FNewConnId sq retirePrior cid token \<Rightarrow>
          t @ v sq @ v retirePrior @ [of_nat (length cid)] @ cid @ token
      | FRetireConnId sq \<Rightarrow> t @ v sq
      | FPath resp d \<Rightarrow> t @ d
      | FDatagram hasLen d \<Rightarrow> t @ varint_string d
      | FConnClose err ftype reason \<Rightarrow>
          t @ v err @ (case ftype of None \<Rightarrow> [] | Some ft \<Rightarrow> v ft) @ varint_string reason
      | FStream off len fin i offset d \<Rightarrow>
          t @ v i @ (if off then v offset else []) @ (if len then varint_string d else d)
      | _ \<Rightarrow> t)"

text \<open>
  What the encoder needs of a frame: every number fits a varint, every string length too, and the
  fixed-size arrays have their size.
\<close>

definition frame_fits :: "QuicFrame \<Rightarrow> bool" where
  "frame_fits f \<longleftrightarrow>
     (case f of
        FPadding n \<Rightarrow> True
      | FPing \<Rightarrow> True
      | FHandshakeDone \<Rightarrow> True
      | FAck largest delay rangeCount firstRange rangeData ecn \<Rightarrow>
          varint_ok largest \<and> varint_ok delay \<and> varint_ok rangeCount \<and> varint_ok firstRange \<and>
          (case ecn of None \<Rightarrow> True
           | Some (e0, e1, ce) \<Rightarrow> varint_ok e0 \<and> varint_ok e1 \<and> varint_ok ce)
      | FResetStream i err finalSize \<Rightarrow> varint_ok i \<and> varint_ok err \<and> varint_ok finalSize
      | FStopSending i err \<Rightarrow> varint_ok i \<and> varint_ok err
      | FCrypto offset d \<Rightarrow> varint_ok offset \<and> string_ok d
      | FNewToken d \<Rightarrow> string_ok d
      | FMaxData m \<Rightarrow> varint_ok m
      | FMaxStreamData i m \<Rightarrow> varint_ok i \<and> varint_ok m
      | FMaxStreams uni m \<Rightarrow> varint_ok m
      | FDataBlocked m \<Rightarrow> varint_ok m
      | FStreamDataBlocked i m \<Rightarrow> varint_ok i \<and> varint_ok m
      | FStreamsBlocked uni m \<Rightarrow> varint_ok m
      | FNewConnId sq retirePrior cid token \<Rightarrow>
          varint_ok sq \<and> varint_ok retirePrior \<and> 0 < length cid \<and> length cid \<le> QUIC_MAX_CID \<and>
          length token = QUIC_RESET_TOKEN_LEN
      | FRetireConnId sq \<Rightarrow> varint_ok sq
      | FPath resp d \<Rightarrow> length d = QUIC_PATH_DATA_LEN
      | FDatagram hasLen d \<Rightarrow> hasLen \<and> string_ok d
      | FConnClose err ftype reason \<Rightarrow>
          varint_ok err \<and> (case ftype of None \<Rightarrow> True | Some ft \<Rightarrow> varint_ok ft) \<and> string_ok reason
      | FStream off len fin i offset d \<Rightarrow>
          varint_ok i \<and> (off \<longrightarrow> varint_ok offset) \<and> string_ok d
      | FUnknown ty \<Rightarrow> False)"

text \<open>
  What the decoder checks on top: the conditions of RFC 9000 section 19 on the values, and the
  fields that a type number leaves out being zero.
\<close>

definition frame_checked :: "QuicFrame \<Rightarrow> bool" where
  "frame_checked f \<longleftrightarrow>
     (case f of
        FPadding n \<Rightarrow> True
      | FAck largest delay rangeCount firstRange rangeData ecn \<Rightarrow> firstRange \<le> largest
      | FCrypto offset d \<Rightarrow> frameOffsetOk offset (of_nat (length d))
      | FNewToken d \<Rightarrow> d \<noteq> []
      | FMaxStreams uni m \<Rightarrow> m \<le> QUIC_MAX_STREAMS
      | FStreamsBlocked uni m \<Rightarrow> m \<le> QUIC_MAX_STREAMS
      | FNewConnId sq retirePrior cid token \<Rightarrow>
          retirePrior \<le> sq \<and> 0 < length cid \<and> length cid \<le> QUIC_MAX_CID \<and>
          length token = QUIC_RESET_TOKEN_LEN
      | FPath resp d \<Rightarrow> length d = QUIC_PATH_DATA_LEN
      | FStream off len fin i offset d \<Rightarrow>
          (\<not> off \<longrightarrow> offset = 0) \<and> frameOffsetOk offset (of_nat (length d))
      | FUnknown ty \<Rightarrow> False
      | _ \<Rightarrow> True)"

text \<open>The range bytes of an ACK hold as many pairs as its count says.\<close>

definition frame_valid :: "QuicFrame \<Rightarrow> bool" where
  "frame_valid f \<longleftrightarrow> frame_checked f \<and>
     (case f of
        FAck largest delay rangeCount firstRange rangeData ecn \<Rightarrow>
          (\<exists>ps. pairs_ok ps \<and> rangeData = pair_bytes ps \<and> unat rangeCount = length ps)
      | _ \<Rightarrow> True)"

text \<open>Frames that say where they end; the others have to be last.\<close>

definition frame_delimited :: "QuicFrame \<Rightarrow> bool" where
  "frame_delimited f \<longleftrightarrow>
     (case f of FPadding n \<Rightarrow> False | FStream off len fin i offset d \<Rightarrow> len | _ \<Rightarrow> True)"

lemma frameType_ok: "(\<And>ty. f \<noteq> FUnknown ty) \<Longrightarrow> quicVarintSize (frameType f) = 1"
  by (cases f) (auto simp: quicVarintSize_def)

lemma varint_ok_small [simp]: "varint_ok (frameType f)" if "frame_fits f"
  using frameType_ok [of f] that quicVarintSize_gt_0 [of "frameType f"]
  by (cases f) (auto simp: frame_fits_def simp del: quicVarintSize_gt_0)

lemma length_frame_bytes:
  assumes "frame_fits f"
  shows "length (frame_bytes f) = quicFrameSize f"
  using assms varint_ok_small [OF assms]
  by (cases f)
    (auto simp: frame_fits_def frame_bytes_def quicFrameSize_def Let_def varint_string_def
      string_ok_varint split: option.splits)

lemma padding_grow:
  assumes "wr_wf wr"
  shows "wr_grow wr (snd (quicFrameEncode wr (FPadding n))) (replicate (unat n) 0)"
  using assms mem_simps(1) [of "wr_p wr" "replicate (unat n) 0" "wr_buf wr"]
  by (auto simp: quicFrameEncode_def wr_grow_def wr_wf_def quicWrLeft_def wr_room_def wr_out_def
      split: if_splits)

lemma frame_size_pos:
  "frame_fits f \<Longrightarrow> (\<And>n. f \<noteq> FPadding n) \<Longrightarrow> quicFrameSize f \<noteq> 0"
  by (cases f) (auto simp: quicFrameSize_def frame_fits_def quicVarintSize_def Let_def)

lemma quicFrameEncode_grow:
  assumes "wr_wf wr" "frame_fits f"
  shows "wr_grow wr (snd (quicFrameEncode wr f)) (frame_bytes f)"
proof (cases "\<exists>n. f = FPadding n")
  case True
  then show ?thesis using padding_grow [OF assms(1)] by (auto simp: frame_bytes_def)
next
  case False
  then have sz: "quicFrameSize f \<noteq> 0" using frame_size_pos [OF assms(2)] by blast
  have t: "varint_ok (frameType f)" using assms(2) by simp
  show ?thesis
    using False sz assms(2) t
    by (cases f)
      (auto simp: quicFrameEncode_def frame_bytes_def frame_fits_def Let_def varint_string_def
        quicWr8_bytes string_ok_varint split: option.splits simp del: frameType.simps
        intro!: wr_growI [OF wr_grow_chain(2)] wr_growI [OF wr_grow_chain(3)] wr_growI [OF wr_grow_chain(4)] wr_grow_chain assms(1))
qed

lemma ackScan_mk:
  "pairs_ok ps \<Longrightarrow>
   ackScan (length ps) (rd_mk pre (pair_bytes ps @ rest)) = (True, rd_mk (pre @ pair_bytes ps) rest)"
  by (induction ps arbitrary: pre) (auto simp: pair_bytes_def pairs_ok_def wire_rd)


section \<open>Decoding what was encoded\<close>

lemma quicFrameDecode_body:
  "varint_ok ty \<Longrightarrow>
   quicFrameDecode (rd_mk pre (varint_bytes ty @ body)) = frameBody ty (rd_mk (pre @ varint_bytes ty) body)"
  by (simp add: quicFrameDecode_def wire_rd)

lemma varint_ok_type: "ty < 0x40 \<Longrightarrow> varint_ok ty"
  by (simp add: varint_ok_def QUIC_MAX_PACKET_NUMBER_def word_less_nat_alt)

lemmas rd_frames = rdFrame1_def rdFrame2_def rdFrame3_def

lemma decode_ack:
  assumes "frame_fits (FAck largest delay rangeCount firstRange rangeData ecn)"
    and "frame_valid (FAck largest delay rangeCount firstRange rangeData ecn)"
  shows "frameDecodeAck (ecn \<noteq> None) (rd_mk pre (varint_bytes largest @ varint_bytes delay
      @ varint_bytes rangeCount @ varint_bytes firstRange @ rangeData
      @ (case ecn of None \<Rightarrow> [] | Some (e0, e1, ce) \<Rightarrow> varint_bytes e0 @ varint_bytes e1 @ varint_bytes ce)
      @ rest)) =
    (Some (FAck largest delay rangeCount firstRange rangeData ecn),
     rd_mk (pre @ varint_bytes largest @ varint_bytes delay @ varint_bytes rangeCount
       @ varint_bytes firstRange @ rangeData
       @ (case ecn of None \<Rightarrow> [] | Some (e0, e1, ce) \<Rightarrow> varint_bytes e0 @ varint_bytes e1 @ varint_bytes ce))
       rest)"
proof -
  obtain ps where ps: "pairs_ok ps" "rangeData = pair_bytes ps" "unat rangeCount = length ps"
    using assms(2) by (auto simp: frame_valid_def frame_checked_def)
  show ?thesis
    using assms unfolding ps(2)
    by (cases ecn)
      (auto simp: frameDecodeAck_def frame_fits_def frame_valid_def frame_checked_def wire_rd ps(3) ackScan_mk ps(1))
qed

lemma decode_new_conn_id:
  assumes "frame_fits (FNewConnId sq rp cid token)" "frame_valid (FNewConnId sq rp cid token)"
  shows "frameDecodeNewConnId (rd_mk pre (varint_bytes sq @ varint_bytes rp @ of_nat (length cid)
      # cid @ token @ rest)) =
    (Some (FNewConnId sq rp cid token),
     rd_mk (pre @ varint_bytes sq @ varint_bytes rp @ of_nat (length cid) # cid @ token) rest)"
proof -
  have n: "unat (of_nat (length cid) :: u8) = length cid" "0 < length cid"
    using assms(1) by (auto simp: frame_fits_def unat_of_nat_small)
  then have "(of_nat (length cid) :: u8) \<noteq> 0" by (metis less_numeral_extra(3) unsigned_0)
  with n assms show ?thesis
    by (simp add: frameDecodeNewConnId_def frame_fits_def frame_valid_def frame_checked_def wire_rd)
qed

lemma stream_flags:
  "(frameType (FStream off len fin i offset d) AND QUIC_STREAM_OFF \<noteq> 0) = off"
  "(frameType (FStream off len fin i offset d) AND QUIC_STREAM_LEN \<noteq> 0) = len"
  "(frameType (FStream off len fin i offset d) AND QUIC_STREAM_FIN \<noteq> 0) = fin"
  by (cases off; cases len; cases fin; simp)+

lemma decode_stream:
  assumes "frame_fits (FStream off len fin i offset d)" "frame_valid (FStream off len fin i offset d)"
    and "len \<or> rest = []"
  shows "frameDecodeStream (frameType (FStream off len fin i offset d))
      (rd_mk pre (varint_bytes i @ (if off then varint_bytes offset else [])
        @ (if len then varint_string d else d) @ rest)) =
    (Some (FStream off len fin i offset d),
     rd_mk (pre @ varint_bytes i @ (if off then varint_bytes offset else [])
        @ (if len then varint_string d else d)) rest)"
  using assms quicRdBytes_mk [of d "length d" _ "[]", OF refl]
  by (auto simp: frameDecodeStream_def frame_fits_def frame_valid_def frame_checked_def stream_flags wire_rd
      simp del: frameType.simps)

lemma stream_body:
  "frameBody (frameType (FStream off len fin i offset d)) rd =
    frameDecodeStream (frameType (FStream off len fin i offset d)) rd"
  by (cases off; cases len; cases fin; simp add: frameBody_def)

lemma quicFrameDecode_mk:
  assumes "frame_fits f" "frame_valid f" "frame_delimited f \<or> rest = []" "\<And>n. f \<noteq> FPadding n"
  shows "quicFrameDecode (rd_mk pre (frame_bytes f @ rest)) = (Some f, rd_mk (pre @ frame_bytes f) rest)"
proof (cases f)
  case (FAck largest delay rangeCount firstRange rangeData ecn)
  with assms decode_ack [of largest delay rangeCount firstRange rangeData ecn "pre @ varint_bytes (frameType f)" rest]
  show ?thesis
    by (cases ecn) (auto simp: frame_bytes_def quicFrameDecode_body varint_ok_type frameBody_def)
next
  case (FNewConnId sq rp cid token)
  with assms decode_new_conn_id [of sq rp cid token "pre @ varint_bytes (frameType f)" rest]
  show ?thesis
    by (simp add: frame_bytes_def quicFrameDecode_body varint_ok_type frameBody_def)
next
  case (FStream off len fin i offset d)
  with assms decode_stream [of off len fin i offset d rest "pre @ varint_bytes (frameType f)"]
  show ?thesis
    by (simp add: frame_bytes_def quicFrameDecode_body stream_body frame_delimited_def
        varint_ok_small [OF assms(1)] del: frameType.simps)
qed (use assms in \<open>auto simp: frame_bytes_def frame_fits_def frame_valid_def frame_checked_def frameBody_def
      quicFrameDecode_body varint_ok_type rd_frames wire_rd frameDecodeCrypto_def frameDecodeDatagram_def
      frameDecodeConnClose_def split: option.splits\<close>)



section \<open>Memory safety and padding\<close>

text \<open>
  The contract of a frame decoder that started at \<open>rd0\<close>: the cursor made a legal step and a
  frame it accepts passes the checks. The rules follow a chain of reads from the first call on.
\<close>

definition dec_ok :: "QuicRd \<Rightarrow> QuicFrame option \<times> QuicRd \<Rightarrow> bool" where
  "dec_ok rd0 r \<longleftrightarrow> rd_step rd0 (snd r) \<and> (\<forall>f. fst r = Some f \<longrightarrow> frame_checked f)"

lemma dec_ok_None: "rd_step rd0 rd \<Longrightarrow> dec_ok rd0 (None, rd)"
  and dec_ok_Some: "rd_step rd0 rd \<Longrightarrow> frame_checked f \<Longrightarrow> dec_ok rd0 (Some f, rd)"
  and dec_ok_if: "(b \<Longrightarrow> dec_ok rd0 r1) \<Longrightarrow> (\<not> b \<Longrightarrow> dec_ok rd0 r2) \<Longrightarrow> dec_ok rd0 (if b then r1 else r2)"
  and dec_ok_if_fst: "(b \<Longrightarrow> dec_ok rd0 (x, rd)) \<Longrightarrow> (\<not> b \<Longrightarrow> dec_ok rd0 (y, rd)) \<Longrightarrow>
    dec_ok rd0 (if b then x else y, rd)"
  by (simp_all add: dec_ok_def)

lemma dec_then:
  assumes "\<And>rd. rd_wf rd \<Longrightarrow> rd_step rd (snd (g rd))" and "rd_step rd0 rd"
    and "\<And>x rd1. g rd = (x, rd1) \<Longrightarrow> rd_wf rd \<Longrightarrow> rd_step rd0 rd1 \<Longrightarrow> dec_ok rd0 (k x rd1)"
  shows "dec_ok rd0 (case g rd of (x, rd1) \<Rightarrow> k x rd1)"
proof (cases "g rd")
  case (Pair x rd1)
  note wf = rd_step_wf [OF assms(2)]
  have "rd_step rd rd1" using assms(1) [OF wf] Pair by simp
  with Pair wf assms(2,3) show ?thesis by (auto intro: rd_step_trans)
qed

lemma ackScan_step: "rd_wf rd \<Longrightarrow> rd_step rd (snd (ackScan n rd))"
proof (induction n arbitrary: rd)
  case 0
  then show ?case by (simp add: rd_step_refl)
next
  case (Suc n)
  obtain x rd1 y rd2 where e: "quicRdVarint rd = (x, rd1)" "quicRdVarint rd1 = (y, rd2)"
    by (metis surj_pair)
  have s1: "rd_step rd rd1" using quicRdVarint_step [OF Suc.prems] e by simp
  have s2: "rd_step rd1 rd2" using quicRdVarint_step [OF rd_step_wf [OF s1]] e by simp
  then have "rd_step rd rd2" using s1 by (blast intro: rd_step_trans)
  with Suc.IH [OF rd_step_wf [OF s2]] e show ?case
    by (auto intro: rd_step_trans)
qed

lemma padRun_step: "rd_wf rd \<Longrightarrow> rd_step rd (snd (padRun rd n))"
proof (induction rd n rule: padRun.induct)
  case (1 rd n)
  show ?case
  proof (cases "quicRdLeft rd > 0 \<and> rd_buf rd ! rd_p rd = 0")
    case True
    let ?rd1 = "rd\<lparr>rd_p := rd_p rd + 1\<rparr>"
    have "rd_step rd ?rd1" "rd_wf ?rd1"
      using True by (auto simp: rd_step_def rd_wf_def quicRdLeft_def split: if_splits)
    with True 1 show ?thesis
      by (auto simp: padRun.simps [of rd n] intro: rd_step_trans)
  qed (auto simp: padRun.simps [of rd n] rd_step_refl 1)
qed


lemmas dec_rules = dec_ok_None dec_ok_if dec_ok_if_fst dec_ok_Some
  dec_then [of quicRdVarint, OF quicRdVarint_step]
  dec_then [of quicRdVarintBytes, OF quicRdVarintBytes_step]
  dec_then [of quicRd8, OF quicRd8_step]
  dec_then [of "\<lambda>rd. quicRdBytes rd n" for n, OF quicRdBytes_step]
  dec_then [of "\<lambda>rd. quicRdBytes rd (quicRdLeft rd)", OF quicRdBytes_step]
  dec_then [of "ackScan n" for n, OF ackScan_step]
  dec_then [of "\<lambda>rd. padRun rd n" for n, OF padRun_step]

lemma decoders_ok:
  assumes "rd_step rd0 rd"
  shows "dec_ok rd0 (frameDecodeAck e rd)"
    and "dec_ok rd0 (frameDecodeNewConnId rd)"
    and "dec_ok rd0 (frameDecodeStream ty rd)"
    and "dec_ok rd0 (frameDecodeCrypto rd)"
    and "dec_ok rd0 (frameDecodeConnClose e rd)"
    and "dec_ok rd0 (frameDecodeDatagram e rd)"
proof -
  show "dec_ok rd0 (frameDecodeAck e rd)"
    unfolding frameDecodeAck_def Let_def
    by (intro dec_rules assms) (simp_all add: frame_checked_def linorder_not_less)
  show "dec_ok rd0 (frameDecodeNewConnId rd)"
    unfolding frameDecodeNewConnId_def Let_def
    by (intro dec_rules assms) (auto simp: frame_checked_def linorder_not_less unat_eq_zero
        split: option.split intro!: dec_rules dest!: quicRdBytes_length)
  show "dec_ok rd0 (frameDecodeStream ty rd)"
    unfolding frameDecodeStream_def Let_def
    by (auto simp: frame_checked_def split: option.split intro!: dec_rules assms)
  show "dec_ok rd0 (frameDecodeCrypto rd)"
    unfolding frameDecodeCrypto_def Let_def
    by (auto simp: frame_checked_def split: option.split intro!: dec_rules assms)
  show "dec_ok rd0 (frameDecodeConnClose e rd)"
    unfolding frameDecodeConnClose_def Let_def
    by (auto simp: frame_checked_def split: option.split intro!: dec_rules assms)
  show "dec_ok rd0 (frameDecodeDatagram e rd)"
    unfolding frameDecodeDatagram_def Let_def
    by (auto simp: frame_checked_def split: option.split intro!: dec_rules assms)
qed

lemma frameBody_ok:
  assumes "rd_step rd0 rd"
  shows "dec_ok rd0 (frameBody ty rd)"
proof -
  have small1: "dec_ok rd0 (rdFrame1 rd (\<lambda>m. Some (mk m)))" if "\<And>m. frame_checked (mk m)" for mk
    unfolding rd_frames Let_def by (intro dec_rules assms that)
  have small2: "dec_ok rd0 (rdFrame2 rd mk)" if "\<And>a b. frame_checked (mk a b)" for mk
    unfolding rd_frames Let_def by (intro dec_rules assms that)
  have small3: "dec_ok rd0 (rdFrame3 rd mk)" if "\<And>a b c. frame_checked (mk a b c)" for mk
    unfolding rd_frames Let_def by (intro dec_rules assms that)
  have capped: "dec_ok rd0 (rdFrame1 rd (\<lambda>m. if m \<le> QUIC_MAX_STREAMS then Some (mk m) else None))"
    if "\<And>m. m \<le> QUIC_MAX_STREAMS \<Longrightarrow> frame_checked (mk m)" for mk
    unfolding rd_frames Let_def by (intro dec_rules assms that)
  have rest: "dec_ok rd0 (let (n, rd1) = padRun rd 1 in (Some (FPadding n), rd1))"
    "dec_ok rd0 (case quicRdVarintBytes rd of (None, rd1) \<Rightarrow> (None, rd1)
       | (Some t, rd1) \<Rightarrow> (if length t > 0 then Some (FNewToken t) else None, rd1))"
    "dec_ok rd0 (case quicRdBytes rd QUIC_PATH_DATA_LEN of (None, rd1) \<Rightarrow> (None, rd1)
       | (Some p, rd1) \<Rightarrow> (Some (FPath resp p), rd1))" for resp
    unfolding Let_def
    by (auto simp: frame_checked_def split: option.split intro!: dec_rules assms
        dest!: quicRdBytes_length)
  show ?thesis
    unfolding frameBody_def
    by (intro dec_ok_if decoders_ok small1 small2 small3 capped rest dec_ok_None dec_ok_Some assms)
      (simp_all add: frame_checked_def)
qed

lemma quicRdVarint_advances:
  "quicRdVarint rd = (v, rd1) \<Longrightarrow> \<not> rd_bad rd1 \<Longrightarrow> rd_p rd < rd_p rd1"
  by (auto simp: quicRdVarint_def Let_def split: if_splits)

lemma quicFrameDecode_ok:
  assumes "rd_wf rd"
  shows "dec_ok rd (quicFrameDecode rd)"
    and "quicFrameDecode rd = (Some f, rd1) \<Longrightarrow> rd_p rd < rd_p rd1"
proof -
  obtain ty rd2 where v: "quicRdVarint rd = (ty, rd2)" by (cases "quicRdVarint rd")
  have st: "rd_step rd rd2" using quicRdVarint_step [OF assms] v by simp
  then show "dec_ok rd (quicFrameDecode rd)"
    using v frameBody_ok [OF st] assms
    by (auto simp: quicFrameDecode_def intro: dec_ok_None rd_step_refl)
  show "rd_p rd < rd_p rd1" if "quicFrameDecode rd = (Some f, rd1)"
  proof -
    have "frameBody ty rd2 = (Some f, rd1)" "\<not> rd_bad rd2"
      using that v by (auto simp: quicFrameDecode_def split: if_splits)
    then have "rd_step rd2 rd1" "rd_p rd < rd_p rd2"
      using frameBody_ok [OF rd_step_refl [OF rd_step_wf [OF st]], of ty] quicRdVarint_advances [OF v]
      by (simp_all add: dec_ok_def)
    then show ?thesis by (simp add: rd_step_def)
  qed
qed

text \<open>The frames that a loop over \<^verbatim>\<open>_quicFrameDecode\<close> sees before it stops.\<close>

function frames_of :: "QuicRd \<Rightarrow> QuicFrame list \<times> QuicRd" where
  "frames_of rd =
     (case quicFrameDecode rd of
        (None, rd1) \<Rightarrow> ([], rd1)
      | (Some f, rd1) \<Rightarrow> (case frames_of rd1 of (fs, rd2) \<Rightarrow> (f # fs, rd2)))"
  by pat_completeness auto
termination
proof (relation "measure (\<lambda>rd. length (rd_buf rd) - rd_p rd)")
  fix rd fo rd1 f
  assume "(fo, rd1) = quicFrameDecode rd" "fo = Some f"
  then have r: "quicFrameDecode rd = (Some f, rd1)" by metis
  then have wf: "rd_wf rd" "rd_p rd < length (rd_buf rd)"
    by (auto simp: quicFrameDecode_def rd_wf_def quicRdLeft_def split: if_splits)
  have "rd_p rd < rd_p rd1" by (rule quicFrameDecode_ok(2) [OF wf(1) r])
  moreover have "rd_buf rd1 = rd_buf rd"
    using quicFrameDecode_ok(1) [OF wf(1)] by (simp add: r dec_ok_def rd_step_def)
  ultimately show "(rd1, rd) \<in> measure (\<lambda>rd. length (rd_buf rd) - rd_p rd)"
    using wf(2) by simp
qed simp

declare frames_of.simps [simp del]

section \<open>Properties\<close>

interpretation frame: wire_item "\<lambda>wr f. snd (quicFrameEncode wr f)" quicFrameDecode frame_bytes
  "\<lambda>f. frame_fits f \<and> frame_valid f \<and> frame_delimited f" Some
proof (unfold_locales, goal_cases)
  case (1 wr f)
  then show ?case by (simp add: quicFrameEncode_grow)
next
  case (2 f pre rest)
  then have "\<And>n. f \<noteq> FPadding n" by (auto simp: frame_delimited_def)
  with 2 show ?case by (simp add: quicFrameDecode_mk)
qed

lemma quicFrameEncode_result:
  assumes "frame_fits f" "\<not> wr_bad wr"
  shows "fst (quicFrameEncode wr f) \<longleftrightarrow> \<not> wr_bad (snd (quicFrameEncode wr f))"
  using assms frame_size_pos [OF assms(1)]
  by (cases f) (auto simp: quicFrameEncode_def Let_def frame_fits_def)

lemma frames_of_mk:
  assumes "list_all (\<lambda>f. frame_fits f \<and> frame_valid f \<and> frame_delimited f) fs"
  shows "frames_of (rd_mk pre (concat (map frame_bytes fs))) =
    (fs, rd_mk (pre @ concat (map frame_bytes fs)) [])"
  using assms
proof (induction fs arbitrary: pre)
  case Nil
  then show ?case by (simp add: frames_of.simps quicFrameDecode_def)
next
  case (Cons f fs)
  then show ?case
    by (simp add: frames_of.simps [of "rd_mk pre (frame_bytes f @ rest)" for rest] frame.get_mk)
qed

lemma foldl_put_all:
  "foldl (\<lambda>wr f. snd (quicFrameEncode wr f)) wr fs = frame.put_all wr fs"
  by (induction fs arbitrary: wr) simp_all

text \<open>
  Every frame the encoder writes is decoded to the same frame, from exactly the bytes written.
  A STREAM frame without a length field runs to the end of the packet, so it round trips as the
  last frame only.
\<close>

theorem frame_roundtrip:
  assumes "wr_wf wr" "\<not> wr_bad wr" "frame_fits f" "frame_valid f" "\<forall>n. f \<noteq> FPadding n"
    and "frame_delimited f \<or> rest = []"
    and "quicFrameEncode wr f = (True, wr')"
  shows "\<exists>enc. wr_out wr' = wr_out wr @ enc \<and> length enc = quicFrameSize f \<and>
    quicFrameDecode (quicRdInit (enc @ rest)) =
      (Some f, \<lparr>rd_buf = enc @ rest, rd_p = length enc, rd_bad = False\<rparr>)"
proof (intro exI conjI)
  show "wr_out wr' = wr_out wr @ frame_bytes f"
    using quicFrameEncode_grow [OF assms(1,3)] quicFrameEncode_result [OF assms(3,2)] assms(7)
    by (simp add: wr_grow_def)
  show "length (frame_bytes f) = quicFrameSize f" by (rule length_frame_bytes [OF assms(3)])
  show "quicFrameDecode (quicRdInit (frame_bytes f @ rest)) =
      (Some f, \<lparr>rd_buf = frame_bytes f @ rest, rd_p = length (frame_bytes f), rd_bad = False\<rparr>)"
    using quicFrameDecode_mk [OF assms(3,4,6), of "[]"] assms(5)
    by (simp add: quicRdInit_mk rd_mk_def)
qed

definition example_stream :: QuicFrame where
  "example_stream = FStream True True True 4 70000 [1, 2, 3]"

theorem frame_roundtrip_witness:
  "\<exists>enc. wr_out (snd (quicFrameEncode (quicWrInit (replicate 16 0)) example_stream)) = [] @ enc
    \<and> fst (quicFrameDecode (quicRdInit (enc @ [1]))) = Some example_stream"
proof -
  have enc: "quicFrameEncode (quicWrInit (replicate 16 0)) example_stream =
      (True, snd (quicFrameEncode (quicWrInit (replicate 16 0)) example_stream))"
    unfolding example_stream_def by code_simp
  have "frame_fits example_stream" "frame_valid example_stream"
    by (simp_all add: example_stream_def frame_fits_def frame_valid_def frame_checked_def
        varint_ok_def string_ok_def frameOffsetOk_def QUIC_MAX_PACKET_NUMBER_def word_less_nat_alt
        word_le_nat_alt)
  moreover have "frame_delimited example_stream" "\<forall>n. example_stream \<noteq> FPadding n"
    by (simp_all add: example_stream_def frame_delimited_def)
  ultimately show ?thesis
    using frame_roundtrip [OF _ _ _ _ _ _ enc, of "[1]"] by auto
qed

text \<open>
  A packet payload built by encoding a list of self-delimiting frames one after the other is
  seen by a loop over \<^verbatim>\<open>_quicFrameDecode\<close> as exactly that list, and the loop stops at the end of the
  payload without an error.
\<close>

theorem frame_sequence_roundtrip:
  assumes "list_all (\<lambda>f. frame_fits f \<and> frame_valid f \<and> frame_delimited f) fs"
    and "wr = foldl (\<lambda>wr f. snd (quicFrameEncode wr f)) (quicWrInit buf) fs" "\<not> wr_bad wr"
  shows "frames_of (quicRdInit (wr_out wr)) =
    (fs, \<lparr>rd_buf = wr_out wr, rd_p = length (wr_out wr), rd_bad = False\<rparr>)"
proof -
  have "wr_out wr = concat (map frame_bytes fs)"
    using frame.put_all_grow [OF wr_wf_init(1) assms(1), of buf] assms(2,3)
    by (simp add: foldl_put_all wr_grow_def)
  then show ?thesis
    using frames_of_mk [OF assms(1), of "[]"] by (simp add: quicRdInit_mk rd_mk_def)
qed

theorem frame_sequence_roundtrip_witness:
  "fst (frames_of (quicRdInit (wr_out (foldl (\<lambda>wr f. snd (quicFrameEncode wr f))
     (quicWrInit (replicate 16 0)) [FPing, FMaxData 5, FHandshakeDone])))) =
   [FPing, FMaxData 5, FHandshakeDone]"
proof -
  let ?fs = "[FPing, FMaxData 5, FHandshakeDone]"
  have ok: "list_all (\<lambda>f. frame_fits f \<and> frame_valid f \<and> frame_delimited f) ?fs"
    by (simp add: frame_fits_def frame_valid_def frame_checked_def frame_delimited_def
        varint_ok_type)
  have nb: "\<not> wr_bad (foldl (\<lambda>wr f. snd (quicFrameEncode wr f)) (quicWrInit (replicate 16 0)) ?fs)"
    by code_simp
  show ?thesis
    using frame_sequence_roundtrip [OF ok refl nb] by (simp only: fst_conv)
qed

text \<open>
  \<^verbatim>\<open>_quicFrameSize\<close> is exact: \<^verbatim>\<open>_quicFrameEncode\<close> succeeds exactly when that many bytes are
  free, and then appends exactly that many.
\<close>

theorem frame_size_exact:
  assumes "wr_wf wr" "\<not> wr_bad wr" "frame_fits f"
  shows "(fst (quicFrameEncode wr f) \<longleftrightarrow> quicFrameSize f \<le> quicWrLeft wr)
    \<and> (fst (quicFrameEncode wr f) \<longrightarrow>
        length (wr_out (snd (quicFrameEncode wr f))) = length (wr_out wr) + quicFrameSize f
        \<and> take (length (wr_out wr)) (wr_out (snd (quicFrameEncode wr f))) = wr_out wr)"
  using quicFrameEncode_grow [OF assms(1,3)] length_frame_bytes [OF assms(3)]
    quicFrameEncode_result [OF assms(3,2)] assms(2)
  by (auto simp: wr_grow_def quicWrLeft_def wr_room_def)

theorem frame_size_exact_witness:
  "fst (quicFrameEncode (quicWrInit [0, 0]) (FMaxData 5))
    \<and> \<not> fst (quicFrameEncode (quicWrInit [0, 0]) (FMaxData 64))"
proof -
  have fits: "frame_fits (FMaxData 5)" "frame_fits (FMaxData 64)"
    by (simp_all add: frame_fits_def varint_ok_def QUIC_MAX_PACKET_NUMBER_def word_less_nat_alt)
  have "quicFrameSize (FMaxData 5) = 2" "quicFrameSize (FMaxData 64) = 3" by code_simp+
  then show ?thesis
    using frame_size_exact [of "quicWrInit [0, 0]", OF _ _ fits(1)]
      frame_size_exact [of "quicWrInit [0, 0]", OF _ _ fits(2)]
    by (simp add: quicWrLeft_def quicWrInit_def wr_wf_def)
qed

text \<open>
  The frame decoder is safe on every input: the cursor stays inside the payload and only moves
  forward, and by at least one byte for each accepted frame, so a loop over it ends. Every accepted
  frame passes the checks the code makes for RFC 9000 section 19: ranges stay below 2 to the 62, stream
  offsets pass \<^verbatim>\<open>frameOffsetOk\<close>, which lets data end at 2 to the 62 where the RFC asks for one less,
  stream counts are at most 2 to the 60, connection IDs have 1 to 20 bytes, and fixed-size fields are
  complete.
\<close>

theorem frame_decode_safe:
  assumes "rd_wf rd"
  shows "rd_step rd (snd (quicFrameDecode rd))
    \<and> (\<forall>f. fst (quicFrameDecode rd) = Some f \<longrightarrow>
        frame_checked f \<and> rd_p rd < rd_p (snd (quicFrameDecode rd)))"
  using quicFrameDecode_ok(1) [OF assms] quicFrameDecode_ok(2) [OF assms]
  by (cases "quicFrameDecode rd") (simp add: dec_ok_def)

theorem frame_decode_safe_witness:
  "rd_step (quicRdInit [0x06, 0x00, 0x05, 1]) (snd (quicFrameDecode (quicRdInit [0x06, 0x00, 0x05, 1])))"
  using frame_decode_safe [of "quicRdInit [0x06, 0x00, 0x05, 1]"] by (simp add: rd_wf_def quicRdInit_def)

text \<open>
  The two reasons for which the decoder returns false cannot always be told apart by the cursor's
  error flag and what is left: a payload that ends in an undefined frame type (here PING, then type
  0x21) leaves the cursor exactly as a well-formed payload does, at the end and not bad. The
  packet loop in \<^verbatim>\<open>src/cxquic/conn.c\<close> tests just these two, so it accepts such a packet.
\<close>

lemma undefined_last_frame_unnoticed:
  "frames_of (quicRdInit [0x01, 0x21]) =
    ([FPing], \<lparr>rd_buf = [0x01, 0x21], rd_p = 2, rd_bad = False\<rparr>)"
  by code_simp

end
