(* ===== verification/QuicAck.thy ===== *)
theory QuicAck
  imports QuicFrame
begin

text \<open>
  ACK ranges: the iterator over the ranges of a decoded ACK frame and the builder of an ACK frame
  from a list of ranges, from \<^verbatim>\<open>src/cxquic/frame.c\<close>.
\<close>

section \<open>Data\<close>

record QuicAckRange =
  ar_largest :: u64
  ar_smallest :: u64

record QuicAckIter =
  it_rd :: QuicRd
  it_remaining :: u64
  it_largest :: u64
  it_firstRange :: u64
  it_next :: u64
  it_first :: bool
  it_bad :: bool


section \<open>Walking the ranges\<close>

definition quicAckIterInit :: "QuicFrame \<Rightarrow> QuicAckIter option" where
  "quicAckIterInit f =
     (case f of
        FAck largest delay rangeCount firstRange rangeData ecn \<Rightarrow>
          if firstRange > largest then None
          else Some \<lparr>it_rd = quicRdInit rangeData, it_remaining = rangeCount,
                 it_largest = largest, it_firstRange = firstRange, it_next = 0,
                 it_first = True, it_bad = False\<rparr>
      | _ \<Rightarrow> None)"

definition quicAckIterNext :: "QuicAckIter \<Rightarrow> QuicAckRange option \<times> QuicAckIter" where
  "quicAckIterNext it =
     (if it_bad it then (None, it)
      else if it_first it then
        let smallest = it_largest it - it_firstRange it in
        (Some \<lparr>ar_largest = it_largest it, ar_smallest = smallest\<rparr>,
         it\<lparr>it_first := False, it_next := smallest\<rparr>)
      else if it_remaining it = 0 then (None, it)
      else
        let (gap, rd1) = quicRdVarint (it_rd it);
            (len, rd2) = quicRdVarint rd1;
            it1 = it\<lparr>it_remaining := it_remaining it - 1, it_rd := rd2\<rparr>
        in if rd_bad rd2 then (None, it1\<lparr>it_bad := True\<rparr>)
           else if it_next it1 < gap + 2 then (None, it1\<lparr>it_bad := True\<rparr>)
           else
             let largest = it_next it1 - gap - 2 in
             if largest < len then (None, it1\<lparr>it_bad := True\<rparr>)
             else
               let smallest = largest - len in
               (Some \<lparr>ar_largest = largest, ar_smallest = smallest\<rparr>,
                it1\<lparr>it_next := smallest\<rparr>))"


section \<open>Building an ACK frame\<close>

text \<open>The loop over \<open>ranges[i]\<close> for \<open>i \<ge> 1\<close>; the first argument is \<open>ranges[i - 1]\<close>.\<close>

fun ackBuildLoop :: "QuicAckRange \<Rightarrow> QuicAckRange list \<Rightarrow> QuicWr \<Rightarrow> QuicWr option" where
  "ackBuildLoop prev [] wr = Some wr"
| "ackBuildLoop prev (r # rs) wr =
     (if ar_smallest r > ar_largest r then None
      else if ar_largest r + 2 > ar_smallest prev then None
      else ackBuildLoop r rs
             (quicWrVarint (quicWrVarint wr (ar_smallest prev - ar_largest r - 2))
                (ar_largest r - ar_smallest r)))"

definition quicAckBuild ::
  "u64 \<Rightarrow> QuicAckRange list \<Rightarrow> (u64 \<times> u64 \<times> u64) option \<Rightarrow> u8 list \<Rightarrow> QuicFrame option" where
  "quicAckBuild delay ranges ecn rangeBuf =
     (case ranges of
        [] \<Rightarrow> None
      | r0 # rs \<Rightarrow>
          if ar_smallest r0 > ar_largest r0 then None
          else
            case ackBuildLoop r0 rs (quicWrInit rangeBuf) of
              None \<Rightarrow> None
            | Some wr \<Rightarrow>
                if wr_bad wr then None
                else Some (FAck (ar_largest r0) delay (of_nat (length ranges - 1))
                       (ar_largest r0 - ar_smallest r0)
                       (take (quicWrLen wr) (wr_buf wr)) ecn))"


section \<open>Ranges as a set of packet numbers\<close>

text \<open>A list of ranges, largest first, that neither overlap nor touch.\<close>

fun ranges_desc :: "QuicAckRange list \<Rightarrow> bool" where
  "ranges_desc [] = True"
| "ranges_desc [r] = (ar_smallest r \<le> ar_largest r)"
| "ranges_desc (r # s # rs) =
     (ar_smallest r \<le> ar_largest r \<and> unat (ar_largest s) + 2 \<le> unat (ar_smallest r) \<and>
      ranges_desc (s # rs))"

definition range_pns :: "QuicAckRange \<Rightarrow> nat set" where
  "range_pns r = {unat (ar_smallest r)..unat (ar_largest r)}"

definition ranges_pns :: "QuicAckRange list \<Rightarrow> nat set" where
  "ranges_pns rs = (\<Union>r\<in>set rs. range_pns r)"

text \<open>All the ranges the iterator yields, and the iterator at the end.\<close>

function ack_ranges :: "QuicAckIter \<Rightarrow> QuicAckRange list \<times> QuicAckIter" where
  "ack_ranges it =
     (case quicAckIterNext it of
        (None, it1) \<Rightarrow> ([], it1)
      | (Some r, it1) \<Rightarrow> (case ack_ranges it1 of (rs, it2) \<Rightarrow> (r # rs, it2)))"
  by pat_completeness auto

lemma quicAckIterNext_remaining:
  "quicAckIterNext it = (Some r, it1) \<Longrightarrow>
   unat (it_remaining it1) + of_bool (it_first it1) < unat (it_remaining it) + of_bool (it_first it)"
proof (cases "it_first it")
  case False
  assume "quicAckIterNext it = (Some r, it1)"
  with False have "it_remaining it1 = it_remaining it - 1" "\<not> it_first it1" "it_remaining it \<noteq> 0"
    by (auto simp: quicAckIterNext_def Let_def split: if_splits prod.splits)
  then show ?thesis
    using False by (simp add: unat_minus_one unat_gt_0)
qed (auto simp: quicAckIterNext_def Let_def split: if_splits)

termination ack_ranges
proof (relation "measure (\<lambda>it. unat (it_remaining it) + of_bool (it_first it))")
  fix it r it1 ro
  assume "(ro, it1) = quicAckIterNext it" "ro = Some r"
  then have "quicAckIterNext it = (Some r, it1)" by metis
  from quicAckIterNext_remaining [OF this]
  show "(it1, it) \<in> measure (\<lambda>it. unat (it_remaining it) + of_bool (it_first it))"
    by simp
qed simp

declare ack_ranges.simps [simp del]


section \<open>The iterator is sound on every frame\<close>

lemma quicAckIterNext_sound:
  assumes "quicAckIterNext it = (Some r, it1)" "\<not> it_first it"
  shows "ar_smallest r \<le> ar_largest r" "unat (ar_largest r) + 2 \<le> unat (it_next it)"
    "it_next it1 = ar_smallest r" "\<not> it_first it1"
proof -
  obtain gap rd1 len rd2 where rd: "quicRdVarint (it_rd it) = (gap, rd1)"
    "quicRdVarint rd1 = (len, rd2)" by (metis surj_pair)
  have g: "unat (gap + 2) = unat gap + 2"
    using quicRdVarint_value [OF rd(1)] by (simp add: unat_word_add)
  have c: "gap + 2 \<le> it_next it" "len \<le> it_next it - gap - 2"
    and r: "r = \<lparr>ar_largest = it_next it - gap - 2, ar_smallest = it_next it - gap - 2 - len\<rparr>"
    and it1: "it_next it1 = ar_smallest r" "\<not> it_first it1"
    using assms rd by (auto simp: quicAckIterNext_def Let_def linorder_not_less split: if_splits)
  show "it_next it1 = ar_smallest r" "\<not> it_first it1" by (rule it1)+
  have "unat (it_next it - gap - 2) = unat (it_next it) - (unat gap + 2)"
    using unat_word_sub [OF c(1)] g by (simp add: diff_diff_eq)
  then show "unat (ar_largest r) + 2 \<le> unat (it_next it)"
    using c(1) g by (simp add: r word_le_nat_alt)
  show "ar_smallest r \<le> ar_largest r"
    using c(2) by (simp add: r word_le_nat_alt unat_word_sub)
qed

lemma ranges_desc_Cons:
  "ranges_desc (r # rs) \<longleftrightarrow> ar_smallest r \<le> ar_largest r \<and> ranges_desc rs \<and>
    (rs \<noteq> [] \<longrightarrow> unat (ar_largest (hd rs)) + 2 \<le> unat (ar_smallest r))"
  by (cases rs) auto

lemma ack_ranges_desc:
  "\<not> it_first it \<Longrightarrow> ranges_desc (fst (ack_ranges it)) \<and>
    (fst (ack_ranges it) \<noteq> [] \<longrightarrow> unat (ar_largest (hd (fst (ack_ranges it)))) + 2 \<le> unat (it_next it))"
proof (induction it rule: ack_ranges.induct)
  case (1 it)
  show ?case
  proof (cases "quicAckIterNext it")
    case (Pair ro it1)
    show ?thesis
    proof (cases ro)
      case None
      with Pair show ?thesis by (simp add: ack_ranges.simps [of it])
    next
      case (Some r)
      note nx = quicAckIterNext_sound [OF Pair [unfolded Some] 1(2)]
      have eq: "fst (ack_ranges it) = r # fst (ack_ranges it1)"
        using Pair Some by (simp add: ack_ranges.simps [of it] split: prod.split)
      show ?thesis
        using 1(1) [OF Pair [symmetric] Some nx(4)] nx by (simp add: eq ranges_desc_Cons)
    qed
  qed
qed

lemma quicAckIterInit_ranges:
  assumes "quicAckIterInit f = Some it"
  shows "ranges_desc (fst (ack_ranges it))" "hd (fst (ack_ranges it)) =
      \<lparr>ar_largest = ackLargest f, ar_smallest = ackLargest f - ackFirstRange f\<rparr>"
    "fst (ack_ranges it) \<noteq> []"
proof -
  obtain l d c fr rd e where f: "f = FAck l d c fr rd e" and le: "fr \<le> l"
    and it: "it = \<lparr>it_rd = quicRdInit rd, it_remaining = c, it_largest = l, it_firstRange = fr,
      it_next = 0, it_first = True, it_bad = False\<rparr>"
    using assms by (auto simp: quicAckIterInit_def linorder_not_less split: QuicFrame.splits if_splits)
  let ?r = "\<lparr>ar_largest = l, ar_smallest = l - fr\<rparr>"
  let ?it1 = "it\<lparr>it_first := False, it_next := l - fr\<rparr>"
  have nx: "quicAckIterNext it = (Some ?r, ?it1)" by (simp add: quicAckIterNext_def it Let_def)
  have eq: "fst (ack_ranges it) = ?r # fst (ack_ranges ?it1)"
    using nx by (simp add: ack_ranges.simps [of it] split: prod.split)
  show "ranges_desc (fst (ack_ranges it))"
    using ack_ranges_desc [of ?it1] le
    by (simp add: eq ranges_desc_Cons word_le_nat_alt unat_word_sub)
  show "hd (fst (ack_ranges it)) =
      \<lparr>ar_largest = ackLargest f, ar_smallest = ackLargest f - ackFirstRange f\<rparr>"
    "fst (ack_ranges it) \<noteq> []"
    by (simp_all add: eq f)
qed


section \<open>What is built is what is walked\<close>

text \<open>The gap and length pairs that follow the range \<open>prev\<close>.\<close>

fun ack_pairs :: "QuicAckRange \<Rightarrow> QuicAckRange list \<Rightarrow> (u64 \<times> u64) list" where
  "ack_pairs prev [] = []"
| "ack_pairs prev (r # rs) =
     (ar_smallest prev - ar_largest r - 2, ar_largest r - ar_smallest r) # ack_pairs r rs"

definition ranges_bounded :: "QuicAckRange list \<Rightarrow> bool" where
  "ranges_bounded rs \<longleftrightarrow> list_all (\<lambda>r. varint_ok (ar_largest r)) rs"

lemma length_ack_pairs [simp]: "length (ack_pairs prev rs) = length rs"
  by (induction prev rs rule: ack_pairs.induct) simp_all

lemma range_step_arith:
  fixes s l q :: u64
  assumes "unat l + 2 \<le> unat s" "q \<le> l" "varint_ok s"
  shows "varint_ok (s - l - 2)" "varint_ok (l - q)" "s - l - 2 + 2 \<le> s" "s - (s - l - 2) - 2 = l"
    "l - (l - q) = q" "l - q \<le> l" "unat (s - l - 2) = unat s - (unat l + 2)"
proof -
  have ls: "l \<le> s" "2 \<le> s - l"
    using assms(1) by (simp_all add: word_le_nat_alt unat_word_sub)
  show u: "unat (s - l - 2) = unat s - (unat l + 2)"
    using unat_word_sub [OF ls(2)] unat_word_sub [OF ls(1)] by simp
  show "varint_ok (s - l - 2)" "varint_ok (l - q)"
    using assms u by (simp_all add: varint_ok_unat word_le_nat_alt unat_word_sub)
  show "s - (s - l - 2) - 2 = l" "l - (l - q) = q" by simp_all
  have "s - l - 2 + 2 = s - l" by simp
  then show "s - l - 2 + 2 \<le> s" using ls(1) by (simp add: word_le_nat_alt unat_word_sub)
  show "l - q \<le> l" using assms(2) by (simp add: word_le_nat_alt unat_word_sub)
qed

lemma ackBuildLoop_ok:
  assumes "wr_wf wr" "ackBuildLoop prev rs wr = Some wr'" "\<not> wr_bad wr'"
    and "ranges_bounded (prev # rs)" "ar_smallest prev \<le> ar_largest prev"
  shows "ranges_desc (prev # rs) \<and> pairs_ok (ack_pairs prev rs) \<and>
    wr_out wr' = wr_out wr @ pair_bytes (ack_pairs prev rs) \<and> \<not> wr_bad wr"
  using assms
proof (induction prev rs wr rule: ackBuildLoop.induct)
  case (1 prev wr)
  then show ?case by (simp add: pair_bytes_def pairs_ok_def)
next
  case (2 prev r rs wr)
  let ?g = "ar_smallest prev - ar_largest r - 2" and ?l = "ar_largest r - ar_smallest r"
  have le: "ar_smallest r \<le> ar_largest r" "ar_largest r + 2 \<le> ar_smallest prev"
    and rec: "ackBuildLoop r rs (quicWrVarint (quicWrVarint wr ?g) ?l) = Some wr'"
    using 2(3) by (auto simp: linorder_not_less split: if_splits)
  have b: "varint_ok (ar_largest r)" "varint_ok (ar_smallest prev)"
    using 2(5,6) by (auto simp: ranges_bounded_def varint_ok_unat word_le_nat_alt)
  have gap: "unat (ar_largest r) + 2 \<le> unat (ar_smallest prev)"
    using le(2) b(1) by (simp add: word_le_nat_alt varint_ok_unat unat_word_add)
  note ar = range_step_arith [OF gap le(1) b(2)]
  have grow: "wr_grow wr (quicWrVarint (quicWrVarint wr ?g) ?l) (varint_bytes ?g @ varint_bytes ?l)"
    using wr_grow_varint [OF 2(2) quicWrVarint_grow [OF 2(2) ar(1)] ar(2)] .
  have "ranges_desc (r # rs) \<and> pairs_ok (ack_pairs r rs) \<and>
      wr_out wr' = wr_out (quicWrVarint (quicWrVarint wr ?g) ?l) @ pair_bytes (ack_pairs r rs) \<and>
      \<not> wr_bad (quicWrVarint (quicWrVarint wr ?g) ?l)"
    using le 2(5) by (intro 2(1) rec 2(4) wr_grow_wf [OF grow]) (auto simp: ranges_bounded_def)
  with grow ar gap le 2(6) show ?case
    by (auto simp: wr_grow_def pair_bytes_def pairs_ok_def)
qed

lemma ack_ranges_pairs:
  assumes "ranges_desc (prev # rs)" "ranges_bounded (prev # rs)" "length rs < 2 ^ 64"
    and "it_rd it = rd_mk pre (pair_bytes (ack_pairs prev rs))"
    and "it_remaining it = of_nat (length rs)"
    and "it_next it = ar_smallest prev" "\<not> it_first it" "\<not> it_bad it"
  shows "fst (ack_ranges it) = rs \<and> \<not> it_bad (snd (ack_ranges it))"
  using assms
proof (induction prev rs arbitrary: it pre rule: ack_pairs.induct)
  case (1 prev)
  then have "quicAckIterNext it = (None, it)" by (simp add: quicAckIterNext_def)
  with 1 show ?case by (simp add: ack_ranges.simps [of it])
next
  case (2 prev r rs)
  let ?g = "ar_smallest prev - ar_largest r - 2" and ?l = "ar_largest r - ar_smallest r"
  let ?it1 = "it\<lparr>it_remaining := of_nat (length rs), it_rd := rd_mk (pre @ varint_bytes ?g @ varint_bytes ?l)
    (pair_bytes (ack_pairs r rs)), it_next := ar_smallest r\<rparr>"
  have gap: "unat (ar_largest r) + 2 \<le> unat (ar_smallest prev)" and le: "ar_smallest r \<le> ar_largest r"
    and b: "varint_ok (ar_smallest prev)"
    using 2(2,3) by (auto simp: ranges_desc_Cons ranges_bounded_def varint_ok_unat word_le_nat_alt)
  note ar = range_step_arith [OF gap le b]
  have rem: "it_remaining it \<noteq> 0" "it_remaining it - 1 = of_nat (length rs)"
    using 2(4) unat_of_nat_small [of "Suc (length rs)", where 'a = 64]
    by (auto simp: 2(6) simp del: of_nat_Suc) simp
  have rd: "it_rd it = rd_mk pre (varint_bytes ?g @ varint_bytes ?l @ pair_bytes (ack_pairs r rs))"
    by (simp add: 2(5) pair_bytes_def)
  have nx: "quicAckIterNext it = (Some r, ?it1)"
    using rem ar 2(7-9) by (simp add: quicAckIterNext_def Let_def rd quicRdVarint_mk linorder_not_less)
  have "fst (ack_ranges ?it1) = rs \<and> \<not> it_bad (snd (ack_ranges ?it1))"
    using 2(2-4,8,9) by (intro 2(1)) (auto simp: ranges_desc_Cons ranges_bounded_def)
  then show ?case
    by (auto simp: ack_ranges.simps [of it] nx split: prod.split)
qed


lemma ackBuildLoop_total:
  assumes "wr_wf wr" "\<not> wr_bad wr" "ranges_desc (prev # rs)" "ranges_bounded (prev # rs)"
    and "16 * length rs \<le> wr_room wr"
  shows "\<exists>wr'. ackBuildLoop prev rs wr = Some wr' \<and> \<not> wr_bad wr'"
  using assms
proof (induction prev rs wr rule: ackBuildLoop.induct)
  case (2 prev r rs wr)
  let ?g = "ar_smallest prev - ar_largest r - 2" and ?l = "ar_largest r - ar_smallest r"
  let ?wr1 = "quicWrVarint (quicWrVarint wr ?g) ?l"
  have gap: "unat (ar_largest r) + 2 \<le> unat (ar_smallest prev)" and le: "ar_smallest r \<le> ar_largest r"
    and b: "varint_ok (ar_smallest prev)" "varint_ok (ar_largest r)"
    using 2(4,5) by (auto simp: ranges_desc_Cons ranges_bounded_def varint_ok_unat word_le_nat_alt)
  note ar = range_step_arith [OF gap le b(1)]
  have c: "\<not> ar_largest r + 2 > ar_smallest prev" "\<not> ar_smallest r > ar_largest r"
    using gap le b by (simp_all add: linorder_not_less word_le_nat_alt varint_ok_unat unat_word_add)
  have grow: "wr_grow wr ?wr1 (varint_bytes ?g @ varint_bytes ?l)"
    using wr_grow_varint [OF 2(2) quicWrVarint_grow [OF 2(2) ar(1)] ar(2)] .
  have len: "length (varint_bytes ?g @ varint_bytes ?l) \<le> 16"
    using quicVarintSize_cases [of ?g] quicVarintSize_cases [of ?l] ar(1,2) by auto
  with grow 2(3,6) have nb: "\<not> wr_bad ?wr1" by (auto simp: wr_grow_def)
  have room: "16 * length rs \<le> wr_room ?wr1"
    using wr_grow_room [OF grow 2(2) nb] len 2(6) by simp
  have "\<exists>wr'. ackBuildLoop r rs ?wr1 = Some wr' \<and> \<not> wr_bad wr'"
    using 2(4,5) c nb room by (intro 2(1) wr_grow_wf [OF grow]) (auto simp: ranges_bounded_def)
  with c show ?case by simp
qed simp

section \<open>Properties\<close>

lemma quicAckBuild_Some:
  assumes "quicAckBuild delay ranges ecn rangeBuf = Some f"
  obtains r0 rs wr where "ranges = r0 # rs" "ar_smallest r0 \<le> ar_largest r0"
    "ackBuildLoop r0 rs (quicWrInit rangeBuf) = Some wr" "\<not> wr_bad wr"
    "f = FAck (ar_largest r0) delay (of_nat (length rs)) (ar_largest r0 - ar_smallest r0) (wr_out wr) ecn"
  using assms
  by (auto simp: quicAckBuild_def linorder_not_less wr_out_def quicWrLen_def
      split: list.splits if_splits option.splits)

lemma quicAckBuild_walk:
  assumes "quicAckBuild delay ranges ecn rangeBuf = Some f"
    and "ranges_bounded ranges" "length ranges \<le> 2 ^ 62"
  shows "ranges_desc ranges \<and> frame_valid f
    \<and> (\<exists>it. quicAckIterInit f = Some it \<and> fst (ack_ranges it) = ranges
        \<and> \<not> it_bad (snd (ack_ranges it)))"
proof -
  obtain r0 rs wr where r: "ranges = r0 # rs" "ar_smallest r0 \<le> ar_largest r0"
    and l: "ackBuildLoop r0 rs (quicWrInit rangeBuf) = Some wr" "\<not> wr_bad wr"
    and f: "f = FAck (ar_largest r0) delay (of_nat (length rs)) (ar_largest r0 - ar_smallest r0) (wr_out wr) ecn"
    by (rule quicAckBuild_Some [OF assms(1)])
  have ok: "ranges_desc (r0 # rs)" "pairs_ok (ack_pairs r0 rs)" "wr_out wr = pair_bytes (ack_pairs r0 rs)"
    using ackBuildLoop_ok [OF _ l] assms(2) r by simp_all
  have fr: "ar_largest r0 - ar_smallest r0 \<le> ar_largest r0" "length rs < 2 ^ 64"
    using r assms(3) by (simp_all add: word_le_nat_alt unat_word_sub)
  define it where "it = \<lparr>it_rd = quicRdInit (wr_out wr), it_remaining = of_nat (length rs),
    it_largest = ar_largest r0, it_firstRange = ar_largest r0 - ar_smallest r0, it_next = 0,
    it_first = True, it_bad = False\<rparr>"
  let ?it1 = "it\<lparr>it_first := False, it_next := ar_smallest r0\<rparr>"
  have init: "quicAckIterInit f = Some it"
    using fr by (simp add: quicAckIterInit_def f it_def linorder_not_less)
  have nx: "quicAckIterNext it = (Some r0, ?it1)"
    using r by (simp add: quicAckIterNext_def it_def Let_def)
  have rest: "fst (ack_ranges ?it1) = rs \<and> \<not> it_bad (snd (ack_ranges ?it1))"
    using ok assms(2) r fr
    by (intro ack_ranges_pairs [of r0 rs _ "[]"]) (simp_all add: it_def quicRdInit_mk)
  have "frame_valid f"
    using fr ok by (auto simp: f frame_valid_def frame_checked_def unat_of_nat_small)
  with ok rest init show ?thesis
    by (auto simp: r ack_ranges.simps [of it] nx split: prod.split)
qed

text \<open>
  C36. An ACK frame built from a list of ranges acknowledges exactly those ranges: the builder
  accepts only ranges that descend without overlapping or touching, the frame passes the decoder's
  validation, and the iterator over the frame gives the list back without an error.
\<close>

theorem ack_build_roundtrip:
  assumes "quicAckBuild delay ranges ecn rangeBuf = Some f"
    and "ranges_bounded ranges" "length ranges \<le> 2 ^ 62"
  shows "ranges_desc ranges \<and> frame_valid f
    \<and> (\<exists>it. quicAckIterInit f = Some it \<and> fst (ack_ranges it) = ranges
        \<and> \<not> it_bad (snd (ack_ranges it)))"
  by (rule quicAckBuild_walk [OF assms])

definition example_ranges :: "QuicAckRange list" where
  "example_ranges = [\<lparr>ar_largest = 90, ar_smallest = 80\<rparr>, \<lparr>ar_largest = 70, ar_smallest = 70\<rparr>]"

theorem ack_build_roundtrip_witness:
  "\<exists>it. quicAckIterInit (the (quicAckBuild 3 example_ranges None (replicate 32 0))) = Some it
    \<and> fst (ack_ranges it) = example_ranges"
proof -
  have b: "quicAckBuild 3 example_ranges None (replicate 32 0) =
      Some (the (quicAckBuild 3 example_ranges None (replicate 32 0)))"
    unfolding example_ranges_def by code_simp
  have "ranges_bounded example_ranges" "length example_ranges \<le> 2 ^ 62"
    by (simp_all add: example_ranges_def ranges_bounded_def varint_ok_unat)
  with ack_build_roundtrip [OF b] show ?thesis by blast
qed

lemma quicAckBuild_total:
  assumes "ranges_desc ranges" "ranges_bounded ranges" "ranges \<noteq> []"
    and "16 * (length ranges - 1) \<le> length rangeBuf"
  shows "\<exists>f. quicAckBuild delay ranges ecn rangeBuf = Some f"
proof -
  obtain r0 rs where r: "ranges = r0 # rs" using assms(3) by (cases ranges) auto
  then have "\<exists>wr'. ackBuildLoop r0 rs (quicWrInit rangeBuf) = Some wr' \<and> \<not> wr_bad wr'"
    using assms by (intro ackBuildLoop_total) simp_all
  moreover have "\<not> ar_smallest r0 > ar_largest r0"
    using assms(1) r by (simp add: ranges_desc_Cons linorder_not_less)
  ultimately show ?thesis by (auto simp: quicAckBuild_def r)
qed

text \<open>
  Sixteen bytes of range buffer per further range are enough: every non-empty list of ranges
  that descends without touching is accepted, below the documented twenty bytes per range.
\<close>

theorem ack_build_total:
  assumes "ranges_desc ranges" "ranges_bounded ranges" "ranges \<noteq> []"
    and "16 * (length ranges - 1) \<le> length rangeBuf"
  shows "\<exists>f. quicAckBuild delay ranges ecn rangeBuf = Some f"
  by (rule quicAckBuild_total [OF assms])

theorem ack_build_total_witness:
  "\<exists>f. quicAckBuild 3 example_ranges None (replicate 16 0) = Some f"
  using ack_build_total [of example_ranges "replicate 16 0" 3 None]
  by (simp add: example_ranges_def ranges_bounded_def varint_ok_unat word_le_nat_alt)

text \<open>
  Whatever bytes a peer sends, the iterator ends and yields ranges that are well formed: the
  first one is the frame's largest and first range, and every further one lies at least two below
  the one before, so no packet number is acknowledged twice and none exceeds the largest.
\<close>

theorem ack_iter_descending:
  assumes "quicAckIterInit f = Some it" "fst (ack_ranges it) = rs"
  shows "rs \<noteq> [] \<and> ranges_desc rs \<and> ar_largest (hd rs) = ackLargest f
    \<and> ar_smallest (hd rs) = ackLargest f - ackFirstRange f"
  using quicAckIterInit_ranges [OF assms(1)] by (simp flip: assms(2))

theorem ack_iter_descending_witness:
  "ranges_desc (fst (ack_ranges (the (quicAckIterInit (FAck 10 0 1 2 [3, 1] None)))))"
proof -
  have "quicAckIterInit (FAck 10 0 1 2 [3, 1] None) =
      Some (the (quicAckIterInit (FAck 10 0 1 2 [3, 1] None)))" by code_simp
  from ack_iter_descending [OF this refl] show ?thesis by simp
qed

end
