(* ===== verification/QuicAckState.thy ===== *)
theory QuicAckState
  imports QuicAck
begin

text \<open>
  Received packet numbers, the second half of \<^verbatim>\<open>src/cxquic/reasm.c\<close>: the list of ranges an endpoint
  keeps so that it can acknowledge what it received and drop duplicates. The array of ranges with
  its count is a list; times are only stored here.
\<close>

section \<open>Data\<close>

record QuicAckState =
  as_ranges :: "QuicAckRange list"
  as_largest :: u64
  as_largestTime :: int
  as_elicitCount :: u32
  as_pending :: bool
  as_deadline :: int
  as_sentPn :: u64
  as_ect0 :: u64
  as_ect1 :: u64
  as_ce :: u64
  as_ecnSeen :: bool

abbreviation (input) QUIC_MAX_ACK_RANGES :: nat where "QUIC_MAX_ACK_RANGES \<equiv> 32"


section \<open>Operations\<close>

text \<open>The search loop: the insertion point, or \<open>None\<close> for a duplicate.\<close>

fun ackFind :: "QuicAckRange list \<Rightarrow> u64 \<Rightarrow> nat option" where
  "ackFind [] pn = Some 0"
| "ackFind (r # rs) pn =
     (if ar_largest r \<ge> pn
      then if pn \<ge> ar_smallest r then None else map_option Suc (ackFind rs pn)
      else Some 0)"

text \<open>What happens to the range list; \<open>None\<close> is a packet older than everything tracked.\<close>

definition ackInsert :: "QuicAckRange list \<Rightarrow> nat \<Rightarrow> u64 \<Rightarrow> QuicAckRange list option" where
  "ackInsert rs i pn =
     (let joinAbove = (0 < i \<and> ar_smallest (rs ! (i - 1)) = pn + 1);
          joinBelow = (i < length rs \<and> ar_largest (rs ! i) + 1 = pn);
          new = \<lparr>ar_largest = pn, ar_smallest = pn\<rparr>
      in if joinAbove \<and> joinBelow then
           Some (take (i - 1) rs @ [(rs ! (i - 1))\<lparr>ar_smallest := ar_smallest (rs ! i)\<rparr>]
                   @ drop (Suc i) rs)
         else if joinAbove then Some (rs[i - 1 := (rs ! (i - 1))\<lparr>ar_smallest := pn\<rparr>])
         else if joinBelow then Some (rs[i := (rs ! i)\<lparr>ar_largest := pn\<rparr>])
         else if length rs < QUIC_MAX_ACK_RANGES then Some (take i rs @ [new] @ drop i rs)
         else if i < QUIC_MAX_ACK_RANGES then
           Some (take i rs @ [new] @ take (QUIC_MAX_ACK_RANGES - i - 1) (drop i rs))
         else None)"

definition quicAckStateAdd :: "QuicAckState \<Rightarrow> u64 \<Rightarrow> int \<Rightarrow> bool \<Rightarrow> bool \<times> QuicAckState" where
  "quicAckStateAdd as pn now ackEliciting =
     (case ackFind (as_ranges as) pn of
        None \<Rightarrow> (False, as)
      | Some i \<Rightarrow>
          (case ackInsert (as_ranges as) i pn of
             None \<Rightarrow> (True, as)
           | Some rs \<Rightarrow>
               let as1 = as\<lparr>as_ranges := rs\<rparr>;
                   as2 = (if as_largest as1 = QUIC_PN_NONE \<or> pn > as_largest as1
                          then as1\<lparr>as_largest := pn, as_largestTime := now\<rparr> else as1);
                   as3 = (if ackEliciting
                          then as2\<lparr>as_elicitCount := as_elicitCount as2 + 1, as_pending := True\<rparr>
                          else as2)
               in (True, as3)))"

datatype NetEcn = NET_ECN_NotEct | NET_ECN_Ect1 | NET_ECN_Ect0 | NET_ECN_CE

definition quicAckStateEcn :: "QuicAckState \<Rightarrow> NetEcn \<Rightarrow> QuicAckState" where
  "quicAckStateEcn as ecn =
     (case ecn of
        NET_ECN_Ect0 \<Rightarrow> as\<lparr>as_ect0 := as_ect0 as + 1, as_ecnSeen := True\<rparr>
      | NET_ECN_Ect1 \<Rightarrow> as\<lparr>as_ect1 := as_ect1 as + 1, as_ecnSeen := True\<rparr>
      | NET_ECN_CE \<Rightarrow> as\<lparr>as_ce := as_ce as + 1, as_ecnSeen := True\<rparr>
      | NET_ECN_NotEct \<Rightarrow> as)"


section \<open>Descending ranges\<close>

abbreviation (input) above :: "QuicAckRange \<Rightarrow> QuicAckRange \<Rightarrow> bool" where
  "above r s \<equiv> unat (ar_largest s) + 2 \<le> unat (ar_smallest r)"

lemma ranges_desc_sorted:
  "ranges_desc rs \<longleftrightarrow> (\<forall>r\<in>set rs. ar_smallest r \<le> ar_largest r) \<and> sorted_wrt above rs"
proof (induction rs rule: ranges_desc.induct)
  case (3 r s rs)
  then show ?case by (fastforce simp: word_le_nat_alt)
qed auto

lemma ackFind_None:
  "ranges_desc rs \<Longrightarrow> ackFind rs pn = None \<longleftrightarrow> unat pn \<in> ranges_pns rs"
proof (induction rs)
  case (Cons r rs)
  then show ?case
    by (fastforce simp: ranges_desc_sorted ranges_pns_def range_pns_def word_le_nat_alt)
qed (simp add: ranges_pns_def)

lemma ackFind_split:
  "ackFind rs pn = Some i \<Longrightarrow> ranges_desc rs \<Longrightarrow>
   i \<le> length rs \<and> (\<forall>r\<in>set (take i rs). pn < ar_smallest r) \<and> (\<forall>r\<in>set (drop i rs). ar_largest r < pn)"
proof (induction rs arbitrary: i)
  case (Cons r rs)
  show ?case
  proof (cases "pn \<le> ar_largest r")
    case True
    with Cons show ?thesis by (auto simp: ranges_desc_Cons split: if_splits)
  next
    case False
    with Cons.prems show ?thesis
      by (fastforce simp: ranges_desc_sorted word_le_nat_alt word_less_nat_alt)
  qed
qed simp


lemma ranges_pns_simps [simp]:
  "ranges_pns [] = {}" "ranges_pns (r # rs) = range_pns r \<union> ranges_pns rs"
  "ranges_pns (rs @ ss) = ranges_pns rs \<union> ranges_pns ss"
  by (auto simp: ranges_pns_def)

text \<open>
  The shapes \<open>ackInsert\<close> gives a list split at the insertion point into \<open>A\<close> and \<open>B\<close>:
  each keeps the list descending and adds exactly \<open>pn\<close>.
\<close>

lemma insert_new:
  assumes "ranges_desc (A @ B)" "\<forall>r\<in>set A. unat pn + 2 \<le> unat (ar_smallest r)"
    and "\<forall>r\<in>set B. unat (ar_largest r) + 2 \<le> unat pn"
  shows "ranges_desc (A @ \<lparr>ar_largest = pn, ar_smallest = pn\<rparr> # B)"
    and "ranges_pns (A @ \<lparr>ar_largest = pn, ar_smallest = pn\<rparr> # B) = insert (unat pn) (ranges_pns (A @ B))"
  using assms by (auto simp: ranges_desc_sorted sorted_wrt_append range_pns_def)

lemma insert_above:
  assumes "ranges_desc (A @ a # B)" "unat (ar_smallest a) = unat pn + 1"
    and "\<forall>r\<in>set B. unat (ar_largest r) + 2 \<le> unat pn"
  shows "ranges_desc (A @ a\<lparr>ar_smallest := pn\<rparr> # B)"
    and "ranges_pns (A @ a\<lparr>ar_smallest := pn\<rparr> # B) = insert (unat pn) (ranges_pns (A @ a # B))"
  using assms by (auto simp: ranges_desc_sorted sorted_wrt_append range_pns_def word_le_nat_alt)

lemma insert_below:
  assumes "ranges_desc (A @ b # B)" "unat (ar_largest b) + 1 = unat pn"
    and "\<forall>r\<in>set A. unat pn + 2 \<le> unat (ar_smallest r)"
  shows "ranges_desc (A @ b\<lparr>ar_largest := pn\<rparr> # B)"
    and "ranges_pns (A @ b\<lparr>ar_largest := pn\<rparr> # B) = insert (unat pn) (ranges_pns (A @ b # B))"
  using assms by (auto simp: ranges_desc_sorted sorted_wrt_append range_pns_def word_le_nat_alt)

lemma insert_both:
  assumes "ranges_desc (A @ a # b # B)" "unat (ar_smallest a) = unat pn + 1" "unat (ar_largest b) + 1 = unat pn"
  shows "ranges_desc (A @ a\<lparr>ar_smallest := ar_smallest b\<rparr> # B)"
    and "ranges_pns (A @ a\<lparr>ar_smallest := ar_smallest b\<rparr> # B) = insert (unat pn) (ranges_pns (A @ a # b # B))"
  using assms by (auto simp: ranges_desc_sorted sorted_wrt_append range_pns_def word_le_nat_alt)

lemma range_pns_disjoint:
  "ranges_desc (rs @ [r]) \<Longrightarrow> ranges_pns rs \<inter> range_pns r = {}"
  by (fastforce simp: ranges_desc_sorted sorted_wrt_append ranges_pns_def range_pns_def word_le_nat_alt)


text \<open>Neighbours of the insertion point that do not join leave a gap.\<close>

lemma gap_above:
  assumes "ranges_desc A" "\<forall>r\<in>set A. pn < ar_smallest r" "varint_ok pn"
    and "A \<noteq> [] \<Longrightarrow> ar_smallest (last A) \<noteq> pn + 1"
  shows "\<forall>r\<in>set A. unat pn + 2 \<le> unat (ar_smallest r)"
proof (cases A rule: rev_cases)
  case (snoc A' a)
  have pn1: "unat (pn + 1) = unat pn + 1" using assms(3) by (simp add: varint_ok_unat unat_word_add)
  have "unat (ar_smallest a) \<noteq> unat pn + 1" using assms(4) snoc pn1
    by (metis last_snoc snoc_eq_iff_butlast unsigned_word_eqI)
  then have a: "unat pn + 2 \<le> unat (ar_smallest a)" using assms(2) snoc by (simp add: word_less_nat_alt)
  have "unat (ar_largest a) + 2 \<le> unat (ar_smallest r)" "ar_smallest a \<le> ar_largest a" if "r \<in> set A'" for r
    using that assms(1) snoc by (auto simp: ranges_desc_sorted sorted_wrt_append)
  with a snoc show ?thesis by (fastforce simp: word_le_nat_alt)
qed simp

lemma gap_below:
  assumes "ranges_desc B" "\<forall>r\<in>set B. ar_largest r < pn" "ranges_bounded B"
    and "B \<noteq> [] \<Longrightarrow> ar_largest (hd B) + 1 \<noteq> pn"
  shows "\<forall>r\<in>set B. unat (ar_largest r) + 2 \<le> unat pn"
proof (cases B)
  case (Cons b B')
  have b1: "unat (ar_largest b + 1) = unat (ar_largest b) + 1"
    using assms(3) Cons by (simp add: ranges_bounded_def varint_ok_unat unat_word_add)
  have "unat (ar_largest b) + 1 \<noteq> unat pn"
    using assms(4) Cons b1 by (metis list.discI list.sel(1) unsigned_word_eqI)
  then have b: "unat (ar_largest b) + 2 \<le> unat pn" using assms(2) Cons by (simp add: word_less_nat_alt)
  have "unat (ar_largest r) + 2 \<le> unat (ar_smallest b)" "ar_smallest b \<le> ar_largest b" if "r \<in> set B'" for r
    using that assms(1) Cons by (auto simp: ranges_desc_sorted)
  with b Cons show ?thesis by (fastforce simp: word_le_nat_alt)
qed simp

lemma ranges_desc_append: "ranges_desc (A @ B) \<Longrightarrow> ranges_desc A \<and> ranges_desc B"
  by (auto simp: ranges_desc_sorted sorted_wrt_append)

lemma ackInsert_ok:
  assumes desc: "ranges_desc rs" and bnd: "ranges_bounded rs" and pn: "varint_ok pn"
    and find: "ackFind rs pn = Some i" and len: "length rs \<le> QUIC_MAX_ACK_RANGES"
    and ins: "ackInsert rs i pn = Some rs'"
  shows "ranges_desc rs' \<and> ranges_bounded rs' \<and> length rs' \<le> QUIC_MAX_ACK_RANGES \<and>
    (ranges_pns rs' = insert (unat pn) (ranges_pns rs) \<or>
     length rs = QUIC_MAX_ACK_RANGES \<and>
       ranges_pns rs' = insert (unat pn) (ranges_pns rs - range_pns (last rs)))"
proof -
  define A B where "A = take i rs" and "B = drop i rs"
  have AB: "rs = A @ B" "i = length A" and sp: "\<forall>r\<in>set A. pn < ar_smallest r" "\<forall>r\<in>set B. ar_largest r < pn"
    using ackFind_split [OF find desc] by (auto simp: A_def B_def)
  have pn1: "unat (pn + 1) = unat pn + 1" using pn by (simp add: varint_ok_unat unat_word_add)
  have bl: "unat (ar_largest r + 1) = unat (ar_largest r) + 1" if "r \<in> set rs" for r
    using that bnd by (auto simp: ranges_bounded_def list_all_iff varint_ok_unat unat_word_add)
  define ja jb where "ja \<longleftrightarrow> A \<noteq> [] \<and> ar_smallest (last A) = pn + 1"
    and "jb \<longleftrightarrow> B \<noteq> [] \<and> ar_largest (hd B) + 1 = pn"
  have ga: "\<not> ja \<Longrightarrow> \<forall>r\<in>set A. unat pn + 2 \<le> unat (ar_smallest r)"
    using gap_above [OF _ sp(1) pn] ranges_desc_append [of A B] desc AB by (auto simp: ja_def)
  have gb: "\<not> jb \<Longrightarrow> \<forall>r\<in>set B. unat (ar_largest r) + 2 \<le> unat pn"
    using gap_below [OF _ sp(2)] ranges_desc_append [of A B] desc bnd AB
    by (auto simp: jb_def ranges_bounded_def)
  have J: "(0 < i \<and> ar_smallest (rs ! (i - 1)) = pn + 1) = ja"
    "(i < length rs \<and> ar_largest (rs ! i) + 1 = pn) = jb"
    by (cases A rule: rev_cases; cases B; auto simp: ja_def jb_def AB nth_append)+
  have a: "unat (ar_smallest (last A)) = unat pn + 1" "A = butlast A @ [last A]" if "ja"
    using that pn1 by (auto simp: ja_def)
  have b: "unat (ar_largest (hd B)) + 1 = unat pn" "B = hd B # tl B" if "jb"
    using that bl [of "hd B"] by (auto simp: jb_def AB)
  note bd = bnd pn and ins = ins [unfolded ackInsert_def Let_def J]
  consider (both) ja jb | (above) ja "\<not> jb" | (below) "\<not> ja" jb | (new) "\<not> ja" "\<not> jb" by blast
  then show ?thesis
  proof cases
    case both
    obtain A' x y B' where e: "A = A' @ [x]" "B = y # B'" using a b both by metis
    have "rs' = A' @ x\<lparr>ar_smallest := ar_smallest y\<rparr> # B'"
      using ins both by (simp add: AB e nth_append)
    with insert_both [of A' x y B' pn] a b both desc bd len show ?thesis
      by (simp add: AB e ranges_bounded_def)
  next
    case above
    obtain A' x where e: "A = A' @ [x]" using a above by metis
    have "rs' = A' @ x\<lparr>ar_smallest := pn\<rparr> # B"
      using ins above by (simp add: AB e nth_append)
    with insert_above [of A' x B pn] a gb above desc bd len show ?thesis
      by (simp add: AB e ranges_bounded_def)
  next
    case below
    obtain y B' where e: "B = y # B'" using b below by metis
    have "rs' = A @ y\<lparr>ar_largest := pn\<rparr> # B'"
      using ins below by (simp add: AB e)
    with insert_below [of A y B' pn] b ga below desc bd len show ?thesis
      by (simp add: AB e ranges_bounded_def)
  next
    case new
    let ?n = "\<lparr>ar_largest = pn, ar_smallest = pn\<rparr>"
    show ?thesis
    proof (cases "length rs < QUIC_MAX_ACK_RANGES")
      case True
      with ins new have "rs' = A @ ?n # B" by (simp add: A_def B_def)
      with insert_new [of A B pn] ga gb new desc bd True show ?thesis
        by (simp add: AB ranges_bounded_def)
    next
      case False
      then have full: "length rs = QUIC_MAX_ACK_RANGES" using len by simp
      with ins new have i: "i < QUIC_MAX_ACK_RANGES"
        and rs': "rs' = A @ ?n # take (QUIC_MAX_ACK_RANGES - i - 1) B"
        by (auto simp: A_def B_def split: if_splits)
      then obtain B' y where e: "B = B' @ [y]" using full AB by (cases B rule: rev_cases) auto
      then have rs'': "rs' = A @ ?n # B'" using full by (simp add: rs' AB)
      have d: "ranges_desc ((A @ B') @ [y])" using desc by (simp add: AB e)
      have "ranges_pns rs - range_pns (last rs) = ranges_pns (A @ B')"
        using range_pns_disjoint [OF d] by (auto simp: AB e)
      with insert_new [of A B' pn] ranges_desc_append [OF d] ga gb new bd full show ?thesis
        by (simp add: AB e rs'' ranges_bounded_def)
    qed
  qed
qed


section \<open>The invariant\<close>

text \<open>
  The range list is descending, separated and within its array, every number is a packet number,
  and the recorded largest is the top of the first range.
\<close>

definition ack_inv :: "QuicAckState \<Rightarrow> bool" where
  "ack_inv as \<longleftrightarrow>
     ranges_desc (as_ranges as) \<and> ranges_bounded (as_ranges as) \<and>
     length (as_ranges as) \<le> QUIC_MAX_ACK_RANGES \<and>
     as_largest as = (if as_ranges as = [] then QUIC_PN_NONE else ar_largest (hd (as_ranges as)))"

definition ack_pns :: "QuicAckState \<Rightarrow> nat set" where
  "ack_pns as = ranges_pns (as_ranges as)"

lemma ranges_top:
  assumes "ranges_desc rs" "rs \<noteq> []"
  shows "unat (ar_largest (hd rs)) \<in> ranges_pns rs" "n \<in> ranges_pns rs \<Longrightarrow> n \<le> unat (ar_largest (hd rs))"
proof -
  obtain r ss where r: "rs = r # ss" using assms(2) by (cases rs) auto
  show "unat (ar_largest (hd rs)) \<in> ranges_pns rs"
    using assms(1) by (simp add: r ranges_desc_sorted range_pns_def word_le_nat_alt)
  show "n \<in> ranges_pns rs \<Longrightarrow> n \<le> unat (ar_largest (hd rs))"
    using assms(1)
    by (fastforce simp: r ranges_desc_sorted ranges_pns_def range_pns_def word_le_nat_alt)
qed

lemma last_below_top:
  assumes "ranges_desc rs" "1 < length rs"
  shows "unat (ar_largest (hd rs)) \<notin> range_pns (last rs)"
proof -
  obtain r ss s where r: "rs = r # ss @ [s]"
    using assms(2) by (cases rs; cases "tl rs" rule: rev_cases) auto
  show ?thesis using assms(1)
    by (auto simp: r ranges_desc_sorted sorted_wrt_append range_pns_def word_le_nat_alt)
qed

lemma not_varint_ok_none: "\<not> varint_ok QUIC_PN_NONE"
  by code_simp

lemma ackInsert_top:
  assumes "ranges_desc rs" "ranges_desc rs'" "length rs \<le> QUIC_MAX_ACK_RANGES"
    and "ranges_pns rs' = insert (unat pn) (ranges_pns rs) \<or> length rs = QUIC_MAX_ACK_RANGES \<and>
       ranges_pns rs' = insert (unat pn) (ranges_pns rs - range_pns (last rs))"
  shows "rs' \<noteq> [] \<and> ar_largest (hd rs') = (if rs = [] then pn else max pn (ar_largest (hd rs)))"
proof -
  have ne: "rs' \<noteq> []" using assms(4) by auto
  note t' = ranges_top [OF assms(2) ne]
  have "unat pn \<in> ranges_pns rs'" using assms(4) by auto
  then have ge: "unat pn \<le> unat (ar_largest (hd rs'))" by (rule t'(2))
  have mem: "unat (ar_largest (hd rs')) \<in> insert (unat pn) (ranges_pns rs)" using t'(1) assms(4) by auto
  show ?thesis
  proof (cases "rs = []")
    case True
    with mem ne show ?thesis by (simp add: word_unat_eq_iff)
  next
    case False
    note t = ranges_top [OF assms(1) False]
    have "unat (ar_largest (hd rs)) \<notin> range_pns (last rs)" if "length rs = QUIC_MAX_ACK_RANGES"
      using last_below_top [OF assms(1)] that by simp
    then have "unat (ar_largest (hd rs)) \<in> ranges_pns rs'"
      using assms(4) t(1) by blast
    then have "unat (ar_largest (hd rs)) \<le> unat (ar_largest (hd rs'))" by (rule t'(2))
    moreover have "unat (ar_largest (hd rs')) = unat pn \<or>
        unat (ar_largest (hd rs')) \<le> unat (ar_largest (hd rs))"
      using mem t(2) by blast
    ultimately have "unat (ar_largest (hd rs')) = unat (max pn (ar_largest (hd rs)))"
      using ge by (auto simp: max_def word_le_nat_alt)
    with ne False show ?thesis by (simp add: unsigned_word_eqI)
  qed
qed

lemma quicAckStateAdd_ok:
  assumes inv: "ack_inv as" and pn: "varint_ok pn"
    and add: "quicAckStateAdd as pn now el = (new, as')"
  shows "ack_inv as'" "new \<longleftrightarrow> unat pn \<notin> ack_pns as"
    "\<not> new \<Longrightarrow> as' = as"
    "new \<Longrightarrow> ack_pns as' = insert (unat pn) (ack_pns as) \<or>
       length (as_ranges as) = QUIC_MAX_ACK_RANGES \<and>
       (ack_pns as' = insert (unat pn) (ack_pns as - range_pns (last (as_ranges as))) \<or> as' = as)"
proof -
  have i: "ranges_desc (as_ranges as)" "ranges_bounded (as_ranges as)"
    "length (as_ranges as) \<le> QUIC_MAX_ACK_RANGES" using inv by (auto simp: ack_inv_def)
  show "new \<longleftrightarrow> unat pn \<notin> ack_pns as" "\<not> new \<Longrightarrow> as' = as"
    using add ackFind_None [OF i(1), of pn]
    by (auto simp: quicAckStateAdd_def ack_pns_def Let_def split: option.splits)
  consider "as' = as" "\<not> new" | k where "ackFind (as_ranges as) pn = Some k" "ackInsert (as_ranges as) k pn = None"
      "as' = as"
    | k rs' where "ackFind (as_ranges as) pn = Some k" "ackInsert (as_ranges as) k pn = Some rs'"
      "as_ranges as' = rs'"
      "as_largest as' = (if as_largest as = QUIC_PN_NONE \<or> pn > as_largest as then pn else as_largest as)"
    using add by (auto simp: quicAckStateAdd_def Let_def split: option.splits if_splits)
  then have "ack_inv as' \<and> (new \<longrightarrow> ack_pns as' = insert (unat pn) (ack_pns as) \<or>
       length (as_ranges as) = QUIC_MAX_ACK_RANGES \<and>
       (ack_pns as' = insert (unat pn) (ack_pns as - range_pns (last (as_ranges as))) \<or> as' = as))"
  proof cases
    case 1
    with inv show ?thesis by simp
  next
    case (2 k)
    then have "length (as_ranges as) = QUIC_MAX_ACK_RANGES"
      using i(3) by (auto simp: ackInsert_def Let_def split: if_splits)
    with 2 inv show ?thesis by simp
  next
    case (3 k rs')
    note ok = ackInsert_ok [OF i(1,2) pn 3(1) i(3) 3(2)]
    then have top: "rs' \<noteq> []" "ar_largest (hd rs') =
        (if as_ranges as = [] then pn else max pn (ar_largest (hd (as_ranges as))))"
      using ackInsert_top [OF i(1) _ i(3), of rs' pn] by auto
    have "ar_largest (hd (as_ranges as)) \<noteq> QUIC_PN_NONE" if "as_ranges as \<noteq> []"
      using i(2) that by (cases "as_ranges as") (auto simp: ranges_bounded_def not_varint_ok_none)
    then have "as_largest as' = ar_largest (hd rs')"
      using 3(4) top inv by (auto simp: ack_inv_def max_def)
    with ok top 3(3) show ?thesis by (auto simp: ack_inv_def ack_pns_def)
  qed
  then show "ack_inv as'"
    "new \<Longrightarrow> ack_pns as' = insert (unat pn) (ack_pns as) \<or>
       length (as_ranges as) = QUIC_MAX_ACK_RANGES \<and>
       (ack_pns as' = insert (unat pn) (ack_pns as - range_pns (last (as_ranges as))) \<or> as' = as)"
    by auto
qed


section \<open>Properties\<close>

text \<open>
  C35. Recording a packet refines inserting its number into a set. A call reports a duplicate
  exactly when the number is in the tracked set, and then changes nothing. Otherwise the number is
  added; only when all thirty-two ranges are in use and the number joins none of them may the
  numbers of the lowest range be given up for it, or the number be ignored. The ranges stay
  descending, separated and within the array, and the largest stays the top of the set.
\<close>

theorem ack_add_refines:
  assumes "ack_inv as" "varint_ok pn" "quicAckStateAdd as pn now el = (new, as')"
  shows "ack_inv as' \<and> (new \<longleftrightarrow> unat pn \<notin> ack_pns as) \<and> (\<not> new \<longrightarrow> as' = as) \<and>
    (new \<longrightarrow> ack_pns as' = insert (unat pn) (ack_pns as) \<or>
       length (as_ranges as) = QUIC_MAX_ACK_RANGES \<and>
       (ack_pns as' = insert (unat pn) (ack_pns as - range_pns (last (as_ranges as))) \<or> as' = as))"
  using quicAckStateAdd_ok [OF assms] by blast

definition ackStateInit :: QuicAckState where
  "ackStateInit = \<lparr>as_ranges = [], as_largest = QUIC_PN_NONE, as_largestTime = 0,
     as_elicitCount = 0, as_pending = False, as_deadline = 0, as_sentPn = QUIC_PN_NONE,
     as_ect0 = 0, as_ect1 = 0, as_ce = 0, as_ecnSeen = False\<rparr>"

lemma ack_inv_init: "ack_inv ackStateInit"
  by (simp add: ack_inv_def ackStateInit_def ranges_bounded_def)

theorem ack_add_refines_witness:
  "ack_inv (snd (quicAckStateAdd ackStateInit 7 0 True)) \<and> fst (quicAckStateAdd ackStateInit 7 0 True)"
  using ack_add_refines [OF ack_inv_init, of 7 0 True "fst (quicAckStateAdd ackStateInit 7 0 True)"
      "snd (quicAckStateAdd ackStateInit 7 0 True)"]
  by (simp add: varint_ok_unat ack_pns_def ackStateInit_def)

text \<open>
  What an endpoint acknowledges is what it received: from every reachable set of ranges an ACK
  frame can be built in the buffer the packet builder provides (twenty bytes per range), and a peer
  that walks that frame sees exactly the tracked packet numbers.
\<close>

theorem ack_state_acknowledged:
  assumes "ack_inv as" "as_ranges as \<noteq> []" "20 * QUIC_MAX_ACK_RANGES \<le> length rangeBuf"
  shows "\<exists>f it. quicAckBuild delay (as_ranges as) ecn rangeBuf = Some f \<and> quicAckIterInit f = Some it
    \<and> ranges_pns (fst (ack_ranges it)) = ack_pns as \<and> \<not> it_bad (snd (ack_ranges it))"
proof -
  have i: "ranges_desc (as_ranges as)" "ranges_bounded (as_ranges as)"
    "length (as_ranges as) \<le> QUIC_MAX_ACK_RANGES" using assms(1) by (auto simp: ack_inv_def)
  obtain f where f: "quicAckBuild delay (as_ranges as) ecn rangeBuf = Some f"
    using quicAckBuild_total [OF i(1,2) assms(2)] assms(3) i(3) by fastforce
  have "length (as_ranges as) \<le> 2 ^ 62" using i(3) by simp
  from quicAckBuild_walk [OF f i(2) this] f show ?thesis by (auto simp: ack_pns_def)
qed

theorem ack_state_acknowledged_witness:
  "\<exists>f. quicAckBuild 0 [\<lparr>ar_largest = 7, ar_smallest = 7\<rparr>] None (replicate 640 0) = Some f"
proof -
  have "ack_inv (ackStateInit\<lparr>as_ranges := [\<lparr>ar_largest = 7, ar_smallest = 7\<rparr>], as_largest := 7\<rparr>)"
    by (simp add: ack_inv_def ranges_bounded_def varint_ok_unat)
  from ack_state_acknowledged [OF this, of "replicate 640 0" 0 None] show ?thesis by auto
qed

text \<open>
  A duplicate is detected only while its range is tracked. After thirty-three packets with every
  other number, the range of packet 0 has been given up, and packet 0 is reported new a second time;
  the caller then processes its frames again. RFC 9000 section 12.3 requires such a packet to be
  dropped.
\<close>

lemma dropped_packet_accepted_again:
  "fst (quicAckStateAdd (foldl (\<lambda>as n. snd (quicAckStateAdd as (2 * of_nat n) 0 True)) ackStateInit [0..<33])
     0 0 True)"
  by code_simp

lemma quicAckStateEcn_fields:
  "as_ranges (quicAckStateEcn as e) = as_ranges as"
  "as_ect0 (quicAckStateEcn as e) = as_ect0 as + of_bool (e = NET_ECN_Ect0)"
  "as_ect1 (quicAckStateEcn as e) = as_ect1 as + of_bool (e = NET_ECN_Ect1)"
  "as_ce (quicAckStateEcn as e) = as_ce as + of_bool (e = NET_ECN_CE)"
  "as_ecnSeen (quicAckStateEcn as e) = (if e = NET_ECN_NotEct then as_ecnSeen as else True)"
  by (cases e, simp_all add: quicAckStateEcn_def)+

text \<open>
  ECN accounting: over any sequence of arrivals each counter grows by the number of packets that
  carried its codepoint, reporting is on from the first marked packet, and the received ranges are
  never touched.
\<close>

theorem ack_ecn_counts:
  "as_ranges (foldl quicAckStateEcn as es) = as_ranges as
    \<and> as_ect0 (foldl quicAckStateEcn as es) = as_ect0 as + of_nat (count_list es NET_ECN_Ect0)
    \<and> as_ect1 (foldl quicAckStateEcn as es) = as_ect1 as + of_nat (count_list es NET_ECN_Ect1)
    \<and> as_ce (foldl quicAckStateEcn as es) = as_ce as + of_nat (count_list es NET_ECN_CE)
    \<and> as_ecnSeen (foldl quicAckStateEcn as es) =
        (if set es \<subseteq> {NET_ECN_NotEct} then as_ecnSeen as else True)"
  by (induction es arbitrary: as) (auto simp: quicAckStateEcn_fields)

end
