(* ===== verification/CxBuffer.thy ===== *)
theory CxBuffer
  imports CxPrelude
begin

text \<open>
  The growable byte buffer of \<^verbatim>\<open>src/cx/buffer/buffer.c\<close>. A buffer is its data area, whose length is
  \<^verbatim>\<open>sz\<close>, and the number \<^verbatim>\<open>len\<close> of bytes in use; a \<^verbatim>\<open>Buffer\<close> that may be null is an option.

  The allocator is a parameter: \<open>xa_ok n\<close> says whether an optional request for a buffer of
  \<open>n\<close> bytes succeeds, and \<open>xa_junk\<close> gives the contents of memory that has not been written.
  An ordinary allocation never returns null. A failed \<^verbatim>\<open>relAssertMsg\<close> ends the program, which is
  \<open>None\<close>.
\<close>

section \<open>Data\<close>

record xalloc =
  xa_ok :: "nat \<Rightarrow> bool"
  xa_junk :: "nat \<Rightarrow> u8"

record BufferHeader =
  buf_data :: "u8 list"
  buf_len :: nat

type_synonym Buffer = "BufferHeader option"

abbreviation (input) buf_sz :: "BufferHeader \<Rightarrow> nat" where
  "buf_sz b \<equiv> length (buf_data b)"

definition SIZE_MAX :: nat where
  "SIZE_MAX = 2 ^ 64 - 1"

text \<open>\<^verbatim>\<open>xaResize\<close> keeps what fits and leaves the rest unwritten.\<close>

definition xa_resize :: "xalloc \<Rightarrow> u8 list \<Rightarrow> nat \<Rightarrow> u8 list" where
  "xa_resize xa data n = take n data @ map (xa_junk xa) [length data..<n]"


section \<open>Operations\<close>

definition bufCreate :: "xalloc \<Rightarrow> nat \<Rightarrow> BufferHeader" where
  "bufCreate xa n = \<lparr>buf_data = xa_resize xa [] n, buf_len = 0\<rparr>"

definition bufTryCreate :: "xalloc \<Rightarrow> nat \<Rightarrow> Buffer" where
  "bufTryCreate xa n = (if xa_ok xa n then Some (bufCreate xa n) else None)"

definition bufResize :: "xalloc \<Rightarrow> Buffer \<Rightarrow> nat \<Rightarrow> BufferHeader" where
  "bufResize xa buf newsize =
     (case buf of
        None \<Rightarrow> bufCreate xa newsize
      | Some b \<Rightarrow>
          if newsize = buf_sz b then b
          else \<lparr>buf_data = xa_resize xa (buf_data b) newsize, buf_len = min (buf_len b) newsize\<rparr>)"

definition bufTryResize :: "xalloc \<Rightarrow> Buffer \<Rightarrow> nat \<Rightarrow> bool \<times> Buffer" where
  "bufTryResize xa buf newsize =
     (case buf of
        None \<Rightarrow> (let b = bufTryCreate xa newsize in (b \<noteq> None, b))
      | Some b \<Rightarrow>
          if newsize = buf_sz b then (True, buf)
          else if \<not> xa_ok xa newsize then (False, buf)
          else (True, Some \<lparr>buf_data = xa_resize xa (buf_data b) newsize,
                            buf_len = min (buf_len b) newsize\<rparr>))"

text \<open>
  The doubling loop of \<^verbatim>\<open>bufGrow\<close>. It is entered with a positive size; the guard on zero, for
  which doubling would not progress, makes it total.
\<close>

function bufGrowLoop :: "nat \<Rightarrow> nat \<Rightarrow> nat" where
  "bufGrowLoop nsz want =
     (if nsz < want \<and> 0 < nsz
      then if nsz > SIZE_MAX div 2 then want else bufGrowLoop (nsz * 2) want
      else nsz)"
  by pat_completeness auto
termination
  by (relation "measure (\<lambda>(nsz, want). want - nsz)") auto

declare bufGrowLoop.simps [simp del]

definition bufGrow :: "xalloc \<Rightarrow> Buffer \<Rightarrow> nat \<Rightarrow> BufferHeader option" where
  "bufGrow xa buf need =
     (let sz = (case buf of None \<Rightarrow> 0 | Some b \<Rightarrow> buf_sz b);
          len = (case buf of None \<Rightarrow> 0 | Some b \<Rightarrow> buf_len b)
      in if buf \<noteq> None \<and> sz - len \<ge> need then buf
         else if \<not> need \<le> SIZE_MAX - len then None
         else
           let want = len + need;
               nsz = bufGrowLoop (if sz \<noteq> 0 then sz else 32) want
           in Some (bufResize xa buf nsz))"

text \<open>\<^verbatim>\<open>bufReserve\<close> returns the buffer and the offset of the reserved bytes in it.\<close>

definition bufReserve :: "xalloc \<Rightarrow> Buffer \<Rightarrow> nat \<Rightarrow> (BufferHeader \<times> nat) option" where
  "bufReserve xa buf len =
     (case bufGrow xa buf len of None \<Rightarrow> None | Some b \<Rightarrow> Some (b, buf_len b))"

definition bufAppendBytes ::
  "xalloc \<Rightarrow> Buffer \<Rightarrow> u8 list option \<Rightarrow> nat \<Rightarrow> BufferHeader option" where
  "bufAppendBytes xa buf data len =
     (case bufReserve xa buf len of
        None \<Rightarrow> None
      | Some (b, dest) \<Rightarrow>
          let b1 = (case data of
                      Some d \<Rightarrow> if len > 0 then b\<lparr>buf_data := mem_write (buf_data b) dest d\<rparr> else b
                    | None \<Rightarrow> b)
          in Some (b1\<lparr>buf_len := buf_len b1 + len\<rparr>))"

definition bufAppend :: "xalloc \<Rightarrow> Buffer \<Rightarrow> Buffer \<Rightarrow> BufferHeader option" where
  "bufAppend xa buf src =
     (case src of
        None \<Rightarrow> bufAppendBytes xa buf None 0
      | Some s \<Rightarrow> bufAppendBytes xa buf (Some (take (buf_len s) (buf_data s))) (buf_len s))"

definition bufDestroy :: "Buffer \<Rightarrow> Buffer" where
  "bufDestroy buf = None"

text \<open>\<^verbatim>\<open>bufAppendC\<close> returns both buffers.\<close>

definition bufAppendC :: "xalloc \<Rightarrow> Buffer \<Rightarrow> Buffer \<Rightarrow> (Buffer \<times> Buffer) option" where
  "bufAppendC xa buf src =
     (if (case buf of None \<Rightarrow> True | Some b \<Rightarrow> buf_len b = 0) then Some (src, None)
      else
        case bufAppend xa buf src of
          None \<Rightarrow> None
        | Some b \<Rightarrow> Some (Some b, bufDestroy src))"


section \<open>Contents\<close>

definition buf_wf :: "Buffer \<Rightarrow> bool" where
  "buf_wf buf \<longleftrightarrow> (case buf of None \<Rightarrow> True | Some b \<Rightarrow> buf_len b \<le> buf_sz b \<and> buf_sz b \<le> SIZE_MAX)"

definition buf_bytes :: "Buffer \<Rightarrow> u8 list" where
  "buf_bytes buf = (case buf of None \<Rightarrow> [] | Some b \<Rightarrow> take (buf_len b) (buf_data b))"

lemma length_xa_resize [simp]: "length (xa_resize xa data n) = n"
  by (simp add: xa_resize_def)

lemma take_xa_resize: "k \<le> n \<Longrightarrow> k \<le> length data \<Longrightarrow> take k (xa_resize xa data n) = take k data"
  by (simp add: xa_resize_def min_def)

lemma nth_xa_resize: "i < n \<Longrightarrow> i < length data \<Longrightarrow> xa_resize xa data n ! i = data ! i"
  by (simp add: xa_resize_def nth_append)

lemma bufGrowLoop_bounds:
  "0 < nsz \<Longrightarrow> want \<le> SIZE_MAX \<Longrightarrow> nsz \<le> SIZE_MAX \<Longrightarrow>
   want \<le> bufGrowLoop nsz want \<and> nsz \<le> bufGrowLoop nsz want \<and> bufGrowLoop nsz want \<le> SIZE_MAX"
proof (induction nsz want rule: bufGrowLoop.induct)
  case (1 nsz want)
  show ?case
  proof (cases "nsz < want \<and> \<not> nsz > SIZE_MAX div 2")
    case True
    then have "want \<le> bufGrowLoop (nsz * 2) want \<and> nsz * 2 \<le> bufGrowLoop (nsz * 2) want
        \<and> bufGrowLoop (nsz * 2) want \<le> SIZE_MAX"
      using 1 by (intro 1(1)) auto
    with True 1 show ?thesis by (auto simp: bufGrowLoop.simps [of nsz want])
  next
    case False
    with 1 show ?thesis by (auto simp: bufGrowLoop.simps [of nsz want])
  qed
qed

lemma bufResize_grow:
  assumes "buf_wf buf" "length (buf_bytes buf) \<le> n" "n \<le> SIZE_MAX"
  shows "buf_bytes (Some (bufResize xa buf n)) = buf_bytes buf" "buf_wf (Some (bufResize xa buf n))"
    "buf_sz (bufResize xa buf n) = n" "buf_len (bufResize xa buf n) = length (buf_bytes buf)"
  using assms
  by (auto simp: bufResize_def bufCreate_def buf_bytes_def buf_wf_def take_xa_resize
      split: option.splits)

lemma bufGrow_ok:
  assumes "buf_wf buf" "length (buf_bytes buf) + need \<le> SIZE_MAX"
  obtains b where "bufGrow xa buf need = Some b" "buf_bytes (Some b) = buf_bytes buf"
    "buf_wf (Some b)" "buf_len b = length (buf_bytes buf)" "buf_len b + need \<le> buf_sz b"
proof (cases "buf \<noteq> None \<and> need \<le> buf_sz (the buf) - buf_len (the buf)")
  case True
  then obtain b where "buf = Some b" by auto
  with True assms show ?thesis
    by (intro that [of b]) (auto simp: bufGrow_def buf_wf_def buf_bytes_def)
next
  case False
  define sz where "sz = (case buf of None \<Rightarrow> 0 | Some b \<Rightarrow> buf_sz b)"
  define nsz where "nsz = bufGrowLoop (if sz \<noteq> 0 then sz else 32) (length (buf_bytes buf) + need)"
  have len: "(case buf of None \<Rightarrow> 0 | Some b \<Rightarrow> buf_len b) = length (buf_bytes buf)"
    using assms(1) by (auto simp: buf_wf_def buf_bytes_def split: option.splits)
  have "(if sz \<noteq> 0 then sz else 32) \<le> SIZE_MAX"
    using assms(1) by (auto simp: sz_def buf_wf_def SIZE_MAX_def split: option.splits)
  then have n: "length (buf_bytes buf) + need \<le> nsz" "nsz \<le> SIZE_MAX"
    using bufGrowLoop_bounds [of "if sz \<noteq> 0 then sz else 32" "length (buf_bytes buf) + need"] assms(2)
    by (auto simp: nsz_def)
  have g: "bufGrow xa buf need = Some (bufResize xa buf nsz)"
    using False assms(2) len
    by (auto simp: bufGrow_def Let_def nsz_def sz_def buf_bytes_def split: option.splits)
  show ?thesis
    using bufResize_grow [OF assms(1) _ n(2), of xa] n(1) by (intro that [OF g]) simp_all
qed

lemma bufAppendBytes_ok:
  assumes "buf_wf buf" "length (buf_bytes buf) + length d \<le> SIZE_MAX"
  obtains b where "bufAppendBytes xa buf (Some d) (length d) = Some b" "buf_wf (Some b)"
    "buf_bytes (Some b) = buf_bytes buf @ d"
proof -
  obtain b where b: "bufGrow xa buf (length d) = Some b" "buf_bytes (Some b) = buf_bytes buf"
    "buf_wf (Some b)" "buf_len b = length (buf_bytes buf)" "buf_len b + length d \<le> buf_sz b"
    by (rule bufGrow_ok [OF assms])
  let ?b1 = "b\<lparr>buf_data := mem_write (buf_data b) (buf_len b) d, buf_len := buf_len b + length d\<rparr>"
  have w: "mem_write (buf_data b) (buf_len b) [] = buf_data b"
    by (simp add: mem_write_def)
  have "bufAppendBytes xa buf (Some d) (length d) = Some ?b1"
    using w b(1) by (cases d) (simp_all add: bufAppendBytes_def bufReserve_def)
  moreover have "buf_wf (Some ?b1)" using b by (simp add: buf_wf_def)
  moreover have "buf_bytes (Some ?b1) = buf_bytes buf @ d"
    using b(2,5) by (simp add: buf_bytes_def mem_simps)
  ultimately show ?thesis by (rule that)
qed


section \<open>Properties\<close>

text \<open>
  Appending keeps what a buffer holds and adds exactly the new bytes behind it, whether or not
  the data area has to grow or a first one has to be made, and keeps the bookkeeping consistent:
  the bytes in use never exceed the data area. It fails only when the total would not be
  representable.
\<close>

theorem buf_append_contents:
  assumes "buf_wf buf" "length (buf_bytes buf) + length d \<le> SIZE_MAX"
  shows "\<exists>b. bufAppendBytes xa buf (Some d) (length d) = Some b \<and> buf_wf (Some b) \<and>
    buf_bytes (Some b) = buf_bytes buf @ d"
  using bufAppendBytes_ok [OF assms] by metis

theorem buf_append_contents_witness:
  "\<exists>b. bufAppendBytes \<lparr>xa_ok = \<lambda>_. True, xa_junk = \<lambda>_. 0\<rparr> (Some \<lparr>buf_data = [7, 8], buf_len = 1\<rparr>)
      (Some [1, 2, 3]) 3 = Some b \<and> buf_bytes (Some b) = [7, 1, 2, 3]"
proof -
  have l: "length [1, 2, 3 :: u8] = 3" by simp
  have "buf_wf (Some \<lparr>buf_data = [7, 8], buf_len = 1\<rparr>)"
    "buf_bytes (Some \<lparr>buf_data = [7, 8], buf_len = 1\<rparr>) = [7]"
    by (simp_all add: buf_wf_def buf_bytes_def SIZE_MAX_def)
  then show ?thesis
    using buf_append_contents [of "Some \<lparr>buf_data = [7, 8], buf_len = 1\<rparr>" "[1, 2, 3]"
        "\<lparr>xa_ok = \<lambda>_. True, xa_junk = \<lambda>_. 0\<rparr>", unfolded l]
    by (auto simp: SIZE_MAX_def)
qed

end
