(* ===== verification/QuicSentRing.thy ===== *)
theory QuicSentRing
  imports CxBuffer
begin

unbundle bit_operations_syntax

text \<open>
  The ring of sent packets of \<^verbatim>\<open>src/cxquic/recovery.c\<close>. One ring holds the packets of one packet
  number space, oldest first, in an array whose size is a power of two; packet \<open>pn\<close> is found at a
  distance \<open>pn - basePn\<close> from the head. The array is \<open>rg_pkts\<close>, so \<^verbatim>\<open>cap\<close> is its length. Packet
  numbers stay below 2 to the 62, and a ring below 2 to the 32 packets, so both are natural numbers
  here; times are microseconds as integers. The theory relates the ring to what it stands for, a list
  of packets (\<open>ring_list\<close>), and to the partial map from packet numbers to packets.
\<close>

section \<open>Data\<close>

datatype QuicSentFate = QUIC_SENT_LIVE | QUIC_SENT_ACKED | QUIC_SENT_LOST

abbreviation (input) QUIC_SENT_ECT0 :: u8 where "QUIC_SENT_ECT0 \<equiv> 0x01"
abbreviation (input) QUIC_SENT_PMTU_PROBE :: u8 where "QUIC_SENT_PMTU_PROBE \<equiv> 0x02"
abbreviation (input) QUIC_SENT_MAX_RETAIN :: nat where "QUIC_SENT_MAX_RETAIN \<equiv> 4096"
abbreviation (input) QUIC_SENT_PKT_SZ :: nat where "QUIC_SENT_PKT_SZ \<equiv> 24"

record QuicSentPkt =
  pkt_sent :: int
  pkt_size :: int
  pkt_fate :: QuicSentFate
  pkt_marks :: u8
  pkt_ackEliciting :: bool
  pkt_inFlight :: bool
  pkt_fresh :: bool

record QuicSentRing =
  rg_pkts :: "QuicSentPkt list"
  rg_head :: nat
  rg_count :: nat
  rg_basePn :: nat

abbreviation (input) rg_cap :: "QuicSentRing \<Rightarrow> nat" where
  "rg_cap ring \<equiv> length (rg_pkts ring)"

definition zeroPkt :: QuicSentPkt where
  "zeroPkt = \<lparr>pkt_sent = 0, pkt_size = 0, pkt_fate = QUIC_SENT_LIVE, pkt_marks = 0,
     pkt_ackEliciting = False, pkt_inFlight = False, pkt_fresh = False\<rparr>"


section \<open>Operations\<close>

definition ringDestroy :: QuicSentRing where
  "ringDestroy = \<lparr>rg_pkts = [], rg_head = 0, rg_count = 0, rg_basePn = 0\<rparr>"

text \<open>The array index of the packet at distance \<open>i\<close> from the head.\<close>

definition ringSlot :: "QuicSentRing \<Rightarrow> nat \<Rightarrow> nat" where
  "ringSlot ring i = (rg_head ring + i) AND (rg_cap ring - 1)"

text \<open>A pointer into the array is the index it points at.\<close>

definition ringAt :: "QuicSentRing \<Rightarrow> nat \<Rightarrow> nat option" where
  "ringAt ring pn =
     (if rg_count ring = 0 \<or> pn < rg_basePn ring then None
      else (let idx = pn - rg_basePn ring
            in if idx \<ge> rg_count ring then None else Some (ringSlot ring idx)))"

definition ringGrow :: "xalloc \<Rightarrow> QuicSentRing \<Rightarrow> QuicSentRing option" where
  "ringGrow xa ring =
     (let cap = (if rg_cap ring \<noteq> 0 then rg_cap ring * 2 else 16)
      in if xa_ok xa (cap * QUIC_SENT_PKT_SZ)
         then Some (ring\<lparr>rg_pkts := map (\<lambda>i. rg_pkts ring ! ringSlot ring i) [0..<rg_count ring]
                           @ replicate (cap - rg_count ring) zeroPkt,
                         rg_head := 0\<rparr>)
         else None)"

definition ringPush :: "xalloc \<Rightarrow> QuicSentRing \<Rightarrow> nat \<Rightarrow> QuicSentPkt \<Rightarrow> bool \<times> QuicSentRing" where
  "ringPush xa ring pn pkt =
     (if rg_count ring \<noteq> 0 \<and> pn \<noteq> rg_basePn ring + rg_count ring then (False, ring)
      else (let ring0 = (if rg_count ring = 0 then ring\<lparr>rg_basePn := pn\<rparr> else ring)
            in case (if rg_count ring0 \<ge> rg_cap ring0 then ringGrow xa ring0 else Some ring0) of
                 None \<Rightarrow> (False, ring0)
               | Some ring1 \<Rightarrow>
                   (True, ring1\<lparr>rg_pkts := (rg_pkts ring1)[ringSlot ring1 (rg_count ring1) := pkt],
                                rg_count := rg_count ring1 + 1\<rparr>)))"

function ringTrimLoop :: "int \<Rightarrow> QuicSentRing \<Rightarrow> QuicSentRing" where
  "ringTrimLoop cutoff ring =
     (if rg_count ring > 0 \<and> pkt_fate (rg_pkts ring ! rg_head ring) \<noteq> QUIC_SENT_LIVE
         \<and> (pkt_sent (rg_pkts ring ! rg_head ring) \<le> cutoff \<or> rg_count ring > QUIC_SENT_MAX_RETAIN)
      then ringTrimLoop cutoff
             (ring\<lparr>rg_head := (rg_head ring + 1) AND (rg_cap ring - 1),
                   rg_basePn := rg_basePn ring + 1, rg_count := rg_count ring - 1\<rparr>)
      else ring)"
  by pat_completeness auto

termination by (relation "measure (\<lambda>(_, ring). rg_count ring)") auto

declare ringTrimLoop.simps [simp del]

definition ringTrim :: "int \<Rightarrow> QuicSentRing \<Rightarrow> QuicSentRing" where
  "ringTrim cutoff ring =
     (let ring1 = ringTrimLoop cutoff ring
      in if rg_count ring1 = 0 then ring1\<lparr>rg_head := 0\<rparr> else ring1)"


section \<open>The list of packets a ring stands for\<close>

definition pow2 :: "nat \<Rightarrow> bool" where
  "pow2 n \<longleftrightarrow> (\<exists>k. n = 2 ^ k)"

definition ring_inv :: "QuicSentRing \<Rightarrow> bool" where
  "ring_inv ring \<longleftrightarrow> rg_count ring \<le> rg_cap ring
     \<and> (if rg_cap ring = 0 then rg_head ring = 0 else rg_head ring < rg_cap ring \<and> pow2 (rg_cap ring))"

definition ring_list :: "QuicSentRing \<Rightarrow> QuicSentPkt list" where
  "ring_list ring = map (\<lambda>i. rg_pkts ring ! ringSlot ring i) [0..<rg_count ring]"

definition ringStore :: "QuicSentRing \<Rightarrow> nat \<Rightarrow> QuicSentPkt \<Rightarrow> QuicSentRing" where
  "ringStore ring k p = ring\<lparr>rg_pkts := (rg_pkts ring)[k := p]\<rparr>"

lemma and_pow2: "pow2 n \<Longrightarrow> i AND (n - 1) = i mod n"
  using take_bit_eq_mask [of _ i] by (auto simp: pow2_def take_bit_eq_mod mask_eq_exp_minus_1)

lemma ringSlot_mod:
  "ring_inv ring \<Longrightarrow> rg_cap ring \<noteq> 0 \<Longrightarrow> ringSlot ring i = (rg_head ring + i) mod rg_cap ring"
  unfolding ringSlot_def by (rule and_pow2) (simp add: ring_inv_def)

lemma ringSlot_less: "ring_inv ring \<Longrightarrow> rg_cap ring \<noteq> 0 \<Longrightarrow> ringSlot ring i < rg_cap ring"
  by (simp add: ringSlot_mod)

lemma pow2_double: "pow2 n \<Longrightarrow> pow2 (n * 2)"
  by (auto simp: pow2_def intro: exI [of _ "Suc _"])

lemma pow2_16: "pow2 16"
  unfolding pow2_def by (rule exI [of _ 4]) simp

lemma mod_add_inj:
  fixes h :: nat
  assumes "(h + i) mod n = (h + j) mod n" "i < n" "j < n"
  shows "i = j"
proof -
  have le: "a = b" if "b \<le> a" "a < n" "(h + a) mod n = (h + b) mod n" for a b
  proof -
    have "n dvd a - b" using that by (simp add: mod_eq_dvd_iff_nat)
    then show ?thesis using that(1,2) by (auto dest: dvd_imp_le)
  qed
  show ?thesis using le [of j i] le [of i j] assms by (cases "j \<le> i") auto
qed

lemma ringSlot_inj:
  assumes "ring_inv ring" "i < rg_cap ring" "j < rg_cap ring"
  shows "ringSlot ring i = ringSlot ring j \<longleftrightarrow> i = j"
proof -
  have "rg_cap ring \<noteq> 0" using assms(2) by linarith
  from ringSlot_mod [OF assms(1) this] show ?thesis
    using mod_add_inj [OF _ assms(2,3), of "rg_head ring"] by auto
qed

lemma length_ring_list [simp]: "length (ring_list ring) = rg_count ring"
  by (simp add: ring_list_def)

lemma nth_ring_list [simp]:
  "i < rg_count ring \<Longrightarrow> ring_list ring ! i = rg_pkts ring ! ringSlot ring i"
  by (simp add: ring_list_def)

lemma ring_inv_store [simp]: "ring_inv (ringStore ring k p) = ring_inv ring"
  by (simp add: ring_inv_def ringStore_def)

lemma ringSlot_store [simp]: "ringSlot (ringStore ring k p) i = ringSlot ring i"
  by (simp add: ringSlot_def ringStore_def)

lemma ringStore_fields [simp]:
  "rg_count (ringStore ring k p) = rg_count ring" "rg_basePn (ringStore ring k p) = rg_basePn ring"
  "rg_head (ringStore ring k p) = rg_head ring"
  by (simp_all add: ringStore_def)

lemma ring_list_store:
  assumes "ring_inv ring" "i < rg_count ring"
  shows "ring_list (ringStore ring (ringSlot ring i) p) = (ring_list ring)[i := p]"
proof (rule nth_equalityI)
  fix j assume "j < length (ring_list (ringStore ring (ringSlot ring i) p))"
  then have j: "j < rg_count ring" by simp
  have "i < rg_cap ring" "j < rg_cap ring" using assms j by (auto simp: ring_inv_def)
  then have "ringSlot ring i = ringSlot ring j \<longleftrightarrow> i = j" "ringSlot ring i < rg_cap ring"
    using assms(1) by (auto simp: ringSlot_inj intro!: ringSlot_less)
  then show "ring_list (ringStore ring (ringSlot ring i) p) ! j = (ring_list ring)[i := p] ! j"
    using j assms(2) by (auto simp: nth_list_update ringStore_def ringSlot_def)
qed simp

lemma ringAt_iff:
  "ringAt ring pn = Some k \<longleftrightarrow>
    (\<exists>i < rg_count ring. pn = rg_basePn ring + i \<and> k = ringSlot ring i)"
  by (auto simp: ringAt_def Let_def less_diff_conv2 intro!: exI [of _ "pn - rg_basePn ring"])

lemma ringAt_None: "ringAt ring pn = None \<longleftrightarrow> pn \<notin> {rg_basePn ring ..< rg_basePn ring + rg_count ring}"
  by (auto simp: ringAt_def Let_def)

lemma ring_inv_destroy [simp]: "ring_inv ringDestroy" "ring_list ringDestroy = []"
  by (simp_all add: ringDestroy_def ring_inv_def ring_list_def)

lemma ringGrow_ok:
  assumes "ring_inv ring" "ringGrow xa ring = Some ring1" "rg_count ring = rg_cap ring"
  shows "ring_inv ring1" "ring_list ring1 = ring_list ring" "rg_basePn ring1 = rg_basePn ring"
    "rg_count ring1 < rg_cap ring1"
proof -
  let ?cap = "if rg_cap ring \<noteq> 0 then rg_cap ring * 2 else 16"
  have r1: "ring1 = ring\<lparr>rg_pkts := ring_list ring @ replicate (?cap - rg_count ring) zeroPkt, rg_head := 0\<rparr>"
    using assms(2) by (auto simp: ringGrow_def Let_def ring_list_def split: if_splits)
  have len: "rg_cap ring1 = ?cap" using assms(1,3) by (simp add: r1 ring_inv_def)
  have "pow2 ?cap"
    using assms(1) by (auto simp: ring_inv_def intro: pow2_double pow2_16)
  with len assms(3) show inv: "ring_inv ring1" by (auto simp: ring_inv_def r1)
  show "rg_count ring1 < rg_cap ring1" using assms(3) by (simp only: len) (simp add: r1)
  show "rg_basePn ring1 = rg_basePn ring" by (simp add: r1)
  show "ring_list ring1 = ring_list ring"
  proof (rule nth_equalityI)
    fix i assume "i < length (ring_list ring1)"
    then have i: "i < rg_count ring" by (simp add: r1)
    then have "ringSlot ring1 i = i"
      using inv len assms(3) by (subst ringSlot_mod) (auto simp: r1)
    with i show "ring_list ring1 ! i = ring_list ring ! i" by (simp add: r1 nth_append)
  qed (simp add: r1)
qed

lemma ringPush_ok:
  assumes "ring_inv ring" "ringPush xa ring pn pkt = (ok, ring1)"
  shows "ring_inv ring1"
    "ring_list ring1 = (if ok then ring_list ring @ [pkt] else ring_list ring)"
    "ok \<Longrightarrow> rg_basePn ring1 + rg_count ring = pn"
    "rg_count ring \<noteq> 0 \<Longrightarrow> rg_basePn ring1 = rg_basePn ring"
proof -
  define r0 where "r0 = (if rg_count ring = 0 then ring\<lparr>rg_basePn := pn\<rparr> else ring)"
  define g0 where "g0 = (if rg_count r0 \<ge> rg_cap r0 then ringGrow xa r0 else Some r0)"
  have r0: "ring_inv r0" "ring_list r0 = ring_list ring" "rg_count r0 = rg_count ring"
    using assms(1) by (auto simp: r0_def ring_inv_def ring_list_def ringSlot_def)
  have base: "rg_basePn r0 = (if rg_count ring = 0 then pn else rg_basePn ring)"
    by (simp add: r0_def)
  have push: "ringPush xa ring pn pkt =
      (if rg_count ring \<noteq> 0 \<and> pn \<noteq> rg_basePn ring + rg_count ring then (False, ring)
       else case g0 of None \<Rightarrow> (False, r0)
         | Some g \<Rightarrow> (True, (ringStore g (ringSlot g (rg_count g)) pkt)\<lparr>rg_count := rg_count g + 1\<rparr>))"
    unfolding ringPush_def Let_def ringStore_def
    unfolding r0_def [symmetric] unfolding g0_def [symmetric] by simp
  have "ring_inv ring1 \<and> ring_list ring1 = (if ok then ring_list ring @ [pkt] else ring_list ring)
    \<and> (ok \<longrightarrow> rg_basePn ring1 + rg_count ring = pn) \<and> (rg_count ring \<noteq> 0 \<longrightarrow> rg_basePn ring1 = rg_basePn ring)"
  proof (cases "(rg_count ring \<noteq> 0 \<and> pn \<noteq> rg_basePn ring + rg_count ring) \<or> g0 = None")
    case True
    then show ?thesis using assms r0 base by (auto simp: push split: if_splits)
  next
    case False
    then obtain g where g: "g0 = Some g" by blast
    have full: "rg_count r0 = rg_cap r0" if "rg_cap r0 \<le> rg_count r0"
      using r0(1) that by (simp add: ring_inv_def)
    have gi: "ring_inv g" "ring_list g = ring_list ring" "rg_basePn g = rg_basePn r0" "rg_count g < rg_cap g"
      using g r0 ringGrow_ok [OF r0(1) _ full] by (auto simp: g0_def split: if_splits)
    have cnt: "rg_count g = rg_count ring" using gi(2) by (metis length_ring_list)
    have r1: "ok" "ring1 = (ringStore g (ringSlot g (rg_count g)) pkt)\<lparr>rg_count := rg_count g + 1\<rparr>"
      using assms(2) False g by (auto simp: push)
    let ?h = "g\<lparr>rg_count := rg_count g + 1\<rparr>"
    have h: "ring_inv ?h" using gi(1,4) by (simp add: ring_inv_def)
    have hl: "ring_list ?h = ring_list g @ [rg_pkts g ! ringSlot g (rg_count g)]"
      by (simp add: ring_list_def ringSlot_def)
    have r1': "ring1 = ringStore ?h (ringSlot ?h (rg_count g)) pkt"
      by (simp add: r1(2) ringStore_def ringSlot_def)
    have "ring_list ring1 = (ring_list g @ [rg_pkts g ! ringSlot g (rg_count g)])[rg_count g := pkt]"
      unfolding r1' hl [symmetric] by (rule ring_list_store [OF h]) simp
    then have "ring_list ring1 = ring_list ring @ [pkt]"
      using gi(2) cnt by (simp add: list_update_append)
    moreover have "ring_inv ring1" unfolding r1' using h by simp
    moreover have "rg_basePn ring1 + rg_count ring = pn" "rg_count ring \<noteq> 0 \<longrightarrow> rg_basePn ring1 = rg_basePn ring"
      using False gi(3) base by (auto simp: r1')
    ultimately show ?thesis using r1(1) by simp
  qed
  then show "ring_inv ring1"
    "ring_list ring1 = (if ok then ring_list ring @ [pkt] else ring_list ring)"
    "ok \<Longrightarrow> rg_basePn ring1 + rg_count ring = pn"
    "rg_count ring \<noteq> 0 \<Longrightarrow> rg_basePn ring1 = rg_basePn ring" by blast+
qed


text \<open>How many packets the trim loop drops from the front of the list.\<close>

fun trimmed :: "int \<Rightarrow> QuicSentPkt list \<Rightarrow> nat" where
  "trimmed cutoff [] = 0"
| "trimmed cutoff (p # ps) =
     (if pkt_fate p \<noteq> QUIC_SENT_LIVE \<and> (pkt_sent p \<le> cutoff \<or> Suc (length ps) > QUIC_SENT_MAX_RETAIN)
      then Suc (trimmed cutoff ps) else 0)"

lemma trimmed_resolved:
  "i < trimmed cutoff ps \<Longrightarrow> i < length ps \<and> pkt_fate (ps ! i) \<noteq> QUIC_SENT_LIVE"
proof (induction ps arbitrary: i)
  case (Cons p ps)
  then show ?case by (cases i) (auto split: if_splits)
qed simp

lemma trimmed_le: "trimmed cutoff ps \<le> length ps"
  by (induction ps) auto

lemma ring_list_advance:
  assumes "ring_inv ring" "rg_count ring > 0"
  defines "ring1 \<equiv> ring\<lparr>rg_head := (rg_head ring + 1) AND (rg_cap ring - 1),
                        rg_basePn := rg_basePn ring + 1, rg_count := rg_count ring - 1\<rparr>"
  shows "ring_inv ring1" "ring_list ring1 = tl (ring_list ring)"
    "ring_list ring = (rg_pkts ring ! rg_head ring) # ring_list ring1"
proof -
  have cap: "rg_cap ring \<noteq> 0" using assms(1,2) by (auto simp: ring_inv_def)
  have adv: "rg_head ring1 = (rg_head ring + 1) mod rg_cap ring"
    using ringSlot_mod [OF assms(1) cap, of 1] by (simp add: ring1_def ringSlot_def)
  then show inv: "ring_inv ring1"
    using assms(1) cap by (auto simp: ring1_def ring_inv_def)
  have cap1: "rg_cap ring1 = rg_cap ring" by (simp add: ring1_def)
  have slot: "ringSlot ring1 i = ringSlot ring (Suc i)" for i
    using ringSlot_mod [OF inv, of i] ringSlot_mod [OF assms(1) cap, of "Suc i"] cap
    unfolding cap1 adv by (simp add: mod_add_left_eq)
  have "ring_list ring1 = map (\<lambda>i. rg_pkts ring ! ringSlot ring (Suc i)) [0..<rg_count ring - 1]"
    by (simp add: ring_list_def slot) (simp add: ring1_def)
  moreover have "[0..<rg_count ring] = 0 # map Suc [0..<rg_count ring - 1]"
    using assms(2) by (simp add: upt_conv_Cons map_Suc_upt)
  then have "ring_list ring = (rg_pkts ring ! ringSlot ring 0)
      # map (\<lambda>i. rg_pkts ring ! ringSlot ring (Suc i)) [0..<rg_count ring - 1]"
    by (simp add: ring_list_def comp_def)
  moreover have "ringSlot ring 0 = rg_head ring"
    using ringSlot_mod [OF assms(1) cap, of 0] assms(1) cap by (simp add: ring_inv_def)
  ultimately show l: "ring_list ring = (rg_pkts ring ! rg_head ring) # ring_list ring1" by simp
  then show "ring_list ring1 = tl (ring_list ring)" by simp
qed

lemma ringTrimLoop_ok:
  "ring_inv ring \<Longrightarrow> ring_inv (ringTrimLoop cutoff ring)
    \<and> ring_list (ringTrimLoop cutoff ring) = drop (trimmed cutoff (ring_list ring)) (ring_list ring)
    \<and> rg_basePn (ringTrimLoop cutoff ring) = rg_basePn ring + trimmed cutoff (ring_list ring)"
proof (induction cutoff ring rule: ringTrimLoop.induct)
  case (1 cutoff ring)
  let ?p = "rg_pkts ring ! rg_head ring"
  let ?go = "rg_count ring > 0 \<and> pkt_fate ?p \<noteq> QUIC_SENT_LIVE
    \<and> (pkt_sent ?p \<le> cutoff \<or> rg_count ring > QUIC_SENT_MAX_RETAIN)"
  define ring1 where "ring1 = ring\<lparr>rg_head := (rg_head ring + 1) AND (rg_cap ring - 1),
     rg_basePn := rg_basePn ring + 1, rg_count := rg_count ring - 1\<rparr>"
  note step = ringTrimLoop.simps [of cutoff ring, folded ring1_def]
  show ?case
  proof (cases "rg_count ring > 0")
    case True
    note adv = ring_list_advance [OF 1(2) True, folded ring1_def]
    have len: "Suc (length (ring_list ring1)) = rg_count ring" using True by (simp add: ring1_def)
    have t: "trimmed cutoff (ring_list ring) = (if ?go then Suc (trimmed cutoff (ring_list ring1)) else 0)"
      unfolding adv(3) using True len by simp
    show ?thesis
    proof (cases ?go)
      case go: True
      have "ringTrimLoop cutoff ring = ringTrimLoop cutoff ring1" using step go by simp
      moreover have "drop (Suc n) (ring_list ring) = drop n (ring_list ring1)" for n
        by (simp add: adv(3))
      ultimately show ?thesis using 1(1) [OF go, folded ring1_def, OF adv(1)] t go by (simp add: ring1_def)
    next
      case False
      then have "ringTrimLoop cutoff ring = ring" "trimmed cutoff (ring_list ring) = 0" using step t by auto
      with 1(2) show ?thesis by simp
    qed
  next
    case False
    then have "ring_list ring = []" by (simp add: ring_list_def)
    with False 1(2) step show ?thesis by simp
  qed
qed

lemma ringTrim_ok:
  assumes "ring_inv ring"
  shows "ring_inv (ringTrim cutoff ring)"
    "ring_list (ringTrim cutoff ring) = drop (trimmed cutoff (ring_list ring)) (ring_list ring)"
    "rg_basePn (ringTrim cutoff ring) = rg_basePn ring + trimmed cutoff (ring_list ring)"
proof -
  let ?r = "ringTrimLoop cutoff ring"
  have z: "ring_inv (?r\<lparr>rg_head := 0\<rparr>)" "ring_list (?r\<lparr>rg_head := 0\<rparr>) = ring_list ?r" if "rg_count ?r = 0"
    using that ringTrimLoop_ok [OF assms, of cutoff] by (auto simp: ring_inv_def ring_list_def)
  show "ring_inv (ringTrim cutoff ring)"
    "ring_list (ringTrim cutoff ring) = drop (trimmed cutoff (ring_list ring)) (ring_list ring)"
    "rg_basePn (ringTrim cutoff ring) = rg_basePn ring + trimmed cutoff (ring_list ring)"
    using ringTrimLoop_ok [OF assms, of cutoff] z by (auto simp: ringTrim_def Let_def)
qed


section \<open>The map from packet numbers to packets\<close>

definition ring_lookup :: "QuicSentRing \<Rightarrow> nat \<Rightarrow> QuicSentPkt option" where
  "ring_lookup ring pn = map_option (\<lambda>k. rg_pkts ring ! k) (ringAt ring pn)"

lemma ring_lookup_list:
  "ring_lookup ring pn =
    (if rg_basePn ring \<le> pn \<and> pn < rg_basePn ring + rg_count ring
     then Some (ring_list ring ! (pn - rg_basePn ring)) else None)"
  by (auto simp: ring_lookup_def ringAt_def Let_def)

end
