(* ===== verification/QuicRecovery.thy ===== *)
theory QuicRecovery
  imports QuicSentRing QuicAck "HOL-Library.Signed_Division"
begin

text \<open>
  Loss recovery and congestion control: \<^verbatim>\<open>src/cxquic/recovery.c\<close>, with the structures of
  \<^verbatim>\<open>src/cxquic/conn_private.h\<close>. Times are microseconds and byte counts are bytes, both as integers
  whose range is a matter of the theorems (\<open>QuicRecovProps\<close>); an arithmetic division is the truncating
  one of C. The per-space arrays are functions of the packet number space.

  The connection's handlers are a parameter. A handler gets the space and packet number, may read the
  recovery state, and changes it in one way only: the acknowledgement of a path MTU probe calls
  \<^verbatim>\<open>_quicRecovSetMaxDatagram\<close> (\<^verbatim>\<open>src/cxquic/conn.c\<close>, \<^verbatim>\<open>mtuProbeAcked\<close>). So a handler returns the size
  of that call, 0 for none, and its own new state. The whole acknowledgement step is an option: \<open>None\<close>
  is a loop that does not end.
\<close>

section \<open>Data\<close>

datatype QuicPnSpaceId = QUIC_PNS_INITIAL | QUIC_PNS_HANDSHAKE | QUIC_PNS_APP

definition pn_spaces :: "QuicPnSpaceId list" where
  "pn_spaces = [QUIC_PNS_INITIAL, QUIC_PNS_HANDSHAKE, QUIC_PNS_APP]"

abbreviation (input) QUIC_INITIAL_RTT :: int where "QUIC_INITIAL_RTT \<equiv> 333000"
abbreviation (input) QUIC_GRANULARITY :: int where "QUIC_GRANULARITY \<equiv> 1000"
abbreviation (input) QUIC_PACKET_THRESHOLD :: nat where "QUIC_PACKET_THRESHOLD \<equiv> 3"
abbreviation (input) QUIC_PERSISTENT_CONGESTION_THRESHOLD :: int where
  "QUIC_PERSISTENT_CONGESTION_THRESHOLD \<equiv> 3"
abbreviation (input) QUIC_MAX_PTO_BACKOFF :: nat where "QUIC_MAX_PTO_BACKOFF \<equiv> 16"
abbreviation (input) QUIC_MAX_WINDOW :: int where "QUIC_MAX_WINDOW \<equiv> 67108864"

definition timeForever :: int where
  "timeForever = 9223372036854775807"

definition UINT64_MAX :: int where
  "UINT64_MAX = 18446744073709551615"

record QuicRtt =
  rtt_latest :: int
  rtt_smoothed :: int
  rtt_var :: int
  rtt_min :: int
  rtt_firstSample :: int
  rtt_have :: bool

record QuicRecovery =
  rv_server :: bool
  rv_sent :: "QuicPnSpaceId \<Rightarrow> QuicSentRing"
  rv_largestAcked :: "QuicPnSpaceId \<Rightarrow> nat option"
  rv_lossTime :: "QuicPnSpaceId \<Rightarrow> int"
  rv_lastElicitSent :: "QuicPnSpaceId \<Rightarrow> int"
  rv_elicitInFlight :: "QuicPnSpaceId \<Rightarrow> nat"
  rv_probes :: "QuicPnSpaceId \<Rightarrow> nat"
  rv_ready :: "QuicPnSpaceId \<Rightarrow> bool"
  rv_discarded :: "QuicPnSpaceId \<Rightarrow> bool"
  rv_rtt :: QuicRtt
  rv_maxAckDelay :: int
  rv_ptoCount :: nat
  rv_timer :: int
  rv_maxDatagram :: nat
  rv_window :: int
  rv_inFlight :: int
  rv_ssthresh :: int
  rv_ccAcked :: int
  rv_recoveryStart :: int
  rv_inRecovery :: bool
  rv_tokens :: int
  rv_tokenTime :: int
  rv_handshakeConfirmed :: bool
  rv_peerValidated :: bool
  rv_appLimited :: bool
  rv_nlost :: nat
  rv_ncongestion :: nat
  rv_npersistent :: nat

record 'c QuicRecovHandlers =
  rh_acked :: "(QuicPnSpaceId \<Rightarrow> nat \<Rightarrow> QuicRecovery \<Rightarrow> 'c \<Rightarrow> nat \<times> 'c) option"
  rh_lost :: "(QuicPnSpaceId \<Rightarrow> nat \<Rightarrow> QuicRecovery \<Rightarrow> 'c \<Rightarrow> nat \<times> 'c) option"


section \<open>Congestion control: NewReno\<close>

definition ccInitialWindow :: "nat \<Rightarrow> int" where
  "ccInitialWindow maxDatagram =
     (let ten = 10 * int maxDatagram;
          floor = 2 * int maxDatagram;
          floor1 = (if floor < 14720 then 14720 else floor)
      in if ten < floor1 then ten else floor1)"

definition ccMinWindow :: "QuicRecovery \<Rightarrow> int" where
  "ccMinWindow r = 2 * int (rv_maxDatagram r)"

definition ccOnCongestion :: "int \<Rightarrow> int \<Rightarrow> QuicRecovery \<Rightarrow> QuicRecovery" where
  "ccOnCongestion sentTime now r =
     (if rv_inRecovery r \<and> sentTime \<le> rv_recoveryStart r then r
      else (let half = rv_window r sdiv 2;
                ss = (if half < ccMinWindow r then ccMinWindow r else half)
            in r\<lparr>rv_inRecovery := True, rv_recoveryStart := now, rv_ssthresh := ss, rv_window := ss,
                 rv_ccAcked := 0, rv_ncongestion := rv_ncongestion r + 1\<rparr>))"

partial_function (option) ccGrow :: "nat \<Rightarrow> int \<Rightarrow> int \<Rightarrow> (int \<times> int) option" where
  "ccGrow maxDatagram acked window =
     (if acked \<ge> window then ccGrow maxDatagram (acked - window) (window + int maxDatagram)
      else Some (acked, window))"

definition ccOnAcked :: "QuicSentPkt \<Rightarrow> QuicRecovery \<Rightarrow> QuicRecovery option" where
  "ccOnAcked p r =
     (if rv_inRecovery r \<and> pkt_sent p \<le> rv_recoveryStart r then Some r
      else if rv_appLimited r then Some r
      else map_option
             (\<lambda>(acked, window). r\<lparr>rv_ccAcked := acked,
                rv_window := (if window > QUIC_MAX_WINDOW then QUIC_MAX_WINDOW else window)\<rparr>)
             (if rv_window r < rv_ssthresh r then Some (rv_ccAcked r, rv_window r + pkt_size p)
              else ccGrow (rv_maxDatagram r) (rv_ccAcked r + pkt_size p) (rv_window r)))"


section \<open>Round trip time\<close>

definition rttUpdate :: "int \<Rightarrow> int \<Rightarrow> int \<Rightarrow> QuicRecovery \<Rightarrow> QuicRecovery" where
  "rttUpdate latest0 ackDelay0 now r =
     (let latest = (if latest0 < 0 then 0 else latest0);
          t = (rv_rtt r)\<lparr>rtt_latest := latest\<rparr>
      in if \<not> rtt_have t
         then r\<lparr>rv_rtt := t\<lparr>rtt_have := True, rtt_firstSample := now, rtt_min := latest,
                            rtt_smoothed := latest, rtt_var := latest sdiv 2\<rparr>\<rparr>
         else (let mn = (if latest < rtt_min t then latest else rtt_min t);
                   delay = (if rv_handshakeConfirmed r \<and> ackDelay0 > rv_maxAckDelay r
                            then rv_maxAckDelay r else ackDelay0);
                   adjusted = (if latest \<ge> mn + delay then latest - delay else latest);
                   diff = (if rtt_smoothed t > adjusted then rtt_smoothed t - adjusted
                           else adjusted - rtt_smoothed t)
               in r\<lparr>rv_rtt := t\<lparr>rtt_min := mn, rtt_var := (3 * rtt_var t + diff) sdiv 4,
                                rtt_smoothed := (7 * rtt_smoothed t + adjusted) sdiv 8\<rparr>\<rparr>))"


section \<open>Timers\<close>

definition elicitTotal :: "QuicRecovery \<Rightarrow> nat" where
  "elicitTotal r =
     foldl (\<lambda>n sp. if rv_discarded r sp then n else n + rv_elicitInFlight r sp) 0 pn_spaces"

definition peerValidated :: "QuicRecovery \<Rightarrow> bool" where
  "peerValidated r \<longleftrightarrow> rv_server r \<or> rv_handshakeConfirmed r \<or> rv_peerValidated r"

definition ptoDuration :: "QuicRecovery \<Rightarrow> int" where
  "ptoDuration r =
     (if \<not> rtt_have (rv_rtt r) then 2 * QUIC_INITIAL_RTT
      else (let v = 4 * rtt_var (rv_rtt r)
            in rtt_smoothed (rv_rtt r) + (if v < QUIC_GRANULARITY then QUIC_GRANULARITY else v)))"

definition lossTimeAndSpace :: "QuicRecovery \<Rightarrow> int \<times> QuicPnSpaceId" where
  "lossTimeAndSpace r =
     foldl (\<lambda>(best, out) sp.
              if rv_discarded r sp \<or> rv_lossTime r sp = 0 then (best, out)
              else if best = 0 \<or> rv_lossTime r sp < best then (rv_lossTime r sp, sp)
              else (best, out))
       (0, QUIC_PNS_INITIAL) pn_spaces"

definition ptoShift :: "QuicRecovery \<Rightarrow> nat" where
  "ptoShift r = (if rv_ptoCount r > QUIC_MAX_PTO_BACKOFF then QUIC_MAX_PTO_BACKOFF else rv_ptoCount r)"

definition probeSpace :: "QuicRecovery \<Rightarrow> QuicPnSpaceId" where
  "probeSpace r =
     (if rv_ready r QUIC_PNS_HANDSHAKE \<and> \<not> rv_discarded r QUIC_PNS_HANDSHAKE
      then QUIC_PNS_HANDSHAKE else QUIC_PNS_INITIAL)"

definition ptoTimeAndSpace :: "QuicRecovery \<Rightarrow> int \<Rightarrow> int \<times> QuicPnSpaceId" where
  "ptoTimeAndSpace r now =
     (let base = ptoDuration r * 2 ^ ptoShift r
      in if elicitTotal r = 0 then (now + base, probeSpace r)
         else foldl (\<lambda>(best, out) sp.
                if rv_discarded r sp \<or> rv_elicitInFlight r sp = 0 then (best, out)
                else if sp = QUIC_PNS_APP \<and> \<not> rv_handshakeConfirmed r then (best, out)
                else (let d = (if sp = QUIC_PNS_APP then base + rv_maxAckDelay r * 2 ^ ptoShift r else base);
                          t = rv_lastElicitSent r sp + d
                      in if t < best then (t, sp) else (best, out)))
              (timeForever, QUIC_PNS_INITIAL) pn_spaces)"

definition recovSetTimer :: "int \<Rightarrow> QuicRecovery \<Rightarrow> QuicRecovery" where
  "recovSetTimer now r =
     (let t = fst (lossTimeAndSpace r)
      in if t \<noteq> 0 then r\<lparr>rv_timer := t\<rparr>
         else if elicitTotal r = 0 \<and> peerValidated r then r\<lparr>rv_timer := timeForever\<rparr>
         else r\<lparr>rv_timer := fst (ptoTimeAndSpace r now)\<rparr>)"


section \<open>The datagram size\<close>

definition quicRecovSetMaxDatagram :: "nat \<Rightarrow> QuicRecovery \<Rightarrow> QuicRecovery" where
  "quicRecovSetMaxDatagram maxDatagram r =
     (if maxDatagram = 0 \<or> maxDatagram = rv_maxDatagram r then r
      else (let r1 = r\<lparr>rv_maxDatagram := maxDatagram\<rparr>
            in if rv_window r1 < ccMinWindow r1 then r1\<lparr>rv_window := ccMinWindow r1\<rparr> else r1))"


section \<open>Loss detection\<close>

definition notify ::
  "(QuicPnSpaceId \<Rightarrow> nat \<Rightarrow> QuicRecovery \<Rightarrow> 'c \<Rightarrow> nat \<times> 'c) option \<Rightarrow> QuicPnSpaceId \<Rightarrow> nat
    \<Rightarrow> QuicRecovery \<times> 'c \<Rightarrow> QuicRecovery \<times> 'c" where
  "notify h sp pn rc =
     (case (h, rc) of
        (None, _) \<Rightarrow> rc
      | (Some f, r, c) \<Rightarrow> (case f sp pn r c of (md, c1) \<Rightarrow> (quicRecovSetMaxDatagram md r, c1)))"

definition notifyLost ::
  "'c QuicRecovHandlers \<Rightarrow> QuicPnSpaceId \<Rightarrow> nat \<Rightarrow> QuicRecovery \<times> 'c \<Rightarrow> QuicRecovery \<times> 'c" where
  "notifyLost h = notify (rh_lost h)"

definition persistentPeriod :: "QuicRecovery \<Rightarrow> int" where
  "persistentPeriod r = (ptoDuration r + rv_maxAckDelay r) * QUIC_PERSISTENT_CONGESTION_THRESHOLD"

definition retainCutoff :: "QuicRecovery \<Rightarrow> int \<Rightarrow> int" where
  "retainCutoff r now = now - 2 * persistentPeriod r"

text \<open>The scan for a run of losses longer than \<open>period\<close>, over the packets from the oldest.\<close>

fun lossRun :: "int \<Rightarrow> int \<Rightarrow> QuicSentPkt list \<Rightarrow> int \<Rightarrow> bool \<Rightarrow> bool" where
  "lossRun firstSample period [] runStart open1 = False"
| "lossRun firstSample period (p # ps) runStart open1 =
     (if pkt_fate p \<noteq> QUIC_SENT_LOST then lossRun firstSample period ps runStart False
      else if \<not> pkt_ackEliciting p then lossRun firstSample period ps runStart open1
      else if pkt_sent p < firstSample then lossRun firstSample period ps runStart False
      else if \<not> open1 then lossRun firstSample period ps (pkt_sent p) True
      else if pkt_sent p - runStart > period then True
      else lossRun firstSample period ps runStart open1)"

definition persistentCongestion :: "QuicRecovery \<Rightarrow> QuicPnSpaceId \<Rightarrow> bool" where
  "persistentCongestion r sp =
     (if \<not> rtt_have (rv_rtt r) then False
      else lossRun (rtt_firstSample (rv_rtt r)) (persistentPeriod r) (ring_list (rv_sent r sp)) 0 False)"

text \<open>
  Settling a packet: its entry in the array gets its fate, and the counters that follow packets in
  flight let go of it.
\<close>

definition resolvePkt ::
  "(QuicSentPkt \<Rightarrow> QuicSentPkt) \<Rightarrow> QuicPnSpaceId \<Rightarrow> nat \<Rightarrow> QuicRecovery \<Rightarrow> QuicRecovery" where
  "resolvePkt f sp k r =
     (let ring = rv_sent r sp;
          p = rg_pkts ring ! k
      in r\<lparr>rv_sent := (rv_sent r)(sp := ringStore ring k (f p)),
           rv_elicitInFlight :=
             (if pkt_ackEliciting p \<and> rv_elicitInFlight r sp > 0
              then (rv_elicitInFlight r)(sp := rv_elicitInFlight r sp - 1) else rv_elicitInFlight r),
           rv_inFlight := (if pkt_inFlight p then rv_inFlight r - pkt_size p else rv_inFlight r)\<rparr>)"

abbreviation (input) markLost :: "QuicSentPkt \<Rightarrow> QuicSentPkt" where
  "markLost p \<equiv> p\<lparr>pkt_fate := QUIC_SENT_LOST\<rparr>"

abbreviation (input) markAcked :: "QuicSentPkt \<Rightarrow> QuicSentPkt" where
  "markAcked p \<equiv> p\<lparr>pkt_fate := QUIC_SENT_ACKED, pkt_fresh := True\<rparr>"

text \<open>The loop of \<^verbatim>\<open>detectLoss\<close> over the distances from the head.\<close>

fun detectLossLoop ::
  "'c QuicRecovHandlers \<Rightarrow> QuicPnSpaceId \<Rightarrow> nat \<Rightarrow> int \<Rightarrow> int \<Rightarrow> nat list
    \<Rightarrow> (QuicRecovery \<times> 'c) \<times> int \<times> bool \<Rightarrow> (QuicRecovery \<times> 'c) \<times> int \<times> bool" where
  "detectLossLoop h sp largest delay lostBefore [] st = st"
| "detectLossLoop h sp largest delay lostBefore (i # is) ((r, c), largestLost, largestInFlight) =
     (let ring = rv_sent r sp;
          pn = rg_basePn ring + i;
          k = ringSlot ring i;
          p = rg_pkts ring ! k
      in if pn > largest then ((r, c), largestLost, largestInFlight)
         else if pkt_fate p \<noteq> QUIC_SENT_LIVE
         then detectLossLoop h sp largest delay lostBefore is ((r, c), largestLost, largestInFlight)
         else if pkt_sent p > lostBefore \<and> largest < pn + QUIC_PACKET_THRESHOLD
         then (let t = pkt_sent p + delay;
                   r1 = (if rv_lossTime r sp = 0 \<or> t < rv_lossTime r sp
                         then r\<lparr>rv_lossTime := (rv_lossTime r)(sp := t)\<rparr> else r)
               in detectLossLoop h sp largest delay lostBefore is ((r1, c), largestLost, largestInFlight))
         else (let r1 = (resolvePkt (\<lambda>p. markLost p) sp k r)\<lparr>rv_nlost := rv_nlost r + 1\<rparr>;
                   counts = pkt_inFlight p \<and> pkt_marks p AND QUIC_SENT_PMTU_PROBE = 0
               in detectLossLoop h sp largest delay lostBefore is
                    (notifyLost h sp pn (r1, c),
                     (if counts then pkt_sent p else largestLost), counts \<or> largestInFlight)))"

definition lossDelay :: "QuicRecovery \<Rightarrow> int" where
  "lossDelay r =
     (let d = (if rtt_have (rv_rtt r)
               then (if rtt_latest (rv_rtt r) > rtt_smoothed (rv_rtt r)
                     then rtt_latest (rv_rtt r) else rtt_smoothed (rv_rtt r))
               else QUIC_INITIAL_RTT);
          d1 = (d * 9) sdiv 8
      in if d1 < QUIC_GRANULARITY then QUIC_GRANULARITY else d1)"

definition detectLoss ::
  "'c QuicRecovHandlers \<Rightarrow> QuicPnSpaceId \<Rightarrow> int \<Rightarrow> QuicRecovery \<times> 'c \<Rightarrow> QuicRecovery \<times> 'c" where
  "detectLoss h sp now rc =
     (case rc of (r0, c0) \<Rightarrow>
       (let r = r0\<lparr>rv_lossTime := (rv_lossTime r0)(sp := 0)\<rparr>
        in case rv_largestAcked r sp of
             None \<Rightarrow> (r, c0)
           | Some largest \<Rightarrow>
               (case detectLossLoop h sp largest (lossDelay r) (now - lossDelay r)
                       [0..<rg_count (rv_sent r sp)] ((r, c0), 0, False) of
                  ((r1, c1), largestLost, largestInFlight) \<Rightarrow>
                    if \<not> largestInFlight then (r1, c1)
                    else (let r2 = ccOnCongestion largestLost now r1
                          in if persistentCongestion r2 sp
                             then (r2\<lparr>rv_window := ccMinWindow r2, rv_ccAcked := 0,
                                      rv_inRecovery := False, rv_npersistent := rv_npersistent r2 + 1\<rparr>, c1)
                             else (r2, c1)))))"


section \<open>Pacing\<close>

definition pacerBurst :: "QuicRecovery \<Rightarrow> int" where
  "pacerBurst r = 10 * int (rv_maxDatagram r)"

definition pacerSrtt :: "QuicRecovery \<Rightarrow> int" where
  "pacerSrtt r =
     (let srtt = (if rtt_have (rv_rtt r) then rtt_smoothed (rv_rtt r) else QUIC_INITIAL_RTT)
      in if srtt < QUIC_GRANULARITY then QUIC_GRANULARITY else srtt)"

definition pacerRate :: "QuicRecovery \<Rightarrow> int" where
  "pacerRate r =
     (if rv_window r < rv_ssthresh r then rv_window r * 2 else (rv_window r * 5) sdiv 4)"

definition quicRecovPacerRefill :: "int \<Rightarrow> QuicRecovery \<Rightarrow> QuicRecovery" where
  "quicRecovPacerRefill now r =
     (if rv_tokenTime r = 0 then r\<lparr>rv_tokenTime := now, rv_tokens := pacerBurst r\<rparr>
      else if now \<le> rv_tokenTime r then r
      else (let elapsed = (if now - rv_tokenTime r > 1000000 then 1000000 else now - rv_tokenTime r);
                tokens = rv_tokens r + (elapsed * pacerRate r) sdiv pacerSrtt r
            in r\<lparr>rv_tokenTime := now,
                 rv_tokens := (if tokens > pacerBurst r then pacerBurst r else tokens)\<rparr>))"

definition quicRecovPacerReady :: "QuicRecovery \<Rightarrow> bool" where
  "quicRecovPacerReady r \<longleftrightarrow> rv_tokens r > 0"

definition quicRecovPacerNext :: "QuicRecovery \<Rightarrow> int" where
  "quicRecovPacerNext r =
     (if rv_tokens r > 0 then rv_tokenTime r
      else (let rate = (if pacerRate r < 1 then 1 else pacerRate r);
                need = int (rv_maxDatagram r) - rv_tokens r;
                wait = (need * pacerSrtt r) sdiv rate
            in rv_tokenTime r + (if wait < 1 then 1 else wait)))"


section \<open>The connection's side of it\<close>

definition quicRecovInit :: "bool \<Rightarrow> nat \<Rightarrow> QuicRecovery" where
  "quicRecovInit server maxDatagram =
     \<lparr>rv_server = server, rv_sent = (\<lambda>_. ringDestroy), rv_largestAcked = (\<lambda>_. None),
      rv_lossTime = (\<lambda>_. 0), rv_lastElicitSent = (\<lambda>_. 0), rv_elicitInFlight = (\<lambda>_. 0),
      rv_probes = (\<lambda>_. 0), rv_ready = (\<lambda>_. False), rv_discarded = (\<lambda>_. False),
      rv_rtt = \<lparr>rtt_latest = 0, rtt_smoothed = 0, rtt_var = 0, rtt_min = 0, rtt_firstSample = 0,
                rtt_have = False\<rparr>,
      rv_maxAckDelay = 25000, rv_ptoCount = 0, rv_timer = timeForever, rv_maxDatagram = maxDatagram,
      rv_window = ccInitialWindow maxDatagram, rv_inFlight = 0, rv_ssthresh = UINT64_MAX,
      rv_ccAcked = 0, rv_recoveryStart = 0, rv_inRecovery = False, rv_tokens = 0, rv_tokenTime = 0,
      rv_handshakeConfirmed = False, rv_peerValidated = False, rv_appLimited = False,
      rv_nlost = 0, rv_ncongestion = 0, rv_npersistent = 0\<rparr>"

definition quicRecovDestroy :: "QuicRecovery \<Rightarrow> QuicRecovery" where
  "quicRecovDestroy r = r\<lparr>rv_sent := (\<lambda>_. ringDestroy)\<rparr>"

definition quicRecovSetMaxAckDelay :: "int \<Rightarrow> QuicRecovery \<Rightarrow> QuicRecovery" where
  "quicRecovSetMaxAckDelay delay r = r\<lparr>rv_maxAckDelay := delay\<rparr>"

definition quicRecovSetAppLimited :: "bool \<Rightarrow> QuicRecovery \<Rightarrow> QuicRecovery" where
  "quicRecovSetAppLimited limited r = r\<lparr>rv_appLimited := limited\<rparr>"

definition quicRecovSpaceReady :: "QuicPnSpaceId \<Rightarrow> QuicRecovery \<Rightarrow> QuicRecovery" where
  "quicRecovSpaceReady sp r = r\<lparr>rv_ready := (rv_ready r)(sp := True)\<rparr>"

definition quicRecovDiscardSpace :: "QuicPnSpaceId \<Rightarrow> int \<Rightarrow> QuicRecovery \<Rightarrow> QuicRecovery" where
  "quicRecovDiscardSpace sp now r =
     (if rv_discarded r sp then r
      else recovSetTimer now
        (r\<lparr>rv_inFlight := foldl (\<lambda>n p. if pkt_fate p = QUIC_SENT_LIVE \<and> pkt_inFlight p
                                     then n - pkt_size p else n)
                           (rv_inFlight r) (ring_list (rv_sent r sp)),
           rv_sent := (rv_sent r)(sp := ringDestroy),
           rv_discarded := (rv_discarded r)(sp := True),
           rv_elicitInFlight := (rv_elicitInFlight r)(sp := 0),
           rv_lossTime := (rv_lossTime r)(sp := 0),
           rv_probes := (rv_probes r)(sp := 0),
           rv_ptoCount := 0\<rparr>))"

fun discardEarlyLoop ::
  "'c QuicRecovHandlers \<Rightarrow> nat \<Rightarrow> nat list \<Rightarrow> QuicRecovery \<times> 'c \<Rightarrow> QuicRecovery \<times> 'c" where
  "discardEarlyLoop h pnEnd [] rc = rc"
| "discardEarlyLoop h pnEnd (i # is) (r, c) =
     (let ring = rv_sent r QUIC_PNS_APP;
          pn = rg_basePn ring + i;
          k = ringSlot ring i
      in if pn \<ge> pnEnd then (r, c)
         else if pkt_fate (rg_pkts ring ! k) \<noteq> QUIC_SENT_LIVE then discardEarlyLoop h pnEnd is (r, c)
         else discardEarlyLoop h pnEnd is
                (notifyLost h QUIC_PNS_APP pn (resolvePkt (\<lambda>p. markLost p) QUIC_PNS_APP k r, c)))"

definition quicRecovDiscardEarly ::
  "'c QuicRecovHandlers \<Rightarrow> nat \<Rightarrow> int \<Rightarrow> QuicRecovery \<times> 'c \<Rightarrow> QuicRecovery \<times> 'c" where
  "quicRecovDiscardEarly h pnEnd now rc =
     (case discardEarlyLoop h pnEnd [0..<rg_count (rv_sent (fst rc) QUIC_PNS_APP)] rc of
        (r, c) \<Rightarrow> (recovSetTimer now r, c))"

definition quicRecovConfirmHandshake :: "int \<Rightarrow> QuicRecovery \<Rightarrow> QuicRecovery" where
  "quicRecovConfirmHandshake now r =
     recovSetTimer now (r\<lparr>rv_handshakeConfirmed := True, rv_peerValidated := True\<rparr>)"

definition quicRecovPto :: "QuicRecovery \<Rightarrow> int" where
  "quicRecovPto r = ptoDuration r"

definition quicRecovMark :: "QuicPnSpaceId \<Rightarrow> nat \<Rightarrow> u8 \<Rightarrow> QuicRecovery \<Rightarrow> QuicRecovery" where
  "quicRecovMark sp pn marks r =
     (case ringAt (rv_sent r sp) pn of
        None \<Rightarrow> r
      | Some k \<Rightarrow>
          (let p = rg_pkts (rv_sent r sp) ! k
           in r\<lparr>rv_sent := (rv_sent r)(sp :=
                  ringStore (rv_sent r sp) k (p\<lparr>pkt_marks := pkt_marks p OR marks\<rparr>))\<rparr>))"

definition quicRecovMarksOf :: "QuicRecovery \<Rightarrow> QuicPnSpaceId \<Rightarrow> nat \<Rightarrow> u8" where
  "quicRecovMarksOf r sp pn =
     (case ringAt (rv_sent r sp) pn of None \<Rightarrow> 0 | Some k \<Rightarrow> pkt_marks (rg_pkts (rv_sent r sp) ! k))"

definition quicRecovOnEcnCe :: "QuicPnSpaceId \<Rightarrow> nat \<Rightarrow> int \<Rightarrow> QuicRecovery \<Rightarrow> QuicRecovery" where
  "quicRecovOnEcnCe sp largestAcked now r =
     ccOnCongestion
       (case ringAt (rv_sent r sp) largestAcked of
          None \<Rightarrow> now | Some k \<Rightarrow> pkt_sent (rg_pkts (rv_sent r sp) ! k)) now r"

definition quicRecovOnPathChange :: "QuicRecovery \<Rightarrow> QuicRecovery" where
  "quicRecovOnPathChange r =
     r\<lparr>rv_window := ccInitialWindow (rv_maxDatagram r), rv_ssthresh := UINT64_MAX, rv_ccAcked := 0,
       rv_inRecovery := False, rv_recoveryStart := 0,
       rv_rtt := \<lparr>rtt_latest = 0, rtt_smoothed = QUIC_INITIAL_RTT, rtt_var = QUIC_INITIAL_RTT sdiv 2,
                  rtt_min = 0, rtt_firstSample = 0, rtt_have = False\<rparr>,
       rv_ptoCount := 0, rv_tokens := 0, rv_tokenTime := 0\<rparr>"

definition quicRecovOnSent ::
  "xalloc \<Rightarrow> QuicPnSpaceId \<Rightarrow> nat \<Rightarrow> nat \<Rightarrow> bool \<Rightarrow> bool \<Rightarrow> int \<Rightarrow> QuicRecovery \<Rightarrow> QuicRecovery" where
  "quicRecovOnSent xa sp pn sz ackEliciting inFlight now r =
     (if rv_discarded r sp then r
      else (let p = zeroPkt\<lparr>pkt_sent := now, pkt_size := int sz mod 2 ^ 32,
                            pkt_fate := QUIC_SENT_LIVE, pkt_ackEliciting := ackEliciting,
                            pkt_inFlight := inFlight\<rparr>
            in case ringPush xa (rv_sent r sp) pn p of
                 (ok, ring) \<Rightarrow>
                   (let r0 = r\<lparr>rv_sent := (rv_sent r)(sp := ring)\<rparr>
                    in if \<not> ok then r0
                       else (let r1 = r0\<lparr>rv_tokens := rv_tokens r0 - int sz\<rparr>;
                                 r2 = (if inFlight then r1\<lparr>rv_inFlight := rv_inFlight r1 + int sz\<rparr> else r1);
                                 r3 = (if ackEliciting
                                       then r2\<lparr>rv_elicitInFlight := (rv_elicitInFlight r2)(sp := rv_elicitInFlight r2 sp + 1),
                                               rv_lastElicitSent := (rv_lastElicitSent r2)(sp := now)\<rparr>
                                       else r2)
                             in if inFlight then recovSetTimer now r3 else r3))))"

text \<open>
  The packets of one acknowledged range. The state carries whether anything was acknowledged and the
  send time of the packet that can time a round trip, if that was one of them.
\<close>

fun ackPkts ::
  "'c QuicRecovHandlers \<Rightarrow> QuicPnSpaceId \<Rightarrow> nat \<Rightarrow> nat list
    \<Rightarrow> (QuicRecovery \<times> 'c) \<times> bool \<times> int option \<Rightarrow> (QuicRecovery \<times> 'c) \<times> bool \<times> int option" where
  "ackPkts h sp largest [] st = st"
| "ackPkts h sp largest (pn # pns) ((r, c), any, sample) =
     (case ringAt (rv_sent r sp) pn of
        None \<Rightarrow> ackPkts h sp largest pns ((r, c), any, sample)
      | Some k \<Rightarrow>
          (let p = rg_pkts (rv_sent r sp) ! k
           in if pkt_fate p \<noteq> QUIC_SENT_LIVE then ackPkts h sp largest pns ((r, c), any, sample)
              else ackPkts h sp largest pns
                     (notify (rh_acked h) sp pn (resolvePkt (\<lambda>p. markAcked p) sp k r, c),
                      True,
                      (if pn = largest \<and> pkt_ackEliciting p then Some (pkt_sent p) else sample))))"

definition ackRange ::
  "'c QuicRecovHandlers \<Rightarrow> QuicPnSpaceId \<Rightarrow> nat \<Rightarrow> (QuicRecovery \<times> 'c) \<times> bool \<times> int option
    \<Rightarrow> QuicAckRange \<Rightarrow> (QuicRecovery \<times> 'c) \<times> bool \<times> int option" where
  "ackRange h sp largest st rg =
     (let ring = rv_sent (fst (fst st)) sp
      in if rg_count ring = 0 then st
         else (let lo = max (unat (ar_smallest rg)) (rg_basePn ring);
                   hi = min (unat (ar_largest rg)) (rg_basePn ring + rg_count ring - 1)
               in ackPkts h sp largest [lo..<Suc hi] st))"

text \<open>The window grows for the packets the frame acknowledged, which lose their mark.\<close>

fun growFresh :: "QuicPnSpaceId \<Rightarrow> nat list \<Rightarrow> QuicRecovery \<Rightarrow> QuicRecovery option" where
  "growFresh sp [] r = Some r"
| "growFresh sp (i # is) r =
     (let ring = rv_sent r sp;
          k = ringSlot ring i;
          p = rg_pkts ring ! k
      in if \<not> pkt_fresh p then growFresh sp is r
         else (let r1 = r\<lparr>rv_sent := (rv_sent r)(sp := ringStore ring k (p\<lparr>pkt_fresh := False\<rparr>))\<rparr>
               in if pkt_inFlight p then Option.bind (ccOnAcked p r1) (growFresh sp is)
                  else growFresh sp is r1))"

definition quicRecovOnAck ::
  "'c QuicRecovHandlers \<Rightarrow> QuicPnSpaceId \<Rightarrow> QuicFrame \<Rightarrow> int \<Rightarrow> int \<Rightarrow> QuicRecovery \<times> 'c
    \<Rightarrow> (bool \<times> QuicRecovery \<times> 'c) option" where
  "quicRecovOnAck h sp f delay0 now rc =
     (case rc of (r0, c0) \<Rightarrow>
      case f of FAck largest0 _ _ _ _ _ \<Rightarrow>
       if rv_discarded r0 sp then Some (True, r0, c0)
       else (let largest = unat largest0;
                 r = (if rv_largestAcked r0 sp = None \<or> largest > the (rv_largestAcked r0 sp)
                      then r0\<lparr>rv_largestAcked := (rv_largestAcked r0)(sp := Some largest)\<rparr> else r0)
             in case quicAckIterInit f of
                  None \<Rightarrow> Some (False, r, c0)
                | Some it \<Rightarrow>
                    (case ack_ranges it of (ranges, it1) \<Rightarrow>
                     case foldl (ackRange h sp largest) ((r, c0), False, None) ranges of
                       ((r1, c1), any, sample) \<Rightarrow>
                         if it_bad it1 then Some (False, r1, c1)
                         else if \<not> any then Some (True, recovSetTimer now r1, c1)
                         else (let r2 = (case sample of None \<Rightarrow> r1
                                         | Some sent \<Rightarrow> rttUpdate (now - sent) delay0 now r1);
                                   r3 = (if sp = QUIC_PNS_HANDSHAKE then r2\<lparr>rv_peerValidated := True\<rparr> else r2)
                               in case detectLoss h sp now (r3, c1) of
                                    (r4, c2) \<Rightarrow>
                                      map_option (\<lambda>r5.
                                        let r6 = r5\<lparr>rv_sent := (rv_sent r5)(sp :=
                                                     ringTrim (retainCutoff r5 now) (rv_sent r5 sp))\<rparr>;
                                            r7 = (if peerValidated r6 then r6\<lparr>rv_ptoCount := 0\<rparr> else r6)
                                        in (True, recovSetTimer now r7, c2))
                                      (growFresh sp [0..<rg_count (rv_sent r4 sp)] r4))))
      | _ \<Rightarrow> Some (False, r0, c0))"

definition quicRecovTimer :: "QuicRecovery \<Rightarrow> int" where
  "quicRecovTimer r = rv_timer r"

definition quicRecovOnTimeout ::
  "'c QuicRecovHandlers \<Rightarrow> int \<Rightarrow> QuicRecovery \<times> 'c \<Rightarrow> QuicRecovery \<times> 'c" where
  "quicRecovOnTimeout h now rc =
     (case rc of (r, c) \<Rightarrow>
      case lossTimeAndSpace r of (t, sp) \<Rightarrow>
        if t \<noteq> 0 then
          (if now \<ge> t
           then (case detectLoss h sp now (r, c) of
                   (r1, c1) \<Rightarrow>
                     (recovSetTimer now
                        (r1\<lparr>rv_sent := (rv_sent r1)(sp := ringTrim (retainCutoff r1 now) (rv_sent r1 sp))\<rparr>), c1))
           else (recovSetTimer now r, c))
        else if rv_timer r = timeForever \<or> now < rv_timer r then (r, c)
        else (let sp1 = (if elicitTotal r = 0 then probeSpace r else snd (ptoTimeAndSpace r now));
                  r1 = (if rv_probes r sp1 < 2 then r\<lparr>rv_probes := (rv_probes r)(sp1 := 2)\<rparr> else r)
              in (recovSetTimer now (r1\<lparr>rv_ptoCount := rv_ptoCount r1 + 1\<rparr>), c)))"

definition quicRecovProbes :: "QuicRecovery \<Rightarrow> QuicPnSpaceId \<Rightarrow> nat" where
  "quicRecovProbes r sp = rv_probes r sp"

definition quicRecovProbeSent :: "QuicPnSpaceId \<Rightarrow> QuicRecovery \<Rightarrow> QuicRecovery" where
  "quicRecovProbeSent sp r =
     (if rv_probes r sp > 0 then r\<lparr>rv_probes := (rv_probes r)(sp := rv_probes r sp - 1)\<rparr> else r)"

definition quicRecovCanSend :: "QuicRecovery \<Rightarrow> bool" where
  "quicRecovCanSend r \<longleftrightarrow> rv_inFlight r < rv_window r"

definition quicRecovCanSendSize :: "QuicRecovery \<Rightarrow> nat \<Rightarrow> bool" where
  "quicRecovCanSendSize r sz \<longleftrightarrow> rv_inFlight r + int sz \<le> rv_window r"

definition quicRecovWindowRoom :: "QuicRecovery \<Rightarrow> nat" where
  "quicRecovWindowRoom r =
     (if rv_inFlight r \<ge> rv_window r then 0 else nat (rv_window r - rv_inFlight r))"

end
