(* ===== verification/QuicRecovInv.thy ===== *)
theory QuicRecovInv
  imports QuicRecovery
begin

text \<open>
  The invariant of loss recovery and that every operation of \<^verbatim>\<open>src/cxquic/recovery.c\<close> keeps it: the
  rings are well formed, the bytes in flight and the ack-eliciting counts are exactly what the live
  packets of the rings add up to, the congestion window stays between its floor and its ceiling, and
  the round trip estimates are not negative. It also gives that processing an acknowledgement ends.
\<close>

section \<open>The invariant\<close>

definition fly :: "QuicSentPkt \<Rightarrow> int" where
  "fly p = (if pkt_fate p = QUIC_SENT_LIVE \<and> pkt_inFlight p then pkt_size p else 0)"

definition elicit :: "QuicSentPkt \<Rightarrow> nat" where
  "elicit p = (if pkt_fate p = QUIC_SENT_LIVE \<and> pkt_ackEliciting p then 1 else 0)"

abbreviation recov_pkts :: "QuicRecovery \<Rightarrow> QuicPnSpaceId \<Rightarrow> QuicSentPkt list" where
  "recov_pkts r sp \<equiv> ring_list (rv_sent r sp)"

definition flying :: "QuicRecovery \<Rightarrow> QuicPnSpaceId \<Rightarrow> int" where
  "flying r sp = (\<Sum>p\<leftarrow>recov_pkts r sp. fly p)"

definition eliciting :: "QuicRecovery \<Rightarrow> QuicPnSpaceId \<Rightarrow> nat" where
  "eliciting r sp = (\<Sum>p\<leftarrow>recov_pkts r sp. elicit p)"

definition rings_inv :: "QuicRecovery \<Rightarrow> bool" where
  "rings_inv r \<longleftrightarrow> (\<forall>sp. ring_inv (rv_sent r sp)
     \<and> (\<forall>p\<in>set (recov_pkts r sp). 0 \<le> pkt_size p \<and> pkt_size p < 2 ^ 32)
     \<and> (rv_discarded r sp \<longrightarrow> rg_count (rv_sent r sp) = 0))"

definition account_inv :: "QuicRecovery \<Rightarrow> bool" where
  "account_inv r \<longleftrightarrow>
     rv_inFlight r = (\<Sum>sp\<leftarrow>pn_spaces. flying r sp) \<and> (\<forall>sp. rv_elicitInFlight r sp = eliciting r sp)"

definition window_inv :: "QuicRecovery \<Rightarrow> bool" where
  "window_inv r \<longleftrightarrow> 0 < rv_maxDatagram r \<and> rv_maxDatagram r \<le> 65535
     \<and> ccMinWindow r \<le> rv_window r \<and> rv_window r \<le> QUIC_MAX_WINDOW
     \<and> 0 \<le> rv_ccAcked r \<and> 0 < rv_ssthresh r"

definition rtt_inv :: "QuicRtt \<Rightarrow> bool" where
  "rtt_inv t \<longleftrightarrow> 0 \<le> rtt_latest t \<and> 0 \<le> rtt_smoothed t \<and> 0 \<le> rtt_var t \<and> 0 \<le> rtt_min t"

definition recov_inv :: "QuicRecovery \<Rightarrow> bool" where
  "recov_inv r \<longleftrightarrow> rings_inv r \<and> account_inv r \<and> window_inv r \<and> rtt_inv (rv_rtt r)"

lemmas recov_inv_defs = recov_inv_def rings_inv_def account_inv_def window_inv_def ccMinWindow_def
  flying_def eliciting_def


section \<open>The counters follow the rings\<close>

lemma sum_list_map_update:
  fixes f :: "'a \<Rightarrow> 'b::ab_group_add"
  assumes "i < length xs"
  shows "(\<Sum>x\<leftarrow>xs[i := y]. f x) = (\<Sum>x\<leftarrow>xs. f x) - f (xs ! i) + f y"
  using assms by (induction xs arbitrary: i) (auto split: nat.split)

lemma sum_list_map_update_nat:
  fixes f :: "'a \<Rightarrow> nat"
  assumes "i < length xs"
  shows "(\<Sum>x\<leftarrow>xs[i := y]. f x) + f (xs ! i) = (\<Sum>x\<leftarrow>xs. f x) + f y"
  using assms by (induction xs arbitrary: i) (auto split: nat.split)

lemma sum_spaces_update:
  fixes g :: "QuicPnSpaceId \<Rightarrow> int"
  assumes "\<And>s. s \<noteq> sp \<Longrightarrow> g1 s = g s"
  shows "(\<Sum>s\<leftarrow>pn_spaces. g1 s) = (\<Sum>s\<leftarrow>pn_spaces. g s) - g sp + g1 sp"
  using assms [of QUIC_PNS_INITIAL] assms [of QUIC_PNS_HANDSHAKE] assms [of QUIC_PNS_APP]
  by (cases sp) (simp_all add: pn_spaces_def)

lemma fly_sum_drop:
  assumes "\<forall>i<n. pkt_fate (ps ! i) \<noteq> QUIC_SENT_LIVE" "n \<le> length ps"
  shows "(\<Sum>p\<leftarrow>drop n ps. fly p) = (\<Sum>p\<leftarrow>ps. fly p)" "(\<Sum>p\<leftarrow>drop n ps. elicit p) = (\<Sum>p\<leftarrow>ps. elicit p)"
proof -
  have "pkt_fate p \<noteq> QUIC_SENT_LIVE" if "p \<in> set (take n ps)" for p
    using that assms by (auto simp: in_set_conv_nth)
  then have "map fly (take n ps) = map (\<lambda>_. 0) (take n ps)" "map elicit (take n ps) = map (\<lambda>_. 0) (take n ps)"
    by (auto simp: fly_def elicit_def)
  then have z: "(\<Sum>p\<leftarrow>take n ps. fly p) = 0" "(\<Sum>p\<leftarrow>take n ps. elicit p) = 0"
    by (simp_all del: map_eq_conv)
  show "(\<Sum>p\<leftarrow>drop n ps. fly p) = (\<Sum>p\<leftarrow>ps. fly p)"
    using z(1) by (metis add_0 append_take_drop_id map_append sum_list_append)
  show "(\<Sum>p\<leftarrow>drop n ps. elicit p) = (\<Sum>p\<leftarrow>ps. elicit p)"
    using z(2) by (metis add_0 append_take_drop_id map_append sum_list_append)
qed

text \<open>Replacing the packets of one space and adjusting the counters by the difference.\<close>

lemma account_replace:
  assumes "account_inv r"
    and "rv_sent r1 = (rv_sent r)(sp := ring)"
    and "rv_inFlight r1 = rv_inFlight r - flying r sp + (\<Sum>p\<leftarrow>ring_list ring. fly p)"
    and "rv_elicitInFlight r1 = (rv_elicitInFlight r)(sp := (\<Sum>p\<leftarrow>ring_list ring. elicit p))"
  shows "account_inv r1"
proof -
  have "(\<Sum>s\<leftarrow>pn_spaces. flying r1 s) = (\<Sum>s\<leftarrow>pn_spaces. flying r s) - flying r sp + flying r1 sp"
    using assms(2) by (intro sum_spaces_update) (simp add: flying_def)
  then show ?thesis
    using assms by (auto simp: account_inv_def flying_def eliciting_def)
qed

lemma account_same:
  assumes "account_inv r"
    and "(\<Sum>p\<leftarrow>ring_list ring. fly p) = flying r sp" "(\<Sum>p\<leftarrow>ring_list ring. elicit p) = eliciting r sp"
  shows "account_inv (r\<lparr>rv_sent := (rv_sent r)(sp := ring)\<rparr>)"
proof (rule account_replace [OF assms(1)])
  have "rv_elicitInFlight r sp = eliciting r sp" using assms(1) by (simp add: account_inv_def)
  then show "rv_elicitInFlight (r\<lparr>rv_sent := (rv_sent r)(sp := ring)\<rparr>) =
      (rv_elicitInFlight r)(sp := (\<Sum>p\<leftarrow>ring_list ring. elicit p))"
    unfolding assms(3) by (simp add: fun_upd_idem)
qed (simp_all add: assms(2))

lemma resolvePkt_fields:
  fixes f sp k r
  defines "r1 \<equiv> resolvePkt f sp k r"
  shows "rv_sent r1 = (rv_sent r)(sp := ringStore (rv_sent r sp) k (f (rg_pkts (rv_sent r sp) ! k)))"
    "rv_rtt r1 = rv_rtt r" "rv_window r1 = rv_window r" "rv_maxDatagram r1 = rv_maxDatagram r"
    "rv_ccAcked r1 = rv_ccAcked r" "rv_ssthresh r1 = rv_ssthresh r" "rv_discarded r1 = rv_discarded r"
    "rv_lossTime r1 = rv_lossTime r" "rv_largestAcked r1 = rv_largestAcked r" "rv_appLimited r1 = rv_appLimited r"
    "rv_inRecovery r1 = rv_inRecovery r" "rv_recoveryStart r1 = rv_recoveryStart r"
  by (simp_all add: r1_def resolvePkt_def Let_def)

lemma resolvePkt_inv:
  assumes inv: "recov_inv r" and i: "i < rg_count (rv_sent r sp)"
    and live: "pkt_fate (recov_pkts r sp ! i) = QUIC_SENT_LIVE"
    and f: "\<And>p. pkt_fate (f p) \<noteq> QUIC_SENT_LIVE" "\<And>p. pkt_size (f p) = pkt_size p"
  shows "recov_inv (resolvePkt f sp (ringSlot (rv_sent r sp) i) r)"
    "recov_pkts (resolvePkt f sp (ringSlot (rv_sent r sp) i) r) s =
      (if s = sp then (recov_pkts r sp)[i := f (recov_pkts r sp ! i)] else recov_pkts r s)"
proof -
  let ?k = "ringSlot (rv_sent r sp) i" and ?p = "recov_pkts r sp ! i"
  let ?r1 = "resolvePkt f sp ?k r"
  have ri: "ring_inv (rv_sent r sp)" using inv by (simp add: recov_inv_def rings_inv_def)
  have p: "rg_pkts (rv_sent r sp) ! ?k = ?p" using i by simp
  have l: "ring_list (ringStore (rv_sent r sp) ?k (f ?p)) = (recov_pkts r sp)[i := f ?p]"
    by (rule ring_list_store [OF ri i])
  have pk: "recov_pkts ?r1 s = (if s = sp then (recov_pkts r sp)[i := f ?p] else recov_pkts r s)" for s
    unfolding resolvePkt_fields p using l by simp
  then show "recov_pkts ?r1 s = (if s = sp then (recov_pkts r sp)[i := f ?p] else recov_pkts r s)" .
  have sz: "0 \<le> pkt_size q \<and> pkt_size q < 2 ^ 32" if "q \<in> set (recov_pkts r s)" for q s
    using inv that by (simp add: recov_inv_def rings_inv_def)
  have rings: "rings_inv ?r1"
    unfolding rings_inv_def
  proof (intro allI conjI ballI impI)
    fix s
    show "ring_inv (rv_sent ?r1 s)"
      using inv by (simp add: resolvePkt_fields recov_inv_def rings_inv_def)
    have pq: "?p \<in> set (recov_pkts r sp)" using i by (metis length_ring_list nth_mem)
    fix q assume "q \<in> set (recov_pkts ?r1 s)"
    then have "q \<in> insert (f ?p) (set (recov_pkts r s))"
      using set_update_subset_insert [of "recov_pkts r sp" i "f ?p"] by (auto simp: pk split: if_splits)
    then have "pkt_size q = pkt_size ?p \<or> q \<in> set (recov_pkts r s)" by (auto simp: f(2))
    then show "0 \<le> pkt_size q" "pkt_size q < 2 ^ 32" using sz [OF pq] sz [of q s] by auto
  next
    fix s assume "rv_discarded ?r1 s"
    then show "rg_count (rv_sent ?r1 s) = 0"
      using inv by (auto simp: resolvePkt_fields recov_inv_def rings_inv_def)
  qed
  have "account_inv ?r1"
  proof (rule account_replace)
    show "account_inv r" using inv by (simp add: recov_inv_def)
    show "rv_sent ?r1 = (rv_sent r)(sp := ringStore (rv_sent r sp) ?k (f ?p))"
      unfolding resolvePkt_fields p ..
    have "(\<Sum>q\<leftarrow>(recov_pkts r sp)[i := f ?p]. fly q) = flying r sp - fly ?p"
      using i f(1) by (simp add: sum_list_map_update flying_def fly_def del: nth_ring_list)
    then show "rv_inFlight ?r1 = rv_inFlight r - flying r sp + (\<Sum>q\<leftarrow>ring_list (ringStore (rv_sent r sp) ?k (f ?p)). fly q)"
      unfolding l using live by (simp add: resolvePkt_def Let_def p fly_def del: nth_ring_list)
    have e: "(\<Sum>q\<leftarrow>(recov_pkts r sp)[i := f ?p]. elicit q) + elicit ?p = rv_elicitInFlight r sp"
      using i f(1) inv sum_list_map_update_nat [of i "recov_pkts r sp" elicit "f ?p"]
      by (simp add: recov_inv_def account_inv_def eliciting_def elicit_def del: nth_ring_list)
    moreover have "elicit ?p = (if pkt_ackEliciting ?p then 1 else 0)" using live by (simp add: elicit_def)
    ultimately show "rv_elicitInFlight ?r1 = (rv_elicitInFlight r)(sp := (\<Sum>q\<leftarrow>ring_list (ringStore (rv_sent r sp) ?k (f ?p)). elicit q))"
      unfolding l by (cases "pkt_ackEliciting ?p") (auto simp: resolvePkt_def Let_def p fun_eq_iff simp del: nth_ring_list)
  qed
  with rings inv show "recov_inv ?r1"
    by (simp add: recov_inv_def window_inv_def ccMinWindow_def resolvePkt_fields)
qed


section \<open>The congestion window\<close>

lemma ccInitialWindow_bounds:
  "md \<le> 65535 \<Longrightarrow> 2 * int md \<le> ccInitialWindow md \<and> ccInitialWindow md \<le> QUIC_MAX_WINDOW"
  by (simp add: ccInitialWindow_def Let_def)

lemma sdiv_nonneg_div: "0 \<le> a \<Longrightarrow> 0 < b \<Longrightarrow> a sdiv b = a div b" for a b :: int
  by (cases "a = 0") (simp_all add: signed_divide_int_def)

lemma recov_inv_frame:
  assumes "rv_sent r1 = rv_sent r" "rv_discarded r1 = rv_discarded r" "rv_inFlight r1 = rv_inFlight r"
    "rv_elicitInFlight r1 = rv_elicitInFlight r" "recov_inv r \<Longrightarrow> window_inv r1 \<and> rtt_inv (rv_rtt r1)"
    and "recov_inv r"
  shows "recov_inv r1"
  using assms by (simp add: recov_inv_def rings_inv_def account_inv_def flying_def eliciting_def)

lemma window_inv_ccOnCongestion: "window_inv r \<Longrightarrow> window_inv (ccOnCongestion t now r)"
  by (auto simp: ccOnCongestion_def window_inv_def ccMinWindow_def Let_def sdiv_nonneg_div)

lemma ccOnCongestion_frame [simp]:
  "rv_sent (ccOnCongestion t now r) = rv_sent r" "rv_discarded (ccOnCongestion t now r) = rv_discarded r"
  "rv_inFlight (ccOnCongestion t now r) = rv_inFlight r" "rv_rtt (ccOnCongestion t now r) = rv_rtt r"
  "rv_elicitInFlight (ccOnCongestion t now r) = rv_elicitInFlight r"
  "rv_maxDatagram (ccOnCongestion t now r) = rv_maxDatagram r"
  "rv_largestAcked (ccOnCongestion t now r) = rv_largestAcked r"
  by (simp_all add: ccOnCongestion_def Let_def)

lemma recov_inv_ccOnCongestion: "recov_inv r \<Longrightarrow> recov_inv (ccOnCongestion t now r)"
  by (rule recov_inv_frame [of _ r]) (auto simp: recov_inv_def window_inv_ccOnCongestion)

lemma quicRecovSetMaxDatagram_frame [simp]:
  "rv_sent (quicRecovSetMaxDatagram n r) = rv_sent r" "rv_discarded (quicRecovSetMaxDatagram n r) = rv_discarded r"
  "rv_inFlight (quicRecovSetMaxDatagram n r) = rv_inFlight r" "rv_rtt (quicRecovSetMaxDatagram n r) = rv_rtt r"
  "rv_elicitInFlight (quicRecovSetMaxDatagram n r) = rv_elicitInFlight r"
  "rv_largestAcked (quicRecovSetMaxDatagram n r) = rv_largestAcked r"
  "rv_lossTime (quicRecovSetMaxDatagram n r) = rv_lossTime r"
  by (simp_all add: quicRecovSetMaxDatagram_def Let_def)

lemma recov_inv_SetMaxDatagram: "recov_inv r \<Longrightarrow> n \<le> 65535 \<Longrightarrow> recov_inv (quicRecovSetMaxDatagram n r)"
  by (rule recov_inv_frame [of _ r])
    (auto simp: recov_inv_def window_inv_def quicRecovSetMaxDatagram_def ccMinWindow_def Let_def)

text \<open>The growth loop ends, because the window it subtracts is positive.\<close>

lemma ccGrow_ends:
  assumes "0 < window" "0 \<le> acked"
  shows "\<exists>acked1 window1. ccGrow md acked window = Some (acked1, window1) \<and> 0 \<le> acked1 \<and> window \<le> window1"
  using assms
proof (induction "nat acked" arbitrary: acked window rule: less_induct)
  case less
  show ?case
  proof (cases "acked \<ge> window")
    case True
    have "nat (acked - window) < nat acked" using True less.prems by simp
    from less.hyps [OF this, of "window + int md"] True less.prems
    obtain a w where "ccGrow md (acked - window) (window + int md) = Some (a, w)" "0 \<le> a" "window \<le> w" by auto
    then show ?thesis using True by (simp add: ccGrow.simps [of md acked])
  next
    case False
    then show ?thesis using less.prems by (simp add: ccGrow.simps [of md acked])
  qed
qed

lemma ccOnAcked_ends:
  assumes "window_inv r" "0 \<le> pkt_size p"
  shows "\<exists>acked window. ccOnAcked p r = Some (r\<lparr>rv_ccAcked := acked, rv_window := window\<rparr>)
    \<and> window_inv (r\<lparr>rv_ccAcked := acked, rv_window := window\<rparr>)"
proof -
  have w: "0 < rv_window r" "0 \<le> rv_ccAcked r + pkt_size p"
    using assms by (auto simp: window_inv_def ccMinWindow_def)
  obtain a w where g: "ccGrow (rv_maxDatagram r) (rv_ccAcked r + pkt_size p) (rv_window r) = Some (a, w)"
    "0 \<le> a" "rv_window r \<le> w"
    using ccGrow_ends [OF w] by blast
  have bound: "2 * int (rv_maxDatagram r) \<le> QUIC_MAX_WINDOW" using assms(1) by (simp add: window_inv_def)
  show ?thesis
  proof (cases "rv_inRecovery r \<and> pkt_sent p \<le> rv_recoveryStart r \<or> rv_appLimited r")
    case True
    then have "ccOnAcked p r = Some r" by (auto simp: ccOnAcked_def)
    then show ?thesis using assms(1) by (intro exI [of _ "rv_ccAcked r"] exI [of _ "rv_window r"]) simp
  next
    case False
    let ?cap = "\<lambda>w. if w > QUIC_MAX_WINDOW then QUIC_MAX_WINDOW else w"
    have inv: "window_inv (r\<lparr>rv_ccAcked := a1, rv_window := ?cap w1\<rparr>)" if "0 \<le> a1" "rv_window r \<le> w1" for a1 w1
      using assms(1) bound that by (simp add: window_inv_def ccMinWindow_def)
    show ?thesis
    proof (cases "rv_window r < rv_ssthresh r")
      case True
      have "ccOnAcked p r = Some (r\<lparr>rv_ccAcked := rv_ccAcked r, rv_window := ?cap (rv_window r + pkt_size p)\<rparr>)"
        using False True by (auto simp: ccOnAcked_def)
      moreover have "0 \<le> rv_ccAcked r" "rv_window r \<le> rv_window r + pkt_size p"
        using assms by (simp_all add: window_inv_def)
      ultimately show ?thesis using inv by blast
    next
      case ca: False
      then have "ccOnAcked p r = Some (r\<lparr>rv_ccAcked := a, rv_window := ?cap w\<rparr>)"
        using False g(1) by (auto simp: ccOnAcked_def)
      with inv [OF g(2,3)] show ?thesis by blast
    qed
  qed
qed


section \<open>Handlers and losses\<close>

text \<open>
  What loss recovery asks of the layer above: \<open>I\<close> is an invariant of that layer's state under
  which its handlers keep the datagram size below 64 KiB, and which they keep.
\<close>

locale recov_client =
  fixes I :: "'c \<Rightarrow> bool" and h :: "'c QuicRecovHandlers"
  assumes acked_law: "rh_acked h = Some f \<Longrightarrow> I c \<Longrightarrow> f sp pn r c = (n, c1) \<Longrightarrow> n \<le> 65535 \<and> I c1"
    and lost_law: "rh_lost h = Some f \<Longrightarrow> I c \<Longrightarrow> f sp pn r c = (n, c1) \<Longrightarrow> n \<le> 65535 \<and> I c1"
begin

lemma notify_eq:
  assumes "f = rh_acked h \<or> f = rh_lost h" "I c"
  obtains n c1 where "notify f sp pn (r, c) = (quicRecovSetMaxDatagram n r, c1)" "n \<le> 65535" "I c1"
proof (cases f)
  case None
  then have "notify f sp pn (r, c) = (quicRecovSetMaxDatagram 0 r, c)"
    by (simp add: notify_def quicRecovSetMaxDatagram_def)
  then show ?thesis using that assms(2) by blast
next
  case (Some g)
  obtain n c1 where g: "g sp pn r c = (n, c1)" by (cases "g sp pn r c")
  then have "n \<le> 65535 \<and> I c1" using assms Some acked_law lost_law by metis
  then show ?thesis using that [of n c1] Some g by (simp add: notify_def)
qed

end

text \<open>The smoothed estimate and the variation are averages of non-negative samples.\<close>

lemma rtt_inv_update:
  assumes "rtt_inv (rv_rtt r)"
  shows "rtt_inv (rv_rtt (rttUpdate l d now r))"
proof -
  define latest where "latest = (if l < 0 then 0 else l)"
  define mn where "mn = (if latest < rtt_min (rv_rtt r) then latest else rtt_min (rv_rtt r))"
  define delay where "delay = (if rv_handshakeConfirmed r \<and> d > rv_maxAckDelay r then rv_maxAckDelay r else d)"
  define adj where "adj = (if latest \<ge> mn + delay then latest - delay else latest)"
  have nn: "0 \<le> latest" "0 \<le> mn" "0 \<le> adj"
    using assms by (auto simp: latest_def mn_def adj_def rtt_inv_def)
  have "rv_rtt (rttUpdate l d now r) =
      (let t = (rv_rtt r)\<lparr>rtt_latest := latest\<rparr>;
           diff = (if rtt_smoothed t > adj then rtt_smoothed t - adj else adj - rtt_smoothed t)
       in if \<not> rtt_have t
          then t\<lparr>rtt_have := True, rtt_firstSample := now, rtt_min := latest, rtt_smoothed := latest,
                 rtt_var := latest sdiv 2\<rparr>
          else t\<lparr>rtt_min := mn, rtt_var := (3 * rtt_var t + diff) sdiv 4,
                 rtt_smoothed := (7 * rtt_smoothed t + adj) sdiv 8\<rparr>)"
    by (simp add: rttUpdate_def Let_def latest_def mn_def delay_def adj_def)
  with nn assms show ?thesis by (simp add: Let_def rtt_inv_def sdiv_nonneg_div pos_imp_zdiv_nonneg_iff)
qed

lemma rttUpdate_frame [simp]:
  "rv_sent (rttUpdate l d now r) = rv_sent r" "rv_discarded (rttUpdate l d now r) = rv_discarded r"
  "rv_inFlight (rttUpdate l d now r) = rv_inFlight r" "rv_elicitInFlight (rttUpdate l d now r) = rv_elicitInFlight r"
  "rv_window (rttUpdate l d now r) = rv_window r" "rv_maxDatagram (rttUpdate l d now r) = rv_maxDatagram r"
  "rv_ccAcked (rttUpdate l d now r) = rv_ccAcked r" "rv_ssthresh (rttUpdate l d now r) = rv_ssthresh r"
  "rv_largestAcked (rttUpdate l d now r) = rv_largestAcked r"
  by (simp_all add: rttUpdate_def Let_def)

lemma recov_inv_rttUpdate: "recov_inv r \<Longrightarrow> recov_inv (rttUpdate l d now r)"
  by (rule recov_inv_frame [of _ r])
    (auto simp: recov_inv_def window_inv_def ccMinWindow_def rtt_inv_update)

lemma recovSetTimer_fields:
  obtains t where "recovSetTimer now r = r\<lparr>rv_timer := t\<rparr>"
proof -
  have "recovSetTimer now r = r\<lparr>rv_timer := rv_timer (recovSetTimer now r)\<rparr>"
    by (simp add: recovSetTimer_def Let_def)
  then show ?thesis by (rule that)
qed

lemma recov_inv_timer [simp]: "recov_inv (r\<lparr>rv_timer := t\<rparr>) = recov_inv r"
  by (simp add: recov_inv_defs)

lemma recov_inv_SetTimer [simp]: "recov_inv (recovSetTimer now r) = recov_inv r"
  by (cases rule: recovSetTimer_fields [of now r]) simp


section \<open>The loops\<close>

context recov_client
begin

lemma detectLossLoop_inv:
  "recov_inv r \<Longrightarrow> I c \<Longrightarrow> \<forall>i\<in>set is. i < rg_count (rv_sent r sp) \<Longrightarrow>
    detectLossLoop h sp largest delay before is ((r, c), ll, lif) = ((r1, c1), ll1, lif1)
    \<Longrightarrow> recov_inv r1 \<and> I c1"
proof (induction "is" arbitrary: r c ll lif)
  case (Cons i "is")
  let ?ring = "rv_sent r sp"
  let ?k = "ringSlot ?ring i" and ?pn = "rg_basePn ?ring + i"
  let ?p = "rg_pkts ?ring ! ?k"
  have i: "i < rg_count ?ring" using Cons.prems(3) by simp
  consider (stop) "?pn > largest" | (skip) "?pn \<le> largest" "pkt_fate ?p \<noteq> QUIC_SENT_LIVE"
    | (wait) "?pn \<le> largest" "pkt_fate ?p = QUIC_SENT_LIVE"
        "pkt_sent ?p > before \<and> largest < ?pn + QUIC_PACKET_THRESHOLD"
    | (lost) "?pn \<le> largest" "pkt_fate ?p = QUIC_SENT_LIVE"
        "\<not> (pkt_sent ?p > before \<and> largest < ?pn + QUIC_PACKET_THRESHOLD)"
    by linarith
  then show ?case
  proof cases
    case wait
    let ?r1 = "if rv_lossTime r sp = 0 \<or> pkt_sent ?p + delay < rv_lossTime r sp
      then r\<lparr>rv_lossTime := (rv_lossTime r)(sp := pkt_sent ?p + delay)\<rparr> else r"
    have "recov_inv ?r1" using Cons.prems(1) by (simp add: recov_inv_defs)
    moreover have "rv_sent ?r1 = rv_sent r" by simp
    ultimately show ?thesis using Cons.IH [of ?r1 c ll lif] Cons.prems wait by (simp add: Let_def)
  next
    case lost
    let ?r1 = "(resolvePkt (\<lambda>p. markLost p) sp ?k r)\<lparr>rv_nlost := rv_nlost r + 1\<rparr>"
    obtain n c2 where n: "notify (rh_lost h) sp ?pn (?r1, c) = (quicRecovSetMaxDatagram n ?r1, c2)" "n \<le> 65535" "I c2"
      using notify_eq [of "rh_lost h" c sp ?pn ?r1] Cons.prems(2) by blast
    have "recov_inv (resolvePkt (\<lambda>p. markLost p) sp ?k r)"
      using lost i by (intro resolvePkt_inv(1) [OF Cons.prems(1) i]) simp_all
    then have "recov_inv ?r1" by (simp add: recov_inv_defs)
    then have "recov_inv (quicRecovSetMaxDatagram n ?r1)" using n(2) by (rule recov_inv_SetMaxDatagram)
    moreover have "\<forall>j\<in>set is. j < rg_count (rv_sent (quicRecovSetMaxDatagram n ?r1) sp)"
      using Cons.prems(3) by (simp add: resolvePkt_fields)
    ultimately show ?thesis
      using Cons.IH [of "quicRecovSetMaxDatagram n ?r1" c2] Cons.prems(4) lost n(1,3)
      by (simp add: Let_def notifyLost_def)
  qed (use Cons in \<open>auto simp: Let_def\<close>)
qed simp

lemma recov_inv_detectLoss:
  assumes "I c" "recov_inv r" "detectLoss h sp now (r, c) = (r1, c1)"
  shows "recov_inv r1 \<and> I c1"
proof -
  let ?r = "r\<lparr>rv_lossTime := (rv_lossTime r)(sp := 0)\<rparr>"
  have inv: "recov_inv ?r" using assms(2) by (simp add: recov_inv_defs)
  show ?thesis
  proof (cases "rv_largestAcked r sp")
    case None
    with assms(1,3) inv show ?thesis by (auto simp: detectLoss_def Let_def)
  next
    case (Some largest)
    obtain r2 c2 ll lif where l: "detectLossLoop h sp largest (lossDelay ?r) (now - lossDelay ?r)
        [0..<rg_count (rv_sent ?r sp)] ((?r, c), 0, False) = ((r2, c2), ll, lif)"
      by (metis surj_pair)
    have "recov_inv r2" "I c2" using detectLossLoop_inv [OF inv assms(1) _ l] by simp_all
    then have inv2: "recov_inv (ccOnCongestion ll now r2)" by (intro recov_inv_ccOnCongestion)
    then have "recov_inv ((ccOnCongestion ll now r2)\<lparr>rv_window := ccMinWindow (ccOnCongestion ll now r2),
        rv_ccAcked := 0, rv_inRecovery := False, rv_npersistent := n\<rparr>)" for n
      by (rule recov_inv_frame [rotated 5]) (auto simp: recov_inv_def window_inv_def ccMinWindow_def)
    with \<open>recov_inv r2\<close> \<open>I c2\<close> inv2 assms(3) Some l show ?thesis
      by (auto simp: detectLoss_def Let_def split: if_splits)
  qed
qed

lemma ackPkts_inv:
  "recov_inv r \<Longrightarrow> I c \<Longrightarrow> ackPkts h sp largest pns ((r, c), any, sample) = ((r1, c1), any1, sample1)
    \<Longrightarrow> recov_inv r1 \<and> I c1"
proof (induction pns arbitrary: r c any sample)
  case (Cons pn pns)
  show ?case
  proof (cases "ringAt (rv_sent r sp) pn")
    case (Some k)
    then obtain i where i: "i < rg_count (rv_sent r sp)" "k = ringSlot (rv_sent r sp) i"
      by (auto simp: ringAt_iff)
    let ?p = "rg_pkts (rv_sent r sp) ! k"
    show ?thesis
    proof (cases "pkt_fate ?p = QUIC_SENT_LIVE")
      case True
      let ?r1 = "resolvePkt (\<lambda>p. markAcked p) sp k r"
      obtain n c2 where n: "notify (rh_acked h) sp pn (?r1, c) = (quicRecovSetMaxDatagram n ?r1, c2)" "n \<le> 65535" "I c2"
        using notify_eq [of "rh_acked h" c sp pn ?r1] Cons.prems(2) by blast
      have "recov_inv ?r1"
        unfolding i(2) using True i by (intro resolvePkt_inv(1) [OF Cons.prems(1) i(1)]) simp_all
      then have "recov_inv (quicRecovSetMaxDatagram n ?r1)" using n(2) by (rule recov_inv_SetMaxDatagram)
      then show ?thesis using Cons.IH Cons.prems(3) Some True n(1,3) by (simp add: Let_def)
    qed (use Cons Some in \<open>simp add: Let_def\<close>)
  qed (use Cons in simp)
qed simp

lemma ackRanges_inv:
  "recov_inv r \<Longrightarrow> I c \<Longrightarrow> foldl (ackRange h sp largest) ((r, c), any, sample) rgs = ((r1, c1), any1, sample1)
    \<Longrightarrow> recov_inv r1 \<and> I c1"
proof (induction rgs arbitrary: r c any sample)
  case (Cons rg rgs)
  obtain r2 c2 any2 sample2 where a: "ackRange h sp largest ((r, c), any, sample) rg = ((r2, c2), any2, sample2)"
    by (metis surj_pair)
  then have "recov_inv r2 \<and> I c2"
    using Cons.prems(1,2) ackPkts_inv [of r c sp largest] by (auto simp: ackRange_def Let_def split: if_splits)
  with Cons.IH [of r2 c2 any2 sample2] Cons.prems(3) a show ?case by simp
qed simp

end

text \<open>Storing a packet back with the same size, fate and flags for the counters changes nothing.\<close>

lemma recov_inv_store:
  assumes "recov_inv r" "i < rg_count (rv_sent r sp)" "p = recov_pkts r sp ! i"
    and "pkt_size q = pkt_size p" "fly q = fly p" "elicit q = elicit p"
  shows "recov_inv (r\<lparr>rv_sent := (rv_sent r)(sp := ringStore (rv_sent r sp) (ringSlot (rv_sent r sp) i) q)\<rparr>)"
    (is "recov_inv ?r1")
proof -
  have ri: "ring_inv (rv_sent r sp)" using assms(1) by (simp add: recov_inv_def rings_inv_def)
  let ?ring = "ringStore (rv_sent r sp) (ringSlot (rv_sent r sp) i) q"
  have l: "ring_list ?ring = (recov_pkts r sp)[i := q]" by (rule ring_list_store [OF ri assms(2)])
  have p: "p \<in> set (recov_pkts r sp)" using assms(2,3) by (metis length_ring_list nth_mem)
  have sums: "(\<Sum>x\<leftarrow>ring_list ?ring. fly x) = flying r sp" "(\<Sum>x\<leftarrow>ring_list ?ring. elicit x) = eliciting r sp"
    unfolding l flying_def eliciting_def
    using assms(2,5,6) sum_list_map_update [of i "recov_pkts r sp" fly q]
      sum_list_map_update_nat [of i "recov_pkts r sp" elicit q]
    by (simp_all add: assms(3) del: nth_ring_list)
  have "account_inv ?r1"
    using assms(1) sums by (intro account_same) (simp_all add: recov_inv_def)
  moreover have "0 \<le> pkt_size x \<and> pkt_size x < 2 ^ 32" if "x \<in> set (ring_list ?ring)" for x
  proof -
    have "x = q \<or> x \<in> set (recov_pkts r sp)"
      using that set_update_subset_insert [of "recov_pkts r sp" i q] by (auto simp: l)
    moreover have "0 \<le> pkt_size y \<and> pkt_size y < 2 ^ 32" if "y \<in> set (recov_pkts r sp)" for y
      using assms(1) that by (simp add: recov_inv_def rings_inv_def)
    ultimately show ?thesis using assms(4) p by metis
  qed
  then have "rings_inv ?r1" using assms(1) ri by (simp add: recov_inv_def rings_inv_def)
  ultimately show ?thesis using assms(1) by (simp add: recov_inv_def window_inv_def ccMinWindow_def)
qed

lemma growFresh_ends:
  "recov_inv r \<Longrightarrow> \<forall>i\<in>set is. i < rg_count (rv_sent r sp) \<Longrightarrow> \<exists>r1. growFresh sp is r = Some r1 \<and> recov_inv r1"
proof (induction "is" arbitrary: r)
  case (Cons i "is")
  let ?k = "ringSlot (rv_sent r sp) i"
  let ?p = "rg_pkts (rv_sent r sp) ! ?k"
  let ?r1 = "r\<lparr>rv_sent := (rv_sent r)(sp := ringStore (rv_sent r sp) ?k (?p\<lparr>pkt_fresh := False\<rparr>))\<rparr>"
  have i: "i < rg_count (rv_sent r sp)" using Cons.prems(2) by simp
  have inv: "recov_inv ?r1"
    using i by (intro recov_inv_store [OF Cons.prems(1) i refl]) (simp_all add: fly_def elicit_def)
  have bound: "\<forall>j\<in>set is. j < rg_count (rv_sent ?r1 sp)" using Cons.prems(2) by simp
  have "?p \<in> set (recov_pkts r sp)" using i by (metis length_ring_list nth_mem nth_ring_list)
  then have "0 \<le> pkt_size ?p" using Cons.prems(1) by (simp add: recov_inv_def rings_inv_def)
  then obtain a w where g: "ccOnAcked ?p ?r1 = Some (?r1\<lparr>rv_ccAcked := a, rv_window := w\<rparr>)"
    "window_inv (?r1\<lparr>rv_ccAcked := a, rv_window := w\<rparr>)"
    using ccOnAcked_ends [of ?r1 ?p] inv unfolding recov_inv_def by blast
  have "recov_inv (?r1\<lparr>rv_ccAcked := a, rv_window := w\<rparr>)"
    using inv g(2) by (intro recov_inv_frame [OF _ _ _ _ _ inv]) (simp_all add: recov_inv_def)
  then have "\<exists>r2. growFresh sp is (?r1\<lparr>rv_ccAcked := a, rv_window := w\<rparr>) = Some r2 \<and> recov_inv r2"
    using bound by (intro Cons.IH) simp_all
  moreover have "\<exists>r2. growFresh sp is ?r1 = Some r2 \<and> recov_inv r2" using inv bound by (rule Cons.IH)
  moreover have "\<exists>r2. growFresh sp is r = Some r2 \<and> recov_inv r2" using Cons by simp
  ultimately show ?case using g(1) by (simp add: Let_def)
qed simp

lemma recov_inv_trim:
  assumes "recov_inv r"
  shows "recov_inv (r\<lparr>rv_sent := (rv_sent r)(sp := ringTrim cutoff (rv_sent r sp))\<rparr>)" (is "recov_inv ?r1")
proof -
  let ?ps = "recov_pkts r sp" and ?n = "trimmed cutoff (recov_pkts r sp)"
  have ri: "ring_inv (rv_sent r sp)" using assms by (simp add: recov_inv_def rings_inv_def)
  note trim = ringTrim_ok [OF ri, of cutoff]
  have n: "\<forall>i<?n. pkt_fate (?ps ! i) \<noteq> QUIC_SENT_LIVE" "?n \<le> length ?ps"
    using trimmed_resolved [of _ cutoff ?ps] trimmed_le [of cutoff ?ps] by (blast, simp)
  note sums = fly_sum_drop [OF n]
  have "account_inv ?r1"
    using assms sums by (intro account_same) (simp_all add: recov_inv_def trim(2) flying_def eliciting_def)
  moreover have "rg_count (ringTrim cutoff (rv_sent r sp)) = 0" if "rg_count (rv_sent r sp) = 0"
    using that trim(2) by (metis drop_eq_Nil2 length_0_conv length_ring_list le_zero_eq zero_le)
  then have "rings_inv ?r1"
    using assms trim by (auto simp: recov_inv_def rings_inv_def dest: in_set_dropD)
  ultimately show ?thesis using assms by (simp add: recov_inv_def window_inv_def ccMinWindow_def)
qed


section \<open>The operations\<close>

lemma recov_inv_Init:
  assumes "0 < md" "md \<le> 65535"
  shows "recov_inv (quicRecovInit server md)"
  using assms ccInitialWindow_bounds [of md]
  by (simp add: quicRecovInit_def recov_inv_defs rtt_inv_def UINT64_MAX_def pn_spaces_def)

lemma recov_inv_OnSent:
  assumes "recov_inv r" "sz < 2 ^ 32"
  shows "recov_inv (quicRecovOnSent xa sp pn sz e f now r)"
proof (cases "rv_discarded r sp")
  case True
  then show ?thesis using assms by (simp add: quicRecovOnSent_def)
next
  case False
  define p where "p = zeroPkt\<lparr>pkt_sent := now, pkt_size := int sz mod 2 ^ 32, pkt_fate := QUIC_SENT_LIVE,
    pkt_ackEliciting := e, pkt_inFlight := f\<rparr>"
  obtain ok ring where push: "ringPush xa (rv_sent r sp) pn p = (ok, ring)" by (metis surj_pair)
  let ?r0 = "r\<lparr>rv_sent := (rv_sent r)(sp := ring)\<rparr>"
  have ri: "ring_inv (rv_sent r sp)" using assms(1) by (simp add: recov_inv_def rings_inv_def)
  note rp = ringPush_ok [OF ri push]
  have p: "pkt_size p = int sz" "fly p = (if f then int sz else 0)" "elicit p = (if e then 1 else 0)"
    using assms(2) by (simp_all add: p_def fly_def elicit_def)
  have "set (ring_list ring) \<subseteq> insert p (set (recov_pkts r sp))" by (auto simp: rp(2) split: if_splits)
  then have rings: "rings_inv ?r0"
    using assms rp(1) False p(1) unfolding recov_inv_def rings_inv_def by (auto split: if_splits)
  have wi: "window_inv r" "rtt_inv (rv_rtt r)" "account_inv r" using assms(1) by (simp_all add: recov_inv_def)
  show ?thesis
  proof (cases ok)
    case no: False
    have "account_inv ?r0"
      by (rule account_same [OF wi(3)]) (simp_all add: rp(2) no flying_def eliciting_def)
    then have "recov_inv ?r0" using rings wi by (simp add: recov_inv_def window_inv_def ccMinWindow_def)
    then show ?thesis using False push no by (simp add: quicRecovOnSent_def Let_def p_def)
  next
    case True
    define r1 where "r1 = ?r0\<lparr>rv_tokens := rv_tokens r - int sz,
      rv_inFlight := (if f then rv_inFlight r + int sz else rv_inFlight r),
      rv_elicitInFlight := (if e then (rv_elicitInFlight r)(sp := rv_elicitInFlight r sp + 1) else rv_elicitInFlight r),
      rv_lastElicitSent := (if e then (rv_lastElicitSent r)(sp := now) else rv_lastElicitSent r)\<rparr>"
    have el: "rv_elicitInFlight r sp = eliciting r sp" using wi(3) by (simp add: account_inv_def)
    have "account_inv r1"
      by (rule account_replace [OF wi(3), of _ sp ring])
        (use el in \<open>auto simp: r1_def rp(2) True p flying_def eliciting_def fun_eq_iff\<close>)
    then have "recov_inv r1"
      using rings wi by (simp add: recov_inv_def window_inv_def ccMinWindow_def rings_inv_def r1_def)
    moreover have "quicRecovOnSent xa sp pn sz e f now r = (if f then recovSetTimer now r1 else r1)"
      using False push True by (simp add: quicRecovOnSent_def Let_def p_def r1_def)
    ultimately show ?thesis by simp
  qed
qed

lemma foldl_discard:
  "foldl (\<lambda>n p. if pkt_fate p = QUIC_SENT_LIVE \<and> pkt_inFlight p then n - pkt_size p else n) a ps
    = a - (\<Sum>p\<leftarrow>ps. fly p)"
  by (induction ps arbitrary: a) (auto simp: fly_def)

lemma recov_inv_DiscardSpace:
  assumes "recov_inv r"
  shows "recov_inv (quicRecovDiscardSpace sp now r)"
proof (cases "rv_discarded r sp")
  case False
  let ?r1 = "r\<lparr>rv_inFlight := rv_inFlight r - flying r sp,
     rv_sent := (rv_sent r)(sp := ringDestroy), rv_discarded := (rv_discarded r)(sp := True),
     rv_elicitInFlight := (rv_elicitInFlight r)(sp := 0), rv_lossTime := (rv_lossTime r)(sp := 0),
     rv_probes := (rv_probes r)(sp := 0), rv_ptoCount := 0\<rparr>"
  have "account_inv ?r1"
    by (rule account_replace [of r _ sp ringDestroy]) (use assms in \<open>simp_all add: recov_inv_def\<close>)
  moreover have "rings_inv ?r1"
    using assms by (simp add: recov_inv_def rings_inv_def) (simp add: ringDestroy_def)
  ultimately have "recov_inv ?r1"
    using assms by (simp add: recov_inv_def window_inv_def ccMinWindow_def)
  then show ?thesis using False by (simp add: quicRecovDiscardSpace_def foldl_discard flying_def)
qed (use assms in \<open>simp add: quicRecovDiscardSpace_def\<close>)

context recov_client
begin

lemma discardEarlyLoop_inv:
  "recov_inv r \<Longrightarrow> I c \<Longrightarrow> \<forall>i\<in>set is. i < rg_count (rv_sent r QUIC_PNS_APP) \<Longrightarrow>
    discardEarlyLoop h pnEnd is (r, c) = (r1, c1) \<Longrightarrow> recov_inv r1 \<and> I c1"
proof (induction "is" arbitrary: r c)
  case (Cons i "is")
  let ?ring = "rv_sent r QUIC_PNS_APP"
  let ?k = "ringSlot ?ring i" and ?pn = "rg_basePn ?ring + i"
  have i: "i < rg_count ?ring" using Cons.prems(3) by simp
  show ?case
  proof (cases "?pn < pnEnd \<and> pkt_fate (rg_pkts ?ring ! ?k) = QUIC_SENT_LIVE")
    case True
    let ?r1 = "resolvePkt (\<lambda>p. markLost p) QUIC_PNS_APP ?k r"
    obtain n c2 where n: "notify (rh_lost h) QUIC_PNS_APP ?pn (?r1, c) = (quicRecovSetMaxDatagram n ?r1, c2)" "n \<le> 65535" "I c2"
      using notify_eq [of "rh_lost h" c QUIC_PNS_APP ?pn ?r1] Cons.prems(2) by blast
    have "recov_inv ?r1"
      using True i by (intro resolvePkt_inv(1) [OF Cons.prems(1) i]) simp_all
    then have "recov_inv (quicRecovSetMaxDatagram n ?r1)" using n(2) by (rule recov_inv_SetMaxDatagram)
    moreover have "\<forall>j\<in>set is. j < rg_count (rv_sent (quicRecovSetMaxDatagram n ?r1) QUIC_PNS_APP)"
      using Cons.prems(3) by (simp add: resolvePkt_fields)
    ultimately show ?thesis
      using Cons.IH [of "quicRecovSetMaxDatagram n ?r1" c2] Cons.prems(4) True n(1,3)
      by (simp add: Let_def notifyLost_def)
  qed (use Cons in \<open>auto simp: Let_def split: if_splits\<close>)
qed simp

lemma recov_inv_DiscardEarly:
  assumes "I c" "recov_inv r" "quicRecovDiscardEarly h pnEnd now (r, c) = (r1, c1)"
  shows "recov_inv r1 \<and> I c1"
proof -
  obtain r2 c2 where l: "discardEarlyLoop h pnEnd [0..<rg_count (rv_sent r QUIC_PNS_APP)] (r, c) = (r2, c2)"
    by (metis surj_pair)
  have "recov_inv r2 \<and> I c2" by (rule discardEarlyLoop_inv [OF assms(2,1) _ l]) simp
  then show ?thesis using assms(3) l by (auto simp: quicRecovDiscardEarly_def)
qed

lemma recov_inv_OnTimeout:
  assumes "I c" "recov_inv r" "quicRecovOnTimeout h now (r, c) = (r1, c1)"
  shows "recov_inv r1 \<and> I c1"
proof -
  obtain t sp where ls: "lossTimeAndSpace r = (t, sp)" by (cases "lossTimeAndSpace r")
  obtain r2 c2 where d: "detectLoss h sp now (r, c) = (r2, c2)" by (metis surj_pair)
  have lost: "recov_inv (r2\<lparr>rv_sent := (rv_sent r2)(sp := ringTrim (retainCutoff r2 now) (rv_sent r2 sp))\<rparr>)"
    using recov_inv_detectLoss [OF assms(1,2) d] by (blast intro: recov_inv_trim)
  have probe: "recov_inv (r'\<lparr>rv_ptoCount := n\<rparr>)" "recov_inv (r'\<lparr>rv_probes := ps\<rparr>)" if "recov_inv r'" for r' n ps
    using that by (simp_all add: recov_inv_defs)
  show ?thesis
    using assms lost probe recov_inv_detectLoss [OF assms(1,2) d] by (auto simp: quicRecovOnTimeout_def ls d Let_def split: if_splits)
qed

text \<open>
  Processing an acknowledgement: before the detection of losses, and the whole. The first part
  is a function of its own here only to name the state between the two.
\<close>

lemma quicRecovOnAck_ends:
  assumes h: "I c0" and inv: "recov_inv r0"
  shows "\<exists>ok r1 c1. quicRecovOnAck h sp f d now (r0, c0) = Some (ok, r1, c1) \<and> recov_inv r1 \<and> I c1"
proof (cases "\<exists>largest0 a b c1 e g. f = FAck largest0 a b c1 e g \<and> \<not> rv_discarded r0 sp")
  case True
  then obtain largest0 a b c1 e g where f: "f = FAck largest0 a b c1 e g" "\<not> rv_discarded r0 sp" by blast
  define r where "r = (if rv_largestAcked r0 sp = None \<or> unat largest0 > the (rv_largestAcked r0 sp)
    then r0\<lparr>rv_largestAcked := (rv_largestAcked r0)(sp := Some (unat largest0))\<rparr> else r0)"
  have ri: "recov_inv r" using inv by (simp add: r_def recov_inv_defs)
  show ?thesis
  proof (cases "quicAckIterInit f")
    case None
    then have "quicRecovOnAck h sp f d now (r0, c0) = Some (False, r, c0)"
      using f by (simp add: quicRecovOnAck_def Let_def r_def)
    then show ?thesis using ri h by blast
  next
    case (Some it)
    obtain ranges it1 where it: "ack_ranges it = (ranges, it1)" by (metis surj_pair)
    obtain r1 c1 any sample where w:
      "foldl (ackRange h sp (unat largest0)) ((r, c0), False, None) ranges = ((r1, c1), any, sample)"
      by (metis surj_pair)
    have r1: "recov_inv r1" and c1: "I c1" using ackRanges_inv [OF ri h w] by auto
    define r2 where "r2 = (case sample of None \<Rightarrow> r1 | Some sent \<Rightarrow> rttUpdate (now - sent) d now r1)"
    define r3 where "r3 = (if sp = QUIC_PNS_HANDSHAKE then r2\<lparr>rv_peerValidated := True\<rparr> else r2)"
    have "recov_inv r2" using r1 by (auto simp: r2_def recov_inv_rttUpdate split: option.split)
    then have r3: "recov_inv r3" by (simp add: r3_def recov_inv_defs)
    obtain r4 c4 where d4: "detectLoss h sp now (r3, c1) = (r4, c4)" by (metis surj_pair)
    have r4: "recov_inv r4" and c4: "I c4" using recov_inv_detectLoss [OF c1 r3 d4] by auto
    obtain r5 where g: "growFresh sp [0..<rg_count (rv_sent r4 sp)] r4 = Some r5" and r5: "recov_inv r5"
      using growFresh_ends [OF r4, of "[0..<rg_count (rv_sent r4 sp)]" sp] by auto
    let ?r6 = "r5\<lparr>rv_sent := (rv_sent r5)(sp := ringTrim (retainCutoff r5 now) (rv_sent r5 sp))\<rparr>"
    have r6: "recov_inv ?r6" by (rule recov_inv_trim [OF r5])
    then have "recov_inv (if peerValidated ?r6 then ?r6\<lparr>rv_ptoCount := 0\<rparr> else ?r6)"
      by (simp add: recov_inv_defs)
    then show ?thesis
      using f Some it w r1 d4 g c1 c4
      by (simp add: quicRecovOnAck_def Let_def r_def [symmetric] r2_def [symmetric] r3_def [symmetric] ex_bool_eq)
  qed
next
  case False
  then have "\<exists>ok. quicRecovOnAck h sp f d now (r0, c0) = Some (ok, r0, c0)"
    by (cases f) (auto simp: quicRecovOnAck_def)
  then show ?thesis using inv h by blast
qed

end

end
