(* ===== verification/QuicRecovTrace.thy ===== *)
theory QuicRecovTrace
  imports QuicRecovInv
begin

text \<open>
  What loss recovery reports: the packets of a connection as a partial map from packet numbers, what
  each loop of \<^verbatim>\<open>src/cxquic/recovery.c\<close> does to that map, and the trace of the acknowledgements and
  losses the handlers are told about. The reachable states of a connection (\<open>recov_reach\<close>) are those
  that any interleaving of the operations leads to, with packet numbers handed out in order.
\<close>

section \<open>The packets by number\<close>

definition pkt_of :: "QuicRecovery \<Rightarrow> QuicPnSpaceId \<Rightarrow> nat \<Rightarrow> QuicSentPkt option" where
  "pkt_of r sp pn = ring_lookup (rv_sent r sp) pn"

definition fate_of :: "QuicRecovery \<Rightarrow> QuicPnSpaceId \<Rightarrow> nat \<Rightarrow> QuicSentFate option" where
  "fate_of r sp pn = map_option pkt_fate (pkt_of r sp pn)"

definition rings_ok :: "QuicRecovery \<Rightarrow> bool" where
  "rings_ok r \<longleftrightarrow> (\<forall>sp. ring_inv (rv_sent r sp))"

lemma rings_ok_recov_inv: "recov_inv r \<Longrightarrow> rings_ok r"
  by (simp add: recov_inv_def rings_inv_def rings_ok_def)

lemma ring_lookup_store:
  assumes "ring_inv ring" "i < rg_count ring"
  shows "ring_lookup (ringStore ring (ringSlot ring i) p) pn =
    (if pn = rg_basePn ring + i then Some p else ring_lookup ring pn)"
  using assms by (auto simp: ring_lookup_list ring_list_store nth_list_update simp del: nth_ring_list)

lemma pkt_of_at:
  "i < rg_count (rv_sent r sp) \<Longrightarrow>
   pkt_of r sp (rg_basePn (rv_sent r sp) + i) = Some (rg_pkts (rv_sent r sp) ! ringSlot (rv_sent r sp) i)"
  by (simp add: pkt_of_def ring_lookup_list)

lemma pkt_of_ringAt:
  "pkt_of r sp pn = map_option (\<lambda>k. rg_pkts (rv_sent r sp) ! k) (ringAt (rv_sent r sp) pn)"
  by (simp add: pkt_of_def ring_lookup_def)

lemma pkt_of_same: "rv_sent r1 = rv_sent r \<Longrightarrow> pkt_of r1 = pkt_of r" "rv_sent r1 = rv_sent r \<Longrightarrow> fate_of r1 = fate_of r"
  by (simp_all add: pkt_of_def fate_of_def fun_eq_iff)

definition pkt_upd ::
  "QuicRecovery \<Rightarrow> QuicPnSpaceId \<Rightarrow> nat \<Rightarrow> QuicSentPkt \<Rightarrow> QuicPnSpaceId \<Rightarrow> nat \<Rightarrow> QuicSentPkt option" where
  "pkt_upd r sp pn p s q = (if s = sp \<and> q = pn then Some p else pkt_of r s q)"

lemma pkt_of_resolve:
  assumes "rings_ok r" "ringAt (rv_sent r sp) pn = Some k"
  shows "pkt_of (resolvePkt f sp k r) s q =
      (if s = sp \<and> q = pn then map_option f (pkt_of r s q) else pkt_of r s q)"
    "rings_ok (resolvePkt f sp k r)"
proof -
  obtain i where i: "i < rg_count (rv_sent r sp)" "pn = rg_basePn (rv_sent r sp) + i" "k = ringSlot (rv_sent r sp) i"
    using assms(2) by (auto simp: ringAt_iff)
  have ri: "ring_inv (rv_sent r s)" for s using assms(1) by (simp add: rings_ok_def)
  have "ring_lookup (rv_sent r sp) pn = Some (rg_pkts (rv_sent r sp) ! k)"
    using assms(2) by (simp add: ring_lookup_def)
  then show "pkt_of (resolvePkt f sp k r) s q =
      (if s = sp \<and> q = pn then map_option f (pkt_of r s q) else pkt_of r s q)"
    by (simp add: pkt_of_def resolvePkt_fields ring_lookup_store [OF ri i(1), folded i(2,3)])
  show "rings_ok (resolvePkt f sp k r)" using ri by (simp add: rings_ok_def resolvePkt_fields)
qed


abbreviation live :: "QuicRecovery \<Rightarrow> QuicPnSpaceId \<Rightarrow> nat \<Rightarrow> bool" where
  "live r sp pn \<equiv> fate_of r sp pn = Some QUIC_SENT_LIVE"

section \<open>Traces of reports\<close>

datatype recov_event = Acked QuicPnSpaceId nat | Lost QuicPnSpaceId nat

primrec event_pkt :: "recov_event \<Rightarrow> QuicPnSpaceId \<times> nat" where
  "event_pkt (Acked sp pn) = (sp, pn)"
| "event_pkt (Lost sp pn) = (sp, pn)"

text \<open>Any handlers, watched: the context is theirs and the list of what they have been told.\<close>

definition watch ::
  "(QuicPnSpaceId \<Rightarrow> nat \<Rightarrow> recov_event) \<Rightarrow> (QuicPnSpaceId \<Rightarrow> nat \<Rightarrow> QuicRecovery \<Rightarrow> 'c \<Rightarrow> nat \<times> 'c) option
    \<Rightarrow> QuicPnSpaceId \<Rightarrow> nat \<Rightarrow> QuicRecovery \<Rightarrow> 'c \<times> recov_event list \<Rightarrow> nat \<times> 'c \<times> recov_event list" where
  "watch ev f sp pn r ct =
     (case (case f of None \<Rightarrow> (0, fst ct) | Some g \<Rightarrow> g sp pn r (fst ct)) of
        (md, c1) \<Rightarrow> (md, c1, snd ct @ [ev sp pn]))"

definition logged :: "'c QuicRecovHandlers \<Rightarrow> ('c \<times> recov_event list) QuicRecovHandlers" where
  "logged h = \<lparr>rh_acked = Some (watch Acked (rh_acked h)), rh_lost = Some (watch Lost (rh_lost h))\<rparr>"

lemma logged_trace:
  "snd (snd (notify (rh_acked (logged h)) sp pn (r, c))) = snd c @ [Acked sp pn]"
  "snd (snd (notify (rh_lost (logged h)) sp pn (r, c))) = snd c @ [Lost sp pn]"
  by (simp_all add: logged_def notify_def watch_def split: prod.split)

text \<open>
  A trace that tells the truth: nothing is reported twice, only packets that were sent are reported,
  and the fate a packet has in its ring is the one reported.
\<close>

definition trace_ok :: "(QuicPnSpaceId \<Rightarrow> nat) \<Rightarrow> QuicRecovery \<Rightarrow> recov_event list \<Rightarrow> bool" where
  "trace_ok nx r tr \<longleftrightarrow> distinct (map event_pkt tr)
     \<and> (\<forall>(sp, pn)\<in>event_pkt ` set tr. pn < nx sp)
     \<and> (\<forall>sp pn fate. fate_of r sp pn = Some fate \<longrightarrow> pn < nx sp
          \<and> (Acked sp pn \<in> set tr \<longleftrightarrow> fate = QUIC_SENT_ACKED) \<and> (Lost sp pn \<in> set tr \<longleftrightarrow> fate = QUIC_SENT_LOST))"

lemma trace_ok_sub:
  "trace_ok nx r tr \<Longrightarrow> (\<And>sp pn fate. fate_of r1 sp pn = Some fate \<Longrightarrow> fate_of r sp pn = Some fate) \<Longrightarrow> trace_ok nx r1 tr"
  by (simp add: trace_ok_def)

lemma event_pkt_iff: "event_pkt e = (sp, pn) \<longleftrightarrow> e = Acked sp pn \<or> e = Lost sp pn"
  by (cases e) auto

lemma trace_ok_report:
  assumes "trace_ok nx r tr" "live r sp pn"
    and "\<And>s q. fate_of r1 s q = (if s = sp \<and> q = pn then Some fate else fate_of r s q)"
    and "(ev, fate) \<in> {(Acked sp pn, QUIC_SENT_ACKED), (Lost sp pn, QUIC_SENT_LOST)}"
  shows "trace_ok nx r1 (tr @ [ev])"
proof -
  have new: "Acked sp pn \<notin> set tr" "Lost sp pn \<notin> set tr" "pn < nx sp"
    using assms(1,2) by (auto simp: trace_ok_def)
  then have "event_pkt ev \<notin> event_pkt ` set tr" "event_pkt ev = (sp, pn)"
    using assms(4) by (auto simp: event_pkt_iff dest: sym)
  then show ?thesis
    using assms new unfolding trace_ok_def by (auto split: if_splits)
qed


section \<open>What the loops do to the packets\<close>

lemma notify_frame [simp]:
  "rv_sent (fst (notify f sp pn (r, c))) = rv_sent r" "rv_rtt (fst (notify f sp pn (r, c))) = rv_rtt r"
  "rv_largestAcked (fst (notify f sp pn (r, c))) = rv_largestAcked r"
  by (auto simp: notify_def split: option.split prod.split)

definition same_space :: "QuicRecovery \<Rightarrow> QuicRecovery \<Rightarrow> bool" where
  "same_space r1 r \<longleftrightarrow> rv_rtt r1 = rv_rtt r \<and> rv_largestAcked r1 = rv_largestAcked r
     \<and> (\<forall>s. rg_basePn (rv_sent r1 s) = rg_basePn (rv_sent r s) \<and> rg_count (rv_sent r1 s) = rg_count (rv_sent r s))"

lemma same_space_refl [simp]: "same_space r r"
  by (simp add: same_space_def)

lemma same_space_trans: "same_space r2 r1 \<Longrightarrow> same_space r1 r \<Longrightarrow> same_space r2 r"
  by (simp add: same_space_def)

lemma same_space_resolve: "same_space (fst (notify f sp pn (resolvePkt g sp k r, c))) r"
  by (simp add: same_space_def resolvePkt_fields)

definition settled ::
  "(QuicSentPkt \<Rightarrow> QuicSentPkt) \<Rightarrow> QuicPnSpaceId \<Rightarrow> (nat \<Rightarrow> bool) \<Rightarrow> QuicRecovery \<Rightarrow> QuicRecovery \<Rightarrow> bool" where
  "settled f sp P r r1 \<longleftrightarrow> (\<forall>s q. pkt_of r1 s q =
     (if s = sp \<and> P q \<and> live r sp q then map_option f (pkt_of r s q) else pkt_of r s q))"

lemma settled_none: "(\<And>q. P q \<Longrightarrow> \<not> live r sp q) \<Longrightarrow> pkt_of r1 = pkt_of r \<Longrightarrow> settled f sp P r r1"
  by (auto simp: settled_def)

text \<open>One packet settled, then the rest of the loop.\<close>

lemma settled_step:
  assumes "\<And>s q. pkt_of r1 s q = (if s = sp \<and> q = pn then map_option f (pkt_of r s q) else pkt_of r s q)"
    and "\<And>p. pkt_fate (f p) \<noteq> QUIC_SENT_LIVE" and "live r sp pn" and "settled f sp P r1 r2"
  shows "settled f sp (\<lambda>q. q = pn \<or> P q) r r2"
proof -
  have dead: "\<not> live r1 sp pn" using assms(2) by (auto simp: fate_of_def assms(1))
  have same: "live r1 sp q = live r sp q" if "q \<noteq> pn" for q
    using that by (simp add: fate_of_def assms(1))
  show ?thesis unfolding settled_def
  proof (intro allI)
    fix s q
    have r2: "pkt_of r2 s q = (if s = sp \<and> P q \<and> live r1 sp q then map_option f (pkt_of r1 s q) else pkt_of r1 s q)"
      using assms(4) by (simp add: settled_def)
    show "pkt_of r2 s q =
        (if s = sp \<and> (q = pn \<or> P q) \<and> live r sp q then map_option f (pkt_of r s q) else pkt_of r s q)"
    proof (cases "q = pn")
      case True
      then show ?thesis using r2 dead assms(1) [of s q] assms(3) by (cases "s = sp") simp_all
    next
      case False
      then show ?thesis using r2 same [OF False] assms(1) [of s q] by auto
    qed
  qed
qed

text \<open>One report settles a packet and leaves the rest of the state to the loop.\<close>

lemma report_settles:
  assumes "rings_ok r" "ringAt (rv_sent r sp) pn = Some k" "notify g sp pn (r0, c) = (r2, c2)"
    and "rv_sent r0 = rv_sent (resolvePkt f sp k r)" "rv_rtt r0 = rv_rtt r" "rv_largestAcked r0 = rv_largestAcked r"
  shows "rings_ok r2" "same_space r2 r"
    "pkt_of r2 s q = (if s = sp \<and> q = pn then map_option f (pkt_of r s q) else pkt_of r s q)"
proof -
  have s2: "rv_sent r2 = rv_sent (resolvePkt f sp k r)" "rv_rtt r2 = rv_rtt r" "rv_largestAcked r2 = rv_largestAcked r"
    using notify_frame [of g sp pn r0 c] assms(3-6) by simp_all
  note res = pkt_of_resolve [OF assms(1,2), of f]
  show "rings_ok r2" using res(2) s2(1) by (simp add: rings_ok_def)
  show "same_space r2 r" using s2 by (simp add: same_space_def resolvePkt_fields)
  show "pkt_of r2 s q = (if s = sp \<and> q = pn then map_option f (pkt_of r s q) else pkt_of r s q)"
    using res(1) pkt_of_same(1) [OF s2(1)] by simp
qed

definition truthful :: "QuicRecovery \<times> 'c \<times> recov_event list \<Rightarrow> QuicRecovery \<times> 'c \<times> recov_event list \<Rightarrow> bool" where
  "truthful rc rc1 \<longleftrightarrow> set (snd (snd rc)) \<subseteq> set (snd (snd rc1))
     \<and> (\<forall>nx. trace_ok nx (fst rc) (snd (snd rc)) \<longrightarrow> trace_ok nx (fst rc1) (snd (snd rc1)))"

lemma truthful_refl [simp]: "truthful rc rc"
  by (simp add: truthful_def)

lemma truthful_trans: "truthful a b \<Longrightarrow> truthful b c \<Longrightarrow> truthful a c"
  by (auto simp: truthful_def)

lemma truthful_sub:
  "(\<And>sp pn fate. fate_of r1 sp pn = Some fate \<Longrightarrow> fate_of r sp pn = Some fate) \<Longrightarrow> snd c1 = snd c \<Longrightarrow>
   truthful (r, c) (r1, c1)"
  by (simp add: truthful_def trace_ok_sub)

lemma truthful_report:
  assumes "\<And>s q. pkt_of r2 s q = (if s = sp \<and> q = pn then map_option f (pkt_of r s q) else pkt_of r s q)"
    and "live r sp pn" "\<And>p. pkt_fate (f p) = fate" "snd c2 = snd c @ [ev]"
    and "(ev, fate) \<in> {(Acked sp pn, QUIC_SENT_ACKED), (Lost sp pn, QUIC_SENT_LOST)}"
  shows "truthful (r, c) (r2, c2)"
proof -
  have "fate_of r2 s q = (if s = sp \<and> q = pn then Some fate else fate_of r s q)" for s q
    using assms(2,3) by (auto simp: fate_of_def assms(1))
  from trace_ok_report [OF _ assms(2) this assms(5)] assms(4) show ?thesis
    by (auto simp: truthful_def)
qed

lemma ackPkts_settles:
  "rings_ok r \<Longrightarrow> ackPkts (logged h) sp largest pns ((r, c), any, sample) = ((r1, c1), any1, sample1) \<Longrightarrow>
   settled (\<lambda>p. markAcked p) sp (\<lambda>q. q \<in> set pns) r r1 \<and> rings_ok r1 \<and> same_space r1 r
   \<and> (any1 \<longleftrightarrow> any \<or> (\<exists>q\<in>set pns. live r sp q)) \<and> truthful (r, c) (r1, c1)"
proof (induction pns arbitrary: r c any sample)
  case Nil
  then show ?case by (auto simp: settled_def)
next
  case (Cons pn pns)
  show ?case
  proof (cases "live r sp pn")
    case False
    then have "ackPkts (logged h) sp largest pns ((r, c), any, sample) = ((r1, c1), any1, sample1)"
      using Cons.prems(2) by (auto simp: fate_of_def pkt_of_ringAt Let_def split: option.splits if_splits)
    with Cons.IH [OF Cons.prems(1)] False show ?thesis unfolding settled_def by auto
  next
    case True
    then obtain k where k: "ringAt (rv_sent r sp) pn = Some k"
      "pkt_fate (rg_pkts (rv_sent r sp) ! k) = QUIC_SENT_LIVE"
      by (auto simp: fate_of_def pkt_of_ringAt)
    let ?n = "notify (rh_acked (logged h)) sp pn (resolvePkt (\<lambda>p. markAcked p) sp k r, c)"
    obtain r2 c2 where n: "?n = (r2, c2)" by (metis surj_pair)
    note rep = report_settles [OF Cons.prems(1) k(1) n refl]
    have ok2: "rings_ok r2" and s2: "same_space r2 r"
      and p2: "pkt_of r2 s q = (if s = sp \<and> q = pn then map_option (\<lambda>p. markAcked p) (pkt_of r s q) else pkt_of r s q)" for s q
      using rep by (simp_all add: resolvePkt_fields)
    have t: "truthful (r, c) (r2, c2)"
      by (rule truthful_report [OF p2 True, where fate = QUIC_SENT_ACKED and ev = "Acked sp pn"])
        (use logged_trace(1) [of h sp pn "resolvePkt (\<lambda>p. markAcked p) sp k r" c] n in simp_all)
    have "\<exists>sample2. ackPkts (logged h) sp largest pns ((r2, c2), True, sample2) = ((r1, c1), any1, sample1)"
      using Cons.prems(2) k n by (auto simp: Let_def)
    then have ih: "settled (\<lambda>p. markAcked p) sp (\<lambda>q. q \<in> set pns) r2 r1" "rings_ok r1" "same_space r1 r2" "any1"
      "truthful (r2, c2) (r1, c1)"
      using Cons.IH [OF ok2] by blast+
    have "settled (\<lambda>p. markAcked p) sp (\<lambda>q. q = pn \<or> q \<in> set pns) r r1"
      by (rule settled_step [OF p2 _ True ih(1)]) simp
    then show ?thesis using ih True same_space_trans [OF ih(3) s2] truthful_trans [OF t ih(5)] by auto
  qed
qed


definition lossy :: "QuicRecovery \<Rightarrow> QuicPnSpaceId \<Rightarrow> int \<Rightarrow> nat \<Rightarrow> nat \<Rightarrow> bool" where
  "lossy r sp before largest q \<longleftrightarrow> q \<le> largest
     \<and> (\<exists>p. pkt_of r sp q = Some p \<and> (pkt_sent p \<le> before \<or> q + QUIC_PACKET_THRESHOLD \<le> largest))"

lemma lossy_cong:
  "map_option pkt_sent (pkt_of r1 sp q) = map_option pkt_sent (pkt_of r sp q) \<Longrightarrow>
   lossy r1 sp before largest q = lossy r sp before largest q"
  by (cases "pkt_of r1 sp q"; cases "pkt_of r sp q") (auto simp: lossy_def)

lemma settled_cong: "settled f sp P r r1 \<Longrightarrow> (\<And>q. live r sp q \<Longrightarrow> P q = Q q) \<Longrightarrow> settled f sp Q r r1"
  unfolding settled_def by (metis (full_types))

lemma detectLossLoop_settles:
  "rings_ok r \<Longrightarrow> n = rg_count (rv_sent r sp) \<Longrightarrow> base = rg_basePn (rv_sent r sp) \<Longrightarrow>
   detectLossLoop (logged h) sp largest delay before [j..<n] ((r, c), ll, lif) = ((r1, c1), ll1, lif1) \<Longrightarrow>
   settled (\<lambda>p. markLost p) sp (\<lambda>q. base + j \<le> q \<and> lossy r sp before largest q) r r1 \<and> rings_ok r1 \<and> same_space r1 r
   \<and> truthful (r, c) (r1, c1)"
proof (induction "n - j" arbitrary: j r c ll lif)
  case 0
  have "\<not> live r sp q" if "base + j \<le> q" for q
    using that 0 by (auto simp: fate_of_def pkt_of_def ring_lookup_list)
  moreover have "r1 = r" "c1 = c" using 0 by simp_all
  ultimately show ?case using 0 by (auto intro: settled_none)
next
  case (Suc d)
  let ?ring = "rv_sent r sp" and ?pn = "base + j"
  let ?k = "ringSlot ?ring j"
  let ?p = "rg_pkts ?ring ! ?k"
  have j: "j < rg_count ?ring" and upt: "[j..<n] = j # [Suc j..<n]" and d: "d = n - Suc j"
    using Suc.hyps(2) Suc.prems(2) by (auto simp: upt_conv_Cons)
  have at: "ringAt ?ring ?pn = Some ?k" using j Suc.prems(3) by (auto simp: ringAt_iff)
  have p: "pkt_of r sp ?pn = Some ?p" using at by (simp add: pkt_of_ringAt)
  note go = Suc.prems(4) [unfolded upt detectLossLoop.simps Let_def, folded Suc.prems(3)]
  have next_pn: "base + j \<le> q \<longleftrightarrow> q = ?pn \<or> base + Suc j \<le> q" for q by linarith
  consider (stop) "?pn > largest" | (keep) "?pn \<le> largest" "\<not> (live r sp ?pn \<and> lossy r sp before largest ?pn)"
    | (lost) "?pn \<le> largest" "live r sp ?pn" "lossy r sp before largest ?pn"
    by linarith
  then show ?case
  proof cases
    case stop
    then have "r1 = r" "\<not> lossy r sp before largest q" if "?pn \<le> q" for q
      using go that by (auto simp: lossy_def)
    with stop go show ?thesis using Suc.prems(1) by (auto intro!: settled_none)
  next
    case keep
    obtain r2 where r2: "rv_sent r2 = rv_sent r" "rv_rtt r2 = rv_rtt r" "rv_largestAcked r2 = rv_largestAcked r"
      "detectLossLoop (logged h) sp largest delay before [Suc j..<n] ((r2, c), ll, lif) = ((r1, c1), ll1, lif1)"
    proof (cases "live r sp ?pn")
      case False
      then show ?thesis using go keep(1) p that [of r] by (simp add: fate_of_def)
    next
      case True
      let ?t = "pkt_sent ?p + delay"
      let ?r2 = "if rv_lossTime r sp = 0 \<or> ?t < rv_lossTime r sp then r\<lparr>rv_lossTime := (rv_lossTime r)(sp := ?t)\<rparr> else r"
      have "pkt_sent ?p > before \<and> largest < ?pn + QUIC_PACKET_THRESHOLD" "pkt_fate ?p = QUIC_SENT_LIVE"
        using keep True p by (auto simp: lossy_def fate_of_def)
      then show ?thesis using go keep(1) that [of ?r2] by simp
    qed
    note same = pkt_of_same [OF r2(1)]
    have ok2: "rings_ok r2" using Suc.prems(1) r2(1) by (simp add: rings_ok_def)
    have ih: "settled (\<lambda>p. markLost p) sp (\<lambda>q. base + Suc j \<le> q \<and> lossy r2 sp before largest q) r2 r1"
      "rings_ok r1" "same_space r1 r2" "truthful (r2, c) (r1, c1)"
      using Suc.hyps(1) [OF d ok2 _ _ r2(4)] Suc.prems(2,3) r2(1) by simp_all
    have "lossy r2 sp before largest q = lossy r sp before largest q" for q
      by (rule lossy_cong) (simp add: same)
    then have "settled (\<lambda>p. markLost p) sp (\<lambda>q. base + Suc j \<le> q \<and> lossy r sp before largest q) r r1"
      using ih(1) by (simp add: settled_def same)
    then have "settled (\<lambda>p. markLost p) sp (\<lambda>q. base + j \<le> q \<and> lossy r sp before largest q) r r1"
      by (rule settled_cong) (use keep(2) next_pn in auto)
    moreover have "same_space r1 r" using ih(3) r2(1-3) by (simp add: same_space_def)
    moreover have "truthful (r, c) (r2, c)" by (rule truthful_sub) (simp_all add: same)
    ultimately show ?thesis using ih(2) truthful_trans [OF _ ih(4)] by blast
  next
    case lost
    let ?r0 = "(resolvePkt (\<lambda>p. markLost p) sp ?k r)\<lparr>rv_nlost := rv_nlost r + 1\<rparr>"
    obtain r2 c2 where n: "notify (rh_lost (logged h)) sp ?pn (?r0, c) = (r2, c2)" by (metis surj_pair)
    have r0: "rv_sent ?r0 = rv_sent (resolvePkt (\<lambda>p. markLost p) sp ?k r)" "rv_rtt ?r0 = rv_rtt r"
      "rv_largestAcked ?r0 = rv_largestAcked r" by (simp_all add: resolvePkt_fields)
    note rep = report_settles [OF Suc.prems(1) at n r0]
    have c: "(?pn > largest) = False" "(pkt_fate ?p \<noteq> QUIC_SENT_LIVE) = False"
      "(pkt_sent ?p > before \<and> largest < ?pn + QUIC_PACKET_THRESHOLD) = False"
      using lost p by (auto simp: lossy_def fate_of_def)
    have l2: "\<exists>ll2 lif2. detectLossLoop (logged h) sp largest delay before [Suc j..<n] ((r2, c2), ll2, lif2) = ((r1, c1), ll1, lif1)"
      using go [unfolded c if_False notifyLost_def n] by blast
    have sp2: "n = rg_count (rv_sent r2 sp)" "base = rg_basePn (rv_sent r2 sp)"
      using rep(2) Suc.prems(2,3) by (simp_all add: same_space_def)
    have ih: "settled (\<lambda>p. markLost p) sp (\<lambda>q. base + Suc j \<le> q \<and> lossy r2 sp before largest q) r2 r1"
      "rings_ok r1" "same_space r1 r2" "truthful (r2, c2) (r1, c1)"
      using Suc.hyps(1) [OF d rep(1) sp2] l2 by blast+
    have ly: "lossy r2 sp before largest q = lossy r sp before largest q" for q
      by (rule lossy_cong) (simp add: rep(3) option.map_comp comp_def)
    have "settled (\<lambda>p. markLost p) sp (\<lambda>q. q = ?pn \<or> base + Suc j \<le> q \<and> lossy r2 sp before largest q) r r1"
      by (rule settled_step [OF rep(3) _ lost(2) ih(1)]) simp
    then have "settled (\<lambda>p. markLost p) sp (\<lambda>q. base + j \<le> q \<and> lossy r sp before largest q) r r1"
      by (rule settled_cong) (use lost(3) next_pn ly in auto)
    moreover have "truthful (r, c) (r2, c2)"
      by (rule truthful_report [OF rep(3) lost(2), where fate = QUIC_SENT_LOST and ev = "Lost sp ?pn"])
        (use logged_trace(2) [of h sp ?pn ?r0 c] n in simp_all)
    ultimately show ?thesis
      using ih(2) same_space_trans [OF ih(3) rep(2)] truthful_trans [OF _ ih(4)] by blast
  qed
qed


lemma settled_nothing: "settled f sp (\<lambda>_. False) r r"
  by (simp add: settled_def)

lemma settled_sent:
  assumes "settled f sp P r r1" "\<And>p. pkt_sent (f p) = pkt_sent p"
  shows "map_option pkt_sent (pkt_of r1 s q) = map_option pkt_sent (pkt_of r s q)"
  using assms by (auto simp: settled_def option.map_comp comp_def)

lemma settled_fate:
  assumes "settled f sp P r r1" "\<And>p. pkt_fate (f p) = fate"
  shows "fate_of r1 s q = (if s = sp \<and> P q \<and> live r sp q then Some fate else fate_of r s q)"
  using assms(1) by (auto simp: settled_def fate_of_def assms(2))

lemma settled_again:
  assumes "settled f sp P r r1" "settled f sp Q r1 r2" "\<And>p. pkt_fate (f p) = fate" "fate \<noteq> QUIC_SENT_LIVE"
  shows "settled f sp (\<lambda>q. P q \<or> Q q) r r2"
proof -
  have "live r1 sp q \<longleftrightarrow> live r sp q \<and> \<not> P q" for q
    using settled_fate [OF assms(1,3), of sp q] assms(4) by auto
  then show ?thesis using assms(1,2) by (auto simp: settled_def)
qed

lemma ackRange_settles:
  assumes "rings_ok r" "ackRange (logged h) sp largest ((r, c), any, sample) rg = ((r1, c1), any1, sample1)"
    and "ar_smallest rg \<le> ar_largest rg"
  shows "settled (\<lambda>p. markAcked p) sp (\<lambda>q. q \<in> range_pns rg) r r1 \<and> rings_ok r1 \<and> same_space r1 r
   \<and> (any1 \<longleftrightarrow> any \<or> (\<exists>q\<in>range_pns rg. live r sp q)) \<and> truthful (r, c) (r1, c1)"
proof -
  let ?ring = "rv_sent r sp"
  have inside: "rg_basePn ?ring \<le> q \<and> q < rg_basePn ?ring + rg_count ?ring" if "live r sp q" for q
    using that by (auto simp: fate_of_def pkt_of_def ring_lookup_list split: if_splits)
  show ?thesis
  proof (cases "rg_count ?ring = 0")
    case True
    then have "\<not> live r sp q" for q using inside [of q] by auto
    moreover have "r1 = r" "c1 = c" "any1 = any" using assms(2) True by (simp_all add: ackRange_def)
    ultimately show ?thesis using assms(1) by (auto intro: settled_none)
  next
    case False
    let ?pns = "[max (unat (ar_smallest rg)) (rg_basePn ?ring)..<
      Suc (min (unat (ar_largest rg)) (rg_basePn ?ring + rg_count ?ring - 1))]"
    have "ackPkts (logged h) sp largest ?pns ((r, c), any, sample) = ((r1, c1), any1, sample1)"
      using assms(2) False by (simp add: ackRange_def Let_def del: upt_Suc)
    note a = ackPkts_settles [OF assms(1) this]
    have eq: "q \<in> set ?pns \<longleftrightarrow> q \<in> range_pns rg" if "live r sp q" for q
      using inside [OF that] False by (auto simp: range_pns_def)
    have "settled (\<lambda>p. markAcked p) sp (\<lambda>q. q \<in> range_pns rg) r r1"
      using a eq by (blast intro: settled_cong)
    then show ?thesis using a eq by blast
  qed
qed

lemma ackRanges_settles:
  "rings_ok r \<Longrightarrow> \<forall>rg\<in>set rgs. ar_smallest rg \<le> ar_largest rg \<Longrightarrow>
   foldl (ackRange (logged h) sp largest) ((r, c), any, sample) rgs = ((r1, c1), any1, sample1) \<Longrightarrow>
   settled (\<lambda>p. markAcked p) sp (\<lambda>q. q \<in> ranges_pns rgs) r r1 \<and> rings_ok r1 \<and> same_space r1 r
   \<and> (any1 \<longleftrightarrow> any \<or> (\<exists>q\<in>ranges_pns rgs. live r sp q)) \<and> truthful (r, c) (r1, c1)"
proof (induction rgs arbitrary: r c any sample)
  case Nil
  then show ?case by (simp add: settled_nothing ranges_pns_def)
next
  case (Cons rg rgs)
  obtain r2 c2 any2 sample2 where a: "ackRange (logged h) sp largest ((r, c), any, sample) rg = ((r2, c2), any2, sample2)"
    by (metis surj_pair)
  have rg: "ar_smallest rg \<le> ar_largest rg" using Cons.prems(2) by simp
  note one = ackRange_settles [OF Cons.prems(1) a rg]
  have ih: "settled (\<lambda>p. markAcked p) sp (\<lambda>q. q \<in> ranges_pns rgs) r2 r1" "rings_ok r1" "same_space r1 r2"
    "any1 \<longleftrightarrow> any2 \<or> (\<exists>q\<in>ranges_pns rgs. live r2 sp q)" "truthful (r2, c2) (r1, c1)"
    using Cons.IH [of r2 c2 any2 sample2] one Cons.prems(2,3) a by simp_all
  have l2: "live r2 sp q \<longleftrightarrow> live r sp q \<and> q \<notin> range_pns rg" for q
    using settled_fate [OF conjunct1 [OF one], of QUIC_SENT_ACKED sp q] by auto
  have "settled (\<lambda>p. markAcked p) sp (\<lambda>q. q \<in> range_pns rg \<or> q \<in> ranges_pns rgs) r r1"
    using one ih(1) by (intro settled_again [where fate = QUIC_SENT_ACKED]) auto
  moreover have "ranges_pns (rg # rgs) = range_pns rg \<union> ranges_pns rgs" by (simp add: ranges_pns_def)
  moreover have "any1 \<longleftrightarrow> any \<or> (\<exists>q\<in>range_pns rg \<union> ranges_pns rgs. live r sp q)"
    using one ih(4) l2 by blast
  moreover have "same_space r1 r" using one same_space_trans [OF ih(3)] by blast
  moreover have "truthful (r, c) (r1, c1)" using one truthful_trans [OF _ ih(5)] by blast
  ultimately show ?case using ih(2) by (simp only: Un_iff)
qed

text \<open>Loss detection as a whole, and the parts of an acknowledgement that follow it.\<close>

lemma detectLoss_settles:
  assumes "rings_ok r" "detectLoss (logged h) sp now (r, c) = (r1, c1)" "rv_largestAcked r sp = Some largest"
  shows "settled (\<lambda>p. markLost p) sp (lossy r sp (now - lossDelay r) largest) r r1 \<and> rings_ok r1 \<and> same_space r1 r
    \<and> truthful (r, c) (r1, c1)"
proof -
  let ?r = "r\<lparr>rv_lossTime := (rv_lossTime r)(sp := 0)\<rparr>"
  have s: "rv_sent ?r = rv_sent r" "lossDelay ?r = lossDelay r" by (simp_all add: lossDelay_def)
  note same = pkt_of_same [OF s(1)]
  have ok: "rings_ok ?r" using assms(1) by (simp add: rings_ok_def)
  obtain r2 c2 ll lif where l: "detectLossLoop (logged h) sp largest (lossDelay r) (now - lossDelay r)
      [0..<rg_count (rv_sent ?r sp)] ((?r, c), 0, False) = ((r2, c2), ll, lif)"
    by (metis surj_pair)
  note loop = detectLossLoop_settles [OF ok refl refl l]
  have r1: "rv_sent r1 = rv_sent r2" "rv_rtt r1 = rv_rtt r2" "rv_largestAcked r1 = rv_largestAcked r2" "c1 = c2"
    using assms(2,3) l s(2) by (auto simp: detectLoss_def Let_def split: if_splits)
  note same1 = pkt_of_same [OF r1(1)]
  have inside: "rg_basePn (rv_sent r sp) \<le> q" if "live r sp q" for q
    using that by (auto simp: fate_of_def pkt_of_def ring_lookup_list split: if_splits)
  have "lossy ?r sp b n q = lossy r sp b n q" for b n q by (rule lossy_cong) (simp add: same)
  then have "settled (\<lambda>p. markLost p) sp
      (\<lambda>q. rg_basePn (rv_sent r sp) \<le> q \<and> lossy r sp (now - lossDelay r) largest q) r r1"
    using loop by (simp add: settled_def same same1)
  then have "settled (\<lambda>p. markLost p) sp (lossy r sp (now - lossDelay r) largest) r r1"
    by (rule settled_cong) (use inside in blast)
  moreover have "rings_ok r1" "same_space r1 r" using loop r1 by (simp_all add: rings_ok_def same_space_def)
  moreover have "truthful (r, c) (?r, c)" "truthful (r2, c2) (r1, c1)"
    by (rule truthful_sub; simp only: same same1 r1(4))+
  then have "truthful (r, c) (r1, c1)" using loop by (blast intro: truthful_trans)
  ultimately show ?thesis by blast
qed

lemma ccOnAcked_frame:
  "ccOnAcked p r = Some r1 \<Longrightarrow> rv_sent r1 = rv_sent r \<and> rv_rtt r1 = rv_rtt r \<and> rv_largestAcked r1 = rv_largestAcked r"
proof (cases "rv_inRecovery r \<and> pkt_sent p \<le> rv_recoveryStart r \<or> rv_appLimited r")
  case True
  assume "ccOnAcked p r = Some r1"
  then have "r1 = r" using True by (simp add: ccOnAcked_def split: if_splits)
  then show ?thesis by simp
next
  case False
  assume "ccOnAcked p r = Some r1"
  then obtain a w where "r1 = r\<lparr>rv_ccAcked := a, rv_window := w\<rparr>"
    using False unfolding ccOnAcked_def map_option_case by (auto split: option.splits if_splits)
  then show ?thesis by simp
qed

lemma growFresh_fates:
  "rings_ok r \<Longrightarrow> \<forall>i\<in>set is. i < rg_count (rv_sent r sp) \<Longrightarrow> growFresh sp is r = Some r1 \<Longrightarrow>
   fate_of r1 = fate_of r \<and> rings_ok r1 \<and> same_space r1 r"
proof (induction "is" arbitrary: r)
  case (Cons i "is")
  let ?k = "ringSlot (rv_sent r sp) i"
  let ?p = "rg_pkts (rv_sent r sp) ! ?k"
  let ?r1 = "r\<lparr>rv_sent := (rv_sent r)(sp := ringStore (rv_sent r sp) ?k (?p\<lparr>pkt_fresh := False\<rparr>))\<rparr>"
  have i: "i < rg_count (rv_sent r sp)" using Cons.prems(2) by simp
  have ri: "ring_inv (rv_sent r sp)" using Cons.prems(1) by (simp add: rings_ok_def)
  have ok: "rings_ok ?r1" "same_space ?r1 r" using Cons.prems(1) by (simp_all add: rings_ok_def same_space_def)
  have "fate_of ?r1 s q = fate_of r s q" for s q
    using pkt_of_at [OF i] by (auto simp: fate_of_def pkt_of_def ring_lookup_store [OF ri i])
  then have fates: "fate_of ?r1 = fate_of r" by blast
  obtain r2 where r2: "rv_sent r2 = rv_sent ?r1 \<or> rv_sent r2 = rv_sent r" "rv_rtt r2 = rv_rtt r"
    "rv_largestAcked r2 = rv_largestAcked r" "growFresh sp is r2 = Some r1"
  proof (cases "pkt_fresh ?p \<and> pkt_inFlight ?p")
    case True
    then obtain r3 where "ccOnAcked ?p ?r1 = Some r3" "growFresh sp is r3 = Some r1"
      using Cons.prems(3) by (auto simp: Let_def bind_eq_Some_conv)
    then show ?thesis using ccOnAcked_frame [of ?p ?r1 r3] that [of r3] by simp
  next
    case False
    then show ?thesis using Cons.prems(3) that [of ?r1] that [of r] by (auto simp: Let_def split: if_splits)
  qed
  have same2: "fate_of r2 = fate_of r" "rings_ok r2" "same_space r2 r"
    using r2 fates ok Cons.prems(1) pkt_of_same(2) [of r2 ?r1] pkt_of_same(2) [of r2 r]
    by (auto simp: rings_ok_def same_space_def)
  then have "\<forall>i\<in>set is. i < rg_count (rv_sent r2 sp)" using Cons.prems(2) by (simp add: same_space_def)
  from Cons.IH [OF same2(2) this r2(4)] same2(1,3) show ?case using same_space_trans by auto
qed simp

lemma trim_fates:
  fixes sp cutoff
  assumes "rings_ok r"
  defines "r1 \<equiv> r\<lparr>rv_sent := (rv_sent r)(sp := ringTrim cutoff (rv_sent r sp))\<rparr>"
  shows "fate_of r1 s q = Some fate \<Longrightarrow> fate_of r s q = Some fate" "live r s q \<Longrightarrow> live r1 s q" "rings_ok r1"
proof -
  let ?ps = "ring_list (rv_sent r sp)" and ?n = "trimmed cutoff (ring_list (rv_sent r sp))"
  have ri: "ring_inv (rv_sent r sp)" using assms(1) by (simp add: rings_ok_def)
  note trim = ringTrim_ok [OF ri, of cutoff]
  have cnt: "rg_count (ringTrim cutoff (rv_sent r sp)) = rg_count (rv_sent r sp) - ?n"
    using arg_cong [OF trim(2), of length] by simp
  have n: "?n \<le> rg_count (rv_sent r sp)" using trimmed_le [of cutoff ?ps] by simp
  have lk: "ring_lookup (ringTrim cutoff (rv_sent r sp)) q =
      (if q < rg_basePn (rv_sent r sp) + ?n then None else ring_lookup (rv_sent r sp) q)" for q
    using n by (auto simp: ring_lookup_list trim cnt nth_drop simp del: nth_ring_list)
  show "fate_of r1 s q = Some fate \<Longrightarrow> fate_of r s q = Some fate"
    by (auto simp: r1_def fate_of_def pkt_of_def lk split: if_splits)
  have "\<not> (q < rg_basePn (rv_sent r sp) + ?n)" if "live r sp q" for q
    using that trimmed_resolved [of "q - rg_basePn (rv_sent r sp)" cutoff ?ps]
    by (auto simp: fate_of_def pkt_of_def ring_lookup_list less_diff_conv2 simp del: nth_ring_list split: if_splits)
  then show "live r s q \<Longrightarrow> live r1 s q"
    by (auto simp: r1_def fate_of_def pkt_of_def lk split: if_splits)
  show "rings_ok r1" using assms(1) trim(1) by (simp add: rings_ok_def r1_def)
qed


section \<open>What the operations report\<close>

lemma truthful_same: "rv_sent r1 = rv_sent r \<Longrightarrow> truthful (r, c) (r1, c)"
  by (rule truthful_sub) (simp_all only: pkt_of_same(2) [of r1 r])

lemma rings_ok_same: "rv_sent r1 = rv_sent r \<Longrightarrow> rings_ok r1 = rings_ok r"
  by (simp add: rings_ok_def)

lemma recovSetTimer_frame [simp]:
  "rv_sent (recovSetTimer now r) = rv_sent r" "rv_rtt (recovSetTimer now r) = rv_rtt r"
  "rv_largestAcked (recovSetTimer now r) = rv_largestAcked r"
  by (simp_all add: recovSetTimer_def Let_def)

lemma rttUpdate_sent: "rv_sent (case x of None \<Rightarrow> r | Some t \<Rightarrow> rttUpdate (now - t) d now r) = rv_sent r"
  "rv_largestAcked (case x of None \<Rightarrow> r | Some t \<Rightarrow> rttUpdate (now - t) d now r) = rv_largestAcked r"
  by (simp_all split: option.split)

lemma lossDelay_rtt: "rv_rtt r1 = rv_rtt r \<Longrightarrow> lossDelay r1 = lossDelay r"
  by (simp add: lossDelay_def)

text \<open>The end of an acknowledgement that acknowledged something: losses, growth, trimming, the timer.\<close>

definition ackFinish ::
  "'c QuicRecovHandlers \<Rightarrow> QuicPnSpaceId \<Rightarrow> int \<Rightarrow> QuicRecovery \<times> 'c \<Rightarrow> (bool \<times> QuicRecovery \<times> 'c) option" where
  "ackFinish h sp now rc =
     (case detectLoss h sp now rc of
        (r4, c2) \<Rightarrow>
          map_option (\<lambda>r5.
            let r6 = r5\<lparr>rv_sent := (rv_sent r5)(sp := ringTrim (retainCutoff r5 now) (rv_sent r5 sp))\<rparr>;
                r7 = (if peerValidated r6 then r6\<lparr>rv_ptoCount := 0\<rparr> else r6)
            in (True, recovSetTimer now r7, c2))
          (growFresh sp [0..<rg_count (rv_sent r4 sp)] r4))"

lemma ackFinish_settles:
  assumes "rings_ok r3" "ackFinish (logged h) sp now (r3, c) = Some (ok, r1, c1)" "rv_largestAcked r3 sp = Some largest"
  shows "rings_ok r1" "truthful (r3, c) (r1, c1)" "rv_rtt r1 = rv_rtt r3" "rv_largestAcked r1 = rv_largestAcked r3"
    "trace_ok nx r3 (snd c) \<Longrightarrow> live r3 sp q \<Longrightarrow>
       (if lossy r3 sp (now - lossDelay r3) largest q then Lost sp q \<in> set (snd c1) else live r1 sp q)"
proof -
  obtain r4 c4 where d: "detectLoss (logged h) sp now (r3, c) = (r4, c4)" by (metis surj_pair)
  obtain r5 where g: "growFresh sp [0..<rg_count (rv_sent r4 sp)] r4 = Some r5"
    using assms(2) d by (auto simp: ackFinish_def)
  note loss = detectLoss_settles [OF assms(1) d assms(3)]
  have ok4: "rings_ok r4" using loss by blast
  have grow: "fate_of r5 = fate_of r4" "rings_ok r5" "same_space r5 r4" using growFresh_fates [OF ok4 _ g] by auto
  let ?r6 = "r5\<lparr>rv_sent := (rv_sent r5)(sp := ringTrim (retainCutoff r5 now) (rv_sent r5 sp))\<rparr>"
  note trim = trim_fates [OF grow(2), where sp = sp and cutoff = "retainCutoff r5 now"]
  have r1: "rv_sent r1 = rv_sent ?r6" "rv_rtt r1 = rv_rtt r5" "rv_largestAcked r1 = rv_largestAcked r5" "c1 = c4"
    using assms(2) d g by (auto simp: ackFinish_def Let_def split: if_splits)
  show "rings_ok r1" using trim(3) rings_ok_same [OF r1(1)] by simp
  show "rv_rtt r1 = rv_rtt r3" "rv_largestAcked r1 = rv_largestAcked r3"
    using r1(2,3) grow(3) loss by (simp_all add: same_space_def)
  have "truthful (r4, c4) (r1, c1)"
    by (rule truthful_sub) (use trim(1) pkt_of_same(2) [OF r1(1)] grow(1) r1(4) in auto)
  then show "truthful (r3, c) (r1, c1)" using loss truthful_trans by blast
  assume tr: "trace_ok nx r3 (snd c)" and live: "live r3 sp q"
  note f4 = settled_fate [OF conjunct1 [OF loss], of QUIC_SENT_LOST sp q]
  have tr4: "trace_ok nx r4 (snd c4)" using loss tr by (simp add: truthful_def)
  show "if lossy r3 sp (now - lossDelay r3) largest q then Lost sp q \<in> set (snd c1) else live r1 sp q"
  proof (cases "lossy r3 sp (now - lossDelay r3) largest q")
    case True
    then have "fate_of r4 sp q = Some QUIC_SENT_LOST" using f4 live by simp
    then have "Lost sp q \<in> set (snd c4)" using tr4 by (simp add: trace_ok_def)
    then show ?thesis using True r1(4) by simp
  next
    case False
    then have "live r5 sp q" using f4 live grow(1) by simp
    then show ?thesis using False trim(2) pkt_of_same(2) [OF r1(1)] by simp
  qed
qed

text \<open>
  What becomes of a packet that was waiting when the acknowledgement arrived: reported acknowledged
  when a range names it; reported lost when it is far enough behind, in number or in time, and the
  frame acknowledged something; still waiting otherwise.
\<close>

definition ack_verdict ::
  "QuicPnSpaceId \<Rightarrow> int \<Rightarrow> nat set \<Rightarrow> QuicRecovery \<Rightarrow> QuicRecovery \<Rightarrow> recov_event list \<Rightarrow> nat \<Rightarrow> bool" where
  "ack_verdict sp now acked r r1 tr pn \<longleftrightarrow>
     (if pn \<in> acked then Acked sp pn \<in> set tr
      else if (\<exists>q\<in>acked. live r sp q) \<and> lossy r sp (now - lossDelay r1) (the (rv_largestAcked r1 sp)) pn
      then Lost sp pn \<in> set tr
      else live r1 sp pn)"

lemma ack_ranges_wf:
  assumes "quicAckIterInit f = Some it" "ack_ranges it = (rs, it1)"
  shows "\<forall>rg\<in>set rs. ar_smallest rg \<le> ar_largest rg"
proof -
  have "ranges_desc xs \<Longrightarrow> \<forall>rg\<in>set xs. ar_smallest rg \<le> ar_largest rg" for xs
    by (induction xs rule: ranges_desc.induct) auto
  moreover have "ranges_desc rs" using quicAckIterInit_ranges(1) [OF assms(1)] assms(2) by simp
  ultimately show ?thesis by blast
qed


lemma quicRecovOnAck_settles:
  assumes ok0: "rings_ok r0" and ack: "quicRecovOnAck (logged h) sp f d now (r0, c0) = Some (ok, r1, c1)"
  shows "rings_ok r1 \<and> truthful (r0, c0) (r1, c1)
    \<and> (\<forall>it rs it1 nx pn. quicAckIterInit f = Some it \<longrightarrow> ack_ranges it = (rs, it1) \<longrightarrow> ok \<longrightarrow> \<not> rv_discarded r0 sp
         \<longrightarrow> trace_ok nx r0 (snd c0) \<longrightarrow> live r0 sp pn \<longrightarrow> ack_verdict sp now (ranges_pns rs) r0 r1 (snd c1) pn)"
proof (cases "\<exists>l a b e g k. f = FAck l a b e g k \<and> \<not> rv_discarded r0 sp")
  case False
  then have "r1 = r0" "c1 = c0" "quicAckIterInit f = None \<or> rv_discarded r0 sp"
    using ack by (cases f; auto simp: quicRecovOnAck_def quicAckIterInit_def)+
  then show ?thesis using ok0 by auto
next
  case True
  then obtain l a b e g k where f: "f = FAck l a b e g k" "\<not> rv_discarded r0 sp" by blast
  define r where "r = (if rv_largestAcked r0 sp = None \<or> unat l > the (rv_largestAcked r0 sp)
    then r0\<lparr>rv_largestAcked := (rv_largestAcked r0)(sp := Some (unat l))\<rparr> else r0)"
  have rs: "rv_sent r = rv_sent r0" by (simp add: r_def)
  have "rv_largestAcked r sp \<noteq> None" by (simp add: r_def)
  then obtain largest where lg: "rv_largestAcked r sp = Some largest" by blast
  note same = pkt_of_same [OF rs]
  have ok: "rings_ok r" and t0: "truthful (r0, c) (r, c)" for c
    using ok0 rings_ok_same [OF rs] truthful_same [OF rs] by simp_all
  show ?thesis
  proof (cases "quicAckIterInit f")
    case None
    then have "r1 = r" "c1 = c0" using ack f by (simp_all add: quicRecovOnAck_def Let_def r_def)
    then show ?thesis using ok t0 None by simp
  next
    case (Some it)
    obtain ranges it1 where it: "ack_ranges it = (ranges, it1)" by (metis surj_pair)
    obtain ra ca any sample where w:
      "foldl (ackRange (logged h) sp (unat l)) ((r, c0), False, None) ranges = ((ra, ca), any, sample)"
      by (metis surj_pair)
    have walk: "settled (\<lambda>p. markAcked p) sp (\<lambda>q. q \<in> ranges_pns ranges) r ra" "rings_ok ra" "same_space ra r"
      "any \<longleftrightarrow> (\<exists>q\<in>ranges_pns ranges. live r sp q)" "truthful (r, c0) (ra, ca)"
      using ackRanges_settles [OF ok ack_ranges_wf [OF Some it] w] by simp_all
    have t1: "truthful (r0, c0) (ra, ca)" using truthful_trans [OF t0 walk(5)] .
    note fa = settled_fate [OF walk(1), of QUIC_SENT_ACKED sp]
    have acked: "Acked sp pn \<in> set (snd ca)"
      if "trace_ok nx r0 (snd c0)" "live r0 sp pn" "pn \<in> ranges_pns ranges" for nx pn
    proof -
      have "trace_ok nx ra (snd ca)" using t1 that(1) by (simp add: truthful_def)
      moreover have "fate_of ra sp pn = Some QUIC_SENT_ACKED" using fa that(2,3) by (simp add: same)
      ultimately show ?thesis by (simp add: trace_ok_def)
    qed
    have alive: "live ra sp pn" if "live r0 sp pn" "pn \<notin> ranges_pns ranges" for pn
      using fa that by (simp add: same)
    define r2 where "r2 = (case sample of None \<Rightarrow> ra | Some sent \<Rightarrow> rttUpdate (now - sent) d now ra)"
    define r3 where "r3 = (if sp = QUIC_PNS_HANDSHAKE then r2\<lparr>rv_peerValidated := True\<rparr> else r2)"
    have step: "quicRecovOnAck (logged h) sp f d now (r0, c0) =
        (if it_bad it1 then Some (False, ra, ca) else if \<not> any then Some (True, recovSetTimer now ra, ca)
         else ackFinish (logged h) sp now (r3, ca))"
      using f Some it w by (simp add: quicRecovOnAck_def Let_def r_def [symmetric] r2_def [symmetric]
          r3_def [symmetric] ackFinish_def)
    show ?thesis
    proof (cases "it_bad it1 \<or> \<not> any")
      case True
      have r1: "rv_sent r1 = rv_sent ra" "c1 = ca" "ok \<longrightarrow> \<not> any" using True ack step by (auto split: if_splits)
      have "rings_ok r1" "truthful (r0, c0) (r1, c1)"
        using rings_ok_same [OF r1(1)] walk(2) truthful_trans [OF t1 truthful_same [OF r1(1)]] r1(2) by simp_all
      moreover have "ack_verdict sp now (ranges_pns ranges) r0 r1 (snd c1) pn"
        if "ok" "trace_ok nx r0 (snd c0)" "live r0 sp pn" for nx pn
        using acked [OF that(2,3)] alive [OF that(3)] r1(2,3) walk(4) that(1) pkt_of_same(2) [OF r1(1)]
        by (auto simp: ack_verdict_def same)
      ultimately show ?thesis using Some it by auto
    next
      case False
      then have fin: "ackFinish (logged h) sp now (r3, ca) = Some (ok, r1, c1)" using ack step by simp
      have s3: "rv_sent r3 = rv_sent ra" "rv_largestAcked r3 = rv_largestAcked ra"
        by (simp_all add: r3_def r2_def rttUpdate_sent)
      note same3 = pkt_of_same [OF s3(1)]
      have l3: "rv_largestAcked r3 sp = Some largest" using s3(2) walk(3) lg by (simp add: same_space_def)
      have ok3: "rings_ok r3" using walk(2) rings_ok_same [OF s3(1)] by simp
      note f1 = ackFinish_settles [OF ok3 fin l3]
      have t3: "truthful (r0, c0) (r3, ca)" using truthful_trans [OF t1 truthful_same [OF s3(1)]] .
      have "ack_verdict sp now (ranges_pns ranges) r0 r1 (snd c1) pn"
        if tr: "trace_ok nx r0 (snd c0)" and lv: "live r0 sp pn" for nx pn
      proof (cases "pn \<in> ranges_pns ranges")
        case True
        then show ?thesis using acked [OF tr lv] f1(2) by (auto simp: ack_verdict_def truthful_def)
      next
        case no: False
        have "map_option pkt_sent (pkt_of r3 sp pn) = map_option pkt_sent (pkt_of r0 sp pn)"
          using settled_sent [OF walk(1), of sp pn] by (simp add: same same3)
        note ly = lossy_cong [OF this]
        have "trace_ok nx r3 (snd ca)" "live r3 sp pn" using t3 tr alive [OF lv no] by (simp_all add: truthful_def same3)
        from f1(5) [OF this] show ?thesis
          using no False walk(4) lossDelay_rtt [OF f1(3)] f1(4) l3
          by (auto simp: ack_verdict_def ly same)
      qed
      then show ?thesis using f1(1) truthful_trans [OF t3 f1(2)] Some it by auto
    qed
  qed
qed


lemma discardEarlyLoop_settles:
  "rings_ok r \<Longrightarrow> \<forall>i\<in>set is. i < rg_count (rv_sent r QUIC_PNS_APP) \<Longrightarrow>
   discardEarlyLoop (logged h) pnEnd is (r, c) = (r1, c1) \<Longrightarrow> rings_ok r1 \<and> truthful (r, c) (r1, c1)"
proof (induction "is" arbitrary: r c)
  case (Cons i "is")
  let ?ring = "rv_sent r QUIC_PNS_APP"
  let ?k = "ringSlot ?ring i" and ?pn = "rg_basePn ?ring + i"
  have at: "ringAt ?ring ?pn = Some ?k" using Cons.prems(2) by (auto simp: ringAt_iff)
  show ?case
  proof (cases "?pn < pnEnd \<and> live r QUIC_PNS_APP ?pn")
    case True
    then have fate: "pkt_fate (rg_pkts ?ring ! ?k) = QUIC_SENT_LIVE" using at by (simp add: fate_of_def pkt_of_ringAt)
    let ?r0 = "resolvePkt (\<lambda>p. markLost p) QUIC_PNS_APP ?k r"
    obtain r2 c2 where n: "notify (rh_lost (logged h)) QUIC_PNS_APP ?pn (?r0, c) = (r2, c2)" by (metis surj_pair)
    note rep = report_settles [OF Cons.prems(1) at n refl, unfolded resolvePkt_fields, OF refl refl]
    have "truthful (r, c) (r2, c2)"
      by (rule truthful_report [OF rep(3) conjunct2 [OF True], where fate = QUIC_SENT_LOST and ev = "Lost QUIC_PNS_APP ?pn"])
        (use logged_trace(2) [of h QUIC_PNS_APP ?pn ?r0 c] n in simp_all)
    moreover have "\<forall>i\<in>set is. i < rg_count (rv_sent r2 QUIC_PNS_APP)"
      using rep(2) Cons.prems(2) by (simp add: same_space_def)
    then have "rings_ok r1 \<and> truthful (r2, c2) (r1, c1)"
      using Cons.IH [OF rep(1)] Cons.prems(3) True fate n by (simp add: Let_def notifyLost_def)
    ultimately show ?thesis using truthful_trans by blast
  next
    case False
    then have "?pn \<ge> pnEnd \<or> pkt_fate (rg_pkts ?ring ! ?k) \<noteq> QUIC_SENT_LIVE"
      using at by (simp add: fate_of_def pkt_of_ringAt linorder_not_less)
    then show ?thesis using Cons by (auto simp: Let_def split: if_splits)
  qed
qed simp

text \<open>A new packet enters the map under its own number and nothing else changes.\<close>

lemma ringPush_lookup:
  assumes "ring_inv ring" "ringPush xa ring pn p = (ok, ring1)"
  shows "ring_lookup ring1 q = (if ok \<and> q = pn then Some p else ring_lookup ring q)"
proof -
  note rp = ringPush_ok [OF assms]
  have cnt: "rg_count ring1 = rg_count ring + (if ok then 1 else 0)"
    using arg_cong [OF rp(2), of length] by simp
  show ?thesis
    using rp(3,4) by (cases "rg_count ring = 0") (auto simp: ring_lookup_list cnt rp(2) nth_append simp del: nth_ring_list)
qed

lemma quicRecovOnSent_sent:
  "rv_sent (quicRecovOnSent xa sp pn sz e f now r) =
    (if rv_discarded r sp then rv_sent r
     else (rv_sent r)(sp := snd (ringPush xa (rv_sent r sp) pn (zeroPkt\<lparr>pkt_sent := now, pkt_size := int sz mod 2 ^ 32,
        pkt_fate := QUIC_SENT_LIVE, pkt_ackEliciting := e, pkt_inFlight := f\<rparr>))))"
  by (simp add: quicRecovOnSent_def Let_def split: prod.split)

lemma trace_ok_mono:
  assumes "trace_ok nx r tr" "\<And>sp. nx sp \<le> nx1 sp"
  shows "trace_ok nx1 r tr"
proof -
  have "n < nx1 sp" if "n < nx sp" for n sp using that assms(2) [of sp] by linarith
  then show ?thesis using assms(1) by (auto simp: trace_ok_def)
qed

lemma trace_ok_sent:
  assumes "rings_ok r" "trace_ok nx r tr"
  shows "rings_ok (quicRecovOnSent xa sp (nx sp) sz e f now r)"
    "trace_ok (nx(sp := Suc (nx sp))) (quicRecovOnSent xa sp (nx sp) sz e f now r) tr"
proof -
  let ?r1 = "quicRecovOnSent xa sp (nx sp) sz e f now r"
  define p where "p = zeroPkt\<lparr>pkt_sent := now, pkt_size := int sz mod 2 ^ 32,
        pkt_fate := QUIC_SENT_LIVE, pkt_ackEliciting := e, pkt_inFlight := f\<rparr>"
  obtain ok ring where push: "ringPush xa (rv_sent r sp) (nx sp) p = (ok, ring)" by (metis surj_pair)
  have ri: "ring_inv (rv_sent r sp)" using assms(1) by (simp add: rings_ok_def)
  note sent = quicRecovOnSent_sent [of xa sp "nx sp" sz e f now r, folded p_def, unfolded push snd_conv]
  show "rings_ok ?r1" using assms(1) ringPush_ok(1) [OF ri push] by (simp add: rings_ok_def sent)
  have "fate_of ?r1 s q = (if \<not> rv_discarded r sp \<and> ok \<and> s = sp \<and> q = nx sp then Some QUIC_SENT_LIVE else fate_of r s q)" for s q
    by (auto simp: fate_of_def pkt_of_def sent ringPush_lookup [OF ri push] p_def)
  moreover have "Acked sp (nx sp) \<notin> set tr" "Lost sp (nx sp) \<notin> set tr"
    using assms(2) by (force simp: trace_ok_def)+
  moreover have "trace_ok (nx(sp := Suc (nx sp))) r tr" by (rule trace_ok_mono [OF assms(2)]) simp
  ultimately show "trace_ok (nx(sp := Suc (nx sp))) ?r1 tr"
    unfolding trace_ok_def by (auto split: if_splits)
qed

end
