(* ===== verification/QuicRecovProps.thy ===== *)
theory QuicRecovProps
  imports QuicRecovTrace
begin

text \<open>
  The reachable states of loss recovery and the properties of \<^verbatim>\<open>src/cxquic/recovery.c\<close>: what holds of
  the counters and the window in every reachable state, that acknowledgements are processed to an end,
  what is reported about a packet and when, the timers, and the pacer.
\<close>

section \<open>Reachable states\<close>

text \<open>The operations that neither send nor settle a packet.\<close>

inductive recov_quiet :: "QuicRecovery \<Rightarrow> QuicRecovery \<Rightarrow> bool" for r where
  "recov_quiet r (quicRecovMark sp pn marks r)"
| "recov_quiet r (quicRecovOnEcnCe sp pn now r)"
| "recov_quiet r (quicRecovOnPathChange r)"
| "n \<le> 65535 \<Longrightarrow> recov_quiet r (quicRecovSetMaxDatagram n r)"
| "recov_quiet r (quicRecovSetMaxAckDelay d r)"
| "recov_quiet r (quicRecovSetAppLimited b r)"
| "recov_quiet r (quicRecovSpaceReady sp r)"
| "recov_quiet r (quicRecovConfirmHandshake now r)"
| "recov_quiet r (quicRecovPacerRefill now r)"
| "recov_quiet r (quicRecovProbeSent sp r)"

text \<open>
  A connection numbers the packets of each space in order, without gaps: \<open>nx sp\<close> is the number the
  next packet of the space will have. Everything else may happen at any time.
\<close>

inductive recov_reach ::
  "'c QuicRecovHandlers \<Rightarrow> 'c \<Rightarrow> QuicRecovery \<times> 'c \<Rightarrow> (QuicPnSpaceId \<Rightarrow> nat) \<Rightarrow> bool" for h c0 where
  init: "0 < md \<Longrightarrow> md \<le> 65535 \<Longrightarrow> recov_reach h c0 (quicRecovInit server md, c0) (\<lambda>_. 0)"
| sent: "recov_reach h c0 (r, c) nx \<Longrightarrow> sz < 2 ^ 32 \<Longrightarrow>
    recov_reach h c0 (quicRecovOnSent xa sp (nx sp) sz e f now r, c) (nx(sp := Suc (nx sp)))"
| ack: "recov_reach h c0 rc nx \<Longrightarrow> quicRecovOnAck h sp f d now rc = Some (ok, rc1) \<Longrightarrow> recov_reach h c0 rc1 nx"
| timeout: "recov_reach h c0 rc nx \<Longrightarrow> recov_reach h c0 (quicRecovOnTimeout h now rc) nx"
| early: "recov_reach h c0 rc nx \<Longrightarrow> recov_reach h c0 (quicRecovDiscardEarly h pnEnd now rc) nx"
| discard: "recov_reach h c0 (r, c) nx \<Longrightarrow> recov_reach h c0 (quicRecovDiscardSpace sp now r, c) nx"
| quiet: "recov_reach h c0 (r, c) nx \<Longrightarrow> recov_quiet r r1 \<Longrightarrow> recov_reach h c0 (r1, c) nx"

lemma recov_inv_Mark:
  assumes "recov_inv r"
  shows "recov_inv (quicRecovMark sp pn marks r)"
proof (cases "ringAt (rv_sent r sp) pn")
  case (Some k)
  then obtain i where i: "i < rg_count (rv_sent r sp)" "k = ringSlot (rv_sent r sp) i"
    by (auto simp: ringAt_iff)
  show ?thesis
    unfolding quicRecovMark_def Some Let_def option.case i(2)
    by (rule recov_inv_store [OF assms i(1) refl]) (use i(1) in \<open>simp_all add: fly_def elicit_def\<close>)
qed (use assms in \<open>simp add: quicRecovMark_def\<close>)

lemma recov_inv_PathChange: "recov_inv r \<Longrightarrow> recov_inv (quicRecovOnPathChange r)"
  by (rule recov_inv_frame [of _ r])
    (use ccInitialWindow_bounds [of "rv_maxDatagram r"] in \<open>auto simp: quicRecovOnPathChange_def recov_inv_def
      window_inv_def ccMinWindow_def rtt_inv_def UINT64_MAX_def sdiv_nonneg_div\<close>)

lemma recov_inv_other [simp]:
  "recov_inv (r\<lparr>rv_maxAckDelay := a\<rparr>) = recov_inv r" "recov_inv (r\<lparr>rv_appLimited := b\<rparr>) = recov_inv r"
  "recov_inv (r\<lparr>rv_ready := rd\<rparr>) = recov_inv r" "recov_inv (r\<lparr>rv_probes := ps\<rparr>) = recov_inv r"
  "recov_inv (r\<lparr>rv_handshakeConfirmed := b, rv_peerValidated := b1\<rparr>) = recov_inv r"
  "recov_inv (r\<lparr>rv_tokenTime := t, rv_tokens := n\<rparr>) = recov_inv r"
  by (simp_all add: recov_inv_defs)

lemma recov_inv_quiet: "recov_quiet r r1 \<Longrightarrow> recov_inv r \<Longrightarrow> recov_inv r1"
  by (induction rule: recov_quiet.induct)
    (simp_all add: recov_inv_Mark recov_inv_PathChange recov_inv_SetMaxDatagram quicRecovOnEcnCe_def
      recov_inv_ccOnCongestion quicRecovSetMaxAckDelay_def quicRecovSetAppLimited_def quicRecovSpaceReady_def
      quicRecovConfirmHandshake_def quicRecovPacerRefill_def quicRecovProbeSent_def Let_def)

context recov_client
begin

lemma recov_reach_inv: "recov_reach h c0 rc nx \<Longrightarrow> I c0 \<Longrightarrow> recov_inv (fst rc) \<and> I (snd rc)"
proof (induction rule: recov_reach.induct)
  case (ack rc nx sp f d now ok rc1)
  then show ?case using quicRecovOnAck_ends [of "snd rc" "fst rc" sp f d now] by auto
next
  case (timeout rc nx now)
  then show ?case using recov_inv_OnTimeout [of "snd rc" "fst rc" now] by (metis prod.collapse)
next
  case (early rc nx pnEnd now)
  then show ?case using recov_inv_DiscardEarly [of "snd rc" "fst rc" pnEnd now] by (metis prod.collapse)
qed (simp_all add: recov_inv_Init recov_inv_OnSent recov_inv_DiscardSpace recov_inv_quiet)

end

lemma detectLoss_truthful:
  assumes "rings_ok r" "detectLoss (logged h) sp now (r, c) = (r1, c1)"
  shows "rings_ok r1 \<and> truthful (r, c) (r1, c1)"
proof (cases "rv_largestAcked r sp")
  case None
  then have "rv_sent r1 = rv_sent r" "c1 = c" using assms(2) by (auto simp: detectLoss_def Let_def)
  then show ?thesis using assms(1) rings_ok_same truthful_same by blast
next
  case (Some largest)
  then show ?thesis using detectLoss_settles [OF assms Some] by blast
qed

lemma quicRecovOnTimeout_truthful:
  assumes "rings_ok r" "quicRecovOnTimeout (logged h) now (r, c) = (r1, c1)"
  shows "rings_ok r1 \<and> truthful (r, c) (r1, c1)"
proof (cases "fst (lossTimeAndSpace r) \<noteq> 0 \<and> fst (lossTimeAndSpace r) \<le> now")
  case False
  then have "rv_sent r1 = rv_sent r" "c1 = c"
    using assms(2) by (auto simp: quicRecovOnTimeout_def Let_def split: prod.splits if_splits)
  then show ?thesis using assms(1) rings_ok_same truthful_same by blast
next
  case True
  obtain t sp where ls: "lossTimeAndSpace r = (t, sp)" by (cases "lossTimeAndSpace r")
  obtain r2 c2 where d: "detectLoss (logged h) sp now (r, c) = (r2, c2)" by (metis surj_pair)
  note loss = detectLoss_truthful [OF assms(1) d]
  let ?r3 = "r2\<lparr>rv_sent := (rv_sent r2)(sp := ringTrim (retainCutoff r2 now) (rv_sent r2 sp))\<rparr>"
  have r1: "rv_sent r1 = rv_sent ?r3" "c1 = c2" using assms(2) True ls d by (auto simp: quicRecovOnTimeout_def)
  note trim = trim_fates [OF conjunct1 [OF loss], where sp = sp and cutoff = "retainCutoff r2 now"]
  have "truthful (r2, c2) (r1, c1)"
    by (rule truthful_sub) (use trim(1) pkt_of_same(2) [OF r1(1)] r1(2) in auto)
  then show ?thesis using loss truthful_trans rings_ok_same [OF r1(1)] trim(3) by blast
qed

lemma quicRecovDiscardEarly_truthful:
  assumes "rings_ok r" "quicRecovDiscardEarly (logged h) pnEnd now (r, c) = (r1, c1)"
  shows "rings_ok r1 \<and> truthful (r, c) (r1, c1)"
proof -
  obtain r2 c2 where l: "discardEarlyLoop (logged h) pnEnd [0..<rg_count (rv_sent r QUIC_PNS_APP)] (r, c) = (r2, c2)"
    by (metis surj_pair)
  have loop: "rings_ok r2 \<and> truthful (r, c) (r2, c2)" by (rule discardEarlyLoop_settles [OF assms(1) _ l]) simp
  have r1: "rv_sent r1 = rv_sent r2" "c1 = c2" using assms(2) l by (auto simp: quicRecovDiscardEarly_def)
  show ?thesis
    using loop rings_ok_same [OF r1(1)] truthful_trans truthful_same [OF r1(1)] r1(2) by blast
qed

lemma quicRecovDiscardSpace_fates:
  assumes "rings_ok r"
  shows "rings_ok (quicRecovDiscardSpace sp now r) \<and> truthful (r, c) (quicRecovDiscardSpace sp now r, c)"
proof (cases "rv_discarded r sp")
  case False
  have s: "rv_sent (quicRecovDiscardSpace sp now r) = (rv_sent r)(sp := ringDestroy)"
    using False by (simp add: quicRecovDiscardSpace_def)
  have "ring_lookup ringDestroy q = None" for q by (simp add: ring_lookup_def ringAt_def ringDestroy_def)
  then have "truthful (r, c) (quicRecovDiscardSpace sp now r, c)"
    by (intro truthful_sub) (auto simp: fate_of_def pkt_of_def s split: if_splits)
  then show ?thesis using assms by (simp add: rings_ok_def s)
qed (use assms in \<open>simp add: quicRecovDiscardSpace_def\<close>)

lemma recov_quiet_fates: "recov_quiet r r1 \<Longrightarrow> rings_ok r \<Longrightarrow> rings_ok r1 \<and> truthful (r, c) (r1, c)"
proof (induction rule: recov_quiet.induct)
  case (1 sp pn marks)
  show ?case
  proof (cases "ringAt (rv_sent r sp) pn")
    case (Some k)
    then obtain i where i: "i < rg_count (rv_sent r sp)" "pn = rg_basePn (rv_sent r sp) + i" "k = ringSlot (rv_sent r sp) i"
      by (auto simp: ringAt_iff)
    let ?p = "rg_pkts (rv_sent r sp) ! k"
    have s: "rv_sent (quicRecovMark sp pn marks r) =
        (rv_sent r)(sp := ringStore (rv_sent r sp) k (?p\<lparr>pkt_marks := pkt_marks ?p OR marks\<rparr>))"
      using Some by (simp add: quicRecovMark_def Let_def)
    have ri: "ring_inv (rv_sent r sp)" using 1 by (simp add: rings_ok_def)
    have "ring_lookup (rv_sent r sp) pn = Some ?p" using Some by (simp add: ring_lookup_def)
    then have "fate_of (quicRecovMark sp pn marks r) a q = fate_of r a q" for a q
      by (auto simp: fate_of_def pkt_of_def s ring_lookup_store [OF ri i(1), folded i(2,3)])
    then have "truthful (r, c) (quicRecovMark sp pn marks r, c)" by (intro truthful_sub) simp_all
    then show ?thesis using 1 by (simp add: rings_ok_def s)
  qed (use 1 in \<open>simp add: quicRecovMark_def\<close>)
qed (auto intro!: truthful_same simp: rings_ok_def quicRecovOnEcnCe_def quicRecovOnPathChange_def
    quicRecovSetMaxAckDelay_def quicRecovSetAppLimited_def quicRecovSpaceReady_def quicRecovConfirmHandshake_def
    quicRecovPacerRefill_def quicRecovProbeSent_def Let_def)

lemma recov_reach_trace:
  "recov_reach (logged h) (c0, []) rc nx \<Longrightarrow> rings_ok (fst rc) \<and> trace_ok nx (fst rc) (snd (snd rc))"
proof (induction rule: recov_reach.induct)
  case (init md server)
  have "ring_lookup ringDestroy q = None" for q by (simp add: ring_lookup_def ringAt_def ringDestroy_def)
  then show ?case by (simp add: quicRecovInit_def rings_ok_def trace_ok_def fate_of_def pkt_of_def)
next
  case (sent r c nx sz xa sp e f now)
  then show ?case using trace_ok_sent [where r = r and nx = nx and tr = "snd c"] by (simp only: fst_conv snd_conv)
next
  case (ack rc nx sp f d now ok rc1)
  then show ?case
    using quicRecovOnAck_settles [of "fst rc" h sp f d now "snd rc" ok "fst rc1" "snd rc1"] by (simp add: truthful_def)
next
  case (timeout rc nx now)
  then show ?case
    using quicRecovOnTimeout_truthful [of "fst rc" h now "snd rc"] by (auto simp: truthful_def) (metis prod.collapse)+
next
  case (early rc nx pnEnd now)
  then show ?case
    using quicRecovDiscardEarly_truthful [of "fst rc" h pnEnd now "snd rc"] by (auto simp: truthful_def) (metis prod.collapse)+
next
  case (discard r c nx sp now)
  then show ?case using quicRecovDiscardSpace_fates [of r sp now c] by (simp add: truthful_def)
next
  case (quiet r c nx r1)
  then show ?case using recov_quiet_fates [of r r1 c] by (simp add: truthful_def)
qed


section \<open>The counters and the window\<close>

text \<open>
  C10. In every reachable state of loss recovery the bytes in flight are exactly the sizes of the
  unresolved packets that count against the window, the ack-eliciting count of each space is exact (so
  neither counter can underflow), a discarded space holds nothing, and the congestion window lies
  between two datagrams and 64 MiB. This holds for any interleaving of sending, acknowledgements,
  timeouts, key discards and path changes, and any handlers that keep the datagram size below 64 KiB.
\<close>

theorem recov_counters_exact:
  assumes "recov_client I h" "I c0" "recov_reach h c0 (r, c) nx"
  shows "rv_inFlight r = (\<Sum>sp\<leftarrow>pn_spaces. \<Sum>p\<leftarrow>ring_list (rv_sent r sp). fly p)
    \<and> rv_elicitInFlight r sp = (\<Sum>p\<leftarrow>ring_list (rv_sent r sp). elicit p)
    \<and> 0 \<le> rv_inFlight r
    \<and> (rv_discarded r sp \<longrightarrow> ring_list (rv_sent r sp) = [])
    \<and> 2 * int (rv_maxDatagram r) \<le> rv_window r \<and> rv_window r \<le> QUIC_MAX_WINDOW"
proof -
  have inv: "recov_inv r" using recov_client.recov_reach_inv [OF assms(1,3,2)] by simp
  then have flight: "rv_inFlight r = (\<Sum>sp\<leftarrow>pn_spaces. \<Sum>p\<leftarrow>ring_list (rv_sent r sp). fly p)"
    and rest: "rv_elicitInFlight r sp = (\<Sum>p\<leftarrow>ring_list (rv_sent r sp). elicit p)"
      "2 * int (rv_maxDatagram r) \<le> rv_window r \<and> rv_window r \<le> QUIC_MAX_WINDOW"
    by (simp_all add: recov_inv_defs)
  have "0 \<le> fly p" if "p \<in> set (ring_list (rv_sent r s))" for s p
    using inv that by (simp add: recov_inv_def rings_inv_def fly_def)
  then have "0 \<le> (\<Sum>p\<leftarrow>ring_list (rv_sent r s). fly p)" for s
    by (intro sum_list_nonneg) auto
  then have "0 \<le> rv_inFlight r" unfolding flight by (intro sum_list_nonneg) auto
  moreover have "ring_list (rv_sent r sp) = []" if "rv_discarded r sp"
    using inv that by (simp add: recov_inv_def rings_inv_def ring_list_def)
  ultimately show ?thesis using flight rest by blast
qed

definition no_handlers :: "unit QuicRecovHandlers" where
  "no_handlers = \<lparr>rh_acked = None, rh_lost = None\<rparr>"

lemma no_handlers_ok: "recov_client (\<lambda>_. True) no_handlers"
  by unfold_locales (simp_all add: no_handlers_def)

definition open_alloc :: xalloc where
  "open_alloc = \<lparr>xa_ok = (\<lambda>_. True), xa_junk = (\<lambda>_. 0)\<rparr>"

text \<open>A server that has sent four packets of 1200 bytes in the application space.\<close>

definition example_sent :: "QuicRecovery" where
  "example_sent =
     quicRecovOnSent open_alloc QUIC_PNS_APP 3 1200 True True 40
       (quicRecovOnSent open_alloc QUIC_PNS_APP 2 1200 True True 30
         (quicRecovOnSent open_alloc QUIC_PNS_APP 1 1200 True True 20
           (quicRecovOnSent open_alloc QUIC_PNS_APP 0 1200 True True 10 (quicRecovInit True 1200))))"

lemma example_sent_reach: "recov_reach h c (example_sent, c) ((\<lambda>_. 0)(QUIC_PNS_APP := 4))"
proof -
  have step: "recov_reach h c (quicRecovOnSent open_alloc QUIC_PNS_APP n 1200 True True now r, c)
      ((\<lambda>_. 0)(QUIC_PNS_APP := Suc n))" if "recov_reach h c (r, c) ((\<lambda>_. 0)(QUIC_PNS_APP := n))" for r n now
    using recov_reach.sent [OF that, of 1200 open_alloc QUIC_PNS_APP True True now] by simp
  have "recov_reach h c (quicRecovInit True 1200, c) ((\<lambda>_. 0)(QUIC_PNS_APP := 0))"
    using recov_reach.init [of 1200 h c True] by (simp add: fun_upd_idem)
  from step [OF step [OF step [OF step [OF this]]], of 40 30 20 10]
  show ?thesis by (simp add: example_sent_def numeral_eq_Suc)
qed

theorem recov_counters_exact_witness:
  "rv_inFlight example_sent = (\<Sum>sp\<leftarrow>pn_spaces. \<Sum>p\<leftarrow>ring_list (rv_sent example_sent sp). fly p)
    \<and> rv_inFlight example_sent = 4800"
proof -
  have "rv_inFlight example_sent = 4800" by code_simp
  with recov_counters_exact [OF no_handlers_ok TrueI example_sent_reach [of no_handlers "()"]] show ?thesis by blast
qed


section \<open>Acknowledgements\<close>

text \<open>
  C24. Processing an acknowledgement always ends: in every reachable state, for every frame and every
  time, the call returns. The window the growth loop subtracts can never be zero.
\<close>

theorem recov_ack_ends:
  assumes "recov_client I h" "I c0" "recov_reach h c0 (r, c) nx"
  shows "\<exists>ok r1 c1. quicRecovOnAck h sp f d now (r, c) = Some (ok, r1, c1)"
  using recov_client.quicRecovOnAck_ends [OF assms(1), of c r] recov_client.recov_reach_inv [OF assms(1,3,2)]
  by fastforce

definition example_ack :: QuicFrame where
  "example_ack = FAck 3 0 0 0 [] None"

theorem recov_ack_ends_witness:
  "\<exists>ok r1 c1. quicRecovOnAck no_handlers QUIC_PNS_APP example_ack 0 5000 (example_sent, ()) = Some (ok, r1, c1)"
  by (rule recov_ack_ends [OF no_handlers_ok TrueI example_sent_reach])

text \<open>
  C2. Nothing is reported twice. Over the whole life of a connection, whatever the peer acknowledges
  and however timeouts and discards interleave, the handlers hear of each packet at most once, as
  acknowledged or as lost and never both; they hear only of packets that were sent; and the fate a
  packet has in its ring is the one that was reported.
\<close>

theorem recov_reports_once:
  assumes "recov_reach (logged h) (c0, []) (r, c, tr) nx"
  shows "distinct (map event_pkt tr)
    \<and> (\<forall>e\<in>set tr. snd (event_pkt e) < nx (fst (event_pkt e)))
    \<and> (pkt_of r sp pn = Some p \<longrightarrow> pn < nx sp
         \<and> (pkt_fate p = QUIC_SENT_ACKED \<longleftrightarrow> Acked sp pn \<in> set tr)
         \<and> (pkt_fate p = QUIC_SENT_LOST \<longleftrightarrow> Lost sp pn \<in> set tr))"
proof -
  have tr: "trace_ok nx r tr" using recov_reach_trace [OF assms] by simp
  have "fate_of r sp pn = Some (pkt_fate p)" if "pkt_of r sp pn = Some p" using that by (simp add: fate_of_def)
  then show ?thesis using tr by (auto simp: trace_ok_def split: prod.splits)
qed

text \<open>The example connection after the acknowledgement of its packet 3, watched.\<close>

definition example_acked :: "QuicRecovery \<times> unit \<times> recov_event list" where
  "example_acked =
     snd (the (quicRecovOnAck (logged no_handlers) QUIC_PNS_APP example_ack 0 5000 (example_sent, (), [])))"

lemma example_acked_step:
  "quicRecovOnAck (logged no_handlers) QUIC_PNS_APP example_ack 0 5000 (example_sent, (), []) = Some (True, example_acked)"
proof -
  have "map_option fst (quicRecovOnAck (logged no_handlers) QUIC_PNS_APP example_ack 0 5000 (example_sent, (), [])) =
      Some True" by code_simp
  then show ?thesis by (auto simp: example_acked_def)
qed

lemma example_acked_reach:
  "recov_reach (logged no_handlers) ((), []) (fst example_acked, (), snd (snd example_acked)) ((\<lambda>_. 0)(QUIC_PNS_APP := 4))"
proof -
  have "example_acked = (fst example_acked, (), snd (snd example_acked))"
    by (simp only: prod_eq_iff fst_conv snd_conv unit_eq refl)
  with recov_reach.ack [OF example_sent_reach example_acked_step] show ?thesis by simp
qed

theorem recov_reports_once_witness:
  "snd (snd example_acked) = [Acked QUIC_PNS_APP 3, Lost QUIC_PNS_APP 0]
    \<and> distinct (map event_pkt (snd (snd example_acked)))"
proof -
  have "snd (snd example_acked) = [Acked QUIC_PNS_APP 3, Lost QUIC_PNS_APP 0]" by code_simp
  with recov_reports_once [OF example_acked_reach] show ?thesis by blast
qed

text \<open>
  C12. What an acknowledgement decides, for every packet that was still waiting: a packet in one of the
  frame's ranges is reported acknowledged; one that is not is reported lost exactly when the frame
  acknowledged something new and the packet is not after the largest acknowledged one and either three
  behind it or sent at least nine eighths of a round trip ago; every other packet is still waiting.
\<close>

theorem recov_ack_decides:
  assumes "recov_reach (logged h) (c0, []) (r, c, tr) nx" "\<not> rv_discarded r sp"
    and "quicAckIterInit f = Some it" "ack_ranges it = (rs, it1)"
    and "quicRecovOnAck (logged h) sp f d now (r, c, tr) = Some (True, r1, c1, tr1)"
    and "pkt_of r sp pn = Some p" "pkt_fate p = QUIC_SENT_LIVE"
  shows "if pn \<in> ranges_pns rs then Acked sp pn \<in> set tr1
    else if (\<exists>q\<in>ranges_pns rs. fate_of r sp q = Some QUIC_SENT_LIVE)
      \<and> pn \<le> the (rv_largestAcked r1 sp)
      \<and> (pkt_sent p \<le> now - lossDelay r1 \<or> pn + QUIC_PACKET_THRESHOLD \<le> the (rv_largestAcked r1 sp))
    then Lost sp pn \<in> set tr1
    else fate_of r1 sp pn = Some QUIC_SENT_LIVE"
proof -
  have "rings_ok r" "trace_ok nx r tr" using recov_reach_trace [OF assms(1)] by simp_all
  moreover have "live r sp pn" using assms(6,7) by (simp add: fate_of_def)
  ultimately have "ack_verdict sp now (ranges_pns rs) r r1 tr1 pn"
    using quicRecovOnAck_settles [OF _ assms(5)] assms(2-4) by auto
  then show ?thesis using assms(6) by (auto simp: ack_verdict_def lossy_def split: if_splits)
qed

theorem recov_ack_decides_witness: "Lost QUIC_PNS_APP 0 \<in> set (snd (snd example_acked))"
proof -
  define it where "it = the (quicAckIterInit example_ack)"
  obtain rs it1 where rs: "ack_ranges it = (rs, it1)" by (metis surj_pair)
  have it: "quicAckIterInit example_ack = Some it" by (simp add: it_def example_ack_def quicAckIterInit_def)
  have one: "ranges_pns rs = {3}"
    using rs by (auto simp: ranges_pns_def range_pns_def it_def example_ack_def quicAckIterInit_def
        ack_ranges.simps [of "\<lparr>it_rd = _, it_remaining = _, it_largest = _, it_firstRange = _, it_next = _, it_first = _, it_bad = _\<rparr>"]
        quicAckIterNext_def)
  have live: "fate_of example_sent QUIC_PNS_APP 3 = Some QUIC_SENT_LIVE" by code_simp
  have "rv_largestAcked (fst example_acked) QUIC_PNS_APP = Some 3" by code_simp
  moreover have "\<not> rv_discarded example_sent QUIC_PNS_APP" by code_simp
  moreover have "map_option pkt_fate (pkt_of example_sent QUIC_PNS_APP 0) = Some QUIC_SENT_LIVE" by code_simp
  then obtain p where "pkt_of example_sent QUIC_PNS_APP 0 = Some p" "pkt_fate p = QUIC_SENT_LIVE" by auto
  moreover have step: "quicRecovOnAck (logged no_handlers) QUIC_PNS_APP example_ack 0 5000 (example_sent, (), []) =
      Some (True, fst example_acked, fst (snd example_acked), snd (snd example_acked))"
    using example_acked_step by (simp only: prod.collapse)
  ultimately show ?thesis
    using recov_ack_decides [OF example_sent_reach _ it rs step, of 0 p] one live by simp
qed


section \<open>Timers\<close>

text \<open>What the timer is meant to be: the deadlines the code chooses from, and the earliest of them.\<close>

definition loss_deadlines :: "QuicRecovery \<Rightarrow> int set" where
  "loss_deadlines r = {rv_lossTime r sp |sp. \<not> rv_discarded r sp \<and> rv_lossTime r sp \<noteq> 0}"

definition probeable :: "QuicRecovery \<Rightarrow> QuicPnSpaceId \<Rightarrow> bool" where
  "probeable r sp \<longleftrightarrow> \<not> rv_discarded r sp \<and> rv_elicitInFlight r sp \<noteq> 0
     \<and> (sp = QUIC_PNS_APP \<longrightarrow> rv_handshakeConfirmed r)"

definition pto_deadline :: "QuicRecovery \<Rightarrow> QuicPnSpaceId \<Rightarrow> int" where
  "pto_deadline r sp = rv_lastElicitSent r sp
     + (ptoDuration r + (if sp = QUIC_PNS_APP then rv_maxAckDelay r else 0)) * 2 ^ min (rv_ptoCount r) QUIC_MAX_PTO_BACKOFF"

lemma ptoShift_min: "ptoShift r = min (rv_ptoCount r) QUIC_MAX_PTO_BACKOFF"
  by (simp add: ptoShift_def)

lemma spaces_set: "{f sp |sp. P sp} = f ` {sp \<in> {QUIC_PNS_INITIAL, QUIC_PNS_HANDSHAKE, QUIC_PNS_APP}. P sp}"
proof -
  have "sp \<in> {QUIC_PNS_INITIAL, QUIC_PNS_HANDSHAKE, QUIC_PNS_APP}" for sp by (cases sp) auto
  then show ?thesis by auto
qed

lemma lossTime_earliest:
  "fst (lossTimeAndSpace r) = (if loss_deadlines r = {} then 0 else Min (loss_deadlines r))"
  unfolding loss_deadlines_def spaces_set lossTimeAndSpace_def pn_spaces_def
  by (cases "rv_discarded r QUIC_PNS_INITIAL \<or> rv_lossTime r QUIC_PNS_INITIAL = 0";
      cases "rv_discarded r QUIC_PNS_HANDSHAKE \<or> rv_lossTime r QUIC_PNS_HANDSHAKE = 0";
      cases "rv_discarded r QUIC_PNS_APP \<or> rv_lossTime r QUIC_PNS_APP = 0")
    (auto simp: Collect_conv_if Collect_disj_eq conj_disj_distribR)


definition earlier :: "('a \<Rightarrow> bool) \<Rightarrow> ('a \<Rightarrow> int) \<Rightarrow> int \<times> 'a \<Rightarrow> 'a \<Rightarrow> int \<times> 'a" where
  "earlier P t bo x = (if P x \<and> t x < fst bo then (t x, x) else bo)"

lemma earlier_Min: "fst (foldl (earlier P t) (b, o1) xs) = Min (insert b (t ` {x \<in> set xs. P x}))"
proof (induction xs rule: rev_induct)
  case (snoc x xs)
  let ?A = "insert b (t ` {y \<in> set xs. P y})"
  have set: "insert b (t ` {y \<in> set (xs @ [x]). P y}) = (if P x then insert (t x) ?A else ?A)" by auto
  define m where "m = Min ?A"
  have ins: "Min (insert (t x) ?A) = min (t x) m" unfolding m_def by (rule Min_insert) auto
  have "fst (foldl (earlier P t) (b, o1) (xs @ [x])) = (if P x \<and> t x < m then t x else m)"
    using snoc [folded m_def] earlier_def [of P t "foldl (earlier P t) (b, o1) xs" x] by simp
  also have "\<dots> = Min (if P x then insert (t x) ?A else ?A)"
  proof (cases "P x")
    case True
    then have "Min (if P x then insert (t x) ?A else ?A) = min (t x) m" using ins by (simp only: if_True)
    then show ?thesis using True by (simp only: min_def) auto
  next
    case False
    then show ?thesis by (simp only: m_def if_False simp_thms)
  qed
  finally show ?case unfolding set .
qed simp

lemma earlier_pick: "foldl (earlier P t) bo xs = bo \<or> P (snd (foldl (earlier P t) bo xs))"
  by (induction xs rule: rev_induct) (auto simp: earlier_def)

lemma ptoTimeAndSpace_fold:
  assumes "elicitTotal r \<noteq> 0"
  shows "ptoTimeAndSpace r now =
    foldl (earlier (probeable r) (pto_deadline r)) (timeForever, QUIC_PNS_INITIAL) pn_spaces"
proof -
  have "(let d = (if sp = QUIC_PNS_APP then ptoDuration r * 2 ^ ptoShift r + rv_maxAckDelay r * 2 ^ ptoShift r
                  else ptoDuration r * 2 ^ ptoShift r)
         in rv_lastElicitSent r sp + d) = pto_deadline r sp" for sp
    by (simp add: pto_deadline_def ptoShift_min distrib_right)
  then show ?thesis
    using assms unfolding ptoTimeAndSpace_def Let_def
    by (auto simp: probeable_def earlier_def intro!: arg_cong [where f = "\<lambda>g. foldl g _ _"] ext)
qed

lemma pto_earliest:
  assumes "elicitTotal r \<noteq> 0"
  shows "fst (ptoTimeAndSpace r now) = Min (insert timeForever {pto_deadline r sp |sp. probeable r sp})"
  unfolding ptoTimeAndSpace_fold [OF assms] earlier_Min spaces_set by (simp add: pn_spaces_def)

text \<open>
  C28. The timer is the earliest deadline: the earliest loss time of a live space when there is one;
  otherwise none when nothing ack-eliciting is in flight and the peer is validated; otherwise one
  backed-off probe timeout from now when nothing is in flight; otherwise the earliest probe deadline of
  a space that can be probed, where a probe deadline is a backed-off probe timeout (with the peer's ACK
  delay in the application space) after the space's last ack-eliciting packet.
\<close>

theorem recov_timer_earliest:
  "rv_timer (recovSetTimer now r) =
    (if loss_deadlines r \<noteq> {} then Min (loss_deadlines r)
     else if elicitTotal r = 0 \<and> peerValidated r then timeForever
     else if elicitTotal r = 0 then now + ptoDuration r * 2 ^ min (rv_ptoCount r) QUIC_MAX_PTO_BACKOFF
     else Min (insert timeForever {pto_deadline r sp |sp. probeable r sp}))"
proof -
  have "Min (loss_deadlines r) \<noteq> 0" if "loss_deadlines r \<noteq> {}"
  proof -
    have "finite (loss_deadlines r)" unfolding loss_deadlines_def spaces_set by simp
    then have "Min (loss_deadlines r) \<in> loss_deadlines r" using that by (rule Min_in)
    then show ?thesis by (auto simp: loss_deadlines_def)
  qed
  moreover have "fst (ptoTimeAndSpace r now) = now + ptoDuration r * 2 ^ min (rv_ptoCount r) QUIC_MAX_PTO_BACKOFF"
    if "elicitTotal r = 0"
    using that by (simp add: ptoTimeAndSpace_def Let_def ptoShift_min)
  ultimately show ?thesis
    by (simp add: recovSetTimer_def Let_def lossTime_earliest pto_earliest)
qed

text \<open>The space a probe timeout picks is one that has something to probe for.\<close>

lemma pto_space:
  assumes "elicitTotal r \<noteq> 0" "fst (ptoTimeAndSpace r now) < timeForever"
  shows "probeable r (snd (ptoTimeAndSpace r now))"
  using assms(2) earlier_pick [of "probeable r" "pto_deadline r" "(timeForever, QUIC_PNS_INITIAL)" pn_spaces]
  by (auto simp: ptoTimeAndSpace_fold [OF assms(1)])

text \<open>
  C25. No deadlock on silence: when the timer that was set has expired and no packet is waiting to be
  declared lost, the timeout makes two probe packets owed and backs the next timeout off; and while
  anything ack-eliciting is in flight the probes are owed in a space that has keys, holds such a packet
  and may be probed. When nothing is in flight, a client that the server may still be waiting for sends
  them in the Handshake space if that has keys and is alive, and in the Initial space otherwise, so that
  they are never owed in a space that is gone while one of the two is left.
\<close>

theorem recov_timeout_probes:
  assumes "loss_deadlines r = {}" "rv_timer (recovSetTimer t0 r) = rv_timer r"
    and "rv_timer r \<le> now" "rv_timer r < timeForever"
    and "quicRecovOnTimeout h now (r, c) = (r1, c1)"
  shows "\<exists>sp. quicRecovProbes r1 sp \<ge> 2 \<and> rv_ptoCount r1 = rv_ptoCount r + 1
    \<and> (elicitTotal r \<noteq> 0 \<longrightarrow> \<not> rv_discarded r sp \<and> rv_elicitInFlight r sp \<noteq> 0
         \<and> (sp = QUIC_PNS_APP \<longrightarrow> rv_handshakeConfirmed r))
    \<and> (elicitTotal r = 0 \<longrightarrow> sp \<noteq> QUIC_PNS_APP
         \<and> (sp = QUIC_PNS_HANDSHAKE \<longleftrightarrow> rv_ready r QUIC_PNS_HANDSHAKE \<and> \<not> rv_discarded r QUIC_PNS_HANDSHAKE)
         \<and> (\<not> rv_discarded r QUIC_PNS_INITIAL \<or> rv_ready r QUIC_PNS_HANDSHAKE \<and> \<not> rv_discarded r QUIC_PNS_HANDSHAKE
              \<longrightarrow> \<not> rv_discarded r sp))"
proof -
  let ?sp = "if elicitTotal r = 0 then probeSpace r else snd (ptoTimeAndSpace r now)"
  have t: "fst (lossTimeAndSpace r) = 0" using assms(1) by (simp add: lossTime_earliest)
  obtain sp0 where ls: "lossTimeAndSpace r = (0, sp0)" using t by (metis surjective_pairing)
  have r1: "rv_probes r1 = (if rv_probes r ?sp < 2 then (rv_probes r)(?sp := 2) else rv_probes r)"
    "rv_ptoCount r1 = rv_ptoCount r + 1"
    using assms(3-5) by (auto simp: quicRecovOnTimeout_def ls Let_def recovSetTimer_def)
  have "probeable r ?sp" if "elicitTotal r \<noteq> 0"
  proof -
    have "fst (ptoTimeAndSpace r now) = fst (ptoTimeAndSpace r t0)" using that by (simp add: pto_earliest)
    also have "\<dots> = rv_timer r" using assms(2) that t by (simp add: recovSetTimer_def Let_def)
    finally have "fst (ptoTimeAndSpace r now) = rv_timer r" .
    then show ?thesis using pto_space [OF that] assms(4) that by simp
  qed
  then show ?thesis
    using r1 by (intro exI [of _ ?sp]) (auto simp: quicRecovProbes_def probeable_def probeSpace_def)
qed


definition example_client :: QuicRecovery where
  "example_client = quicRecovOnSent open_alloc QUIC_PNS_INITIAL 0 1200 True True 10 (quicRecovInit False 1200)"

theorem recov_timeout_probes_witness:
  "\<exists>sp. quicRecovProbes (fst (quicRecovOnTimeout no_handlers 1000000 (example_client, ()))) sp \<ge> 2
    \<and> rv_elicitInFlight example_client sp \<noteq> 0"
proof -
  have none: "fst (lossTimeAndSpace example_client) = 0" by code_simp
  have "loss_deadlines example_client = {}"
  proof (rule ccontr)
    assume ne: "loss_deadlines example_client \<noteq> {}"
    then have "Min (loss_deadlines example_client) \<in> loss_deadlines example_client"
      by (intro Min_in) (simp_all add: loss_deadlines_def spaces_set)
    then have "Min (loss_deadlines example_client) \<noteq> 0" by (auto simp: loss_deadlines_def)
    with ne none show False by (simp add: lossTime_earliest)
  qed
  moreover have "rv_timer (recovSetTimer 10 example_client) = rv_timer example_client" by code_simp
  moreover have "rv_timer example_client \<le> 1000000" "rv_timer example_client < timeForever" by code_simp+
  moreover have "elicitTotal example_client \<noteq> 0" by code_simp
  ultimately show ?thesis
    using recov_timeout_probes [of example_client 10 1000000 no_handlers "()"]
    by (cases "quicRecovOnTimeout no_handlers 1000000 (example_client, ())") auto
qed


section \<open>Congestion and pacing\<close>

text \<open>
  C26. One window cut per round trip: a congestion signal about a packet sent after the last cut halves
  the window, down to two datagrams at the least, and ends slow start; and until something sent after
  that moment is in trouble, any number of further signals changes nothing at all.
\<close>

theorem congestion_cut_once:
  assumes "recov_client I h" "I c0" "recov_reach h c0 (r, c) nx" "\<not> (rv_inRecovery r \<and> sent \<le> rv_recoveryStart r)"
    and "\<forall>(t, now1)\<in>set signals. t \<le> now"
  defines "r1 \<equiv> ccOnCongestion sent now r"
  shows "rv_window r1 = max (rv_window r div 2) (2 * int (rv_maxDatagram r)) \<and> rv_ssthresh r1 = rv_window r1
    \<and> foldl (\<lambda>r (t, now1). ccOnCongestion t now1 r) r1 signals = r1"
proof -
  have w: "0 \<le> rv_window r" using recov_client.recov_reach_inv [OF assms(1,3,2)] by (simp add: recov_inv_defs)
  have r1: "rv_inRecovery r1" "rv_recoveryStart r1 = now" using assms(4) by (auto simp: r1_def ccOnCongestion_def Let_def)
  have "foldl (\<lambda>r (t, now1). ccOnCongestion t now1 r) r1 signals = r1"
    using assms(5) r1 by (induction signals) (auto simp: ccOnCongestion_def)
  then show ?thesis
    using assms(4) w by (auto simp: r1_def ccOnCongestion_def Let_def ccMinWindow_def sdiv_nonneg_div max_def)
qed

theorem congestion_cut_once_witness:
  "rv_window (ccOnCongestion 10 50 example_sent) = 6000
    \<and> ccOnCongestion 40 60 (ccOnCongestion 10 50 example_sent) = ccOnCongestion 10 50 example_sent"
proof -
  have "\<not> (rv_inRecovery example_sent \<and> 10 \<le> rv_recoveryStart example_sent)" by code_simp
  moreover have "rv_window (ccOnCongestion 10 50 example_sent) = 6000" by code_simp
  ultimately show ?thesis
    using congestion_cut_once [OF no_handlers_ok TrueI example_sent_reach, of 10 "[(40, 60)]" 50] by simp
qed

lemma pacerRate_bounds:
  "window_inv r \<Longrightarrow> 0 \<le> pacerRate r \<and> pacerRate r \<le> 2 * QUIC_MAX_WINDOW"
  by (auto simp: pacerRate_def window_inv_def ccMinWindow_def sdiv_nonneg_div)

lemma pacerSrtt_bound: "QUIC_GRANULARITY \<le> pacerSrtt r"
  by (simp add: pacerSrtt_def Let_def)

text \<open>
  C27. The pacer's arithmetic stays inside an int64 in every reachable state: the product it divides is
  non-negative and below 2 to the 47, because the window has a ceiling and at most a second is credited.
  A refill never takes tokens away from a bucket that holds no more than a burst, and never
  leaves more than a burst in it.
\<close>

theorem pacer_refill_bounded:
  assumes "recov_client I h" "I c0" "recov_reach h c0 (r, c) nx" "rv_tokenTime r \<noteq> 0" "rv_tokenTime r < now"
  shows "0 \<le> min (now - rv_tokenTime r) 1000000 * pacerRate r
    \<and> min (now - rv_tokenTime r) 1000000 * pacerRate r < 2 ^ 47
    \<and> rv_tokens (quicRecovPacerRefill now r) \<le> 10 * int (rv_maxDatagram r)
    \<and> min (rv_tokens r) (10 * int (rv_maxDatagram r)) \<le> rv_tokens (quicRecovPacerRefill now r)"
proof -
  have inv: "window_inv r" using recov_client.recov_reach_inv [OF assms(1,3,2)] by (simp add: recov_inv_def)
  let ?e = "min (now - rv_tokenTime r) 1000000"
  have e: "0 \<le> ?e" "?e \<le> 1000000" using assms(5) by auto
  note rate = pacerRate_bounds [OF inv]
  have nn: "0 \<le> ?e * pacerRate r" using e rate by simp
  have "?e * pacerRate r \<le> 1000000 * (2 * QUIC_MAX_WINDOW)"
    using e rate by (intro mult_mono) auto
  then have b: "?e * pacerRate r < 2 ^ 47" by simp
  have earned: "0 \<le> (?e * pacerRate r) sdiv pacerSrtt r"
    using nn pacerSrtt_bound [of r] by (simp add: sdiv_nonneg_div pos_imp_zdiv_nonneg_iff)
  have "rv_tokens (quicRecovPacerRefill now r) =
      min (rv_tokens r + (?e * pacerRate r) sdiv pacerSrtt r) (10 * int (rv_maxDatagram r))"
    using assms(4,5) by (auto simp: quicRecovPacerRefill_def Let_def pacerBurst_def min_def)
  with nn b earned show ?thesis by simp
qed

theorem pacer_refill_bounded_witness:
  "rv_tokens (quicRecovPacerRefill 90 (quicRecovPacerRefill 60 example_sent)) \<le> 12000"
proof -
  let ?r = "quicRecovPacerRefill 60 example_sent"
  have "recov_reach no_handlers () (?r, ()) ((\<lambda>_. 0)(QUIC_PNS_APP := 4))"
    by (rule recov_reach.quiet [OF example_sent_reach]) (rule recov_quiet.intros)
  moreover have "rv_tokenTime ?r = 60" "rv_maxDatagram ?r = 1200" by code_simp+
  ultimately show ?thesis using pacer_refill_bounded [OF no_handlers_ok TrueI, of "()" ?r] by fastforce
qed

end
