(* ===== verification/QuicSendBuf.thy ===== *)
theory QuicSendBuf
  imports CxBuffer QuicWire
begin

text \<open>
  Send buffers (\<^verbatim>\<open>src/cxquic/sendbuf.c\<close>) and single control frames (the inline functions on
  \<^verbatim>\<open>QuicCtl\<close> in \<^verbatim>\<open>src/cxquic/conn_private.h\<close>). The chunk table with its count is a list; \<^verbatim>\<open>cap\<close> is
  kept, and what happens to the table on insertion and removal is a list operation.
\<close>

section \<open>Data\<close>

datatype ChunkState = QUIC_CHUNK_PENDING | QUIC_CHUNK_SENT | QUIC_CHUNK_ACKED

record QuicSendChunk =
  ch_off :: u64
  ch_end :: u64
  ch_pn :: u64
  ch_state :: ChunkState

record QuicSendBuf =
  sb_buf :: Buffer
  sb_base :: u64
  sb_end :: u64
  sb_chunks :: "QuicSendChunk list"
  sb_cap :: nat

abbreviation (input) QUIC_SEND_INIT_CHUNKS :: nat where "QUIC_SEND_INIT_CHUNKS \<equiv> 16"


section \<open>Operations\<close>

definition quicSendBufInit :: QuicSendBuf where
  "quicSendBufInit = \<lparr>sb_buf = None, sb_base = 0, sb_end = 0, sb_chunks = [], sb_cap = 0\<rparr>"

definition quicSendBufDestroy :: "QuicSendBuf \<Rightarrow> QuicSendBuf" where
  "quicSendBufDestroy sb = quicSendBufInit"

definition chunkReserve :: "QuicSendBuf \<Rightarrow> QuicSendBuf" where
  "chunkReserve sb =
     (if length (sb_chunks sb) < sb_cap sb then sb
      else sb\<lparr>sb_cap := (if sb_cap sb \<noteq> 0 then sb_cap sb * 2 else QUIC_SEND_INIT_CHUNKS)\<rparr>)"

definition chunkInsert :: "QuicSendBuf \<Rightarrow> nat \<Rightarrow> QuicSendChunk \<Rightarrow> QuicSendBuf" where
  "chunkInsert sb at ch =
     (let sb1 = chunkReserve sb
      in sb1\<lparr>sb_chunks := take at (sb_chunks sb1) @ [ch] @ drop at (sb_chunks sb1)\<rparr>)"

text \<open>Whether \<^verbatim>\<open>chunkMerge\<close> joins two neighbours, and its loop; removing \<open>b\<close> is \<^verbatim>\<open>chunkRemove\<close>.\<close>

definition chunkJoins :: "QuicSendChunk \<Rightarrow> QuicSendChunk \<Rightarrow> bool" where
  "chunkJoins a b \<longleftrightarrow> ch_end a = ch_off b \<and> ch_state a = ch_state b \<and>
     (ch_state a \<noteq> QUIC_CHUNK_SENT \<or> ch_pn a = ch_pn b)"

fun chunkMerge :: "QuicSendChunk list \<Rightarrow> QuicSendChunk list" where
  "chunkMerge (a # b # cs) =
     (if chunkJoins a b then chunkMerge (a\<lparr>ch_end := ch_end b\<rparr> # cs) else a # chunkMerge (b # cs))"
| "chunkMerge cs = cs"

definition sbMerge :: "QuicSendBuf \<Rightarrow> QuicSendBuf" where
  "sbMerge sb = sb\<lparr>sb_chunks := chunkMerge (sb_chunks sb)\<rparr>"

text \<open>Sliding the buffer down by \<open>n\<close> bytes.\<close>

definition bufSlide :: "Buffer \<Rightarrow> nat \<Rightarrow> Buffer" where
  "bufSlide buf n =
     (case buf of
        None \<Rightarrow> None
      | Some b \<Rightarrow>
          let keep = (if buf_len b > n then buf_len b - n else 0);
              data = (if keep > 0 then mem_write (buf_data b) 0 (take keep (drop n (buf_data b)))
                      else buf_data b)
          in Some \<lparr>buf_data = data, buf_len = keep\<rparr>)"

fun sendBufTrimLoop :: "QuicSendChunk list \<Rightarrow> u64 \<Rightarrow> Buffer \<Rightarrow> QuicSendChunk list \<times> u64 \<times> Buffer" where
  "sendBufTrimLoop [] base buf = ([], base, buf)"
| "sendBufTrimLoop (c # cs) base buf =
     (if ch_state c = QUIC_CHUNK_ACKED
      then sendBufTrimLoop cs (ch_end c) (bufSlide buf (unat (ch_end c - base)))
      else (c # cs, base, buf))"

definition sendBufTrim :: "QuicSendBuf \<Rightarrow> QuicSendBuf" where
  "sendBufTrim sb =
     (case sendBufTrimLoop (sb_chunks sb) (sb_base sb) (sb_buf sb) of
        (cs, base, buf) \<Rightarrow> sb\<lparr>sb_chunks := cs, sb_base := base, sb_buf := buf\<rparr>)"

text \<open>The doubling loop; see \<^verbatim>\<open>bufGrowLoop\<close> for the guard.\<close>

function sendBufWant :: "nat \<Rightarrow> nat \<Rightarrow> nat" where
  "sendBufWant want need = (if want < need \<and> 0 < want then sendBufWant (want * 2) need else want)"
  by pat_completeness auto
termination
  by (relation "measure (\<lambda>(want, need). need - want)") auto

declare sendBufWant.simps [simp del]

definition quicSendBufAdd :: "xalloc \<Rightarrow> QuicSendBuf \<Rightarrow> u8 list \<Rightarrow> bool \<times> QuicSendBuf" where
  "quicSendBufAdd xa sb data =
     (let len = length data in
      if len = 0 then (True, sb)
      else
        let extends = (sb_chunks sb \<noteq> [] \<and> ch_state (last (sb_chunks sb)) = QUIC_CHUNK_PENDING);
            used = unat (sb_end sb - sb_base sb);
            sz = (case sb_buf sb of None \<Rightarrow> 0 | Some b \<Rightarrow> buf_sz b);
            (ok, buf) = (if sb_buf sb = None \<or> sz < used + len
                         then bufTryResize xa (sb_buf sb)
                                (sendBufWant (if sb_buf sb \<noteq> None then sz else 1024) (used + len))
                         else (True, sb_buf sb))
        in case buf of
             None \<Rightarrow> (False, sb\<lparr>sb_buf := buf\<rparr>)
           | Some b \<Rightarrow>
               if \<not> ok then (False, sb\<lparr>sb_buf := buf\<rparr>)
               else
                 let off = sb_end sb;
                     sb1 = sb\<lparr>sb_buf := Some \<lparr>buf_data = mem_write (buf_data b) used data,
                                              buf_len = used + len\<rparr>,
                              sb_end := off + of_nat len\<rparr>
                 in if extends
                    then (True, sb1\<lparr>sb_chunks := (sb_chunks sb1)
                           [length (sb_chunks sb1) - 1 := (last (sb_chunks sb1))\<lparr>ch_end := sb_end sb1\<rparr>]\<rparr>)
                    else (True, chunkInsert sb1 (length (sb_chunks sb1))
                           \<lparr>ch_off = off, ch_end = sb_end sb1, ch_pn = QUIC_PN_NONE,
                            ch_state = QUIC_CHUNK_PENDING\<rparr>))"

text \<open>The loop that \<^verbatim>\<open>_quicSendBufNext\<close> and \<^verbatim>\<open>_quicSendBufProbe\<close> share: the first chunk in a state.\<close>

definition sbFirst :: "ChunkState \<Rightarrow> QuicSendBuf \<Rightarrow> nat \<Rightarrow> (u64 \<times> u8 list) option" where
  "sbFirst st sb mx =
     (if mx = 0 then None
      else
        case find (\<lambda>ch. ch_state ch = st) (sb_chunks sb) of
          None \<Rightarrow> None
        | Some ch \<Rightarrow>
            let n = min (unat (ch_end ch - ch_off ch)) mx
            in Some (ch_off ch, take n (drop (unat (ch_off ch - sb_base sb)) (buf_data (the (sb_buf sb))))))"

definition quicSendBufNext :: "QuicSendBuf \<Rightarrow> nat \<Rightarrow> (u64 \<times> u8 list) option" where
  "quicSendBufNext sb mx = sbFirst QUIC_CHUNK_PENDING sb mx"

definition quicSendBufProbe :: "QuicSendBuf \<Rightarrow> nat \<Rightarrow> (u64 \<times> u8 list) option" where
  "quicSendBufProbe sb mx = sbFirst QUIC_CHUNK_SENT sb mx"

text \<open>The loop of \<^verbatim>\<open>_quicSendBufSent\<close>: the index of the chunk it changes.\<close>

fun sentFind :: "QuicSendChunk list \<Rightarrow> u64 \<Rightarrow> nat option" where
  "sentFind [] off = None"
| "sentFind (c # cs) off =
     (if ch_state c \<noteq> QUIC_CHUNK_PENDING \<or> ch_off c \<noteq> off then map_option Suc (sentFind cs off)
      else Some 0)"

definition quicSendBufSent :: "QuicSendBuf \<Rightarrow> u64 \<Rightarrow> nat \<Rightarrow> u64 \<Rightarrow> QuicSendBuf" where
  "quicSendBufSent sb off len pn =
     (case sentFind (sb_chunks sb) off of
        None \<Rightarrow> sb
      | Some i \<Rightarrow>
          let ch = sb_chunks sb ! i in
          if unat (ch_end ch - ch_off ch) = len
          then sbMerge (sb\<lparr>sb_chunks := (sb_chunks sb)
                 [i := ch\<lparr>ch_state := QUIC_CHUNK_SENT, ch_pn := pn\<rparr>]\<rparr>)
          else sbMerge (chunkInsert
                 (sb\<lparr>sb_chunks := (sb_chunks sb)[i := ch\<lparr>ch_off := off + of_nat len\<rparr>]\<rparr>) i
                 \<lparr>ch_off = off, ch_end = off + of_nat len, ch_pn = pn, ch_state = QUIC_CHUNK_SENT\<rparr>))"

text \<open>The loop of \<^verbatim>\<open>_quicSendBufAcked\<close> and \<^verbatim>\<open>_quicSendBufLost\<close>: the chunks of one packet change state.\<close>

definition chunkSettle :: "ChunkState \<Rightarrow> u64 \<Rightarrow> QuicSendChunk \<Rightarrow> QuicSendChunk" where
  "chunkSettle st pn c =
     (if ch_state c = QUIC_CHUNK_SENT \<and> ch_pn c = pn
      then c\<lparr>ch_state := st, ch_pn := QUIC_PN_NONE\<rparr> else c)"

definition quicSendBufAcked :: "QuicSendBuf \<Rightarrow> u64 \<Rightarrow> QuicSendBuf" where
  "quicSendBufAcked sb pn =
     sendBufTrim (sbMerge (sb\<lparr>sb_chunks := map (chunkSettle QUIC_CHUNK_ACKED pn) (sb_chunks sb)\<rparr>))"

definition quicSendBufLost :: "QuicSendBuf \<Rightarrow> u64 \<Rightarrow> QuicSendBuf" where
  "quicSendBufLost sb pn =
     sbMerge (sb\<lparr>sb_chunks := map (chunkSettle QUIC_CHUNK_PENDING pn) (sb_chunks sb)\<rparr>)"

definition quicSendBufReset :: "QuicSendBuf \<Rightarrow> QuicSendBuf" where
  "quicSendBufReset sb =
     sbMerge (sb\<lparr>sb_chunks := map (\<lambda>c. c\<lparr>ch_state := QUIC_CHUNK_PENDING, ch_pn := QUIC_PN_NONE\<rparr>)
                                (sb_chunks sb)\<rparr>)"

definition quicSendBufPending :: "QuicSendBuf \<Rightarrow> bool" where
  "quicSendBufPending sb = list_ex (\<lambda>c. ch_state c = QUIC_CHUNK_PENDING) (sb_chunks sb)"

definition quicSendBufOutstanding :: "QuicSendBuf \<Rightarrow> u64" where
  "quicSendBufOutstanding sb =
     foldl (\<lambda>n c. if ch_state c \<noteq> QUIC_CHUNK_ACKED then n + (ch_end c - ch_off c) else n) 0
       (sb_chunks sb)"


section \<open>Chunks cover the stream\<close>

fun chain :: "u64 \<Rightarrow> QuicSendChunk list \<Rightarrow> u64 \<Rightarrow> bool" where
  "chain b [] e \<longleftrightarrow> b = e"
| "chain b (c # cs) e \<longleftrightarrow> ch_off c = b \<and> b < ch_end c \<and> chain (ch_end c) cs e"

text \<open>Neighbours that would behave identically have been joined.\<close>

fun merged :: "QuicSendChunk list \<Rightarrow> bool" where
  "merged (a # b # cs) \<longleftrightarrow> \<not> chunkJoins a b \<and> merged (b # cs)"
| "merged cs \<longleftrightarrow> True"

text \<open>The state of the byte at an offset, with the packet that carries it while it is in flight.\<close>

definition chunk_status :: "QuicSendChunk \<Rightarrow> ChunkState \<times> u64" where
  "chunk_status c = (ch_state c, if ch_state c = QUIC_CHUNK_SENT then ch_pn c else QUIC_PN_NONE)"

fun status :: "QuicSendChunk list \<Rightarrow> u64 \<Rightarrow> (ChunkState \<times> u64) option" where
  "status [] x = None"
| "status (c # cs) x = (if ch_off c \<le> x \<and> x < ch_end c then Some (chunk_status c) else status cs x)"

lemma chain_le: "chain b cs e \<Longrightarrow> b \<le> e"
proof (induction cs arbitrary: b)
  case (Cons c cs)
  then show ?case by (metis chain.simps(2) less_imp_le order_trans)
qed simp

lemma chain_append: "chain b (xs @ ys) e \<longleftrightarrow> (\<exists>m. chain b xs m \<and> chain m ys e)"
  by (induction xs arbitrary: b) auto

lemma chain_bounds: "chain b cs e \<Longrightarrow> c \<in> set cs \<Longrightarrow> b \<le> ch_off c \<and> ch_off c < ch_end c \<and> ch_end c \<le> e"
proof (induction cs arbitrary: b)
  case (Cons d cs)
  then show ?case
    using chain_le [of "ch_end d" cs e] by (fastforce dest: less_imp_le order_trans)
qed simp

lemma status_None: "chain b cs e \<Longrightarrow> status cs x = None \<longleftrightarrow> x < b \<or> e \<le> x"
proof (induction cs arbitrary: b)
  case (Cons c cs)
  then show ?case using chain_le [of "ch_end c" cs e] by auto
qed auto

lemma chunkMerge_chain: "chain b cs e \<Longrightarrow> chain b (chunkMerge cs) e"
  by (induction cs arbitrary: b rule: chunkMerge.induct) (auto simp: chunkJoins_def)

lemma chunkMerge_shape:
  "merged (chunkMerge cs) \<and> length (chunkMerge cs) \<le> length cs \<and>
   (cs \<noteq> [] \<longrightarrow> chunkMerge cs \<noteq> [] \<and> ch_off (hd (chunkMerge cs)) = ch_off (hd cs)
    \<and> ch_state (hd (chunkMerge cs)) = ch_state (hd cs) \<and> ch_pn (hd (chunkMerge cs)) = ch_pn (hd cs))"
proof (induction cs rule: chunkMerge.induct)
  case (1 a b cs)
  show ?case
  proof (cases "chunkJoins a b")
    case True
    with 1 show ?thesis by simp
  next
    case False
    with 1 show ?thesis by (cases "chunkMerge (b # cs)") (auto simp: chunkJoins_def)
  qed
qed auto

lemma chunkMerge_status: "chain b cs e \<Longrightarrow> status (chunkMerge cs) x = status cs x"
proof (induction cs arbitrary: b rule: chunkMerge.induct)
  case (1 a c cs)
  show ?case
  proof (cases "chunkJoins a c")
    case True
    with 1 have "status (chunkMerge (a\<lparr>ch_end := ch_end c\<rparr> # cs)) x = status (a\<lparr>ch_end := ch_end c\<rparr> # cs) x"
      by (intro 1(1)) (auto simp: chunkJoins_def)
    moreover have "chunk_status (a\<lparr>ch_end := ch_end c\<rparr>) = chunk_status a" "chunk_status a = chunk_status c"
      using True by (auto simp: chunk_status_def chunkJoins_def)
    ultimately show ?thesis
      using True 1(3) by (auto simp: chunkJoins_def)
  next
    case False
    with 1 show ?thesis by (auto simp: chunkJoins_def)
  qed
qed simp_all


section \<open>The invariant\<close>

text \<open>The bytes held, from the first one the peer has not acknowledged.\<close>

definition sb_bytes :: "QuicSendBuf \<Rightarrow> u8 list" where
  "sb_bytes sb = buf_bytes (sb_buf sb)"

definition buf_holds :: "Buffer \<Rightarrow> nat \<Rightarrow> bool" where
  "buf_holds buf n \<longleftrightarrow>
     (case buf of None \<Rightarrow> n = 0 | Some b \<Rightarrow> 1024 \<le> buf_sz b \<and> buf_len b = n \<and> n \<le> buf_sz b)"

definition sb_inv :: "QuicSendBuf \<Rightarrow> bool" where
  "sb_inv sb \<longleftrightarrow>
     chain (sb_base sb) (sb_chunks sb) (sb_end sb) \<and> merged (sb_chunks sb) \<and>
     (sb_chunks sb \<noteq> [] \<longrightarrow> ch_state (hd (sb_chunks sb)) \<noteq> QUIC_CHUNK_ACKED) \<and>
     buf_holds (sb_buf sb) (unat (sb_end sb - sb_base sb)) \<and> length (sb_chunks sb) \<le> sb_cap sb"

lemma buf_holds_length: "buf_holds buf n \<Longrightarrow> length (buf_bytes buf) = n"
  by (auto simp: buf_holds_def buf_bytes_def split: option.splits)

lemma bufSlide_ok:
  assumes "buf_holds buf n" "k \<le> n"
  shows "buf_holds (bufSlide buf k) (n - k)" "buf_bytes (bufSlide buf k) = drop k (buf_bytes buf)"
proof -
  show "buf_holds (bufSlide buf k) (n - k)"
    using assms by (auto simp: buf_holds_def bufSlide_def Let_def split: option.splits)
  show "buf_bytes (bufSlide buf k) = drop k (buf_bytes buf)"
    using assms
    by (auto simp: buf_holds_def bufSlide_def buf_bytes_def Let_def mem_write_def drop_take
        split: option.splits)
qed

lemma merged_tl: "merged (c # cs) \<Longrightarrow> merged cs"
  by (cases cs) auto

lemma sendBufTrimLoop_ok:
  assumes "sendBufTrimLoop cs base buf = (cs', base', buf')" "chain base cs e"
    and "buf_holds buf (unat (e - base))" "merged cs"
  shows "chain base' cs' e \<and> merged cs' \<and> base \<le> base' \<and> buf_holds buf' (unat (e - base'))
    \<and> (cs' \<noteq> [] \<longrightarrow> ch_state (hd cs') \<noteq> QUIC_CHUNK_ACKED) \<and> length cs' \<le> length cs
    \<and> buf_bytes buf' = drop (unat (base' - base)) (buf_bytes buf)
    \<and> (\<forall>x. status cs' x = (if x < base' then None else status cs x))
    \<and> (\<forall>x. base \<le> x \<and> x < base' \<longrightarrow> status cs x = Some (QUIC_CHUNK_ACKED, QUIC_PN_NONE))"
  using assms
proof (induction cs base buf rule: sendBufTrimLoop.induct)
  case (1 base buf)
  then show ?case by auto
next
  case (2 c cs base buf)
  show ?case
  proof (cases "ch_state c = QUIC_CHUNK_ACKED")
    case True
    have ce: "base < ch_end c" "chain (ch_end c) cs e" "ch_off c = base" using 2(3) by auto
    have le: "ch_end c \<le> e" using chain_le [OF ce(2)] .
    have k: "unat (ch_end c - base) \<le> unat (e - base)"
      "unat (e - base) - unat (ch_end c - base) = unat (e - ch_end c)"
      using le ce(1) by (simp_all add: unat_word_sub word_le_nat_alt word_less_nat_alt)
    note sl = bufSlide_ok [OF 2(4) k(1)]
    have IH: "chain base' cs' e \<and> merged cs' \<and> ch_end c \<le> base' \<and> buf_holds buf' (unat (e - base'))
      \<and> (cs' \<noteq> [] \<longrightarrow> ch_state (hd cs') \<noteq> QUIC_CHUNK_ACKED) \<and> length cs' \<le> length cs
      \<and> buf_bytes buf' = drop (unat (base' - ch_end c)) (buf_bytes (bufSlide buf (unat (ch_end c - base))))
      \<and> (\<forall>x. status cs' x = (if x < base' then None else status cs x))
      \<and> (\<forall>x. ch_end c \<le> x \<and> x < base' \<longrightarrow> status cs x = Some (QUIC_CHUNK_ACKED, QUIC_PN_NONE))"
      using 2(1) [OF True _ ce(2)] 2(2) True sl(1) merged_tl [OF 2(5)] by (simp add: k(2))
    have "unat (base' - ch_end c) + unat (ch_end c - base) = unat (base' - base)"
      using IH ce(1) by (auto simp: unat_word_sub word_le_nat_alt word_less_nat_alt)
    then have "buf_bytes buf' = drop (unat (base' - base)) (buf_bytes buf)"
      using IH sl(2) by simp
    moreover have "status (c # cs) x = Some (QUIC_CHUNK_ACKED, QUIC_PN_NONE)"
      if "base \<le> x" "x < base'" for x
      using that True IH ce(3) by (auto simp: chunk_status_def)
    ultimately show ?thesis using IH ce by (auto simp: less_imp_le)
  next
    case False
    then have "cs' = c # cs" "base' = base" "buf' = buf" using 2(2) by auto
    moreover have "status (c # cs) x = None" if "x < base" for x
      using status_None [OF 2(3), of x] that by simp
    ultimately show ?thesis using False 2(3-5) by auto
  qed
qed


section \<open>What each operation does to the state of a byte\<close>

abbreviation (input) sb_status :: "QuicSendBuf \<Rightarrow> u64 \<Rightarrow> (ChunkState \<times> u64) option" where
  "sb_status sb \<equiv> status (sb_chunks sb)"

definition settle_status :: "ChunkState \<Rightarrow> u64 \<Rightarrow> ChunkState \<times> u64 \<Rightarrow> ChunkState \<times> u64" where
  "settle_status st pn s = (if s = (QUIC_CHUNK_SENT, pn) then (st, QUIC_PN_NONE) else s)"

lemma status_append:
  "status (A @ B) x = (case status A x of None \<Rightarrow> status B x | Some s \<Rightarrow> Some s)"
  by (induction A) auto

lemma chain_map:
  assumes "\<And>c. ch_off (f c) = ch_off c \<and> ch_end (f c) = ch_end c"
  shows "chain b (map f cs) e = chain b cs e"
  by (induction cs arbitrary: b) (simp_all add: assms)

lemma status_map:
  assumes "\<And>c. ch_off (f c) = ch_off c \<and> ch_end (f c) = ch_end c"
    and "\<And>c. chunk_status (f c) = g (chunk_status c)"
  shows "status (map f cs) x = map_option g (status cs x)"
  by (induction cs) (simp_all add: assms)

lemma settle_chunk:
  "ch_off (chunkSettle st pn c) = ch_off c" "ch_end (chunkSettle st pn c) = ch_end c"
  "st \<noteq> QUIC_CHUNK_SENT \<Longrightarrow> chunk_status (chunkSettle st pn c) = settle_status st pn (chunk_status c)"
  by (auto simp: chunkSettle_def chunk_status_def settle_status_def)

lemma sbMerge_inv:
  assumes "chain (sb_base sb) (sb_chunks sb) (sb_end sb)"
    and "sb_chunks sb \<noteq> [] \<longrightarrow> ch_state (hd (sb_chunks sb)) \<noteq> QUIC_CHUNK_ACKED"
    and "buf_holds (sb_buf sb) (unat (sb_end sb - sb_base sb))" "length (sb_chunks sb) \<le> sb_cap sb"
  shows "sb_inv (sbMerge sb)" "sb_status (sbMerge sb) = sb_status sb"
  using assms chunkMerge_chain [OF assms(1)] chunkMerge_shape [of "sb_chunks sb"]
    chunkMerge_status [OF assms(1)]
  by (cases "sb_chunks sb = []"; auto simp: sb_inv_def sbMerge_def)+

lemma quicSendBufLost_ok:
  assumes "sb_inv sb"
  shows "sb_inv (quicSendBufLost sb pn)"
    "sb_status (quicSendBufLost sb pn) = (\<lambda>x. map_option (settle_status QUIC_CHUNK_PENDING pn) (sb_status sb x))"
    "sb_bytes (quicSendBufLost sb pn) = sb_bytes sb"
proof -
  let ?f = "chunkSettle QUIC_CHUNK_PENDING pn"
  let ?sb = "sb\<lparr>sb_chunks := map ?f (sb_chunks sb)\<rparr>"
  have hd: "ch_state (hd (map ?f (sb_chunks sb))) \<noteq> QUIC_CHUNK_ACKED" if "sb_chunks sb \<noteq> []"
    using that assms by (cases "sb_chunks sb") (auto simp: sb_inv_def chunkSettle_def)
  note m = sbMerge_inv [of ?sb]
  show "sb_inv (quicSendBufLost sb pn)"
    using assms hd unfolding quicSendBufLost_def
    by (intro m(1)) (simp_all add: sb_inv_def chain_map settle_chunk)
  have "sb_status (quicSendBufLost sb pn) = status (map ?f (sb_chunks sb))"
    using assms hd unfolding quicSendBufLost_def
    by (subst m(2)) (simp_all add: sb_inv_def chain_map settle_chunk)
  then show "sb_status (quicSendBufLost sb pn) =
      (\<lambda>x. map_option (settle_status QUIC_CHUNK_PENDING pn) (sb_status sb x))"
    by (simp add: fun_eq_iff status_map settle_chunk)
  show "sb_bytes (quicSendBufLost sb pn) = sb_bytes sb"
    by (simp add: quicSendBufLost_def sbMerge_def sb_bytes_def)
qed

lemma quicSendBufReset_ok:
  assumes "sb_inv sb"
  shows "sb_inv (quicSendBufReset sb)"
    "sb_status (quicSendBufReset sb) = (\<lambda>x. map_option (\<lambda>_. (QUIC_CHUNK_PENDING, QUIC_PN_NONE)) (sb_status sb x))"
    "sb_bytes (quicSendBufReset sb) = sb_bytes sb"
proof -
  let ?f = "\<lambda>c. c\<lparr>ch_state := QUIC_CHUNK_PENDING, ch_pn := QUIC_PN_NONE\<rparr>"
  let ?sb = "sb\<lparr>sb_chunks := map ?f (sb_chunks sb)\<rparr>"
  note m = sbMerge_inv [of ?sb]
  show "sb_inv (quicSendBufReset sb)"
    using assms unfolding quicSendBufReset_def
    by (intro m(1)) (simp_all add: sb_inv_def chain_map hd_map)
  have "sb_status (quicSendBufReset sb) = status (map ?f (sb_chunks sb))"
    using assms unfolding quicSendBufReset_def
    by (subst m(2)) (simp_all add: sb_inv_def chain_map hd_map)
  then show "sb_status (quicSendBufReset sb) =
      (\<lambda>x. map_option (\<lambda>_. (QUIC_CHUNK_PENDING, QUIC_PN_NONE)) (sb_status sb x))"
    by (simp add: fun_eq_iff status_map chunk_status_def)
  show "sb_bytes (quicSendBufReset sb) = sb_bytes sb"
    by (simp add: quicSendBufReset_def sbMerge_def sb_bytes_def)
qed

lemma quicSendBufAcked_ok:
  fixes sb pn
  defines "sb' \<equiv> quicSendBufAcked sb pn"
  assumes "sb_inv sb"
  shows "sb_inv sb'" "sb_end sb' = sb_end sb" "sb_base sb \<le> sb_base sb'"
    "sb_bytes sb' = drop (unat (sb_base sb' - sb_base sb)) (sb_bytes sb)"
    "sb_status sb' x = (if x < sb_base sb' then None
       else map_option (settle_status QUIC_CHUNK_ACKED pn) (sb_status sb x))"
    "sb_base sb \<le> x \<and> x < sb_base sb' \<Longrightarrow>
      map_option (settle_status QUIC_CHUNK_ACKED pn) (sb_status sb x) = Some (QUIC_CHUNK_ACKED, QUIC_PN_NONE)"
proof -
  let ?f = "chunkSettle QUIC_CHUNK_ACKED pn"
  define cs where "cs = map ?f (sb_chunks sb)"
  have ch: "chain (sb_base sb) cs (sb_end sb)"
    using assms(2) by (simp add: cs_def sb_inv_def chain_map settle_chunk)
  have st: "status (chunkMerge cs) x = map_option (settle_status QUIC_CHUNK_ACKED pn) (sb_status sb x)" for x
    using chunkMerge_status [OF ch] by (simp add: cs_def status_map settle_chunk)
  obtain cs' base' buf' where t: "sendBufTrimLoop (chunkMerge cs) (sb_base sb) (sb_buf sb) = (cs', base', buf')"
    by (metis surj_pair)
  have sb': "sb' = sb\<lparr>sb_chunks := cs', sb_base := base', sb_buf := buf'\<rparr>"
    using t by (simp add: sb'_def quicSendBufAcked_def sendBufTrim_def sbMerge_def flip: cs_def)
  have inv: "buf_holds (sb_buf sb) (unat (sb_end sb - sb_base sb))" "length cs \<le> sb_cap sb"
    using assms(2) by (simp_all add: sb_inv_def cs_def)
  note ok = sendBufTrimLoop_ok [OF t chunkMerge_chain [OF ch] inv(1)]
  show "sb_inv sb'"
    using ok chunkMerge_shape [of cs] inv(2) by (auto simp: sb' sb_inv_def)
  show "sb_end sb' = sb_end sb" "sb_base sb \<le> sb_base sb'"
    "sb_bytes sb' = drop (unat (sb_base sb' - sb_base sb)) (sb_bytes sb)"
    using ok chunkMerge_shape [of cs] by (simp_all add: sb' sb_bytes_def)
  show "sb_status sb' x = (if x < sb_base sb' then None
       else map_option (settle_status QUIC_CHUNK_ACKED pn) (sb_status sb x))"
    "sb_base sb \<le> x \<and> x < sb_base sb' \<Longrightarrow>
      map_option (settle_status QUIC_CHUNK_ACKED pn) (sb_status sb x) = Some (QUIC_CHUNK_ACKED, QUIC_PN_NONE)"
    using ok chunkMerge_shape [of cs] by (simp_all add: sb' st [symmetric])
qed


lemma find_split:
  "find P cs = Some c \<Longrightarrow> \<exists>A B. cs = A @ c # B \<and> P c \<and> (\<forall>a\<in>set A. \<not> P a)"
proof (induction cs)
  case (Cons a cs)
  show ?case
  proof (cases "P a")
    case True
    with Cons show ?thesis by (intro exI [of _ "[]"] exI [of _ cs]) auto
  next
    case False
    with Cons obtain A B where "cs = A @ c # B \<and> P c \<and> (\<forall>a\<in>set A. \<not> P a)" by auto
    with False show ?thesis by (intro exI [of _ "a # A"] exI [of _ B]) auto
  qed
qed simp

lemma sentFind_split:
  assumes "cs = A @ c # B" "ch_state c = QUIC_CHUNK_PENDING" "\<forall>a\<in>set A. ch_state a \<noteq> QUIC_CHUNK_PENDING"
  shows "sentFind cs (ch_off c) = Some (length A)"
  using assms by (induction A arbitrary: cs) auto

text \<open>The first chunk in a state, with its bytes.\<close>

lemma sbFirst_ok:
  assumes "sb_inv sb" "sbFirst st sb mx = Some (off, d)"
  obtains A c B where "sb_chunks sb = A @ c # B" "ch_state c = st" "\<forall>a\<in>set A. ch_state a \<noteq> st"
    "ch_off c = off" "length d = min (unat (ch_end c - ch_off c)) mx" "0 < length d"
    "d = take (length d) (drop (unat (off - sb_base sb)) (sb_bytes sb))"
proof -
  obtain c where c: "find (\<lambda>ch. ch_state ch = st) (sb_chunks sb) = Some c" "0 < mx" "off = ch_off c"
      "d = take (min (unat (ch_end c - ch_off c)) mx)
        (drop (unat (off - sb_base sb)) (buf_data (the (sb_buf sb))))"
    using assms(2) by (auto simp: sbFirst_def Let_def split: option.splits if_splits)
  obtain A B where AB: "sb_chunks sb = A @ c # B" "ch_state c = st" "\<forall>a\<in>set A. ch_state a \<noteq> st"
    using find_split [OF c(1)] by auto
  have bd: "sb_base sb \<le> ch_off c" "ch_off c < ch_end c" "ch_end c \<le> sb_end sb"
    using chain_bounds [of "sb_base sb" "sb_chunks sb" "sb_end sb" c] assms(1) AB by (auto simp: sb_inv_def)
  then have u: "unat (ch_end c - ch_off c) = unat (ch_end c) - unat (ch_off c)"
    "unat (off - sb_base sb) = unat (ch_off c) - unat (sb_base sb)"
    "unat (sb_end sb - sb_base sb) = unat (sb_end sb) - unat (sb_base sb)"
    by (simp_all add: c(3) unat_word_sub less_imp_le)
  have lt: "unat (off - sb_base sb) + unat (ch_end c - ch_off c) \<le> unat (sb_end sb - sb_base sb)"
    "0 < unat (ch_end c - ch_off c)"
    using bd unfolding u by (simp_all add: word_le_nat_alt word_less_nat_alt)
  obtain b where b: "sb_buf sb = Some b" "buf_len b = unat (sb_end sb - sb_base sb)" "buf_len b \<le> buf_sz b"
    using assms(1) lt by (auto simp: sb_inv_def buf_holds_def split: option.splits)
  have len: "length d = min (unat (ch_end c - ch_off c)) mx" using c(4) b lt(1) by simp
  have "d = take (length d) (drop (unat (off - sb_base sb)) (sb_bytes sb))"
    using c(4) b lt(1) unfolding len by (simp add: sb_bytes_def buf_bytes_def drop_take)
  moreover have "0 < length d" using len lt(2) c(2) by simp
  ultimately show ?thesis by (intro that [OF AB c(3) [symmetric] len])
qed

text \<open>The chunk list after the first \<open>n\<close> bytes of a pending chunk went out.\<close>

definition sent_chunks :: "QuicSendChunk list \<Rightarrow> QuicSendChunk \<Rightarrow> QuicSendChunk list \<Rightarrow> nat \<Rightarrow> u64 \<Rightarrow> QuicSendChunk list" where
  "sent_chunks A c B n pn =
     (if unat (ch_end c - ch_off c) = n then A @ c\<lparr>ch_state := QUIC_CHUNK_SENT, ch_pn := pn\<rparr> # B
      else A @ \<lparr>ch_off = ch_off c, ch_end = ch_off c + of_nat n, ch_pn = pn, ch_state = QUIC_CHUNK_SENT\<rparr>
             # c\<lparr>ch_off := ch_off c + of_nat n\<rparr> # B)"

lemma sent_chunks_ok:
  assumes ch: "chain b (A @ c # B) e" and n: "0 < n" "n \<le> unat (ch_end c - ch_off c)"
    and pend: "ch_state c = QUIC_CHUNK_PENDING"
  shows "chain b (sent_chunks A c B n pn) e" "unat (ch_off c + of_nat n) = unat (ch_off c) + n"
    "status (sent_chunks A c B n pn) x = (if ch_off c \<le> x \<and> x < ch_off c + of_nat n
       then Some (QUIC_CHUNK_SENT, pn) else status (A @ c # B) x)"
proof -
  obtain m where m: "chain b A m" "ch_off c = m" "m < ch_end c" "chain (ch_end c) B e"
    using ch by (auto simp: chain_append)
  have u: "unat (ch_end c - ch_off c) = unat (ch_end c) - unat (ch_off c)"
    using m by (simp add: unat_word_sub less_imp_le)
  have "n < 2 ^ 64" "unat (ch_off c) + n < 2 ^ 64"
    using n u unsigned_less [where 'a = nat, of "ch_end c"] by simp_all
  then show o: "unat (ch_off c + of_nat n) = unat (ch_off c) + n"
    by (simp add: unat_word_add unat_of_nat_small)
  have mid: "ch_off c < ch_off c + of_nat n" "ch_off c + of_nat n \<le> ch_end c"
    using o n u m by (simp_all add: word_less_nat_alt word_le_nat_alt)
  have full: "ch_off c + of_nat n = ch_end c \<longleftrightarrow> unat (ch_end c - ch_off c) = n"
    using o u m(2,3) n unfolding word_unat_eq_iff [of "ch_off c + of_nat n"]
    by (auto simp: word_less_nat_alt)
  then have part: "ch_off c + of_nat n < ch_end c" if "unat (ch_end c - ch_off c) \<noteq> n"
    using that mid(2) by auto
  show "chain b (sent_chunks A c B n pn) e"
    using m mid(1) part by (auto simp: sent_chunks_def chain_append)
  have before: "status A y = None" if "ch_off c \<le> y" for y
    using status_None [OF m(1), of y] that m(2) by auto
  show "status (sent_chunks A c B n pn) x = (if ch_off c \<le> x \<and> x < ch_off c + of_nat n
       then Some (QUIC_CHUNK_SENT, pn) else status (A @ c # B) x)"
    using before [of x] mid part full pend
    by (auto simp: sent_chunks_def status_append chunk_status_def split: option.splits)
qed

lemma quicSendBufSent_ok:
  assumes inv: "sb_inv sb" and nx: "quicSendBufNext sb mx = Some (off, d)"
  shows "sb_inv (quicSendBufSent sb off (length d) pn)"
    "unat (off + of_nat (length d)) = unat off + length d"
    "sb_status (quicSendBufSent sb off (length d) pn) x =
      (if off \<le> x \<and> x < off + of_nat (length d) then Some (QUIC_CHUNK_SENT, pn) else sb_status sb x)"
    "sb_bytes (quicSendBufSent sb off (length d) pn) = sb_bytes sb"
    "sb_base (quicSendBufSent sb off (length d) pn) = sb_base sb"
    "sb_end (quicSendBufSent sb off (length d) pn) = sb_end sb"
proof -
  obtain A c B where c: "sb_chunks sb = A @ c # B" "ch_state c = QUIC_CHUNK_PENDING"
      "\<forall>a\<in>set A. ch_state a \<noteq> QUIC_CHUNK_PENDING" "ch_off c = off"
      "length d = min (unat (ch_end c - ch_off c)) mx" "0 < length d"
    using sbFirst_ok [OF inv nx [unfolded quicSendBufNext_def]] by metis
  define cs where "cs = sent_chunks A c B (length d) pn"
  have n: "length d \<le> unat (ch_end c - ch_off c)" using c(5) by simp
  have ch: "chain (sb_base sb) (A @ c # B) (sb_end sb)" using inv c(1) by (simp add: sb_inv_def)
  have ok: "chain (sb_base sb) cs (sb_end sb)" "unat (ch_off c + of_nat (length d)) = unat (ch_off c) + length d"
    "status cs x = (if ch_off c \<le> x \<and> x < ch_off c + of_nat (length d)
       then Some (QUIC_CHUNK_SENT, pn) else status (A @ c # B) x)"
    unfolding cs_def by (rule sent_chunks_ok [OF ch c(6) n c(2)])+
  obtain cap where sb': "quicSendBufSent sb off (length d) pn = sbMerge (sb\<lparr>sb_cap := cap, sb_chunks := cs\<rparr>)"
    and cap: "length cs \<le> cap"
  proof (cases "unat (ch_end c - ch_off c) = length d")
    case True
    then show ?thesis
      using sentFind_split [OF c(1-3)] inv
      by (intro that [of "sb_cap sb"])
        (simp_all add: quicSendBufSent_def Let_def c(1) c(4) [symmetric] cs_def sent_chunks_def sb_inv_def)
  next
    case False
    let ?cap = "if length (sb_chunks sb) < sb_cap sb then sb_cap sb
      else if sb_cap sb \<noteq> 0 then sb_cap sb * 2 else QUIC_SEND_INIT_CHUNKS"
    have "length (sb_chunks sb) \<le> sb_cap sb" using inv by (simp add: sb_inv_def)
    with False show ?thesis
      using sentFind_split [OF c(1-3)]
      by (intro that [of ?cap])
        (auto simp: quicSendBufSent_def Let_def c(1) c(4) [symmetric] cs_def sent_chunks_def
          chunkInsert_def chunkReserve_def)
  qed
  have hd: "ch_state (hd cs) \<noteq> QUIC_CHUNK_ACKED"
    using inv c by (cases A) (auto simp: cs_def sent_chunks_def sb_inv_def)
  have base: "buf_holds (sb_buf sb) (unat (sb_end sb - sb_base sb))" using inv by (simp add: sb_inv_def)
  note m = sbMerge_inv [of "sb\<lparr>sb_cap := cap, sb_chunks := cs\<rparr>"]
  show "sb_inv (quicSendBufSent sb off (length d) pn)"
    unfolding sb' using ok(1) hd base cap by (intro m(1)) simp_all
  show "sb_status (quicSendBufSent sb off (length d) pn) x =
      (if off \<le> x \<and> x < off + of_nat (length d) then Some (QUIC_CHUNK_SENT, pn) else sb_status sb x)"
    unfolding sb' using ok(1) hd base cap ok(3) c(1,4) by (subst m(2)) simp_all
  show "unat (off + of_nat (length d)) = unat off + length d" using ok(2) c(4) by simp
  show "sb_bytes (quicSendBufSent sb off (length d) pn) = sb_bytes sb"
    "sb_base (quicSendBufSent sb off (length d) pn) = sb_base sb"
    "sb_end (quicSendBufSent sb off (length d) pn) = sb_end sb"
    by (simp_all add: sb' sbMerge_def sb_bytes_def)
qed


lemma sendBufWant_ge: "0 < want \<Longrightarrow> need \<le> sendBufWant want need \<and> want \<le> sendBufWant want need"
proof (induction want need rule: sendBufWant.induct)
  case (1 want need)
  then show ?case by (auto simp: sendBufWant.simps [of want need])
qed

text \<open>Storing \<open>d\<close> behind what a buffer holds, growing it first when it is too small.\<close>

lemma sb_store:
  assumes "buf_holds buf n"
    and "(if buf = None \<or> (case buf of None \<Rightarrow> 0 | Some b \<Rightarrow> buf_sz b) < n + length d
       then bufTryResize xa buf (sendBufWant (if buf \<noteq> None then (case buf of None \<Rightarrow> 0 | Some b \<Rightarrow> buf_sz b)
         else 1024) (n + length d)) else (True, buf)) = (True, Some b)"
  shows "buf_holds (Some \<lparr>buf_data = mem_write (buf_data b) n d, buf_len = n + length d\<rparr>) (n + length d)"
    "buf_bytes (Some \<lparr>buf_data = mem_write (buf_data b) n d, buf_len = n + length d\<rparr>) = buf_bytes buf @ d"
proof -
  have sz: "n + length d \<le> buf_sz b \<and> 1024 \<le> buf_sz b \<and> take n (buf_data b) = buf_bytes buf"
  proof (cases buf)
    case None
    then have "b = bufCreate xa (sendBufWant 1024 (n + length d))" "n = 0"
      using assms by (auto simp: buf_holds_def bufTryResize_def bufTryCreate_def Let_def split: if_splits)
    with None sendBufWant_ge [of 1024 "n + length d"] show ?thesis
      by (auto simp: bufCreate_def buf_bytes_def)
  next
    case (Some b0)
    then have b0: "1024 \<le> buf_sz b0" "buf_len b0 = n" "n \<le> buf_sz b0" using assms(1) by (auto simp: buf_holds_def)
    then have "0 < buf_sz b0" by linarith
    from sendBufWant_ge [OF this, of "n + length d"] Some assms(2) b0 show ?thesis
      by (auto simp: bufTryResize_def buf_bytes_def take_xa_resize split: if_splits)
  qed
  then show "buf_holds (Some \<lparr>buf_data = mem_write (buf_data b) n d, buf_len = n + length d\<rparr>) (n + length d)"
    "buf_bytes (Some \<lparr>buf_data = mem_write (buf_data b) n d, buf_len = n + length d\<rparr>) = buf_bytes buf @ d"
    by (simp_all add: buf_holds_def buf_bytes_def mem_simps)
qed

lemma merged_snoc:
  "merged (cs @ [c]) \<longleftrightarrow> merged cs \<and> (cs \<noteq> [] \<longrightarrow> \<not> chunkJoins (last cs) c)"
  by (induction cs rule: merged.induct) auto

text \<open>The chunk list after bytes up to \<open>e'\<close> were added.\<close>

definition added_chunks :: "QuicSendChunk list \<Rightarrow> u64 \<Rightarrow> u64 \<Rightarrow> QuicSendChunk list" where
  "added_chunks cs e e' =
     (if cs \<noteq> [] \<and> ch_state (last cs) = QUIC_CHUNK_PENDING then butlast cs @ [(last cs)\<lparr>ch_end := e'\<rparr>]
      else cs @ [\<lparr>ch_off = e, ch_end = e', ch_pn = QUIC_PN_NONE, ch_state = QUIC_CHUNK_PENDING\<rparr>])"

lemma added_chunks_ok:
  assumes ch: "chain b cs e" and "merged cs" "e < e'"
    and hd: "cs \<noteq> [] \<longrightarrow> ch_state (hd cs) \<noteq> QUIC_CHUNK_ACKED"
  shows "chain b (added_chunks cs e e') e' \<and> merged (added_chunks cs e e') \<and>
    ch_state (hd (added_chunks cs e e')) \<noteq> QUIC_CHUNK_ACKED \<and>
    status (added_chunks cs e e') x =
      (if e \<le> x \<and> x < e' then Some (QUIC_CHUNK_PENDING, QUIC_PN_NONE) else status cs x)"
proof (cases "cs \<noteq> [] \<and> ch_state (last cs) = QUIC_CHUNK_PENDING")
  case True
  then obtain A c where c: "cs = A @ [c]" "ch_state c = QUIC_CHUNK_PENDING"
    by (cases cs rule: rev_cases) auto
  then obtain m where m: "chain b A m" "ch_off c = m" "m < e" "ch_end c = e"
    using ch by (auto simp: chain_append)
  have A: "status A x = None" if "m \<le> x" using status_None [OF m(1), of x] that by simp
  have "chunkJoins a (c\<lparr>ch_end := e'\<rparr>) = chunkJoins a c" for a by (simp add: chunkJoins_def)
  then have "merged (A @ [c\<lparr>ch_end := e'\<rparr>])" using assms(2) c(1) by (simp add: merged_snoc)
  moreover have "ch_state (hd (A @ [c\<lparr>ch_end := e'\<rparr>])) \<noteq> QUIC_CHUNK_ACKED"
    using hd c by (cases A) auto
  moreover have "chain b (A @ [c\<lparr>ch_end := e'\<rparr>]) e'" using m assms(3) by (auto simp: chain_append)
  moreover have "status (A @ [c\<lparr>ch_end := e'\<rparr>]) x =
      (if e \<le> x \<and> x < e' then Some (QUIC_CHUNK_PENDING, QUIC_PN_NONE) else status (A @ [c]) x)"
    using A m assms(3) c(2) by (auto simp: status_append chunk_status_def split: option.split)
  ultimately show ?thesis using c by (simp add: added_chunks_def)
next
  case False
  then have "added_chunks cs e e' =
      cs @ [\<lparr>ch_off = e, ch_end = e', ch_pn = QUIC_PN_NONE, ch_state = QUIC_CHUNK_PENDING\<rparr>]"
    by (auto simp: added_chunks_def)
  moreover have "status cs x = None" if "e \<le> x" using status_None [OF ch, of x] that by simp
  moreover have "ch_state (hd (cs @ [c])) \<noteq> QUIC_CHUNK_ACKED" if "ch_state c = QUIC_CHUNK_PENDING" for c
    using hd that by (cases cs) auto
  ultimately show ?thesis
    using False assms(1-3)
    by (auto simp: chain_append merged_snoc status_append chunk_status_def chunkJoins_def
        split: option.split)
qed

lemma quicSendBufAdd_ok:
  assumes inv: "sb_inv sb" and fit: "unat (sb_end sb) + length d < 2 ^ 64"
    and add: "quicSendBufAdd xa sb d = (ok, sb')"
  shows "if ok then sb_inv sb' \<and> sb_base sb' = sb_base sb \<and> unat (sb_end sb') = unat (sb_end sb) + length d
      \<and> sb_bytes sb' = sb_bytes sb @ d
      \<and> sb_status sb' x = (if sb_end sb \<le> x \<and> x < sb_end sb' then Some (QUIC_CHUNK_PENDING, QUIC_PN_NONE)
          else sb_status sb x)
    else sb' = sb \<and> (\<exists>k. \<not> xa_ok xa k)"
proof (cases "d = []")
  case True
  with add inv show ?thesis by (auto simp: quicSendBufAdd_def)
next
  case ne: False
  define e' where "e' = sb_end sb + of_nat (length d)"
  have e': "unat e' = unat (sb_end sb) + length d"
    using fit by (simp add: e'_def unat_word_add unat_of_nat_small)
  then have lt: "sb_end sb < e'" using ne by (simp add: word_less_nat_alt)
  define n where "n = unat (sb_end sb - sb_base sb)"
  define sz where "sz = (case sb_buf sb of None \<Rightarrow> 0 | Some b \<Rightarrow> buf_sz b)"
  have ch: "chain (sb_base sb) (sb_chunks sb) (sb_end sb)" and mg: "merged (sb_chunks sb)"
    and hd: "sb_chunks sb \<noteq> [] \<longrightarrow> ch_state (hd (sb_chunks sb)) \<noteq> QUIC_CHUNK_ACKED"
    and bh: "buf_holds (sb_buf sb) n" and cap: "length (sb_chunks sb) \<le> sb_cap sb"
    using inv by (simp_all add: sb_inv_def n_def)
  have n': "n + length d = unat (e' - sb_base sb)"
    using e' lt chain_le [OF ch]
    by (simp add: n_def unat_word_sub word_le_nat_alt word_less_nat_alt)
  obtain aok buf where rs: "(if sb_buf sb = None \<or> sz < n + length d
      then bufTryResize xa (sb_buf sb) (sendBufWant (if sb_buf sb \<noteq> None then sz else 1024) (n + length d))
      else (True, sb_buf sb)) = (aok, buf)" by (metis surj_pair)
  show ?thesis
  proof (cases "aok \<and> buf \<noteq> None")
    case True
    then obtain b where b: "aok" "buf = Some b" by auto
    note st = sb_store [OF bh, of d xa b, folded sz_def, OF rs [unfolded b(2), simplified b(1)]]
    obtain c where sb': "sb' = sb\<lparr>sb_buf := Some \<lparr>buf_data = mem_write (buf_data b) n d, buf_len = n + length d\<rparr>,
        sb_end := e', sb_cap := c, sb_chunks := added_chunks (sb_chunks sb) (sb_end sb) e'\<rparr>" "ok"
      and c: "length (added_chunks (sb_chunks sb) (sb_end sb) e') \<le> c"
    proof (cases "sb_chunks sb \<noteq> [] \<and> ch_state (last (sb_chunks sb)) = QUIC_CHUNK_PENDING")
      case True
      then have "(sb_chunks sb)[length (sb_chunks sb) - 1 := (last (sb_chunks sb))\<lparr>ch_end := e'\<rparr>] =
          added_chunks (sb_chunks sb) (sb_end sb) e'"
        by (cases "sb_chunks sb" rule: rev_cases) (simp_all add: added_chunks_def)
      with True add ne b rs cap show ?thesis
        by (intro that [of "sb_cap sb"])
          (auto simp: quicSendBufAdd_def Let_def added_chunks_def simp flip: n_def sz_def e'_def)
    next
      case False
      let ?c = "if length (sb_chunks sb) < sb_cap sb then sb_cap sb
        else if sb_cap sb \<noteq> 0 then sb_cap sb * 2 else QUIC_SEND_INIT_CHUNKS"
      from False add ne b rs cap show ?thesis
        by (intro that [of ?c])
          (auto simp: quicSendBufAdd_def Let_def added_chunks_def chunkInsert_def chunkReserve_def
            simp flip: n_def sz_def e'_def)
    qed
    show ?thesis
      using added_chunks_ok [OF ch mg lt hd, of x] st n' c e' lt ch
      by (simp add: sb' sb_inv_def sb_bytes_def)
  next
    case False
    then have no: "\<exists>k. \<not> xa_ok xa k" and eq: "buf = sb_buf sb"
      using rs by (auto simp: bufTryResize_def bufTryCreate_def Let_def split: option.splits if_splits)
    have "(ok, sb') = (False, sb\<lparr>sb_buf := buf\<rparr>)"
      using add ne False rs unfolding quicSendBufAdd_def Let_def n_def [symmetric] sz_def [symmetric]
      by (auto split: option.splits)
    with no show ?thesis by (simp add: eq)
  qed
qed


section \<open>Single control frames\<close>

datatype CtlState = QUIC_CTL_IDLE | QUIC_CTL_PENDING | QUIC_CTL_SENT

record QuicCtl =
  ctl_pn :: u64
  ctl_state :: CtlState

definition quicCtlQueue :: "QuicCtl \<Rightarrow> QuicCtl" where
  "quicCtlQueue ctl = ctl\<lparr>ctl_state := QUIC_CTL_PENDING, ctl_pn := QUIC_PN_NONE\<rparr>"

definition quicCtlSent :: "QuicCtl \<Rightarrow> u64 \<Rightarrow> QuicCtl" where
  "quicCtlSent ctl pn = ctl\<lparr>ctl_state := QUIC_CTL_SENT, ctl_pn := pn\<rparr>"

definition quicCtlAcked :: "QuicCtl \<Rightarrow> u64 \<Rightarrow> bool \<times> QuicCtl" where
  "quicCtlAcked ctl pn =
     (if ctl_state ctl \<noteq> QUIC_CTL_SENT \<or> ctl_pn ctl \<noteq> pn then (False, ctl)
      else (True, ctl\<lparr>ctl_state := QUIC_CTL_IDLE, ctl_pn := QUIC_PN_NONE\<rparr>))"

definition quicCtlLost :: "QuicCtl \<Rightarrow> u64 \<Rightarrow> bool \<times> QuicCtl" where
  "quicCtlLost ctl pn =
     (if ctl_state ctl \<noteq> QUIC_CTL_SENT \<or> ctl_pn ctl \<noteq> pn then (False, ctl)
      else (True, ctl\<lparr>ctl_state := QUIC_CTL_PENDING, ctl_pn := QUIC_PN_NONE\<rparr>))"


section \<open>Items that are sent until they are acknowledged\<close>

text \<open>
  The contract loss recovery relies on: whatever was in a packet is either retired by the
  acknowledgement of that packet or waiting again after its loss, and the outcome of one packet
  leaves what is in other packets alone.
\<close>

locale reliable_item =
  fixes ok :: "'s \<Rightarrow> bool"
    and acked :: "'s \<Rightarrow> u64 \<Rightarrow> 's"
    and lost :: "'s \<Rightarrow> u64 \<Rightarrow> 's"
    and waiting :: "'s \<Rightarrow> 'i \<Rightarrow> bool"
    and inflight :: "'s \<Rightarrow> 'i \<Rightarrow> u64 \<Rightarrow> bool"
  assumes ok_acked: "ok s \<Longrightarrow> ok (acked s pn)"
    and ok_lost: "ok s \<Longrightarrow> ok (lost s pn)"
    and lost_waits: "ok s \<Longrightarrow> inflight s i pn \<Longrightarrow> waiting (lost s pn) i"
    and lost_keeps: "ok s \<Longrightarrow> waiting s i \<Longrightarrow> waiting (lost s pn) i"
    and acked_keeps: "ok s \<Longrightarrow> waiting s i \<Longrightarrow> waiting (acked s pn) i"
    and acked_others: "ok s \<Longrightarrow> inflight s i q \<Longrightarrow> q \<noteq> pn \<Longrightarrow> inflight (acked s pn) i q"
    and lost_others: "ok s \<Longrightarrow> inflight s i q \<Longrightarrow> q \<noteq> pn \<Longrightarrow> inflight (lost s pn) i q"
begin

text \<open>The outcomes of packets, as loss recovery reports them.\<close>

primrec settle :: "'s \<Rightarrow> (bool \<times> u64) list \<Rightarrow> 's" where
  "settle s [] = s"
| "settle s (e # es) = settle (if fst e then acked s (snd e) else lost s (snd e)) es"

lemma settle_ok: "ok s \<Longrightarrow> ok (settle s es)"
  by (induction es arbitrary: s) (simp_all add: ok_acked ok_lost)

lemma settle_keeps: "ok s \<Longrightarrow> waiting s i \<Longrightarrow> waiting (settle s es) i"
  by (induction es arbitrary: s) (simp_all add: ok_acked ok_lost acked_keeps lost_keeps)

lemma not_forgotten:
  "ok s \<Longrightarrow> inflight s i pn \<Longrightarrow> (True, pn) \<notin> set es \<Longrightarrow>
   inflight (settle s es) i pn \<or> waiting (settle s es) i"
proof (induction es arbitrary: s)
  case (Cons e es)
  obtain a q where e: "e = (a, q)" by (cases e)
  show ?case
  proof (cases "q = pn")
    case True
    with Cons e have "a = False" by auto
    with Cons e True show ?thesis by (simp add: ok_lost lost_waits settle_keeps)
  next
    case False
    then have "inflight (if a then acked s q else lost s q) i pn" "ok (if a then acked s q else lost s q)"
      using Cons.prems by (simp_all add: acked_others lost_others ok_acked ok_lost)
    from Cons.IH [OF this(2,1)] Cons.prems e show ?thesis by (auto split: if_splits)
  qed
qed simp

lemma lost_is_resent:
  assumes "ok s" "inflight s i pn" "(False, pn) \<in> set es" "(True, pn) \<notin> set es"
  shows "waiting (settle s es) i"
  using assms
proof (induction es arbitrary: s)
  case (Cons e es)
  obtain a q where e: "e = (a, q)" by (cases e)
  show ?case
  proof (cases "q = pn")
    case True
    with Cons.prems e have "a = False" by auto
    with Cons.prems e True show ?thesis by (simp add: ok_lost lost_waits settle_keeps)
  next
    case False
    then have "inflight (if a then acked s q else lost s q) i pn" "ok (if a then acked s q else lost s q)"
      using Cons.prems by (simp_all add: acked_others lost_others ok_acked ok_lost)
    with Cons e False show ?thesis by auto
  qed
qed simp

end

interpretation ctl: reliable_item "\<lambda>_. True" "\<lambda>c pn. snd (quicCtlAcked c pn)" "\<lambda>c pn. snd (quicCtlLost c pn)"
  "\<lambda>c (_ :: unit). ctl_state c = QUIC_CTL_PENDING" "\<lambda>c _ pn. ctl_state c = QUIC_CTL_SENT \<and> ctl_pn c = pn"
  by unfold_locales (auto simp: quicCtlAcked_def quicCtlLost_def)

lemma status_inside:
  assumes "sb_inv sb" "sb_status sb x = Some s"
  shows "sb_base sb \<le> x" "x < sb_end sb"
  using assms status_None [of "sb_base sb" "sb_chunks sb" "sb_end sb" x]
  by (auto simp: sb_inv_def linorder_not_less)

lemma acked_keeps_status:
  assumes "sb_inv sb" "sb_status sb x = Some s" "settle_status QUIC_CHUNK_ACKED pn s = s" "fst s \<noteq> QUIC_CHUNK_ACKED"
  shows "sb_status (quicSendBufAcked sb pn) x = Some s"
proof -
  note a = quicSendBufAcked_ok(5,6) [OF assms(1), where x = x and pn = pn] and i = status_inside [OF assms(1,2)]
  have "\<not> x < sb_base (quicSendBufAcked sb pn)"
    using a(2) i assms(2-4) by auto
  with a(1) assms(2,3) show ?thesis by simp
qed

interpretation sendbuf: reliable_item sb_inv quicSendBufAcked quicSendBufLost
  "\<lambda>sb x. sb_status sb x = Some (QUIC_CHUNK_PENDING, QUIC_PN_NONE)"
  "\<lambda>sb x pn. sb_status sb x = Some (QUIC_CHUNK_SENT, pn)"
  by unfold_locales
    (simp_all add: quicSendBufAcked_ok(1) quicSendBufLost_ok acked_keeps_status settle_status_def)


section \<open>Every way a send buffer can be used\<close>

text \<open>
  \<open>sb_reach sb T C K\<close>: the buffer \<open>sb\<close> can be reached from an empty one, where \<open>T\<close> is the
  stream accepted so far, \<open>C\<close> the pairs of a packet number and an offset whose byte that packet
  carried, and \<open>K\<close> the packets acknowledged.
\<close>

inductive sb_reach :: "QuicSendBuf \<Rightarrow> u8 list \<Rightarrow> (u64 \<times> u64) set \<Rightarrow> u64 set \<Rightarrow> bool" where
  Init: "sb_reach quicSendBufInit [] {} {}"
| Add: "sb_reach sb T C K \<Longrightarrow> length T + length d < 2 ^ 64 \<Longrightarrow> quicSendBufAdd xa sb d = (ok, sb') \<Longrightarrow>
    sb_reach sb' (if ok then T @ d else T) C K"
| Send: "sb_reach sb T C K \<Longrightarrow> quicSendBufNext sb mx = Some (off, d) \<Longrightarrow>
    sb_reach (quicSendBufSent sb off (length d) pn) T
      (C \<union> {pn} \<times> {off..<off + of_nat (length d)}) K"
| Acked: "sb_reach sb T C K \<Longrightarrow> sb_reach (quicSendBufAcked sb pn) T C (insert pn K)"
| Lost: "sb_reach sb T C K \<Longrightarrow> sb_reach (quicSendBufLost sb pn) T C K"
| Reset: "sb_reach sb T C K \<Longrightarrow> sb_reach (quicSendBufReset sb) T C K"

text \<open>What the state of a byte says about the packets that carried it.\<close>

definition status_meaning ::
  "QuicSendBuf \<Rightarrow> (u64 \<times> u64) set \<Rightarrow> u64 set \<Rightarrow> bool" where
  "status_meaning sb C K \<longleftrightarrow>
     (\<forall>x pn. sb_status sb x = Some (QUIC_CHUNK_SENT, pn) \<longrightarrow> (pn, x) \<in> C) \<and>
     (\<forall>x p. sb_status sb x = Some (QUIC_CHUNK_ACKED, p) \<longrightarrow> (\<exists>pn\<in>K. (pn, x) \<in> C)) \<and>
     (\<forall>x. x < sb_base sb \<longrightarrow> (\<exists>pn\<in>K. (pn, x) \<in> C))"

lemma status_meaning_acked:
  assumes m: "status_meaning sb C K" and inv: "sb_inv sb"
  shows "status_meaning (quicSendBufAcked sb pn) C (insert pn K)"
proof -
  note a = quicSendBufAcked_ok [OF inv, where pn = pn]
  have ackd: "\<exists>p\<in>insert pn K. (p, x) \<in> C"
    if "map_option (settle_status QUIC_CHUNK_ACKED pn) (sb_status sb x) = Some (QUIC_CHUNK_ACKED, q)" for x q
    using that m by (auto simp: status_meaning_def settle_status_def split: if_splits)
  have "\<exists>p\<in>insert pn K. (p, x) \<in> C" if "x < sb_base (quicSendBufAcked sb pn)" for x
  proof (cases "x < sb_base sb")
    case True
    with m show ?thesis by (auto simp: status_meaning_def)
  next
    case False
    with a(6) [of x] that have "map_option (settle_status QUIC_CHUNK_ACKED pn) (sb_status sb x) =
        Some (QUIC_CHUNK_ACKED, QUIC_PN_NONE)" by (simp add: linorder_not_less)
    then show ?thesis by (rule ackd)
  qed
  moreover have "(p, x) \<in> C" if "sb_status (quicSendBufAcked sb pn) x = Some (QUIC_CHUNK_SENT, p)" for x p
    using that m a(5) [of x] by (auto simp: status_meaning_def settle_status_def split: if_splits)
  moreover have "\<exists>p\<in>insert pn K. (p, x) \<in> C"
    if "sb_status (quicSendBufAcked sb pn) x = Some (QUIC_CHUNK_ACKED, q)" for x q
    using that a(5) [of x] ackd [of x q] by (auto split: if_splits)
  ultimately show ?thesis by (simp add: status_meaning_def)
qed

lemma reach_inv:
  "sb_reach sb T C K \<Longrightarrow> sb_inv sb \<and> unat (sb_end sb) = length T \<and>
    sb_bytes sb = drop (unat (sb_base sb)) T \<and> status_meaning sb C K"
proof (induction rule: sb_reach.induct)
  case Init
  show ?case
    by (simp add: sb_inv_def quicSendBufInit_def buf_holds_def sb_bytes_def buf_bytes_def status_meaning_def)
next
  case (Add sb T C K d xa ok sb')
  note a = quicSendBufAdd_ok [OF _ _ Add.hyps(3)]
  have le: "unat (sb_base sb) \<le> length T"
    using Add.IH chain_le [of "sb_base sb" "sb_chunks sb" "sb_end sb"]
    by (auto simp: sb_inv_def word_le_nat_alt)
  have st: "sb_status sb' x = (if sb_end sb \<le> x \<and> x < sb_end sb' then Some (QUIC_CHUNK_PENDING, QUIC_PN_NONE)
      else sb_status sb x)" if ok for x
    using a [of x] Add.IH Add.hyps(2) that by simp
  show ?case
    using a [of 0] Add.IH Add.hyps(2) le st
    by (cases ok) (auto simp: status_meaning_def split: if_splits)
next
  case (Send sb T C K mx off d pn)
  have inv: "sb_inv sb" using Send.IH by simp
  note a = quicSendBufSent_ok(1,3-6) [OF inv Send.hyps(2), where pn = pn]
  show ?case
    using Send.IH a
    by (auto simp: status_meaning_def split: if_splits)
next
  case (Acked sb T C K pn)
  have inv: "sb_inv sb" using Acked.IH by simp
  note a = quicSendBufAcked_ok [OF inv, where pn = pn]
  have "unat (sb_base (quicSendBufAcked sb pn) - sb_base sb) + unat (sb_base sb) =
      unat (sb_base (quicSendBufAcked sb pn))"
    using a(3) by (simp add: unat_word_sub word_le_nat_alt)
  with Acked.IH a(1,2,4) status_meaning_acked [OF _ inv] show ?case by simp
next
  case (Lost sb T C K pn)
  have "sb_base (quicSendBufLost sb pn) = sb_base sb" "sb_end (quicSendBufLost sb pn) = sb_end sb"
    by (simp_all add: quicSendBufLost_def sbMerge_def)
  with Lost.IH quicSendBufLost_ok [of sb pn] show ?case
    by (auto simp: status_meaning_def settle_status_def split: if_splits)
next
  case (Reset sb T C K)
  have "sb_base (quicSendBufReset sb) = sb_base sb" "sb_end (quicSendBufReset sb) = sb_end sb"
    by (simp_all add: quicSendBufReset_def sbMerge_def)
  with Reset.IH quicSendBufReset_ok [of sb] show ?case
    by (auto simp: status_meaning_def)
qed


section \<open>Properties\<close>

text \<open>
  C14. A send buffer forgets nothing the peer may still need. In every state it can reach, however
  sends, acknowledgements, losses and resets are interleaved, the chunks cover exactly the bytes
  between the base and the end, the buffer holds exactly the stream from the base on, a byte that is
  recorded as in flight in some packet was carried by that packet, and every byte that is recorded
  as acknowledged or has been released was carried by a packet that was acknowledged.
\<close>

theorem sendbuf_holds_unacked:
  assumes "sb_reach sb T C K"
  shows "sb_inv sb \<and> unat (sb_end sb) = length T \<and> sb_bytes sb = drop (unat (sb_base sb)) T
    \<and> (\<forall>x. sb_base sb \<le> x \<and> x < sb_end sb \<longrightarrow> sb_status sb x \<noteq> None)
    \<and> (\<forall>x pn. sb_status sb x = Some (QUIC_CHUNK_SENT, pn) \<longrightarrow> (pn, x) \<in> C)
    \<and> (\<forall>x p. sb_status sb x = Some (QUIC_CHUNK_ACKED, p) \<longrightarrow> (\<exists>pn\<in>K. (pn, x) \<in> C))
    \<and> (\<forall>x. x < sb_base sb \<longrightarrow> (\<exists>pn\<in>K. (pn, x) \<in> C))"
proof -
  note r = reach_inv [OF assms]
  have "sb_status sb x \<noteq> None" if "sb_base sb \<le> x" "x < sb_end sb" for x
    using r that status_None [of "sb_base sb" "sb_chunks sb" "sb_end sb" x] by (auto simp: sb_inv_def)
  then show ?thesis using r unfolding status_meaning_def by blast
qed

lemma example_reach:
  "sb_reach (snd (quicSendBufAdd \<lparr>xa_ok = \<lambda>_. True, xa_junk = \<lambda>_. 0\<rparr> quicSendBufInit [1, 2, 3])) [1, 2, 3] {} {}"
proof -
  let ?r = "quicSendBufAdd \<lparr>xa_ok = \<lambda>_. True, xa_junk = \<lambda>_. 0\<rparr> quicSendBufInit [1, 2, 3]"
  have "fst ?r" by code_simp
  then have r: "?r = (True, snd ?r)" by (cases ?r) simp
  from sb_reach.Add [OF sb_reach.Init _ r] show ?thesis by simp
qed

theorem sendbuf_holds_unacked_witness:
  "sb_bytes (snd (quicSendBufAdd \<lparr>xa_ok = \<lambda>_. True, xa_junk = \<lambda>_. 0\<rparr> quicSendBufInit [1, 2, 3])) = [1, 2, 3]"
proof -
  have "sb_base (snd (quicSendBufAdd \<lparr>xa_ok = \<lambda>_. True, xa_junk = \<lambda>_. 0\<rparr> quicSendBufInit [1, 2, 3])) = 0"
    by code_simp
  with sendbuf_holds_unacked [OF example_reach] show ?thesis by simp
qed

lemma find_first_status:
  assumes "chain b cs e" "find (\<lambda>ch. ch_state ch = QUIC_CHUNK_PENDING) cs = Some c"
  shows "status cs (ch_off c) = Some (QUIC_CHUNK_PENDING, QUIC_PN_NONE)"
    "x < ch_off c \<Longrightarrow> status cs x \<noteq> Some (QUIC_CHUNK_PENDING, p)"
proof -
  obtain A B where c: "cs = A @ c # B" "ch_state c = QUIC_CHUNK_PENDING"
      "\<forall>a\<in>set A. ch_state a \<noteq> QUIC_CHUNK_PENDING"
    using find_split [OF assms(2)] by auto
  obtain m where m: "chain b A m" "ch_off c = m" "m < ch_end c" "chain (ch_end c) B e"
    using assms(1) by (auto simp: c(1) chain_append)
  show "status cs (ch_off c) = Some (QUIC_CHUNK_PENDING, QUIC_PN_NONE)"
    using status_None [OF m(1), of m] m c by (simp add: status_append chunk_status_def)
  have A: "status A x \<noteq> Some (QUIC_CHUNK_PENDING, p)"
    using c(3) by (induction A) (auto simp: chunk_status_def)
  show "x < ch_off c \<Longrightarrow> status cs x \<noteq> Some (QUIC_CHUNK_PENDING, p)"
    using A status_None [OF m(4), of x] m(2,3)
    by (auto simp: c(1) status_append split: option.splits)
qed

lemma find_none_status:
  "find (\<lambda>ch. ch_state ch = st) cs = None \<Longrightarrow> status cs x \<noteq> Some (st, p)"
  by (induction cs) (auto simp: chunk_status_def split: if_splits)

text \<open>
  What goes into a packet is the right data. In every reachable state and for every size limit,
  \<^verbatim>\<open>_quicSendBufNext\<close> returns nothing exactly when no byte is waiting or there is no room; otherwise
  it returns the lowest waiting offset and a non-empty piece, within the limit, of the stream at
  that offset. Recording the piece as sent marks exactly its bytes as carried by that packet.
\<close>

theorem sendbuf_sends_stream:
  assumes "sb_reach sb T C K"
  shows "case quicSendBufNext sb mx of
      None \<Rightarrow> mx = 0 \<or> (\<forall>x p. sb_status sb x \<noteq> Some (QUIC_CHUNK_PENDING, p))
    | Some (off, d) \<Rightarrow>
        0 < length d \<and> length d \<le> mx \<and> d = take (length d) (drop (unat off) T)
        \<and> sb_status sb off = Some (QUIC_CHUNK_PENDING, QUIC_PN_NONE)
        \<and> (\<forall>x p. x < off \<longrightarrow> sb_status sb x \<noteq> Some (QUIC_CHUNK_PENDING, p))
        \<and> (\<forall>pn x. sb_status (quicSendBufSent sb off (length d) pn) x =
            (if off \<le> x \<and> x < off + of_nat (length d) then Some (QUIC_CHUNK_SENT, pn) else sb_status sb x))"
proof (cases "quicSendBufNext sb mx")
  case None
  then show ?thesis
    using find_none_status [of QUIC_CHUNK_PENDING "sb_chunks sb"]
    by (auto simp: quicSendBufNext_def sbFirst_def Let_def split: if_splits option.splits)
next
  case (Some r)
  then obtain off d where r: "quicSendBufNext sb mx = Some (off, d)" by (cases r) auto
  note ri = reach_inv [OF assms]
  have inv: "sb_inv sb" and ch: "chain (sb_base sb) (sb_chunks sb) (sb_end sb)"
    using ri by (auto simp: sb_inv_def)
  have c: "0 < length d" "length d \<le> mx"
      "d = take (length d) (drop (unat (off - sb_base sb)) (sb_bytes sb))"
    by (rule sbFirst_ok [OF inv r [unfolded quicSendBufNext_def]]; simp)+
  obtain c' where c': "find (\<lambda>ch. ch_state ch = QUIC_CHUNK_PENDING) (sb_chunks sb) = Some c'" "ch_off c' = off"
    using r by (auto simp: quicSendBufNext_def sbFirst_def Let_def split: if_splits option.splits)
  note f = find_first_status [OF ch c'(1), unfolded c'(2)]
  have "unat (sb_base sb) + unat (off - sb_base sb) = unat off"
    using status_inside [OF inv f(1)] by (simp add: unat_word_sub word_le_nat_alt)
  then have "d = take (length d) (drop (unat off) T)" using c(3) ri by (simp add: add.commute)
  with c f quicSendBufSent_ok(3) [OF inv r] show ?thesis by (auto simp: r)
qed

theorem sendbuf_sends_stream_witness:
  "quicSendBufNext (snd (quicSendBufAdd \<lparr>xa_ok = \<lambda>_. True, xa_junk = \<lambda>_. 0\<rparr> quicSendBufInit [1, 2, 3])) 2 =
    Some (0, [1, 2])"
proof -
  define sb where "sb = snd (quicSendBufAdd \<lparr>xa_ok = \<lambda>_. True, xa_junk = \<lambda>_. 0\<rparr> quicSendBufInit [1, 2, 3])"
  have "map_option (\<lambda>(off, d). (off, length d)) (quicSendBufNext sb 2) = Some (0, 2)"
    unfolding sb_def by code_simp
  then obtain d where d: "quicSendBufNext sb 2 = Some (0, d)" "length d = 2" by auto
  from sendbuf_sends_stream [OF example_reach [folded sb_def], of 2] d show ?thesis
    by (simp flip: sb_def)
qed

text \<open>
  Nothing lost stays lost: once a byte has gone out in a packet, then after any sequence of
  outcomes in which that packet is declared lost and not acknowledged, whatever happened to other
  packets, the byte is waiting to be sent again.
\<close>

theorem sendbuf_lost_is_resent:
  assumes "sb_inv sb" "sb_status sb x = Some (QUIC_CHUNK_SENT, pn)"
    and "(False, pn) \<in> set es" "(True, pn) \<notin> set es"
  shows "sb_status (foldl (\<lambda>sb (a, q). if a then quicSendBufAcked sb q else quicSendBufLost sb q) sb es) x =
    Some (QUIC_CHUNK_PENDING, QUIC_PN_NONE)"
proof -
  have "foldl (\<lambda>sb (a, q). if a then quicSendBufAcked sb q else quicSendBufLost sb q) sb es =
      sendbuf.settle sb es"
    by (induction es arbitrary: sb) (simp_all add: case_prod_beta)
  with sendbuf.lost_is_resent [OF assms] show ?thesis by simp
qed

theorem sendbuf_lost_is_resent_witness:
  "sb_status (foldl (\<lambda>sb (a, q). if a then quicSendBufAcked sb q else quicSendBufLost sb q)
     \<lparr>sb_buf = Some \<lparr>buf_data = replicate 1024 7, buf_len = 2\<rparr>, sb_base = 0, sb_end = 2,
      sb_chunks = [\<lparr>ch_off = 0, ch_end = 2, ch_pn = 5, ch_state = QUIC_CHUNK_SENT\<rparr>], sb_cap = 16\<rparr>
     [(True, 4), (False, 5)]) 1 = Some (QUIC_CHUNK_PENDING, QUIC_PN_NONE)"
  by (rule sendbuf_lost_is_resent [where pn = 5])
    (simp_all add: sb_inv_def buf_holds_def chunk_status_def)

text \<open>
  A control frame is retired only by the acknowledgement of the packet that last carried it: an
  acknowledgement or a loss of any other packet, in particular of one that carried contents since
  superseded, changes nothing, and its own packet's loss queues it again.
\<close>

theorem ctl_frame_reliable:
  "quicCtlAcked (quicCtlSent c pn) q =
     (if q = pn then (True, \<lparr>ctl_pn = QUIC_PN_NONE, ctl_state = QUIC_CTL_IDLE\<rparr>) else (False, quicCtlSent c pn))
   \<and> quicCtlLost (quicCtlSent c pn) q =
     (if q = pn then (True, quicCtlQueue c) else (False, quicCtlSent c pn))
   \<and> quicCtlAcked (quicCtlQueue c) q = (False, quicCtlQueue c)
   \<and> quicCtlLost (quicCtlQueue c) q = (False, quicCtlQueue c)"
  by (auto simp: quicCtlAcked_def quicCtlLost_def quicCtlSent_def quicCtlQueue_def)

end
