(* ===== verification/QuicReasm.thy ===== *)
theory QuicReasm
  imports CxBuffer
begin

text \<open>
  Stream reassembly, the first half of \<^verbatim>\<open>src/cxquic/reasm.c\<close>. Offsets are 64-bit words, as in the
  source; the array of ranges with its count is a list, and the two \<^verbatim>\<open>memmove\<close> calls that close or
  open a gap in it give the list \<open>take i ranges @ [merged] @ drop j ranges\<close>.
\<close>

section \<open>Data\<close>

record QuicRange =
  rg_off :: u64
  rg_end :: u64

record QuicReasm =
  ra_buf :: Buffer
  ra_base :: u64
  ra_limit :: u64
  ra_ranges :: "QuicRange list"

abbreviation (input) QUIC_REASM_MAX_RANGES :: nat where "QUIC_REASM_MAX_RANGES \<equiv> 16"


section \<open>Operations\<close>

definition quicReasmInit :: "u64 \<Rightarrow> QuicReasm" where
  "quicReasmInit limit = \<lparr>ra_buf = None, ra_base = 0, ra_limit = limit, ra_ranges = []\<rparr>"

definition quicReasmDestroy :: "QuicReasm \<Rightarrow> QuicReasm" where
  "quicReasmDestroy r = \<lparr>ra_buf = bufDestroy (ra_buf r), ra_base = 0, ra_limit = 0, ra_ranges = []\<rparr>"

text \<open>The first loop: how many ranges end before \<open>lo\<close>.\<close>

fun reasmSkip :: "QuicRange list \<Rightarrow> u64 \<Rightarrow> nat" where
  "reasmSkip [] lo = 0"
| "reasmSkip (x # xs) lo = (if rg_end x < lo then Suc (reasmSkip xs lo) else 0)"

text \<open>The second loop: the merged bounds and how many ranges are absorbed.\<close>

fun reasmAbsorb :: "QuicRange list \<Rightarrow> u64 \<Rightarrow> u64 \<Rightarrow> u64 \<times> u64 \<times> nat" where
  "reasmAbsorb [] lo hi = (lo, hi, 0)"
| "reasmAbsorb (x # xs) lo hi =
     (if rg_off x \<le> hi then
        let lo1 = (if rg_off x < lo then rg_off x else lo);
            hi1 = (if rg_end x > hi then rg_end x else hi)
        in case reasmAbsorb xs lo1 hi1 of (lo2, hi2, n) \<Rightarrow> (lo2, hi2, Suc n)
      else (lo, hi, 0))"

text \<open>
  The loop that doubles the wanted buffer size. It starts from 1024 or from the size of a buffer it
  made before; the guard on zero makes it total.
\<close>

function reasmWant :: "nat \<Rightarrow> nat \<Rightarrow> nat" where
  "reasmWant want need = (if want < need \<and> 0 < want then reasmWant (want * 2) need else want)"
  by pat_completeness auto
termination
  by (relation "measure (\<lambda>(want, need). need - want)") auto

declare reasmWant.simps [simp del]

text \<open>The part of \<^verbatim>\<open>_quicReasmAdd\<close> after the data has been trimmed to the window.\<close>

definition reasmInsert :: "xalloc \<Rightarrow> QuicReasm \<Rightarrow> u64 \<Rightarrow> u64 \<Rightarrow> u8 list \<Rightarrow> bool \<times> QuicReasm" where
  "reasmInsert xa r off end' data =
     (let i = reasmSkip (ra_ranges r) off;
          (mlo, mhi, n) = reasmAbsorb (drop i (ra_ranges r)) off end';
          j = i + n
      in if j = i \<and> length (ra_ranges r) \<ge> QUIC_REASM_MAX_RANGES then (True, r)
         else
           let need = unat (mhi - ra_base r);
               sz = (case ra_buf r of None \<Rightarrow> 0 | Some b \<Rightarrow> buf_sz b);
               (ok, buf) = (if ra_buf r = None \<or> sz < need
                            then bufTryResize xa (ra_buf r)
                                   (reasmWant (if ra_buf r \<noteq> None then sz else 1024) need)
                            else (True, ra_buf r))
           in case buf of
                None \<Rightarrow> (False, r\<lparr>ra_buf := buf\<rparr>)
              | Some b \<Rightarrow>
                  if \<not> ok then (False, r\<lparr>ra_buf := buf\<rparr>)
                  else
                    (True, r\<lparr>
                       ra_buf := Some \<lparr>buf_data = mem_write (buf_data b) (unat (off - ra_base r)) data,
                                       buf_len = (if need > buf_len b then need else buf_len b)\<rparr>,
                       ra_ranges := take i (ra_ranges r) @ [\<lparr>rg_off = mlo, rg_end = mhi\<rparr>]
                                      @ drop j (ra_ranges r)\<rparr>))"

definition quicReasmAdd :: "xalloc \<Rightarrow> QuicReasm \<Rightarrow> u64 \<Rightarrow> u8 list \<Rightarrow> bool \<times> QuicReasm" where
  "quicReasmAdd xa r off data =
     (if length data = 0 then (True, r)
      else
        let end' = off + of_nat (length data) in
        if end' < off \<or> end' > ra_limit r then (False, r)
        else if end' \<le> ra_base r then (True, r)
        else if off < ra_base r
        then reasmInsert xa r (ra_base r) end' (drop (unat (ra_base r - off)) data)
        else reasmInsert xa r off end' data)"

definition quicReasmReadable :: "QuicReasm \<Rightarrow> nat" where
  "quicReasmReadable r =
     (case ra_ranges r of
        [] \<Rightarrow> 0
      | x # xs \<Rightarrow> if rg_off x \<noteq> ra_base r then 0 else unat (rg_end x - ra_base r))"

definition quicReasmData :: "QuicReasm \<Rightarrow> u8 list option" where
  "quicReasmData r = map_option buf_data (ra_buf r)"

text \<open>
  \<^verbatim>\<open>_quicReasmConsume\<close>; calling it with more than is readable is a programming error the source
  only asserts on in debug builds.
\<close>

definition quicReasmConsume :: "QuicReasm \<Rightarrow> nat \<Rightarrow> QuicReasm" where
  "quicReasmConsume r len =
     (if len = 0 then r
      else
        let base = ra_base r + of_nat len;
            ranges = (case ra_ranges r of
                        [] \<Rightarrow> []
                      | x # xs \<Rightarrow> if rg_end x = base then xs else x\<lparr>rg_off := base\<rparr> # xs);
            buf = (case ra_buf r of
                     None \<Rightarrow> None
                   | Some b \<Rightarrow>
                       let keep = (if buf_len b > len then buf_len b - len else 0);
                           data = (if keep > 0
                                   then mem_write (buf_data b) 0 (take keep (drop len (buf_data b)))
                                   else buf_data b)
                       in Some \<lparr>buf_data = data, buf_len = keep\<rparr>)
        in r\<lparr>ra_base := base, ra_ranges := ranges, ra_buf := buf\<rparr>)"


section \<open>Sorted, separated ranges\<close>

text \<open>The offsets a list of ranges covers.\<close>

definition cov :: "QuicRange list \<Rightarrow> u64 set" where
  "cov rs = (\<Union>x\<in>set rs. {rg_off x..<rg_end x})"

lemma cov_simps [simp]:
  "cov [] = {}" "cov (x # xs) = {rg_off x..<rg_end x} \<union> cov xs" "cov (xs @ ys) = cov xs \<union> cov ys"
  by (auto simp: cov_def)

text \<open>Ascending, non-empty, and with at least one missing byte between neighbours.\<close>

fun separated :: "QuicRange list \<Rightarrow> bool" where
  "separated [] = True"
| "separated (x # xs) = (rg_off x < rg_end x \<and> (\<forall>y\<in>set xs. rg_end x < rg_off y) \<and> separated xs)"

lemma separated_append:
  "separated (xs @ ys) \<longleftrightarrow> separated xs \<and> separated ys \<and> (\<forall>x\<in>set xs. \<forall>y\<in>set ys. rg_end x < rg_off y)"
  by (induction xs) auto

lemma separated_nonempty: "separated xs \<Longrightarrow> x \<in> set xs \<Longrightarrow> rg_off x < rg_end x"
  by (induction xs) auto

lemma reasmSkip_le: "reasmSkip xs lo \<le> length xs"
  by (induction xs lo rule: reasmSkip.induct) auto

lemma reasmSkip_props:
  "separated xs \<Longrightarrow> (\<forall>x\<in>set (take (reasmSkip xs lo) xs). rg_end x < lo) \<and>
    (\<forall>x\<in>set (drop (reasmSkip xs lo) xs). lo \<le> rg_end x)"
proof (induction xs lo rule: reasmSkip.induct)
  case (2 x xs lo)
  have "lo \<le> rg_end y" if "\<not> rg_end x < lo" "y \<in> set xs" for y
    using that 2(2) separated_nonempty [of xs y] by fastforce
  with 2 show ?case by auto
qed simp

lemma reasmAbsorb_props:
  assumes "reasmAbsorb xs lo hi = (lo', hi', n)" "separated xs" "lo < hi" "\<forall>x\<in>set xs. lo \<le> rg_end x"
  shows "n \<le> length xs \<and> lo' \<le> lo \<and> hi \<le> hi' \<and> {lo'..<hi'} = {lo..<hi} \<union> cov (take n xs)
    \<and> (\<forall>x\<in>set (drop n xs). hi' < rg_off x)
    \<and> (lo' = lo \<or> lo' \<in> rg_off ` set (take n xs)) \<and> (hi' = hi \<or> hi' \<in> rg_end ` set (take n xs))"
  using assms
proof (induction xs lo hi arbitrary: lo' hi' n rule: reasmAbsorb.induct)
  case (2 x xs lo hi)
  show ?case
  proof (cases "rg_off x \<le> hi")
    case True
    define lo1 hi1 where "lo1 = (if rg_off x < lo then rg_off x else lo)"
      and "hi1 = (if rg_end x > hi then rg_end x else hi)"
    obtain m where m: "reasmAbsorb xs lo1 hi1 = (lo', hi', m)" "n = Suc m"
      using 2(2) True by (auto simp: lo1_def hi1_def Let_def split: prod.splits)
    have x: "lo \<le> rg_end x" "rg_off x < rg_end x" using 2(3,5) by auto
    have un: "{lo1..<hi1} = {lo..<hi} \<union> {rg_off x..<rg_end x}"
      using True x 2(4) by (auto simp: lo1_def hi1_def)
    have "lo1 < hi1" "\<forall>y\<in>set xs. lo1 \<le> rg_end y"
      using x 2(4,5) by (auto simp: lo1_def hi1_def)
    then have IH: "m \<le> length xs \<and> lo' \<le> lo1 \<and> hi1 \<le> hi' \<and> {lo'..<hi'} = {lo1..<hi1} \<union> cov (take m xs)
        \<and> (\<forall>y\<in>set (drop m xs). hi' < rg_off y)
        \<and> (lo' = lo1 \<or> lo' \<in> rg_off ` set (take m xs)) \<and> (hi' = hi1 \<or> hi' \<in> rg_end ` set (take m xs))"
      using 2(1) [OF True lo1_def hi1_def m(1)] 2(3) by auto
    show ?thesis
      using IH un by (auto simp: m(2) lo1_def hi1_def split: if_splits)
  next
    case False
    with 2 show ?thesis by auto
  qed
qed auto


text \<open>What the two loops together make of the list of ranges.\<close>

lemma merged_ranges:
  assumes sep: "separated rs" and lt: "off < end'"
    and i: "i = reasmSkip rs off" and ab: "reasmAbsorb (drop i rs) off end' = (mlo, mhi, n)"
  shows "separated (take i rs @ [\<lparr>rg_off = mlo, rg_end = mhi\<rparr>] @ drop (i + n) rs)"
    and "cov (take i rs @ [\<lparr>rg_off = mlo, rg_end = mhi\<rparr>] @ drop (i + n) rs) = cov rs \<union> {off..<end'}"
    and "mlo \<le> off" "end' \<le> mhi" "mlo = off \<or> mlo \<in> rg_off ` set rs"
    and "mhi = end' \<or> mhi \<in> rg_end ` set rs" "i + n \<le> length rs"
proof -
  have split: "separated (take i rs @ drop i rs)" using sep by simp
  then have sd: "separated (drop i rs)" "separated (take i rs)"
    and cross: "\<forall>x\<in>set (take i rs). \<forall>y\<in>set (drop i rs). rg_end x < rg_off y"
    unfolding separated_append by blast+
  have lo: "\<forall>x\<in>set (take i rs). rg_end x < off" "\<forall>x\<in>set (drop i rs). off \<le> rg_end x"
    using reasmSkip_props [OF sep, of off] i by auto
  note ap = reasmAbsorb_props [OF ab sd(1) lt lo(2)]
  have sub: "set (take n (drop i rs)) \<subseteq> set (drop i rs)" "set (drop n (drop i rs)) \<subseteq> set (drop i rs)"
    "set (drop i rs) \<subseteq> set rs"
    by (rule set_take_subset set_drop_subset)+
  have dd: "drop (i + n) rs = drop n (drop i rs)" by (simp add: add.commute)
  have sepn: "separated (drop n (drop i rs))"
    using sd(1) separated_append [of "take n (drop i rs)" "drop n (drop i rs)"]
    unfolding append_take_drop_id by blast
  have below: "\<forall>x\<in>set (take i rs). rg_end x < mlo"
    using ap lo(1) cross sub by fastforce
  show "separated (take i rs @ [\<lparr>rg_off = mlo, rg_end = mhi\<rparr>] @ drop (i + n) rs)"
    unfolding dd using sd(2) sepn below ap cross lt sub
    by (auto simp: separated_append)
  have "cov rs = cov (take i rs) \<union> (cov (take n (drop i rs)) \<union> cov (drop n (drop i rs)))"
    by (metis append_take_drop_id cov_simps(3))
  then show "cov (take i rs @ [\<lparr>rg_off = mlo, rg_end = mhi\<rparr>] @ drop (i + n) rs) = cov rs \<union> {off..<end'}"
    unfolding dd using ap by auto
  show "mlo \<le> off" "end' \<le> mhi" using ap by auto
  show "mlo = off \<or> mlo \<in> rg_off ` set rs" "mhi = end' \<or> mhi \<in> rg_end ` set rs"
    using ap sub by blast+
  show "i + n \<le> length rs" using ap i reasmSkip_le [of rs off] by auto
qed

lemma reasmWant_ge: "0 < want \<Longrightarrow> need \<le> reasmWant want need \<and> want \<le> reasmWant want need"
proof (induction want need rule: reasmWant.induct)
  case (1 want need)
  then show ?case by (auto simp: reasmWant.simps [of want need])
qed


section \<open>The invariant and the abstract view\<close>

text \<open>
  The abstract state of a reassembly buffer is the partial map from stream offsets to the bytes
  that have arrived and have not been consumed.
\<close>

definition reasm_view :: "QuicReasm \<Rightarrow> u64 \<Rightarrow> u8 option" where
  "reasm_view r x =
     (if x \<in> cov (ra_ranges r)
      then (case ra_buf r of None \<Rightarrow> None | Some b \<Rightarrow> Some (buf_data b ! unat (x - ra_base r)))
      else None)"

definition reasm_inv :: "QuicReasm \<Rightarrow> bool" where
  "reasm_inv r \<longleftrightarrow>
     separated (ra_ranges r) \<and> length (ra_ranges r) \<le> QUIC_REASM_MAX_RANGES \<and>
     (\<forall>x\<in>set (ra_ranges r). ra_base r \<le> rg_off x \<and> rg_end x \<le> ra_limit r) \<and>
     (case ra_buf r of
        None \<Rightarrow> ra_ranges r = []
      | Some b \<Rightarrow> 1024 \<le> buf_sz b \<and> buf_len b \<le> buf_sz b \<and>
          (\<forall>x\<in>set (ra_ranges r). unat (rg_end x - ra_base r) \<le> buf_len b))"


definition reasm_put :: "(u64 \<Rightarrow> u8 option) \<Rightarrow> u64 \<Rightarrow> u64 \<Rightarrow> u8 list \<Rightarrow> u64 \<Rightarrow> u8 option" where
  "reasm_put v base off data x =
     (if base \<le> x \<and> off \<le> x \<and> unat (x - off) < length data then Some (data ! unat (x - off)) else v x)"

text \<open>The buffer after the resize that \<^verbatim>\<open>_quicReasmAdd\<close> may make.\<close>

lemma reasm_resize:
  assumes inv: "reasm_inv r" and need: "0 < need"
    and rs: "(if ra_buf r = None \<or> (case ra_buf r of None \<Rightarrow> 0 | Some b \<Rightarrow> buf_sz b) < need
       then bufTryResize xa (ra_buf r)
         (reasmWant (if ra_buf r \<noteq> None then (case ra_buf r of None \<Rightarrow> 0 | Some b \<Rightarrow> buf_sz b) else 1024) need)
       else (True, ra_buf r)) = (True, Some b)"
  shows "need \<le> buf_sz b" "1024 \<le> buf_sz b" "buf_len b \<le> buf_sz b"
    and "x \<in> set (ra_ranges r) \<Longrightarrow> unat (rg_end x - ra_base r) \<le> buf_len b"
    and "\<lbrakk>ra_buf r = Some b0; k < buf_len b0\<rbrakk> \<Longrightarrow> buf_data b ! k = buf_data b0 ! k"
proof -
  have w: "need \<le> reasmWant w need" "w \<le> reasmWant w need" if "0 < w" for w
    using reasmWant_ge [OF that, of need] by auto
  consider "ra_buf r = None" "b = bufCreate xa (reasmWant 1024 need)" "ra_ranges r = []"
    | "ra_buf r = Some b" "need \<le> buf_sz b"
    | b1 where "ra_buf r = Some b1" "buf_sz b1 < need"
        "b = \<lparr>buf_data = xa_resize xa (buf_data b1) (reasmWant (buf_sz b1) need), buf_len = buf_len b1\<rparr>"
  proof (cases "ra_buf r")
    case None
    with rs inv show ?thesis
      by (intro that(1)) (auto simp: bufTryResize_def bufTryCreate_def Let_def reasm_inv_def split: if_splits)
  next
    case (Some b1)
    then have b1: "1024 \<le> buf_sz b1" "buf_len b1 \<le> buf_sz b1" using inv by (auto simp: reasm_inv_def)
    show ?thesis
    proof (cases "buf_sz b1 < need")
      case True
      have "0 < buf_sz b1" using b1(1) by linarith
      from w [OF this] True rs Some b1 show ?thesis
        by (intro that(3)) (auto simp: bufTryResize_def min_def split: if_splits)
    next
      case False
      with rs Some show ?thesis by (intro that(2)) auto
    qed
  qed
  then have "need \<le> buf_sz b \<and> 1024 \<le> buf_sz b \<and> buf_len b \<le> buf_sz b
    \<and> (\<forall>x\<in>set (ra_ranges r). unat (rg_end x - ra_base r) \<le> buf_len b)
    \<and> (\<forall>b0 k. ra_buf r = Some b0 \<longrightarrow> k < buf_len b0 \<longrightarrow> buf_data b ! k = buf_data b0 ! k)"
  proof cases
    case 1
    with w [of 1024] show ?thesis by (auto simp: bufCreate_def)
  next
    case 2
    with inv show ?thesis by (auto simp: reasm_inv_def)
  next
    case 3
    then have b1: "1024 \<le> buf_sz b1" "buf_len b1 \<le> buf_sz b1" using inv by (auto simp: reasm_inv_def)
    then have "0 < buf_sz b1" by linarith
    from w [OF this] b1 3 inv show ?thesis by (auto simp: reasm_inv_def nth_xa_resize)
  qed
  then show "need \<le> buf_sz b" "1024 \<le> buf_sz b" "buf_len b \<le> buf_sz b"
    "x \<in> set (ra_ranges r) \<Longrightarrow> unat (rg_end x - ra_base r) \<le> buf_len b"
    "\<lbrakk>ra_buf r = Some b0; k < buf_len b0\<rbrakk> \<Longrightarrow> buf_data b ! k = buf_data b0 ! k"
    by auto
qed

lemma end_no_wrap:
  fixes off :: u64
  assumes "length data < 2 ^ 64"
  shows "\<not> off + of_nat (length data) < off \<longleftrightarrow> unat off + length data < 2 ^ 64"
    and "unat off + length data < 2 ^ 64 \<Longrightarrow> unat (off + of_nat (length data)) = unat off + length data"
proof -
  have u: "unat (of_nat (length data) :: u64) = length data"
    using assms by (simp add: unat_of_nat_small)
  then show "\<not> off + of_nat (length data) < off \<longleftrightarrow> unat off + length data < 2 ^ 64"
    using no_olen_add_nat [of off "of_nat (length data)"] by (simp add: linorder_not_less)
  show "unat off + length data < 2 ^ 64 \<Longrightarrow> unat (off + of_nat (length data)) = unat off + length data"
    using u by (simp add: unat_word_add)
qed

lemma reasm_cov_idx:
  assumes inv: "reasm_inv r" and "x \<in> cov (ra_ranges r)"
  shows "ra_buf r \<noteq> None \<and> ra_base r \<le> x \<and> unat (x - ra_base r) < buf_len (the (ra_buf r))"
proof -
  obtain y where y: "y \<in> set (ra_ranges r)" "rg_off y \<le> x" "x < rg_end y"
    using assms(2) by (auto simp: cov_def)
  have base: "ra_base r \<le> x" using y inv by (auto simp: reasm_inv_def)
  then have "unat (x - ra_base r) < unat (rg_end y - ra_base r)"
    using y by (simp add: unat_word_sub word_le_nat_alt word_less_nat_alt)
  with base inv y show ?thesis by (fastforce simp: reasm_inv_def split: option.splits)
qed

text \<open>The state after the write, given what the loops and the resize found.\<close>

lemma reasm_store:
  fixes r b off end' d mlo mhi i n
  defines "rs' \<equiv> take i (ra_ranges r) @ [\<lparr>rg_off = mlo, rg_end = mhi\<rparr>] @ drop (i + n) (ra_ranges r)"
    and "need \<equiv> unat (mhi - ra_base r)"
  defines "r' \<equiv> r\<lparr>ra_buf := Some \<lparr>buf_data = mem_write (buf_data b) (unat (off - ra_base r)) d,
      buf_len = (if need > buf_len b then need else buf_len b)\<rparr>, ra_ranges := rs'\<rparr>"
  assumes inv: "reasm_inv r" and off: "ra_base r \<le> off" "off < end'" "end' \<le> ra_limit r"
    and d: "length d = unat end' - unat off"
    and i: "i = reasmSkip (ra_ranges r) off"
    and ab: "reasmAbsorb (drop i (ra_ranges r)) off end' = (mlo, mhi, n)"
    and room: "n = 0 \<Longrightarrow> length (ra_ranges r) < QUIC_REASM_MAX_RANGES"
    and b: "need \<le> buf_sz b" "1024 \<le> buf_sz b" "buf_len b \<le> buf_sz b"
      "\<forall>x\<in>set (ra_ranges r). unat (rg_end x - ra_base r) \<le> buf_len b"
      "\<forall>b0 k. ra_buf r = Some b0 \<longrightarrow> k < buf_len b0 \<longrightarrow> buf_data b ! k = buf_data b0 ! k"
  shows "reasm_inv r'" "reasm_view r' = reasm_put (reasm_view r) (ra_base r) off d"
proof -
  have sep: "separated (ra_ranges r)" and len: "length (ra_ranges r) \<le> QUIC_REASM_MAX_RANGES"
    and bnd: "\<forall>x\<in>set (ra_ranges r). ra_base r \<le> rg_off x \<and> rg_end x \<le> ra_limit r"
    using inv by (auto simp: reasm_inv_def)
  note mr = merged_ranges [OF sep off(2) i ab, folded rs'_def]
  have mb: "ra_base r \<le> mlo" "mhi \<le> ra_limit r" "end' \<le> mhi"
    using mr(4-6) off bnd by auto
  have set': "set rs' \<subseteq> insert \<lparr>rg_off = mlo, rg_end = mhi\<rparr> (set (ra_ranges r))"
    using set_take_subset [of i "ra_ranges r"] set_drop_subset [of "i + n" "ra_ranges r"]
    by (auto simp: rs'_def)
  have pos: "unat (off - ra_base r) + length d = unat (end' - ra_base r)"
    using off d by (simp add: unat_word_sub word_le_nat_alt word_less_nat_alt)
  have "unat (end' - ra_base r) \<le> need"
    unfolding need_def using mb off by (simp add: unat_word_sub word_le_nat_alt word_less_nat_alt)
  with pos b(1) have fits: "unat (off - ra_base r) + length d \<le> buf_sz b" by simp
  have "length rs' \<le> QUIC_REASM_MAX_RANGES"
    using len mr(7) room by (cases "n = 0") (auto simp: rs'_def)
  moreover have "\<forall>x\<in>set rs'. unat (rg_end x - ra_base r) \<le> (if need > buf_len b then need else buf_len b)"
    using set' b(4) by (fastforce simp: need_def)
  moreover have "\<forall>x\<in>set rs'. ra_base r \<le> rg_off x \<and> rg_end x \<le> ra_limit r"
    using set' bnd mb by fastforce
  ultimately show "reasm_inv r'"
    using mr(1) fits b by (simp add: reasm_inv_def r'_def)
  note old = reasm_cov_idx [OF inv]
  have new: "x \<in> {off..<end'} \<longleftrightarrow> ra_base r \<le> x \<and> off \<le> x \<and> unat (x - off) < length d" for x
    using off d by (auto simp: unat_word_sub word_le_nat_alt word_less_nat_alt)
  have idx: "unat (x - ra_base r) = unat (off - ra_base r) + unat (x - off)" if "off \<le> x" for x
    using that off by (simp add: unat_word_sub word_le_nat_alt word_less_nat_alt)
  have outside: "unat (x - ra_base r) < unat (off - ra_base r) \<or> unat (off - ra_base r) + length d \<le> unat (x - ra_base r)"
    if "ra_base r \<le> x" "x \<notin> {off..<end'}" for x
    using that off d by (auto simp: unat_word_sub word_le_nat_alt word_less_nat_alt)
  show "reasm_view r' = reasm_put (reasm_view r) (ra_base r) off d"
  proof
    fix x
    show "reasm_view r' x = reasm_put (reasm_view r) (ra_base r) off d x"
    proof (cases "x \<in> {off..<end'}")
      case True
      with new [of x] idx [of x] mr(2) fits show ?thesis
        by (auto simp: reasm_view_def reasm_put_def r'_def nth_mem_write)
    next
      case False
      with new [of x] have put: "reasm_put (reasm_view r) (ra_base r) off d x = reasm_view r x"
        by (auto simp: reasm_put_def)
      show ?thesis
      proof (cases "x \<in> cov (ra_ranges r)")
        case True
        then have "x \<in> cov rs'" using mr(2) by simp
        with put old [OF True] outside [of x] False b(5) fits True show ?thesis
          by (auto simp: reasm_view_def r'_def nth_mem_write)
      next
        case False
        then have "x \<notin> cov rs'" using mr(2) \<open>x \<notin> {off..<end'}\<close> by simp
        with put False show ?thesis by (simp add: reasm_view_def r'_def)
      qed
    qed
  qed
qed


lemma reasm_put_trim:
  assumes "o' = max off base" "unat off + length data < 2 ^ 64" "d = drop (unat o' - unat off) data"
  shows "reasm_put v base o' d = reasm_put v base off data"
proof
  fix x
  show "reasm_put v base o' d x = reasm_put v base off data x"
    using assms
    by (auto simp: reasm_put_def max_def unat_word_sub word_le_nat_alt split: if_splits)
qed

lemma reasm_put_old:
  assumes "unat off + length data \<le> unat base"
  shows "reasm_put v base off data = v"
  using assms by (auto simp: reasm_put_def fun_eq_iff unat_word_sub word_le_nat_alt)

lemma reasmInsert_ok:
  assumes inv: "reasm_inv r" and off: "ra_base r \<le> off" "off < end'" "end' \<le> ra_limit r"
    and d: "length d = unat end' - unat off"
    and ins: "reasmInsert xa r off end' d = (ok, r')"
  shows "reasm_inv r' \<and> ra_base r' = ra_base r \<and> ra_limit r' = ra_limit r \<and>
    (if ok then reasm_view r' = reasm_put (reasm_view r) (ra_base r) off d \<or>
        r' = r \<and> length (ra_ranges r) = QUIC_REASM_MAX_RANGES
     else r' = r \<and> (\<exists>k. \<not> xa_ok xa k))"
proof -
  define i where "i = reasmSkip (ra_ranges r) off"
  obtain mlo mhi n where ab: "reasmAbsorb (drop i (ra_ranges r)) off end' = (mlo, mhi, n)"
    by (metis surj_pair)
  have sep: "separated (ra_ranges r)" and len: "length (ra_ranges r) \<le> QUIC_REASM_MAX_RANGES"
    using inv by (auto simp: reasm_inv_def)
  note mr = merged_ranges [OF sep off(2) i_def ab]
  define need where "need = unat (mhi - ra_base r)"
  define sz where "sz = (case ra_buf r of None \<Rightarrow> 0 | Some b \<Rightarrow> buf_sz b)"
  obtain aok buf where rs: "(if ra_buf r = None \<or> sz < need
      then bufTryResize xa (ra_buf r) (reasmWant (if ra_buf r \<noteq> None then sz else 1024) need)
      else (True, ra_buf r)) = (aok, buf)" by (metis surj_pair)
  have need: "0 < need"
    unfolding need_def using mr(4) off by (simp add: unat_word_sub word_le_nat_alt word_less_nat_alt)
  show ?thesis
  proof (cases "n = 0 \<and> length (ra_ranges r) \<ge> QUIC_REASM_MAX_RANGES")
    case True
    with ins have "ok" "r' = r" by (auto simp: reasmInsert_def Let_def ab simp flip: i_def)
    with True inv len show ?thesis by auto
  next
    case full: False
    have ins': "(ok, r') = (case buf of None \<Rightarrow> (False, r\<lparr>ra_buf := buf\<rparr>)
        | Some b \<Rightarrow> if \<not> aok then (False, r\<lparr>ra_buf := buf\<rparr>) else
          (True, r\<lparr>ra_buf := Some \<lparr>buf_data = mem_write (buf_data b) (unat (off - ra_base r)) d,
              buf_len = (if need > buf_len b then need else buf_len b)\<rparr>,
            ra_ranges := take i (ra_ranges r) @ [\<lparr>rg_off = mlo, rg_end = mhi\<rparr>] @ drop (i + n) (ra_ranges r)\<rparr>))"
      using full ins
      unfolding reasmInsert_def Let_def i_def [symmetric] ab prod.case need_def [symmetric]
        sz_def [symmetric] rs by auto
    show ?thesis
    proof (cases "aok \<and> buf \<noteq> None")
      case True
      then obtain b where b: "aok" "buf = Some b" by auto
      note rz = reasm_resize [OF inv need, of xa b, folded sz_def, OF rs [unfolded b(2), simplified b(1)]]
      have "reasm_inv r' \<and> reasm_view r' = reasm_put (reasm_view r) (ra_base r) off d"
        using reasm_store [OF inv off d i_def ab, of b, folded need_def] rz full b ins' by auto
      with b ins' show ?thesis by auto
    next
      case False
      then have no: "\<exists>k. \<not> xa_ok xa k" and "buf = ra_buf r"
        using rs by (auto simp: bufTryResize_def bufTryCreate_def Let_def split: option.splits if_splits)
      then have "r\<lparr>ra_buf := buf\<rparr> = r" by simp
      with False ins' have "\<not> ok" "r' = r" by (auto split: option.splits)
      with no inv show ?thesis by simp
    qed
  qed
qed

lemma quicReasmAdd_ok:
  assumes inv: "reasm_inv r" and len: "length data < 2 ^ 64"
    and add: "quicReasmAdd xa r off data = (ok, r')"
  shows "reasm_inv r' \<and> ra_base r' = ra_base r \<and> ra_limit r' = ra_limit r \<and>
    (if ok then reasm_view r' = reasm_put (reasm_view r) (ra_base r) off data \<or>
        r' = r \<and> length (ra_ranges r) = QUIC_REASM_MAX_RANGES
     else r' = r \<and> (unat (ra_limit r) < unat off + length data \<or> (\<exists>k. \<not> xa_ok xa k)))"
proof (cases "data = []")
  case True
  with add inv show ?thesis by (auto simp: quicReasmAdd_def reasm_put_def fun_eq_iff)
next
  case ne: False
  define end' where "end' = off + of_nat (length data)"
  show ?thesis
  proof (cases "end' < off \<or> end' > ra_limit r")
    case True
    then have "ok = False" "r' = r"
      using add ne by (auto simp: quicReasmAdd_def Let_def simp flip: end'_def)
    moreover have "unat (ra_limit r) < unat off + length data"
    proof (rule ccontr)
      assume c: "\<not> unat (ra_limit r) < unat off + length data"
      then have "unat off + length data < 2 ^ 64" using unsigned_less [where 'a = nat, of "ra_limit r"] by simp
      then have "unat end' = unat off + length data"
        using len by (simp add: end'_def unat_word_add unat_of_nat_small)
      with True c show False by (auto simp: word_less_nat_alt)
    qed
    ultimately show ?thesis using inv by simp
  next
    case False
    then have fit: "unat off + length data < 2 ^ 64" and e: "unat end' = unat off + length data"
      using end_no_wrap [OF len, of off] by (auto simp: end'_def)
    show ?thesis
    proof (cases "end' \<le> ra_base r")
      case True
      with False add ne have "ok" "r' = r"
        by (auto simp: quicReasmAdd_def Let_def simp flip: end'_def)
      with True inv e show ?thesis
        using reasm_put_old [of off data "ra_base r" "reasm_view r"] by (auto simp: word_le_nat_alt)
    next
      case nb: False
      define o' where "o' = max off (ra_base r)"
      define d where "d = drop (unat o' - unat off) data"
      have ins: "reasmInsert xa r o' end' d = (ok, r')"
      proof (cases "off < ra_base r")
        case True
        then have "o' = ra_base r" "d = drop (unat (ra_base r - off)) data"
          by (auto simp: o'_def d_def max_def unat_word_sub)
        with True False nb add ne show ?thesis
          by (simp add: quicReasmAdd_def Let_def flip: end'_def)
      next
        case False
        then have "o' = off" "d = data" by (auto simp: o'_def d_def max_def)
        with False \<open>\<not> (end' < off \<or> end' > ra_limit r)\<close> nb add ne show ?thesis
          by (simp add: quicReasmAdd_def Let_def flip: end'_def)
      qed
      have "o' < end'" "end' \<le> ra_limit r" "length d = unat end' - unat o'"
        using False nb e ne by (auto simp: o'_def d_def max_def word_less_nat_alt word_le_nat_alt)
      with reasmInsert_ok [OF inv _ _ _ _ ins] show ?thesis
        using reasm_put_trim [OF o'_def fit d_def] by (auto simp: o'_def)
    qed
  qed
qed


section \<open>Reading\<close>

lemma readable_view:
  assumes inv: "reasm_inv r" and k: "k < quicReasmReadable r"
  shows "reasm_view r (ra_base r + of_nat k) = Some (the (quicReasmData r) ! k)"
    and "quicReasmReadable r \<le> length (the (quicReasmData r))" "quicReasmData r \<noteq> None"
    and "unat (ra_base r + of_nat k) = unat (ra_base r) + k"
proof -
  obtain x xs where x: "ra_ranges r = x # xs" "rg_off x = ra_base r"
      "quicReasmReadable r = unat (rg_end x - ra_base r)"
    using k by (auto simp: quicReasmReadable_def split: list.splits if_splits)
  have lt: "ra_base r < rg_end x" using inv x by (auto simp: reasm_inv_def)
  then have rd: "quicReasmReadable r = unat (rg_end x) - unat (ra_base r)"
    using x(3) by (simp add: unat_word_sub)
  have sum: "unat (ra_base r) + k < 2 ^ 64"
    using k rd unsigned_less [where 'a = nat, of "rg_end x"] by simp
  show u: "unat (ra_base r + of_nat k) = unat (ra_base r) + k"
    using sum by (simp add: unat_word_add unat_of_nat_small)
  have "ra_base r + of_nat k \<in> {rg_off x..<rg_end x}"
    using u k rd x(2) lt by (simp add: word_le_nat_alt word_less_nat_alt)
  then have c: "ra_base r + of_nat k \<in> cov (ra_ranges r)" by (simp add: x(1))
  have i: "unat (ra_base r + of_nat k - ra_base r) = k"
    using sum by (simp add: unat_of_nat_small)
  obtain b where b: "ra_buf r = Some b" "quicReasmReadable r \<le> buf_len b" "buf_len b \<le> buf_sz b"
    using inv x by (auto simp: reasm_inv_def split: option.splits)
  show "reasm_view r (ra_base r + of_nat k) = Some (the (quicReasmData r) ! k)"
    "quicReasmReadable r \<le> length (the (quicReasmData r))" "quicReasmData r \<noteq> None"
    using c i b by (simp_all add: reasm_view_def quicReasmData_def)
qed

lemma readable_stops:
  assumes inv: "reasm_inv r"
  shows "reasm_view r (ra_base r + of_nat (quicReasmReadable r)) = None"
proof (cases "ra_ranges r")
  case Nil
  then show ?thesis by (simp add: reasm_view_def)
next
  case (Cons x xs)
  have xs: "rg_off x < rg_end x" "\<forall>y\<in>set xs. rg_end x < rg_off y" "ra_base r \<le> rg_off x"
    using inv Cons by (auto simp: reasm_inv_def)
  have "ra_base r + of_nat (quicReasmReadable r) = (if rg_off x = ra_base r then rg_end x else ra_base r)"
    using Cons by (simp add: quicReasmReadable_def)
  then have "ra_base r + of_nat (quicReasmReadable r) \<notin> cov (ra_ranges r)"
    using xs Cons by (auto simp: cov_def)
  then show ?thesis by (simp add: reasm_view_def)
qed

text \<open>The ranges and the bytes that are left after consuming up to \<open>base\<close>.\<close>

lemma consumed_ranges:
  assumes "separated (x # xs)" "rg_off x < base" "base \<le> rg_end x"
  defines "rs' \<equiv> (if rg_end x = base then xs else x\<lparr>rg_off := base\<rparr> # xs)"
  shows "separated rs'" "cov rs' = cov (x # xs) \<inter> {base..}" "length rs' \<le> length (x # xs)"
    "\<forall>y\<in>set rs'. base \<le> rg_off y \<and> rg_end y \<in> rg_end ` set (x # xs)"
proof -
  have above: "base < rg_off y" if "y \<in> set xs" for y using that assms by fastforce
  then have "cov xs \<subseteq> {base..}" by (auto simp: cov_def) (meson less_imp_le order_trans)
  then show "cov rs' = cov (x # xs) \<inter> {base..}" using assms(2,3) by (auto simp: rs'_def)
  show "separated rs'" "length rs' \<le> length (x # xs)"
    "\<forall>y\<in>set rs'. base \<le> rg_off y \<and> rg_end y \<in> rg_end ` set (x # xs)"
    using assms(1-3) above by (auto simp: rs'_def less_imp_le)
qed

lemma quicReasmConsume_ok:
  assumes inv: "reasm_inv r" and len: "len \<le> quicReasmReadable r" and lt: "0 < len"
  shows "reasm_inv (quicReasmConsume r len)"
    and "unat (ra_base r + of_nat len) = unat (ra_base r) + len"
    and "reasm_view (quicReasmConsume r len) =
      (\<lambda>x. if x < ra_base r + of_nat len then None else reasm_view r x)"
proof -
  obtain x xs where x: "ra_ranges r = x # xs" "rg_off x = ra_base r"
      "quicReasmReadable r = unat (rg_end x - ra_base r)"
    using len lt by (auto simp: quicReasmReadable_def split: list.splits if_splits)
  have sep: "separated (x # xs)" and lim: "\<forall>y\<in>set (x # xs). rg_end y \<le> ra_limit r" "length (x # xs) \<le> 16"
    using inv x by (auto simp: reasm_inv_def)
  obtain b where b: "ra_buf r = Some b" "1024 \<le> buf_sz b" "buf_len b \<le> buf_sz b"
    "\<forall>y\<in>set (x # xs). unat (rg_end y - ra_base r) \<le> buf_len b"
    using inv x by (auto simp: reasm_inv_def split: option.splits)
  have rd: "quicReasmReadable r = unat (rg_end x) - unat (ra_base r)"
    using x(2,3) sep by (auto simp: unat_word_sub)
  define base where "base = ra_base r + of_nat len"
  show u: "unat (ra_base r + of_nat len) = unat (ra_base r) + len"
    using len rd unsigned_less [where 'a = nat, of "rg_end x"] lt
    by (intro trans [OF unat_word_add]) (simp_all add: unat_of_nat_small)
  have bb: "rg_off x < base" "base \<le> rg_end x"
    using u len rd lt x(2) by (simp_all add: base_def word_less_nat_alt word_le_nat_alt)
  define rs' where "rs' = (if rg_end x = base then xs else x\<lparr>rg_off := base\<rparr> # xs)"
  note cr = consumed_ranges [OF sep bb, folded rs'_def]
  define keep where "keep = (if buf_len b > len then buf_len b - len else 0)"
  define data where "data = (if keep > 0 then mem_write (buf_data b) 0 (take keep (drop len (buf_data b)))
    else buf_data b)"
  have r': "quicReasmConsume r len = r\<lparr>ra_base := base, ra_ranges := rs', ra_buf := Some \<lparr>buf_data = data, buf_len = keep\<rparr>\<rparr>"
    using lt by (simp add: quicReasmConsume_def Let_def x(1) b(1) base_def rs'_def keep_def data_def)
  have shift: "unat (y - base) = unat (y - ra_base r) - len" if "base \<le> y" for y
    using that u by (simp add: base_def unat_word_sub word_le_nat_alt)
  have data: "length data = buf_sz b" "k < keep \<Longrightarrow> data ! k = buf_data b ! (len + k)" for k
    using b(3) by (auto simp: data_def keep_def nth_mem_write split: if_splits)
  have ends: "unat (rg_end y - base) \<le> keep" if y: "y \<in> set rs'" for y
  proof -
    obtain z where z: "z \<in> set (x # xs)" "rg_end y = rg_end z" using cr(4) y by (meson imageE)
    have "base \<le> rg_end y" using cr(1,4) y separated_nonempty [of rs' y] by fastforce
    with shift b(4) z show ?thesis by (auto simp: keep_def)
  qed
  show "reasm_inv (quicReasmConsume r len)"
    using cr lim ends b(2,3) data(1) by (auto simp: reasm_inv_def r' keep_def)
  show "reasm_view (quicReasmConsume r len) =
      (\<lambda>x. if x < ra_base r + of_nat len then None else reasm_view r x)"
  proof
    fix y
    show "reasm_view (quicReasmConsume r len) y =
        (if y < ra_base r + of_nat len then None else reasm_view r y)"
    proof (cases "y \<in> cov (ra_ranges r) \<and> base \<le> y")
      case True
      then have "unat (y - ra_base r) < buf_len b" using reasm_cov_idx [OF inv, of y] b(1) by auto
      moreover have "len \<le> unat (y - ra_base r)"
        using True u by (auto simp: base_def unat_word_sub word_le_nat_alt)
      moreover have "y \<in> cov rs'" "\<not> y < base" using True cr(2) by (auto simp: x(1) linorder_not_less)
      ultimately show ?thesis
        using True shift [of y] data(2) [of "unat (y - base)"]
        by (simp add: reasm_view_def r' b(1) keep_def flip: base_def)
    next
      case False
      then have "y \<notin> cov rs'" using cr(2) by (simp add: x(1))
      moreover have "reasm_view r y = None" if "\<not> y < base"
        using False that by (auto simp: reasm_view_def linorder_not_less)
      ultimately show ?thesis by (simp add: reasm_view_def r' flip: base_def)
    qed
  qed
qed


section \<open>Properties\<close>

text \<open>
  Adding bytes refines writing them into a partial map from stream offsets to bytes. A call
  that returns true records every byte at or above the read position and keeps every other, or,
  only when all sixteen ranges are in use and the new bytes touch none of them, changes nothing. A
  call that returns false changes nothing, and happens only when the bytes pass the flow control
  limit (with no wrap-around of the 64-bit offset) or memory is refused. The range list stays
  sorted, separated and within its capacity.
\<close>

theorem reasm_add_refines:
  assumes "reasm_inv r" "length data < 2 ^ 64" "quicReasmAdd xa r off data = (ok, r')"
  shows "reasm_inv r' \<and> ra_base r' = ra_base r \<and> ra_limit r' = ra_limit r \<and>
    (if ok then reasm_view r' = reasm_put (reasm_view r) (ra_base r) off data \<or>
        r' = r \<and> length (ra_ranges r) = QUIC_REASM_MAX_RANGES
     else r' = r \<and> (unat (ra_limit r) < unat off + length data \<or> (\<exists>k. \<not> xa_ok xa k)))"
  by (rule quicReasmAdd_ok [OF assms])

definition example_xa :: xalloc where
  "example_xa = \<lparr>xa_ok = \<lambda>_. True, xa_junk = \<lambda>_. 0\<rparr>"

theorem reasm_add_refines_witness:
  "reasm_inv (snd (quicReasmAdd example_xa (quicReasmInit 100) 5 [1, 2, 3]))"
proof -
  have "reasm_inv (quicReasmInit 100)" by (simp add: reasm_inv_def quicReasmInit_def)
  from reasm_add_refines [OF this, of "[1, 2, 3]" example_xa 5] show ?thesis
    by (cases "quicReasmAdd example_xa (quicReasmInit 100) 5 [1, 2, 3]") simp
qed

text \<open>
  Reading refines taking the contiguous prefix of that map: the bytes reported readable are the
  mapped bytes from the read position on, they lie inside the buffer, and the byte after them is
  missing; consuming some of them moves the read position and forgets exactly the bytes below it.
\<close>

theorem reasm_read_refines:
  assumes "reasm_inv r" "len \<le> quicReasmReadable r"
  shows "(\<forall>k < quicReasmReadable r.
        reasm_view r (ra_base r + of_nat k) = Some (the (quicReasmData r) ! k))
    \<and> reasm_view r (ra_base r + of_nat (quicReasmReadable r)) = None
    \<and> (0 < quicReasmReadable r \<longrightarrow> quicReasmReadable r \<le> length (the (quicReasmData r)))
    \<and> reasm_inv (quicReasmConsume r len)
    \<and> unat (ra_base (quicReasmConsume r len)) = unat (ra_base r) + len
    \<and> reasm_view (quicReasmConsume r len) =
        (\<lambda>x. if x < ra_base r + of_nat len then None else reasm_view r x)"
proof (intro conjI)
  show "\<forall>k < quicReasmReadable r. reasm_view r (ra_base r + of_nat k) = Some (the (quicReasmData r) ! k)"
    using readable_view(1) [OF assms(1)] by blast
  show "reasm_view r (ra_base r + of_nat (quicReasmReadable r)) = None"
    by (rule readable_stops [OF assms(1)])
  show "0 < quicReasmReadable r \<longrightarrow> quicReasmReadable r \<le> length (the (quicReasmData r))"
    using readable_view(2) [OF assms(1), of 0] by blast
  show "reasm_inv (quicReasmConsume r len)"
    using quicReasmConsume_ok(1) [OF assms] assms(1) by (cases "len = 0") (auto simp: quicReasmConsume_def)
  show "unat (ra_base (quicReasmConsume r len)) = unat (ra_base r) + len"
    using quicReasmConsume_ok(2) [OF assms] by (cases "len = 0") (auto simp: quicReasmConsume_def Let_def)
  have "reasm_view r x = None" if "x < ra_base r" for x
    using reasm_cov_idx [OF assms(1), of x] that by (auto simp: reasm_view_def)
  then show "reasm_view (quicReasmConsume r len) =
      (\<lambda>x. if x < ra_base r + of_nat len then None else reasm_view r x)"
    using quicReasmConsume_ok(3) [OF assms] by (cases "len = 0") (auto simp: quicReasmConsume_def)
qed

theorem reasm_read_refines_witness:
  "quicReasmReadable (snd (quicReasmAdd example_xa (quicReasmInit 100) 0 [1, 2, 3])) = 3
    \<and> reasm_inv (quicReasmConsume (snd (quicReasmAdd example_xa (quicReasmInit 100) 0 [1, 2, 3])) 2)"
proof -
  define r where "r = snd (quicReasmAdd example_xa (quicReasmInit 100) 0 [1, 2, 3])"
  have rd: "quicReasmReadable r = 3" unfolding r_def example_xa_def by code_simp
  have "reasm_inv (quicReasmInit 100)" by (simp add: reasm_inv_def quicReasmInit_def)
  then have "reasm_inv r"
    using quicReasmAdd_ok [of "quicReasmInit 100" "[1, 2, 3]" example_xa 0]
    by (cases "quicReasmAdd example_xa (quicReasmInit 100) 0 [1, 2, 3]") (simp add: r_def)
  from reasm_read_refines [OF this, of 2] rd show ?thesis by (simp flip: r_def)
qed

text \<open>A peer's frames arriving in any order, and a reader taking what is readable in between.\<close>

datatype reasm_op = OpAdd xalloc u64 "u8 list" | OpRead nat

primrec reasm_run :: "reasm_op list \<Rightarrow> QuicReasm \<Rightarrow> u8 list \<Rightarrow> QuicReasm \<times> u8 list" where
  "reasm_run [] r out = (r, out)"
| "reasm_run (p # ps) r out =
     (case p of
        OpAdd xa off data \<Rightarrow> reasm_run ps (snd (quicReasmAdd xa r off data)) out
      | OpRead n \<Rightarrow>
          let len = min n (quicReasmReadable r);
              got = (case quicReasmData r of None \<Rightarrow> [] | Some d \<Rightarrow> take len d)
          in reasm_run ps (quicReasmConsume r len) (out @ got))"

text \<open>Every added piece is a piece of the stream \<open>S\<close>.\<close>

primrec op_of_stream :: "(nat \<Rightarrow> u8) \<Rightarrow> reasm_op \<Rightarrow> bool" where
  "op_of_stream S (OpAdd xa off data) \<longleftrightarrow>
     length data < 2 ^ 64 \<and> (\<forall>k < length data. data ! k = S (unat off + k))"
| "op_of_stream S (OpRead n) \<longleftrightarrow> True"

definition follows :: "(nat \<Rightarrow> u8) \<Rightarrow> QuicReasm \<Rightarrow> u8 list \<Rightarrow> bool" where
  "follows S r out \<longleftrightarrow> reasm_inv r \<and> (\<forall>x b. reasm_view r x = Some b \<longrightarrow> b = S (unat x)) \<and>
     out = map S [0..<unat (ra_base r)]"

lemma follows_add:
  assumes "follows S r out" "op_of_stream S (OpAdd xa off data)"
  shows "follows S (snd (quicReasmAdd xa r off data)) out"
proof -
  obtain ok r' where a: "quicReasmAdd xa r off data = (ok, r')" by (cases "quicReasmAdd xa r off data")
  note k = quicReasmAdd_ok [OF _ _ a]
  have put: "reasm_put (reasm_view r) (ra_base r) off data x = Some b \<Longrightarrow> b = S (unat x)" for x b
    using assms by (auto simp: follows_def reasm_put_def unat_word_sub word_le_nat_alt split: if_splits)
  show ?thesis
    using k assms put by (auto simp: a follows_def split: if_splits)
qed

lemma follows_read:
  assumes f: "follows S r out" and len: "len \<le> quicReasmReadable r"
  shows "follows S (quicReasmConsume r len)
    (out @ (case quicReasmData r of None \<Rightarrow> [] | Some d \<Rightarrow> take len d))"
proof (cases "len = 0")
  case True
  then show ?thesis using f by (simp add: quicReasmConsume_def split: option.split)
next
  case False
  then have inv: "reasm_inv r" and lt: "0 < len" using f by (auto simp: follows_def)
  note c = quicReasmConsume_ok [OF inv len lt]
  obtain d where d: "quicReasmData r = Some d" "len \<le> length d"
    using readable_view(2,3) [OF inv, of 0] len lt by auto
  have "d ! k = S (unat (ra_base r) + k)" if "k < len" for k
    using readable_view(1,4) [OF inv, of k] f that len d(1) by (fastforce simp: follows_def)
  then have "take len d = map S [unat (ra_base r)..<unat (ra_base r) + len]"
    using d(2) by (intro nth_equalityI) auto
  moreover have "ra_base (quicReasmConsume r len) = ra_base r + of_nat len"
    using lt by (simp add: quicReasmConsume_def Let_def)
  ultimately show ?thesis
    using f c d(1) by (auto simp: follows_def upt_add_eq_append [of 0] split: if_splits)
qed

lemma follows_run:
  "follows S r out \<Longrightarrow> list_all (op_of_stream S) ps \<Longrightarrow> reasm_run ps r out = (r', out') \<Longrightarrow> follows S r' out'"
proof (induction ps arbitrary: r out)
  case (Cons p ps)
  show ?case
  proof (cases p)
    case (OpAdd xa off data)
    with Cons.prems have "follows S (snd (quicReasmAdd xa r off data)) out"
      by (intro follows_add) simp_all
    with OpAdd Cons show ?thesis by simp
  next
    case (OpRead n)
    with Cons show ?thesis
      using follows_read [OF Cons.prems(1), of "min n (quicReasmReadable r)"] by (simp add: Let_def)
  qed
qed simp

text \<open>
  C13. The reader of a reassembled stream gets the peer's stream: however the stream's bytes are cut
  into pieces, reordered, repeated, overlapped, dropped for lack of ranges or memory, and whatever
  the reader takes in between, what it has read is at every moment exactly the first bytes of the
  stream, in order, up to the read position.
\<close>

theorem reasm_delivers_stream:
  assumes "list_all (op_of_stream S) ps" "reasm_run ps (quicReasmInit limit) [] = (r, out)"
  shows "out = map S [0..<unat (ra_base r)]"
proof -
  have "follows S (quicReasmInit limit) []"
    by (simp add: follows_def reasm_inv_def quicReasmInit_def reasm_view_def)
  from follows_run [OF this assms] show ?thesis by (simp add: follows_def)
qed

definition example_ops :: "reasm_op list" where
  "example_ops = [OpAdd example_xa 2 [2, 3], OpRead 9, OpAdd example_xa 0 [0, 1, 2], OpRead 3]"

theorem reasm_delivers_stream_witness:
  "snd (reasm_run example_ops (quicReasmInit 100) []) =
    map of_nat [0..<unat (ra_base (fst (reasm_run example_ops (quicReasmInit 100) [])))]"
proof -
  have "list_all (op_of_stream of_nat) example_ops"
    by (auto simp: example_ops_def less_Suc_eq)
  from reasm_delivers_stream [OF this surjective_pairing] show ?thesis .
qed

end
