(* ===== verification/QuicParams.thy ===== *)
theory QuicParams
  imports QuicHdr
begin

text \<open>
  Transport parameters: \<^verbatim>\<open>QuicTransportParams\<close> of \<^verbatim>\<open>src/cxquic/conn_private.h\<close> with its defaults,
  encoder and decoder from \<^verbatim>\<open>src/cxquic/params.c\<close>. A decoder that returns false is \<open>None\<close>.
\<close>

section \<open>Data\<close>

record QuicTransportParams =
  tp_origDcid :: QuicCid
  tp_initScid :: QuicCid
  tp_retryScid :: QuicCid
  tp_haveOrigDcid :: bool
  tp_haveInitScid :: bool
  tp_haveRetryScid :: bool
  tp_resetToken :: "u8 list"
  tp_haveResetToken :: bool
  tp_maxIdleTimeout :: u64
  tp_maxUdpPayload :: u64
  tp_initMaxData :: u64
  tp_initMaxSdBidiLocal :: u64
  tp_initMaxSdBidiRemote :: u64
  tp_initMaxSdUni :: u64
  tp_initMaxStreamsBidi :: u64
  tp_initMaxStreamsUni :: u64
  tp_ackDelayExponent :: u64
  tp_maxAckDelay :: u64
  tp_activeCidLimit :: u64
  tp_maxDatagramFrame :: u64
  tp_disableMigration :: bool

abbreviation (input) QUIC_TP_ORIG_DCID :: u64 where "QUIC_TP_ORIG_DCID \<equiv> 0x00"
abbreviation (input) QUIC_TP_MAX_IDLE_TIMEOUT :: u64 where "QUIC_TP_MAX_IDLE_TIMEOUT \<equiv> 0x01"
abbreviation (input) QUIC_TP_STATELESS_RESET :: u64 where "QUIC_TP_STATELESS_RESET \<equiv> 0x02"
abbreviation (input) QUIC_TP_MAX_UDP_PAYLOAD :: u64 where "QUIC_TP_MAX_UDP_PAYLOAD \<equiv> 0x03"
abbreviation (input) QUIC_TP_INIT_MAX_DATA :: u64 where "QUIC_TP_INIT_MAX_DATA \<equiv> 0x04"
abbreviation (input) QUIC_TP_INIT_MAX_SD_BIDI_L :: u64 where "QUIC_TP_INIT_MAX_SD_BIDI_L \<equiv> 0x05"
abbreviation (input) QUIC_TP_INIT_MAX_SD_BIDI_R :: u64 where "QUIC_TP_INIT_MAX_SD_BIDI_R \<equiv> 0x06"
abbreviation (input) QUIC_TP_INIT_MAX_SD_UNI :: u64 where "QUIC_TP_INIT_MAX_SD_UNI \<equiv> 0x07"
abbreviation (input) QUIC_TP_INIT_MAX_STR_BIDI :: u64 where "QUIC_TP_INIT_MAX_STR_BIDI \<equiv> 0x08"
abbreviation (input) QUIC_TP_INIT_MAX_STR_UNI :: u64 where "QUIC_TP_INIT_MAX_STR_UNI \<equiv> 0x09"
abbreviation (input) QUIC_TP_ACK_DELAY_EXPONENT :: u64 where "QUIC_TP_ACK_DELAY_EXPONENT \<equiv> 0x0a"
abbreviation (input) QUIC_TP_MAX_ACK_DELAY :: u64 where "QUIC_TP_MAX_ACK_DELAY \<equiv> 0x0b"
abbreviation (input) QUIC_TP_DISABLE_MIGRATION :: u64 where "QUIC_TP_DISABLE_MIGRATION \<equiv> 0x0c"
abbreviation (input) QUIC_TP_PREFERRED_ADDRESS :: u64 where "QUIC_TP_PREFERRED_ADDRESS \<equiv> 0x0d"
abbreviation (input) QUIC_TP_ACTIVE_CID_LIMIT :: u64 where "QUIC_TP_ACTIVE_CID_LIMIT \<equiv> 0x0e"
abbreviation (input) QUIC_TP_INIT_SCID :: u64 where "QUIC_TP_INIT_SCID \<equiv> 0x0f"
abbreviation (input) QUIC_TP_RETRY_SCID :: u64 where "QUIC_TP_RETRY_SCID \<equiv> 0x10"
abbreviation (input) QUIC_TP_MAX_DATAGRAM_FRAME :: u64 where "QUIC_TP_MAX_DATAGRAM_FRAME \<equiv> 0x20"

abbreviation (input) QUIC_TP_DEF_MAX_UDP_PAYLOAD :: u64 where "QUIC_TP_DEF_MAX_UDP_PAYLOAD \<equiv> 65527"
abbreviation (input) QUIC_TP_DEF_ACK_DELAY_EXP :: u64 where "QUIC_TP_DEF_ACK_DELAY_EXP \<equiv> 3"
abbreviation (input) QUIC_TP_DEF_MAX_ACK_DELAY :: u64 where "QUIC_TP_DEF_MAX_ACK_DELAY \<equiv> 25"
abbreviation (input) QUIC_TP_DEF_ACTIVE_CID :: u64 where "QUIC_TP_DEF_ACTIVE_CID \<equiv> 2"
abbreviation (input) QUIC_TP_MIN_UDP_PAYLOAD :: u64 where "QUIC_TP_MIN_UDP_PAYLOAD \<equiv> 1200"
abbreviation (input) QUIC_TP_MAX_ACK_DELAY_EXP :: u64 where "QUIC_TP_MAX_ACK_DELAY_EXP \<equiv> 20"
abbreviation (input) QUIC_TP_MAX_ACK_DELAY_MS :: u64 where "QUIC_TP_MAX_ACK_DELAY_MS \<equiv> 16384"
abbreviation (input) QUIC_TP_RESET_LEN :: nat where "QUIC_TP_RESET_LEN \<equiv> 16"

definition QUIC_TP_MAX_STREAMS :: u64 where
  "QUIC_TP_MAX_STREAMS = push_bit 60 1"

definition quicTpDefaults :: QuicTransportParams where
  "quicTpDefaults = \<lparr>tp_origDcid = [], tp_initScid = [], tp_retryScid = [],
     tp_haveOrigDcid = False, tp_haveInitScid = False, tp_haveRetryScid = False,
     tp_resetToken = replicate QUIC_TP_RESET_LEN 0, tp_haveResetToken = False,
     tp_maxIdleTimeout = 0, tp_maxUdpPayload = QUIC_TP_DEF_MAX_UDP_PAYLOAD, tp_initMaxData = 0,
     tp_initMaxSdBidiLocal = 0, tp_initMaxSdBidiRemote = 0, tp_initMaxSdUni = 0,
     tp_initMaxStreamsBidi = 0, tp_initMaxStreamsUni = 0,
     tp_ackDelayExponent = QUIC_TP_DEF_ACK_DELAY_EXP, tp_maxAckDelay = QUIC_TP_DEF_MAX_ACK_DELAY,
     tp_activeCidLimit = QUIC_TP_DEF_ACTIVE_CID, tp_maxDatagramFrame = 0,
     tp_disableMigration = False\<rparr>"


section \<open>Encoding\<close>

definition tpInt :: "QuicWr \<Rightarrow> u64 \<Rightarrow> u64 \<Rightarrow> QuicWr" where
  "tpInt wr i val =
     quicWrVarint (quicWrVarint (quicWrVarint wr i) (of_nat (quicVarintSize val))) val"

definition tpCid :: "QuicWr \<Rightarrow> u64 \<Rightarrow> QuicCid \<Rightarrow> QuicWr" where
  "tpCid wr i cid = quicWrVarintBytes (quicWrVarint wr i) cid"

text \<open>One line \<^verbatim>\<open>if (val != dflt) tpInt(wr, id, val);\<close>\<close>

definition tpIntUnless :: "u64 \<Rightarrow> u64 \<Rightarrow> u64 \<Rightarrow> QuicWr \<Rightarrow> QuicWr" where
  "tpIntUnless dflt i val wr = (if val \<noteq> dflt then tpInt wr i val else wr)"

definition quicTpEncode :: "QuicWr \<Rightarrow> QuicTransportParams \<Rightarrow> bool \<Rightarrow> bool \<times> QuicWr" where
  "quicTpEncode wr tp server =
     (let wr = (if tp_haveInitScid tp then tpCid wr QUIC_TP_INIT_SCID (tp_initScid tp) else wr);
          wr = (if server \<and> tp_haveOrigDcid tp then tpCid wr QUIC_TP_ORIG_DCID (tp_origDcid tp) else wr);
          wr = (if server \<and> tp_haveRetryScid tp then tpCid wr QUIC_TP_RETRY_SCID (tp_retryScid tp) else wr);
          wr = (if server \<and> tp_haveResetToken tp
                then quicWrVarintBytes (quicWrVarint wr QUIC_TP_STATELESS_RESET) (tp_resetToken tp)
                else wr);
          wr = tpIntUnless 0 QUIC_TP_MAX_IDLE_TIMEOUT (tp_maxIdleTimeout tp) wr;
          wr = tpIntUnless QUIC_TP_DEF_MAX_UDP_PAYLOAD QUIC_TP_MAX_UDP_PAYLOAD (tp_maxUdpPayload tp) wr;
          wr = tpIntUnless 0 QUIC_TP_INIT_MAX_DATA (tp_initMaxData tp) wr;
          wr = tpIntUnless 0 QUIC_TP_INIT_MAX_SD_BIDI_L (tp_initMaxSdBidiLocal tp) wr;
          wr = tpIntUnless 0 QUIC_TP_INIT_MAX_SD_BIDI_R (tp_initMaxSdBidiRemote tp) wr;
          wr = tpIntUnless 0 QUIC_TP_INIT_MAX_SD_UNI (tp_initMaxSdUni tp) wr;
          wr = tpIntUnless 0 QUIC_TP_INIT_MAX_STR_BIDI (tp_initMaxStreamsBidi tp) wr;
          wr = tpIntUnless 0 QUIC_TP_INIT_MAX_STR_UNI (tp_initMaxStreamsUni tp) wr;
          wr = tpIntUnless QUIC_TP_DEF_ACK_DELAY_EXP QUIC_TP_ACK_DELAY_EXPONENT (tp_ackDelayExponent tp) wr;
          wr = tpIntUnless QUIC_TP_DEF_MAX_ACK_DELAY QUIC_TP_MAX_ACK_DELAY (tp_maxAckDelay tp) wr;
          wr = tpIntUnless QUIC_TP_DEF_ACTIVE_CID QUIC_TP_ACTIVE_CID_LIMIT (tp_activeCidLimit tp) wr;
          wr = tpIntUnless 0 QUIC_TP_MAX_DATAGRAM_FRAME (tp_maxDatagramFrame tp) wr;
          wr = (if tp_disableMigration tp
                then quicWrVarint (quicWrVarint wr QUIC_TP_DISABLE_MIGRATION) 0 else wr)
      in (\<not> wr_bad wr, wr))"


section \<open>Decoding\<close>

definition tpRdInt :: "u8 list \<Rightarrow> u64 option" where
  "tpRdInt val =
     (case quicRdVarint (quicRdInit val) of
        (v, rd) \<Rightarrow> if \<not> rd_bad rd \<and> quicRdLeft rd = 0 then Some v else None)"

definition tpRdCid :: "u8 list \<Rightarrow> QuicCid option" where
  "tpRdCid val = (if length val > QUIC_MAX_CID then None else Some val)"

definition tpKnown :: "u64 \<Rightarrow> bool" where
  "tpKnown i \<longleftrightarrow> i \<le> QUIC_TP_RETRY_SCID \<or> i = QUIC_TP_MAX_DATAGRAM_FRAME"

text \<open>The two \<^verbatim>\<open>switch\<close> statements for a known parameter.\<close>

definition tpSetInt :: "u64 \<Rightarrow> u64 \<Rightarrow> QuicTransportParams \<Rightarrow> QuicTransportParams option" where
  "tpSetInt i v tp =
     (if i = QUIC_TP_MAX_IDLE_TIMEOUT then Some (tp\<lparr>tp_maxIdleTimeout := v\<rparr>)
      else if i = QUIC_TP_INIT_MAX_DATA then Some (tp\<lparr>tp_initMaxData := v\<rparr>)
      else if i = QUIC_TP_INIT_MAX_SD_BIDI_L then Some (tp\<lparr>tp_initMaxSdBidiLocal := v\<rparr>)
      else if i = QUIC_TP_INIT_MAX_SD_BIDI_R then Some (tp\<lparr>tp_initMaxSdBidiRemote := v\<rparr>)
      else if i = QUIC_TP_INIT_MAX_SD_UNI then Some (tp\<lparr>tp_initMaxSdUni := v\<rparr>)
      else if i = QUIC_TP_MAX_UDP_PAYLOAD then
        if v < QUIC_TP_MIN_UDP_PAYLOAD then None else Some (tp\<lparr>tp_maxUdpPayload := v\<rparr>)
      else if i = QUIC_TP_INIT_MAX_STR_BIDI \<or> i = QUIC_TP_INIT_MAX_STR_UNI then
        if v > QUIC_TP_MAX_STREAMS then None
        else if i = QUIC_TP_INIT_MAX_STR_BIDI then Some (tp\<lparr>tp_initMaxStreamsBidi := v\<rparr>)
        else Some (tp\<lparr>tp_initMaxStreamsUni := v\<rparr>)
      else if i = QUIC_TP_ACK_DELAY_EXPONENT then
        if v > QUIC_TP_MAX_ACK_DELAY_EXP then None else Some (tp\<lparr>tp_ackDelayExponent := v\<rparr>)
      else if i = QUIC_TP_MAX_ACK_DELAY then
        if v \<ge> QUIC_TP_MAX_ACK_DELAY_MS then None else Some (tp\<lparr>tp_maxAckDelay := v\<rparr>)
      else if i = QUIC_TP_ACTIVE_CID_LIMIT then
        if v < QUIC_TP_DEF_ACTIVE_CID then None else Some (tp\<lparr>tp_activeCidLimit := v\<rparr>)
      else if i = QUIC_TP_MAX_DATAGRAM_FRAME then Some (tp\<lparr>tp_maxDatagramFrame := v\<rparr>)
      else Some tp)"

definition tpValue :: "u64 \<Rightarrow> u8 list \<Rightarrow> QuicTransportParams \<Rightarrow> QuicTransportParams option" where
  "tpValue i val tp =
     (if i = QUIC_TP_ORIG_DCID then
        map_option (\<lambda>c. tp\<lparr>tp_origDcid := c, tp_haveOrigDcid := True\<rparr>) (tpRdCid val)
      else if i = QUIC_TP_INIT_SCID then
        map_option (\<lambda>c. tp\<lparr>tp_initScid := c, tp_haveInitScid := True\<rparr>) (tpRdCid val)
      else if i = QUIC_TP_RETRY_SCID then
        map_option (\<lambda>c. tp\<lparr>tp_retryScid := c, tp_haveRetryScid := True\<rparr>) (tpRdCid val)
      else if i = QUIC_TP_STATELESS_RESET then
        if length val \<noteq> QUIC_TP_RESET_LEN then None
        else Some (tp\<lparr>tp_resetToken := val, tp_haveResetToken := True\<rparr>)
      else if i = QUIC_TP_DISABLE_MIGRATION then
        if length val \<noteq> 0 then None else Some (tp\<lparr>tp_disableMigration := True\<rparr>)
      else if i = QUIC_TP_PREFERRED_ADDRESS then
        if length val < 4 + 2 + 16 + 2 + 1 then None
        else if length val \<noteq> 4 + 2 + 16 + 2 + 1 + unat (val ! (4 + 2 + 16 + 2)) + QUIC_TP_RESET_LEN then None
        else if unat (val ! (4 + 2 + 16 + 2)) > QUIC_MAX_CID then None
        else Some tp
      else case tpRdInt val of None \<Rightarrow> None | Some v \<Rightarrow> tpSetInt i v tp)"

text \<open>One turn of the loop for a known parameter: duplicates, roles, then the value.\<close>

definition tpStep ::
  "bool \<Rightarrow> u64 \<Rightarrow> u8 list \<Rightarrow> QuicTransportParams \<times> u64 \<Rightarrow> (QuicTransportParams \<times> u64) option" where
  "tpStep fromServer i val st =
     (case st of (tp, seen) \<Rightarrow>
        if seen AND push_bit (unat i) 1 \<noteq> 0 then None
        else if \<not> fromServer \<and> (i = QUIC_TP_ORIG_DCID \<or> i = QUIC_TP_RETRY_SCID \<or>
               i = QUIC_TP_STATELESS_RESET \<or> i = QUIC_TP_PREFERRED_ADDRESS) then None
        else map_option (\<lambda>tp1. (tp1, seen OR push_bit (unat i) 1)) (tpValue i val tp))"

function tpLoop ::
  "bool \<Rightarrow> QuicRd \<Rightarrow> QuicTransportParams \<times> u64 \<Rightarrow> (QuicTransportParams \<times> QuicRd) option" where
  "tpLoop fromServer rd st =
     (if quicRdLeft rd > 0 then
        case quicRdVarint rd of
          (i, rd1) \<Rightarrow>
            (case quicRdVarintBytes rd1 of
               (None, rd2) \<Rightarrow> None
             | (Some val, rd2) \<Rightarrow>
                 if \<not> tpKnown i then tpLoop fromServer rd2 st
                 else case tpStep fromServer i val st of
                        None \<Rightarrow> None
                      | Some st1 \<Rightarrow> tpLoop fromServer rd2 st1)
      else Some (fst st, rd))"
  by pat_completeness auto

lemma quicRdVarint_good:
  assumes "quicRdVarint rd = (v, rd1)" "\<not> rd_bad rd1"
  shows "\<not> rd_bad rd" "rd_p rd < length (rd_buf rd)" "rd_p rd < rd_p rd1"
proof -
  define k :: nat where "k = 2 ^ unat (drop_bit 6 (rd_buf rd ! rd_p rd))"
  have "0 < k" by (simp add: k_def)
  moreover have "\<not> rd_bad rd" "k \<le> length (rd_buf rd) - rd_p rd" "rd_p rd1 = rd_p rd + k"
    using assms by (auto simp: quicRdVarint_def Let_def k_def split: if_splits)
  ultimately show "\<not> rd_bad rd" "rd_p rd < length (rd_buf rd)" "rd_p rd < rd_p rd1" by simp_all
qed

lemma quicRdVarintBytes_advances:
  assumes "quicRdVarint rd = (i, rd1)" "quicRdVarintBytes rd1 = (Some val, rd2)"
  shows "quicRdLeft rd2 < quicRdLeft rd"
proof -
  have nb: "\<not> rd_bad rd1"
    using assms(2) by (auto simp: quicRdVarintBytes_def quicRdVarint_def split: prod.splits if_splits)
  note g = quicRdVarint_good [OF assms(1) nb]
  then have wf: "rd_wf rd" by (simp add: rd_wf_def)
  have s1: "rd_step rd rd1" using quicRdVarint_step [OF wf] assms(1) by simp
  have s2: "rd_step rd1 rd2" using quicRdVarintBytes_step [OF rd_step_wf [OF s1]] assms(2) by simp
  from s1 s2 g show ?thesis by (auto simp: rd_step_def quicRdLeft_def)
qed

termination tpLoop
  by (relation "measure (\<lambda>(fs, rd, st). quicRdLeft rd)") (auto dest: quicRdVarintBytes_advances sym)

declare tpLoop.simps [simp del]

definition quicTpDecode :: "u8 list \<Rightarrow> bool \<Rightarrow> QuicTransportParams option" where
  "quicTpDecode data fromServer =
     (case tpLoop fromServer (quicRdInit data) (quicTpDefaults, 0) of
        None \<Rightarrow> None
      | Some (tp, rd) \<Rightarrow>
          if \<not> tp_haveInitScid tp then None
          else if fromServer \<and> \<not> tp_haveOrigDcid tp then None
          else if rd_bad rd then None else Some tp)"


section \<open>Parameter lists\<close>

text \<open>A parameter on the wire: its id and the bytes of its value.\<close>

type_synonym tp_item = "u64 \<times> u8 list"

definition item_bytes :: "tp_item \<Rightarrow> u8 list" where
  "item_bytes it = varint_bytes (fst it) @ varint_string (snd it)"

definition item_ok :: "tp_item \<Rightarrow> bool" where
  "item_ok it \<longleftrightarrow> varint_ok (fst it) \<and> string_ok (snd it)"

primrec tp_fold ::
  "bool \<Rightarrow> tp_item list \<Rightarrow> QuicTransportParams \<times> u64 \<Rightarrow> (QuicTransportParams \<times> u64) option" where
  "tp_fold fs [] st = Some st"
| "tp_fold fs (it # its) st =
     (if \<not> tpKnown (fst it) then tp_fold fs its st
      else case tpStep fs (fst it) (snd it) st of None \<Rightarrow> None | Some st1 \<Rightarrow> tp_fold fs its st1)"

lemma tpLoop_items:
  "list_all item_ok its \<Longrightarrow>
   tpLoop fs (rd_mk pre (concat (map item_bytes its))) st =
     map_option (\<lambda>st'. (fst st', rd_mk (pre @ concat (map item_bytes its)) [])) (tp_fold fs its st)"
proof (induction its arbitrary: pre st)
  case Nil
  then show ?case by (simp add: tpLoop.simps)
next
  case (Cons it its)
  let ?rest = "concat (map item_bytes its)"
  have ok: "varint_ok (fst it)" "string_ok (snd it)" using Cons.prems by (simp_all add: item_ok_def)
  have rd: "quicRdVarint (rd_mk pre (item_bytes it @ ?rest)) =
      (fst it, rd_mk (pre @ varint_bytes (fst it)) (varint_string (snd it) @ ?rest))"
    using ok by (simp add: item_bytes_def quicRdVarint_mk)
  have rd2: "quicRdVarintBytes (rd_mk (pre @ varint_bytes (fst it)) (varint_string (snd it) @ ?rest)) =
      (Some (snd it), rd_mk (pre @ item_bytes it) ?rest)"
    using ok by (simp add: item_bytes_def quicRdVarintBytes_mk)
  have "item_bytes it \<noteq> []" by (simp add: item_bytes_def)
  then show ?case
    using Cons rd rd2
    by (auto simp: tpLoop.simps [of fs "rd_mk pre (item_bytes it @ ?rest)"] split: option.split)
qed

text \<open>Without duplicates the mask never matters.\<close>

primrec tp_values :: "tp_item list \<Rightarrow> QuicTransportParams \<Rightarrow> QuicTransportParams option" where
  "tp_values [] tp = Some tp"
| "tp_values (it # its) tp =
     (case tpValue (fst it) (snd it) tp of None \<Rightarrow> None | Some tp1 \<Rightarrow> tp_values its tp1)"

definition item_allowed :: "bool \<Rightarrow> tp_item \<Rightarrow> bool" where
  "item_allowed fs it \<longleftrightarrow> tpKnown (fst it) \<and> (fs \<or> fst it \<notin> {0x00, 0x10, 0x02, 0x0d})"

lemma mask_bit: "unat i < 64 \<Longrightarrow> (seen :: u64) AND push_bit (unat i) 1 \<noteq> 0 \<longleftrightarrow> bit seen (unat i)"
  by (simp add: push_bit_eq_mult and_exp_eq_0_iff_not_bit)

lemma tpKnown_small: "tpKnown i \<Longrightarrow> unat i < 64"
  by (auto simp: tpKnown_def word_le_nat_alt)

lemma tp_fold_values:
  assumes "list_all (item_allowed fs) its" "distinct (map fst its)" "\<forall>it\<in>set its. \<not> bit seen (unat (fst it))"
  shows "map_option fst (tp_fold fs its (tp, seen)) = tp_values its tp"
  using assms
proof (induction its arbitrary: tp seen)
  case (Cons it its)
  have k: "tpKnown (fst it)" "unat (fst it) < 64"
    using Cons.prems(1) tpKnown_small by (auto simp: item_allowed_def)
  have unseen: "\<forall>jt\<in>set its. \<not> bit (seen OR push_bit (unat (fst it)) 1) (unat (fst jt))"
  proof
    fix jt assume "jt \<in> set its"
    then have "fst jt \<noteq> fst it" "\<not> bit seen (unat (fst jt))"
      using Cons.prems(2,3) by (auto simp: image_iff)
    then have "unat (fst jt) \<noteq> unat (fst it)" "\<not> bit seen (unat (fst jt))"
      by (auto dest: unsigned_word_eqI)
    then show "\<not> bit (seen OR push_bit (unat (fst it)) 1) (unat (fst jt))" by (auto simp: bit_simps)
  qed
  have step: "tpStep fs (fst it) (snd it) (tp, seen) =
      map_option (\<lambda>tp1. (tp1, seen OR push_bit (unat (fst it)) 1)) (tpValue (fst it) (snd it) tp)"
    using Cons.prems mask_bit [OF k(2), of seen] by (auto simp: tpStep_def item_allowed_def)
  show ?case
    using Cons.IH [OF _ _ unseen] Cons.prems k(1) step by (auto split: option.split)
qed simp

lemma tp_values_append:
  "tp_values (xs @ ys) tp = (case tp_values xs tp of None \<Rightarrow> None | Some tp1 \<Rightarrow> tp_values ys tp1)"
  by (induction xs arbitrary: tp) (auto split: option.split)


section \<open>The parameters an encoder writes\<close>

definition opt_item :: "bool \<Rightarrow> tp_item \<Rightarrow> tp_item list" where
  "opt_item c it = (if c then [it] else [])"

definition int_item :: "u64 \<Rightarrow> u64 \<Rightarrow> u64 \<Rightarrow> tp_item list" where
  "int_item dflt i v = opt_item (v \<noteq> dflt) (i, varint_bytes v)"

definition tp_items :: "QuicTransportParams \<Rightarrow> bool \<Rightarrow> tp_item list" where
  "tp_items tp server =
     opt_item (tp_haveInitScid tp) (0x0f, tp_initScid tp)
     @ opt_item (server \<and> tp_haveOrigDcid tp) (0x00, tp_origDcid tp)
     @ opt_item (server \<and> tp_haveRetryScid tp) (0x10, tp_retryScid tp)
     @ opt_item (server \<and> tp_haveResetToken tp) (0x02, tp_resetToken tp)
     @ int_item 0 0x01 (tp_maxIdleTimeout tp)
     @ int_item 65527 0x03 (tp_maxUdpPayload tp)
     @ int_item 0 0x04 (tp_initMaxData tp)
     @ int_item 0 0x05 (tp_initMaxSdBidiLocal tp)
     @ int_item 0 0x06 (tp_initMaxSdBidiRemote tp)
     @ int_item 0 0x07 (tp_initMaxSdUni tp)
     @ int_item 0 0x08 (tp_initMaxStreamsBidi tp)
     @ int_item 0 0x09 (tp_initMaxStreamsUni tp)
     @ int_item 3 0x0a (tp_ackDelayExponent tp)
     @ int_item 25 0x0b (tp_maxAckDelay tp)
     @ int_item 2 0x0e (tp_activeCidLimit tp)
     @ int_item 0 0x20 (tp_maxDatagramFrame tp)
     @ opt_item (tp_disableMigration tp) (0x0c, [])"

text \<open>The ranges RFC 9000 section 18.2 allows, with connection IDs and the token of their sizes.\<close>

definition tp_valid :: "QuicTransportParams \<Rightarrow> bool" where
  "tp_valid tp \<longleftrightarrow>
     length (tp_initScid tp) \<le> QUIC_MAX_CID \<and> length (tp_origDcid tp) \<le> QUIC_MAX_CID \<and>
     length (tp_retryScid tp) \<le> QUIC_MAX_CID \<and> length (tp_resetToken tp) = QUIC_TP_RESET_LEN \<and>
     varint_ok (tp_maxIdleTimeout tp) \<and> varint_ok (tp_maxUdpPayload tp) \<and>
     varint_ok (tp_initMaxData tp) \<and> varint_ok (tp_initMaxSdBidiLocal tp) \<and>
     varint_ok (tp_initMaxSdBidiRemote tp) \<and> varint_ok (tp_initMaxSdUni tp) \<and>
     varint_ok (tp_maxDatagramFrame tp) \<and> varint_ok (tp_activeCidLimit tp) \<and>
     1200 \<le> tp_maxUdpPayload tp \<and> tp_initMaxStreamsBidi tp \<le> QUIC_TP_MAX_STREAMS \<and>
     tp_initMaxStreamsUni tp \<le> QUIC_TP_MAX_STREAMS \<and> tp_ackDelayExponent tp \<le> 20 \<and>
     tp_maxAckDelay tp < 16384 \<and> 2 \<le> tp_activeCidLimit tp"

text \<open>What the peer learns: only a server's set carries the four server-only parameters.\<close>

definition tp_sent :: "QuicTransportParams \<Rightarrow> bool \<Rightarrow> QuicTransportParams" where
  "tp_sent tp server = tp\<lparr>
     tp_initScid := (if tp_haveInitScid tp then tp_initScid tp else []),
     tp_origDcid := (if server \<and> tp_haveOrigDcid tp then tp_origDcid tp else []),
     tp_haveOrigDcid := server \<and> tp_haveOrigDcid tp,
     tp_retryScid := (if server \<and> tp_haveRetryScid tp then tp_retryScid tp else []),
     tp_haveRetryScid := server \<and> tp_haveRetryScid tp,
     tp_resetToken := (if server \<and> tp_haveResetToken tp then tp_resetToken tp
                       else replicate QUIC_TP_RESET_LEN 0),
     tp_haveResetToken := server \<and> tp_haveResetToken tp\<rparr>"

lemma tp_valid_varints:
  assumes "tp_valid tp"
  shows "varint_ok (tp_initMaxStreamsBidi tp)" "varint_ok (tp_initMaxStreamsUni tp)"
    "varint_ok (tp_ackDelayExponent tp)" "varint_ok (tp_maxAckDelay tp)"
  using assms
  by (auto simp: tp_valid_def varint_ok_def QUIC_MAX_PACKET_NUMBER_def QUIC_TP_MAX_STREAMS_def
      word_le_nat_alt word_less_nat_alt)

lemma string_ok_varint_bytes: "varint_ok v \<Longrightarrow> string_ok (varint_bytes v)"
  using quicVarintSize_cases [of v] by (auto simp: string_ok_def)

lemma tpInt_bytes: "varint_ok v \<Longrightarrow> tpInt wr i v = quicWrVarintBytes (quicWrVarint wr i) (varint_bytes v)"
  by (simp add: tpInt_def quicWrVarintBytes_def quicWrVarint_bytes [of _ v])

lemma item_grow:
  assumes "wr_wf wr" "wr_grow wr wr1 a" "item_ok it"
  shows "wr_grow wr (if c then quicWrVarintBytes (quicWrVarint wr1 (fst it)) (snd it) else wr1)
    (a @ concat (map item_bytes (opt_item c it)))"
  using assms wr_grow_string [OF assms(1) wr_grow_varint [OF assms(1,2)]]
  by (auto simp: opt_item_def item_bytes_def item_ok_def)

lemma cid_item_grow:
  assumes "wr_wf wr" "wr_grow wr wr1 a" "varint_ok i" "string_ok d"
  shows "wr_grow wr (if c then tpCid wr1 i d else wr1) (a @ concat (map item_bytes (opt_item c (i, d))))"
  using item_grow [OF assms(1,2), of "(i, d)" c] assms(3,4)
  by (cases c) (simp_all add: tpCid_def item_ok_def)

lemma int_item_grow:
  assumes "wr_wf wr" "wr_grow wr wr1 a" "varint_ok i" "varint_ok v"
  shows "wr_grow wr (tpIntUnless dflt i v wr1) (a @ concat (map item_bytes (int_item dflt i v)))"
  using item_grow [OF assms(1,2), of "(i, varint_bytes v)" "v \<noteq> dflt"] assms(3,4)
  by (cases "v = dflt") (simp_all add: int_item_def tpIntUnless_def tpInt_bytes item_ok_def string_ok_varint_bytes)

lemma varint_ok_id: "i \<le> 0x3f \<Longrightarrow> varint_ok i"
  by (simp add: varint_ok_def QUIC_MAX_PACKET_NUMBER_def word_less_nat_alt word_le_nat_alt)

lemma quicTpEncode_grow:
  assumes "wr_wf wr" "tp_valid tp"
  shows "wr_grow wr (snd (quicTpEncode wr tp server)) (concat (map item_bytes (tp_items tp server)))"
proof -
  have cids: "string_ok (tp_initScid tp)" "string_ok (tp_origDcid tp)" "string_ok (tp_retryScid tp)"
    "string_ok (tp_resetToken tp)"
    using assms(2) by (simp_all add: tp_valid_def string_ok_def)
  have reset: "quicWrVarintBytes (quicWrVarint w i) d = tpCid w i d" for w i d by (simp add: tpCid_def)
  have mig: "quicWrVarint (quicWrVarint w i) 0 = tpCid w i []" for w i
    by (simp add: tpCid_def quicWrVarintBytes_def quicWrVarint_bytes varint_ok_id quicWrBytes_def mem_write_def)
  have empty: "string_ok ([] :: u8 list)" by (simp add: string_ok_def)
  show ?thesis
    unfolding quicTpEncode_def Let_def snd_conv reset mig
    by (rule wr_growI, (rule cid_item_grow int_item_grow wr_grow_Nil assms(1) cids empty)+)
      (use assms(2) tp_valid_varints [OF assms(2)] in
        \<open>simp_all add: varint_ok_id tp_valid_def tp_items_def cids empty\<close>)
qed


lemma tpRdInt_mk: "varint_ok v \<Longrightarrow> tpRdInt (varint_bytes v) = Some v"
  using quicRdVarint_mk [of v "[]" "[]"] by (simp add: tpRdInt_def quicRdInit_mk)

lemma values_opt:
  "tp_values (opt_item c it @ rest) tp =
     (if c then case tpValue (fst it) (snd it) tp of None \<Rightarrow> None | Some tp1 \<Rightarrow> tp_values rest tp1
      else tp_values rest tp)"
  by (simp add: opt_item_def)

lemma values_int:
  assumes "varint_ok v" "tpSetInt i v tp = Some tp1" "v = dflt \<Longrightarrow> tp1 = tp"
    and "i \<notin> {0x00, 0x0f, 0x10, 0x02, 0x0c, 0x0d}"
  shows "tp_values (int_item dflt i v @ rest) tp = tp_values rest tp1"
  using assms by (simp add: int_item_def opt_item_def tpValue_def tpRdInt_mk)

lemma values_ints:
  "varint_ok v \<Longrightarrow> tp_maxIdleTimeout tq = 0 \<Longrightarrow>
   tp_values (int_item 0 0x01 v @ rest) tq = tp_values rest (tq\<lparr>tp_maxIdleTimeout := v\<rparr>)"
  "varint_ok v \<Longrightarrow> 1200 \<le> v \<Longrightarrow> tp_maxUdpPayload tq = 65527 \<Longrightarrow>
   tp_values (int_item 65527 0x03 v @ rest) tq = tp_values rest (tq\<lparr>tp_maxUdpPayload := v\<rparr>)"
  "varint_ok v \<Longrightarrow> tp_initMaxData tq = 0 \<Longrightarrow>
   tp_values (int_item 0 0x04 v @ rest) tq = tp_values rest (tq\<lparr>tp_initMaxData := v\<rparr>)"
  "varint_ok v \<Longrightarrow> tp_initMaxSdBidiLocal tq = 0 \<Longrightarrow>
   tp_values (int_item 0 0x05 v @ rest) tq = tp_values rest (tq\<lparr>tp_initMaxSdBidiLocal := v\<rparr>)"
  "varint_ok v \<Longrightarrow> tp_initMaxSdBidiRemote tq = 0 \<Longrightarrow>
   tp_values (int_item 0 0x06 v @ rest) tq = tp_values rest (tq\<lparr>tp_initMaxSdBidiRemote := v\<rparr>)"
  "varint_ok v \<Longrightarrow> tp_initMaxSdUni tq = 0 \<Longrightarrow>
   tp_values (int_item 0 0x07 v @ rest) tq = tp_values rest (tq\<lparr>tp_initMaxSdUni := v\<rparr>)"
  "varint_ok v \<Longrightarrow> v \<le> QUIC_TP_MAX_STREAMS \<Longrightarrow> tp_initMaxStreamsBidi tq = 0 \<Longrightarrow>
   tp_values (int_item 0 0x08 v @ rest) tq = tp_values rest (tq\<lparr>tp_initMaxStreamsBidi := v\<rparr>)"
  "varint_ok v \<Longrightarrow> v \<le> QUIC_TP_MAX_STREAMS \<Longrightarrow> tp_initMaxStreamsUni tq = 0 \<Longrightarrow>
   tp_values (int_item 0 0x09 v @ rest) tq = tp_values rest (tq\<lparr>tp_initMaxStreamsUni := v\<rparr>)"
  "varint_ok v \<Longrightarrow> v \<le> 20 \<Longrightarrow> tp_ackDelayExponent tq = 3 \<Longrightarrow>
   tp_values (int_item 3 0x0a v @ rest) tq = tp_values rest (tq\<lparr>tp_ackDelayExponent := v\<rparr>)"
  "varint_ok v \<Longrightarrow> v < 16384 \<Longrightarrow> tp_maxAckDelay tq = 25 \<Longrightarrow>
   tp_values (int_item 25 0x0b v @ rest) tq = tp_values rest (tq\<lparr>tp_maxAckDelay := v\<rparr>)"
  "varint_ok v \<Longrightarrow> 2 \<le> v \<Longrightarrow> tp_activeCidLimit tq = 2 \<Longrightarrow>
   tp_values (int_item 2 0x0e v @ rest) tq = tp_values rest (tq\<lparr>tp_activeCidLimit := v\<rparr>)"
  "varint_ok v \<Longrightarrow> tp_maxDatagramFrame tq = 0 \<Longrightarrow>
   tp_values (int_item 0 0x20 v @ rest) tq = tp_values rest (tq\<lparr>tp_maxDatagramFrame := v\<rparr>)"
  by (rule values_int; auto simp: tpSetInt_def)+

lemma tp_values_items:
  assumes v: "tp_valid tp" and have_init: "tp_haveInitScid tp" and orig: "server \<longrightarrow> tp_haveOrigDcid tp"
  shows "tp_values (tp_items tp server) quicTpDefaults = Some (tp_sent tp server)"
proof -
  have cids: "tpRdCid (tp_initScid tp) = Some (tp_initScid tp)" "tpRdCid (tp_origDcid tp) = Some (tp_origDcid tp)"
    "tpRdCid (tp_retryScid tp) = Some (tp_retryScid tp)" "length (tp_resetToken tp) = 16"
    using v by (auto simp: tpRdCid_def tp_valid_def)
  have last: "tp_values (opt_item c (0x0c, [])) tq = Some (if c then tq\<lparr>tp_disableMigration := True\<rparr> else tq)" for c tq
    by (simp add: opt_item_def tpValue_def)
  have ranges: "1200 \<le> tp_maxUdpPayload tp" "tp_initMaxStreamsBidi tp \<le> QUIC_TP_MAX_STREAMS"
    "tp_initMaxStreamsUni tp \<le> QUIC_TP_MAX_STREAMS" "tp_ackDelayExponent tp \<le> 20"
    "tp_maxAckDelay tp < 16384" "2 \<le> tp_activeCidLimit tp"
    "varint_ok (tp_maxIdleTimeout tp)" "varint_ok (tp_maxUdpPayload tp)"
    "varint_ok (tp_initMaxData tp)" "varint_ok (tp_initMaxSdBidiLocal tp)"
    "varint_ok (tp_initMaxSdBidiRemote tp)" "varint_ok (tp_initMaxSdUni tp)"
    "varint_ok (tp_maxDatagramFrame tp)" "varint_ok (tp_activeCidLimit tp)"
    using v by (simp_all add: tp_valid_def)
  note rules = tp_items_def values_opt tpValue_def cids values_ints ranges tp_valid_varints [OF v] last
    quicTpDefaults_def have_init
  show ?thesis
  proof (cases server)
    case True
    then show ?thesis
      using orig
      by (cases "tp_haveRetryScid tp"; cases "tp_haveResetToken tp"; cases "tp_disableMigration tp")
        (simp_all add: rules, simp_all add: tp_sent_def have_init)
  next
    case False
    then show ?thesis
      by (cases "tp_disableMigration tp") (simp_all add: rules, simp_all add: tp_sent_def have_init)
  qed
qed


lemma tpRdInt_varint: "tpRdInt val = Some v \<Longrightarrow> varint_ok v"
  using quicRdVarint_value [of "quicRdInit val" v]
  by (auto simp: tpRdInt_def varint_ok_def QUIC_MAX_PACKET_NUMBER_def word_less_nat_alt
      split: prod.splits if_splits)

text \<open>Ids that are pairwise different and come from a given set.\<close>

definition ids_within :: "u64 set \<Rightarrow> tp_item list \<Rightarrow> bool" where
  "ids_within S its \<longleftrightarrow> distinct (map fst its) \<and> fst ` set its \<subseteq> S"

lemma ids_within_opt:
  "ids_within S its \<Longrightarrow> i \<notin> S \<Longrightarrow> ids_within (insert i S) (opt_item c (i, v) @ its)"
  by (auto simp: ids_within_def opt_item_def)

lemma ids_within_last: "ids_within {i} (opt_item c (i, v))"
  by (auto simp: ids_within_def opt_item_def)

lemma tp_items_distinct: "distinct (map fst (tp_items tp server))"
proof -
  have "ids_within {0x0f, 0x00, 0x10, 0x02, 0x01, 0x03, 0x04, 0x05, 0x06, 0x07, 0x08, 0x09, 0x0a, 0x0b, 0x0e,
      0x20, 0x0c} (tp_items tp server)"
    unfolding tp_items_def int_item_def by (intro ids_within_opt ids_within_last) simp_all
  then show ?thesis by (simp add: ids_within_def)
qed

lemma tp_items_allowed: "list_all (item_allowed server) (tp_items tp server)"
proof -
  have o: "list_all P (opt_item c it @ its) \<longleftrightarrow> (c \<longrightarrow> P it) \<and> list_all P its" for P c it its
    by (simp add: opt_item_def)
  have l: "list_all P (opt_item c it) \<longleftrightarrow> (c \<longrightarrow> P it)" for P c it by (simp add: opt_item_def)
  show ?thesis
    unfolding tp_items_def int_item_def o l by (simp add: item_allowed_def tpKnown_def)
qed

lemma tp_items_ok: "tp_valid tp \<Longrightarrow> list_all item_ok (tp_items tp server)"
proof -
  assume v: "tp_valid tp"
  have o: "list_all P (opt_item c it @ its) \<longleftrightarrow> (c \<longrightarrow> P it) \<and> list_all P its" for P c it its
    by (simp add: opt_item_def)
  have l: "list_all P (opt_item c it) \<longleftrightarrow> (c \<longrightarrow> P it)" for P c it by (simp add: opt_item_def)
  have s: "length d \<le> 20 \<Longrightarrow> string_ok d" for d :: "u8 list" by (simp add: string_ok_def)
  show ?thesis
    using v tp_valid_varints [OF v] unfolding tp_items_def int_item_def o l
    by (simp add: item_ok_def varint_ok_id string_ok_varint_bytes tp_valid_def s)
qed

lemma tpStep_seen:
  assumes "tpStep fs i val (tp, seen) = Some (tp1, seen1)" "unat i < 64"
  shows "\<not> bit seen (unat i)" "bit seen1 (unat i)" "bit seen n \<Longrightarrow> bit seen1 n"
  using assms mask_bit [OF assms(2), of seen]
  by (auto simp: tpStep_def bit_simps split: if_splits)

lemma tp_fold_seen_again:
  "it \<in> set its \<Longrightarrow> tpKnown (fst it) \<Longrightarrow> bit seen (unat (fst it)) \<Longrightarrow> tp_fold fs its (tp, seen) = None"
proof (induction its arbitrary: tp seen)
  case (Cons jt its)
  show ?case
  proof (cases "tpKnown (fst jt)")
    case False
    with Cons show ?thesis by auto
  next
    case True
    note small = tpKnown_small [OF True]
    show ?thesis
    proof (cases "tpStep fs (fst jt) (snd jt) (tp, seen)")
      case (Some st)
      obtain tp1 seen1 where st: "st = (tp1, seen1)" by (cases st)
      note s = tpStep_seen [OF Some [unfolded st] small]
      have "it \<in> set its" using Cons.prems s(1) by auto
      with Cons s(3) Some st True show ?thesis by simp
    qed (simp add: True)
  qed
qed simp

lemma tp_fold_duplicate:
  "\<not> distinct (filter tpKnown (map fst its)) \<Longrightarrow> tp_fold fs its (tp, seen) = None"
proof (induction its arbitrary: tp seen)
  case (Cons it its)
  show ?case
  proof (cases "tpKnown (fst it) \<and> fst it \<in> set (filter tpKnown (map fst its))")
    case False
    with Cons show ?thesis by (auto split: option.split)
  next
    case True
    then obtain jt where jt: "jt \<in> set its" "fst jt = fst it" by auto
    show ?thesis
    proof (cases "tpStep fs (fst it) (snd it) (tp, seen)")
      case (Some st)
      obtain tp1 seen1 where st: "st = (tp1, seen1)" by (cases st)
      have "bit seen1 (unat (fst it))"
        using tpStep_seen(2) [OF Some [unfolded st] tpKnown_small] True by simp
      with tp_fold_seen_again [OF jt(1)] jt(2) True Some st show ?thesis by simp
    qed (use True in simp)
  qed
qed simp


section \<open>What the decoder accepts\<close>

definition tp_roles :: "bool \<Rightarrow> QuicTransportParams \<Rightarrow> bool" where
  "tp_roles fs tp \<longleftrightarrow>
     fs \<or> \<not> tp_haveOrigDcid tp \<and> \<not> tp_haveRetryScid tp \<and> \<not> tp_haveResetToken tp"

lemma tpSetInt_valid:
  "tpSetInt i v tp = Some tp1 \<Longrightarrow> varint_ok v \<Longrightarrow> tp_valid tp \<and> tp_roles fs tp \<Longrightarrow>
   tp_valid tp1 \<and> tp_roles fs tp1"
  by (auto simp: tpSetInt_def tp_valid_def tp_roles_def linorder_not_less split: if_splits)

lemma tpValue_valid:
  assumes "tpValue i val tp = Some tp1" "tp_valid tp" "tp_roles fs tp"
    and "fs \<or> i \<notin> {0x00, 0x10, 0x02}"
  shows "tp_valid tp1 \<and> tp_roles fs tp1"
proof (cases "i \<in> {0x00, 0x0f, 0x10, 0x02, 0x0c, 0x0d}")
  case True
  then consider "i = 0x00" | "i = 0x0f" | "i = 0x10" | "i = 0x02" | "i = 0x0c" | "i = 0x0d" by blast
  then show ?thesis
    using assms
    by cases (auto simp: tpValue_def tpRdCid_def tp_valid_def tp_roles_def split: if_splits)
next
  case False
  then obtain v where v: "tpRdInt val = Some v" "tpSetInt i v tp = Some tp1"
    using assms(1) by (auto simp: tpValue_def split: if_splits option.splits)
  show ?thesis using tpSetInt_valid [OF v(2)] tpRdInt_varint [OF v(1)] assms(2,3) by simp
qed

lemma tpLoop_valid:
  "tpLoop fs rd (tp, seen) = Some (tp', rd') \<Longrightarrow> tp_valid tp \<Longrightarrow> tp_roles fs tp \<Longrightarrow>
   tp_valid tp' \<and> tp_roles fs tp'"
proof (induction fs rd "(tp, seen)" arbitrary: tp seen rule: tpLoop.induct)
  case (1 fs rd tp seen)
  show ?case
  proof (cases "quicRdLeft rd > 0")
    case False
    with 1 show ?thesis by (simp add: tpLoop.simps [of fs rd])
  next
    case True
    obtain i rd1 where v: "quicRdVarint rd = (i, rd1)" by (cases "quicRdVarint rd")
    obtain val rd2 where b: "quicRdVarintBytes rd1 = (Some val, rd2)"
      using 1(3) True v by (auto simp: tpLoop.simps [of fs rd] split: prod.splits option.splits)
    show ?thesis
    proof (cases "tpKnown i")
      case False
      then have "tpLoop fs rd2 (tp, seen) = Some (tp', rd')"
        using 1(3) True v b by (simp add: tpLoop.simps [of fs rd])
      from 1(1) [OF True v [symmetric] b [symmetric] refl False this 1(4,5)] show ?thesis .
    next
      case known: True
      obtain tp1 seen1 where st: "tpStep fs i val (tp, seen) = Some (tp1, seen1)"
          and rec: "tpLoop fs rd2 (tp1, seen1) = Some (tp', rd')"
        using 1(3) True v b known by (auto simp: tpLoop.simps [of fs rd] split: option.splits)
      have "tp_valid tp1 \<and> tp_roles fs tp1"
        using st 1(4,5) by (intro tpValue_valid [of i val tp]) (auto simp: tpStep_def split: if_splits)
      with 1(2) [OF True v [symmetric] b [symmetric] refl _ st rec] known show ?thesis by blast
    qed
  qed
qed


lemma quicTpDecode_encoded:
  assumes "tp_valid tp" "tp_haveInitScid tp" "server \<longrightarrow> tp_haveOrigDcid tp"
    and "quicTpEncode (quicWrInit buf) tp server = (True, wr)"
  shows "quicTpDecode (wr_out wr) server = Some (tp_sent tp server)"
proof -
  let ?its = "tp_items tp server"
  have "\<not> wr_bad wr" using assms(4) by (auto simp: quicTpEncode_def Let_def)
  then have out: "wr_out wr = concat (map item_bytes ?its)"
    using quicTpEncode_grow [OF wr_wf_init(1) assms(1), of buf server] assms(4)
    by (simp add: wr_grow_def)
  have "map_option fst (tp_fold server ?its (quicTpDefaults, 0)) = Some (tp_sent tp server)"
    using tp_fold_values [OF tp_items_allowed tp_items_distinct, where seen = 0 and tp = quicTpDefaults]
      tp_values_items [OF assms(1-3)] by simp
  then obtain seen where "tp_fold server ?its (quicTpDefaults, 0) = Some (tp_sent tp server, seen)"
    by auto
  then have "tpLoop server (quicRdInit (wr_out wr)) (quicTpDefaults, 0) =
      Some (tp_sent tp server, rd_mk (wr_out wr) [])"
    using tpLoop_items [OF tp_items_ok [OF assms(1)], of server "[]" server] by (simp add: quicRdInit_mk out)
  then show ?thesis
    using assms(2,3) by (auto simp: quicTpDecode_def tp_sent_def)
qed


section \<open>Properties\<close>

text \<open>
  C37. Transport parameters round trip: what one endpoint encodes, the other decodes to the same
  values, with every omitted parameter at its default and the server-only parameters dropped from a
  client's set.
\<close>

theorem tp_roundtrip:
  assumes "tp_valid tp" "tp_haveInitScid tp" "server \<longrightarrow> tp_haveOrigDcid tp"
    and "quicTpEncode (quicWrInit buf) tp server = (True, wr)"
  shows "quicTpDecode (wr_out wr) server = Some (tp_sent tp server)"
  by (rule quicTpDecode_encoded [OF assms])

definition example_tp :: QuicTransportParams where
  "example_tp = quicTpDefaults\<lparr>tp_initScid := [1, 2], tp_haveInitScid := True, tp_initMaxData := 100000,
     tp_maxAckDelay := 20, tp_disableMigration := True\<rparr>"

lemma example_tp_ok: "tp_valid example_tp" "tp_haveInitScid example_tp" "\<not> tp_haveOrigDcid example_tp"
  by (simp_all add: example_tp_def quicTpDefaults_def tp_valid_def QUIC_TP_MAX_STREAMS_def varint_ok_def
      QUIC_MAX_PACKET_NUMBER_def word_le_nat_alt word_less_nat_alt)

theorem tp_roundtrip_witness:
  "quicTpDecode (wr_out (snd (quicTpEncode (quicWrInit (replicate 32 0)) example_tp False))) False =
    Some (tp_sent example_tp False)"
proof -
  have "quicTpEncode (quicWrInit (replicate 32 0)) example_tp False =
      (True, snd (quicTpEncode (quicWrInit (replicate 32 0)) example_tp False))"
    unfolding example_tp_def by code_simp
  from tp_roundtrip [OF example_tp_ok(1,2) _ this] show ?thesis by simp
qed

text \<open>
  C38. Whatever bytes a peer sends, an accepted parameter set is in range: UDP payloads of at least
  1200 bytes, an ACK delay exponent of at most 20 and delay below 16384 ms, at least two connection
  IDs, stream counts of at most 2 to the 60, connection IDs of at most 20 bytes. It names the peer's
  connection ID, a server's set names the original one, and a client's set carries none of the
  server-only parameters.
\<close>

theorem tp_decode_valid:
  assumes "quicTpDecode data fromServer = Some tp"
  shows "tp_valid tp \<and> tp_haveInitScid tp \<and> (fromServer \<longrightarrow> tp_haveOrigDcid tp)
    \<and> (\<not> fromServer \<longrightarrow> \<not> tp_haveOrigDcid tp \<and> \<not> tp_haveRetryScid tp \<and> \<not> tp_haveResetToken tp)"
proof -
  obtain rd where l: "tpLoop fromServer (quicRdInit data) (quicTpDefaults, 0) = Some (tp, rd)"
    and h: "tp_haveInitScid tp" "fromServer \<longrightarrow> tp_haveOrigDcid tp"
    using assms by (auto simp: quicTpDecode_def split: option.splits if_splits)
  have "tp_valid quicTpDefaults" "tp_roles fromServer quicTpDefaults"
    by (simp_all add: quicTpDefaults_def tp_valid_def tp_roles_def QUIC_TP_MAX_STREAMS_def varint_ok_def
        QUIC_MAX_PACKET_NUMBER_def word_le_nat_alt word_less_nat_alt)
  from tpLoop_valid [OF l this] h show ?thesis by (auto simp: tp_roles_def)
qed

theorem tp_decode_valid_witness:
  "tp_valid (the (quicTpDecode [0x0f, 0x02, 7, 8, 0x0a, 0x01, 0x05] False))"
proof -
  have "quicTpDecode [0x0f, 0x02, 7, 8, 0x0a, 0x01, 0x05] False =
      Some (the (quicTpDecode [0x0f, 0x02, 7, 8, 0x0a, 0x01, 0x05] False))"
    by code_simp
  from tp_decode_valid [OF this] show ?thesis by simp
qed

text \<open>
  A parameter set in which a known parameter occurs twice is rejected, wherever the two
  occurrences stand and whatever their values are; unknown parameters may repeat.
\<close>

theorem tp_duplicate_rejected:
  assumes "list_all item_ok its" "\<not> distinct (filter tpKnown (map fst its))"
  shows "quicTpDecode (concat (map item_bytes its)) fromServer = None"
  using tpLoop_items [OF assms(1), of fromServer "[]"] tp_fold_duplicate [OF assms(2)]
  by (simp add: quicTpDecode_def quicRdInit_mk)

theorem tp_duplicate_rejected_witness:
  "quicTpDecode (concat (map item_bytes [(0x0f, [1]), (0x21, []), (0x0f, [2])])) True = None"
  by (rule tp_duplicate_rejected)
    (simp_all add: item_ok_def varint_ok_id string_ok_def tpKnown_def)

end
