(* ===== verification/QuicStream.thy ===== *)
theory QuicStream
  imports QuicSendBuf QuicReasm QuicFrame QuicParams "HOL-Library.AList"
begin

text \<open>
  QUIC streams: \<^verbatim>\<open>src/cxquic/stream.c\<close> with the identifiers and states of
  \<^verbatim>\<open>src/cxquic/stream_private.h\<close>. A stream is its two halves, \<open>QuicStreams\<close> every stream of one
  connection together with the flow control they share.

  The hash table \<^verbatim>\<open>byId\<close> is an association list; its order only shows in the order in which a raised
  connection limit wakes the streams waiting for it. A stream that C code changes through a pointer
  is taken out of the table, changed, and put back with \<open>setStream\<close>. The handlers of
  \<^verbatim>\<open>QuicStreamHandlers\<close> are notifications, recorded in \<open>ss_events\<close> when they are set (\<open>ss_hooks\<close>); what
  \<^verbatim>\<open>opened\<close> answers is a parameter, a function of the notifications up to and including its own.
\<close>

section \<open>Data\<close>

datatype QuicSendState =
    QUIC_SEND_READY | QUIC_SEND_SEND | QUIC_SEND_DATA_SENT | QUIC_SEND_DATA_DONE
  | QUIC_SEND_RESET_SENT | QUIC_SEND_RESET_DONE | QUIC_SEND_NONE

datatype QuicRecvState =
    QUIC_RECV_RECV | QUIC_RECV_SIZE_KNOWN | QUIC_RECV_DATA_RECVD | QUIC_RECV_DATA_READ
  | QUIC_RECV_RESET | QUIC_RECV_RESET_READ | QUIC_RECV_NONE

datatype QuicSDir = QUIC_SDIR_BIDI | QUIC_SDIR_UNI

record QuicStreamState =
  st_id :: u64
  st_out :: QuicSendBuf
  st_sendMax :: u64
  st_sendBlocked :: u64
  st_sendWaitLow :: u64
  st_sendFinal :: u64
  st_resetError :: u64
  st_fin :: QuicCtl
  st_reset :: QuicCtl
  st_blocked :: QuicCtl
  st_sendState :: QuicSendState
  st_finAcked :: bool
  st_wantWritable :: bool
  st_in :: QuicReasm
  st_recvHighest :: u64
  st_recvFinal :: u64
  st_recvRead :: u64
  st_recvWindow :: u64
  st_stopError :: u64
  st_maxData :: QuicCtl
  st_stopSending :: QuicCtl
  st_recvState :: QuicRecvState
  st_recvFinalKnown :: bool
  st_active :: bool

datatype StreamEvent =
    SeOpened u64 | SeReadable u64 | SeWritable u64 | SeReset u64 u64 | SeStopped u64 u64 | SeClosed u64

datatype StreamHook = ShOpened | ShReadable | ShWritable | ShReset | ShStopped | ShClosed

record QuicStreams =
  ss_hooks :: "StreamHook \<Rightarrow> bool"
  ss_events :: "StreamEvent list"
  ss_server :: bool
  ss_byId :: "(u64 \<times> QuicStreamState) list"
  ss_active :: "u64 list"
  ss_sendMax :: u64
  ss_sendOff :: u64
  ss_sendBlocked :: u64
  ss_recvMax :: u64
  ss_recvOff :: u64
  ss_recvRead :: u64
  ss_recvWindow :: u64
  ss_maxData :: QuicCtl
  ss_dataBlocked :: QuicCtl
  ss_sendMaxStreams :: "QuicSDir \<Rightarrow> u64"
  ss_recvMaxStreams :: "QuicSDir \<Rightarrow> u64"
  ss_nextLocal :: "QuicSDir \<Rightarrow> u64"
  ss_nextRemote :: "QuicSDir \<Rightarrow> u64"
  ss_streamsBlockedAt :: "QuicSDir \<Rightarrow> u64"
  ss_maxStreams :: "QuicSDir \<Rightarrow> QuicCtl"
  ss_streamsBlocked :: "QuicSDir \<Rightarrow> QuicCtl"
  ss_sendBufMax :: u64
  ss_sendLow :: u64
  ss_localSdBidiLocal :: u64
  ss_localSdBidiRemote :: u64
  ss_localSdUni :: u64
  ss_peerSdBidiLocal :: u64
  ss_peerSdBidiRemote :: u64
  ss_peerSdUni :: u64
  ss_error :: u64
  ss_errorFrame :: u64

abbreviation (input) QUIC_STREAM_SERVER :: u64 where "QUIC_STREAM_SERVER \<equiv> 0x1"
abbreviation (input) QUIC_STREAM_UNI :: u64 where "QUIC_STREAM_UNI \<equiv> 0x2"
abbreviation (input) QUIC_MAX_STREAM_COUNT :: u64 where "QUIC_MAX_STREAM_COUNT \<equiv> push_bit 60 1"
abbreviation (input) QUIC_STREAM_SEND_MAX :: u64 where "QUIC_STREAM_SEND_MAX \<equiv> 262144"
abbreviation (input) QUIC_STREAM_MIN_FRAME :: nat where "QUIC_STREAM_MIN_FRAME \<equiv> 6"
abbreviation (input) UINT64_MAX :: u64 where "UINT64_MAX \<equiv> - 1"

abbreviation (input) QUIC_ERR_INTERNAL :: u64 where "QUIC_ERR_INTERNAL \<equiv> 0x01"
abbreviation (input) QUIC_ERR_FLOW_CONTROL_ERROR :: u64 where "QUIC_ERR_FLOW_CONTROL_ERROR \<equiv> 0x03"
abbreviation (input) QUIC_ERR_STREAM_LIMIT :: u64 where "QUIC_ERR_STREAM_LIMIT \<equiv> 0x04"
abbreviation (input) QUIC_ERR_STREAM_STATE_ERROR :: u64 where "QUIC_ERR_STREAM_STATE_ERROR \<equiv> 0x05"
abbreviation (input) QUIC_ERR_FINAL_SIZE_ERROR :: u64 where "QUIC_ERR_FINAL_SIZE_ERROR \<equiv> 0x06"
abbreviation (input) QUIC_ERR_PROTOCOL :: u64 where "QUIC_ERR_PROTOCOL \<equiv> 0x0a"


section \<open>Stream identifiers\<close>

definition quicStreamUni :: "u64 \<Rightarrow> bool" where
  "quicStreamUni i \<longleftrightarrow> i AND QUIC_STREAM_UNI \<noteq> 0"

definition quicStreamDir :: "u64 \<Rightarrow> QuicSDir" where
  "quicStreamDir i = (if quicStreamUni i then QUIC_SDIR_UNI else QUIC_SDIR_BIDI)"

definition quicStreamLocal :: "u64 \<Rightarrow> bool \<Rightarrow> bool" where
  "quicStreamLocal i server \<longleftrightarrow> (i AND QUIC_STREAM_SERVER \<noteq> 0) = server"

definition quicStreamIndex :: "u64 \<Rightarrow> u64" where
  "quicStreamIndex i = drop_bit 2 i"

definition quicStreamMakeId :: "u64 \<Rightarrow> bool \<Rightarrow> bool \<Rightarrow> u64" where
  "quicStreamMakeId index server uni =
     push_bit 2 index OR (if server then QUIC_STREAM_SERVER else 0) OR (if uni then QUIC_STREAM_UNI else 0)"


section \<open>Small helpers\<close>

definition streamHook :: "StreamHook \<Rightarrow> StreamEvent \<Rightarrow> QuicStreams \<Rightarrow> QuicStreams" where
  "streamHook hook ev ss = (if ss_hooks ss hook then ss\<lparr>ss_events := ss_events ss @ [ev]\<rparr> else ss)"

definition setStream :: "QuicStreams \<Rightarrow> QuicStreamState \<Rightarrow> QuicStreams" where
  "setStream ss st = ss\<lparr>ss_byId := AList.update (st_id st) st (ss_byId ss)\<rparr>"

definition streamsFail :: "QuicStreams \<Rightarrow> u64 \<Rightarrow> u64 \<Rightarrow> QuicStreams" where
  "streamsFail ss err ft = (if ss_error ss = 0 then ss\<lparr>ss_error := err, ss_errorFrame := ft\<rparr> else ss)"

definition quicStreamFind :: "QuicStreams \<Rightarrow> u64 \<Rightarrow> QuicStreamState option" where
  "quicStreamFind ss i = map_of (ss_byId ss) i"

definition streamArm :: "QuicStreams \<Rightarrow> QuicStreamState \<Rightarrow> QuicStreams \<times> QuicStreamState" where
  "streamArm ss st =
     (if st_active st then (ss, st)
      else (ss\<lparr>ss_active := ss_active ss @ [st_id st]\<rparr>, st\<lparr>st_active := True\<rparr>))"

definition streamPending :: "QuicStreamState \<Rightarrow> bool" where
  "streamPending st \<longleftrightarrow>
     ctl_state (st_stopSending st) = QUIC_CTL_PENDING \<or> ctl_state (st_reset st) = QUIC_CTL_PENDING \<or>
     ctl_state (st_maxData st) = QUIC_CTL_PENDING \<or> ctl_state (st_blocked st) = QUIC_CTL_PENDING \<or>
     ctl_state (st_fin st) = QUIC_CTL_PENDING \<or> quicSendBufPending (st_out st)"

definition streamOutstanding :: "QuicStreamState \<Rightarrow> bool" where
  "streamOutstanding st \<longleftrightarrow>
     ctl_state (st_stopSending st) = QUIC_CTL_SENT \<or> ctl_state (st_reset st) = QUIC_CTL_SENT \<or>
     ctl_state (st_maxData st) = QUIC_CTL_SENT \<or> ctl_state (st_blocked st) = QUIC_CTL_SENT \<or>
     ctl_state (st_fin st) = QUIC_CTL_SENT \<or> quicSendBufOutstanding (st_out st) > 0"

definition sendHalfDone :: "QuicStreamState \<Rightarrow> bool" where
  "sendHalfDone st \<longleftrightarrow> st_sendState st \<in> {QUIC_SEND_DATA_DONE, QUIC_SEND_RESET_DONE, QUIC_SEND_NONE}"

definition recvHalfDone :: "QuicStreamState \<Rightarrow> bool" where
  "recvHalfDone st \<longleftrightarrow> st_recvState st \<in> {QUIC_RECV_DATA_READ, QUIC_RECV_RESET_READ, QUIC_RECV_NONE}"

definition sendRoom :: "QuicStreams \<Rightarrow> QuicStreamState \<Rightarrow> u64" where
  "sendRoom ss st =
     (if st_sendState st \<noteq> QUIC_SEND_READY \<and> st_sendState st \<noteq> QUIC_SEND_SEND then 0
      else
        let room = (if st_sendMax st > sb_end (st_out st) then st_sendMax st - sb_end (st_out st) else 0);
            conn = (if ss_sendMax ss > ss_sendOff ss then ss_sendMax ss - ss_sendOff ss else 0);
            room1 = (if conn < room then conn else room);
            held = sb_end (st_out st) - sb_base (st_out st);
            buf = (if held < ss_sendBufMax ss then ss_sendBufMax ss - held else 0)
        in if buf < room1 then buf else room1)"


section \<open>Creating and destroying streams\<close>

definition ctlIdle :: QuicCtl where
  "ctlIdle = \<lparr>ctl_pn = 0, ctl_state = QUIC_CTL_IDLE\<rparr>"

definition streamZero :: "u64 \<Rightarrow> QuicStreamState" where
  "streamZero i =
     \<lparr>st_id = i, st_out = quicSendBufInit, st_sendMax = 0, st_sendBlocked = 0, st_sendWaitLow = 0,
      st_sendFinal = 0, st_resetError = 0, st_fin = ctlIdle, st_reset = ctlIdle, st_blocked = ctlIdle,
      st_sendState = QUIC_SEND_READY, st_finAcked = False, st_wantWritable = False,
      st_in = quicReasmInit 0, st_recvHighest = 0, st_recvFinal = 0, st_recvRead = 0, st_recvWindow = 0,
      st_stopError = 0, st_maxData = ctlIdle, st_stopSending = ctlIdle, st_recvState = QUIC_RECV_RECV,
      st_recvFinalKnown = False, st_active = False\<rparr>"

text \<open>The windows a new stream starts with: how much may arrive, and how much may be sent.\<close>

definition streamCreate :: "QuicStreams \<Rightarrow> u64 \<Rightarrow> QuicStreams \<times> QuicStreamState" where
  "streamCreate ss i =
     (let loc = quicStreamLocal i (ss_server ss);
          st = streamZero i;
          (recvLimit, st1) =
            (if quicStreamUni i then
               if loc then (0, st\<lparr>st_recvState := QUIC_RECV_NONE, st_sendMax := ss_peerSdUni ss\<rparr>)
               else (ss_localSdUni ss, st\<lparr>st_sendState := QUIC_SEND_NONE\<rparr>)
             else
               (if loc then ss_localSdBidiLocal ss else ss_localSdBidiRemote ss,
                st\<lparr>st_sendMax := (if loc then ss_peerSdBidiRemote ss else ss_peerSdBidiLocal ss)\<rparr>));
          st2 = st1\<lparr>st_in := quicReasmInit recvLimit, st_recvWindow := recvLimit,
                    st_sendBlocked := UINT64_MAX\<rparr>
      in (setStream ss st2, st2))"

definition streamFree :: "QuicStreams \<Rightarrow> QuicStreamState \<Rightarrow> QuicStreams" where
  "streamFree ss st = ss\<lparr>ss_byId := AList.delete (st_id st) (ss_byId ss)\<rparr>"

definition streamsGrantMore :: "QuicStreams \<Rightarrow> QuicSDir \<Rightarrow> QuicStreams" where
  "streamsGrantMore ss dir =
     (if ss_recvMaxStreams ss dir \<ge> QUIC_MAX_STREAM_COUNT then ss
      else ss\<lparr>ss_recvMaxStreams := (ss_recvMaxStreams ss)(dir := ss_recvMaxStreams ss dir + 1),
              ss_maxStreams := (ss_maxStreams ss)(dir := quicCtlQueue (ss_maxStreams ss dir))\<rparr>)"

text \<open>The stream is either put back into the table or gone from it.\<close>

definition streamSettle :: "QuicStreams \<Rightarrow> QuicStreamState \<Rightarrow> QuicStreams" where
  "streamSettle ss st =
     (if \<not> sendHalfDone st \<or> \<not> recvHalfDone st then setStream ss st
      else
        let loc = quicStreamLocal (st_id st) (ss_server ss); dir = quicStreamDir (st_id st);
            ss1 = streamHook ShClosed (SeClosed (st_id st)) ss;
            ss2 = streamFree ss1 st
        in if \<not> loc then streamsGrantMore ss2 dir else ss2)"

text \<open>The loop of \<^verbatim>\<open>streamAdmit\<close> over the indices that do not exist yet.\<close>

fun admitEach ::
  "(StreamEvent list \<Rightarrow> bool) \<Rightarrow> QuicSDir \<Rightarrow> u64 \<Rightarrow> u64 list \<Rightarrow> QuicStreams \<Rightarrow> bool \<times> QuicStreams" where
  "admitEach opened dir ft [] ss = (True, ss)"
| "admitEach opened dir ft (i # is) ss =
     (case streamCreate ss (quicStreamMakeId i (\<not> ss_server ss) (dir = QUIC_SDIR_UNI)) of
        (ss1, st) \<Rightarrow>
          let ss2 = ss1\<lparr>ss_nextRemote := (ss_nextRemote ss1)(dir := i + 1)\<rparr>;
              ss3 = streamHook ShOpened (SeOpened (st_id st)) ss2
          in if ss_hooks ss2 ShOpened \<and> \<not> opened (ss_events ss3)
             then (False, streamsFail ss3 QUIC_ERR_STREAM_LIMIT ft)
             else admitEach opened dir ft is ss3)"

definition streamAdmit ::
  "(StreamEvent list \<Rightarrow> bool) \<Rightarrow> QuicStreams \<Rightarrow> u64 \<Rightarrow> u64 \<Rightarrow> bool \<times> QuicStreams" where
  "streamAdmit opened ss i ft =
     (let dir = quicStreamDir i; idx = quicStreamIndex i in
      if quicStreamLocal i (ss_server ss) then
        (False, if idx \<ge> ss_nextLocal ss dir then streamsFail ss QUIC_ERR_STREAM_STATE_ERROR ft else ss)
      else if idx < ss_nextRemote ss dir then (False, ss)
      else if idx \<ge> ss_recvMaxStreams ss dir then (False, streamsFail ss QUIC_ERR_STREAM_LIMIT ft)
      else admitEach opened dir ft (map of_nat [unat (ss_nextRemote ss dir)..<Suc (unat idx)]) ss)"

definition streamForFrame ::
  "(StreamEvent list \<Rightarrow> bool) \<Rightarrow> QuicStreams \<Rightarrow> u64 \<Rightarrow> u64 \<Rightarrow> QuicStreamState option \<times> bool \<times> QuicStreams" where
  "streamForFrame opened ss i ft =
     (case quicStreamFind ss i of
        Some st \<Rightarrow> (Some st, False, ss)
      | None \<Rightarrow>
          case streamAdmit opened ss i ft of
            (False, ss1) \<Rightarrow> (None, ss_error ss1 = 0, ss1)
          | (True, ss1) \<Rightarrow> (quicStreamFind ss1 i, False, ss1))"


section \<open>Flow control windows this endpoint advertises\<close>

definition recvWindowUpdate :: "QuicStreams \<Rightarrow> QuicStreamState \<Rightarrow> QuicStreams \<times> QuicStreamState" where
  "recvWindowUpdate ss st =
     (if st_recvWindow st = 0 \<or> st_recvState st \<noteq> QUIC_RECV_RECV then (ss, st)
      else
        let want = st_recvRead st + st_recvWindow st in
        if want \<le> ra_limit (st_in st) \<or> want - ra_limit (st_in st) < st_recvWindow st div 2 then (ss, st)
        else streamArm ss (st\<lparr>st_in := (st_in st)\<lparr>ra_limit := want\<rparr>,
                              st_maxData := quicCtlQueue (st_maxData st)\<rparr>))"

definition connWindowUpdate :: "QuicStreams \<Rightarrow> QuicStreams" where
  "connWindowUpdate ss =
     (if ss_recvWindow ss = 0 then ss
      else
        let want = ss_recvRead ss + ss_recvWindow ss in
        if want \<le> ss_recvMax ss \<or> want - ss_recvMax ss < ss_recvWindow ss div 2 then ss
        else ss\<lparr>ss_recvMax := want, ss_maxData := quicCtlQueue (ss_maxData ss)\<rparr>)"

definition recvRelease :: "QuicStreams \<Rightarrow> QuicStreamState \<Rightarrow> u64 \<Rightarrow> QuicStreams \<times> QuicStreamState" where
  "recvRelease ss st upTo =
     (if upTo \<le> st_recvRead st then (ss, st)
      else (connWindowUpdate (ss\<lparr>ss_recvRead := ss_recvRead ss + (upTo - st_recvRead st)\<rparr>),
            st\<lparr>st_recvRead := upTo\<rparr>))"


section \<open>Setup\<close>

definition streamsZero :: QuicStreams where
  "streamsZero =
     \<lparr>ss_hooks = (\<lambda>_. False), ss_events = [], ss_server = False, ss_byId = [], ss_active = [],
      ss_sendMax = 0, ss_sendOff = 0, ss_sendBlocked = 0, ss_recvMax = 0, ss_recvOff = 0, ss_recvRead = 0,
      ss_recvWindow = 0, ss_maxData = ctlIdle, ss_dataBlocked = ctlIdle, ss_sendMaxStreams = (\<lambda>_. 0),
      ss_recvMaxStreams = (\<lambda>_. 0), ss_nextLocal = (\<lambda>_. 0), ss_nextRemote = (\<lambda>_. 0),
      ss_streamsBlockedAt = (\<lambda>_. 0), ss_maxStreams = (\<lambda>_. ctlIdle), ss_streamsBlocked = (\<lambda>_. ctlIdle),
      ss_sendBufMax = 0, ss_sendLow = 0, ss_localSdBidiLocal = 0, ss_localSdBidiRemote = 0,
      ss_localSdUni = 0, ss_peerSdBidiLocal = 0, ss_peerSdBidiRemote = 0, ss_peerSdUni = 0,
      ss_error = 0, ss_errorFrame = 0\<rparr>"

definition quicStreamsInit :: "bool \<Rightarrow> QuicTransportParams \<Rightarrow> QuicStreams" where
  "quicStreamsInit server tp =
     streamsZero\<lparr>ss_server := server, ss_recvMax := tp_initMaxData tp, ss_recvWindow := tp_initMaxData tp,
       ss_sendBlocked := UINT64_MAX, ss_sendBufMax := QUIC_STREAM_SEND_MAX, ss_sendLow := 0,
       ss_streamsBlockedAt := (\<lambda>_. UINT64_MAX), ss_localSdBidiLocal := tp_initMaxSdBidiLocal tp,
       ss_localSdBidiRemote := tp_initMaxSdBidiRemote tp, ss_localSdUni := tp_initMaxSdUni tp,
       ss_recvMaxStreams := (\<lambda>_. 0)(QUIC_SDIR_BIDI := tp_initMaxStreamsBidi tp,
                                    QUIC_SDIR_UNI := tp_initMaxStreamsUni tp)\<rparr>"

text \<open>Every buffer is given back and the record cleared.\<close>

definition quicStreamsDestroy :: "QuicStreams \<Rightarrow> QuicStreams" where
  "quicStreamsDestroy ss = streamsZero"

definition quicStreamsSetHandlers :: "QuicStreams \<Rightarrow> (StreamHook \<Rightarrow> bool) \<Rightarrow> QuicStreams" where
  "quicStreamsSetHandlers ss hooks = ss\<lparr>ss_hooks := hooks\<rparr>"

definition quicStreamsPeerParams :: "QuicStreams \<Rightarrow> QuicTransportParams \<Rightarrow> QuicStreams" where
  "quicStreamsPeerParams ss tp =
     ss\<lparr>ss_sendMax := tp_initMaxData tp, ss_peerSdBidiLocal := tp_initMaxSdBidiLocal tp,
        ss_peerSdBidiRemote := tp_initMaxSdBidiRemote tp, ss_peerSdUni := tp_initMaxSdUni tp,
        ss_sendMaxStreams := (ss_sendMaxStreams ss)(QUIC_SDIR_BIDI := tp_initMaxStreamsBidi tp,
                                                    QUIC_SDIR_UNI := tp_initMaxStreamsUni tp)\<rparr>"


section \<open>Frames arriving\<close>

definition canRecv :: "QuicStreams \<Rightarrow> u64 \<Rightarrow> bool" where
  "canRecv ss i \<longleftrightarrow> \<not> (quicStreamUni i \<and> quicStreamLocal i (ss_server ss))"

definition canSend :: "QuicStreams \<Rightarrow> u64 \<Rightarrow> bool" where
  "canSend ss i \<longleftrightarrow> \<not> (quicStreamUni i \<and> \<not> quicStreamLocal i (ss_server ss))"

definition recvAccount ::
  "QuicStreams \<Rightarrow> QuicStreamState \<Rightarrow> u64 \<Rightarrow> u64 \<Rightarrow> bool \<times> QuicStreams \<times> QuicStreamState" where
  "recvAccount ss st fend ft =
     (if fend \<le> st_recvHighest st then (True, ss, st)
      else if fend > ra_limit (st_in st) then (False, streamsFail ss QUIC_ERR_FLOW_CONTROL_ERROR ft, st)
      else
        let delta = fend - st_recvHighest st in
        if ss_recvOff ss + delta > ss_recvMax ss
        then (False, streamsFail ss QUIC_ERR_FLOW_CONTROL_ERROR ft, st)
        else (True, ss\<lparr>ss_recvOff := ss_recvOff ss + delta\<rparr>, st\<lparr>st_recvHighest := fend\<rparr>))"

definition recvFinalSize ::
  "QuicStreams \<Rightarrow> QuicStreamState \<Rightarrow> u64 \<Rightarrow> u64 \<Rightarrow> bool \<times> QuicStreams \<times> QuicStreamState" where
  "recvFinalSize ss st fsize ft =
     (if st_recvFinalKnown st then
        if fsize \<noteq> st_recvFinal st then (False, streamsFail ss QUIC_ERR_FINAL_SIZE_ERROR ft, st)
        else (True, ss, st)
      else if fsize < st_recvHighest st then (False, streamsFail ss QUIC_ERR_FINAL_SIZE_ERROR ft, st)
      else (True, ss, st\<lparr>st_recvFinal := fsize, st_recvFinalKnown := True\<rparr>))"

definition recvNotify :: "QuicStreams \<Rightarrow> QuicStreamState \<Rightarrow> QuicStreams" where
  "recvNotify ss st = streamHook ShReadable (SeReadable (st_id st)) ss"

text \<open>The part of \<^verbatim>\<open>handleStreamData\<close> that stores the bytes and moves the receiving half on.\<close>

definition recvStore ::
  "xalloc \<Rightarrow> QuicStreams \<Rightarrow> QuicStreamState \<Rightarrow> u64 \<Rightarrow> u8 list \<Rightarrow> u64 \<Rightarrow> bool \<times> QuicStreams \<times> QuicStreamState" where
  "recvStore xa ss st offset data ft =
     (case (if length data > 0 then quicReasmAdd xa (st_in st) offset data else (True, st_in st)) of
        (ok, ra) \<Rightarrow>
          let st1 = st\<lparr>st_in := ra\<rparr> in
          if \<not> ok then (False, streamsFail ss QUIC_ERR_INTERNAL ft, st1)
          else
            let st2 = (if st_recvFinalKnown st1 \<and> st_recvState st1 = QUIC_RECV_RECV
                       then st1\<lparr>st_recvState := QUIC_RECV_SIZE_KNOWN\<rparr> else st1);
                st3 = (if st_recvState st2 = QUIC_RECV_SIZE_KNOWN
                          \<and> ra_base (st_in st2) + of_nat (quicReasmReadable (st_in st2)) = st_recvFinal st2
                       then st2\<lparr>st_recvState := QUIC_RECV_DATA_RECVD\<rparr> else st2)
            in (True, if quicReasmReadable (st_in st3) > 0 \<or> st_recvState st3 = QUIC_RECV_DATA_RECVD
                      then recvNotify ss st3 else ss, st3))"

definition handleStreamData ::
  "xalloc \<Rightarrow> (StreamEvent list \<Rightarrow> bool) \<Rightarrow> QuicStreams \<Rightarrow> u64 \<Rightarrow> u64 \<Rightarrow> u8 list \<Rightarrow> bool \<Rightarrow> u64
     \<Rightarrow> bool \<times> QuicStreams" where
  "handleStreamData xa opened ss i offset data fin ft =
     (if \<not> canRecv ss i then (False, streamsFail ss QUIC_ERR_STREAM_STATE_ERROR ft)
      else
        case streamForFrame opened ss i ft of
          (None, ignore, ss1) \<Rightarrow> (ignore, ss1)
        | (Some st, ignore, ss1) \<Rightarrow>
            let fend = offset + of_nat (length data) in
            if st_recvFinalKnown st \<and> (fend > st_recvFinal st \<or> (fin \<and> fend \<noteq> st_recvFinal st))
            then (False, streamsFail ss1 QUIC_ERR_FINAL_SIZE_ERROR ft)
            else
              case (if fin then recvFinalSize ss1 st fend ft else (True, ss1, st)) of
                (False, ss2, st2) \<Rightarrow> (False, setStream ss2 st2)
              | (True, ss2, st2) \<Rightarrow>
                  case recvAccount ss2 st2 fend ft of
                    (False, ss3, st3) \<Rightarrow> (False, setStream ss3 st3)
                  | (True, ss3, st3) \<Rightarrow>
                      if st_recvState st3 \<in> {QUIC_RECV_RESET, QUIC_RECV_RESET_READ, QUIC_RECV_DATA_READ}
                      then (True, setStream ss3 st3)
                      else
                        case recvStore xa ss3 st3 offset data ft of
                          (ok, ss4, st4) \<Rightarrow> (ok, setStream ss4 st4))"

definition handleResetStream ::
  "(StreamEvent list \<Rightarrow> bool) \<Rightarrow> QuicStreams \<Rightarrow> u64 \<Rightarrow> u64 \<Rightarrow> u64 \<Rightarrow> u64 \<Rightarrow> bool \<times> QuicStreams" where
  "handleResetStream opened ss i err finalSize ft =
     (if \<not> canRecv ss i then (False, streamsFail ss QUIC_ERR_STREAM_STATE_ERROR ft)
      else
        case streamForFrame opened ss i ft of
          (None, ignore, ss1) \<Rightarrow> (ignore, ss1)
        | (Some st, ignore, ss1) \<Rightarrow>
            case recvFinalSize ss1 st finalSize ft of
              (False, ss2, st2) \<Rightarrow> (False, setStream ss2 st2)
            | (True, ss2, st2) \<Rightarrow>
                if st_recvState st2 = QUIC_RECV_RESET \<or> st_recvState st2 = QUIC_RECV_RESET_READ
                then (True, setStream ss2 st2)
                else
                  case recvAccount ss2 st2 (st_recvFinal st2) ft of
                    (False, ss3, st3) \<Rightarrow> (False, setStream ss3 st3)
                  | (True, ss3, st3) \<Rightarrow>
                      case recvRelease ss3
                             (st3\<lparr>st_recvState := QUIC_RECV_RESET,
                                  st_in := quicReasmInit (ra_limit (st_in st3))\<rparr>) (st_recvFinal st3) of
                        (ss4, st4) \<Rightarrow>
                          (True, setStream (recvNotify (streamHook ShReset (SeReset i err) ss4) st4) st4))"

definition sendReset :: "QuicStreams \<Rightarrow> QuicStreamState \<Rightarrow> u64 \<Rightarrow> QuicStreams \<times> QuicStreamState" where
  "sendReset ss st err =
     (if st_sendState st \<notin> {QUIC_SEND_READY, QUIC_SEND_SEND, QUIC_SEND_DATA_SENT} then (ss, st)
      else streamArm ss (st\<lparr>st_sendFinal := sb_end (st_out st), st_sendState := QUIC_SEND_RESET_SENT,
             st_resetError := err, st_out := quicSendBufInit, st_fin := ctlIdle, st_blocked := ctlIdle,
             st_reset := quicCtlQueue (st_reset st)\<rparr>))"

definition handleStopSending ::
  "(StreamEvent list \<Rightarrow> bool) \<Rightarrow> QuicStreams \<Rightarrow> u64 \<Rightarrow> u64 \<Rightarrow> u64 \<Rightarrow> bool \<times> QuicStreams" where
  "handleStopSending opened ss i err ft =
     (if \<not> canSend ss i then (False, streamsFail ss QUIC_ERR_STREAM_STATE_ERROR ft)
      else
        case streamForFrame opened ss i ft of
          (None, ignore, ss1) \<Rightarrow> (ignore, ss1)
        | (Some st, ignore, ss1) \<Rightarrow>
            case sendReset (streamHook ShStopped (SeStopped i err) ss1) (st\<lparr>st_stopError := err\<rparr>) err of
              (ss2, st2) \<Rightarrow> (True, setStream ss2 st2))"

definition sendWait :: "QuicStreams \<Rightarrow> QuicStreamState \<Rightarrow> u64 \<Rightarrow> u64 \<Rightarrow> QuicStreamState" where
  "sendWait ss st want room =
     (let low = (if want > ss_sendLow ss then want else ss_sendLow ss);
          low1 = (if low > ss_sendBufMax ss then ss_sendBufMax ss else low);
          low2 = (if low1 \<le> room then room + 1 else low1)
      in if st_wantWritable st \<and> st_sendWaitLow st \<ge> low2 then st
         else st\<lparr>st_wantWritable := True, st_sendWaitLow := low2\<rparr>)"

definition sendUnblock :: "QuicStreams \<Rightarrow> QuicStreamState \<Rightarrow> QuicStreams \<times> QuicStreamState" where
  "sendUnblock ss st =
     (if \<not> st_wantWritable st then (ss, st)
      else
        let room = sendRoom ss st in
        if room = 0 \<or> (room < st_sendWaitLow st \<and> quicSendBufOutstanding (st_out st) > 0) then (ss, st)
        else (streamHook ShWritable (SeWritable (st_id st)) ss, st\<lparr>st_wantWritable := False\<rparr>))"

text \<open>One step of the second loop of \<^verbatim>\<open>connMaxData\<close>.\<close>

definition unblockOne :: "QuicStreams \<Rightarrow> u64 \<Rightarrow> QuicStreams" where
  "unblockOne ss i =
     (case quicStreamFind ss i of
        None \<Rightarrow> ss
      | Some st \<Rightarrow> case sendUnblock ss st of (ss1, st1) \<Rightarrow> setStream ss1 st1)"

definition connMaxData :: "QuicStreams \<Rightarrow> u64 \<Rightarrow> QuicStreams" where
  "connMaxData ss mx =
     (if mx \<le> ss_sendMax ss then ss
      else
        let ss1 = ss\<lparr>ss_byId := map (\<lambda>(i, st). (i, if sendRoom ss st = 0 then sendWait ss st 1 0 else st))
                                  (ss_byId ss)\<rparr>;
            ss2 = ss1\<lparr>ss_sendMax := mx,
                      ss_dataBlocked := (ss_dataBlocked ss1)\<lparr>ctl_state := QUIC_CTL_IDLE\<rparr>\<rparr>
        in foldl unblockOne ss2 (map fst (ss_byId ss2)))"

definition handleMaxStreamData ::
  "(StreamEvent list \<Rightarrow> bool) \<Rightarrow> QuicStreams \<Rightarrow> u64 \<Rightarrow> u64 \<Rightarrow> u64 \<Rightarrow> bool \<times> QuicStreams" where
  "handleMaxStreamData opened ss i mx ft =
     (if \<not> canSend ss i then (False, streamsFail ss QUIC_ERR_STREAM_STATE_ERROR ft)
      else
        case streamForFrame opened ss i ft of
          (None, ignore, ss1) \<Rightarrow> (ignore, ss1)
        | (Some st, ignore, ss1) \<Rightarrow>
            if mx \<le> st_sendMax st then (True, ss1)
            else
              let st1 = (if sendRoom ss1 st = 0 then sendWait ss1 st 1 0 else st);
                  st2 = st1\<lparr>st_sendMax := mx, st_blocked := (st_blocked st1)\<lparr>ctl_state := QUIC_CTL_IDLE\<rparr>\<rparr>
              in case sendUnblock ss1 st2 of (ss2, st3) \<Rightarrow> (True, setStream ss2 st3))"

definition handleMaxStreams :: "QuicStreams \<Rightarrow> bool \<Rightarrow> u64 \<Rightarrow> bool \<times> QuicStreams" where
  "handleMaxStreams ss uni mx =
     (let dir = (if uni then QUIC_SDIR_UNI else QUIC_SDIR_BIDI) in
      (True,
       if mx > ss_sendMaxStreams ss dir
       then ss\<lparr>ss_sendMaxStreams := (ss_sendMaxStreams ss)(dir := mx),
               ss_streamsBlocked := (ss_streamsBlocked ss)
                 (dir := (ss_streamsBlocked ss dir)\<lparr>ctl_state := QUIC_CTL_IDLE\<rparr>)\<rparr>
       else ss))"

definition handleBlocked ::
  "(StreamEvent list \<Rightarrow> bool) \<Rightarrow> QuicStreams \<Rightarrow> QuicFrame \<Rightarrow> bool \<times> QuicStreams" where
  "handleBlocked opened ss f =
     (case f of
        FStreamDataBlocked i limit \<Rightarrow>
          if \<not> canRecv ss i then (False, streamsFail ss QUIC_ERR_STREAM_STATE_ERROR (frameType f))
          else
            (case streamForFrame opened ss i (frameType f) of
               (st, ignore, ss1) \<Rightarrow> (st \<noteq> None \<or> ignore, ss1))
      | _ \<Rightarrow> (True, ss))"

definition quicStreamsFrame ::
  "xalloc \<Rightarrow> (StreamEvent list \<Rightarrow> bool) \<Rightarrow> QuicStreams \<Rightarrow> QuicFrame \<Rightarrow> bool \<times> QuicStreams" where
  "quicStreamsFrame xa opened ss f =
     (case f of
        FStream hasOff hasLen fin i offset data \<Rightarrow>
          handleStreamData xa opened ss i offset data fin (frameType f)
      | FResetStream i err finalSize \<Rightarrow> handleResetStream opened ss i err finalSize (frameType f)
      | FStopSending i err \<Rightarrow> handleStopSending opened ss i err (frameType f)
      | FMaxData mx \<Rightarrow> (True, connMaxData ss mx)
      | FMaxStreamData i mx \<Rightarrow> handleMaxStreamData opened ss i mx (frameType f)
      | FMaxStreams uni mx \<Rightarrow> handleMaxStreams ss uni mx
      | FDataBlocked limit \<Rightarrow> handleBlocked opened ss f
      | FStreamDataBlocked i limit \<Rightarrow> handleBlocked opened ss f
      | FStreamsBlocked uni limit \<Rightarrow> handleBlocked opened ss f
      | _ \<Rightarrow> (False, streamsFail ss QUIC_ERR_PROTOCOL (frameType f)))"


section \<open>Frames going out\<close>

text \<open>\<^verbatim>\<open>putFrame\<close> of \<^verbatim>\<open>stream.c\<close>, which is also the one of \<^verbatim>\<open>conn.c\<close>.\<close>

definition putFrame :: "QuicWr \<Rightarrow> QuicFrame \<Rightarrow> bool \<times> QuicWr" where
  "putFrame wr f =
     (if quicFrameSize f = 0 \<or> quicFrameSize f > quicWrLeft wr then (False, wr) else quicFrameEncode wr f)"

text \<open>
  What any sequence of writes does to a writer: it only moves forward, inside the same object, keeps
  what was written, and a writer that went bad stays bad.
\<close>

definition wr_ext :: "QuicWr \<Rightarrow> QuicWr \<Rightarrow> bool" where
  "wr_ext wr wr1 \<longleftrightarrow> wr_wf wr1 \<and> length (wr_buf wr1) = length (wr_buf wr) \<and> wr_p wr \<le> wr_p wr1 \<and>
     (wr_bad wr \<longrightarrow> wr_bad wr1) \<and> take (wr_p wr) (wr_buf wr1) = wr_out wr"

lemma wr_ext_refl: "wr_wf wr \<Longrightarrow> wr_ext wr wr"
  by (simp add: wr_ext_def wr_out_def)

lemma wr_ext_trans: "wr_ext a b \<Longrightarrow> wr_ext b c \<Longrightarrow> wr_ext a c"
  unfolding wr_ext_def wr_out_def by (metis le_trans min.absorb_iff1 take_take)

lemma wr_ext_bytes: "wr_ext wr wr1 \<Longrightarrow> wr_ext wr (quicWrBytes wr1 bs)"
  by (auto simp: wr_ext_def quicWrBytes_def wr_wf_def mem_write_def wr_out_def)

lemma wr_ext_bad: "wr_ext wr wr1 \<Longrightarrow> wr_ext wr (wr1\<lparr>wr_bad := True\<rparr>)"
  by (simp add: wr_ext_def wr_wf_def)

lemma wr_ext_varint: "wr_ext wr wr1 \<Longrightarrow> wr_ext wr (quicWrVarint wr1 v)"
  by (simp add: quicWrVarint_bytes wr_ext_bytes wr_ext_bad)

lemma wr_ext_8: "wr_ext wr wr1 \<Longrightarrow> wr_ext wr (quicWr8 wr1 b)"
  by (simp add: quicWr8_bytes wr_ext_bytes)

lemma wr_ext_string: "wr_ext wr wr1 \<Longrightarrow> wr_ext wr (quicWrVarintBytes wr1 d)"
  by (simp add: quicWrVarintBytes_def wr_ext_bytes wr_ext_varint)

lemmas wr_ext_rules = wr_ext_bytes wr_ext_varint wr_ext_8 wr_ext_string

lemma quicFrameEncode_ext:
  assumes "wr_wf wr"
  shows "\<nexists>n. f = FPadding n \<Longrightarrow> quicFrameSize f \<noteq> 0 \<Longrightarrow>
      wr_ext (quicWrVarint wr (frameType f)) (snd (quicFrameEncode wr f))"
    and "wr_ext wr (snd (quicFrameEncode wr f))"
proof -
  have wt: "wr_ext wr (quicWrVarint wr (frameType f))" by (rule wr_ext_varint [OF wr_ext_refl [OF assms]])
  then have "wr_wf (quicWrVarint wr (frameType f))" by (simp add: wr_ext_def)
  note start = wr_ext_refl [OF this]
  have 0: "wr_ext w0 (snd (quicFrameEncode wr f))"
    if "\<nexists>n. f = FPadding n" "quicFrameSize f \<noteq> 0" "quicWrVarint wr (frameType f) = w0" for w0
    using that start
    by (cases f) (auto simp: quicFrameEncode_def Let_def simp del: frameType.simps split: option.split intro!: wr_ext_rules)
  then show 1: "wr_ext (quicWrVarint wr (frameType f)) (snd (quicFrameEncode wr f))"
    if "\<nexists>n. f = FPadding n" "quicFrameSize f \<noteq> 0"
    using that by blast
  show "wr_ext wr (snd (quicFrameEncode wr f))"
  proof (cases "\<exists>n. f = FPadding n")
    case True
    then obtain n where "f = FPadding n" ..
    then show ?thesis
      using assms
      by (auto simp: quicFrameEncode_def wr_ext_def wr_wf_def quicWrLeft_def wr_out_def mem_write_def split: if_splits)
  next
    case False
    have "snd (quicFrameEncode wr f) = wr" if "quicFrameSize f = 0"
      using that False by (cases f) (simp_all add: quicFrameEncode_def)
    with False 1 wt wr_ext_trans wr_ext_refl [OF assms] show ?thesis by metis
  qed
qed

lemma putFrame_ext: "wr_wf wr \<Longrightarrow> wr_ext wr (snd (putFrame wr f))"
  by (simp add: putFrame_def quicFrameEncode_ext wr_ext_refl)

lemma quicFrameEncode_bad:
  "fst (quicFrameEncode wr f) \<Longrightarrow> \<not> wr_bad wr \<Longrightarrow> \<not> wr_bad (snd (quicFrameEncode wr f))"
  by (cases f) (auto simp: quicFrameEncode_def Let_def split: if_splits)

text \<open>A frame that was written took room, so a loop that writes frames ends.\<close>

lemma putFrame_shrinks:
  assumes "putFrame wr f = (True, wr1)"
  shows "quicWrLeft wr1 < quicWrLeft wr"
proof -
  have e: "quicFrameEncode wr f = (True, wr1)" and sz: "quicFrameSize f \<noteq> 0" "quicFrameSize f \<le> quicWrLeft wr"
    using assms by (auto simp: putFrame_def split: if_splits)
  then have ok: "\<not> wr_bad wr" "wr_p wr < length (wr_buf wr)"
    by (auto simp: quicWrLeft_def split: if_splits)
  then have wf: "wr_wf wr" by (simp add: wr_wf_def)
  have ok1: "\<not> wr_bad wr1" using quicFrameEncode_bad [of wr f] e ok(1) by simp
  show ?thesis
  proof (cases "\<exists>n. f = FPadding n")
    case True
    then obtain n where "f = FPadding n" ..
    then show ?thesis
      using e sz ok by (auto simp: quicFrameEncode_def quicFrameSize_def quicWrLeft_def Let_def split: if_splits)
  next
    case False
    with quicFrameEncode_ext(1) [OF wf _ sz(1)] e
    have x: "wr_ext (quicWrVarint wr (frameType f)) wr1" by simp
    with ok1 have "\<not> wr_bad (quicWrVarint wr (frameType f))" by (auto simp: wr_ext_def)
    then have "wr_p wr < wr_p (quicWrVarint wr (frameType f))
        \<and> length (wr_buf (quicWrVarint wr (frameType f))) = length (wr_buf wr)"
      using ok by (auto simp: quicWrVarint_bytes quicWrBytes_def split: if_splits)
    with x ok ok1 show ?thesis by (auto simp: wr_ext_def wr_wf_def quicWrLeft_def)
  qed
qed

definition putCtl ::
  "QuicWr \<Rightarrow> QuicCtl \<Rightarrow> QuicFrame \<Rightarrow> u64 \<Rightarrow> bool \<Rightarrow> QuicWr \<times> QuicCtl \<times> bool" where
  "putCtl wr ctl f pn eliciting =
     (if ctl_state ctl \<noteq> QUIC_CTL_PENDING then (wr, ctl, eliciting)
      else
        case putFrame wr f of
          (False, wr1) \<Rightarrow> (wr1, ctl, eliciting)
        | (True, wr1) \<Rightarrow> (wr1, quicCtlSent ctl pn, True))"

text \<open>The frames of one direction, then all the frames that belong to the connection.\<close>

definition fillDir ::
  "u64 \<Rightarrow> QuicSDir \<Rightarrow> QuicStreams \<times> QuicWr \<times> bool \<Rightarrow> QuicStreams \<times> QuicWr \<times> bool" where
  "fillDir pn dir = (\<lambda>(ss, wr, el).
     case putCtl wr (ss_maxStreams ss dir)
            (FMaxStreams (dir = QUIC_SDIR_UNI) (ss_recvMaxStreams ss dir)) pn el of
       (wr1, c1, el1) \<Rightarrow>
         case putCtl wr1 (ss_streamsBlocked ss dir)
                (FStreamsBlocked (dir = QUIC_SDIR_UNI) (ss_sendMaxStreams ss dir)) pn el1 of
           (wr2, c2, el2) \<Rightarrow>
             (ss\<lparr>ss_maxStreams := (ss_maxStreams ss)(dir := c1),
                 ss_streamsBlocked := (ss_streamsBlocked ss)(dir := c2)\<rparr>, wr2, el2))"

definition fillConn ::
  "QuicStreams \<Rightarrow> QuicWr \<Rightarrow> u64 \<Rightarrow> bool \<Rightarrow> QuicStreams \<times> QuicWr \<times> bool" where
  "fillConn ss wr pn el =
     (case putCtl wr (ss_maxData ss) (FMaxData (ss_recvMax ss)) pn el of
        (wr1, c1, el1) \<Rightarrow>
          case putCtl wr1 (ss_dataBlocked ss) (FDataBlocked (ss_sendMax ss)) pn el1 of
            (wr2, c2, el2) \<Rightarrow>
              fillDir pn QUIC_SDIR_UNI (fillDir pn QUIC_SDIR_BIDI
                (ss\<lparr>ss_maxData := c1, ss_dataBlocked := c2\<rparr>, wr2, el2)))"

definition streamOverhead :: "QuicStreamState \<Rightarrow> nat" where
  "streamOverhead st = 1 + quicVarintSize (st_id st) + quicVarintSize (sb_end (st_out st)) + 2"

definition putStreamFrame :: "QuicWr \<Rightarrow> QuicStreamState \<Rightarrow> u64 \<Rightarrow> u8 list \<Rightarrow> bool \<Rightarrow> bool \<times> QuicWr" where
  "putStreamFrame wr st off data fin = putFrame wr (FStream (off > 0) True fin (st_id st) off data)"

text \<open>The loop of \<^verbatim>\<open>fillStreamData\<close>: ranges of data while they fit.\<close>

function fillData :: "QuicStreamState \<Rightarrow> QuicWr \<Rightarrow> u64 \<Rightarrow> bool \<Rightarrow> QuicStreamState \<times> QuicWr \<times> bool" where
  "fillData st wr pn el =
     (let overhead = streamOverhead st; left = quicWrLeft wr in
      if left \<le> overhead then (st, wr, el)
      else
        case quicSendBufNext (st_out st) (left - overhead) of
          None \<Rightarrow> (st, wr, el)
        | Some (off, data) \<Rightarrow>
            let fin = (ctl_state (st_fin st) = QUIC_CTL_PENDING
                       \<and> off + of_nat (length data) = sb_end (st_out st)) in
            case putStreamFrame wr st off data fin of
              (False, wr1) \<Rightarrow> (st, wr1, el)
            | (True, wr1) \<Rightarrow>
                fillData
                  (st\<lparr>st_out := quicSendBufSent (st_out st) off (length data) pn,
                      st_fin := (if fin then quicCtlSent (st_fin st) pn else st_fin st)\<rparr>) wr1 pn True)"
  by pat_completeness auto
termination
  by (relation "measure (\<lambda>(st, wr, pn, el). quicWrLeft wr)") (auto simp: putStreamFrame_def dest: putFrame_shrinks [OF sym])

declare fillData.simps [simp del]

definition fillStreamData ::
  "QuicStreamState \<Rightarrow> QuicWr \<Rightarrow> u64 \<Rightarrow> bool \<Rightarrow> QuicStreamState \<times> QuicWr \<times> bool" where
  "fillStreamData st wr pn el =
     (if st_sendState st \<noteq> QUIC_SEND_SEND \<and> st_sendState st \<noteq> QUIC_SEND_DATA_SENT then (st, wr, el)
      else
        case fillData st wr pn el of
          (st1, wr1, el1) \<Rightarrow>
            if ctl_state (st_fin st1) = QUIC_CTL_PENDING \<and> \<not> quicSendBufPending (st_out st1) then
              case putStreamFrame wr1 st1 (sb_end (st_out st1)) [] True of
                (False, wr2) \<Rightarrow> (st1, wr2, el1)
              | (True, wr2) \<Rightarrow> (st1\<lparr>st_fin := quicCtlSent (st_fin st1) pn\<rparr>, wr2, True)
            else (st1, wr1, el1))"

definition fillStream :: "QuicStreamState \<Rightarrow> QuicWr \<Rightarrow> u64 \<Rightarrow> bool \<Rightarrow> QuicStreamState \<times> QuicWr \<times> bool" where
  "fillStream st wr pn el =
     (case putCtl wr (st_stopSending st) (FStopSending (st_id st) (st_stopError st)) pn el of
        (wr1, c1, el1) \<Rightarrow>
          case putCtl wr1 (st_maxData st) (FMaxStreamData (st_id st) (ra_limit (st_in st))) pn el1 of
            (wr2, c2, el2) \<Rightarrow>
              case (if ctl_state (st_reset st) \<noteq> QUIC_CTL_IDLE
                    then putCtl wr2 (st_reset st)
                           (FResetStream (st_id st) (st_resetError st) (st_sendFinal st)) pn el2
                    else (wr2, st_reset st, el2)) of
                (wr3, c3, el3) \<Rightarrow>
                  case putCtl wr3 (st_blocked st) (FStreamDataBlocked (st_id st) (st_sendMax st)) pn el3 of
                    (wr4, c4, el4) \<Rightarrow>
                      fillStreamData (st\<lparr>st_stopSending := c1, st_maxData := c2, st_reset := c3,
                                         st_blocked := c4\<rparr>) wr4 pn el4)"

text \<open>The loop of \<^verbatim>\<open>_quicStreamsFill\<close> with the number of visits it has left.\<close>

fun fillVisits ::
  "nat \<Rightarrow> QuicStreams \<Rightarrow> QuicWr \<Rightarrow> u64 \<Rightarrow> bool \<Rightarrow> QuicStreams \<times> QuicWr \<times> bool" where
  "fillVisits 0 ss wr pn el = (ss, wr, el)"
| "fillVisits (Suc n) ss wr pn el =
     (case ss_active ss of
        [] \<Rightarrow> (ss, wr, el)
      | i # rest \<Rightarrow>
          if quicWrLeft wr < QUIC_STREAM_MIN_FRAME then (ss, wr, el)
          else
            let ss1 = ss\<lparr>ss_active := rest\<rparr> in
            case quicStreamFind ss1 i of
              None \<Rightarrow> fillVisits n ss1 wr pn el
            | Some st \<Rightarrow>
                case fillStream st wr pn el of
                  (st1, wr1, el1) \<Rightarrow>
                    fillVisits n
                      (if streamPending st1 \<or> streamOutstanding st1
                       then setStream (ss1\<lparr>ss_active := ss_active ss1 @ [i]\<rparr>) st1
                       else streamSettle ss1 (st1\<lparr>st_active := False\<rparr>)) wr1 pn el1)"

definition quicStreamsFill :: "QuicStreams \<Rightarrow> nat \<Rightarrow> u64 \<Rightarrow> u8 list \<times> bool \<times> QuicStreams" where
  "quicStreamsFill ss bufsz pn =
     (case fillConn ss (quicWrInit (replicate bufsz 0)) pn False of
        (ss1, wr, el) \<Rightarrow>
          case fillVisits (length (ss_active ss1)) ss1 wr pn el of
            (ss2, wr2, el2) \<Rightarrow> (take (quicWrLen wr2) (wr_buf wr2), el2, ss2))"

definition quicStreamsWantsToSend :: "QuicStreams \<Rightarrow> bool" where
  "quicStreamsWantsToSend ss \<longleftrightarrow>
     ctl_state (ss_maxData ss) = QUIC_CTL_PENDING \<or> ctl_state (ss_dataBlocked ss) = QUIC_CTL_PENDING \<or>
     list_ex (\<lambda>dir. ctl_state (ss_maxStreams ss dir) = QUIC_CTL_PENDING
                  \<or> ctl_state (ss_streamsBlocked ss dir) = QUIC_CTL_PENDING) [QUIC_SDIR_BIDI, QUIC_SDIR_UNI] \<or>
     list_ex (\<lambda>i. case quicStreamFind ss i of None \<Rightarrow> False | Some st \<Rightarrow> streamPending st) (ss_active ss)"


section \<open>What came back\<close>

text \<open>
  One stream of the walk of \<^verbatim>\<open>streamsResolve\<close>. The walk itself goes over the active list; it
  returns the list without the streams that have nothing left to send or in flight, and nothing it calls
  looks at the list in between.
\<close>

definition resolveAcked :: "QuicStreams \<Rightarrow> QuicStreamState \<Rightarrow> u64 \<Rightarrow> QuicStreams \<times> QuicStreamState" where
  "resolveAcked ss st0 pn =
     (let st = (if sendRoom ss st0 = 0 then sendWait ss st0 1 0 else st0);
          st1 = st\<lparr>st_out := quicSendBufAcked (st_out st) pn,
                   st_stopSending := snd (quicCtlAcked (st_stopSending st) pn),
                   st_maxData := snd (quicCtlAcked (st_maxData st) pn),
                   st_blocked := snd (quicCtlAcked (st_blocked st) pn)\<rparr>;
          st2 = (case quicCtlAcked (st_fin st1) pn of
                   (done, c) \<Rightarrow> st1\<lparr>st_fin := c, st_finAcked := (if done then True else st_finAcked st1)\<rparr>);
          st3 = (case quicCtlAcked (st_reset st2) pn of
                   (done, c) \<Rightarrow> st2\<lparr>st_reset := c,
                     st_sendState := (if done then QUIC_SEND_RESET_DONE else st_sendState st2)\<rparr>);
          st4 = (if st_sendState st3 = QUIC_SEND_DATA_SENT \<and> st_finAcked st3
                    \<and> quicSendBufOutstanding (st_out st3) = 0
                 then st3\<lparr>st_sendState := QUIC_SEND_DATA_DONE\<rparr> else st3)
      in sendUnblock ss st4)"

definition resolveLost :: "QuicStreamState \<Rightarrow> u64 \<Rightarrow> QuicStreamState" where
  "resolveLost st pn =
     st\<lparr>st_out := quicSendBufLost (st_out st) pn,
        st_stopSending := snd (quicCtlLost (st_stopSending st) pn),
        st_fin := snd (quicCtlLost (st_fin st) pn), st_reset := snd (quicCtlLost (st_reset st) pn),
        st_maxData := snd (quicCtlLost (st_maxData st) pn),
        st_blocked := snd (quicCtlLost (st_blocked st) pn)\<rparr>"

fun resolveEach :: "u64 \<Rightarrow> bool \<Rightarrow> u64 list \<Rightarrow> QuicStreams \<Rightarrow> u64 list \<times> QuicStreams" where
  "resolveEach pn acked [] ss = ([], ss)"
| "resolveEach pn acked (i # is) ss =
     (case quicStreamFind ss i of
        None \<Rightarrow> resolveEach pn acked is ss
      | Some st \<Rightarrow>
          case (if acked then resolveAcked ss st pn else (ss, resolveLost st pn)) of
            (ss1, st1) \<Rightarrow>
              if \<not> streamPending st1 \<and> \<not> streamOutstanding st1
              then resolveEach pn acked is (streamSettle ss1 (st1\<lparr>st_active := False\<rparr>))
              else case resolveEach pn acked is (setStream ss1 st1) of (kept, ss2) \<Rightarrow> (i # kept, ss2))"

definition streamsResolve :: "QuicStreams \<Rightarrow> u64 \<Rightarrow> bool \<Rightarrow> QuicStreams" where
  "streamsResolve ss pn acked =
     (case resolveEach pn acked (ss_active ss) ss of (kept, ss1) \<Rightarrow> ss1\<lparr>ss_active := kept\<rparr>)"

definition quicStreamsAcked :: "QuicStreams \<Rightarrow> u64 \<Rightarrow> QuicStreams" where
  "quicStreamsAcked ss pn =
     streamsResolve
       (ss\<lparr>ss_maxData := snd (quicCtlAcked (ss_maxData ss) pn),
           ss_dataBlocked := snd (quicCtlAcked (ss_dataBlocked ss) pn),
           ss_maxStreams := (\<lambda>dir. snd (quicCtlAcked (ss_maxStreams ss dir) pn)),
           ss_streamsBlocked := (\<lambda>dir. snd (quicCtlAcked (ss_streamsBlocked ss dir) pn))\<rparr>) pn True"

definition quicStreamsLost :: "QuicStreams \<Rightarrow> u64 \<Rightarrow> QuicStreams" where
  "quicStreamsLost ss pn =
     streamsResolve
       (ss\<lparr>ss_maxData := snd (quicCtlLost (ss_maxData ss) pn),
           ss_dataBlocked := snd (quicCtlLost (ss_dataBlocked ss) pn),
           ss_maxStreams := (\<lambda>dir. snd (quicCtlLost (ss_maxStreams ss dir) pn)),
           ss_streamsBlocked := (\<lambda>dir. snd (quicCtlLost (ss_streamsBlocked ss dir) pn))\<rparr>) pn False"


section \<open>What the application calls\<close>

definition quicStreamOpen :: "QuicStreams \<Rightarrow> bool \<Rightarrow> u64 option \<times> QuicStreams" where
  "quicStreamOpen ss uni =
     (let dir = (if uni then QUIC_SDIR_UNI else QUIC_SDIR_BIDI) in
      if ss_nextLocal ss dir \<ge> ss_sendMaxStreams ss dir then
        (None,
         if ss_streamsBlockedAt ss dir \<noteq> ss_sendMaxStreams ss dir
         then ss\<lparr>ss_streamsBlockedAt := (ss_streamsBlockedAt ss)(dir := ss_sendMaxStreams ss dir),
                 ss_streamsBlocked := (ss_streamsBlocked ss)(dir := quicCtlQueue (ss_streamsBlocked ss dir))\<rparr>
         else ss)
      else
        let sid = quicStreamMakeId (ss_nextLocal ss dir) (ss_server ss) uni;
            ss1 = fst (streamCreate ss sid)
        in (Some sid, ss1\<lparr>ss_nextLocal := (ss_nextLocal ss1)(dir := ss_nextLocal ss1 dir + 1)\<rparr>))"

definition quicStreamWritable :: "QuicStreams \<Rightarrow> u64 \<Rightarrow> nat" where
  "quicStreamWritable ss i =
     (case quicStreamFind ss i of None \<Rightarrow> 0 | Some st \<Rightarrow> unat (sendRoom ss st))"

definition sendRefused ::
  "QuicStreams \<Rightarrow> QuicStreamState \<Rightarrow> u64 \<Rightarrow> bool \<times> QuicStreams \<times> QuicStreamState" where
  "sendRefused ss st want =
     (let st1 = sendWait ss st want (sendRoom ss st) in
      case (if st_sendMax st1 \<le> sb_end (st_out st1) \<and> st_sendBlocked st1 \<noteq> st_sendMax st1
            then (True, streamArm ss (st1\<lparr>st_sendBlocked := st_sendMax st1,
                                          st_blocked := quicCtlQueue (st_blocked st1)\<rparr>))
            else (False, ss, st1)) of
        (blocked, ss1, st2) \<Rightarrow>
          if ss_sendMax ss1 \<le> ss_sendOff ss1 \<and> ss_sendBlocked ss1 \<noteq> ss_sendMax ss1
          then (True, ss1\<lparr>ss_sendBlocked := ss_sendMax ss1,
                          ss_dataBlocked := quicCtlQueue (ss_dataBlocked ss1)\<rparr>, st2)
          else (blocked, ss1, st2))"

definition quicStreamSend :: "xalloc \<Rightarrow> QuicStreams \<Rightarrow> u64 \<Rightarrow> u8 list \<Rightarrow> nat \<times> QuicStreams" where
  "quicStreamSend xa ss i data =
     (case quicStreamFind ss i of
        None \<Rightarrow> (0, ss)
      | Some st \<Rightarrow>
          if st_sendState st \<noteq> QUIC_SEND_READY \<and> st_sendState st \<noteq> QUIC_SEND_SEND then (0, ss)
          else
            let want = length data;
                room = unat (sendRoom ss st);
                len = (if want > room then room else want)
            in case (if len > 0 then
                       case quicSendBufAdd xa (st_out st) (take len data) of
                         (False, sb) \<Rightarrow> (False, ss, st\<lparr>st_out := sb\<rparr>)
                       | (True, sb) \<Rightarrow>
                           (True, streamArm (ss\<lparr>ss_sendOff := ss_sendOff ss + of_nat len\<rparr>)
                                    (st\<lparr>st_out := sb, st_sendState := QUIC_SEND_SEND\<rparr>))
                     else (True, ss, st)) of
                 (False, ss1, st1) \<Rightarrow> (0, setStream ss1 st1)
               | (True, ss1, st1) \<Rightarrow>
                   if want > len
                   then case sendRefused ss1 st1 (of_nat want) of
                          (blocked, ss2, st2) \<Rightarrow> (len, setStream ss2 st2)
                   else (len, setStream ss1 st1))"

text \<open>The first result is the answer, the second what \<^verbatim>\<open>blocked\<close> is set to.\<close>

definition quicStreamSendAll :: "xalloc \<Rightarrow> QuicStreams \<Rightarrow> u64 \<Rightarrow> u8 list \<Rightarrow> bool \<times> bool \<times> QuicStreams" where
  "quicStreamSendAll xa ss i data =
     (case quicStreamFind ss i of
        None \<Rightarrow> (False, False, ss)
      | Some st \<Rightarrow>
          if st_sendState st \<noteq> QUIC_SEND_READY \<and> st_sendState st \<noteq> QUIC_SEND_SEND then (False, False, ss)
          else if unat (sendRoom ss st) < length data then
            case sendRefused ss st (of_nat (length data)) of
              (blocked, ss1, st1) \<Rightarrow> (False, blocked, setStream ss1 st1)
          else
            case quicStreamSend xa ss i data of (n, ss1) \<Rightarrow> (n = length data, False, ss1))"

definition quicStreamFinish :: "QuicStreams \<Rightarrow> u64 \<Rightarrow> QuicStreams" where
  "quicStreamFinish ss i =
     (case quicStreamFind ss i of
        None \<Rightarrow> ss
      | Some st \<Rightarrow>
          if st_sendState st \<noteq> QUIC_SEND_READY \<and> st_sendState st \<noteq> QUIC_SEND_SEND then ss
          else case streamArm ss (st\<lparr>st_sendState := QUIC_SEND_DATA_SENT, st_fin := quicCtlQueue (st_fin st)\<rparr>) of
                 (ss1, st1) \<Rightarrow> setStream ss1 st1)"

definition quicStreamReadable :: "QuicStreams \<Rightarrow> u64 \<Rightarrow> nat" where
  "quicStreamReadable ss i =
     (case quicStreamFind ss i of None \<Rightarrow> 0 | Some st \<Rightarrow> quicReasmReadable (st_in st))"

text \<open>The part of \<^verbatim>\<open>_quicStreamRecv\<close> that takes \<open>n\<close> bytes out of the reassembly buffer.\<close>

definition recvTake :: "QuicStreams \<Rightarrow> QuicStreamState \<Rightarrow> nat \<Rightarrow> u8 list \<times> QuicStreams \<times> QuicStreamState" where
  "recvTake ss st n =
     (if n = 0 then ([], ss, st)
      else
        let out = take n (the (quicReasmData (st_in st)));
            st1 = st\<lparr>st_in := quicReasmConsume (st_in st) n, st_recvRead := st_recvRead st + of_nat n\<rparr>;
            ss1 = ss\<lparr>ss_recvRead := ss_recvRead ss + of_nat n\<rparr>
        in case recvWindowUpdate ss1 st1 of (ss2, st2) \<Rightarrow> (out, connWindowUpdate ss2, st2))"

definition quicStreamRecv :: "QuicStreams \<Rightarrow> u64 \<Rightarrow> nat \<Rightarrow> u8 list \<times> bool \<times> QuicStreams" where
  "quicStreamRecv ss i outsz =
     (case quicStreamFind ss i of
        None \<Rightarrow> ([], False, ss)
      | Some st \<Rightarrow>
          if st_recvState st = QUIC_RECV_RESET
          then ([], True, streamSettle ss (st\<lparr>st_recvState := QUIC_RECV_RESET_READ\<rparr>))
          else
            case recvTake ss st (min (quicReasmReadable (st_in st)) outsz) of
              (out, ss1, st1) \<Rightarrow>
                if st_recvState st1 = QUIC_RECV_DATA_RECVD \<and> quicReasmReadable (st_in st1) = 0
                then (out, True, streamSettle ss1 (st1\<lparr>st_recvState := QUIC_RECV_DATA_READ\<rparr>))
                else (out, False, setStream ss1 st1))"

definition quicStreamReset :: "QuicStreams \<Rightarrow> u64 \<Rightarrow> u64 \<Rightarrow> QuicStreams" where
  "quicStreamReset ss i err =
     (case quicStreamFind ss i of
        None \<Rightarrow> ss
      | Some st \<Rightarrow> case sendReset ss st err of (ss1, st1) \<Rightarrow> setStream ss1 st1)"

definition quicStreamStopSending :: "QuicStreams \<Rightarrow> u64 \<Rightarrow> u64 \<Rightarrow> QuicStreams" where
  "quicStreamStopSending ss i err =
     (case quicStreamFind ss i of
        None \<Rightarrow> ss
      | Some st \<Rightarrow>
          if st_recvState st \<noteq> QUIC_RECV_RECV then ss
          else case streamArm ss (st\<lparr>st_stopError := err, st_stopSending := quicCtlQueue (st_stopSending st)\<rparr>) of
                 (ss1, st1) \<Rightarrow> setStream ss1 st1)"

end
