(* ===== verification/QuicStreamInv.thy ===== *)
theory QuicStreamInv
  imports QuicStream QuicAck
begin

text \<open>
  What every operation of the stream layer keeps: the table of streams and its identifiers, the
  flow control accounts in both directions, and the send and receive buffers of each stream.
\<close>

section \<open>Identifiers\<close>

lemma makeId_fields:
  assumes "unat idx < 2 ^ 62"
  shows "quicStreamIndex (quicStreamMakeId idx server uni) = idx"
    "quicStreamUni (quicStreamMakeId idx server uni) = uni"
    "quicStreamLocal (quicStreamMakeId idx server uni) s = (s = server)"
proof -
  have hi: "\<not> bit idx n" if "62 \<le> n" for n
  proof -
    have "idx = take_bit 62 idx" using assms by (simp add: word_unat_eq_iff unsigned_take_bit_eq take_bit_nat_eq_self)
    then have "bit idx n \<longleftrightarrow> bit (take_bit 62 idx) n" by simp
    with that show ?thesis by (simp add: bit_take_bit_iff)
  qed
  show "quicStreamIndex (quicStreamMakeId idx server uni) = idx"
    unfolding quicStreamIndex_def quicStreamMakeId_def
    by (rule bit_word_eqI) (use hi in \<open>auto simp: bit_simps not_less [symmetric]\<close>)
  have one: "(x AND 1 :: u64) \<noteq> 0 \<longleftrightarrow> bit x 0" "(x AND 2 :: u64) \<noteq> 0 \<longleftrightarrow> bit x 1" for x
    by (auto simp: and_exp_eq_0_iff_not_bit [of x 0, simplified] and_exp_eq_0_iff_not_bit [of x 1, simplified])
  show "quicStreamUni (quicStreamMakeId idx server uni) = uni"
    "quicStreamLocal (quicStreamMakeId idx server uni) s = (s = server)"
    unfolding quicStreamUni_def quicStreamLocal_def one by (auto simp: quicStreamMakeId_def bit_simps)
qed

text \<open>The streams that exist or existed.\<close>

definition used :: "QuicStreams \<Rightarrow> u64 \<Rightarrow> bool" where
  "used ss i \<longleftrightarrow> quicStreamIndex i <
     (if quicStreamLocal i (ss_server ss) then ss_nextLocal ss (quicStreamDir i)
      else ss_nextRemote ss (quicStreamDir i))"


section \<open>The table\<close>

lemma find_setStream [simp]:
  "quicStreamFind (setStream ss st) i = (if i = st_id st then Some st else quicStreamFind ss i)"
  by (simp add: quicStreamFind_def setStream_def update_conv')

lemma find_streamFree [simp]:
  "quicStreamFind (streamFree ss st) i = (if i = st_id st then None else quicStreamFind ss i)"
  by (simp add: quicStreamFind_def streamFree_def delete_conv')

lemma setStream_fields [simp]:
  "ss_hooks (setStream ss st) = ss_hooks ss" "ss_events (setStream ss st) = ss_events ss"
  "ss_server (setStream ss st) = ss_server ss" "ss_active (setStream ss st) = ss_active ss"
  "ss_sendMax (setStream ss st) = ss_sendMax ss" "ss_sendOff (setStream ss st) = ss_sendOff ss"
  "ss_sendBlocked (setStream ss st) = ss_sendBlocked ss" "ss_recvMax (setStream ss st) = ss_recvMax ss"
  "ss_recvOff (setStream ss st) = ss_recvOff ss" "ss_recvRead (setStream ss st) = ss_recvRead ss"
  "ss_recvWindow (setStream ss st) = ss_recvWindow ss" "ss_maxData (setStream ss st) = ss_maxData ss"
  "ss_dataBlocked (setStream ss st) = ss_dataBlocked ss"
  "ss_sendMaxStreams (setStream ss st) = ss_sendMaxStreams ss"
  "ss_recvMaxStreams (setStream ss st) = ss_recvMaxStreams ss"
  "ss_nextLocal (setStream ss st) = ss_nextLocal ss" "ss_nextRemote (setStream ss st) = ss_nextRemote ss"
  "ss_streamsBlockedAt (setStream ss st) = ss_streamsBlockedAt ss"
  "ss_maxStreams (setStream ss st) = ss_maxStreams ss"
  "ss_streamsBlocked (setStream ss st) = ss_streamsBlocked ss"
  "ss_sendBufMax (setStream ss st) = ss_sendBufMax ss" "ss_sendLow (setStream ss st) = ss_sendLow ss"
  "ss_localSdBidiLocal (setStream ss st) = ss_localSdBidiLocal ss"
  "ss_localSdBidiRemote (setStream ss st) = ss_localSdBidiRemote ss"
  "ss_localSdUni (setStream ss st) = ss_localSdUni ss"
  "ss_peerSdBidiLocal (setStream ss st) = ss_peerSdBidiLocal ss"
  "ss_peerSdBidiRemote (setStream ss st) = ss_peerSdBidiRemote ss"
  "ss_peerSdUni (setStream ss st) = ss_peerSdUni ss" "ss_error (setStream ss st) = ss_error ss"
  "ss_errorFrame (setStream ss st) = ss_errorFrame ss"
  by (simp_all add: setStream_def)

lemma streamFree_fields [simp]:
  "ss_hooks (streamFree ss st) = ss_hooks ss" "ss_events (streamFree ss st) = ss_events ss"
  "ss_server (streamFree ss st) = ss_server ss" "ss_active (streamFree ss st) = ss_active ss"
  "ss_sendMax (streamFree ss st) = ss_sendMax ss" "ss_sendOff (streamFree ss st) = ss_sendOff ss"
  "ss_sendBlocked (streamFree ss st) = ss_sendBlocked ss" "ss_recvMax (streamFree ss st) = ss_recvMax ss"
  "ss_recvOff (streamFree ss st) = ss_recvOff ss" "ss_recvRead (streamFree ss st) = ss_recvRead ss"
  "ss_recvWindow (streamFree ss st) = ss_recvWindow ss" "ss_maxData (streamFree ss st) = ss_maxData ss"
  "ss_dataBlocked (streamFree ss st) = ss_dataBlocked ss"
  "ss_sendMaxStreams (streamFree ss st) = ss_sendMaxStreams ss"
  "ss_recvMaxStreams (streamFree ss st) = ss_recvMaxStreams ss"
  "ss_nextLocal (streamFree ss st) = ss_nextLocal ss"
  "ss_nextRemote (streamFree ss st) = ss_nextRemote ss"
  "ss_streamsBlockedAt (streamFree ss st) = ss_streamsBlockedAt ss"
  "ss_maxStreams (streamFree ss st) = ss_maxStreams ss"
  "ss_streamsBlocked (streamFree ss st) = ss_streamsBlocked ss"
  "ss_sendBufMax (streamFree ss st) = ss_sendBufMax ss" "ss_sendLow (streamFree ss st) = ss_sendLow ss"
  "ss_localSdBidiLocal (streamFree ss st) = ss_localSdBidiLocal ss"
  "ss_localSdBidiRemote (streamFree ss st) = ss_localSdBidiRemote ss"
  "ss_localSdUni (streamFree ss st) = ss_localSdUni ss"
  "ss_peerSdBidiLocal (streamFree ss st) = ss_peerSdBidiLocal ss"
  "ss_peerSdBidiRemote (streamFree ss st) = ss_peerSdBidiRemote ss"
  "ss_peerSdUni (streamFree ss st) = ss_peerSdUni ss" "ss_error (streamFree ss st) = ss_error ss"
  "ss_errorFrame (streamFree ss st) = ss_errorFrame ss"
  by (simp_all add: streamFree_def)

definition unread :: "(u64 \<times> QuicStreamState) list \<Rightarrow> u64" where
  "unread tab = (\<Sum>(i, st)\<leftarrow>tab. st_recvHighest st - st_recvRead st)"

lemma delete_fresh: "i \<notin> fst ` set tab \<Longrightarrow> AList.delete i tab = tab"
  by (induction tab) auto

lemma unread_take:
  assumes "distinct (map fst tab)" "map_of tab i = Some st"
  shows "unread tab = unread (AList.delete i tab) + (st_recvHighest st - st_recvRead st)"
  using assms
proof (induction tab)
  case (Cons p tab)
  obtain j sj where p: "p = (j, sj)" by (cases p)
  show ?case
  proof (cases "j = i")
    case True
    with Cons.prems p have "i \<notin> fst ` set tab" "sj = st" by simp_all
    then show ?thesis using p True delete_fresh [of i tab] by (simp add: unread_def)
  next
    case False
    with Cons p show ?thesis by (simp add: unread_def)
  qed
qed simp

lemma delete_update: "AList.delete i (AList.update i st tab) = AList.delete i tab"
  by (induction tab) auto


text \<open>The bytes that were accepted for one stream, out of all that were accepted.\<close>

definition of_stream :: "u64 \<Rightarrow> (u64 \<times> u8) list \<Rightarrow> u8 list" where
  "of_stream i wlog = map snd (filter (\<lambda>(j, b). j = i) wlog)"

lemma of_stream_append [simp]: "of_stream i (wlog @ wlog') = of_stream i wlog @ of_stream i wlog'"
  by (simp add: of_stream_def)

lemma of_stream_bytes [simp]: "of_stream i (map (Pair j) d) = (if i = j then d else [])"
  by (induction d) (auto simp: of_stream_def)

lemma of_stream_Nil [simp]: "of_stream i [] = []"
  by (simp add: of_stream_def)


section \<open>The invariant of a stream\<close>

definition send_inv :: "u8 list \<Rightarrow> QuicStreamState \<Rightarrow> bool" where
  "send_inv W st \<longleftrightarrow>
     sb_inv (st_out st) \<and> sb_end (st_out st) \<le> st_sendMax st \<and> st_sendFinal st \<le> st_sendMax st \<and>
     (st_sendState st \<notin> {QUIC_SEND_RESET_SENT, QUIC_SEND_RESET_DONE} \<longrightarrow>
        unat (sb_end (st_out st)) = length W \<and> sb_bytes (st_out st) = drop (unat (sb_base (st_out st))) W) \<and>
     (ctl_state (st_fin st) \<noteq> QUIC_CTL_IDLE \<longrightarrow> st_sendState st \<in> {QUIC_SEND_DATA_SENT, QUIC_SEND_DATA_DONE}) \<and>
     (ctl_state (st_reset st) \<noteq> QUIC_CTL_IDLE \<longrightarrow> st_sendState st = QUIC_SEND_RESET_SENT) \<and>
     (st_sendState st \<in> {QUIC_SEND_RESET_SENT, QUIC_SEND_RESET_DONE} \<longrightarrow> unat (st_sendFinal st) = length W) \<and>
     (st_sendState st = QUIC_SEND_DATA_DONE \<longrightarrow>
        st_finAcked st \<and> sb_base (st_out st) = sb_end (st_out st)) \<and>
     varint_ok (st_sendMax st) \<and> varint_ok (st_resetError st) \<and> varint_ok (st_stopError st)"

definition recv_inv :: "bool \<Rightarrow> QuicStreamState \<Rightarrow> bool" where
  "recv_inv server st \<longleftrightarrow>
     reasm_inv (st_in st) \<and> (\<forall>x. reasm_view (st_in st) x \<noteq> None \<longrightarrow> x < st_recvHighest st) \<and>
     st_recvHighest st \<le> ra_limit (st_in st) \<and> st_recvRead st \<le> st_recvHighest st \<and>
     (st_recvFinalKnown st \<longrightarrow> st_recvHighest st \<le> st_recvFinal st) \<and>
     (if st_recvState st \<in> {QUIC_RECV_RESET, QUIC_RECV_RESET_READ}
      then st_recvFinalKnown st \<and> st_recvRead st = st_recvFinal st \<and> ra_ranges (st_in st) = []
      else ra_base (st_in st) = st_recvRead st) \<and>
     (st_recvState st \<in> {QUIC_RECV_SIZE_KNOWN, QUIC_RECV_DATA_RECVD, QUIC_RECV_DATA_READ} \<longrightarrow>
        st_recvFinalKnown st) \<and>
     (st_recvState st = QUIC_RECV_DATA_RECVD \<longrightarrow>
        (\<forall>x. st_recvRead st \<le> x \<and> x < st_recvFinal st \<longrightarrow> reasm_view (st_in st) x \<noteq> None)) \<and>
     (st_recvState st = QUIC_RECV_DATA_READ \<longrightarrow> st_recvRead st = st_recvFinal st) \<and>
     (st_recvState st = QUIC_RECV_NONE \<longrightarrow> st_recvHighest st = 0 \<and> quicStreamUni (st_id st)
        \<and> quicStreamLocal (st_id st) server)"

text \<open>A receiving half that is finished owes no flow control credit.\<close>

lemma recv_done_read: "recv_inv server st \<Longrightarrow> recvHalfDone st \<Longrightarrow> st_recvHighest st = st_recvRead st"
  by (auto simp: recv_inv_def recvHalfDone_def)


section \<open>The invariant of the stream layer\<close>

definition counts_ok :: "QuicStreams \<Rightarrow> bool" where
  "counts_ok ss \<longleftrightarrow> (\<forall>dir. ss_nextLocal ss dir \<le> ss_sendMaxStreams ss dir \<and>
     ss_sendMaxStreams ss dir \<le> QUIC_MAX_STREAM_COUNT \<and> ss_nextRemote ss dir \<le> ss_recvMaxStreams ss dir \<and>
     ss_recvMaxStreams ss dir \<le> QUIC_MAX_STREAM_COUNT)"

definition totals_ok :: "(u64 \<times> u8) list \<Rightarrow> QuicStreams \<Rightarrow> bool" where
  "totals_ok wlog ss \<longleftrightarrow> unat (ss_sendOff ss) = length wlog \<and> ss_sendOff ss \<le> ss_sendMax ss \<and>
     ss_recvOff ss \<le> ss_recvMax ss \<and> varint_ok (ss_sendMax ss) \<and> varint_ok (ss_peerSdBidiLocal ss) \<and>
     varint_ok (ss_peerSdBidiRemote ss) \<and> varint_ok (ss_peerSdUni ss)"

definition stream_inv :: "(u64 \<times> u8) list \<Rightarrow> QuicStreams \<Rightarrow> QuicStreamState \<Rightarrow> bool" where
  "stream_inv wlog ss st \<longleftrightarrow> used ss (st_id st) \<and> send_inv (of_stream (st_id st) wlog) st \<and>
     recv_inv (ss_server ss) st"

definition shared_inv :: "(u64 \<times> u8) list \<Rightarrow> QuicStreams \<Rightarrow> bool" where
  "shared_inv wlog ss \<longleftrightarrow> distinct (map fst (ss_byId ss)) \<and> counts_ok ss \<and> totals_ok wlog ss \<and>
     (\<forall>i. of_stream i wlog \<noteq> [] \<longrightarrow> used ss i)"

definition streams_inv :: "(u64 \<times> u8) list \<Rightarrow> QuicStreams \<Rightarrow> bool" where
  "streams_inv wlog ss \<longleftrightarrow> shared_inv wlog ss \<and>
     ss_recvOff ss - ss_recvRead ss = unread (ss_byId ss) \<and>
     (\<forall>i st. quicStreamFind ss i = Some st \<longrightarrow> st_id st = i \<and> stream_inv wlog ss st)"

text \<open>The invariant while one stream is taken out of the table to be changed.\<close>

definition open_inv :: "(u64 \<times> u8) list \<Rightarrow> QuicStreams \<Rightarrow> QuicStreamState \<Rightarrow> bool" where
  "open_inv wlog ss st \<longleftrightarrow> shared_inv wlog ss \<and> stream_inv wlog ss st \<and>
     ss_recvOff ss - ss_recvRead ss =
       unread (AList.delete (st_id st) (ss_byId ss)) + (st_recvHighest st - st_recvRead st) \<and>
     (\<forall>i st'. i \<noteq> st_id st \<longrightarrow> quicStreamFind ss i = Some st' \<longrightarrow> st_id st' = i \<and> stream_inv wlog ss st')"

lemma open_stream:
  assumes "streams_inv wlog ss" "quicStreamFind ss i = Some st"
  shows "open_inv wlog ss st" "st_id st = i"
proof -
  show i: "st_id st = i" using assms by (simp add: streams_inv_def)
  have "unread (ss_byId ss) = unread (AList.delete i (ss_byId ss)) + (st_recvHighest st - st_recvRead st)"
    using assms unread_take [of "ss_byId ss" i st] by (simp add: streams_inv_def shared_inv_def quicStreamFind_def)
  with assms i show "open_inv wlog ss st" by (simp add: streams_inv_def open_inv_def)
qed

lemma used_cong:
  "\<lbrakk>ss_server ss' = ss_server ss; ss_nextLocal ss' = ss_nextLocal ss; ss_nextRemote ss' = ss_nextRemote ss\<rbrakk>
   \<Longrightarrow> used ss' i = used ss i"
  by (simp add: used_def)

lemma stream_inv_cong:
  "\<lbrakk>ss_server ss' = ss_server ss; ss_nextLocal ss' = ss_nextLocal ss; ss_nextRemote ss' = ss_nextRemote ss\<rbrakk>
   \<Longrightarrow> stream_inv wlog ss' st = stream_inv wlog ss st"
  by (simp add: stream_inv_def used_def)

lemma shared_inv_cong:
  "\<lbrakk>distinct (map fst (ss_byId ss')); ss_server ss' = ss_server ss; ss_nextLocal ss' = ss_nextLocal ss;
    ss_nextRemote ss' = ss_nextRemote ss; ss_sendMaxStreams ss' = ss_sendMaxStreams ss;
    ss_recvMaxStreams ss' = ss_recvMaxStreams ss; totals_ok wlog ss'; shared_inv wlog ss\<rbrakk>
   \<Longrightarrow> shared_inv wlog ss'"
  unfolding shared_inv_def counts_ok_def using used_cong [of ss' ss] by metis

lemma totals_cong:
  "\<lbrakk>ss_sendOff ss' = ss_sendOff ss; ss_sendMax ss' = ss_sendMax ss; ss_recvOff ss' = ss_recvOff ss;
    ss_recvMax ss' = ss_recvMax ss; ss_peerSdBidiLocal ss' = ss_peerSdBidiLocal ss;
    ss_peerSdBidiRemote ss' = ss_peerSdBidiRemote ss; ss_peerSdUni ss' = ss_peerSdUni ss\<rbrakk>
   \<Longrightarrow> totals_ok wlog ss' = totals_ok wlog ss"
  by (simp add: totals_ok_def)

lemma close_stream:
  assumes "open_inv wlog ss st"
  shows "streams_inv wlog (setStream ss st)"
proof -
  let ?ss = "setStream ss st"
  have d: "distinct (map fst (ss_byId ?ss))"
    using assms(1) by (simp add: open_inv_def shared_inv_def setStream_def distinct_update distinct_delete)
  have u: "unread (ss_byId ?ss) =
      unread (AList.delete (st_id st) (ss_byId ss)) + (st_recvHighest st - st_recvRead st)"
    using unread_take [OF d, of "st_id st" st] by (simp add: setStream_def update_conv' delete_update)
  have "totals_ok wlog ?ss = totals_ok wlog ss" by (rule totals_cong) simp_all
  then have "shared_inv wlog ?ss"
    using shared_inv_cong [of ?ss ss wlog] assms(1) d by (simp add: open_inv_def shared_inv_def)
  moreover have "ss_recvOff ?ss - ss_recvRead ?ss = unread (ss_byId ?ss)"
    using assms(1) by (simp only: open_inv_def u setStream_fields)
  moreover have "\<forall>i st'. quicStreamFind ?ss i = Some st' \<longrightarrow> st_id st' = i \<and> stream_inv wlog ss st'"
    using assms(1) unfolding open_inv_def by (metis find_setStream find_streamFree option.discI option.inject)
  moreover have "stream_inv wlog ?ss st' = stream_inv wlog ss st'" for st'
    by (rule stream_inv_cong) simp_all
  ultimately show ?thesis by (simp only: streams_inv_def)
qed

lemma free_stream:
  assumes "open_inv wlog ss st" "recvHalfDone st"
  shows "streams_inv wlog (streamFree ss st)"
proof -
  let ?ss = "streamFree ss st"
  have d: "distinct (map fst (ss_byId ?ss))"
    using assms(1) by (simp add: open_inv_def shared_inv_def streamFree_def distinct_update distinct_delete)
  have "st_recvHighest st - st_recvRead st = 0"
    using assms recv_done_read [of "ss_server ss" st] by (simp add: open_inv_def stream_inv_def)
  then have u: "unread (ss_byId ?ss) =
      unread (AList.delete (st_id st) (ss_byId ss)) + (st_recvHighest st - st_recvRead st)"
    by (simp add: streamFree_def)
  have "totals_ok wlog ?ss = totals_ok wlog ss" by (rule totals_cong) simp_all
  then have "shared_inv wlog ?ss"
    using shared_inv_cong [of ?ss ss wlog] assms(1) d by (simp add: open_inv_def shared_inv_def)
  moreover have "ss_recvOff ?ss - ss_recvRead ?ss = unread (ss_byId ?ss)"
    using assms(1) by (simp only: open_inv_def u streamFree_fields)
  moreover have "\<forall>i st'. quicStreamFind ?ss i = Some st' \<longrightarrow> st_id st' = i \<and> stream_inv wlog ss st'"
    using assms(1) unfolding open_inv_def by (metis find_setStream find_streamFree option.discI option.inject)
  moreover have "stream_inv wlog ?ss st' = stream_inv wlog ss st'" for st'
    by (rule stream_inv_cong) simp_all
  ultimately show ?thesis by (simp only: streams_inv_def)
qed


text \<open>Changing the stream that is out, and what is shared, but not the table.\<close>

definition same_table :: "QuicStreams \<Rightarrow> QuicStreams \<Rightarrow> bool" where
  "same_table ss ss' \<longleftrightarrow> ss_byId ss' = ss_byId ss \<and> ss_server ss' = ss_server ss \<and>
     ss_nextLocal ss' = ss_nextLocal ss \<and> ss_nextRemote ss' = ss_nextRemote ss \<and>
     ss_sendMaxStreams ss' = ss_sendMaxStreams ss \<and> ss_recvMaxStreams ss' = ss_recvMaxStreams ss"

lemma balance_shift: "x' - c' = x - c \<Longrightarrow> x = u + c \<Longrightarrow> x' = u + (c' :: u64)"
  by (simp add: diff_eq_eq)

lemma open_change:
  assumes "open_inv wlog ss st" "same_table ss ss'" "st_id st' = st_id st" "totals_ok wlog ss'"
    and "send_inv (of_stream (st_id st) wlog) st'" "recv_inv (ss_server ss) st'"
    and "ss_recvOff ss' - ss_recvRead ss' - (st_recvHighest st' - st_recvRead st') =
      ss_recvOff ss - ss_recvRead ss - (st_recvHighest st - st_recvRead st)"
  shows "open_inv wlog ss' st'"
proof -
  note t = assms(2) [unfolded same_table_def] and o = assms(1) [unfolded open_inv_def]
  have sh: "shared_inv wlog ss'"
    using shared_inv_cong [of ss' ss wlog] o assms(4) t by (simp add: shared_inv_def)
  have si: "stream_inv wlog ss' sx = stream_inv wlog ss sx" for sx
    using t by (intro stream_inv_cong) simp_all
  have st: "stream_inv wlog ss' st'"
    unfolding si using o assms(3,5,6) by (simp add: stream_inv_def)
  have bal: "ss_recvOff ss' - ss_recvRead ss' =
      unread (AList.delete (st_id st') (ss_byId ss')) + (st_recvHighest st' - st_recvRead st')"
    using balance_shift [OF assms(7)] o t assms(3) by metis
  have "quicStreamFind ss' i = quicStreamFind ss i" for i using t by (simp add: quicStreamFind_def)
  then have "\<forall>i sx. i \<noteq> st_id st' \<longrightarrow> quicStreamFind ss' i = Some sx \<longrightarrow> st_id sx = i \<and> stream_inv wlog ss' sx"
    using o si assms(3) by metis
  with sh st bal show ?thesis unfolding open_inv_def by blast
qed

lemma open_parts:
  assumes "open_inv wlog ss st"
  shows "totals_ok wlog ss" "send_inv (of_stream (st_id st) wlog) st" "recv_inv (ss_server ss) st"
    "used ss (st_id st)" "shared_inv wlog ss"
  using assms by (simp_all add: open_inv_def stream_inv_def shared_inv_def)

lemma same_table_simps [simp]:
  "same_table ss ss" "same_table ss (ss\<lparr>ss_active := a\<rparr>)" "same_table ss (streamHook hook ev ss)"
  "same_table ss (streamsFail ss e ft)" "same_table ss (ss\<lparr>ss_sendOff := n\<rparr>)"
  "same_table ss (ss\<lparr>ss_recvOff := n\<rparr>)" "same_table ss (ss\<lparr>ss_recvRead := n\<rparr>)"
  "same_table ss (fst (streamArm ss st))" "same_table ss (connWindowUpdate ss)"
  by (simp_all add: same_table_def streamHook_def streamsFail_def streamArm_def connWindowUpdate_def Let_def)

lemma same_table_trans: "same_table a b \<Longrightarrow> same_table b c \<Longrightarrow> same_table a c"
  by (simp add: same_table_def)

text \<open>Notifications, errors and the active list touch no account.\<close>

lemma totals_simps [simp]:
  "totals_ok wlog (ss\<lparr>ss_active := a\<rparr>) = totals_ok wlog ss"
  "totals_ok wlog (streamHook hook ev ss) = totals_ok wlog ss"
  "totals_ok wlog (streamsFail ss e ft) = totals_ok wlog ss"
  "totals_ok wlog (fst (streamArm ss st)) = totals_ok wlog ss"
  "totals_ok wlog (ss\<lparr>ss_recvRead := n\<rparr>) = totals_ok wlog ss"
  by (simp_all add: totals_ok_def streamHook_def streamsFail_def streamArm_def)

lemma quiet_fields [simp]:
  "ss_recvOff (streamHook hook ev ss) = ss_recvOff ss" "ss_recvRead (streamHook hook ev ss) = ss_recvRead ss"
  "ss_recvOff (streamsFail ss e ft) = ss_recvOff ss" "ss_recvRead (streamsFail ss e ft) = ss_recvRead ss"
  "ss_recvOff (fst (streamArm ss st)) = ss_recvOff ss" "ss_recvRead (fst (streamArm ss st)) = ss_recvRead ss"
  "ss_server (streamHook hook ev ss) = ss_server ss" "ss_server (streamsFail ss e ft) = ss_server ss"
  "ss_recvOff (connWindowUpdate ss) = ss_recvOff ss" "ss_recvRead (connWindowUpdate ss) = ss_recvRead ss"
  by (simp_all add: streamHook_def streamsFail_def streamArm_def connWindowUpdate_def Let_def)

lemma connWindowUpdate_totals: "totals_ok wlog ss \<Longrightarrow> totals_ok wlog (connWindowUpdate ss)"
  by (auto simp: totals_ok_def connWindowUpdate_def Let_def)

text \<open>The parts of a stream that are only remembered.\<close>

lemma arm_keeps [simp]:
  "send_inv W (snd (streamArm ss st)) = send_inv W st" "recv_inv server (snd (streamArm ss st)) = recv_inv server st"
  "st_id (snd (streamArm ss st)) = st_id st" "st_recvHighest (snd (streamArm ss st)) = st_recvHighest st"
  "st_recvRead (snd (streamArm ss st)) = st_recvRead st"
  by (simp_all add: streamArm_def send_inv_def recv_inv_def)

lemma open_quiet:
  assumes "open_inv wlog ss st" "same_table ss ss'" "totals_ok wlog ss' = totals_ok wlog ss"
    "ss_recvOff ss' = ss_recvOff ss" "ss_recvRead ss' = ss_recvRead ss"
  shows "open_inv wlog ss' st"
  by (rule open_change [OF assms(1,2)]) (simp_all add: assms(3-5) open_parts [OF assms(1)])

lemma open_arm: "open_inv wlog ss st \<Longrightarrow> open_inv wlog (fst (streamArm ss st)) (snd (streamArm ss st))"
  by (rule open_change [of wlog ss st]) (simp_all add: open_parts)

lemma open_hook: "open_inv wlog ss st \<Longrightarrow> open_inv wlog (streamHook hook ev ss) st"
  by (rule open_quiet) simp_all

text \<open>A change of the sending half, and of the receiving half, of the stream that is out.\<close>

lemma open_send:
  assumes "open_inv wlog ss st" "send_inv (of_stream (st_id st) wlog) st'" "st_id st' = st_id st"
    "recv_inv (ss_server ss) st' = recv_inv (ss_server ss) st" "st_recvHighest st' = st_recvHighest st"
    "st_recvRead st' = st_recvRead st"
  shows "open_inv wlog ss st'"
  by (rule open_change [OF assms(1)]) (simp_all add: assms(2-) open_parts [OF assms(1)])

lemma open_recv:
  assumes "open_inv wlog ss st" "recv_inv (ss_server ss) st'" "st_id st' = st_id st"
    "send_inv (of_stream (st_id st) wlog) st' = send_inv (of_stream (st_id st) wlog) st"
    "st_recvHighest st' = st_recvHighest st" "st_recvRead st' = st_recvRead st"
  shows "open_inv wlog ss st'"
  by (rule open_change [OF assms(1)]) (simp_all add: assms(2-) open_parts [OF assms(1)])



section \<open>The receiving half\<close>

lemma reasm_raise_limit:
  "reasm_inv r \<Longrightarrow> ra_limit r \<le> l \<Longrightarrow> reasm_inv (r\<lparr>ra_limit := l\<rparr>)" "reasm_view (r\<lparr>ra_limit := l\<rparr>) = reasm_view r"
  by (auto simp: reasm_inv_def reasm_view_def fun_eq_iff split: option.splits)

lemma reasm_init:
  "reasm_inv (quicReasmInit l)" "reasm_view (quicReasmInit l) x = None" "ra_limit (quicReasmInit l) = l"
  "ra_base (quicReasmInit l) = 0" "ra_ranges (quicReasmInit l) = []"
  by (simp_all add: reasm_inv_def quicReasmInit_def reasm_view_def)

lemma recvAccount_open:
  assumes o: "open_inv wlog ss st" and a: "recvAccount ss st fend ft = (ok, ss', st')"
    and fin: "st_recvFinalKnown st \<longrightarrow> fend \<le> st_recvFinal st" and st: "st_recvState st \<noteq> QUIC_RECV_NONE"
  shows "open_inv wlog ss' st'" "st_id st' = st_id st" "ok \<longrightarrow> fend \<le> st_recvHighest st'"
    "st_recvState st' = st_recvState st" "st_recvFinal st' = st_recvFinal st"
    "st_recvFinalKnown st' = st_recvFinalKnown st" "st_in st' = st_in st"
proof -
  note p = open_parts [OF o]
  consider "ok" "fend \<le> st_recvHighest st" "ss' = ss" "st' = st"
    | "\<not> ok" "ss' = streamsFail ss QUIC_ERR_FLOW_CONTROL_ERROR ft" "st' = st"
    | "ok" "st_recvHighest st < fend" "fend \<le> ra_limit (st_in st)"
      "ss_recvOff ss + (fend - st_recvHighest st) \<le> ss_recvMax ss"
      "ss' = ss\<lparr>ss_recvOff := ss_recvOff ss + (fend - st_recvHighest st)\<rparr>" "st' = st\<lparr>st_recvHighest := fend\<rparr>"
    using a by (auto simp: recvAccount_def Let_def split: if_splits)
  then have "open_inv wlog ss' st' \<and> st_id st' = st_id st \<and> (ok \<longrightarrow> fend \<le> st_recvHighest st') \<and>
    st_recvState st' = st_recvState st \<and> st_recvFinal st' = st_recvFinal st \<and>
    st_recvFinalKnown st' = st_recvFinalKnown st \<and> st_in st' = st_in st"
  proof cases
    case 3
    have "recv_inv (ss_server ss) st'"
      using p(3) 3(2,3) fin st unfolding 3(6) recv_inv_def by (auto simp: less_imp_le intro: less_trans)
    moreover have "totals_ok wlog ss'" using p(1) 3(4) unfolding 3(5) by (simp add: totals_ok_def)
    moreover have "send_inv (of_stream (st_id st) wlog) st'" using p(2) unfolding 3(6) by (simp add: send_inv_def)
    ultimately have "open_inv wlog ss' st'"
      by (intro open_change [OF o]) (simp_all add: 3(5,6))
    with 3 show ?thesis by simp
  qed (use o open_quiet [OF o] in simp_all)
  then show "open_inv wlog ss' st'" "st_id st' = st_id st" "ok \<longrightarrow> fend \<le> st_recvHighest st'"
    "st_recvState st' = st_recvState st" "st_recvFinal st' = st_recvFinal st"
    "st_recvFinalKnown st' = st_recvFinalKnown st" "st_in st' = st_in st" by blast+
qed

lemma recvFinalSize_open:
  assumes o: "open_inv wlog ss st" and a: "recvFinalSize ss st fsize ft = (ok, ss', st')"
  shows "open_inv wlog ss' st'" "st_id st' = st_id st"
    "ok \<longrightarrow> st_recvFinalKnown st' \<and> st_recvFinal st' = fsize" "st_recvState st' = st_recvState st"
    "st_in st' = st_in st" "st_recvHighest st' = st_recvHighest st"
proof -
  note p = open_parts [OF o]
  consider "ok" "st_recvFinalKnown st" "st_recvFinal st = fsize" "ss' = ss" "st' = st"
    | "\<not> ok" "ss' = streamsFail ss QUIC_ERR_FINAL_SIZE_ERROR ft" "st' = st"
    | "ok" "\<not> st_recvFinalKnown st" "st_recvHighest st \<le> fsize" "ss' = ss"
      "st' = st\<lparr>st_recvFinal := fsize, st_recvFinalKnown := True\<rparr>"
    using a by (auto simp: recvFinalSize_def Let_def split: if_splits)
  then have "open_inv wlog ss' st' \<and> st_id st' = st_id st \<and> (ok \<longrightarrow> st_recvFinalKnown st' \<and> st_recvFinal st' = fsize) \<and>
    st_recvState st' = st_recvState st \<and> st_in st' = st_in st \<and> st_recvHighest st' = st_recvHighest st"
  proof cases
    case 3
    have "recv_inv (ss_server ss) st'" using p(3) 3(2,3) unfolding 3(5) recv_inv_def by auto
    then have "open_inv wlog ss st'" by (intro open_recv [OF o]) (simp_all add: 3(5) send_inv_def)
    with 3 show ?thesis by simp
  qed (use o open_quiet [OF o] in simp_all)
  then show "open_inv wlog ss' st'" "st_id st' = st_id st"
    "ok \<longrightarrow> st_recvFinalKnown st' \<and> st_recvFinal st' = fsize" "st_recvState st' = st_recvState st"
    "st_in st' = st_in st" "st_recvHighest st' = st_recvHighest st" by blast+
qed

text \<open>Storing bytes that are accounted for.\<close>

definition put_ok :: "QuicReasm \<Rightarrow> u64 \<Rightarrow> u8 list \<Rightarrow> QuicReasm \<Rightarrow> bool" where
  "put_ok r off data r' \<longleftrightarrow> reasm_inv r' \<and> ra_base r' = ra_base r \<and> ra_limit r' = ra_limit r \<and>
     (reasm_view r' = reasm_view r \<or> reasm_view r' = reasm_put (reasm_view r) (ra_base r) off data)"

lemma reasm_add_put:
  assumes "reasm_inv r" "length data < 2 ^ 64"
    "(if length data > 0 then quicReasmAdd xa r off data else (True, r)) = (ok, r')"
  shows "put_ok r off data r'"
proof (cases "length data > 0")
  case True
  with assms(3) have "quicReasmAdd xa r off data = (ok, r')" by simp
  from quicReasmAdd_ok [OF assms(1,2) this] show ?thesis by (cases ok) (auto simp: put_ok_def)
qed (use assms in \<open>simp add: put_ok_def\<close>)

lemma put_ok_view:
  assumes "put_ok r off data r'" "unat off + length data < 2 ^ 64" "reasm_view r' x \<noteq> None"
  shows "reasm_view r x \<noteq> None \<or> x < off + of_nat (length data)"
proof -
  have "unat (off + of_nat (length data)) = unat off + length data"
    using assms(2) by (simp add: unat_word_add unat_of_nat_small)
  then show ?thesis
    using assms(1,3) by (auto simp: put_ok_def reasm_put_def word_less_nat_alt word_le_nat_alt unat_word_sub split: if_splits)
qed

lemma put_ok_keeps: "put_ok r off data r' \<Longrightarrow> reasm_view r x \<noteq> None \<Longrightarrow> reasm_view r' x \<noteq> None"
  by (auto simp: put_ok_def reasm_put_def)

lemma recvStore_open:
  assumes o: "open_inv wlog ss st" and a: "recvStore xa ss st offset data ft = (ok, ss', st')"
    and len: "unat offset + length data < 2 ^ 64" and acc: "offset + of_nat (length data) \<le> st_recvHighest st"
    and live: "st_recvState st \<in> {QUIC_RECV_RECV, QUIC_RECV_SIZE_KNOWN, QUIC_RECV_DATA_RECVD}"
  shows "open_inv wlog ss' st'" "st_id st' = st_id st"
proof -
  note p = open_parts [OF o]
  obtain ok1 ra where r: "(if length data > 0 then quicReasmAdd xa (st_in st) offset data else (True, st_in st)) = (ok1, ra)"
    by (metis surj_pair)
  have "reasm_inv (st_in st)" using p(3) by (simp add: recv_inv_def)
  from reasm_add_put [OF this _ r] have put: "put_ok (st_in st) offset data ra" using len by simp
  have view: "x < st_recvHighest st" if "reasm_view ra x \<noteq> None" for x
    using put_ok_view [OF put len that] p(3) acc by (auto simp: recv_inv_def)
  let ?st1 = "st\<lparr>st_in := ra\<rparr>"
  have inv1: "recv_inv (ss_server ss) ?st1"
    using p(3) live put view put_ok_keeps [OF put] by (auto simp: recv_inv_def put_ok_def)
  define st2 where "st2 = (if st_recvFinalKnown ?st1 \<and> st_recvState ?st1 = QUIC_RECV_RECV
    then ?st1\<lparr>st_recvState := QUIC_RECV_SIZE_KNOWN\<rparr> else ?st1)"
  have inv2: "recv_inv (ss_server ss) st2" using inv1 by (auto simp: st2_def recv_inv_def)
  have base: "ra_base ra = st_recvRead st" using p(3) live put by (auto simp: recv_inv_def put_ok_def)
  have full: "reasm_view ra x \<noteq> None"
    if "ra_base ra + of_nat (quicReasmReadable ra) = fin" "st_recvRead st \<le> x" "x < fin" for x fin
  proof -
    define k where "k = unat (x - ra_base ra)"
    have "reasm_inv ra" using put by (simp add: put_ok_def)
    moreover have "k < quicReasmReadable ra"
    proof (rule ccontr)
      assume "\<not> k < quicReasmReadable ra"
      then have "quicReasmReadable ra \<le> unat (x - ra_base ra)" by (simp add: k_def)
      moreover have "unat (x - ra_base ra) = unat x - unat (ra_base ra)"
        using that(2) base by (simp add: unat_word_sub)
      ultimately have "unat (ra_base ra) + quicReasmReadable ra \<le> unat x"
        using that(2) base by (simp add: word_le_nat_alt)
      moreover have "unat x < 2 ^ 64" using unsigned_less [where 'a = nat, of x] by simp
      ultimately have "unat (ra_base ra + of_nat (quicReasmReadable ra)) \<le> unat x"
        by (simp add: unat_word_add unat_of_nat_small)
      then show False using that(1,3) by (simp add: word_less_nat_alt)
    qed
    ultimately have "reasm_view ra (ra_base ra + of_nat k) \<noteq> None" by (simp add: readable_view(1))
    then show ?thesis by (simp add: k_def)
  qed
  define st3 where "st3 = (if st_recvState st2 = QUIC_RECV_SIZE_KNOWN
      \<and> ra_base (st_in st2) + of_nat (quicReasmReadable (st_in st2)) = st_recvFinal st2
    then st2\<lparr>st_recvState := QUIC_RECV_DATA_RECVD\<rparr> else st2)"
  have f2: "st_in st2 = ra" "st_recvRead st2 = st_recvRead st" "st_recvFinal st2 = st_recvFinal st"
    by (simp_all add: st2_def)
  have inv3: "recv_inv (ss_server ss) st3"
    using inv2 full unfolding st3_def recv_inv_def by (auto simp: f2)
  have "open_inv wlog ss ?st1" by (rule open_recv [OF o inv1]) (simp_all add: send_inv_def)
  moreover have "open_inv wlog ss st3"
    by (rule open_recv [OF o inv3]) (simp_all add: st3_def st2_def send_inv_def)
  moreover have "st_id st3 = st_id st" by (simp add: st3_def st2_def)
  moreover have "(ss' = streamsFail ss QUIC_ERR_INTERNAL ft \<and> st' = ?st1) \<or>
      ((ss' = ss \<or> ss' = recvNotify ss st3) \<and> st' = st3)"
    using a unfolding recvStore_def r prod.case Let_def st2_def [symmetric] st3_def [symmetric]
    by (auto split: if_splits)
  ultimately show "open_inv wlog ss' st'" "st_id st' = st_id st"
    using open_quiet by (auto simp: recvNotify_def)
qed


text \<open>A reset: everything up to the final size is accounted for and given back.\<close>

lemma recvReset_open:
  assumes o: "open_inv wlog ss st" and fin: "st_recvFinalKnown st" "st_recvFinal st = st_recvHighest st"
    and live: "st_recvState st \<noteq> QUIC_RECV_NONE"
    and a: "recvRelease ss (st\<lparr>st_recvState := QUIC_RECV_RESET,
      st_in := quicReasmInit (ra_limit (st_in st))\<rparr>) (st_recvFinal st) = (ss', st')"
  shows "open_inv wlog ss' st'" "st_id st' = st_id st"
proof -
  note p = open_parts [OF o]
  have le: "st_recvRead st \<le> st_recvHighest st" using p(3) by (simp add: recv_inv_def)
  let ?st = "st\<lparr>st_recvState := QUIC_RECV_RESET, st_in := quicReasmInit (ra_limit (st_in st))\<rparr>"
  let ?ss = "ss\<lparr>ss_recvRead := ss_recvRead ss + (st_recvFinal st - st_recvRead st)\<rparr>"
  have inv: "recv_inv (ss_server ss) (?st\<lparr>st_recvRead := st_recvFinal st\<rparr>)"
    "st_recvRead st = st_recvFinal st \<longrightarrow> recv_inv (ss_server ss) ?st"
    using p(3) fin live by (simp_all add: recv_inv_def reasm_init)
  have "open_inv wlog ss' st' \<and> st_id st' = st_id st"
  proof (cases "st_recvFinal st \<le> st_recvRead st")
    case True
    then have eq: "st_recvRead st = st_recvFinal st" "ss' = ss" "st' = ?st"
      using a le fin by (simp_all add: recvRelease_def)
    show ?thesis unfolding eq(2,3)
      using open_recv [OF o, of ?st] inv(2) eq(1) by (simp add: send_inv_def)
  next
    case False
    then have eq: "ss' = connWindowUpdate ?ss" "st' = ?st\<lparr>st_recvRead := st_recvFinal st\<rparr>"
      using a by (simp_all add: recvRelease_def)
    have "same_table ss ss'" unfolding eq by (rule same_table_trans [of _ ?ss]) simp_all
    moreover have "totals_ok wlog ss'" unfolding eq by (rule connWindowUpdate_totals) (simp add: p(1))
    moreover have "send_inv (of_stream (st_id st) wlog) st'" using p(2) by (simp add: eq send_inv_def)
    moreover have "ss_recvOff ss' - ss_recvRead ss' - (st_recvHighest st' - st_recvRead st') =
        ss_recvOff ss - ss_recvRead ss - (st_recvHighest st - st_recvRead st)"
      by (simp add: eq fin(2))
    ultimately show ?thesis using open_change [OF o, of ss' st'] inv(1) by (simp add: eq)
  qed
  then show "open_inv wlog ss' st'" "st_id st' = st_id st" by blast+
qed

lemma recvWindowUpdate_open:
  assumes o: "open_inv wlog ss st"
  shows "open_inv wlog (fst (recvWindowUpdate ss st)) (snd (recvWindowUpdate ss st))"
    "st_id (snd (recvWindowUpdate ss st)) = st_id st"
    "st_recvState (snd (recvWindowUpdate ss st)) = st_recvState st"
proof -
  note p = open_parts [OF o]
  let ?st = "st\<lparr>st_in := (st_in st)\<lparr>ra_limit := st_recvRead st + st_recvWindow st\<rparr>,
    st_maxData := quicCtlQueue (st_maxData st)\<rparr>"
  have "open_inv wlog ss ?st" if "ra_limit (st_in st) < st_recvRead st + st_recvWindow st"
  proof (rule open_recv [OF o])
    show "recv_inv (ss_server ss) ?st"
      using p(3) that by (auto simp: recv_inv_def reasm_raise_limit less_imp_le)
  qed (simp_all add: send_inv_def)
  then show "open_inv wlog (fst (recvWindowUpdate ss st)) (snd (recvWindowUpdate ss st))"
    using o open_arm [of wlog ss ?st] by (auto simp: recvWindowUpdate_def Let_def linorder_not_le)
  show "st_id (snd (recvWindowUpdate ss st)) = st_id st"
    "st_recvState (snd (recvWindowUpdate ss st)) = st_recvState st"
    by (simp_all add: recvWindowUpdate_def Let_def streamArm_def)
qed

text \<open>Taking bytes out, and what the reader gets.\<close>

lemma recvTake_open:
  assumes o: "open_inv wlog ss st" and n: "n \<le> quicReasmReadable (st_in st)"
    and live: "st_recvState st \<notin> {QUIC_RECV_RESET, QUIC_RECV_RESET_READ}"
    and a: "recvTake ss st n = (out, ss', st')"
  shows "open_inv wlog ss' st'" "st_id st' = st_id st" "st_recvState st' = st_recvState st"
proof -
  note p = open_parts [OF o]
  have "open_inv wlog ss' st' \<and> st_id st' = st_id st \<and> st_recvState st' = st_recvState st"
  proof (cases "n = 0")
    case True
    with a o show ?thesis by (simp add: recvTake_def)
  next
    case False
    then have lt: "0 < n" by simp
    have inv: "reasm_inv (st_in st)" and base: "ra_base (st_in st) = st_recvRead st"
      using p(3) live by (auto simp: recv_inv_def)
    note c = quicReasmConsume_ok [OF inv n lt]
    have cb: "ra_base (quicReasmConsume (st_in st) n) = st_recvRead st + of_nat n"
      "ra_limit (quicReasmConsume (st_in st) n) = ra_limit (st_in st)"
      using False base by (simp_all add: quicReasmConsume_def Let_def)
    let ?x = "st_recvRead st + of_nat (n - 1)"
    have "reasm_view (st_in st) ?x \<noteq> None" "unat ?x = unat (st_recvRead st) + (n - 1)"
      using readable_view(1,4) [OF inv, of "n - 1"] n lt base by auto
    then have hi: "st_recvRead st + of_nat n \<le> st_recvHighest st"
      using p(3) c(2) lt base by (auto simp: recv_inv_def word_le_nat_alt word_less_nat_alt)
    have ge: "st_recvRead st \<le> st_recvRead st + of_nat n" using c(2) base by (simp add: word_le_nat_alt)
    let ?st = "st\<lparr>st_in := quicReasmConsume (st_in st) n, st_recvRead := st_recvRead st + of_nat n\<rparr>"
    let ?ss = "ss\<lparr>ss_recvRead := ss_recvRead ss + of_nat n\<rparr>"
    have "recv_inv (ss_server ss) ?st"
    proof -
      have "st_recvRead st + of_nat n = st_recvFinal st" if "st_recvState st = QUIC_RECV_DATA_READ"
        using p(3) that hi ge by (auto simp: recv_inv_def)
      then show ?thesis
        using p(3) live hi ge c(1,3) base by (auto simp: recv_inv_def cb linorder_not_less intro: order_trans)
    qed
    moreover have "send_inv (of_stream (st_id st) wlog) ?st" using p(2) by (simp add: send_inv_def)
    ultimately have 1: "open_inv wlog ?ss ?st"
      by (intro open_change [OF o]) (simp_all add: p(1))
    have eq: "ss' = connWindowUpdate (fst (recvWindowUpdate ?ss ?st))" "st' = snd (recvWindowUpdate ?ss ?st)"
      using a False by (simp_all add: recvTake_def Let_def split: prod.splits)
    note w = recvWindowUpdate_open [OF 1]
    have "open_inv wlog ss' st'"
      unfolding eq
      by (rule open_change [OF w(1)])
        (simp_all add: open_parts [OF w(1)] connWindowUpdate_totals)
    with w(2,3) show ?thesis by (simp add: eq)
  qed
  then show "open_inv wlog ss' st'" "st_id st' = st_id st" "st_recvState st' = st_recvState st" by blast+
qed


section \<open>Making and forgetting streams\<close>

lemma grant_inv:
  assumes "streams_inv wlog ss"
  shows "streams_inv wlog (streamsGrantMore ss dir)"
proof -
  let ?ss = "streamsGrantMore ss dir"
  have f: "ss_byId ?ss = ss_byId ss" "ss_server ?ss = ss_server ss" "ss_nextLocal ?ss = ss_nextLocal ss"
    "ss_nextRemote ?ss = ss_nextRemote ss" "ss_recvOff ?ss = ss_recvOff ss" "ss_recvRead ?ss = ss_recvRead ss"
    by (simp_all add: streamsGrantMore_def)
  have step: "x + 1 \<le> push_bit 60 1 \<and> x \<le> x + 1" if "\<not> push_bit 60 1 \<le> x" for x :: u64
    using that by (auto simp: word_le_nat_alt word_less_nat_alt unat_word_add)
  have "counts_ok ss" using assms unfolding streams_inv_def shared_inv_def by blast
  then have "counts_ok ?ss"
    using step order_trans [of _ "ss_recvMaxStreams ss dir"] by (auto simp: streamsGrantMore_def counts_ok_def)
  moreover have "totals_ok wlog ?ss = totals_ok wlog ss" by (rule totals_cong) (simp_all add: streamsGrantMore_def)
  moreover have u: "stream_inv wlog ?ss st = stream_inv wlog ss st" "used ?ss i = used ss i" for st i
    by (rule stream_inv_cong used_cong; simp add: f)+
  moreover have "shared_inv wlog ss" using assms by (simp only: streams_inv_def)
  ultimately have "shared_inv wlog ?ss" using f by (simp add: shared_inv_def)
  moreover have "quicStreamFind ?ss i = quicStreamFind ss i" for i by (simp add: quicStreamFind_def f)
  ultimately show ?thesis using assms u(1) unfolding streams_inv_def f by metis
qed

lemma settle_inv:
  assumes "open_inv wlog ss st"
  shows "streams_inv wlog (streamSettle ss st)"
proof -
  have "open_inv wlog (streamHook ShClosed (SeClosed (st_id st)) ss) st"
    by (rule open_quiet [OF assms]) simp_all
  then have "streams_inv wlog (streamFree (streamHook ShClosed (SeClosed (st_id st)) ss) st)" if "recvHalfDone st"
    using free_stream that by blast
  then show ?thesis
    using close_stream [OF assms] grant_inv by (auto simp: streamSettle_def Let_def)
qed


text \<open>A new stream starts with empty halves.\<close>

lemma create_stream:
  assumes "totals_ok wlog ss"
  shows "st_id (snd (streamCreate ss i)) = i" "fst (streamCreate ss i) = setStream ss (snd (streamCreate ss i))"
    "send_inv [] (snd (streamCreate ss i))" "recv_inv (ss_server ss) (snd (streamCreate ss i))"
    "st_recvHighest (snd (streamCreate ss i)) = 0" "st_recvRead (snd (streamCreate ss i)) = 0"
proof -
  have z: "varint_ok 0" by (simp add: varint_ok_def QUIC_MAX_PACKET_NUMBER_def)
  have sb: "sb_inv quicSendBufInit" "sb_bytes quicSendBufInit = []" "sb_end quicSendBufInit = 0"
    "sb_base quicSendBufInit = 0"
    by (simp_all add: sb_inv_def quicSendBufInit_def buf_holds_def sb_bytes_def buf_bytes_def)
  show "st_id (snd (streamCreate ss i)) = i" "fst (streamCreate ss i) = setStream ss (snd (streamCreate ss i))"
    "st_recvHighest (snd (streamCreate ss i)) = 0" "st_recvRead (snd (streamCreate ss i)) = 0"
    by (simp_all add: streamCreate_def streamZero_def Let_def)
  show "send_inv [] (snd (streamCreate ss i))"
    using assms z by (simp add: streamCreate_def streamZero_def Let_def send_inv_def sb ctlIdle_def totals_ok_def)
  show "recv_inv (ss_server ss) (snd (streamCreate ss i))"
    by (simp add: streamCreate_def streamZero_def Let_def recv_inv_def reasm_init)
qed

lemma create_inv:
  assumes inv: "streams_inv wlog ss" and new: "\<not> used ss i"
    and ss': "ss_byId ss' = ss_byId (fst (streamCreate ss i))" "ss_server ss' = ss_server ss"
      "ss_recvOff ss' = ss_recvOff ss" "ss_recvRead ss' = ss_recvRead ss"
    and tot: "totals_ok wlog ss'" and cnt: "counts_ok ss'" and used: "\<And>j. used ss j \<Longrightarrow> used ss' j" "used ss' i"
  shows "streams_inv wlog ss'"
proof -
  have sh: "shared_inv wlog ss" and bal: "ss_recvOff ss - ss_recvRead ss = unread (ss_byId ss)"
    and all: "\<And>j st. quicStreamFind ss j = Some st \<Longrightarrow> st_id st = j \<and> stream_inv wlog ss st"
    using inv unfolding streams_inv_def by blast+
  define st where "st = snd (streamCreate ss i)"
  have "totals_ok wlog ss" using sh by (simp add: shared_inv_def)
  note c = create_stream [OF this, of i, folded st_def]
  have tab: "ss_byId ss' = AList.update i st (ss_byId ss)" by (simp add: ss'(1) c(2) setStream_def c(1))
  have none: "quicStreamFind ss i = None" using all [of i] new by (cases "quicStreamFind ss i") (auto simp: stream_inv_def)
  have nil: "of_stream i wlog = []" using sh new by (auto simp: shared_inv_def)
  have d: "distinct (map fst (ss_byId ss'))" using sh by (simp add: tab shared_inv_def distinct_update)
  have "AList.delete i (ss_byId ss) = ss_byId ss"
    using none by (intro delete_fresh) (simp add: quicStreamFind_def map_of_eq_None_iff)
  then have "unread (ss_byId ss') = unread (ss_byId ss)"
    using unread_take [OF d, of i st] by (simp add: tab update_conv' delete_update c(5,6))
  then have bal': "ss_recvOff ss' - ss_recvRead ss' = unread (ss_byId ss')" using bal ss'(3,4) by simp
  have sh': "shared_inv wlog ss'" using sh d tot cnt used by (auto simp: shared_inv_def)
  have "st_id sx = j \<and> stream_inv wlog ss' sx" if "quicStreamFind ss' j = Some sx" for j sx
  proof (cases "j = i")
    case True
    with that have "sx = st" by (simp add: quicStreamFind_def tab update_conv')
    with True c used(2) ss'(2) nil show ?thesis by (simp add: stream_inv_def)
  next
    case False
    with that have "quicStreamFind ss j = Some sx" by (simp add: quicStreamFind_def tab update_conv')
    from all [OF this] used(1) [of j] ss'(2) show ?thesis by (auto simp: stream_inv_def)
  qed
  with sh' bal' show ?thesis unfolding streams_inv_def by blast
qed

lemma next_index:
  assumes "x < lim" "lim \<le> push_bit 60 1"
  shows "unat (x :: u64) < 2 ^ 62" "x + 1 \<le> lim" "y < x \<Longrightarrow> y < x + 1" "x < x + 1"
proof -
  have "unat x < 2 ^ 60" using assms by (simp add: word_le_nat_alt word_less_nat_alt)
  then have "unat (x + 1) = unat x + 1" by (simp add: unat_word_add)
  with assms \<open>unat x < 2 ^ 60\<close>
  show "unat x < 2 ^ 62" "x + 1 \<le> lim" "y < x \<Longrightarrow> y < x + 1" "x < x + 1"
    by (simp_all add: word_le_nat_alt word_less_nat_alt)
qed

lemma dir_makeId: "unat n < 2 ^ 62 \<Longrightarrow> quicStreamDir (quicStreamMakeId n server uni) =
    (if uni then QUIC_SDIR_UNI else QUIC_SDIR_BIDI)"
  by (simp add: quicStreamDir_def makeId_fields(2))

text \<open>A stream this endpoint opens, and one the peer does.\<close>

lemma open_new:
  assumes inv: "streams_inv wlog ss" and dir: "dir = (if uni then QUIC_SDIR_UNI else QUIC_SDIR_BIDI)"
    and lim: "ss_nextLocal ss dir < ss_sendMaxStreams ss dir"
  defines "i \<equiv> quicStreamMakeId (ss_nextLocal ss dir) (ss_server ss) uni"
  defines "ss1 \<equiv> fst (streamCreate ss i)"
  shows "streams_inv wlog (ss1\<lparr>ss_nextLocal := (ss_nextLocal ss1)(dir := ss_nextLocal ss1 dir + 1)\<rparr>)"
    "\<not> used ss i"
proof -
  have c: "counts_ok ss" and t: "totals_ok wlog ss"
    using inv unfolding streams_inv_def shared_inv_def by blast+
  have l2: "ss_sendMaxStreams ss dir \<le> push_bit 60 1" using c by (simp add: counts_ok_def)
  note n = next_index [OF lim l2]
  note m = makeId_fields [OF n(1), of "ss_server ss" uni, folded i_def] and d = dir_makeId [OF n(1), of "ss_server ss" uni, folded i_def dir]
  show fresh: "\<not> used ss i" by (simp add: used_def m d)
  have s1: "ss1 = setStream ss (snd (streamCreate ss i))" using create_stream(2) [OF t] by (simp add: ss1_def)
  let ?ss = "ss1\<lparr>ss_nextLocal := (ss_nextLocal ss1)(dir := ss_nextLocal ss1 dir + 1)\<rparr>"
  show "streams_inv wlog ?ss"
  proof (rule create_inv [OF inv fresh])
    show "totals_ok wlog ?ss" using t by (simp add: totals_ok_def s1)
    show "counts_ok ?ss" using c n(2) by (simp add: counts_ok_def s1)
    show "used ?ss i" by (simp add: used_def m d s1 n(4))
    show "used ?ss j" if "used ss j" for j using that n(3) by (auto simp: used_def s1 split: if_splits)
  qed (simp_all add: ss1_def [symmetric], simp_all add: s1)
qed

lemma admit_new:
  assumes inv: "streams_inv wlog ss" and uni: "uni = (dir = QUIC_SDIR_UNI)"
    and lim: "n < ss_recvMaxStreams ss dir" and nx: "ss_nextRemote ss dir = n"
  defines "i \<equiv> quicStreamMakeId n (\<not> ss_server ss) uni"
  defines "ss1 \<equiv> fst (streamCreate ss i)"
  shows "streams_inv wlog (ss1\<lparr>ss_nextRemote := (ss_nextRemote ss1)(dir := n + 1)\<rparr>)"
proof -
  have c: "counts_ok ss" and t: "totals_ok wlog ss"
    using inv unfolding streams_inv_def shared_inv_def by blast+
  have l2: "ss_recvMaxStreams ss dir \<le> push_bit 60 1" using c by (simp add: counts_ok_def)
  note n = next_index [OF lim l2]
  have dd: "dir = (if uni then QUIC_SDIR_UNI else QUIC_SDIR_BIDI)" using uni by (cases dir) auto
  note m = makeId_fields [OF n(1), of "\<not> ss_server ss" uni, folded i_def]
    and d = dir_makeId [OF n(1), of "\<not> ss_server ss" uni, folded i_def dd]
  have fresh: "\<not> used ss i" by (simp add: used_def m d nx)
  have s1: "ss1 = setStream ss (snd (streamCreate ss i))" using create_stream(2) [OF t] by (simp add: ss1_def)
  let ?ss = "ss1\<lparr>ss_nextRemote := (ss_nextRemote ss1)(dir := n + 1)\<rparr>"
  show "streams_inv wlog ?ss"
  proof (rule create_inv [OF inv fresh])
    show "totals_ok wlog ?ss" using t by (simp add: totals_ok_def s1)
    show "counts_ok ?ss" using c n(2) by (simp add: counts_ok_def s1)
    show "used ?ss i" by (simp add: used_def m d s1 n(4))
    show "used ?ss j" if "used ss j" for j using that n(3) nx by (auto simp: used_def s1 split: if_splits)
  qed (simp_all add: ss1_def [symmetric], simp_all add: s1)
qed


lemma quiet_inv:
  assumes "streams_inv wlog ss" "same_table ss ss'" "totals_ok wlog ss' = totals_ok wlog ss"
    "ss_recvOff ss' = ss_recvOff ss" "ss_recvRead ss' = ss_recvRead ss"
  shows "streams_inv wlog ss'"
proof -
  note t = assms(2) [unfolded same_table_def]
  have "shared_inv wlog ss" using assms(1) by (simp only: streams_inv_def)
  then have "shared_inv wlog ss'"
    using shared_inv_cong [of ss' ss wlog] t assms(3) by (simp add: shared_inv_def)
  moreover have "stream_inv wlog ss' st = stream_inv wlog ss st" for st using t by (intro stream_inv_cong) simp_all
  moreover have "quicStreamFind ss' i = quicStreamFind ss i" for i using t by (simp add: quicStreamFind_def)
  ultimately show ?thesis using assms(1,4,5) t unfolding streams_inv_def by metis
qed

lemma fail_inv [simp]: "streams_inv wlog ss \<Longrightarrow> streams_inv wlog (streamsFail ss e ft)"
  by (rule quiet_inv) simp_all

lemma hook_inv [simp]: "streams_inv wlog ss \<Longrightarrow> streams_inv wlog (streamHook hook ev ss)"
  by (rule quiet_inv) simp_all

lemma admitEach_inv:
  assumes "streams_inv wlog ss" "unat (ss_nextRemote ss dir) = n" "m \<le> unat (ss_recvMaxStreams ss dir)"
  shows "streams_inv wlog (snd (admitEach opened dir ft (map of_nat [n..<m]) ss))"
  using assms
proof (induction "m - n" arbitrary: n ss)
  case 0
  then show ?case by simp
next
  case (Suc k)
  then have lt: "n < m" by simp
  let ?x = "of_nat n :: u64"
  have x: "?x = ss_nextRemote ss dir" using Suc.prems(2) by auto
  let ?i = "quicStreamMakeId ?x (\<not> ss_server ss) (dir = QUIC_SDIR_UNI)"
  define ss1 where "ss1 = fst (streamCreate ss ?i)"
  define ss2 where "ss2 = ss1\<lparr>ss_nextRemote := (ss_nextRemote ss1)(dir := ?x + 1)\<rparr>"
  define ss3 where "ss3 = streamHook ShOpened (SeOpened ?i) ss2"
  have t: "totals_ok wlog ss" using Suc.prems(1) unfolding streams_inv_def shared_inv_def by blast
  have lim: "?x < ss_recvMaxStreams ss dir" using lt Suc.prems(2,3) by (simp add: x word_less_nat_alt)
  have i2: "streams_inv wlog ss2"
    unfolding ss2_def ss1_def by (rule admit_new [OF Suc.prems(1) refl lim]) (simp add: x)
  then have i3: "streams_inv wlog ss3" by (simp add: ss3_def)
  have "unat (ss_recvMaxStreams ss dir) < 2 ^ 64" using unsigned_less [where 'a = nat, of "ss_recvMaxStreams ss dir"] by simp
  then have nx: "unat (ss_nextRemote ss3 dir) = Suc n"
    using lt Suc.prems(2,3) by (simp add: ss3_def ss2_def streamHook_def x unat_word_add)
  have rm: "ss_recvMaxStreams ss3 = ss_recvMaxStreams ss"
    using create_stream(2) [OF t, of ?i] by (simp add: ss3_def ss2_def ss1_def streamHook_def)
  have step: "admitEach opened dir ft (map of_nat [n..<m]) ss =
    (if ss_hooks ss2 ShOpened \<and> \<not> opened (ss_events ss3)
     then (False, streamsFail ss3 QUIC_ERR_STREAM_LIMIT ft)
     else admitEach opened dir ft (map of_nat [Suc n..<m]) ss3)"
    using lt create_stream(1) [OF t, of ?i]
    by (simp add: upt_conv_Cons ss3_def ss2_def ss1_def Let_def case_prod_beta)
  show ?case
    unfolding step using i3 Suc.hyps(1) [of "Suc n" ss3] Suc.hyps(2) nx rm Suc.prems(3) by simp
qed

lemma streamAdmit_inv:
  assumes "streams_inv wlog ss"
  shows "streams_inv wlog (snd (streamAdmit opened ss i ft))"
proof -
  have "streams_inv wlog (snd (admitEach opened dir ft (map of_nat [unat (ss_nextRemote ss dir)..<Suc (unat idx)]) ss))"
    if "\<not> idx \<ge> ss_recvMaxStreams ss dir" for dir idx
    by (rule admitEach_inv [OF assms refl]) (use that in \<open>simp add: word_le_nat_alt\<close>)
  then show ?thesis using assms by (simp add: streamAdmit_def Let_def)
qed

lemma streamForFrame_inv:
  assumes inv: "streams_inv wlog ss" and f: "streamForFrame opened ss i ft = (so, ignore, ss1)"
  shows "streams_inv wlog ss1" "so = Some st \<Longrightarrow> open_inv wlog ss1 st \<and> st_id st = i"
proof -
  have "streams_inv wlog ss1 \<and> (so = Some st \<longrightarrow> quicStreamFind ss1 i = Some st)"
    using f streamAdmit_inv [OF inv, of opened i ft] inv
    by (auto simp: streamForFrame_def split: option.splits prod.splits bool.splits)
  then show "streams_inv wlog ss1" "so = Some st \<Longrightarrow> open_inv wlog ss1 st \<and> st_id st = i"
    using open_stream by blast+
qed

lemma streamCreate_server [simp]: "ss_server (fst (streamCreate ss i)) = ss_server ss"
  by (simp add: streamCreate_def Let_def case_prod_beta)

lemma admitEach_server: "ss_server (snd (admitEach opened dir ft is ss)) = ss_server ss"
  by (induction "is" arbitrary: ss) (simp_all add: Let_def case_prod_beta)

lemma streamForFrame_server:
  assumes "streamForFrame opened ss i ft = (so, ig, ss1)"
  shows "ss_server ss1 = ss_server ss"
proof -
  have "ss_server (snd (streamAdmit opened ss i ft)) = ss_server ss"
    by (simp add: streamAdmit_def Let_def admitEach_server)
  with assms show ?thesis by (auto simp: streamForFrame_def split: option.splits prod.splits bool.splits)
qed

lemma recv_side: "open_inv wlog ss st \<Longrightarrow> canRecv ss (st_id st) \<Longrightarrow> st_recvState st \<noteq> QUIC_RECV_NONE"
  using open_parts(3) [of wlog ss st] by (auto simp: recv_inv_def canRecv_def)


section \<open>Frames about the receiving half\<close>

lemma offset_len:
  assumes "frameOffsetOk off (of_nat (length d))" "string_ok d"
  shows "unat off + length d \<le> 2 ^ 62"
proof -
  have d: "length d < 2 ^ 62" using assms(2) by (simp add: string_ok_def)
  then have "unat (of_nat (length d) :: u64) = length d" by (simp add: unat_of_nat_small)
  then show ?thesis
    using assms(1) by (auto simp: frameOffsetOk_def QUIC_MAX_PACKET_NUMBER_def word_le_nat_alt word_less_nat_alt unat_word_sub)
qed

lemma handleStreamData_inv:
  assumes inv: "streams_inv wlog ss" and off: "frameOffsetOk offset (of_nat (length data))" "string_ok data"
  shows "streams_inv wlog (snd (handleStreamData xa opened ss i offset data fin ft))"
proof (cases "canRecv ss i")
  case False
  then show ?thesis using inv by (simp add: handleStreamData_def)
next
  case True
  obtain so ig ss1 where f: "streamForFrame opened ss i ft = (so, ig, ss1)" by (metis prod_cases3)
  note s1 = streamForFrame_inv [OF inv f]
  show ?thesis
  proof (cases so)
    case None
    then show ?thesis using True f s1(1) by (simp add: handleStreamData_def)
  next
    case (Some st)
    have o: "open_inv wlog ss1 st" and i: "st_id st = i" using s1(2) Some by blast+
    let ?e = "offset + of_nat (length data)"
    show ?thesis
    proof (cases "st_recvFinalKnown st \<and> (?e > st_recvFinal st \<or> (fin \<and> ?e \<noteq> st_recvFinal st))")
      case bad: True
      then show ?thesis using True f Some s1(1) by (simp add: handleStreamData_def Let_def)
    next
      case fits: False
      obtain ok2 ss2 st2 where g: "(if fin then recvFinalSize ss1 st ?e ft else (True, ss1, st)) = (ok2, ss2, st2)"
        by (metis prod_cases3)
      have o2: "open_inv wlog ss2 st2" "st_id st2 = i"
        and e2: "ok2 \<longrightarrow> st_recvFinalKnown st2 \<longrightarrow> ?e \<le> st_recvFinal st2"
        using g recvFinalSize_open [OF o, of ?e ft ok2 ss2 st2] o i fits by (auto split: if_splits)
      obtain ok3 ss3 st3 where h: "recvAccount ss2 st2 ?e ft = (ok3, ss3, st3)" by (metis prod_cases3)
      have r2: "st_recvState st2 \<noteq> QUIC_RECV_NONE"
        using recv_side [OF o] True i g recvFinalSize_open(4) [OF o, of ?e ft ok2 ss2 st2] streamForFrame_server [OF f]
        by (auto simp: canRecv_def split: if_splits)
      have res: "handleStreamData xa opened ss i offset data fin ft =
        (if \<not> ok2 then (False, setStream ss2 st2) else if \<not> ok3 then (False, setStream ss3 st3)
         else if st_recvState st3 \<in> {QUIC_RECV_RESET, QUIC_RECV_RESET_READ, QUIC_RECV_DATA_READ}
         then (True, setStream ss3 st3)
         else case recvStore xa ss3 st3 offset data ft of (ok, ss4, st4) \<Rightarrow> (ok, setStream ss4 st4))"
        using True f Some fits g h by (auto simp: handleStreamData_def Let_def split: bool.splits)
      have 3: "open_inv wlog ss3 st3 \<and> ?e \<le> st_recvHighest st3 \<and> st_recvState st3 = st_recvState st2" if ok2 ok3
        using recvAccount_open(1,3,4) [OF o2(1) h _ r2] e2 that by auto
      have 4: "open_inv wlog ss3 st3" if ok2
        using recvAccount_open(1) [OF o2(1) h _ r2] e2 that by auto
      have len: "unat offset + length data < 2 ^ 64"
        using offset_len [OF off] by simp
      have "streams_inv wlog (setStream ss4 st4)"
        if "ok2" "ok3" "st_recvState st3 \<notin> {QUIC_RECV_RESET, QUIC_RECV_RESET_READ, QUIC_RECV_DATA_READ}"
          "recvStore xa ss3 st3 offset data ft = (ok, ss4, st4)" for ok ss4 st4
      proof -
        have "st_recvState st3 \<in> {QUIC_RECV_RECV, QUIC_RECV_SIZE_KNOWN, QUIC_RECV_DATA_RECVD}"
          using 3 [OF that(1,2)] that(3) r2 by (cases "st_recvState st3") auto
        with recvStore_open(1) [OF _ that(4) len] 3 [OF that(1,2)] show ?thesis using close_stream by blast
      qed
      then show ?thesis
        unfolding res using close_stream o2(1) 4 by (auto split: prod.split)
    qed
  qed
qed


lemma handleResetStream_inv:
  assumes inv: "streams_inv wlog ss"
  shows "streams_inv wlog (snd (handleResetStream opened ss i err fsize ft))"
proof (cases "canRecv ss i")
  case False
  then show ?thesis using inv by (simp add: handleResetStream_def)
next
  case True
  obtain so ig ss1 where f: "streamForFrame opened ss i ft = (so, ig, ss1)" by (metis prod_cases3)
  note s1 = streamForFrame_inv [OF inv f]
  show ?thesis
  proof (cases so)
    case None
    then show ?thesis using True f s1(1) by (simp add: handleResetStream_def)
  next
    case (Some st)
    have o: "open_inv wlog ss1 st" and i: "st_id st = i" using s1(2) Some by blast+
    obtain ok2 ss2 st2 where g: "recvFinalSize ss1 st fsize ft = (ok2, ss2, st2)" by (metis prod_cases3)
    note o2 = recvFinalSize_open [OF o g]
    obtain ok3 ss3 st3 where h: "recvAccount ss2 st2 (st_recvFinal st2) ft = (ok3, ss3, st3)" by (metis prod_cases3)
    have r2: "st_recvState st2 \<noteq> QUIC_RECV_NONE"
      using recv_side [OF o] True i o2(4) streamForFrame_server [OF f] by (simp add: canRecv_def)
    note o3 = recvAccount_open [OF o2(1) h _ r2, simplified]
    define st' where "st' = st3\<lparr>st_recvState := QUIC_RECV_RESET, st_in := quicReasmInit (ra_limit (st_in st3))\<rparr>"
    obtain ss4 st4 where r: "recvRelease ss3 st' (st_recvFinal st3) = (ss4, st4)" by (metis surj_pair)
    have res: "handleResetStream opened ss i err fsize ft =
      (if \<not> ok2 then (False, setStream ss2 st2)
       else if st_recvState st2 = QUIC_RECV_RESET \<or> st_recvState st2 = QUIC_RECV_RESET_READ
       then (True, setStream ss2 st2)
       else if \<not> ok3 then (False, setStream ss3 st3)
       else (True, setStream (recvNotify (streamHook ShReset (SeReset i err) ss4) st4) st4))"
      using True f Some g h r unfolding st'_def by (cases ok2; cases ok3; simp add: handleResetStream_def)
    have "open_inv wlog ss4 st4" if ok2 ok3
    proof (rule recvReset_open [OF o3(1) _ _ _ r [unfolded st'_def]])
      show "st_recvFinalKnown st3" "st_recvState st3 \<noteq> QUIC_RECV_NONE" using o2(3) o3(4,6) that r2 by auto
      have "st_recvHighest st3 \<le> st_recvFinal st3"
        using open_parts(3) [OF o3(1)] o2(3) o3(6) that by (simp add: recv_inv_def)
      then show "st_recvFinal st3 = st_recvHighest st3" using o3(3,5) that by simp
    qed
    then have "streams_inv wlog (setStream (recvNotify (streamHook ShReset (SeReset i err) ss4) st4) st4)" if ok2 ok3
      unfolding recvNotify_def by (intro close_stream open_hook) (use that in simp)
    then show ?thesis
      unfolding res using close_stream [OF o2(1)] close_stream [OF o3(1)] by (simp split: if_split)
  qed
qed


section \<open>The sending half\<close>

text \<open>Waiting, waking and complaining change nothing that is sent.\<close>

lemma sendWait_keeps [simp]:
  "send_inv W (sendWait ss st want room) = send_inv W st" "recv_inv server (sendWait ss st want room) = recv_inv server st"
  "st_id (sendWait ss st want room) = st_id st" "st_recvHighest (sendWait ss st want room) = st_recvHighest st"
  "st_recvRead (sendWait ss st want room) = st_recvRead st" "st_out (sendWait ss st want room) = st_out st"
  "st_sendMax (sendWait ss st want room) = st_sendMax st" "st_sendState (sendWait ss st want room) = st_sendState st"
  by (simp_all add: sendWait_def Let_def send_inv_def recv_inv_def)

lemma open_sendWait:
  assumes "open_inv wlog ss st"
  shows "open_inv wlog ss (sendWait ss' st want room)"
  by (rule open_send [OF assms]) (simp_all add: open_parts(2) [OF assms])

lemma sendUnblock_open:
  assumes "open_inv wlog ss st"
  shows "open_inv wlog (fst (sendUnblock ss st)) (snd (sendUnblock ss st))" "st_id (snd (sendUnblock ss st)) = st_id st"
proof -
  have "open_inv wlog ss (st\<lparr>st_wantWritable := False\<rparr>)"
    by (rule open_send [OF assms]) (use open_parts(2) [OF assms] in \<open>simp_all add: send_inv_def recv_inv_def\<close>)
  then have "open_inv wlog (streamHook ShWritable (SeWritable (st_id st)) ss) (st\<lparr>st_wantWritable := False\<rparr>)"
    by (rule open_quiet) simp_all
  with assms show "open_inv wlog (fst (sendUnblock ss st)) (snd (sendUnblock ss st))"
    by (simp add: sendUnblock_def Let_def)
qed (simp add: sendUnblock_def Let_def)

lemma sendReset_open:
  assumes "open_inv wlog ss st" "varint_ok err"
  shows "open_inv wlog (fst (sendReset ss st err)) (snd (sendReset ss st err))" "st_id (snd (sendReset ss st err)) = st_id st"
proof -
  let ?st = "st\<lparr>st_sendFinal := sb_end (st_out st), st_sendState := QUIC_SEND_RESET_SENT,
    st_resetError := err, st_out := quicSendBufInit, st_fin := ctlIdle, st_blocked := ctlIdle,
    st_reset := quicCtlQueue (st_reset st)\<rparr>"
  have "sb_inv quicSendBufInit" "sb_end quicSendBufInit = 0"
    by (simp_all add: sb_inv_def quicSendBufInit_def buf_holds_def)
  then have "open_inv wlog ss ?st" if "st_sendState st \<in> {QUIC_SEND_READY, QUIC_SEND_SEND, QUIC_SEND_DATA_SENT}"
    by (intro open_send [OF assms(1)])
      (use open_parts(2) [OF assms(1)] assms(2) that in \<open>auto simp: send_inv_def recv_inv_def ctlIdle_def\<close>)
  with assms(1) open_arm show "open_inv wlog (fst (sendReset ss st err)) (snd (sendReset ss st err))"
    by (simp add: sendReset_def)
  show "st_id (snd (sendReset ss st err)) = st_id st" by (simp add: sendReset_def)
qed

lemma sendRefused_open:
  assumes o: "open_inv wlog ss st" and r: "sendRefused ss st want = (b, ss', st')"
  shows "open_inv wlog ss' st'" "st_id st' = st_id st"
proof -
  define st1 where "st1 = sendWait ss st want (sendRoom ss st)"
  have 1: "open_inv wlog ss st1" by (simp add: st1_def o open_sendWait)
  let ?st = "st1\<lparr>st_sendBlocked := st_sendMax st1, st_blocked := quicCtlQueue (st_blocked st1)\<rparr>"
  have "open_inv wlog ss ?st"
    by (rule open_send [OF 1]) (use open_parts(2) [OF 1] in \<open>simp_all add: send_inv_def recv_inv_def\<close>)
  then have 2: "open_inv wlog (fst (streamArm ss ?st)) (snd (streamArm ss ?st))" by (rule open_arm)
  define c where "c = (st_sendMax st1 \<le> sb_end (st_out st1) \<and> st_sendBlocked st1 \<noteq> st_sendMax st1)"
  define ss1 where "ss1 = (if c then fst (streamArm ss ?st) else ss)"
  define st2 where "st2 = (if c then snd (streamArm ss ?st) else st1)"
  have 3: "open_inv wlog ss1 st2" using 1 2 by (simp add: ss1_def st2_def)
  have i: "st_id st2 = st_id st" by (simp add: st2_def st1_def)
  have eq: "st' = st2 \<and> (ss' = ss1 \<or>
      ss' = ss1\<lparr>ss_sendBlocked := ss_sendMax ss1, ss_dataBlocked := quicCtlQueue (ss_dataBlocked ss1)\<rparr>)"
    using r unfolding sendRefused_def Let_def st1_def [symmetric] c_def [symmetric]
    by (cases c) (auto simp: ss1_def st2_def case_prod_beta split: if_splits)
  have "open_inv wlog (ss1\<lparr>ss_sendBlocked := ss_sendMax ss1, ss_dataBlocked := quicCtlQueue (ss_dataBlocked ss1)\<rparr>) st2"
    by (rule open_quiet [OF 3]) (simp_all add: same_table_def totals_ok_def)
  then show "open_inv wlog ss' st'" "st_id st' = st_id st" using 3 eq i by auto
qed


subsection \<open>Packets settled\<close>

lemma outstanding_grows:
  fixes n b e :: u64
  defines "f \<equiv> \<lambda>n c. if ch_state c \<noteq> QUIC_CHUNK_ACKED then n + (ch_end c - ch_off c) else n"
  assumes "chain b cs e" "unat n + (unat e - unat b) < 2 ^ 64"
  shows "n \<le> foldl f n cs \<and> (cs \<noteq> [] \<and> ch_state (hd cs) \<noteq> QUIC_CHUNK_ACKED \<longrightarrow> n < foldl f n cs)"
  using assms(2,3)
proof (induction cs arbitrary: b n)
  case (Cons c cs)
  have c: "ch_off c = b" "b < ch_end c" "chain (ch_end c) cs e" using Cons.prems(1) by auto
  have le: "ch_end c \<le> e" using chain_le [OF c(3)] .
  have d: "unat (ch_end c - ch_off c) = unat (ch_end c) - unat b" using c by (simp add: unat_word_sub less_imp_le)
  have lt: "unat b < unat (ch_end c)" "unat (ch_end c) \<le> unat e"
    using c(2) le by (simp_all add: word_less_nat_alt word_le_nat_alt)
  have u: "unat (n + (ch_end c - ch_off c)) = unat n + (unat (ch_end c) - unat b)"
    using Cons.prems(2) lt by (subst unat_word_add) (simp_all add: d)
  have "n \<le> f n c \<and> (ch_state c \<noteq> QUIC_CHUNK_ACKED \<longrightarrow> n < f n c)"
    using u lt by (auto simp: f_def word_less_nat_alt word_le_nat_alt)
  moreover have "unat (f n c) + (unat e - unat (ch_end c)) < 2 ^ 64"
    using Cons.prems(2) u lt by (auto simp: f_def)
  then have "f n c \<le> foldl f (f n c) cs"
    using Cons.IH [OF c(3)] by (metis (no_types, lifting))
  ultimately show ?case by (auto intro: order_trans order_less_le_trans)
qed simp

lemma outstanding_zero:
  assumes "sb_inv sb" "quicSendBufOutstanding sb = 0"
  shows "sb_base sb = sb_end sb"
proof -
  have "unat (sb_end sb) < 2 ^ 64" using unsigned_less [where 'a = nat, of "sb_end sb"] by simp
  then have "unat (0 :: u64) + (unat (sb_end sb) - unat (sb_base sb)) < 2 ^ 64" by simp
  from outstanding_grows [OF _ this, of "sb_chunks sb"] assms have "sb_chunks sb = []"
    by (auto simp: sb_inv_def quicSendBufOutstanding_def)
  with assms(1) show ?thesis by (simp add: sb_inv_def)
qed

lemma resolveLost_keeps:
  assumes "send_inv W st"
  shows "send_inv W (resolveLost st pn)" "recv_inv server (resolveLost st pn) = recv_inv server st"
    "st_id (resolveLost st pn) = st_id st" "st_recvHighest (resolveLost st pn) = st_recvHighest st"
    "st_recvRead (resolveLost st pn) = st_recvRead st"
proof -
  have "sb_base (quicSendBufLost sb pn) = sb_base sb" "sb_end (quicSendBufLost sb pn) = sb_end sb" for sb
    by (simp_all add: quicSendBufLost_def sbMerge_def)
  moreover have "ctl_state (snd (quicCtlLost c pn)) \<noteq> QUIC_CTL_IDLE \<longleftrightarrow> ctl_state c \<noteq> QUIC_CTL_IDLE" for c
    by (simp add: quicCtlLost_def)
  ultimately show "send_inv W (resolveLost st pn)"
    using assms quicSendBufLost_ok(1,3) [of "st_out st" pn] by (simp add: resolveLost_def send_inv_def)
qed (simp_all add: resolveLost_def recv_inv_def)

text \<open>What an acknowledgement makes of the sending half, before a waiting sender is woken.\<close>

definition ackedHalf :: "QuicStreams \<Rightarrow> QuicStreamState \<Rightarrow> u64 \<Rightarrow> QuicStreamState" where
  "ackedHalf ss st0 pn =
     (let st = (if sendRoom ss st0 = 0 then sendWait ss st0 1 0 else st0);
          st1 = st\<lparr>st_out := quicSendBufAcked (st_out st) pn,
                   st_stopSending := snd (quicCtlAcked (st_stopSending st) pn),
                   st_maxData := snd (quicCtlAcked (st_maxData st) pn),
                   st_blocked := snd (quicCtlAcked (st_blocked st) pn)\<rparr>;
          st2 = (case quicCtlAcked (st_fin st1) pn of
                   (done, c) \<Rightarrow> st1\<lparr>st_fin := c, st_finAcked := (if done then True else st_finAcked st1)\<rparr>);
          st3 = (case quicCtlAcked (st_reset st2) pn of
                   (done, c) \<Rightarrow> st2\<lparr>st_reset := c,
                     st_sendState := (if done then QUIC_SEND_RESET_DONE else st_sendState st2)\<rparr>)
      in if st_sendState st3 = QUIC_SEND_DATA_SENT \<and> st_finAcked st3 \<and> quicSendBufOutstanding (st_out st3) = 0
         then st3\<lparr>st_sendState := QUIC_SEND_DATA_DONE\<rparr> else st3)"

lemma resolveAcked_half: "resolveAcked ss st pn = sendUnblock ss (ackedHalf ss st pn)"
  by (simp add: resolveAcked_def ackedHalf_def Let_def)

lemma ackedHalf_keeps:
  assumes inv: "send_inv W st"
  shows "send_inv W (ackedHalf ss st pn)" "recv_inv server (ackedHalf ss st pn) = recv_inv server st"
    "st_id (ackedHalf ss st pn) = st_id st" "st_recvHighest (ackedHalf ss st pn) = st_recvHighest st"
    "st_recvRead (ackedHalf ss st pn) = st_recvRead st"
proof -
  define st0 where "st0 = (if sendRoom ss st = 0 then sendWait ss st 1 0 else st)"
  have i0: "send_inv W st0" using inv by (simp add: st0_def)
  let ?sb = "quicSendBufAcked (st_out st0) pn"
  define st1 where "st1 = st0\<lparr>st_out := ?sb,
    st_stopSending := snd (quicCtlAcked (st_stopSending st0) pn),
    st_maxData := snd (quicCtlAcked (st_maxData st0) pn), st_blocked := snd (quicCtlAcked (st_blocked st0) pn)\<rparr>"
  have sb: "sb_inv (st_out st0)" using i0 by (simp add: send_inv_def)
  note a = quicSendBufAcked_ok(1-4) [OF sb, where pn = pn]
  have "unat (sb_base ?sb - sb_base (st_out st0)) + unat (sb_base (st_out st0)) = unat (sb_base ?sb)"
    using a(3) by (simp add: unat_word_sub word_le_nat_alt)
  moreover have "sb_base ?sb \<le> sb_end ?sb" using a(1) chain_le by (auto simp: sb_inv_def)
  ultimately have i1: "send_inv W st1"
    using i0 a by (auto simp: st1_def send_inv_def)
  define st2 where "st2 = (case quicCtlAcked (st_fin st1) pn of
    (done, c) \<Rightarrow> st1\<lparr>st_fin := c, st_finAcked := (if done then True else st_finAcked st1)\<rparr>)"
  have i2: "send_inv W st2" using i1 by (auto simp: st2_def send_inv_def quicCtlAcked_def)
  define st3 where "st3 = (case quicCtlAcked (st_reset st2) pn of
    (done, c) \<Rightarrow> st2\<lparr>st_reset := c, st_sendState := (if done then QUIC_SEND_RESET_DONE else st_sendState st2)\<rparr>)"
  have i3: "send_inv W st3" using i2 by (auto simp: st3_def send_inv_def quicCtlAcked_def)
  have r0: "recv_inv server st0 = recv_inv server st \<and> st_id st0 = st_id st \<and>
      st_recvHighest st0 = st_recvHighest st \<and> st_recvRead st0 = st_recvRead st" by (simp add: st0_def)
  have r1: "recv_inv server st1 = recv_inv server st0 \<and> st_id st1 = st_id st0 \<and>
      st_recvHighest st1 = st_recvHighest st0 \<and> st_recvRead st1 = st_recvRead st0"
    by (simp add: st1_def recv_inv_def)
  have r2: "recv_inv server st2 = recv_inv server st1 \<and> st_id st2 = st_id st1 \<and>
      st_recvHighest st2 = st_recvHighest st1 \<and> st_recvRead st2 = st_recvRead st1"
    by (simp add: st2_def recv_inv_def case_prod_beta)
  have r3: "recv_inv server st3 = recv_inv server st2 \<and> st_id st3 = st_id st2 \<and>
      st_recvHighest st3 = st_recvHighest st2 \<and> st_recvRead st3 = st_recvRead st2"
    by (simp add: st3_def recv_inv_def case_prod_beta)
  have r4: "recv_inv server (st3\<lparr>st_sendState := QUIC_SEND_DATA_DONE\<rparr>) = recv_inv server st3"
    by (simp add: recv_inv_def)
  note keep = r0 r1 r2 r3 r4
  have h: "ackedHalf ss st pn = (if st_sendState st3 = QUIC_SEND_DATA_SENT \<and> st_finAcked st3
      \<and> quicSendBufOutstanding (st_out st3) = 0 then st3\<lparr>st_sendState := QUIC_SEND_DATA_DONE\<rparr> else st3)"
    unfolding ackedHalf_def Let_def st0_def [symmetric] st1_def [symmetric] st2_def [symmetric]
      st3_def [symmetric] ..
  have "sb_base (st_out st3) = sb_end (st_out st3)" if "quicSendBufOutstanding (st_out st3) = 0"
    using outstanding_zero that i3 by (auto simp: send_inv_def)
  then show "send_inv W (ackedHalf ss st pn)" using i3 by (auto simp: h send_inv_def)
  show "recv_inv server (ackedHalf ss st pn) = recv_inv server st"
    "st_id (ackedHalf ss st pn) = st_id st" "st_recvHighest (ackedHalf ss st pn) = st_recvHighest st"
    "st_recvRead (ackedHalf ss st pn) = st_recvRead st"
    unfolding h by (simp_all add: keep)
qed

lemma resolveEach_inv:
  "streams_inv wlog ss \<Longrightarrow> streams_inv wlog (snd (resolveEach pn acked is ss))"
proof (induction pn acked "is" ss rule: resolveEach.induct)
  case (2 pn acked i "is" ss)
  show ?case
  proof (cases "quicStreamFind ss i")
    case None
    then show ?thesis using 2 by simp
  next
    case (Some st)
    note o = open_stream(1) [OF "2.prems" Some]
    note s = open_parts(2) [OF o]
    obtain ss1 st1 where r: "(if acked then resolveAcked ss st pn else (ss, resolveLost st pn)) = (ss1, st1)"
      by (metis surj_pair)
    have "open_inv wlog ss (resolveLost st pn)"
      by (rule open_send [OF o]) (simp_all add: resolveLost_keeps [OF s])
    moreover have "open_inv wlog ss (ackedHalf ss st pn)"
      by (rule open_send [OF o]) (simp_all add: ackedHalf_keeps [OF s])
    from sendUnblock_open(1) [OF this]
    have "open_inv wlog (fst (resolveAcked ss st pn)) (snd (resolveAcked ss st pn))" by (simp only: resolveAcked_half)
    ultimately have 1: "open_inv wlog ss1 st1"
      using r by (cases acked) simp_all
    have "open_inv wlog ss1 (st1\<lparr>st_active := False\<rparr>)"
      by (rule open_send [OF 1]) (use open_parts(2) [OF 1] in \<open>simp_all add: send_inv_def recv_inv_def\<close>)
    then have 2: "streams_inv wlog (streamSettle ss1 (st1\<lparr>st_active := False\<rparr>))" "streams_inv wlog (setStream ss1 st1)"
      using settle_inv close_stream 1 by blast+
    show ?thesis
      using Some r 2 "2.IH"(2,3) [OF Some r [symmetric]]
      by (auto simp: case_prod_beta split: if_splits)
  qed
qed simp

lemma streamsResolve_inv:
  assumes "streams_inv wlog ss"
  shows "streams_inv wlog (streamsResolve ss pn acked)"
proof -
  obtain kept ss1 where r: "resolveEach pn acked (ss_active ss) ss = (kept, ss1)" by (metis surj_pair)
  have "streams_inv wlog ss1" using resolveEach_inv [OF assms, of pn acked "ss_active ss"] by (simp add: r)
  then have "streams_inv wlog (ss1\<lparr>ss_active := kept\<rparr>)" by (rule quiet_inv) simp_all
  then show ?thesis by (simp add: streamsResolve_def r)
qed

lemma acked_inv:
  assumes "streams_inv wlog ss"
  shows "streams_inv wlog (quicStreamsAcked ss pn)" "streams_inv wlog (quicStreamsLost ss pn)"
  unfolding quicStreamsAcked_def quicStreamsLost_def
  by (rule streamsResolve_inv, rule quiet_inv [OF assms]; simp add: same_table_def totals_ok_def)+

end
