(* ===== verification/QuicStreamOps.thy ===== *)
theory QuicStreamOps
  imports QuicStreamInv
begin

text \<open>
  The rest of what keeps the invariant of the stream layer: the calls of the application, the frames that
  raise limits, and filling packets, with the frames that go into them.
\<close>

section \<open>The application\<close>

lemma add_inside:
  fixes a m :: u64
  assumes "n \<le> (if m > a then unat (m - a) else 0)"
  shows "unat a + n < 2 ^ 64" "n = 0 \<or> (a + of_nat n \<le> m \<and> unat (a + of_nat n) = unat a + n)"
proof -
  have "unat a + n \<le> unat m \<or> n = 0"
    using assms unat_word_sub [of a m] by (auto simp: word_less_nat_alt word_le_nat_alt split: if_splits)
  moreover have "unat m < 2 ^ 64" "unat a < 2 ^ 64"
    using unsigned_less [where 'a = nat, of m] unsigned_less [where 'a = nat, of a] by simp_all
  ultimately show "unat a + n < 2 ^ 64" "n = 0 \<or> (a + of_nat n \<le> m \<and> unat (a + of_nat n) = unat a + n)"
    by (auto simp: word_le_nat_alt unat_word_add unat_of_nat_small)
qed

text \<open>What may be accepted is inside the limit of the stream and the limit of the connection.\<close>

lemma sendRoom_le:
  assumes "n \<le> unat (sendRoom ss st)"
  shows "n \<le> (if st_sendMax st > sb_end (st_out st) then unat (st_sendMax st - sb_end (st_out st)) else 0)"
    "n \<le> (if ss_sendMax ss > ss_sendOff ss then unat (ss_sendMax ss - ss_sendOff ss) else 0)"
  using assms by (auto simp: sendRoom_def Let_def word_less_nat_alt word_le_nat_alt split: if_splits)

lemma open_grow:
  assumes o: "open_inv wlog ss st" and w: "wlog' = wlog @ map (Pair (st_id st)) d"
    and t: "totals_ok wlog' ss'" "same_table ss ss'" "ss_recvOff ss' = ss_recvOff ss" "ss_recvRead ss' = ss_recvRead ss"
    and s: "send_inv (of_stream (st_id st) wlog @ d) st'" and i: "st_id st' = st_id st"
    and r: "recv_inv (ss_server ss) st'" "st_recvHighest st' = st_recvHighest st" "st_recvRead st' = st_recvRead st"
  shows "open_inv wlog' ss' st'"
proof -
  note f = t(2) [unfolded same_table_def] and p = open_parts [OF o] and op = o [unfolded open_inv_def]
  have u: "used ss' j = used ss j" for j using f by (intro used_cong) simp_all
  have sh: "shared_inv wlog' ss'"
    using p(4,5) t(1) f u w by (auto simp: shared_inv_def counts_ok_def split: if_splits)
  have st: "stream_inv wlog' ss' st'" using s r(1) p(4) f by (simp add: stream_inv_def u i w)
  have "quicStreamFind ss' j = quicStreamFind ss j" for j using f by (simp add: quicStreamFind_def)
  moreover have "stream_inv wlog' ss' sx = stream_inv wlog ss sx" if "st_id sx \<noteq> st_id st" for sx
    using that f by (simp add: stream_inv_def u w)
  ultimately have "\<forall>j sx. j \<noteq> st_id st' \<longrightarrow> quicStreamFind ss' j = Some sx \<longrightarrow> st_id sx = j \<and> stream_inv wlog' ss' sx"
    using op i by metis
  moreover have "ss_recvOff ss' - ss_recvRead ss' =
      unread (AList.delete (st_id st') (ss_byId ss')) + (st_recvHighest st' - st_recvRead st')"
    using op f t(3,4) r(2,3) i by metis
  ultimately show ?thesis using sh st unfolding open_inv_def by blast
qed

lemma quicSendBufAdd_drop:
  assumes "sb_inv sb" "unat (sb_end sb) = length W" "sb_bytes sb = drop (unat (sb_base sb)) W"
    and "sb_inv sb'" "sb_base sb' = sb_base sb" "sb_bytes sb' = sb_bytes sb @ d"
  shows "sb_bytes sb' = drop (unat (sb_base sb')) (W @ d)"
proof -
  have "sb_base sb \<le> sb_end sb" using assms(1) chain_le by (auto simp: sb_inv_def)
  then have "unat (sb_base sb) \<le> length W" using assms(2) by (simp add: word_le_nat_alt)
  with assms show ?thesis by simp
qed

lemma send_accepts:
  assumes o: "open_inv wlog ss st" and n: "length d \<le> unat (sendRoom ss st)" "d \<noteq> []"
    and live: "st_sendState st \<in> {QUIC_SEND_READY, QUIC_SEND_SEND}"
    and add: "quicSendBufAdd xa (st_out st) d = (True, sb)"
  shows "open_inv (wlog @ map (Pair (st_id st)) d) (ss\<lparr>ss_sendOff := ss_sendOff ss + of_nat (length d)\<rparr>)
    (st\<lparr>st_out := sb, st_sendState := QUIC_SEND_SEND\<rparr>)"
proof -
  note p = open_parts [OF o]
  let ?W = "of_stream (st_id st) wlog"
  note r1 = add_inside [OF sendRoom_le(1) [OF n(1)]] and r2 = add_inside [OF sendRoom_le(2) [OF n(1)]]
  have s: "send_inv ?W st" by (rule p(2))
  then have sb: "sb_inv (st_out st)" "unat (sb_end (st_out st)) = length ?W"
      "sb_bytes (st_out st) = drop (unat (sb_base (st_out st))) ?W"
    using live by (auto simp: send_inv_def)
  have a: "sb_inv sb" "sb_base sb = sb_base (st_out st)" "unat (sb_end sb) = unat (sb_end (st_out st)) + length d"
      "sb_bytes sb = sb_bytes (st_out st) @ d"
    using quicSendBufAdd_ok [OF sb(1) r1(1) add] by simp_all
  have "unat (sb_end (st_out st)) + length d \<le> unat (st_sendMax st)" using r1(2) n(2) by (simp add: word_le_nat_alt)
  then have "sb_end sb \<le> st_sendMax st" by (simp add: word_le_nat_alt a(3))
  then have "send_inv (?W @ d) (st\<lparr>st_out := sb, st_sendState := QUIC_SEND_SEND\<rparr>)"
    using s live a sb quicSendBufAdd_drop [OF sb a(1,2,4)] by (auto simp: send_inv_def)
  moreover have "totals_ok (wlog @ map (Pair (st_id st)) d) (ss\<lparr>ss_sendOff := ss_sendOff ss + of_nat (length d)\<rparr>)"
    using p(1) r2(2) n(2) by (simp add: totals_ok_def)
  ultimately show ?thesis
    by (intro open_grow [OF o refl]) (use p(3) in \<open>simp_all add: recv_inv_def\<close>)
qed

text \<open>How many bytes were taken, and what that makes of the log.\<close>

lemma quicStreamSend_inv:
  assumes inv: "streams_inv wlog ss" and r: "quicStreamSend xa ss i data = (n, ss')"
  shows "streams_inv (wlog @ map (Pair i) (take n data)) ss'" "n \<le> length data"
    "n > 0 \<Longrightarrow> \<exists>st. quicStreamFind ss i = Some st \<and> st_sendState st \<in> {QUIC_SEND_READY, QUIC_SEND_SEND}"
proof -
  have "streams_inv (wlog @ map (Pair i) (take n data)) ss' \<and> n \<le> length data \<and>
    (n > 0 \<longrightarrow> (\<exists>st. quicStreamFind ss i = Some st \<and> st_sendState st \<in> {QUIC_SEND_READY, QUIC_SEND_SEND}))"
  proof (cases "\<exists>st. quicStreamFind ss i = Some st \<and> st_sendState st \<in> {QUIC_SEND_READY, QUIC_SEND_SEND}")
    case False
    then have "n = 0" "ss' = ss" using r by (auto simp: quicStreamSend_def split: option.splits if_splits)
    with inv show ?thesis by simp
  next
    case True
    then obtain st where st: "quicStreamFind ss i = Some st" and live: "st_sendState st \<in> {QUIC_SEND_READY, QUIC_SEND_SEND}"
      by blast
    note o = open_stream [OF inv st]
    define len where "len = (if length data > unat (sendRoom ss st) then unat (sendRoom ss st) else length data)"
    have len: "length (take len data) = len" "len \<le> unat (sendRoom ss st)" "len \<le> length data"
      by (simp_all add: len_def)
    obtain ok sb where add: "quicSendBufAdd xa (st_out st) (take len data) = (ok, sb)" by (metis surj_pair)
    have "sb_inv (st_out st)" using open_parts(2) [OF o(1)] by (simp add: send_inv_def)
    moreover have "unat (sb_end (st_out st)) + length (take len data) < 2 ^ 64"
      unfolding len(1) by (rule add_inside(1) [OF sendRoom_le(1) [OF len(2)]])
    ultimately have no: "sb = st_out st" if "\<not> ok"
      using quicSendBufAdd_ok [OF _ _ add] that by (simp split: if_splits)
    define ss1 where "ss1 = (if len > 0 then fst (streamArm (ss\<lparr>ss_sendOff := ss_sendOff ss + of_nat len\<rparr>)
      (st\<lparr>st_out := sb, st_sendState := QUIC_SEND_SEND\<rparr>)) else ss)"
    define st1 where "st1 = (if len > 0 then snd (streamArm (ss\<lparr>ss_sendOff := ss_sendOff ss + of_nat len\<rparr>)
      (st\<lparr>st_out := sb, st_sendState := QUIC_SEND_SEND\<rparr>)) else st)"
    have o1: "open_inv (wlog @ map (Pair i) (take len data)) ss1 st1" if "len > 0 \<longrightarrow> ok"
    proof (cases "len > 0")
      case True
      with that add have "quicSendBufAdd xa (st_out st) (take len data) = (True, sb)" by simp
      moreover have "data \<noteq> []" using True len(3) by auto
      ultimately have "open_inv (wlog @ map (Pair i) (take len data)) (ss\<lparr>ss_sendOff := ss_sendOff ss + of_nat len\<rparr>)
          (st\<lparr>st_out := sb, st_sendState := QUIC_SEND_SEND\<rparr>)"
        using send_accepts [OF o(1) _ _ live, of "take len data"] True len o(2) by simp
      from open_arm [OF this] True show ?thesis by (simp add: ss1_def st1_def)
    qed (simp add: ss1_def st1_def o)
    have res: "quicStreamSend xa ss i data =
      (if len > 0 \<and> \<not> ok then (0, setStream ss (st\<lparr>st_out := sb\<rparr>))
       else if length data > len then (case sendRefused ss1 st1 (of_nat (length data)) of (b, ss2, st2) \<Rightarrow> (len, setStream ss2 st2))
       else (len, setStream ss1 st1))"
      unfolding quicStreamSend_def st option.case Let_def len_def [symmetric] add
      using live by (cases ok; cases "len > 0"; auto simp: case_prod_beta ss1_def st1_def)
    show ?thesis
    proof (cases "len > 0 \<and> \<not> ok")
      case True
      then have "n = 0" "ss' = setStream ss (st\<lparr>st_out := sb\<rparr>)" using r res by simp_all
      moreover have "st\<lparr>st_out := sb\<rparr> = st" using no True by simp
      ultimately show ?thesis using close_stream [OF o(1)] by simp
    next
      case False
      then have 1: "open_inv (wlog @ map (Pair i) (take len data)) ss1 st1" using o1 by blast
      obtain b ss2 st2 where rf: "sendRefused ss1 st1 (of_nat (length data)) = (b, ss2, st2)" by (metis prod_cases3)
      have "n = len \<and> (ss' = setStream ss2 st2 \<or> ss' = setStream ss1 st1)"
        using r False unfolding res rf by (auto split: if_splits)
      with close_stream [OF 1] close_stream [OF sendRefused_open(1) [OF 1 rf]] len st live
      show ?thesis by auto
    qed
  qed
  then show "streams_inv (wlog @ map (Pair i) (take n data)) ss'" "n \<le> length data"
    "n > 0 \<Longrightarrow> \<exists>st. quicStreamFind ss i = Some st \<and> st_sendState st \<in> {QUIC_SEND_READY, QUIC_SEND_SEND}"
    by blast+
qed


lemma quicStreamSend_all:
  assumes "streams_inv wlog ss" "quicStreamFind ss i = Some st" "length data \<le> unat (sendRoom ss st)"
    "quicStreamSend xa ss i data = (n, ss')"
  shows "n = length data \<or> n = 0"
  using assms(2-4)
  by (auto simp: quicStreamSend_def Let_def case_prod_beta split: if_splits bool.splits)

lemma quicStreamSendAll_inv:
  assumes inv: "streams_inv wlog ss" and r: "quicStreamSendAll xa ss i data = (ok, blocked, ss')"
  shows "streams_inv (if ok then wlog @ map (Pair i) data else wlog) ss'"
    "ok \<Longrightarrow> quicStreamSend xa ss i data = (length data, ss')"
proof -
  consider "ss' = ss" "\<not> ok" | st b ss1 st1 where "quicStreamFind ss i = Some st" "\<not> ok"
      "sendRefused ss st (of_nat (length data)) = (b, ss1, st1)" "ss' = setStream ss1 st1"
    | st n where "quicStreamFind ss i = Some st" "length data \<le> unat (sendRoom ss st)"
      "quicStreamSend xa ss i data = (n, ss')" "ok = (n = length data)"
    using r by (auto simp: quicStreamSendAll_def split: option.splits if_splits prod.splits)
  then have "streams_inv (if ok then wlog @ map (Pair i) data else wlog) ss' \<and>
    (ok \<longrightarrow> quicStreamSend xa ss i data = (length data, ss'))"
  proof cases
    case 1
    with inv show ?thesis by simp
  next
    case 2
    with close_stream [OF sendRefused_open(1) [OF open_stream(1) [OF inv 2(1)] 2(3)]] show ?thesis by simp
  next
    case 3
    with quicStreamSend_inv(1) [OF inv 3(3)] quicStreamSend_all [OF inv 3(1-3)] show ?thesis by auto
  qed
  then show "streams_inv (if ok then wlog @ map (Pair i) data else wlog) ss'"
    "ok \<Longrightarrow> quicStreamSend xa ss i data = (length data, ss')" by blast+
qed

lemma quicStreamFinish_inv:
  assumes "streams_inv wlog ss"
  shows "streams_inv wlog (quicStreamFinish ss i)"
proof (cases "quicStreamFind ss i")
  case None
  then show ?thesis using assms by (simp add: quicStreamFinish_def)
next
  case (Some st)
  note o = open_stream(1) [OF assms Some]
  let ?st = "st\<lparr>st_sendState := QUIC_SEND_DATA_SENT, st_fin := quicCtlQueue (st_fin st)\<rparr>"
  have "open_inv wlog ss ?st" if "st_sendState st = QUIC_SEND_READY \<or> st_sendState st = QUIC_SEND_SEND"
    by (rule open_send [OF o]) (use open_parts(2) [OF o] that in \<open>auto simp: send_inv_def recv_inv_def\<close>)
  from close_stream [OF open_arm [OF this]] Some assms show ?thesis
    by (simp add: quicStreamFinish_def case_prod_beta)
qed

lemma quicStreamReset_inv:
  assumes "streams_inv wlog ss" "varint_ok err"
  shows "streams_inv wlog (quicStreamReset ss i err)"
  using assms(1) close_stream [OF sendReset_open(1) [OF open_stream(1) [OF assms(1)] assms(2)]]
  by (auto simp: quicStreamReset_def case_prod_beta split: option.split)

lemma quicStreamStopSending_inv:
  assumes "streams_inv wlog ss" "varint_ok err"
  shows "streams_inv wlog (quicStreamStopSending ss i err)"
proof (cases "quicStreamFind ss i")
  case None
  then show ?thesis using assms by (simp add: quicStreamStopSending_def)
next
  case (Some st)
  note o = open_stream(1) [OF assms(1) Some]
  let ?st = "st\<lparr>st_stopError := err, st_stopSending := quicCtlQueue (st_stopSending st)\<rparr>"
  have "open_inv wlog ss ?st"
    by (rule open_send [OF o]) (use open_parts(2) [OF o] assms(2) in \<open>auto simp: send_inv_def recv_inv_def\<close>)
  from close_stream [OF open_arm [OF this]] Some assms(1) show ?thesis
    by (simp add: quicStreamStopSending_def case_prod_beta)
qed

lemma quicStreamOpen_inv:
  assumes inv: "streams_inv wlog ss" and r: "quicStreamOpen ss uni = (so, ss')"
  shows "streams_inv wlog ss'" "so = Some i \<Longrightarrow> \<not> used ss i"
proof -
  define dir where "dir = (if uni then QUIC_SDIR_UNI else QUIC_SDIR_BIDI)"
  have "streams_inv wlog ss' \<and> (so = Some i \<longrightarrow> \<not> used ss i)"
  proof (cases "ss_nextLocal ss dir < ss_sendMaxStreams ss dir")
    case True
    note n = open_new [OF inv dir_def True]
    have "so = Some (quicStreamMakeId (ss_nextLocal ss dir) (ss_server ss) uni)"
      "ss' = (let ss1 = fst (streamCreate ss (quicStreamMakeId (ss_nextLocal ss dir) (ss_server ss) uni)) in
        ss1\<lparr>ss_nextLocal := (ss_nextLocal ss1)(dir := ss_nextLocal ss1 dir + 1)\<rparr>)"
      using r True by (auto simp: quicStreamOpen_def Let_def dir_def split: if_splits)
    with n show ?thesis by (auto simp: Let_def)
  next
    case False
    then have "so = None" "ss' = ss \<or> ss' = ss\<lparr>ss_streamsBlockedAt := (ss_streamsBlockedAt ss)(dir := ss_sendMaxStreams ss dir),
        ss_streamsBlocked := (ss_streamsBlocked ss)(dir := quicCtlQueue (ss_streamsBlocked ss dir))\<rparr>"
      using r by (auto simp: quicStreamOpen_def Let_def dir_def split: if_splits)
    with quiet_inv [OF inv, of ss'] inv show ?thesis by (auto simp: same_table_def totals_ok_def)
  qed
  then show "streams_inv wlog ss'" "so = Some i \<Longrightarrow> \<not> used ss i" by blast+
qed


lemma quicStreamRecv_inv:
  assumes inv: "streams_inv wlog ss" and r: "quicStreamRecv ss i outsz = (out, fin, ss')"
  shows "streams_inv wlog ss'"
proof (cases "quicStreamFind ss i")
  case None
  then show ?thesis using inv r by (simp add: quicStreamRecv_def)
next
  case (Some st)
  note o = open_stream(1) [OF inv Some]
  note p = open_parts [OF o]
  show ?thesis
  proof (cases "st_recvState st = QUIC_RECV_RESET")
    case True
    have "recv_inv (ss_server ss) (st\<lparr>st_recvState := QUIC_RECV_RESET_READ\<rparr>)"
      using p(3) True by (auto simp: recv_inv_def)
    then have "open_inv wlog ss (st\<lparr>st_recvState := QUIC_RECV_RESET_READ\<rparr>)"
      by (rule open_recv [OF o]) (simp_all add: send_inv_def)
    from settle_inv [OF this] show ?thesis using r Some True by (simp add: quicStreamRecv_def)
  next
    case False
    obtain d ss1 st1 where t: "recvTake ss st (min (quicReasmReadable (st_in st)) outsz) = (d, ss1, st1)"
      by (metis prod_cases3)
    have o1: "open_inv wlog ss1 st1"
    proof (cases "st_recvState st = QUIC_RECV_RESET_READ")
      case True
      then have "quicReasmReadable (st_in st) = 0" using p(3) by (simp add: recv_inv_def quicReasmReadable_def)
      with t o show ?thesis by (simp add: recvTake_def)
    next
      case other: False
      with recvTake_open(1) [OF o _ _ t] False show ?thesis by simp
    qed
    have ended: "open_inv wlog ss1 (st1\<lparr>st_recvState := QUIC_RECV_DATA_READ\<rparr>)"
      if "st_recvState st1 = QUIC_RECV_DATA_RECVD" "quicReasmReadable (st_in st1) = 0"
    proof (rule open_recv [OF o1])
      have rv: "recv_inv (ss_server ss1) st1" by (rule open_parts(3) [OF o1])
      have "st_recvRead st1 = st_recvFinal st1"
      proof (rule ccontr)
        assume "st_recvRead st1 \<noteq> st_recvFinal st1"
        then have "st_recvRead st1 < st_recvFinal st1" using rv that(1) by (auto simp: recv_inv_def)
        then have "reasm_view (st_in st1) (ra_base (st_in st1)) \<noteq> None"
          using rv that(1) by (simp add: recv_inv_def)
        then show False
          using that(2) rv readable_stops [of "st_in st1"] by (simp add: recv_inv_def)
      qed
      then show "recv_inv (ss_server ss1) (st1\<lparr>st_recvState := QUIC_RECV_DATA_READ\<rparr>)"
        using rv that(1) by (auto simp: recv_inv_def)
    qed (simp_all add: send_inv_def)
    have "ss' = (if st_recvState st1 = QUIC_RECV_DATA_RECVD \<and> quicReasmReadable (st_in st1) = 0
        then streamSettle ss1 (st1\<lparr>st_recvState := QUIC_RECV_DATA_READ\<rparr>) else setStream ss1 st1)"
      using r Some False t by (auto simp: quicStreamRecv_def split: if_splits)
    with settle_inv [OF ended] close_stream [OF o1] show ?thesis by simp
  qed
qed



section \<open>Frames about the sending half\<close>

lemma handleStopSending_inv:
  assumes inv: "streams_inv wlog ss" and err: "varint_ok err"
  shows "streams_inv wlog (snd (handleStopSending opened ss i err ft))"
proof -
  obtain so ig ss1 where f: "streamForFrame opened ss i ft = (so, ig, ss1)" by (metis prod_cases3)
  note s1 = streamForFrame_inv [OF inv f]
  have "streams_inv wlog (setStream (fst (sendReset (streamHook ShStopped (SeStopped i err) ss1) (st\<lparr>st_stopError := err\<rparr>) err))
      (snd (sendReset (streamHook ShStopped (SeStopped i err) ss1) (st\<lparr>st_stopError := err\<rparr>) err)))"
    if "so = Some st" for st
  proof (intro close_stream sendReset_open(1) open_hook err)
    have o: "open_inv wlog ss1 st" using s1(2) that by blast
    show "open_inv wlog ss1 (st\<lparr>st_stopError := err\<rparr>)"
      by (rule open_send [OF o]) (use open_parts(2) [OF o] err in \<open>simp_all add: send_inv_def recv_inv_def\<close>)
  qed
  with inv s1(1) f show ?thesis by (cases so) (simp_all add: handleStopSending_def case_prod_beta)
qed

lemma handleMaxStreamData_inv:
  assumes inv: "streams_inv wlog ss" and mx: "varint_ok mx"
  shows "streams_inv wlog (snd (handleMaxStreamData opened ss i mx ft))"
proof -
  obtain so ig ss1 where f: "streamForFrame opened ss i ft = (so, ig, ss1)" by (metis prod_cases3)
  note s1 = streamForFrame_inv [OF inv f]
  show ?thesis
  proof (cases so)
    case None
    then show ?thesis using inv s1(1) f by (simp add: handleMaxStreamData_def)
  next
    case (Some st)
    define st1 where "st1 = (if sendRoom ss1 st = 0 then sendWait ss1 st 1 0 else st)"
    define st2 where "st2 = st1\<lparr>st_sendMax := mx, st_blocked := (st_blocked st1)\<lparr>ctl_state := QUIC_CTL_IDLE\<rparr>\<rparr>"
    have o: "open_inv wlog ss1 st" using s1(2) Some by blast
    have o1: "open_inv wlog ss1 st1" using o open_sendWait by (simp add: st1_def)
    have "open_inv wlog ss1 st2" if "\<not> mx \<le> st_sendMax st"
      by (rule open_send [OF o1])
        (use open_parts(2) [OF o1] mx that in \<open>auto simp: st2_def st1_def send_inv_def recv_inv_def\<close>)
    from close_stream [OF sendUnblock_open(1) [OF this]] show ?thesis
      using inv s1(1) unfolding handleMaxStreamData_def f Some prod.case option.case Let_def
        st1_def [symmetric] st2_def [symmetric]
      by (simp add: case_prod_beta)
  qed
qed

lemma handleMaxStreams_inv:
  assumes inv: "streams_inv wlog ss" and mx: "mx \<le> QUIC_MAX_STREAMS"
  shows "streams_inv wlog (snd (handleMaxStreams ss uni mx))"
proof -
  let ?ss = "snd (handleMaxStreams ss uni mx)"
  have f: "ss_byId ?ss = ss_byId ss" "ss_server ?ss = ss_server ss" "ss_nextLocal ?ss = ss_nextLocal ss"
    "ss_nextRemote ?ss = ss_nextRemote ss" "ss_recvOff ?ss = ss_recvOff ss" "ss_recvRead ?ss = ss_recvRead ss"
    by (simp_all add: handleMaxStreams_def Let_def)
  have "counts_ok ss" using inv unfolding streams_inv_def shared_inv_def by blast
  then have "counts_ok ?ss" using mx
    by (auto simp: handleMaxStreams_def Let_def counts_ok_def QUIC_MAX_STREAMS_def intro: order_trans less_imp_le)
  moreover have "totals_ok wlog ?ss = totals_ok wlog ss"
    by (rule totals_cong) (simp_all add: handleMaxStreams_def Let_def)
  moreover have u: "stream_inv wlog ?ss st = stream_inv wlog ss st" "used ?ss i = used ss i" for st i
    by (rule stream_inv_cong used_cong; simp add: f)+
  moreover have "shared_inv wlog ss" using inv by (simp only: streams_inv_def)
  ultimately have "shared_inv wlog ?ss" using f by (simp add: shared_inv_def)
  moreover have "quicStreamFind ?ss i = quicStreamFind ss i" for i by (simp add: quicStreamFind_def f)
  ultimately show ?thesis using inv u(1) unfolding streams_inv_def f by metis
qed

lemma handleBlocked_inv: "streams_inv wlog ss \<Longrightarrow> streams_inv wlog (snd (handleBlocked opened ss f))"
  using streamForFrame_inv(1)
  by (auto simp: handleBlocked_def case_prod_beta split: QuicFrame.split)
    (metis prod.collapse)

subsection \<open>The limit of the connection\<close>

lemma unblockOne_inv: "streams_inv wlog ss \<Longrightarrow> streams_inv wlog (unblockOne ss i)"
  using close_stream [OF sendUnblock_open(1) [OF open_stream(1)]]
  by (auto simp: unblockOne_def case_prod_beta split: option.split)

lemma unblockAll_inv: "streams_inv wlog ss \<Longrightarrow> streams_inv wlog (foldl unblockOne ss is)"
  by (induction "is" arbitrary: ss) (simp_all add: unblockOne_inv)

text \<open>Every stream marked as waiting.\<close>

lemma waiting_inv:
  assumes inv: "streams_inv wlog ss"
    and tab: "ss_byId ss1 = map (\<lambda>(i, st). (i, if c st then sendWait ss st 1 0 else st)) (ss_byId ss)"
    and eq: "ss_server ss1 = ss_server ss" "ss_nextLocal ss1 = ss_nextLocal ss" "ss_nextRemote ss1 = ss_nextRemote ss"
      "ss_sendMaxStreams ss1 = ss_sendMaxStreams ss" "ss_recvMaxStreams ss1 = ss_recvMaxStreams ss"
      "ss_recvOff ss1 = ss_recvOff ss" "ss_recvRead ss1 = ss_recvRead ss"
    and tot: "totals_ok wlog ss1"
  shows "streams_inv wlog ss1"
proof -
  have sh: "shared_inv wlog ss" and bal: "ss_recvOff ss - ss_recvRead ss = unread (ss_byId ss)"
    using inv unfolding streams_inv_def by blast+
  have d: "map fst (ss_byId ss1) = map fst (ss_byId ss)" by (simp add: tab case_prod_beta comp_def)
  have "unread (ss_byId ss1) = unread (ss_byId ss)"
    unfolding unread_def tab by (rule arg_cong [of _ _ sum_list]) (simp add: case_prod_beta)
  moreover have "shared_inv wlog ss1"
    using shared_inv_cong [of ss1 ss wlog] eq tot sh d by (simp add: shared_inv_def)
  moreover have "st_id sx = i \<and> stream_inv wlog ss1 sx" if fi: "quicStreamFind ss1 i = Some sx" for i sx
  proof -
    have "map_of (map (\<lambda>(i, st). (i, if c st then sendWait ss st 1 0 else st)) t) i =
        map_option (\<lambda>st. if c st then sendWait ss st 1 0 else st) (map_of t i)" for t
      by (induction t) auto
    then obtain st where st: "quicStreamFind ss i = Some st" "sx = (if c st then sendWait ss st 1 0 else st)"
      using fi by (auto simp: quicStreamFind_def tab)
    have "st_id st = i \<and> stream_inv wlog ss st" using inv st(1) unfolding streams_inv_def by blast
    moreover have "stream_inv wlog ss1 sx = stream_inv wlog ss sx" using eq by (intro stream_inv_cong) simp_all
    ultimately show ?thesis using st(2) by (cases "c st") (auto simp: stream_inv_def)
  qed
  ultimately show ?thesis using bal eq unfolding streams_inv_def by metis
qed

lemma connMaxData_inv:
  assumes inv: "streams_inv wlog ss" and mx: "varint_ok mx"
  shows "streams_inv wlog (connMaxData ss mx)"
proof (cases "mx \<le> ss_sendMax ss")
  case True
  with inv show ?thesis by (simp add: connMaxData_def)
next
  case False
  have t: "totals_ok wlog ss" using inv unfolding streams_inv_def shared_inv_def by blast
  show ?thesis
    unfolding connMaxData_def Let_def using False
    by (auto intro!: unblockAll_inv waiting_inv [OF inv, where c = "\<lambda>st. sendRoom ss st = 0"]) 
      (use t mx False in \<open>auto simp: totals_ok_def\<close>)
qed

text \<open>Any frame the decoder lets through.\<close>

lemma quicStreamsFrame_inv:
  assumes inv: "streams_inv wlog ss" and f: "frame_fits f" "frame_checked f"
  shows "streams_inv wlog (snd (quicStreamsFrame xa opened ss f))"
proof (cases f)
  case (FStream hasOff hasLen fin i offset data)
  then show ?thesis
    using handleStreamData_inv [OF inv] f by (simp add: quicStreamsFrame_def frame_fits_def frame_checked_def)
qed (use f in \<open>simp_all add: quicStreamsFrame_def frame_fits_def frame_checked_def inv handleResetStream_inv
  handleStopSending_inv handleMaxStreamData_inv handleMaxStreams_inv handleBlocked_inv connMaxData_inv\<close>)

section \<open>Frames going out\<close>

definition frame_ok :: "QuicFrame \<Rightarrow> bool" where
  "frame_ok f \<longleftrightarrow> frame_fits f \<and> frame_valid f \<and> frame_delimited f"

text \<open>The writer got from one state to the other by writing these frames.\<close>

definition wrote :: "QuicWr \<Rightarrow> QuicWr \<Rightarrow> QuicFrame list \<Rightarrow> bool" where
  "wrote wr wr1 fs \<longleftrightarrow> wr_wf wr1 \<and> length (wr_buf wr1) = length (wr_buf wr) \<and> \<not> wr_bad wr1 \<and> wr_out wr1 = wr_out wr @ concat (map frame_bytes fs) \<and>
     list_all frame_ok fs"

lemma wrote_refl: "wr_wf wr \<Longrightarrow> \<not> wr_bad wr \<Longrightarrow> wrote wr wr []"
  by (simp add: wrote_def)

lemma wrote_again: "wrote wr wr1 fs \<Longrightarrow> wrote wr1 wr1 []"
  by (simp add: wrote_def)

lemma wrote_trans: "wrote a b fs \<Longrightarrow> wrote b c gs \<Longrightarrow> wrote a c (fs @ gs)"
  by (simp add: wrote_def)

lemma putFrame_wrote:
  assumes wr: "wrote wr wr []" and f: "frame_ok f" and p: "putFrame wr f = (ok, wr1)"
  shows "if ok then wrote wr wr1 [f] else wr1 = wr"
proof (cases "quicFrameSize f \<noteq> 0 \<and> quicFrameSize f \<le> quicWrLeft wr")
  case True
  have w: "wr_wf wr" "\<not> wr_bad wr" "frame_fits f" using wr f by (simp_all add: wrote_def frame_ok_def)
  have e: "quicFrameEncode wr f = (ok, wr1)" using True p by (simp add: putFrame_def split: if_splits)
  with frame_size_exact [OF w] True have ok by simp
  moreover have "wr_grow wr wr1 (frame_bytes f)" using quicFrameEncode_grow [OF w(1,3)] e by simp
  moreover have "\<not> wr_bad wr1" using quicFrameEncode_bad [of wr f] e \<open>ok\<close> w(2) by simp
  ultimately show ?thesis using f by (simp add: wrote_def wr_grow_def)
next
  case False
  then show ?thesis using p by (auto simp: putFrame_def)
qed

lemma putCtl_wrote:
  assumes wr: "wrote wr wr []" and f: "ctl_state c = QUIC_CTL_PENDING \<Longrightarrow> frame_ok f"
    and p: "putCtl wr c f pn el = (wr1, c1, el1)"
  shows "\<exists>fs. wrote wr wr1 fs \<and> set fs \<subseteq> {f} \<and> (fs \<noteq> [] \<longrightarrow> ctl_state c = QUIC_CTL_PENDING)"
    "ctl_state c1 = QUIC_CTL_IDLE \<longleftrightarrow> ctl_state c = QUIC_CTL_IDLE"
proof -
  obtain ok wr2 where o: "putFrame wr f = (ok, wr2)" by (metis surj_pair)
  have "wrote wr wr1 [] \<and> c1 = c \<or> wrote wr wr1 [f] \<and> ctl_state c = QUIC_CTL_PENDING \<and> c1 = quicCtlSent c pn"
    using p wr putFrame_wrote [OF wr f o]
    by (cases "ctl_state c = QUIC_CTL_PENDING") (auto simp: putCtl_def o split: bool.splits if_splits)
  then show "\<exists>fs. wrote wr wr1 fs \<and> set fs \<subseteq> {f} \<and> (fs \<noteq> [] \<longrightarrow> ctl_state c = QUIC_CTL_PENDING)"
    "ctl_state c1 = QUIC_CTL_IDLE \<longleftrightarrow> ctl_state c = QUIC_CTL_IDLE"
    by (auto simp: quicCtlSent_def intro: exI [of _ "[]"] exI [of _ "[f]"])
qed


subsection \<open>One stream\<close>

text \<open>The frames that may speak for a stream: what they say is what it holds.\<close>

definition speaks :: "u8 list \<Rightarrow> QuicStreamState \<Rightarrow> QuicFrame \<Rightarrow> bool" where
  "speaks W st f \<longleftrightarrow>
     (case f of
        FStream hasOff hasLen fin i off d \<Rightarrow> i = st_id st \<and> unat off + length d \<le> length W \<and>
          d = take (length d) (drop (unat off) W) \<and>
          (fin \<longrightarrow> unat off + length d = length W \<and> st_sendState st \<notin> {QUIC_SEND_READY, QUIC_SEND_SEND})
      | FResetStream i err fsize \<Rightarrow> i = st_id st \<and> unat fsize = length W \<and>
          st_sendState st \<notin> {QUIC_SEND_READY, QUIC_SEND_SEND}
      | FMaxStreamData i mx \<Rightarrow> i = st_id st \<and> mx = ra_limit (st_in st)
      | FStopSending i err \<Rightarrow> i = st_id st
      | FStreamDataBlocked i mx \<Rightarrow> i = st_id st \<and> mx = st_sendMax st
      | _ \<Rightarrow> False)"

text \<open>What filling a packet leaves of a stream.\<close>

definition filled :: "u8 list \<Rightarrow> QuicStreamState \<Rightarrow> QuicStreamState \<Rightarrow> bool" where
  "filled W st st1 \<longleftrightarrow> send_inv W st1 \<and> st_id st1 = st_id st \<and> st_sendState st1 = st_sendState st \<and>
     st_sendMax st1 = st_sendMax st \<and> st_in st1 = st_in st \<and> st_recvHighest st1 = st_recvHighest st \<and>
     st_recvRead st1 = st_recvRead st \<and> st_recvState st1 = st_recvState st \<and>
     st_recvFinal st1 = st_recvFinal st \<and> st_recvFinalKnown st1 = st_recvFinalKnown st"

lemma filled_speaks: "filled W st st1 \<Longrightarrow> speaks W st1 f \<Longrightarrow> speaks W st f"
  by (auto simp: filled_def speaks_def split: QuicFrame.splits)

lemma filled_trans: "filled W a b \<Longrightarrow> filled W b c \<Longrightarrow> filled W a c"
  by (simp add: filled_def)

lemma filled_recv: "filled W st st1 \<Longrightarrow> recv_inv server st1 = recv_inv server st"
  by (simp add: filled_def recv_inv_def)

lemma max_varint: "varint_ok m \<Longrightarrow> x \<le> m \<Longrightarrow> varint_ok x"
  by (auto simp: varint_ok_def)

text \<open>The next piece of a stream, and the frame that carries it.\<close>

lemma next_piece:
  assumes inv: "send_inv W st" and live: "st_sendState st \<notin> {QUIC_SEND_RESET_SENT, QUIC_SEND_RESET_DONE}"
    and nx: "quicSendBufNext (st_out st) mx = Some (off, d)"
  shows "unat off + length d \<le> length W" "d = take (length d) (drop (unat off) W)"
    "off + of_nat (length d) = sb_end (st_out st) \<longleftrightarrow> unat off + length d = length W"
proof -
  have sb: "sb_inv (st_out st)" "unat (sb_end (st_out st)) = length W"
      "sb_bytes (st_out st) = drop (unat (sb_base (st_out st))) W"
    using inv live by (auto simp: send_inv_def)
  obtain A c B where c: "sb_chunks (st_out st) = A @ c # B" "ch_off c = off"
      "length d = min (unat (ch_end c - ch_off c)) mx"
      "d = take (length d) (drop (unat (off - sb_base (st_out st))) (sb_bytes (st_out st)))"
    using sbFirst_ok [OF sb(1) nx [unfolded quicSendBufNext_def]] by metis
  have bd: "sb_base (st_out st) \<le> off" "off < ch_end c" "ch_end c \<le> sb_end (st_out st)"
    using chain_bounds [of "sb_base (st_out st)" "sb_chunks (st_out st)" "sb_end (st_out st)" c] sb(1) c(1,2)
    by (auto simp: sb_inv_def)
  have "unat (ch_end c - off) = unat (ch_end c) - unat off" "unat (ch_end c) \<le> length W"
    using bd sb(2) by (simp_all add: unat_word_sub word_le_nat_alt word_less_nat_alt)
  then show le: "unat off + length d \<le> length W" using c(2,3) bd(2) by (auto simp: word_less_nat_alt)
  have "unat (off - sb_base (st_out st)) + unat (sb_base (st_out st)) = unat off"
    using bd(1) by (simp add: unat_word_sub word_le_nat_alt)
  then show "d = take (length d) (drop (unat off) W)" using c(4) sb(3) by (simp add: add.commute)
  show "off + of_nat (length d) = sb_end (st_out st) \<longleftrightarrow> unat off + length d = length W"
    using quicSendBufSent_ok(2) [OF sb(1) nx] sb(2) by (auto simp: word_unat_eq_iff)
qed

lemma stream_frame_ok:
  assumes inv: "send_inv W st" and live: "st_sendState st \<notin> {QUIC_SEND_RESET_SENT, QUIC_SEND_RESET_DONE}"
    and i: "varint_ok (st_id st)" and le: "unat off + length d \<le> length W"
  shows "frame_ok (FStream (off > 0) True fin (st_id st) off d)"
proof -
  have e: "unat (sb_end (st_out st)) = length W" "sb_end (st_out st) \<le> st_sendMax st" "varint_ok (st_sendMax st)"
    using inv live by (auto simp: send_inv_def)
  then have W: "length W < 2 ^ 62" by (metis max_varint varint_ok_unat)
  then have "unat (of_nat (length d) :: u64) = length d" using le by (simp add: unat_of_nat_small)
  with W le i show ?thesis
    by (auto simp: frame_ok_def frame_fits_def frame_valid_def frame_checked_def frame_delimited_def varint_ok_unat
        string_ok_def frameOffsetOk_def QUIC_MAX_PACKET_NUMBER_def word_le_nat_alt unat_word_sub word_less_nat_alt
        unat_eq_zero)
qed

end
