(* ===== verification/QuicStreamFill.thy ===== *)
theory QuicStreamFill
  imports QuicStreamOps
begin

text \<open>
  Filling packets: \<^verbatim>\<open>_quicStreamsFill\<close> writes a sequence of well-formed frames, each of which says what
  the stream it speaks for holds, and keeps the invariant of the stream layer.
\<close>

section \<open>The data of a stream\<close>

lemma filledI:
  assumes "send_inv W st" "send_inv W (st\<lparr>st_out := sb, st_fin := c\<rparr>)"
  shows "filled W st (st\<lparr>st_out := sb, st_fin := c\<rparr>)"
  using assms by (simp add: filled_def)

lemma sent_piece:
  assumes inv: "send_inv W st" and nx: "quicSendBufNext (st_out st) mx = Some (off, d)"
    and c: "c = st_fin st \<or> c = quicCtlSent (st_fin st) pn \<and> ctl_state (st_fin st) = QUIC_CTL_PENDING"
  shows "filled W st (st\<lparr>st_out := quicSendBufSent (st_out st) off (length d) pn, st_fin := c\<rparr>)"
proof (rule filledI [OF inv])
  have sb: "sb_inv (st_out st)" using inv by (simp add: send_inv_def)
  note s = quicSendBufSent_ok(1,4-6) [OF sb nx, where pn = pn]
  have "ctl_state c \<noteq> QUIC_CTL_IDLE \<longrightarrow> ctl_state (st_fin st) \<noteq> QUIC_CTL_IDLE" using c by auto
  then show "send_inv W (st\<lparr>st_out := quicSendBufSent (st_out st) off (length d) pn, st_fin := c\<rparr>)"
    using inv s by (simp add: send_inv_def)
qed

lemma fillData_wrote:
  assumes "send_inv W st" "st_sendState st \<notin> {QUIC_SEND_RESET_SENT, QUIC_SEND_RESET_DONE}"
    "varint_ok (st_id st)" "wrote wr wr []" "fillData st wr pn el = (st1, wr1, el1)"
  shows "\<exists>fs. wrote wr wr1 fs \<and> (\<forall>f\<in>set fs. speaks W st f) \<and> filled W st st1"
  using assms
proof (induction st wr pn el arbitrary: st1 wr1 el1 rule: fillData.induct)
  case (1 st wr pn el)
  note inv = "1.prems"(1) and live = "1.prems"(2) and i = "1.prems"(3) and wr = "1.prems"(4) and r = "1.prems"(5)
  have stop: ?case if "st1 = st" "wr1 = wr"
    using that wr inv by (intro exI [of _ "[]"]) (simp add: filled_def)
  show ?case
  proof (cases "quicWrLeft wr \<le> streamOverhead st \<or>
      quicSendBufNext (st_out st) (quicWrLeft wr - streamOverhead st) = None")
    case True
    then show ?thesis using r stop by (auto simp: fillData.simps [of st] Let_def split: if_splits)
  next
    case False
    then obtain off d where nx: "quicSendBufNext (st_out st) (quicWrLeft wr - streamOverhead st) = Some (off, d)"
      by auto
    define fin where "fin = (ctl_state (st_fin st) = QUIC_CTL_PENDING \<and> off + of_nat (length d) = sb_end (st_out st))"
    note pc = next_piece [OF inv live nx]
    have fok: "frame_ok (FStream (off > 0) True fin (st_id st) off d)" by (rule stream_frame_ok [OF inv live i pc(1)])
    have "fin \<longrightarrow> st_sendState st \<notin> {QUIC_SEND_READY, QUIC_SEND_SEND}" using inv by (auto simp: fin_def send_inv_def)
    then have sp: "speaks W st (FStream (off > 0) True fin (st_id st) off d)"
      using pc by (simp add: speaks_def fin_def)
    obtain ok wr2 where p: "putStreamFrame wr st off d fin = (ok, wr2)" by (metis surj_pair)
    note w2 = putFrame_wrote [OF wr fok p [unfolded putStreamFrame_def]]
    let ?st = "st\<lparr>st_out := quicSendBufSent (st_out st) off (length d) pn,
      st_fin := (if fin then quicCtlSent (st_fin st) pn else st_fin st)\<rparr>"
    have u: "fillData st wr pn el = (if ok then fillData ?st wr2 pn True else (st, wr2, el))"
      using False nx p by (simp add: fillData.simps [of st] Let_def fin_def [symmetric] split: bool.split)
    show ?thesis
    proof (cases ok)
      case no: False
      then show ?thesis using r u w2 stop by simp
    next
      case True
      have fl: "filled W st ?st" by (rule sent_piece [OF inv nx]) (simp add: fin_def)
      have w: "wrote wr wr2 [FStream (off > 0) True fin (st_id st) off d]" using w2 True by simp
      have "\<exists>fs. wrote wr2 wr1 fs \<and> (\<forall>f\<in>set fs. speaks W ?st f) \<and> filled W ?st st1"
      proof (rule "1.IH" [OF refl refl _ nx refl])
        show "fillData ?st wr2 pn True = (st1, wr1, el1)" using r u True by simp
      qed (use False p True fl live i wrote_again [OF w] in \<open>simp_all add: fin_def filled_def\<close>)
      then obtain fs where fs: "wrote wr2 wr1 fs" "\<forall>f\<in>set fs. speaks W ?st f" "filled W ?st st1" by blast
      from wrote_trans [OF w fs(1)] fs(2,3) sp filled_speaks [OF fl] filled_trans [OF fl]
      show ?thesis by (intro exI [of _ "FStream (off > 0) True fin (st_id st) off d # fs"]) simp
    qed
  qed
qed

lemma fillStreamData_wrote:
  assumes inv: "send_inv W st" and i: "varint_ok (st_id st)" and wr: "wrote wr wr []"
    and r: "fillStreamData st wr pn el = (st2, wr2, el2)"
  shows "\<exists>fs. wrote wr wr2 fs \<and> (\<forall>f\<in>set fs. speaks W st f) \<and> filled W st st2"
proof (cases "st_sendState st = QUIC_SEND_SEND \<or> st_sendState st = QUIC_SEND_DATA_SENT")
  case False
  then show ?thesis
    using r wr inv by (intro exI [of _ "[]"]) (auto simp: fillStreamData_def filled_def split: if_splits)
next
  case True
  then have live: "st_sendState st \<notin> {QUIC_SEND_RESET_SENT, QUIC_SEND_RESET_DONE}" by auto
  obtain st1 wr1 el1 where d: "fillData st wr pn el = (st1, wr1, el1)" by (metis prod_cases3)
  obtain fs where fs: "wrote wr wr1 fs" "\<forall>f\<in>set fs. speaks W st f" "filled W st st1"
    using fillData_wrote [OF inv live i wr d] by blast
  show ?thesis
  proof (cases "ctl_state (st_fin st1) = QUIC_CTL_PENDING \<and> \<not> quicSendBufPending (st_out st1)")
    case no: False
    then have "st2 = st1" "wr2 = wr1" using r d True by (auto simp: fillStreamData_def split: if_splits)
    with fs show ?thesis by blast
  next
    case fin: True
    let ?f = "FStream (sb_end (st_out st1) > 0) True True (st_id st1) (sb_end (st_out st1)) []"
    have inv1: "send_inv W st1" and st1: "st_sendState st1 = st_sendState st" "st_id st1 = st_id st"
      using fs(3) by (simp_all add: filled_def)
    then have e: "unat (sb_end (st_out st1)) = length W" and ds: "st_sendState st1 \<notin> {QUIC_SEND_READY, QUIC_SEND_SEND}"
      using live fin by (auto simp: send_inv_def)
    have fok: "frame_ok ?f" using stream_frame_ok [OF inv1, of "sb_end (st_out st1)" "[]"] live i st1 e by simp
    have sp: "speaks W st ?f" using filled_speaks [OF fs(3)] e ds by (simp add: speaks_def st1)
    obtain ok wr3 where p: "putStreamFrame wr1 st1 (sb_end (st_out st1)) [] True = (ok, wr3)" by (metis surj_pair)
    note w3 = putFrame_wrote [OF wrote_again [OF fs(1)] fok p [unfolded putStreamFrame_def]]
    have eq: "(st2, wr2, el2) = (if ok then (st1\<lparr>st_fin := quicCtlSent (st_fin st1) pn\<rparr>, wr3, True) else (st1, wr3, el1))"
      using r d True fin p by (auto simp: fillStreamData_def split: bool.splits)
    have "send_inv W (st1\<lparr>st_fin := quicCtlSent (st_fin st1) pn\<rparr>)" using inv1 fin by (simp add: send_inv_def)
    then have "filled W st1 (st1\<lparr>st_fin := quicCtlSent (st_fin st1) pn\<rparr>)" by (simp add: filled_def)
    from filled_trans [OF fs(3) this] fs w3 eq sp wrote_trans [OF fs(1), of wr3 "[?f]"] show ?thesis
      by (cases ok) (force intro: exI [of _ "fs @ [?f]"], auto)
  qed
qed



section \<open>All the frames of a stream\<close>

lemma ctl_frames_ok:
  assumes "send_inv W st" "varint_ok (st_id st)" "varint_ok (ra_limit (st_in st))"
  shows "frame_ok (FStopSending (st_id st) (st_stopError st))"
    "frame_ok (FMaxStreamData (st_id st) (ra_limit (st_in st)))"
    "frame_ok (FResetStream (st_id st) (st_resetError st) (st_sendFinal st))"
    "frame_ok (FStreamDataBlocked (st_id st) (st_sendMax st))"
  using assms max_varint [of "st_sendMax st" "st_sendFinal st"]
  by (simp_all add: frame_ok_def frame_fits_def frame_valid_def frame_checked_def frame_delimited_def send_inv_def)

lemma fillStream_wrote:
  assumes inv: "send_inv W st" and ok: "varint_ok (st_id st)" "varint_ok (ra_limit (st_in st))"
    and wr: "wrote wr wr []" and r: "fillStream st wr pn el = (st2, wr5, el5)"
  shows "\<exists>fs. wrote wr wr5 fs \<and> (\<forall>f\<in>set fs. speaks W st f) \<and> filled W st st2"
proof -
  note ctl = ctl_frames_ok [OF inv ok]
  obtain wr1 c1 el1 where p1: "putCtl wr (st_stopSending st) (FStopSending (st_id st) (st_stopError st)) pn el = (wr1, c1, el1)"
    by (metis prod_cases3)
  obtain f1 where f1: "wrote wr wr1 f1" "set f1 \<subseteq> {FStopSending (st_id st) (st_stopError st)}"
    using putCtl_wrote(1) [OF wr ctl(1) p1] by blast
  obtain wr2 c2 el2 where p2: "putCtl wr1 (st_maxData st) (FMaxStreamData (st_id st) (ra_limit (st_in st))) pn el1 = (wr2, c2, el2)"
    by (metis prod_cases3)
  obtain f2 where f2: "wrote wr1 wr2 f2" "set f2 \<subseteq> {FMaxStreamData (st_id st) (ra_limit (st_in st))}"
    using putCtl_wrote(1) [OF wrote_again [OF f1(1)] ctl(2) p2] by blast
  let ?rs = "FResetStream (st_id st) (st_resetError st) (st_sendFinal st)"
  obtain wr3 c3 el3 where p3: "(if ctl_state (st_reset st) \<noteq> QUIC_CTL_IDLE then putCtl wr2 (st_reset st) ?rs pn el2
      else (wr2, st_reset st, el2)) = (wr3, c3, el3)" by (metis prod_cases3)
  obtain f3 where f3: "wrote wr2 wr3 f3" "set f3 \<subseteq> {?rs}" "f3 \<noteq> [] \<longrightarrow> ctl_state (st_reset st) \<noteq> QUIC_CTL_IDLE"
    and c3: "ctl_state c3 = QUIC_CTL_IDLE \<longleftrightarrow> ctl_state (st_reset st) = QUIC_CTL_IDLE"
  proof (cases "ctl_state (st_reset st) = QUIC_CTL_IDLE")
    case True
    then show ?thesis using that [of "[]"] p3 wrote_again [OF f2(1)] by simp
  next
    case False
    then have p: "putCtl wr2 (st_reset st) ?rs pn el2 = (wr3, c3, el3)" using p3 by simp
    from putCtl_wrote [OF wrote_again [OF f2(1)] ctl(3) p] False that show ?thesis by blast
  qed
  obtain wr4 c4 el4 where p4: "putCtl wr3 (st_blocked st) (FStreamDataBlocked (st_id st) (st_sendMax st)) pn el3 = (wr4, c4, el4)"
    by (metis prod_cases3)
  obtain f4 where f4: "wrote wr3 wr4 f4" "set f4 \<subseteq> {FStreamDataBlocked (st_id st) (st_sendMax st)}"
    using putCtl_wrote(1) [OF wrote_again [OF f3(1)] ctl(4) p4] by blast
  let ?st = "st\<lparr>st_stopSending := c1, st_maxData := c2, st_reset := c3, st_blocked := c4\<rparr>"
  have fd: "fillStreamData ?st wr4 pn el4 = (st2, wr5, el5)"
    using r unfolding fillStream_def p1 prod.case p2 p3 p4 .
  have inv': "send_inv W ?st" using inv c3 by (simp add: send_inv_def)
  obtain f5 where f5: "wrote wr4 wr5 f5" "\<forall>f\<in>set f5. speaks W ?st f" "filled W ?st st2"
    using fillStreamData_wrote [OF inv' _ wrote_again [OF f4(1)] fd] ok by auto
  have fl: "filled W st ?st" using inv' by (simp add: filled_def)
  have "speaks W st ?rs" if "ctl_state (st_reset st) \<noteq> QUIC_CTL_IDLE"
    using inv that by (auto simp: speaks_def send_inv_def)
  moreover have "speaks W st (FStopSending (st_id st) (st_stopError st))"
    "speaks W st (FMaxStreamData (st_id st) (ra_limit (st_in st)))"
    "speaks W st (FStreamDataBlocked (st_id st) (st_sendMax st))" by (simp_all add: speaks_def)
  ultimately have "\<forall>f\<in>set (f1 @ f2 @ f3 @ f4 @ f5). speaks W st f"
    using f1(2) f2(2) f3(2,3) f4(2) f5(2) filled_speaks [OF fl] by (auto 4 3)
  moreover have "wrote wr wr5 (f1 @ f2 @ f3 @ f4 @ f5)"
    using wrote_trans [OF f1(1) wrote_trans [OF f2(1) wrote_trans [OF f3(1) wrote_trans [OF f4(1) f5(1)]]]] by simp
  ultimately show ?thesis using filled_trans [OF fl f5(3)] by blast
qed


section \<open>A packet\<close>

text \<open>The limits this endpoint advertises can be written down: they are below \<open>2 ^ 62\<close>.\<close>

definition limits_ok :: "QuicStreams \<Rightarrow> bool" where
  "limits_ok ss \<longleftrightarrow> varint_ok (ss_recvMax ss) \<and> list_all (\<lambda>(i, st). varint_ok (ra_limit (st_in st))) (ss_byId ss)"

lemma limits_find: "limits_ok ss \<Longrightarrow> quicStreamFind ss i = Some st \<Longrightarrow> varint_ok (ra_limit (st_in st))"
  by (auto simp: limits_ok_def quicStreamFind_def list_all_iff dest: map_of_SomeD)

lemma used_varint:
  assumes "counts_ok ss" "used ss i"
  shows "varint_ok i"
proof -
  have "quicStreamIndex i < push_bit 60 1"
    using assms by (auto simp: counts_ok_def used_def intro: order_less_le_trans order_trans split: if_splits)
  then have "unat (i div 4) < 2 ^ 60" by (simp add: quicStreamIndex_def word_less_nat_alt drop_bit_eq_div)
  then show ?thesis by (simp add: varint_ok_unat unat_div)
qed

text \<open>The frames that belong to the connection.\<close>

definition conn_frame :: "QuicStreams \<Rightarrow> QuicFrame \<Rightarrow> bool" where
  "conn_frame ss f \<longleftrightarrow>
     f = FMaxData (ss_recvMax ss) \<or> f = FDataBlocked (ss_sendMax ss) \<or>
     (\<exists>dir. f = FMaxStreams (dir = QUIC_SDIR_UNI) (ss_recvMaxStreams ss dir)) \<or>
     (\<exists>dir. f = FStreamsBlocked (dir = QUIC_SDIR_UNI) (ss_sendMaxStreams ss dir))"

lemma conn_frame_ok:
  assumes "totals_ok wlog ss" "counts_ok ss" "varint_ok (ss_recvMax ss)"
  shows "frame_ok (FMaxData (ss_recvMax ss))" "frame_ok (FDataBlocked (ss_sendMax ss))"
    "frame_ok (FMaxStreams u (ss_recvMaxStreams ss dir))" "frame_ok (FStreamsBlocked u (ss_sendMaxStreams ss dir))"
proof -
  have "varint_ok x \<and> x \<le> QUIC_MAX_STREAMS" if "x \<le> push_bit 60 1" for x :: u64
    using that by (simp add: QUIC_MAX_STREAMS_def varint_ok_unat word_le_nat_alt)
  then show "frame_ok (FMaxData (ss_recvMax ss))" "frame_ok (FDataBlocked (ss_sendMax ss))"
    "frame_ok (FMaxStreams u (ss_recvMaxStreams ss dir))" "frame_ok (FStreamsBlocked u (ss_sendMaxStreams ss dir))"
    using assms
    by (simp_all add: frame_ok_def frame_fits_def frame_valid_def frame_checked_def frame_delimited_def
        totals_ok_def counts_ok_def)
qed


text \<open>Only the state of the connection's own frames changes.\<close>

definition ctl_only :: "QuicStreams \<Rightarrow> QuicStreams \<Rightarrow> bool" where
  "ctl_only ss ss1 \<longleftrightarrow> (\<exists>a b c d. ss1 = ss\<lparr>ss_maxData := a, ss_dataBlocked := b, ss_maxStreams := c, ss_streamsBlocked := d\<rparr>)"

lemma ctl_only_fields:
  assumes "ctl_only ss ss1"
  shows "same_table ss ss1" "totals_ok wlog ss1 = totals_ok wlog ss" "ss_recvOff ss1 = ss_recvOff ss"
    "ss_recvRead ss1 = ss_recvRead ss" "ss_recvMax ss1 = ss_recvMax ss" "ss_sendMax ss1 = ss_sendMax ss"
    "conn_frame ss1 f = conn_frame ss f" "counts_ok ss1 = counts_ok ss"
  using assms by (auto simp: ctl_only_def same_table_def totals_ok_def conn_frame_def counts_ok_def)

lemma ctl_only_trans: "ctl_only a b \<Longrightarrow> ctl_only b c \<Longrightarrow> ctl_only a c"
  unfolding ctl_only_def by fastforce

lemma fillDir_wrote:
  assumes ok: "totals_ok wlog ss" "counts_ok ss" "varint_ok (ss_recvMax ss)" and wr: "wrote wr wr []"
    and r: "fillDir pn dir (ss, wr, el) = (ss1, wr2, el2)"
  shows "(\<exists>fs. wrote wr wr2 fs \<and> (\<forall>f\<in>set fs. conn_frame ss f)) \<and> ctl_only ss ss1"
proof -
  note fok = conn_frame_ok [OF ok]
  let ?f1 = "FMaxStreams (dir = QUIC_SDIR_UNI) (ss_recvMaxStreams ss dir)"
  let ?f2 = "FStreamsBlocked (dir = QUIC_SDIR_UNI) (ss_sendMaxStreams ss dir)"
  obtain wr1 c1 el1 where p1: "putCtl wr (ss_maxStreams ss dir) ?f1 pn el = (wr1, c1, el1)" by (metis prod_cases3)
  obtain a where a: "wrote wr wr1 a" "set a \<subseteq> {?f1}" using putCtl_wrote(1) [OF wr fok(3) p1] by blast
  obtain wr3 c2 el3 where p2: "putCtl wr1 (ss_streamsBlocked ss dir) ?f2 pn el1 = (wr3, c2, el3)" by (metis prod_cases3)
  obtain b where b: "wrote wr1 wr3 b" "set b \<subseteq> {?f2}" using putCtl_wrote(1) [OF wrote_again [OF a(1)] fok(4) p2] by blast
  have eq: "wr2 = wr3" "ss1 = ss\<lparr>ss_maxStreams := (ss_maxStreams ss)(dir := c1),
      ss_streamsBlocked := (ss_streamsBlocked ss)(dir := c2)\<rparr>"
    using r by (simp_all add: fillDir_def p1 p2)
  have "conn_frame ss ?f1" "conn_frame ss ?f2" unfolding conn_frame_def by blast+
  then have "\<forall>f\<in>set (a @ b). conn_frame ss f" using a(2) b(2) by auto
  moreover have "ctl_only ss ss1"
    unfolding ctl_only_def eq
    by (rule exI [of _ "ss_maxData ss"], rule exI [of _ "ss_dataBlocked ss"]) auto
  ultimately show ?thesis using wrote_trans [OF a(1) b(1)] eq(1) by blast
qed

lemma fillConn_wrote:
  assumes ok: "totals_ok wlog ss" "counts_ok ss" "varint_ok (ss_recvMax ss)" and wr: "wrote wr wr []"
    and r: "fillConn ss wr pn el = (ss3, wr5, el5)"
  shows "(\<exists>fs. wrote wr wr5 fs \<and> (\<forall>f\<in>set fs. conn_frame ss f)) \<and> ctl_only ss ss3"
proof -
  note fok = conn_frame_ok [OF ok]
  obtain wr1 c1 el1 where p1: "putCtl wr (ss_maxData ss) (FMaxData (ss_recvMax ss)) pn el = (wr1, c1, el1)"
    by (metis prod_cases3)
  obtain a where a: "wrote wr wr1 a" "set a \<subseteq> {FMaxData (ss_recvMax ss)}"
    using putCtl_wrote(1) [OF wr fok(1) p1] by blast
  obtain wr2 c2 el2 where p2: "putCtl wr1 (ss_dataBlocked ss) (FDataBlocked (ss_sendMax ss)) pn el1 = (wr2, c2, el2)"
    by (metis prod_cases3)
  obtain b where b: "wrote wr1 wr2 b" "set b \<subseteq> {FDataBlocked (ss_sendMax ss)}"
    using putCtl_wrote(1) [OF wrote_again [OF a(1)] fok(2) p2] by blast
  let ?ss = "ss\<lparr>ss_maxData := c1, ss_dataBlocked := c2\<rparr>"
  have o0: "ctl_only ss ?ss"
    unfolding ctl_only_def by (rule exI [of _ c1], rule exI [of _ c2], rule exI [of _ "ss_maxStreams ss"],
      rule exI [of _ "ss_streamsBlocked ss"]) simp
  note k0 = ctl_only_fields [OF o0]
  obtain ss1 wr3 el3 where d1: "fillDir pn QUIC_SDIR_BIDI (?ss, wr2, el2) = (ss1, wr3, el3)" by (metis prod_cases3)
  obtain c where c: "wrote wr2 wr3 c" "\<forall>f\<in>set c. conn_frame ss f" and o1: "ctl_only ?ss ss1"
    using fillDir_wrote [of wlog, OF _ _ _ wrote_again [OF b(1)] d1] ok k0(2,5,7,8) by auto
  note k1 = ctl_only_fields [OF o1]
  have d2: "fillDir pn QUIC_SDIR_UNI (ss1, wr3, el3) = (ss3, wr5, el5)"
    using r by (simp add: fillConn_def p1 p2 d1)
  obtain d where d: "wrote wr3 wr5 d" "\<forall>f\<in>set d. conn_frame ss f" and o2: "ctl_only ss1 ss3"
    using fillDir_wrote [of wlog, OF _ _ _ wrote_again [OF c(1)] d2] ok k0(2,5,7,8) k1(2,5,7,8) by auto
  have "conn_frame ss (FMaxData (ss_recvMax ss))" "conn_frame ss (FDataBlocked (ss_sendMax ss))"
    by (simp_all add: conn_frame_def)
  then have "\<forall>f\<in>set (a @ b @ c @ d). conn_frame ss f" using a(2) b(2) c(2) d(2) by auto
  moreover have "wrote wr wr5 (a @ b @ c @ d)"
    using wrote_trans [OF a(1) wrote_trans [OF b(1) wrote_trans [OF c(1) d(1)]]] by simp
  moreover have "ctl_only ss ss3" using o0 o1 o2 ctl_only_trans by blast
  ultimately show ?thesis by blast
qed

text \<open>Every stream that is left is one that was there, with the same data.\<close>

definition kept :: "(u64 \<times> u8) list \<Rightarrow> QuicStreams \<Rightarrow> QuicStreams \<Rightarrow> bool" where
  "kept wlog ss ss2 \<longleftrightarrow> ss_recvMax ss2 = ss_recvMax ss \<and> used ss2 = used ss \<and>
     (\<forall>i st2. quicStreamFind ss2 i = Some st2 \<longrightarrow>
        (\<exists>st. quicStreamFind ss i = Some st \<and> filled (of_stream i wlog) st st2))"

lemma kept_trans: "kept wlog a b \<Longrightarrow> kept wlog b c \<Longrightarrow> kept wlog a c"
  unfolding kept_def by (metis filled_trans)

lemma inv_filled: "streams_inv wlog ss \<Longrightarrow> quicStreamFind ss i = Some st \<Longrightarrow> filled (of_stream i wlog) st st"
  using open_parts(2) [OF open_stream(1)] open_stream(2) by (fastforce simp: filled_def)

lemma limits_iff:
  assumes "streams_inv wlog ss"
  shows "limits_ok ss \<longleftrightarrow> varint_ok (ss_recvMax ss) \<and>
    (\<forall>i st. quicStreamFind ss i = Some st \<longrightarrow> varint_ok (ra_limit (st_in st)))"
proof -
  have "distinct (map fst (ss_byId ss))" using assms unfolding streams_inv_def shared_inv_def by blast
  then show ?thesis by (auto simp: limits_ok_def list_all_iff quicStreamFind_def dest: map_of_SomeD)
qed

lemma kept_limits:
  assumes "streams_inv wlog ss" "streams_inv wlog ss2" "kept wlog ss ss2" "limits_ok ss"
  shows "limits_ok ss2"
  using assms(3,4) unfolding limits_iff [OF assms(1)] limits_iff [OF assms(2)] kept_def
  by (metis filled_def)

lemma settle_find:
  "quicStreamFind (streamSettle ss st) i = Some sx \<Longrightarrow> i = st_id st \<and> sx = st \<or> i \<noteq> st_id st \<and> quicStreamFind ss i = Some sx"
  "ss_recvMax (streamSettle ss st) = ss_recvMax ss" "used (streamSettle ss st) = used ss"
  by (auto simp: used_def fun_eq_iff streamSettle_def Let_def streamsGrantMore_def streamHook_def streamFree_def quicStreamFind_def
      delete_conv' setStream_def update_conv' split: if_splits)


text \<open>One visit of the loop: the stream at the head of the active list.\<close>

lemma visit_wrote:
  fixes a :: "u64 list"
  assumes inv: "streams_inv wlog ss" and lim: "limits_ok ss" and wr: "wrote wr wr []"
    and st: "quicStreamFind ss i = Some st" and r: "fillStream st wr pn el = (st1, wr1, el1)"
  defines "ss2 \<equiv> (if streamPending st1 \<or> streamOutstanding st1
    then setStream (ss\<lparr>ss_active := a\<rparr>) st1 else streamSettle ss (st1\<lparr>st_active := False\<rparr>))"
  shows "\<exists>fs. wrote wr wr1 fs \<and> (\<forall>f\<in>set fs. speaks (of_stream i wlog) st f)"
    "streams_inv wlog ss2" "kept wlog ss ss2"
proof -
  note o = open_stream [OF inv st]
  note p = open_parts [OF o(1)]
  let ?W = "of_stream i wlog"
  have inv_s: "send_inv ?W st" using p(2) o(2) by simp
  have ok: "varint_ok (st_id st)" "varint_ok (ra_limit (st_in st))"
    using used_varint [OF _ p(4)] p(5) limits_find [OF lim st] by (simp_all add: shared_inv_def)
  obtain fs where fs: "wrote wr wr1 fs" "\<forall>f\<in>set fs. speaks ?W st f" "filled ?W st st1"
    using fillStream_wrote [OF inv_s ok wr r] by blast
  then show "\<exists>fs. wrote wr wr1 fs \<and> (\<forall>f\<in>set fs. speaks ?W st f)" by blast
  have o1: "open_inv wlog ss st1"
    by (rule open_send [OF o(1)]) (use fs(3) o(2) filled_recv [OF fs(3)] in \<open>simp_all add: filled_def\<close>)
  then have o2: "open_inv wlog ss (st1\<lparr>st_active := False\<rparr>)"
    by (rule open_send) (use open_parts(2) [OF o1] in \<open>simp_all add: send_inv_def recv_inv_def\<close>)
  have "open_inv wlog (ss\<lparr>ss_active := a\<rparr>) st1" by (rule open_quiet [OF o1]) simp_all
  then show "streams_inv wlog ss2" using settle_inv [OF o2] close_stream by (simp add: ss2_def)
  have "send_inv ?W (st1\<lparr>st_active := False\<rparr>) = send_inv ?W st1" by (simp add: send_inv_def)
  then have f2: "filled ?W st (st1\<lparr>st_active := False\<rparr>)" using fs(3) by (simp add: filled_def)
  have id1: "st_id st1 = i" using fs(3) o(2) by (simp add: filled_def)
  have "\<exists>st0. quicStreamFind ss j = Some st0 \<and> filled (of_stream j wlog) st0 sx"
    if f: "quicStreamFind ss2 j = Some sx" for j sx
  proof (cases "streamPending st1 \<or> streamOutstanding st1")
    case True
    then have "quicStreamFind (setStream (ss\<lparr>ss_active := a\<rparr>) st1) j = Some sx" using f by (simp add: ss2_def)
    then have "j = i \<and> sx = st1 \<or> quicStreamFind ss j = Some sx"
      by (simp add: id1 split: if_splits) (simp add: quicStreamFind_def)
    then show ?thesis using st fs(3) inv_filled [OF inv] by blast
  next
    case False
    then have "quicStreamFind (streamSettle ss (st1\<lparr>st_active := False\<rparr>)) j = Some sx" using f by (simp add: ss2_def)
    from settle_find(1) [OF this] have "j = i \<and> sx = st1\<lparr>st_active := False\<rparr> \<or> quicStreamFind ss j = Some sx"
      by (simp add: id1) blast
    then show ?thesis using st f2 inv_filled [OF inv] by blast
  qed
  moreover have "used (setStream (ss\<lparr>ss_active := a\<rparr>) st1) = used ss" by (simp add: fun_eq_iff used_def)
  ultimately show "kept wlog ss ss2" by (simp add: kept_def ss2_def settle_find(2,3))
qed

definition says :: "(u64 \<times> u8) list \<Rightarrow> QuicStreams \<Rightarrow> QuicFrame \<Rightarrow> bool" where
  "says wlog ss f \<longleftrightarrow> (\<exists>i st. quicStreamFind ss i = Some st \<and> speaks (of_stream i wlog) st f)"

lemma kept_says: "kept wlog ss ss2 \<Longrightarrow> says wlog ss2 f \<Longrightarrow> says wlog ss f"
  unfolding kept_def says_def by (metis filled_speaks)

lemma fillVisits_wrote:
  assumes "streams_inv wlog ss" "limits_ok ss" "wrote wr wr []" "fillVisits n ss wr pn el = (ss2, wr2, el2)"
  shows "(\<exists>fs. wrote wr wr2 fs \<and> (\<forall>f\<in>set fs. says wlog ss f)) \<and> streams_inv wlog ss2 \<and> kept wlog ss ss2"
  using assms
proof (induction n arbitrary: ss wr el)
  case 0
  then have "ss2 = ss" "wr2 = wr" by simp_all
  moreover have "kept wlog ss ss" using inv_filled [OF 0(1)] by (auto simp: kept_def)
  ultimately show ?case using 0(1,3) by (auto intro: exI [of _ "[]"])
next
  case (Suc n)
  have refl: "kept wlog ss ss" using inv_filled [OF Suc.prems(1)] by (auto simp: kept_def)
  have stop: ?case if "ss2 = ss" "wr2 = wr" using that refl Suc.prems(1,3) by (auto intro: exI [of _ "[]"])
  show ?case
  proof (cases "ss_active ss")
    case Nil
    then show ?thesis using Suc.prems(4) stop by simp
  next
    case (Cons i rest)
    define ss1 where "ss1 = ss\<lparr>ss_active := rest\<rparr>"
    have inv1: "streams_inv wlog ss1" unfolding ss1_def by (rule quiet_inv [OF Suc.prems(1)]) simp_all
    have find1: "quicStreamFind ss1 j = quicStreamFind ss j" for j by (simp add: ss1_def quicStreamFind_def)
    have k1: "kept wlog ss ss1" using refl by (simp add: kept_def find1) (simp add: ss1_def used_def fun_eq_iff)
    have lim1: "limits_ok ss1" by (rule kept_limits [OF Suc.prems(1) inv1 k1 Suc.prems(2)])
    show ?thesis
    proof (cases "quicWrLeft wr < QUIC_STREAM_MIN_FRAME")
      case True
      then show ?thesis using Suc.prems(4) Cons stop by simp
    next
      case room: False
      show ?thesis
      proof (cases "quicStreamFind ss1 i")
        case None
        then have "fillVisits n ss1 wr pn el = (ss2, wr2, el2)"
          using Suc.prems(4) Cons room by (simp add: ss1_def [symmetric] Let_def)
        from Suc.IH [OF inv1 lim1 Suc.prems(3) this] kept_trans [OF k1] kept_says [OF k1] show ?thesis by blast
      next
        case (Some st)
        obtain st1 wr1 el1 where r: "fillStream st wr pn el = (st1, wr1, el1)" by (metis prod_cases3)
        note v = visit_wrote [OF inv1 lim1 Suc.prems(3) Some r]
        obtain fs where fs: "wrote wr wr1 fs" "\<forall>f\<in>set fs. speaks (of_stream i wlog) st f" using v(1) by blast
        have s1: "\<forall>f\<in>set fs. says wlog ss f" using fs(2) Some find1 unfolding says_def by auto
        let ?ss = "if streamPending st1 \<or> streamOutstanding st1
          then setStream (ss1\<lparr>ss_active := ss_active ss1 @ [i]\<rparr>) st1 else streamSettle ss1 (st1\<lparr>st_active := False\<rparr>)"
        have k2: "kept wlog ss ?ss" by (rule kept_trans [OF k1 v(3)])
        have "fillVisits n ?ss wr1 pn el1 = (ss2, wr2, el2)"
          using Suc.prems(4) room unfolding fillVisits.simps Cons list.case Let_def ss1_def [symmetric] Some option.case
            r prod.case by simp
        from Suc.IH [OF v(2) kept_limits [OF inv1 v(2,3) lim1] wrote_again [OF fs(1)] this]
        obtain gs where gs: "wrote wr1 wr2 gs" "\<forall>f\<in>set gs. says wlog ?ss f"
          "streams_inv wlog ss2" "kept wlog ?ss ss2" by blast
        have "\<forall>f\<in>set (fs @ gs). says wlog ss f" using s1 gs(2) kept_says [OF k2] by auto
        with wrote_trans [OF fs(1) gs(1)] gs(3) kept_trans [OF k2 gs(4)] show ?thesis by blast
      qed
    qed
  qed
qed

text \<open>
  A packet filled by the stream layer: the decoder of the peer reads it as a sequence of frames, to its
  end and without an error; each of them is about the connection, or says what a stream holds.
\<close>

lemma quicStreamsFill_frames:
  assumes inv: "streams_inv wlog ss" and lim: "limits_ok ss" and r: "quicStreamsFill ss bufsz pn = (out, el, ss2)"
  shows "\<exists>fs. frames_of (quicRdInit out) = (fs, \<lparr>rd_buf = out, rd_p = length out, rd_bad = False\<rparr>) \<and>
      list_all frame_ok fs \<and> (\<forall>f\<in>set fs. conn_frame ss f \<or> says wlog ss f)"
    "length out \<le> bufsz" "streams_inv wlog ss2" "kept wlog ss ss2"
proof -
  define wr where "wr = quicWrInit (replicate bufsz (0 :: u8))"
  have wr: "wrote wr wr []" by (simp add: wr_def wrote_def)
  have ok: "totals_ok wlog ss" "counts_ok ss" "varint_ok (ss_recvMax ss)"
    using inv lim unfolding streams_inv_def shared_inv_def limits_ok_def by blast+
  obtain ss1 wr1 el1 where c: "fillConn ss wr pn False = (ss1, wr1, el1)" by (metis prod_cases3)
  obtain a where a: "wrote wr wr1 a" "\<forall>f\<in>set a. conn_frame ss f" and co: "ctl_only ss ss1"
    using fillConn_wrote [OF ok wr c] by blast
  note k = ctl_only_fields [OF co]
  have inv1: "streams_inv wlog ss1" by (rule quiet_inv [OF inv]) (simp_all add: k)
  have find1: "quicStreamFind ss1 j = quicStreamFind ss j" for j using k(1) by (simp add: quicStreamFind_def same_table_def)
  have "used ss1 = used ss" using used_cong [of ss1 ss] k(1) by (auto simp: same_table_def)
  then have k1: "kept wlog ss ss1" using inv_filled [OF inv] by (auto simp: kept_def find1 k)
  obtain ss3 wr2 el2 where v: "fillVisits (length (ss_active ss1)) ss1 wr1 pn el1 = (ss3, wr2, el2)" by (metis prod_cases3)
  obtain b where b: "wrote wr1 wr2 b" "\<forall>f\<in>set b. says wlog ss1 f" "streams_inv wlog ss3" "kept wlog ss1 ss3"
    using fillVisits_wrote [OF inv1 kept_limits [OF inv inv1 k1 lim] wrote_again [OF a(1)] v] by blast
  have out: "out = wr_out wr2" "ss2 = ss3" using r c v by (simp_all add: quicStreamsFill_def wr_def quicWrLen_def wr_out_def)
  have w: "wrote wr wr2 (a @ b)" by (rule wrote_trans [OF a(1) b(1)])
  then have o: "out = concat (map frame_bytes (a @ b))" "list_all frame_ok (a @ b)"
    by (simp_all add: wrote_def out(1) wr_def)
  have "\<forall>f\<in>set (a @ b). conn_frame ss f \<or> says wlog ss f" using a(2) b(2) kept_says [OF k1] by auto
  moreover have "frames_of (quicRdInit out) = (a @ b, \<lparr>rd_buf = out, rd_p = length out, rd_bad = False\<rparr>)"
    using frames_of_mk [of "a @ b" "[]"] o by (simp add: quicRdInit_mk rd_mk_def frame_ok_def [abs_def])
  ultimately show "\<exists>fs. frames_of (quicRdInit out) = (fs, \<lparr>rd_buf = out, rd_p = length out, rd_bad = False\<rparr>) \<and>
      list_all frame_ok fs \<and> (\<forall>f\<in>set fs. conn_frame ss f \<or> says wlog ss f)" using o(2) by blast
  show "streams_inv wlog ss2" "kept wlog ss ss2" using b(3,4) out(2) kept_trans [OF k1] by simp_all
  have "wr_wf wr2" "length (wr_buf wr2) = bufsz" using w by (simp_all add: wrote_def wr_def quicWrInit_def)
  then show "length out \<le> bufsz" unfolding out(1) using length_wr_out [of wr2] by (simp add: wr_wf_def)
qed

end
