(* ===== verification/QuicStreamRun.thy ===== *)
theory QuicStreamRun
  imports QuicStreamFill
begin

text \<open>
  Runs of the stream layer: any sequence of the calls the connection and the application make. Two
  endpoints joined by a network that loses, repeats and reorders packets deliver what was written.
\<close>

section \<open>How streams change\<close>

text \<open>The sending half takes no more data.\<close>

definition sclosed :: "QuicStreamState \<Rightarrow> bool" where
  "sclosed st \<longleftrightarrow> st_sendState st \<notin> {QUIC_SEND_READY, QUIC_SEND_SEND}"

text \<open>
  What the receiving half holds and has handed out is part of the stream \<open>W\<close>: the bytes that wait are at
  their place, and \<open>rd\<close>, what was read, is the beginning. The end, once known, is the end of \<open>W\<close>.
\<close>

definition got :: "u8 list \<Rightarrow> u8 list \<Rightarrow> QuicStreamState \<Rightarrow> bool" where
  "got W rd st \<longleftrightarrow>
     (\<forall>x b. reasm_view (st_in st) x = Some b \<longrightarrow> unat x < length W \<and> W ! unat x = b) \<and>
     (st_recvState st \<notin> {QUIC_RECV_RESET, QUIC_RECV_RESET_READ} \<longrightarrow>
        unat (st_recvRead st) \<le> length W \<and> rd = take (unat (st_recvRead st)) W) \<and>
     (st_recvFinalKnown st \<longrightarrow> unat (st_recvFinal st) = length W)"

definition st_step :: "u8 list \<Rightarrow> u64 \<Rightarrow> QuicStreamState \<Rightarrow> QuicStreamState \<Rightarrow> bool" where
  "st_step W i st st' \<longleftrightarrow> st_id st' = st_id st \<and> (sclosed st \<longrightarrow> sclosed st') \<and>
     (\<forall>rd. st_id st = i \<longrightarrow> got W rd st \<longrightarrow> got W rd st')"

lemma step_refl [simp]: "st_step W i st st"
  by (simp add: st_step_def)

lemma step_trans: "st_step W i a b \<Longrightarrow> st_step W i b c \<Longrightarrow> st_step W i a c"
  by (simp add: st_step_def)

text \<open>A stream on which nothing was received.\<close>

definition blank :: "QuicStreamState \<Rightarrow> bool" where
  "blank st \<longleftrightarrow> (\<forall>x. reasm_view (st_in st) x = None) \<and> st_recvRead st = 0 \<and> \<not> st_recvFinalKnown st \<and>
     st_recvState st \<notin> {QUIC_RECV_RESET, QUIC_RECV_RESET_READ}"

lemma blank_got: "blank st \<Longrightarrow> got W [] st"
  by (simp add: blank_def got_def)

text \<open>
  From one state of the layer to the next: no identifier is forgotten, and every stream comes from one that
  was there, or from a new one.
\<close>

definition evolve :: "u8 list \<Rightarrow> u64 \<Rightarrow> QuicStreams \<Rightarrow> QuicStreams \<Rightarrow> bool" where
  "evolve W i ss ss' \<longleftrightarrow> (\<forall>j. used ss j \<longrightarrow> used ss' j) \<and>
     (\<forall>j st'. quicStreamFind ss' j = Some st' \<longrightarrow>
        (\<exists>st. (quicStreamFind ss j = Some st \<or> \<not> used ss j \<and> blank st \<and> st_id st = j) \<and> st_step W i st st'))"

lemma evolve_trans:
  assumes "evolve W i a b" "evolve W i b c"
  shows "evolve W i a c"
proof -
  have "\<exists>st. (quicStreamFind a j = Some st \<or> \<not> used a j \<and> blank st \<and> st_id st = j) \<and> st_step W i st st'"
    if c: "quicStreamFind c j = Some st'" for j st'
  proof -
    from assms(2) c obtain st1 where "quicStreamFind b j = Some st1 \<or> \<not> used b j \<and> blank st1 \<and> st_id st1 = j" "st_step W i st1 st'"
      unfolding evolve_def by blast
    then show ?thesis using assms(1) step_trans unfolding evolve_def by blast
  qed
  then show ?thesis using assms unfolding evolve_def by blast
qed

lemma evolve_same:
  assumes "ss_byId ss' = ss_byId ss" "used ss' = used ss"
  shows "evolve W i ss ss'"
proof -
  have "quicStreamFind ss' j = quicStreamFind ss j" for j using assms(1) by (simp add: quicStreamFind_def)
  with assms(2) show ?thesis unfolding evolve_def by (metis step_refl)
qed

lemma evolve_table: "same_table ss ss' \<Longrightarrow> evolve W i ss ss'"
  using used_cong [of ss' ss] by (intro evolve_same) (auto simp: same_table_def)

lemma same_used: "same_table ss ss' \<Longrightarrow> used ss' = used ss"
  using used_cong [of ss' ss] by (auto simp: same_table_def)

lemma used_setStream: "used (setStream ss st) = used ss"
  by (simp add: used_def fun_eq_iff)

text \<open>One stream is taken out, changed, and put back or forgotten.\<close>

lemma evolve_put:
  assumes "same_table ss X" "quicStreamFind ss j = Some st" "st_step W i st st'" "st_id st = j"
  shows "evolve W i ss (setStream X st')" "evolve W i ss (streamSettle X st')"
proof -
  have f: "quicStreamFind X k = quicStreamFind ss k" for k using assms(1) by (simp add: quicStreamFind_def same_table_def)
  have id: "st_id st' = j" using assms(3,4) by (simp add: st_step_def)
  have u: "used (setStream X st') = used ss" "used (streamSettle X st') = used ss"
    using same_used [OF assms(1)] settle_find(3) [of X st'] used_setStream [of X st'] by simp_all
  have "quicStreamFind (setStream X st') k = Some sx \<Longrightarrow> k = j \<and> sx = st' \<or> quicStreamFind ss k = Some sx" for k sx
    by (simp add: f id split: if_splits)
  then show "evolve W i ss (setStream X st')" using assms(2,3) u(1) step_refl unfolding evolve_def by metis
  have "quicStreamFind (streamSettle X st') k = Some sx \<Longrightarrow> k = j \<and> sx = st' \<or> quicStreamFind ss k = Some sx" for k sx
    using settle_find(1) [of X st' k sx] by (auto simp: f id)
  then show "evolve W i ss (streamSettle X st')" using assms(2,3) u(2) step_refl unfolding evolve_def by metis
qed

text \<open>The receiving half as far as \<open>got\<close> looks at it.\<close>

lemma step_keep:
  assumes "st_id st' = st_id st" "sclosed st \<longrightarrow> sclosed st'" "reasm_view (st_in st') = reasm_view (st_in st)"
    "st_recvRead st' = st_recvRead st" "st_recvState st' = st_recvState st" "st_recvFinal st' = st_recvFinal st"
    "st_recvFinalKnown st' = st_recvFinalKnown st"
  shows "st_step W i st st'"
  using assms by (simp add: st_step_def got_def)

lemma step_filled: "filled V st st' \<Longrightarrow> st_step W i st st'"
  by (rule step_keep) (simp_all add: filled_def sclosed_def)



section \<open>New streams\<close>

lemma create_blank: "blank (snd (streamCreate ss j))" "st_id (snd (streamCreate ss j)) = j"
  "ss_byId (fst (streamCreate ss j)) = AList.update j (snd (streamCreate ss j)) (ss_byId ss)"
  by (simp_all add: streamCreate_def streamZero_def Let_def blank_def reasm_init setStream_def)

lemma evolve_create:
  assumes "\<not> used ss j" "ss_byId ss' = ss_byId (fst (streamCreate ss j))" "\<And>k. used ss k \<Longrightarrow> used ss' k"
  shows "evolve W i ss ss'"
proof -
  have "quicStreamFind ss' k = (if k = j then Some (snd (streamCreate ss j)) else quicStreamFind ss k)" for k
    by (simp add: quicStreamFind_def assms(2) create_blank(3) update_conv')
  then show ?thesis using assms(1,3) create_blank(1,2) step_refl unfolding evolve_def by (metis option.inject)
qed

lemma admitEach_evolve:
  assumes "streams_inv wlog ss" "unat (ss_nextRemote ss dir) = n" "m \<le> unat (ss_recvMaxStreams ss dir)"
  shows "evolve W i ss (snd (admitEach opened dir ft (map of_nat [n..<m]) ss))"
  using assms
proof (induction "m - n" arbitrary: n ss)
  case 0
  then show ?case by (simp add: evolve_same)
next
  case (Suc k)
  then have lt: "n < m" by simp
  let ?x = "of_nat n :: u64"
  have x: "?x = ss_nextRemote ss dir" using Suc.prems(2) by auto
  let ?i = "quicStreamMakeId ?x (\<not> ss_server ss) (dir = QUIC_SDIR_UNI)"
  define ss1 where "ss1 = fst (streamCreate ss ?i)"
  define ss2 where "ss2 = ss1\<lparr>ss_nextRemote := (ss_nextRemote ss1)(dir := ?x + 1)\<rparr>"
  define ss3 where "ss3 = streamHook ShOpened (SeOpened ?i) ss2"
  have t: "totals_ok wlog ss" and c: "counts_ok ss" using Suc.prems(1) unfolding streams_inv_def shared_inv_def by blast+
  have lim: "?x < ss_recvMaxStreams ss dir" using lt Suc.prems(2,3) by (simp add: x word_less_nat_alt)
  have l2: "ss_recvMaxStreams ss dir \<le> push_bit 60 1" using c by (simp add: counts_ok_def)
  note ni = next_index [OF lim l2]
  have "\<not> used ss ?i" using makeId_fields [OF ni(1)] dir_makeId [OF ni(1)] x by (cases dir) (auto simp: used_def)
  moreover have s1: "ss1 = setStream ss (snd (streamCreate ss ?i))" using create_stream(2) [OF t] by (simp add: ss1_def)
  have "used ss2 k" if "used ss k" for k
    using that ni(3) x by (auto simp: used_def ss2_def s1 split: if_splits)
  ultimately have e2: "evolve W i ss ss2"
    using create_blank(3) by (intro evolve_create [where j = ?i]) (simp_all add: ss2_def ss1_def)
  have "evolve W i ss2 ss3" unfolding ss3_def by (rule evolve_table) simp
  with e2 have e3: "evolve W i ss ss3" by (rule evolve_trans)
  have i2: "streams_inv wlog ss2"
    unfolding ss2_def ss1_def by (rule admit_new [OF Suc.prems(1) refl lim]) (simp add: x)
  then have i3: "streams_inv wlog ss3" by (simp add: ss3_def)
  have "unat (ss_recvMaxStreams ss dir) < 2 ^ 64" using unsigned_less [where 'a = nat, of "ss_recvMaxStreams ss dir"] by simp
  then have nx: "unat (ss_nextRemote ss3 dir) = Suc n"
    using lt Suc.prems(2,3) by (simp add: ss3_def ss2_def streamHook_def x unat_word_add)
  have rm: "ss_recvMaxStreams ss3 = ss_recvMaxStreams ss" by (simp add: ss3_def ss2_def s1 streamHook_def)
  have step: "admitEach opened dir ft (map of_nat [n..<m]) ss =
    (if ss_hooks ss2 ShOpened \<and> \<not> opened (ss_events ss3)
     then (False, streamsFail ss3 QUIC_ERR_STREAM_LIMIT ft)
     else admitEach opened dir ft (map of_nat [Suc n..<m]) ss3)"
    using lt create_stream(1) [OF t, of ?i]
    by (simp add: upt_conv_Cons ss3_def ss2_def ss1_def Let_def case_prod_beta)
  have "evolve W i ss (streamsFail ss3 QUIC_ERR_STREAM_LIMIT ft)"
    by (rule evolve_trans [OF e3 evolve_table]) simp
  then show ?case
    unfolding step using evolve_trans [OF e3] i3 Suc.hyps(1) [of "Suc n" ss3] Suc.hyps(2) nx rm Suc.prems(3) by simp
qed

lemma streamForFrame_evolve:
  assumes inv: "streams_inv wlog ss" and f: "streamForFrame opened ss j ft = (so, ig, ss1)"
  shows "evolve W i ss ss1" "so = Some st \<Longrightarrow> quicStreamFind ss1 j = Some st"
proof -
  have "evolve W i ss (snd (admitEach opened dir ft (map of_nat [unat (ss_nextRemote ss dir)..<Suc (unat idx)]) ss))"
    if "\<not> idx \<ge> ss_recvMaxStreams ss dir" for dir idx
    by (rule admitEach_evolve [OF inv refl]) (use that in \<open>simp add: word_le_nat_alt\<close>)
  then have "evolve W i ss (snd (streamAdmit opened ss j ft))"
    by (simp add: streamAdmit_def Let_def evolve_table)
  with f show "evolve W i ss ss1" "so = Some st \<Longrightarrow> quicStreamFind ss1 j = Some st"
    by (auto simp: streamForFrame_def evolve_same split: option.splits prod.splits bool.splits)
qed



section \<open>Frames that arrive\<close>

text \<open>A frame that, if it is about the stream \<open>i\<close>, tells the truth about \<open>W\<close>.\<close>

definition agrees :: "u8 list \<Rightarrow> u64 \<Rightarrow> QuicFrame \<Rightarrow> bool" where
  "agrees W i f \<longleftrightarrow>
     (case f of
        FStream hasOff hasLen fin j off d \<Rightarrow> j = i \<longrightarrow>
          unat off + length d \<le> length W \<and> d = take (length d) (drop (unat off) W) \<and>
          (fin \<longrightarrow> unat off + length d = length W)
      | FResetStream j err fsize \<Rightarrow> j = i \<longrightarrow> unat fsize = length W
      | _ \<Rightarrow> True)"

lemma got_put:
  assumes g: "got W rd st" and put: "put_ok (st_in st) off d r'"
    and d: "unat off + length d \<le> length W" "d = take (length d) (drop (unat off) W)"
    and st': "st_in st' = r'" "st_recvRead st' = st_recvRead st" "st_recvFinalKnown st' = st_recvFinalKnown st"
      "st_recvFinal st' = st_recvFinal st" "st_recvState st \<notin> {QUIC_RECV_RESET, QUIC_RECV_RESET_READ}"
  shows "got W rd st'"
proof -
  have "unat x < length W \<and> W ! unat x = b" if v: "reasm_view r' x = Some b" for x b
  proof (cases "reasm_view (st_in st) x = Some b")
    case True
    with g show ?thesis by (simp add: got_def)
  next
    case False
    then have p: "off \<le> x" "unat (x - off) < length d" "b = d ! unat (x - off)"
      using v put by (auto simp: put_ok_def reasm_put_def split: if_splits)
    have u: "unat off + unat (x - off) = unat x" using p(1) by (simp add: unat_word_sub word_le_nat_alt)
    with p(2) d(1) have "unat x < length W" by linarith
    moreover have "d ! unat (x - off) = W ! unat x"
      using arg_cong [OF d(2), of "\<lambda>l. l ! unat (x - off)"] p(2) d(1) u by simp
    ultimately show ?thesis using p(3) by simp
  qed
  with g st' show ?thesis by (simp add: got_def)
qed

lemma recvFinalSize_step:
  assumes "recvFinalSize ss st fsize ft = (ok, ss', st')" "st_id st = i \<longrightarrow> unat fsize = length W"
  shows "same_table ss ss'" "st_step W i st st'"
  using assms by (auto simp: recvFinalSize_def st_step_def got_def sclosed_def split: if_splits)

lemma recvAccount_step:
  assumes "recvAccount ss st fend ft = (ok, ss', st')"
  shows "same_table ss ss'" "st_step W i st st'"
  using assms by (auto simp: recvAccount_def Let_def sclosed_def split: if_splits intro!: step_keep)

lemma recvStore_step:
  assumes a: "recvStore xa ss st off d ft = (ok, ss', st')" and inv: "reasm_inv (st_in st)" "length d < 2 ^ 64"
    and d: "st_id st = i \<longrightarrow> unat off + length d \<le> length W \<and> d = take (length d) (drop (unat off) W)"
    and live: "st_recvState st \<notin> {QUIC_RECV_RESET, QUIC_RECV_RESET_READ}"
  shows "same_table ss ss'" "st_step W i st st'"
proof -
  obtain ok1 ra where r: "(if length d > 0 then quicReasmAdd xa (st_in st) off d else (True, st_in st)) = (ok1, ra)"
    by (metis surj_pair)
  note put = reasm_add_put [OF inv r]
  show "same_table ss ss'"
    using a unfolding recvStore_def r prod.case Let_def by (auto simp: recvNotify_def split: if_splits)
  have f: "st_in st' = ra" "st_recvRead st' = st_recvRead st" "st_recvFinalKnown st' = st_recvFinalKnown st"
    "st_recvFinal st' = st_recvFinal st" "st_id st' = st_id st" "st_sendState st' = st_sendState st"
    using a unfolding recvStore_def r prod.case Let_def by (auto split: if_splits)
  show "st_step W i st st'"
    using got_put [OF _ put _ _ f(1-4) live] d f(5,6) by (simp add: st_step_def sclosed_def)
qed

lemma find_same: "same_table ss ss' \<Longrightarrow> quicStreamFind ss' j = quicStreamFind ss j"
  by (simp add: same_table_def quicStreamFind_def)

lemma handleStreamData_evolve:
  assumes inv: "streams_inv wlog ss" and off: "frameOffsetOk off (of_nat (length d))" "string_ok d"
    and ag: "agrees W i (FStream hasOff hasLen fin j off d)"
  shows "evolve W i ss (snd (handleStreamData xa opened ss j off d fin ft))"
proof (cases "canRecv ss j")
  case False
  then show ?thesis by (simp add: handleStreamData_def evolve_table)
next
  case True
  obtain so ig ss1 where f: "streamForFrame opened ss j ft = (so, ig, ss1)" by (metis prod_cases3)
  note e1 = streamForFrame_evolve(1) [OF inv f, where W = W and i = i] streamForFrame_evolve(2) [OF inv f]
  show ?thesis
  proof (cases so)
    case None
    then show ?thesis using True f e1(1) by (simp add: handleStreamData_def)
  next
    case (Some st)
    have fi: "quicStreamFind ss1 j = Some st" using e1(2) Some by blast
    have o: "open_inv wlog ss1 st" and id: "st_id st = j" using streamForFrame_inv(2) [OF inv f] Some by blast+
    let ?e = "off + of_nat (length d)"
    have len: "unat off + length d < 2 ^ 64" using offset_len [OF off] by simp
    then have ue: "unat ?e = unat off + length d" by (simp add: unat_word_add unat_of_nat_small)
    show ?thesis
    proof (cases "st_recvFinalKnown st \<and> (?e > st_recvFinal st \<or> (fin \<and> ?e \<noteq> st_recvFinal st))")
      case bad: True
      then show ?thesis
        using True f Some evolve_trans [OF e1(1) evolve_table] by (simp add: handleStreamData_def Let_def)
    next
      case fits: False
      obtain ok2 ss2 st2 where g: "(if fin then recvFinalSize ss1 st ?e ft else (True, ss1, st)) = (ok2, ss2, st2)"
        by (metis prod_cases3)
      have s2: "same_table ss1 ss2" "st_step W i st st2"
        using g recvFinalSize_step [of ss1 st ?e ft ok2 ss2 st2 i W] ag id ue by (auto simp: agrees_def split: if_splits)
      obtain ok3 ss3 st3 where h: "recvAccount ss2 st2 ?e ft = (ok3, ss3, st3)" by (metis prod_cases3)
      note s3 = recvAccount_step(1) [OF h] recvAccount_step(2) [OF h, where W = W and i = i]
      obtain ok4 ss4 st4 where k: "recvStore xa ss3 st3 off d ft = (ok4, ss4, st4)" by (metis prod_cases3)
      have in3: "st_in st3 = st_in st" "st_id st3 = j"
        using g h id by (auto simp: recvFinalSize_def recvAccount_def Let_def split: if_splits)
      have res: "handleStreamData xa opened ss j off d fin ft =
        (if \<not> ok2 then (False, setStream ss2 st2) else if \<not> ok3 then (False, setStream ss3 st3)
         else if st_recvState st3 \<in> {QUIC_RECV_RESET, QUIC_RECV_RESET_READ, QUIC_RECV_DATA_READ}
         then (True, setStream ss3 st3) else (ok4, setStream ss4 st4))"
        using True f Some fits g h k by (auto simp: handleStreamData_def Let_def split: bool.splits)
      have st: "st_step W i st st3" "same_table ss1 ss3"
        using step_trans [OF s2(2) s3(2)] same_table_trans [OF s2(1) s3(1)] by simp_all
      have "reasm_inv (st_in st3)" using open_parts(3) [OF o] in3 by (simp add: recv_inv_def)
      moreover have "length d < 2 ^ 64" using len by simp
      moreover have "st_id st3 = i \<longrightarrow> unat off + length d \<le> length W \<and> d = take (length d) (drop (unat off) W)"
        using ag in3 by (simp add: agrees_def)
      ultimately have s4: "same_table ss1 ss4 \<and> st_step W i st st4"
        if "st_recvState st3 \<notin> {QUIC_RECV_RESET, QUIC_RECV_RESET_READ}"
        using recvStore_step [OF k _ _ _ that, of i W] st step_trans same_table_trans by blast
      have "evolve W i ss1 (snd (handleStreamData xa opened ss j off d fin ft))"
        unfolding res using evolve_put(1) [OF s2(1) fi s2(2) id] evolve_put(1) [OF st(2) fi st(1) id]
          evolve_put(1) [OF _ fi _ id, of ss4 W i st4] s4 by auto
      then show ?thesis by (rule evolve_trans [OF e1(1)])
    qed
  qed
qed

lemma recvRelease_table: "same_table ss (fst (recvRelease ss st n))"
  using same_table_trans [OF same_table_simps(7) same_table_simps(9)] by (simp add: recvRelease_def)

lemma handleResetStream_evolve:
  assumes inv: "streams_inv wlog ss" and ag: "agrees W i (FResetStream j err fsize)"
  shows "evolve W i ss (snd (handleResetStream opened ss j err fsize ft))"
proof (cases "canRecv ss j")
  case False
  then show ?thesis by (simp add: handleResetStream_def evolve_table)
next
  case True
  obtain so ig ss1 where f: "streamForFrame opened ss j ft = (so, ig, ss1)" by (metis prod_cases3)
  note e1 = streamForFrame_evolve(1) [OF inv f, where W = W and i = i] streamForFrame_evolve(2) [OF inv f]
  show ?thesis
  proof (cases so)
    case None
    then show ?thesis using True f e1(1) by (simp add: handleResetStream_def)
  next
    case (Some st)
    have fi: "quicStreamFind ss1 j = Some st" using e1(2) Some by blast
    have id: "st_id st = j" using streamForFrame_inv(2) [OF inv f] Some by blast
    obtain ok2 ss2 st2 where g: "recvFinalSize ss1 st fsize ft = (ok2, ss2, st2)" by (metis prod_cases3)
    have s2: "same_table ss1 ss2" "st_step W i st st2"
      using recvFinalSize_step [OF g] ag id by (auto simp: agrees_def)
    obtain ok3 ss3 st3 where h: "recvAccount ss2 st2 (st_recvFinal st2) ft = (ok3, ss3, st3)" by (metis prod_cases3)
    note s3 = recvAccount_step(1) [OF h] recvAccount_step(2) [OF h, where W = W and i = i]
    have st: "st_step W i st st3" "same_table ss1 ss3"
      using step_trans [OF s2(2) s3(2)] same_table_trans [OF s2(1) s3(1)] by simp_all
    define st' where "st' = st3\<lparr>st_recvState := QUIC_RECV_RESET, st_in := quicReasmInit (ra_limit (st_in st3))\<rparr>"
    obtain ss4 st4 where r: "recvRelease ss3 st' (st_recvFinal st3) = (ss4, st4)" by (metis surj_pair)
    have "st_step W i st3 st4"
      using r by (auto simp: recvRelease_def st'_def st_step_def sclosed_def got_def reasm_init split: if_splits)
    then have s4: "st_step W i st st4" by (rule step_trans [OF st(1)])
    have "same_table ss1 (recvNotify (streamHook ShReset (SeReset j err) ss4) st4)"
      using same_table_trans [OF st(2)] recvRelease_table [of ss3 st' "st_recvFinal st3"] r same_table_trans
        same_table_simps(3) by (metis fst_conv recvNotify_def)
    note p4 = evolve_put(1) [OF this fi s4 id]
    have res: "handleResetStream opened ss j err fsize ft =
      (if \<not> ok2 then (False, setStream ss2 st2)
       else if st_recvState st2 = QUIC_RECV_RESET \<or> st_recvState st2 = QUIC_RECV_RESET_READ
       then (True, setStream ss2 st2)
       else if \<not> ok3 then (False, setStream ss3 st3)
       else (True, setStream (recvNotify (streamHook ShReset (SeReset j err) ss4) st4) st4))"
      using True f Some g h r unfolding st'_def by (cases ok2; cases ok3; simp add: handleResetStream_def)
    have "evolve W i ss1 (snd (handleResetStream opened ss j err fsize ft))"
      unfolding res using evolve_put(1) [OF s2(1) fi s2(2) id] evolve_put(1) [OF st(2) fi st(1) id] p4 by auto
    then show ?thesis by (rule evolve_trans [OF e1(1)])
  qed
qed



section \<open>What leaves the receiving half alone\<close>

lemma arm_step: "st_step W i st (snd (streamArm ss st))"
  by (rule step_keep) (simp_all add: streamArm_def sclosed_def)

lemma wait_step: "st_step W i st (sendWait ss st want room)"
  by (rule step_keep) (simp_all add: sendWait_def Let_def sclosed_def)

lemma unblock_step: "st_step W i st (snd (sendUnblock ss st))" "same_table ss (fst (sendUnblock ss st))"
  by (rule step_keep) (simp_all add: sendUnblock_def Let_def sclosed_def)

lemma reset_step: "st_step W i st (snd (sendReset ss st err))" "same_table ss (fst (sendReset ss st err))"
  by (rule step_keep) (simp_all add: sendReset_def streamArm_def sclosed_def same_table_def)

lemma refused_step:
  assumes "sendRefused ss st want = (b, ss', st')"
  shows "same_table ss ss'" "st_step W i st st'"
proof -
  define st1 where "st1 = sendWait ss st want (sendRoom ss st)"
  have 1: "st_step W i st st1" unfolding st1_def by (rule wait_step)
  have 2: "st_step W i st1 (snd (streamArm ss (st1\<lparr>st_sendBlocked := x, st_blocked := y\<rparr>)))" for x y
    by (rule step_trans [OF step_keep arm_step]) (simp_all add: sclosed_def)
  show "same_table ss ss'"
    using assms unfolding sendRefused_def Let_def
    by (auto simp: case_prod_beta same_table_def streamArm_def split: if_splits)
  define c where "c = (st_sendMax st1 \<le> sb_end (st_out st1) \<and> st_sendBlocked st1 \<noteq> st_sendMax st1)"
  have "st' = (if c then snd (streamArm ss (st1\<lparr>st_sendBlocked := st_sendMax st1,
      st_blocked := quicCtlQueue (st_blocked st1)\<rparr>)) else st1)"
    using assms unfolding sendRefused_def Let_def st1_def [symmetric] c_def [symmetric]
    by (cases c) (auto simp: case_prod_beta split: if_splits)
  then show "st_step W i st st'" using step_trans [OF 1 2] 1 by simp
qed

lemma handleStopSending_evolve:
  assumes inv: "streams_inv wlog ss"
  shows "evolve W i ss (snd (handleStopSending opened ss j err ft))"
proof -
  obtain so ig ss1 where f: "streamForFrame opened ss j ft = (so, ig, ss1)" by (metis prod_cases3)
  note e1 = streamForFrame_evolve(1) [OF inv f, where W = W and i = i]
  have "evolve W i ss1 (setStream (fst (sendReset (streamHook ShStopped ev ss1) (st\<lparr>st_stopError := err\<rparr>) err))
      (snd (sendReset (streamHook ShStopped ev ss1) (st\<lparr>st_stopError := err\<rparr>) err)))" if "so = Some st" for st ev
  proof (rule evolve_put(1))
    show "same_table ss1 (fst (sendReset (streamHook ShStopped ev ss1) (st\<lparr>st_stopError := err\<rparr>) err))"
      by (rule same_table_trans [OF same_table_simps(3) reset_step(2)])
    show "quicStreamFind ss1 j = Some st" using streamForFrame_evolve(2) [OF inv f] that by blast
    show "st_id st = j" using streamForFrame_inv(2) [OF inv f] that by blast
    show "st_step W i st (snd (sendReset (streamHook ShStopped ev ss1) (st\<lparr>st_stopError := err\<rparr>) err))"
      by (rule step_trans [OF step_keep reset_step(1)]) (simp_all add: sclosed_def)
  qed
  then show ?thesis
    using e1 evolve_trans [OF e1] evolve_table [of ss "streamsFail ss QUIC_ERR_STREAM_STATE_ERROR ft"] f
    by (cases so) (simp_all add: handleStopSending_def case_prod_beta)
qed

lemma handleMaxStreamData_evolve:
  assumes inv: "streams_inv wlog ss"
  shows "evolve W i ss (snd (handleMaxStreamData opened ss j mx ft))"
proof -
  obtain so ig ss1 where f: "streamForFrame opened ss j ft = (so, ig, ss1)" by (metis prod_cases3)
  note e1 = streamForFrame_evolve(1) [OF inv f, where W = W and i = i]
  show ?thesis
  proof (cases so)
    case None
    then show ?thesis using e1 f by (simp add: handleMaxStreamData_def evolve_table)
  next
    case (Some st)
    define st1 where "st1 = (if sendRoom ss1 st = 0 then sendWait ss1 st 1 0 else st)"
    define st2 where "st2 = st1\<lparr>st_sendMax := mx, st_blocked := (st_blocked st1)\<lparr>ctl_state := QUIC_CTL_IDLE\<rparr>\<rparr>"
    have "st_step W i st st1" using wait_step by (simp add: st1_def)
    moreover have "st_step W i st1 st2" unfolding st2_def by (rule step_keep) (simp_all add: sclosed_def)
    ultimately have s: "st_step W i st (snd (sendUnblock ss1 st2))"
      using unblock_step(1) step_trans by blast
    have "evolve W i ss1 (setStream (fst (sendUnblock ss1 st2)) (snd (sendUnblock ss1 st2)))"
      by (rule evolve_put(1) [OF unblock_step(2) _ s])
        (use streamForFrame_evolve(2) [OF inv f] streamForFrame_inv(2) [OF inv f] Some in blast)+
    then show ?thesis
      using evolve_trans [OF e1] e1 evolve_table [of ss "streamsFail ss QUIC_ERR_STREAM_STATE_ERROR ft"]
      unfolding handleMaxStreamData_def f Some prod.case option.case Let_def
        st1_def [symmetric] st2_def [symmetric]
      by (simp add: case_prod_beta)
  qed
qed

lemma unblockOne_evolve:
  assumes "streams_inv wlog ss"
  shows "evolve W i ss (unblockOne ss j)"
  using evolve_put(1) [OF unblock_step(2) _ unblock_step(1)] open_stream(2) [OF assms]
  by (auto simp: unblockOne_def case_prod_beta evolve_same split: option.split)

lemma unblockAll_evolve: "streams_inv wlog ss \<Longrightarrow> evolve W i ss (foldl unblockOne ss is)"
proof (induction "is" arbitrary: ss)
  case (Cons j "is")
  from evolve_trans [OF unblockOne_evolve [OF Cons.prems] Cons.IH [OF unblockOne_inv [OF Cons.prems]]]
  show ?case by simp
qed (simp add: evolve_same)

lemma connMaxData_evolve:
  assumes inv: "streams_inv wlog ss" and mx: "varint_ok mx"
  shows "evolve W i ss (connMaxData ss mx)"
proof (cases "mx \<le> ss_sendMax ss")
  case True
  then show ?thesis by (simp add: connMaxData_def evolve_same)
next
  case False
  define ss2 where "ss2 = ss\<lparr>ss_byId := map (\<lambda>(i, st). (i, if sendRoom ss st = 0 then sendWait ss st 1 0 else st)) (ss_byId ss),
    ss_sendMax := mx, ss_dataBlocked := (ss_dataBlocked ss)\<lparr>ctl_state := QUIC_CTL_IDLE\<rparr>\<rparr>"
  have t: "totals_ok wlog ss" using inv unfolding streams_inv_def shared_inv_def by blast
  have inv2: "streams_inv wlog ss2"
    by (rule waiting_inv [OF inv, where c = "\<lambda>st. sendRoom ss st = 0"])
      (use t mx False in \<open>auto simp: ss2_def totals_ok_def\<close>)
  have "map_of (map (\<lambda>(i, st). (i, if sendRoom ss st = 0 then sendWait ss st 1 0 else st)) t) j =
      map_option (\<lambda>st. if sendRoom ss st = 0 then sendWait ss st 1 0 else st) (map_of t j)" for t j
    by (induction t) auto
  then have "quicStreamFind ss2 j = map_option (\<lambda>st. if sendRoom ss st = 0 then sendWait ss st 1 0 else st) (quicStreamFind ss j)" for j
    by (simp add: quicStreamFind_def ss2_def)
  moreover have "used ss2 = used ss" by (simp add: used_def fun_eq_iff ss2_def)
  moreover have "st_step W i st (if sendRoom ss st = 0 then sendWait ss st 1 0 else st)" for st using wait_step by simp
  ultimately have "evolve W i ss ss2" unfolding evolve_def by (auto split del: if_split)
  from evolve_trans [OF this unblockAll_evolve [OF inv2]] False show ?thesis
    by (simp add: connMaxData_def Let_def ss2_def)
qed

lemma handleBlocked_evolve:
  assumes "streams_inv wlog ss"
  shows "evolve W i ss (snd (handleBlocked opened ss f))"
  using streamForFrame_evolve(1) [OF assms]
  by (auto simp: handleBlocked_def case_prod_beta evolve_same evolve_table split: QuicFrame.split)
    (metis prod.collapse)

lemma quicStreamsFrame_evolve:
  assumes inv: "streams_inv wlog ss" and f: "frame_fits f" "frame_checked f" and ag: "agrees W i f"
  shows "evolve W i ss (snd (quicStreamsFrame xa opened ss f))"
proof (cases f)
  case (FStream hasOff hasLen fin j off d)
  then show ?thesis
    using handleStreamData_evolve [OF inv, of off d W i hasOff hasLen fin j] f ag
    by (simp add: quicStreamsFrame_def frame_fits_def frame_checked_def)
next
  case (FResetStream j err fsize)
  then show ?thesis using handleResetStream_evolve [OF inv] ag by (simp add: quicStreamsFrame_def)
next
  case (FMaxStreams uni mx)
  then show ?thesis
    by (auto simp: quicStreamsFrame_def handleMaxStreams_def Let_def used_def fun_eq_iff intro!: evolve_same)
qed (use f in \<open>simp_all add: quicStreamsFrame_def frame_fits_def inv evolve_table
  handleStopSending_evolve [OF inv] handleMaxStreamData_evolve [OF inv] handleBlocked_evolve [OF inv]
  connMaxData_evolve [OF inv]\<close>)


lemma lost_step: "st_step W i st (resolveLost st pn)"
  by (rule step_keep) (simp_all add: resolveLost_def sclosed_def)

lemma acked_step: "st_step W i st (ackedHalf ss st pn)"
proof -
  define st0 where "st0 = (if sendRoom ss st = 0 then sendWait ss st 1 0 else st)"
  have 0: "st_step W i st st0" using wait_step by (simp add: st0_def)
  define st1 where "st1 = st0\<lparr>st_out := quicSendBufAcked (st_out st0) pn,
    st_stopSending := snd (quicCtlAcked (st_stopSending st0) pn),
    st_maxData := snd (quicCtlAcked (st_maxData st0) pn), st_blocked := snd (quicCtlAcked (st_blocked st0) pn)\<rparr>"
  have 1: "st_step W i st0 st1" by (rule step_keep) (simp_all add: st1_def sclosed_def)
  define st2 where "st2 = (case quicCtlAcked (st_fin st1) pn of
    (done, c) \<Rightarrow> st1\<lparr>st_fin := c, st_finAcked := (if done then True else st_finAcked st1)\<rparr>)"
  have 2: "st_step W i st1 st2" by (rule step_keep) (simp_all add: st2_def sclosed_def case_prod_beta)
  define st3 where "st3 = (case quicCtlAcked (st_reset st2) pn of
    (done, c) \<Rightarrow> st2\<lparr>st_reset := c, st_sendState := (if done then QUIC_SEND_RESET_DONE else st_sendState st2)\<rparr>)"
  have 3: "st_step W i st2 st3" by (rule step_keep) (simp_all add: st3_def sclosed_def case_prod_beta)
  have 4: "st_step W i st3 (st3\<lparr>st_sendState := QUIC_SEND_DATA_DONE\<rparr>)" by (rule step_keep) (simp_all add: sclosed_def)
  have h: "ackedHalf ss st pn = (if st_sendState st3 = QUIC_SEND_DATA_SENT \<and> st_finAcked st3
      \<and> quicSendBufOutstanding (st_out st3) = 0 then st3\<lparr>st_sendState := QUIC_SEND_DATA_DONE\<rparr> else st3)"
    unfolding ackedHalf_def Let_def st0_def [symmetric] st1_def [symmetric] st2_def [symmetric]
      st3_def [symmetric] ..
  show ?thesis
    unfolding h using step_trans [OF 0 step_trans [OF 1 step_trans [OF 2 3]]] step_trans [OF _ 4] by simp
qed

lemma resolveOne:
  assumes inv: "streams_inv wlog ss" and st: "quicStreamFind ss j = Some st"
    and r: "(if acked then resolveAcked ss st pn else (ss, resolveLost st pn)) = (ss1, st1)"
  shows "streams_inv wlog (streamSettle ss1 (st1\<lparr>st_active := False\<rparr>))" "streams_inv wlog (setStream ss1 st1)"
    "evolve W i ss (streamSettle ss1 (st1\<lparr>st_active := False\<rparr>))" "evolve W i ss (setStream ss1 st1)"
proof -
  note o = open_stream [OF inv st]
  note s = open_parts(2) [OF o(1)]
  have "open_inv wlog ss (resolveLost st pn)"
    by (rule open_send [OF o(1)]) (simp_all add: resolveLost_keeps [OF s])
  moreover have "open_inv wlog ss (ackedHalf ss st pn)"
    by (rule open_send [OF o(1)]) (simp_all add: ackedHalf_keeps [OF s])
  from sendUnblock_open(1) [OF this]
  have "open_inv wlog (fst (resolveAcked ss st pn)) (snd (resolveAcked ss st pn))" by (simp only: resolveAcked_half)
  ultimately have 1: "open_inv wlog ss1 st1" using r by (cases acked) simp_all
  have "open_inv wlog ss1 (st1\<lparr>st_active := False\<rparr>)"
    by (rule open_send [OF 1]) (use open_parts(2) [OF 1] in \<open>simp_all add: send_inv_def recv_inv_def\<close>)
  then show "streams_inv wlog (streamSettle ss1 (st1\<lparr>st_active := False\<rparr>))" "streams_inv wlog (setStream ss1 st1)"
    using settle_inv close_stream 1 by blast+
  have "same_table ss (fst (resolveAcked ss st pn)) \<and> st_step W i st (snd (resolveAcked ss st pn))"
    unfolding resolveAcked_half using unblock_step acked_step step_trans by blast
  then have e: "same_table ss ss1" "st_step W i st st1" using r lost_step [of W i st pn] by (cases acked; auto)+
  have "st_step W i st1 (st1\<lparr>st_active := False\<rparr>)" by (rule step_keep) (simp_all add: sclosed_def)
  from evolve_put(2) [OF e(1) st step_trans [OF e(2) this] o(2)] evolve_put(1) [OF e(1) st e(2) o(2)]
  show "evolve W i ss (streamSettle ss1 (st1\<lparr>st_active := False\<rparr>))" "evolve W i ss (setStream ss1 st1)" .
qed

lemma resolveEach_evolve:
  "streams_inv wlog ss \<Longrightarrow> evolve W i ss (snd (resolveEach pn acked is ss))"
proof (induction pn acked "is" ss rule: resolveEach.induct)
  case (1 pn acked ss)
  then show ?case by (simp add: evolve_same)
next
  case (2 pn acked j "is" ss)
  show ?case
  proof (cases "quicStreamFind ss j")
    case None
    then show ?thesis using 2 by simp
  next
    case (Some st)
    obtain ss1 st1 where r: "(if acked then resolveAcked ss st pn else (ss, resolveLost st pn)) = (ss1, st1)"
      by (metis surj_pair)
    note o = resolveOne(1,2) [OF "2.prems" Some r] resolveOne(3,4) [OF "2.prems" Some r, where W = W and i = i]
    have "snd (resolveEach pn acked (j # is) ss) =
      (if \<not> streamPending st1 \<and> \<not> streamOutstanding st1
       then snd (resolveEach pn acked is (streamSettle ss1 (st1\<lparr>st_active := False\<rparr>)))
       else snd (resolveEach pn acked is (setStream ss1 st1)))"
      using Some r by (simp add: case_prod_beta)
    with evolve_trans [OF o(3) "2.IH"(2) [OF Some r [symmetric] _ o(1)]]
      evolve_trans [OF o(4) "2.IH"(3) [OF Some r [symmetric] _ o(2)]] show ?thesis by simp
  qed
qed

lemma resolve_evolve:
  assumes "streams_inv wlog ss"
  shows "evolve W i ss (quicStreamsAcked ss pn)" "evolve W i ss (quicStreamsLost ss pn)"
proof -
  have s: "evolve W i ss (streamsResolve ss' pn acked)"
    if "streams_inv wlog ss'" "same_table ss ss'" for ss' acked
  proof -
    obtain kept ss1 where r: "resolveEach pn acked (ss_active ss') ss' = (kept, ss1)" by (metis surj_pair)
    have "evolve W i ss' ss1" using resolveEach_evolve [OF that(1), of W i pn acked "ss_active ss'"] by (simp add: r)
    moreover have "evolve W i ss1 (ss1\<lparr>ss_active := kept\<rparr>)" by (rule evolve_table) simp
    ultimately have "evolve W i ss' (ss1\<lparr>ss_active := kept\<rparr>)" by (rule evolve_trans)
    from evolve_trans [OF evolve_table [OF that(2)] this] show ?thesis by (simp add: streamsResolve_def r)
  qed
  show "evolve W i ss (quicStreamsAcked ss pn)" "evolve W i ss (quicStreamsLost ss pn)"
    unfolding quicStreamsAcked_def quicStreamsLost_def
    by (rule s, rule quiet_inv [OF assms]; simp add: same_table_def totals_ok_def)+
qed


section \<open>The application\<close>

lemma quicStreamSend_evolve:
  assumes inv: "streams_inv wlog ss" and r: "quicStreamSend xa ss j d = (n, ss')"
  shows "evolve W i ss ss'"
proof (cases "\<exists>st. quicStreamFind ss j = Some st \<and> st_sendState st \<in> {QUIC_SEND_READY, QUIC_SEND_SEND}")
  case False
  then have "ss' = ss" using r by (auto simp: quicStreamSend_def split: option.splits if_splits)
  then show ?thesis by (simp add: evolve_same)
next
  case True
  then obtain st where st: "quicStreamFind ss j = Some st" and live: "\<not> sclosed st" by (auto simp: sclosed_def)
  define R where "R X st' \<longleftrightarrow> same_table ss X \<and> st_step W i st st'" for X st'
  have keep: "st_step W i st (st\<lparr>st_out := sb, st_sendState := x\<rparr>)" "st_step W i st (st\<lparr>st_out := sb\<rparr>)" for sb x
    using live by (auto simp: sclosed_def intro!: step_keep)
  have a: "R (fst (streamArm (ss\<lparr>ss_sendOff := o1\<rparr>) (st\<lparr>st_out := sb, st_sendState := QUIC_SEND_SEND\<rparr>)))
      (snd (streamArm (ss\<lparr>ss_sendOff := o1\<rparr>) (st\<lparr>st_out := sb, st_sendState := QUIC_SEND_SEND\<rparr>)))" for o1 sb
    unfolding R_def using step_trans [OF keep(1) arm_step] same_table_trans [OF same_table_simps(5,8)] by blast
  have b: "R X st' \<Longrightarrow> sendRefused X st' want = (bl, X', st'') \<Longrightarrow> R X' st''" for X st' X' st'' want bl
    unfolding R_def by (meson refused_step step_trans same_table_trans)
  have c: "R ss st" "R ss (st\<lparr>st_out := sb\<rparr>)" for sb using keep by (simp_all add: R_def)
  have "\<exists>X st'. ss' = setStream X st' \<and> R X st'"
    using r live st a b [OF a] b [OF c(1)] c
    unfolding quicStreamSend_def st option.case Let_def sclosed_def
    by (auto simp: case_prod_beta split: if_splits bool.splits) (metis prod.collapse)+
  then show ?thesis using evolve_put(1) [OF _ st _ open_stream(2) [OF inv st]] unfolding R_def by blast
qed


lemma quicStreamSendAll_evolve:
  assumes inv: "streams_inv wlog ss" and r: "quicStreamSendAll xa ss j d = (ok, bl, ss')"
  shows "evolve W i ss ss'"
proof -
  consider "ss' = ss" | st b ss1 st1 where "quicStreamFind ss j = Some st"
      "sendRefused ss st (of_nat (length d)) = (b, ss1, st1)" "ss' = setStream ss1 st1"
    | n where "quicStreamSend xa ss j d = (n, ss')"
    using r by (auto simp: quicStreamSendAll_def split: option.splits if_splits prod.splits)
  then show ?thesis
  proof cases
    case 2
    from evolve_put(1) [OF refused_step(1) [OF 2(2)] 2(1) refused_step(2) [OF 2(2)] open_stream(2) [OF inv 2(1)]]
    show ?thesis by (simp add: 2(3))
  qed (use quicStreamSend_evolve [OF inv] evolve_same in auto)
qed

lemma quicStreamFinish_evolve:
  assumes inv: "streams_inv wlog ss"
  shows "evolve W i ss (quicStreamFinish ss j)"
proof (cases "quicStreamFind ss j")
  case None
  then show ?thesis by (simp add: quicStreamFinish_def evolve_same)
next
  case (Some st)
  have "st_step W i st (snd (streamArm ss (st\<lparr>st_sendState := QUIC_SEND_DATA_SENT, st_fin := c\<rparr>)))" for c
    by (rule step_trans [OF step_keep arm_step]) (simp_all add: sclosed_def)
  from evolve_put(1) [OF same_table_simps(8) Some this open_stream(2) [OF inv Some]] Some evolve_same [of ss ss] show ?thesis
    by (simp add: quicStreamFinish_def case_prod_beta)
qed

lemma quicStreamReset_evolve:
  assumes inv: "streams_inv wlog ss"
  shows "evolve W i ss (quicStreamReset ss j err)"
  using evolve_put(1) [OF reset_step(2) _ reset_step(1)] open_stream(2) [OF inv]
  by (auto simp: quicStreamReset_def case_prod_beta evolve_same split: option.split)

lemma quicStreamStopSending_evolve:
  assumes inv: "streams_inv wlog ss"
  shows "evolve W i ss (quicStreamStopSending ss j err)"
proof (cases "quicStreamFind ss j")
  case None
  then show ?thesis by (simp add: quicStreamStopSending_def evolve_same)
next
  case (Some st)
  have "st_step W i st (snd (streamArm ss (st\<lparr>st_stopError := err, st_stopSending := c\<rparr>)))" for c
    by (rule step_trans [OF step_keep arm_step]) (simp_all add: sclosed_def)
  from evolve_put(1) [OF same_table_simps(8) Some this open_stream(2) [OF inv Some]] Some evolve_same [of ss ss] show ?thesis
    by (simp add: quicStreamStopSending_def case_prod_beta)
qed

lemma quicStreamOpen_evolve:
  assumes inv: "streams_inv wlog ss" and r: "quicStreamOpen ss uni = (so, ss')"
  shows "evolve W i ss ss'"
proof -
  define dir where "dir = (if uni then QUIC_SDIR_UNI else QUIC_SDIR_BIDI)"
  show ?thesis
  proof (cases "ss_nextLocal ss dir < ss_sendMaxStreams ss dir")
    case True
    define j where "j = quicStreamMakeId (ss_nextLocal ss dir) (ss_server ss) uni"
    have c: "counts_ok ss" and t: "totals_ok wlog ss" using inv unfolding streams_inv_def shared_inv_def by blast+
    have s1: "fst (streamCreate ss j) = setStream ss (snd (streamCreate ss j))" by (rule create_stream(2) [OF t])
    have l2: "ss_sendMaxStreams ss dir \<le> push_bit 60 1" using c by (simp add: counts_ok_def)
    have ss': "ss' = (let ss1 = fst (streamCreate ss j) in
        ss1\<lparr>ss_nextLocal := (ss_nextLocal ss1)(dir := ss_nextLocal ss1 dir + 1)\<rparr>)"
      using r True by (auto simp: quicStreamOpen_def Let_def dir_def j_def split: if_splits)
    show ?thesis
    proof (rule evolve_create)
      show "\<not> used ss j" using open_new(2) [OF inv dir_def True] by (simp add: j_def)
      show "ss_byId ss' = ss_byId (fst (streamCreate ss j))" by (simp add: ss' Let_def)
      show "used ss' k" if "used ss k" for k
        using that next_index(3) [OF True l2] by (auto simp: used_def ss' s1 Let_def split: if_splits)
    qed
  next
    case False
    then have "ss' = ss \<or> (\<exists>a b. ss' = ss\<lparr>ss_streamsBlockedAt := a, ss_streamsBlocked := b\<rparr>)"
      using r by (auto simp: quicStreamOpen_def Let_def dir_def split: if_splits)
    then show ?thesis by (auto simp: used_def fun_eq_iff intro!: evolve_same)
  qed
qed

subsection \<open>Reading\<close>

lemma step_limit: "st_step W i st (snd (recvWindowUpdate ss st))" "same_table ss (fst (recvWindowUpdate ss st))"
proof -
  have "st_step W i st (snd (streamArm ss (st\<lparr>st_in := (st_in st)\<lparr>ra_limit := l\<rparr>, st_maxData := c\<rparr>)))" for l c
    by (rule step_trans [OF step_keep arm_step]) (simp_all add: sclosed_def reasm_raise_limit(2))
  then show "st_step W i st (snd (recvWindowUpdate ss st))" "same_table ss (fst (recvWindowUpdate ss st))"
    by (simp_all add: recvWindowUpdate_def Let_def)
qed

text \<open>What is taken out is the next piece of the stream.\<close>

lemma recvTake_got:
  assumes g: "got W rd st" and inv: "reasm_inv (st_in st)" "ra_base (st_in st) = st_recvRead st"
    and n: "n \<le> quicReasmReadable (st_in st)" and live: "st_recvState st \<notin> {QUIC_RECV_RESET, QUIC_RECV_RESET_READ}"
    and r: "recvTake ss st n = (out, ss', st')"
  shows "got W (rd @ out) st'"
proof (cases "n = 0")
  case True
  with r g show ?thesis by (simp add: recvTake_def)
next
  case False
  let ?b = "unat (st_recvRead st)"
  let ?st = "st\<lparr>st_in := quicReasmConsume (st_in st) n, st_recvRead := st_recvRead st + of_nat n\<rparr>"
  note c = quicReasmConsume_ok [OF inv(1) n, unfolded inv(2)]
  note v = readable_view [OF inv(1), unfolded inv(2)]
  have at: "?b + k < length W \<and> W ! (?b + k) = the (quicReasmData (st_in st)) ! k" if "k < n" for k
  proof -
    have "reasm_view (st_in st) x = Some b \<longrightarrow> unat x < length W \<and> W ! unat x = b" for x b using g by (simp add: got_def)
    then show ?thesis using v(1,4) [of k] that n by (metis order_less_le_trans)
  qed
  have len: "n \<le> length (the (quicReasmData (st_in st)))" using v(2) [of 0] False n by linarith
  have W: "?b + n \<le> length W" using at [of "n - 1"] False by auto
  have "take n (the (quicReasmData (st_in st))) = take n (drop ?b W)"
    using at len W by (intro nth_equalityI) auto
  moreover have "out = take n (the (quicReasmData (st_in st)))" "st' = snd (recvWindowUpdate (ss\<lparr>ss_recvRead := ss_recvRead ss + of_nat n\<rparr>) ?st)"
    using r False by (simp_all add: recvTake_def Let_def case_prod_beta)
  moreover have "rd = take ?b W" using g live by (simp add: got_def)
  moreover have "unat (st_recvRead st + of_nat n) = ?b + n" using c(2) False by simp
  ultimately have "got W (rd @ out) ?st"
    using g live W c(3) False by (auto simp: got_def take_add)
  then show ?thesis
    using step_limit(1) [of W "st_id ?st" ?st "ss\<lparr>ss_recvRead := ss_recvRead ss + of_nat n\<rparr>"] \<open>st' = _\<close>
    by (simp add: st_step_def)
qed


text \<open>The reader of the stream \<open>i\<close> has got a prefix of \<open>W\<close>.\<close>

definition got_inv :: "u8 list \<Rightarrow> u64 \<Rightarrow> (u64 \<times> u8) list \<Rightarrow> QuicStreams \<Rightarrow> bool" where
  "got_inv W i rlog ss \<longleftrightarrow> (\<forall>st. quicStreamFind ss i = Some st \<longrightarrow> got W (of_stream i rlog) st) \<and>
     (\<not> used ss i \<longrightarrow> of_stream i rlog = []) \<and> (\<exists>k. of_stream i rlog = take k W)"

lemma evolve_got:
  assumes inv: "streams_inv wlog ss" and e: "evolve W i ss ss'" and g: "got_inv W i rlog ss"
  shows "got_inv W i rlog ss'"
proof -
  have "got W (of_stream i rlog) st'" if s: "quicStreamFind ss' i = Some st'" for st'
  proof -
    from e s obtain st where "quicStreamFind ss i = Some st \<or> \<not> used ss i \<and> blank st \<and> st_id st = i" "st_step W i st st'"
      unfolding evolve_def by blast
    moreover have "got W (of_stream i rlog) st \<and> st_id st = i"
      using calculation(1) g open_stream(2) [OF inv] blank_got unfolding got_inv_def by metis
    ultimately show ?thesis by (simp add: st_step_def)
  qed
  moreover have "\<not> used ss' i \<longrightarrow> of_stream i rlog = []" using e g unfolding got_inv_def evolve_def by blast
  ultimately show ?thesis using g unfolding got_inv_def by blast
qed

text \<open>What a read makes of the stream it reads.\<close>

lemma recv_result:
  assumes inv: "streams_inv wlog ss" and r: "quicStreamRecv ss i n = (out, fin, ss')"
    and st: "quicStreamFind ss i = Some st" and g: "got W rd st"
  obtains X st' where "ss' = setStream X st' \<or> ss' = streamSettle X st'" "same_table ss X" "st_id st' = i"
    "sclosed st \<longrightarrow> sclosed st'" "got W (rd @ out) st'"
    "st_recvState st \<notin> {QUIC_RECV_RESET, QUIC_RECV_RESET_READ} \<longrightarrow> (\<exists>k. rd @ out = take k W)"
    "out = [] \<or> st_recvState st \<notin> {QUIC_RECV_RESET, QUIC_RECV_RESET_READ}"
    "fin \<and> st_recvState st \<noteq> QUIC_RECV_RESET \<longrightarrow> rd @ out = W"
proof -
  note o = open_stream [OF inv st]
  note p = open_parts [OF o(1)]
  show ?thesis
  proof (cases "st_recvState st = QUIC_RECV_RESET")
    case True
    let ?st = "st\<lparr>st_recvState := QUIC_RECV_RESET_READ\<rparr>"
    have "out = []" "ss' = streamSettle ss ?st" "fin" using r st True by (simp_all add: quicStreamRecv_def)
    with that [of ss ?st] g o(2) True show ?thesis by (simp add: got_def sclosed_def)
  next
    case False
    obtain d ss1 st1 where t: "recvTake ss st (min (quicReasmReadable (st_in st)) n) = (d, ss1, st1)"
      by (metis prod_cases3)
    have dout: "out = d" using r st False t by (simp add: quicStreamRecv_def split: if_splits)
    have inv1: "open_inv wlog ss1 st1 \<and> st_recvState st1 = st_recvState st \<and> st_id st1 = i \<and> got W (rd @ out) st1
      \<and> (out = [] \<or> st_recvState st \<noteq> QUIC_RECV_RESET_READ)"
    proof (cases "st_recvState st = QUIC_RECV_RESET_READ")
      case True
      then have "quicReasmReadable (st_in st) = 0" using p(3) by (simp add: recv_inv_def quicReasmReadable_def)
      with t o g dout show ?thesis by (simp add: recvTake_def)
    next
      case other: False
      have "reasm_inv (st_in st)" "ra_base (st_in st) = st_recvRead st" using p(3) False other by (auto simp: recv_inv_def)
      from recvTake_got [OF g this _ _ t] recvTake_open [OF o(1) _ _ t] False other o(2) dout show ?thesis by simp
    qed
    have tab: "same_table ss ss1" and snd1: "sclosed st \<longrightarrow> sclosed st1"
      using t step_limit(2) same_table_trans same_table_simps(7,9)
      by (auto simp: recvTake_def Let_def case_prod_beta split: if_splits
          intro: same_table_trans [OF _ same_table_simps(9)] same_table_trans [OF same_table_simps(7) step_limit(2)])
        (simp add: sclosed_def recvWindowUpdate_def Let_def streamArm_def split: if_splits)
    let ?done = "st_recvState st1 = QUIC_RECV_DATA_RECVD \<and> quicReasmReadable (st_in st1) = 0"
    define st2 where "st2 = (if ?done then st1\<lparr>st_recvState := QUIC_RECV_DATA_READ\<rparr> else st1)"
    have res: "fin = ?done" "ss' = (if ?done then streamSettle ss1 st2 else setStream ss1 st2)"
      using r st False t by (auto simp: quicStreamRecv_def st2_def split: if_splits)
    have g1: "got W (rd @ out) st1" using inv1 by blast
    then have "got W (rd @ out) st2" by (auto simp: st2_def got_def)
    moreover have "\<exists>k. rd @ out = take k W" if "st_recvState st \<notin> {QUIC_RECV_RESET, QUIC_RECV_RESET_READ}"
      using g1 that inv1 unfolding got_def by auto
    moreover have "rd @ out = W" if fin
    proof -
      have rv: "recv_inv (ss_server ss1) st1" using open_parts(3) inv1 by blast
      have d1: ?done using that res(1) by simp
      have "st_recvRead st1 = st_recvFinal st1"
      proof (rule ccontr)
        assume "st_recvRead st1 \<noteq> st_recvFinal st1"
        then have "st_recvRead st1 < st_recvFinal st1" using rv d1 by (auto simp: recv_inv_def)
        then have "reasm_view (st_in st1) (ra_base (st_in st1)) \<noteq> None" using rv d1 by (simp add: recv_inv_def)
        then show False using d1 rv readable_stops [of "st_in st1"] by (simp add: recv_inv_def)
      qed
      then show ?thesis using g1 rv d1 by (simp add: got_def recv_inv_def)
    qed
    ultimately show ?thesis
      using that [of ss1 st2] res tab snd1 inv1 False by (auto simp: st2_def sclosed_def)
  qed
qed

lemma quicStreamRecv_got:
  assumes inv: "streams_inv wlog ss" and r: "quicStreamRecv ss i n = (out, fin, ss')" and g: "got_inv W i rlog ss"
  shows "got_inv W i (rlog @ map (Pair i) out) ss'"
    "fin \<and> (\<forall>st. quicStreamFind ss i = Some st \<longrightarrow> st_recvState st \<noteq> QUIC_RECV_RESET) \<longrightarrow>
       of_stream i rlog @ out = W"
proof -
  have "got_inv W i (rlog @ map (Pair i) out) ss' \<and>
    (fin \<and> (\<forall>st. quicStreamFind ss i = Some st \<longrightarrow> st_recvState st \<noteq> QUIC_RECV_RESET) \<longrightarrow> of_stream i rlog @ out = W)"
  proof (cases "quicStreamFind ss i")
    case None
    then have "out = []" "ss' = ss" "\<not> fin" using r by (simp_all add: quicStreamRecv_def)
    with g show ?thesis by simp
  next
    case (Some st)
    have gs: "got W (of_stream i rlog) st" using g Some by (simp add: got_inv_def)
    obtain X st' where res: "ss' = setStream X st' \<or> ss' = streamSettle X st'" "same_table ss X" "st_id st' = i"
        "got W (of_stream i rlog @ out) st'"
        "st_recvState st \<notin> {QUIC_RECV_RESET, QUIC_RECV_RESET_READ} \<longrightarrow> (\<exists>k. of_stream i rlog @ out = take k W)"
        "out = [] \<or> st_recvState st \<notin> {QUIC_RECV_RESET, QUIC_RECV_RESET_READ}"
        "fin \<and> st_recvState st \<noteq> QUIC_RECV_RESET \<longrightarrow> of_stream i rlog @ out = W"
      using recv_result [OF inv r Some gs] by metis
    have "quicStreamFind ss' i = Some sx \<Longrightarrow> sx = st'" for sx
      using res(1,3) settle_find(1) [of X st' i sx] by auto
    moreover have "used ss' i"
      using open_parts(4) [OF open_stream(1) [OF inv Some]] open_stream(2) [OF inv Some] res(1) same_used [OF res(2)]
        settle_find(3) [of X st'] used_setStream [of X st'] by auto
    moreover have "\<exists>k. of_stream i rlog @ out = take k W"
      using res(5,6) g by (auto simp: got_inv_def)
    ultimately show ?thesis using res(4,7) Some by (auto simp: got_inv_def)
  qed
  then show "got_inv W i (rlog @ map (Pair i) out) ss'"
    "fin \<and> (\<forall>st. quicStreamFind ss i = Some st \<longrightarrow> st_recvState st \<noteq> QUIC_RECV_RESET) \<longrightarrow>
       of_stream i rlog @ out = W" by blast+
qed

text \<open>Reading one stream leaves the others alone.\<close>

lemma recvTake_shape:
  assumes "recvTake ss st n = (d, ss1, st1)"
  shows "same_table ss ss1" "st_id st1 = st_id st" "st_sendState st1 = st_sendState st"
  using assms same_table_trans [OF same_table_trans [OF same_table_simps(7) step_limit(2)] same_table_simps(9)]
  by (auto simp: recvTake_def Let_def case_prod_beta split: if_splits)
    (simp_all add: recvWindowUpdate_def Let_def streamArm_def)

lemma quicStreamRecv_evolve:
  assumes inv: "streams_inv wlog ss" and r: "quicStreamRecv ss j n = (out, fin, ss')" and "j \<noteq> i"
  shows "evolve W i ss ss'"
proof (cases "quicStreamFind ss j")
  case None
  then show ?thesis using r by (simp add: quicStreamRecv_def evolve_same)
next
  case (Some st)
  note id = open_stream(2) [OF inv Some]
  have any: "st_step W i st st'" if "st_id st' = j" "st_sendState st' = st_sendState st" for st'
    using that id assms(3) by (simp add: st_step_def sclosed_def)
  obtain d ss1 st1 where t: "recvTake ss st (min (quicReasmReadable (st_in st)) n) = (d, ss1, st1)"
    by (metis prod_cases3)
  note sh = recvTake_shape [OF t]
  note put = evolve_put [OF sh(1) Some any id] and put0 = evolve_put [OF same_table_simps(1) Some any id]
  show ?thesis
  proof (cases "st_recvState st = QUIC_RECV_RESET")
    case True
    then have "ss' = streamSettle ss (st\<lparr>st_recvState := QUIC_RECV_RESET_READ\<rparr>)"
      using r Some by (simp add: quicStreamRecv_def)
    then show ?thesis using put0(2) id by simp
  next
    case False
    then have "ss' = streamSettle ss1 (st1\<lparr>st_recvState := QUIC_RECV_DATA_READ\<rparr>) \<or> ss' = setStream ss1 st1"
      using r Some t by (auto simp: quicStreamRecv_def split: if_splits)
    then show ?thesis using put sh(2,3) id by auto
  qed
qed

end
