(* ===== verification/QuicStreamProps.thy ===== *)
theory QuicStreamProps
  imports QuicStreamRun
begin

section \<open>Runs\<close>

text \<open>
  What the stream layer needs of the transport parameters: limits on stream counts are below \<open>2 ^ 60\<close> (the
  decoder refuses others), values are varints, and parameters that arrive over remembered ones lower nothing
  (RFC 9000 section 7.4.1).
\<close>

definition own_ok :: "QuicTransportParams \<Rightarrow> bool" where
  "own_ok tp \<longleftrightarrow> tp_initMaxStreamsBidi tp \<le> QUIC_MAX_STREAM_COUNT \<and> tp_initMaxStreamsUni tp \<le> QUIC_MAX_STREAM_COUNT"

definition peer_ok :: "QuicStreams \<Rightarrow> QuicTransportParams \<Rightarrow> bool" where
  "peer_ok ss tp \<longleftrightarrow> own_ok tp \<and> ss_sendMax ss \<le> tp_initMaxData tp \<and>
     ss_sendMaxStreams ss QUIC_SDIR_BIDI \<le> tp_initMaxStreamsBidi tp \<and>
     ss_sendMaxStreams ss QUIC_SDIR_UNI \<le> tp_initMaxStreamsUni tp \<and>
     varint_ok (tp_initMaxData tp) \<and> varint_ok (tp_initMaxSdBidiLocal tp) \<and>
     varint_ok (tp_initMaxSdBidiRemote tp) \<and> varint_ok (tp_initMaxSdUni tp)"

text \<open>
  \<open>streams_run opened xa server tp w r s g ss\<close>: the layer of an endpoint with parameters \<open>tp\<close> got to \<open>ss\<close>
  after accepting the bytes \<open>w\<close> from the application (each with its stream), handing out the bytes \<open>r\<close>, having
  put the frames \<open>s\<close> into packets (as the decoder of the peer reads them) and been given the frames \<open>g\<close>.

  A run has these side conditions. The parameters of the peer, remembered from an earlier session or received
  in the handshake, lower no limit that was granted before (\<open>peer_ok\<close>). The code does not check this:
  \<open>lowered_limit_overrun\<close> below shows the state that a lowered limit leads to. Application error codes are
  variable-length integers, as \<open>stream.h\<close> types them only \<open>uint64\<close>; a larger one cannot be written down.
  Frames given to the layer are those the decoder accepts, and packets are filled while the limits this
  endpoint announces are variable-length integers.
\<close>

inductive streams_run ::
  "(StreamEvent list \<Rightarrow> bool) \<Rightarrow> xalloc \<Rightarrow> bool \<Rightarrow> QuicTransportParams \<Rightarrow> (u64 \<times> u8) list \<Rightarrow> (u64 \<times> u8) list \<Rightarrow>
     QuicFrame list \<Rightarrow> QuicFrame list \<Rightarrow> QuicStreams \<Rightarrow> bool"
  for opened :: "StreamEvent list \<Rightarrow> bool" and xa :: xalloc and server :: bool and tp :: QuicTransportParams
where
  run_init: "own_ok tp \<Longrightarrow> streams_run opened xa server tp [] [] [] [] (quicStreamsInit server tp)"
| run_handlers: "streams_run opened xa server tp w r s g ss \<Longrightarrow>
    streams_run opened xa server tp w r s g (quicStreamsSetHandlers ss h)"
| run_params: "streams_run opened xa server tp w r s g ss \<Longrightarrow> peer_ok ss ptp \<Longrightarrow>
    streams_run opened xa server tp w r s g (quicStreamsPeerParams ss ptp)"
| run_frame: "streams_run opened xa server tp w r s g ss \<Longrightarrow> frame_fits f \<Longrightarrow> frame_checked f \<Longrightarrow>
    streams_run opened xa server tp w r s (f # g) (snd (quicStreamsFrame xa opened ss f))"
| run_fill: "streams_run opened xa server tp w r s g ss \<Longrightarrow> limits_ok ss \<Longrightarrow>
    quicStreamsFill ss bufsz pn = (out, el, ss') \<Longrightarrow>
    streams_run opened xa server tp w r (fst (frames_of (quicRdInit out)) @ s) g ss'"
| run_acked: "streams_run opened xa server tp w r s g ss \<Longrightarrow>
    streams_run opened xa server tp w r s g (quicStreamsAcked ss pn)"
| run_lost: "streams_run opened xa server tp w r s g ss \<Longrightarrow>
    streams_run opened xa server tp w r s g (quicStreamsLost ss pn)"
| run_open: "streams_run opened xa server tp w r s g ss \<Longrightarrow> quicStreamOpen ss uni = (so, ss') \<Longrightarrow>
    streams_run opened xa server tp w r s g ss'"
| run_send: "streams_run opened xa server tp w r s g ss \<Longrightarrow> quicStreamSend xa ss i d = (n, ss') \<Longrightarrow>
    streams_run opened xa server tp (w @ map (Pair i) (take n d)) r s g ss'"
| run_send_all: "streams_run opened xa server tp w r s g ss \<Longrightarrow> quicStreamSendAll xa ss i d = (ok, bl, ss') \<Longrightarrow>
    streams_run opened xa server tp (if ok then w @ map (Pair i) d else w) r s g ss'"
| run_finish: "streams_run opened xa server tp w r s g ss \<Longrightarrow>
    streams_run opened xa server tp w r s g (quicStreamFinish ss i)"
| run_recv: "streams_run opened xa server tp w r s g ss \<Longrightarrow> quicStreamRecv ss i n = (out, fin, ss') \<Longrightarrow>
    streams_run opened xa server tp w (r @ map (Pair i) out) s g ss'"
| run_reset: "streams_run opened xa server tp w r s g ss \<Longrightarrow> varint_ok err \<Longrightarrow>
    streams_run opened xa server tp w r s g (quicStreamReset ss i err)"
| run_stop: "streams_run opened xa server tp w r s g ss \<Longrightarrow> varint_ok err \<Longrightarrow>
    streams_run opened xa server tp w r s g (quicStreamStopSending ss i err)"

lemma init_inv:
  assumes "own_ok tp"
  shows "streams_inv [] (quicStreamsInit server tp)"
proof -
  have "varint_ok 0" by (simp add: varint_ok_unat)
  moreover have "ss_recvMaxStreams (quicStreamsInit server tp) dir \<le> QUIC_MAX_STREAM_COUNT" for dir
    using assms by (cases dir) (simp_all add: own_ok_def quicStreamsInit_def)
  ultimately show ?thesis
    by (simp add: streams_inv_def shared_inv_def counts_ok_def totals_ok_def unread_def quicStreamFind_def)
      (simp add: quicStreamsInit_def streamsZero_def)
qed

lemma params_inv:
  assumes inv: "streams_inv wlog ss" and ok: "peer_ok ss tp"
  shows "streams_inv wlog (quicStreamsPeerParams ss tp)"
proof -
  let ?ss = "quicStreamsPeerParams ss tp"
  have f: "ss_byId ?ss = ss_byId ss" "ss_server ?ss = ss_server ss" "ss_nextLocal ?ss = ss_nextLocal ss"
    "ss_nextRemote ?ss = ss_nextRemote ss" "ss_recvOff ?ss = ss_recvOff ss" "ss_recvRead ?ss = ss_recvRead ss"
    by (simp_all add: quicStreamsPeerParams_def)
  have c: "counts_ok ss" and t: "totals_ok wlog ss" using inv unfolding streams_inv_def shared_inv_def by blast+
  have "ss_sendMaxStreams ss dir \<le> ss_sendMaxStreams ?ss dir \<and> ss_sendMaxStreams ?ss dir \<le> QUIC_MAX_STREAM_COUNT" for dir
    using ok by (cases dir) (simp_all add: quicStreamsPeerParams_def peer_ok_def own_ok_def)
  moreover have "ss_recvMaxStreams ?ss = ss_recvMaxStreams ss" by (simp add: quicStreamsPeerParams_def)
  ultimately have "counts_ok ?ss" using c unfolding counts_ok_def by (metis f(3,4) order_trans)
  moreover have "totals_ok wlog ?ss"
    using t ok by (auto simp: totals_ok_def quicStreamsPeerParams_def peer_ok_def intro: order_trans)
  moreover have u: "stream_inv wlog ?ss st = stream_inv wlog ss st" "used ?ss i = used ss i" for st i
    by (rule stream_inv_cong used_cong; simp add: f)+
  moreover have "shared_inv wlog ss" using inv by (simp only: streams_inv_def)
  ultimately have "shared_inv wlog ?ss" using f by (simp add: shared_inv_def)
  moreover have "quicStreamFind ?ss i = quicStreamFind ss i" for i by (simp add: quicStreamFind_def f)
  ultimately show ?thesis using inv u(1) unfolding streams_inv_def f by metis
qed

lemma run_inv: "streams_run opened xa server tp w r s g ss \<Longrightarrow> streams_inv w ss"
proof (induction rule: streams_run.induct)
  case (run_handlers w r s g ss h)
  then show ?case by (rule_tac quiet_inv) (simp_all add: quicStreamsSetHandlers_def same_table_def totals_ok_def)
next
  case (run_send_all w r s g ss i d ok bl ss')
  then show ?case using quicStreamSendAll_inv(1) by blast
qed (auto intro: init_inv params_inv quicStreamsFrame_inv quicStreamsFill_frames(3) acked_inv quicStreamOpen_inv(1)
    quicStreamSend_inv(1) quicStreamFinish_inv quicStreamRecv_inv quicStreamReset_inv quicStreamStopSending_inv)


section \<open>The sender\<close>

text \<open>Frames that end a stream, and streams to which no byte will be added.\<close>

definition ends :: "u64 \<Rightarrow> QuicFrame \<Rightarrow> bool" where
  "ends i f \<longleftrightarrow> (case f of FStream hasOff hasLen fin j off d \<Rightarrow> j = i \<and> fin | FResetStream j err fsize \<Rightarrow> j = i | _ \<Rightarrow> False)"

definition closed_id :: "QuicStreams \<Rightarrow> u64 \<Rightarrow> bool" where
  "closed_id ss i \<longleftrightarrow> used ss i \<and> (\<forall>st. quicStreamFind ss i = Some st \<longrightarrow> sclosed st)"

definition sent_inv :: "(u64 \<times> u8) list \<Rightarrow> QuicFrame list \<Rightarrow> QuicStreams \<Rightarrow> bool" where
  "sent_inv w s ss \<longleftrightarrow> (\<forall>f\<in>set s. \<forall>i. agrees (of_stream i w) i f \<and> (ends i f \<longrightarrow> closed_id ss i))"

lemma evolve_closed: "evolve W k ss ss' \<Longrightarrow> closed_id ss i \<Longrightarrow> closed_id ss' i"
  unfolding evolve_def closed_id_def st_step_def by metis

lemma evolve_sent: "evolve W k ss ss' \<Longrightarrow> sent_inv w s ss \<Longrightarrow> sent_inv w s ss'"
  using evolve_closed unfolding sent_inv_def by blast

lemma agrees_grows:
  assumes "agrees W i f" "\<not> ends i f"
  shows "agrees (W @ d) i f"
  using assms by (auto simp: agrees_def ends_def split: QuicFrame.splits)

lemma sent_grows:
  assumes s: "sent_inv w s ss" and live: "d \<noteq> [] \<longrightarrow> \<not> closed_id ss i"
  shows "sent_inv (w @ map (Pair i) d) s ss"
proof (cases "d = []")
  case False
  have "agrees (of_stream j (w @ map (Pair i) d)) j f" if f: "f \<in> set s" for j f
  proof (cases "j = i")
    case True
    have "\<not> ends i f" using s f live False unfolding sent_inv_def by blast
    then show ?thesis using agrees_grows [of "of_stream i w" i f d] s f True by (simp add: sent_inv_def)
  next
    case other: False
    then show ?thesis using s f by (simp add: sent_inv_def)
  qed
  then show ?thesis using s by (simp add: sent_inv_def)
qed (use s in simp)

lemma send_live:
  assumes "streams_inv w ss" "quicStreamSend xa ss i d = (n, ss')" "take n d \<noteq> []"
  shows "\<not> closed_id ss i"
  using quicStreamSend_inv(3) [OF assms(1,2)] assms(3) by (cases n) (auto simp: closed_id_def sclosed_def)

lemma fill_sent:
  assumes inv: "streams_inv w ss" and lim: "limits_ok ss" and r: "quicStreamsFill ss bufsz pn = (out, el, ss')"
    and s: "sent_inv w s ss"
  shows "sent_inv w (fst (frames_of (quicRdInit out)) @ s) ss'"
proof -
  obtain fs where fs: "frames_of (quicRdInit out) = (fs, \<lparr>rd_buf = out, rd_p = length out, rd_bad = False\<rparr>)"
      "\<forall>f\<in>set fs. conn_frame ss f \<or> says w ss f"
    using quicStreamsFill_frames(1) [OF inv lim r] by blast
  have k: "kept w ss ss'" by (rule quicStreamsFill_frames(4) [OF inv lim r])
  have "agrees (of_stream i w) i f \<and> (ends i f \<longrightarrow> closed_id ss i)" if "f \<in> set fs" for f i
  proof -
    consider "conn_frame ss f" | j st where "quicStreamFind ss j = Some st" "speaks (of_stream j w) st f"
      using fs(2) \<open>f \<in> set fs\<close> unfolding says_def by blast
    then show ?thesis
    proof cases
      case 1
      then show ?thesis by (auto simp: conn_frame_def agrees_def ends_def)
    next
      case 2
      have id: "st_id st = j" and u: "used ss j"
        using open_stream(2) [OF inv 2(1)] open_parts(4) [OF open_stream(1) [OF inv 2(1)]] by simp_all
      then have "ends i f \<longrightarrow> i = j \<and> sclosed st"
        using 2(2) by (auto simp: ends_def speaks_def sclosed_def split: QuicFrame.splits)
      moreover have "agrees (of_stream i w) i f"
        using 2(2) id by (auto simp: agrees_def speaks_def split: QuicFrame.splits)
      ultimately show ?thesis using 2(1) u by (auto simp: closed_id_def)
    qed
  qed
  moreover have "evolve W i ss ss'" for W i
    using k step_filled unfolding kept_def evolve_def by metis
  ultimately show ?thesis
    using s fs(1) evolve_closed unfolding sent_inv_def by (metis Un_iff fst_conv set_append)
qed

text \<open>Every other call, as a step of the streams.\<close>

lemma other_id: "\<exists>k :: u64. k \<noteq> j"
  by (metis zero_neq_one)

lemma run_sent: "streams_run opened xa server tp w r s g ss \<Longrightarrow> sent_inv w s ss"
proof (induction rule: streams_run.induct)
  case run_init
  then show ?case by (simp add: sent_inv_def)
next
  case (run_frame w r s g ss f)
  define j where "j = (case f of FStream hasOff hasLen fin j off d \<Rightarrow> j | FResetStream j err fsize \<Rightarrow> j | _ \<Rightarrow> 0)"
  obtain k where "k \<noteq> j" using other_id by blast
  then have "agrees [] k f" by (cases f) (simp_all add: j_def agrees_def)
  from evolve_sent [OF quicStreamsFrame_evolve [OF run_inv [OF run_frame(1)] run_frame(2,3) this] run_frame.IH]
  show ?case .
next
  case (run_fill w r s g ss bufsz pn out el ss')
  show ?case by (rule fill_sent [OF run_inv [OF run_fill(1)] run_fill(2,3) run_fill.IH])
next
  case (run_send w r s g ss i d n ss')
  note inv = run_inv [OF run_send(1)]
  have "sent_inv (w @ map (Pair i) (take n d)) s ss"
    by (rule sent_grows [OF run_send.IH]) (rule impI, rule send_live [OF inv run_send(2)])
  then show ?case by (rule evolve_sent [OF quicStreamSend_evolve [OF inv run_send(2), where W = "[]" and i = 0]])
next
  case (run_send_all w r s g ss i d ok bl ss')
  note inv = run_inv [OF run_send_all(1)]
  have "sent_inv (w @ map (Pair i) d) s ss" if ok
    by (rule sent_grows [OF run_send_all.IH])
      (use send_live [OF inv quicStreamSendAll_inv(2) [OF inv run_send_all(2) that]] in simp)
  then have "sent_inv (if ok then w @ map (Pair i) d else w) s ss" using run_send_all.IH by simp
  then show ?case by (rule evolve_sent [OF quicStreamSendAll_evolve [OF inv run_send_all(2), where W = "[]" and i = 0]])
next
  case (run_recv w r s g ss i n out fin ss')
  obtain k where "k \<noteq> i" using other_id [of i] by blast
  then have "i \<noteq> k" by simp
  from evolve_sent [OF quicStreamRecv_evolve [OF run_inv [OF run_recv(1)] run_recv(2) this, where W = "[]"] run_recv.IH]
  show ?case .
next
  case (run_handlers w r s g ss h)
  have "evolve [] 0 ss (quicStreamsSetHandlers ss h)"
    by (rule evolve_table) (simp add: quicStreamsSetHandlers_def same_table_def)
  then show ?case by (rule evolve_sent [OF _ run_handlers.IH])
next
  case (run_params w r s g ss ptp)
  have "evolve [] 0 ss (quicStreamsPeerParams ss ptp)"
    by (rule evolve_same) (simp_all add: quicStreamsPeerParams_def used_def fun_eq_iff)
  then show ?case by (rule evolve_sent [OF _ run_params.IH])
next
  case (run_acked w r s g ss pn)
  show ?case by (rule evolve_sent [OF resolve_evolve(1) [OF run_inv [OF run_acked(1)], where W = "[]" and i = 0] run_acked.IH])
next
  case (run_lost w r s g ss pn)
  show ?case by (rule evolve_sent [OF resolve_evolve(2) [OF run_inv [OF run_lost(1)], where W = "[]" and i = 0] run_lost.IH])
next
  case (run_open w r s g ss uni so ss')
  show ?case by (rule evolve_sent [OF quicStreamOpen_evolve [OF run_inv [OF run_open(1)] run_open(2), where W = "[]" and i = 0] run_open.IH])
next
  case (run_finish w r s g ss i)
  show ?case by (rule evolve_sent [OF quicStreamFinish_evolve [OF run_inv [OF run_finish(1)], where W = "[]" and i = 0] run_finish.IH])
next
  case (run_reset w r s g ss err i)
  show ?case by (rule evolve_sent [OF quicStreamReset_evolve [OF run_inv [OF run_reset(1)], where W = "[]" and i = 0] run_reset.IH])
next
  case (run_stop w r s g ss err i)
  show ?case by (rule evolve_sent [OF quicStreamStopSending_evolve [OF run_inv [OF run_stop(1)], where W = "[]" and i = 0] run_stop.IH])
qed



section \<open>The receiver\<close>

lemma run_got:
  assumes "streams_run opened xa server tp w r s g ss" "\<forall>f\<in>set g. agrees W i f"
  shows "got_inv W i r ss"
  using assms
proof (induction rule: streams_run.induct)
  case run_init
  then show ?case
    by (auto simp: got_inv_def quicStreamsInit_def streamsZero_def quicStreamFind_def intro: exI [of _ 0])
next
  case (run_frame w r s g ss f)
  note inv = run_inv [OF run_frame(1)]
  have "evolve W i ss (snd (quicStreamsFrame xa opened ss f))"
    by (rule quicStreamsFrame_evolve [OF inv run_frame(2,3)]) (use run_frame.prems in simp)
  from evolve_got [OF inv this] run_frame show ?case by simp
next
  case (run_fill w r s g ss bufsz pn out el ss')
  note inv = run_inv [OF run_fill(1)]
  have "kept w ss ss'" by (rule quicStreamsFill_frames(4) [OF inv run_fill(2,3)])
  then have "evolve W i ss ss'" using step_filled unfolding kept_def evolve_def by metis
  from evolve_got [OF inv this] run_fill show ?case by simp
next
  case (run_recv w r s g ss j n out fin ss')
  note inv = run_inv [OF run_recv(1)] and g = run_recv.IH [OF run_recv.prems]
  show ?case
  proof (cases "j = i")
    case True
    with quicStreamRecv_got(1) [OF inv _ g] run_recv(2) show ?thesis by simp
  next
    case False
    from evolve_got [OF inv quicStreamRecv_evolve [OF inv run_recv(2) False] g]
    show ?thesis using False by (simp add: got_inv_def)
  qed
next
  case (run_handlers w r s g ss h)
  have "evolve W i ss (quicStreamsSetHandlers ss h)"
    by (rule evolve_table) (simp add: quicStreamsSetHandlers_def same_table_def)
  from evolve_got [OF run_inv [OF run_handlers(1)] this] run_handlers show ?case by simp
next
  case (run_params w r s g ss ptp)
  have "evolve W i ss (quicStreamsPeerParams ss ptp)"
    by (rule evolve_same) (simp_all add: quicStreamsPeerParams_def used_def fun_eq_iff)
  from evolve_got [OF run_inv [OF run_params(1)] this] run_params show ?case by simp
next
  case (run_acked w r s g ss pn)
  note inv = run_inv [OF run_acked(1)]
  from evolve_got [OF inv resolve_evolve(1) [OF inv] run_acked.IH [OF run_acked.prems]] show ?case .
next
  case (run_lost w r s g ss pn)
  note inv = run_inv [OF run_lost(1)]
  from evolve_got [OF inv resolve_evolve(2) [OF inv] run_lost.IH [OF run_lost.prems]] show ?case .
next
  case (run_open w r s g ss uni so ss')
  note inv = run_inv [OF run_open(1)]
  from evolve_got [OF inv quicStreamOpen_evolve [OF inv run_open(2)] run_open.IH [OF run_open.prems]] show ?case .
next
  case (run_send w r s g ss i d n ss')
  note inv = run_inv [OF run_send(1)]
  from evolve_got [OF inv quicStreamSend_evolve [OF inv run_send(2)] run_send.IH [OF run_send.prems]] show ?case .
next
  case (run_send_all w r s g ss i d ok bl ss')
  note inv = run_inv [OF run_send_all(1)]
  from evolve_got [OF inv quicStreamSendAll_evolve [OF inv run_send_all(2)] run_send_all.IH [OF run_send_all.prems]] show ?case .
next
  case (run_finish w r s g ss i)
  note inv = run_inv [OF run_finish(1)]
  from evolve_got [OF inv quicStreamFinish_evolve [OF inv] run_finish.IH [OF run_finish.prems]] show ?case .
next
  case (run_reset w r s g ss err i)
  note inv = run_inv [OF run_reset(1)]
  from evolve_got [OF inv quicStreamReset_evolve [OF inv] run_reset.IH [OF run_reset.prems]] show ?case .
next
  case (run_stop w r s g ss err i)
  note inv = run_inv [OF run_stop(1)]
  from evolve_got [OF inv quicStreamStopSending_evolve [OF inv] run_stop.IH [OF run_stop.prems]] show ?case .
qed


section \<open>Delivery\<close>

text \<open>
  C1. Two endpoints with any history each, joined by a network that may lose, repeat, delay and reorder
  packets but does not make up frames: what one application has read from a stream is a prefix of what the
  other has written to it, whatever else happens on the connection. A read that reports the end of a
  stream the peer did not reset completes it: everything that was written has been read.
\<close>

theorem stream_delivers:
  assumes "streams_run openedA xaA serverA tpA w rA s gA ssA"
    and "streams_run openedB xaB serverB tpB wB r sB g ssB"
    and "set g \<subseteq> set s"
    and "quicStreamRecv ssB i n = (out, fin, ssB')"
  shows "(\<exists>k. of_stream i r @ out = take k (of_stream i w)) \<and>
    (fin \<and> (\<forall>st. quicStreamFind ssB i = Some st \<longrightarrow> st_recvState st \<noteq> QUIC_RECV_RESET) \<longrightarrow>
       of_stream i r @ out = of_stream i w)"
proof -
  have "\<forall>f\<in>set g. agrees (of_stream i w) i f"
    using run_sent [OF assms(1)] assms(3) unfolding sent_inv_def by blast
  note g = run_got [OF assms(2) this] and inv = run_inv [OF assms(2)]
  from quicStreamRecv_got [OF inv assms(4) g] show ?thesis by (simp add: got_inv_def)
qed


text \<open>A client that writes three bytes and ends the stream, and a server that gets the packet.\<close>

definition example_tp :: QuicTransportParams where
  "example_tp = quicTpDefaults\<lparr>tp_initMaxData := 100, tp_initMaxSdBidiLocal := 50, tp_initMaxSdBidiRemote := 50,
     tp_initMaxStreamsBidi := 2\<rparr>"

definition example_opened :: "StreamEvent list \<Rightarrow> bool" where
  "example_opened evs = True"

definition example_open :: QuicStreams where
  "example_open = snd (quicStreamOpen (quicStreamsPeerParams (quicStreamsInit False example_tp) example_tp) False)"

definition example_wrote :: QuicStreams where
  "example_wrote = quicStreamFinish (snd (quicStreamSend example_xa example_open 0 [1, 2, 3])) 0"

definition example_frame :: QuicFrame where
  "example_frame = FStream False True True 0 0 [1, 2, 3]"

definition example_reader :: QuicStreams where
  "example_reader = snd (quicStreamsFrame example_xa example_opened (quicStreamsInit True example_tp) example_frame)"

lemma example_own: "own_ok example_tp"
  by code_simp

lemma example_sent_run:
  "streams_run example_opened example_xa False example_tp (map (Pair 0) [1, 2, 3]) [] [] [] example_wrote"
proof -
  have p: "peer_ok (quicStreamsInit False example_tp) example_tp" by code_simp
  have o: "quicStreamOpen (quicStreamsPeerParams (quicStreamsInit False example_tp) example_tp) False = (Some 0, example_open)"
    unfolding example_open_def by (rule prod_eqI) (simp_all, code_simp)
  have n: "fst (quicStreamSend example_xa example_open 0 [1, 2, 3]) = 3" by code_simp
  then have w: "quicStreamSend example_xa example_open 0 [1, 2, 3] = (3, snd (quicStreamSend example_xa example_open 0 [1, 2, 3]))"
    by (metis prod.collapse)
  from run_finish [OF run_send [OF run_open [OF run_params [OF run_init [OF example_own] p] o] w], where i = 0]
  show ?thesis by (simp add: example_wrote_def)
qed

lemma example_frame_ok: "frame_ok example_frame"
  by (simp add: example_frame_def frame_ok_def frame_fits_def frame_valid_def frame_checked_def frame_delimited_def
      varint_ok_unat string_ok_def frameOffsetOk_def QUIC_MAX_PACKET_NUMBER_def)

lemma example_fill:
  "limits_ok example_wrote" "fst (frames_of (quicRdInit (fst (quicStreamsFill example_wrote 40 5)))) = [example_frame]"
proof -
  show "limits_ok example_wrote" by code_simp
  have "fst (quicStreamsFill example_wrote 40 5) = [11, 0, 3, 1, 2, 3]" by code_simp
  moreover have "frame_bytes example_frame = [11, 0, 3, 1, 2, 3]" by code_simp
  ultimately show "fst (frames_of (quicRdInit (fst (quicStreamsFill example_wrote 40 5)))) = [example_frame]"
    using frames_of_mk [of "[example_frame]" "[]"] example_frame_ok by (simp add: frame_ok_def quicRdInit_mk)
qed

lemma example_reader_run:
  "streams_run example_opened example_xa True example_tp [] [] [] [example_frame] example_reader"
proof -
  have "frame_fits example_frame" "frame_checked example_frame"
    using example_frame_ok by (simp_all add: frame_ok_def frame_valid_def)
  from run_frame [OF run_init [OF example_own] this] show ?thesis by (simp add: example_reader_def)
qed

lemma example_read:
  "case quicStreamRecv example_reader 0 10 of (d, fin, ss) \<Rightarrow> d = [1, 2, 3] \<and> fin"
  by code_simp

lemma example_not_reset:
  "list_all (\<lambda>(j, st). st_recvState st \<noteq> QUIC_RECV_RESET) (ss_byId example_reader)"
  by code_simp

theorem stream_delivers_witness:
  "fst (quicStreamRecv example_reader 0 10) = [1, 2, 3] \<and> fst (snd (quicStreamRecv example_reader 0 10)) \<and>
   of_stream 0 [] @ fst (quicStreamRecv example_reader 0 10) = of_stream 0 (map (Pair 0) [1, 2, 3])"
proof -
  obtain out el ss where f: "quicStreamsFill example_wrote 40 5 = (out, el, ss)" by (metis prod_cases3)
  have s: "streams_run example_opened example_xa False example_tp (map (Pair 0) [1, 2, 3]) [] [example_frame] [] ss"
    using run_fill [OF example_sent_run example_fill(1) f] example_fill(2) by (simp add: f)
  obtain d fin ss' where r: "quicStreamRecv example_reader 0 10 = (d, fin, ss')" by (metis prod_cases3)
  have d: "d = [1, 2, 3]" "fin" using example_read by (simp_all add: r)
  have "\<forall>st. quicStreamFind example_reader 0 = Some st \<longrightarrow> st_recvState st \<noteq> QUIC_RECV_RESET"
    using example_not_reset by (auto simp: quicStreamFind_def list_all_iff dest: map_of_SomeD)
  with stream_delivers [OF s example_reader_run _ r] d show ?thesis by (simp add: r)
qed


section \<open>Flow control\<close>

lemma stream_send_limit:
  assumes "streams_inv w ss" "quicStreamFind ss i = Some st"
  shows "length (of_stream i w) \<le> unat (st_sendMax st)"
proof -
  note o = open_stream [OF assms]
  have s: "send_inv (of_stream i w) st" using open_parts(2) [OF o(1)] o(2) by simp
  then show ?thesis
    by (cases "st_sendState st \<in> {QUIC_SEND_RESET_SENT, QUIC_SEND_RESET_DONE}") (auto simp: send_inv_def word_le_nat_alt)
qed

text \<open>
  The accounts are exact, in every state reached by a run of the stream layer in which the parameters of the
  peer lower no limit granted before (a refused 0-RTT can do that, and the code does not check it) and the
  application uses error codes below \<open>2 ^ 62\<close>. What the application handed over is what was counted against the peer's
  limits, in total and on each stream, and never exceeds them; what the peer may have sent never exceeds
  what this endpoint granted; and the credit still owed is exactly what has arrived on the live streams
  and was not taken yet.
\<close>

theorem stream_flow_control:
  assumes "streams_run opened xa server tp w r s g ss"
  shows "unat (ss_sendOff ss) = length w \<and> ss_sendOff ss \<le> ss_sendMax ss \<and> ss_recvOff ss \<le> ss_recvMax ss \<and>
    ss_recvOff ss - ss_recvRead ss = (\<Sum>(i, st)\<leftarrow>ss_byId ss. st_recvHighest st - st_recvRead st) \<and>
    (\<forall>i st. quicStreamFind ss i = Some st \<longrightarrow>
       length (of_stream i w) \<le> unat (st_sendMax st) \<and> st_recvRead st \<le> st_recvHighest st \<and>
       st_recvHighest st \<le> ra_limit (st_in st) \<and>
       (st_sendState st \<notin> {QUIC_SEND_RESET_SENT, QUIC_SEND_RESET_DONE} \<longrightarrow>
          unat (sb_end (st_out st)) = length (of_stream i w)))"
proof -
  note inv = run_inv [OF assms]
  have t: "totals_ok w ss" and b: "ss_recvOff ss - ss_recvRead ss = unread (ss_byId ss)"
    using inv unfolding streams_inv_def shared_inv_def by blast+
  have "length (of_stream i w) \<le> unat (st_sendMax st) \<and> st_recvRead st \<le> st_recvHighest st \<and>
       st_recvHighest st \<le> ra_limit (st_in st) \<and>
       (st_sendState st \<notin> {QUIC_SEND_RESET_SENT, QUIC_SEND_RESET_DONE} \<longrightarrow>
          unat (sb_end (st_out st)) = length (of_stream i w))" if "quicStreamFind ss i = Some st" for i st
  proof -
    note o = open_stream [OF inv that]
    from open_parts(2,3) [OF o(1)] o(2) stream_send_limit [OF inv that] show ?thesis
      by (auto simp: send_inv_def recv_inv_def)
  qed
  with t b show ?thesis by (simp add: totals_ok_def unread_def)
qed

theorem stream_flow_control_witness:
  "unat (ss_sendOff example_wrote) = 3 \<and> ss_sendOff example_wrote \<le> ss_sendMax example_wrote"
  using stream_flow_control [OF example_sent_run] by simp

text \<open>
  What a lowered limit does: after three bytes were written, parameters that grant one byte leave more
  accepted, and queued for sending, than is granted.
\<close>

lemma lowered_limit_overrun:
  "let ss = quicStreamsPeerParams example_wrote (example_tp\<lparr>tp_initMaxData := 1\<rparr>) in ss_sendMax ss < ss_sendOff ss"
  by code_simp

text \<open>The stream a frame is for, found or opened by the frame; opening streams moves no account.\<close>

lemma streamCreate_accounts [simp]:
  "ss_error (fst (streamCreate ss i)) = ss_error ss" "ss_recvOff (fst (streamCreate ss i)) = ss_recvOff ss"
  "ss_recvRead (fst (streamCreate ss i)) = ss_recvRead ss" "ss_recvMax (fst (streamCreate ss i)) = ss_recvMax ss"
  by (simp_all add: streamCreate_def setStream_def Let_def case_prod_beta)

lemma admitEach_accounts:
  "admitEach opened dir ft is ss = (True, ss1) \<Longrightarrow> ss_error ss1 = ss_error ss \<and> ss_recvOff ss1 = ss_recvOff ss
    \<and> ss_recvRead ss1 = ss_recvRead ss \<and> ss_recvMax ss1 = ss_recvMax ss"
proof (induction "is" arbitrary: ss)
  case (Cons i "is")
  let ?r = "streamCreate ss (quicStreamMakeId i (\<not> ss_server ss) (dir = QUIC_SDIR_UNI))"
  let ?ss2 = "(fst ?r)\<lparr>ss_nextRemote := (ss_nextRemote (fst ?r))(dir := i + 1)\<rparr>"
  have "admitEach opened dir ft is (streamHook ShOpened (SeOpened (st_id (snd ?r))) ?ss2) = (True, ss1)"
    using Cons.prems by (auto simp: Let_def case_prod_beta split: if_splits)
  from Cons.IH [OF this] show ?case by (simp add: streamHook_def)
qed simp

lemma streamForFrame_accounts:
  assumes "streamForFrame opened ss i ft = (Some st, ig, ss1)"
  shows "ss_error ss1 = ss_error ss" "ss_recvOff ss1 = ss_recvOff ss" "ss_recvRead ss1 = ss_recvRead ss" "ss_recvMax ss1 = ss_recvMax ss"
proof -
  have "ss1 = ss \<or> streamAdmit opened ss i ft = (True, ss1)"
    using assms by (auto simp: streamForFrame_def split: option.splits prod.splits bool.splits)
  then show "ss_error ss1 = ss_error ss" "ss_recvOff ss1 = ss_recvOff ss" "ss_recvRead ss1 = ss_recvRead ss" "ss_recvMax ss1 = ss_recvMax ss"
    by (auto simp: streamAdmit_def Let_def dest!: admitEach_accounts split: if_splits)
qed

text \<open>
  A peer that sends past a limit is refused. Take a STREAM frame whose data end at most at \<open>2 ^ 62\<close>, for
  a stream that this side receives on and that exists or is opened by the frame. If the data reach beyond
  what was granted on the stream, or on the whole connection, the frame fails, nothing of it is stored
  and no account moves. The error is FLOW_CONTROL_ERROR, except that a frame which also contradicts a
  final size that is known already is answered with FINAL_SIZE_ERROR.
\<close>

theorem stream_overrun_refused:
  assumes "streams_run opened xa server tp w r s g ss" "limits_ok ss" "canRecv ss i"
    and "streamForFrame opened ss i ft = (Some st, ig, ss1)"
    and "unat off + length d \<le> 2 ^ 62"
    and "unat (ra_limit (st_in st)) < unat off + length d
      \<or> unat (ss_recvMax ss) < unat (ss_recvOff ss) + (unat off + length d - unat (st_recvHighest st))"
  shows "\<exists>ss' st'. handleStreamData xa opened ss i off d fin ft = (False, ss') \<and>
    (ss_error ss = 0 \<longrightarrow> ss_errorFrame ss' = ft \<and> ss_error ss' =
       (if st_recvFinalKnown st \<and> (unat (st_recvFinal st) < unat off + length d
            \<or> fin \<and> unat (st_recvFinal st) \<noteq> unat off + length d)
        then QUIC_ERR_FINAL_SIZE_ERROR else QUIC_ERR_FLOW_CONTROL_ERROR)) \<and>
    quicStreamFind ss' i = Some st' \<and> st_in st' = st_in st \<and> st_recvHighest st' = st_recvHighest st \<and>
    ss_recvOff ss' = ss_recvOff ss \<and> ss_recvRead ss' = ss_recvRead ss"
proof -
  define e where "e = off + of_nat (length d)"
  have e: "unat e = unat off + length d"
    using assms(5) by (simp add: e_def unat_word_add unat_of_nat_small)
  note inv = run_inv [OF assms(1)] and acc = streamForFrame_accounts [OF assms(4)]
  have o: "open_inv w ss1 st" and id: "st_id st = i" using streamForFrame_inv(2) [OF inv assms(4)] by simp_all
  have found: "quicStreamFind ss1 i = Some st"
    using assms(4) by (auto simp: streamForFrame_def split: option.splits prod.splits bool.splits)
  have ri: "st_recvHighest st \<le> ra_limit (st_in st)" "st_recvFinalKnown st \<Longrightarrow> st_recvHighest st \<le> st_recvFinal st"
    using open_parts(3) [OF o] by (simp_all add: recv_inv_def)
  have t: "unat (ss_recvOff ss) \<le> unat (ss_recvMax ss)" "unat (ss_recvMax ss) < 2 ^ 62"
    using inv assms(2) by (simp_all add: streams_inv_def shared_inv_def totals_ok_def word_le_nat_alt limits_ok_def varint_ok_unat)
  have hi: "st_recvHighest st < e" using assms(6) ri(1) t(1) e by (auto simp: word_less_nat_alt word_le_nat_alt)
  then have delta: "unat (e - st_recvHighest st) = unat e - unat (st_recvHighest st)"
    by (intro unat_word_sub order.strict_implies_order)
  have sum: "unat (ss_recvOff ss + (e - st_recvHighest st)) = unat (ss_recvOff ss) + (unat e - unat (st_recvHighest st))"
    using t assms(5) e delta by (simp add: unat_word_add)
  have over: "ra_limit (st_in st) < e \<or> ss_recvMax ss < ss_recvOff ss + (e - st_recvHighest st)"
    using assms(6) sum e by (simp add: word_less_nat_alt)
  have fin: "(st_recvFinal st < e \<or> fin \<and> e \<noteq> st_recvFinal st) =
      (unat (st_recvFinal st) < unat off + length d \<or> fin \<and> unat (st_recvFinal st) \<noteq> unat off + length d)"
    using e by (auto simp: word_less_nat_alt word_unat_eq_iff)
  show ?thesis
  proof (cases "st_recvFinalKnown st \<and> (st_recvFinal st < e \<or> fin \<and> e \<noteq> st_recvFinal st)")
    case True
    then have "handleStreamData xa opened ss i off d fin ft = (False, streamsFail ss1 QUIC_ERR_FINAL_SIZE_ERROR ft)"
      using assms(3,4) by (simp add: handleStreamData_def Let_def flip: e_def)
    then show ?thesis using True acc found fin by (auto simp: streamsFail_def quicStreamFind_def)
  next
    case False
    define st2 where "st2 = (if fin \<and> \<not> st_recvFinalKnown st then st\<lparr>st_recvFinal := e, st_recvFinalKnown := True\<rparr> else st)"
    have f: "(if fin then recvFinalSize ss1 st e ft else (True, ss1, st)) = (True, ss1, st2)"
      using False hi by (auto simp: recvFinalSize_def st2_def)
    have a: "recvAccount ss1 st2 e ft = (False, streamsFail ss1 QUIC_ERR_FLOW_CONTROL_ERROR ft, st2)"
      using hi over acc by (auto simp: recvAccount_def Let_def st2_def)
    have "handleStreamData xa opened ss i off d fin ft = (False, setStream (streamsFail ss1 QUIC_ERR_FLOW_CONTROL_ERROR ft) st2)"
      using assms(3,4) False f a by (simp add: handleStreamData_def Let_def flip: e_def) blast
    moreover have "st_id st2 = i" "st_in st2 = st_in st" "st_recvHighest st2 = st_recvHighest st" using id by (simp_all add: st2_def)
    ultimately show ?thesis using acc False fin
      by (intro exI [of _ "setStream (streamsFail ss1 QUIC_ERR_FLOW_CONTROL_ERROR ft) st2"] exI [of _ st2])
        (auto simp: streamsFail_def)
  qed
qed

theorem stream_overrun_refused_witness:
  "\<exists>ss'. handleStreamData example_xa example_opened (quicStreamsInit True example_tp) 0 48 [1, 2, 3] False 10 = (False, ss') \<and>
     ss_error ss' = QUIC_ERR_FLOW_CONTROL_ERROR"
proof -
  let ?ss = "quicStreamsInit True example_tp"
  have c: "case streamForFrame example_opened ?ss 0 10 of (None, ig, ss1) \<Rightarrow> False
    | (Some st, ig, ss1) \<Rightarrow> \<not> st_recvFinalKnown st \<and> ra_limit (st_in st) = 50"
    "canRecv ?ss 0" "ss_error ?ss = 0" "limits_ok ?ss" by code_simp+
  then obtain st ig ss1 where f: "streamForFrame example_opened ?ss 0 10 = (Some st, ig, ss1)"
    "\<not> st_recvFinalKnown st" "ra_limit (st_in st) = 50" by (auto split: prod.splits option.splits)
  from stream_overrun_refused [OF run_init [OF example_own] c(4,2) f(1), of 48 "[1, 2, 3]"] f c(3) show ?thesis by auto
qed


section \<open>What goes into packets\<close>

text \<open>
  In a run of the stream layer in which the parameters of the peer lower no limit granted before, the
  application uses error codes below \<open>2 ^ 62\<close> and the limits this endpoint announces are below \<open>2 ^ 62\<close>, a
  packet is filled with frames the peer can read, to the last byte. A STREAM frame carries bytes that
  were written, at their place and inside the limit the peer set for the stream; all that was written, on all
  streams together, is inside the limit the peer set for the connection; the end of a stream is marked only
  where the application ended it. The limits announced are the ones that are enforced.
\<close>

theorem stream_packets_sound:
  assumes "streams_run opened xa server tp w r s g ss" "limits_ok ss"
    and "quicStreamsFill ss bufsz pn = (out, el, ss')"
  shows "\<exists>fs. frames_of (quicRdInit out) = (fs, \<lparr>rd_buf = out, rd_p = length out, rd_bad = False\<rparr>) \<and>
    length out \<le> bufsz \<and> length w \<le> unat (ss_sendMax ss) \<and>
    (\<forall>f\<in>set fs. case f of
        FStream hasOff hasLen fin i off d \<Rightarrow> \<exists>st. quicStreamFind ss i = Some st \<and>
          unat off + length d \<le> unat (st_sendMax st) \<and> d = take (length d) (drop (unat off) (of_stream i w)) \<and>
          (fin \<longrightarrow> unat off + length d = length (of_stream i w) \<and>
             st_sendState st \<notin> {QUIC_SEND_READY, QUIC_SEND_SEND})
      | FResetStream i err fsize \<Rightarrow> unat fsize = length (of_stream i w)
      | FMaxData m \<Rightarrow> m = ss_recvMax ss
      | FMaxStreamData i m \<Rightarrow> \<exists>st. quicStreamFind ss i = Some st \<and> m = ra_limit (st_in st)
      | FMaxStreams uni m \<Rightarrow> m = ss_recvMaxStreams ss (if uni then QUIC_SDIR_UNI else QUIC_SDIR_BIDI)
      | FStopSending i err \<Rightarrow> quicStreamFind ss i \<noteq> None
      | FDataBlocked m \<Rightarrow> m = ss_sendMax ss
      | FStreamDataBlocked i m \<Rightarrow> quicStreamFind ss i \<noteq> None
      | FStreamsBlocked uni m \<Rightarrow> m = ss_sendMaxStreams ss (if uni then QUIC_SDIR_UNI else QUIC_SDIR_BIDI)
      | _ \<Rightarrow> False)"
proof -
  note inv = run_inv [OF assms(1)]
  have total: "length w \<le> unat (ss_sendMax ss)"
    using inv by (auto simp: streams_inv_def shared_inv_def totals_ok_def word_le_nat_alt)
  obtain fs where fs: "frames_of (quicRdInit out) = (fs, \<lparr>rd_buf = out, rd_p = length out, rd_bad = False\<rparr>)"
      "\<forall>f\<in>set fs. conn_frame ss f \<or> says w ss f"
    using quicStreamsFill_frames(1) [OF inv assms(2,3)] by blast
  have c: "dir = (if uni then QUIC_SDIR_UNI else QUIC_SDIR_BIDI)" if "uni = (dir = QUIC_SDIR_UNI)" for uni dir
    using that by (cases dir) auto
  show ?thesis
  proof (intro exI [of _ fs] conjI ballI)
    fix f
    assume "f \<in> set fs"
    then consider "conn_frame ss f" | i st where "quicStreamFind ss i = Some st" "speaks (of_stream i w) st f"
      using fs(2) unfolding says_def by blast
    then show "case f of
        FStream hasOff hasLen fin i off d \<Rightarrow> \<exists>st. quicStreamFind ss i = Some st \<and>
          unat off + length d \<le> unat (st_sendMax st) \<and> d = take (length d) (drop (unat off) (of_stream i w)) \<and>
          (fin \<longrightarrow> unat off + length d = length (of_stream i w) \<and>
             st_sendState st \<notin> {QUIC_SEND_READY, QUIC_SEND_SEND})
      | FResetStream i err fsize \<Rightarrow> unat fsize = length (of_stream i w)
      | FMaxData m \<Rightarrow> m = ss_recvMax ss
      | FMaxStreamData i m \<Rightarrow> \<exists>st. quicStreamFind ss i = Some st \<and> m = ra_limit (st_in st)
      | FMaxStreams uni m \<Rightarrow> m = ss_recvMaxStreams ss (if uni then QUIC_SDIR_UNI else QUIC_SDIR_BIDI)
      | FStopSending i err \<Rightarrow> quicStreamFind ss i \<noteq> None
      | FDataBlocked m \<Rightarrow> m = ss_sendMax ss
      | FStreamDataBlocked i m \<Rightarrow> quicStreamFind ss i \<noteq> None
      | FStreamsBlocked uni m \<Rightarrow> m = ss_sendMaxStreams ss (if uni then QUIC_SDIR_UNI else QUIC_SDIR_BIDI)
      | _ \<Rightarrow> False"
    proof cases
      case 1
      then show ?thesis using c by (auto simp: conn_frame_def)
    next
      case 2
      have id: "st_id st = i" by (rule open_stream(2) [OF inv 2(1)])
      have "length (of_stream i w) \<le> unat (st_sendMax st)"
        using stream_send_limit [OF inv 2(1)] .
      then show ?thesis using 2 id by (auto simp: speaks_def split: QuicFrame.splits)
    qed
  qed (use fs(1) total quicStreamsFill_frames(2) [OF inv assms(2,3)] in simp_all)
qed

theorem stream_packets_sound_witness:
  "\<exists>fs. frames_of (quicRdInit (fst (quicStreamsFill example_wrote 40 5))) =
     (fs, \<lparr>rd_buf = fst (quicStreamsFill example_wrote 40 5), rd_p = length (fst (quicStreamsFill example_wrote 40 5)),
        rd_bad = False\<rparr>)"
proof -
  obtain out el ss where f: "quicStreamsFill example_wrote 40 5 = (out, el, ss)" by (metis prod_cases3)
  from stream_packets_sound [OF example_sent_run example_fill(1) f] show ?thesis by (auto simp: f)
qed



section \<open>Identifiers\<close>

text \<open>
  C40. A stream the application opens has an identifier that no stream of the connection has or had, of the kind
  asked for and opened by this side; its number is below the peer's limit, and nothing was written to it.
\<close>

theorem stream_open_fresh:
  assumes "streams_run opened xa server tp w r s g ss" "quicStreamOpen ss uni = (Some i, ss')"
  shows "\<not> used ss i \<and> used ss' i \<and> quicStreamFind ss i = None \<and> quicStreamFind ss' i \<noteq> None \<and>
    quicStreamUni i = uni \<and> quicStreamLocal i (ss_server ss) \<and>
    quicStreamIndex i < ss_sendMaxStreams ss (quicStreamDir i) \<and> of_stream i w = []"
proof -
  note inv = run_inv [OF assms(1)]
  define dir where "dir = (if uni then QUIC_SDIR_UNI else QUIC_SDIR_BIDI)"
  have lt: "ss_nextLocal ss dir < ss_sendMaxStreams ss dir"
    using assms(2) by (auto simp: quicStreamOpen_def Let_def dir_def split: if_splits)
  have i: "i = quicStreamMakeId (ss_nextLocal ss dir) (ss_server ss) uni"
    "ss' = (let ss1 = fst (streamCreate ss i) in ss1\<lparr>ss_nextLocal := (ss_nextLocal ss1)(dir := ss_nextLocal ss1 dir + 1)\<rparr>)"
    using assms(2) lt by (auto simp: quicStreamOpen_def Let_def dir_def split: if_splits)
  have c: "counts_ok ss" and t: "totals_ok w ss" and sh: "shared_inv w ss"
    using inv unfolding streams_inv_def shared_inv_def by blast+
  have lim: "ss_sendMaxStreams ss dir \<le> push_bit 60 1" using c by (simp add: counts_ok_def)
  note n = next_index [OF lt lim]
  note m = makeId_fields [OF n(1), of "ss_server ss" uni, folded i(1)] and d = dir_makeId [OF n(1), of "ss_server ss" uni, folded i(1) dir_def]
  have fresh: "\<not> used ss i" using quicStreamOpen_inv(2) [OF inv assms(2)] by blast
  have "quicStreamFind ss i = None"
    using open_parts(4) [OF open_stream(1) [OF inv]] open_stream(2) [OF inv] fresh
    by (metis not_Some_eq)
  moreover have "of_stream i w = []" using sh fresh by (auto simp: shared_inv_def)
  moreover have "quicStreamFind ss' i \<noteq> None"
    by (simp add: i(2) Let_def quicStreamFind_def create_blank(3) update_conv')
  moreover have "used ss' i" using create_stream(2) [OF t, of i] n(4) by (simp add: used_def m d i(2) Let_def)
  ultimately show ?thesis using fresh lt by (simp add: m d)
qed

theorem stream_open_fresh_witness:
  "\<not> used (quicStreamsPeerParams (quicStreamsInit False example_tp) example_tp) 0 \<and> used example_open 0"
proof -
  have p: "peer_ok (quicStreamsInit False example_tp) example_tp" by code_simp
  have "quicStreamOpen (quicStreamsPeerParams (quicStreamsInit False example_tp) example_tp) False = (Some 0, example_open)"
    unfolding example_open_def by (rule prod_eqI) (simp_all, code_simp)
  from stream_open_fresh [OF run_params [OF run_init [OF example_own] p] this] show ?thesis by blast
qed

end
