(* ===== verification/Tls13Kdf.thy ===== *)
theory Tls13Kdf
  imports CxPrelude
begin

text \<open>
  The TLS 1.3 key schedule of \<^verbatim>\<open>src/cxtls/tls13kdf.c\<close>, which QUIC derives all its packet
  protection keys with.

  The cryptographic primitives are not part of the repository: they belong to mbedTLS and its PSA
  API. They are the fields of the parameter \<open>psa\<close>, one per call the code makes, and \<open>None\<close>
  stands for a status other than \<^verbatim>\<open>PSA_SUCCESS\<close>. A key derivation is a fixed sequence of
  calls on a fresh operation object (set up, inputs, output), so the whole sequence is one field,
  and so is the multipart AEAD of the Retry tag (nonce, announced lengths, the pieces of the
  associated data, room for the tag);
  what an operation object does over time only shows in the transcript, which has its own
  parameter \<open>psa_hash_ops\<close>. What the theorems need of them is stated as named hypotheses:
  \<open>hkdf_lengths\<close> and \<open>hash_ops_ok\<close>.

  A key handle is the key it denotes, with its attributes, and \<^verbatim>\<open>PSA_KEY_ID_NULL\<close> is \<open>None\<close>.
  Wiping temporaries with \<^verbatim>\<open>memset\<close> before returning has no effect a caller can see and is not
  modelled. A fixed array together with a length field is the list of the bytes in use.
\<close>

section \<open>The PSA interface\<close>

datatype psa_algorithm =
    PSA_ALG_NONE
  | PSA_ALG_SHA_256
  | PSA_ALG_SHA_384
  | PSA_ALG_GCM
  | PSA_ALG_CHACHA20_POLY1305
  | PSA_ALG_ECB_NO_PADDING
  | PSA_ALG_HMAC psa_algorithm

datatype psa_key_type = PSA_KEY_TYPE_NONE | PSA_KEY_TYPE_AES | PSA_KEY_TYPE_CHACHA20 | PSA_KEY_TYPE_HMAC

datatype psa_usage = PSA_KEY_USAGE_ENCRYPT | PSA_KEY_USAGE_DECRYPT | PSA_KEY_USAGE_SIGN_MESSAGE

record psa_key =
  pk_type :: psa_key_type
  pk_bits :: nat
  pk_usage :: "psa_usage list"
  pk_alg :: psa_algorithm
  pk_bytes :: "u8 list"

record psa =
  psa_crypto_init :: bool
  psa_import_key :: "psa_key \<Rightarrow> bool"
  psa_hkdf_extract :: "psa_algorithm \<Rightarrow> u8 list \<Rightarrow> u8 list \<Rightarrow> nat \<Rightarrow> u8 list option"
  psa_hkdf_expand :: "psa_algorithm \<Rightarrow> u8 list \<Rightarrow> u8 list \<Rightarrow> nat \<Rightarrow> u8 list option"
  psa_mac_compute :: "psa_key option \<Rightarrow> psa_algorithm \<Rightarrow> u8 list \<Rightarrow> nat \<Rightarrow> u8 list option"
  psa_hash_compute :: "psa_algorithm \<Rightarrow> u8 list \<Rightarrow> nat \<Rightarrow> u8 list option"
  psa_aead_encrypt ::
    "psa_key option \<Rightarrow> psa_algorithm \<Rightarrow> u8 list \<Rightarrow> u8 list \<Rightarrow> u8 list \<Rightarrow> nat \<Rightarrow> u8 list option"
  psa_aead_decrypt ::
    "psa_key option \<Rightarrow> psa_algorithm \<Rightarrow> u8 list \<Rightarrow> u8 list \<Rightarrow> u8 list \<Rightarrow> nat \<Rightarrow> u8 list option"
  psa_aead_tag ::
    "psa_key option \<Rightarrow> psa_algorithm \<Rightarrow> u8 list \<Rightarrow> nat \<times> nat \<Rightarrow> u8 list list \<Rightarrow> nat \<Rightarrow> u8 list option"
  psa_cipher_encrypt :: "psa_key option \<Rightarrow> psa_algorithm \<Rightarrow> u8 list \<Rightarrow> nat \<Rightarrow> u8 list option"
  mbedtls_chacha20_crypt :: "u8 list \<Rightarrow> u8 list \<Rightarrow> u32 \<Rightarrow> u8 list \<Rightarrow> u8 list option"

text \<open>\<^verbatim>\<open>tlsInit\<close>: the once-only initialisation succeeded. \<^verbatim>\<open>_quicInit\<close> defers to it.\<close>

definition tlsInit :: "psa \<Rightarrow> bool" where
  "tlsInit P = psa_crypto_init P"

definition quicInit :: "psa \<Rightarrow> bool" where
  "quicInit P = tlsInit P"

text \<open>\<^verbatim>\<open>psa_import_key\<close> with the attributes of \<open>k\<close>; the handle denotes \<open>k\<close>.\<close>

definition import_key :: "psa \<Rightarrow> psa_key \<Rightarrow> psa_key option" where
  "import_key P k = (if psa_import_key P k then Some k else None)"

text \<open>The bytes of a string constant.\<close>

definition str_bytes :: "string \<Rightarrow> u8 list" where
  "str_bytes s = map of_char s"

lemma length_str_bytes [simp]: "length (str_bytes s) = length s"
  by (simp add: str_bytes_def)


section \<open>Cipher suites\<close>

abbreviation (input) TLS13_MAX_HASH :: nat where "TLS13_MAX_HASH \<equiv> 48"
abbreviation (input) TLS13_MAX_KEY :: nat where "TLS13_MAX_KEY \<equiv> 32"
abbreviation (input) TLS13_IV_LEN :: nat where "TLS13_IV_LEN \<equiv> 12"

record Tls13Suite =
  su_id :: "16 word"
  su_hashLen :: nat
  su_keyLen :: nat
  su_hash :: psa_algorithm
  su_aead :: psa_algorithm
  su_keyType :: psa_key_type

abbreviation (input) TLS13_AES_128_GCM_SHA256 :: "16 word" where
  "TLS13_AES_128_GCM_SHA256 \<equiv> 0x1301"
abbreviation (input) TLS13_AES_256_GCM_SHA384 :: "16 word" where
  "TLS13_AES_256_GCM_SHA384 \<equiv> 0x1302"
abbreviation (input) TLS13_CHACHA20_POLY1305_SHA256 :: "16 word" where
  "TLS13_CHACHA20_POLY1305_SHA256 \<equiv> 0x1303"

definition tls13Suites :: "Tls13Suite list" where
  "tls13Suites =
     [\<lparr>su_id = TLS13_AES_128_GCM_SHA256, su_hashLen = 32, su_keyLen = 16,
       su_hash = PSA_ALG_SHA_256, su_aead = PSA_ALG_GCM, su_keyType = PSA_KEY_TYPE_AES\<rparr>,
      \<lparr>su_id = TLS13_AES_256_GCM_SHA384, su_hashLen = 48, su_keyLen = 32,
       su_hash = PSA_ALG_SHA_384, su_aead = PSA_ALG_GCM, su_keyType = PSA_KEY_TYPE_AES\<rparr>,
      \<lparr>su_id = TLS13_CHACHA20_POLY1305_SHA256, su_hashLen = 32, su_keyLen = 32,
       su_hash = PSA_ALG_SHA_256, su_aead = PSA_ALG_CHACHA20_POLY1305,
       su_keyType = PSA_KEY_TYPE_CHACHA20\<rparr>]"

definition tls13Suite :: "16 word \<Rightarrow> Tls13Suite option" where
  "tls13Suite i = find (\<lambda>su. su_id su = i) tls13Suites"

fun tls13HashLen :: "psa_algorithm \<Rightarrow> nat" where
  "tls13HashLen PSA_ALG_SHA_256 = 32"
| "tls13HashLen PSA_ALG_SHA_384 = 48"
| "tls13HashLen _ = 0"


section \<open>HKDF\<close>

definition tls13Extract :: "psa \<Rightarrow> psa_algorithm \<Rightarrow> u8 list \<Rightarrow> u8 list \<Rightarrow> u8 list option" where
  "tls13Extract P hash salt ikm =
     (let hashLen = tls13HashLen hash in
      if hashLen = 0 \<or> \<not> tlsInit P then None
      else psa_hkdf_extract P hash salt ikm hashLen)"

definition tls13HkdfLabel :: "u8 list \<Rightarrow> u8 list \<Rightarrow> 16 word \<Rightarrow> nat \<Rightarrow> u8 list option" where
  "tls13HkdfLabel label ctx outLen bufsz =
     (let labelLen = length label; ctxLen = length ctx in
      if labelLen + 6 > 255 \<or> ctxLen > 255 then None
      else
        let need = 2 + 1 + labelLen + 6 + 1 + ctxLen in
        if bufsz < need then None
        else Some ([ucast (drop_bit 8 outLen), ucast (outLen AND 0xff), of_nat (labelLen + 6)]
               @ str_bytes ''tls13 '' @ label @ [of_nat ctxLen] @ ctx))"

definition tls13ExpandLabel ::
  "psa \<Rightarrow> psa_algorithm \<Rightarrow> u8 list \<Rightarrow> u8 list \<Rightarrow> u8 list \<Rightarrow> nat \<Rightarrow> u8 list option" where
  "tls13ExpandLabel P hash secret label ctx outLen =
     (if tls13HashLen hash = 0 \<or> outLen > 0xffff \<or> \<not> tlsInit P then None
      else
        case tls13HkdfLabel label ctx (of_nat outLen) (2 + 1 + 255 + 1 + 255) of
          None \<Rightarrow> None
        | Some info \<Rightarrow> psa_hkdf_expand P hash secret info outLen)"

text \<open>
  \<^verbatim>\<open>_tls13DeriveSecret\<close> reads \<^verbatim>\<open>hashLen\<close> bytes of its \<^verbatim>\<open>secret\<close> argument, an array of
  \<^verbatim>\<open>TLS13_MAX_HASH\<close> bytes.
\<close>

definition tls13DeriveSecret ::
  "psa \<Rightarrow> psa_algorithm \<Rightarrow> u8 list \<Rightarrow> u8 list \<Rightarrow> u8 list \<Rightarrow> u8 list option" where
  "tls13DeriveSecret P hash secret label thash =
     (let hashLen = tls13HashLen hash in
      if hashLen = 0 then None
      else tls13ExpandLabel P hash (take hashLen secret) label thash hashLen)"

definition tls13TrafficKeys ::
  "psa \<Rightarrow> psa_algorithm \<Rightarrow> u8 list \<Rightarrow> u8 list \<Rightarrow> nat \<Rightarrow> u8 list \<Rightarrow> nat
     \<Rightarrow> (u8 list \<times> u8 list) option" where
  "tls13TrafficKeys P hash secret keyLabel keyLen ivLabel ivLen =
     (let hashLen = tls13HashLen hash in
      if hashLen = 0 then None
      else
        case tls13ExpandLabel P hash (take hashLen secret) keyLabel [] keyLen of
          None \<Rightarrow> None
        | Some key \<Rightarrow>
            case tls13ExpandLabel P hash (take hashLen secret) ivLabel [] ivLen of
              None \<Rightarrow> None
            | Some iv \<Rightarrow> Some (key, iv))"

definition tls13Finished ::
  "psa \<Rightarrow> psa_algorithm \<Rightarrow> u8 list \<Rightarrow> u8 list \<Rightarrow> u8 list option" where
  "tls13Finished P hash secret thash =
     (let hashLen = tls13HashLen hash in
      if hashLen = 0 \<or> \<not> tlsInit P then None
      else
        case tls13ExpandLabel P hash (take hashLen secret) (str_bytes ''finished'') [] hashLen of
          None \<Rightarrow> None
        | Some finKey \<Rightarrow>
            case import_key P \<lparr>pk_type = PSA_KEY_TYPE_HMAC, pk_bits = 0,
                   pk_usage = [PSA_KEY_USAGE_SIGN_MESSAGE], pk_alg = PSA_ALG_HMAC hash,
                   pk_bytes = finKey\<rparr> of
              None \<Rightarrow> None
            | Some kid \<Rightarrow>
                case psa_mac_compute P (Some kid) (PSA_ALG_HMAC hash) thash TLS13_MAX_HASH of
                  None \<Rightarrow> None
                | Some out \<Rightarrow> if length out \<noteq> hashLen then None else Some out)"


section \<open>Transcript hash\<close>

text \<open>
  A \<^verbatim>\<open>psa_hash_operation_t\<close> has a state of its own, which \<^verbatim>\<open>psa_hash_update\<close> may change
  even when it fails. \<open>psa_hash_finish\<close> is applied to a clone only.
\<close>

record 'op psa_hash_ops =
  psa_hash_init :: 'op
  psa_hash_setup :: "psa_algorithm \<Rightarrow> bool \<times> 'op"
  psa_hash_update :: "'op \<Rightarrow> u8 list \<Rightarrow> bool \<times> 'op"
  psa_hash_clone :: "'op \<Rightarrow> 'op option"
  psa_hash_finish :: "'op \<Rightarrow> nat \<Rightarrow> u8 list option"
  psa_hash_abort :: "'op \<Rightarrow> 'op"

record 'op Tls13Transcript =
  tr_op :: 'op
  tr_hash :: psa_algorithm
  tr_live :: bool

definition tls13TranscriptInit ::
  "psa \<Rightarrow> 'op psa_hash_ops \<Rightarrow> psa_algorithm \<Rightarrow> bool \<times> 'op Tls13Transcript" where
  "tls13TranscriptInit P H hash =
     (let tr = \<lparr>tr_op = psa_hash_init H, tr_hash = PSA_ALG_NONE, tr_live = False\<rparr> in
      if tls13HashLen hash = 0 \<or> \<not> tlsInit P then (False, tr)
      else
        case psa_hash_setup H hash of
          (st, op) \<Rightarrow> (st, tr\<lparr>tr_op := op, tr_hash := hash, tr_live := st\<rparr>))"

definition tls13TranscriptUpdate ::
  "'op psa_hash_ops \<Rightarrow> 'op Tls13Transcript \<Rightarrow> u8 list \<Rightarrow> bool \<times> 'op Tls13Transcript" where
  "tls13TranscriptUpdate H tr data =
     (if \<not> tr_live tr then (False, tr)
      else if data = [] then (True, tr)
      else case psa_hash_update H (tr_op tr) data of (st, op) \<Rightarrow> (st, tr\<lparr>tr_op := op\<rparr>))"

definition tls13TranscriptHash ::
  "'op psa_hash_ops \<Rightarrow> 'op Tls13Transcript \<Rightarrow> u8 list option" where
  "tls13TranscriptHash H tr =
     (if \<not> tr_live tr then None
      else
        case psa_hash_clone H (tr_op tr) of
          None \<Rightarrow> None
        | Some tmp \<Rightarrow>
            case psa_hash_finish H tmp TLS13_MAX_HASH of
              None \<Rightarrow> None
            | Some out \<Rightarrow> if length out \<noteq> tls13HashLen (tr_hash tr) then None else Some out)"

definition tls13TranscriptDestroy ::
  "'op psa_hash_ops \<Rightarrow> 'op Tls13Transcript \<Rightarrow> 'op Tls13Transcript" where
  "tls13TranscriptDestroy H tr =
     (if tr_live tr then tr\<lparr>tr_op := psa_hash_abort H (tr_op tr), tr_live := False\<rparr> else tr)"


section \<open>Key schedule\<close>

record Tls13Schedule =
  sc_hash :: psa_algorithm
  sc_hashLen :: nat
  sc_secret :: "u8 list"

definition tls13SchedAdvance :: "psa \<Rightarrow> Tls13Schedule \<Rightarrow> u8 list \<Rightarrow> Tls13Schedule option" where
  "tls13SchedAdvance P s ikm =
     (case psa_hash_compute P (sc_hash s) [] TLS13_MAX_HASH of
        None \<Rightarrow> None
      | Some emptyHash \<Rightarrow>
          case tls13DeriveSecret P (sc_hash s) (sc_secret s) (str_bytes ''derived'') emptyHash of
            None \<Rightarrow> None
          | Some salt \<Rightarrow>
              case tls13Extract P (sc_hash s) (take (sc_hashLen s) salt) ikm of
                None \<Rightarrow> None
              | Some secret \<Rightarrow> Some (s\<lparr>sc_secret := secret\<rparr>))"

definition tls13SchedEarly :: "psa \<Rightarrow> psa_algorithm \<Rightarrow> u8 list option \<Rightarrow> Tls13Schedule option" where
  "tls13SchedEarly P hash psk =
     (let hashLen = tls13HashLen hash in
      if hashLen = 0 then None
      else
        let ikm = (case psk of None \<Rightarrow> replicate hashLen 0 | Some p \<Rightarrow> p) in
        case tls13Extract P hash [] ikm of
          None \<Rightarrow> None
        | Some secret \<Rightarrow> Some \<lparr>sc_hash = hash, sc_hashLen = hashLen, sc_secret = secret\<rparr>)"

definition tls13SchedHandshake :: "psa \<Rightarrow> Tls13Schedule \<Rightarrow> u8 list \<Rightarrow> Tls13Schedule option" where
  "tls13SchedHandshake P s ecdhe =
     (if sc_hashLen s = 0 then None else tls13SchedAdvance P s ecdhe)"

definition tls13SchedMaster :: "psa \<Rightarrow> Tls13Schedule \<Rightarrow> Tls13Schedule option" where
  "tls13SchedMaster P s =
     (if sc_hashLen s = 0 then None
      else tls13SchedAdvance P s (replicate (sc_hashLen s) 0))"

definition tls13SchedDerive ::
  "psa \<Rightarrow> Tls13Schedule \<Rightarrow> u8 list \<Rightarrow> u8 list \<Rightarrow> u8 list option" where
  "tls13SchedDerive P s label thash =
     (if sc_hashLen s = 0 then None
      else tls13DeriveSecret P (sc_hash s) (sc_secret s) label thash)"


section \<open>Label encoding\<close>

lemma tls13HkdfLabel_cases:
  "tls13HkdfLabel label ctx outLen bufsz =
     (if length label \<le> 249 \<and> length ctx \<le> 255 \<and> 10 + length label + length ctx \<le> bufsz
      then Some ([ucast (drop_bit 8 outLen), ucast (outLen AND 0xff), of_nat (length label + 6)]
        @ str_bytes ''tls13 '' @ label @ [of_nat (length ctx)] @ ctx)
      else None)"
  by (auto simp: tls13HkdfLabel_def Let_def)

lemma label_length_inj:
  assumes "(of_nat (m + 6) :: u8) = of_nat (n + 6)" "m \<le> 249" "n \<le> 249"
  shows "m = n"
proof -
  have "unat (of_nat (m + 6) :: u8) = unat (of_nat (n + 6) :: u8)"
    using assms(1) by (rule arg_cong)
  moreover have "unat (of_nat (m + 6) :: u8) = m + 6" "unat (of_nat (n + 6) :: u8) = n + 6"
    by (rule unat_of_nat_small, use assms(2, 3) in simp)+
  ultimately show ?thesis by linarith
qed

lemma length_octets_inj:
  fixes a b :: "16 word"
  assumes "(ucast (drop_bit 8 a) :: u8) = ucast (drop_bit 8 b)"
    "(ucast (a AND 0xff) :: u8) = ucast (b AND 0xff)"
  shows "a = b"
proof (rule bit_word_eqI)
  fix n assume n: "n < LENGTH(16)"
  show "bit a n = bit b n"
  proof (cases "n < 8")
    case True
    have "bit (0xff :: 16 word) n"
      using True by (auto simp: less_Suc_eq numeral_eq_Suc)
    moreover have "bit (ucast (a AND 0xff) :: u8) n = bit (ucast (b AND 0xff) :: u8) n"
      using assms(2) by simp
    ultimately show ?thesis using True by (simp add: bit_simps)
  next
    case False
    have "bit (ucast (drop_bit 8 a) :: u8) (n - 8) = bit (ucast (drop_bit 8 b) :: u8) (n - 8)"
      using assms(1) by simp
    moreover have "n - 8 < 8" using False n by simp
    ultimately show ?thesis using False n by (simp add: bit_simps)
  qed
qed

lemma tls13ExpandLabel_ok:
  assumes "tls13HashLen hash \<noteq> 0" "outLen \<le> 0xffff" "tlsInit P"
    "length label \<le> 249" "length ctx \<le> 255"
  shows "\<exists>info. tls13HkdfLabel label ctx (of_nat outLen) 514 = Some info \<and>
    tls13ExpandLabel P hash secret label ctx outLen = psa_hkdf_expand P hash secret info outLen"
  using assms by (simp add: tls13ExpandLabel_def tls13HkdfLabel_cases)

text \<open>
  The HKDF label encoding separates domains: two derivations feed the same info string to
  HKDF-Expand only if they use the same label, the same context and the same output length,
  whatever the sizes of the buffers they were built in. So no label of the key schedule can be
  confused with another by shifting bytes between label and context.
\<close>

theorem hkdf_label_injective:
  assumes "tls13HkdfLabel label ctx outLen bufsz = Some info"
    and "tls13HkdfLabel label' ctx' outLen' bufsz' = Some info"
  shows "label = label' \<and> ctx = ctx' \<and> outLen = outLen'"
proof -
  let ?p = "str_bytes ''tls13 ''"
  have le: "length label \<le> 249" "length label' \<le> 249"
    and info: "info = [ucast (drop_bit 8 outLen), ucast (outLen AND 0xff),
        of_nat (length label + 6)] @ ?p @ label @ [of_nat (length ctx)] @ ctx"
    and info': "info = [ucast (drop_bit 8 outLen'), ucast (outLen' AND 0xff),
        of_nat (length label' + 6)] @ ?p @ label' @ [of_nat (length ctx')] @ ctx'"
    using assms by (auto simp: tls13HkdfLabel_cases split: if_splits)
  have parts: "(ucast (drop_bit 8 outLen) :: u8) = ucast (drop_bit 8 outLen')"
    "(ucast (outLen AND 0xff) :: u8) = ucast (outLen' AND 0xff)"
    "(of_nat (length label + 6) :: u8) = of_nat (length label' + 6)"
    "label @ [of_nat (length ctx)] @ ctx = label' @ [of_nat (length ctx')] @ ctx'"
    using info unfolding info' by simp_all
  have len: "length label = length label'"
    using label_length_inj parts(3) le by blast
  show ?thesis
    using parts(4) len length_octets_inj [OF parts(1, 2)] by simp
qed

theorem hkdf_label_injective_witness:
  "tls13HkdfLabel (str_bytes ''quic hp'') [] 16 514 \<noteq>
     tls13HkdfLabel (str_bytes ''quic hp'') [] 32 514 \<and>
   tls13HkdfLabel (str_bytes ''quic hp'') [] 16 514 \<noteq> None"
proof -
  have "tls13HkdfLabel (str_bytes ''quic hp'') [] 16 514 \<noteq> None"
    by (simp add: tls13HkdfLabel_cases)
  then show ?thesis
    using hkdf_label_injective
      [of "str_bytes ''quic hp''" "[]" 16 514 _ "str_bytes ''quic hp''" "[]" 32 514]
    by fastforce
qed


section \<open>The key schedule against RFC 8446\<close>

text \<open>
  What the key schedule relies on: for a salt that is empty or as long as the hash and some input
  keying material, HKDF-Extract succeeds; for a secret as long as the hash and at most 255 times as
  many bytes of output, the bound of RFC 5869, HKDF-Expand succeeds; both compute fixed functions whose
  output has the length asked for, and the hash of the empty string is available.
\<close>

definition kdf_total ::
  "psa \<Rightarrow> psa_algorithm \<Rightarrow> (u8 list \<Rightarrow> u8 list \<Rightarrow> u8 list) \<Rightarrow>
   (u8 list \<Rightarrow> u8 list \<Rightarrow> nat \<Rightarrow> u8 list) \<Rightarrow> u8 list \<Rightarrow> bool" where
  "kdf_total P hash extract expand emptyHash \<longleftrightarrow>
     tlsInit P \<and>
     (\<forall>salt ikm. (salt = [] \<or> length salt = tls13HashLen hash) \<and> ikm \<noteq> [] \<longrightarrow>
        psa_hkdf_extract P hash salt ikm (tls13HashLen hash) = Some (extract salt ikm)
        \<and> length (extract salt ikm) = tls13HashLen hash) \<and>
     (\<forall>secret info n. length secret = tls13HashLen hash \<and> n \<le> 255 * tls13HashLen hash \<longrightarrow>
        psa_hkdf_expand P hash secret info n = Some (expand secret info n)
        \<and> length (expand secret info n) = n) \<and>
     psa_hash_compute P hash [] TLS13_MAX_HASH = Some emptyHash \<and>
     length emptyHash = tls13HashLen hash"

text \<open>Section 7.1: Derive-Secret over a transcript hash, with the label's wire encoding.\<close>

definition hkdf_label_bytes :: "u8 list \<Rightarrow> u8 list \<Rightarrow> nat \<Rightarrow> u8 list" where
  "hkdf_label_bytes label ctx n =
     be_bytes 2 (of_nat n) @ [of_nat (length (str_bytes ''tls13 '' @ label))]
       @ str_bytes ''tls13 '' @ label @ [of_nat (length ctx)] @ ctx"

definition derive_secret ::
  "psa_algorithm \<Rightarrow> (u8 list \<Rightarrow> u8 list \<Rightarrow> nat \<Rightarrow> u8 list) \<Rightarrow> u8 list \<Rightarrow> string \<Rightarrow> u8 list \<Rightarrow> u8 list"
where
  "derive_secret hash expand secret label th =
     expand secret (hkdf_label_bytes (str_bytes label) th (tls13HashLen hash)) (tls13HashLen hash)"

lemma tls13HashLen_le: "tls13HashLen hash \<le> 48"
  by (cases hash) simp_all

lemma length_octets:
  "[ucast (drop_bit 8 w), ucast (w AND 0xff)] = be_bytes 2 (ucast w)"
  for w :: "16 word"
proof -
  have "w AND 0xff = take_bit 8 w" by (simp add: take_bit_eq_mask mask_eq_exp_minus_1)
  moreover have "(ucast (take_bit 8 w) :: u8) = ucast (ucast w :: u64)"
    by (rule bit_word_eqI) (simp add: bit_simps)
  moreover have "(ucast (drop_bit 8 w) :: u8) = ucast (drop_bit 8 (ucast w :: u64))"
    by (rule bit_word_eqI) (simp add: bit_simps)
  ultimately show ?thesis by (simp add: be_bytes_def numeral_2_eq_2)
qed

lemma hkdf_label_bytes_eq:
  assumes "length label \<le> 249" "length ctx \<le> 255" "n \<le> 0xffff"
  shows "tls13HkdfLabel label ctx (of_nat n) 514 = Some (hkdf_label_bytes label ctx n)"
proof -
  have "(of_nat n :: u64) = ucast (of_nat n :: 16 word)"
    using assms(3) by (simp add: unsigned_of_nat take_bit_nat_eq_self)
  then have "[ucast (drop_bit 8 (of_nat n :: 16 word)), ucast ((of_nat n :: 16 word) AND 0xff)]
      = be_bytes 2 (of_nat n)"
    using length_octets [of "of_nat n"] by simp
  then have "hkdf_label_bytes label ctx n =
      [ucast (drop_bit 8 (of_nat n :: 16 word)), ucast ((of_nat n :: 16 word) AND 0xff),
       of_nat (length label + 6)] @ str_bytes ''tls13 '' @ label @ [of_nat (length ctx)] @ ctx"
    unfolding hkdf_label_bytes_def by (simp add: add.commute)
  then show ?thesis
    using assms unfolding tls13HkdfLabel_cases by simp
qed

lemma tls13DeriveSecret_rfc:
  assumes "kdf_total P hash extract expand eh" "tls13HashLen hash \<noteq> 0"
    "length secret = tls13HashLen hash" "length label \<le> 249" "length th \<le> 255"
  shows "tls13DeriveSecret P hash secret (str_bytes label) th
    = Some (derive_secret hash expand secret label th)"
  using assms hkdf_label_bytes_eq [of "str_bytes label" th "tls13HashLen hash"]
    tls13HashLen_le [of hash]
  by (simp add: tls13DeriveSecret_def tls13ExpandLabel_def derive_secret_def kdf_total_def Let_def)

lemma length_derive_secret:
  "kdf_total P hash extract expand eh \<Longrightarrow> length secret = tls13HashLen hash \<Longrightarrow>
   length (derive_secret hash expand secret label th) = tls13HashLen hash"
  by (simp add: kdf_total_def derive_secret_def)

lemma tls13SchedAdvance_rfc:
  assumes "kdf_total P hash extract expand eh" "tls13HashLen hash \<noteq> 0"
    "sc_hash s = hash" "sc_hashLen s = tls13HashLen hash" "length (sc_secret s) = tls13HashLen hash" "ikm \<noteq> []"
  shows "tls13SchedAdvance P s ikm =
    Some (s\<lparr>sc_secret := extract (derive_secret hash expand (sc_secret s) ''derived'' eh) ikm\<rparr>)"
proof -
  have "length eh \<le> 255" "psa_hash_compute P hash [] 48 = Some eh" "tlsInit P"
    "\<And>salt. length salt = tls13HashLen hash \<Longrightarrow>
      psa_hkdf_extract P hash salt ikm (tls13HashLen hash) = Some (extract salt ikm)"
    using assms(1,6) tls13HashLen_le [of hash] by (simp_all add: kdf_total_def)
  then show ?thesis
    using assms(2-5) tls13DeriveSecret_rfc [OF assms(1, 2), of "sc_secret s" "''derived''" eh]
      length_derive_secret [OF assms(1), of "sc_secret s" "''derived''" eh]
    by (simp add: tls13SchedAdvance_def tls13Extract_def)
qed

text \<open>
  Running the three stages of the schedule and deriving a traffic secret computes the tree of
  RFC 8446 section 7.1: Early Secret from the PSK (or zeroes) with an empty salt, Handshake Secret
  from the ECDHE share, Master Secret from zeroes, each stage salted with the previous one's
  \<open>derived\<close> secret over the empty transcript, and Derive-Secret over the given transcript hash on
  top. It holds for both hashes the suites use, for a pre-shared key and a shared secret that are not
  empty, when HKDF works for the lengths RFC 5869 allows.
\<close>

theorem key_schedule_rfc8446:
  assumes "kdf_total P hash extract expand eh"
    and "hash = PSA_ALG_SHA_256 \<or> hash = PSA_ALG_SHA_384"
    and "length label \<le> 249" "length th = tls13HashLen hash" "psk \<noteq> Some []" "ecdhe \<noteq> []"
  shows "Option.bind (tls13SchedEarly P hash psk) (\<lambda>s0.
           Option.bind (tls13SchedHandshake P s0 ecdhe) (\<lambda>s1.
             Option.bind (tls13SchedMaster P s1) (\<lambda>s2.
               Some (tls13SchedDerive P s1 (str_bytes label) th,
                     tls13SchedDerive P s2 (str_bytes label) th)))) =
    (let zeroes = replicate (tls13HashLen hash) 0;
         early = extract [] (case psk of None \<Rightarrow> zeroes | Some p \<Rightarrow> p);
         handshake = extract (derive_secret hash expand early ''derived'' eh) ecdhe;
         master = extract (derive_secret hash expand handshake ''derived'' eh) zeroes
     in Some (Some (derive_secret hash expand handshake label th),
              Some (derive_secret hash expand master label th)))"
proof -
  have h: "tls13HashLen hash \<noteq> 0" "tls13HashLen hash \<le> 255"
    using assms(2) by auto
  define early where "early = extract [] (case psk of None \<Rightarrow> replicate (tls13HashLen hash) 0 | Some p \<Rightarrow> p)"
  define handshake where "handshake = extract (derive_secret hash expand early ''derived'' eh) ecdhe"
  define master where "master = extract (derive_secret hash expand handshake ''derived'' eh) (replicate (tls13HashLen hash) 0)"
  have ext: "psa_hkdf_extract P hash salt ikm (tls13HashLen hash) = Some (extract salt ikm)"
    "length (extract salt ikm) = tls13HashLen hash" if "salt = [] \<or> length salt = tls13HashLen hash" "ikm \<noteq> []" for salt ikm
    using assms(1) that by (simp_all add: kdf_total_def)
  have "tlsInit P" using assms(1) by (simp add: kdf_total_def)
  have ikm: "(case psk of None \<Rightarrow> replicate (tls13HashLen hash) 0 | Some p \<Rightarrow> p) \<noteq> []" using h assms(5) by (auto split: option.split)
  have le: "length early = tls13HashLen hash" using ext(2) ikm by (simp add: early_def)
  have lh: "length handshake = tls13HashLen hash"
    using ext(2) assms(6) length_derive_secret [OF assms(1) le] by (simp add: handshake_def)
  have lm: "length master = tls13HashLen hash"
    using ext(2) h length_derive_secret [OF assms(1) lh] by (simp add: master_def)
  define s0 where "s0 = \<lparr>sc_hash = hash, sc_hashLen = tls13HashLen hash, sc_secret = early\<rparr>"
  have s0: "tls13SchedEarly P hash psk = Some s0" "sc_hash s0 = hash" "sc_hashLen s0 = tls13HashLen hash"
    "sc_secret s0 = early"
    using ext(1) [OF _ ikm, of "[]"] \<open>tlsInit P\<close> h
    by (simp_all add: tls13SchedEarly_def tls13Extract_def early_def Let_def s0_def)
  have s1: "tls13SchedHandshake P s0 ecdhe = Some (s0\<lparr>sc_secret := handshake\<rparr>)"
    using tls13SchedAdvance_rfc [OF assms(1) h(1) s0(2,3) _ assms(6)] s0(3,4) le h by (simp add: tls13SchedHandshake_def handshake_def)
  have s2: "tls13SchedMaster P (s0\<lparr>sc_secret := handshake\<rparr>) = Some (s0\<lparr>sc_secret := master\<rparr>)"
    using tls13SchedAdvance_rfc [OF assms(1) h(1), of "s0\<lparr>sc_secret := handshake\<rparr>"] s0(2,3) lh h
    by (simp add: tls13SchedMaster_def master_def Let_def)
  have d: "tls13SchedDerive P (s0\<lparr>sc_secret := k\<rparr>) (str_bytes label) th = Some (derive_secret hash expand k label th)"
    if "length k = tls13HashLen hash" for k
    using tls13DeriveSecret_rfc [OF assms(1) h(1) that assms(3), of th] assms(4) h s0(2,3) by (simp add: tls13SchedDerive_def)
  show ?thesis
    using s0(1) s1 s2 d [OF lh] d [OF lm] by (simp add: Let_def early_def handshake_def master_def)
qed

text \<open>A concrete stand-in for the primitives, on which the hypotheses hold.\<close>

definition tag_example :: "u8 list \<Rightarrow> u8 list" where
  "tag_example bs = take 16 (map ((XOR) 0x5a) bs @ replicate 16 0)"

lemma length_tag_example [simp]: "length (tag_example bs) = 16"
  by (simp add: tag_example_def)

definition psa_example :: psa where
  "psa_example = \<lparr>psa_crypto_init = True, psa_import_key = (\<lambda>k. True),
     psa_hkdf_extract = (\<lambda>a salt ikm n. Some (take n (salt @ ikm @ replicate n 1))),
     psa_hkdf_expand = (\<lambda>a secret info n. Some (take n (info @ secret @ replicate n 2))),
     psa_mac_compute = (\<lambda>k a m n. Some (take (tls13HashLen PSA_ALG_SHA_256) (m @ replicate 48 3))),
     psa_hash_compute = (\<lambda>a m n. Some (take (tls13HashLen a) (m @ replicate 48 4))),
     psa_aead_encrypt = (\<lambda>k a nonce aad pt n.
       if length pt + 16 \<le> n then Some (pt @ tag_example (nonce @ aad))
       else None),
     psa_aead_decrypt = (\<lambda>k a nonce aad ct n.
       if 16 \<le> length ct \<and> length ct - 16 \<le> n
          \<and> drop (length ct - 16) ct = tag_example (nonce @ aad)
       then Some (take (length ct - 16) ct) else None),
     psa_aead_tag = (\<lambda>k a nonce lens parts n.
       Some (tag_example (nonce @ concat parts))),
     psa_cipher_encrypt = (\<lambda>k a bs n. if length bs = 16 then Some (map ((XOR) 0xa5) bs) else None),
     mbedtls_chacha20_crypt = (\<lambda>k nonce c bs. Some (map ((XOR) 0x3c) bs))\<rparr>"

lemma psa_example_kdf:
  "kdf_total psa_example PSA_ALG_SHA_256
     (\<lambda>salt ikm. take 32 (salt @ ikm @ replicate 32 1))
     (\<lambda>secret info n. take n (info @ secret @ replicate n 2)) (replicate 32 4)"
  by (auto simp: kdf_total_def psa_example_def tlsInit_def)

theorem key_schedule_rfc8446_witness:
  "kdf_total psa_example PSA_ALG_SHA_256
     (\<lambda>salt ikm. take 32 (salt @ ikm @ replicate 32 1))
     (\<lambda>secret info n. take n (info @ secret @ replicate n 2)) (replicate 32 4) \<and>
   Option.bind (tls13SchedEarly psa_example PSA_ALG_SHA_256 None) (\<lambda>s0.
     Option.bind (tls13SchedHandshake psa_example s0 [7, 8, 9]) (\<lambda>s1.
       Option.bind (tls13SchedMaster psa_example s1) (\<lambda>s2.
         Some (tls13SchedDerive psa_example s1 (str_bytes ''c hs traffic'') (replicate 32 5),
               tls13SchedDerive psa_example s2 (str_bytes ''c hs traffic'') (replicate 32 5))))) \<noteq> None"
  using psa_example_kdf
    key_schedule_rfc8446 [OF psa_example_kdf, of "''c hs traffic''" "replicate 32 5" None "[7, 8, 9]"]
  by (simp add: Let_def)


section \<open>The transcript\<close>

text \<open>
  What the transcript relies on: an operation that was set up and updated successfully stands for
  the bytes fed to it (\<open>R op bs\<close>), a clone stands for the same bytes, and finishing it gives their
  hash.
\<close>

definition hash_ops_ok ::
  "'op psa_hash_ops \<Rightarrow> psa_algorithm \<Rightarrow> (u8 list \<Rightarrow> u8 list) \<Rightarrow> ('op \<Rightarrow> u8 list \<Rightarrow> bool) \<Rightarrow> bool" where
  "hash_ops_ok H hash digest R \<longleftrightarrow>
     (\<forall>op. psa_hash_setup H hash = (True, op) \<longrightarrow> R op []) \<and>
     (\<forall>op bs d op'. R op bs \<longrightarrow> psa_hash_update H op d = (True, op') \<longrightarrow> R op' (bs @ d)) \<and>
     (\<forall>op bs op'. R op bs \<longrightarrow> psa_hash_clone H op = Some op' \<longrightarrow> R op' bs) \<and>
     (\<forall>op bs n out. R op bs \<longrightarrow> psa_hash_finish H op n = Some out \<longrightarrow> out = digest bs)"

text \<open>Feeding a sequence of handshake messages; \<open>None\<close> as soon as one update fails.\<close>

primrec transcript_feed ::
  "'op psa_hash_ops \<Rightarrow> 'op Tls13Transcript \<Rightarrow> u8 list list \<Rightarrow> 'op Tls13Transcript option" where
  "transcript_feed H tr [] = Some tr"
| "transcript_feed H tr (m # ms) =
     (case tls13TranscriptUpdate H tr m of
        (True, tr') \<Rightarrow> transcript_feed H tr' ms
      | (False, tr') \<Rightarrow> None)"

definition transcript_holds ::
  "('op \<Rightarrow> u8 list \<Rightarrow> bool) \<Rightarrow> psa_algorithm \<Rightarrow> 'op Tls13Transcript \<Rightarrow> u8 list \<Rightarrow> bool" where
  "transcript_holds R hash tr bs \<longleftrightarrow> tr_live tr \<and> tr_hash tr = hash \<and> R (tr_op tr) bs"

lemma transcript_init_holds:
  "hash_ops_ok H hash digest R \<Longrightarrow> tls13TranscriptInit P H hash = (True, tr) \<Longrightarrow>
   transcript_holds R hash tr []"
  by (auto simp: tls13TranscriptInit_def transcript_holds_def hash_ops_ok_def Let_def
      split: if_splits prod.splits)

lemma transcript_update_holds:
  "hash_ops_ok H hash digest R \<Longrightarrow> transcript_holds R hash tr bs \<Longrightarrow>
   tls13TranscriptUpdate H tr m = (True, tr') \<Longrightarrow> transcript_holds R hash tr' (bs @ m)"
  by (auto simp: tls13TranscriptUpdate_def transcript_holds_def hash_ops_ok_def
      split: if_splits prod.splits)

lemma transcript_feed_holds:
  "hash_ops_ok H hash digest R \<Longrightarrow> transcript_holds R hash tr bs \<Longrightarrow>
   transcript_feed H tr ms = Some tr' \<Longrightarrow> transcript_holds R hash tr' (bs @ concat ms)"
proof (induction ms arbitrary: tr bs)
  case Nil
  then show ?case by simp
next
  case (Cons m ms)
  from Cons.prems(3) obtain tr1
    where "tls13TranscriptUpdate H tr m = (True, tr1)" "transcript_feed H tr1 ms = Some tr'"
    by (auto split: prod.splits bool.splits)
  then show ?case
    using Cons.IH [OF Cons.prems(1) transcript_update_holds [OF Cons.prems(1, 2)]] by simp
qed

text \<open>
  The transcript hash is the hash of the handshake messages fed so far, in order, however they
  were cut into pieces; taking it is a snapshot that leaves the running transcript as it was, so
  the next hash covers the messages before and after it; and it is refused, not wrong, when the
  digest does not have the suite's length.
\<close>

theorem transcript_hash_snapshot:
  assumes "hash_ops_ok H hash digest R"
    and "tls13TranscriptInit P H hash = (True, tr0)"
    and "transcript_feed H tr0 ms = Some tr1" "transcript_feed H tr1 ms' = Some tr2"
    and "tls13TranscriptHash H tr1 = Some h1" "tls13TranscriptHash H tr2 = Some h2"
  shows "h1 = digest (concat ms) \<and> h2 = digest (concat ms @ concat ms') \<and>
    length h1 = tls13HashLen hash \<and> length h2 = tls13HashLen hash"
proof -
  have snap: "h = digest bs \<and> length h = tls13HashLen hash"
    if "transcript_holds R hash tr bs" "tls13TranscriptHash H tr = Some h" for tr bs h
  proof -
    from that obtain op' where "psa_hash_clone H (tr_op tr) = Some op'"
      "psa_hash_finish H op' 48 = Some h" "length h = tls13HashLen hash" "R (tr_op tr) bs"
      by (auto simp: tls13TranscriptHash_def transcript_holds_def split: if_splits option.splits)
    then show ?thesis using assms(1) unfolding hash_ops_ok_def by blast
  qed
  have "transcript_holds R hash tr1 (concat ms)"
    using transcript_feed_holds [OF assms(1) transcript_init_holds [OF assms(1, 2)] assms(3)] by simp
  moreover from this have "transcript_holds R hash tr2 (concat ms @ concat ms')"
    by (rule transcript_feed_holds [OF assms(1) _ assms(4)])
  ultimately show ?thesis using snap assms(5, 6) by blast
qed

definition hash_ops_example :: "u8 list psa_hash_ops" where
  "hash_ops_example = \<lparr>psa_hash_init = [], psa_hash_setup = (\<lambda>a. (True, [])),
     psa_hash_update = (\<lambda>op d. (True, op @ d)), psa_hash_clone = Some,
     psa_hash_finish = (\<lambda>op n. Some (take 32 (op @ replicate 32 0))), psa_hash_abort = (\<lambda>op. [])\<rparr>"

theorem transcript_hash_snapshot_witness:
  "tls13TranscriptHash hash_ops_example
     (the (transcript_feed hash_ops_example
        (snd (tls13TranscriptInit psa_example hash_ops_example PSA_ALG_SHA_256)) [[1, 2], [], [3]]))
   = Some (take 32 ([1, 2, 3] @ replicate 32 0))"
proof -
  let ?H = hash_ops_example
  let ?tr = "\<lambda>bs. \<lparr>tr_op = bs, tr_hash = PSA_ALG_SHA_256, tr_live = True\<rparr>"
  have ok: "hash_ops_ok ?H PSA_ALG_SHA_256 (\<lambda>bs. take 32 (bs @ replicate 32 0)) (=)"
    by (auto simp: hash_ops_ok_def hash_ops_example_def)
  have init: "tls13TranscriptInit psa_example ?H PSA_ALG_SHA_256 = (True, ?tr [])"
    by (simp add: tls13TranscriptInit_def hash_ops_example_def psa_example_def tlsInit_def)
  have feed: "transcript_feed ?H (?tr []) [[1, 2], [], [3]] = Some (?tr [1, 2, 3])"
    by (simp add: tls13TranscriptUpdate_def hash_ops_example_def)
  have none: "transcript_feed ?H (?tr [1, 2, 3]) [] = Some (?tr [1, 2, 3])"
    by simp
  obtain h where h: "tls13TranscriptHash ?H (?tr [1, 2, 3]) = Some h"
    by (simp add: tls13TranscriptHash_def hash_ops_example_def)
  have "h = take 32 (concat [[1, 2], [], [3]] @ replicate 32 0)"
    using transcript_hash_snapshot [OF ok init feed none h h] by (rule conjunct1)
  then show ?thesis by (simp only: init feed h snd_conv option.sel) simp
qed

end
