(* ===== verification/QuicCrypto.thy ===== *)
theory QuicCrypto
  imports QuicHdr Tls13Kdf
begin

text \<open>
  QUIC packet protection: \<^verbatim>\<open>src/cxquic/crypto.c\<close>.

  The keys of one direction at one level are the record \<open>QuicKeys\<close>. \<open>quicPktSeal\<close> and
  \<open>quicPktOpen\<close> work in place on the packet buffer, so the buffer is an argument and part of the
  result; opening also leaves the header unprotected when the payload does not decrypt, which the
  key update relies on, so its result always carries the header and the buffer. Sealing that fails
  leaves a buffer its caller throws away (\<open>None\<close>).

  The named hypothesis \<open>aead_ok\<close> is what the PSA documentation says of an AEAD with a 16 byte tag:
  decryption inverts encryption and accepts nothing else.
\<close>

section \<open>Keys\<close>

record QuicKeys =
  k_aead :: "psa_key option"
  k_hp :: "psa_key option"
  k_aeadAlg :: psa_algorithm
  k_hash :: psa_algorithm
  k_keyType :: psa_key_type
  k_iv :: "u8 list"
  k_hpKey :: "u8 list"
  k_secret :: "u8 list"
  k_secretLen :: nat
  k_keyLen :: nat
  k_hpChaCha :: bool
  k_valid :: bool

definition keysZero :: QuicKeys where
  "keysZero = \<lparr>k_aead = None, k_hp = None, k_aeadAlg = PSA_ALG_NONE, k_hash = PSA_ALG_NONE,
     k_keyType = PSA_KEY_TYPE_NONE, k_iv = replicate TLS13_IV_LEN 0,
     k_hpKey = replicate TLS13_MAX_KEY 0, k_secret = replicate TLS13_MAX_HASH 0,
     k_secretLen = 0, k_keyLen = 0, k_hpChaCha = False, k_valid = False\<rparr>"

definition quicInitialSalt :: "u8 list" where
  "quicInitialSalt =
     [0x38, 0x76, 0x2c, 0xf7, 0xf5, 0x59, 0x34, 0xb3, 0x4d, 0x17,
      0x9a, 0xe6, 0xa4, 0xc8, 0x0c, 0xad, 0xcc, 0xbb, 0x7f, 0x0a]"

definition quicRetryKey :: "u8 list" where
  "quicRetryKey =
     [0xbe, 0x0c, 0x69, 0x0b, 0x9f, 0x66, 0x57, 0x5a,
      0x1d, 0x76, 0x6b, 0x54, 0xe3, 0x68, 0xc8, 0x4e]"

definition quicRetryNonce :: "u8 list" where
  "quicRetryNonce = [0x46, 0x15, 0x99, 0xd3, 0x5d, 0x63, 0x2b, 0xf2, 0x23, 0x98, 0x25, 0xbb]"

definition quicKeysImportHp :: "psa \<Rightarrow> QuicKeys \<Rightarrow> bool \<times> QuicKeys" where
  "quicKeysImportHp P k =
     (if k_hpChaCha k then (True, k)
      else
        case import_key P \<lparr>pk_type = k_keyType k, pk_bits = k_keyLen k * 8,
               pk_usage = [PSA_KEY_USAGE_ENCRYPT], pk_alg = PSA_ALG_ECB_NO_PADDING,
               pk_bytes = take (k_keyLen k) (k_hpKey k)\<rparr> of
          None \<Rightarrow> (False, k)
        | Some hp \<Rightarrow> (True, k\<lparr>k_hp := Some hp\<rparr>))"

definition quicKeysFromSecret :: "psa \<Rightarrow> QuicKeys \<Rightarrow> bool \<times> QuicKeys" where
  "quicKeysFromSecret P k =
     (case tls13ExpandLabel P (k_hash k) (take (k_secretLen k) (k_secret k))
             (str_bytes ''quic key'') [] (k_keyLen k) of
        None \<Rightarrow> (False, k)
      | Some key \<Rightarrow>
          case tls13ExpandLabel P (k_hash k) (take (k_secretLen k) (k_secret k))
                 (str_bytes ''quic iv'') [] TLS13_IV_LEN of
            None \<Rightarrow> (False, k)
          | Some iv \<Rightarrow>
              let k1 = k\<lparr>k_iv := iv\<rparr> in
              case import_key P \<lparr>pk_type = k_keyType k, pk_bits = k_keyLen k * 8,
                     pk_usage = [PSA_KEY_USAGE_ENCRYPT, PSA_KEY_USAGE_DECRYPT],
                     pk_alg = k_aeadAlg k, pk_bytes = key\<rparr> of
                None \<Rightarrow> (False, k1)
              | Some aead \<Rightarrow> (True, k1\<lparr>k_aead := Some aead, k_valid := True\<rparr>))"

text \<open>Destroying the key handles releases them in the PSA key store; the record is zeroed.\<close>

definition quicKeysDestroy :: "QuicKeys \<Rightarrow> QuicKeys" where
  "quicKeysDestroy k = keysZero"

text \<open>The two steps \<^verbatim>\<open>quicKeysImportHp(k) && quicKeysFromSecret(k)\<close>, and the destruction on failure.\<close>

definition keysFinish :: "psa \<Rightarrow> QuicKeys \<Rightarrow> bool \<times> QuicKeys" where
  "keysFinish P k =
     (case quicKeysImportHp P k of
        (False, k1) \<Rightarrow> (False, quicKeysDestroy k1)
      | (True, k1) \<Rightarrow>
          case quicKeysFromSecret P k1 of
            (False, k2) \<Rightarrow> (False, quicKeysDestroy k2)
          | (True, k2) \<Rightarrow> (True, k2))"

definition quicKeysDerive :: "psa \<Rightarrow> Tls13Suite option \<Rightarrow> u8 list \<Rightarrow> bool \<times> QuicKeys" where
  "quicKeysDerive P suite secret =
     (if \<not> quicInit P then (False, keysZero)
      else
        case suite of
          None \<Rightarrow> (False, keysZero)
        | Some su \<Rightarrow>
            let k = keysZero\<lparr>k_hash := su_hash su, k_aeadAlg := su_aead su,
                  k_keyType := su_keyType su, k_keyLen := su_keyLen su,
                  k_secretLen := su_hashLen su,
                  k_hpChaCha := su_keyType su = PSA_KEY_TYPE_CHACHA20,
                  k_secret := take (su_hashLen su) secret\<rparr>
            in case tls13ExpandLabel P (k_hash k) (k_secret k) (str_bytes ''quic hp'') []
                      (k_keyLen k) of
                 None \<Rightarrow> (False, quicKeysDestroy k)
               | Some hpKey \<Rightarrow> keysFinish P (k\<lparr>k_hpKey := hpKey\<rparr>))"

text \<open>\<open>nxt\<close> is what the output held before, which an invalid current key leaves alone.\<close>

definition quicKeysNext :: "psa \<Rightarrow> QuicKeys \<Rightarrow> QuicKeys \<Rightarrow> bool \<times> QuicKeys" where
  "quicKeysNext P nxt cur =
     (if \<not> k_valid cur then (False, nxt)
      else
        let n = keysZero\<lparr>k_hash := k_hash cur, k_aeadAlg := k_aeadAlg cur,
              k_keyType := k_keyType cur, k_keyLen := k_keyLen cur,
              k_secretLen := k_secretLen cur, k_hpChaCha := k_hpChaCha cur,
              k_hpKey := k_hpKey cur\<rparr>
        in case tls13ExpandLabel P (k_hash n) (take (k_secretLen cur) (k_secret cur))
                  (str_bytes ''quic ku'') [] (k_secretLen n) of
             None \<Rightarrow> (False, quicKeysDestroy n)
           | Some secret \<Rightarrow> keysFinish P (n\<lparr>k_secret := secret\<rparr>))"

definition quicKeysInitial :: "psa \<Rightarrow> u8 list \<Rightarrow> bool \<times> QuicKeys \<times> QuicKeys" where
  "quicKeysInitial P dcid =
     (if \<not> quicInit P then (False, keysZero, keysZero)
      else
        case tls13Suite TLS13_AES_128_GCM_SHA256 of
          None \<Rightarrow> (False, keysZero, keysZero)
        | Some su \<Rightarrow>
            case tls13Extract P (su_hash su) quicInitialSalt dcid of
              None \<Rightarrow> (False, keysZero, keysZero)
            | Some ini \<Rightarrow>
                case tls13ExpandLabel P (su_hash su) (take (su_hashLen su) ini)
                       (str_bytes ''client in'') [] (su_hashLen su) of
                  None \<Rightarrow> (False, keysZero, keysZero)
                | Some cs \<Rightarrow>
                    case tls13ExpandLabel P (su_hash su) (take (su_hashLen su) ini)
                           (str_bytes ''server in'') [] (su_hashLen su) of
                      None \<Rightarrow> (False, keysZero, keysZero)
                    | Some ss \<Rightarrow>
                        case quicKeysDerive P (Some su) cs of
                          (False, client) \<Rightarrow> (False, quicKeysDestroy client, keysZero)
                        | (True, client) \<Rightarrow>
                            case quicKeysDerive P (Some su) ss of
                              (False, server) \<Rightarrow>
                                (False, quicKeysDestroy client, quicKeysDestroy server)
                            | (True, server) \<Rightarrow> (True, client, server))"


section \<open>Header protection\<close>

text \<open>
  \<open>sample\<close> is the 16 bytes the pointer argument gives access to. The block counter is read
  little-endian from the first four.
\<close>

definition quicHpMask :: "psa \<Rightarrow> QuicKeys \<Rightarrow> u8 list \<Rightarrow> u8 list option" where
  "quicHpMask P k sample =
     (if \<not> k_valid k then None
      else if k_hpChaCha k then
        let counter = ucast (sample ! 0) OR push_bit 8 (ucast (sample ! 1))
              OR push_bit 16 (ucast (sample ! 2)) OR push_bit 24 (ucast (sample ! 3))
        in mbedtls_chacha20_crypt P (k_hpKey k) (take 12 (drop 4 sample)) counter (replicate 5 0)
      else
        case psa_cipher_encrypt P (k_hp k) PSA_ALG_ECB_NO_PADDING (take 16 sample) 16 of
          None \<Rightarrow> None
        | Some block \<Rightarrow> if length block \<noteq> 16 then None else Some (take 5 block))"

text \<open>The first byte: \<^verbatim>\<open>pkt[0] ^= mask[0] & ((pkt[0] & 0x80) ? 0x0f : 0x1f)\<close>.\<close>

definition hpFirst :: "u8 list \<Rightarrow> u8 list \<Rightarrow> u8 list" where
  "hpFirst pkt msk =
     pkt[0 := pkt ! 0 XOR (msk ! 0 AND (if pkt ! 0 AND 0x80 \<noteq> 0 then 0x0f else 0x1f))]"

text \<open>The packet number: \<^verbatim>\<open>for (i = 0; i < pnLen; i++) pkt[pnOff + i] ^= mask[1 + i]\<close>.\<close>

definition hpPn :: "u8 list \<Rightarrow> nat \<Rightarrow> nat \<Rightarrow> u8 list \<Rightarrow> u8 list" where
  "hpPn pkt pnOff pnLen msk =
     fold (\<lambda>i p. p[pnOff + i := p ! (pnOff + i) XOR msk ! (1 + i)]) [0..<pnLen] pkt"

definition quicHpApply :: "u8 list \<Rightarrow> nat \<Rightarrow> nat \<Rightarrow> u8 list \<Rightarrow> u8 list" where
  "quicHpApply pkt pnOff pnLen msk = hpPn (hpFirst pkt msk) pnOff pnLen msk"


section \<open>Payload protection\<close>

definition quicNonce :: "QuicKeys \<Rightarrow> u64 \<Rightarrow> u8 list" where
  "quicNonce k pn =
     fold (\<lambda>i n. n[TLS13_IV_LEN - 1 - i := n ! (TLS13_IV_LEN - 1 - i) XOR ucast (drop_bit (i * 8) pn)])
       [0..<8] (k_iv k)"

definition quicAeadSeal ::
  "psa \<Rightarrow> QuicKeys \<Rightarrow> u64 \<Rightarrow> u8 list \<Rightarrow> u8 list \<Rightarrow> nat \<Rightarrow> u8 list option" where
  "quicAeadSeal P k pn aad pt outsz =
     (if \<not> k_valid k then None
      else psa_aead_encrypt P (k_aead k) (k_aeadAlg k) (quicNonce k pn) aad pt outsz)"

definition quicAeadOpen ::
  "psa \<Rightarrow> QuicKeys \<Rightarrow> u64 \<Rightarrow> u8 list \<Rightarrow> u8 list \<Rightarrow> nat \<Rightarrow> u8 list option" where
  "quicAeadOpen P k pn aad ct outsz =
     (if \<not> k_valid k then None
      else psa_aead_decrypt P (k_aead k) (k_aeadAlg k) (quicNonce k pn) aad ct outsz)"

definition quicPktSeal ::
  "psa \<Rightarrow> QuicKeys \<Rightarrow> u8 list \<Rightarrow> nat \<Rightarrow> nat \<Rightarrow> u64 \<Rightarrow> u8 list \<Rightarrow> (nat \<times> u8 list) option" where
  "quicPktSeal P k pkt pnOff pnLen pn payload =
     (if pnLen < 1 \<or> pnLen > 4 then None
      else
        let bufsz = length pkt; hdrLen = pnOff + pnLen in
        if bufsz < hdrLen \<or> bufsz - hdrLen < length payload + QUIC_TAG_LEN then None
        else
          case quicAeadSeal P k pn (take hdrLen pkt) payload (bufsz - hdrLen) of
            None \<Rightarrow> None
          | Some ct \<Rightarrow>
              let pkt1 = mem_write pkt hdrLen ct; total = hdrLen + length ct in
              if pnOff + 4 + 16 > total then None
              else
                case quicHpMask P k (take 16 (drop (pnOff + 4) pkt1)) of
                  None \<Rightarrow> None
                | Some msk \<Rightarrow> Some (total, quicHpApply pkt1 pnOff pnLen msk))"

text \<open>
  What \<^verbatim>\<open>_quicHdrDecodePN\<close> has already stored in the header when it returns false.
\<close>

definition hdrPnPartial :: "QuicPktHdr \<Rightarrow> u8 list \<Rightarrow> QuicPktHdr" where
  "hdrPnPartial h pkt =
     (if h_type h \<notin> {QUIC_PKT_SHORT, QUIC_PKT_INITIAL, QUIC_PKT_0RTT, QUIC_PKT_HANDSHAKE} then h
      else if pkt ! 0 AND (if h_type h = QUIC_PKT_SHORT then 0x18 else 0x0c) \<noteq> 0 then h
      else (if h_type h = QUIC_PKT_SHORT then h\<lparr>h_keyPhase := (pkt ! 0 AND 0x04 \<noteq> 0)\<rparr> else h)
             \<lparr>h_pnLen := unat (pkt ! 0 AND 0x03) + 1\<rparr>)"

text \<open>
  The header protection part of \<^verbatim>\<open>_quicPktOpen\<close>: the first component tells whether it went
  through, the others are the header and the buffer after it.
\<close>

definition pktUnprotect ::
  "psa \<Rightarrow> QuicKeys \<Rightarrow> QuicPktHdr \<Rightarrow> u8 list \<Rightarrow> u64 \<Rightarrow> bool \<times> QuicPktHdr \<times> u8 list" where
  "pktUnprotect P k h pkt largestPn =
     (case quicHpMask P k (take 16 (drop (h_pnOff h + 4) pkt)) of
        None \<Rightarrow> (False, h, pkt)
      | Some msk \<Rightarrow>
          let pkt1 = hpFirst pkt msk;
              pnLen = unat (pkt1 ! 0 AND 0x03) + 1;
              pkt2 = hpPn pkt1 (h_pnOff h) pnLen msk
          in case quicHdrDecodePN h pkt2 largestPn of
               None \<Rightarrow> (False, hdrPnPartial h pkt2, pkt2)
             | Some h1 \<Rightarrow> (True, h1, pkt2))"

definition quicPktOpen ::
  "psa \<Rightarrow> QuicKeys \<Rightarrow> QuicPktHdr \<Rightarrow> u8 list \<Rightarrow> u64 \<Rightarrow> nat
     \<Rightarrow> u8 list option \<times> QuicPktHdr \<times> u8 list" where
  "quicPktOpen P k h pkt largestPn outsz =
     (if h_pnOff h + 4 + 16 > h_pktLen h then (None, h, pkt)
      else
        case (if h_pnLen h = 0 then pktUnprotect P k h pkt largestPn else (True, h, pkt)) of
          (False, h1, pkt1) \<Rightarrow> (None, h1, pkt1)
        | (True, h1, pkt1) \<Rightarrow>
            let hdrLen = h_pnOff h1 + h_pnLen h1 in
            (quicAeadOpen P k (h_pn h1) (take hdrLen pkt1)
               (take (length (h_payload h1)) (drop hdrLen pkt1)) outsz, h1, pkt1))"

definition quicRetryTag :: "psa \<Rightarrow> u8 list \<Rightarrow> u8 list \<Rightarrow> u8 list option" where
  "quicRetryTag P odcid retry =
     (if \<not> quicInit P \<or> length odcid > QUIC_MAX_CID then None
      else
        let pseudo = of_nat (length odcid) # odcid in
        case import_key P \<lparr>pk_type = PSA_KEY_TYPE_AES, pk_bits = length quicRetryKey * 8,
               pk_usage = [PSA_KEY_USAGE_ENCRYPT], pk_alg = PSA_ALG_GCM,
               pk_bytes = quicRetryKey\<rparr> of
          None \<Rightarrow> None
        | Some key \<Rightarrow>
            case psa_aead_tag P (Some key) PSA_ALG_GCM quicRetryNonce
                   (1 + length odcid + length retry, 0) [pseudo, retry] QUIC_TAG_LEN of
              None \<Rightarrow> None
            | Some tag \<Rightarrow> if length tag = QUIC_TAG_LEN then Some tag else None)"


section \<open>Header protection is its own inverse\<close>

definition hp_byte :: "u8 \<Rightarrow> u8 list \<Rightarrow> u8" where
  "hp_byte b msk = b XOR (msk ! 0 AND (if b AND 0x80 \<noteq> 0 then 0x0f else 0x1f))"

definition xor_pn :: "u8 list \<Rightarrow> u8 list \<Rightarrow> u8 list" where
  "xor_pn pnb msk = map (\<lambda>i. pnb ! i XOR msk ! Suc i) [0..<length pnb]"

lemma length_xor_pn [simp]: "length (xor_pn pnb msk) = length pnb"
  by (simp add: xor_pn_def)

lemma xor_pn_twice [simp]: "xor_pn (xor_pn pnb msk) msk = pnb"
  by (rule nth_equalityI) (simp_all add: xor_pn_def xor.assoc)

lemma hp_byte_high:
  "hp_byte b msk AND 0xe0 = b AND 0xe0" "b AND 0x80 \<noteq> 0 \<Longrightarrow> hp_byte b msk AND 0xf0 = b AND 0xf0"
proof -
  have "(b XOR (x AND m)) AND n = b AND n" if "m AND n = 0" for x m n :: u8
  proof (rule bit_word_eqI)
    fix i
    have "\<not> (bit m i \<and> bit n i)"
      using that by (metis bit_and_iff bit_0_eq bot_apply bot_bool_def)
    then show "bit ((b XOR (x AND m)) AND n) i = bit (b AND n) i"
      by (auto simp: bit_simps)
  qed
  then show "hp_byte b msk AND 0xe0 = b AND 0xe0"
    "b AND 0x80 \<noteq> 0 \<Longrightarrow> hp_byte b msk AND 0xf0 = b AND 0xf0"
    by (simp_all add: hp_byte_def)
qed

lemma hp_byte_form: "hp_byte b msk AND 0x80 = b AND 0x80"
  by (rule and_submask [OF hp_byte_high(1)]) simp

lemma hp_byte_twice [simp]: "hp_byte (hp_byte b msk) msk = b"
proof -
  have "hp_byte (hp_byte b msk) msk =
      hp_byte b msk XOR (msk ! 0 AND (if b AND 0x80 \<noteq> 0 then 0x0f else 0x1f))"
    by (simp add: hp_byte_def [of "hp_byte b msk"] hp_byte_form)
  then show ?thesis by (simp add: hp_byte_def xor.assoc)
qed

lemma hpFirst_Cons [simp]: "hpFirst (b # r) msk = hp_byte b msk # r"
  by (simp add: hpFirst_def hp_byte_def)

lemma length_hpPn [simp]: "length (hpPn pkt off n msk) = length pkt"
proof -
  have "length (fold (\<lambda>i p. p[off + i := p ! (off + i) XOR msk ! (1 + i)]) is pkt) = length pkt"
    for "is" pkt by (induction "is" arbitrary: pkt) simp_all
  then show ?thesis by (simp add: hpPn_def)
qed

lemma nth_hpPn:
  assumes "off + n \<le> length pkt"
  shows "hpPn pkt off n msk ! j =
    (if off \<le> j \<and> j < off + n then pkt ! j XOR msk ! Suc (j - off) else pkt ! j)"
  using assms
proof (induction n arbitrary: j)
  case 0
  then show ?case by (auto simp: hpPn_def)
next
  case (Suc n)
  have step: "hpPn pkt off (Suc n) msk =
      (hpPn pkt off n msk)[off + n := hpPn pkt off n msk ! (off + n) XOR msk ! Suc n]"
    by (simp add: hpPn_def)
  have "off + n < length (hpPn pkt off n msk)" using Suc.prems by simp
  then show ?case
    unfolding step using Suc.IH Suc.prems by (auto simp: nth_list_update less_Suc_eq)
qed

lemma hpPn_mk:
  "hpPn (pre @ pnb @ tail) (length pre) (length pnb) msk = pre @ xor_pn pnb msk @ tail"
proof (rule nth_equalityI)
  fix j assume j: "j < length (hpPn (pre @ pnb @ tail) (length pre) (length pnb) msk)"
  show "hpPn (pre @ pnb @ tail) (length pre) (length pnb) msk ! j = (pre @ xor_pn pnb msk @ tail) ! j"
    by (subst nth_hpPn) (auto simp: nth_append xor_pn_def)
qed simp

lemma quicHpApply_mk:
  assumes "pnOff = Suc (length mid)" "pnLen = length pnb"
  shows "quicHpApply (b # mid @ pnb @ tail) pnOff pnLen msk =
    hp_byte b msk # mid @ xor_pn pnb msk @ tail"
  using hpPn_mk [of "hp_byte b msk # mid" pnb tail msk] assms
  by (simp add: quicHpApply_def)


section \<open>Nonces\<close>

lemma length_fold_update:
  "length (fold (\<lambda>i n. n[f i := g n i]) is xs) = length xs"
  by (induction "is" arbitrary: xs) simp_all

lemma nonce_step:
  assumes "length iv = 12" "m \<le> 8" "j < 12"
  shows "fold (\<lambda>i n. n[12 - 1 - i := n ! (12 - 1 - i) XOR ucast (drop_bit (i * 8) pn)]) [0..<m] iv ! j
    = (if 12 - m \<le> j then iv ! j XOR ucast (drop_bit ((11 - j) * 8) pn) else iv ! j)"
  using assms(2)
proof (induction m)
  case 0
  then show ?case using assms by simp
next
  case (Suc m)
  let ?f = "\<lambda>i n. n[12 - 1 - i := n ! (12 - 1 - i) XOR ucast (drop_bit (i * 8) pn)]"
  have len: "length (fold ?f [0..<m] iv) = 12"
    using assms(1) by (simp add: length_fold_update)
  have iv: "fold ?f [0..<m] iv ! (12 - 1 - m) = iv ! (11 - m)" if "j = 12 - 1 - m"
    using Suc that by auto
  show ?case
  proof (cases "j = 12 - 1 - m")
    case True
    then have "11 - j = m" using Suc.prems by simp
    with True iv len show ?thesis by simp
  next
    case False
    then have "(12 - Suc m \<le> j) = (12 - m \<le> j)" using Suc.prems by auto
    with False Suc len show ?thesis by simp
  qed
qed

lemma nth_quicNonce:
  assumes "length (k_iv k) = 12" "j < 12"
  shows "quicNonce k pn ! j =
    (if 4 \<le> j then k_iv k ! j XOR ucast (drop_bit ((11 - j) * 8) pn) else k_iv k ! j)"
  using nonce_step [OF assms(1) order_refl assms(2), of pn] by (simp add: quicNonce_def)

lemma bytes_determine:
  fixes p q :: u64
  assumes "\<And>i. i < 8 \<Longrightarrow> (ucast (drop_bit (i * 8) p) :: u8) = ucast (drop_bit (i * 8) q)"
  shows "p = q"
proof (rule bit_word_eqI)
  fix n assume n: "n < LENGTH(64)"
  have "bit (ucast (drop_bit (n div 8 * 8) p) :: u8) (n mod 8) =
      bit (ucast (drop_bit (n div 8 * 8) q) :: u8) (n mod 8)"
    using assms [of "n div 8"] n by simp
  then show "bit p n = bit q n"
    using n by (simp add: bit_simps)
qed

lemma xor_left_cancel: "a XOR b = a XOR c \<Longrightarrow> b = c"
  for a b c :: "'a::len word"
proof -
  assume "a XOR b = a XOR c"
  then have "a XOR (a XOR b) = a XOR (a XOR c)" by simp
  then show "b = c" by (simp flip: xor.assoc)
qed

text \<open>
  No two packets of a number space are encrypted under the same nonce: under one set of keys
  the nonce determines the packet number, all 64 bits of it.
\<close>

theorem nonce_unique:
  assumes "length (k_iv k) = TLS13_IV_LEN" "quicNonce k p = quicNonce k q"
  shows "p = q"
proof (rule bytes_determine)
  fix i :: nat assume "i < 8"
  then have idx: "11 - (11 - i) = i" "4 \<le> 11 - i" by simp_all
  have "quicNonce k p ! (11 - i) = quicNonce k q ! (11 - i)"
    using assms(2) by simp
  then have "k_iv k ! (11 - i) XOR ucast (drop_bit (i * 8) p) =
      k_iv k ! (11 - i) XOR ucast (drop_bit (i * 8) q)"
    using idx assms(1) by (simp add: nth_quicNonce)
  then show "(ucast (drop_bit (i * 8) p) :: u8) = ucast (drop_bit (i * 8) q)"
    by (rule xor_left_cancel)
qed

theorem nonce_unique_witness:
  "quicNonce keysZero 0x0100000000000000 \<noteq> quicNonce keysZero 0"
  using nonce_unique [of keysZero "0x0100000000000000" 0] by (auto simp: keysZero_def)


section \<open>Sealing and opening\<close>

definition aead_ok :: "psa \<Rightarrow> bool" where
  "aead_ok P \<longleftrightarrow>
     (\<forall>k a nonce aad pt n ct. psa_aead_encrypt P k a nonce aad pt n = Some ct \<longrightarrow>
        length ct = length pt + QUIC_TAG_LEN \<and> length ct \<le> n \<and>
        (\<forall>m\<ge>length pt. psa_aead_decrypt P k a nonce aad ct m = Some pt)) \<and>
     (\<forall>k a nonce aad ct m pt. psa_aead_decrypt P k a nonce aad ct m = Some pt \<longrightarrow>
        (\<exists>n. psa_aead_encrypt P k a nonce aad pt n = Some ct))"

lemma aead_okD:
  assumes "aead_ok P" "psa_aead_encrypt P k a nonce aad pt n = Some ct"
  shows "length ct = length pt + QUIC_TAG_LEN" "length ct \<le> n"
    "length pt \<le> m \<Longrightarrow> psa_aead_decrypt P k a nonce aad ct m = Some pt"
  using assms unfolding aead_ok_def by blast+

lemma psa_example_aead: "aead_ok psa_example"
  unfolding aead_ok_def psa_example_def
  by (auto intro!: exI [of _ "length _"] split: if_splits) (metis append_take_drop_id)

lemma drop_past_pn:
  assumes "length pnb \<le> 4"
  shows "drop (Suc (length mid) + 4) (b # mid @ pnb @ tail) = drop (4 - length pnb) tail"
proof -
  have "drop (Suc (length mid) + 4) (b # mid @ pnb @ tail) =
      drop 4 (drop (Suc (length mid)) (b # mid @ pnb @ tail))"
    by (simp only: drop_drop add.commute)
  with assms show ?thesis by simp
qed

text \<open>What sealing puts on the wire, in terms of the parts of the header.\<close>

lemma quicPktSeal_wire:
  assumes "aead_ok P" and seal: "quicPktSeal P k buf pnOff pnLen pn payload = Some (n, out)"
    and hdr: "take (pnOff + pnLen) buf = b0 # mid @ pnb" "length pnb = pnLen"
    and off: "pnOff = Suc (length mid)"
  obtains ct msk where "length ct = length payload + QUIC_TAG_LEN"
    "\<And>m. length payload \<le> m \<Longrightarrow> quicAeadOpen P k pn (b0 # mid @ pnb) ct m = Some payload"
    "n = pnOff + pnLen + length ct" "pnOff + 20 \<le> n"
    "quicHpMask P k (take 16 (drop (4 - pnLen) ct)) = Some msk"
    "take n out = hp_byte b0 msk # mid @ xor_pn pnb msk @ ct" "1 \<le> pnLen" "pnLen \<le> 4"
proof -
  let ?h = "pnOff + pnLen"
  from seal have pl: "1 \<le> pnLen" "pnLen \<le> 4" and room: "?h \<le> length buf"
    "length payload + 16 \<le> length buf - ?h"
    by (auto simp: quicPktSeal_def Let_def split: if_splits)
  from seal obtain ct msk where
    ct: "quicAeadSeal P k pn (take ?h buf) payload (length buf - ?h) = Some ct"
    and tot: "n = ?h + length ct" "pnOff + 20 \<le> ?h + length ct"
    and msk: "quicHpMask P k (take 16 (drop (pnOff + 4) (mem_write buf ?h ct))) = Some msk"
    and out: "out = quicHpApply (mem_write buf ?h ct) pnOff pnLen msk"
    by (auto simp: quicPktSeal_def Let_def not_less split: if_splits option.splits)
  from ct have enc: "psa_aead_encrypt P (k_aead k) (k_aeadAlg k) (quicNonce k pn) (b0 # mid @ pnb)
      payload (length buf - ?h) = Some ct" and valid: "k_valid k"
    by (auto simp: quicAeadSeal_def hdr split: if_splits)
  note ae = aead_okD [OF assms(1) enc]
  have buf1: "mem_write buf ?h ct = b0 # mid @ pnb @ ct @ drop (?h + length ct) buf"
    by (simp add: mem_write_def hdr)
  have "drop (pnOff + 4) (mem_write buf ?h ct) =
      drop (4 - pnLen) ct @ drop (?h + length ct) buf"
    unfolding buf1 using hdr(2) pl tot(2) unfolding off by (subst drop_past_pn) simp_all
  then have m: "quicHpMask P k (take 16 (drop (4 - pnLen) ct)) = Some msk"
    using msk tot(2) pl by simp
  have "quicAeadOpen P k pn (b0 # mid @ pnb) ct m = Some payload" if "length payload \<le> m" for m
    using ae(3) [OF that] valid by (simp add: quicAeadOpen_def)
  moreover have "take n out = hp_byte b0 msk # mid @ xor_pn pnb msk @ ct"
    unfolding out buf1 tot(1) using quicHpApply_mk [OF off, of pnLen pnb] hdr(2) by (simp add: off)
  ultimately show thesis using that ae(1) tot m pl by blast
qed

text \<open>Removing header protection from such a packet gives the header back.\<close>

lemma pktUnprotect_wire:
  assumes "quicHpMask P k (take 16 (drop (4 - length pnb) ct)) = Some msk"
    and "length pnb \<le> 4" "20 \<le> length pnb + length ct"
    and "Suc (unat (b0 AND 0x03)) = length pnb" "h_pnOff h = Suc (length mid)"
    and "quicHdrDecodePN h (b0 # mid @ pnb @ ct @ rest) largest = Some h1"
  shows "pktUnprotect P k h (hp_byte b0 msk # mid @ xor_pn pnb msk @ ct @ rest) largest =
    (True, h1, b0 # mid @ pnb @ ct @ rest)"
proof -
  have "take 16 (drop (h_pnOff h + 4) (hp_byte b0 msk # mid @ xor_pn pnb msk @ ct @ rest)) =
      take 16 (drop (4 - length pnb) ct)"
    unfolding assms(5) using assms(2,3) by (subst drop_past_pn) simp_all
  moreover have "hpPn (b0 # mid @ xor_pn pnb msk @ ct @ rest) (Suc (length mid)) (length pnb) msk =
      b0 # mid @ pnb @ ct @ rest"
    using hpPn_mk [of "b0 # mid" "xor_pn pnb msk" "ct @ rest" msk] by simp
  ultimately show ?thesis
    using assms(1,4,5,6) by (simp add: pktUnprotect_def)
qed


lemma quicPktOpen_wire:
  assumes "quicHpMask P k (take 16 (drop (4 - length pnb) ct)) = Some msk"
    and "length pnb \<le> 4" "20 \<le> length pnb + length ct"
    and "Suc (unat (b0 AND 0x03)) = length pnb" "h_pnOff h = Suc (length mid)"
    and "h_pnLen h = 0" "h_pnOff h + 20 \<le> h_pktLen h"
    and "quicHdrDecodePN h (b0 # mid @ pnb @ ct @ rest) largest = Some h1"
    and "h_pnOff h1 = Suc (length mid)" "h_pnLen h1 = length pnb" "h_payload h1 = ct"
  shows "quicPktOpen P k h (hp_byte b0 msk # mid @ xor_pn pnb msk @ ct @ rest) largest outsz =
    (quicAeadOpen P k (h_pn h1) (b0 # mid @ pnb) ct outsz, h1, b0 # mid @ pnb @ ct @ rest)"
  using pktUnprotect_wire [OF assms(1-5, 8)] assms(6,7,9-11)
  by (simp add: quicPktOpen_def Let_def)

text \<open>
  A packet ready to be sealed: the header \<open>h\<close> has been encoded at the start of the buffer for a
  payload of the given size, with the low bytes of the packet number.
\<close>

definition seal_ready :: "QuicPktHdr \<Rightarrow> u64 \<Rightarrow> u8 list \<Rightarrow> u8 list \<Rightarrow> bool" where
  "seal_ready h pn payload buf \<longleftrightarrow>
     hdr_caller_ok h \<and>
     h_type h \<in> {QUIC_PKT_SHORT, QUIC_PKT_INITIAL, QUIC_PKT_0RTT, QUIC_PKT_HANDSHAKE} \<and>
     (h_type h \<noteq> QUIC_PKT_SHORT \<longrightarrow> h_version h = QUIC_VERSION_1) \<and>
     h_len h = h_pnLen h + length payload + QUIC_TAG_LEN \<and>
     h_pnEnc h = take_bit (h_pnLen h * 8) pn \<and>
     (\<exists>buf0 wr. quicHdrEncode (quicWrInit buf0) h = (True, wr) \<and> buf = wr_buf wr)"

lemma seal_readyD:
  assumes "seal_ready h pn payload buf"
  shows "quicHdrSize h \<noteq> 0" "take (quicHdrSize h) buf = hdr_bytes h" "quicHdrSize h \<le> length buf"
proof -
  from assms obtain buf0 wr where enc: "quicHdrEncode (quicWrInit buf0) h = (True, wr)"
    and buf: "buf = wr_buf wr" and ok: "hdr_caller_ok h" by (auto simp: seal_ready_def)
  show sz: "quicHdrSize h \<noteq> 0" by (rule quicHdrEncode_True_size [OF enc])
  have out: "wr_out wr = hdr_bytes h"
    using quicHdrEncode_out [OF _ ok enc] by simp
  have "wr_wf wr"
    using quicHdrEncode_grow [OF _ sz ok, of "quicWrInit buf0"] enc by (auto dest: wr_grow_wf)
  then have "length (wr_out wr) = wr_p wr" "wr_out wr = take (wr_p wr) (wr_buf wr)"
    "wr_p wr \<le> length (wr_buf wr)"
    by (simp_all add: length_wr_out) (simp_all add: wr_out_def wr_wf_def)
  with out show "take (quicHdrSize h) buf = hdr_bytes h" "quicHdrSize h \<le> length buf"
    using length_hdr_bytes [OF sz ok] buf by simp_all
qed

lemma sealed_wire:
  assumes "aead_ok P" and ready: "seal_ready h pn payload buf"
    and seal: "quicPktSeal P k buf (quicHdrSize h - h_pnLen h) (h_pnLen h) pn payload = Some (n, out)"
  obtains ct msk where "h_len h = h_pnLen h + length ct" "QUIC_TAG_LEN \<le> length ct"
    "\<And>m. length payload \<le> m \<Longrightarrow> quicAeadOpen P k pn (hdr_bytes h) ct m = Some payload"
    "n = quicHdrSize h + length ct" "20 \<le> h_pnLen h + length ct"
    "quicHpMask P k (take 16 (drop (4 - h_pnLen h) ct)) = Some msk"
    "take n out = hp_byte (hdrFirstByte h) msk # hdr_middle h
       @ xor_pn (be_bytes (h_pnLen h) (h_pnEnc h)) msk @ ct"
    "1 \<le> h_pnLen h" "h_pnLen h \<le> 4" "quicHdrSize h - h_pnLen h = Suc (length (hdr_middle h))"
proof -
  note sz = seal_readyD [OF ready]
  have ok: "hdr_caller_ok h"
    and ty: "h_type h \<in> {QUIC_PKT_SHORT, QUIC_PKT_INITIAL, QUIC_PKT_0RTT, QUIC_PKT_HANDSHAKE}"
    and len: "h_len h = h_pnLen h + length payload + 16"
    using ready by (auto simp: seal_ready_def)
  note hb = hdr_bytes_middle [OF ty]
  have size: "quicHdrSize h = Suc (length (hdr_middle h) + h_pnLen h)"
    using length_hdr_bytes [OF sz(1) ok] hb by simp
  then have off: "quicHdrSize h - h_pnLen h = Suc (length (hdr_middle h))" by simp
  have hdr: "take (Suc (length (hdr_middle h)) + h_pnLen h) buf
      = hdrFirstByte h # hdr_middle h @ be_bytes (h_pnLen h) (h_pnEnc h)"
    using sz(2) hb size by simp
  obtain ct msk where ct: "length ct = length payload + 16"
    "\<And>m. length payload \<le> m \<Longrightarrow> quicAeadOpen P k pn (hdr_bytes h) ct m = Some payload"
    "n = Suc (length (hdr_middle h)) + h_pnLen h + length ct" "Suc (length (hdr_middle h)) + 20 \<le> n"
    "quicHpMask P k (take 16 (drop (4 - h_pnLen h) ct)) = Some msk"
    "take n out = hp_byte (hdrFirstByte h) msk # hdr_middle h
       @ xor_pn (be_bytes (h_pnLen h) (h_pnEnc h)) msk @ ct" "1 \<le> h_pnLen h" "h_pnLen h \<le> 4"
    by (rule quicPktSeal_wire [OF assms(1) seal [unfolded off] hdr length_be_bytes refl])
      (unfold hb, blast)
  have "h_len h = h_pnLen h + length ct" "16 \<le> length ct" "n = quicHdrSize h + length ct"
    "20 \<le> h_pnLen h + length ct"
    using ct(1,3,4) len size by simp_all
  then show thesis using that ct(2,5-8) off by blast
qed

lemma masked_header_decodes:
  assumes ok: "hdr_caller_ok h" and sz: "quicHdrSize h \<noteq> 0"
    and ty: "h_type h \<in> {QUIC_PKT_SHORT, QUIC_PKT_INITIAL, QUIC_PKT_0RTT, QUIC_PKT_HANDSHAKE}"
    and ver: "h_type h \<noteq> QUIC_PKT_SHORT \<longrightarrow> h_version h = QUIC_VERSION_1"
    and pay: "h_len h = h_pnLen h + length ct" "QUIC_TAG_LEN \<le> length ct"
    and short: "h_type h = QUIC_PKT_SHORT \<longrightarrow> rest = [] \<and> dcidLen = length (h_dcid h)"
    and pl: "1 \<le> h_pnLen h" "h_pnLen h \<le> 4"
  shows "quicHdrDecode (hp_byte (hdrFirstByte h) msk # hdr_middle h
      @ xor_pn (be_bytes (h_pnLen h) (h_pnEnc h)) msk @ ct @ rest) dcidLen =
    Some (hdr_decoded h (quicHdrSize h + length ct))"
  using quicHdrDecode_long_masked [OF sz ok _ _ pay, of "hp_byte (hdrFirstByte h) msk"
      "xor_pn (be_bytes (h_pnLen h) (h_pnEnc h)) msk" rest]
    quicHdrDecode_short_masked [OF sz _ pay, of "hp_byte (hdrFirstByte h) msk"
      "xor_pn (be_bytes (h_pnLen h) (h_pnEnc h)) msk"]
    hp_byte_high [of "hdrFirstByte h" msk] hdrFirstByte_long(1) [OF _ pl] ty ver short
  by auto

text \<open>
  What becomes of a sealed packet at the receiver, whichever keys it tries: keys with the same
  header protection find the header \<open>h2\<close> and the ciphertext \<open>ct\<close>, and once the header is
  unprotected the packet can be tried again.
\<close>

lemma sealed_packet_opens:
  assumes "aead_ok P" and ready: "seal_ready h pn payload buf"
    and seal: "quicPktSeal P k buf (quicHdrSize h - h_pnLen h) (h_pnLen h) pn payload = Some (n, out)"
    and short: "h_type h = QUIC_PKT_SHORT \<longrightarrow> rest = [] \<and> dcidLen = length (h_dcid h)"
    and pn: "pn < QUIC_MAX_PACKET_NUMBER" "pn_expected largest \<le> 2 ^ 62"
      "pn_expected largest < unat pn + 2 ^ (h_pnLen h * 8 - 1)"
      "unat pn \<le> pn_expected largest + 2 ^ (h_pnLen h * 8 - 1)"
  obtains h1 h2 ct where "quicHdrDecode (take n out @ rest) dcidLen = Some h1" "h_pktLen h1 = n"
    "\<And>m. length payload \<le> m \<Longrightarrow> quicAeadOpen P k pn (hdr_bytes h) ct m = Some payload"
    "\<And>k' m. quicHpMask P k' = quicHpMask P k \<Longrightarrow> quicPktOpen P k' h1 (take n out @ rest) largest m =
        (quicAeadOpen P k' pn (hdr_bytes h) ct m, h2, hdr_bytes h @ ct @ rest)"
    "\<And>k' m. quicPktOpen P k' h2 (hdr_bytes h @ ct @ rest) largest m =
        (quicAeadOpen P k' pn (hdr_bytes h) ct m, h2, hdr_bytes h @ ct @ rest)"
    "ct = drop (quicHdrSize h) (take n out)" "h_pn h2 = pn" "h_type h2 = h_type h" "h_dcid h2 = h_dcid h"
    "h_pnLen h2 = h_pnLen h" "1 \<le> h_pnLen h" "h_keyPhase h2 \<longleftrightarrow> h_type h = QUIC_PKT_SHORT \<and> h_keyPhase h"
proof -
  note sz = seal_readyD [OF ready]
  have ok: "hdr_caller_ok h"
    and ty: "h_type h \<in> {QUIC_PKT_SHORT, QUIC_PKT_INITIAL, QUIC_PKT_0RTT, QUIC_PKT_HANDSHAKE}"
    and ver: "h_type h \<noteq> QUIC_PKT_SHORT \<longrightarrow> h_version h = QUIC_VERSION_1"
    and enc: "h_pnEnc h = take_bit (h_pnLen h * 8) pn"
    using ready by (auto simp: seal_ready_def)
  let ?b = "hdrFirstByte h" and ?mid = "hdr_middle h" and ?pnb = "be_bytes (h_pnLen h) (h_pnEnc h)"
  obtain ct msk where pay: "h_len h = h_pnLen h + length ct" "16 \<le> length ct"
    and ct: "\<And>m. length payload \<le> m \<Longrightarrow> quicAeadOpen P k pn (hdr_bytes h) ct m = Some payload"
    and n: "n = quicHdrSize h + length ct" "20 \<le> h_pnLen h + length ct"
    and msk: "quicHpMask P k (take 16 (drop (4 - h_pnLen h) ct)) = Some msk"
    and out: "take n out = hp_byte ?b msk # ?mid @ xor_pn ?pnb msk @ ct"
    and pl: "1 \<le> h_pnLen h" "h_pnLen h \<le> 4" and off: "quicHdrSize h - h_pnLen h = Suc (length ?mid)"
    using sealed_wire [OF assms(1) ready seal] by blast
  let ?h1 = "hdr_decoded h (quicHdrSize h + length ct)"
  note hb = hdr_bytes_middle [OF ty]
    and pn2 = decode_both_steps(2) [OF ok sz(1) ty ver pay short, unfolded hdr_bytes_middle [OF ty]]
  obtain h2 where h2: "quicHdrDecodePN ?h1 (?b # ?mid @ ?pnb @ ct @ rest) largest = Some h2"
    "h_pnOff h2 = Suc (length ?mid)" "h_pnLen h2 = h_pnLen h" "h_payload h2 = ct" "h_pn h2 = pn"
    "h_type h2 = h_type h" "h_dcid h2 = h_dcid h" "h_pktLen h2 = n"
    "h_keyPhase h2 \<longleftrightarrow> h_type h = QUIC_PKT_SHORT \<and> h_keyPhase h"
    using pn2 quicPnDecode_nearest [OF pl pn(1), of largest] pn(2-4) off n(1)
    by (simp add: enc pn_expected_def hdr_decoded_def hdrZero_def)
  have size: "quicHdrSize h = Suc (length ?mid + h_pnLen h)"
    using length_hdr_bytes [OF sz(1) ok] by (simp add: hb)
  have opens: "quicPktOpen P k' ?h1 (take n out @ rest) largest m =
      (quicAeadOpen P k' pn (hdr_bytes h) ct m, h2, hdr_bytes h @ ct @ rest)"
    if "quicHpMask P k' = quicHpMask P k" for k' m
    unfolding out append_assoc append_Cons hb h2(5) [symmetric]
    by (rule quicPktOpen_wire; use msk that pl n off h2 hdrFirstByte_long(5) [OF _ pl]
          hdrFirstByte_short(6) [OF _ pl] ty in \<open>auto simp: hdr_decoded_def hdrZero_def\<close>)
  have again: "quicPktOpen P k' h2 (hdr_bytes h @ ct @ rest) largest m =
      (quicAeadOpen P k' pn (hdr_bytes h) ct m, h2, hdr_bytes h @ ct @ rest)" for k' m
    unfolding quicPktOpen_def using h2 n pl size by (simp add: hb Let_def)
  have "drop (quicHdrSize h) (take n out) = ct" using out size by simp
  moreover have "quicHdrDecode (take n out @ rest) dcidLen = Some ?h1"
    unfolding out append_assoc append_Cons
    by (rule masked_header_decodes [OF ok sz(1) ty ver pay short pl])
  moreover have "h_pktLen ?h1 = n" by (simp add: hdr_decoded_def n(1))
  ultimately show thesis
    using ct opens again h2(3,5-7,9) pl(1) by - (rule that [of ?h1 ct h2], simp_all)
qed

text \<open>
  What one endpoint seals, the other opens. A packet with an encoded header, sealed by
  \<^verbatim>\<open>_quicPktSeal\<close>, is found by \<^verbatim>\<open>_quicHdrDecode\<close> although its first byte and packet number are
  masked, and \<^verbatim>\<open>_quicPktOpen\<close> under the same keys restores the header, recovers the full packet
  number (within half a window of the receiver's largest) and returns exactly the payload. Packets
  coalesced after a long header packet (\<open>rest\<close>) are untouched.
\<close>

theorem packet_seal_open:
  assumes "aead_ok P" and ready: "seal_ready h pn payload buf"
    and seal: "quicPktSeal P k buf (quicHdrSize h - h_pnLen h) (h_pnLen h) pn payload = Some (n, out)"
    and short: "h_type h = QUIC_PKT_SHORT \<longrightarrow> rest = [] \<and> dcidLen = length (h_dcid h)"
    and pn: "pn < QUIC_MAX_PACKET_NUMBER" "pn_expected largest \<le> 2 ^ 62"
      "pn_expected largest < unat pn + 2 ^ (h_pnLen h * 8 - 1)"
      "unat pn \<le> pn_expected largest + 2 ^ (h_pnLen h * 8 - 1)"
    and room: "length payload \<le> outsz"
  shows "\<exists>h1 h2. quicHdrDecode (take n out @ rest) dcidLen = Some h1 \<and> h_pktLen h1 = n
    \<and> quicPktOpen P k h1 (take n out @ rest) largest outsz =
        (Some payload, h2, hdr_bytes h @ drop (quicHdrSize h) (take n out) @ rest)
    \<and> h_pn h2 = pn \<and> h_type h2 = h_type h \<and> h_dcid h2 = h_dcid h
    \<and> (h_type h = QUIC_PKT_SHORT \<longrightarrow> h_keyPhase h2 = h_keyPhase h)"
proof -
  from sealed_packet_opens [OF assms(1) ready seal short pn]
  obtain h1 h2 ct where d: "quicHdrDecode (take n out @ rest) dcidLen = Some h1" "h_pktLen h1 = n"
    "\<And>m. length payload \<le> m \<Longrightarrow> quicAeadOpen P k pn (hdr_bytes h) ct m = Some payload"
    "\<And>k' m. quicHpMask P k' = quicHpMask P k \<Longrightarrow> quicPktOpen P k' h1 (take n out @ rest) largest m =
        (quicAeadOpen P k' pn (hdr_bytes h) ct m, h2, hdr_bytes h @ ct @ rest)"
    "ct = drop (quicHdrSize h) (take n out)" "h_pn h2 = pn" "h_type h2 = h_type h" "h_dcid h2 = h_dcid h"
    "h_keyPhase h2 \<longleftrightarrow> h_type h = QUIC_PKT_SHORT \<and> h_keyPhase h"
    by metis
  then show ?thesis using d(3) [OF room] by - (rule exI [of _ h1], rule exI [of _ h2], simp)
qed

definition example_keys :: QuicKeys where
  "example_keys = keysZero\<lparr>k_valid := True, k_aeadAlg := PSA_ALG_GCM\<rparr>"

definition example_short :: QuicPktHdr where
  "example_short = hdrZero\<lparr>h_type := QUIC_PKT_SHORT, h_dcid := [1, 2], h_keyPhase := True,
     h_pnLen := 2, h_pnEnc := 0x1234, h_len := 21\<rparr>"

definition example_buf :: "u8 list" where
  "example_buf = wr_buf (snd (quicHdrEncode (quicWrInit (replicate 40 0)) example_short))"

definition example_sealed :: "nat \<times> u8 list" where
  "example_sealed = the (quicPktSeal psa_example example_keys example_buf 3 2 0xab1234 [9, 8, 7])"

lemma example_short_ready: "seal_ready example_short 0xab1234 [9, 8, 7] example_buf"
proof -
  have "quicHdrEncode (quicWrInit (replicate 40 0)) example_short =
      (True, snd (quicHdrEncode (quicWrInit (replicate 40 0)) example_short))"
    by code_simp
  then show ?thesis
    unfolding seal_ready_def example_buf_def
    by (intro conjI exI) (simp_all add: example_short_def hdrZero_def hdr_caller_ok_def)
qed

lemma example_short_size: "quicHdrSize example_short = 5"
  by code_simp

lemma example_short_sealed:
  "quicPktSeal psa_example example_keys example_buf 3 2 0xab1234 [9, 8, 7] =
     Some (fst example_sealed, snd example_sealed)"
proof -
  have "quicPktSeal psa_example example_keys example_buf 3 2 0xab1234 [9, 8, 7] \<noteq> None"
    by code_simp
  then show ?thesis by (auto simp: example_sealed_def)
qed

theorem packet_seal_open_witness:
  "\<exists>h1 h2. quicHdrDecode (take (fst example_sealed) (snd example_sealed)) 2 = Some h1
    \<and> fst (quicPktOpen psa_example example_keys h1 (take (fst example_sealed) (snd example_sealed))
        0xab1200 1500) = Some [9, 8, 7]
    \<and> fst (snd (quicPktOpen psa_example example_keys h1
        (take (fst example_sealed) (snd example_sealed)) 0xab1200 1500)) = h2
    \<and> h_pn h2 = 0xab1234 \<and> h_keyPhase h2"
proof -
  have sel: "h_type example_short = QUIC_PKT_SHORT" "h_pnLen example_short = 2"
    "h_dcid example_short = [1, 2]" "h_keyPhase example_short"
    by (simp_all add: example_short_def)
  have seal: "quicPktSeal psa_example example_keys example_buf
      (quicHdrSize example_short - h_pnLen example_short) (h_pnLen example_short) 0xab1234 [9, 8, 7] =
      Some (fst example_sealed, snd example_sealed)"
    using example_short_sealed by (simp add: sel example_short_size)
  obtain h1 h2 where "quicHdrDecode (take (fst example_sealed) (snd example_sealed) @ []) 2 = Some h1"
    "quicPktOpen psa_example example_keys h1 (take (fst example_sealed) (snd example_sealed) @ [])
       0xab1200 1500 = (Some [9, 8, 7], h2, hdr_bytes example_short
         @ drop (quicHdrSize example_short) (take (fst example_sealed) (snd example_sealed)) @ [])"
    "h_pn h2 = 0xab1234" "h_keyPhase h2"
    using packet_seal_open [OF psa_example_aead example_short_ready seal, of "[]" 2 "0xab1200" 1500]
    by (auto simp: sel pn_expected_def QUIC_MAX_PACKET_NUMBER_def)
  then show ?thesis by (intro exI [of _ h1] exI) simp
qed

end
