(* ===== verification/QuicToken.thy ===== *)
theory QuicToken
  imports QuicCrypto QuicFrame
begin

text \<open>
  Address validation tokens and the packets a server sends to a client it has no connection with:
  \<^verbatim>\<open>src/cxquic/token.c\<close>.

  \<^verbatim>\<open>psa_generate_random\<close> is a parameter: \<open>rnd i n\<close> is what the \<open>i\<close>-th call of the operation
  returns for \<open>n\<close> bytes, \<open>None\<close> when it fails. Wall clock times are signed 64-bit microseconds,
  modelled as integers: they are stored as their 64-bit pattern and read back as a signed value,
  and differences of such times stay far inside the range. The builders return the length of the
  packet and the buffer, \<open>None\<close> for a returned length of 0.
\<close>

section \<open>Addresses\<close>

datatype NetAddrType = NA_Unknown | NA_IPv4 | NA_IPv6

text \<open>
  The two address arrays share storage in a union: \<open>na_bytes\<close> is its 16 bytes, the IPv4 address
  the first four of them.
\<close>

record NetAddr =
  na_type :: NetAddrType
  na_bytes :: "u8 list"
  na_scope :: u32
  na_port :: "16 word"

definition na_ipv4 :: "NetAddr \<Rightarrow> u8 list" where
  "na_ipv4 a = take 4 (na_bytes a)"

definition na_ipv6 :: "NetAddr \<Rightarrow> u8 list" where
  "na_ipv6 a = take 16 (na_bytes a)"

definition addrBytes :: "NetAddr \<Rightarrow> u8 list" where
  "addrBytes peer = (if na_type peer = NA_IPv6 then na_ipv6 peer else na_ipv4 peer)"


section \<open>Tokens\<close>

abbreviation (input) QUIC_TOKEN_NONCE :: nat where "QUIC_TOKEN_NONCE \<equiv> 12"
abbreviation (input) QUIC_TOKEN_VER :: u8 where "QUIC_TOKEN_VER \<equiv> 1"
abbreviation (input) QUIC_MAX_TOKEN :: nat where "QUIC_MAX_TOKEN \<equiv> 128"
abbreviation (input) QUIC_RETRY_TOKEN_LIFETIME :: int where "QUIC_RETRY_TOKEN_LIFETIME \<equiv> 10000000"
abbreviation (input) QUIC_NEW_TOKEN_LIFETIME :: int where "QUIC_NEW_TOKEN_LIFETIME \<equiv> 3600000000"

definition tokenKey :: "psa \<Rightarrow> u8 list \<Rightarrow> psa_key option" where
  "tokenKey P key =
     import_key P \<lparr>pk_type = PSA_KEY_TYPE_AES, pk_bits = 0,
       pk_usage = [PSA_KEY_USAGE_ENCRYPT, PSA_KEY_USAGE_DECRYPT], pk_alg = PSA_ALG_GCM,
       pk_bytes = take 32 key\<rparr>"

definition quicTokenSeal ::
  "psa \<Rightarrow> (nat \<Rightarrow> nat \<Rightarrow> u8 list option) \<Rightarrow> u8 list \<Rightarrow> bool \<Rightarrow> NetAddr \<Rightarrow> QuicCid option \<Rightarrow> int
     \<Rightarrow> u8 list option" where
  "quicTokenSeal P rnd key retry peer odcid now =
     (let cid = (if retry then case odcid of None \<Rightarrow> [] | Some c \<Rightarrow> c else []) in
      if length cid > QUIC_MAX_CID then None
      else
        let plain = [QUIC_TOKEN_VER, if retry then 1 else 0] @ be_bytes 8 (word_of_int now)
              @ [of_nat (length cid)] @ cid
        in if QUIC_TOKEN_NONCE + length plain + QUIC_TAG_LEN > QUIC_MAX_TOKEN then None
           else
             case tokenKey P key of
               None \<Rightarrow> None
             | Some k \<Rightarrow>
                 case rnd 0 QUIC_TOKEN_NONCE of
                   None \<Rightarrow> None
                 | Some nonce \<Rightarrow>
                     case psa_aead_encrypt P (Some k) PSA_ALG_GCM nonce (addrBytes peer) plain
                            (QUIC_MAX_TOKEN - QUIC_TOKEN_NONCE) of
                       None \<Rightarrow> None
                     | Some ct \<Rightarrow> Some (nonce @ ct))"

definition quicTokenOpen ::
  "psa \<Rightarrow> u8 list \<Rightarrow> u8 list \<Rightarrow> NetAddr \<Rightarrow> int \<Rightarrow> (bool \<times> QuicCid) option" where
  "quicTokenOpen P token key peer now =
     (if length token \<le> QUIC_TOKEN_NONCE + QUIC_TAG_LEN \<or> length token > QUIC_MAX_TOKEN then None
      else
        case tokenKey P key of
          None \<Rightarrow> None
        | Some k \<Rightarrow>
            case psa_aead_decrypt P (Some k) PSA_ALG_GCM (take QUIC_TOKEN_NONCE token)
                   (addrBytes peer) (drop QUIC_TOKEN_NONCE token) QUIC_MAX_TOKEN of
              None \<Rightarrow> None
            | Some plain \<Rightarrow>
                if length plain < 11 \<or> plain ! 0 \<noteq> QUIC_TOKEN_VER then None
                else
                  let isRetry = (plain ! 1 \<noteq> 0);
                      issued = sint (foldl be_step 0 (take 8 (drop 2 plain)));
                      age = now - issued
                  in if age < 0 \<or> age > (if isRetry then QUIC_RETRY_TOKEN_LIFETIME
                                          else QUIC_NEW_TOKEN_LIFETIME) then None
                     else
                       let cidLen = unat (plain ! 10) in
                       if cidLen > QUIC_MAX_CID \<or> length plain \<noteq> 11 + cidLen then None
                       else Some (isRetry, take cidLen (drop 11 plain)))"


section \<open>Packets outside a connection\<close>


definition quicRetryBuild ::
  "psa \<Rightarrow> u8 list \<Rightarrow> u32 \<Rightarrow> QuicCid \<Rightarrow> QuicCid \<Rightarrow> QuicCid \<Rightarrow> u8 list \<Rightarrow> (nat \<times> u8 list) option" where
  "quicRetryBuild P out version odcid clientScid retryScid token =
     (let h = hdrZero\<lparr>h_type := QUIC_PKT_RETRY, h_version := version, h_dcid := clientScid,
            h_scid := retryScid, h_token := token, h_tag := Some (replicate QUIC_TAG_LEN 0)\<rparr>
      in case quicHdrEncode (quicWrInit out) h of
           (False, wr) \<Rightarrow> None
         | (True, wr) \<Rightarrow>
             let len = quicWrLen wr in
             case quicRetryTag P odcid (take (len - QUIC_TAG_LEN) (wr_buf wr)) of
               None \<Rightarrow> None
             | Some tag \<Rightarrow> Some (len, mem_write (wr_buf wr) (len - QUIC_TAG_LEN) tag))"

definition quicVersionNegBuild ::
  "u8 list \<Rightarrow> QuicCid \<Rightarrow> QuicCid \<Rightarrow> u32 list \<Rightarrow> (nat \<times> u8 list) option" where
  "quicVersionNegBuild out dcid scid versions =
     (let h = hdrZero\<lparr>h_type := QUIC_PKT_VERSIONNEG, h_dcid := scid, h_scid := dcid\<rparr>
      in case quicHdrEncode (quicWrInit out) h of
           (False, wr) \<Rightarrow> None
         | (True, wr) \<Rightarrow>
             let wr1 = foldl quicWr32 wr versions in
             if wr_bad wr1 \<or> quicWrLen wr1 = 0 then None else Some (quicWrLen wr1, wr_buf wr1))"

definition quicStatelessResetBuild ::
  "(nat \<Rightarrow> nat \<Rightarrow> u8 list option) \<Rightarrow> u8 list \<Rightarrow> nat \<Rightarrow> u8 list \<Rightarrow> (nat \<times> u8 list) option" where
  "quicStatelessResetBuild rnd out maxLen token =
     (let len = (if maxLen < length out then maxLen else length out) in
      if len < 21 + QUIC_RESET_TOKEN_LEN then None
      else
        case rnd 0 1 of
          None \<Rightarrow> None
        | Some jitter \<Rightarrow>
            let want = 21 + QUIC_RESET_TOKEN_LEN + unat (jitter ! 0 AND 0x1f);
                len1 = (if want < len then want else len)
            in case rnd 1 (len1 - QUIC_RESET_TOKEN_LEN) of
                 None \<Rightarrow> None
               | Some bs \<Rightarrow>
                   let out1 = mem_write out 0 bs;
                       out2 = out1[0 := (out1 ! 0 AND 0x3f) OR 0x40];
                       out3 = mem_write out2 (len1 - QUIC_RESET_TOKEN_LEN)
                                (take QUIC_RESET_TOKEN_LEN token)
                   in Some (len1, out3))"


section \<open>Token properties\<close>

text \<open>The plaintext of a token.\<close>

definition token_plain :: "bool \<Rightarrow> int \<Rightarrow> QuicCid \<Rightarrow> u8 list" where
  "token_plain retry now cid =
     [QUIC_TOKEN_VER, if retry then 1 else 0] @ be_bytes 8 (word_of_int now)
       @ [of_nat (length cid)] @ cid"

definition random_ok :: "(nat \<Rightarrow> nat \<Rightarrow> u8 list option) \<Rightarrow> bool" where
  "random_ok rnd \<longleftrightarrow> (\<forall>i n bs. rnd i n = Some bs \<longrightarrow> length bs = n)"

lemma token_plain_parts:
  assumes "length cid \<le> QUIC_MAX_CID"
  shows "length (token_plain r t cid) = 11 + length cid" "token_plain r t cid ! 0 = QUIC_TOKEN_VER"
    "(token_plain r t cid ! Suc 0 \<noteq> 0) = r" "take 8 (drop 2 (token_plain r t cid)) = be_bytes 8 (word_of_int t)"
    "unat (token_plain r t cid ! 10) = length cid" "drop 11 (token_plain r t cid) = cid"
proof -
  have ten: "([a, b] @ be_bytes 8 w @ [c] @ cid) ! 10 = c" for a b c w
    using nth_append_length [of "[a, b] @ be_bytes 8 w" c cid] by simp
  have eleven: "drop 11 ([a, b] @ be_bytes 8 w @ [c] @ cid) = cid" for a b c w
  proof -
    have "drop (length ([a, b] @ be_bytes 8 w @ [c])) (([a, b] @ be_bytes 8 w @ [c]) @ cid) = cid"
      by (rule append_eq_conv_conj [THEN iffD1, THEN conjunct2, symmetric]) simp
    then show ?thesis by simp
  qed
  have "unat (of_nat (length cid) :: u8) = length cid"
    using assms by (simp add: unat_of_nat_small)
  then show "unat (token_plain r t cid ! 10) = length cid"
    using ten by (simp add: token_plain_def)
  show "drop 11 (token_plain r t cid) = cid"
    unfolding token_plain_def by (rule eleven)
qed (simp_all add: token_plain_def)

lemma time_roundtrip:
  assumes "- (2 ^ 63) \<le> t" "t < 2 ^ 63"
  shows "sint (foldl be_step 0 (be_bytes 8 (word_of_int t :: u64))) = t"
proof -
  have "take_bit 64 (word_of_int t :: u64) = word_of_int t"
    by (rule bit_word_eqI) (simp add: bit_simps)
  then show ?thesis
    using assms by (simp add: be_simps signed_of_int signed_take_bit_int_eq_self)
qed

lemma be_bytes_be_step:
  assumes "n \<le> 7"
  shows "be_bytes (Suc n) (be_step v b) = be_bytes n v @ [b]"
proof (rule nth_equalityI)
  fix i assume i: "i < length (be_bytes (Suc n) (be_step v b))"
  show "be_bytes (Suc n) (be_step v b) ! i = (be_bytes n v @ [b]) ! i"
  proof (cases "i = n")
    case True
    have "(ucast (be_step v b) :: u8) = b"
      by (rule bit_word_eqI) (simp add: be_step_def bit_simps)
    with True show ?thesis by (simp add: be_bytes_def nth_append del: upt_Suc)
  next
    case False
    with i obtain m where m: "n - i = Suc m" "m < n" "n - 1 - i = m"
      by (metis Suc_diff_Suc diff_Suc_less diff_diff_left diff_less_Suc length_be_bytes
          less_Suc_eq less_antisym linorder_neqE_nat not_less_eq plus_1_eq_Suc)
    have "(ucast (drop_bit (Suc m * 8) (be_step v b)) :: u8) = ucast (drop_bit (m * 8) v)"
    proof (rule bit_word_eqI)
      fix j assume "j < LENGTH(8)"
      then have "8 \<le> Suc m * 8 + j" "Suc m * 8 + j < 64" "Suc m * 8 + j - 8 = m * 8 + j"
        using m(2) assms by auto
      then show "bit (ucast (drop_bit (Suc m * 8) (be_step v b)) :: u8) j =
          bit (ucast (drop_bit (m * 8) v) :: u8) j"
        using \<open>j < LENGTH(8)\<close> by (auto simp: be_step_def bit_simps dest: bit_imp_le_length)
    qed
    with False i m show ?thesis by (simp add: be_bytes_def nth_append del: upt_Suc)
  qed
qed simp

lemma be_bytes_foldl: "length bs \<le> 8 \<Longrightarrow> be_bytes (length bs) (foldl be_step 0 bs) = bs"
proof (induction bs rule: rev_induct)
  case Nil
  then show ?case by simp
next
  case (snoc b bs)
  then show ?case using be_bytes_be_step [of "length bs"] by simp
qed

lemma quicTokenSeal_parts:
  assumes "aead_ok P" "random_ok rnd"
    and "quicTokenSeal P rnd key retry peer odcid now = Some token"
  obtains k nonce ct cid where "tokenKey P key = Some k" "token = nonce @ ct" "length nonce = 12"
    "cid = (if retry then case odcid of None \<Rightarrow> [] | Some c \<Rightarrow> c else [])" "length cid \<le> QUIC_MAX_CID"
    "length ct = 27 + length cid"
    "psa_aead_decrypt P (Some k) PSA_ALG_GCM nonce (addrBytes peer) ct 128 = Some (token_plain retry now cid)"
proof -
  define cid where "cid = (if retry then case odcid of None \<Rightarrow> [] | Some c \<Rightarrow> c else [])"
  have le: "length cid \<le> QUIC_MAX_CID"
    using assms(3) by (auto simp: quicTokenSeal_def Let_def cid_def split: if_splits)
  from assms(3) obtain k nonce ct where k: "tokenKey P key = Some k" "rnd 0 12 = Some nonce"
    and enc: "psa_aead_encrypt P (Some k) PSA_ALG_GCM nonce (addrBytes peer)
        (token_plain retry now cid) 116 = Some ct" and tok: "token = nonce @ ct"
    unfolding quicTokenSeal_def cid_def [symmetric] Let_def token_plain_def [symmetric]
    by (auto split: if_splits option.splits)
  have "length nonce = 12" using assms(2) k(2) by (simp add: random_ok_def)
  with that [OF k(1) tok _ cid_def le] aead_okD [OF assms(1) enc] token_plain_parts(1) [OF le] le
  show thesis by simp
qed

text \<open>
  C23. A token a server sealed validates the address it was issued to and no other state is needed:
  within its lifetime it opens for a peer with the same address bytes, whatever the port, and
  gives back the kind of token and, for a Retry token, the connection ID it was bound to.
\<close>

theorem token_roundtrip:
  assumes "aead_ok P" "random_ok rnd"
    and "quicTokenSeal P rnd key retry peer odcid issued = Some token"
    and "addrBytes peer' = addrBytes peer" "- (2 ^ 63) \<le> issued" "issued < 2 ^ 63"
    and "issued \<le> now"
    and "now - issued \<le> (if retry then QUIC_RETRY_TOKEN_LIFETIME else QUIC_NEW_TOKEN_LIFETIME)"
  shows "quicTokenOpen P token key peer' now =
    Some (retry, if retry then case odcid of None \<Rightarrow> [] | Some c \<Rightarrow> c else [])"
proof -
  from quicTokenSeal_parts [OF assms(1-3)] obtain k nonce ct cid where
    k: "tokenKey P key = Some k" and tok: "token = nonce @ ct" "length nonce = 12"
    and cid: "cid = (if retry then case odcid of None \<Rightarrow> [] | Some c \<Rightarrow> c else [])"
      "length cid \<le> QUIC_MAX_CID" and ct: "length ct = 27 + length cid"
    and dec: "psa_aead_decrypt P (Some k) PSA_ALG_GCM nonce (addrBytes peer) ct 128
      = Some (token_plain retry issued cid)" by blast
  note parts = token_plain_parts [OF cid(2), of retry issued]
  have "length token = 39 + length cid" using tok ct by simp
  then show ?thesis
    unfolding cid(1) [symmetric] using cid(2) assms(4,7,8) dec time_roundtrip [OF assms(5,6)]
    by (simp add: quicTokenOpen_def k tok parts Let_def)
qed

text \<open>
  C22. A token is accepted only if it is authentic: what opens is the encryption, under the
  server's token key and bound to this peer's address, of a token plaintext that names exactly
  the returned kind and connection ID and an issue time that is not in the future and not older
  than the lifetime of that kind.
\<close>

theorem token_authentic:
  assumes "aead_ok P" and "quicTokenOpen P token key peer now = Some (retry, cid)"
  shows "\<exists>k issued flag n. tokenKey P key = Some k \<and> (flag \<noteq> 0) = retry \<and> length cid \<le> QUIC_MAX_CID
    \<and> 0 \<le> now - issued
    \<and> now - issued \<le> (if retry then QUIC_RETRY_TOKEN_LIFETIME else QUIC_NEW_TOKEN_LIFETIME)
    \<and> psa_aead_encrypt P (Some k) PSA_ALG_GCM (take QUIC_TOKEN_NONCE token) (addrBytes peer)
        ([QUIC_TOKEN_VER, flag] @ be_bytes 8 (word_of_int issued) @ [of_nat (length cid)] @ cid) n
        = Some (drop QUIC_TOKEN_NONCE token)"
proof -
  from assms(2) obtain k plain where k: "tokenKey P key = Some k"
    and dec: "psa_aead_decrypt P (Some k) PSA_ALG_GCM (take 12 token) (addrBytes peer)
        (drop 12 token) 128 = Some plain"
    and len: "length plain = 11 + unat (plain ! 10)" "unat (plain ! 10) \<le> 20"
    and ver: "plain ! 0 = QUIC_TOKEN_VER" and retry: "retry = (plain ! 1 \<noteq> 0)"
    and age: "0 \<le> now - sint (foldl be_step 0 (take 8 (drop 2 plain)))"
      "now - sint (foldl be_step 0 (take 8 (drop 2 plain))) \<le>
         (if retry then QUIC_RETRY_TOKEN_LIFETIME else QUIC_NEW_TOKEN_LIFETIME)"
    and cid: "cid = drop 11 plain"
    by (auto simp: quicTokenOpen_def Let_def split: if_splits option.splits)
  let ?t = "foldl be_step 0 (take 8 (drop 2 plain))"
  obtain a b c d e f g h i j l rest where
    bytes: "plain = [a, b, c, d, e, f, g, h, i, j, l] @ rest" "length rest = unat l"
    using len by (auto simp: length_Suc_conv numeral_eq_Suc)
  have "be_bytes 8 (word_of_int (sint ?t)) = take 8 (drop 2 plain)"
  proof -
    have "length (take 8 (drop 2 plain)) = 8" by (simp add: bytes(1))
    then show ?thesis using be_bytes_foldl [of "take 8 (drop 2 plain)"] by simp
  qed
  moreover have "of_nat (length cid) = l"
    using bytes by (simp add: cid)
  ultimately have "plain = [QUIC_TOKEN_VER, plain ! 1] @ be_bytes 8 (word_of_int (sint ?t))
      @ [of_nat (length cid)] @ cid"
    using ver by (simp add: bytes cid)
  moreover obtain n where "psa_aead_encrypt P (Some k) PSA_ALG_GCM (take 12 token)
      (addrBytes peer) plain n = Some (drop 12 token)"
    using dec assms(1) unfolding aead_ok_def by blast
  moreover have "length cid \<le> 20" using len by (simp add: cid)
  ultimately show ?thesis using k retry age by metis
qed


definition peer_example :: NetAddr where
  "peer_example = \<lparr>na_type = NA_IPv4, na_bytes = [1, 0, 0, 127] @ replicate 12 0, na_scope = 0,
     na_port = 4433\<rparr>"

definition rnd_example :: "nat \<Rightarrow> nat \<Rightarrow> u8 list option" where
  "rnd_example i n = Some (replicate n 0xc3)"

definition token_example :: "u8 list" where
  "token_example =
     the (quicTokenSeal psa_example rnd_example (replicate 32 7) True peer_example (Some [5, 6]) 1000)"

lemma token_example_sealed:
  "quicTokenSeal psa_example rnd_example (replicate 32 7) True peer_example (Some [5, 6]) 1000
     = Some token_example"
proof -
  have "quicTokenSeal psa_example rnd_example (replicate 32 7) True peer_example (Some [5, 6]) 1000 \<noteq> None"
    by (simp add: quicTokenSeal_def psa_example_def rnd_example_def tokenKey_def import_key_def)
  then show ?thesis by (auto simp: token_example_def)
qed

lemma rnd_example_ok: "random_ok rnd_example"
  by (simp add: random_ok_def rnd_example_def)

lemma token_example_opens:
  "quicTokenOpen psa_example token_example (replicate 32 7) (peer_example\<lparr>na_port := 9\<rparr>) 5001000 =
     Some (True, [5, 6])"
  by code_simp

theorem token_roundtrip_witness:
  "quicTokenOpen psa_example token_example (replicate 32 7) (peer_example\<lparr>na_port := 9\<rparr>) 5001000 =
     Some (True, [5, 6])"
  using token_roundtrip [OF psa_example_aead rnd_example_ok token_example_sealed,
      of "peer_example\<lparr>na_port := 9\<rparr>" 5001000]
  by (simp add: addrBytes_def na_ipv4_def na_ipv6_def)

theorem token_authentic_witness:
  "\<exists>k issued flag n. tokenKey psa_example (replicate 32 7) = Some k \<and> flag \<noteq> 0
    \<and> 0 \<le> 5001000 - issued \<and> 5001000 - issued \<le> QUIC_RETRY_TOKEN_LIFETIME
    \<and> psa_aead_encrypt psa_example (Some k) PSA_ALG_GCM (take 12 token_example) (addrBytes peer_example)
        ([QUIC_TOKEN_VER, flag] @ be_bytes 8 (word_of_int issued) @ [2, 5, 6]) n
        = Some (drop 12 token_example)"
proof -
  have "addrBytes (peer_example\<lparr>na_port := 9\<rparr>) = addrBytes peer_example"
    by (simp add: addrBytes_def na_ipv4_def na_ipv6_def)
  then show ?thesis
    using token_authentic [OF psa_example_aead token_example_opens] by auto
qed


section \<open>Packets outside a connection: properties\<close>

lemma quicHdrDecode_prefix:
  assumes "length dcid \<le> QUIC_MAX_CID" "length scid \<le> QUIC_MAX_CID" "b0 AND 0x80 \<noteq> 0"
  shows "quicHdrDecode (b0 # be_bytes 4 (ucast ver) @ of_nat (length dcid) # dcid
      @ of_nat (length scid) # scid @ tail) dcidLen =
    (let h = hdrZero\<lparr>h_version := ver, h_dcid := dcid, h_scid := scid\<rparr>;
         pre = b0 # be_bytes 4 (ucast ver) @ of_nat (length dcid) # dcid @ of_nat (length scid) # scid
     in if ver = QUIC_VERSION_NEGOTIATE
        then (if length tail > 0 \<and> length tail mod 4 = 0
              then Some (h\<lparr>h_type := QUIC_PKT_VERSIONNEG, h_payload := tail,
                           h_pktLen := length pre + length tail\<rparr>) else None)
        else if ver \<noteq> QUIC_VERSION_1
        then Some (h\<lparr>h_type := QUIC_PKT_UNKNOWN, h_pktLen := length pre + length tail\<rparr>)
        else hdrDecodeLong b0 h (rd_mk pre tail))"
proof -
  have d: "drop (7 + (length dcid + length scid)) (b0 # be_bytes 4 v @ of_nat (length dcid) # dcid
      @ of_nat (length scid) # scid @ tail) = tail" for v
  proof -
    let ?pre = "b0 # be_bytes 4 v @ of_nat (length dcid) # dcid @ of_nat (length scid) # scid"
    have "drop (length ?pre) (?pre @ tail) = tail" 
      by (simp only: drop_append drop_all order_refl diff_self_eq_0 drop_0 append_Nil)
    then show ?thesis by (simp add: add.assoc)
  qed
  show ?thesis
    using assms(3)
    unfolding quicHdrDecode_def quicRdInit_mk quicRd8_mk
    by (simp add: hdrRdCid_mk [OF assms(1)] hdrRdCid_mk [OF assms(2)] quicRd32_mk Let_def d)
qed

text \<open>Writing a list of 32-bit versions.\<close>

lemma foldl_quicWr32_grow:
  "wr_wf wr0 \<Longrightarrow> wr_grow wr0 wr a \<Longrightarrow>
   wr_grow wr0 (foldl quicWr32 wr vs) (a @ concat (map (\<lambda>v. be_bytes 4 (ucast v)) vs))"
proof (induction vs arbitrary: wr a)
  case Nil
  then show ?case by simp
next
  case (Cons v vs)
  then show ?case
    using Cons.IH [OF Cons.prems(1) wr_grow_bytes [OF Cons.prems]] by (simp add: quicWr32_bytes)
qed

lemma foldl_quicWr32_bad: "wr_bad wr \<Longrightarrow> wr_bad (foldl quicWr32 wr vs)"
  by (induction vs arbitrary: wr) (simp_all add: quicWr32_def quicWrInt_def)

lemma length_versions: "length (concat (map (\<lambda>v. be_bytes 4 (ucast v)) vs)) = 4 * length vs"
  by (induction vs) simp_all

text \<open>
  A Version Negotiation packet answers the client it is sent to: decoding what
  \<^verbatim>\<open>_quicVersionNegBuild\<close> wrote gives a Version Negotiation packet whose connection IDs are those
  of the packet being answered, swapped, and whose payload is the list of versions offered, in
  order.
\<close>

theorem version_negotiation_decodes:
  assumes "quicVersionNegBuild out dcid scid versions = Some (n, out')"
    and "versions \<noteq> []"
  shows "quicHdrDecode (take n out') dcidLen =
      Some (hdrZero\<lparr>h_type := QUIC_PKT_VERSIONNEG, h_dcid := scid, h_scid := dcid, h_pktLen := n,
        h_payload := concat (map (\<lambda>v. be_bytes 4 (ucast v)) versions)\<rparr>)"
proof -
  let ?h = "hdrZero\<lparr>h_type := QUIC_PKT_VERSIONNEG, h_dcid := scid, h_scid := dcid\<rparr>"
  let ?vs = "concat (map (\<lambda>v. be_bytes 4 (ucast v)) versions)"
  have ok: "hdr_caller_ok ?h" by (simp add: hdr_caller_ok_def hdrZero_def)
  from assms(1) obtain wr where enc: "quicHdrEncode (quicWrInit out) ?h = (True, wr)"
    and nb: "\<not> wr_bad (foldl quicWr32 wr versions)"
    and n: "n = quicWrLen (foldl quicWr32 wr versions)" "out' = wr_buf (foldl quicWr32 wr versions)"
    by (auto simp: quicVersionNegBuild_def Let_def split: bool.splits if_splits prod.splits)
  have sz: "quicHdrSize ?h \<noteq> 0" by (rule quicHdrEncode_True_size [OF enc])
  then have cids: "length scid \<le> 20" "length dcid \<le> 20"
    by (auto simp: quicHdrSize_def hdrZero_def split: if_splits)
  have "wr_grow (quicWrInit out) wr (hdr_bytes ?h)"
    using quicHdrEncode_grow [OF _ sz ok, of "quicWrInit out"] enc by simp
  from foldl_quicWr32_grow [OF wr_wf_init(1) this, of versions] nb
  have g: "take n out' = hdr_bytes ?h @ ?vs" "n \<le> length out'"
    using wr_wf_init(2) [of out] by (simp_all add: wr_grow_def n quicWrLen_def)
      (simp_all add: wr_out_def wr_wf_def)
  have bytes: "hdr_bytes ?h = 0x80 # be_bytes 4 (ucast QUIC_VERSION_NEGOTIATE)
      @ of_nat (length scid) # scid @ of_nat (length dcid) # dcid"
    by (simp add: hdr_bytes_def long_pre_def hdrFirstByte_def hdrZero_def)
  have len: "n = 7 + (length scid + length dcid) + length ?vs"
    using g(2) arg_cong [OF g(1), of length] by (simp add: bytes)
  show ?thesis
    using assms(2) len
    unfolding g(1) bytes append_assoc append_Cons
    by (subst quicHdrDecode_prefix [OF cids]) (simp_all add: Let_def length_versions hdrZero_def)
qed


definition example_versionneg :: "nat \<times> u8 list" where
  "example_versionneg = the (quicVersionNegBuild (replicate 40 0) [1, 2] [3] [1, 0x6b3343cf])"

theorem version_negotiation_decodes_witness:
  "quicHdrDecode (take (fst example_versionneg) (snd example_versionneg)) 0 =
     Some (hdrZero\<lparr>h_type := QUIC_PKT_VERSIONNEG, h_dcid := [3], h_scid := [1, 2],
       h_pktLen := fst example_versionneg,
       h_payload := be_bytes 4 1 @ be_bytes 4 0x6b3343cf\<rparr>)"
proof -
  have "quicVersionNegBuild (replicate 40 0) [1, 2] [3] [1, 0x6b3343cf] \<noteq> None"
    by code_simp
  then have "quicVersionNegBuild (replicate 40 0) [1, 2] [3] [1, 0x6b3343cf] =
      Some (fst example_versionneg, snd example_versionneg)"
    by (auto simp: example_versionneg_def)
  from version_negotiation_decodes [OF this, of 0] show ?thesis by simp
qed

lemma quicRetryTag_length: "quicRetryTag P odcid bs = Some tag \<Longrightarrow> length tag = QUIC_TAG_LEN"
  by (auto simp: quicRetryTag_def Let_def split: if_splits option.splits)

lemma hdrDecodeLong_retry:
  assumes "length tag = QUIC_TAG_LEN"
  shows "hdrDecodeLong 0xf0 h (rd_mk pre (token @ tag)) =
    Some (h\<lparr>h_type := QUIC_PKT_RETRY, h_token := token, h_tag := Some tag,
      h_pktLen := length pre + length token + QUIC_TAG_LEN\<rparr>)"
  using assms by (simp add: hdrDecodeLong_def pktTypeOfBits_def Let_def rd_mk_def quicRdLeft_def)

text \<open>
  A Retry packet passes the check a client makes: decoding what \<^verbatim>\<open>_quicRetryBuild\<close> wrote
  gives a Retry packet addressed to the client's connection ID, carrying the new connection ID
  and the token unchanged, and its tag is the integrity tag that anyone who knows the connection
  ID the client first used computes over the packet in front of the tag.
\<close>

theorem retry_packet_verifies:
  assumes "quicRetryBuild P out QUIC_VERSION_1 odcid clientScid retryScid token = Some (n, out')"
    and "length token < 2 ^ 64"
  shows "\<exists>tag. quicHdrDecode (take n out') dcidLen =
      Some (hdrZero\<lparr>h_type := QUIC_PKT_RETRY, h_version := QUIC_VERSION_1, h_dcid := clientScid,
        h_scid := retryScid, h_token := token, h_tag := Some tag, h_pktLen := n\<rparr>)
    \<and> quicRetryTag P odcid (take (n - QUIC_TAG_LEN) out') = Some tag"
proof -
  let ?h = "hdrZero\<lparr>h_type := QUIC_PKT_RETRY, h_version := QUIC_VERSION_1, h_dcid := clientScid,
            h_scid := retryScid, h_token := token, h_tag := Some (replicate QUIC_TAG_LEN 0)\<rparr>"
  have ok: "hdr_caller_ok ?h" using assms(2) by (simp add: hdr_caller_ok_def hdrZero_def)
  from assms(1) obtain wr tag where enc: "quicHdrEncode (quicWrInit out) ?h = (True, wr)"
    and tag: "quicRetryTag P odcid (take (wr_p wr - 16) (wr_buf wr)) = Some tag"
    and n: "n = wr_p wr" "out' = mem_write (wr_buf wr) (wr_p wr - 16) tag"
    by (auto simp: quicRetryBuild_def quicWrLen_def Let_def
        split: bool.splits if_splits prod.splits option.splits)
  have sz: "quicHdrSize ?h \<noteq> 0" by (rule quicHdrEncode_True_size [OF enc])
  then have cids: "length clientScid \<le> 20" "length retryScid \<le> 20"
    by (auto simp: quicHdrSize_def hdrZero_def split: if_splits)
  define pre where "pre = 0xf0 # be_bytes 4 (ucast QUIC_VERSION_1)
      @ of_nat (length clientScid) # clientScid @ of_nat (length retryScid) # retryScid"
  have bytes: "hdr_bytes ?h = (pre @ token) @ replicate 16 0"
    by (simp add: hdr_bytes_def long_pre_def hdrFirstByte_def hdrZero_def pre_def)
  have "wr_grow (quicWrInit out) wr (hdr_bytes ?h)"
    using quicHdrEncode_grow [OF _ sz ok, of "quicWrInit out"] enc by simp
  then have wf: "wr_p wr \<le> length (wr_buf wr)" by (simp add: wr_grow_def wr_wf_def)
  have hdr: "take (wr_p wr) (wr_buf wr) = (pre @ token) @ replicate 16 0"
    using quicHdrEncode_out [OF wr_wf_init(1) ok enc] bytes wr_wf_init(2) [of out]
    unfolding wr_out_def by simp
  from arg_cong [OF hdr, of length] wf have p: "wr_p wr = length (pre @ token) + 16" by simp
  then have body: "take (wr_p wr - 16) (wr_buf wr) = pre @ token"
    using arg_cong [OF hdr, of "take (length (pre @ token))"] by (simp add: min_def)
  note tl = quicRetryTag_length [OF tag]
  have out: "take n out' = pre @ token @ tag" "take (n - 16) out' = pre @ token"
    using take_mem_write [of "wr_p wr - 16" tag "wr_buf wr"] wf p tl body
    by (simp_all add: n mem_write_def)
  have "quicHdrDecode (take n out') dcidLen =
      hdrDecodeLong 0xf0 (hdrZero\<lparr>h_version := QUIC_VERSION_1, h_dcid := clientScid, h_scid := retryScid\<rparr>)
        (rd_mk pre (token @ tag))"
    unfolding out(1) unfolding pre_def append_assoc append_Cons
    by (subst quicHdrDecode_prefix [OF cids]) (simp_all add: Let_def)
  then show ?thesis
    using tag body out(2) p by (simp add: hdrDecodeLong_retry [OF tl] n hdrZero_def)
qed

definition example_retry :: "nat \<times> u8 list" where
  "example_retry = the (quicRetryBuild psa_example (replicate 60 0) 1 [9, 9] [1] [2, 3] [4, 5, 6])"

theorem retry_packet_verifies_witness:
  "\<exists>tag. (\<exists>h. quicHdrDecode (take (fst example_retry) (snd example_retry)) 0 = Some h
      \<and> h_token h = [4, 5, 6] \<and> h_tag h = Some tag)
    \<and> quicRetryTag psa_example [9, 9] (take (fst example_retry - 16) (snd example_retry)) = Some tag"
proof -
  have "quicRetryBuild psa_example (replicate 60 0) 1 [9, 9] [1] [2, 3] [4, 5, 6] \<noteq> None"
    by code_simp
  then have "quicRetryBuild psa_example (replicate 60 0) 1 [9, 9] [1] [2, 3] [4, 5, 6] =
      Some (fst example_retry, snd example_retry)"
    by (auto simp: example_retry_def)
  from retry_packet_verifies [OF this, of 0] show ?thesis by auto
qed

definition reset_bytes :: "u8 list \<Rightarrow> u8 list \<Rightarrow> u8 list \<Rightarrow> nat \<Rightarrow> u8 list" where
  "reset_bytes out bs token n =
     mem_write ((mem_write out 0 bs)[0 := (mem_write out 0 bs ! 0 AND 0x3f) OR 0x40])
       (n - QUIC_RESET_TOKEN_LEN) (take QUIC_RESET_TOKEN_LEN token)"

lemma quicStatelessResetBuild_min:
  "quicStatelessResetBuild rnd out maxLen token =
     (if min maxLen (length out) < 37 then None
      else case rnd 0 1 of None \<Rightarrow> None
        | Some jitter \<Rightarrow>
            let n = min (37 + unat (jitter ! 0 AND 0x1f)) (min maxLen (length out)) in
            case rnd 1 (n - QUIC_RESET_TOKEN_LEN) of None \<Rightarrow> None
              | Some bs \<Rightarrow> Some (n, reset_bytes out bs token n))"
proof -
  have m: "(if a < b then a else b) = min a b" "(21::nat) + 16 = 37" for a b :: nat by simp_all
  show ?thesis
    unfolding quicStatelessResetBuild_def reset_bytes_def Let_def m by simp
qed

lemma low_bits_bound: "unat (b AND 0x1f) \<le> 31"
  for b :: u8
  using word_and_le1 [of b "0x1f"] by (simp add: word_le_nat_alt)

lemma reset_bytes_facts:
  assumes "length token = QUIC_RESET_TOKEN_LEN" "length bs = n - QUIC_RESET_TOKEN_LEN"
    and "37 \<le> n" "n \<le> length out"
  shows "length (reset_bytes out bs token n) = length out"
    "drop (n - QUIC_RESET_TOKEN_LEN) (take n (reset_bytes out bs token n)) = token"
    "reset_bytes out bs token n ! 0 AND 0xc0 = 0x40"
    "drop n (reset_bytes out bs token n) = drop n out"
proof -
  define o1 where "o1 = mem_write out 0 bs"
  define b where "b = (o1 ! 0 AND 0x3f) OR 0x40"
  have o1: "length o1 = length out" using assms by (simp add: o1_def mem_write_def)
  have b: "b AND 0xc0 = 0x40"
    by (simp add: b_def bit.conj_disj_distrib2 and.assoc)
  have r: "reset_bytes out bs token n = take (n - 16) (o1[0 := b]) @ token @ drop n (o1[0 := b])"
    using assms by (simp add: reset_bytes_def mem_write_def [of "(_)[_ := _]"] o1_def b_def)
  show "length (reset_bytes out bs token n) = length out"
    "drop (n - 16) (take n (reset_bytes out bs token n)) = token"
    using assms o1 by (simp_all add: r)
  show "reset_bytes out bs token n ! 0 AND 0xc0 = 0x40"
  proof -
    have "o1[0 := b] ! 0 = b" using assms o1 by (intro nth_list_update_eq) linarith
    with b show ?thesis using assms o1 by (simp add: r nth_append)
  qed
  have "drop n (o1[0 := b]) = drop n out"
    using assms by (simp add: o1_def mem_write_def drop_update_cancel)
  then show "drop n (reset_bytes out bs token n) = drop n out"
    using assms o1 by (simp add: r)
qed

text \<open>
  A stateless reset cannot amplify and is recognised: it is never longer than \<open>maxLen\<close> or the
  buffer, between 37 and 68 bytes, looks like a short header packet, and ends in the reset token.
  It is refused exactly when there is no room for a plausible packet or no randomness.
\<close>

theorem stateless_reset_bounds:
  assumes "random_ok rnd" "length token = QUIC_RESET_TOKEN_LEN"
  shows "case quicStatelessResetBuild rnd out maxLen token of
      None \<Rightarrow> min maxLen (length out) < 37 \<or> rnd 0 1 = None \<or> (\<exists>k. rnd 1 k = None)
    | Some (n, out') \<Rightarrow> 37 \<le> n \<and> n \<le> 68 \<and> n \<le> maxLen \<and> n \<le> length out \<and> length out' = length out
        \<and> drop (n - QUIC_RESET_TOKEN_LEN) (take n out') = token
        \<and> out' ! 0 AND 0xc0 = 0x40 \<and> drop n out' = drop n out"
proof (cases "quicStatelessResetBuild rnd out maxLen token")
  case None
  then show ?thesis
    by (auto simp: quicStatelessResetBuild_min Let_def split: if_splits option.splits)
next
  case (Some r)
  then have big: "37 \<le> min maxLen (length out)"
    by (auto simp: quicStatelessResetBuild_min split: if_splits)
  with Some obtain jitter where "rnd 0 1 = Some jitter"
    by (auto simp: quicStatelessResetBuild_min split: option.splits)
  moreover define n where "n = min (37 + unat (jitter ! 0 AND 0x1f)) (min maxLen (length out))"
  ultimately obtain bs where bs: "rnd 1 (n - 16) = Some bs" and r: "r = (n, reset_bytes out bs token n)"
    using Some big by (simp add: quicStatelessResetBuild_min Let_def split: option.splits)
  have lens: "37 \<le> n" "n \<le> 68" "n \<le> maxLen" "n \<le> length out"
    using big low_bits_bound [of "jitter ! 0"] by (simp_all add: n_def)
  have "length bs = n - 16" using assms(1) bs by (simp add: random_ok_def)
  from reset_bytes_facts [OF assms(2) this lens(1,4)] lens show ?thesis
    by (simp add: Some r)
qed

theorem stateless_reset_bounds_witness:
  "case quicStatelessResetBuild rnd_example (replicate 100 0) 60 (replicate 16 5) of
     None \<Rightarrow> False
   | Some (n, out') \<Rightarrow> 37 \<le> n \<and> n \<le> 60 \<and> drop (n - 16) (take n out') = replicate 16 5"
  using stateless_reset_bounds [OF rnd_example_ok, where token = "replicate 16 5"
      and out = "replicate 100 0" and maxLen = 60]
  by (auto simp: rnd_example_def split: option.splits prod.splits)

end
