(* ===== verification/QuicConn.thy ===== *)
theory QuicConn
  imports QuicToken QuicAckState QuicStream QuicRecovery
begin

text \<open>
  The connection of \<^verbatim>\<open>src/cxquic/conn.c\<close>: its state and the operations that manage paths, path
  MTU discovery, packet number spaces, keys, connection IDs and the end of the connection.

  \<open>QuicConn\<close> has the fields of \<^verbatim>\<open>struct QuicConn\<close> in their order, without the query log, the TLS
  engine and the scratch buffer for building payloads. The arrays \<^verbatim>\<open>local\<close> and \<^verbatim>\<open>remote\<close> are lists
  of \<^verbatim>\<open>QUIC_MAX_CIDS\<close> entries, \<^verbatim>\<open>pns\<close> is a function of the packet number space, and the queue of
  retirements is the list of its used entries.

  What the context of the handlers holds comes with the connection: \<open>c_streams\<close> is the stream layer of
  \<^verbatim>\<open>struct QuicEngine\<close> (\<^verbatim>\<open>src/cxquic/quicsocket.c\<close>), \<open>None\<close> until \<^verbatim>\<open>streamsInit\<close> is set, with the flags
  \<^verbatim>\<open>streamsUp\<close> and \<^verbatim>\<open>connected\<close> beside it. The connection only reaches them through its handlers.

  Three fields have no counterpart: \<open>c_events\<close> records the calls of the handlers that only notify
  the layer above, in order (a handler that is not set is not called, which \<open>c_hooks\<close> says), and
  \<open>c_draws\<close> counts the calls of \<^verbatim>\<open>psa_generate_random\<close>, whose \<open>i\<close>-th result is \<open>rnd i n\<close>;
  \<open>c_tlsCalls\<close> counts the calls into the TLS engine in the same way.
  Times are signed 64-bit microseconds as integers. They stay far inside the range, except where an
  unlimited idle timeout is added to the current time, which wraps (\<open>add64\<close>).
\<close>

section \<open>Data\<close>

datatype QuicConnState =
    QUIC_CS_NEW | QUIC_CS_HANDSHAKE | QUIC_CS_CONNECTED | QUIC_CS_CLOSING | QUIC_CS_DRAINING
  | QUIC_CS_CLOSED

datatype QuicMtuState = QUIC_MTU_IDLE | QUIC_MTU_SEARCHING | QUIC_MTU_DONE | QUIC_MTU_ERROR

datatype QuicEcnState = QUIC_ECN_TESTING | QUIC_ECN_ON | QUIC_ECN_OFF

datatype QuicEarlyState = QUIC_ES_NONE | QUIC_ES_LIVE | QUIC_ES_DONE | QUIC_ES_REFUSED

datatype TlsQuicLevel = TLSQL_Initial | TLSQL_EarlyData | TLSQL_Handshake | TLSQL_App

record QuicLocalCid =
  lc_cid :: QuicCid
  lc_seq :: u64
  lc_resetToken :: "u8 list"
  lc_announce :: QuicCtl
  lc_live :: bool
  lc_retired :: bool
  lc_notified :: bool

record QuicRemoteCid =
  rc_cid :: QuicCid
  rc_seq :: u64
  rc_resetToken :: "u8 list"
  rc_haveToken :: bool
  rc_live :: bool

record QuicPnSpace =
  ps_rx :: QuicKeys
  ps_tx :: QuicKeys
  ps_next :: u64
  ps_largestAcked :: u64
  ps_ack :: QuicAckState
  ps_cryptoIn :: QuicReasm
  ps_cryptoOut :: QuicSendBuf
  ps_ecnEct0 :: u64
  ps_ecnEct1 :: u64
  ps_ecnCe :: u64
  ps_ecnAckedMarked :: u64
  ps_discarded :: bool

text \<open>The notifications of \<^verbatim>\<open>QuicConnHandlers\<close>, and which of them are set.\<close>

record NetPktInfo =
  pi_local :: NetAddr
  pi_ecn :: NetEcn
  pi_haveLocal :: bool
  pi_haveEcn :: bool

datatype ConnEvent =
    EvSend NetAddr NetPktInfo "u8 list"
  | EvConnected
  | EvClosed u64 bool bool "u8 list"
  | EvCidIssued QuicCid u64 "u8 list"
  | EvCidRetired QuicCid u64
  | EvToken "u8 list"
  | EvEarlyOpen
  | EvEarlyReject
  | EvDatagramRecv "u8 list"
  | EvDatagramWritable

datatype ConnHook =
    HookSend | HookConnected | HookClosed | HookFrame | HookFill | HookPktAcked | HookPktLost
  | HookWantsToSend | HookCidIssued | HookCidRetired | HookToken | HookEarlyOpen | HookEarlyReject
  | HookDatagramRecv | HookDatagramWritable

record QuicConnPath =
  c_server :: bool
  c_state :: QuicConnState
  c_version :: u32
  c_hooks :: "ConnHook \<Rightarrow> bool"
  c_events :: "ConnEvent list"
  c_draws :: nat
  c_tlsCalls :: nat
  c_peer :: NetAddr
  c_localAddr :: NetAddr
  c_haveLocal :: bool
  c_prevPeer :: NetAddr
  c_prevLocalAddr :: NetAddr
  c_havePrev :: bool
  c_prevHaveLocal :: bool
  c_pathDeadline :: int
  c_pathSent :: u64
  c_pathRecv :: u64
  c_pathAmpLimited :: bool
  c_nmigrations :: u32
  c_respondTo :: NetAddr
  c_respondElsewhere :: bool

record QuicConnMtu = QuicConnPath +
  c_mtu :: nat
  c_mtuState :: QuicMtuState
  c_mtuLow :: nat
  c_mtuHigh :: nat
  c_mtuProbing :: nat
  c_mtuProbePn :: u64
  c_mtuTries :: nat
  c_mtuRaiseAt :: int
  c_ecnState :: QuicEcnState
  c_ecnTestPkts :: nat

record QuicConnKeys = QuicConnMtu +
  c_earlyTx :: QuicKeys
  c_earlyRx :: QuicKeys
  c_rxNext :: QuicKeys
  c_rxPrev :: QuicKeys
  c_keyPhase :: bool
  c_rxPhaseFirst :: u64
  c_txPhaseFirst :: u64
  c_keyPhaseAcked :: bool
  c_rxPrevUntil :: int
  c_keyUpdates :: u32
  c_earlyState :: QuicEarlyState
  c_earlyTp :: QuicTransportParams
  c_haveEarlyTp :: bool
  c_now :: int
  c_localTp :: QuicTransportParams
  c_peerTp :: QuicTransportParams
  c_peerTpValid :: bool
  c_pns :: "QuicPnSpaceId \<Rightarrow> QuicPnSpace"

record QuicConnCids = QuicConnKeys +
  c_local :: "QuicLocalCid list"
  c_remote :: "QuicRemoteCid list"
  c_localNextSeq :: u64
  c_remoteRetirePrior :: u64
  c_localCidLen :: nat
  c_remoteActive :: nat
  c_peerCidKnown :: bool
  c_origDcid :: QuicCid
  c_retryScid :: QuicCid
  c_haveRetry :: bool
  c_token :: Buffer
  c_handshakeComplete :: bool
  c_handshakeConfirmed :: bool
  c_addrValidated :: bool
  c_sentHandshakePkt :: bool
  c_recvHandshakePkt :: bool
  c_discardHandshakeSoon :: bool
  c_bytesRecv :: u64
  c_bytesSent :: u64

record QuicConn = QuicConnCids +
  c_idleDeadline :: int
  c_closeDeadline :: int
  c_closePending :: bool
  c_closeLocal :: bool
  c_closeApp :: bool
  c_closeError :: u64
  c_closeFrameType :: u64
  c_closeReason :: "u8 list"
  c_handshakeDone :: QuicCtl
  c_pathResponse :: QuicCtl
  c_pathChallenge :: QuicCtl
  c_pathValidated :: bool
  c_pathResponseData :: "u8 list"
  c_pathChallengeData :: "u8 list"
  c_retireQueue :: "(u64 \<times> QuicCtl) list"
  c_recov :: QuicRecovery
  c_dgramOut :: "u8 list option"
  c_streams :: "QuicStreams option"
  c_streamsUp :: bool
  c_engConnected :: bool

abbreviation (input) QUIC_MAX_CIDS :: nat where "QUIC_MAX_CIDS \<equiv> 8"
abbreviation (input) QUIC_MAX_DATAGRAM :: nat where "QUIC_MAX_DATAGRAM \<equiv> 1452"
abbreviation (input) QUIC_INITIAL_MTU :: nat where "QUIC_INITIAL_MTU \<equiv> 1200"
abbreviation (input) QUIC_PMTU_PROBES :: nat where "QUIC_PMTU_PROBES \<equiv> 3"
abbreviation (input) QUIC_PMTU_STEP :: nat where "QUIC_PMTU_STEP \<equiv> 16"
abbreviation (input) QUIC_PMTU_RAISE_INTERVAL :: int where "QUIC_PMTU_RAISE_INTERVAL \<equiv> 600000000"
abbreviation (input) QUIC_ECN_TEST_PKTS :: nat where "QUIC_ECN_TEST_PKTS \<equiv> 10"
abbreviation (input) QUIC_MAX_CRYPTO_BUFFER :: u64 where "QUIC_MAX_CRYPTO_BUFFER \<equiv> 65536"
abbreviation (input) QUIC_HS_ACK_DELAY_EXP :: nat where "QUIC_HS_ACK_DELAY_EXP \<equiv> 3"

abbreviation (input) QUIC_ERR_NO_ERROR :: u64 where "QUIC_ERR_NO_ERROR \<equiv> 0x00"
abbreviation (input) QUIC_ERR_INTERNAL_ERROR :: u64 where "QUIC_ERR_INTERNAL_ERROR \<equiv> 0x01"
abbreviation (input) QUIC_ERR_CONNECTION_REFUSED :: u64 where "QUIC_ERR_CONNECTION_REFUSED \<equiv> 0x02"
abbreviation (input) QUIC_ERR_STREAM_LIMIT_ERROR :: u64 where "QUIC_ERR_STREAM_LIMIT_ERROR \<equiv> 0x04"
abbreviation (input) QUIC_ERR_FRAME_ENCODING_ERROR :: u64 where "QUIC_ERR_FRAME_ENCODING_ERROR \<equiv> 0x07"
abbreviation (input) QUIC_ERR_TRANSPORT_PARAMETER_ERROR :: u64 where
  "QUIC_ERR_TRANSPORT_PARAMETER_ERROR \<equiv> 0x08"
abbreviation (input) QUIC_ERR_CONNECTION_ID_LIMIT_ERROR :: u64 where
  "QUIC_ERR_CONNECTION_ID_LIMIT_ERROR \<equiv> 0x09"
abbreviation (input) QUIC_ERR_PROTOCOL_VIOLATION :: u64 where "QUIC_ERR_PROTOCOL_VIOLATION \<equiv> 0x0a"
abbreviation (input) QUIC_ERR_CRYPTO_BUFFER_EXCEEDED :: u64 where
  "QUIC_ERR_CRYPTO_BUFFER_EXCEEDED \<equiv> 0x0d"
abbreviation (input) QUIC_ERR_KEY_UPDATE_ERROR :: u64 where "QUIC_ERR_KEY_UPDATE_ERROR \<equiv> 0x0e"
abbreviation (input) QUIC_ERR_NO_VIABLE_PATH :: u64 where "QUIC_ERR_NO_VIABLE_PATH \<equiv> 0x10"
abbreviation (input) QUIC_ERR_CRYPTO_BASE :: u64 where "QUIC_ERR_CRYPTO_BASE \<equiv> 0x100"


section \<open>Small helpers\<close>

definition add64 :: "int \<Rightarrow> int \<Rightarrow> int" where
  "add64 a b = sint (word_of_int (a + b) :: u64)"

definition cidEq :: "QuicCid \<Rightarrow> QuicCid \<Rightarrow> bool" where
  "cidEq a b \<longleftrightarrow> length a = length b \<and> a = b"

definition addrEq :: "NetAddr \<Rightarrow> NetAddr \<Rightarrow> bool" where
  "addrEq a b \<longleftrightarrow>
     (if na_type a \<noteq> na_type b \<or> na_port a \<noteq> na_port b then False
      else if na_type a = NA_IPv6 then na_scope a = na_scope b \<and> na_ipv6 a = na_ipv6 b
      else na_ipv4 a = na_ipv4 b)"

definition fireHook :: "ConnHook \<Rightarrow> ConnEvent \<Rightarrow> QuicConn \<Rightarrow> QuicConn" where
  "fireHook hook ev c = (if c_hooks c hook then c\<lparr>c_events := c_events c @ [ev]\<rparr> else c)"

definition draw :: "(nat \<Rightarrow> nat \<Rightarrow> u8 list option) \<Rightarrow> nat \<Rightarrow> QuicConn \<Rightarrow> u8 list option \<times> QuicConn" where
  "draw rnd n c = (rnd (c_draws c) n, c\<lparr>c_draws := c_draws c + 1\<rparr>)"

definition setSpace :: "QuicPnSpaceId \<Rightarrow> QuicPnSpace \<Rightarrow> QuicConn \<Rightarrow> QuicConn" where
  "setSpace sp s c = c\<lparr>c_pns := (c_pns c)(sp := s)\<rparr>"

definition ctlZero :: QuicCtl where
  "ctlZero = \<lparr>ctl_pn = 0, ctl_state = QUIC_CTL_IDLE\<rparr>"

definition ackZero :: QuicAckState where
  "ackZero = \<lparr>as_ranges = [], as_largest = 0, as_largestTime = 0, as_elicitCount = 0,
     as_pending = False, as_deadline = 0, as_sentPn = 0, as_ect0 = 0, as_ect1 = 0, as_ce = 0,
     as_ecnSeen = False\<rparr>"

definition spaceZero :: QuicPnSpace where
  "spaceZero = \<lparr>ps_rx = keysZero, ps_tx = keysZero, ps_next = 0, ps_largestAcked = 0,
     ps_ack = ackZero, ps_cryptoIn = \<lparr>ra_buf = None, ra_base = 0, ra_limit = 0, ra_ranges = []\<rparr>,
     ps_cryptoOut = \<lparr>sb_buf = None, sb_base = 0, sb_end = 0, sb_chunks = [], sb_cap = 0\<rparr>,
     ps_ecnEct0 = 0, ps_ecnEct1 = 0, ps_ecnCe = 0, ps_ecnAckedMarked = 0, ps_discarded = False\<rparr>"

definition localCidZero :: QuicLocalCid where
  "localCidZero = \<lparr>lc_cid = [], lc_seq = 0, lc_resetToken = replicate QUIC_RESET_TOKEN_LEN 0,
     lc_announce = ctlZero, lc_live = False, lc_retired = False, lc_notified = False\<rparr>"

definition remoteCidZero :: QuicRemoteCid where
  "remoteCidZero = \<lparr>rc_cid = [], rc_seq = 0, rc_resetToken = replicate QUIC_RESET_TOKEN_LEN 0,
     rc_haveToken = False, rc_live = False\<rparr>"


section \<open>The end of a connection\<close>

definition connNotifyClosed :: "QuicConn \<Rightarrow> QuicConn" where
  "connNotifyClosed c =
     fireHook HookClosed (EvClosed (c_closeError c) (c_closeApp c) (c_closeLocal c) (c_closeReason c)) c"

definition connSilentClose :: "QuicConn \<Rightarrow> u64 \<Rightarrow> u8 list \<Rightarrow> QuicConn" where
  "connSilentClose c err reason =
     (if c_state c = QUIC_CS_CLOSED then c
      else if c_state c = QUIC_CS_CLOSING \<or> c_state c = QUIC_CS_DRAINING then
        c\<lparr>c_state := QUIC_CS_CLOSED, c_closePending := False\<rparr>
      else connNotifyClosed (c\<lparr>c_state := QUIC_CS_CLOSED, c_closeError := err, c_closeApp := False,
             c_closeLocal := True, c_closePending := False, c_closeReason := reason\<rparr>))"

definition quicConnClose :: "QuicConn \<Rightarrow> u64 \<Rightarrow> bool \<Rightarrow> u8 list \<Rightarrow> QuicConn" where
  "quicConnClose c err app reason =
     (if c_state c \<in> {QUIC_CS_CLOSING, QUIC_CS_DRAINING, QUIC_CS_CLOSED} then c
      else connNotifyClosed (c\<lparr>c_state := QUIC_CS_CLOSING, c_closeError := err, c_closeApp := app,
             c_closeLocal := True, c_closeFrameType := 0, c_closePending := True,
             c_closeReason := reason\<rparr>))"

definition quicConnAbort :: "QuicConn \<Rightarrow> u64 \<Rightarrow> u64 \<Rightarrow> QuicConn" where
  "quicConnAbort c err ftype = (quicConnClose c err False [])\<lparr>c_closeFrameType := ftype\<rparr>"


section \<open>Path MTU discovery\<close>

definition mtuCeiling :: "QuicConn \<Rightarrow> nat" where
  "mtuCeiling c =
     (let cap = QUIC_MAX_DATAGRAM;
          cap1 = (if c_peerTpValid c \<and> unat (tp_maxUdpPayload (c_peerTp c)) < cap
                  then unat (tp_maxUdpPayload (c_peerTp c)) else cap)
      in if cap1 < QUIC_INITIAL_MTU then QUIC_INITIAL_MTU else cap1)"

definition mtuSearch :: "QuicConn \<Rightarrow> int \<Rightarrow> QuicConn" where
  "mtuSearch c now =
     (let ceiling = mtuCeiling c;
          c1 = (if c_mtuHigh c > ceiling + 1 then c\<lparr>c_mtuHigh := ceiling + 1\<rparr> else c);
          c2 = (if c_mtuLow c1 < QUIC_INITIAL_MTU then c1\<lparr>c_mtuLow := QUIC_INITIAL_MTU\<rparr> else c1)
      in if c_mtuHigh c2 \<le> c_mtuLow c2 + QUIC_PMTU_STEP
         then c2\<lparr>c_mtuState := QUIC_MTU_DONE, c_mtuProbing := 0,
                 c_mtuRaiseAt := now + QUIC_PMTU_RAISE_INTERVAL\<rparr>
         else c2\<lparr>c_mtuState := QUIC_MTU_SEARCHING,
                 c_mtuProbing := c_mtuLow c2 + (c_mtuHigh c2 - c_mtuLow c2) div 2, c_mtuTries := 0\<rparr>)"

definition mtuStart :: "QuicConn \<Rightarrow> int \<Rightarrow> QuicConn" where
  "mtuStart c now =
     (if c_mtuState c \<noteq> QUIC_MTU_IDLE \<or> \<not> c_handshakeConfirmed c \<or> \<not> c_pathValidated c then c
      else mtuSearch (c\<lparr>c_mtuLow := QUIC_INITIAL_MTU, c_mtuHigh := mtuCeiling c + 1\<rparr>) now)"

definition mtuProbeAcked :: "QuicConn \<Rightarrow> nat \<Rightarrow> int \<Rightarrow> QuicConn" where
  "mtuProbeAcked c sz now =
     (let c1 = (if sz > c_mtuLow c
                then c\<lparr>c_mtuLow := sz, c_mtu := sz,
                       c_recov := quicRecovSetMaxDatagram sz (c_recov c)\<rparr> else c)
      in mtuSearch (c1\<lparr>c_mtuProbing := 0\<rparr>) now)"

definition mtuProbeLost :: "QuicConn \<Rightarrow> nat \<Rightarrow> int \<Rightarrow> QuicConn" where
  "mtuProbeLost c sz now =
     (let c1 = c\<lparr>c_mtuTries := c_mtuTries c + 1\<rparr> in
      if c_mtuTries c1 < QUIC_PMTU_PROBES then c1
      else
        let c2 = (if sz < c_mtuHigh c1 then c1\<lparr>c_mtuHigh := sz\<rparr> else c1)
        in mtuSearch (c2\<lparr>c_mtuProbing := 0\<rparr>) now)"


section \<open>Packet number spaces\<close>

fun spaceForLevel :: "TlsQuicLevel \<Rightarrow> QuicPnSpaceId" where
  "spaceForLevel TLSQL_Initial = QUIC_PNS_INITIAL"
| "spaceForLevel TLSQL_Handshake = QUIC_PNS_HANDSHAKE"
| "spaceForLevel _ = QUIC_PNS_APP"

fun levelForSpace :: "QuicPnSpaceId \<Rightarrow> TlsQuicLevel" where
  "levelForSpace QUIC_PNS_INITIAL = TLSQL_Initial"
| "levelForSpace QUIC_PNS_HANDSHAKE = TLSQL_Handshake"
| "levelForSpace QUIC_PNS_APP = TLSQL_App"

fun spaceForPktType :: "QuicPktType \<Rightarrow> QuicPnSpaceId option" where
  "spaceForPktType QUIC_PKT_INITIAL = Some QUIC_PNS_INITIAL"
| "spaceForPktType QUIC_PKT_HANDSHAKE = Some QUIC_PNS_HANDSHAKE"
| "spaceForPktType QUIC_PKT_0RTT = Some QUIC_PNS_APP"
| "spaceForPktType QUIC_PKT_SHORT = Some QUIC_PNS_APP"
| "spaceForPktType _ = None"

fun pktTypeForSpace :: "QuicPnSpaceId \<Rightarrow> QuicPktType" where
  "pktTypeForSpace QUIC_PNS_INITIAL = QUIC_PKT_INITIAL"
| "pktTypeForSpace QUIC_PNS_HANDSHAKE = QUIC_PKT_HANDSHAKE"
| "pktTypeForSpace QUIC_PNS_APP = QUIC_PKT_SHORT"

definition spaceInit :: QuicPnSpace where
  "spaceInit = spaceZero\<lparr>ps_largestAcked := QUIC_PN_NONE,
     ps_ack := ackZero\<lparr>as_largest := QUIC_PN_NONE, as_sentPn := QUIC_PN_NONE\<rparr>,
     ps_cryptoIn := quicReasmInit QUIC_MAX_CRYPTO_BUFFER, ps_cryptoOut := quicSendBufInit\<rparr>"

definition spaceDestroy :: "QuicPnSpace \<Rightarrow> QuicPnSpace" where
  "spaceDestroy s = s\<lparr>ps_rx := quicKeysDestroy (ps_rx s), ps_tx := quicKeysDestroy (ps_tx s),
     ps_cryptoIn := quicReasmDestroy (ps_cryptoIn s), ps_cryptoOut := quicSendBufDestroy (ps_cryptoOut s)\<rparr>"

text \<open>The destroyed space is overwritten with zeroes at once, so only the zeroed one is left.\<close>

definition spaceDiscard :: "QuicConn \<Rightarrow> QuicPnSpaceId \<Rightarrow> int \<Rightarrow> QuicConn" where
  "spaceDiscard c sp now =
     (if ps_discarded (c_pns c sp) then c
      else
        let s = spaceZero\<lparr>ps_largestAcked := QUIC_PN_NONE,
              ps_ack := ackZero\<lparr>as_largest := QUIC_PN_NONE, as_sentPn := QUIC_PN_NONE\<rparr>,
              ps_discarded := True\<rparr>;
            c1 = setSpace sp s c
        in c1\<lparr>c_recov := quicRecovDiscardSpace sp now (c_recov c1)\<rparr>)"


section \<open>Keys\<close>

definition keysSet :: "psa \<Rightarrow> QuicKeys \<Rightarrow> Tls13Suite \<Rightarrow> u8 list \<Rightarrow> bool \<times> QuicKeys" where
  "keysSet P dst suite secret =
     (case quicKeysDerive P (Some suite) secret of
        (False, k) \<Rightarrow> (False, dst)
      | (True, k) \<Rightarrow> (True, k))"

text \<open>
  Installing a secret that may be absent: \<^verbatim>\<open>secret && !keysSet(...)\<close> is the failure case.
\<close>

definition keysSetOpt :: "psa \<Rightarrow> QuicKeys \<Rightarrow> Tls13Suite \<Rightarrow> u8 list option \<Rightarrow> bool \<times> QuicKeys" where
  "keysSetOpt P dst suite secret =
     (case secret of None \<Rightarrow> (True, dst) | Some sec \<Rightarrow> keysSet P dst suite sec)"

definition tlsSecrets ::
  "psa \<Rightarrow> QuicConn \<Rightarrow> TlsQuicLevel \<Rightarrow> 16 word \<Rightarrow> u8 list option \<Rightarrow> u8 list option \<Rightarrow> bool \<times> QuicConn"
where
  "tlsSecrets P c level suite readSecret writeSecret =
     (case tls13Suite suite of
        None \<Rightarrow> (False, c)
      | Some su \<Rightarrow>
          if level = TLSQL_EarlyData then
            case keysSetOpt P (c_earlyTx c) su writeSecret of
              (False, k) \<Rightarrow> (False, c)
            | (True, tx) \<Rightarrow>
                let c1 = c\<lparr>c_earlyTx := tx\<rparr> in
                case keysSetOpt P (c_earlyRx c1) su readSecret of
                  (False, k) \<Rightarrow> (False, c1)
                | (True, rx) \<Rightarrow> (True, c1\<lparr>c_earlyRx := rx, c_earlyState := QUIC_ES_LIVE\<rparr>)
          else
            let sp = spaceForLevel level; s = c_pns c sp in
            case keysSetOpt P (ps_rx s) su readSecret of
              (False, k) \<Rightarrow> (False, c)
            | (True, rx) \<Rightarrow>
                let s1 = s\<lparr>ps_rx := rx\<rparr>; c1 = setSpace sp s1 c in
                case keysSetOpt P (ps_tx s1) su writeSecret of
                  (False, k) \<Rightarrow> (False, c1)
                | (True, tx) \<Rightarrow>
                    let c2 = setSpace sp (s1\<lparr>ps_tx := tx\<rparr>) c1;
                        c3 = (if writeSecret \<noteq> None
                              then c2\<lparr>c_recov := quicRecovSpaceReady sp (c_recov c2)\<rparr> else c2);
                        c4 = (if sp = QUIC_PNS_APP \<and> readSecret \<noteq> None
                              then c3\<lparr>c_rxNext := snd (quicKeysNext P (c_rxNext c3)
                                       (ps_rx (c_pns c3 sp)))\<rparr> else c3);
                        c5 = (if \<not> c_server c4 \<and> sp = QUIC_PNS_APP \<and> writeSecret \<noteq> None
                              then c4\<lparr>c_earlyTx := quicKeysDestroy (c_earlyTx c4)\<rparr> else c4)
                    in (True, c5))"

definition keyUpdate :: "psa \<Rightarrow> QuicConn \<Rightarrow> u64 \<Rightarrow> int \<Rightarrow> QuicConn" where
  "keyUpdate P c pn now =
     (let s = c_pns c QUIC_PNS_APP in
      case quicKeysNext P keysZero (ps_tx s) of
        (False, k) \<Rightarrow> c
      | (True, txNext) \<Rightarrow>
          let rxPrev = ps_rx s; rx = c_rxNext c;
              rxNext = snd (quicKeysNext P keysZero rx);
              c1 = setSpace QUIC_PNS_APP (s\<lparr>ps_rx := rx, ps_tx := txNext\<rparr>) c
          in c1\<lparr>c_rxPrev := rxPrev, c_rxNext := rxNext, c_keyPhase := \<not> c_keyPhase c1,
                c_rxPhaseFirst := pn, c_txPhaseFirst := ps_next (c_pns c1 QUIC_PNS_APP),
                c_keyPhaseAcked := False, c_keyUpdates := c_keyUpdates c1 + 1,
                c_rxPrevUntil := now + 3 * quicRecovPto (c_recov c1)\<rparr>)"

definition quicConnUpdateKeys :: "psa \<Rightarrow> QuicConn \<Rightarrow> bool \<times> QuicConn" where
  "quicConnUpdateKeys P c =
     (let s = c_pns c QUIC_PNS_APP in
      if \<not> c_handshakeConfirmed c \<or> \<not> k_valid (ps_tx s) \<or> \<not> k_valid (ps_rx s)
         \<or> \<not> k_valid (c_rxNext c) then (False, c)
      else if c_keyUpdates c > 0 \<and> \<not> c_keyPhaseAcked c then (False, c)
      else (True, keyUpdate P c QUIC_PN_NONE (c_now c)))"

text \<open>
  \<^verbatim>\<open>openApp\<close> returns the payload (\<open>None\<close> for false), the connection, and the header and the
  packet as the attempts left them.
\<close>

definition openApp ::
  "psa \<Rightarrow> QuicConn \<Rightarrow> QuicPktHdr \<Rightarrow> u8 list \<Rightarrow> nat \<Rightarrow> int
     \<Rightarrow> u8 list option \<times> QuicConn \<times> QuicPktHdr \<times> u8 list" where
  "openApp P c h pkt outsz now =
     (let s = c_pns c QUIC_PNS_APP; largest = as_largest (ps_ack s) in
      case quicPktOpen P (ps_rx s) h pkt largest outsz of
        (Some out, h1, pkt1) \<Rightarrow>
          (Some out,
           (if c_rxPhaseFirst c = QUIC_PN_NONE \<or> h_pn h1 < c_rxPhaseFirst c
            then c\<lparr>c_rxPhaseFirst := h_pn h1\<rparr> else c), h1, pkt1)
      | (None, h1, pkt1) \<Rightarrow>
          if h_pnLen h1 = 0 \<or> h_keyPhase h1 = c_keyPhase c then (None, c, h1, pkt1)
          else if c_keyUpdates c > 0
                  \<and> (c_rxPhaseFirst c = QUIC_PN_NONE \<or> h_pn h1 < c_rxPhaseFirst c) then
            if k_valid (c_rxPrev c) \<and> now < c_rxPrevUntil c
            then case quicPktOpen P (c_rxPrev c) h1 pkt1 largest outsz of
                   (out, h2, pkt2) \<Rightarrow> (out, c, h2, pkt2)
            else (None, c, h1, pkt1)
          else if \<not> k_valid (c_rxNext c) then (None, c, h1, pkt1)
          else
            case quicPktOpen P (c_rxNext c) h1 pkt1 largest outsz of
              (None, h2, pkt2) \<Rightarrow> (None, c, h2, pkt2)
            | (Some out, h2, pkt2) \<Rightarrow>
                if \<not> c_handshakeConfirmed c
                then (None, quicConnAbort c QUIC_ERR_KEY_UPDATE_ERROR 0, h2, pkt2)
                else (Some out, keyUpdate P c (h_pn h2) now, h2, pkt2))"


section \<open>Connection IDs\<close>

text \<open>The entry is zeroed first, so a failed draw leaves a dead entry in the slot.\<close>

definition cidGenerate ::
  "(nat \<Rightarrow> nat \<Rightarrow> u8 list option) \<Rightarrow> QuicConn \<Rightarrow> u64 \<Rightarrow> bool \<times> QuicLocalCid \<times> QuicConn" where
  "cidGenerate rnd c sq =
     (case (if c_localCidLen c > 0 then draw rnd (c_localCidLen c) c else (Some [], c)) of
        (None, c1) \<Rightarrow> (False, localCidZero\<lparr>lc_cid := replicate (c_localCidLen c) 0\<rparr>, c1)
      | (Some cid, c1) \<Rightarrow>
          case draw rnd QUIC_RESET_TOKEN_LEN c1 of
            (None, c2) \<Rightarrow> (False, localCidZero\<lparr>lc_cid := cid\<rparr>, c2)
          | (Some tok, c2) \<Rightarrow>
              (True, localCidZero\<lparr>lc_cid := cid, lc_resetToken := tok, lc_seq := sq, lc_live := True,
                 lc_announce := \<lparr>ctl_pn = QUIC_PN_NONE, ctl_state = QUIC_CTL_PENDING\<rparr>\<rparr>, c2))"

definition cidLocalActive :: "QuicConn \<Rightarrow> nat" where
  "cidLocalActive c = length (filter (\<lambda>l. lc_live l \<and> \<not> lc_retired l) (c_local c))"

definition cidLocalWanted :: "QuicConn \<Rightarrow> nat" where
  "cidLocalWanted c =
     (if c_localCidLen c = 0 \<or> \<not> c_peerTpValid c then 1
      else
        let want = unat (tp_activeCidLimit (c_peerTp c)) in
        if want > QUIC_MAX_CIDS then QUIC_MAX_CIDS else want)"

text \<open>The loop of \<^verbatim>\<open>cidReplenish\<close> over the slots from \<open>i\<close> on.\<close>

function cidReplenishFrom ::
  "(nat \<Rightarrow> nat \<Rightarrow> u8 list option) \<Rightarrow> nat \<Rightarrow> nat \<Rightarrow> QuicConn \<Rightarrow> QuicConn" where
  "cidReplenishFrom rnd want i c =
     (if i < QUIC_MAX_CIDS \<and> cidLocalActive c < want then
        if lc_live (c_local c ! i) then cidReplenishFrom rnd want (i + 1) c
        else
          case cidGenerate rnd c (c_localNextSeq c) of
            (False, l, c1) \<Rightarrow> c1\<lparr>c_local := (c_local c1)[i := l]\<rparr>
          | (True, l, c1) \<Rightarrow>
              cidReplenishFrom rnd want (i + 1)
                (c1\<lparr>c_local := (c_local c1)[i := l], c_localNextSeq := c_localNextSeq c1 + 1\<rparr>)
      else c)"
  by pat_completeness auto
termination
  by (relation "measure (\<lambda>(rnd, want, i, c). QUIC_MAX_CIDS - i)") auto

declare cidReplenishFrom.simps [simp del]

definition cidReplenish :: "(nat \<Rightarrow> nat \<Rightarrow> u8 list option) \<Rightarrow> QuicConn \<Rightarrow> QuicConn" where
  "cidReplenish rnd c = cidReplenishFrom rnd (cidLocalWanted c) 0 c"

definition cidRetireLocal :: "(nat \<Rightarrow> nat \<Rightarrow> u8 list option) \<Rightarrow> QuicConn \<Rightarrow> u64 \<Rightarrow> QuicConn" where
  "cidRetireLocal rnd c sq =
     (let c1 = (case find (\<lambda>i. lc_live (c_local c ! i) \<and> lc_seq (c_local c ! i) = sq)
                       [0..<length (c_local c)] of
                  None \<Rightarrow> c
                | Some i \<Rightarrow>
                    let c2 = fireHook HookCidRetired (EvCidRetired (lc_cid (c_local c ! i)) sq) c
                    in c2\<lparr>c_local := (c_local c2)[i := localCidZero]\<rparr>)
      in cidReplenish rnd c1)"

definition cidQueueRetire :: "QuicConn \<Rightarrow> u64 \<Rightarrow> QuicConn" where
  "cidQueueRetire c sq =
     (if sq \<in> set (map fst (c_retireQueue c)) then c
      else if length (c_retireQueue c) < QUIC_MAX_CIDS
      then c\<lparr>c_retireQueue := c_retireQueue c @ [(sq, quicCtlQueue ctlZero)]\<rparr>
      else c)"

end
