(* ===== verification/QuicConnFrames.thy ===== *)
theory QuicConnFrames
  imports QuicConn
begin

text \<open>
  What arrives at a connection: acknowledgements and what loss recovery reports back, the frame
  handlers and the frame loop, paths and migration, Retry and Version Negotiation, the callbacks
  of the TLS handshake, unreliable datagrams and the timers of \<^verbatim>\<open>src/cxquic/conn.c\<close>.

  The handlers that reach the stream layer are the ones \<^verbatim>\<open>src/cxquic/quicsocket.c\<close> installs; a
  connection without them (\<open>c_hooks\<close>) does what \<^verbatim>\<open>conn.c\<close> does then.

  Loss recovery calls back into the connection through \<open>conn_handlers\<close>. Inside these callbacks
  \<^verbatim>\<open>c->recov\<close> is the recovery state being worked on, which is why the model hands it over; the one
  change the callbacks make to it, a new datagram size, is their first result.
\<close>

section \<open>The handlers of the stream layer\<close>

definition onStreamOpened :: "StreamEvent list \<Rightarrow> bool" where
  "onStreamOpened events = True"

definition onConnFrame :: "xalloc \<Rightarrow> QuicFrame \<Rightarrow> QuicConn \<Rightarrow> bool \<times> QuicConn" where
  "onConnFrame xa f c =
     (case c_streams c of
        None \<Rightarrow> (True, c)
      | Some ss \<Rightarrow>
          case quicStreamsFrame xa onStreamOpened ss f of
            (ok, ss1) \<Rightarrow>
              let c1 = c\<lparr>c_streams := Some ss1\<rparr> in
              if ok then (True, c1) else (False, quicConnAbort c1 (ss_error ss1) (ss_errorFrame ss1)))"

definition onConnFill :: "nat \<Rightarrow> u64 \<Rightarrow> QuicConn \<Rightarrow> u8 list \<times> bool \<times> QuicConn" where
  "onConnFill bufsz pn c =
     (case c_streams c of
        None \<Rightarrow> ([], False, c)
      | Some ss \<Rightarrow>
          case quicStreamsFill ss bufsz pn of (out, eliciting, ss1) \<Rightarrow> (out, eliciting, c\<lparr>c_streams := Some ss1\<rparr>))"

definition onConnPktAcked :: "u64 \<Rightarrow> QuicConn \<Rightarrow> QuicConn" where
  "onConnPktAcked pn c = c\<lparr>c_streams := map_option (\<lambda>ss. quicStreamsAcked ss pn) (c_streams c)\<rparr>"

definition onConnPktLost :: "u64 \<Rightarrow> QuicConn \<Rightarrow> QuicConn" where
  "onConnPktLost pn c = c\<lparr>c_streams := map_option (\<lambda>ss. quicStreamsLost ss pn) (c_streams c)\<rparr>"

definition onConnWantsToSend :: "QuicConn \<Rightarrow> bool" where
  "onConnWantsToSend c = (case c_streams c of None \<Rightarrow> False | Some ss \<Rightarrow> quicStreamsWantsToSend ss)"

text \<open>The parameters are the ones given, or the peer's own when none are.\<close>

definition onConnEarlyOpen :: "QuicTransportParams option \<Rightarrow> QuicConn \<Rightarrow> bool \<times> QuicConn" where
  "onConnEarlyOpen tp c =
     (case c_streams c of
        None \<Rightarrow> (False, c)
      | Some ss \<Rightarrow>
          if c_engConnected c then (False, c)
          else (True, c\<lparr>c_streams := Some (quicStreamsPeerParams ss (case tp of Some t \<Rightarrow> t | None \<Rightarrow> c_peerTp c)),
                        c_streamsUp := True, c_engConnected := True,
                        c_events := c_events c @ [EvEarlyOpen]\<rparr>))"

definition onConnConnected :: "QuicConn \<Rightarrow> QuicConn" where
  "onConnConnected c =
     (let c1 = (case c_streams c of
                  None \<Rightarrow> c
                | Some ss \<Rightarrow> c\<lparr>c_streams := Some (quicStreamsPeerParams ss (c_peerTp c)), c_streamsUp := True\<rparr>)
      in c1\<lparr>c_engConnected := True, c_events := c_events c1 @ [EvConnected]\<rparr>)"


section \<open>What loss recovery reports back\<close>

text \<open>
  Each of the two handlers first settles what a packet of any space carried (handshake bytes, the
  acknowledgement, the ECN mark), and in the application space then the control frames.
\<close>

definition ackedSpace :: "QuicRecovery \<Rightarrow> QuicPnSpaceId \<Rightarrow> nat \<Rightarrow> QuicPnSpace \<Rightarrow> QuicPnSpace" where
  "ackedSpace r sp pn0 s =
     (let pn = of_nat pn0 :: u64;
          s1 = s\<lparr>ps_cryptoOut := quicSendBufAcked (ps_cryptoOut s) pn\<rparr>;
          s2 = (if as_sentPn (ps_ack s1) = pn
                then s1\<lparr>ps_ack := (ps_ack s1)\<lparr>as_sentPn := QUIC_PN_NONE\<rparr>\<rparr> else s1)
      in if quicRecovMarksOf r sp pn0 AND 0x01 \<noteq> 0
         then s2\<lparr>ps_ecnAckedMarked := ps_ecnAckedMarked s2 + 1\<rparr> else s2)"

definition ackedCtl :: "u64 \<Rightarrow> QuicConn \<Rightarrow> QuicConn" where
  "ackedCtl pn c =
     c\<lparr>c_handshakeDone := snd (quicCtlAcked (c_handshakeDone c) pn),
       c_pathResponse := snd (quicCtlAcked (c_pathResponse c) pn),
       c_pathChallenge := snd (quicCtlAcked (c_pathChallenge c) pn),
       c_local := map (\<lambda>l. l\<lparr>lc_announce := snd (quicCtlAcked (lc_announce l) pn)\<rparr>) (c_local c),
       c_retireQueue := filter (\<lambda>(sq, ctl). \<not> fst (quicCtlAcked ctl pn)) (c_retireQueue c)\<rparr>"

definition connPktAcked :: "u64 \<Rightarrow> QuicConn \<Rightarrow> QuicConn" where
  "connPktAcked pn c = (if c_hooks c HookPktAcked then onConnPktAcked pn c else c)"

definition connPktLost :: "u64 \<Rightarrow> QuicConn \<Rightarrow> QuicConn" where
  "connPktLost pn c = (if c_hooks c HookPktLost then onConnPktLost pn c else c)"

definition connOnAcked :: "QuicPnSpaceId \<Rightarrow> nat \<Rightarrow> QuicRecovery \<Rightarrow> QuicConn \<Rightarrow> nat \<times> QuicConn" where
  "connOnAcked sp pn0 r c0 =
     (let pn = of_nat pn0 :: u64;
          c = c0\<lparr>c_recov := r\<rparr>;
          c1 = setSpace sp (ackedSpace r sp pn0 (c_pns c sp)) c;
          c2 = (if sp = QUIC_PNS_APP \<and> pn \<ge> c_txPhaseFirst c1
                then c1\<lparr>c_keyPhaseAcked := True\<rparr> else c1)
      in if sp \<noteq> QUIC_PNS_APP then (0, c2)
         else if pn = c_mtuProbePn c2
         then (if c_mtuProbing c2 > c_mtuLow c2 then c_mtuProbing c2 else 0,
               ackedCtl pn (connPktAcked pn (mtuProbeAcked (c2\<lparr>c_mtuProbePn := QUIC_PN_NONE\<rparr>)
                 (c_mtuProbing c2) (c_now c2))))
         else (0, ackedCtl pn (connPktAcked pn c2)))"

definition lostSpace :: "u64 \<Rightarrow> QuicPnSpace \<Rightarrow> QuicPnSpace" where
  "lostSpace pn s =
     (let s1 = s\<lparr>ps_cryptoOut := quicSendBufLost (ps_cryptoOut s) pn\<rparr>;
          a = ps_ack s1
      in if as_sentPn a = pn
         then s1\<lparr>ps_ack := (if as_ranges a \<noteq> []
                   then a\<lparr>as_sentPn := QUIC_PN_NONE, as_pending := True, as_deadline := 0\<rparr>
                   else a\<lparr>as_sentPn := QUIC_PN_NONE\<rparr>)\<rparr> else s1)"

definition lostCtl :: "u64 \<Rightarrow> QuicConn \<Rightarrow> QuicConn" where
  "lostCtl pn c =
     c\<lparr>c_handshakeDone := snd (quicCtlLost (c_handshakeDone c) pn),
       c_pathResponse := snd (quicCtlLost (c_pathResponse c) pn),
       c_pathChallenge := snd (quicCtlLost (c_pathChallenge c) pn),
       c_local := map (\<lambda>l. l\<lparr>lc_announce := snd (quicCtlLost (lc_announce l) pn)\<rparr>) (c_local c),
       c_retireQueue := map (\<lambda>(sq, ctl). (sq, snd (quicCtlLost ctl pn))) (c_retireQueue c)\<rparr>"

definition connOnLost :: "QuicPnSpaceId \<Rightarrow> nat \<Rightarrow> QuicRecovery \<Rightarrow> QuicConn \<Rightarrow> nat \<times> QuicConn" where
  "connOnLost sp pn0 r c0 =
     (let pn = of_nat pn0 :: u64;
          c = c0\<lparr>c_recov := r\<rparr>;
          c1 = setSpace sp (lostSpace pn (c_pns c sp)) c
      in if sp \<noteq> QUIC_PNS_APP then (0, c1)
         else if pn = c_mtuProbePn c1
         then (0, mtuProbeLost (c1\<lparr>c_mtuProbePn := QUIC_PN_NONE\<rparr>) (c_mtuProbing c1) (c_now c1))
         else (0, lostCtl pn (connPktLost pn c1)))"

definition conn_handlers :: "QuicConn QuicRecovHandlers" where
  "conn_handlers = \<lparr>rh_acked = Some connOnAcked, rh_lost = Some connOnLost\<rparr>"


section \<open>Acknowledgements\<close>

definition ecnOnAck :: "QuicConn \<Rightarrow> QuicPnSpaceId \<Rightarrow> QuicFrame \<Rightarrow> int \<Rightarrow> QuicConn" where
  "ecnOnAck c sp f now =
     (let s = c_pns c sp in
      if c_ecnState c = QUIC_ECN_OFF then c
      else
        case ackEcn f of
          None \<Rightarrow> (if ps_ecnAckedMarked s > 0 then c\<lparr>c_ecnState := QUIC_ECN_OFF\<rparr> else c)
        | Some (ect0, ect1, ce) \<Rightarrow>
            if ect0 < ps_ecnEct0 s \<or> ect1 < ps_ecnEct1 s \<or> ce < ps_ecnCe s
            then c\<lparr>c_ecnState := QUIC_ECN_OFF\<rparr>
            else
              let dEct0 = ect0 - ps_ecnEct0 s; dCe = ce - ps_ecnCe s in
              if dEct0 + dCe < ps_ecnAckedMarked s then c\<lparr>c_ecnState := QUIC_ECN_OFF\<rparr>
              else
                let c1 = setSpace sp (s\<lparr>ps_ecnEct0 := ect0, ps_ecnEct1 := ect1, ps_ecnCe := ce\<rparr>) c;
                    c2 = (if dEct0 + dCe > 0 then c1\<lparr>c_ecnState := QUIC_ECN_ON\<rparr> else c1)
                in if dCe > 0
                   then c2\<lparr>c_recov := quicRecovOnEcnCe sp (unat (ackLargest f)) now (c_recov c2)\<rparr>
                   else c2)"

text \<open>\<open>None\<close> when the window growth of loss recovery does not return.\<close>

definition handleAck :: "QuicConn \<Rightarrow> QuicPnSpaceId \<Rightarrow> QuicFrame \<Rightarrow> int \<Rightarrow> (bool \<times> QuicConn) option" where
  "handleAck c sp f now =
     (case quicAckIterInit f of
        None \<Rightarrow> Some (False, quicConnAbort c QUIC_ERR_FRAME_ENCODING_ERROR (frameType f))
      | Some it \<Rightarrow>
          case ack_ranges it of
            (ranges, it1) \<Rightarrow>
              if list_ex (\<lambda>r. ar_largest r \<ge> ps_next (c_pns c sp)) ranges
              then Some (False, quicConnAbort c QUIC_ERR_PROTOCOL_VIOLATION (frameType f))
              else if it_bad it1
              then Some (False, quicConnAbort c QUIC_ERR_FRAME_ENCODING_ERROR (frameType f))
              else
                let s = c_pns c sp;
                    s1 = (if ps_largestAcked s = QUIC_PN_NONE \<or> ackLargest f > ps_largestAcked s
                          then s\<lparr>ps_largestAcked := ackLargest f\<rparr> else s);
                    ex0 = (if sp = QUIC_PNS_APP then unat (tp_ackDelayExponent (c_localTp c))
                           else QUIC_HS_ACK_DELAY_EXP);
                    ex = (if ex0 > 20 then 20 else ex0);
                    delay = (if ackDelay f > push_bit 32 1 then push_bit 32 1 else ackDelay f);
                    c1 = setSpace sp (s1\<lparr>ps_ecnAckedMarked := 0\<rparr>) c
                in case quicRecovOnAck conn_handlers sp f (sint (push_bit ex delay)) now
                          (c_recov c1, c1) of
                     None \<Rightarrow> None
                   | Some (ok, r, c2) \<Rightarrow>
                       let c3 = c2\<lparr>c_recov := r\<rparr> in
                       if \<not> ok
                       then Some (False, quicConnAbort c3 QUIC_ERR_FRAME_ENCODING_ERROR (frameType f))
                       else Some (True, ecnOnAck c3 sp f now))"


section \<open>Connection ID frames\<close>

text \<open>The loop that retires every ID below the new limit, slot by slot.\<close>

definition retireBelow :: "QuicConn \<Rightarrow> nat \<Rightarrow> QuicConn" where
  "retireBelow c i =
     (if \<not> rc_live (c_remote c ! i) \<or> rc_seq (c_remote c ! i) \<ge> c_remoteRetirePrior c then c
      else
        let c1 = cidQueueRetire c (rc_seq (c_remote c ! i))
        in c1\<lparr>c_remote := (c_remote c1)[i := remoteCidZero]\<rparr>)"

definition handleNewConnId ::
  "QuicConn \<Rightarrow> u64 \<Rightarrow> u64 \<Rightarrow> QuicCid \<Rightarrow> u8 list \<Rightarrow> u64 \<Rightarrow> bool \<times> QuicConn" where
  "handleNewConnId c sq retirePrior cid token ftype =
     (if rc_cid (c_remote c ! c_remoteActive c) = []
      then (False, quicConnAbort c QUIC_ERR_PROTOCOL_VIOLATION ftype)
      else
        let c1 = (if retirePrior > c_remoteRetirePrior c
                  then foldl retireBelow (c\<lparr>c_remoteRetirePrior := retirePrior\<rparr>) [0..<QUIC_MAX_CIDS]
                  else c);
            pickActive = (\<lambda>c. if \<not> rc_live (c_remote c ! c_remoteActive c)
               then case find (\<lambda>i. rc_live (c_remote c ! i)) [0..<QUIC_MAX_CIDS] of
                      None \<Rightarrow> c | Some i \<Rightarrow> c\<lparr>c_remoteActive := i\<rparr>
               else c)
        in if sq < c_remoteRetirePrior c1 then (True, pickActive (cidQueueRetire c1 sq))
           else
             case find (\<lambda>i. rc_live (c_remote c1 ! i) \<and> rc_seq (c_remote c1 ! i) = sq)
                    [0..<QUIC_MAX_CIDS] of
               Some i \<Rightarrow>
                 (if \<not> cidEq (rc_cid (c_remote c1 ! i)) cid
                  then (False, quicConnAbort c1 QUIC_ERR_PROTOCOL_VIOLATION ftype)
                  else (True, c1))
             | None \<Rightarrow>
                 case find (\<lambda>i. \<not> rc_live (c_remote c1 ! i)) [0..<QUIC_MAX_CIDS] of
                   None \<Rightarrow> (False, quicConnAbort c1 QUIC_ERR_CONNECTION_ID_LIMIT_ERROR ftype)
                 | Some slot \<Rightarrow>
                     (True, pickActive (c1\<lparr>c_remote := (c_remote c1)[slot :=
                        \<lparr>rc_cid = cid, rc_seq = sq, rc_resetToken = token, rc_haveToken = True,
                         rc_live = True\<rparr>]\<rparr>)))"

definition handleRetireConnId ::
  "(nat \<Rightarrow> nat \<Rightarrow> u8 list option) \<Rightarrow> QuicConn \<Rightarrow> u64 \<Rightarrow> QuicPktHdr \<Rightarrow> u64 \<Rightarrow> bool \<times> QuicConn" where
  "handleRetireConnId rnd c sq h ftype =
     (if sq \<ge> c_localNextSeq c then (False, quicConnAbort c QUIC_ERR_PROTOCOL_VIOLATION ftype)
      else if list_ex (\<lambda>l. lc_live l \<and> lc_seq l = sq \<and> cidEq (lc_cid l) (h_dcid h)) (c_local c)
      then (False, quicConnAbort c QUIC_ERR_PROTOCOL_VIOLATION ftype)
      else (True, cidRetireLocal rnd c sq))"


section \<open>Frames\<close>

text \<open>The type numbers the classifications are made of.\<close>

definition frameAllowed :: "u64 \<Rightarrow> QuicPnSpaceId \<Rightarrow> bool \<Rightarrow> bool" where
  "frameAllowed ty sp early =
     (if sp = QUIC_PNS_APP then
        if \<not> early then True else ty \<notin> {0x02, 0x03, 0x06, 0x07, 0x1b, 0x1e}
      else ty \<in> {0x00, 0x01, 0x02, 0x03, 0x06, 0x1c})"

definition frameElicits :: "u64 \<Rightarrow> bool" where
  "frameElicits ty \<longleftrightarrow> ty \<notin> {0x00, 0x02, 0x03, 0x1c, 0x1d}"

definition frameIsProbing :: "u64 \<Rightarrow> bool" where
  "frameIsProbing ty \<longleftrightarrow> ty \<in> {0x00, 0x1a, 0x1b, 0x18}"

definition handleStreamFrame :: "xalloc \<Rightarrow> QuicConn \<Rightarrow> QuicFrame \<Rightarrow> bool \<times> QuicConn" where
  "handleStreamFrame xa c f =
     (if c_hooks c HookFrame then
        case onConnFrame xa f c of
          (True, c1) \<Rightarrow> (True, c1)
        | (False, c1) \<Rightarrow>
            (False, if c_state c1 \<noteq> QUIC_CS_CLOSING
                    then quicConnAbort c1 QUIC_ERR_INTERNAL_ERROR (frameType f) else c1)
      else if frameType f \<in> {0x10, 0x14, 0x12, 0x13, 0x16, 0x17} then (True, c)
      else (False, quicConnAbort c QUIC_ERR_STREAM_LIMIT_ERROR (frameType f)))"

definition handleConnClose :: "QuicConn \<Rightarrow> QuicFrame \<Rightarrow> u64 \<Rightarrow> u8 list \<Rightarrow> int \<Rightarrow> QuicConn" where
  "handleConnClose c f err reason now =
     (let announce = (c_state c \<noteq> QUIC_CS_DRAINING \<and> c_state c \<noteq> QUIC_CS_CLOSED);
          c1 = c\<lparr>c_state := QUIC_CS_DRAINING, c_closePending := False,
                 c_closeDeadline := now + 3 * QUIC_INITIAL_RTT\<rparr>
      in if announce
         then connNotifyClosed (c1\<lparr>c_closeError := err, c_closeApp := (frameType f = 0x1d),
                c_closeLocal := False, c_closeReason := reason\<rparr>)
         else c1)"

definition handleDatagram :: "QuicConn \<Rightarrow> QuicFrame \<Rightarrow> u8 list \<Rightarrow> bool \<times> QuicConn" where
  "handleDatagram c f data =
     (let size0 = of_nat (quicVarintSize (frameType f)) + of_nat (length data) :: u64;
          frameSize = (if frameType f = 0x31
                       then size0 + of_nat (quicVarintSize (of_nat (length data))) else size0)
      in if tp_maxDatagramFrame (c_localTp c) = 0 \<or> frameSize > tp_maxDatagramFrame (c_localTp c)
         then (False, quicConnAbort c QUIC_ERR_PROTOCOL_VIOLATION (frameType f))
         else (True, fireHook HookDatagramRecv (EvDatagramRecv data) c))"

definition handleFrame ::
  "xalloc \<Rightarrow> (nat \<Rightarrow> nat \<Rightarrow> u8 list option) \<Rightarrow> QuicConn \<Rightarrow> QuicPnSpaceId
     \<Rightarrow> QuicFrame \<Rightarrow> QuicPktHdr \<Rightarrow> int \<Rightarrow> (bool \<times> QuicConn) option" where
  "handleFrame xa rnd c sp f h now =
     (case f of
        FPadding n \<Rightarrow> Some (True, c)
      | FPing \<Rightarrow> Some (True, c)
      | FAck _ _ _ _ _ _ \<Rightarrow> handleAck c sp f now
      | FCrypto off data \<Rightarrow>
          (case quicReasmAdd xa (ps_cryptoIn (c_pns c sp)) off data of
             (ok, ra) \<Rightarrow>
               let c1 = setSpace sp ((c_pns c sp)\<lparr>ps_cryptoIn := ra\<rparr>) c in
               if \<not> ok
               then Some (False, quicConnAbort c1 QUIC_ERR_CRYPTO_BUFFER_EXCEEDED (frameType f))
               else Some (True, c1))
      | FNewToken tok \<Rightarrow>
          if c_server c \<or> tok = []
          then Some (False, quicConnAbort c (if c_server c then QUIC_ERR_PROTOCOL_VIOLATION
                                             else QUIC_ERR_FRAME_ENCODING_ERROR) (frameType f))
          else Some (True, fireHook HookToken (EvToken tok) c)
      | FNewConnId sq rp cid tok \<Rightarrow> Some (handleNewConnId c sq rp cid tok (frameType f))
      | FRetireConnId sq \<Rightarrow> Some (handleRetireConnId rnd c sq h (frameType f))
      | FPath resp data \<Rightarrow>
          if \<not> resp
          then Some (True, c\<lparr>c_pathResponseData := data, c_pathResponse := quicCtlQueue (c_pathResponse c),
                             c_respondElsewhere := False\<rparr>)
          else if data = c_pathChallengeData c
          then Some (True, c\<lparr>c_pathValidated := True, c_pathDeadline := 0, c_havePrev := False\<rparr>)
          else Some (True, c)
      | FDatagram len data \<Rightarrow> Some (handleDatagram c f data)
      | FConnClose err ft reason \<Rightarrow> Some (True, handleConnClose c f err reason now)
      | FHandshakeDone \<Rightarrow>
          if c_server c then Some (False, quicConnAbort c QUIC_ERR_PROTOCOL_VIOLATION (frameType f))
          else if \<not> c_handshakeConfirmed c then
            let c1 = c\<lparr>c_handshakeConfirmed := True, c_pathValidated := True,
                       c_recov := quicRecovConfirmHandshake now (c_recov c)\<rparr>
            in Some (True, cidReplenish rnd (spaceDiscard c1 QUIC_PNS_HANDSHAKE now))
          else Some (True, c)
      | _ \<Rightarrow> Some (handleStreamFrame xa c f))"


text \<open>
  The loop of \<^verbatim>\<open>processFrames\<close>. The flags are the ones the loop updates: whether a frame was seen,
  whether one asks for an acknowledgement, whether all were probing. It ends in one of four ways.
\<close>

datatype frames_end =
    FramesFail QuicConn bool bool
  | FramesStop QuicConn bool bool
  | FramesDone QuicConn QuicRd bool bool bool

function framesLoop ::
  "xalloc \<Rightarrow> (nat \<Rightarrow> nat \<Rightarrow> u8 list option) \<Rightarrow> QuicPnSpaceId \<Rightarrow> QuicPktHdr \<Rightarrow> int
     \<Rightarrow> QuicConn \<Rightarrow> QuicRd \<Rightarrow> bool \<Rightarrow> bool \<Rightarrow> bool \<Rightarrow> frames_end option" where
  "framesLoop xa rnd sp h now c rd seen eliciting probing =
     (case quicFrameDecode rd of
        (None, rd1) \<Rightarrow> Some (FramesDone c rd1 seen eliciting probing)
      | (Some f, rd1) \<Rightarrow>
          if \<not> frameAllowed (frameType f) sp (h_type h = QUIC_PKT_0RTT)
          then Some (FramesFail (quicConnAbort c QUIC_ERR_PROTOCOL_VIOLATION (frameType f)) eliciting probing)
          else
            let eliciting1 = (eliciting \<or> frameElicits (frameType f));
                probing1 = (probing \<and> frameIsProbing (frameType f))
            in case handleFrame xa rnd c sp f h now of
                 None \<Rightarrow> None
               | Some (False, c1) \<Rightarrow> Some (FramesFail c1 eliciting1 probing1)
               | Some (True, c1) \<Rightarrow>
                   if c_state c1 = QUIC_CS_DRAINING \<or> c_state c1 = QUIC_CS_CLOSED
                   then Some (FramesStop c1 eliciting1 probing1)
                   else framesLoop xa rnd sp h now c1 rd1 True eliciting1 probing1)"
  by pat_completeness auto
termination
proof (relation "measure (\<lambda>(xa, rnd, sp, h, now, c, rd, rest). length (rd_buf rd) - rd_p rd)", goal_cases)
  case (2 xa rnd sp h now c rd seen eliciting probing fo rd1 f)
  then have r: "quicFrameDecode rd = (Some f, rd1)" by metis
  then have wf: "rd_wf rd" "rd_p rd < length (rd_buf rd)"
    by (auto simp: quicFrameDecode_def rd_wf_def quicRdLeft_def split: if_splits)
  have "rd_p rd < rd_p rd1" by (rule quicFrameDecode_ok(2) [OF wf(1) r])
  moreover have "rd_buf rd1 = rd_buf rd"
    using quicFrameDecode_ok(1) [OF wf(1)] by (simp add: r dec_ok_def rd_step_def)
  ultimately show ?case using wf(2) by simp
qed simp

declare framesLoop.simps [simp del]

text \<open>
  The result: whether frame processing goes on, the connection, whether the packet has to be
  acknowledged, and whether it was made of probing frames only.
\<close>

definition processFrames ::
  "xalloc \<Rightarrow> (nat \<Rightarrow> nat \<Rightarrow> u8 list option) \<Rightarrow> QuicConn \<Rightarrow> QuicPnSpaceId
     \<Rightarrow> u8 list \<Rightarrow> QuicPktHdr \<Rightarrow> bool \<Rightarrow> int \<Rightarrow> (bool \<times> QuicConn \<times> bool \<times> bool) option" where
  "processFrames xa rnd c sp payload h probing now =
     (case framesLoop xa rnd sp h now c (quicRdInit payload) False False probing of
        None \<Rightarrow> None
      | Some (FramesFail c1 el pr) \<Rightarrow> Some (False, c1, el, pr)
      | Some (FramesStop c1 el pr) \<Rightarrow> Some (True, c1, el, pr)
      | Some (FramesDone c1 rd seen el pr) \<Rightarrow>
          if rd_bad rd \<or> quicRdLeft rd > 0
          then Some (False, quicConnAbort c1 QUIC_ERR_FRAME_ENCODING_ERROR 0, el, pr)
          else if \<not> seen then Some (False, quicConnAbort c1 QUIC_ERR_PROTOCOL_VIOLATION 0, el, pr)
          else Some (True, c1, el, pr))"


section \<open>Paths\<close>

definition quicConnValidatePath :: "(nat \<Rightarrow> nat \<Rightarrow> u8 list option) \<Rightarrow> QuicConn \<Rightarrow> QuicConn" where
  "quicConnValidatePath rnd c =
     (case draw rnd QUIC_PATH_DATA_LEN c of
        (None, c1) \<Rightarrow> c1
      | (Some data, c1) \<Rightarrow>
          c1\<lparr>c_pathChallengeData := data, c_pathChallenge := quicCtlQueue (c_pathChallenge c1),
             c_pathValidated := False\<rparr>)"

definition ecnReset :: "QuicPnSpace \<Rightarrow> QuicPnSpace" where
  "ecnReset s = s\<lparr>ps_ecnEct0 := 0, ps_ecnEct1 := 0, ps_ecnCe := 0, ps_ecnAckedMarked := 0\<rparr>"

definition pathSwitch ::
  "(nat \<Rightarrow> nat \<Rightarrow> u8 list option) \<Rightarrow> QuicConn \<Rightarrow> NetAddr \<Rightarrow> NetAddr option \<Rightarrow> bool \<Rightarrow> int \<Rightarrow> QuicConn"
where
  "pathSwitch rnd c peer loc peerChose now =
     (let c1 = c\<lparr>c_prevPeer := c_peer c, c_prevLocalAddr := c_localAddr c,
                 c_prevHaveLocal := c_haveLocal c, c_havePrev := True, c_peer := peer,
                 c_localAddr := (case loc of None \<Rightarrow> c_localAddr c | Some a \<Rightarrow> a),
                 c_haveLocal := (loc \<noteq> None),
                 c_pathValidated := False, c_pathSent := 0, c_pathRecv := 0,
                 c_pathAmpLimited := peerChose, c_nmigrations := c_nmigrations c + 1,
                 c_mtu := QUIC_INITIAL_MTU, c_mtuState := QUIC_MTU_IDLE, c_mtuProbing := 0,
                 c_mtuProbePn := QUIC_PN_NONE, c_mtuTries := 0, c_mtuRaiseAt := 0\<rparr>;
          c2 = c1\<lparr>c_recov := quicRecovOnPathChange
                              (quicRecovSetMaxDatagram QUIC_INITIAL_MTU (c_recov c1))\<rparr>;
          c3 = c2\<lparr>c_ecnState := QUIC_ECN_TESTING, c_ecnTestPkts := QUIC_ECN_TEST_PKTS,
                  c_pns := (\<lambda>sp. ecnReset (c_pns c2 sp))\<rparr>;
          c4 = quicConnValidatePath rnd c3
      in c4\<lparr>c_pathDeadline := now + 3 * quicRecovPto (c_recov c4)\<rparr>)"

definition spareRemote :: "QuicConn \<Rightarrow> nat option" where
  "spareRemote c = find (\<lambda>i. i \<noteq> c_remoteActive c \<and> rc_live (c_remote c ! i)) [0..<QUIC_MAX_CIDS]"

definition connPeerMoved ::
  "(nat \<Rightarrow> nat \<Rightarrow> u8 list option) \<Rightarrow> QuicConn \<Rightarrow> NetAddr \<Rightarrow> NetAddr option \<Rightarrow> bool \<Rightarrow> bool \<Rightarrow> int \<Rightarrow> QuicConn"
where
  "connPeerMoved rnd c peer loc probing newest now =
     (if probing then c\<lparr>c_respondTo := peer, c_respondElsewhere := True\<rparr>
      else if \<not> newest then c
      else if \<not> c_server c then c
      else if \<not> c_handshakeConfirmed c then c
      else
        let c1 = pathSwitch rnd c peer loc True now in
        case spareRemote c1 of None \<Rightarrow> c1 | Some i \<Rightarrow> c1\<lparr>c_remoteActive := i\<rparr>)"

definition pathValidationFailed :: "QuicConn \<Rightarrow> int \<Rightarrow> QuicConn" where
  "pathValidationFailed c0 now =
     (let c = c0\<lparr>c_pathDeadline := 0\<rparr> in
      if \<not> c_havePrev c
      then connSilentClose c QUIC_ERR_NO_VIABLE_PATH (str_bytes ''path validation failed'')
      else
        let c1 = c\<lparr>c_peer := c_prevPeer c, c_localAddr := c_prevLocalAddr c,
                   c_haveLocal := c_prevHaveLocal c, c_havePrev := False, c_pathValidated := True,
                   c_pathSent := 0, c_pathRecv := 0, c_pathAmpLimited := False\<rparr>
        in c1\<lparr>c_recov := quicRecovOnPathChange (c_recov c1)\<rparr>)"

definition quicConnMigrate :: "(nat \<Rightarrow> nat \<Rightarrow> u8 list option) \<Rightarrow> QuicConn \<Rightarrow> int \<Rightarrow> bool \<times> QuicConn" where
  "quicConnMigrate rnd c now =
     (if c_state c \<noteq> QUIC_CS_CONNECTED \<or> \<not> c_handshakeConfirmed c then (False, c)
      else if c_peerTpValid c \<and> tp_disableMigration (c_peerTp c) then (False, c)
      else
        case spareRemote c of
          None \<Rightarrow> (False, c)
        | Some nxt \<Rightarrow>
            (True, (pathSwitch rnd c (c_peer c) None False now)\<lparr>c_remoteActive := nxt, c_havePrev := False\<rparr>))"


section \<open>Packets outside the handshake's protection\<close>

definition checkStatelessReset :: "QuicConn \<Rightarrow> u8 list \<Rightarrow> bool \<times> QuicConn" where
  "checkStatelessReset c data =
     (if length data < 21 + QUIC_RESET_TOKEN_LEN then (False, c)
      else
        let tok = drop (length data - QUIC_RESET_TOKEN_LEN) data in
        if list_ex (\<lambda>r. rc_live r \<and> rc_haveToken r \<and> tok = rc_resetToken r) (c_remote c)
        then (True, connSilentClose c QUIC_ERR_NO_ERROR (str_bytes ''stateless reset''))
        else (False, c))"

text \<open>The versions listed in a Version Negotiation payload, big-endian.\<close>

fun payloadVersions :: "u8 list \<Rightarrow> u32 list" where
  "payloadVersions (b0 # b1 # b2 # b3 # rest) =
     (push_bit 24 (ucast b0) OR push_bit 16 (ucast b1) OR push_bit 8 (ucast b2) OR ucast b3)
       # payloadVersions rest"
| "payloadVersions _ = []"

definition handleVersionNeg :: "QuicConn \<Rightarrow> QuicPktHdr \<Rightarrow> QuicConn" where
  "handleVersionNeg c h =
     (if c_server c \<or> as_largest (ps_ack (c_pns c QUIC_PNS_INITIAL)) \<noteq> QUIC_PN_NONE then c
      else if \<not> cidEq (h_dcid h) (lc_cid (c_local c ! 0))
              \<or> \<not> cidEq (h_scid h) (rc_cid (c_remote c ! c_remoteActive c)) then c
      else if c_version c \<in> set (payloadVersions (h_payload h)) then c
      else connSilentClose c QUIC_ERR_CONNECTION_REFUSED
             (str_bytes ''no mutually supported QUIC version''))"

text \<open>
  \<open>pkt\<close> is the whole Retry packet. Storing the token can fail only when the allocator does, and
  then no token is kept.
\<close>

definition handleRetry :: "psa \<Rightarrow> xalloc \<Rightarrow> QuicConn \<Rightarrow> QuicPktHdr \<Rightarrow> u8 list \<Rightarrow> QuicConn" where
  "handleRetry P xa c h pkt =
     (if c_server c \<or> c_haveRetry c
         \<or> as_largest (ps_ack (c_pns c QUIC_PNS_INITIAL)) \<noteq> QUIC_PN_NONE then c
      else if h_token h = [] \<or> length pkt < QUIC_TAG_LEN then c
      else
        case quicRetryTag P (c_origDcid c) (take (length pkt - QUIC_TAG_LEN) pkt) of
          None \<Rightarrow> c
        | Some tag \<Rightarrow>
            if Some tag \<noteq> h_tag h then c
            else if h_scid h = [] \<or> cidEq (h_scid h) (c_origDcid c) then c
            else
              case quicKeysInitial P (h_scid h) of
                (False, ks) \<Rightarrow> c
              | (True, client, server) \<Rightarrow>
                  let s = c_pns c QUIC_PNS_INITIAL;
                      s1 = s\<lparr>ps_tx := client, ps_rx := server,
                             ps_cryptoOut := quicSendBufReset (ps_cryptoOut s)\<rparr>
                  in (setSpace QUIC_PNS_INITIAL s1 c)\<lparr>c_haveRetry := True, c_retryScid := h_scid h,
                        c_remote := (c_remote c)[0 := (c_remote c ! 0)\<lparr>rc_cid := h_scid h\<rparr>],
                        c_peerCidKnown := False,
                        c_token := bufAppendBytes xa None (Some (h_token h)) (length (h_token h))\<rparr>)"


section \<open>The TLS handshake\<close>

definition tlsSendCrypto :: "xalloc \<Rightarrow> QuicConn \<Rightarrow> TlsQuicLevel \<Rightarrow> u8 list \<Rightarrow> bool \<times> QuicConn" where
  "tlsSendCrypto xa c level data =
     (let sp = spaceForLevel level; s = c_pns c sp in
      if ps_discarded s then (False, c)
      else
        case quicSendBufAdd xa (ps_cryptoOut s) data of
          (ok, sb) \<Rightarrow> (ok, setSpace sp (s\<lparr>ps_cryptoOut := sb\<rparr>) c))"

definition tpNotReduced :: "QuicTransportParams \<Rightarrow> QuicTransportParams \<Rightarrow> bool" where
  "tpNotReduced now was \<longleftrightarrow>
     tp_initMaxData now \<ge> tp_initMaxData was \<and>
     tp_initMaxSdBidiLocal now \<ge> tp_initMaxSdBidiLocal was \<and>
     tp_initMaxSdBidiRemote now \<ge> tp_initMaxSdBidiRemote was \<and>
     tp_initMaxSdUni now \<ge> tp_initMaxSdUni was \<and>
     tp_initMaxStreamsBidi now \<ge> tp_initMaxStreamsBidi was \<and>
     tp_initMaxStreamsUni now \<ge> tp_initMaxStreamsUni was \<and>
     tp_activeCidLimit now \<ge> tp_activeCidLimit was \<and>
     tp_maxDatagramFrame now \<ge> tp_maxDatagramFrame was"

definition tlsEarlyParams :: "QuicConn \<Rightarrow> u8 list \<Rightarrow> bool \<times> QuicConn" where
  "tlsEarlyParams c data =
     (case quicTpDecode data True of
        None \<Rightarrow> (False, c)
      | Some tp \<Rightarrow>
          if c_server c then (tpNotReduced (c_localTp c) tp, c)
          else
            let c1 = c\<lparr>c_earlyTp := tp, c_haveEarlyTp := True\<rparr>
            in if c_hooks c1 HookEarlyOpen then onConnEarlyOpen (Some tp) c1 else (False, c1))"

definition earlyRefused :: "QuicConn \<Rightarrow> QuicConn" where
  "earlyRefused c0 =
     (let c = c0\<lparr>c_earlyTx := quicKeysDestroy (c_earlyTx c0), c_earlyRx := quicKeysDestroy (c_earlyRx c0)\<rparr>
      in if c_earlyState c \<noteq> QUIC_ES_LIVE then c
         else
           let c1 = c\<lparr>c_earlyState := QUIC_ES_REFUSED\<rparr> in
           case quicRecovDiscardEarly conn_handlers (unat (ps_next (c_pns c1 QUIC_PNS_APP))) (c_now c1)
                  (c_recov c1, c1) of
             (r, c2) \<Rightarrow> fireHook HookEarlyReject EvEarlyReject (c2\<lparr>c_recov := r\<rparr>))"

definition earlyConfirmed :: "QuicConn \<Rightarrow> QuicConn" where
  "earlyConfirmed c = (if c_earlyState c = QUIC_ES_LIVE then c\<lparr>c_earlyState := QUIC_ES_DONE\<rparr> else c)"

text \<open>On a server the answer of the \<^verbatim>\<open>earlyOpen\<close> handler is not looked at.\<close>

definition tlsEarlyData :: "QuicConn \<Rightarrow> bool \<Rightarrow> QuicConn" where
  "tlsEarlyData c accepted =
     (if \<not> accepted then earlyRefused c
      else if \<not> c_server c \<and> c_haveEarlyTp c \<and> \<not> tpNotReduced (c_peerTp c) (c_earlyTp c)
      then quicConnAbort c QUIC_ERR_PROTOCOL_VIOLATION 0
      else if c_server c \<and> c_hooks c HookEarlyOpen then snd (onConnEarlyOpen None c)
      else c)"

text \<open>
  When the parameters do not decode, what is left of them in \<^verbatim>\<open>peerTp\<close> is not read again: the
  connection closes and \<^verbatim>\<open>peerTpValid\<close> stays false.
\<close>

definition tlsTransportParams :: "QuicConn \<Rightarrow> u8 list \<Rightarrow> bool \<times> QuicConn" where
  "tlsTransportParams c data =
     (case quicTpDecode data (\<not> c_server c) of
        None \<Rightarrow> (False, quicConnAbort c QUIC_ERR_TRANSPORT_PARAMETER_ERROR 0)
      | Some tp \<Rightarrow>
          let c1 = c\<lparr>c_peerTp := tp\<rparr>;
              ok0 = cidEq (tp_initScid tp) (rc_cid (c_remote c1 ! c_remoteActive c1));
              ok = (if ok0 \<and> \<not> c_server c1
                    then tp_haveOrigDcid tp \<and> cidEq (tp_origDcid tp) (c_origDcid c1)
                         \<and> tp_haveRetryScid tp = c_haveRetry c1
                         \<and> (\<not> c_haveRetry c1 \<or> cidEq (tp_retryScid tp) (c_retryScid c1))
                    else ok0)
          in if \<not> ok then (False, quicConnAbort c1 QUIC_ERR_TRANSPORT_PARAMETER_ERROR 0)
             else
               let a = c_remoteActive c1;
                   c2 = (if tp_haveResetToken tp
                         then c1\<lparr>c_remote := (c_remote c1)[a := (c_remote c1 ! a)
                                   \<lparr>rc_resetToken := tp_resetToken tp, rc_haveToken := True\<rparr>]\<rparr> else c1);
                   c3 = (if unat (tp_maxUdpPayload tp) < c_mtu c2
                         then c2\<lparr>c_mtu := unat (tp_maxUdpPayload tp)\<rparr> else c2);
                   c4 = c3\<lparr>c_recov := quicRecovSetMaxAckDelay (1000 * int (unat (tp_maxAckDelay tp)))
                                        (c_recov c3)\<rparr>
               in (True, c4\<lparr>c_peerTpValid := True\<rparr>))"

definition tlsComplete :: "(nat \<Rightarrow> nat \<Rightarrow> u8 list option) \<Rightarrow> QuicConn \<Rightarrow> QuicConn" where
  "tlsComplete rnd c =
     (let c1 = c\<lparr>c_handshakeComplete := True,
                 c_state := (if c_state c = QUIC_CS_HANDSHAKE \<or> c_state c = QUIC_CS_NEW
                             then QUIC_CS_CONNECTED else c_state c)\<rparr>;
          c2 = earlyConfirmed c1;
          c3 = (if c_server c2
                then c2\<lparr>c_handshakeConfirmed := True, c_addrValidated := True,
                        c_earlyRx := quicKeysDestroy (c_earlyRx c2), c_pathValidated := True,
                        c_handshakeDone := quicCtlQueue (c_handshakeDone c2),
                        c_recov := quicRecovConfirmHandshake (c_now c2) (c_recov c2),
                        c_discardHandshakeSoon := True\<rparr> else c2);
          c4 = cidReplenish rnd c3
      in if c_hooks c4 HookConnected then onConnConnected c4 else c4)"

definition tlsAlert :: "QuicConn \<Rightarrow> u8 \<Rightarrow> QuicConn" where
  "tlsAlert c alert = quicConnClose c (QUIC_ERR_CRYPTO_BASE + ucast alert) False []"


section \<open>Timers\<close>

definition idleTimeoutOf :: "QuicConn \<Rightarrow> int" where
  "idleTimeoutOf c =
     (let mine = tp_maxIdleTimeout (c_localTp c);
          peers = (if c_peerTpValid c then tp_maxIdleTimeout (c_peerTp c) else 0);
          ms = (if mine \<noteq> 0 \<and> peers \<noteq> 0 then (if mine < peers then mine else peers)
                else if mine \<noteq> 0 then mine else peers)
      in if ms = 0 then timeForever
         else
           let ms1 = (if ms > 86400000 then 86400000 else ms);
               t = 1000 * int (unat ms1);
               fl = 3 * QUIC_INITIAL_RTT
           in if t > fl then t else fl)"

definition quicConnDeadline :: "QuicConn \<Rightarrow> int" where
  "quicConnDeadline c =
     (if c_state c = QUIC_CS_CLOSED then timeForever
      else if c_state c = QUIC_CS_CLOSING \<or> c_state c = QUIC_CS_DRAINING
      then (if c_closePending c then 0 else c_closeDeadline c)
      else
        let d = c_idleDeadline c;
            d1 = (if quicRecovTimer (c_recov c) < d then quicRecovTimer (c_recov c) else d);
            d2 = foldl (\<lambda>d sp. let s = c_pns c sp in
                   if \<not> ps_discarded s \<and> k_valid (ps_tx s) \<and> as_pending (ps_ack s)
                      \<and> as_deadline (ps_ack s) < d then as_deadline (ps_ack s) else d) d1 pn_spaces;
            d3 = (if \<not> quicRecovPacerReady (c_recov c) \<and> quicRecovPacerNext (c_recov c) < d2
                  then quicRecovPacerNext (c_recov c) else d2);
            d4 = (if c_pathDeadline c \<noteq> 0 \<and> c_pathDeadline c < d3 then c_pathDeadline c else d3)
        in if c_mtuState c = QUIC_MTU_DONE \<and> c_mtuRaiseAt c \<noteq> 0 \<and> c_mtuRaiseAt c < d4
           then c_mtuRaiseAt c else d4)"


section \<open>Unreliable datagrams\<close>

abbreviation (input) QUIC_DGRAM_FRAME_OVERHEAD :: nat where "QUIC_DGRAM_FRAME_OVERHEAD \<equiv> 3"

definition quicConnMaxDatagram :: "QuicConn \<Rightarrow> nat" where
  "quicConnMaxDatagram c =
     (if tp_maxDatagramFrame (c_localTp c) = 0 \<or> \<not> c_peerTpValid c
         \<or> tp_maxDatagramFrame (c_peerTp c) = 0 then 0
      else
        let cap = (if c_mtu c > QUIC_MAX_DATAGRAM then QUIC_MAX_DATAGRAM else c_mtu c);
            over = 1 + length (rc_cid (c_remote c ! c_remoteActive c)) + 4 + QUIC_TAG_LEN
                     + QUIC_DGRAM_FRAME_OVERHEAD
        in if cap \<le> over then 0
           else
             let byPath = cap - over;
                 peer = unat (tp_maxDatagramFrame (c_peerTp c));
                 byPeer = (if peer > QUIC_DGRAM_FRAME_OVERHEAD then peer - QUIC_DGRAM_FRAME_OVERHEAD
                           else 0)
             in if byPeer < byPath then byPeer else byPath)"

definition quicConnDatagramSend :: "QuicConn \<Rightarrow> u8 list \<Rightarrow> bool \<times> QuicConn" where
  "quicConnDatagramSend c data =
     (if c_dgramOut c \<noteq> None
         \<or> c_state c \<in> {QUIC_CS_CLOSING, QUIC_CS_DRAINING, QUIC_CS_CLOSED} then (False, c)
      else
        let m = quicConnMaxDatagram c in
        if m = 0 \<or> length data > m then (False, c) else (True, c\<lparr>c_dgramOut := Some data\<rparr>))"

end
