(* ===== verification/QuicConnLife.thy ===== *)
theory QuicConnLife
  imports QuicConnFrames
begin

text \<open>
  How a connection begins: \<^verbatim>\<open>_quicConnCreate\<close> of \<^verbatim>\<open>src/cxquic/conn.c\<close>. The TLS engine is a
  parameter, the record \<open>tls_engine\<close>: whether it can be created for the role, and whether it takes the
  encoded transport parameters. The query log is left out.
\<close>

section \<open>The zeroed connection\<close>

definition addrZero :: NetAddr where
  "addrZero = \<lparr>na_type = NA_Unknown, na_bytes = replicate 16 0, na_scope = 0, na_port = 0\<rparr>"

definition tpZero :: QuicTransportParams where
  "tpZero = quicTpDefaults\<lparr>tp_maxUdpPayload := 0, tp_ackDelayExponent := 0, tp_maxAckDelay := 0,
     tp_activeCidLimit := 0\<rparr>"

definition recovZero :: QuicRecovery where
  "recovZero = (quicRecovInit False 0)\<lparr>rv_maxAckDelay := 0, rv_timer := 0, rv_window := 0,
     rv_ssthresh := 0\<rparr>"

definition connZero :: QuicConn where
  "connZero =
     \<lparr>c_server = False, c_state = QUIC_CS_NEW, c_version = 0, c_hooks = (\<lambda>_. False), c_events = [],
      c_draws = 0, c_tlsCalls = 0, c_peer = addrZero, c_localAddr = addrZero, c_haveLocal = False,
      c_prevPeer = addrZero, c_prevLocalAddr = addrZero, c_havePrev = False, c_prevHaveLocal = False,
      c_pathDeadline = 0, c_pathSent = 0, c_pathRecv = 0, c_pathAmpLimited = False, c_nmigrations = 0,
      c_respondTo = addrZero, c_respondElsewhere = False,
      c_mtu = 0, c_mtuState = QUIC_MTU_IDLE, c_mtuLow = 0, c_mtuHigh = 0, c_mtuProbing = 0,
      c_mtuProbePn = 0, c_mtuTries = 0, c_mtuRaiseAt = 0, c_ecnState = QUIC_ECN_TESTING,
      c_ecnTestPkts = 0,
      c_earlyTx = keysZero, c_earlyRx = keysZero, c_rxNext = keysZero, c_rxPrev = keysZero,
      c_keyPhase = False, c_rxPhaseFirst = 0, c_txPhaseFirst = 0, c_keyPhaseAcked = False,
      c_rxPrevUntil = 0, c_keyUpdates = 0, c_earlyState = QUIC_ES_NONE, c_earlyTp = tpZero,
      c_haveEarlyTp = False, c_now = 0, c_localTp = tpZero, c_peerTp = tpZero, c_peerTpValid = False,
      c_pns = (\<lambda>_. spaceZero),
      c_local = replicate QUIC_MAX_CIDS localCidZero, c_remote = replicate QUIC_MAX_CIDS remoteCidZero,
      c_localNextSeq = 0, c_remoteRetirePrior = 0, c_localCidLen = 0, c_remoteActive = 0,
      c_peerCidKnown = False, c_origDcid = [], c_retryScid = [], c_haveRetry = False, c_token = None,
      c_handshakeComplete = False, c_handshakeConfirmed = False, c_addrValidated = False,
      c_sentHandshakePkt = False, c_recvHandshakePkt = False, c_discardHandshakeSoon = False,
      c_bytesRecv = 0, c_bytesSent = 0,
      c_idleDeadline = 0, c_closeDeadline = 0, c_closePending = False, c_closeLocal = False,
      c_closeApp = False, c_closeError = 0, c_closeFrameType = 0, c_closeReason = [],
      c_handshakeDone = ctlZero, c_pathResponse = ctlZero, c_pathChallenge = ctlZero,
      c_pathValidated = False, c_pathResponseData = replicate QUIC_PATH_DATA_LEN 0,
      c_pathChallengeData = replicate QUIC_PATH_DATA_LEN 0, c_retireQueue = [], c_recov = recovZero,
      c_dgramOut = None, c_streams = None, c_streamsUp = False, c_engConnected = False\<rparr>"


section \<open>Creating a connection\<close>

record QuicConnConfig =
  cfg_tp :: QuicTransportParams
  cfg_localCidLen :: nat
  cfg_origDcid :: QuicCid
  cfg_haveOrigDcid :: bool
  cfg_clientDcid :: QuicCid
  cfg_peerCid :: QuicCid

record tls_engine =
  te_create :: "bool \<Rightarrow> bool"
  te_setTransportParams :: "u8 list \<Rightarrow> bool"

text \<open>The part before the roles differ: defaults and this endpoint's first connection ID.\<close>

definition connInit ::
  "(nat \<Rightarrow> nat \<Rightarrow> u8 list option) \<Rightarrow> bool \<Rightarrow> QuicConnConfig \<Rightarrow> NetAddr \<Rightarrow> QuicConn option" where
  "connInit rnd server cfg peer =
     (let c = connZero\<lparr>c_server := server, c_version := QUIC_VERSION_1, c_mtu := QUIC_INITIAL_MTU,
            c_localCidLen := cfg_localCidLen cfg, c_peer := peer, c_localTp := cfg_tp cfg,
            c_mtuLow := QUIC_INITIAL_MTU, c_mtuHigh := QUIC_MAX_DATAGRAM + 1,
            c_mtuProbePn := QUIC_PN_NONE, c_ecnTestPkts := QUIC_ECN_TEST_PKTS,
            c_pns := (\<lambda>_. spaceInit),
            c_recov := quicRecovSpaceReady QUIC_PNS_INITIAL (quicRecovInit server QUIC_INITIAL_MTU)\<rparr>
      in case cidGenerate rnd c 0 of
           (False, l, c1) \<Rightarrow> None
         | (True, l, c1) \<Rightarrow>
             let l1 = l\<lparr>lc_announce := (lc_announce l)\<lparr>ctl_state := QUIC_CTL_IDLE\<rparr>, lc_notified := True\<rparr>;
                 tp = (c_localTp c1)\<lparr>tp_initScid := lc_cid l1, tp_haveInitScid := True\<rparr>;
                 tp1 = (if server then tp\<lparr>tp_resetToken := lc_resetToken l1, tp_haveResetToken := True\<rparr>
                        else tp)
             in Some (c1\<lparr>c_local := (c_local c1)[0 := l1], c_localNextSeq := 1, c_localTp := tp1\<rparr>))"

text \<open>The keys of the Initial space and the peer's first connection ID, by role.\<close>

definition connRole ::
  "psa \<Rightarrow> (nat \<Rightarrow> nat \<Rightarrow> u8 list option) \<Rightarrow> bool \<Rightarrow> QuicConnConfig \<Rightarrow> QuicConn \<Rightarrow> QuicConn option" where
  "connRole P rnd server cfg c =
     (if server then
        let odcid = (if cfg_haveOrigDcid cfg then cfg_origDcid cfg else cfg_clientDcid cfg);
            c1 = c\<lparr>c_origDcid := odcid,
                   c_localTp := (c_localTp c)\<lparr>tp_origDcid := odcid, tp_haveOrigDcid := True\<rparr>\<rparr>;
            c2 = (if cfg_haveOrigDcid cfg
                  then c1\<lparr>c_haveRetry := True, c_retryScid := cfg_clientDcid cfg,
                          c_localTp := (c_localTp c1)\<lparr>tp_retryScid := cfg_clientDcid cfg,
                                                      tp_haveRetryScid := True\<rparr>,
                          c_addrValidated := True\<rparr> else c1);
            c3 = c2\<lparr>c_remote := (c_remote c2)[0 := (c_remote c2 ! 0)\<lparr>rc_cid := cfg_peerCid cfg\<rparr>],
                    c_peerCidKnown := True\<rparr>
        in case quicKeysInitial P (cfg_clientDcid cfg) of
             (False, ckeys, skeys) \<Rightarrow> None
           | (True, ckeys, skeys) \<Rightarrow>
               Some (setSpace QUIC_PNS_INITIAL
                       ((c_pns c3 QUIC_PNS_INITIAL)\<lparr>ps_rx := ckeys, ps_tx := skeys\<rparr>) c3)
      else
        case draw rnd 8 c of
          (None, c1) \<Rightarrow> None
        | (Some dcid, c1) \<Rightarrow>
            let c2 = c1\<lparr>c_origDcid := dcid,
                        c_remote := (c_remote c1)[0 := (c_remote c1 ! 0)\<lparr>rc_cid := dcid\<rparr>]\<rparr>
            in case quicKeysInitial P dcid of
                 (False, ckeys, skeys) \<Rightarrow> None
               | (True, ckeys, skeys) \<Rightarrow>
                   Some (setSpace QUIC_PNS_INITIAL
                           ((c_pns c2 QUIC_PNS_INITIAL)\<lparr>ps_tx := ckeys, ps_rx := skeys\<rparr>) c2))"

definition quicConnCreate ::
  "psa \<Rightarrow> (nat \<Rightarrow> nat \<Rightarrow> u8 list option) \<Rightarrow> tls_engine \<Rightarrow> bool \<Rightarrow> QuicConnConfig \<Rightarrow> NetAddr
     \<Rightarrow> QuicConn option" where
  "quicConnCreate P rnd te server cfg peer =
     (if \<not> quicInit P \<or> cfg_localCidLen cfg > QUIC_MAX_CID then None
      else
        case connInit rnd server cfg peer of
          None \<Rightarrow> None
        | Some c \<Rightarrow>
            case connRole P rnd server cfg c of
              None \<Rightarrow> None
            | Some c1 \<Rightarrow>
                let c2 = c1\<lparr>c_remote := (c_remote c1)[0 := (c_remote c1 ! 0)\<lparr>rc_live := True, rc_seq := 0\<rparr>],
                            c_remoteActive := 0\<rparr>
                in if \<not> te_create te server then None
                   else
                     case quicTpEncode (quicWrInit (replicate 512 0)) (c_localTp c2) server of
                       (ok, wr) \<Rightarrow>
                         if \<not> ok \<or> \<not> te_setTransportParams te (take (quicWrLen wr) (wr_buf wr)) then None
                         else Some (c2\<lparr>c_idleDeadline := timeForever, c_rxPhaseFirst := QUIC_PN_NONE\<rparr>))"


section \<open>Key derivation that does not fail\<close>

text \<open>
  A cryptography provider that is initialised and never runs out of key slots or memory. Witnesses
  use it; the properties themselves do not.
\<close>

definition psa_total :: "psa \<Rightarrow> bool" where
  "psa_total P \<longleftrightarrow> tlsInit P \<and> (\<forall>k. psa_import_key P k)
     \<and> (\<forall>a salt ikm n. psa_hkdf_extract P a salt ikm n \<noteq> None)
     \<and> (\<forall>a sec info n. psa_hkdf_expand P a sec info n \<noteq> None)"

lemma tls13ExpandLabel_total:
  assumes "psa_total P" "tls13HashLen hash \<noteq> 0" "outLen \<le> 64" "length label \<le> 249"
  shows "\<exists>out. tls13ExpandLabel P hash secret label [] outLen = Some out"
proof -
  have "outLen \<le> 0xffff" "tlsInit P" using assms(1,3) by (simp_all add: psa_total_def)
  from tls13ExpandLabel_ok [OF assms(2) this assms(4), of "[]" secret]
  show ?thesis using assms(1) unfolding psa_total_def by force
qed

definition keys_sized :: "QuicKeys \<Rightarrow> bool" where
  "keys_sized k \<longleftrightarrow> tls13HashLen (k_hash k) \<noteq> 0 \<and> k_keyLen k \<le> 64 \<and> k_secretLen k \<le> 64"

lemma keysFinish_total:
  assumes "psa_total P" "keys_sized k"
  shows "\<exists>k1. keysFinish P k = (True, k1) \<and> k_valid k1"
proof -
  obtain k1 where hp: "quicKeysImportHp P k = (True, k1)" "k_hash k1 = k_hash k" "k_keyLen k1 = k_keyLen k"
    using assms(1) by (cases "k_hpChaCha k") (auto simp: quicKeysImportHp_def import_key_def psa_total_def)
  obtain key where key: "tls13ExpandLabel P (k_hash k1) (take (k_secretLen k1) (k_secret k1))
      (str_bytes ''quic key'') [] (k_keyLen k1) = Some key"
    using tls13ExpandLabel_total [OF assms(1), of "k_hash k1" "k_keyLen k1" "str_bytes ''quic key''"] assms(2) hp
    by (auto simp: keys_sized_def)
  obtain iv where iv: "tls13ExpandLabel P (k_hash k1) (take (k_secretLen k1) (k_secret k1))
      (str_bytes ''quic iv'') [] TLS13_IV_LEN = Some iv"
    using tls13ExpandLabel_total [OF assms(1), of "k_hash k1" TLS13_IV_LEN "str_bytes ''quic iv''"] assms(2) hp
    by (auto simp: keys_sized_def)
  show ?thesis
    using assms(1) hp(1) key iv
    by (simp add: keysFinish_def quicKeysFromSecret_def import_key_def psa_total_def Let_def)
qed

lemma quicKeysDerive_total:
  assumes "psa_total P" "tls13HashLen (su_hash su) \<noteq> 0" "su_keyLen su \<le> 64" "su_hashLen su \<le> 64"
  shows "\<exists>k. quicKeysDerive P (Some su) secret = (True, k) \<and> k_valid k"
proof -
  let ?k = "keysZero\<lparr>k_hash := su_hash su, k_aeadAlg := su_aead su, k_keyType := su_keyType su,
    k_keyLen := su_keyLen su, k_secretLen := su_hashLen su,
    k_hpChaCha := su_keyType su = PSA_KEY_TYPE_CHACHA20, k_secret := take (su_hashLen su) secret\<rparr>"
  obtain hp where hp: "tls13ExpandLabel P (k_hash ?k) (k_secret ?k) (str_bytes ''quic hp'') [] (k_keyLen ?k) = Some hp"
    using tls13ExpandLabel_total [OF assms(1), of "k_hash ?k" "k_keyLen ?k" "str_bytes ''quic hp''"] assms
    by auto
  have "quicInit P" using assms(1) by (simp add: psa_total_def quicInit_def)
  then have "quicKeysDerive P (Some su) secret = keysFinish P (?k\<lparr>k_hpKey := hp\<rparr>)"
    using hp by (simp add: quicKeysDerive_def Let_def)
  then show ?thesis using keysFinish_total [OF assms(1), of "?k\<lparr>k_hpKey := hp\<rparr>"] assms
    by (simp add: keys_sized_def)
qed

lemma quicKeysInitial_total:
  assumes "psa_total P"
  shows "\<exists>ck sk. quicKeysInitial P dcid = (True, ck, sk) \<and> k_valid ck \<and> k_valid sk"
proof -
  obtain su where su: "tls13Suite TLS13_AES_128_GCM_SHA256 = Some su" "tls13HashLen (su_hash su) = 32"
    "su_keyLen su = 16" "su_hashLen su = 32"
    by (simp add: tls13Suite_def tls13Suites_def)
  have n: "tls13HashLen (su_hash su) \<noteq> 0" "su_keyLen su \<le> 64" "su_hashLen su \<le> 64" using su by simp_all
  obtain ini where ini: "tls13Extract P (su_hash su) quicInitialSalt dcid = Some ini"
    using assms su unfolding psa_total_def tls13Extract_def by fastforce
  obtain cs where cs: "tls13ExpandLabel P (su_hash su) (take (su_hashLen su) ini) (str_bytes ''client in'') []
      (su_hashLen su) = Some cs"
    using tls13ExpandLabel_total [OF assms n(1,3), of "str_bytes ''client in''"] by auto
  obtain ss where ss: "tls13ExpandLabel P (su_hash su) (take (su_hashLen su) ini) (str_bytes ''server in'') []
      (su_hashLen su) = Some ss"
    using tls13ExpandLabel_total [OF assms n(1,3), of "str_bytes ''server in''"] by auto
  obtain ck sk where "quicKeysDerive P (Some su) cs = (True, ck)" "k_valid ck"
    "quicKeysDerive P (Some su) ss = (True, sk)" "k_valid sk"
    using quicKeysDerive_total [OF assms n] by metis
  then show ?thesis
    using assms su(1) ini cs ss by (simp add: quicKeysInitial_def quicInit_def psa_total_def)
qed


section \<open>What a created connection holds\<close>

lemma quicConnCreate_Some:
  assumes "quicConnCreate P rnd te server cfg peer = Some c"
  obtains c0 c1 wr where "connInit rnd server cfg peer = Some c0" "connRole P rnd server cfg c0 = Some c1"
    "c = c1\<lparr>c_remote := (c_remote c1)[0 := (c_remote c1 ! 0)\<lparr>rc_live := True, rc_seq := 0\<rparr>],
      c_remoteActive := 0, c_idleDeadline := timeForever, c_rxPhaseFirst := QUIC_PN_NONE\<rparr>"
    "quicTpEncode (quicWrInit (replicate 512 0)) (c_localTp c) server = (True, wr)"
    "te_setTransportParams te (wr_out wr)"
  using assms
  by (auto simp: quicConnCreate_def Let_def wr_out_def quicWrLen_def split: if_splits option.splits prod.splits)

lemma connInit_Some:
  assumes "connInit rnd server cfg peer = Some c"
  shows "c_remote c = replicate QUIC_MAX_CIDS remoteCidZero" "c_pns c = (\<lambda>_. spaceInit)"
    "\<not> c_haveRetry c" "tp_initScid (c_localTp c) = lc_cid (c_local c ! 0)" "tp_haveInitScid (c_localTp c)"
    "length (c_local c) = QUIC_MAX_CIDS"
  using assms
  by (auto simp: connInit_def Let_def connZero_def cidGenerate_def draw_def split: if_splits option.splits)

text \<open>Each end takes the keys it sends with from what the other end receives with.\<close>

lemma connRole_client:
  assumes "connRole P rnd False cfg c = Some c1" "c_remote c \<noteq> []"
  shows "quicKeysInitial P (c_origDcid c1) =
      (True, ps_tx (c_pns c1 QUIC_PNS_INITIAL), ps_rx (c_pns c1 QUIC_PNS_INITIAL))"
    "rc_cid (c_remote c1 ! 0) = c_origDcid c1" "c_haveRetry c1 = c_haveRetry c" "c_server c1 = c_server c"
  using assms
  by (auto simp: connRole_def Let_def draw_def setSpace_def split: option.splits prod.splits bool.splits)

lemma connRole_server:
  assumes "connRole P rnd True cfg c = Some c1" "c_remote c \<noteq> []"
  shows "quicKeysInitial P (cfg_clientDcid cfg) =
      (True, ps_rx (c_pns c1 QUIC_PNS_INITIAL), ps_tx (c_pns c1 QUIC_PNS_INITIAL))"
    "rc_cid (c_remote c1 ! 0) = cfg_peerCid cfg" "c_local c1 = c_local c"
    "tp_initScid (c_localTp c1) = tp_initScid (c_localTp c)"
    "tp_haveInitScid (c_localTp c1) = tp_haveInitScid (c_localTp c)"
    "tp_haveOrigDcid (c_localTp c1)" "tp_origDcid (c_localTp c1) = c_origDcid c1"
    "c_origDcid c1 = (if cfg_haveOrigDcid cfg then cfg_origDcid cfg else cfg_clientDcid cfg)"
    "cfg_haveOrigDcid cfg \<Longrightarrow> tp_haveRetryScid (c_localTp c1) \<and> tp_retryScid (c_localTp c1) = cfg_clientDcid cfg"
    "\<not> cfg_haveOrigDcid cfg \<Longrightarrow> tp_haveRetryScid (c_localTp c1) = tp_haveRetryScid (c_localTp c)"
  using assms
  by (auto simp: connRole_def Let_def setSpace_def split: if_splits prod.splits bool.splits)

lemma connInit_tp:
  assumes "connInit rnd server cfg peer = Some c"
  shows "tp_haveRetryScid (c_localTp c) = tp_haveRetryScid (cfg_tp cfg)" "c_server c = server"
  using assms
  by (auto simp: connInit_def Let_def connZero_def cidGenerate_def draw_def split: if_splits option.splits)

text \<open>A Retry makes a client derive its keys again, from the ID the server chose.\<close>

lemma handleRetry_keys:
  assumes "c_haveRetry (handleRetry P xa c h pkt)" "\<not> c_haveRetry c"
  shows "quicKeysInitial P (h_scid h) = (True, ps_tx (c_pns (handleRetry P xa c h pkt) QUIC_PNS_INITIAL),
      ps_rx (c_pns (handleRetry P xa c h pkt) QUIC_PNS_INITIAL))"
    "c_retryScid (handleRetry P xa c h pkt) = h_scid h" "c_origDcid (handleRetry P xa c h pkt) = c_origDcid c"
  using assms
  by (auto simp: handleRetry_def Let_def setSpace_def split: option.splits prod.splits bool.splits if_splits)


lemma cidEq_iff [simp]: "cidEq a b \<longleftrightarrow> a = b"
  by (auto simp: cidEq_def)

text \<open>The checks of a peer's transport parameters, and what passing them leaves behind.\<close>

definition peer_ids_ok :: "QuicConn \<Rightarrow> QuicTransportParams \<Rightarrow> bool" where
  "peer_ids_ok c tp \<longleftrightarrow> tp_initScid tp = rc_cid (c_remote c ! c_remoteActive c)
     \<and> (\<not> c_server c \<longrightarrow> tp_haveOrigDcid tp \<and> tp_origDcid tp = c_origDcid c
         \<and> tp_haveRetryScid tp = c_haveRetry c \<and> (c_haveRetry c \<longrightarrow> tp_retryScid tp = c_retryScid c))"

lemma tlsTransportParams_accepts:
  assumes "quicTpDecode data (\<not> c_server c) = Some tp"
  shows "fst (tlsTransportParams c data) = peer_ids_ok c tp"
    and "peer_ids_ok c tp \<Longrightarrow> c_peerTp (snd (tlsTransportParams c data)) = tp
      \<and> c_peerTpValid (snd (tlsTransportParams c data))"
  using assms by (auto simp: tlsTransportParams_def Let_def peer_ids_ok_def)


section \<open>Properties\<close>

text \<open>
  C18. The two ends of a new connection can read each other at once. A client's Initial keys are
  derived from the connection ID it addresses its first packet to; a server created from that
  packet has the same pair the other way round. After a Retry the client has derived them again
  from the ID in the Retry, and a server created from the packet that answers it agrees with it.
\<close>

theorem initial_keys_agree:
  assumes "quicConnCreate P rnd te False ccfg speer = Some cl"
    and "quicConnCreate P rnd' te' True scfg cpeer = Some sv"
  shows "rc_cid (c_remote cl ! c_remoteActive cl) = c_origDcid cl
    \<and> (cfg_clientDcid scfg = c_origDcid cl \<longrightarrow>
        ps_rx (c_pns sv QUIC_PNS_INITIAL) = ps_tx (c_pns cl QUIC_PNS_INITIAL)
        \<and> ps_tx (c_pns sv QUIC_PNS_INITIAL) = ps_rx (c_pns cl QUIC_PNS_INITIAL))
    \<and> (let cl1 = handleRetry P xa cl h pkt in
        c_haveRetry cl1 \<and> cfg_clientDcid scfg = h_scid h \<longrightarrow>
        ps_rx (c_pns sv QUIC_PNS_INITIAL) = ps_tx (c_pns cl1 QUIC_PNS_INITIAL)
        \<and> ps_tx (c_pns sv QUIC_PNS_INITIAL) = ps_rx (c_pns cl1 QUIC_PNS_INITIAL))"
proof -
  from assms(1) obtain c0 c1 where c: "connInit rnd False ccfg speer = Some c0"
    "connRole P rnd False ccfg c0 = Some c1" "c_pns cl = c_pns c1" "c_origDcid cl = c_origDcid c1"
    "c_haveRetry cl = c_haveRetry c1" "c_remoteActive cl = 0"
    "c_remote cl = (c_remote c1)[0 := (c_remote c1 ! 0)\<lparr>rc_live := True, rc_seq := 0\<rparr>]"
    by (rule quicConnCreate_Some) simp
  from assms(2) obtain s0 s1 where s: "connInit rnd' True scfg cpeer = Some s0"
    "connRole P rnd' True scfg s0 = Some s1" "c_pns sv = c_pns s1"
    by (rule quicConnCreate_Some) simp
  have ne: "c_remote c0 \<noteq> []" "c_remote s0 \<noteq> []"
    using connInit_Some(1) [OF c(1)] connInit_Some(1) [OF s(1)] by simp_all
  note cr = connRole_client [OF c(2) ne(1)] and sr = connRole_server [OF s(2) ne(2)]
  have "\<not> c_haveRetry cl" using c(5) cr(3) connInit_Some(3) [OF c(1)] by simp
  note retry = handleRetry_keys [OF _ this, of P xa h pkt]
  have "rc_cid (c_remote cl ! 0) = c_origDcid cl"
    using cr(2) c(4,7) by (cases "c_remote c1") simp_all
  then show ?thesis using cr(1) sr(1) retry c(3,4,6) s(3) by (auto simp: Let_def)
qed

definition te_example :: tls_engine where
  "te_example = \<lparr>te_create = (\<lambda>_. True), te_setTransportParams = (\<lambda>_. True)\<rparr>"

definition addr_example :: NetAddr where
  "addr_example = addrZero\<lparr>na_type := NA_IPv4, na_bytes := [1, 0, 0, 127], na_port := 4433\<rparr>"

definition client_cfg :: QuicConnConfig where
  "client_cfg = \<lparr>cfg_tp = quicTpDefaults, cfg_localCidLen = 4, cfg_origDcid = [], cfg_haveOrigDcid = False,
     cfg_clientDcid = [], cfg_peerCid = []\<rparr>"

definition client_example :: QuicConn where
  "client_example = the (quicConnCreate psa_example rnd_example te_example False client_cfg addr_example)"

definition server_cfg :: QuicConnConfig where
  "server_cfg = client_cfg\<lparr>cfg_clientDcid := replicate 8 0xc3, cfg_peerCid := replicate 4 0xc3\<rparr>"

definition server_example :: QuicConn where
  "server_example = the (quicConnCreate psa_example rnd_example te_example True server_cfg addr_example)"

lemma example_initial:
  "\<exists>ck sk. quicKeysInitial psa_example dcid = (True, ck, sk) \<and> k_valid ck \<and> k_valid sk"
  by (rule quicKeysInitial_total) (simp add: psa_total_def psa_example_def tlsInit_def)

lemma example_init:
  assumes "cfg_localCidLen cfg = 4"
  shows "\<exists>c. connInit rnd_example server cfg peer = Some c \<and> lc_cid (c_local c ! 0) = replicate 4 0xc3
    \<and> c_localTp c = (if server then (cfg_tp cfg)\<lparr>tp_initScid := replicate 4 0xc3, tp_haveInitScid := True,
          tp_resetToken := replicate 16 0xc3, tp_haveResetToken := True\<rparr>
        else (cfg_tp cfg)\<lparr>tp_initScid := replicate 4 0xc3, tp_haveInitScid := True\<rparr>)"
  using assms by (simp add: connInit_def cidGenerate_def draw_def rnd_example_def connZero_def Let_def)

lemma example_role:
  "\<exists>c1. connRole psa_example rnd_example False cfg c = Some c1 \<and> c_localTp c1 = c_localTp c
    \<and> c_origDcid c1 = replicate 8 0xc3 \<and> k_valid (ps_tx (c_pns c1 QUIC_PNS_INITIAL))"
  "\<not> cfg_haveOrigDcid cfg \<Longrightarrow> \<exists>c1. connRole psa_example rnd_example True cfg c = Some c1
    \<and> c_localTp c1 = (c_localTp c)\<lparr>tp_origDcid := cfg_clientDcid cfg, tp_haveOrigDcid := True\<rparr>
    \<and> c_local c1 = c_local c"
proof -
  obtain ck sk where "quicKeysInitial psa_example (replicate 8 0xc3) = (True, ck, sk)" "k_valid ck"
    using example_initial by blast
  then show "\<exists>c1. connRole psa_example rnd_example False cfg c = Some c1 \<and> c_localTp c1 = c_localTp c
      \<and> c_origDcid c1 = replicate 8 0xc3 \<and> k_valid (ps_tx (c_pns c1 QUIC_PNS_INITIAL))"
    by (simp add: connRole_def draw_def rnd_example_def setSpace_def Let_def)
  assume "\<not> cfg_haveOrigDcid cfg"
  moreover obtain ck sk where "quicKeysInitial psa_example (cfg_clientDcid cfg) = (True, ck, sk)"
    using example_initial by blast
  ultimately show "\<exists>c1. connRole psa_example rnd_example True cfg c = Some c1
      \<and> c_localTp c1 = (c_localTp c)\<lparr>tp_origDcid := cfg_clientDcid cfg, tp_haveOrigDcid := True\<rparr>
      \<and> c_local c1 = c_local c"
    by (simp add: connRole_def setSpace_def Let_def)
qed

definition client_tp_example :: QuicTransportParams where
  "client_tp_example = quicTpDefaults\<lparr>tp_initScid := replicate 4 0xc3, tp_haveInitScid := True\<rparr>"

definition server_tp_example :: QuicTransportParams where
  "server_tp_example = client_tp_example\<lparr>tp_resetToken := replicate 16 0xc3, tp_haveResetToken := True,
     tp_origDcid := replicate 8 0xc3, tp_haveOrigDcid := True\<rparr>"

lemma examples_encode:
  "\<exists>wr. quicTpEncode (quicWrInit (replicate 512 0)) client_tp_example False = (True, wr)"
  "\<exists>wr. quicTpEncode (quicWrInit (replicate 512 0)) server_tp_example True = (True, wr)"
proof -
  have "fst (quicTpEncode (quicWrInit (replicate 512 0)) client_tp_example False) = True"
    "fst (quicTpEncode (quicWrInit (replicate 512 0)) server_tp_example True) = True"
    by code_simp+
  then show "\<exists>wr. quicTpEncode (quicWrInit (replicate 512 0)) client_tp_example False = (True, wr)"
    "\<exists>wr. quicTpEncode (quicWrInit (replicate 512 0)) server_tp_example True = (True, wr)"
    by (metis prod.collapse)+
qed

lemma quicConnCreate_ok:
  assumes "quicInit P" "cfg_localCidLen cfg \<le> QUIC_MAX_CID" "connInit rnd server cfg peer = Some c0"
    "connRole P rnd server cfg c0 = Some c1" "te = te_example"
    "\<exists>wr. quicTpEncode (quicWrInit (replicate 512 0)) (c_localTp c1) server = (True, wr)"
  shows "\<exists>c. quicConnCreate P rnd te server cfg peer = Some c \<and> c_origDcid c = c_origDcid c1
    \<and> c_pns c = c_pns c1 \<and> c_localTp c = c_localTp c1 \<and> c_local c = c_local c1"
proof -
  obtain wr where "quicTpEncode (quicWrInit (replicate 512 0)) (c_localTp c1) server = (True, wr)"
    using assms(6) by blast
  then show ?thesis using assms(1-5) by (simp add: quicConnCreate_def te_example_def Let_def)
qed

lemma psa_example_init: "quicInit psa_example"
  by (simp add: quicInit_def tlsInit_def psa_example_def)

lemma example_client:
  "quicConnCreate psa_example rnd_example te_example False client_cfg addr_example = Some client_example"
  "c_origDcid client_example = replicate 8 0xc3" "k_valid (ps_tx (c_pns client_example QUIC_PNS_INITIAL))"
proof -
  obtain c0 where c0: "connInit rnd_example False client_cfg addr_example = Some c0"
    "c_localTp c0 = client_tp_example"
    using example_init [of client_cfg False] by (auto simp: client_cfg_def client_tp_example_def)
  obtain c1 where c1: "connRole psa_example rnd_example False client_cfg c0 = Some c1"
    "c_localTp c1 = client_tp_example" "c_origDcid c1 = replicate 8 0xc3"
    "k_valid (ps_tx (c_pns c1 QUIC_PNS_INITIAL))"
    using example_role(1) [of client_cfg c0] c0(2) by auto
  obtain c where "quicConnCreate psa_example rnd_example te_example False client_cfg addr_example = Some c"
    "c_origDcid c = c_origDcid c1" "c_pns c = c_pns c1"
    using quicConnCreate_ok [OF psa_example_init _ c0(1) c1(1) refl] c1(2) examples_encode(1)
    by (auto simp: client_cfg_def)
  then show "quicConnCreate psa_example rnd_example te_example False client_cfg addr_example = Some client_example"
    "c_origDcid client_example = replicate 8 0xc3" "k_valid (ps_tx (c_pns client_example QUIC_PNS_INITIAL))"
    using c1 by (simp_all add: client_example_def)
qed

lemma example_server:
  "quicConnCreate psa_example rnd_example te_example True server_cfg addr_example = Some server_example"
  "c_localTp server_example = server_tp_example" "lc_cid (c_local server_example ! 0) = replicate 4 0xc3"
proof -
  obtain c0 where c0: "connInit rnd_example True server_cfg addr_example = Some c0"
    "lc_cid (c_local c0 ! 0) = replicate 4 0xc3"
    "c_localTp c0 = client_tp_example\<lparr>tp_resetToken := replicate 16 0xc3, tp_haveResetToken := True\<rparr>"
    using example_init [of server_cfg True]
    by (auto simp: server_cfg_def client_cfg_def client_tp_example_def)
  obtain c1 where c1: "connRole psa_example rnd_example True server_cfg c0 = Some c1"
    "c_localTp c1 = server_tp_example" "c_local c1 = c_local c0"
    using example_role(2) [of server_cfg c0] c0(3)
    by (auto simp: server_cfg_def client_cfg_def server_tp_example_def)
  obtain c where "quicConnCreate psa_example rnd_example te_example True server_cfg addr_example = Some c"
    "c_localTp c = c_localTp c1" "c_local c = c_local c1"
    using quicConnCreate_ok [OF psa_example_init _ c0(1) c1(1) refl] c1(2) examples_encode(2)
    by (auto simp: server_cfg_def client_cfg_def)
  then show "quicConnCreate psa_example rnd_example te_example True server_cfg addr_example = Some server_example"
    "c_localTp server_example = server_tp_example" "lc_cid (c_local server_example ! 0) = replicate 4 0xc3"
    using c0 c1 by (simp_all add: server_example_def)
qed

theorem initial_keys_agree_witness:
  "ps_rx (c_pns server_example QUIC_PNS_INITIAL) = ps_tx (c_pns client_example QUIC_PNS_INITIAL)
    \<and> k_valid (ps_tx (c_pns client_example QUIC_PNS_INITIAL))"
proof -
  have "cfg_clientDcid server_cfg = c_origDcid client_example"
    by (simp add: server_cfg_def example_client)
  with initial_keys_agree [OF example_client(1) example_server(1), where xa = undefined and h = undefined
      and pkt = "[]"]
  show ?thesis using example_client(3) by simp
qed

text \<open>
  C17. The connection IDs of the handshake are authenticated. A client takes a server's transport
  parameters only if they name the ID the server answers from, the ID the client first addressed,
  and, exactly when the client saw a Retry, the ID that Retry chose; and the parameters of a server
  created for that client, with or without a Retry, are taken and arrive unchanged.
\<close>

theorem server_identity:
  assumes "quicConnCreate P rnd te True cfg peer = Some sv" "tp_valid (c_localTp sv)"
    and "\<not> tp_haveRetryScid (cfg_tp cfg)" "\<not> c_server cl"
    and "rc_cid (c_remote cl ! c_remoteActive cl) = lc_cid (c_local sv ! 0)"
    and "c_origDcid cl = (if c_haveRetry cl then cfg_origDcid cfg else cfg_clientDcid cfg)"
    and "c_haveRetry cl = cfg_haveOrigDcid cfg" "c_haveRetry cl \<longrightarrow> c_retryScid cl = cfg_clientDcid cfg"
  shows "(\<exists>wr. quicTpEncode (quicWrInit (replicate 512 0)) (c_localTp sv) True = (True, wr)
      \<and> te_setTransportParams te (wr_out wr) \<and> fst (tlsTransportParams cl (wr_out wr))
      \<and> c_peerTp (snd (tlsTransportParams cl (wr_out wr))) = tp_sent (c_localTp sv) True)
    \<and> (\<forall>data. fst (tlsTransportParams cl data) \<longrightarrow>
        (\<exists>tp. quicTpDecode data True = Some tp \<and> tp_initScid tp = rc_cid (c_remote cl ! c_remoteActive cl)
          \<and> tp_origDcid tp = c_origDcid cl \<and> tp_haveRetryScid tp = c_haveRetry cl
          \<and> (c_haveRetry cl \<longrightarrow> tp_retryScid tp = c_retryScid cl)))"
proof (rule conjI)
  from assms(1) obtain c0 c1 wr where c: "connInit rnd True cfg peer = Some c0"
    "connRole P rnd True cfg c0 = Some c1" "c_localTp sv = c_localTp c1" "c_local sv = c_local c1"
    and wr: "quicTpEncode (quicWrInit (replicate 512 0)) (c_localTp sv) True = (True, wr)"
      "te_setTransportParams te (wr_out wr)"
    by (rule quicConnCreate_Some) simp
  have "c_remote c0 \<noteq> []" using connInit_Some(1) [OF c(1)] by simp
  note sr = connRole_server [OF c(2) this] and ini = connInit_Some(4,5) [OF c(1)] connInit_tp [OF c(1)]
  have dec: "quicTpDecode (wr_out wr) (\<not> c_server cl) = Some (tp_sent (c_localTp sv) True)"
    using quicTpDecode_encoded [OF assms(2) _ _ wr(1)] assms(4) c(3) sr ini by simp
  have "peer_ids_ok cl (tp_sent (c_localTp sv) True)"
    using assms(3-8) c(3,4) sr ini by (auto simp: peer_ids_ok_def tp_sent_def)
  then show "\<exists>wr. quicTpEncode (quicWrInit (replicate 512 0)) (c_localTp sv) True = (True, wr)
      \<and> te_setTransportParams te (wr_out wr) \<and> fst (tlsTransportParams cl (wr_out wr))
      \<and> c_peerTp (snd (tlsTransportParams cl (wr_out wr))) = tp_sent (c_localTp sv) True"
    using wr tlsTransportParams_accepts [OF dec] by blast
next
  show "\<forall>data. fst (tlsTransportParams cl data) \<longrightarrow>
        (\<exists>tp. quicTpDecode data True = Some tp \<and> tp_initScid tp = rc_cid (c_remote cl ! c_remoteActive cl)
          \<and> tp_origDcid tp = c_origDcid cl \<and> tp_haveRetryScid tp = c_haveRetry cl
          \<and> (c_haveRetry cl \<longrightarrow> tp_retryScid tp = c_retryScid cl))"
  proof (intro allI impI)
    fix data
    assume a: "fst (tlsTransportParams cl data)"
    then obtain tp where d: "quicTpDecode data (\<not> c_server cl) = Some tp"
      by (auto simp: tlsTransportParams_def split: option.splits)
    with a have "peer_ids_ok cl tp" using tlsTransportParams_accepts(1) by blast
    with d assms(4) show "\<exists>tp. quicTpDecode data True = Some tp
        \<and> tp_initScid tp = rc_cid (c_remote cl ! c_remoteActive cl)
        \<and> tp_origDcid tp = c_origDcid cl \<and> tp_haveRetryScid tp = c_haveRetry cl
        \<and> (c_haveRetry cl \<longrightarrow> tp_retryScid tp = c_retryScid cl)"
      by (auto simp: peer_ids_ok_def)
  qed
qed

text \<open>A client that has the ID the server answers from.\<close>

definition answered_example :: QuicConn where
  "answered_example = connZero\<lparr>c_origDcid := replicate 8 0xc3,
     c_remote := [remoteCidZero\<lparr>rc_cid := replicate 4 0xc3\<rparr>]\<rparr>"

theorem server_identity_witness:
  "\<exists>data. fst (tlsTransportParams answered_example data)
    \<and> c_peerTp (snd (tlsTransportParams answered_example data)) = tp_sent server_tp_example True"
proof -
  have "tp_valid server_tp_example"
    by (simp add: server_tp_example_def client_tp_example_def quicTpDefaults_def tp_valid_def
        QUIC_TP_MAX_STREAMS_def varint_ok_def QUIC_MAX_PACKET_NUMBER_def word_le_nat_alt word_less_nat_alt)
  moreover have "\<not> tp_haveRetryScid (cfg_tp server_cfg)" "cfg_clientDcid server_cfg = replicate 8 0xc3"
    "\<not> cfg_haveOrigDcid server_cfg"
    by (simp_all add: server_cfg_def client_cfg_def quicTpDefaults_def)
  moreover have "\<not> c_server answered_example" "\<not> c_haveRetry answered_example"
    "rc_cid (c_remote answered_example ! c_remoteActive answered_example) = replicate 4 0xc3"
    "c_origDcid answered_example = replicate 8 0xc3"
    by (simp_all add: answered_example_def connZero_def)
  ultimately show ?thesis
    using server_identity [OF example_server(1), of answered_example] by (auto simp: example_server)
qed

end
