(* ===== verification/QuicConnMtu.thy ===== *)
theory QuicConnMtu
  imports QuicConnLife
begin

text \<open>
  Path MTU discovery finds the path: correctness of the bisection of \<^verbatim>\<open>mtuStart\<close>,
  \<^verbatim>\<open>mtuProbeAcked\<close> and \<^verbatim>\<open>mtuProbeLost\<close> (\<^verbatim>\<open>src/cxquic/conn.c\<close>).

  A path is the largest datagram size \<open>M\<close> it carries. \<open>mtu_round\<close> is what happens to one
  candidate: the probe arrives when it fits, and is lost as often as it is sent otherwise.
\<close>

section \<open>One candidate\<close>

definition mtu_round :: "nat \<Rightarrow> int \<Rightarrow> QuicConn \<Rightarrow> QuicConn" where
  "mtu_round M now c =
     (if c_mtuProbing c \<le> M then mtuProbeAcked c (c_mtuProbing c) now
      else ((\<lambda>c1. mtuProbeLost c1 (c_mtuProbing c1) now) ^^ QUIC_PMTU_PROBES) c)"

text \<open>A search of at most \<open>n\<close> candidates; it stops when the search is over.\<close>

primrec mtu_run :: "nat \<Rightarrow> int \<Rightarrow> nat \<Rightarrow> QuicConn \<Rightarrow> QuicConn" where
  "mtu_run M now 0 c = c"
| "mtu_run M now (Suc n) c =
     (if c_mtuState c = QUIC_MTU_SEARCHING then mtu_run M now n (mtu_round M now c) else c)"

text \<open>The largest size worth finding, and the state of a search that is on its way to it.\<close>

definition mtu_target :: "nat \<Rightarrow> QuicConn \<Rightarrow> nat" where
  "mtu_target M c = min M (mtuCeiling c)"

definition mtu_searching :: "nat \<Rightarrow> QuicConn \<Rightarrow> bool" where
  "mtu_searching M c \<longleftrightarrow>
     QUIC_INITIAL_MTU \<le> c_mtuLow c \<and> c_mtuLow c \<le> mtu_target M c \<and> mtu_target M c < c_mtuHigh c
     \<and> c_mtuHigh c \<le> mtuCeiling c + 1 \<and> c_mtu c = c_mtuLow c
     \<and> (if c_mtuHigh c \<le> c_mtuLow c + QUIC_PMTU_STEP then c_mtuState c = QUIC_MTU_DONE
        else c_mtuState c = QUIC_MTU_SEARCHING \<and> c_mtuTries c = 0
          \<and> c_mtuProbing c = c_mtuLow c + (c_mtuHigh c - c_mtuLow c) div 2)"

abbreviation (input) mtu_gap :: "QuicConn \<Rightarrow> nat" where
  "mtu_gap c \<equiv> c_mtuHigh c - c_mtuLow c"


section \<open>The search step\<close>

lemma mtuCeiling_cong:
  "c_peerTpValid c' = c_peerTpValid c \<Longrightarrow> c_peerTp c' = c_peerTp c \<Longrightarrow> mtuCeiling c' = mtuCeiling c"
  by (simp add: mtuCeiling_def)

lemma mtuCeiling_updates [simp]:
  "mtuCeiling (c\<lparr>c_mtuLow := x\<rparr>) = mtuCeiling c" "mtuCeiling (c\<lparr>c_mtuHigh := x\<rparr>) = mtuCeiling c"
  "mtuCeiling (c\<lparr>c_mtuProbing := x\<rparr>) = mtuCeiling c" "mtuCeiling (c\<lparr>c_mtuTries := x\<rparr>) = mtuCeiling c"
  "mtuCeiling (c\<lparr>c_mtu := x\<rparr>) = mtuCeiling c" "mtuCeiling (c\<lparr>c_recov := r\<rparr>) = mtuCeiling c"
  "mtuCeiling (c\<lparr>c_mtuState := st\<rparr>) = mtuCeiling c" "mtuCeiling (c\<lparr>c_mtuRaiseAt := t\<rparr>) = mtuCeiling c"
  by (rule mtuCeiling_cong; simp)+

lemma mtuCeiling_bounds: "QUIC_INITIAL_MTU \<le> mtuCeiling c" "mtuCeiling c \<le> QUIC_MAX_DATAGRAM"
  by (auto simp: mtuCeiling_def Let_def)

lemma mtuSearch_target [simp]: "mtu_target M (mtuSearch c now) = mtu_target M c"
  by (simp add: mtuSearch_def mtu_target_def Let_def)

lemma mtuSearch_gap:
  "QUIC_INITIAL_MTU \<le> c_mtuLow c \<Longrightarrow> c_mtuHigh c \<le> mtuCeiling c + 1
    \<Longrightarrow> mtu_gap (mtuSearch c now) = mtu_gap c"
  by (simp add: mtuSearch_def Let_def)

lemma mtuSearch_searching:
  assumes "QUIC_INITIAL_MTU \<le> c_mtuLow c" "c_mtuLow c \<le> mtu_target M c"
    "mtu_target M c < c_mtuHigh c" "c_mtuHigh c \<le> mtuCeiling c + 1" "c_mtu c = c_mtuLow c"
  shows "mtu_searching M (mtuSearch c now)"
  using assms by (auto simp: mtuSearch_def mtu_searching_def mtu_target_def Let_def)

lemma mtuProbeLost_thrice:
  assumes "c_mtuTries c = 0" "c_mtuProbing c < c_mtuHigh c"
  shows "((\<lambda>c1. mtuProbeLost c1 (c_mtuProbing c1) now) ^^ 3) c =
    mtuSearch (c\<lparr>c_mtuTries := 3, c_mtuHigh := c_mtuProbing c, c_mtuProbing := 0\<rparr>) now"
  using assms by (simp add: mtuProbeLost_def Let_def numeral_3_eq_3)

lemma mtu_round_searching:
  assumes "mtu_searching M c" "c_mtuState c = QUIC_MTU_SEARCHING"
  shows "mtu_searching M (mtu_round M now c)" "mtu_gap (mtu_round M now c) \<le> (mtu_gap c + 1) div 2"
    "mtu_target M (mtu_round M now c) = mtu_target M c"
proof -
  let ?p = "c_mtuProbing c"
  have w: "1200 \<le> c_mtuLow c" "c_mtuLow c \<le> mtu_target M c" "mtu_target M c < c_mtuHigh c"
    "c_mtuHigh c \<le> mtuCeiling c + 1" "c_mtu c = c_mtuLow c" "c_mtuTries c = 0"
    and p: "?p = c_mtuLow c + mtu_gap c div 2" "c_mtuLow c + 16 < c_mtuHigh c"
    using assms by (auto simp: mtu_searching_def split: if_splits)
  have lt: "c_mtuLow c < ?p" "?p < c_mtuHigh c" using p by linarith+
  have "mtu_searching M (mtu_round M now c) \<and> mtu_gap (mtu_round M now c) \<le> (mtu_gap c + 1) div 2
    \<and> mtu_target M (mtu_round M now c) = mtu_target M c"
  proof (cases "?p \<le> M")
    case True
    define c1 where "c1 = c\<lparr>c_mtuLow := ?p, c_mtu := ?p,
      c_recov := quicRecovSetMaxDatagram ?p (c_recov c), c_mtuProbing := 0\<rparr>"
    have r: "mtu_round M now c = mtuSearch c1 now"
      using True lt by (simp add: mtu_round_def mtuProbeAcked_def c1_def)
    have sel: "c_mtuLow c1 = ?p" "c_mtuHigh c1 = c_mtuHigh c" "c_mtu c1 = ?p"
      "mtuCeiling c1 = mtuCeiling c" "mtu_target M c1 = mtu_target M c"
      by (simp_all add: c1_def mtu_target_def mtuCeiling_def)
    have "?p \<le> mtu_target M c" using True lt w(4) by (simp add: mtu_target_def)
    then have "mtu_searching M (mtuSearch c1 now)"
      using w lt sel by (auto intro!: mtuSearch_searching)
    moreover have "mtu_gap (mtuSearch c1 now) = mtu_gap c1"
      using w lt sel by (intro mtuSearch_gap) simp_all
    moreover have "mtu_gap c1 \<le> (mtu_gap c + 1) div 2" using sel p by linarith
    ultimately show ?thesis by (simp add: r sel)
  next
    case False
    define c1 where "c1 = c\<lparr>c_mtuTries := 3, c_mtuHigh := ?p, c_mtuProbing := 0\<rparr>"
    have r: "mtu_round M now c = mtuSearch c1 now"
      using False w(6) lt(2) by (simp add: mtu_round_def mtuProbeLost_thrice c1_def)
    have sel: "c_mtuLow c1 = c_mtuLow c" "c_mtuHigh c1 = ?p" "c_mtu c1 = c_mtu c"
      "mtuCeiling c1 = mtuCeiling c" "mtu_target M c1 = mtu_target M c"
      by (simp_all add: c1_def mtu_target_def mtuCeiling_def)
    have "mtu_target M c < ?p" using False by (simp add: mtu_target_def)
    then have "mtu_searching M (mtuSearch c1 now)"
      using w lt sel by (auto intro!: mtuSearch_searching)
    moreover have "mtu_gap (mtuSearch c1 now) = mtu_gap c1"
      using w lt sel by (intro mtuSearch_gap) simp_all
    moreover have "mtu_gap c1 \<le> (mtu_gap c + 1) div 2" using sel p by linarith
    ultimately show ?thesis by (simp add: r sel)
  qed
  then show "mtu_searching M (mtu_round M now c)" "mtu_gap (mtu_round M now c) \<le> (mtu_gap c + 1) div 2"
    "mtu_target M (mtu_round M now c) = mtu_target M c" by blast+
qed

lemma mtu_run_searching:
  "mtu_searching M c \<Longrightarrow> mtu_gap c \<le> 15 * 2 ^ n + 1 \<Longrightarrow>
   mtu_searching M (mtu_run M now n c) \<and> c_mtuState (mtu_run M now n c) = QUIC_MTU_DONE
     \<and> mtu_target M (mtu_run M now n c) = mtu_target M c"
proof (induction n arbitrary: c)
  case 0
  then show ?case by (auto simp: mtu_searching_def)
next
  case (Suc n)
  show ?case
  proof (cases "c_mtuState c = QUIC_MTU_SEARCHING")
    case True
    note r = mtu_round_searching [OF Suc.prems(1) True, of now]
    have "(mtu_gap c + 1) div 2 \<le> 15 * 2 ^ n + 1" using Suc.prems(2) by simp
    then have "mtu_gap (mtu_round M now c) \<le> 15 * 2 ^ n + 1" using r(2) by linarith
    from Suc.IH [OF r(1) this] True r(3) show ?thesis by simp
  next
    case False
    with Suc.prems show ?thesis by (auto simp: mtu_searching_def split: if_splits)
  qed
qed


section \<open>Properties\<close>

text \<open>
  Path MTU discovery ends and finds the path: on a path that carries datagrams up to \<open>M\<close>
  bytes, a search started by \<^verbatim>\<open>mtuStart\<close> is over after at most five candidates, each tried at most
  three times, and leaves the connection sending datagrams that the path carries and that are not above the
  ceiling \<^verbatim>\<open>mtuCeiling\<close>, which is what the peer accepts and at most 1452 bytes; the size found is less than
  \<^verbatim>\<open>QUIC_PMTU_STEP\<close> bytes below the smaller of \<open>M\<close> and that ceiling. The search starts with the handshake
  confirmed, the path validated and datagrams of 1200 bytes, which the path carries.
\<close>

theorem mtu_search_converges:
  assumes "c_mtuState c = QUIC_MTU_IDLE" "c_handshakeConfirmed c" "c_pathValidated c"
    and "c_mtu c = QUIC_INITIAL_MTU" "QUIC_INITIAL_MTU \<le> M"
  shows "c_mtuState (mtu_run M now 5 (mtuStart c now)) = QUIC_MTU_DONE
    \<and> c_mtu (mtu_run M now 5 (mtuStart c now)) \<le> min M (mtuCeiling c)
    \<and> min M (mtuCeiling c) < c_mtu (mtu_run M now 5 (mtuStart c now)) + QUIC_PMTU_STEP"
proof -
  define c1 where "c1 = c\<lparr>c_mtuLow := 1200, c_mtuHigh := mtuCeiling c + 1\<rparr>"
  have start: "mtuStart c now = mtuSearch c1 now"
    using assms(1-3) by (simp add: mtuStart_def c1_def)
  have sel: "c_mtuLow c1 = 1200" "c_mtuHigh c1 = mtuCeiling c + 1" "c_mtu c1 = 1200"
    "mtuCeiling c1 = mtuCeiling c" "mtu_target M c1 = min M (mtuCeiling c)"
    using assms(4) by (simp_all add: c1_def mtu_target_def)
  have s: "mtu_searching M (mtuSearch c1 now)"
    using sel assms(5) mtuCeiling_bounds [of c] by (auto intro!: mtuSearch_searching)
  have g: "mtu_gap (mtuSearch c1 now) = mtu_gap c1"
    by (rule mtuSearch_gap) (simp_all add: sel)
  have "mtu_gap (mtuSearch c1 now) \<le> 15 * 2 ^ 5 + 1"
    using g sel mtuCeiling_bounds [of c] by simp
  from mtu_run_searching [OF s this, of now] show ?thesis
    unfolding start using sel(5) by (auto simp: mtu_searching_def split: if_splits)
qed

definition mtu_example :: QuicConn where
  "mtu_example = connZero\<lparr>c_mtu := 1200, c_handshakeConfirmed := True, c_pathValidated := True\<rparr>"

theorem mtu_search_converges_witness:
  "c_mtuState (mtu_run 1400 0 5 (mtuStart mtu_example 0)) = QUIC_MTU_DONE
    \<and> c_mtu (mtu_run 1400 0 5 (mtuStart mtu_example 0)) \<le> 1400
    \<and> 1384 < c_mtu (mtu_run 1400 0 5 (mtuStart mtu_example 0))"
proof -
  have "c_mtuState mtu_example = QUIC_MTU_IDLE" "c_handshakeConfirmed mtu_example"
    "c_pathValidated mtu_example" "c_mtu mtu_example = 1200" "mtuCeiling mtu_example = 1452"
    by (simp_all add: mtu_example_def connZero_def mtuCeiling_def)
  then show ?thesis using mtu_search_converges [of mtu_example 1400 0] by simp
qed

end
