(* ===== verification/QuicConnKeys.thy ===== *)
theory QuicConnKeys
  imports QuicConnLife
begin

text \<open>
  Key updates: \<^verbatim>\<open>tlsSecrets\<close>, \<^verbatim>\<open>keyUpdate\<close>, \<^verbatim>\<open>_quicConnUpdateKeys\<close> and \<^verbatim>\<open>openApp\<close> of
  \<^verbatim>\<open>src/cxquic/conn.c\<close>. The keys of a direction are a sequence of generations, each derived from the
  one before; a connection holds the current one for sending, and the previous, the current and
  the next one for receiving.
\<close>

section \<open>Generations\<close>

primrec key_gen :: "psa \<Rightarrow> QuicKeys \<Rightarrow> nat \<Rightarrow> QuicKeys" where
  "key_gen P k 0 = k"
| "key_gen P k (Suc n) = snd (quicKeysNext P keysZero (key_gen P k n))"

declare key_gen.simps(2) [simp del]

lemmas key_gen_Suc = key_gen.simps(2) [symmetric]

definition keys_at :: "psa \<Rightarrow> QuicKeys \<Rightarrow> QuicKeys \<Rightarrow> nat \<Rightarrow> QuicConn \<Rightarrow> bool" where
  "keys_at P rk tk n c \<longleftrightarrow>
     ps_rx (c_pns c QUIC_PNS_APP) = key_gen P rk n \<and> ps_tx (c_pns c QUIC_PNS_APP) = key_gen P tk n
     \<and> c_rxNext c = key_gen P rk (Suc n) \<and> c_keyPhase c = odd n
     \<and> (0 < n \<longrightarrow> c_rxPrev c = key_gen P rk (n - 1))"

text \<open>The key for header protection is made once and handed on, so every generation masks alike.\<close>

definition hp_import :: "QuicKeys \<Rightarrow> psa_key" where
  "hp_import k = \<lparr>pk_type = k_keyType k, pk_bits = k_keyLen k * 8, pk_usage = [PSA_KEY_USAGE_ENCRYPT],
     pk_alg = PSA_ALG_ECB_NO_PADDING, pk_bytes = take (k_keyLen k) (k_hpKey k)\<rparr>"

definition keys_hp :: "QuicKeys \<Rightarrow> bool" where
  "keys_hp k \<longleftrightarrow> k_hpChaCha k \<or> k_hp k = Some (hp_import k)"

lemma keysFinish_Some:
  assumes "keysFinish P k = (True, k1)"
  shows "k_valid k1" "keys_hp k1" "k_hpKey k1 = k_hpKey k" "k_hpChaCha k1 = k_hpChaCha k"
    "k_keyLen k1 = k_keyLen k" "k_keyType k1 = k_keyType k"
  using assms
  by (auto simp: keysFinish_def quicKeysImportHp_def quicKeysFromSecret_def keys_hp_def hp_import_def
      import_key_def Let_def split: if_splits option.splits prod.splits bool.splits)

lemma quicKeysNext_Some:
  assumes "quicKeysNext P z k = (True, k1)"
  shows "k_valid k" "k_valid k1" "keys_hp k1" "k_hpKey k1 = k_hpKey k" "k_hpChaCha k1 = k_hpChaCha k"
    "k_keyLen k1 = k_keyLen k" "k_keyType k1 = k_keyType k"
proof -
  show "k_valid k" using assms by (auto simp: quicKeysNext_def split: if_splits)
  obtain k0 where k0: "keysFinish P k0 = (True, k1)" "k_hpKey k0 = k_hpKey k" "k_hpChaCha k0 = k_hpChaCha k"
    "k_keyLen k0 = k_keyLen k" "k_keyType k0 = k_keyType k"
    using assms by (auto simp: quicKeysNext_def Let_def split: if_splits option.splits)
  note fin = keysFinish_Some [OF k0(1)]
  show "k_valid k1" "keys_hp k1" "k_hpKey k1 = k_hpKey k" "k_hpChaCha k1 = k_hpChaCha k"
    "k_keyLen k1 = k_keyLen k" "k_keyType k1 = k_keyType k"
    using fin k0(2-5) by simp_all
qed

lemma keysZero_invalid [simp]: "\<not> k_valid keysZero"
  by (simp add: keysZero_def)

lemma quicKeysNext_False: "quicKeysNext P keysZero k = (False, k1) \<Longrightarrow> k1 = keysZero"
  by (auto simp: quicKeysNext_def keysFinish_def quicKeysDestroy_def Let_def
      split: if_splits option.splits prod.splits bool.splits)

lemma key_gen_next:
  "k_valid (key_gen P k (Suc n)) \<Longrightarrow> quicKeysNext P keysZero (key_gen P k n) = (True, key_gen P k (Suc n))"
  by (cases "quicKeysNext P keysZero (key_gen P k n)"; cases "fst (quicKeysNext P keysZero (key_gen P k n))")
    (auto simp: key_gen.simps(2) dest: quicKeysNext_False)

lemma key_gen_mask:
  assumes "keys_hp k"
  shows "k_valid (key_gen P k n) \<Longrightarrow>
    keys_hp (key_gen P k n) \<and> quicHpMask P (key_gen P k n) = quicHpMask P k"
proof (induction n)
  case (Suc n)
  note nx = quicKeysNext_Some [OF key_gen_next [OF Suc.prems]]
  from Suc.IH [OF nx(1)] have "keys_hp (key_gen P k n)" "quicHpMask P (key_gen P k n) = quicHpMask P k" by auto
  moreover have "quicHpMask P (key_gen P k (Suc n)) s = quicHpMask P (key_gen P k n) s" for s
    using nx \<open>keys_hp (key_gen P k n)\<close>
    by (cases "k_hpChaCha (key_gen P k n)")
      (simp_all add: quicHpMask_def keys_hp_def hp_import_def)
  ultimately show ?case using nx(3) by (simp add: fun_eq_iff)
qed (use assms in simp)


section \<open>The operations\<close>

lemma keyUpdate_gen:
  assumes "keys_at P rk tk n c"
  shows "k_valid (key_gen P tk (Suc n)) \<Longrightarrow> keys_at P rk tk (Suc n) (keyUpdate P c pn now)
      \<and> c_rxPhaseFirst (keyUpdate P c pn now) = pn"
    and "\<not> k_valid (key_gen P tk (Suc n)) \<Longrightarrow> keyUpdate P c pn now = c"
proof -
  have tx: "ps_tx (c_pns c QUIC_PNS_APP) = key_gen P tk n" using assms by (simp add: keys_at_def)
  show "keys_at P rk tk (Suc n) (keyUpdate P c pn now) \<and> c_rxPhaseFirst (keyUpdate P c pn now) = pn"
    if "k_valid (key_gen P tk (Suc n))"
    using assms key_gen_next [OF that]
    by (simp add: keyUpdate_def tx Let_def keys_at_def setSpace_def key_gen_Suc)
  show "keyUpdate P c pn now = c" if "\<not> k_valid (key_gen P tk (Suc n))"
  proof -
    have "fst (quicKeysNext P keysZero (key_gen P tk n)) = False"
      using quicKeysNext_Some(2) [of P keysZero "key_gen P tk n" "key_gen P tk (Suc n)"] that
      by (cases "quicKeysNext P keysZero (key_gen P tk n)") (auto simp: key_gen.simps(2))
    then show ?thesis by (cases "quicKeysNext P keysZero (key_gen P tk n)") (simp add: keyUpdate_def tx Let_def)
  qed
qed

lemma keyUpdate_steps: "keys_at P rk tk n c \<Longrightarrow> \<exists>m. (m = n \<or> m = Suc n) \<and> keys_at P rk tk m (keyUpdate P c pn now)"
  using keyUpdate_gen [of P rk tk n c] by (cases "k_valid (key_gen P tk (Suc n))") auto

text \<open>What \<open>keys_at\<close> looks at.\<close>

definition same_keys :: "QuicConn \<Rightarrow> QuicConn \<Rightarrow> bool" where
  "same_keys c c1 \<longleftrightarrow> ps_rx (c_pns c1 QUIC_PNS_APP) = ps_rx (c_pns c QUIC_PNS_APP)
     \<and> ps_tx (c_pns c1 QUIC_PNS_APP) = ps_tx (c_pns c QUIC_PNS_APP)
     \<and> c_rxNext c1 = c_rxNext c \<and> c_rxPrev c1 = c_rxPrev c \<and> c_keyPhase c1 = c_keyPhase c"

lemma same_keys_at: "same_keys c c1 \<Longrightarrow> keys_at P rk tk n c1 = keys_at P rk tk n c"
  by (auto simp: same_keys_def keys_at_def)

lemma abort_same_keys: "same_keys c (quicConnAbort c err ft)"
  by (simp add: same_keys_def quicConnAbort_def quicConnClose_def connNotifyClosed_def fireHook_def)

lemma openApp_steps:
  assumes "keys_at P rk tk n c" "openApp P c h pkt outsz now = (out, c1, h1, pkt1)"
  shows "\<exists>m. (m = n \<or> m = Suc n) \<and> keys_at P rk tk m c1"
proof -
  have "c1 = keyUpdate P c (h_pn h1) now \<or> same_keys c c1"
    using assms(2) abort_same_keys
    by (auto simp: openApp_def Let_def same_keys_def split: prod.splits option.splits if_splits)
  then show ?thesis using keyUpdate_steps [OF assms(1)] same_keys_at [of c c1 P rk tk n] assms(1) by blast
qed

lemma quicConnUpdateKeys_steps:
  assumes "keys_at P rk tk n c" "quicConnUpdateKeys P c = (ok, c1)"
  shows "\<exists>m. (m = n \<or> m = Suc n) \<and> keys_at P rk tk m c1"
  using assms keyUpdate_steps [OF assms(1)]
  by (auto simp: quicConnUpdateKeys_def Let_def split: if_splits)

lemma quicKeysDerive_Some:
  assumes "quicKeysDerive P (Some su) secret = (True, k)"
  shows "k_valid k" "keys_hp k"
  using assms keysFinish_Some
  by (auto simp: quicKeysDerive_def Let_def split: if_splits option.splits)

text \<open>
  TLS installs the application secrets in one of two ways: a client gets both at once, a server first
  the one it sends with and, when the Finished of the client checks out, the one it receives with. In
  between it has no keys to open packets with, so that neither a packet nor an update moves the keys.
\<close>

definition app_secrets :: "psa \<Rightarrow> 16 word \<Rightarrow> u8 list \<Rightarrow> u8 list \<Rightarrow> QuicConn \<Rightarrow> QuicConn \<Rightarrow> bool" where
  "app_secrets P suite rs ws ci c0 \<longleftrightarrow>
     tlsSecrets P ci TLSQL_App suite (Some rs) (Some ws) = (True, c0)
     \<or> (\<exists>c1 c2. tlsSecrets P ci TLSQL_App suite None (Some ws) = (True, c1) \<and> same_keys c1 c2
          \<and> tlsSecrets P c2 TLSQL_App suite (Some rs) None = (True, c0))"

lemma no_update_without_keys: "\<not> k_valid (ps_rx (c_pns c QUIC_PNS_APP)) \<Longrightarrow> quicConnUpdateKeys P c = (False, c)"
  by (simp add: quicConnUpdateKeys_def Let_def)

text \<open>What one call installs.\<close>

lemma tlsSecrets_installs:
  assumes "tlsSecrets P c TLSQL_App suite rd wr = (True, c1)"
  shows "\<exists>su. tls13Suite suite = Some su
    \<and> (case rd of None \<Rightarrow> ps_rx (c_pns c1 QUIC_PNS_APP) = ps_rx (c_pns c QUIC_PNS_APP) \<and> c_rxNext c1 = c_rxNext c
        | Some rs \<Rightarrow> quicKeysDerive P (Some su) rs = (True, ps_rx (c_pns c1 QUIC_PNS_APP))
            \<and> c_rxNext c1 = snd (quicKeysNext P (c_rxNext c) (ps_rx (c_pns c1 QUIC_PNS_APP))))
    \<and> (case wr of None \<Rightarrow> ps_tx (c_pns c1 QUIC_PNS_APP) = ps_tx (c_pns c QUIC_PNS_APP)
        | Some ws \<Rightarrow> quicKeysDerive P (Some su) ws = (True, ps_tx (c_pns c1 QUIC_PNS_APP)))"
    and "c_keyPhase c1 = c_keyPhase c"
  using assms
  by (auto simp: tlsSecrets_def keysSetOpt_def keysSet_def setSpace_def Let_def
      split: option.splits prod.splits bool.splits if_splits)

lemma app_secrets_at:
  assumes "app_secrets P suite rs ws c c1" "\<not> c_keyPhase c"
  shows "keys_at P (ps_rx (c_pns c1 QUIC_PNS_APP)) (ps_tx (c_pns c1 QUIC_PNS_APP)) 0 c1"
    and "\<exists>su. tls13Suite suite = Some su \<and> quicKeysDerive P (Some su) rs = (True, ps_rx (c_pns c1 QUIC_PNS_APP))
      \<and> quicKeysDerive P (Some su) ws = (True, ps_tx (c_pns c1 QUIC_PNS_APP))"
proof -
  have "\<exists>su z. tls13Suite suite = Some su \<and> quicKeysDerive P (Some su) rs = (True, ps_rx (c_pns c1 QUIC_PNS_APP))
    \<and> quicKeysDerive P (Some su) ws = (True, ps_tx (c_pns c1 QUIC_PNS_APP))
    \<and> c_rxNext c1 = snd (quicKeysNext P z (ps_rx (c_pns c1 QUIC_PNS_APP))) \<and> \<not> c_keyPhase c1"
    using assms(1) unfolding app_secrets_def
  proof (elim disjE exE conjE)
    assume "tlsSecrets P c TLSQL_App suite (Some rs) (Some ws) = (True, c1)"
    from tlsSecrets_installs [OF this] show ?thesis using assms(2) by auto
  next
    fix a b
    assume i: "tlsSecrets P c TLSQL_App suite None (Some ws) = (True, a)" "same_keys a b"
      "tlsSecrets P b TLSQL_App suite (Some rs) None = (True, c1)"
    from tlsSecrets_installs [OF i(1)] tlsSecrets_installs [OF i(3)] show ?thesis
      using assms(2) i(2) by (auto simp: same_keys_def)
  qed
  then obtain su z where su: "tls13Suite suite = Some su"
    "quicKeysDerive P (Some su) rs = (True, ps_rx (c_pns c1 QUIC_PNS_APP))"
    "quicKeysDerive P (Some su) ws = (True, ps_tx (c_pns c1 QUIC_PNS_APP))"
    "c_rxNext c1 = snd (quicKeysNext P z (ps_rx (c_pns c1 QUIC_PNS_APP)))" "\<not> c_keyPhase c1" by blast
  have "snd (quicKeysNext P z (ps_rx (c_pns c1 QUIC_PNS_APP))) = snd (quicKeysNext P keysZero (ps_rx (c_pns c1 QUIC_PNS_APP)))"
    using quicKeysDerive_Some(1) [OF su(2)] by (simp add: quicKeysNext_def)
  then show "keys_at P (ps_rx (c_pns c1 QUIC_PNS_APP)) (ps_tx (c_pns c1 QUIC_PNS_APP)) 0 c1"
    using su(4,5) by (simp add: keys_at_def key_gen.simps(2))
  show "\<exists>su. tls13Suite suite = Some su \<and> quicKeysDerive P (Some su) rs = (True, ps_rx (c_pns c1 QUIC_PNS_APP))
      \<and> quicKeysDerive P (Some su) ws = (True, ps_tx (c_pns c1 QUIC_PNS_APP))"
    using su(1-3) by blast
qed


section \<open>Any number of updates\<close>

text \<open>
  What can happen to the keys once they are installed: packets arrive, this endpoint updates its
  keys, and anything else that leaves them alone.
\<close>

inductive key_run :: "psa \<Rightarrow> QuicConn \<Rightarrow> QuicConn \<Rightarrow> bool" for P c0 where
  start: "key_run P c0 c0"
| recv: "key_run P c0 c \<Longrightarrow> openApp P c h pkt outsz now = (out, c1, h1, pkt1) \<Longrightarrow> key_run P c0 c1"
| update: "key_run P c0 c \<Longrightarrow> quicConnUpdateKeys P c = (ok, c1) \<Longrightarrow> key_run P c0 c1"
| other: "key_run P c0 c \<Longrightarrow> same_keys c c1 \<Longrightarrow> key_run P c0 c1"

inductive_cases key_run_cases: "key_run P c0 c"

lemma key_run_at:
  "key_run P c0 c \<Longrightarrow> keys_at P rk tk 0 c0 \<Longrightarrow> \<exists>n. keys_at P rk tk n c"
proof (induction rule: key_run.induct)
  case (recv c h pkt outsz now out c1 h1 pkt1)
  then show ?case using openApp_steps by blast
next
  case (update c ok c1)
  then show ?case using quicConnUpdateKeys_steps by blast
next
  case (other c c1)
  then show ?case using same_keys_at by blast
qed blast

text \<open>
  What a receiver does with a packet of the next generation, and with one of the previous, when
  the current keys do not open it.
\<close>

lemma openApp_next:
  assumes "quicPktOpen P (ps_rx (c_pns c QUIC_PNS_APP)) h pkt (as_largest (ps_ack (c_pns c QUIC_PNS_APP))) m
      = (None, h1, pkt1)"
    and "quicPktOpen P (c_rxNext c) h1 pkt1 (as_largest (ps_ack (c_pns c QUIC_PNS_APP))) m = (Some out, h2, pkt2)"
    and "h_pnLen h1 \<noteq> 0" "h_keyPhase h1 \<noteq> c_keyPhase c" "k_valid (c_rxNext c)" "c_handshakeConfirmed c"
    and "c_keyUpdates c = 0 \<or> c_rxPhaseFirst c \<noteq> QUIC_PN_NONE \<and> c_rxPhaseFirst c \<le> h_pn h1"
  shows "openApp P c h pkt m now = (Some out, keyUpdate P c (h_pn h2) now, h2, pkt2)"
  using assms by (auto simp: openApp_def Let_def)

lemma openApp_prev:
  assumes "quicPktOpen P (ps_rx (c_pns c QUIC_PNS_APP)) h pkt (as_largest (ps_ack (c_pns c QUIC_PNS_APP))) m
      = (None, h1, pkt1)"
    and "quicPktOpen P (c_rxPrev c) h1 pkt1 (as_largest (ps_ack (c_pns c QUIC_PNS_APP))) m = (Some out, h2, pkt2)"
    and "h_pnLen h1 \<noteq> 0" "h_keyPhase h1 \<noteq> c_keyPhase c" "k_valid (c_rxPrev c)" "now < c_rxPrevUntil c"
    and "c_keyUpdates c > 0" "c_rxPhaseFirst c = QUIC_PN_NONE \<or> h_pn h1 < c_rxPhaseFirst c"
  shows "openApp P c h pkt m now = (Some out, c, h2, pkt2)"
  using assms by (auto simp: openApp_def Let_def)


text \<open>A packet sealed with generation \<open>j\<close> that generation \<open>i\<close> is tried on first.\<close>

lemma sealed_gen_opens:
  assumes "aead_ok P" "keys_hp rk" "k_valid (key_gen P rk i)" "k_valid (key_gen P rk j)"
    and ready: "seal_ready h pn payload buf" "h_type h = QUIC_PKT_SHORT"
    and seal: "quicPktSeal P (key_gen P rk j) buf (quicHdrSize h - h_pnLen h) (h_pnLen h) pn payload
      = Some (sz, out)"
    and pn: "pn < QUIC_MAX_PACKET_NUMBER" "pn_expected largest \<le> 2 ^ 62"
      "pn_expected largest < unat pn + 2 ^ (h_pnLen h * 8 - 1)"
      "unat pn \<le> pn_expected largest + 2 ^ (h_pnLen h * 8 - 1)"
    and room: "length payload \<le> m"
    and refused: "fst (quicPktOpen P (key_gen P rk i)
      (the (quicHdrDecode (take sz out) (length (h_dcid h)))) (take sz out) largest m) = None"
  obtains h1 h2 pkt1 where "quicHdrDecode (take sz out) (length (h_dcid h)) = Some h1"
    "quicPktOpen P (key_gen P rk i) h1 (take sz out) largest m = (None, h2, pkt1)"
    "quicPktOpen P (key_gen P rk j) h2 pkt1 largest m = (Some payload, h2, pkt1)"
    "h_pn h2 = pn" "h_pnLen h2 \<noteq> 0" "h_keyPhase h2 = h_keyPhase h"
proof -
  let ?k = "key_gen P rk j"
  from sealed_packet_opens [OF assms(1) ready(1) seal, of "[]" "length (h_dcid h)" largest] pn
  obtain h1 h2 ct where d: "quicHdrDecode (take sz out) (length (h_dcid h)) = Some h1"
    "\<And>m. length payload \<le> m \<Longrightarrow> quicAeadOpen P ?k pn (hdr_bytes h) ct m = Some payload"
    "\<And>k' m. quicHpMask P k' = quicHpMask P ?k \<Longrightarrow> quicPktOpen P k' h1 (take sz out) largest m =
        (quicAeadOpen P k' pn (hdr_bytes h) ct m, h2, hdr_bytes h @ ct)"
    "\<And>k' m. quicPktOpen P k' h2 (hdr_bytes h @ ct) largest m =
        (quicAeadOpen P k' pn (hdr_bytes h) ct m, h2, hdr_bytes h @ ct)"
    "h_pn h2 = pn" "h_pnLen h2 = h_pnLen h" "1 \<le> h_pnLen h" "h_keyPhase h2 = h_keyPhase h"
    using ready(2) by (simp only: append_Nil2) metis
  have "quicHpMask P (key_gen P rk i) = quicHpMask P ?k"
    using key_gen_mask [OF assms(2)] assms(3,4) by metis
  note first = d(3) [OF this, of m]
  then have "quicPktOpen P (key_gen P rk i) h1 (take sz out) largest m = (None, h2, hdr_bytes h @ ct)"
    using refused d(1) by simp
  moreover have "quicPktOpen P ?k h2 (hdr_bytes h @ ct) largest m = (Some payload, h2, hdr_bytes h @ ct)"
    using d(4) d(2) [OF room] by simp
  ultimately show thesis using that d(1,5-8) by simp
qed


section \<open>Properties\<close>

text \<open>
  Both directions move through the key generations together and one at a time. From the moment
  TLS has installed the two application secrets, at once as for a client or one after the other as for
  a server, whatever packets arrive and however often an update is asked for, the connection sends with some generation \<open>n\<close> and receives with the same, has
  generation \<open>n + 1\<close> ready and keeps \<open>n - 1\<close>, its key phase bit is the parity of \<open>n\<close>, and every
  generation it can use masks packet headers exactly as the first one did.
\<close>

theorem key_generations:
  assumes "app_secrets P suite rs ws ci c0" "\<not> c_keyPhase ci"
    and "key_run P c0 c"
  shows "\<exists>n su rk tk. tls13Suite suite = Some su \<and> quicKeysDerive P (Some su) rs = (True, rk)
    \<and> quicKeysDerive P (Some su) ws = (True, tk)
    \<and> ps_tx (c_pns c QUIC_PNS_APP) = key_gen P tk n \<and> ps_rx (c_pns c QUIC_PNS_APP) = key_gen P rk n
    \<and> c_rxNext c = key_gen P rk (n + 1) \<and> (n > 0 \<longrightarrow> c_rxPrev c = key_gen P rk (n - 1))
    \<and> c_keyPhase c = odd n
    \<and> (\<forall>m. k_valid (key_gen P rk m) \<longrightarrow> quicHpMask P (key_gen P rk m) = quicHpMask P rk)
    \<and> (\<forall>m. k_valid (key_gen P tk m) \<longrightarrow> quicHpMask P (key_gen P tk m) = quicHpMask P tk)"
proof -
  note app = app_secrets_at [OF assms(1,2)]
  let ?rk = "ps_rx (c_pns c0 QUIC_PNS_APP)" and ?tk = "ps_tx (c_pns c0 QUIC_PNS_APP)"
  obtain n where n: "keys_at P ?rk ?tk n c" using key_run_at [OF assms(3) app(1)] by blast
  obtain su where su: "tls13Suite suite = Some su" "quicKeysDerive P (Some su) rs = (True, ?rk)"
    "quicKeysDerive P (Some su) ws = (True, ?tk)" using app(2) by blast
  have "\<forall>m. k_valid (key_gen P k m) \<longrightarrow> quicHpMask P (key_gen P k m) = quicHpMask P k"
    if "keys_hp k" for k using key_gen_mask [OF that] by blast
  then show ?thesis
    using n su quicKeysDerive_Some(2) [OF su(2)] quicKeysDerive_Some(2) [OF su(3)]
    unfolding keys_at_def by (metis Suc_eq_plus1)
qed

text \<open>
  C19. A key update by the peer is followed, once the handshake is confirmed. A packet sealed with the
  next generation of keys, its phase bit flipped, which the current keys refuse and whose number is not
  below the first packet of the current generation (or any number, when no update has happened yet), is
  opened; and when the next keys for sending can be derived, the connection moves on to that generation in
  both directions, from that packet number on. (Before the handshake is confirmed the code closes the
  connection with KEY_UPDATE_ERROR instead.)
\<close>

theorem key_update_followed:
  assumes "aead_ok P" "keys_at P rk tk n c" "keys_hp rk"
    and valid: "k_valid (key_gen P rk n)" "k_valid (key_gen P rk (Suc n))" "k_valid (key_gen P tk (Suc n))"
    and ready: "seal_ready h pn payload buf" "h_type h = QUIC_PKT_SHORT" "h_keyPhase h = odd (Suc n)"
    and seal: "quicPktSeal P (key_gen P rk (Suc n)) buf (quicHdrSize h - h_pnLen h) (h_pnLen h) pn payload
      = Some (sz, out)"
    and largest: "largest = as_largest (ps_ack (c_pns c QUIC_PNS_APP))"
    and pn: "pn < QUIC_MAX_PACKET_NUMBER" "pn_expected largest \<le> 2 ^ 62"
      "pn_expected largest < unat pn + 2 ^ (h_pnLen h * 8 - 1)"
      "unat pn \<le> pn_expected largest + 2 ^ (h_pnLen h * 8 - 1)"
    and room: "length payload \<le> m"
    and refused: "fst (quicPktOpen P (ps_rx (c_pns c QUIC_PNS_APP))
      (the (quicHdrDecode (take sz out) (length (h_dcid h)))) (take sz out) largest m) = None"
    and phase: "c_handshakeConfirmed c"
      "c_keyUpdates c = 0 \<or> c_rxPhaseFirst c \<noteq> QUIC_PN_NONE \<and> c_rxPhaseFirst c \<le> pn"
  shows "\<exists>h1 h2 c1 pkt1. quicHdrDecode (take sz out) (length (h_dcid h)) = Some h1
    \<and> openApp P c h1 (take sz out) m now = (Some payload, c1, h2, pkt1)
    \<and> keys_at P rk tk (Suc n) c1 \<and> h_pn h2 = pn \<and> c_rxPhaseFirst c1 = pn"
proof -
  have at: "ps_rx (c_pns c QUIC_PNS_APP) = key_gen P rk n" "c_rxNext c = key_gen P rk (Suc n)" "c_keyPhase c = odd n"
    using assms(2) by (simp_all add: keys_at_def)
  obtain h1 h2 pkt1 where o: "quicHdrDecode (take sz out) (length (h_dcid h)) = Some h1"
    "quicPktOpen P (key_gen P rk n) h1 (take sz out) largest m = (None, h2, pkt1)"
    "quicPktOpen P (key_gen P rk (Suc n)) h2 pkt1 largest m = (Some payload, h2, pkt1)"
    "h_pn h2 = pn" "h_pnLen h2 \<noteq> 0" "h_keyPhase h2 = h_keyPhase h"
    using sealed_gen_opens [OF assms(1,3) valid(1,2) ready(1,2) seal pn room refused [unfolded at]] by blast
  have "openApp P c h1 (take sz out) m now = (Some payload, keyUpdate P c (h_pn h2) now, h2, pkt1)"
    using o(2,3,5,6) ready(3) at valid(2) phase(1) phase(2) [folded o(4)]
    by (intro openApp_next) (simp_all add: largest)
  moreover have "keys_at P rk tk (Suc n) (keyUpdate P c pn now)" "c_rxPhaseFirst (keyUpdate P c pn now) = pn"
    using keyUpdate_gen(1) [OF assms(2) valid(3)] by auto
  ultimately show ?thesis
    using o(1,4) by - (rule exI [of _ h1], rule exI [of _ h2], rule exI [of _ "keyUpdate P c pn now"],
      rule exI [of _ pkt1], simp)
qed

text \<open>
  C20. Nothing a key update overtook is lost: until the old keys expire, a packet sealed with the
  previous generation and numbered below the first of the current one still opens, and leaves the
  keys where they are.
\<close>

theorem late_packet_opens:
  assumes "aead_ok P" "keys_at P rk tk (Suc n) c" "keys_hp rk"
    and valid: "k_valid (key_gen P rk (Suc n))" "k_valid (key_gen P rk n)"
    and ready: "seal_ready h pn payload buf" "h_type h = QUIC_PKT_SHORT" "h_keyPhase h = odd n"
    and seal: "quicPktSeal P (key_gen P rk n) buf (quicHdrSize h - h_pnLen h) (h_pnLen h) pn payload
      = Some (sz, out)"
    and largest: "largest = as_largest (ps_ack (c_pns c QUIC_PNS_APP))"
    and pn: "pn < QUIC_MAX_PACKET_NUMBER" "pn_expected largest \<le> 2 ^ 62"
      "pn_expected largest < unat pn + 2 ^ (h_pnLen h * 8 - 1)"
      "unat pn \<le> pn_expected largest + 2 ^ (h_pnLen h * 8 - 1)"
    and room: "length payload \<le> m"
    and refused: "fst (quicPktOpen P (ps_rx (c_pns c QUIC_PNS_APP))
      (the (quicHdrDecode (take sz out) (length (h_dcid h)))) (take sz out) largest m) = None"
    and phase: "c_keyUpdates c > 0" "c_rxPhaseFirst c = QUIC_PN_NONE \<or> pn < c_rxPhaseFirst c"
      "now < c_rxPrevUntil c"
  shows "\<exists>h1 h2 pkt1. quicHdrDecode (take sz out) (length (h_dcid h)) = Some h1
    \<and> openApp P c h1 (take sz out) m now = (Some payload, c, h2, pkt1) \<and> h_pn h2 = pn"
proof -
  have at: "ps_rx (c_pns c QUIC_PNS_APP) = key_gen P rk (Suc n)" "c_rxPrev c = key_gen P rk n" "c_keyPhase c = even n"
    using assms(2) by (simp_all add: keys_at_def)
  obtain h1 h2 pkt1 where o: "quicHdrDecode (take sz out) (length (h_dcid h)) = Some h1"
    "quicPktOpen P (key_gen P rk (Suc n)) h1 (take sz out) largest m = (None, h2, pkt1)"
    "quicPktOpen P (key_gen P rk n) h2 pkt1 largest m = (Some payload, h2, pkt1)"
    "h_pn h2 = pn" "h_pnLen h2 \<noteq> 0" "h_keyPhase h2 = h_keyPhase h"
    using sealed_gen_opens [OF assms(1,3) valid ready(1,2) seal pn room refused [unfolded at]] by blast
  have "openApp P c h1 (take sz out) m now = (Some payload, c, h2, pkt1)"
    using o(2,3,5,6) ready(3) at valid(2) phase(1,3) phase(2) [folded o(4)]
    by (intro openApp_prev) (simp_all add: largest)
  then show ?thesis
    using o(1,4) by - (rule exI [of _ h1], rule exI [of _ h2], rule exI [of _ pkt1], simp)
qed


section \<open>Examples\<close>

text \<open>
  A provider whose key derivation adds one to each byte of the secret, and the keys it makes from a
  secret of equal bytes: each generation is the one before with all its bytes one larger.
\<close>

definition psa_step :: psa where
  "psa_step = psa_example\<lparr>psa_hkdf_expand :=
     (\<lambda>a sec info n. Some (take n (map (\<lambda>b. b + 1) (sec @ info @ replicate n 2))))\<rparr>"

lemma psa_step_aead: "aead_ok psa_step"
proof -
  have "psa_aead_encrypt psa_step = psa_aead_encrypt psa_example"
    "psa_aead_decrypt psa_step = psa_aead_decrypt psa_example"
    by (simp_all add: psa_step_def)
  then show ?thesis using psa_example_aead unfolding aead_ok_def by (simp only:)
qed

lemma psa_step_total: "psa_total psa_step"
  by (simp add: psa_total_def psa_step_def psa_example_def tlsInit_def)

lemma psa_step_expand:
  assumes "tls13HashLen hash \<noteq> 0" "n \<le> 64" "n \<le> length sec" "length label \<le> 249"
  shows "tls13ExpandLabel psa_step hash sec label [] n = Some (map (\<lambda>b. b + 1) (take n sec))"
proof -
  have "n \<le> 0xffff" "tlsInit psa_step" using assms(2) psa_step_total by (simp_all add: psa_total_def)
  from tls13ExpandLabel_ok [OF assms(1) this assms(4), of "[]" sec] show ?thesis
    using assms(3) by (auto simp: psa_step_def take_map)
qed

definition step_key :: "u8 \<Rightarrow> QuicKeys" where
  "step_key s = keysZero\<lparr>k_aead := Some \<lparr>pk_type = PSA_KEY_TYPE_AES, pk_bits = 128,
       pk_usage = [PSA_KEY_USAGE_ENCRYPT, PSA_KEY_USAGE_DECRYPT], pk_alg = PSA_ALG_GCM,
       pk_bytes = replicate 16 (s + 1)\<rparr>,
     k_hp := Some \<lparr>pk_type = PSA_KEY_TYPE_AES, pk_bits = 128, pk_usage = [PSA_KEY_USAGE_ENCRYPT],
       pk_alg = PSA_ALG_ECB_NO_PADDING, pk_bytes = replicate 16 9\<rparr>,
     k_aeadAlg := PSA_ALG_GCM, k_hash := PSA_ALG_SHA_256, k_keyType := PSA_KEY_TYPE_AES,
     k_iv := replicate 12 (s + 1), k_hpKey := replicate 16 9, k_secret := replicate 32 s,
     k_secretLen := 32, k_keyLen := 16, k_valid := True\<rparr>"

lemma step_key_hp: "keys_hp (step_key s)" "k_valid (step_key s)"
  by (simp_all add: keys_hp_def hp_import_def step_key_def)

lemma step_key_next: "quicKeysNext psa_step z (step_key s) = (True, step_key (s + 1))"
proof -
  have "psa_import_key psa_step k" for k using psa_step_total by (simp add: psa_total_def)
  then show ?thesis
    by (simp add: quicKeysNext_def step_key_def keysFinish_def quicKeysImportHp_def quicKeysFromSecret_def
        import_key_def psa_step_expand keysZero_def Let_def)
qed

lemma step_key_gen: "key_gen psa_step (step_key s) n = step_key (s + of_nat n)"
proof (induction n)
  case (Suc n)
  then show ?case using step_key_next [of keysZero "s + of_nat n"] by (simp add: key_gen.simps(2) ac_simps)
qed simp

text \<open>A connection at the given generation.\<close>

definition step_conn :: "nat \<Rightarrow> QuicConn" where
  "step_conn n = connZero\<lparr>c_handshakeConfirmed := True, c_keyPhase := odd n, c_keyUpdates := of_nat n,
     c_rxPhaseFirst := (if n = 0 then QUIC_PN_NONE else 0xab2000), c_rxPrevUntil := 1000,
     c_rxPrev := step_key (5 + of_nat n - 1), c_rxNext := step_key (5 + of_nat n + 1),
     c_pns := (\<lambda>_. spaceZero\<lparr>ps_rx := step_key (5 + of_nat n), ps_tx := step_key (20 + of_nat n),
       ps_ack := ackZero\<lparr>as_largest := 0xab1200\<rparr>\<rparr>)\<rparr>"

lemma step_conn_at: "keys_at psa_step (step_key 5) (step_key 20) n (step_conn n)"
  by (cases n) (simp_all add: keys_at_def step_conn_def step_key_gen ac_simps)

lemma step_conn_fields:
  "c_handshakeConfirmed (step_conn n)" "c_keyUpdates (step_conn 0) = 0" "c_keyUpdates (step_conn 2) = 2"
  "c_rxPhaseFirst (step_conn 2) = 0xab2000" "c_rxPrevUntil (step_conn n) = 1000"
  "as_largest (ps_ack (c_pns (step_conn n) QUIC_PNS_APP)) = 0xab1200"
  "ps_rx (c_pns (step_conn n) QUIC_PNS_APP) = step_key (5 + of_nat n)"
  by (simp_all add: step_conn_def)

definition step_sealed :: "nat \<times> u8 list" where
  "step_sealed = the (quicPktSeal psa_step (step_key 6) example_buf 3 2 0xab1234 [9, 8, 7])"

lemma step_sealed_ok:
  "quicPktSeal psa_step (step_key 6) example_buf (quicHdrSize example_short - h_pnLen example_short)
     (h_pnLen example_short) 0xab1234 [9, 8, 7] = Some (fst step_sealed, snd step_sealed)"
proof -
  have "quicPktSeal psa_step (step_key 6) example_buf 3 2 0xab1234 [9, 8, 7] \<noteq> None" by code_simp
  then show ?thesis by (auto simp: step_sealed_def example_short_size) (simp add: example_short_def)
qed

lemma step_refused:
  "fst (quicPktOpen psa_step (step_key 5) (the (quicHdrDecode (take (fst step_sealed) (snd step_sealed)) 2))
     (take (fst step_sealed) (snd step_sealed)) 0xab1200 1500) = None"
  "fst (quicPktOpen psa_step (step_key 7) (the (quicHdrDecode (take (fst step_sealed) (snd step_sealed)) 2))
     (take (fst step_sealed) (snd step_sealed)) 0xab1200 1500) = None"
  by code_simp+

lemma example_short_fields:
  "h_type example_short = QUIC_PKT_SHORT" "h_pnLen example_short = 2" "h_dcid example_short = [1, 2]"
  "h_keyPhase example_short"
  by (simp_all add: example_short_def)

text \<open>A server that gets its two secrets one after the other, is confirmed and updates its keys.\<close>

definition first_secret :: QuicConn where
  "first_secret = snd (tlsSecrets psa_step (connZero\<lparr>c_server := True\<rparr>) TLSQL_App TLS13_AES_128_GCM_SHA256 None (Some (replicate 32 8)))"

definition both_secrets :: QuicConn where
  "both_secrets = snd (tlsSecrets psa_step first_secret TLSQL_App TLS13_AES_128_GCM_SHA256 (Some (replicate 32 8)) None)"

lemma step_key_derive:
  "tls13Suite TLS13_AES_128_GCM_SHA256 = Some su \<Longrightarrow> quicKeysDerive psa_step (Some su) (replicate 32 8) = (True, step_key 8)"
proof -
  have "psa_import_key psa_step k" "quicInit psa_step" for k
    using psa_step_total by (simp_all add: psa_total_def quicInit_def)
  then show "quicKeysDerive psa_step (Some su) (replicate 32 8) = (True, step_key 8)"
    if "tls13Suite TLS13_AES_128_GCM_SHA256 = Some su"
    using that by (auto simp: quicKeysDerive_def step_key_def keysFinish_def quicKeysImportHp_def quicKeysFromSecret_def
        import_key_def psa_step_expand keysZero_def Let_def tls13Suite_def tls13Suites_def)
qed

lemma both_secrets_app:
  "app_secrets psa_step TLS13_AES_128_GCM_SHA256 (replicate 32 8) (replicate 32 8) (connZero\<lparr>c_server := True\<rparr>) both_secrets"
proof -
  obtain su where su: "tls13Suite TLS13_AES_128_GCM_SHA256 = Some su" by (simp add: tls13Suite_def tls13Suites_def)
  have "tlsSecrets psa_step (connZero\<lparr>c_server := True\<rparr>) TLSQL_App TLS13_AES_128_GCM_SHA256 None (Some (replicate 32 8)) = (True, first_secret)"
    "tlsSecrets psa_step first_secret TLSQL_App TLS13_AES_128_GCM_SHA256 (Some (replicate 32 8)) None = (True, both_secrets)"
    unfolding first_secret_def both_secrets_def
    using step_key_derive [OF su] su by (simp_all add: tlsSecrets_def keysSetOpt_def keysSet_def Let_def)
  moreover have "same_keys first_secret first_secret" by (simp add: same_keys_def)
  ultimately show ?thesis unfolding app_secrets_def by blast
qed

definition updated_example :: QuicConn where
  "updated_example = snd (quicConnUpdateKeys psa_step (both_secrets\<lparr>c_handshakeConfirmed := True\<rparr>))"

lemma updated_example_phase: "c_keyPhase updated_example"
proof -
  obtain su where su: "tls13Suite TLS13_AES_128_GCM_SHA256 = Some su" by (simp add: tls13Suite_def tls13Suites_def)
  have "ps_rx (c_pns both_secrets QUIC_PNS_APP) = step_key 8" "ps_tx (c_pns both_secrets QUIC_PNS_APP) = step_key 8"
    "c_rxNext both_secrets = step_key 9" "\<not> c_keyPhase both_secrets" "c_keyUpdates both_secrets = 0"
    unfolding first_secret_def both_secrets_def
    using step_key_derive [OF su] su step_key_next [of _ 8]
    by (simp_all add: tlsSecrets_def keysSetOpt_def keysSet_def Let_def setSpace_def connZero_def)
  then show ?thesis
    using step_key_next [of keysZero 8]
    by (simp add: updated_example_def quicConnUpdateKeys_def step_key_hp(2) keyUpdate_def Let_def setSpace_def)
qed

theorem key_generations_witness:
  "\<exists>n tk. odd n \<and> ps_tx (c_pns updated_example QUIC_PNS_APP) = key_gen psa_step tk n"
proof -
  have "key_run psa_step both_secrets (both_secrets\<lparr>c_handshakeConfirmed := True\<rparr>)"
    by (rule key_run.other [OF key_run.start]) (simp add: same_keys_def)
  from key_run.update [OF this] have "key_run psa_step both_secrets updated_example"
    unfolding updated_example_def by (metis prod.collapse)
  moreover have "\<not> c_keyPhase (connZero\<lparr>c_server := True\<rparr>)" by (simp add: connZero_def)
  ultimately show ?thesis using key_generations [OF both_secrets_app] updated_example_phase by blast
qed

theorem key_update_followed_witness:
  "\<exists>h1 h2 c1 pkt1. quicHdrDecode (take (fst step_sealed) (snd step_sealed)) 2 = Some h1
    \<and> openApp psa_step (step_conn 0) h1 (take (fst step_sealed) (snd step_sealed)) 1500 7
        = (Some [9, 8, 7], c1, h2, pkt1) \<and> keys_at psa_step (step_key 5) (step_key 20) 1 c1 \<and> h_pn h2 = 0xab1234"
proof -
  have seal: "quicPktSeal psa_step (key_gen psa_step (step_key 5) (Suc 0)) example_buf
      (quicHdrSize example_short - h_pnLen example_short) (h_pnLen example_short) 0xab1234 [9, 8, 7]
      = Some (fst step_sealed, snd step_sealed)"
    using step_sealed_ok by (simp add: step_key_gen)
  have "\<exists>h1 h2 c1 pkt1. quicHdrDecode (take (fst step_sealed) (snd step_sealed)) (length (h_dcid example_short)) = Some h1
    \<and> openApp psa_step (step_conn 0) h1 (take (fst step_sealed) (snd step_sealed)) 1500 7
        = (Some [9, 8, 7], c1, h2, pkt1) \<and> keys_at psa_step (step_key 5) (step_key 20) (Suc 0) c1
    \<and> h_pn h2 = 0xab1234 \<and> c_rxPhaseFirst c1 = 0xab1234"
    by (rule key_update_followed [OF psa_step_aead step_conn_at step_key_hp(1) _ _ _ example_short_ready _ _ seal
          refl])
      (simp_all add: step_key_gen step_key_hp example_short_fields step_conn_fields step_refused [unfolded numeral_2_eq_2]
        pn_expected_def QUIC_MAX_PACKET_NUMBER_def)
  then show ?thesis by (simp add: example_short_fields numeral_2_eq_2) blast
qed

theorem late_packet_opens_witness:
  "\<exists>h1 h2 pkt1. quicHdrDecode (take (fst step_sealed) (snd step_sealed)) 2 = Some h1
    \<and> openApp psa_step (step_conn 2) h1 (take (fst step_sealed) (snd step_sealed)) 1500 7
        = (Some [9, 8, 7], step_conn 2, h2, pkt1) \<and> h_pn h2 = 0xab1234"
proof -
  have seal: "quicPktSeal psa_step (key_gen psa_step (step_key 5) 1) example_buf
      (quicHdrSize example_short - h_pnLen example_short) (h_pnLen example_short) 0xab1234 [9, 8, 7]
      = Some (fst step_sealed, snd step_sealed)"
    using step_sealed_ok by (simp add: step_key_gen)
  have at: "keys_at psa_step (step_key 5) (step_key 20) (Suc 1) (step_conn 2)"
    using step_conn_at [of 2] by (simp add: numeral_2_eq_2)
  have "\<exists>h1 h2 pkt1. quicHdrDecode (take (fst step_sealed) (snd step_sealed)) (length (h_dcid example_short)) = Some h1
    \<and> openApp psa_step (step_conn 2) h1 (take (fst step_sealed) (snd step_sealed)) 1500 7
        = (Some [9, 8, 7], step_conn 2, h2, pkt1) \<and> h_pn h2 = 0xab1234"
    by (rule late_packet_opens [OF psa_step_aead at step_key_hp(1) _ _ example_short_ready _ _ seal refl])
      (simp_all add: step_key_gen step_key_hp example_short_fields step_conn_fields step_refused [unfolded numeral_2_eq_2]
        pn_expected_def QUIC_MAX_PACKET_NUMBER_def word_less_nat_alt)
  then show ?thesis by (simp add: example_short_fields numeral_2_eq_2)
qed

end
