(* ===== verification/QuicConnSend.thy ===== *)
theory QuicConnSend
  imports QuicConnLife
begin

text \<open>
  What a connection sends: the frames of a payload, the packets of a datagram, path MTU probes and
  the answers to a path challenge from elsewhere, as \<^verbatim>\<open>src/cxquic/conn.c\<close> builds them.

  \<open>conn_env\<close> collects what surrounds a connection: the cryptography provider, the allocator, the
  random numbers, the answer of the \<^verbatim>\<open>send\<close> handler (which may depend on everything reported so far,
  the datagram being last) and the TLS engine. A call into the TLS engine is the tree of the calls it
  makes back into the connection before it returns, each with the rest of the call for either answer;
  \<open>ce_tlsRecv i\<close> is the \<open>i\<close>-th call.

  The scratch buffer of the connection holds payloads between building and sealing them. The model
  keeps them in the plan of the datagram, and \<open>scratchUsed\<close> counts what they take of the buffer.
\<close>

section \<open>The surroundings of a connection\<close>

datatype tls_act =
    TlsReturn bool
  | TlsSendCrypto TlsQuicLevel "u8 list" "bool \<Rightarrow> tls_act"
  | TlsSecrets TlsQuicLevel "16 word" "u8 list option" "u8 list option" "bool \<Rightarrow> tls_act"
  | TlsTransportParams "u8 list" "bool \<Rightarrow> tls_act"
  | TlsEarlyParams "u8 list" "bool \<Rightarrow> tls_act"
  | TlsEarlyData bool tls_act
  | TlsComplete tls_act
  | TlsAlert u8 tls_act

record conn_env =
  ce_psa :: psa
  ce_xalloc :: xalloc
  ce_rnd :: "nat \<Rightarrow> nat \<Rightarrow> u8 list option"
  ce_send :: "ConnEvent list \<Rightarrow> bool"
  ce_tlsStart :: "nat \<Rightarrow> tls_act"
  ce_tlsRecv :: "nat \<Rightarrow> TlsQuicLevel \<Rightarrow> u8 list \<Rightarrow> tls_act"

abbreviation (input) QUIC_FLUSH_MAX_DATAGRAMS :: nat where "QUIC_FLUSH_MAX_DATAGRAMS \<equiv> 16"
abbreviation (input) QUIC_MIN_PN_PAYLOAD :: nat where "QUIC_MIN_PN_PAYLOAD \<equiv> 4"
abbreviation (input) QUIC_MIN_SEND_ROOM :: nat where
  "QUIC_MIN_SEND_ROOM \<equiv> 1 + QUIC_MAX_CID + 4 + QUIC_TAG_LEN + QUIC_MIN_PN_PAYLOAD"
abbreviation (input) QUIC_MAX_ACK_RANGES :: nat where "QUIC_MAX_ACK_RANGES \<equiv> 32"
abbreviation (input) QUIC_ERR_APPLICATION_ERROR :: u64 where "QUIC_ERR_APPLICATION_ERROR \<equiv> 0x0c"
abbreviation (input) QUIC_SENT_ECT0 :: u8 where "QUIC_SENT_ECT0 \<equiv> 0x01"
abbreviation (input) QUIC_SENT_PMTU_PROBE :: u8 where "QUIC_SENT_PMTU_PROBE \<equiv> 0x02"

definition pathInfo :: "QuicConn \<Rightarrow> NetPktInfo" where
  "pathInfo c =
     \<lparr>pi_local = (if c_haveLocal c then c_localAddr c else addrZero),
      pi_ecn = (if c_ecnState c \<noteq> QUIC_ECN_OFF then NET_ECN_Ect0 else NET_ECN_NotEct),
      pi_haveLocal = c_haveLocal c, pi_haveEcn = (c_ecnState c \<noteq> QUIC_ECN_OFF)\<rparr>"

definition pnMask :: "nat \<Rightarrow> u64" where
  "pnMask pnLen = push_bit (pnLen * 8) 1 - 1"


section \<open>The frames of a payload\<close>

text \<open>The loop of \<^verbatim>\<open>putAck\<close>: the first \<open>n\<close> ranges, then one less at a time.\<close>

fun putAckTry ::
  "u64 \<Rightarrow> QuicAckRange list \<Rightarrow> (u64 \<times> u64 \<times> u64) option \<Rightarrow> nat \<Rightarrow> QuicWr \<Rightarrow> bool \<times> QuicWr" where
  "putAckTry delay ranges ecn 0 wr = (False, wr)"
| "putAckTry delay ranges ecn (Suc n) wr =
     (case quicAckBuild delay (take (Suc n) ranges) ecn (replicate (QUIC_MAX_ACK_RANGES * 20) 0) of
        None \<Rightarrow> putAckTry delay ranges ecn n wr
      | Some f \<Rightarrow>
          case putFrame wr f of
            (False, wr1) \<Rightarrow> putAckTry delay ranges ecn n wr1
          | (True, wr1) \<Rightarrow> (True, wr1))"

definition putAck :: "QuicConn \<Rightarrow> QuicPnSpaceId \<Rightarrow> QuicWr \<Rightarrow> u64 \<Rightarrow> int \<Rightarrow> QuicConn \<times> QuicWr" where
  "putAck c sp wr pn now =
     (let as = ps_ack (c_pns c sp) in
      if \<not> as_pending as \<or> as_ranges as = [] then (c, wr)
      else
        let ex = (if sp = QUIC_PNS_APP then unat (tp_ackDelayExponent (c_localTp c))
                  else QUIC_HS_ACK_DELAY_EXP);
            elapsed = (if now - as_largestTime as < 0 then 0 else now - as_largestTime as);
            delay = drop_bit ex (word_of_int elapsed);
            ecn = (if as_ecnSeen as then Some (as_ect0 as, as_ect1 as, as_ce as) else None)
        in case putAckTry delay (as_ranges as) ecn (length (as_ranges as)) wr of
             (False, wr1) \<Rightarrow> (c, wr1)
           | (True, wr1) \<Rightarrow>
               (setSpace sp ((c_pns c sp)\<lparr>ps_ack := as\<lparr>as_pending := False, as_elicitCount := 0,
                  as_deadline := 0, as_sentPn := pn\<rparr>\<rparr>) c, wr1))"

definition putClose :: "QuicConn \<Rightarrow> QuicPnSpaceId \<Rightarrow> QuicWr \<Rightarrow> QuicWr" where
  "putClose c sp wr =
     (let asApp = (c_closeApp c \<and> sp = QUIC_PNS_APP);
          err = (if asApp then c_closeError c
                 else if c_closeApp c then QUIC_ERR_APPLICATION_ERROR else c_closeError c);
          ft = (if asApp then None else Some (c_closeFrameType c));
          reason = (if c_closeApp c \<and> \<not> asApp then [] else c_closeReason c)
      in if reason \<noteq> [] then
           case putFrame wr (FConnClose err ft reason) of
             (True, wr1) \<Rightarrow> wr1
           | (False, wr1) \<Rightarrow> snd (putFrame wr1 (FConnClose err ft []))
         else snd (putFrame wr (FConnClose err ft [])))"

definition cryptoOverhead :: "QuicSendBuf \<Rightarrow> nat" where
  "cryptoOverhead sb = 1 + quicVarintSize (sb_end sb) + 2"

definition putCryptoFrame :: "QuicWr \<Rightarrow> u64 \<Rightarrow> u8 list \<Rightarrow> bool \<times> QuicWr" where
  "putCryptoFrame wr off data = putFrame wr (FCrypto off data)"

text \<open>The loop of \<^verbatim>\<open>putCrypto\<close> on the send buffer of the space.\<close>

function cryptoFill :: "QuicSendBuf \<Rightarrow> QuicWr \<Rightarrow> u64 \<Rightarrow> bool \<Rightarrow> QuicSendBuf \<times> QuicWr \<times> bool" where
  "cryptoFill sb wr pn el =
     (let overhead = cryptoOverhead sb; left = quicWrLeft wr in
      if left \<le> overhead then (sb, wr, el)
      else
        case quicSendBufNext sb (left - overhead) of
          None \<Rightarrow> (sb, wr, el)
        | Some (off, data) \<Rightarrow>
            case putCryptoFrame wr off data of
              (False, wr1) \<Rightarrow> (sb, wr1, el)
            | (True, wr1) \<Rightarrow> cryptoFill (quicSendBufSent sb off (length data) pn) wr1 pn True)"
  by pat_completeness auto
termination
  by (relation "measure (\<lambda>(sb, wr, pn, el). quicWrLeft wr)")
    (auto simp: putCryptoFrame_def dest: putFrame_shrinks [OF sym])

declare cryptoFill.simps [simp del]

definition putCrypto ::
  "QuicConn \<Rightarrow> QuicPnSpaceId \<Rightarrow> QuicWr \<Rightarrow> u64 \<Rightarrow> bool \<Rightarrow> QuicConn \<times> QuicWr \<times> bool" where
  "putCrypto c sp wr pn el =
     (case cryptoFill (ps_cryptoOut (c_pns c sp)) wr pn el of
        (sb, wr1, el1) \<Rightarrow> (setSpace sp ((c_pns c sp)\<lparr>ps_cryptoOut := sb\<rparr>) c, wr1, el1))"

definition putCryptoProbe :: "QuicConn \<Rightarrow> QuicPnSpaceId \<Rightarrow> QuicWr \<Rightarrow> bool \<Rightarrow> bool \<times> QuicWr \<times> bool" where
  "putCryptoProbe c sp wr el =
     (let sb = ps_cryptoOut (c_pns c sp); overhead = cryptoOverhead sb; left = quicWrLeft wr in
      if left \<le> overhead then (False, wr, el)
      else
        case quicSendBufProbe sb (left - overhead) of
          None \<Rightarrow> (False, wr, el)
        | Some (off, data) \<Rightarrow>
            case putCryptoFrame wr off data of
              (False, wr1) \<Rightarrow> (False, wr1, el)
            | (True, wr1) \<Rightarrow> (True, wr1, True))"

definition putPing :: "QuicWr \<Rightarrow> bool \<Rightarrow> bool \<times> QuicWr \<times> bool" where
  "putPing wr el =
     (case putFrame wr FPing of (False, wr1) \<Rightarrow> (False, wr1, el) | (True, wr1) \<Rightarrow> (True, wr1, True))"

text \<open>The two loops of \<^verbatim>\<open>putAppFrames\<close>; both stop at the first frame that does not fit.\<close>

fun putRetires ::
  "u64 \<Rightarrow> (u64 \<times> QuicCtl) list \<Rightarrow> QuicWr \<Rightarrow> bool \<Rightarrow> (u64 \<times> QuicCtl) list \<times> QuicWr \<times> bool" where
  "putRetires pn [] wr el = ([], wr, el)"
| "putRetires pn ((sq, ctl) # q) wr el =
     (if ctl_state ctl \<noteq> QUIC_CTL_PENDING then
        case putRetires pn q wr el of (q1, wr1, el1) \<Rightarrow> ((sq, ctl) # q1, wr1, el1)
      else
        case putFrame wr (FRetireConnId sq) of
          (False, wr1) \<Rightarrow> ((sq, ctl) # q, wr1, el)
        | (True, wr1) \<Rightarrow>
            case putRetires pn q wr1 True of (q1, wr2, el2) \<Rightarrow> ((sq, quicCtlSent ctl pn) # q1, wr2, el2))"

definition cidAnnounced :: "u64 \<Rightarrow> nat \<Rightarrow> QuicConn \<Rightarrow> QuicConn" where
  "cidAnnounced pn i c =
     (let l1 = (c_local c ! i)\<lparr>lc_announce := quicCtlSent (lc_announce (c_local c ! i)) pn\<rparr> in
      if \<not> lc_notified l1 \<and> c_hooks c HookCidIssued
      then fireHook HookCidIssued (EvCidIssued (lc_cid l1) (lc_seq l1) (lc_resetToken l1))
             (c\<lparr>c_local := (c_local c)[i := l1\<lparr>lc_notified := True\<rparr>]\<rparr>)
      else c\<lparr>c_local := (c_local c)[i := l1]\<rparr>)"

fun putCids :: "u64 \<Rightarrow> nat list \<Rightarrow> QuicConn \<Rightarrow> QuicWr \<Rightarrow> bool \<Rightarrow> QuicConn \<times> QuicWr \<times> bool" where
  "putCids pn [] c wr el = (c, wr, el)"
| "putCids pn (i # is) c wr el =
     (let l = c_local c ! i in
      if \<not> lc_live l \<or> lc_retired l \<or> ctl_state (lc_announce l) \<noteq> QUIC_CTL_PENDING
      then putCids pn is c wr el
      else
        case putFrame wr (FNewConnId (lc_seq l) 0 (lc_cid l) (lc_resetToken l)) of
          (False, wr1) \<Rightarrow> (c, wr1, el)
        | (True, wr1) \<Rightarrow>
            putCids pn is (cidAnnounced pn i c) wr1 True)"

definition putAppFrames :: "QuicConn \<Rightarrow> QuicWr \<Rightarrow> u64 \<Rightarrow> bool \<Rightarrow> bool \<Rightarrow> QuicConn \<times> QuicWr \<times> bool" where
  "putAppFrames c wr pn early el =
     (case (if \<not> early then putCtl wr (c_handshakeDone c) FHandshakeDone pn el
            else (wr, c_handshakeDone c, el)) of
        (wr1, ctl1, el1) \<Rightarrow>
      case (if \<not> early \<and> \<not> c_respondElsewhere c
            then putCtl wr1 (c_pathResponse c) (FPath True (c_pathResponseData c)) pn el1
            else (wr1, c_pathResponse c, el1)) of
        (wr2, ctl2, el2) \<Rightarrow>
      case putCtl wr2 (c_pathChallenge c) (FPath False (c_pathChallengeData c)) pn el2 of
        (wr3, ctl3, el3) \<Rightarrow>
      case putRetires pn (c_retireQueue c) wr3 el3 of
        (q, wr4, el4) \<Rightarrow>
          putCids pn [0..<QUIC_MAX_CIDS]
            (c\<lparr>c_handshakeDone := ctl1, c_pathResponse := ctl2, c_pathChallenge := ctl3,
               c_retireQueue := q\<rparr>) wr4 el4)"

definition putDatagram :: "QuicConn \<Rightarrow> QuicWr \<Rightarrow> bool \<Rightarrow> QuicConn \<times> QuicWr \<times> bool" where
  "putDatagram c wr el =
     (case c_dgramOut c of
        None \<Rightarrow> (c, wr, el)
      | Some data \<Rightarrow>
          case putFrame wr (FDatagram True data) of
            (False, wr1) \<Rightarrow> (c, wr1, el)
          | (True, wr1) \<Rightarrow>
              (fireHook HookDatagramWritable EvDatagramWritable (c\<lparr>c_dgramOut := None\<rparr>), wr1, True))"

text \<open>The call of the \<^verbatim>\<open>fill\<close> handler, which writes behind what the payload holds already.\<close>

definition putFill :: "QuicConn \<Rightarrow> QuicWr \<Rightarrow> nat \<Rightarrow> u64 \<Rightarrow> bool \<Rightarrow> QuicConn \<times> QuicWr \<times> bool" where
  "putFill c wr budget pn el =
     (if c_hooks c HookFill \<and> quicWrLen wr < budget then
        case onConnFill (budget - quicWrLen wr) pn c of
          (out, e, c1) \<Rightarrow>
            if out \<noteq> []
            then (c1, wr\<lparr>wr_buf := mem_write (wr_buf wr) (wr_p wr) out, wr_p := wr_p wr + length out\<rparr>,
                  el \<or> e)
            else (c1, wr, el)
      else (c, wr, el))"

text \<open>
  Two blocks of \<^verbatim>\<open>buildPayload\<close>: what only 1-RTT and 0-RTT packets carry, and what makes a probe ask
  for an acknowledgement.
\<close>

definition putApp :: "QuicConn \<Rightarrow> QuicWr \<Rightarrow> nat \<Rightarrow> u64 \<Rightarrow> bool \<Rightarrow> bool \<Rightarrow> QuicConn \<times> QuicWr \<times> bool" where
  "putApp c wr budget pn early el =
     (case putAppFrames c wr pn early el of
        (c1, wr1, el1) \<Rightarrow>
          case putDatagram c1 wr1 el1 of (c2, wr2, el2) \<Rightarrow> putFill c2 wr2 budget pn el2)"

definition putProbe :: "QuicConn \<Rightarrow> QuicPnSpaceId \<Rightarrow> bool \<Rightarrow> QuicWr \<Rightarrow> bool \<Rightarrow> QuicWr \<times> bool" where
  "putProbe c sp early wr el =
     (case (if early then (False, wr, el) else putCryptoProbe c sp wr el) of
        (True, wr1, el1) \<Rightarrow> (wr1, el1)
      | (False, wr1, el1) \<Rightarrow> (case putPing wr1 el1 of (ok, wr2, el2) \<Rightarrow> (wr2, el2)))"

text \<open>\<^verbatim>\<open>buildPayload\<close>: the payload, whether it asks for an acknowledgement, and the connection.\<close>

definition buildPayload ::
  "QuicConn \<Rightarrow> QuicPnSpaceId \<Rightarrow> bool \<Rightarrow> nat \<Rightarrow> u64 \<Rightarrow> bool \<Rightarrow> bool \<Rightarrow> int \<Rightarrow> u8 list \<times> bool \<times> QuicConn" where
  "buildPayload c sp early budget pn probe blocked now =
     (let wr = quicWrInit (replicate budget 0) in
      if c_state c = QUIC_CS_CLOSING then
        if \<not> c_closePending c \<or> early then ([], False, c) else (wr_out (putClose c sp wr), False, c)
      else
        case (if \<not> early then putAck c sp wr pn now else (c, wr)) of
          (c1, wr1) \<Rightarrow>
            if blocked \<and> \<not> probe then (wr_out wr1, False, c1)
            else
              case (if \<not> early then putCrypto c1 sp wr1 pn False else (c1, wr1, False)) of
                (c2, wr2, el2) \<Rightarrow>
              case (if sp = QUIC_PNS_APP \<and> (early \<or> c_handshakeComplete c2)
                    then putApp c2 wr2 budget pn early el2 else (c2, wr2, el2)) of
                (c3, wr3, el3) \<Rightarrow>
              case (if probe \<and> \<not> el3 then putProbe c3 sp early wr3 el3 else (wr3, el3)) of
                (wr4, el4) \<Rightarrow> (wr_out wr4, el4, c3))"

definition buildHdr :: "QuicConn \<Rightarrow> QuicPnSpaceId \<Rightarrow> bool \<Rightarrow> nat \<Rightarrow> nat \<Rightarrow> QuicPktHdr" where
  "buildHdr c sp early pnLen len =
     (let h = hdrZero\<lparr>h_type := (if early then QUIC_PKT_0RTT else pktTypeForSpace sp),
                      h_version := c_version c, h_keyPhase := c_keyPhase c,
                      h_dcid := rc_cid (c_remote c ! c_remoteActive c), h_pnLen := pnLen, h_len := len\<rparr>;
          h1 = (if h_type h \<noteq> QUIC_PKT_SHORT
                then h\<lparr>h_scid := lc_cid (c_local c ! 0), h_lenSize := 2\<rparr> else h)
      in case c_token c of
           None \<Rightarrow> h1
         | Some b \<Rightarrow> if h_type h1 = QUIC_PKT_INITIAL
                     then h1\<lparr>h_token := take (buf_len b) (buf_data b)\<rparr> else h1)"

definition connWantsToSend :: "QuicConn \<Rightarrow> bool" where
  "connWantsToSend c \<longleftrightarrow>
     list_ex (\<lambda>sp. \<not> ps_discarded (c_pns c sp)
       \<and> (quicRecovProbes (c_recov c) sp > 0 \<or> quicSendBufPending (ps_cryptoOut (c_pns c sp)))) pn_spaces
     \<or> ctl_state (c_handshakeDone c) = QUIC_CTL_PENDING
     \<or> ctl_state (c_pathResponse c) = QUIC_CTL_PENDING \<and> \<not> c_respondElsewhere c
     \<or> ctl_state (c_pathChallenge c) = QUIC_CTL_PENDING
     \<or> c_dgramOut c \<noteq> None
     \<or> list_ex (\<lambda>(sq, ctl). ctl_state ctl = QUIC_CTL_PENDING) (c_retireQueue c)
     \<or> list_ex (\<lambda>l. lc_live l \<and> \<not> lc_retired l \<and> ctl_state (lc_announce l) = QUIC_CTL_PENDING) (c_local c)
     \<or> c_hooks c HookWantsToSend \<and> onConnWantsToSend c"


section \<open>A datagram\<close>

text \<open>What \<^verbatim>\<open>plan[sp]\<close> says of a packet that is present, its payload in place of offset and length.\<close>

record PktPlan =
  pl_sp :: QuicPnSpaceId
  pl_data :: "u8 list"
  pl_pnLen :: nat
  pl_elicit :: bool
  pl_inFlight :: bool
  pl_probe :: bool
  pl_early :: bool

text \<open>How large the datagram may be: \<open>None\<close> when an amplification limit leaves nothing.\<close>

definition ampCap :: "bool \<Rightarrow> u64 \<Rightarrow> u64 \<Rightarrow> nat \<Rightarrow> nat option" where
  "ampCap limited recvd sent cap =
     (if \<not> limited then Some cap
      else
        let limit = recvd * 3 in
        if limit \<le> sent then None
        else if unat (limit - sent) < cap then Some (unat (limit - sent)) else Some cap)"

definition flushCap :: "QuicConn \<Rightarrow> nat option" where
  "flushCap c =
     (let cap = (if c_mtu c > QUIC_MAX_DATAGRAM then QUIC_MAX_DATAGRAM else c_mtu c) in
      case ampCap (c_server c \<and> \<not> c_addrValidated c) (c_bytesRecv c) (c_bytesSent c) cap of
        None \<Rightarrow> None
      | Some cap1 \<Rightarrow> ampCap (c_pathAmpLimited c \<and> \<not> c_pathValidated c) (c_pathRecv c) (c_pathSent c) cap1)"

text \<open>Whether the congestion window or the pacer hold back, and what the window leaves of the cap.\<close>

definition flushWindow :: "QuicConn \<Rightarrow> nat \<Rightarrow> bool \<times> nat" where
  "flushWindow c cap =
     (if \<not> quicRecovCanSend (c_recov c) \<or> \<not> quicRecovPacerReady (c_recov c) then (True, cap)
      else
        let room = quicRecovWindowRoom (c_recov c) in
        if room < QUIC_MIN_SEND_ROOM then (True, cap)
        else if room < cap then (False, room) else (False, cap))"

text \<open>The step of the planning loop for one space, on the connection, \<^verbatim>\<open>used\<close>, \<^verbatim>\<open>scratchUsed\<close> and the plan.\<close>

definition planSpace ::
  "nat \<Rightarrow> bool \<Rightarrow> int \<Rightarrow> QuicConn \<times> nat \<times> nat \<times> PktPlan list \<Rightarrow> QuicPnSpaceId
     \<Rightarrow> QuicConn \<times> nat \<times> nat \<times> PktPlan list" where
  "planSpace cap blocked now = (\<lambda>(c, used, scratchUsed, plans) sp.
     let s = c_pns c sp;
         early = (sp = QUIC_PNS_APP \<and> \<not> k_valid (ps_tx s) \<and> k_valid (c_earlyTx c));
         pnLen = quicPnSize (ps_next s) (ps_largestAcked s);
         hdrsz = quicHdrSize (buildHdr c sp early pnLen 0)
     in if ps_discarded s \<or> (\<not> early \<and> \<not> k_valid (ps_tx s)) then (c, used, scratchUsed, plans)
        else if hdrsz = 0 \<or> used + hdrsz + QUIC_TAG_LEN + QUIC_MIN_PN_PAYLOAD > cap
        then (c, used, scratchUsed, plans)
        else
          let budget0 = cap - used - hdrsz - QUIC_TAG_LEN;
              budget = (if budget0 > QUIC_MAX_DATAGRAM - scratchUsed then QUIC_MAX_DATAGRAM - scratchUsed
                        else budget0);
              probe = (quicRecovProbes (c_recov c) sp > 0)
          in case buildPayload c sp early budget (ps_next s) probe blocked now of
               (payload, elicit, c1) \<Rightarrow>
                 if payload = [] then (c1, used, scratchUsed, plans)
                 else
                   let data = payload @ replicate (QUIC_MIN_PN_PAYLOAD - pnLen - length payload) 0
                   in (c1, used + hdrsz + length data + QUIC_TAG_LEN, scratchUsed + length data,
                       plans @ [\<lparr>pl_sp = sp, pl_data = data, pl_pnLen = pnLen, pl_elicit = elicit,
                                 pl_inFlight = elicit, pl_probe = (probe \<and> elicit), pl_early = early\<rparr>]))"

text \<open>Padding a datagram with an Initial packet: the last packet of the plan grows.\<close>

definition padInitial :: "QuicConn \<Rightarrow> nat \<Rightarrow> nat \<Rightarrow> nat \<Rightarrow> PktPlan list \<Rightarrow> PktPlan list" where
  "padInitial c cap used scratchUsed plans =
     (if list_ex (\<lambda>p. pl_sp p = QUIC_PNS_INITIAL \<and> (\<not> c_server c \<or> pl_elicit p)) plans
         \<and> used < QUIC_INITIAL_MTU \<and> cap \<ge> QUIC_INITIAL_MTU
         \<and> QUIC_INITIAL_MTU - used \<le> QUIC_MAX_DATAGRAM - scratchUsed
      then butlast plans @ [(last plans)\<lparr>pl_data := pl_data (last plans) @ replicate (QUIC_INITIAL_MTU - used) 0,
                                         pl_inFlight := True\<rparr>]
      else plans)"

text \<open>The header a planned packet is sent with, and the keys it is sealed with.\<close>

definition planHdr :: "QuicConn \<Rightarrow> PktPlan \<Rightarrow> QuicPktHdr" where
  "planHdr c p =
     (let s = c_pns c (pl_sp p) in
      (buildHdr c (pl_sp p) (pl_early p) (pl_pnLen p) (length (pl_data p) + pl_pnLen p + QUIC_TAG_LEN))
        \<lparr>h_pn := ps_next s, h_pnEnc := ps_next s AND pnMask (pl_pnLen p)\<rparr>)"

definition planKeys :: "QuicConn \<Rightarrow> PktPlan \<Rightarrow> QuicKeys" where
  "planKeys c p = (if pl_early p then c_earlyTx c else ps_tx (c_pns c (pl_sp p)))"

text \<open>A packet that has been sealed is recorded as sent, and takes its packet number.\<close>

definition pktSent :: "xalloc \<Rightarrow> int \<Rightarrow> PktPlan \<Rightarrow> nat \<Rightarrow> QuicConn \<Rightarrow> QuicConn" where
  "pktSent xa now p outLen c =
     (let sp = pl_sp p; s = c_pns c sp;
          r = quicRecovOnSent xa sp (unat (ps_next s)) outLen (pl_elicit p) (pl_inFlight p) now (c_recov c);
          r1 = (if pl_probe p then quicRecovProbeSent sp r else r);
          c1 = setSpace sp (s\<lparr>ps_next := ps_next s + 1\<rparr>) (c\<lparr>c_recov := r1\<rparr>)
      in if sp = QUIC_PNS_HANDSHAKE then c1\<lparr>c_sentHandshakePkt := True\<rparr> else c1)"

text \<open>
  The sealing loop. \<open>dgram\<close> is what the datagram holds so far; the first result says whether every
  packet could be sealed. A packet that cannot be leaves the earlier ones recorded as sent.
\<close>

definition sealOne :: "psa \<Rightarrow> QuicConn \<Rightarrow> PktPlan \<Rightarrow> nat \<Rightarrow> u8 list option" where
  "sealOne P c p dlen =
     (case quicHdrEncode (quicWrInit (replicate (QUIC_MAX_DATAGRAM - dlen) 0)) (planHdr c p) of
        (False, wr) \<Rightarrow> None
      | (True, wr) \<Rightarrow>
          case quicPktSeal P (planKeys c p) (wr_buf wr) (quicHdrSize (planHdr c p) - pl_pnLen p) (pl_pnLen p)
                 (ps_next (c_pns c (pl_sp p))) (pl_data p) of
            None \<Rightarrow> None
          | Some (outLen, buf) \<Rightarrow> Some (take outLen buf))"

fun sealPlans ::
  "psa \<Rightarrow> xalloc \<Rightarrow> int \<Rightarrow> PktPlan list \<Rightarrow> QuicConn \<Rightarrow> u8 list \<Rightarrow> bool \<Rightarrow> bool \<times> QuicConn \<times> u8 list \<times> bool" where
  "sealPlans P xa now [] c dgram elicited = (True, c, dgram, elicited)"
| "sealPlans P xa now (p # ps) c dgram elicited =
     (case sealOne P c p (length dgram) of
        None \<Rightarrow> (False, c, dgram, elicited)
      | Some pkt \<Rightarrow>
          sealPlans P xa now ps (pktSent xa now p (length pkt) c) (dgram @ pkt) (elicited \<or> pl_elicit p))"

text \<open>Every packet of a marked datagram is recorded as marked.\<close>

definition markPlans :: "PktPlan list \<Rightarrow> QuicConn \<Rightarrow> QuicConn" where
  "markPlans plans c =
     c\<lparr>c_recov := foldl (\<lambda>r p. quicRecovMark (pl_sp p) (unat (ps_next (c_pns c (pl_sp p)) - 1))
                               QUIC_SENT_ECT0 r) (c_recov c) plans\<rparr>"

definition markSent :: "PktPlan list \<Rightarrow> QuicConn \<Rightarrow> QuicConn" where
  "markSent plans c =
     (if pi_haveEcn (pathInfo c) then
        let cm = markPlans plans c
        in if c_ecnState cm = QUIC_ECN_TESTING \<and> c_ecnTestPkts cm > 0
           then cm\<lparr>c_ecnTestPkts := c_ecnTestPkts cm - 1\<rparr> else cm
      else c)"

definition closeSent :: "int \<Rightarrow> QuicConn \<Rightarrow> QuicConn" where
  "closeSent now c =
     (if c_state c = QUIC_CS_CLOSING \<and> c_closePending c
      then c\<lparr>c_closePending := False, c_closeDeadline := now + 3 * QUIC_INITIAL_RTT\<rparr> else c)"

text \<open>What happens once the datagram is complete, up to handing it over.\<close>

definition flushSent :: "conn_env \<Rightarrow> int \<Rightarrow> PktPlan list \<Rightarrow> QuicConn \<Rightarrow> u8 list \<Rightarrow> bool \<Rightarrow> bool \<times> QuicConn" where
  "flushSent E now plans c dgram elicited =
     (let c1 = c\<lparr>c_bytesSent := c_bytesSent c + of_nat (length dgram),
                 c_pathSent := c_pathSent c + of_nat (length dgram)\<rparr>;
          info = pathInfo c1;
          c3 = closeSent now (markSent plans c1);
          c4 = (if elicited then c3\<lparr>c_idleDeadline := add64 now (idleTimeoutOf c3)\<rparr> else c3);
          c5 = fireHook HookSend (EvSend (c_peer c4) info dgram) c4
      in (ce_send E (c_events c5), c5))"

definition flushPlan :: "QuicConn \<Rightarrow> nat \<Rightarrow> int \<Rightarrow> QuicConn \<times> nat \<times> PktPlan list" where
  "flushPlan c cap0 now =
     (case flushWindow c cap0 of
        (blocked, cap) \<Rightarrow>
          case foldl (planSpace cap blocked now) (c, 0, 0, []) pn_spaces of
            (c1, used, scratchUsed, plans) \<Rightarrow> (c1, used, padInitial c1 cap used scratchUsed plans))"

text \<open>The results: the return value, \<^verbatim>\<open>sent\<close>, and the connection.\<close>

definition flushOne :: "conn_env \<Rightarrow> QuicConn \<Rightarrow> int \<Rightarrow> bool \<times> bool \<times> QuicConn" where
  "flushOne E c now =
     (if \<not> c_hooks c HookSend then (True, False, c)
      else
        case flushCap c of
          None \<Rightarrow> (True, False, c)
        | Some cap \<Rightarrow>
            case flushPlan c cap now of
              (c1, used, plans) \<Rightarrow>
                if used = 0 then (True, False, c1)
                else
                  case sealPlans (ce_psa E) (ce_xalloc E) now plans c1 [] False of
                    (False, c2, dgram, elicited) \<Rightarrow> (False, False, c2)
                  | (True, c2, dgram, elicited) \<Rightarrow>
                      case flushSent E now plans c2 dgram elicited of (ok, c3) \<Rightarrow> (ok, True, c3))"


section \<open>Datagrams with a single frame\<close>

definition sendSolo ::
  "conn_env \<Rightarrow> QuicConn \<Rightarrow> NetAddr \<Rightarrow> QuicFrame \<Rightarrow> nat \<Rightarrow> int \<Rightarrow> bool \<times> u64 \<times> QuicConn" where
  "sendSolo E c dest f padTo now =
     (let s = c_pns c QUIC_PNS_APP in
      if \<not> c_hooks c HookSend \<or> ps_discarded s \<or> \<not> k_valid (ps_tx s) \<or> padTo > QUIC_MAX_DATAGRAM
      then (False, QUIC_PN_NONE, c)
      else
        let pnLen = quicPnSize (ps_next s) (ps_largestAcked s);
            h = buildHdr c QUIC_PNS_APP False pnLen 0;
            hdrsz = quicHdrSize h;
            plen = padTo - hdrsz - QUIC_TAG_LEN
        in if hdrsz = 0 \<or> hdrsz + QUIC_TAG_LEN \<ge> padTo \<or> plen > QUIC_MAX_DATAGRAM
           then (False, QUIC_PN_NONE, c)
           else
             case quicFrameEncode (quicWrInit (replicate plen 0)) f of
               (enc, wr) \<Rightarrow>
                 if \<not> enc \<or> wr_bad wr then (False, QUIC_PN_NONE, c)
                 else
                   let payload = wr_out wr @ replicate (plen - quicWrLen wr) 0;
                       h1 = h\<lparr>h_pn := ps_next s, h_pnEnc := ps_next s AND pnMask pnLen,
                              h_len := plen + pnLen + QUIC_TAG_LEN\<rparr>
                   in case quicHdrEncode (quicWrInit (replicate QUIC_MAX_DATAGRAM 0)) h1 of
                        (False, wr1) \<Rightarrow> (False, QUIC_PN_NONE, c)
                      | (True, wr1) \<Rightarrow>
                          case quicPktSeal (ce_psa E) (ps_tx s) (wr_buf wr1) (hdrsz - pnLen) pnLen
                                 (ps_next s) payload of
                            None \<Rightarrow> (False, QUIC_PN_NONE, c)
                          | Some (outLen, buf) \<Rightarrow>
                              let pn = ps_next s;
                                  c1 = c\<lparr>c_recov := quicRecovOnSent (ce_xalloc E) QUIC_PNS_APP (unat pn)
                                           outLen True True now (c_recov c)\<rparr>;
                                  c2 = c1\<lparr>c_bytesSent := c_bytesSent c1 + of_nat outLen,
                                          c_pathSent := c_pathSent c1 + of_nat outLen,
                                          c_idleDeadline := add64 now (idleTimeoutOf c1)\<rparr>;
                                  info = pathInfo c2;
                                  c3 = (if pi_haveEcn info
                                        then c2\<lparr>c_recov := quicRecovMark QUIC_PNS_APP (unat pn)
                                                             QUIC_SENT_ECT0 (c_recov c2)\<rparr> else c2);
                                  c4 = setSpace QUIC_PNS_APP (s\<lparr>ps_next := pn + 1\<rparr>) c3;
                                  info1 = (if \<not> addrEq dest (c_peer c4) then info\<lparr>pi_haveLocal := False\<rparr>
                                           else info);
                                  c5 = fireHook HookSend (EvSend dest info1 (take outLen buf)) c4
                              in (ce_send E (c_events c5), pn, c5))"

definition mtuProbeSend :: "conn_env \<Rightarrow> QuicConn \<Rightarrow> int \<Rightarrow> QuicConn" where
  "mtuProbeSend E c now =
     (if c_mtuState c \<noteq> QUIC_MTU_SEARCHING \<or> c_mtuProbing c = 0 then c
      else if c_mtuProbePn c \<noteq> QUIC_PN_NONE then c
      else if \<not> quicRecovCanSendSize (c_recov c) (c_mtuProbing c) \<or> \<not> quicRecovPacerReady (c_recov c)
      then c
      else
        case sendSolo E c (c_peer c) FPing (c_mtuProbing c) now of
          (False, pn, c1) \<Rightarrow> mtuProbeLost (c1\<lparr>c_mtuTries := QUIC_PMTU_PROBES\<rparr>) (c_mtuProbing c1) now
        | (True, pn, c1) \<Rightarrow>
            c1\<lparr>c_mtuProbePn := pn,
               c_recov := quicRecovMark QUIC_PNS_APP (unat pn) QUIC_SENT_PMTU_PROBE (c_recov c1)\<rparr>)"

definition pathRespondElsewhere :: "conn_env \<Rightarrow> QuicConn \<Rightarrow> int \<Rightarrow> QuicConn" where
  "pathRespondElsewhere E c now =
     (if \<not> c_respondElsewhere c \<or> ctl_state (c_pathResponse c) \<noteq> QUIC_CTL_PENDING then c
      else
        case sendSolo E c (c_respondTo c) (FPath True (c_pathResponseData c)) QUIC_INITIAL_MTU now of
          (False, pn, c1) \<Rightarrow> c1
        | (True, pn, c1) \<Rightarrow> c1\<lparr>c_pathResponse := quicCtlSent (c_pathResponse c1) pn\<rparr>)"


section \<open>Flushing\<close>

text \<open>The loop of \<^verbatim>\<open>_quicConnFlush\<close>, with the number of datagrams it may still send.\<close>

fun flushLoop :: "conn_env \<Rightarrow> int \<Rightarrow> nat \<Rightarrow> QuicConn \<Rightarrow> bool \<times> QuicConn" where
  "flushLoop E now 0 c = (True, c)"
| "flushLoop E now (Suc n) c =
     (case flushOne E c now of
        (False, sent, c1) \<Rightarrow> (False, c1)
      | (True, sent, c1) \<Rightarrow>
          if \<not> sent \<or> c_state c1 = QUIC_CS_CLOSING then (True, c1) else flushLoop E now n c1)"

text \<open>What follows the loop.\<close>

definition flushAfter :: "conn_env \<Rightarrow> QuicConn \<Rightarrow> int \<Rightarrow> QuicConn" where
  "flushAfter E c now =
     (let c1 = (if \<not> ps_discarded (c_pns c QUIC_PNS_INITIAL)
                   \<and> (\<not> c_server c \<and> c_sentHandshakePkt c \<or> c_server c \<and> c_recvHandshakePkt c)
                then spaceDiscard c QUIC_PNS_INITIAL now else c);
          c2 = (if c_discardHandshakeSoon c1
                then spaceDiscard (c1\<lparr>c_discardHandshakeSoon := False\<rparr>) QUIC_PNS_HANDSHAKE now else c1);
          c3 = pathRespondElsewhere E c2 now;
          c4 = mtuProbeSend E (mtuStart c3 now) now
      in c4\<lparr>c_recov := quicRecovSetAppLimited (\<not> connWantsToSend c4) (c_recov c4)\<rparr>)"

definition quicConnFlush :: "conn_env \<Rightarrow> QuicConn \<Rightarrow> int \<Rightarrow> bool \<times> QuicConn" where
  "quicConnFlush E c now =
     (if c_state c = QUIC_CS_DRAINING \<or> c_state c = QUIC_CS_CLOSED then (True, c)
      else
        let c1 = c\<lparr>c_now := now\<rparr>;
            c2 = c1\<lparr>c_recov := quicRecovPacerRefill now (c_recov c1)\<rparr>
        in case flushLoop E now QUIC_FLUSH_MAX_DATAGRAMS c2 of
             (False, c3) \<Rightarrow> (False, c3)
           | (True, c3) \<Rightarrow> (True, flushAfter E c3 now))"

end
