(* ===== verification/QuicConnInv.thy ===== *)
theory QuicConnInv
  imports QuicConnLife QuicRecovProps
begin

text \<open>
  A connection and its loss recovery together: \<^verbatim>\<open>connOnAcked\<close> and \<^verbatim>\<open>connOnLost\<close> are a proper client
  of loss recovery, so processing any packet ends and keeps the accounts of loss recovery exact.
  Then what an acknowledgement can and cannot do to a connection.
\<close>

section \<open>The connection as a client of loss recovery\<close>

definition mtu_bounded :: "QuicConn \<Rightarrow> bool" where
  "mtu_bounded c \<longleftrightarrow> c_mtuProbing c \<le> QUIC_MAX_DATAGRAM"

definition conn_ok :: "QuicConn \<Rightarrow> bool" where
  "conn_ok c \<longleftrightarrow> recov_inv (c_recov c) \<and> mtu_bounded c"

lemma mtuSearch_bounded: "mtu_bounded (mtuSearch c now)"
proof -
  have "mtuCeiling c \<le> QUIC_MAX_DATAGRAM" by (auto simp: mtuCeiling_def Let_def)
  then show ?thesis by (auto simp: mtuSearch_def mtu_bounded_def Let_def)
qed

lemma mtuProbe_bounded:
  "mtu_bounded (mtuProbeAcked c sz now)" "mtu_bounded c \<Longrightarrow> mtu_bounded (mtuProbeLost c sz now)"
  by (simp_all add: mtuProbeAcked_def mtuProbeLost_def Let_def mtuSearch_bounded) (simp add: mtu_bounded_def)

lemma mtu_bounded_frame [simp]:
  "mtu_bounded (c\<lparr>c_recov := r\<rparr>) = mtu_bounded c" "mtu_bounded (c\<lparr>c_keyPhaseAcked := b\<rparr>) = mtu_bounded c"
  "mtu_bounded (c\<lparr>c_mtuProbePn := pn\<rparr>) = mtu_bounded c" "mtu_bounded (setSpace sp s c) = mtu_bounded c"
  "mtu_bounded (fireHook hook ev c) = mtu_bounded c" "mtu_bounded (ackedCtl pn c) = mtu_bounded c"
  "mtu_bounded (lostCtl pn c) = mtu_bounded c" "mtu_bounded (connPktAcked pn c) = mtu_bounded c"
  "mtu_bounded (connPktLost pn c) = mtu_bounded c"
  by (simp_all add: mtu_bounded_def setSpace_def fireHook_def ackedCtl_def lostCtl_def connPktAcked_def
      connPktLost_def onConnPktAcked_def onConnPktLost_def)

text \<open>The state between the two halves of \<^verbatim>\<open>connOnAcked\<close>.\<close>

definition ackedHalf :: "QuicPnSpaceId \<Rightarrow> nat \<Rightarrow> QuicRecovery \<Rightarrow> QuicConn \<Rightarrow> QuicConn" where
  "ackedHalf sp pn r c =
     (let c1 = setSpace sp (ackedSpace r sp pn (c_pns (c\<lparr>c_recov := r\<rparr>) sp)) (c\<lparr>c_recov := r\<rparr>)
      in if sp = QUIC_PNS_APP \<and> of_nat pn \<ge> c_txPhaseFirst c1 then c1\<lparr>c_keyPhaseAcked := True\<rparr> else c1)"

lemma connOnAcked_half:
  "connOnAcked sp pn r c = (let c2 = ackedHalf sp pn r c in
     if sp \<noteq> QUIC_PNS_APP then (0, c2)
     else if of_nat pn = c_mtuProbePn c2
     then (if c_mtuProbing c2 > c_mtuLow c2 then c_mtuProbing c2 else 0,
           ackedCtl (of_nat pn) (connPktAcked (of_nat pn)
             (mtuProbeAcked (c2\<lparr>c_mtuProbePn := QUIC_PN_NONE\<rparr>) (c_mtuProbing c2) (c_now c2))))
     else (0, ackedCtl (of_nat pn) (connPktAcked (of_nat pn) c2)))"
  unfolding connOnAcked_def ackedHalf_def Let_def ..

lemma ackedHalf_bounded [simp]: "mtu_bounded (ackedHalf sp pn r c) = mtu_bounded c"
  by (simp add: ackedHalf_def Let_def)

lemma connOnAcked_bounded:
  assumes "mtu_bounded c" "connOnAcked sp pn r c = (n, c1)"
  shows "n \<le> 65535 \<and> mtu_bounded c1"
proof -
  have "c_mtuProbing (ackedHalf sp pn r c) \<le> 1452"
    using assms(1) ackedHalf_bounded [of sp pn r c] by (simp add: mtu_bounded_def)
  then show ?thesis
    using assms mtuProbe_bounded(1) by (auto simp: connOnAcked_half Let_def split: if_splits)
qed

lemma connOnLost_bounded:
  assumes "mtu_bounded c" "connOnLost sp pn r c = (n, c1)"
  shows "n \<le> 65535 \<and> mtu_bounded c1"
  using assms mtuProbe_bounded(2) by (auto simp: connOnLost_def Let_def split: if_splits)

interpretation conn: recov_client mtu_bounded conn_handlers
  by unfold_locales (auto simp: conn_handlers_def dest: connOnAcked_bounded connOnLost_bounded)


section \<open>What keeps the invariant\<close>

lemma conn_ok_cong:
  "c_recov c' = c_recov c \<Longrightarrow> c_mtuProbing c' = c_mtuProbing c \<Longrightarrow> conn_ok c' = conn_ok c"
  by (simp add: conn_ok_def mtu_bounded_def)

lemma fireHook_keeps [simp]:
  "c_recov (fireHook hook ev c) = c_recov c" "c_mtuProbing (fireHook hook ev c) = c_mtuProbing c"
  "c_state (fireHook hook ev c) = c_state c"
  by (simp_all add: fireHook_def)

lemma setSpace_keeps [simp]:
  "c_recov (setSpace sp s c) = c_recov c" "c_mtuProbing (setSpace sp s c) = c_mtuProbing c"
  "c_state (setSpace sp s c) = c_state c" "c_pns (setSpace sp s c) = (c_pns c)(sp := s)"
  by (simp_all add: setSpace_def)

lemma close_keeps [simp]:
  "c_recov (quicConnClose c err app reason) = c_recov c"
  "c_mtuProbing (quicConnClose c err app reason) = c_mtuProbing c"
  by (simp_all add: quicConnClose_def connNotifyClosed_def)

lemma abort_ok [simp]: "conn_ok (quicConnAbort c err ft) = conn_ok c"
  by (rule conn_ok_cong) (simp_all add: quicConnAbort_def)

lemma fireHook_ok [simp]: "conn_ok (fireHook hook ev c) = conn_ok c"
  by (rule conn_ok_cong) simp_all

lemma setSpace_ok [simp]: "conn_ok (setSpace sp s c) = conn_ok c"
  by (rule conn_ok_cong) simp_all

lemma cidGenerate_keeps:
  assumes "cidGenerate rnd c sq = (ok, l, c1)"
  shows "c_recov c1 = c_recov c" "c_mtuProbing c1 = c_mtuProbing c"
  using assms by (auto simp: cidGenerate_def draw_def split: if_splits option.splits)

lemma cidReplenishFrom_keeps:
  "c_recov (cidReplenishFrom rnd want i c) = c_recov c \<and>
   c_mtuProbing (cidReplenishFrom rnd want i c) = c_mtuProbing c"
proof (induction rnd want i c rule: cidReplenishFrom.induct)
  case (1 rnd want i c)
  obtain ok l c1 where g: "cidGenerate rnd c (c_localNextSeq c) = (ok, l, c1)" by (metis surj_pair)
  show ?case
    using 1 [OF _ _ ] g cidGenerate_keeps [OF g]
    by (subst (1 2) cidReplenishFrom.simps) (auto split: bool.splits)
qed

lemma cidReplenish_ok [simp]: "conn_ok (cidReplenish rnd c) = conn_ok c"
  by (rule conn_ok_cong) (simp_all add: cidReplenish_def cidReplenishFrom_keeps)

lemma conn_ok_recov:
  "conn_ok c \<Longrightarrow> recov_inv r \<Longrightarrow> c_mtuProbing c' = c_mtuProbing c \<Longrightarrow> c_recov c' = r \<Longrightarrow> conn_ok c'"
  by (simp add: conn_ok_def mtu_bounded_def)

lemma spaceDiscard_ok: "conn_ok c \<Longrightarrow> conn_ok (spaceDiscard c sp now)"
  using recov_inv_DiscardSpace [of "c_recov c" sp now]
  by (auto simp: spaceDiscard_def Let_def conn_ok_def mtu_bounded_def)

lemma ecnOnAck_ok: "conn_ok c \<Longrightarrow> conn_ok (ecnOnAck c sp f now)"
proof -
  assume ok: "conn_ok c"
  have q: "recov_inv (quicRecovOnEcnCe sp pn now r)" if "recov_inv r" for pn r
    using recov_inv_quiet recov_quiet.intros(2) that by blast
  show ?thesis
    using ok by (auto simp: ecnOnAck_def Let_def conn_ok_def mtu_bounded_def q split: option.splits)
qed

text \<open>The ways through \<^verbatim>\<open>handleAck\<close>.\<close>

lemma handleAck_cases:
  assumes "quicAckIterInit f = Some it" "ack_ranges it = (ranges, it1)"
  shows "list_ex (\<lambda>r. ar_largest r \<ge> ps_next (c_pns c sp)) ranges \<Longrightarrow>
      handleAck c sp f now = Some (False, quicConnAbort c QUIC_ERR_PROTOCOL_VIOLATION (frameType f))"
    and "\<not> list_ex (\<lambda>r. ar_largest r \<ge> ps_next (c_pns c sp)) ranges \<Longrightarrow> it_bad it1 \<Longrightarrow>
      handleAck c sp f now = Some (False, quicConnAbort c QUIC_ERR_FRAME_ENCODING_ERROR (frameType f))"
    and "\<not> list_ex (\<lambda>r. ar_largest r \<ge> ps_next (c_pns c sp)) ranges \<Longrightarrow> \<not> it_bad it1 \<Longrightarrow>
      \<exists>s d. handleAck c sp f now =
        (case quicRecovOnAck conn_handlers sp f d now (c_recov (setSpace sp s c), setSpace sp s c) of
           None \<Rightarrow> None
         | Some (ok, r, c2) \<Rightarrow>
             if \<not> ok then Some (False, quicConnAbort (c2\<lparr>c_recov := r\<rparr>) QUIC_ERR_FRAME_ENCODING_ERROR (frameType f))
             else Some (True, ecnOnAck (c2\<lparr>c_recov := r\<rparr>) sp f now))"
  unfolding handleAck_def assms(1) option.case assms(2) prod.case Let_def
  by (simp_all del: setSpace_keeps) blast

text \<open>Handling an acknowledgement always ends, and the accounts of loss recovery stay exact.\<close>

lemma handleAck_ok:
  assumes "conn_ok c"
  shows "\<exists>ok c1. handleAck c sp f now = Some (ok, c1) \<and> conn_ok c1"
proof (cases "quicAckIterInit f")
  case None
  then show ?thesis using assms by (simp add: handleAck_def ex_bool_eq)
next
  case (Some it)
  obtain ranges it1 where it: "ack_ranges it = (ranges, it1)" by (metis surj_pair)
  note ways = handleAck_cases [OF Some it, of c sp now]
  show ?thesis
  proof (cases "list_ex (\<lambda>r. ar_largest r \<ge> ps_next (c_pns c sp)) ranges \<or> it_bad it1")
    case True
    then show ?thesis using assms ways(1,2) by (metis abort_ok)
  next
    case False
    then obtain s d where r: "handleAck c sp f now =
      (case quicRecovOnAck conn_handlers sp f d now (c_recov (setSpace sp s c), setSpace sp s c) of
         None \<Rightarrow> None
       | Some (ok, r, c2) \<Rightarrow>
           if \<not> ok then Some (False, quicConnAbort (c2\<lparr>c_recov := r\<rparr>) QUIC_ERR_FRAME_ENCODING_ERROR (frameType f))
           else Some (True, ecnOnAck (c2\<lparr>c_recov := r\<rparr>) sp f now))"
      using ways(3) by blast
    have "mtu_bounded (setSpace sp s c)" "recov_inv (c_recov (setSpace sp s c))"
      using assms by (simp_all add: conn_ok_def)
    from conn.quicRecovOnAck_ends [OF this, of sp f d now]
    obtain ok r1 c1 where a: "quicRecovOnAck conn_handlers sp f d now (c_recov (setSpace sp s c), setSpace sp s c)
        = Some (ok, r1, c1)" "recov_inv r1" "mtu_bounded c1" by blast
    then have "conn_ok (c1\<lparr>c_recov := r1\<rparr>)" by (simp add: conn_ok_def)
    then show ?thesis unfolding r a(1) by (cases ok) (simp_all add: ecnOnAck_ok ex_bool_eq)
  qed
qed


lemma cidQueueRetire_ok [simp]: "conn_ok (cidQueueRetire c sq) = conn_ok c"
  by (rule conn_ok_cong) (simp_all add: cidQueueRetire_def)

lemma retireBelow_ok [simp]: "conn_ok (foldl retireBelow c is) = conn_ok c"
proof (induction "is" arbitrary: c)
  case (Cons i "is")
  have "conn_ok (retireBelow c i) = conn_ok c"
    by (rule conn_ok_cong) (simp_all add: retireBelow_def cidQueueRetire_def Let_def)
  with Cons show ?case by simp
qed simp

lemma conn_ok_updates [simp]:
  "conn_ok (c\<lparr>c_remote := rs\<rparr>) = conn_ok c" "conn_ok (c\<lparr>c_remoteActive := n\<rparr>) = conn_ok c"
  "conn_ok (c\<lparr>c_remoteRetirePrior := sq\<rparr>) = conn_ok c" "conn_ok (c\<lparr>c_local := ls\<rparr>) = conn_ok c"
  "conn_ok (c\<lparr>c_pathResponseData := d, c_pathResponse := ctl, c_respondElsewhere := b\<rparr>) = conn_ok c"
  "conn_ok (c\<lparr>c_pathValidated := b, c_pathDeadline := t, c_havePrev := b1\<rparr>) = conn_ok c"
  by (rule conn_ok_cong; simp)+

lemma handleNewConnId_ok: "conn_ok c \<Longrightarrow> conn_ok (snd (handleNewConnId c sq rp cid tok ft))"
  by (simp add: handleNewConnId_def Let_def split: option.split)

lemma cidRetireLocal_ok [simp]: "conn_ok (cidRetireLocal rnd c sq) = conn_ok c"
  by (simp add: cidRetireLocal_def Let_def split: option.split)

lemma handleRetireConnId_ok: "conn_ok c \<Longrightarrow> conn_ok (snd (handleRetireConnId rnd c sq h ft))"
  by (simp add: handleRetireConnId_def)

lemma handleConnClose_ok: "conn_ok c \<Longrightarrow> conn_ok (handleConnClose c f err reason now)"
  by (erule conn_ok_cong [THEN iffD1, rotated 2])
    (simp_all add: handleConnClose_def connNotifyClosed_def Let_def)

lemma handleDatagram_ok: "conn_ok c \<Longrightarrow> conn_ok (snd (handleDatagram c f data))"
  by (simp add: handleDatagram_def Let_def)

text \<open>The stream layer leaves loss recovery alone.\<close>

lemma handleStreamFrame_ok:
  assumes "conn_ok c"
  shows "conn_ok (snd (handleStreamFrame xa c f))"
proof -
  have "conn_ok (snd (onConnFrame xa f c))"
    using assms conn_ok_cong [of "c\<lparr>c_streams := x\<rparr>" c for x]
    by (simp add: onConnFrame_def Let_def split: option.split prod.split)
  then show ?thesis
    using assms by (auto simp: handleStreamFrame_def split: prod.split bool.split)
qed

lemma handshakeDone_ok:
  assumes "conn_ok c"
  shows "conn_ok (cidReplenish rnd (spaceDiscard (c\<lparr>c_handshakeConfirmed := True, c_pathValidated := True,
    c_recov := quicRecovConfirmHandshake now (c_recov c)\<rparr>) sp now))"
proof -
  have "recov_inv (quicRecovConfirmHandshake now (c_recov c))"
    using assms recov_inv_quiet recov_quiet.intros(8) by (metis conn_ok_def)
  then have "conn_ok (c\<lparr>c_handshakeConfirmed := True, c_pathValidated := True,
      c_recov := quicRecovConfirmHandshake now (c_recov c)\<rparr>)"
    using assms by (simp add: conn_ok_def mtu_bounded_def)
  then show ?thesis by (simp add: spaceDiscard_ok)
qed

lemma handleFrame_ok:
  assumes "conn_ok c"
  shows "\<exists>ok c1. handleFrame xa rnd c sp f h now = Some (ok, c1) \<and> conn_ok c1"
proof (cases f)
  case FAck
  then show ?thesis using handleAck_ok [OF assms, of sp f now] by (simp add: handleFrame_def)
next
  case (FCrypto off data)
  obtain ok ra where "quicReasmAdd xa (ps_cryptoIn (c_pns c sp)) off data = (ok, ra)" by (metis surj_pair)
  then show ?thesis using FCrypto assms by (simp add: handleFrame_def Let_def ex_bool_eq)
next
  case (FNewConnId sq rp cid tok)
  then show ?thesis
    using handleNewConnId_ok [OF assms, of sq rp cid tok "frameType f"]
    by (simp add: handleFrame_def) (metis surjective_pairing)
next
  case (FRetireConnId sq)
  then show ?thesis
    using handleRetireConnId_ok [OF assms, of rnd sq h "frameType f"]
    by (simp add: handleFrame_def) (metis surjective_pairing)
next
  case (FDatagram len data)
  then show ?thesis
    using handleDatagram_ok [OF assms, of f data] by (simp add: handleFrame_def) (metis surjective_pairing)
next
  case FHandshakeDone
  then show ?thesis
    using handshakeDone_ok [OF assms] assms by (simp add: handleFrame_def Let_def ex_bool_eq)
qed (use assms handleConnClose_ok [OF assms] handleStreamFrame_ok [OF assms, of xa f] in
  \<open>simp add: handleFrame_def ex_bool_eq; metis surjective_pairing\<close>)+


section \<open>A whole packet\<close>

fun frames_conn :: "frames_end \<Rightarrow> QuicConn" where
  "frames_conn (FramesFail c el pr) = c"
| "frames_conn (FramesStop c el pr) = c"
| "frames_conn (FramesDone c rd seen el pr) = c"

lemma framesLoop_ok:
  "conn_ok c \<Longrightarrow> \<exists>e. framesLoop xa rnd sp h now c rd seen el pr = Some e \<and> conn_ok (frames_conn e)"
proof (induction xa rnd sp h now c rd seen el pr rule: framesLoop.induct)
  case (1 xa rnd sp h now c rd seen el pr)
  obtain fo rd1 where d: "quicFrameDecode rd = (fo, rd1)" by (metis surj_pair)
  show ?case
  proof (cases fo)
    case None
    with d 1 show ?thesis by (subst framesLoop.simps) simp
  next
    case (Some f)
    show ?thesis
    proof (cases "frameAllowed (frameType f) sp (h_type h = QUIC_PKT_0RTT)")
      case False
      with d Some 1 show ?thesis by (subst framesLoop.simps) simp
    next
      case True
      obtain ok c1 where hf: "handleFrame xa rnd c sp f h now = Some (ok, c1)" and c1: "conn_ok c1"
        using handleFrame_ok [OF 1(2)] by blast
      show ?thesis
        using d Some True hf c1 1
        by (subst framesLoop.simps) (cases ok; simp add: Let_def)
    qed
  qed
qed

lemma processFrames_ok:
  assumes "conn_ok c"
  shows "\<exists>ok c1 el pr1. processFrames xa rnd c sp payload h pr now = Some (ok, c1, el, pr1) \<and> conn_ok c1"
proof -
  obtain e where e: "framesLoop xa rnd sp h now c (quicRdInit payload) False False pr = Some e"
    "conn_ok (frames_conn e)"
    using framesLoop_ok [OF assms] by blast
  then show ?thesis by (cases e) (simp_all add: processFrames_def, (metis (full_types))+)
qed


lemma connInit_fields:
  assumes "connInit rnd server cfg peer = Some c"
  shows "c_recov c = quicRecovSpaceReady QUIC_PNS_INITIAL (quicRecovInit server QUIC_INITIAL_MTU)"
    "c_mtuProbing c = 0"
  using assms
  by (auto simp: connInit_def Let_def connZero_def cidGenerate_def draw_def split: if_splits option.splits)

lemma connRole_fields:
  assumes "connRole P rnd server cfg c = Some c1"
  shows "c_recov c1 = c_recov c" "c_mtuProbing c1 = c_mtuProbing c"
  using assms
  by (auto simp: connRole_def Let_def draw_def split: if_splits option.splits prod.splits bool.splits)

lemma created_ok:
  assumes "quicConnCreate P rnd te server cfg peer = Some c"
  shows "conn_ok c"
proof -
  obtain c0 c1 where c: "connInit rnd server cfg peer = Some c0" "connRole P rnd server cfg c0 = Some c1"
    "c_recov c = c_recov c1" "c_mtuProbing c = c_mtuProbing c1"
    using assms by (auto simp: quicConnCreate_def Let_def split: if_splits option.splits prod.splits)
  have "recov_inv (quicRecovSpaceReady QUIC_PNS_INITIAL (quicRecovInit server QUIC_INITIAL_MTU))"
    using recov_inv_quiet [OF recov_quiet.intros(7) recov_inv_Init [of 1200 server]] by simp
  with connInit_fields [OF c(1)] connRole_fields [OF c(2)] c(3,4)
  show ?thesis by (simp add: conn_ok_def mtu_bounded_def)
qed


section \<open>Properties\<close>

text \<open>
  A packet's frames are always processed to an end, whatever bytes the peer put in it: from a
  connection whose loss recovery is consistent, \<^verbatim>\<open>processFrames\<close> returns, and leaves a connection whose
  loss recovery is consistent again, with the bytes in flight exactly those of the unresolved
  packets and the congestion window within its bounds. A new connection is such a connection.
\<close>

theorem frames_processed:
  assumes "conn_ok c \<or> quicConnCreate P rnd0 te server cfg peer = Some c"
  shows "\<exists>ok c1 el pr1. processFrames xa rnd c sp payload h pr now = Some (ok, c1, el, pr1) \<and> conn_ok c1
    \<and> rv_inFlight (c_recov c1) = (\<Sum>sp\<leftarrow>pn_spaces. \<Sum>p\<leftarrow>ring_list (rv_sent (c_recov c1) sp). fly p)
    \<and> 2 * int (rv_maxDatagram (c_recov c1)) \<le> rv_window (c_recov c1)
    \<and> rv_window (c_recov c1) \<le> QUIC_MAX_WINDOW"
proof -
  have "conn_ok c" using assms created_ok by blast
  from processFrames_ok [OF this, of xa rnd sp payload h pr now]
  obtain ok c1 el pr1 where r: "processFrames xa rnd c sp payload h pr now = Some (ok, c1, el, pr1)" "conn_ok c1"
    by blast
  then have "recov_inv (c_recov c1)" by (simp add: conn_ok_def)
  then show ?thesis using r by (auto simp: recov_inv_defs)
qed

theorem frames_processed_witness:
  "\<exists>ok c1 el pr1. processFrames open_alloc rnd_example client_example QUIC_PNS_INITIAL
     [0x02, 0x07, 0x00, 0x00, 0x07] hdrZero True 5000 = Some (ok, c1, el, pr1) \<and> conn_ok c1"
  using frames_processed [OF disjI2 [OF example_client(1)], of open_alloc rnd_example
      QUIC_PNS_INITIAL "[0x02, 0x07, 0x00, 0x00, 0x07]" hdrZero True 5000] by blast

text \<open>
  An acknowledgement of a packet that was never sent does nothing but end the connection:
  \<^verbatim>\<open>handleAck\<close> refuses the frame as a protocol violation before any of its ranges reaches loss
  recovery, so no packet is reported, nothing is freed and the window does not grow. An
  acknowledgement that is accepted covers sent packets only.
\<close>

theorem ack_of_unsent_refused:
  assumes "quicAckIterInit f = Some it" "ack_ranges it = (ranges, it1)"
  shows "(r \<in> set ranges \<and> ps_next (c_pns c sp) \<le> ar_largest r \<longrightarrow>
      (\<exists>c1. handleAck c sp f now = Some (False, c1) \<and> c_recov c1 = c_recov c \<and> c_pns c1 = c_pns c
        \<and> (c_state c \<in> {QUIC_CS_NEW, QUIC_CS_HANDSHAKE, QUIC_CS_CONNECTED} \<longrightarrow>
            c_state c1 = QUIC_CS_CLOSING \<and> c_closeError c1 = QUIC_ERR_PROTOCOL_VIOLATION)))
    \<and> (handleAck c sp f now = Some (True, c1) \<longrightarrow> (\<forall>r\<in>set ranges. ar_largest r < ps_next (c_pns c sp)))"
proof -
  let ?c1 = "quicConnAbort c QUIC_ERR_PROTOCOL_VIOLATION (frameType f)"
  have refuse: "handleAck c sp f now = Some (False, ?c1)"
    if "\<exists>r\<in>set ranges. ps_next (c_pns c sp) \<le> ar_largest r"
    using handleAck_cases(1) [OF assms] that by (simp add: list_ex_iff)
  have "c_recov ?c1 = c_recov c" "c_pns ?c1 = c_pns c"
    "c_state c \<in> {QUIC_CS_NEW, QUIC_CS_HANDSHAKE, QUIC_CS_CONNECTED} \<longrightarrow>
      c_state ?c1 = QUIC_CS_CLOSING \<and> c_closeError ?c1 = QUIC_ERR_PROTOCOL_VIOLATION"
    by (simp_all add: quicConnAbort_def quicConnClose_def connNotifyClosed_def fireHook_def)
  with refuse have "r \<in> set ranges \<and> ps_next (c_pns c sp) \<le> ar_largest r \<longrightarrow>
      (\<exists>c1. handleAck c sp f now = Some (False, c1) \<and> c_recov c1 = c_recov c \<and> c_pns c1 = c_pns c
        \<and> (c_state c \<in> {QUIC_CS_NEW, QUIC_CS_HANDSHAKE, QUIC_CS_CONNECTED} \<longrightarrow>
            c_state c1 = QUIC_CS_CLOSING \<and> c_closeError c1 = QUIC_ERR_PROTOCOL_VIOLATION))"
    by blast
  moreover have "\<forall>r\<in>set ranges. ar_largest r < ps_next (c_pns c sp)" if "handleAck c sp f now = Some (True, c1)"
    using refuse that by (metis Pair_inject linorder_not_le option.inject)
  ultimately show ?thesis by blast
qed

definition ack_example :: QuicFrame where
  "ack_example = FAck 5 0 0 2 [] None"

definition idle_example :: QuicConn where
  "idle_example = connZero\<lparr>c_state := QUIC_CS_CONNECTED\<rparr>"

theorem ack_of_unsent_refused_witness:
  "\<exists>c1. handleAck idle_example QUIC_PNS_APP ack_example 5000 = Some (False, c1)
    \<and> c_recov c1 = c_recov idle_example \<and> c_closeError c1 = QUIC_ERR_PROTOCOL_VIOLATION"
proof -
  let ?it = "the (quicAckIterInit ack_example)" and ?r = "\<lparr>ar_largest = 5, ar_smallest = 3\<rparr> :: QuicAckRange"
  have it: "quicAckIterInit ack_example = Some ?it" and rg: "fst (ack_ranges ?it) = [?r]"
    by code_simp+
  have "ps_next (c_pns idle_example QUIC_PNS_APP) = 0" "c_state idle_example = QUIC_CS_CONNECTED"
    by (simp_all add: idle_example_def connZero_def spaceZero_def)
  then show ?thesis
    using ack_of_unsent_refused [OF it surjective_pairing, of ?r idle_example QUIC_PNS_APP "5000" idle_example]
    by (auto simp: rg)
qed

end
