(* ===== verification/QuicConnFlush.thy ===== *)
theory QuicConnFlush
  imports QuicConnSend QuicConnInv
begin

text \<open>
  The size of what a connection sends. Whatever frames go into it, a payload stays inside its budget;
  the packets of a datagram together measure what the plan says, so that a datagram never exceeds the
  limit it was planned for. From this follow the limits on amplification and on what is in flight.
\<close>

section \<open>Payloads stay inside their budget\<close>

text \<open>The writer stays inside its object.\<close>

definition wr_inside :: "QuicWr \<Rightarrow> QuicWr \<Rightarrow> bool" where
  "wr_inside wr wr1 \<longleftrightarrow> wr_wf wr1 \<and> length (wr_buf wr1) = length (wr_buf wr)"

lemma wr_inside_refl: "wr_wf wr \<Longrightarrow> wr_inside wr wr"
  by (simp add: wr_inside_def)

lemma wr_inside_wf: "wr_inside wr wr1 \<Longrightarrow> wr_wf wr1"
  by (simp add: wr_inside_def)

lemma wr_inside_trans: "wr_inside a b \<Longrightarrow> wr_inside b c \<Longrightarrow> wr_inside a c"
  by (simp add: wr_inside_def)

lemma wr_inside_out: "wr_inside wr wr1 \<Longrightarrow> length (wr_out wr1) \<le> length (wr_buf wr)"
  by (simp add: wr_inside_def wr_wf_def wr_out_def)

lemma putFrame_inside: "wr_wf wr \<Longrightarrow> putFrame wr f = (ok, wr1) \<Longrightarrow> wr_inside wr wr1"
  using putFrame_ext [of wr f] by (simp add: wr_inside_def wr_ext_def)

lemma putCtl_inside: "wr_wf wr \<Longrightarrow> putCtl wr ctl f pn el = (wr1, ctl1, el1) \<Longrightarrow> wr_inside wr wr1"
  by (auto simp: putCtl_def intro: wr_inside_refl dest: putFrame_inside split: if_splits prod.splits bool.splits)

lemma fillDir_inside: "wr_wf wr \<Longrightarrow> fillDir pn dir (ss, wr, el) = (ss1, wr1, el1) \<Longrightarrow> wr_inside wr wr1"
  by (auto simp: fillDir_def dest!: putCtl_inside dest: putCtl_inside [OF wr_inside_wf]
      intro: wr_inside_trans split: prod.splits)

lemma fillConn_inside:
  assumes "wr_wf wr" "fillConn ss wr pn el = (ss1, wr1, el1)"
  shows "wr_inside wr wr1"
proof -
  obtain wa ca ea where a: "putCtl wr (ss_maxData ss) (FMaxData (ss_recvMax ss)) pn el = (wa, ca, ea)" by (metis prod_cases3)
  obtain wb cb eb where b: "putCtl wa (ss_dataBlocked ss) (FDataBlocked (ss_sendMax ss)) pn ea = (wb, cb, eb)"
    by (metis prod_cases3)
  obtain sc wc ec where c: "fillDir pn QUIC_SDIR_BIDI (ss\<lparr>ss_maxData := ca, ss_dataBlocked := cb\<rparr>, wb, eb) = (sc, wc, ec)"
    by (metis prod_cases3)
  have d: "fillDir pn QUIC_SDIR_UNI (sc, wc, ec) = (ss1, wr1, el1)"
    using assms(2) a b c by (simp add: fillConn_def)
  note 1 = putCtl_inside [OF assms(1) a]
  note 2 = putCtl_inside [OF wr_inside_wf [OF 1] b]
  note 3 = fillDir_inside [OF wr_inside_wf [OF 2] c]
  note 4 = fillDir_inside [OF wr_inside_wf [OF 3] d]
  show ?thesis using 1 2 3 4 wr_inside_trans by blast
qed

lemma fillData_inside:
  "wr_wf wr \<Longrightarrow> fillData st wr pn el = (st1, wr1, el1) \<Longrightarrow> wr_inside wr wr1"
proof (induction st wr pn el arbitrary: st1 wr1 el1 rule: fillData.induct)
  case (1 st wr pn el)
  let ?room = "quicWrLeft wr - streamOverhead st"
  show ?case
  proof (cases "quicWrLeft wr \<le> streamOverhead st \<or> quicSendBufNext (st_out st) ?room = None")
    case True
    then have "fillData st wr pn el = (st, wr, el)" by (subst fillData.simps) (auto simp: Let_def)
    then show ?thesis using 1(2,3) wr_inside_refl by simp
  next
    case False
    then obtain off data where n: "quicSendBufNext (st_out st) ?room = Some (off, data)" by auto
    define fin where "fin = (ctl_state (st_fin st) = QUIC_CTL_PENDING \<and> off + of_nat (length data) = sb_end (st_out st))"
    obtain ok wr2 where p: "putStreamFrame wr st off data fin = (ok, wr2)" by (metis surj_pair)
    have i: "wr_inside wr wr2" using putFrame_inside [OF 1(2)] p by (simp add: putStreamFrame_def)
    show ?thesis
    proof (cases ok)
      case True
      have l: "\<not> quicWrLeft wr \<le> streamOverhead st" using False by simp
      have "fillData (st\<lparr>st_out := quicSendBufSent (st_out st) off (length data) pn,
          st_fin := (if fin then quicCtlSent (st_fin st) pn else st_fin st)\<rparr>) wr2 pn True = (st1, wr1, el1)"
        using 1(3) fillData.simps [of st wr pn el] l n p True by (simp add: Let_def fin_def)
      moreover have "putStreamFrame wr st off data fin = (True, wr2)" using p True by simp
      ultimately have "wr_inside wr2 wr1"
        using 1(1) [OF refl refl l n refl fin_def] wr_inside_wf [OF i] by auto
      with i show ?thesis by (rule wr_inside_trans)
    next
      case no: False
      then have "wr1 = wr2" using 1(3) fillData.simps [of st wr pn el] False n p by (simp add: Let_def fin_def)
      with i show ?thesis by simp
    qed
  qed
qed

lemma fillStreamData_inside:
  assumes "wr_wf wr" "fillStreamData st wr pn el = (st1, wr1, el1)"
  shows "wr_inside wr wr1"
proof (cases "st_sendState st \<noteq> QUIC_SEND_SEND \<and> st_sendState st \<noteq> QUIC_SEND_DATA_SENT")
  case True
  then show ?thesis using assms wr_inside_refl by (auto simp: fillStreamData_def)
next
  case False
  obtain sa wa ea where a: "fillData st wr pn el = (sa, wa, ea)" by (metis prod_cases3)
  note i = fillData_inside [OF assms(1) a]
  obtain ok wb where b: "putFrame wa (FStream (sb_end (st_out sa) > 0) True True (st_id sa) (sb_end (st_out sa)) []) = (ok, wb)"
    by (metis surj_pair)
  have "wr1 = wa \<or> wr1 = wb"
    using assms(2) False a b by (auto simp: fillStreamData_def putStreamFrame_def split: if_splits bool.splits)
  then show ?thesis using i putFrame_inside [OF wr_inside_wf [OF i] b] wr_inside_trans by blast
qed

lemma fillStream_inside:
  assumes "wr_wf wr" "fillStream st wr pn el = (st1, wr1, el1)"
  shows "wr_inside wr wr1"
proof -
  obtain wa ca ea where a: "putCtl wr (st_stopSending st) (FStopSending (st_id st) (st_stopError st)) pn el = (wa, ca, ea)"
    by (metis prod_cases3)
  obtain wb cb eb where b: "putCtl wa (st_maxData st) (FMaxStreamData (st_id st) (ra_limit (st_in st))) pn ea = (wb, cb, eb)"
    by (metis prod_cases3)
  obtain wc cc ec where c: "(if ctl_state (st_reset st) \<noteq> QUIC_CTL_IDLE
      then putCtl wb (st_reset st) (FResetStream (st_id st) (st_resetError st) (st_sendFinal st)) pn eb
      else (wb, st_reset st, eb)) = (wc, cc, ec)" by (metis prod_cases3)
  obtain wd cd ed where d: "putCtl wc (st_blocked st) (FStreamDataBlocked (st_id st) (st_sendMax st)) pn ec = (wd, cd, ed)"
    by (metis prod_cases3)
  have e: "fillStreamData (st\<lparr>st_stopSending := ca, st_maxData := cb, st_reset := cc, st_blocked := cd\<rparr>) wd pn ed
      = (st1, wr1, el1)"
    using assms(2) a b c d by (simp add: fillStream_def)
  note 1 = putCtl_inside [OF assms(1) a]
  note 2 = putCtl_inside [OF wr_inside_wf [OF 1] b]
  have 3: "wr_inside wb wc"
    using c putCtl_inside [OF wr_inside_wf [OF 2]] wr_inside_refl [OF wr_inside_wf [OF 2]] by (auto split: if_splits)
  note 4 = putCtl_inside [OF wr_inside_wf [OF 3] d]
  note 5 = fillStreamData_inside [OF wr_inside_wf [OF 4] e]
  show ?thesis using 1 2 3 4 5 wr_inside_trans by blast
qed

lemma fillVisits_inside:
  "wr_wf wr \<Longrightarrow> fillVisits n ss wr pn el = (ss1, wr1, el1) \<Longrightarrow> wr_inside wr wr1"
proof (induction n ss wr pn el arbitrary: ss1 wr1 el1 rule: fillVisits.induct)
  case (2 n ss wr pn el)
  show ?case
  proof (cases "ss_active ss")
    case (Cons i rest)
    show ?thesis
    proof (cases "quicStreamFind (ss\<lparr>ss_active := rest\<rparr>) i")
      case None
      then show ?thesis using 2 Cons wr_inside_refl by (auto simp: Let_def split: if_splits)
    next
      case (Some st)
      obtain st1 wr2 el2 where f: "fillStream st wr pn el = (st1, wr2, el2)" by (metis prod_cases3)
      note i = fillStream_inside [OF 2(3) f]
      show ?thesis
        using 2(2) [OF Cons _ refl Some f [symmetric] refl wr_inside_wf [OF i]] 2(3,4) Cons Some f i wr_inside_trans wr_inside_refl
        by (auto simp: Let_def split: if_splits)
    qed
  qed (use 2 wr_inside_refl in auto)
qed (simp add: wr_inside_refl)

lemma wr_init_wf [simp]: "wr_wf (quicWrInit (replicate n 0))"
  by (simp add: wr_wf_init)

lemma quicStreamsFill_length:
  assumes "quicStreamsFill ss n pn = (out, el, ss1)"
  shows "length out \<le> n"
proof -
  obtain sa wa ea where a: "fillConn ss (quicWrInit (replicate n 0)) pn False = (sa, wa, ea)" by (metis prod_cases3)
  obtain sb wb eb where b: "fillVisits (length (ss_active sa)) sa wa pn ea = (sb, wb, eb)" by (metis prod_cases3)
  have i: "wr_inside (quicWrInit (replicate n 0)) wa" by (rule fillConn_inside [OF wr_init_wf a])
  have "wr_inside (quicWrInit (replicate n 0)) wb"
    by (rule wr_inside_trans [OF i fillVisits_inside [OF wr_inside_wf [OF i] b]])
  moreover have "out = wr_out wb" using assms a b by (simp add: quicStreamsFill_def wr_out_def quicWrLen_def)
  ultimately show ?thesis using wr_inside_out by (fastforce simp: quicWrInit_def)
qed

lemma putAckTry_inside: "wr_wf wr \<Longrightarrow> putAckTry d rs ecn n wr = (ok, wr1) \<Longrightarrow> wr_inside wr wr1"
proof (induction d rs ecn n wr arbitrary: wr1 rule: putAckTry.induct)
  case (2 d rs ecn n wr)
  show ?case
  proof (cases "quicAckBuild d (take (Suc n) rs) ecn (replicate (QUIC_MAX_ACK_RANGES * 20) 0)")
    case (Some f)
    obtain ok2 wr2 where p: "putFrame wr f = (ok2, wr2)" by (metis surj_pair)
    note i = putFrame_inside [OF 2(3) p]
    show ?thesis
      using 2(2) [OF Some] 2(4) Some p i wr_inside_wf [OF i] wr_inside_trans by (cases ok2) fastforce+
  qed (use 2 in simp)
qed (simp add: wr_inside_refl)

lemma putAck_inside: "wr_wf wr \<Longrightarrow> putAck c sp wr pn now = (c1, wr1) \<Longrightarrow> wr_inside wr wr1"
  by (auto simp: putAck_def Let_def wr_inside_refl dest: putAckTry_inside split: if_splits prod.splits bool.splits)

lemma putClose_inside: "wr_wf wr \<Longrightarrow> wr_inside wr (putClose c sp wr)"
proof -
  assume wf: "wr_wf wr"
  have 1: "wr_inside wr (snd (putFrame wr f))" for f using putFrame_inside [OF wf] by (metis prod.collapse)
  have "wr_inside wr (snd (putFrame (snd (putFrame wr f)) g))" for f g
    using 1 putFrame_inside [OF wr_inside_wf [OF 1]] wr_inside_trans by (metis prod.collapse)
  with 1 show ?thesis by (auto simp: putClose_def Let_def split: prod.splits bool.splits) (metis snd_conv)+
qed

lemma cryptoFill_inside:
  "wr_wf wr \<Longrightarrow> cryptoFill sb wr pn el = (sb1, wr1, el1) \<Longrightarrow> wr_inside wr wr1"
proof (induction sb wr pn el arbitrary: sb1 wr1 el1 rule: cryptoFill.induct)
  case (1 sb wr pn el)
  let ?room = "quicWrLeft wr - cryptoOverhead sb"
  show ?case
  proof (cases "quicWrLeft wr \<le> cryptoOverhead sb \<or> quicSendBufNext sb ?room = None")
    case True
    then have "cryptoFill sb wr pn el = (sb, wr, el)" by (subst cryptoFill.simps) (auto simp: Let_def)
    then show ?thesis using 1(2,3) wr_inside_refl by simp
  next
    case False
    then obtain off data where n: "quicSendBufNext sb ?room = Some (off, data)" by auto
    obtain ok wr2 where p: "putCryptoFrame wr off data = (ok, wr2)" by (metis surj_pair)
    have i: "wr_inside wr wr2" using putFrame_inside [OF 1(2)] p by (simp add: putCryptoFrame_def)
    have l: "\<not> quicWrLeft wr \<le> cryptoOverhead sb" using False by simp
    note unf = cryptoFill.simps [of sb wr pn el]
    show ?thesis
    proof (cases ok)
      case True
      then have p1: "putCryptoFrame wr off data = (True, wr2)" using p by simp
      then have "cryptoFill (quicSendBufSent sb off (length data) pn) wr2 pn True = (sb1, wr1, el1)"
        using 1(3) unf l n by (simp add: Let_def)
      then have "wr_inside wr2 wr1" using 1(1) [OF refl refl l n refl p1 [symmetric]] wr_inside_wf [OF i] by auto
      with i show ?thesis by (rule wr_inside_trans)
    qed (use 1(3) unf l n p i in \<open>simp add: Let_def\<close>)
  qed
qed

lemma putCrypto_inside: "wr_wf wr \<Longrightarrow> putCrypto c sp wr pn el = (c1, wr1, el1) \<Longrightarrow> wr_inside wr wr1"
  by (auto simp: putCrypto_def dest: cryptoFill_inside split: prod.splits)

lemma putProbe_inside:
  "wr_wf wr \<Longrightarrow> putCryptoProbe c sp wr el = (ok, wr1, el1) \<Longrightarrow> wr_inside wr wr1"
  "wr_wf wr \<Longrightarrow> putPing wr el = (ok, wr1, el1) \<Longrightarrow> wr_inside wr wr1"
  by (auto simp: putCryptoProbe_def putPing_def putCryptoFrame_def Let_def wr_inside_refl
      dest: putFrame_inside split: if_splits option.splits prod.splits bool.splits)

lemma putRetires_inside:
  "wr_wf wr \<Longrightarrow> putRetires pn q wr el = (q1, wr1, el1) \<Longrightarrow> wr_inside wr wr1"
proof (induction pn q wr el arbitrary: q1 wr1 el1 rule: putRetires.induct)
  case (2 pn sq ctl q wr el)
  obtain ok wr2 where p: "putFrame wr (FRetireConnId sq) = (ok, wr2)" by (metis surj_pair)
  note i = putFrame_inside [OF 2(3) p]
  show ?case
  proof (cases "ctl_state ctl = QUIC_CTL_PENDING \<and> ok")
    case True
    obtain q2 wr3 el3 where r: "putRetires pn q wr2 True = (q2, wr3, el3)" by (metis prod_cases3)
    have "wr_inside wr2 wr3"
      using 2(2) [OF _ p [symmetric] _ wr_inside_wf [OF i] r] True by simp
    moreover have "wr1 = wr3" using 2(4) True p r by simp
    ultimately show ?thesis using i wr_inside_trans by blast
  qed (use 2 p i in \<open>auto split: if_splits prod.splits\<close>)
qed (simp add: wr_inside_refl)

lemma putCids_inside:
  "wr_wf wr \<Longrightarrow> putCids pn is c wr el = (c1, wr1, el1) \<Longrightarrow> wr_inside wr wr1"
proof (induction pn "is" c wr el arbitrary: c1 wr1 el1 rule: putCids.induct)
  case (2 pn i "is" c wr el)
  let ?l = "c_local c ! i"
  show ?case
  proof (cases "\<not> lc_live ?l \<or> lc_retired ?l \<or> ctl_state (lc_announce ?l) \<noteq> QUIC_CTL_PENDING")
    case False
    obtain ok wr2 where p: "putFrame wr (FNewConnId (lc_seq ?l) 0 (lc_cid ?l) (lc_resetToken ?l)) = (ok, wr2)"
      by (metis surj_pair)
    note i = putFrame_inside [OF 2(3) p]
    show ?thesis
    proof (cases ok)
      case True
      then have p1: "(True, wr2) = putFrame wr (FNewConnId (lc_seq ?l) 0 (lc_cid ?l) (lc_resetToken ?l))"
        using p by simp
      have "wr_inside wr2 wr1"
        using 2(2) [OF refl False p1 _ wr_inside_wf [OF i], of c1 wr1 el1]
          2(4) False p True by (simp add: Let_def)
      with i show ?thesis by (rule wr_inside_trans)
    qed (use 2(4) False p i in \<open>simp add: Let_def\<close>)
  qed (use 2 in \<open>auto simp: Let_def\<close>)
qed (simp add: wr_inside_refl)

text \<open>\<^verbatim>\<open>putAppFrames\<close> as the chain of its parts.\<close>

lemma putAppFrames_parts:
  assumes "putAppFrames c wr pn early el = (c1, wr1, el1)"
  obtains wa ctla ea wb ctlb eb wc ctlc ec q wd ed where
    "(if \<not> early then putCtl wr (c_handshakeDone c) FHandshakeDone pn el else (wr, c_handshakeDone c, el)) = (wa, ctla, ea)"
    "(if \<not> early \<and> \<not> c_respondElsewhere c
      then putCtl wa (c_pathResponse c) (FPath True (c_pathResponseData c)) pn ea
      else (wa, c_pathResponse c, ea)) = (wb, ctlb, eb)"
    "putCtl wb (c_pathChallenge c) (FPath False (c_pathChallengeData c)) pn eb = (wc, ctlc, ec)"
    "putRetires pn (c_retireQueue c) wc ec = (q, wd, ed)"
    "putCids pn [0..<QUIC_MAX_CIDS] (c\<lparr>c_handshakeDone := ctla, c_pathResponse := ctlb, c_pathChallenge := ctlc,
       c_retireQueue := q\<rparr>) wd ed = (c1, wr1, el1)"
proof -
  obtain wa ctla ea where a: "(if \<not> early then putCtl wr (c_handshakeDone c) FHandshakeDone pn el
      else (wr, c_handshakeDone c, el)) = (wa, ctla, ea)" by (metis prod_cases3)
  obtain wb ctlb eb where b: "(if \<not> early \<and> \<not> c_respondElsewhere c
      then putCtl wa (c_pathResponse c) (FPath True (c_pathResponseData c)) pn ea
      else (wa, c_pathResponse c, ea)) = (wb, ctlb, eb)" by (metis prod_cases3)
  obtain wc ctlc ec where c: "putCtl wb (c_pathChallenge c) (FPath False (c_pathChallengeData c)) pn eb = (wc, ctlc, ec)"
    by (metis prod_cases3)
  obtain q wd ed where d: "putRetires pn (c_retireQueue c) wc ec = (q, wd, ed)" by (metis prod_cases3)
  show thesis by (rule that [OF a b c d]) (use assms a b c d in \<open>simp add: putAppFrames_def\<close>)
qed

lemma putAppFrames_inside:
  assumes "wr_wf wr" "putAppFrames c wr pn early el = (c1, wr1, el1)"
  shows "wr_inside wr wr1"
proof -
  note keep = wr_inside_refl putCtl_inside
  obtain wa ctla ea wb ctlb eb wc ctlc ec q wd ed where
    p: "(if \<not> early then putCtl wr (c_handshakeDone c) FHandshakeDone pn el else (wr, c_handshakeDone c, el)) = (wa, ctla, ea)"
    "(if \<not> early \<and> \<not> c_respondElsewhere c
      then putCtl wa (c_pathResponse c) (FPath True (c_pathResponseData c)) pn ea
      else (wa, c_pathResponse c, ea)) = (wb, ctlb, eb)"
    "putCtl wb (c_pathChallenge c) (FPath False (c_pathChallengeData c)) pn eb = (wc, ctlc, ec)"
    "putRetires pn (c_retireQueue c) wc ec = (q, wd, ed)"
    "putCids pn [0..<QUIC_MAX_CIDS] (c\<lparr>c_handshakeDone := ctla, c_pathResponse := ctlb, c_pathChallenge := ctlc,
       c_retireQueue := q\<rparr>) wd ed = (c1, wr1, el1)"
    by (rule putAppFrames_parts [OF assms(2)])
  have 1: "wr_inside wr wa" using p(1) assms(1) keep by (auto split: if_splits)
  have 2: "wr_inside wa wb" using p(2) wr_inside_wf [OF 1] keep by (auto split: if_splits)
  note 3 = putCtl_inside [OF wr_inside_wf [OF 2] p(3)]
  note 4 = putRetires_inside [OF wr_inside_wf [OF 3] p(4)]
  note 5 = putCids_inside [OF wr_inside_wf [OF 4] p(5)]
  show ?thesis using 1 2 3 4 5 wr_inside_trans by blast
qed

lemma putDatagram_inside: "wr_wf wr \<Longrightarrow> putDatagram c wr el = (c1, wr1, el1) \<Longrightarrow> wr_inside wr wr1"
  by (auto simp: putDatagram_def wr_inside_refl dest: putFrame_inside split: option.splits prod.splits bool.splits)

lemma putFill_inside:
  assumes "wr_wf wr" "length (wr_buf wr) = budget" "putFill c wr budget pn el = (c1, wr1, el1)"
  shows "wr_inside wr wr1"
proof (cases "c_hooks c HookFill \<and> quicWrLen wr < budget")
  case True
  obtain out e c2 where f: "onConnFill (budget - quicWrLen wr) pn c = (out, e, c2)" by (metis prod_cases3)
  have "length out \<le> budget - wr_p wr"
    using f quicStreamsFill_length by (auto simp: onConnFill_def quicWrLen_def split: option.splits prod.splits)
  then show ?thesis
    using assms True f by (auto simp: putFill_def wr_inside_def wr_wf_def quicWrLen_def split: if_splits)
qed (use assms wr_inside_refl in \<open>auto simp: putFill_def\<close>)


section \<open>What building a payload leaves alone\<close>

text \<open>The datagram bytes a connection has handed over.\<close>

fun ev_bytes :: "ConnEvent \<Rightarrow> nat" where
  "ev_bytes (EvSend dest info dgram) = length dgram"
| "ev_bytes _ = 0"

definition sent_bytes :: "ConnEvent list \<Rightarrow> nat" where
  "sent_bytes evs = sum_list (map ev_bytes evs)"

lemma sent_bytes_append [simp]: "sent_bytes (xs @ ys) = sent_bytes xs + sent_bytes ys"
  "sent_bytes [ev] = ev_bytes ev"
  by (simp_all add: sent_bytes_def)

text \<open>What building payloads leaves of a connection.\<close>

definition built :: "QuicConn \<Rightarrow> QuicConn \<Rightarrow> bool" where
  "built c c1 \<longleftrightarrow>
     c_server c1 = c_server c \<and> c_state c1 = c_state c \<and> c_version c1 = c_version c \<and> c_hooks c1 = c_hooks c
      \<and> c_keyPhase c1 = c_keyPhase c \<and> c_remote c1 = c_remote c \<and> c_remoteActive c1 = c_remoteActive c \<and> c_token c1 = c_token c
      \<and> c_recov c1 = c_recov c \<and> c_bytesSent c1 = c_bytesSent c \<and> c_bytesRecv c1 = c_bytesRecv c \<and> c_pathSent c1 = c_pathSent c
      \<and> c_pathRecv c1 = c_pathRecv c \<and> c_addrValidated c1 = c_addrValidated c \<and> c_pathValidated c1 = c_pathValidated c
      \<and> c_pathAmpLimited c1 = c_pathAmpLimited c \<and> c_mtu c1 = c_mtu c \<and> c_earlyTx c1 = c_earlyTx c \<and> c_mtuState c1 = c_mtuState c
      \<and> c_mtuProbing c1 = c_mtuProbing c \<and> c_mtuProbePn c1 = c_mtuProbePn c \<and> c_peer c1 = c_peer c \<and> c_ecnState c1 = c_ecnState c
      \<and> c_ecnTestPkts c1 = c_ecnTestPkts c \<and> c_localTp c1 = c_localTp c \<and> c_peerTp c1 = c_peerTp c
      \<and> c_peerTpValid c1 = c_peerTpValid c \<and> c_respondElsewhere c1 = c_respondElsewhere c
      \<and> c_handshakeConfirmed c1 = c_handshakeConfirmed c
     \<and> map lc_cid (c_local c1) = map lc_cid (c_local c) \<and> sent_bytes (c_events c1) = sent_bytes (c_events c)
     \<and> (\<forall>sp. ps_next (c_pns c1 sp) = ps_next (c_pns c sp) \<and> ps_tx (c_pns c1 sp) = ps_tx (c_pns c sp)
          \<and> ps_largestAcked (c_pns c1 sp) = ps_largestAcked (c_pns c sp)
          \<and> ps_discarded (c_pns c1 sp) = ps_discarded (c_pns c sp))"

lemma built_refl [simp]: "built c c"
  by (simp add: built_def)

lemma built_trans: "built a b \<Longrightarrow> built b c \<Longrightarrow> built a c"
  by (simp add: built_def)

lemma built_setSpace [simp]:
  "built c (setSpace sp ((c_pns c sp)\<lparr>ps_ack := a\<rparr>) c)" "built c (setSpace sp ((c_pns c sp)\<lparr>ps_cryptoOut := b\<rparr>) c)"
  by (simp_all add: built_def setSpace_def)

lemma built_updates [simp]:
  "built c (c\<lparr>c_handshakeDone := x1, c_pathResponse := x2, c_pathChallenge := x3, c_retireQueue := q\<rparr>)"
  "built c (c\<lparr>c_dgramOut := d\<rparr>)" "built c (c\<lparr>c_streams := ss\<rparr>)"
  by (simp_all add: built_def)

lemma built_fireHook: "ev_bytes ev = 0 \<Longrightarrow> built c (fireHook hook ev c)"
  by (simp add: built_def fireHook_def)

lemma built_local:
  assumes "lc_cid l = lc_cid (c_local c ! i)"
  shows "built c (c\<lparr>c_local := (c_local c)[i := l]\<rparr>)"
proof -
  have "map lc_cid ((c_local c)[i := l]) = map lc_cid (c_local c)"
    using assms by (cases "i < length (c_local c)") (simp_all add: map_update list_update_same_conv list_update_beyond)
  then show ?thesis by (simp add: built_def)
qed

lemma putAck_built: "putAck c sp wr pn now = (c1, wr1) \<Longrightarrow> built c c1"
  by (auto simp: putAck_def Let_def split: if_splits prod.splits bool.splits)

lemma putCrypto_built: "putCrypto c sp wr pn el = (c1, wr1, el1) \<Longrightarrow> built c c1"
  by (auto simp: putCrypto_def split: prod.splits)

lemma putCids_built: "putCids pn is c wr el = (c1, wr1, el1) \<Longrightarrow> built c c1"
proof (induction pn "is" c wr el arbitrary: c1 wr1 el1 rule: putCids.induct)
  case (2 pn i "is" c wr el)
  let ?l = "c_local c ! i"
  show ?case
  proof (cases "\<not> lc_live ?l \<or> lc_retired ?l \<or> ctl_state (lc_announce ?l) \<noteq> QUIC_CTL_PENDING")
    case False
    obtain ok wr2 where p: "putFrame wr (FNewConnId (lc_seq ?l) 0 (lc_cid ?l) (lc_resetToken ?l)) = (ok, wr2)"
      by (metis surj_pair)
    show ?thesis
    proof (cases ok)
      case True
      then have p1: "(True, wr2) = putFrame wr (FNewConnId (lc_seq ?l) 0 (lc_cid ?l) (lc_resetToken ?l))"
        using p by simp
      have "built (cidAnnounced pn i c) c1"
        using 2(2) [OF refl False p1 _, of c1 wr1 el1] 2(3) False p True by (simp add: Let_def)
      moreover have "built c (cidAnnounced pn i c)"
        by (auto simp: cidAnnounced_def Let_def intro!: built_local built_trans [OF built_local built_fireHook])
      ultimately show ?thesis using built_trans by blast
    qed (use 2(3) False p in \<open>simp add: Let_def\<close>)
  qed (use 2 in \<open>auto simp: Let_def\<close>)
qed simp

lemma putAppFrames_built:
  assumes "putAppFrames c wr pn early el = (c1, wr1, el1)"
  shows "built c c1"
  by (rule putAppFrames_parts [OF assms]) (blast intro: built_trans [OF built_updates(1)] putCids_built)

lemma putDatagram_built: "putDatagram c wr el = (c1, wr1, el1) \<Longrightarrow> built c c1"
  by (auto simp: putDatagram_def intro!: built_trans [OF built_updates(2) built_fireHook]
      split: option.splits prod.splits bool.splits)

lemma putFill_built: "putFill c wr budget pn el = (c1, wr1, el1) \<Longrightarrow> built c c1"
  by (auto simp: putFill_def onConnFill_def split: if_splits option.splits prod.splits)

lemma putApp_keeps:
  assumes "wr_wf wr" "length (wr_buf wr) = budget" "putApp c wr budget pn early el = (c1, wr1, el1)"
  shows "wr_inside wr wr1" "built c c1"
proof -
  obtain ca wa ea where a: "putAppFrames c wr pn early el = (ca, wa, ea)" by (metis prod_cases3)
  obtain cb wb eb where b: "putDatagram ca wa ea = (cb, wb, eb)" by (metis prod_cases3)
  have c: "putFill cb wb budget pn eb = (c1, wr1, el1)" using assms(3) a b by (simp add: putApp_def)
  note 1 = putAppFrames_inside [OF assms(1) a]
  note 2 = wr_inside_trans [OF 1 putDatagram_inside [OF wr_inside_wf [OF 1] b]]
  have "length (wr_buf wb) = budget" using 2 assms(2) by (simp add: wr_inside_def)
  from wr_inside_trans [OF 2 putFill_inside [OF wr_inside_wf [OF 2] this c]] show "wr_inside wr wr1" .
  show "built c c1"
    using putAppFrames_built [OF a] putDatagram_built [OF b] putFill_built [OF c] built_trans by blast
qed

lemma putProbe_keeps:
  assumes "wr_wf wr" "putProbe c sp early wr el = (wr1, el1)"
  shows "wr_inside wr wr1"
proof -
  obtain ok wa ea where a: "(if early then (False, wr, el) else putCryptoProbe c sp wr el) = (ok, wa, ea)"
    by (metis prod_cases3)
  obtain ok2 wb eb where b: "putPing wa ea = (ok2, wb, eb)" by (metis prod_cases3)
  have i: "wr_inside wr wa" using a putProbe_inside(1) [OF assms(1)] wr_inside_refl [OF assms(1)] by (auto split: if_splits)
  have "wr1 = wa \<or> wr1 = wb" using assms(2) a b by (auto simp: putProbe_def split: bool.splits)
  then show ?thesis using i putProbe_inside(2) [OF wr_inside_wf [OF i] b] wr_inside_trans by blast
qed

text \<open>\<^verbatim>\<open>buildPayload\<close> as the chain of its parts, once the connection is not closing and may send.\<close>

lemma buildPayload_parts:
  assumes "buildPayload c sp early budget pn probe blocked now = (out, el, c1)"
    and "c_state c \<noteq> QUIC_CS_CLOSING"
  obtains (ack) wa where "blocked \<and> \<not> probe" "out = wr_out wa" "\<not> el"
      "(if \<not> early then putAck c sp (quicWrInit (replicate budget 0)) pn now
        else (c, quicWrInit (replicate budget 0))) = (c1, wa)"
  | (all) ca wa cb wb eb wc ec wd where "\<not> (blocked \<and> \<not> probe)"
      "(if \<not> early then putAck c sp (quicWrInit (replicate budget 0)) pn now
        else (c, quicWrInit (replicate budget 0))) = (ca, wa)"
      "(if \<not> early then putCrypto ca sp wa pn False else (ca, wa, False)) = (cb, wb, eb)"
      "(if sp = QUIC_PNS_APP \<and> (early \<or> c_handshakeComplete cb)
        then putApp cb wb budget pn early eb else (cb, wb, eb)) = (c1, wc, ec)"
      "(if probe \<and> \<not> ec then putProbe c1 sp early wc ec else (wc, ec)) = (wd, el)"
      "out = wr_out wd"
proof -
  let ?wr = "quicWrInit (replicate budget 0)"
  obtain ca wa where a: "(if \<not> early then putAck c sp ?wr pn now else (c, ?wr)) = (ca, wa)" by (metis surj_pair)
  obtain cb wb eb where b: "(if \<not> early then putCrypto ca sp wa pn False else (ca, wa, False)) = (cb, wb, eb)"
    by (metis prod_cases3)
  obtain cc wc ec where c: "(if sp = QUIC_PNS_APP \<and> (early \<or> c_handshakeComplete cb)
      then putApp cb wb budget pn early eb else (cb, wb, eb)) = (cc, wc, ec)" by (metis prod_cases3)
  obtain wd ed where d: "(if probe \<and> \<not> ec then putProbe cc sp early wc ec else (wc, ec)) = (wd, ed)"
    by (metis surj_pair)
  have r: "buildPayload c sp early budget pn probe blocked now =
      (if blocked \<and> \<not> probe then (wr_out wa, False, ca) else (wr_out wd, ed, cc))"
    unfolding buildPayload_def Let_def by (simp only: assms(2) a b c d if_False prod.case)
  show thesis
  proof (cases "blocked \<and> \<not> probe")
    case True
    have "out = wr_out wa" "\<not> el" "c1 = ca" using r assms(1) True by simp_all
    with ack True a show ?thesis by blast
  next
    case False
    have e: "out = wr_out wd" "el = ed" "c1 = cc" using r assms(1) False by (simp_all only: if_False prod.inject)
    show ?thesis by (rule all [OF False a b c [folded e(3)] d [folded e(2,3)] e(1)])
  qed
qed

lemma buildPayload_keeps:
  assumes "buildPayload c sp early budget pn probe blocked now = (out, el, c1)"
  shows "length out \<le> budget \<and> built c c1"
proof (cases "c_state c = QUIC_CS_CLOSING")
  case True
  then show ?thesis
    using assms wr_inside_out [OF putClose_inside [OF wr_init_wf], of c sp budget]
    by (auto simp: buildPayload_def Let_def quicWrInit_def split: if_splits)
next
  case False
  let ?wr = "quicWrInit (replicate budget 0)"
  have ack: "wr_inside ?wr wa \<and> built c ca"
    if "(if \<not> early then putAck c sp ?wr pn now else (c, ?wr)) = (ca, wa)" for ca wa
    using that putAck_inside [OF wr_init_wf] putAck_built wr_inside_refl [OF wr_init_wf] by (auto split: if_splits)
  have len: "length (wr_buf w) = budget" "length (wr_out w) \<le> budget" if "wr_inside ?wr w" for w
    using that wr_inside_out [OF that] by (simp_all add: wr_inside_def quicWrInit_def)
  from assms False show ?thesis
  proof (cases rule: buildPayload_parts)
    case (all ca wa cb wb eb wc ec wd)
    note 1 = ack [OF all(2)]
    have 2: "wr_inside wa wb \<and> built ca cb"
      using all(3) putCrypto_inside [OF wr_inside_wf] putCrypto_built wr_inside_refl [OF wr_inside_wf] 1
      by (auto split: if_splits)
    have i2: "wr_inside ?wr wb" using 1 2 wr_inside_trans by blast
    have 3: "wr_inside wb wc \<and> built cb c1"
      using all(4) putApp_keeps [OF wr_inside_wf [OF i2] len(1) [OF i2]] wr_inside_refl [OF wr_inside_wf [OF i2]]
      by (auto split: if_splits)
    have i3: "wr_inside ?wr wc" using i2 3 wr_inside_trans by blast
    have "wr_inside wc wd"
      using all(5) putProbe_keeps [OF wr_inside_wf [OF i3]] wr_inside_refl [OF wr_inside_wf [OF i3]] by (auto split: if_splits)
    then have "wr_inside ?wr wd" using i3 wr_inside_trans by blast
    then show ?thesis using len(2) 1 2 3 built_trans all(6) by blast
  qed (use ack len(2) in blast)
qed

section \<open>The size of a datagram\<close>

text \<open>The size of a header depends on little, and not on the length it announces.\<close>

lemma quicHdrSize_cong:
  assumes "length (h_dcid h) = length (h_dcid h1)" "length (h_scid h) = length (h_scid h1)" "h_type h = h_type h1"
    "h_pnLen h = h_pnLen h1" "hdrLenSize h = hdrLenSize h1" "h_token h = h_token h1"
  shows "quicHdrSize h = quicHdrSize h1"
  unfolding quicHdrSize_def assms ..

lemma hdrLenSize_two:
  assumes "h_lenSize h = 2" "h_len h < 16384"
  shows "hdrLenSize h = 2"
proof -
  have "quicVarintSize (of_nat (h_len h)) \<in> {1, 2}"
    using assms(2) by (auto simp: quicVarintSize_def word_less_nat_alt unat_of_nat_small)
  then have "quicVarintSize (of_nat (h_len h)) \<noteq> 0" "quicVarintSize (of_nat (h_len h)) \<le> 2"
    by (auto simp del: quicVarintSize_eq_0 quicVarintSize_gt_0)
  then show ?thesis using assms(1) by (simp add: hdrLenSize_def Let_def del: quicVarintSize_eq_0)
qed

definition planSize :: "QuicConn \<Rightarrow> PktPlan \<Rightarrow> nat" where
  "planSize c p = quicHdrSize (buildHdr c (pl_sp p) (pl_early p) (pl_pnLen p) 0) + length (pl_data p) + QUIC_TAG_LEN"

text \<open>Two connections that write the same headers.\<close>

definition same_hdr :: "QuicConn \<Rightarrow> QuicConn \<Rightarrow> bool" where
  "same_hdr c c1 \<longleftrightarrow> c_version c1 = c_version c \<and> c_keyPhase c1 = c_keyPhase c \<and> c_remote c1 = c_remote c
     \<and> c_remoteActive c1 = c_remoteActive c \<and> c_token c1 = c_token c
     \<and> lc_cid (c_local c1 ! 0) = lc_cid (c_local c ! 0)"

lemma buildHdr_same:
  assumes "same_hdr c c1"
  shows "buildHdr c1 sp early n len = buildHdr c sp early n len"
proof -
  have "c_version c1 = c_version c" "c_keyPhase c1 = c_keyPhase c" "c_remote c1 = c_remote c"
    "c_remoteActive c1 = c_remoteActive c" "c_token c1 = c_token c" "lc_cid (c_local c1 ! 0) = lc_cid (c_local c ! 0)"
    using assms by (simp_all add: same_hdr_def)
  note eqs = this
  show ?thesis unfolding buildHdr_def eqs ..
qed

lemma planSize_same: "same_hdr c c1 \<Longrightarrow> planSize c1 = planSize c"
  by (simp add: planSize_def fun_eq_iff buildHdr_same)

lemma built_same: "built c c1 \<Longrightarrow> c_local c \<noteq> [] \<Longrightarrow> same_hdr c c1"
  unfolding built_def same_hdr_def by (metis length_greater_0_conv length_map nth_map)

lemma pktTypeForSpace_cases [simp]:
  "pktTypeForSpace sp \<noteq> QUIC_PKT_RETRY" "pktTypeForSpace sp \<noteq> QUIC_PKT_VERSIONNEG"
  "pktTypeForSpace sp \<noteq> QUIC_PKT_UNKNOWN"
  by (cases sp; simp)+

lemma planHdr_sel:
  "h_type (planHdr c p) = (if pl_early p then QUIC_PKT_0RTT else pktTypeForSpace (pl_sp p))"
  "h_len (planHdr c p) = length (pl_data p) + pl_pnLen p + QUIC_TAG_LEN" "h_pnLen (planHdr c p) = pl_pnLen p"
  "h_version (planHdr c p) = c_version c" "h_dcid (planHdr c p) = rc_cid (c_remote c ! c_remoteActive c)"
  "h_type (planHdr c p) \<noteq> QUIC_PKT_SHORT \<Longrightarrow> h_lenSize (planHdr c p) = 2"
  "h_type (planHdr c p) = QUIC_PKT_SHORT \<Longrightarrow> h_lenSize (planHdr c p) = 0"
  "h_pnEnc (planHdr c p) = ps_next (c_pns c (pl_sp p)) AND pnMask (pl_pnLen p)"
  "h_token (planHdr c p) = (case c_token c of Some b \<Rightarrow>
     if h_type (planHdr c p) = QUIC_PKT_INITIAL then take (buf_len b) (buf_data b) else [] | None \<Rightarrow> [])"
  by (cases "pl_early p"; cases "pl_sp p";
      simp add: planHdr_def buildHdr_def Let_def hdrZero_def split: option.splits)+

lemma buildHdr_len: "buildHdr c sp early n len = (buildHdr c sp early n 0)\<lparr>h_len := len\<rparr>"
  by (simp add: buildHdr_def Let_def split: option.split)

lemma quicHdrSize_len:
  assumes "h_type h = QUIC_PKT_SHORT \<or> h_lenSize h = 2" "h_len h < 16384" "len < 16384"
  shows "quicHdrSize (h\<lparr>h_len := len, h_pn := x, h_pnEnc := y\<rparr>) = quicHdrSize h"
proof (cases "h_type h = QUIC_PKT_SHORT")
  case True
  then show ?thesis by (simp add: quicHdrSize_def)
next
  case False
  have "hdrLenSize h = 2" "hdrLenSize (h\<lparr>h_len := len, h_pn := x, h_pnEnc := y\<rparr>) = 2"
    by (rule hdrLenSize_two; use False assms in simp)+
  then show ?thesis by (intro quicHdrSize_cong) simp_all
qed

lemma buildHdr_width: "h_type (buildHdr c sp early n len) = QUIC_PKT_SHORT \<or> h_lenSize (buildHdr c sp early n len) = 2"
  by (simp add: buildHdr_def Let_def split: option.split)

lemma planHdr_size:
  assumes "length (pl_data p) + pl_pnLen p + QUIC_TAG_LEN < 16384"
  shows "quicHdrSize (planHdr c p) = quicHdrSize (buildHdr c (pl_sp p) (pl_early p) (pl_pnLen p) 0)"
proof -
  have "h_len (buildHdr c (pl_sp p) (pl_early p) (pl_pnLen p) 0) = 0"
    by (simp add: buildHdr_def Let_def split: option.split)
  then show ?thesis
    unfolding planHdr_def Let_def buildHdr_len [of c _ _ _ "length (pl_data p) + _ + _"]
    using quicHdrSize_len [OF buildHdr_width _ assms] by simp
qed

lemma quicHdrSize_pn:
  assumes "quicHdrSize h \<noteq> 0" "h_type h \<in> {QUIC_PKT_SHORT, QUIC_PKT_INITIAL, QUIC_PKT_0RTT, QUIC_PKT_HANDSHAKE}"
  shows "h_pnLen h \<le> quicHdrSize h"
  using assms by (auto simp: quicHdrSize_def Let_def split: if_splits)

lemma planHdr_type:
  "h_type (planHdr c p) \<in> {QUIC_PKT_SHORT, QUIC_PKT_INITIAL, QUIC_PKT_0RTT, QUIC_PKT_HANDSHAKE}"
  by (cases "pl_sp p") (simp_all add: planHdr_sel)

lemma quicPktSeal_length:
  assumes "aead_ok P" "quicPktSeal P k pkt pnOff pnLen pn payload = Some (n, buf)"
  shows "n = pnOff + pnLen + length payload + QUIC_TAG_LEN" "length (take n buf) = n" "n \<le> length pkt"
proof -
  from assms(2) obtain ct msk where c:
    "psa_aead_encrypt P (k_aead k) (k_aeadAlg k) (quicNonce k pn) (take (pnOff + pnLen) pkt) payload
       (length pkt - (pnOff + pnLen)) = Some ct"
    and n: "n = pnOff + pnLen + length ct" "buf = quicHpApply (mem_write pkt (pnOff + pnLen) ct) pnOff pnLen msk"
    and l: "\<not> length pkt < pnOff + pnLen"
    by (auto simp: quicPktSeal_def quicAeadSeal_def Let_def split: if_splits option.splits)
  note ae = aead_okD [OF assms(1) c]
  have u: "length (fold (\<lambda>i p. p[off + i := f p i]) is xs) = length xs" for f off "is" and xs :: "u8 list"
    by (induction "is" arbitrary: xs) simp_all
  have "length buf = length pkt"
    using ae(2) l by (simp add: n(2) quicHpApply_def hpPn_def hpFirst_def u)
  then show "n = pnOff + pnLen + length payload + QUIC_TAG_LEN" "length (take n buf) = n" "n \<le> length pkt"
    using ae(1,2) n(1) l by simp_all
qed

section \<open>Sealing a datagram\<close>

text \<open>The packets of a plan are small enough for the two-byte length of their headers.\<close>

definition small_plan :: "PktPlan \<Rightarrow> bool" where
  "small_plan p \<longleftrightarrow> length (pl_data p) + pl_pnLen p + QUIC_TAG_LEN < 16384"

lemma sealOne_length:
  assumes "aead_ok P" "small_plan p" "sealOne P c p dlen = Some pkt"
  shows "length pkt = planSize c p"
proof -
  obtain wr n buf where e: "quicHdrEncode (quicWrInit (replicate (QUIC_MAX_DATAGRAM - dlen) 0)) (planHdr c p) = (True, wr)"
    and s: "quicPktSeal P (planKeys c p) (wr_buf wr) (quicHdrSize (planHdr c p) - pl_pnLen p) (pl_pnLen p)
      (ps_next (c_pns c (pl_sp p))) (pl_data p) = Some (n, buf)" and pkt: "pkt = take n buf"
    using assms(3) by (auto simp: sealOne_def split: prod.splits bool.splits option.splits)
  have "quicHdrSize (planHdr c p) \<noteq> 0" by (rule quicHdrEncode_True_size [OF e])
  then have "pl_pnLen p \<le> quicHdrSize (planHdr c p)"
    using quicHdrSize_pn [OF _ planHdr_type] planHdr_sel(3) [of c p] by metis
  then show ?thesis
    using quicPktSeal_length [OF assms(1) s] pkt planHdr_size assms(2) by (simp add: planSize_def small_plan_def)
qed

text \<open>What sending packets leaves of a connection.\<close>

definition sending :: "QuicConn \<Rightarrow> QuicConn \<Rightarrow> bool" where
  "sending c c1 \<longleftrightarrow> (\<exists>r f h. c1 = c\<lparr>c_recov := r, c_pns := (\<lambda>sp. (c_pns c sp)\<lparr>ps_next := f sp\<rparr>), c_sentHandshakePkt := h\<rparr>)"

lemma sending_refl [simp]: "sending c c"
  unfolding sending_def by (intro exI [of _ "c_recov c"] exI [of _ "\<lambda>sp. ps_next (c_pns c sp)"] exI [of _ "c_sentHandshakePkt c"]) simp

lemma sending_trans:
  assumes "sending a b" "sending b c"
  shows "sending a c"
proof -
  obtain r f h where b: "b = a\<lparr>c_recov := r, c_pns := (\<lambda>sp. (c_pns a sp)\<lparr>ps_next := f sp\<rparr>), c_sentHandshakePkt := h\<rparr>"
    using assms(1) unfolding sending_def by blast
  obtain r1 f1 h1 where c: "c = b\<lparr>c_recov := r1, c_pns := (\<lambda>sp. (c_pns b sp)\<lparr>ps_next := f1 sp\<rparr>), c_sentHandshakePkt := h1\<rparr>"
    using assms(2) unfolding sending_def by blast
  have "c = a\<lparr>c_recov := r1, c_pns := (\<lambda>sp. (c_pns a sp)\<lparr>ps_next := f1 sp\<rparr>), c_sentHandshakePkt := h1\<rparr>"
    unfolding c b by simp
  then show ?thesis unfolding sending_def by blast
qed

lemma sendingD:
  assumes "sending c c1"
  shows "same_hdr c c1" "c_server c1 = c_server c" "c_state c1 = c_state c" "c_hooks c1 = c_hooks c"
    "c_events c1 = c_events c" "c_bytesSent c1 = c_bytesSent c"
    "c_bytesRecv c1 = c_bytesRecv c" "c_pathSent c1 = c_pathSent c" "c_pathRecv c1 = c_pathRecv c"
    "c_addrValidated c1 = c_addrValidated c" "c_pathValidated c1 = c_pathValidated c"
    "c_pathAmpLimited c1 = c_pathAmpLimited c" "c_mtu c1 = c_mtu c" "c_mtuProbing c1 = c_mtuProbing c"
    "c_peer c1 = c_peer c" "c_ecnState c1 = c_ecnState c" "c_local c1 = c_local c"
    "ps_tx (c_pns c1 sp) = ps_tx (c_pns c sp)" "c_earlyTx c1 = c_earlyTx c"
    "ps_discarded (c_pns c1 sp) = ps_discarded (c_pns c sp)" "c_mtuState c1 = c_mtuState c" "c_mtuProbePn c1 = c_mtuProbePn c"
    "c_respondElsewhere c1 = c_respondElsewhere c" "c_handshakeConfirmed c1 = c_handshakeConfirmed c"
  using assms by (auto simp: sending_def same_hdr_def)

lemma sending_setSpace:
  "sending c (setSpace sp ((c_pns c sp)\<lparr>ps_next := x\<rparr>) (c\<lparr>c_recov := r\<rparr>))"
  "sending c ((setSpace sp ((c_pns c sp)\<lparr>ps_next := x\<rparr>) (c\<lparr>c_recov := r\<rparr>))\<lparr>c_sentHandshakePkt := h\<rparr>)"
proof -
  have e: "(c_pns c)(sp := (c_pns c sp)\<lparr>ps_next := x\<rparr>)
      = (\<lambda>q. (c_pns c q)\<lparr>ps_next := (if q = sp then x else ps_next (c_pns c q))\<rparr>)" by auto
  show "sending c ((setSpace sp ((c_pns c sp)\<lparr>ps_next := x\<rparr>) (c\<lparr>c_recov := r\<rparr>))\<lparr>c_sentHandshakePkt := h\<rparr>)" for h
    unfolding sending_def setSpace_def
    by (intro exI [of _ r] exI [of _ "\<lambda>q. if q = sp then x else ps_next (c_pns c q)"] exI [of _ h]) (simp add: e)
  from this [of "c_sentHandshakePkt c"]
  show "sending c (setSpace sp ((c_pns c sp)\<lparr>ps_next := x\<rparr>) (c\<lparr>c_recov := r\<rparr>))" by (simp add: setSpace_def)
qed

lemma pktSent_sending: "sending c (pktSent xa now p n c)"
  by (simp add: pktSent_def Let_def sending_setSpace)

lemma pktSent_next:
  "ps_next (c_pns (pktSent xa now p n c) sp) = ps_next (c_pns c sp) + (if sp = pl_sp p then 1 else 0)"
  by (simp add: pktSent_def Let_def setSpace_def)

text \<open>The accounts of loss recovery for a packet that was sent.\<close>

lemma recovSetTimer_accounts [simp]:
  "rv_inFlight (recovSetTimer now r) = rv_inFlight r" "rv_window (recovSetTimer now r) = rv_window r"
  "rv_probes (recovSetTimer now r) = rv_probes r"
  by (simp_all add: recovSetTimer_def Let_def split: prod.split)

lemma quicRecovOnSent_accounts:
  "rv_inFlight (quicRecovOnSent xa sp pn sz el fl now r) \<le> rv_inFlight r + (if fl then int sz else 0)"
  "rv_window (quicRecovOnSent xa sp pn sz el fl now r) = rv_window r"
  "rv_probes (quicRecovOnSent xa sp pn sz el fl now r) = rv_probes r"
  by (auto simp: quicRecovOnSent_def Let_def split: prod.split)

lemma quicRecovProbeSent_accounts [simp]:
  "rv_inFlight (quicRecovProbeSent sp r) = rv_inFlight r" "rv_window (quicRecovProbeSent sp r) = rv_window r"
  "rv_probes (quicRecovProbeSent sp r) sp1 \<le> rv_probes r sp1"
  by (simp_all add: quicRecovProbeSent_def)

lemma pktSent_accounts:
  "rv_inFlight (c_recov (pktSent xa now p n c)) \<le> rv_inFlight (c_recov c) + (if pl_inFlight p then int n else 0)"
  "rv_window (c_recov (pktSent xa now p n c)) = rv_window (c_recov c)"
  "rv_probes (c_recov (pktSent xa now p n c)) sp \<le> rv_probes (c_recov c) sp"
proof -
  define r where "r = quicRecovOnSent xa (pl_sp p) (unat (ps_next (c_pns c (pl_sp p)))) n (pl_elicit p) (pl_inFlight p) now (c_recov c)"
  have e: "c_recov (pktSent xa now p n c) = (if pl_probe p then quicRecovProbeSent (pl_sp p) r else r)"
    by (simp add: pktSent_def Let_def setSpace_def r_def)
  note acc = quicRecovOnSent_accounts [of xa "pl_sp p" "unat (ps_next (c_pns c (pl_sp p)))" n "pl_elicit p" "pl_inFlight p" now "c_recov c", folded r_def]
  show "rv_inFlight (c_recov (pktSent xa now p n c)) \<le> rv_inFlight (c_recov c) + (if pl_inFlight p then int n else 0)"
    "rv_window (c_recov (pktSent xa now p n c)) = rv_window (c_recov c)"
    "rv_probes (c_recov (pktSent xa now p n c)) sp \<le> rv_probes (c_recov c) sp"
    unfolding e using acc quicRecovProbeSent_accounts(3) [of "pl_sp p" r sp] by (auto split: if_splits)
qed

lemma sealPlans_sending:
  "sealPlans P xa now ps c dgram el = (ok, c1, dgram1, el1) \<Longrightarrow> sending c c1"
proof (induction ps arbitrary: c dgram el)
  case (Cons p ps)
  then show ?case using pktSent_sending sending_trans by (fastforce split: option.splits)
qed simp

lemma sealPlans_accounts:
  assumes "aead_ok P" "list_all small_plan ps" "sealPlans P xa now ps c dgram el = (ok, c1, dgram1, el1)"
  shows "ok \<Longrightarrow> length dgram1 = length dgram + sum_list (map (planSize c) ps)"
    "rv_inFlight (c_recov c1) \<le> rv_inFlight (c_recov c) + int (sum_list (map (planSize c) (filter pl_inFlight ps)))"
    "rv_window (c_recov c1) = rv_window (c_recov c)" "rv_probes (c_recov c1) sp \<le> rv_probes (c_recov c) sp"
proof -
  have "(ok \<longrightarrow> length dgram1 = length dgram + sum_list (map (planSize c) ps))
    \<and> rv_inFlight (c_recov c1) \<le> rv_inFlight (c_recov c) + int (sum_list (map (planSize c) (filter pl_inFlight ps)))
    \<and> rv_window (c_recov c1) = rv_window (c_recov c) \<and> rv_probes (c_recov c1) sp \<le> rv_probes (c_recov c) sp"
    using assms(2,3)
  proof (induction ps arbitrary: c dgram el)
    case (Cons p ps)
    show ?case
    proof (cases "sealOne P c p (length dgram)")
      case (Some pkt)
      let ?c = "pktSent xa now p (length pkt) c"
      have "planSize ?c = planSize c" by (rule planSize_same [OF sendingD(1) [OF pktSent_sending]])
      moreover have "length pkt = planSize c p" using sealOne_length [OF assms(1) _ Some] Cons.prems(1) by simp
      ultimately show ?thesis
        using Cons.IH [of ?c "dgram @ pkt" "el \<or> pl_elicit p"] Cons.prems Some
          pktSent_accounts(1,2) [of xa now p "length pkt" c]
        by (auto split: if_splits intro: order_trans [OF _ pktSent_accounts(3)])
    qed (use Cons.prems in auto)
  qed simp
  then show "ok \<Longrightarrow> length dgram1 = length dgram + sum_list (map (planSize c) ps)"
    "rv_inFlight (c_recov c1) \<le> rv_inFlight (c_recov c) + int (sum_list (map (planSize c) (filter pl_inFlight ps)))"
    "rv_window (c_recov c1) = rv_window (c_recov c)" "rv_probes (c_recov c1) sp \<le> rv_probes (c_recov c) sp"
    by blast+
qed

lemma pktSent_ok:
  assumes "conn_ok c" "n < 2 ^ 32"
  shows "conn_ok (pktSent xa now p n c)"
proof -
  have r: "recov_inv (quicRecovOnSent xa sp pn n e f now (c_recov c))" for sp pn e f
    using recov_inv_OnSent assms by (simp add: conn_ok_def)
  have "recov_inv (quicRecovProbeSent sp1 (quicRecovOnSent xa sp pn n e f now (c_recov c)))" for sp sp1 pn e f
    by (rule recov_inv_quiet [OF recov_quiet.intros(10) r])
  with r show ?thesis
    using assms(1) by (auto simp: pktSent_def Let_def conn_ok_def mtu_bounded_def setSpace_def)
qed

text \<open>Writing a header keeps the size of the buffer.\<close>

lemma wr_keeps_buf [simp]:
  "length (wr_buf (quicWrBytes wr bs)) = length (wr_buf wr)" "length (wr_buf (quicWrVarint wr v)) = length (wr_buf wr)"
  "length (wr_buf (quicWr8 wr b)) = length (wr_buf wr)" "length (wr_buf (quicWrInt wr x n)) = length (wr_buf wr)"
  "length (wr_buf (quicWr32 wr w)) = length (wr_buf wr)"
  "length (wr_buf (quicWrVarintSized wr v n)) = length (wr_buf wr)"
  "length (wr_buf (quicWrVarintBytes wr bs)) = length (wr_buf wr)"
proof -
  show b: "length (wr_buf (quicWrBytes wr bs)) = length (wr_buf wr)" for wr bs
    by (auto simp: quicWrBytes_def mem_write_def)
  show v: "length (wr_buf (quicWrVarint wr v)) = length (wr_buf wr)" for v by (simp add: wire_wr b)
  show "length (wr_buf (quicWr8 wr b)) = length (wr_buf wr)" "length (wr_buf (quicWrInt wr x n)) = length (wr_buf wr)"
    "length (wr_buf (quicWr32 wr w)) = length (wr_buf wr)"
    "length (wr_buf (quicWrVarintSized wr v n)) = length (wr_buf wr)"
    "length (wr_buf (quicWrVarintBytes wr bs)) = length (wr_buf wr)"
    by (simp_all add: wire_wr b quicWr32_def quicWrVarintBytes_def)
qed

lemma quicHdrEncode_buf: "quicHdrEncode wr h = (ok, wr1) \<Longrightarrow> length (wr_buf wr1) = length (wr_buf wr)"
  by (auto simp: quicHdrEncode_def Let_def split: if_splits QuicPktType.splits option.splits)

text \<open>A sealed packet fits the datagram buffer.\<close>

lemma sealOne_room:
  assumes "aead_ok P" "sealOne P c p dlen = Some pkt"
  shows "length pkt \<le> QUIC_MAX_DATAGRAM - dlen"
proof -
  obtain wr n buf where e: "quicHdrEncode (quicWrInit (replicate (QUIC_MAX_DATAGRAM - dlen) 0)) (planHdr c p) = (True, wr)"
    and s: "quicPktSeal P (planKeys c p) (wr_buf wr) (quicHdrSize (planHdr c p) - pl_pnLen p) (pl_pnLen p)
      (ps_next (c_pns c (pl_sp p))) (pl_data p) = Some (n, buf)" and pkt: "pkt = take n buf"
    using assms(2) by (auto simp: sealOne_def split: prod.splits bool.splits option.splits)
  have "length (wr_buf wr) = QUIC_MAX_DATAGRAM - dlen"
    using quicHdrEncode_buf [OF e] by (simp add: quicWrInit_def)
  then show ?thesis using quicPktSeal_length(2,3) [OF assms(1) s] pkt by simp
qed

lemma sealPlans_ok:
  "aead_ok P \<Longrightarrow> sealPlans P xa now ps c dgram el = (ok, c1, dgram1, el1) \<Longrightarrow> conn_ok c \<Longrightarrow> conn_ok c1"
proof (induction ps arbitrary: c dgram el)
  case (Cons p ps)
  show ?case
  proof (cases "sealOne P c p (length dgram)")
    case (Some pkt)
    have "length pkt < 2 ^ 32" using sealOne_room [OF Cons.prems(1) Some] by simp
    from pktSent_ok [OF Cons.prems(3) this] show ?thesis
      using Cons.IH [OF Cons.prems(1)] Cons.prems(2) Some by simp
  qed (use Cons.prems in simp)
qed simp

section \<open>Planning a datagram\<close>

text \<open>
  What holds of the plan at every step: it measures \<^verbatim>\<open>used\<close>, which stays within the limit, and while
  sending is held back only a probe asks for an acknowledgement.
\<close>

definition plan_inv :: "QuicConn \<Rightarrow> nat \<Rightarrow> bool \<Rightarrow> QuicConn \<times> nat \<times> nat \<times> PktPlan list \<Rightarrow> bool" where
  "plan_inv c0 cap blocked = (\<lambda>(c, used, scratchUsed, plans).
     built c0 c \<and> used = sum_list (map (planSize c0) plans) \<and> used \<le> cap \<and> scratchUsed \<le> used
     \<and> distinct (map pl_sp plans)
     \<and> list_all (\<lambda>p. length (pl_data p) + planSize c0 p \<le> 2 * cap \<and> pl_pnLen p \<le> 4 \<and> pl_inFlight p = pl_elicit p
         \<and> \<not> ps_discarded (c_pns c0 (pl_sp p))
         \<and> (blocked \<and> pl_elicit p \<longrightarrow> rv_probes (c_recov c0) (pl_sp p) > 0)) plans)"

lemma buildPayload_blocked:
  assumes "buildPayload c sp early budget pn probe True now = (out, el, c1)" "el"
  shows probe
proof (cases "c_state c = QUIC_CS_CLOSING")
  case True
  then show ?thesis using assms by (auto simp: buildPayload_def Let_def split: if_splits)
next
  case False
  from assms(1) False assms(2) show ?thesis by (cases rule: buildPayload_parts) auto
qed

lemma planSpace_inv:
  assumes inv: "plan_inv c0 cap blocked (c, used, scr, plans)" and cap: "cap \<le> QUIC_MAX_DATAGRAM"
    and loc: "c_local c0 \<noteq> []" and new: "sp \<notin> set (map pl_sp plans)"
    and r: "planSpace cap blocked now (c, used, scr, plans) sp = (c1, used1, scr1, plans1)"
  shows "plan_inv c0 cap blocked (c1, used1, scr1, plans1) \<and> set (map pl_sp plans1) \<subseteq> insert sp (set (map pl_sp plans))"
proof -
  have b0: "built c0 c" and used: "used = sum_list (map (planSize c0) plans)" "used \<le> cap" "scr \<le> used"
    using inv by (simp_all add: plan_inv_def)
  define s where "s = c_pns c sp"
  define early where "early = (sp = QUIC_PNS_APP \<and> \<not> k_valid (ps_tx s) \<and> k_valid (c_earlyTx c))"
  define pnLen where "pnLen = quicPnSize (ps_next s) (ps_largestAcked s)"
  define hdrsz where "hdrsz = quicHdrSize (buildHdr c sp early pnLen 0)"
  define budget where "budget = (if cap - used - hdrsz - QUIC_TAG_LEN > QUIC_MAX_DATAGRAM - scr
    then QUIC_MAX_DATAGRAM - scr else cap - used - hdrsz - QUIC_TAG_LEN)"
  define probe where "probe = (quicRecovProbes (c_recov c) sp > 0)"
  obtain out el c2 where p: "buildPayload c sp early budget (ps_next s) probe blocked now = (out, el, c2)"
    by (metis prod_cases3)
  have step: "planSpace cap blocked now (c, used, scr, plans) sp =
     (if ps_discarded s \<or> (\<not> early \<and> \<not> k_valid (ps_tx s)) then (c, used, scr, plans)
      else if hdrsz = 0 \<or> used + hdrsz + QUIC_TAG_LEN + QUIC_MIN_PN_PAYLOAD > cap then (c, used, scr, plans)
      else case buildPayload c sp early budget (ps_next s) probe blocked now of (payload, e, c1) \<Rightarrow>
        if payload = [] then (c1, used, scr, plans)
        else (c1, used + hdrsz + length (payload @ replicate (QUIC_MIN_PN_PAYLOAD - pnLen - length payload) 0) + QUIC_TAG_LEN,
          scr + length (payload @ replicate (QUIC_MIN_PN_PAYLOAD - pnLen - length payload) 0),
          plans @ [\<lparr>pl_sp = sp, pl_data = payload @ replicate (QUIC_MIN_PN_PAYLOAD - pnLen - length payload) 0,
            pl_pnLen = pnLen, pl_elicit = e, pl_inFlight = e, pl_probe = (probe \<and> e), pl_early = early\<rparr>]))"
    unfolding planSpace_def Let_def prod.case
    by (fold s_def, fold early_def, fold pnLen_def, fold hdrsz_def, fold budget_def, fold probe_def, rule refl)
  show ?thesis
  proof (cases "ps_discarded s \<or> (\<not> early \<and> \<not> k_valid (ps_tx s)) \<or> hdrsz = 0
      \<or> used + hdrsz + QUIC_TAG_LEN + QUIC_MIN_PN_PAYLOAD > cap")
    case True
    then have "(c1, used1, scr1, plans1) = (c, used, scr, plans)"
      using r step by (auto split: if_splits)
    then show ?thesis using inv by auto
  next
    case False
    then have F: "\<not> (ps_discarded s \<or> (\<not> early \<and> \<not> k_valid (ps_tx s)))"
      "\<not> (hdrsz = 0 \<or> used + hdrsz + QUIC_TAG_LEN + QUIC_MIN_PN_PAYLOAD > cap)" by simp_all
    note step1 = step [unfolded if_not_P [OF F(1)] if_not_P [OF F(2)] p prod.case]
    note keeps = buildPayload_keeps [OF p]
    have bl: "built c0 c2" using b0 keeps built_trans by blast
    show ?thesis
    proof (cases "out = []")
      case True
      then have "(c1, used1, scr1, plans1) = (c2, used, scr, plans)"
        using r step1 by simp
      then show ?thesis using inv bl by (auto simp: plan_inv_def)
    next
      case ne: False
      define data where "data = out @ replicate (QUIC_MIN_PN_PAYLOAD - pnLen - length out) 0"
      define q where "q = \<lparr>pl_sp = sp, pl_data = data, pl_pnLen = pnLen, pl_elicit = el, pl_inFlight = el,
        pl_probe = (probe \<and> el), pl_early = early\<rparr>"
      have e: "(c1, used1, scr1, plans1) = (c2, used + hdrsz + length data + QUIC_TAG_LEN, scr + length data, plans @ [q])"
        using r ne step1 by (simp add: data_def q_def)
      have pn: "1 \<le> pnLen" "pnLen \<le> 4" using quicPnSize_range by (simp_all add: pnLen_def)
      have size: "planSize c0 q = hdrsz + length data + QUIC_TAG_LEN"
        using buildHdr_same [OF built_same [OF b0 loc]] by (simp add: planSize_def q_def hdrsz_def)
      have "length data \<le> max (length out) 4" by (simp add: data_def)
      moreover have "4 \<le> budget" "budget \<le> cap - used - hdrsz - QUIC_TAG_LEN"
        using False used cap by (auto simp: budget_def)
      ultimately have len: "used + hdrsz + length data + QUIC_TAG_LEN \<le> cap" using keeps False by auto
      have "\<not> ps_discarded (c_pns c0 sp)" using False b0 by (simp add: s_def built_def)
      moreover have "rv_probes (c_recov c0) sp > 0" if "blocked" "el"
        using buildPayload_blocked [of c sp early budget "ps_next s" probe now out el c2] p that b0
        by (simp add: probe_def quicRecovProbes_def built_def)
      ultimately show ?thesis
        using e inv bl len size pn new by (auto simp: plan_inv_def q_def)
    qed
  qed
qed

lemma planFold_inv:
  assumes "plan_inv c0 cap blocked (c, used, scr, plans)" "cap \<le> QUIC_MAX_DATAGRAM" "c_local c0 \<noteq> []"
    "distinct sps" "set sps \<inter> set (map pl_sp plans) = {}"
    "foldl (planSpace cap blocked now) (c, used, scr, plans) sps = (c1, used1, scr1, plans1)"
  shows "plan_inv c0 cap blocked (c1, used1, scr1, plans1)"
  using assms(1,4,5,6)
proof (induction sps arbitrary: c used scr plans)
  case (Cons sp sps)
  obtain ca ua sa pa where a: "planSpace cap blocked now (c, used, scr, plans) sp = (ca, ua, sa, pa)" by (metis prod_cases4)
  have "sp \<notin> set (map pl_sp plans)" using Cons.prems(3) by auto
  from planSpace_inv [OF Cons.prems(1) assms(2,3) this a]
  have "plan_inv c0 cap blocked (ca, ua, sa, pa)" "set sps \<inter> set (map pl_sp pa) = {}"
    using Cons.prems(2,3) by auto
  then show ?case using Cons.IH Cons.prems(2,4) a by simp
qed simp

text \<open>The finished plan, padding included.\<close>

lemma flushPlan_facts:
  assumes r: "flushPlan c cap0 now = (c1, used, plans)" and w: "flushWindow c cap0 = (blocked, cap)"
    and cap: "cap \<le> QUIC_MAX_DATAGRAM" and loc: "c_local c \<noteq> []"
  shows "built c c1" "sum_list (map (planSize c) plans) \<le> cap" "list_all small_plan plans" "distinct (map pl_sp plans)"
    "used = 0 \<longleftrightarrow> plans = []"
    "blocked \<Longrightarrow> \<forall>sp. rv_probes (c_recov c) sp = 0 \<Longrightarrow> c_server c \<or> ps_discarded (c_pns c QUIC_PNS_INITIAL)
      \<Longrightarrow> filter pl_inFlight plans = []"
proof -
  obtain ca scr pa where f: "foldl (planSpace cap blocked now) (c, 0, 0, []) pn_spaces = (ca, used, scr, pa)"
    and e: "c1 = ca" "plans = padInitial ca cap used scr pa"
    using r w by (auto simp: flushPlan_def split: prod.splits)
  have "plan_inv c cap blocked (c, 0, 0, [])" by (simp add: plan_inv_def)
  from planFold_inv [OF this cap loc _ _ f] have inv: "plan_inv c cap blocked (ca, used, scr, pa)"
    by (simp add: pn_spaces_def)
  show "built c c1" using inv e by (simp add: plan_inv_def)
  have ps: "0 < planSize c p" for p by (simp add: planSize_def)
  have u0: "used = 0 \<longleftrightarrow> pa = []" using inv ps by (cases pa) (auto simp: plan_inv_def)
  show "used = 0 \<longleftrightarrow> plans = []" unfolding u0 e(2) by (auto simp: padInitial_def)
  have len: "length (pl_data p) + pl_pnLen p + QUIC_TAG_LEN \<le> 2 * cap + 20" if "p \<in> set pa" for p
    using inv that by (fastforce simp: plan_inv_def list_all_iff planSize_def)
  have "sum_list (map (planSize c) plans) \<le> cap \<and> list_all small_plan plans \<and> distinct (map pl_sp plans)
    \<and> (blocked \<longrightarrow> (\<forall>sp. rv_probes (c_recov c) sp = 0) \<longrightarrow> c_server c \<or> ps_discarded (c_pns c QUIC_PNS_INITIAL)
      \<longrightarrow> filter pl_inFlight plans = [])"
  proof (cases "plans = pa")
    case True
    have "list_all small_plan plans" using len True cap by (fastforce simp: list_all_iff small_plan_def)
    moreover have "filter pl_inFlight plans = []" if "blocked" "\<forall>sp. rv_probes (c_recov c) sp = 0"
      using inv that True by (auto simp: plan_inv_def list_all_iff filter_empty_conv)
    ultimately show ?thesis using True inv by (simp add: plan_inv_def)
  next
    case False
    have pad: "list_ex (\<lambda>p. pl_sp p = QUIC_PNS_INITIAL \<and> (\<not> c_server ca \<or> pl_elicit p)) pa" "used < QUIC_INITIAL_MTU"
      "QUIC_INITIAL_MTU \<le> cap" and pl: "plans = butlast pa @ [(last pa)
        \<lparr>pl_data := pl_data (last pa) @ replicate (QUIC_INITIAL_MTU - used) 0, pl_inFlight := True\<rparr>]"
      using False by (auto simp: e(2) padInitial_def split: if_splits)
    obtain qs q where q: "pa = qs @ [q]" using pad(1) by (cases pa rule: rev_cases) auto
    then have plans: "plans = qs @ [q\<lparr>pl_data := pl_data q @ replicate (QUIC_INITIAL_MTU - used) 0, pl_inFlight := True\<rparr>]"
      using pl by simp
    have "sum_list (map (planSize c) plans) = sum_list (map (planSize c) pa) + (QUIC_INITIAL_MTU - used)"
      unfolding plans q by (simp add: planSize_def)
    then have 1: "sum_list (map (planSize c) plans) \<le> cap" using inv pad by (simp add: plan_inv_def)
    have 2: "distinct (map pl_sp plans)" using inv by (simp add: plan_inv_def plans q)
    have 3: "list_all small_plan plans"
      using len cap unfolding plans q by (fastforce simp: list_all_iff small_plan_def)
    have "filter pl_inFlight plans = []" if b: "blocked" "\<forall>sp. rv_probes (c_recov c) sp = 0"
      and i: "c_server c \<or> ps_discarded (c_pns c QUIC_PNS_INITIAL)"
    proof -
      have "\<not> pl_elicit p \<and> \<not> ps_discarded (c_pns c (pl_sp p))" if "p \<in> set pa" for p
        using inv that b by (auto simp: plan_inv_def list_all_iff)
      moreover have "c_server ca = c_server c" using inv by (simp add: plan_inv_def built_def)
      ultimately show ?thesis using pad(1) i by (fastforce simp: list_ex_iff)
    qed
    with 1 2 3 show ?thesis by blast
  qed
  then show "sum_list (map (planSize c) plans) \<le> cap" "list_all small_plan plans" "distinct (map pl_sp plans)"
    "blocked \<Longrightarrow> \<forall>sp. rv_probes (c_recov c) sp = 0 \<Longrightarrow> c_server c \<or> ps_discarded (c_pns c QUIC_PNS_INITIAL)
      \<Longrightarrow> filter pl_inFlight plans = []"
    by blast+
qed

section \<open>Sending datagrams\<close>

lemma ampCap_Some:
  assumes "ampCap limited recvd sent cap = Some cap1"
  shows "cap1 \<le> cap" "limited \<Longrightarrow> unat sent + cap1 \<le> unat (recvd * 3)"
proof -
  show "cap1 \<le> cap" using assms by (auto simp: ampCap_def Let_def split: if_splits)
  have "unat sent + unat (x - sent) = unat x" if "\<not> x \<le> sent" for x
    using that unat_word_sub [of sent x] by (simp add: word_le_nat_alt)
  then show "unat sent + cap1 \<le> unat (recvd * 3)" if "limited"
    using assms that by (force simp: ampCap_def Let_def split: if_splits)
qed

lemma flushCap_Some:
  assumes "flushCap c = Some cap"
  shows "cap \<le> QUIC_MAX_DATAGRAM"
    "c_server c \<Longrightarrow> \<not> c_addrValidated c \<Longrightarrow> unat (c_bytesSent c) + cap \<le> unat (c_bytesRecv c * 3)"
    "c_pathAmpLimited c \<Longrightarrow> \<not> c_pathValidated c \<Longrightarrow> unat (c_pathSent c) + cap \<le> unat (c_pathRecv c * 3)"
proof -
  let ?cap = "if c_mtu c > QUIC_MAX_DATAGRAM then QUIC_MAX_DATAGRAM else c_mtu c"
  obtain cap1 where 1: "ampCap (c_server c \<and> \<not> c_addrValidated c) (c_bytesRecv c) (c_bytesSent c) ?cap = Some cap1"
    and 2: "ampCap (c_pathAmpLimited c \<and> \<not> c_pathValidated c) (c_pathRecv c) (c_pathSent c) cap1 = Some cap"
    using assms by (auto simp: flushCap_def Let_def split: option.splits)
  note a = ampCap_Some [OF 1] and b = ampCap_Some [OF 2]
  show "cap \<le> QUIC_MAX_DATAGRAM" using a(1) b(1) by (auto split: if_splits)
  show "unat (c_bytesSent c) + cap \<le> unat (c_bytesRecv c * 3)" if "c_server c" "\<not> c_addrValidated c"
    using a(2) b(1) that by simp
  show "unat (c_pathSent c) + cap \<le> unat (c_pathRecv c * 3)" if "c_pathAmpLimited c" "\<not> c_pathValidated c"
    using b(2) that by simp
qed

lemma flushWindow_cap:
  assumes "flushWindow c cap0 = (blocked, cap)"
  shows "cap \<le> cap0" "\<not> blocked \<Longrightarrow> rv_inFlight (c_recov c) + int cap \<le> rv_window (c_recov c)"
  using assms by (auto simp: flushWindow_def Let_def quicRecovCanSend_def quicRecovWindowRoom_def split: if_splits)

lemma quicRecovMark_accounts [simp]:
  "rv_inFlight (quicRecovMark sp pn m r) = rv_inFlight r" "rv_window (quicRecovMark sp pn m r) = rv_window r"
  "rv_probes (quicRecovMark sp pn m r) = rv_probes r"
  by (simp_all add: quicRecovMark_def Let_def split: option.split)

lemma markPlans_accounts:
  "rv_inFlight (c_recov (markPlans ps c)) = rv_inFlight (c_recov c)"
  "rv_window (c_recov (markPlans ps c)) = rv_window (c_recov c)"
  "rv_probes (c_recov (markPlans ps c)) = rv_probes (c_recov c)"
  "recov_inv (c_recov c) \<Longrightarrow> recov_inv (c_recov (markPlans ps c))"
proof -
  let ?f = "foldl (\<lambda>r p. quicRecovMark (pl_sp p) (unat (ps_next (c_pns c (pl_sp p)) - 1)) QUIC_SENT_ECT0 r)"
  have "rv_inFlight (?f r ps) = rv_inFlight r \<and> rv_window (?f r ps) = rv_window r \<and> rv_probes (?f r ps) = rv_probes r
      \<and> (recov_inv r \<longrightarrow> recov_inv (?f r ps))" for r
    by (induction ps arbitrary: r) (auto intro: recov_inv_quiet recov_quiet.intros(1))
  then show "rv_inFlight (c_recov (markPlans ps c)) = rv_inFlight (c_recov c)"
    "rv_window (c_recov (markPlans ps c)) = rv_window (c_recov c)"
    "rv_probes (c_recov (markPlans ps c)) = rv_probes (c_recov c)"
    "recov_inv (c_recov c) \<Longrightarrow> recov_inv (c_recov (markPlans ps c))"
    by (simp_all add: markPlans_def)
qed

text \<open>What sending datagrams leaves of a connection.\<close>

definition flushed :: "QuicConn \<Rightarrow> QuicConn \<Rightarrow> bool" where
  "flushed c c1 \<longleftrightarrow> c_server c1 = c_server c \<and> c_hooks c1 = c_hooks c \<and> c_state c1 = c_state c
     \<and> c_bytesRecv c1 = c_bytesRecv c \<and> c_pathRecv c1 = c_pathRecv c \<and> c_addrValidated c1 = c_addrValidated c
     \<and> c_pathValidated c1 = c_pathValidated c \<and> c_pathAmpLimited c1 = c_pathAmpLimited c
     \<and> c_respondElsewhere c1 = c_respondElsewhere c \<and> c_handshakeConfirmed c1 = c_handshakeConfirmed c
     \<and> c_mtuState c1 = c_mtuState c \<and> c_mtuProbing c1 = c_mtuProbing c \<and> length (c_local c1) = length (c_local c)
     \<and> (\<forall>sp. ps_discarded (c_pns c1 sp) = ps_discarded (c_pns c sp))"

lemma flushed_refl [simp]: "flushed c c"
  by (simp add: flushed_def)

lemma flushed_trans: "flushed a b \<Longrightarrow> flushed b c \<Longrightarrow> flushed a c"
  by (simp add: flushed_def)

lemma built_flushed: "built c c1 \<Longrightarrow> flushed c c1"
  by (simp add: built_def flushed_def) (metis length_map)

lemma sending_flushed: "sending c c1 \<Longrightarrow> flushed c c1"
  using sendingD [of c c1] by (simp add: flushed_def)

text \<open>Bookkeeping after a datagram, which moves no bytes.\<close>

definition noted :: "QuicConn \<Rightarrow> QuicConn \<Rightarrow> bool" where
  "noted c c1 \<longleftrightarrow> flushed c c1 \<and> c_bytesSent c1 = c_bytesSent c \<and> c_pathSent c1 = c_pathSent c
     \<and> c_events c1 = c_events c \<and> c_pns c1 = c_pns c \<and> rv_inFlight (c_recov c1) = rv_inFlight (c_recov c)
     \<and> rv_window (c_recov c1) = rv_window (c_recov c) \<and> rv_probes (c_recov c1) = rv_probes (c_recov c)
     \<and> (recov_inv (c_recov c) \<longrightarrow> recov_inv (c_recov c1))"

lemma noted_trans: "noted a b \<Longrightarrow> noted b c \<Longrightarrow> noted a c"
  by (simp add: noted_def flushed_def)

lemma markSent_noted: "noted c (markSent ps c)"
  using markPlans_accounts [where ps = ps and c = c]
  by (simp add: markSent_def Let_def noted_def flushed_def) (simp add: markPlans_def)

lemma closeSent_noted: "noted c (closeSent now c)"
  by (simp add: closeSent_def noted_def flushed_def)

lemma idle_noted: "noted c (if el then c\<lparr>c_idleDeadline := d\<rparr> else c)"
  by (simp add: noted_def flushed_def)

lemma flushSent_facts:
  assumes "flushSent E now ps c dgram el = (ok, c1)" "c_hooks c HookSend"
  shows "flushed c c1" "c_bytesSent c1 = c_bytesSent c + of_nat (length dgram)"
    "c_pathSent c1 = c_pathSent c + of_nat (length dgram)"
    "sent_bytes (c_events c1) = sent_bytes (c_events c) + length dgram"
    "rv_inFlight (c_recov c1) = rv_inFlight (c_recov c)" "rv_window (c_recov c1) = rv_window (c_recov c)"
    "rv_probes (c_recov c1) = rv_probes (c_recov c)" "conn_ok c \<Longrightarrow> conn_ok c1" "c_pns c1 = c_pns c"
proof -
  define ca where "ca = c\<lparr>c_bytesSent := c_bytesSent c + of_nat (length dgram),
    c_pathSent := c_pathSent c + of_nat (length dgram)\<rparr>"
  define cb where "cb = closeSent now (markSent ps ca)"
  define cc where "cc = (if el then cb\<lparr>c_idleDeadline := add64 now (idleTimeoutOf cb)\<rparr> else cb)"
  have "snd (flushSent E now ps c dgram el) = fireHook HookSend (EvSend (c_peer cc) (pathInfo ca) dgram) cc"
    unfolding flushSent_def Let_def ca_def cb_def cc_def by (rule snd_conv)
  then have c1: "c1 = fireHook HookSend (EvSend (c_peer cc) (pathInfo ca) dgram) cc" using assms(1) by simp
  have n: "noted ca cc"
    unfolding cc_def cb_def by (rule noted_trans [OF noted_trans [OF markSent_noted closeSent_noted] idle_noted])
  then have h: "c_hooks cc HookSend" using assms(2) by (simp add: noted_def flushed_def ca_def)
  define ev where "ev = EvSend (c_peer cc) (pathInfo ca) dgram"
  have e: "c1 = cc\<lparr>c_events := c_events cc @ [ev]\<rparr>" "ev_bytes ev = length dgram"
    using c1 h by (simp_all add: fireHook_def ev_def)
  have "flushed c ca" by (simp add: ca_def flushed_def)
  then have f: "flushed c cc" using n flushed_trans by (simp add: noted_def)
  then show "flushed c c1" by (simp add: e flushed_def)
  have "c_bytesSent ca = c_bytesSent c + of_nat (length dgram)" "c_pathSent ca = c_pathSent c + of_nat (length dgram)"
    "c_events ca = c_events c" "c_recov ca = c_recov c" "c_pns ca = c_pns c" by (simp_all add: ca_def)
  then show "c_bytesSent c1 = c_bytesSent c + of_nat (length dgram)" "c_pathSent c1 = c_pathSent c + of_nat (length dgram)"
    "sent_bytes (c_events c1) = sent_bytes (c_events c) + length dgram"
    "rv_inFlight (c_recov c1) = rv_inFlight (c_recov c)" "rv_window (c_recov c1) = rv_window (c_recov c)"
    "rv_probes (c_recov c1) = rv_probes (c_recov c)" "c_pns c1 = c_pns c" "conn_ok c \<Longrightarrow> conn_ok c1"
    using n f by (simp_all add: e noted_def flushed_def conn_ok_def mtu_bounded_def)
qed

text \<open>
  Everything \<^verbatim>\<open>flushOne\<close> does to the counters: it sends one datagram of \<open>n\<close> bytes or none at all, and \<open>n\<close>
  is within every limit.
\<close>

definition sent_within :: "QuicConn \<Rightarrow> nat \<Rightarrow> QuicConn \<Rightarrow> bool" where
  "sent_within c n c1 \<longleftrightarrow> flushed c c1 \<and> c_bytesSent c1 = c_bytesSent c + of_nat n \<and> c_pathSent c1 = c_pathSent c + of_nat n
     \<and> sent_bytes (c_events c1) = sent_bytes (c_events c) + n
     \<and> (n \<noteq> 0 \<longrightarrow> (\<exists>cap. flushCap c = Some cap \<and> n \<le> cap))
     \<and> rv_window (c_recov c1) = rv_window (c_recov c) \<and> (\<forall>sp. rv_probes (c_recov c1) sp \<le> rv_probes (c_recov c) sp)
     \<and> ((\<forall>sp. rv_probes (c_recov c) sp = 0) \<longrightarrow> c_server c \<or> ps_discarded (c_pns c QUIC_PNS_INITIAL)
          \<longrightarrow> rv_inFlight (c_recov c1) \<le> max (rv_inFlight (c_recov c)) (rv_window (c_recov c)))
     \<and> (conn_ok c \<longrightarrow> conn_ok c1)"

lemma built_sent: "built c c1 \<Longrightarrow> sent_within c 0 c1"
  using built_flushed [of c c1] by (simp add: sent_within_def built_def conn_ok_def mtu_bounded_def)

lemma flushOne_sent:
  assumes aead: "aead_ok (ce_psa E)" and loc: "c_local c \<noteq> []" and r: "flushOne E c now = (ok, went, c1)"
  shows "\<exists>n. sent_within c n c1"
proof (cases "c_hooks c HookSend \<and> flushCap c \<noteq> None")
  case False
  then have "c1 = c" using r by (cases "c_hooks c HookSend") (simp_all add: flushOne_def)
  then show ?thesis using built_sent [OF built_refl] by blast
next
  case True
  then obtain cap0 where cap0: "flushCap c = Some cap0" by auto
  obtain blocked cap where w: "flushWindow c cap0 = (blocked, cap)" by (metis surj_pair)
  obtain ca used ps where p: "flushPlan c cap0 now = (ca, used, ps)" by (metis prod_cases3)
  obtain okb cb dgram el where sl: "sealPlans (ce_psa E) (ce_xalloc E) now ps ca [] False = (okb, cb, dgram, el)"
    by (metis prod_cases4)
  obtain okc cc where fs: "flushSent E now ps cb dgram el = (okc, cc)" by (metis surj_pair)
  have cap: "cap \<le> cap0" "cap \<le> QUIC_MAX_DATAGRAM" using flushWindow_cap(1) [OF w] flushCap_Some(1) [OF cap0] by simp_all
  note pl = flushPlan_facts [OF p w cap(2) loc]
  have same: "planSize ca = planSize c" by (rule planSize_same [OF built_same [OF pl(1) loc]])
  note b = built_sent [OF pl(1)] and acc = sealPlans_accounts [OF aead pl(3) sl] and sn = sealPlans_sending [OF sl]
  have fl: "flushed c cb" using pl(1) sn built_flushed sending_flushed flushed_trans by blast
  have "sum_list (map (planSize c) (filter pl_inFlight ps)) \<le> sum_list (map (planSize c) ps)"
    by (rule sum_list_filter_le_nat)
  then have fly: "rv_inFlight (c_recov cb) \<le> max (rv_inFlight (c_recov c)) (rv_window (c_recov c))"
    if "\<forall>sp. rv_probes (c_recov c) sp = 0" "c_server c \<or> ps_discarded (c_pns c QUIC_PNS_INITIAL)"
    using acc(2) same pl(2) flushWindow_cap(2) [OF w] pl(6) that pl(1) by (cases blocked) (auto simp: built_def)
  have acc1: "rv_window (c_recov cb) = rv_window (c_recov c)" "rv_probes (c_recov cb) sp \<le> rv_probes (c_recov c) sp" for sp
    using acc(3,4) pl(1) by (simp_all add: built_def)
  have okk: "conn_ok c \<Longrightarrow> conn_ok cb"
    using b sealPlans_ok [OF aead sl] by (simp add: sent_within_def)
  note keep = sendingD [OF sn] pl(1) [unfolded built_def]
  show ?thesis
  proof (cases "used = 0")
    case zero: True
    then have "c1 = ca" using r True cap0 p by (simp add: flushOne_def)
    then show ?thesis using b by blast
  next
    case u: False
    show ?thesis
    proof (cases okb)
      case False
      then have "c1 = cb" using r True cap0 p sl u by (simp add: flushOne_def)
      moreover have "sent_within c 0 cb" using fl fly acc1 okk keep by (simp add: sent_within_def)
      ultimately show ?thesis by blast
    next
      case okb: True
      have c1: "c1 = cc" using r True cap0 p sl u okb fs by (simp add: flushOne_def)
      have "c_hooks cb HookSend" using True fl by (simp add: flushed_def)
      note f = flushSent_facts [OF fs this]
      have "length dgram \<le> cap0" using acc(1) [OF okb] same pl(2) cap(1) by simp
      then have "sent_within c (length dgram) cc"
        using f fl fly acc1 okk keep cap0 flushed_trans [OF fl f(1)] by (simp add: sent_within_def)
      then show ?thesis using c1 by blast
    qed
  qed
qed

text \<open>The room an amplification limit leaves is never exceeded.\<close>

definition amp_ok :: "bool \<Rightarrow> u64 \<Rightarrow> u64 \<Rightarrow> nat \<Rightarrow> bool" where
  "amp_ok limited recvd sent n \<longleftrightarrow> (limited \<and> unat sent \<le> unat (recvd * 3) \<longrightarrow> unat sent + n \<le> unat (recvd * 3))"

lemma amp_ok_add:
  assumes "amp_ok limited recvd sent n" "amp_ok limited recvd (sent + of_nat n) m"
  shows "amp_ok limited recvd sent (n + m)"
proof (cases "limited \<and> unat sent \<le> unat (recvd * 3)")
  case True
  then have le: "unat sent + n \<le> unat (recvd * 3)" using assms(1) by (simp add: amp_ok_def)
  moreover have "unat (recvd * 3) < 2 ^ 64" using unsigned_less [of "recvd * 3"] by simp
  ultimately have "unat (sent + of_nat n) = unat sent + n" by (simp add: unat_word_add unat_of_nat_small)
  then show ?thesis using assms(2) le True by (simp add: amp_ok_def)
qed (auto simp: amp_ok_def)

definition flush_sent :: "QuicConn \<Rightarrow> nat \<Rightarrow> QuicConn \<Rightarrow> bool" where
  "flush_sent c m c1 \<longleftrightarrow> flushed c c1 \<and> c_bytesSent c1 = c_bytesSent c + of_nat m \<and> c_pathSent c1 = c_pathSent c + of_nat m
     \<and> sent_bytes (c_events c1) = sent_bytes (c_events c) + m
     \<and> amp_ok (c_server c \<and> \<not> c_addrValidated c) (c_bytesRecv c) (c_bytesSent c) m
     \<and> amp_ok (c_pathAmpLimited c \<and> \<not> c_pathValidated c) (c_pathRecv c) (c_pathSent c) m
     \<and> rv_window (c_recov c1) = rv_window (c_recov c) \<and> (\<forall>sp. rv_probes (c_recov c1) sp \<le> rv_probes (c_recov c) sp)
     \<and> ((\<forall>sp. rv_probes (c_recov c) sp = 0) \<longrightarrow> c_server c \<or> ps_discarded (c_pns c QUIC_PNS_INITIAL)
          \<longrightarrow> rv_inFlight (c_recov c1) \<le> max (rv_inFlight (c_recov c)) (rv_window (c_recov c)))
     \<and> (conn_ok c \<longrightarrow> conn_ok c1)"

lemma sent_within_flush: "sent_within c n c1 \<Longrightarrow> flush_sent c n c1"
  using flushCap_Some(2,3) [of c]
  by (cases "n = 0") (fastforce simp: sent_within_def flush_sent_def amp_ok_def)+

lemma flush_sent_trans:
  assumes ab: "flush_sent a n b" and bc: "flush_sent b m c"
  shows "flush_sent a (n + m) c"
proof -
  have f: "flushed a b" "flushed b c" using ab bc by (simp_all add: flush_sent_def)
  have "amp_ok (c_server a \<and> \<not> c_addrValidated a) (c_bytesRecv a) (c_bytesSent a) (n + m)"
    "amp_ok (c_pathAmpLimited a \<and> \<not> c_pathValidated a) (c_pathRecv a) (c_pathSent a) (n + m)"
    using ab bc f(1) by (auto simp: flush_sent_def flushed_def intro!: amp_ok_add)
  moreover have "rv_probes (c_recov c) sp \<le> rv_probes (c_recov a) sp" for sp
    using ab bc order_trans unfolding flush_sent_def by blast
  moreover have "rv_inFlight (c_recov c) \<le> max (rv_inFlight (c_recov a)) (rv_window (c_recov a))"
    if "\<forall>sp. rv_probes (c_recov a) sp = 0" "c_server a \<or> ps_discarded (c_pns a QUIC_PNS_INITIAL)"
  proof -
    have "\<forall>sp. rv_probes (c_recov b) sp = 0" using ab that(1) by (simp add: flush_sent_def)
    moreover have "c_server b \<or> ps_discarded (c_pns b QUIC_PNS_INITIAL)" using f(1) that(2) by (simp add: flushed_def)
    ultimately show ?thesis using ab bc that by (auto simp: flush_sent_def)
  qed
  ultimately show ?thesis
    using ab bc flushed_trans [OF f] by (simp add: flush_sent_def)
qed

lemma flushed_local: "flushed c c1 \<Longrightarrow> c_local c \<noteq> [] \<Longrightarrow> c_local c1 \<noteq> []"
  by (auto simp: flushed_def)

lemma flushLoop_sent:
  assumes "aead_ok (ce_psa E)"
  shows "c_local c \<noteq> [] \<Longrightarrow> flushLoop E now n c = (ok, c1) \<Longrightarrow> \<exists>m. flush_sent c m c1"
proof (induction n arbitrary: c)
  case 0
  have "flush_sent c 0 c" by (rule sent_within_flush [OF built_sent [OF built_refl]])
  then show ?case using 0 by auto
next
  case (Suc n)
  obtain okb went cb where f: "flushOne E c now = (okb, went, cb)" by (metis prod_cases3)
  obtain m where m: "flush_sent c m cb" using flushOne_sent [OF assms Suc.prems(1) f] sent_within_flush by blast
  show ?case
  proof (cases "okb \<and> went \<and> c_state cb \<noteq> QUIC_CS_CLOSING")
    case True
    have "c_local cb \<noteq> []" using m flushed_local Suc.prems(1) unfolding flush_sent_def by blast
    then obtain k where "flush_sent cb k c1" using Suc f True by auto
    with m show ?thesis using flush_sent_trans by blast
  next
    case False
    then have "c1 = cb" using Suc.prems(2) f by (auto split: if_splits bool.splits)
    with m show ?thesis by blast
  qed
qed


section \<open>The whole flush\<close>

text \<open>The counters after \<open>n\<close> more bytes.\<close>

definition paid :: "QuicConn \<Rightarrow> nat \<Rightarrow> QuicConn \<Rightarrow> bool" where
  "paid c n c1 \<longleftrightarrow> c_bytesSent c1 = c_bytesSent c + of_nat n \<and> c_pathSent c1 = c_pathSent c + of_nat n
     \<and> sent_bytes (c_events c1) = sent_bytes (c_events c) + n \<and> rv_window (c_recov c1) = rv_window (c_recov c)"

lemma paid_trans: "paid a n b \<Longrightarrow> paid b m c \<Longrightarrow> paid a (n + m) c"
  by (simp add: paid_def)

text \<open>One datagram outside the loop, or none: its size is what was asked for.\<close>

definition solo_sent :: "QuicConn \<Rightarrow> nat \<Rightarrow> QuicConn \<Rightarrow> bool" where
  "solo_sent c n c1 \<longleftrightarrow> paid c n c1 \<and> rv_inFlight (c_recov c1) \<le> rv_inFlight (c_recov c) + int n
     \<and> c_mtuState c1 = c_mtuState c \<and> c_handshakeConfirmed c1 = c_handshakeConfirmed c
     \<and> c_pathValidated c1 = c_pathValidated c"

lemma solo_none [simp]: "solo_sent c 0 c"
  by (simp add: solo_sent_def paid_def)

lemma quicFrameEncode_inside: "wr_wf wr \<Longrightarrow> quicFrameEncode wr f = (ok, wr1) \<Longrightarrow> wr_inside wr wr1"
  using quicFrameEncode_ext [of wr f] by (simp add: wr_inside_def wr_ext_def)

lemma sendSolo_sent:
  assumes aead: "aead_ok (ce_psa E)" and r: "sendSolo E c dest f padTo now = (ok, pn, c1)"
  shows "\<exists>n. n \<le> padTo \<and> n \<le> QUIC_MAX_DATAGRAM \<and> solo_sent c n c1"
proof (cases "c1 = c")
  case False
  define s where "s = c_pns c QUIC_PNS_APP"
  define k where "k = quicPnSize (ps_next s) (ps_largestAcked s)"
  define h where "h = buildHdr c QUIC_PNS_APP False k 0"
  define plen where "plen = padTo - quicHdrSize h - QUIC_TAG_LEN"
  obtain enc wr where w: "quicFrameEncode (quicWrInit (replicate plen 0)) f = (enc, wr)" by (metis surj_pair)
  define payload where "payload = wr_out wr @ replicate (plen - quicWrLen wr) 0"
  obtain ok1 wr1 where e: "quicHdrEncode (quicWrInit (replicate QUIC_MAX_DATAGRAM 0)) (h\<lparr>h_pn := ps_next s,
      h_pnEnc := ps_next s AND pnMask k, h_len := plen + k + QUIC_TAG_LEN\<rparr>) = (ok1, wr1)" by (metis surj_pair)
  note body = r [unfolded sendSolo_def Let_def, folded s_def, folded k_def, folded h_def, folded plen_def, unfolded w prod.case,
      folded payload_def, unfolded e prod.case]
  obtain n buf where sl: "quicPktSeal (ce_psa E) (ps_tx s) (wr_buf wr1) (quicHdrSize h - k) k (ps_next s) payload = Some (n, buf)"
    and g: "quicHdrSize h \<noteq> 0" "quicHdrSize h + QUIC_TAG_LEN < padTo" "padTo \<le> QUIC_MAX_DATAGRAM" "c_hooks c HookSend"
    using body False by (auto split: if_splits bool.splits option.splits)
  have "wr_inside (quicWrInit (replicate plen 0)) wr" by (rule quicFrameEncode_inside [OF wr_init_wf w])
  then have "length payload = plen"
    by (simp add: payload_def wr_inside_def wr_wf_def wr_out_def quicWrLen_def quicWrInit_def)
  moreover have "h_type h = QUIC_PKT_SHORT" "h_pnLen h = k"
    by (simp_all add: h_def buildHdr_def Let_def split: option.split)
  then have "k \<le> quicHdrSize h" using quicHdrSize_pn [OF g(1)] by simp
  ultimately have n: "n = padTo" "length (take n buf) = n"
    using quicPktSeal_length [OF aead sl] g(2) by (simp_all add: plen_def)
  have acc: "rv_inFlight (quicRecovOnSent xa sp p n True True now r1) \<le> rv_inFlight r1 + int n" for xa sp p r1
    using quicRecovOnSent_accounts(1) [of xa sp p n True True now r1] by simp
  have "solo_sent c n c1"
    using body False g n(2) acc
    by (auto simp: sl solo_sent_def paid_def fireHook_def setSpace_def quicRecovOnSent_accounts(2) split: if_splits bool.splits)
  then show ?thesis using n g(3) by auto
qed (use solo_none in blast)

text \<open>The discovery of the path's size neither probes nor is about to start.\<close>

definition mtu_quiet :: "QuicConn \<Rightarrow> bool" where
  "mtu_quiet c \<longleftrightarrow> c_mtuState c \<noteq> QUIC_MTU_SEARCHING
     \<and> (c_mtuState c = QUIC_MTU_IDLE \<longrightarrow> \<not> c_handshakeConfirmed c \<or> \<not> c_pathValidated c)"

lemma pathRespondElsewhere_sent:
  assumes "aead_ok (ce_psa E)"
  shows "\<exists>n. n \<le> (if c_respondElsewhere c then QUIC_INITIAL_MTU else 0) \<and> solo_sent c n (pathRespondElsewhere E c now)"
proof (cases "c_respondElsewhere c \<and> ctl_state (c_pathResponse c) = QUIC_CTL_PENDING")
  case True
  obtain ok pn c1 where r: "sendSolo E c (c_respondTo c) (FPath True (c_pathResponseData c)) QUIC_INITIAL_MTU now = (ok, pn, c1)"
    by (metis prod_cases3)
  obtain n where "n \<le> QUIC_INITIAL_MTU" "solo_sent c n c1" using sendSolo_sent [OF assms r] by blast
  moreover have "solo_sent c n (c1\<lparr>c_pathResponse := x\<rparr>) = solo_sent c n c1" for x by (simp add: solo_sent_def paid_def)
  ultimately show ?thesis using True r by (cases ok) (auto simp: pathRespondElsewhere_def)
qed (auto simp: pathRespondElsewhere_def)

lemma mtu_paid:
  "paid c 0 (mtuStart c now)" "c_recov (mtuStart c now) = c_recov c" "mtu_quiet c \<Longrightarrow> mtuStart c now = c"
  "paid c n (mtuProbeLost c1 sz now) = paid c n c1" "c_recov (mtuProbeLost c1 sz now) = c_recov c1"
  by (auto simp: mtuStart_def mtuProbeLost_def mtuSearch_def Let_def paid_def mtu_quiet_def)

lemma mtuProbeSend_sent:
  assumes "aead_ok (ce_psa E)"
  shows "\<exists>n. n \<le> (if mtu_quiet c then 0 else QUIC_MAX_DATAGRAM) \<and> paid c n (mtuProbeSend E c now)
    \<and> rv_inFlight (c_recov (mtuProbeSend E c now)) \<le> max (rv_inFlight (c_recov c)) (rv_window (c_recov c))"
proof (cases "mtuProbeSend E c now = c")
  case False
  then have g: "\<not> mtu_quiet c" "quicRecovCanSendSize (c_recov c) (c_mtuProbing c)"
    by (auto simp: mtuProbeSend_def mtu_quiet_def split: if_splits)
  obtain ok pn c1 where r: "sendSolo E c (c_peer c) FPing (c_mtuProbing c) now = (ok, pn, c1)" by (metis prod_cases3)
  obtain n where n: "n \<le> c_mtuProbing c" "n \<le> QUIC_MAX_DATAGRAM" "solo_sent c n c1" using sendSolo_sent [OF assms r] by blast
  have "rv_inFlight (c_recov c1) \<le> rv_window (c_recov c)" using n g(2) by (simp add: solo_sent_def quicRecovCanSendSize_def)
  moreover have "paid c n (c1\<lparr>c_mtuTries := x\<rparr>) = paid c n c1"
    "paid c n (c1\<lparr>c_mtuProbePn := y, c_recov := quicRecovMark sp z m (c_recov c1)\<rparr>) = paid c n c1" for x y sp z m
    by (simp_all add: paid_def)
  moreover have "mtuProbeSend E c now = (if ok then c1\<lparr>c_mtuProbePn := pn,
        c_recov := quicRecovMark QUIC_PNS_APP (unat pn) QUIC_SENT_PMTU_PROBE (c_recov c1)\<rparr>
      else mtuProbeLost (c1\<lparr>c_mtuTries := QUIC_PMTU_PROBES\<rparr>) (c_mtuProbing c1) now)"
    using False r by (cases ok) (auto simp: mtuProbeSend_def)
  ultimately show ?thesis using n g(1) by (cases ok) (auto simp: solo_sent_def mtu_paid intro!: exI [of _ n])
qed (auto simp: paid_def intro!: exI [of _ 0])

lemma flying_nonneg: "recov_inv r \<Longrightarrow> 0 \<le> flying r sp"
  unfolding flying_def by (rule sum_list_nonneg) (auto simp: recov_inv_def rings_inv_def fly_def)

lemma quicRecovDiscardSpace_accounts:
  "rv_window (quicRecovDiscardSpace sp now r) = rv_window r"
  "recov_inv r \<Longrightarrow> rv_inFlight (quicRecovDiscardSpace sp now r) \<le> rv_inFlight r"
  using flying_nonneg [of r sp] by (simp_all add: quicRecovDiscardSpace_def foldl_discard flying_def)

text \<open>Discarding a space sends nothing and takes its packets out of flight.\<close>

definition quieted :: "QuicConn \<Rightarrow> QuicConn \<Rightarrow> bool" where
  "quieted c c1 \<longleftrightarrow> paid c 0 c1 \<and> mtu_quiet c1 = mtu_quiet c \<and> c_respondElsewhere c1 = c_respondElsewhere c
     \<and> (recov_inv (c_recov c) \<longrightarrow> recov_inv (c_recov c1) \<and> rv_inFlight (c_recov c1) \<le> rv_inFlight (c_recov c))"

lemma spaceDiscard_quieted: "quieted c (spaceDiscard c sp now)" "quieted c (spaceDiscard (c\<lparr>c_discardHandshakeSoon := b\<rparr>) sp now)"
  "quieted c c"
  by (auto simp: quieted_def paid_def mtu_quiet_def spaceDiscard_def setSpace_def Let_def quicRecovDiscardSpace_accounts
      recov_inv_DiscardSpace)

lemma quieted_trans: "quieted a b \<Longrightarrow> quieted b c \<Longrightarrow> quieted a c"
  using paid_trans [of a 0 b 0 c] by (auto simp: quieted_def)

definition solo_room :: "QuicConn \<Rightarrow> nat" where
  "solo_room c = (if c_respondElsewhere c then QUIC_INITIAL_MTU else 0) + (if mtu_quiet c then 0 else QUIC_MAX_DATAGRAM)"

lemma flushAfter_sent:
  assumes "aead_ok (ce_psa E)"
  shows "\<exists>n. n \<le> solo_room c \<and> paid c n (flushAfter E c now) \<and> (recov_inv (c_recov c) \<longrightarrow>
    rv_inFlight (c_recov (flushAfter E c now)) \<le> max (rv_inFlight (c_recov c)) (rv_window (c_recov c))
      + int (if c_respondElsewhere c then QUIC_INITIAL_MTU else 0))"
proof -
  define c1 where "c1 = (if \<not> ps_discarded (c_pns c QUIC_PNS_INITIAL)
      \<and> (\<not> c_server c \<and> c_sentHandshakePkt c \<or> c_server c \<and> c_recvHandshakePkt c) then spaceDiscard c QUIC_PNS_INITIAL now else c)"
  define c2 where "c2 = (if c_discardHandshakeSoon c1
      then spaceDiscard (c1\<lparr>c_discardHandshakeSoon := False\<rparr>) QUIC_PNS_HANDSHAKE now else c1)"
  define c3 where "c3 = pathRespondElsewhere E c2 now"
  define c4 where "c4 = mtuProbeSend E (mtuStart c3 now) now"
  have fin: "flushAfter E c now = c4\<lparr>c_recov := quicRecovSetAppLimited (\<not> connWantsToSend c4) (c_recov c4)\<rparr>"
    unfolding flushAfter_def Let_def c4_def c3_def c2_def c1_def ..
  have "quieted c c1" "quieted c1 c2" using spaceDiscard_quieted by (auto simp: c1_def c2_def)
  then have q: "quieted c c2" by (rule quieted_trans)
  obtain n where n: "n \<le> (if c_respondElsewhere c2 then QUIC_INITIAL_MTU else 0)" "solo_sent c2 n c3"
    using pathRespondElsewhere_sent [OF assms] c3_def by blast
  obtain m where m: "m \<le> (if mtu_quiet (mtuStart c3 now) then 0 else QUIC_MAX_DATAGRAM)" "paid (mtuStart c3 now) m c4"
    "rv_inFlight (c_recov c4) \<le> max (rv_inFlight (c_recov (mtuStart c3 now))) (rv_window (c_recov (mtuStart c3 now)))"
    using mtuProbeSend_sent [OF assms] c4_def by blast
  have quiet: "mtu_quiet c3 = mtu_quiet c" using n(2) q by (simp add: quieted_def solo_sent_def mtu_quiet_def)
  have "paid c (n + m) c4"
    using q n(2) m(2) mtu_paid(1) [of c3 now] by (simp add: quieted_def solo_sent_def paid_def)
  then have "paid c (n + m) (flushAfter E c now)" by (simp add: fin paid_def quicRecovSetAppLimited_def)
  moreover have "m \<le> (if mtu_quiet c then 0 else QUIC_MAX_DATAGRAM)"
    using m(1) mtu_paid(3) [of c3 now] quiet by (cases "mtu_quiet c") (auto split: if_splits)
  then have "n + m \<le> solo_room c" using n(1) q by (simp add: solo_room_def quieted_def)
  moreover have "rv_inFlight (c_recov c4) \<le> max (rv_inFlight (c_recov c)) (rv_window (c_recov c))
      + int (if c_respondElsewhere c then QUIC_INITIAL_MTU else 0)" if "recov_inv (c_recov c)"
    using m(3) n q that by (auto simp: mtu_paid(2) quieted_def solo_sent_def paid_def split: if_splits)
  ultimately show ?thesis by (intro exI [of _ "n + m"]) (simp add: fin quicRecovSetAppLimited_def)
qed

lemma quicConnFlush_sent:
  assumes aead: "aead_ok (ce_psa E)" and loc: "c_local c \<noteq> []" and c1: "c1 = snd (quicConnFlush E c now)"
  shows "\<exists>m n. n \<le> solo_room c \<and> paid c (m + n) c1
    \<and> amp_ok (c_server c \<and> \<not> c_addrValidated c) (c_bytesRecv c) (c_bytesSent c) m
    \<and> amp_ok (c_pathAmpLimited c \<and> \<not> c_pathValidated c) (c_pathRecv c) (c_pathSent c) m
    \<and> (conn_ok c \<and> (\<forall>sp. rv_probes (c_recov c) sp = 0) \<and> (c_server c \<or> ps_discarded (c_pns c QUIC_PNS_INITIAL)) \<longrightarrow>
         rv_inFlight (c_recov c1) \<le> max (rv_inFlight (c_recov c)) (rv_window (c_recov c))
           + int (if c_respondElsewhere c then QUIC_INITIAL_MTU else 0))"
proof (cases "c_state c = QUIC_CS_DRAINING \<or> c_state c = QUIC_CS_CLOSED")
  case True
  then have "c1 = c" by (simp add: c1 quicConnFlush_def)
  then show ?thesis by (intro exI [of _ 0]) (auto simp: paid_def amp_ok_def)
next
  case False
  define c2 where "c2 = c\<lparr>c_now := now, c_recov := quicRecovPacerRefill now (c_recov c)\<rparr>"
  obtain ok c3 where l: "flushLoop E now QUIC_FLUSH_MAX_DATAGRAMS c2 = (ok, c3)" by (metis surj_pair)
  have "quicConnFlush E c now = (case flushLoop E now QUIC_FLUSH_MAX_DATAGRAMS c2 of
      (False, c3) \<Rightarrow> (False, c3) | (True, c3) \<Rightarrow> (True, flushAfter E c3 now))"
    using False by (simp add: quicConnFlush_def c2_def)
  then have fin: "c1 = (if ok then flushAfter E c3 now else c3)" using c1 l by (cases ok) simp_all
  have r: "rv_inFlight (quicRecovPacerRefill now r) = rv_inFlight r" "rv_window (quicRecovPacerRefill now r) = rv_window r"
    "rv_probes (quicRecovPacerRefill now r) = rv_probes r" for r
    by (simp_all add: quicRecovPacerRefill_def Let_def)
  have ok2: "conn_ok c \<Longrightarrow> conn_ok c2"
    using recov_inv_quiet [OF recov_quiet.intros(9)] by (simp add: conn_ok_def c2_def mtu_bounded_def)
  have "c_local c2 \<noteq> []" using loc by (simp add: c2_def)
  then obtain m where m: "flush_sent c2 m c3" using flushLoop_sent [OF aead _ l] by blast
  have room: "solo_room c3 = solo_room c" "c_respondElsewhere c3 = c_respondElsewhere c"
    using m by (simp_all add: flush_sent_def flushed_def solo_room_def mtu_quiet_def c2_def)
  obtain n where n: "n \<le> solo_room c" "paid c3 n c1" "recov_inv (c_recov c3) \<longrightarrow>
    rv_inFlight (c_recov c1) \<le> max (rv_inFlight (c_recov c3)) (rv_window (c_recov c3))
      + int (if c_respondElsewhere c then QUIC_INITIAL_MTU else 0)"
  proof (cases ok)
    case True
    then show ?thesis using flushAfter_sent [OF aead, of c3 now] room fin that by auto
  next
    case False
    then have "c1 = c3" using fin by simp
    then show ?thesis by (intro that [of 0]) (auto simp: paid_def)
  qed
  have "paid c m c3" using m by (simp add: flush_sent_def paid_def c2_def r)
  then have "paid c (m + n) c1" using n(2) by (rule paid_trans)
  moreover have "amp_ok (c_server c \<and> \<not> c_addrValidated c) (c_bytesRecv c) (c_bytesSent c) m"
    "amp_ok (c_pathAmpLimited c \<and> \<not> c_pathValidated c) (c_pathRecv c) (c_pathSent c) m"
    using m by (simp_all add: flush_sent_def c2_def)
  moreover have "rv_inFlight (c_recov c1) \<le> max (rv_inFlight (c_recov c)) (rv_window (c_recov c))
      + int (if c_respondElsewhere c then QUIC_INITIAL_MTU else 0)"
    if "conn_ok c" "\<forall>sp. rv_probes (c_recov c) sp = 0" "c_server c \<or> ps_discarded (c_pns c QUIC_PNS_INITIAL)"
  proof -
    have "recov_inv (c_recov c3)" using m ok2 that(1) by (simp add: flush_sent_def conn_ok_def)
    then show ?thesis using n(3) m that(2,3) by (auto simp: flush_sent_def c2_def r)
  qed
  ultimately show ?thesis using n(1) by blast
qed


section \<open>Properties\<close>

text \<open>
  Against amplification. As long as the client's address is not validated, the datagrams a flush of the
  server sends never bring what it sent above three times what it received, whatever there is to send
  and however many datagrams it takes. The same holds for a path the peer has moved to and not yet
  validated. What the counters say is what was handed over. Two datagrams are outside the limit and counted
  apart in \<open>solo_room\<close>: the code consults no limit for a PATH_RESPONSE of 1200 bytes that is owed to an
  address the connection is not using, nor for a probe of the path's size, which is sent only while the search
  for that size runs, or when it may begin: the handshake confirmed and the path validated. In every other
  state \<open>solo_room\<close> is 0.
\<close>

theorem amplification_limited:
  assumes "aead_ok (ce_psa E)" "c_local c \<noteq> []" "3 * unat (c_bytesRecv c) < 2 ^ 63" "3 * unat (c_pathRecv c) < 2 ^ 63"
  shows "let c1 = snd (quicConnFlush E c now); total = sent_bytes (c_events c1) - sent_bytes (c_events c) in
    (c_server c \<and> \<not> c_addrValidated c \<and> unat (c_bytesSent c) \<le> 3 * unat (c_bytesRecv c) \<longrightarrow>
       unat (c_bytesSent c) + total \<le> 3 * unat (c_bytesRecv c) + solo_room c
       \<and> unat (c_bytesSent c1) = unat (c_bytesSent c) + total)
    \<and> (c_pathAmpLimited c \<and> \<not> c_pathValidated c \<and> unat (c_pathSent c) \<le> 3 * unat (c_pathRecv c) \<longrightarrow>
       unat (c_pathSent c) + total \<le> 3 * unat (c_pathRecv c) + solo_room c
       \<and> unat (c_pathSent c1) = unat (c_pathSent c) + total)
    \<and> (\<not> c_respondElsewhere c \<and> c_mtuState c = QUIC_MTU_IDLE \<and> \<not> (c_handshakeConfirmed c \<and> c_pathValidated c) \<longrightarrow> solo_room c = 0)"
proof -
  obtain m n where s: "n \<le> solo_room c" "paid c (m + n) (snd (quicConnFlush E c now))"
    "amp_ok (c_server c \<and> \<not> c_addrValidated c) (c_bytesRecv c) (c_bytesSent c) m"
    "amp_ok (c_pathAmpLimited c \<and> \<not> c_pathValidated c) (c_pathRecv c) (c_pathSent c) m"
    using quicConnFlush_sent [OF assms(1,2) refl, of now] by blast
  have "solo_room c \<le> 2652" by (simp add: solo_room_def)
  have 3: "unat (x * 3) = 3 * unat x" if "3 * unat x < 2 ^ 63" for x :: u64
    using that by (simp add: unat_word_ariths)
  have add: "unat (s + of_nat (m + n)) = unat s + (m + n)" if "unat s + m \<le> 3 * unat x" "3 * unat x < 2 ^ 63" for s x :: u64
    using that s(1) \<open>solo_room c \<le> 2652\<close> by (simp add: unat_word_add unat_of_nat_small)
  show ?thesis
    using s assms(3,4) 3 [OF assms(3)] 3 [OF assms(4)] add [of _ "c_bytesRecv c"] add [of _ "c_pathRecv c"]
    by (auto simp: Let_def paid_def amp_ok_def solo_room_def [of c] mtu_quiet_def)
qed

definition env_example :: conn_env where
  "env_example = \<lparr>ce_psa = psa_example, ce_xalloc = open_alloc, ce_rnd = rnd_example, ce_send = (\<lambda>_. True),
     ce_tlsStart = (\<lambda>_. TlsReturn True), ce_tlsRecv = (\<lambda>_ _ _. TlsReturn True)\<rparr>"

definition unvalidated_example :: QuicConn where
  "unvalidated_example = connZero\<lparr>c_server := True, c_hooks := (\<lambda>_. True), c_mtu := 1200, c_bytesRecv := 1200,
     c_version := 1, c_state := QUIC_CS_CLOSING, c_closePending := True, c_recov := quicRecovInit True 1200,
     c_pns := (\<lambda>_. spaceInit\<lparr>ps_tx := example_keys\<rparr>)\<rparr>"

lemma unvalidated_sel:
  "c_server unvalidated_example" "\<not> c_addrValidated unvalidated_example" "c_bytesRecv unvalidated_example = 1200"
  "c_bytesSent unvalidated_example = 0" "c_pathRecv unvalidated_example = 0" "\<not> c_respondElsewhere unvalidated_example"
  "c_mtuState unvalidated_example = QUIC_MTU_IDLE" "\<not> c_handshakeConfirmed unvalidated_example"
  "c_local unvalidated_example \<noteq> []" "c_recov unvalidated_example = quicRecovInit True 1200" "c_mtuProbing unvalidated_example = 0"
  by (simp_all add: unvalidated_example_def connZero_def)

theorem amplification_limited_witness:
  "unat (c_bytesSent (snd (quicConnFlush env_example unvalidated_example 0))) \<le> 3600"
proof -
  have "aead_ok (ce_psa env_example)" using psa_example_aead by (simp add: env_example_def)
  from amplification_limited [OF this unvalidated_sel(9), of 0] unvalidated_sel(1-8) show ?thesis by (simp add: Let_def)
qed

text \<open>
  C9. The congestion window holds. Take a connection whose recovery invariant holds, as it does in every
  reachable state, which owes no probe after a timeout, and which is a server or has discarded its
  Initial keys. A flush of it, probes of the path's size included, brings no more into flight than
  the window allows, or than was in flight before; only a PATH_RESPONSE owed to an address the connection is
  not using, a datagram of 1200 bytes, comes on top, because the code does not consult the window for it.
  (A client that still has its Initial keys pads every datagram with an Initial packet, which puts even an
  acknowledgement into flight.)
\<close>

theorem flush_within_window:
  assumes "aead_ok (ce_psa E)" "c_local c \<noteq> []" "conn_ok c" "\<forall>sp. rv_probes (c_recov c) sp = 0"
    and "c_server c \<or> ps_discarded (c_pns c QUIC_PNS_INITIAL)"
  shows "let r1 = c_recov (snd (quicConnFlush E c now)) in
    rv_inFlight r1 \<le> max (rv_inFlight (c_recov c)) (rv_window (c_recov c))
      + (if c_respondElsewhere c then int QUIC_INITIAL_MTU else 0)
    \<and> rv_window r1 = rv_window (c_recov c)"
proof -
  obtain m n where "paid c (m + n) (snd (quicConnFlush E c now))"
    "rv_inFlight (c_recov (snd (quicConnFlush E c now))) \<le> max (rv_inFlight (c_recov c)) (rv_window (c_recov c))
      + int (if c_respondElsewhere c then QUIC_INITIAL_MTU else 0)"
    using quicConnFlush_sent [OF assms(1,2) refl, of now] assms(3-5) by blast
  then show ?thesis by (auto simp: Let_def paid_def)
qed

theorem flush_within_window_witness:
  "rv_inFlight (c_recov (snd (quicConnFlush env_example unvalidated_example 0))) \<le> 12000"
proof -
  have "aead_ok (ce_psa env_example)" using psa_example_aead by (simp add: env_example_def)
  moreover have "conn_ok unvalidated_example"
    using recov_inv_Init [of 1200 True] by (simp add: conn_ok_def mtu_bounded_def unvalidated_sel)
  moreover have "\<forall>sp. rv_probes (c_recov unvalidated_example) sp = 0" "rv_inFlight (c_recov unvalidated_example) = 0"
    "rv_window (c_recov unvalidated_example) = 12000"
    by (simp_all add: unvalidated_sel quicRecovInit_def ccInitialWindow_def)
  ultimately show ?thesis
    using flush_within_window [OF _ unvalidated_sel(9), of env_example 0] unvalidated_sel(1,6) by (simp add: Let_def)
qed

end
