(* ===== verification/QuicConnWire.thy ===== *)
theory QuicConnWire
  imports QuicConnFlush
begin

text \<open>
  What one connection sends the other can read: every packet of a datagram that \<^verbatim>\<open>flushOne\<close> hands over is
  found, unprotected and opened by a peer that holds the same keys, to the payload that was planned.
\<close>

section \<open>Two ends of a connection\<close>

text \<open>What is known of the packet numbers of a space: the peer has seen what it acknowledged, and nothing else but what was sent.\<close>

definition numbers_known :: "QuicPnSpace \<Rightarrow> QuicPnSpace \<Rightarrow> bool" where
  "numbers_known s t \<longleftrightarrow>
     ps_next s < QUIC_MAX_PACKET_NUMBER \<and> (ps_largestAcked s = QUIC_PN_NONE \<or> ps_largestAcked s \<le> ps_next s)
     \<and> unat (ps_next s) + 1 - pn_expected (ps_largestAcked s) < 2 ^ 31
     \<and> pn_expected (ps_largestAcked s) \<le> pn_expected (as_largest (ps_ack t))
     \<and> pn_expected (as_largest (ps_ack t)) \<le> unat (ps_next s)"

definition rxKeys :: "QuicConn \<Rightarrow> QuicPktType \<Rightarrow> QuicPnSpaceId \<Rightarrow> QuicKeys" where
  "rxKeys d ty sp = (if ty = QUIC_PKT_0RTT then c_earlyRx d else ps_rx (c_pns d sp))"

text \<open>What \<open>c\<close> seals, \<open>d\<close> has the keys for.\<close>

definition peers :: "QuicConn \<Rightarrow> QuicConn \<Rightarrow> bool" where
  "peers c d \<longleftrightarrow>
     (\<forall>sp. ps_rx (c_pns d sp) = ps_tx (c_pns c sp) \<and> numbers_known (c_pns c sp) (c_pns d sp))
     \<and> c_earlyRx d = c_earlyTx c \<and> c_localCidLen d = length (rc_cid (c_remote c ! c_remoteActive c))"

text \<open>The peer reads a datagram: the type of each packet, its space, its packet number and its payload, to the end.\<close>

fun understood :: "psa \<Rightarrow> QuicConn \<Rightarrow> (QuicPktType \<times> QuicPnSpaceId \<times> u64 \<times> u8 list) list \<Rightarrow> u8 list \<Rightarrow> bool" where
  "understood P d [] dgram \<longleftrightarrow> dgram = []"
| "understood P d ((ty, sp, pn, payload) # ps) dgram \<longleftrightarrow>
     (\<exists>h h1 pkt. quicHdrDecode dgram (c_localCidLen d) = Some h \<and> h_type h = ty \<and> spaceForPktType ty = Some sp
        \<and> quicPktOpen P (rxKeys d ty sp) h dgram (as_largest (ps_ack (c_pns d sp))) QUIC_MAX_DATAGRAM
            = (Some payload, h1, pkt)
        \<and> h_pn h1 = pn \<and> understood P d ps (drop (h_pktLen h) dgram))"

definition planView :: "QuicConn \<Rightarrow> PktPlan \<Rightarrow> QuicPktType \<times> QuicPnSpaceId \<times> u64 \<times> u8 list" where
  "planView c p = (if pl_early p then QUIC_PKT_0RTT else pktTypeForSpace (pl_sp p), pl_sp p, ps_next (c_pns c (pl_sp p)), pl_data p)"


section \<open>Sealing\<close>

lemma pnMask_take_bit: "n \<le> 4 \<Longrightarrow> x AND pnMask n = take_bit (n * 8) x"
  by (simp add: pnMask_def take_bit_eq_mask mask_eq_exp_minus_1 push_bit_eq_mult)

lemma quicPktOpen_type:
  assumes "quicPktOpen P k h pkt l m = (out, h1, pkt1)"
  shows "h_type h1 = h_type h"
proof -
  have u: "h_type h2 = h_type h" if "pktUnprotect P k h pkt l = (ok, h2, p2)" for ok h2 p2
    using that by (auto simp: pktUnprotect_def quicHdrDecodePN_def hdrPnPartial_def Let_def
        split: option.splits prod.splits if_splits)
  then show ?thesis using assms by (auto simp: quicPktOpen_def Let_def split: if_splits prod.splits bool.splits)
qed

text \<open>What planning fixes of a packet.\<close>

definition plan_known :: "QuicConn \<Rightarrow> PktPlan \<Rightarrow> bool" where
  "plan_known c p \<longleftrightarrow>
     pl_pnLen p = quicPnSize (ps_next (c_pns c (pl_sp p))) (ps_largestAcked (c_pns c (pl_sp p)))
     \<and> (pl_early p \<longrightarrow> pl_sp p = QUIC_PNS_APP)"

definition header_ready :: "QuicConn \<Rightarrow> bool" where
  "header_ready c \<longleftrightarrow> c_version c = QUIC_VERSION_1 \<and> (\<forall>b. c_token c = Some b \<longrightarrow> length (buf_data b) < 2 ^ 64)"

lemma planHdr_caller_ok:
  assumes "small_plan p" "header_ready c"
  shows "hdr_caller_ok (planHdr c p)"
proof -
  have "h_lenSize (planHdr c p) \<in> {0, 1, 2, 4, 8}"
    using planHdr_sel(6,7) [of c p] by (cases "h_type (planHdr c p) = QUIC_PKT_SHORT") simp_all
  moreover have "length (h_token (planHdr c p)) < 2 ^ 64"
    unfolding planHdr_sel(9) using assms(2) by (auto simp: header_ready_def split: option.split)
  ultimately show ?thesis using assms(1) planHdr_type [of c p]
    by (auto simp: hdr_caller_ok_def planHdr_sel(2) small_plan_def)
qed

lemma sealOne_opens:
  assumes aead: "aead_ok P" and small: "small_plan p" and ready: "header_ready c" and known: "plan_known c p"
    and keys: "k = planKeys c p" and nums: "numbers_known (c_pns c (pl_sp p)) t"
    and seal: "sealOne P c p dlen = Some pkt" and room: "length (pl_data p) \<le> QUIC_MAX_DATAGRAM"
    and short: "h_type (planHdr c p) = QUIC_PKT_SHORT \<longrightarrow> rest = [] \<and> dcidLen = length (rc_cid (c_remote c ! c_remoteActive c))"
  shows "\<exists>h h1 pkt1. quicHdrDecode (pkt @ rest) dcidLen = Some h \<and> h_type h = h_type (planHdr c p) \<and> h_pktLen h = length pkt
    \<and> quicPktOpen P k h (pkt @ rest) (as_largest (ps_ack t)) QUIC_MAX_DATAGRAM = (Some (pl_data p), h1, pkt1)
    \<and> h_pn h1 = ps_next (c_pns c (pl_sp p))"
proof -
  let ?s = "c_pns c (pl_sp p)" and ?h = "planHdr c p" and ?largest = "as_largest (ps_ack t)"
  obtain wr n buf where e: "quicHdrEncode (quicWrInit (replicate (QUIC_MAX_DATAGRAM - dlen) 0)) ?h = (True, wr)"
    and s: "quicPktSeal P (planKeys c p) (wr_buf wr) (quicHdrSize ?h - pl_pnLen p) (pl_pnLen p) (ps_next ?s) (pl_data p)
      = Some (n, buf)" and pkt: "pkt = take n buf"
    using seal by (auto simp: sealOne_def split: prod.splits bool.splits option.splits)
  have pn4: "1 \<le> pl_pnLen p" "pl_pnLen p \<le> 4" using known quicPnSize_range by (simp_all add: plan_known_def)
  have "hdr_caller_ok ?h" by (rule planHdr_caller_ok [OF small ready])
  then have sr: "seal_ready ?h (ps_next ?s) (pl_data p) (wr_buf wr)"
    using planHdr_type [of c p] ready e pnMask_take_bit [OF pn4(2)]
    by (auto simp: seal_ready_def planHdr_sel(2,3,4,8) header_ready_def)
  have nk: "ps_next ?s < QUIC_MAX_PACKET_NUMBER" "ps_largestAcked ?s = QUIC_PN_NONE \<or> ps_largestAcked ?s \<le> ps_next ?s"
    "unat (ps_next ?s) + 1 - pn_expected (ps_largestAcked ?s) < 2 ^ 31"
    "pn_expected (ps_largestAcked ?s) \<le> pn_expected ?largest" "pn_expected ?largest \<le> unat (ps_next ?s)"
    using nums by (simp_all add: numbers_known_def)
  have wide: "unat (ps_next ?s) + 1 - pn_expected (ps_largestAcked ?s) < 2 ^ (pl_pnLen p * 8 - 1)"
    using quicPnSize_wide [OF nk(1,3,2)] known by (simp add: plan_known_def)
  have big: "unat (ps_next ?s) < 2 ^ 62" using nk(1) by (simp add: QUIC_MAX_PACKET_NUMBER_def word_less_nat_alt)
  have pn: "pn_expected ?largest \<le> 2 ^ 62" "pn_expected ?largest < unat (ps_next ?s) + 2 ^ (h_pnLen ?h * 8 - 1)"
    "unat (ps_next ?s) \<le> pn_expected ?largest + 2 ^ (h_pnLen ?h * 8 - 1)"
    using nk wide big by (simp_all add: planHdr_sel(3))
  have seal1: "quicPktSeal P (planKeys c p) (wr_buf wr) (quicHdrSize ?h - h_pnLen ?h) (h_pnLen ?h) (ps_next ?s) (pl_data p)
      = Some (n, buf)" using s by (simp add: planHdr_sel(3))
  have short1: "h_type ?h = QUIC_PKT_SHORT \<longrightarrow> rest = [] \<and> dcidLen = length (h_dcid ?h)"
    using short by (simp add: planHdr_sel(5))
  obtain h h1 ct where d: "quicHdrDecode (take n buf @ rest) dcidLen = Some h" "h_pktLen h = n"
    "\<And>m. length (pl_data p) \<le> m \<Longrightarrow> quicAeadOpen P (planKeys c p) (ps_next ?s) (hdr_bytes ?h) ct m = Some (pl_data p)"
    "\<And>k' m. quicHpMask P k' = quicHpMask P (planKeys c p) \<Longrightarrow> quicPktOpen P k' h (take n buf @ rest) ?largest m =
        (quicAeadOpen P k' (ps_next ?s) (hdr_bytes ?h) ct m, h1, hdr_bytes ?h @ ct @ rest)"
    "h_pn h1 = ps_next ?s" "h_type h1 = h_type ?h"
    using sealed_packet_opens [OF aead sr seal1 short1 nk(1) pn] by metis
  have o: "quicPktOpen P k h (pkt @ rest) ?largest QUIC_MAX_DATAGRAM = (Some (pl_data p), h1, hdr_bytes ?h @ ct @ rest)"
    using d(4) [of k QUIC_MAX_DATAGRAM] d(3) [OF room] keys pkt by simp
  have "length pkt = n" using quicPktSeal_length(2) [OF aead s] pkt by simp
  then show ?thesis using d(1,2,5,6) o quicPktOpen_type [OF o] pkt by auto
qed

text \<open>The packets of a datagram one after the other; one with a short header can only be the last.\<close>

definition app_last :: "PktPlan list \<Rightarrow> bool" where
  "app_last ps \<longleftrightarrow> (\<forall>p \<in> set (butlast ps). pl_sp p \<noteq> QUIC_PNS_APP)"

lemma planView_pktSent:
  "pl_sp q \<noteq> pl_sp p \<Longrightarrow> planView (pktSent xa now p n c) q = planView c q"
  by (simp add: planView_def pktSent_next)

lemma header_ready_sending: "sending c c1 \<Longrightarrow> header_ready c \<Longrightarrow> header_ready c1"
  by (auto dest!: sendingD(1) simp: same_hdr_def header_ready_def)

lemma pktSent_largestAcked: "ps_largestAcked (c_pns (pktSent xa now p n c) sp) = ps_largestAcked (c_pns c sp)"
  by (simp add: pktSent_def Let_def setSpace_def)

lemma sealPlans_understood:
  assumes aead: "aead_ok P" and cid: "c_localCidLen d = length (rc_cid (c_remote c ! c_remoteActive c))"
    and "\<forall>p \<in> set ps. small_plan p \<and> plan_known c p \<and> length (pl_data p) \<le> QUIC_MAX_DATAGRAM
      \<and> numbers_known (c_pns c (pl_sp p)) (c_pns d (pl_sp p))"
    and "\<forall>sp. ps_rx (c_pns d sp) = ps_tx (c_pns c sp)" "c_earlyRx d = c_earlyTx c"
    and "header_ready c" "distinct (map pl_sp ps)" "app_last ps"
    and "sealPlans P xa now ps c dgram el = (True, c1, dgram1, el1)"
  shows "\<exists>out. dgram1 = dgram @ out \<and> understood P d (map (planView c) ps) out"
  using assms(2-)
proof (induction ps arbitrary: c dgram el)
  case (Cons p ps)
  obtain pkt where one: "sealOne P c p (length dgram) = Some pkt" using Cons.prems(8) by (auto split: option.splits)
  define ca where "ca = pktSent xa now p (length pkt) c"
  have sn: "sending c ca" by (simp add: ca_def pktSent_sending)
  have same: "c_remote ca = c_remote c" "c_remoteActive ca = c_remoteActive c" "c_earlyTx ca = c_earlyTx c"
    "ps_tx (c_pns ca sp) = ps_tx (c_pns c sp)" for sp
    using sendingD(1,18,19) [OF sn] by (simp_all add: same_hdr_def)
  have other: "pl_sp q \<noteq> pl_sp p" if "q \<in> set ps" for q using Cons.prems(6) imageI [OF that, of pl_sp] by auto
  have sp_eq: "ps_next (c_pns ca (pl_sp q)) = ps_next (c_pns c (pl_sp q))"
    "ps_largestAcked (c_pns ca (pl_sp q)) = ps_largestAcked (c_pns c (pl_sp q))" if "q \<in> set ps" for q
    using other [OF that] by (simp_all add: ca_def pktSent_next pktSent_largestAcked)
  have "\<exists>out. dgram1 = (dgram @ pkt) @ out \<and> understood P d (map (planView ca) ps) out"
  proof (rule Cons.IH)
    show "\<forall>q \<in> set ps. small_plan q \<and> plan_known ca q \<and> length (pl_data q) \<le> QUIC_MAX_DATAGRAM
      \<and> numbers_known (c_pns ca (pl_sp q)) (c_pns d (pl_sp q))"
      using Cons.prems(2) sp_eq by (simp add: plan_known_def numbers_known_def)
    show "app_last ps" using Cons.prems(7) by (cases ps) (auto simp: app_last_def)
    show "sealPlans P xa now ps ca (dgram @ pkt) (el \<or> pl_elicit p) = (True, c1, dgram1, el1)"
      using Cons.prems(8) one by (simp add: ca_def)
  qed (use Cons.prems same header_ready_sending [OF sn] in simp_all)
  moreover have "map (planView ca) ps = map (planView c) ps"
    using other by (simp add: ca_def planView_pktSent)
  ultimately obtain out where out: "dgram1 = dgram @ pkt @ out" "understood P d (map (planView c) ps) out" by auto
  define ty where "ty = (if pl_early p then QUIC_PKT_0RTT else pktTypeForSpace (pl_sp p))"
  have ty: "h_type (planHdr c p) = ty" by (simp add: ty_def planHdr_sel(1))
  have sp: "spaceForPktType ty = Some (pl_sp p)"
    using Cons.prems(2) by (cases "pl_sp p") (auto simp: ty_def plan_known_def)
  have k: "rxKeys d ty (pl_sp p) = planKeys c p"
    using Cons.prems(3,4) by (cases "pl_sp p") (simp_all add: rxKeys_def planKeys_def ty_def)
  have "out = []" if "ty = QUIC_PKT_SHORT"
  proof -
    have "pl_sp p = QUIC_PNS_APP" using that by (cases "pl_sp p") (simp_all add: ty_def split: if_splits)
    then have "ps = []" using Cons.prems(7) by (auto simp: app_last_def split: if_splits)
    then show ?thesis using out(2) by simp
  qed
  then have "\<exists>h h1 pkt1. quicHdrDecode (pkt @ out) (c_localCidLen d) = Some h \<and> h_type h = ty \<and> h_pktLen h = length pkt
    \<and> quicPktOpen P (rxKeys d ty (pl_sp p)) h (pkt @ out) (as_largest (ps_ack (c_pns d (pl_sp p)))) QUIC_MAX_DATAGRAM
        = (Some (pl_data p), h1, pkt1)
    \<and> h_pn h1 = ps_next (c_pns c (pl_sp p))"
    unfolding ty [symmetric] by (intro sealOne_opens [OF aead _ Cons.prems(5) _ _ _ one]) (use Cons.prems k ty in simp_all)
  then have "understood P d (planView c p # map (planView c) ps) (pkt @ out)"
    using out(2) sp unfolding planView_def ty_def [symmetric] by fastforce
  then show ?case using out(1) by auto
qed simp

section \<open>Sealing goes through\<close>

text \<open>
  The keys the connection seals with are made by \<^verbatim>\<open>_quicKeysDerive\<close> from a secret for one of the cipher suites,
  and by \<^verbatim>\<open>_quicKeysNext\<close> from such keys.
\<close>

inductive made_keys :: "psa \<Rightarrow> QuicKeys \<Rightarrow> bool" for P :: psa where
  made_derive: "su \<in> set tls13Suites \<Longrightarrow> quicKeysDerive P (Some su) secret = (True, k) \<Longrightarrow> made_keys P k"
| made_next: "made_keys P k \<Longrightarrow> quicKeysNext P z k = (True, k1) \<Longrightarrow> made_keys P k1"

definition keys_made :: "psa \<Rightarrow> QuicConn \<Rightarrow> bool" where
  "keys_made P c \<longleftrightarrow> (\<forall>sp. k_valid (ps_tx (c_pns c sp)) \<longrightarrow> made_keys P (ps_tx (c_pns c sp)))
     \<and> (k_valid (c_earlyTx c) \<longrightarrow> made_keys P (c_earlyTx c))"

text \<open>A key that the store accepted, with the type and size the algorithm asks for, and that may encrypt with it.\<close>

definition aead_key :: "psa \<Rightarrow> psa_algorithm \<Rightarrow> psa_key \<Rightarrow> bool" where
  "aead_key P alg k \<longleftrightarrow> psa_import_key P k \<and> pk_alg k = alg \<and> PSA_KEY_USAGE_ENCRYPT \<in> set (pk_usage k)
     \<and> length (pk_bytes k) * 8 = pk_bits k
     \<and> (alg = PSA_ALG_GCM \<and> pk_type k = PSA_KEY_TYPE_AES \<and> pk_bits k \<in> {128, 256}
        \<or> alg = PSA_ALG_CHACHA20_POLY1305 \<and> pk_type k = PSA_KEY_TYPE_CHACHA20 \<and> pk_bits k = 256)"

definition ecb_key :: "psa \<Rightarrow> psa_key \<Rightarrow> bool" where
  "ecb_key P k \<longleftrightarrow> psa_import_key P k \<and> pk_alg k = PSA_ALG_ECB_NO_PADDING \<and> PSA_KEY_USAGE_ENCRYPT \<in> set (pk_usage k)
     \<and> length (pk_bytes k) * 8 = pk_bits k \<and> pk_type k = PSA_KEY_TYPE_AES \<and> pk_bits k \<in> {128, 256}"

text \<open>
  What is relied on of the library beyond \<open>aead_ok\<close>. An AEAD operation with such a key, a nonce of 12 bytes, inputs
  no longer than a datagram and room for the tag succeeds; AES in ECB mode turns a block into a block; the
  ChaCha20 block function works for a key of 32 and a nonce of 12 bytes; and what HKDF-Expand returns has
  the length that was asked for.
\<close>

definition cipher_works :: "psa \<Rightarrow> bool" where
  "cipher_works P \<longleftrightarrow>
     (\<forall>k alg nonce aad pt n. aead_key P alg k \<and> length nonce = TLS13_IV_LEN \<and> length aad \<le> QUIC_MAX_DATAGRAM
        \<and> length pt \<le> QUIC_MAX_DATAGRAM \<and> length pt + QUIC_TAG_LEN \<le> n \<longrightarrow>
        psa_aead_encrypt P (Some k) alg nonce aad pt n \<noteq> None)
     \<and> (\<forall>k bs. ecb_key P k \<and> length bs = 16 \<longrightarrow>
          (\<exists>block. psa_cipher_encrypt P (Some k) PSA_ALG_ECB_NO_PADDING bs 16 = Some block \<and> length block = 16))
     \<and> (\<forall>key nonce counter bs. length key = 32 \<and> length nonce = 12 \<and> length bs = 5 \<longrightarrow>
          mbedtls_chacha20_crypt P key nonce counter bs \<noteq> None)
     \<and> (\<forall>alg secret info n out. psa_hkdf_expand P alg secret info n = Some out \<longrightarrow> length out = n)"

text \<open>What made keys are like.\<close>

definition keys_shape :: "QuicKeys \<Rightarrow> bool" where
  "keys_shape k \<longleftrightarrow> (\<exists>su \<in> set tls13Suites. k_aeadAlg k = su_aead su \<and> k_keyType k = su_keyType su \<and> k_keyLen k = su_keyLen su)
     \<and> (k_hpChaCha k \<longleftrightarrow> k_keyType k = PSA_KEY_TYPE_CHACHA20) \<and> length (k_hpKey k) = k_keyLen k"

definition keys_usable :: "psa \<Rightarrow> QuicKeys \<Rightarrow> bool" where
  "keys_usable P k \<longleftrightarrow> k_valid k \<and> length (k_iv k) = TLS13_IV_LEN \<and> (\<exists>a. k_aead k = Some a \<and> aead_key P (k_aeadAlg k) a)
     \<and> (if k_hpChaCha k then length (k_hpKey k) = 32 else \<exists>h. k_hp k = Some h \<and> ecb_key P h)"

lemma expandLabel_length:
  assumes "cipher_works P" "tls13ExpandLabel P hash secret label ctx n = Some out"
  shows "length out = n"
  using assms by (auto simp: tls13ExpandLabel_def cipher_works_def Let_def split: if_splits option.splits)

lemma keysFinish_usable:
  assumes works: "cipher_works P" and shape: "keys_shape k" and fin: "keysFinish P k = (True, k1)"
  shows "keys_shape k1 \<and> keys_usable P k1"
proof -
  obtain k0 where hp: "quicKeysImportHp P k = (True, k0)" and sec: "quicKeysFromSecret P k0 = (True, k1)"
    using fin by (auto simp: keysFinish_def split: prod.splits bool.splits)
  have k0: "k0 = k\<lparr>k_hp := k_hp k0\<rparr>" "\<not> k_hpChaCha k \<Longrightarrow> \<exists>h. k_hp k0 = Some h \<and> psa_import_key P h
      \<and> h = \<lparr>pk_type = k_keyType k, pk_bits = k_keyLen k * 8, pk_usage = [PSA_KEY_USAGE_ENCRYPT],
           pk_alg = PSA_ALG_ECB_NO_PADDING, pk_bytes = take (k_keyLen k) (k_hpKey k)\<rparr>"
    using hp by (auto simp: quicKeysImportHp_def import_key_def split: if_splits option.splits)
  obtain key iv a where key: "length key = k_keyLen k0" "length iv = TLS13_IV_LEN" "psa_import_key P a"
    and a: "a = \<lparr>pk_type = k_keyType k0, pk_bits = k_keyLen k0 * 8,
        pk_usage = [PSA_KEY_USAGE_ENCRYPT, PSA_KEY_USAGE_DECRYPT], pk_alg = k_aeadAlg k0, pk_bytes = key\<rparr>"
    and k1: "k1 = k0\<lparr>k_iv := iv, k_aead := Some a, k_valid := True\<rparr>"
    using sec by (auto simp: quicKeysFromSecret_def import_key_def Let_def
        dest!: expandLabel_length [OF works] split: if_splits option.splits)
  have same: "k_keyType k0 = k_keyType k" "k_keyLen k0 = k_keyLen k" "k_aeadAlg k0 = k_aeadAlg k"
    "k_hpChaCha k0 = k_hpChaCha k" "k_hpKey k0 = k_hpKey k" by (subst k0(1), simp)+
  have "aead_key P (k_aeadAlg k) a"
    using shape key a same by (auto simp: aead_key_def keys_shape_def tls13Suites_def)
  moreover have "\<exists>h. k_hp k0 = Some h \<and> ecb_key P h" if "\<not> k_hpChaCha k"
    using k0(2) [OF that] that shape by (auto simp: ecb_key_def keys_shape_def tls13Suites_def)
  moreover have "length (k_hpKey k) = 32" if "k_hpChaCha k"
    using shape that by (auto simp: keys_shape_def tls13Suites_def)
  ultimately show ?thesis
    using shape key(2) same by (simp add: keys_shape_def keys_usable_def k1)
qed

lemma made_usable:
  assumes "made_keys P k" "cipher_works P"
  shows "keys_shape k \<and> keys_usable P k"
  using assms(1)
proof induction
  case (made_derive su secret k)
  obtain hp where hp: "length hp = su_keyLen su" and fin: "keysFinish P (keysZero\<lparr>k_hash := su_hash su, k_aeadAlg := su_aead su,
      k_keyType := su_keyType su, k_keyLen := su_keyLen su, k_secretLen := su_hashLen su,
      k_hpChaCha := su_keyType su = PSA_KEY_TYPE_CHACHA20, k_secret := take (su_hashLen su) secret, k_hpKey := hp\<rparr>) = (True, k)"
    using made_derive(2)
    by (auto simp: quicKeysDerive_def Let_def dest!: expandLabel_length [OF assms(2)] split: if_splits option.splits)
  show ?case by (rule keysFinish_usable [OF assms(2) _ fin]) (use made_derive(1) hp in \<open>auto simp: keys_shape_def\<close>)
next
  case (made_next k z k1)
  obtain sec where fin: "keysFinish P (keysZero\<lparr>k_hash := k_hash k, k_aeadAlg := k_aeadAlg k,
      k_keyType := k_keyType k, k_keyLen := k_keyLen k, k_secretLen := k_secretLen k, k_hpChaCha := k_hpChaCha k,
      k_hpKey := k_hpKey k, k_secret := sec\<rparr>) = (True, k1)"
    using made_next(2) by (auto simp: quicKeysNext_def Let_def split: if_splits option.splits)
  show ?case by (rule keysFinish_usable [OF assms(2) _ fin]) (use made_next(3) in \<open>simp add: keys_shape_def\<close>)
qed

lemma initial_made:
  assumes "quicKeysInitial P dcid = (True, client, server)"
  shows "made_keys P client \<and> made_keys P server"
proof -
  obtain su cs ss where su: "tls13Suite TLS13_AES_128_GCM_SHA256 = Some su"
    and k: "quicKeysDerive P (Some su) cs = (True, client)" "quicKeysDerive P (Some su) ss = (True, server)"
    using assms by (auto simp: quicKeysInitial_def split: if_splits option.splits prod.splits bool.splits)
  have "su \<in> set tls13Suites" using su by (auto simp: tls13Suite_def find_Some_iff)
  then show ?thesis using k made_derive by blast
qed

lemma length_quicNonce: "length (quicNonce k pn) = length (k_iv k)"
  by (simp add: quicNonce_def length_fold_update)

lemma usable_works:
  assumes "cipher_works P" "keys_usable P k"
  shows "length aad \<le> QUIC_MAX_DATAGRAM \<Longrightarrow> length pt \<le> QUIC_MAX_DATAGRAM \<Longrightarrow> length pt + QUIC_TAG_LEN \<le> n \<Longrightarrow>
      quicAeadSeal P k pn aad pt n \<noteq> None"
    "length sample = 16 \<Longrightarrow> quicHpMask P k sample \<noteq> None"
proof -
  show "quicAeadSeal P k pn aad pt n \<noteq> None"
    if "length aad \<le> QUIC_MAX_DATAGRAM" "length pt \<le> QUIC_MAX_DATAGRAM" "length pt + QUIC_TAG_LEN \<le> n"
  proof -
    obtain a where "k_aead k = Some a" "aead_key P (k_aeadAlg k) a" "length (quicNonce k pn) = TLS13_IV_LEN" "k_valid k"
      using assms(2) by (auto simp: keys_usable_def length_quicNonce)
    then show ?thesis using assms(1) that unfolding cipher_works_def quicAeadSeal_def by simp
  qed
  show "quicHpMask P k sample \<noteq> None" if len: "length sample = 16"
  proof (cases "k_hpChaCha k")
    case True
    then show ?thesis using assms that by (simp add: keys_usable_def quicHpMask_def cipher_works_def Let_def)
  next
    case False
    then obtain h where h: "k_hp k = Some h" "k_valid k" "ecb_key P h" using assms(2) by (auto simp: keys_usable_def)
    then obtain block where "psa_cipher_encrypt P (Some h) PSA_ALG_ECB_NO_PADDING sample 16 = Some block" "length block = 16"
      using assms(1) len unfolding cipher_works_def by blast
    then show ?thesis using False len h by (simp add: quicHpMask_def)
  qed
qed

definition plan_sealable :: "QuicConn \<Rightarrow> PktPlan \<Rightarrow> bool" where
  "plan_sealable c p \<longleftrightarrow> quicHdrSize (buildHdr c (pl_sp p) (pl_early p) (pl_pnLen p) 0) \<noteq> 0
     \<and> QUIC_MIN_PN_PAYLOAD \<le> pl_pnLen p + length (pl_data p) \<and> k_valid (planKeys c p)"

lemma sealable_usable:
  assumes "plan_sealable c p" "keys_made P c" "cipher_works P"
  shows "keys_usable P (planKeys c p)"
  using assms made_usable unfolding plan_sealable_def keys_made_def planKeys_def by (auto split: if_splits)

lemma quicPktSeal_succeeds:
  assumes "aead_ok P" "cipher_works P" "keys_usable P k" "1 \<le> pnLen" "pnLen \<le> 4" "4 \<le> pnLen + length payload"
    "pnOff + pnLen + length payload + QUIC_TAG_LEN \<le> length pkt" "length pkt \<le> QUIC_MAX_DATAGRAM"
  shows "quicPktSeal P k pkt pnOff pnLen pn payload \<noteq> None"
proof -
  let ?n = "pnOff + pnLen"
  have "length payload + QUIC_TAG_LEN \<le> length pkt - ?n" "length payload \<le> QUIC_MAX_DATAGRAM"
    "length (take ?n pkt) \<le> QUIC_MAX_DATAGRAM" using assms(7,8) by simp_all
  then obtain ct where ct: "quicAeadSeal P k pn (take ?n pkt) payload (length pkt - ?n) = Some ct"
    using usable_works(1) [OF assms(2,3)] by blast
  then have len: "length ct = length payload + QUIC_TAG_LEN"
    using aead_okD(1) [OF assms(1)] by (simp add: quicAeadSeal_def split: if_splits)
  then have "length (take 16 (drop (pnOff + 4) (mem_write pkt ?n ct))) = 16" using assms(6,7) by simp
  then have "quicHpMask P k (take 16 (drop (pnOff + 4) (mem_write pkt ?n ct))) \<noteq> None"
    by (rule usable_works(2) [OF assms(2,3)])
  then show ?thesis using assms(4-7) ct len by (auto simp: quicPktSeal_def Let_def)
qed

lemma quicHdrEncode_fits:
  assumes "wr_wf wr" "\<not> wr_bad wr" "quicHdrSize h \<noteq> 0" "hdr_caller_ok h"
  shows "fst (quicHdrEncode wr h) \<longleftrightarrow> quicHdrSize h \<le> quicWrLeft wr"
  using quicHdrEncode_grow [OF assms(1,3,4)] length_hdr_bytes [OF assms(3,4)] quicHdrEncode_result [OF assms(3,4), of wr] assms(2)
  by (auto simp: wr_grow_def quicWrLeft_def wr_room_def)

lemma sealOne_succeeds:
  assumes "aead_ok P" "cipher_works P" "small_plan p" "header_ready c" "plan_known c p" "plan_sealable c p" "keys_made P c"
    and room: "dlen + planSize c p \<le> QUIC_MAX_DATAGRAM"
  shows "sealOne P c p dlen \<noteq> None"
proof -
  let ?h = "planHdr c p" and ?wr = "quicWrInit (replicate (QUIC_MAX_DATAGRAM - dlen) 0)"
  have size: "quicHdrSize ?h = quicHdrSize (buildHdr c (pl_sp p) (pl_early p) (pl_pnLen p) 0)"
    using planHdr_size assms(3) by (simp add: small_plan_def)
  then have ne: "quicHdrSize ?h \<noteq> 0" using assms(6) by (simp add: plan_sealable_def)
  have ok: "hdr_caller_ok ?h" by (rule planHdr_caller_ok [OF assms(3,4)])
  have fits: "quicHdrSize ?h + length (pl_data p) + QUIC_TAG_LEN \<le> QUIC_MAX_DATAGRAM - dlen"
    using room size by (simp add: planSize_def)
  have "fst (quicHdrEncode ?wr ?h)"
    using quicHdrEncode_fits [OF wr_init_wf _ ne ok] fits by (simp add: quicWrLeft_def quicWrInit_def)
  then obtain wr where e: "quicHdrEncode ?wr ?h = (True, wr)" by (metis prod.collapse)
  have len: "length (wr_buf wr) = QUIC_MAX_DATAGRAM - dlen" using quicHdrEncode_buf [OF e] by (simp add: quicWrInit_def)
  have pn: "1 \<le> pl_pnLen p" "pl_pnLen p \<le> 4" using assms(5) quicPnSize_range by (simp_all add: plan_known_def)
  have "pl_pnLen p \<le> quicHdrSize ?h" using quicHdrSize_pn [OF ne planHdr_type] planHdr_sel(3) [of c p] by simp
  then have "quicPktSeal P (planKeys c p) (wr_buf wr) (quicHdrSize ?h - pl_pnLen p) (pl_pnLen p)
      (ps_next (c_pns c (pl_sp p))) (pl_data p) \<noteq> None"
    using assms(6) pn fits len
    by (intro quicPktSeal_succeeds [OF assms(1,2) sealable_usable [OF assms(6,7,2)]]) (simp_all add: plan_sealable_def)
  then show ?thesis using e by (auto simp: sealOne_def)
qed

lemma plan_sealable_same:
  assumes "same_hdr c c1" "\<And>sp. ps_tx (c_pns c1 sp) = ps_tx (c_pns c sp)" "c_earlyTx c1 = c_earlyTx c"
  shows "plan_sealable c1 p = plan_sealable c p"
  using assms(2,3) by (simp add: plan_sealable_def planKeys_def buildHdr_same [OF assms(1)])

lemma keys_made_same:
  assumes "\<And>sp. ps_tx (c_pns c1 sp) = ps_tx (c_pns c sp)" "c_earlyTx c1 = c_earlyTx c"
  shows "keys_made P c1 = keys_made P c"
  using assms by (simp add: keys_made_def)

lemma sealPlans_succeeds:
  assumes "aead_ok P" "cipher_works P" "header_ready c" "distinct (map pl_sp ps)"
    and "\<forall>p \<in> set ps. small_plan p \<and> plan_known c p \<and> plan_sealable c p"
    and "length dgram + sum_list (map (planSize c) ps) \<le> QUIC_MAX_DATAGRAM" "keys_made P c"
  shows "fst (sealPlans P xa now ps c dgram el)"
  using assms(3-)
proof (induction ps arbitrary: c dgram el)
  case (Cons p ps)
  have "sealOne P c p (length dgram) \<noteq> None"
    by (rule sealOne_succeeds [OF assms(1,2)]) (use Cons.prems in simp_all)
  then obtain pkt where one: "sealOne P c p (length dgram) = Some pkt" by auto
  define ca where "ca = pktSent xa now p (length pkt) c"
  have sn: "sending c ca" by (simp add: ca_def pktSent_sending)
  have other: "pl_sp q \<noteq> pl_sp p" if "q \<in> set ps" for q using Cons.prems(2) imageI [OF that, of pl_sp] by auto
  have known: "plan_known ca q = plan_known c q" if "q \<in> set ps" for q
    using other [OF that] by (simp add: plan_known_def ca_def pktSent_next pktSent_largestAcked)
  have "fst (sealPlans P xa now ps ca (dgram @ pkt) (el \<or> pl_elicit p))"
  proof (rule Cons.IH)
    show "header_ready ca" by (rule header_ready_sending [OF sn Cons.prems(1)])
    show "\<forall>q \<in> set ps. small_plan q \<and> plan_known ca q \<and> plan_sealable ca q"
      using Cons.prems(3) known plan_sealable_same [OF sendingD(1,18,19) [OF sn]] by simp
    show "length (dgram @ pkt) + sum_list (map (planSize ca) ps) \<le> QUIC_MAX_DATAGRAM"
      using Cons.prems(3,4) sealOne_length [OF assms(1) _ one] planSize_same [OF sendingD(1) [OF sn]] by simp
  qed (use Cons.prems keys_made_same [OF sendingD(18,19) [OF sn]] in simp_all)
  then show ?case using one by (simp add: ca_def)
qed simp


section \<open>Planning\<close>

lemma flushSent_event:
  assumes "flushSent E now ps c dgram el = (ok, c1)" "c_hooks c HookSend"
  shows "\<exists>to info. last (c_events c1) = EvSend to info dgram"
proof -
  define ca where "ca = c\<lparr>c_bytesSent := c_bytesSent c + of_nat (length dgram),
    c_pathSent := c_pathSent c + of_nat (length dgram)\<rparr>"
  define cb where "cb = closeSent now (markSent ps ca)"
  define cc where "cc = (if el then cb\<lparr>c_idleDeadline := add64 now (idleTimeoutOf cb)\<rparr> else cb)"
  have "snd (flushSent E now ps c dgram el) = fireHook HookSend (EvSend (c_peer cc) (pathInfo ca) dgram) cc"
    unfolding flushSent_def Let_def ca_def cb_def cc_def by (rule snd_conv)
  moreover have "noted ca cc"
    unfolding cc_def cb_def by (rule noted_trans [OF noted_trans [OF markSent_noted closeSent_noted] idle_noted])
  then have "c_hooks cc HookSend" using assms(2) by (simp add: noted_def flushed_def ca_def)
  ultimately show ?thesis using assms(1) by (simp add: fireHook_def)
qed

lemma planSpace_adds:
  assumes "planSpace cap blocked now (c, u, scr, ps) sp = (c1, u1, scr1, ps1)"
  shows "built c c1 \<and> (ps1 = ps \<or> (\<exists>q. ps1 = ps @ [q] \<and> pl_sp q = sp \<and> plan_known c q \<and> plan_sealable c q))"
proof -
  define s where "s = c_pns c sp"
  define early where "early = (sp = QUIC_PNS_APP \<and> \<not> k_valid (ps_tx s) \<and> k_valid (c_earlyTx c))"
  define n where "n = quicPnSize (ps_next s) (ps_largestAcked s)"
  define hdrsz where "hdrsz = quicHdrSize (buildHdr c sp early n 0)"
  define b where "b = (if cap - u - hdrsz - QUIC_TAG_LEN > QUIC_MAX_DATAGRAM - scr then QUIC_MAX_DATAGRAM - scr
    else cap - u - hdrsz - QUIC_TAG_LEN)"
  define probe where "probe = (quicRecovProbes (c_recov c) sp > 0)"
  obtain out el c2 where p: "buildPayload c sp early b (ps_next s) probe blocked now = (out, el, c2)" by (metis prod_cases3)
  define d where "d = out @ replicate (QUIC_MIN_PN_PAYLOAD - n - length out) 0"
  define q where "q = \<lparr>pl_sp = sp, pl_data = d, pl_pnLen = n, pl_elicit = el, pl_inFlight = el,
    pl_probe = (probe \<and> el), pl_early = early\<rparr>"
  have "(c1, u1, scr1, ps1) =
     (if ps_discarded s \<or> (\<not> early \<and> \<not> k_valid (ps_tx s)) then (c, u, scr, ps)
      else if hdrsz = 0 \<or> u + hdrsz + QUIC_TAG_LEN + QUIC_MIN_PN_PAYLOAD > cap then (c, u, scr, ps)
      else if out = [] then (c2, u, scr, ps)
      else (c2, u + hdrsz + length d + QUIC_TAG_LEN, scr + length d, ps @ [q]))"
    unfolding assms [symmetric] planSpace_def Let_def prod.case
    by (fold s_def, fold early_def, fold n_def, fold hdrsz_def, fold b_def, fold probe_def,
        unfold p prod.case, fold d_def, fold q_def, rule refl)
  then have "(c1, ps1) = (c, ps) \<or> (c1, ps1) = (c2, ps)
      \<or> (early \<or> k_valid (ps_tx s)) \<and> hdrsz \<noteq> 0 \<and> (c1, ps1) = (c2, ps @ [q])"
    by (auto split: if_splits)
  moreover have "QUIC_MIN_PN_PAYLOAD \<le> n + length d" by (simp add: d_def)
  moreover have "plan_known c q" by (simp add: plan_known_def q_def n_def s_def early_def)
  moreover have "plan_sealable c q" if "early \<or> k_valid (ps_tx s)" "hdrsz \<noteq> 0" "QUIC_MIN_PN_PAYLOAD \<le> n + length d"
  proof -
    have "early \<Longrightarrow> k_valid (c_earlyTx c)" by (simp add: early_def)
    then show ?thesis using that unfolding plan_sealable_def planKeys_def q_def hdrsz_def s_def by (cases early) simp_all
  qed
  moreover have "built c c2" using buildPayload_keeps [OF p] by simp
  moreover have "pl_sp q = sp" by (simp add: q_def)
  ultimately show ?thesis using built_refl [of c] unfolding prod.inject by metis
qed

lemma plan_known_built: "built c c1 \<Longrightarrow> plan_known c1 p = plan_known c p"
  by (simp add: built_def plan_known_def)

lemma plan_sealable_built: "built c c1 \<Longrightarrow> c_local c \<noteq> [] \<Longrightarrow> plan_sealable c1 p = plan_sealable c p"
  by (rule plan_sealable_same [OF built_same]) (simp_all add: built_def)

lemma built_local_ne: "built c c1 \<Longrightarrow> c_local c \<noteq> [] \<Longrightarrow> c_local c1 \<noteq> []"
  by (auto simp: built_def)

lemma planFold_adds:
  assumes "foldl (planSpace cap blocked now) (c, u, scr, ps) sps = (c1, u1, scr1, ps1)" "c_local c \<noteq> []"
  shows "built c c1 \<and> (\<exists>qs. ps1 = ps @ qs \<and> (\<forall>q \<in> set qs. pl_sp q \<in> set sps \<and> plan_known c q \<and> plan_sealable c q))"
  using assms
proof (induction sps arbitrary: c u scr ps)
  case (Cons sp sps)
  obtain ca ua sa pa where a: "planSpace cap blocked now (c, u, scr, ps) sp = (ca, ua, sa, pa)" by (metis prod_cases4)
  note one = planSpace_adds [OF a]
  have "built ca c1 \<and> (\<exists>qs. ps1 = pa @ qs \<and> (\<forall>q \<in> set qs. pl_sp q \<in> set sps \<and> plan_known ca q \<and> plan_sealable ca q))"
    using Cons.IH [of ca ua sa pa] Cons.prems a built_local_ne [of c ca] one by simp
  then show ?case using one plan_known_built [of c ca] plan_sealable_built [of c ca] Cons.prems(2) built_trans by auto
qed simp

lemma flushPlan_known:
  assumes "flushPlan c cap0 now = (c1, used, plans)" and loc: "c_local c \<noteq> []"
  shows "(\<forall>p \<in> set plans. plan_known c p \<and> plan_sealable c p) \<and> app_last plans"
proof -
  obtain blocked cap where w: "flushWindow c cap0 = (blocked, cap)" by (metis surj_pair)
  obtain ca ua sa pa where a: "foldl (planSpace cap blocked now) (c, 0, 0, []) [QUIC_PNS_INITIAL, QUIC_PNS_HANDSHAKE] = (ca, ua, sa, pa)"
    by (metis prod_cases4)
  obtain cb ub sb pb where b: "planSpace cap blocked now (ca, ua, sa, pa) QUIC_PNS_APP = (cb, ub, sb, pb)" by (metis prod_cases4)
  have "foldl (planSpace cap blocked now) (c, 0, 0, []) pn_spaces = (cb, ub, sb, pb)"
    using a b by (simp add: pn_spaces_def)
  then have plans: "plans = padInitial cb cap ub sb pb" using assms(1) w by (auto simp: flushPlan_def)
  note fa = planFold_adds [OF a loc] and fb = planSpace_adds [OF b]
  have known: "\<forall>p \<in> set pb. plan_known c p \<and> plan_sealable c p"
    using fa fb plan_known_built [of c ca] plan_sealable_built [of c ca] loc by auto
  have early: "\<forall>p \<in> set pa. pl_sp p \<noteq> QUIC_PNS_APP" using fa by auto
  have last: "app_last pb" using fb early by (auto simp: app_last_def dest: in_set_butlastD)
  show ?thesis
  proof (cases "plans = pb")
    case False
    then have pl: "plans = butlast pb @ [(last pb)\<lparr>pl_data := pl_data (last pb) @ replicate (QUIC_INITIAL_MTU - ub) 0, pl_inFlight := True\<rparr>]"
      and "pb \<noteq> []" by (auto simp: plans padInitial_def split: if_splits)
    then have "plan_known c (last pb)" "plan_sealable c (last pb)" using known by simp_all
    then have "plan_known c ((last pb)\<lparr>pl_data := pl_data (last pb) @ x, pl_inFlight := True\<rparr>)"
      "plan_sealable c ((last pb)\<lparr>pl_data := pl_data (last pb) @ x, pl_inFlight := True\<rparr>)" for x
      by (auto simp: plan_known_def plan_sealable_def planKeys_def)
    then show ?thesis using known last unfolding pl by (auto simp: app_last_def dest: in_set_butlastD)
  qed (use known last in simp)
qed


section \<open>Properties\<close>

text \<open>
  What is planned is sent and understood. Let a connection of version 1 hold sending keys that were derived from a
  secret or are the next generation of such keys, and let the cryptographic library encrypt with properly
  imported keys. Whenever there is a packet to send, \<^verbatim>\<open>flushOne\<close> hands over one datagram with exactly the
  packets of the plan. A peer with the same keys, which has seen what it acknowledged and nothing that was not
  sent, fewer than \<open>2 ^ 31\<close> packets being unacknowledged, finds every one of them, removes its protection,
  recovers its packet number and opens it to the payload that was built, padding included.
\<close>

theorem datagram_understood:
  assumes "aead_ok (ce_psa E)" "header_ready c" "c_local c \<noteq> []" "peers c d" "cipher_works (ce_psa E)"
    and "keys_made (ce_psa E) c" "c_hooks c HookSend" "flushCap c = Some cap" "flushPlan c cap now = (ca, used, plans)" "plans \<noteq> []"
  shows "\<exists>ok c1 to info dgram. flushOne E c now = (ok, True, c1) \<and> last (c_events c1) = EvSend to info dgram
    \<and> length dgram \<le> cap
    \<and> understood (ce_psa E) d (map (planView c) plans) dgram"
proof -
  obtain okb cb dgram el where sl: "sealPlans (ce_psa E) (ce_xalloc E) now plans ca [] False = (okb, cb, dgram, el)"
    by (metis prod_cases4)
  obtain okc cc where fs: "flushSent E now plans cb dgram el = (okc, cc)" by (metis surj_pair)
  obtain blocked cap1 where w: "flushWindow c cap = (blocked, cap1)" by (metis surj_pair)
  have cap1: "cap1 \<le> cap" "cap1 \<le> QUIC_MAX_DATAGRAM"
    using flushWindow_cap(1) [OF w] flushCap_Some(1) [OF assms(8)] by simp_all
  note pl = flushPlan_facts [OF assms(9) w cap1(2) assms(3)]
  note b = pl(1) [unfolded built_def]
  have size: "sum_list (map (planSize c) plans) \<le> cap1" by (rule pl(2))
  have data: "length (pl_data p) \<le> QUIC_MAX_DATAGRAM" if "p \<in> set plans" for p
  proof -
    have "planSize c p \<le> sum_list (map (planSize c) plans)" using that by (simp add: member_le_sum_list)
    then show ?thesis using size cap1(2) by (simp add: planSize_def)
  qed
  have ready: "header_ready ca" using assms(2) b by (simp add: header_ready_def)
  have made: "keys_made (ce_psa E) ca" using assms(6) b by (simp add: keys_made_def)
  note known = flushPlan_known [OF assms(9,3)] plan_known_built [OF pl(1)] plan_sealable_built [OF pl(1) assms(3)]
  have "fst (sealPlans (ce_psa E) (ce_xalloc E) now plans ca [] False)"
    using ready pl(3,4) known size cap1(2) planSize_same [OF built_same [OF pl(1) assms(3)]] made
    by (intro sealPlans_succeeds [OF assms(1,5)]) (simp_all add: list_all_iff)
  then have okb: okb using sl by simp
  have one: "flushOne E c now = (okc, True, cc)"
    using assms(7-10) pl(5) sl okb fs by (simp add: flushOne_def)
  have view: "planView ca = planView c" using b by (simp add: planView_def fun_eq_iff)
  have "\<exists>out. dgram = [] @ out \<and> understood (ce_psa E) d (map (planView ca) plans) out"
  proof (rule sealPlans_understood [OF assms(1)])
    show "sealPlans (ce_psa E) (ce_xalloc E) now plans ca [] False = (True, cb, dgram, el)" using sl okb by simp
    show "\<forall>p\<in>set plans. small_plan p \<and> plan_known ca p \<and> length (pl_data p) \<le> QUIC_MAX_DATAGRAM
        \<and> numbers_known (c_pns ca (pl_sp p)) (c_pns d (pl_sp p))"
      using pl(3) known data assms(4) b
      by (simp add: list_all_iff peers_def numbers_known_def)
    show "header_ready ca" by (rule ready)
    show "distinct (map pl_sp plans)" "app_last plans" using pl(4) known by simp_all
  qed (use assms(4) b in \<open>simp_all add: peers_def\<close>)
  then have und: "understood (ce_psa E) d (map (planView c) plans) dgram" using view by simp
  have "length dgram = sum_list (map (planSize c) plans)"
    using sealPlans_accounts(1) [OF assms(1) pl(3) sl okb] planSize_same [OF built_same [OF pl(1) assms(3)]] by simp
  then have "length dgram \<le> cap" using size cap1(1) by simp
  moreover have "c_hooks cb HookSend" using assms(7) sendingD(4) [OF sealPlans_sending [OF sl]] b by simp
  then have "\<exists>to info. last (c_events cc) = EvSend to info dgram" using flushSent_event [OF fs] by blast
  ultimately show ?thesis using und one by blast
qed

text \<open>The Initial keys a client makes, and a connection that closes with them.\<close>

definition speaking_keys :: QuicKeys where
  "speaking_keys = fst (snd (quicKeysInitial psa_example []))"

lemma speaking_keys_made: "made_keys psa_example speaking_keys" "k_valid speaking_keys"
proof -
  obtain ck sk where k: "quicKeysInitial psa_example [] = (True, ck, sk)" "k_valid ck" using example_initial by blast
  then show "made_keys psa_example speaking_keys" "k_valid speaking_keys"
    using initial_made [OF k(1)] by (simp_all add: speaking_keys_def)
qed

definition speaking_example :: QuicConn where
  "speaking_example = connZero\<lparr>c_version := QUIC_VERSION_1, c_mtu := 100, c_hooks := (\<lambda>_. True), c_state := QUIC_CS_CLOSING,
     c_closePending := True, c_pns := (\<lambda>_. spaceInit\<lparr>ps_tx := speaking_keys, ps_rx := speaking_keys\<rparr>)\<rparr>"

lemma quicPnSize_first: "quicPnSize 0 QUIC_PN_NONE = 1"
  by code_simp

lemma close_frame_example: "wr_out (snd (putFrame (quicWrInit (replicate 73 0)) (FConnClose 0 (Some 0) []))) = [28, 0, 0, 0]"
  by code_simp

lemma speaking_sel:
  "c_version speaking_example = 1" "c_hooks speaking_example HookSend" "c_mtu speaking_example = 100"
  "c_state speaking_example = QUIC_CS_CLOSING" "c_closePending speaking_example" "\<not> c_server speaking_example"
  "\<not> c_pathAmpLimited speaking_example" "c_token speaking_example = None" "c_earlyRx speaking_example = c_earlyTx speaking_example"
  "c_localCidLen speaking_example = 0" "rc_cid (c_remote speaking_example ! c_remoteActive speaking_example) = []"
  "c_local speaking_example \<noteq> []" "lc_cid (c_local speaking_example ! 0) = []" "c_closeError speaking_example = 0" "\<not> c_closeApp speaking_example"
  "c_closeFrameType speaking_example = 0" "c_closeReason speaking_example = []"
  "c_pns speaking_example sp = spaceInit\<lparr>ps_tx := speaking_keys, ps_rx := speaking_keys\<rparr>"
  by (simp_all add: speaking_example_def connZero_def remoteCidZero_def localCidZero_def)

lemma speaking_space:
  "ps_next (c_pns speaking_example sp) = 0" "ps_largestAcked (c_pns speaking_example sp) = QUIC_PN_NONE"
  "as_largest (ps_ack (c_pns speaking_example sp)) = QUIC_PN_NONE" "\<not> ps_discarded (c_pns speaking_example sp)"
  "ps_tx (c_pns speaking_example sp) = speaking_keys" "ps_rx (c_pns speaking_example sp) = speaking_keys" "k_valid speaking_keys"
  by (simp_all add: speaking_sel spaceInit_def spaceZero_def ackZero_def speaking_keys_made)

lemma speaking_cap: "flushCap speaking_example = Some 100"
  by (simp add: flushCap_def ampCap_def speaking_sel Let_def)

lemma speaking_hdr: "quicHdrSize (buildHdr speaking_example QUIC_PNS_INITIAL False 1 0) = 11"
  by (simp add: buildHdr_def Let_def speaking_sel quicHdrSize_def hdrLenSize_def hdrZero_def quicVarintSize_def)

lemma speaking_plans: "snd (snd (flushPlan speaking_example 100 0)) \<noteq> []"
proof -
  let ?c = speaking_example
  have close: "wr_out (putClose ?c QUIC_PNS_INITIAL (quicWrInit (replicate 73 0))) = [28, 0, 0, 0]"
    using close_frame_example by (simp add: putClose_def speaking_sel)
  have w: "flushWindow ?c 100 = (True, 100)"
    by (simp add: flushWindow_def quicRecovCanSend_def speaking_example_def connZero_def recovZero_def quicRecovInit_def)
  have pay: "buildPayload ?c QUIC_PNS_INITIAL False 73 0 probe True 0 = ([28, 0, 0, 0], False, ?c)" for probe
    using close by (simp add: buildPayload_def Let_def speaking_sel(4,5))
  have early: "(QUIC_PNS_INITIAL = QUIC_PNS_APP \<and> x) = False" for x by simp
  have "\<exists>u scr q. planSpace 100 True 0 (?c, 0, 0, []) QUIC_PNS_INITIAL = (?c, u, scr, [q])"
    unfolding planSpace_def Let_def prod.case early speaking_space quicPnSize_first speaking_hdr by (simp add: pay speaking_space)
  then obtain u scr q where one: "planSpace 100 True 0 (?c, 0, 0, []) QUIC_PNS_INITIAL = (?c, u, scr, [q])" by blast
  obtain cb ub sb pb where two: "foldl (planSpace 100 True 0) (?c, u, scr, [q]) [QUIC_PNS_HANDSHAKE, QUIC_PNS_APP] = (cb, ub, sb, pb)"
    by (metis prod_cases4)
  have "pb \<noteq> []" using planFold_adds [OF two speaking_sel(12)] by auto
  moreover have "foldl (planSpace 100 True 0) (?c, 0, 0, []) pn_spaces = (cb, ub, sb, pb)"
    using one two by (simp add: pn_spaces_def)
  ultimately show ?thesis using w by (simp add: flushPlan_def padInitial_def)
qed

lemma psa_example_works: "cipher_works psa_example"
  unfolding cipher_works_def by (simp add: psa_example_def, arith)

theorem datagram_understood_witness:
  "\<exists>to info dgram. fst (snd (flushOne env_example speaking_example 0))
    \<and> last (c_events (snd (snd (flushOne env_example speaking_example 0)))) = EvSend to info dgram
    \<and> understood psa_example speaking_example
        (map (planView speaking_example) (snd (snd (flushPlan speaking_example 100 0)))) dgram"
proof -
  have env: "ce_psa env_example = psa_example" by (simp add: env_example_def)
  have ready: "header_ready speaking_example" by (simp add: header_ready_def speaking_sel)
  have peers: "peers speaking_example speaking_example"
    by (simp add: peers_def numbers_known_def speaking_sel(9,10,11) speaking_space pn_expected_def QUIC_MAX_PACKET_NUMBER_def)
  obtain ca used plans where p: "flushPlan speaking_example 100 0 = (ca, used, plans)" by (metis prod_cases3)
  have "plans \<noteq> []" using speaking_plans p by simp
  have made: "keys_made psa_example speaking_example"
    using speaking_keys_made(1) by (simp add: keys_made_def speaking_space, simp add: speaking_example_def connZero_def keysZero_def)
  from datagram_understood [OF _ ready speaking_sel(12) peers _ _ speaking_sel(2) speaking_cap p \<open>plans \<noteq> []\<close>, of env_example]
  obtain ok c1 to info dgram where "flushOne env_example speaking_example 0 = (ok, True, c1)"
    "last (c_events c1) = EvSend to info dgram" "understood psa_example speaking_example (map (planView speaking_example) plans) dgram"
    unfolding env using psa_example_aead psa_example_works made by blast
  then show ?thesis using p by simp
qed

end
