(* ===== verification/QuicConnRun.thy ===== *)
theory QuicConnRun
  imports QuicConnFlush
begin

text \<open>
  The entry points of a connection: a datagram that arrives, the timer, the start of the handshake,
  as \<^verbatim>\<open>src/cxquic/conn.c\<close> has them, with the calls into the TLS engine and back.

  Receiving a datagram removes header protection in place, so the loop over its packets carries the
  bytes along. A result of \<open>None\<close> would mean that the window growth of loss recovery does not return;
  the theorems rule it out.
\<close>

section \<open>Calls into the TLS engine\<close>

text \<open>A call runs through the tree of the calls back into the connection.\<close>

primrec tlsRun :: "conn_env \<Rightarrow> tls_act \<Rightarrow> QuicConn \<Rightarrow> bool \<times> QuicConn" where
  "tlsRun E (TlsReturn b) = (\<lambda>c. (b, c))"
| "tlsRun E (TlsSendCrypto level data k) =
     (\<lambda>c. case tlsSendCrypto (ce_xalloc E) c level data of (ok, c1) \<Rightarrow> tlsRun E (k ok) c1)"
| "tlsRun E (TlsSecrets level suite rd wr k) =
     (\<lambda>c. case tlsSecrets (ce_psa E) c level suite rd wr of (ok, c1) \<Rightarrow> tlsRun E (k ok) c1)"
| "tlsRun E (TlsTransportParams data k) =
     (\<lambda>c. case tlsTransportParams c data of (ok, c1) \<Rightarrow> tlsRun E (k ok) c1)"
| "tlsRun E (TlsEarlyParams data k) =
     (\<lambda>c. case tlsEarlyParams c data of (ok, c1) \<Rightarrow> tlsRun E (k ok) c1)"
| "tlsRun E (TlsEarlyData accepted a) = (\<lambda>c. tlsRun E a (tlsEarlyData c accepted))"
| "tlsRun E (TlsComplete a) = (\<lambda>c. tlsRun E a (tlsComplete (ce_rnd E) c))"
| "tlsRun E (TlsAlert alert a) = (\<lambda>c. tlsRun E a (tlsAlert c alert))"

definition tlsquicRecv :: "conn_env \<Rightarrow> QuicConn \<Rightarrow> TlsQuicLevel \<Rightarrow> u8 list \<Rightarrow> bool \<times> QuicConn" where
  "tlsquicRecv E c level data =
     tlsRun E (ce_tlsRecv E (c_tlsCalls c) level data) (c\<lparr>c_tlsCalls := c_tlsCalls c + 1\<rparr>)"

definition tlsquicStart :: "conn_env \<Rightarrow> QuicConn \<Rightarrow> bool \<times> QuicConn" where
  "tlsquicStart E c =
     tlsRun E (ce_tlsStart E (c_tlsCalls c)) (c\<lparr>c_tlsCalls := c_tlsCalls c + 1\<rparr>)"

text \<open>None of the calls back touches the handshake bytes that have arrived.\<close>

lemma lostSpace_cryptoIn [simp]: "ps_cryptoIn (lostSpace pn s) = ps_cryptoIn s"
  by (simp add: lostSpace_def Let_def)

lemma mtu_pns [simp]:
  "c_pns (mtuSearch c now) = c_pns c" "c_pns (mtuProbeLost c sz now) = c_pns c" "c_pns (mtuProbeAcked c sz now) = c_pns c"
  "c_pns (lostCtl pn c) = c_pns c" "c_pns (connPktLost pn c) = c_pns c"
  by (simp_all add: mtuSearch_def mtuProbeLost_def mtuProbeAcked_def lostCtl_def connPktLost_def onConnPktLost_def Let_def)

lemma connOnLost_cryptoIn: "ps_cryptoIn (c_pns (snd (connOnLost q pn r c)) sp) = ps_cryptoIn (c_pns c sp)"
  by (simp add: connOnLost_def Let_def setSpace_def)

lemma discardEarly_cryptoIn:
  "ps_cryptoIn (c_pns (snd (quicRecovDiscardEarly conn_handlers pnEnd now (r, c))) sp) = ps_cryptoIn (c_pns c sp)"
proof -
  have "ps_cryptoIn (c_pns (snd (discardEarlyLoop conn_handlers pnEnd is (r, c))) sp) = ps_cryptoIn (c_pns c sp)" for "is"
  proof (induction "is" arbitrary: r c)
    case (Cons i "is")
    have "ps_cryptoIn (c_pns (snd (notifyLost conn_handlers QUIC_PNS_APP pn (r1, c))) sp) = ps_cryptoIn (c_pns c sp)" for pn r1
      using connOnLost_cryptoIn [of QUIC_PNS_APP pn r1 c sp]
      by (auto simp: notifyLost_def notify_def conn_handlers_def split: prod.split)
    moreover have "ps_cryptoIn (c_pns (snd (discardEarlyLoop conn_handlers pnEnd is rc)) sp)
        = ps_cryptoIn (c_pns (snd rc) sp)" for rc by (cases rc) (simp add: Cons)
    ultimately show ?case by (simp add: Let_def)
  qed simp
  then show ?thesis by (simp add: quicRecovDiscardEarly_def split: prod.split) (metis snd_conv)
qed

lemma cidReplenish_pns [simp]: "c_pns (cidReplenish rnd c) = c_pns c"
proof -
  have "c_pns (cidReplenishFrom rnd want i c) = c_pns c" for want i
  proof (induction rnd want i c rule: cidReplenishFrom.induct)
    case (1 rnd want i c)
    obtain ok l c1 where g: "cidGenerate rnd c (c_localNextSeq c) = (ok, l, c1)" by (metis surj_pair)
    then have "c_pns c1 = c_pns c" by (auto simp: cidGenerate_def draw_def split: if_splits option.splits)
    then show ?case using 1 [OF _ _ ] g by (subst cidReplenishFrom.simps) (auto split: bool.splits)
  qed
  then show ?thesis by (simp add: cidReplenish_def)
qed

lemma fireHook_pns [simp]: "c_pns (fireHook hook ev c) = c_pns c"
  by (simp add: fireHook_def)

lemma close_pns [simp]: "c_pns (quicConnClose c err app reason) = c_pns c" "c_pns (quicConnAbort c err ft) = c_pns c"
  by (simp_all add: quicConnAbort_def quicConnClose_def connNotifyClosed_def)

definition keeps_in :: "QuicPnSpaceId \<Rightarrow> QuicConn \<Rightarrow> QuicConn \<Rightarrow> bool" where
  "keeps_in sp c c1 \<longleftrightarrow> ps_cryptoIn (c_pns c1 sp) = ps_cryptoIn (c_pns c sp)"

lemma tlsSendCrypto_in: "keeps_in sp c (snd (tlsSendCrypto xa c level data))"
  by (simp add: keeps_in_def tlsSendCrypto_def Let_def setSpace_def split: prod.split)

lemma tlsSecrets_in: "keeps_in sp c (snd (tlsSecrets P c level suite rd wr))"
proof (cases "tls13Suite suite")
  case None
  then show ?thesis by (simp add: tlsSecrets_def keeps_in_def)
next
  case (Some su)
  let ?q = "spaceForLevel level"
  have k: "keeps_in sp c (setSpace q ((c_pns c q)\<lparr>ps_rx := x, ps_tx := y\<rparr>) c)"
    "keeps_in sp c (setSpace q ((c_pns c q)\<lparr>ps_rx := x\<rparr>) c)" for q x y
    by (simp_all add: keeps_in_def setSpace_def)
  have u: "keeps_in sp c (a\<lparr>c_recov := r\<rparr>) = keeps_in sp c a" "keeps_in sp c (a\<lparr>c_rxNext := n\<rparr>) = keeps_in sp c a"
    "keeps_in sp c (a\<lparr>c_earlyTx := n\<rparr>) = keeps_in sp c a" "keeps_in sp c (a\<lparr>c_earlyTx := n, c_earlyRx := m, c_earlyState := e\<rparr>) = keeps_in sp c a"
    "keeps_in sp c c" for a r n m e
    by (simp_all add: keeps_in_def)
  have twice: "setSpace q s1 (setSpace q s2 c) = setSpace q s1 c" for q s1 s2 by (simp add: setSpace_def)
  show ?thesis
  proof (cases "level = TLSQL_EarlyData")
    case True
    then show ?thesis using Some by (simp add: tlsSecrets_def Let_def u split: prod.split bool.split)
  next
    case False
    obtain b1 k1 where a: "keysSetOpt P (ps_rx (c_pns c ?q)) su rd = (b1, k1)" by (metis surj_pair)
    obtain b2 k2 where b: "keysSetOpt P (ps_tx (c_pns c ?q)) su wr = (b2, k2)" by (metis surj_pair)
    have "ps_tx ((c_pns c ?q)\<lparr>ps_rx := x\<rparr>) = ps_tx (c_pns c ?q)" for x by simp
    then show ?thesis using Some False a b
      by (cases b1; cases b2) (simp_all add: tlsSecrets_def Let_def twice k u)
  qed
qed

lemma tlsParams_in: "keeps_in sp c (snd (tlsTransportParams c data))" "keeps_in sp c (snd (tlsEarlyParams c data))"
  by (simp_all add: keeps_in_def tlsTransportParams_def tlsEarlyParams_def onConnEarlyOpen_def Let_def split: option.split)

lemma tlsEarlyData_in: "keeps_in sp c (tlsEarlyData c accepted)"
proof -
  let ?c = "c\<lparr>c_earlyTx := quicKeysDestroy (c_earlyTx c), c_earlyRx := quicKeysDestroy (c_earlyRx c),
    c_earlyState := QUIC_ES_REFUSED\<rparr>"
  obtain r c2 where d: "quicRecovDiscardEarly conn_handlers (unat (ps_next (c_pns c QUIC_PNS_APP))) (c_now c)
      (c_recov c, ?c) = (r, c2)" by (metis surj_pair)
  have "ps_cryptoIn (c_pns c2 sp) = ps_cryptoIn (c_pns c sp)"
    using discardEarly_cryptoIn [of "unat (ps_next (c_pns c QUIC_PNS_APP))" "c_now c" "c_recov c" ?c sp] d by simp
  then have "ps_cryptoIn (c_pns (earlyRefused c) sp) = ps_cryptoIn (c_pns c sp)"
    by (simp add: earlyRefused_def Let_def d)
  then show ?thesis
    by (simp add: keeps_in_def tlsEarlyData_def onConnEarlyOpen_def split: option.split)
qed

lemma tlsComplete_in: "keeps_in sp c (tlsComplete rnd c)" "keeps_in sp c (tlsAlert c a)"
  by (simp_all add: keeps_in_def tlsComplete_def tlsAlert_def earlyConfirmed_def onConnConnected_def Let_def split: option.split)

lemma tlsRun_in: "keeps_in sp c (snd (tlsRun E a c))"
proof (induction a arbitrary: c)
  case (TlsSendCrypto level data k)
  then show ?case using tlsSendCrypto_in [of sp c] by (simp add: keeps_in_def split: prod.split) (metis snd_conv)
next
  case (TlsSecrets level suite rd wr k)
  then show ?case using tlsSecrets_in [of sp c] by (simp add: keeps_in_def split: prod.split) (metis snd_conv)
next
  case (TlsTransportParams data k)
  then show ?case using tlsParams_in(1) [of sp c] by (simp add: keeps_in_def split: prod.split) (metis snd_conv)
next
  case (TlsEarlyParams data k)
  then show ?case using tlsParams_in(2) [of sp c] by (simp add: keeps_in_def split: prod.split) (metis snd_conv)
qed (use tlsEarlyData_in tlsComplete_in in \<open>simp_all add: keeps_in_def\<close>)

lemma tlsquicRecv_in: "keeps_in sp c (snd (tlsquicRecv E c level data))"
  using tlsRun_in [of sp "c\<lparr>c_tlsCalls := c_tlsCalls c + 1\<rparr>"] by (simp add: tlsquicRecv_def keeps_in_def)

text \<open>
  The loop of \<^verbatim>\<open>cryptoDrain\<close> ends because every round takes one received range out of the buffer.
\<close>

lemma quicReasmConsume_ranges:
  assumes "quicReasmReadable r \<noteq> 0"
  shows "length (ra_ranges (quicReasmConsume r (quicReasmReadable r))) < length (ra_ranges r)"
proof -
  obtain x xs where x: "ra_ranges r = x # xs" "rg_off x = ra_base r" "quicReasmReadable r = unat (rg_end x - ra_base r)"
    using assms by (auto simp: quicReasmReadable_def split: list.splits if_splits)
  then have "ra_base r + of_nat (quicReasmReadable r) = rg_end x" by simp
  with x(1) assms show ?thesis by (simp add: quicReasmConsume_def Let_def)
qed

function cryptoDrain :: "conn_env \<Rightarrow> QuicConn \<Rightarrow> QuicPnSpaceId \<Rightarrow> bool \<times> QuicConn" where
  "cryptoDrain E c sp =
     (let s = c_pns c sp; n = quicReasmReadable (ps_cryptoIn s) in
      if ps_discarded s then (True, c)
      else if n = 0 then (True, c)
      else
        case tlsquicRecv E c (levelForSpace sp) (take n (the (quicReasmData (ps_cryptoIn s)))) of
          (False, c1) \<Rightarrow>
            (False, if c_state c1 \<noteq> QUIC_CS_CLOSING then quicConnAbort c1 (QUIC_ERR_CRYPTO_BASE + 80) 0 else c1)
        | (True, c1) \<Rightarrow>
            if ps_discarded (c_pns c1 sp) then (True, c1)
            else cryptoDrain E (setSpace sp ((c_pns c1 sp)\<lparr>ps_cryptoIn :=
                   quicReasmConsume (ps_cryptoIn (c_pns c1 sp)) n\<rparr>) c1) sp)"
  by pat_completeness auto
termination
proof (relation "measure (\<lambda>(E, c, sp). length (ra_ranges (ps_cryptoIn (c_pns c sp))))", goal_cases)
  case (2 E c sp s n ok c1)
  have "snd (tlsquicRecv E c (levelForSpace sp) (take n (the (quicReasmData (ps_cryptoIn s))))) = c1"
    unfolding 2(5) [symmetric] by (rule snd_conv)
  then have "ps_cryptoIn (c_pns c1 sp) = ps_cryptoIn (c_pns c sp)"
    using tlsquicRecv_in unfolding keeps_in_def by metis
  moreover have "n = quicReasmReadable (ps_cryptoIn (c_pns c sp))" "n \<noteq> 0" using 2(1,2,4) by simp_all
  ultimately show ?case using quicReasmConsume_ranges by (simp add: setSpace_def)
qed simp

declare cryptoDrain.simps [simp del]


section \<open>A packet\<close>

text \<open>
  What an authenticated packet does before its frames are looked at: the peer's real connection ID
  and the acknowledgement state. The first result says whether the packet is new.
\<close>

definition pktSeen ::
  "QuicConn \<Rightarrow> QuicPnSpaceId \<Rightarrow> QuicPktHdr \<Rightarrow> NetEcn option \<Rightarrow> int \<Rightarrow> bool \<times> QuicConn" where
  "pktSeen c sp h ecn now =
     (let c1 = (if \<not> c_server c \<and> \<not> c_peerCidKnown c \<and> h_type h \<noteq> QUIC_PKT_SHORT
                then c\<lparr>c_remote := (c_remote c)[0 := (c_remote c ! 0)\<lparr>rc_cid := h_scid h\<rparr>],
                       c_peerCidKnown := True\<rparr> else c)
      in case quicAckStateAdd (ps_ack (c_pns c1 sp)) (h_pn h) now False of
           (False, a) \<Rightarrow> (False, setSpace sp ((c_pns c1 sp)\<lparr>ps_ack := a\<rparr>) c1)
         | (True, a) \<Rightarrow>
             let a1 = (case ecn of None \<Rightarrow> a | Some e \<Rightarrow> quicAckStateEcn a e);
                 c2 = setSpace sp ((c_pns c1 sp)\<lparr>ps_ack := a1\<rparr>) c1
             in (True, if c_server c2 \<and> sp = QUIC_PNS_HANDSHAKE
                       then c2\<lparr>c_recvHandshakePkt := True, c_addrValidated := True\<rparr> else c2))"

text \<open>What follows its frames.\<close>

definition pktDone :: "conn_env \<Rightarrow> QuicConn \<Rightarrow> QuicPnSpaceId \<Rightarrow> bool \<Rightarrow> int \<Rightarrow> QuicConn" where
  "pktDone E c sp el now =
     (let s = c_pns c sp;
          c1 = (if el
                then setSpace sp (s\<lparr>ps_ack := (ps_ack s)\<lparr>as_elicitCount := as_elicitCount (ps_ack s) + 1,
                       as_pending := True, as_deadline := now\<rparr>\<rparr>) c else c)
      in case cryptoDrain E c1 sp of
           (False, c2) \<Rightarrow> c2
         | (True, c2) \<Rightarrow> if c_state c2 = QUIC_CS_NEW then c2\<lparr>c_state := QUIC_CS_HANDSHAKE\<rparr> else c2)"

text \<open>
  The results: the return value, the connection, whether all frames so far were probing, whether the
  datagram holds the newest packet, and the packet with its header unprotected.
\<close>

definition processPacket ::
  "conn_env \<Rightarrow> QuicConn \<Rightarrow> QuicPktHdr \<Rightarrow> u8 list \<Rightarrow> NetEcn option \<Rightarrow> bool \<Rightarrow> bool \<Rightarrow> int
     \<Rightarrow> (bool \<times> QuicConn \<times> bool \<times> bool \<times> u8 list) option" where
  "processPacket E c h pkt ecn probing newest now =
     (case spaceForPktType (h_type h) of
        None \<Rightarrow> Some (False, c, probing, newest, pkt)
      | Some sp \<Rightarrow>
          let s = c_pns c sp; rx = (if h_type h = QUIC_PKT_0RTT then c_earlyRx c else ps_rx s) in
          if ps_discarded s \<or> \<not> k_valid rx then Some (False, c, probing, newest, pkt)
          else
            case (if h_type h = QUIC_PKT_SHORT then openApp (ce_psa E) c h pkt QUIC_MAX_DATAGRAM now
                  else case quicPktOpen (ce_psa E) rx h pkt (as_largest (ps_ack s)) QUIC_MAX_DATAGRAM of
                         (out, h1, pkt1) \<Rightarrow> (out, c, h1, pkt1)) of
              (None, c1, h1, pkt1) \<Rightarrow> Some (False, c1, probing, newest, pkt1)
            | (Some payload, c1, h1, pkt1) \<Rightarrow>
                let largest = as_largest (ps_ack (c_pns c1 sp));
                    newest1 = (newest \<or> largest = QUIC_PN_NONE \<or> h_pn h1 > largest)
                in case pktSeen c1 sp h1 ecn now of
                     (False, c2) \<Rightarrow> Some (True, c2, probing, newest1, pkt1)
                   | (True, c2) \<Rightarrow>
                       case processFrames (ce_xalloc E) (ce_rnd E) c2 sp payload h1 probing now of
                         None \<Rightarrow> None
                       | Some (False, c3, el, pr) \<Rightarrow> Some (True, c3, pr, newest1, pkt1)
                       | Some (True, c3, el, pr) \<Rightarrow> Some (True, pktDone E c3 sp el now, pr, newest1, pkt1))"


section \<open>A datagram\<close>

text \<open>How the loop over the packets ends: with a return value, with a flush, or having seen them all.\<close>

datatype recv_end =
    RecvReturn bool QuicConn
  | RecvFlush QuicConn
  | RecvDone QuicConn "u8 list" bool bool bool

function recvLoop ::
  "conn_env \<Rightarrow> NetEcn option \<Rightarrow> int \<Rightarrow> nat \<Rightarrow> QuicConn \<Rightarrow> u8 list \<Rightarrow> nat \<Rightarrow> bool \<Rightarrow> bool \<Rightarrow> bool \<Rightarrow> recv_end option"
where
  "recvLoop E ecn now len c data off probing newest processed =
     (if \<not> off < len then Some (RecvDone c data probing newest processed)
      else
        case quicHdrDecode (drop off data) (c_localCidLen c) of
          None \<Rightarrow> Some (RecvDone c data probing newest processed)
        | Some h \<Rightarrow>
            if h_pktLen h = 0 \<or> h_pktLen h > len - off then Some (RecvDone c data probing newest processed)
            else if c_server c \<and> h_type h = QUIC_PKT_INITIAL \<and> len < QUIC_INITIAL_MTU
            then Some (RecvDone c data probing newest processed)
            else if h_type h = QUIC_PKT_VERSIONNEG
            then (let c1 = handleVersionNeg c h in Some (RecvReturn (c_state c1 \<noteq> QUIC_CS_CLOSED) c1))
            else if h_type h = QUIC_PKT_RETRY
            then Some (RecvFlush (handleRetry (ce_psa E) (ce_xalloc E) c h (take (h_pktLen h) (drop off data))))
            else if h_type h = QUIC_PKT_UNKNOWN then Some (RecvDone c data probing newest processed)
            else
              case processPacket E c h (drop off data) ecn probing newest now of
                None \<Rightarrow> None
              | Some (ok, c1, pr, nw, pkt1) \<Rightarrow>
                  if c_state c1 = QUIC_CS_CLOSED then Some (RecvReturn False c1)
                  else recvLoop E ecn now len c1 (take off data @ pkt1) (off + h_pktLen h) pr nw (processed \<or> ok))"
  by pat_completeness auto
termination
  by (relation "measure (\<lambda>(E, ecn, now, len, c, data, off, rest). len - off)") auto

declare recvLoop.simps [simp del]

definition quicConnRecv ::
  "conn_env \<Rightarrow> QuicConn \<Rightarrow> NetAddr \<Rightarrow> NetPktInfo option \<Rightarrow> u8 list \<Rightarrow> int \<Rightarrow> (bool \<times> QuicConn) option" where
  "quicConnRecv E c peer info data now =
     (if c_state c = QUIC_CS_CLOSED then Some (False, c)
      else
        let c1 = c\<lparr>c_now := now, c_bytesRecv := c_bytesRecv c + of_nat (length data)\<rparr>;
            ecn = (case info of None \<Rightarrow> None | Some i \<Rightarrow> if pi_haveEcn i then Some (pi_ecn i) else None);
            loc = (case info of None \<Rightarrow> None | Some i \<Rightarrow> if pi_haveLocal i then Some (pi_local i) else None);
            elsewhere = (\<not> addrEq peer (c_peer c1))
        in case recvLoop E ecn now (length data) c1 data 0 True False False of
             None \<Rightarrow> None
           | Some (RecvReturn ok c2) \<Rightarrow> Some (ok, c2)
           | Some (RecvFlush c2) \<Rightarrow> Some (quicConnFlush E c2 now)
           | Some (RecvDone c2 data1 probing newest processed) \<Rightarrow>
               if \<not> processed then
                 (case checkStatelessReset c2 data1 of
                    (True, c3) \<Rightarrow> Some (False, c3)
                  | (False, c3) \<Rightarrow> Some (c_state c3 \<noteq> QUIC_CS_CLOSED, c3))
               else
                 let c3 = c2\<lparr>c_idleDeadline := add64 now (idleTimeoutOf c2)\<rparr>;
                     c4 = (if elsewhere then connPeerMoved (ce_rnd E) c3 peer loc probing newest now
                           else case loc of
                                  None \<Rightarrow> c3
                                | Some a \<Rightarrow> if \<not> c_haveLocal c3 then c3\<lparr>c_localAddr := a, c_haveLocal := True\<rparr> else c3);
                     c5 = c4\<lparr>c_pathRecv := c_pathRecv c4 + of_nat (length data)\<rparr>;
                     c6 = (if c_state c5 = QUIC_CS_CLOSING then c5\<lparr>c_closePending := True\<rparr> else c5)
                 in if c_state c6 = QUIC_CS_DRAINING then Some (True, c6) else Some (quicConnFlush E c6 now))"


section \<open>The timer and the start\<close>

definition quicConnTick :: "conn_env \<Rightarrow> QuicConn \<Rightarrow> int \<Rightarrow> QuicConn" where
  "quicConnTick E c now =
     (if c_state c = QUIC_CS_CLOSED then c
      else if c_state c = QUIC_CS_CLOSING \<or> c_state c = QUIC_CS_DRAINING then
        if c_closePending c then snd (quicConnFlush E c now)
        else if c_closeDeadline c \<noteq> 0 \<and> now \<ge> c_closeDeadline c then c\<lparr>c_state := QUIC_CS_CLOSED\<rparr>
        else c
      else if now \<ge> c_idleDeadline c then connSilentClose c QUIC_ERR_NO_ERROR (str_bytes ''idle timeout'')
      else
        let c1 = c\<lparr>c_now := now\<rparr> in
        case quicRecovOnTimeout conn_handlers now (c_recov c1, c1) of
          (r, c2) \<Rightarrow>
            let c3 = c2\<lparr>c_recov := r\<rparr>;
                failed = (c_pathDeadline c3 \<noteq> 0 \<and> now \<ge> c_pathDeadline c3 \<and> \<not> c_pathValidated c3);
                c4 = (if failed then pathValidationFailed c3 now else c3)
            in if failed \<and> (c_state c4 = QUIC_CS_CLOSED \<or> c_state c4 = QUIC_CS_CLOSING)
               then snd (quicConnFlush E c4 now)
               else
                 let c5 = (if c_mtuState c4 = QUIC_MTU_DONE \<and> c_mtuRaiseAt c4 \<noteq> 0 \<and> now \<ge> c_mtuRaiseAt c4
                           then mtuSearch (c4\<lparr>c_mtuRaiseAt := 0, c_mtuHigh := mtuCeiling c4 + 1\<rparr>) now else c4)
                 in snd (quicConnFlush E c5 now))"

definition quicConnStart :: "conn_env \<Rightarrow> QuicConn \<Rightarrow> int \<Rightarrow> bool \<times> QuicConn" where
  "quicConnStart E c now =
     (if c_server c \<or> c_state c \<noteq> QUIC_CS_NEW then (False, c)
      else
        let c1 = c\<lparr>c_state := QUIC_CS_HANDSHAKE, c_now := now\<rparr>;
            c2 = c1\<lparr>c_idleDeadline := add64 now (idleTimeoutOf c1)\<rparr>
        in case tlsquicStart E c2 of
             (False, c3) \<Rightarrow> (False, c3)
           | (True, c3) \<Rightarrow> quicConnFlush E c3 now)"

definition quicConnSetHandlers :: "(ConnHook \<Rightarrow> bool) \<Rightarrow> QuicConn \<Rightarrow> QuicConn" where
  "quicConnSetHandlers hooks c = c\<lparr>c_hooks := hooks\<rparr>"

text \<open>What the memory of a connection holds when it is given back.\<close>

definition quicConnDestroy :: "QuicConn \<Rightarrow> QuicConn" where
  "quicConnDestroy c =
     c\<lparr>c_pns := (\<lambda>sp. spaceDestroy (c_pns c sp)),
       c_earlyTx := quicKeysDestroy (c_earlyTx c), c_earlyRx := quicKeysDestroy (c_earlyRx c),
       c_rxNext := quicKeysDestroy (c_rxNext c), c_rxPrev := quicKeysDestroy (c_rxPrev c),
       c_recov := quicRecovDestroy (c_recov c), c_token := bufDestroy (c_token c), c_closeReason := []\<rparr>"


section \<open>What others may ask\<close>

definition quicConnGetState :: "QuicConn \<Rightarrow> QuicConnState" where
  "quicConnGetState c = c_state c"

definition quicConnHandshakeConfirmed :: "QuicConn \<Rightarrow> bool" where
  "quicConnHandshakeConfirmed c \<longleftrightarrow> c_handshakeConfirmed c"

definition quicConnIsClosed :: "QuicConn \<Rightarrow> bool" where
  "quicConnIsClosed c \<longleftrightarrow> c_state c = QUIC_CS_CLOSED"

definition quicConnPeerParams :: "QuicConn \<Rightarrow> QuicTransportParams" where
  "quicConnPeerParams c = c_peerTp c"

definition quicConnLocalCid :: "QuicConn \<Rightarrow> u8 list" where
  "quicConnLocalCid c = lc_cid (c_local c ! 0)"

definition quicConnValidated :: "QuicConn \<Rightarrow> bool" where
  "quicConnValidated c \<longleftrightarrow> c_addrValidated c"

definition quicConnRecovery :: "QuicConn \<Rightarrow> QuicRecovery" where
  "quicConnRecovery c = c_recov c"

definition quicConnKeyUpdates :: "QuicConn \<Rightarrow> u32" where
  "quicConnKeyUpdates c = c_keyUpdates c"

definition quicConnPathValid :: "QuicConn \<Rightarrow> bool" where
  "quicConnPathValid c \<longleftrightarrow> c_pathValidated c"

definition quicConnPeerAddr :: "QuicConn \<Rightarrow> NetAddr" where
  "quicConnPeerAddr c = c_peer c"

definition quicConnRemoteCid :: "QuicConn \<Rightarrow> u8 list" where
  "quicConnRemoteCid c = rc_cid (c_remote c ! c_remoteActive c)"

definition quicConnLocalAddr :: "QuicConn \<Rightarrow> NetAddr option" where
  "quicConnLocalAddr c = (if \<not> c_haveLocal c then None else Some (c_localAddr c))"

definition quicConnMigrations :: "QuicConn \<Rightarrow> u32" where
  "quicConnMigrations c = c_nmigrations c"

definition quicConnPathMtu :: "QuicConn \<Rightarrow> nat" where
  "quicConnPathMtu c = c_mtu c"

definition quicConnPathMtuDone :: "QuicConn \<Rightarrow> bool" where
  "quicConnPathMtuDone c \<longleftrightarrow> c_mtuState c = QUIC_MTU_DONE"

definition quicConnEcnCounts :: "QuicConn \<Rightarrow> QuicPnSpaceId \<Rightarrow> u64 \<times> u64 \<times> u64" where
  "quicConnEcnCounts c sp = (let a = ps_ack (c_pns c sp) in (as_ect0 a, as_ect1 a, as_ce a))"

definition quicConnEarlyState :: "QuicConn \<Rightarrow> QuicEarlyState" where
  "quicConnEarlyState c = c_earlyState c"

definition quicConnEcnActive :: "QuicConn \<Rightarrow> bool" where
  "quicConnEcnActive c \<longleftrightarrow> c_ecnState c \<noteq> QUIC_ECN_OFF"

end
