(* ===== verification/QuicConnProps.thy ===== *)
theory QuicConnProps
  imports QuicConnRun
begin

text \<open>
  What holds of a connection over its whole life: every entry point of \<^verbatim>\<open>src/cxquic/conn.c\<close> returns and
  keeps the accounts of loss recovery exact, for every TLS engine and whatever arrives.
\<close>

section \<open>The TLS engine's calls back\<close>

lemma conn_ok_keep: "conn_ok c \<Longrightarrow> c_recov c1 = c_recov c \<Longrightarrow> c_mtuProbing c1 = c_mtuProbing c \<Longrightarrow> conn_ok c1"
  using conn_ok_cong by blast

lemma tlsSendCrypto_ok: "conn_ok c \<Longrightarrow> conn_ok (snd (tlsSendCrypto xa c level data))"
  by (erule conn_ok_keep) (simp_all add: tlsSendCrypto_def Let_def setSpace_def split: prod.split)

lemma conn_ok_quiet: "conn_ok c \<Longrightarrow> recov_quiet (c_recov c) r \<Longrightarrow> conn_ok (c\<lparr>c_recov := r\<rparr>)"
  using recov_inv_quiet by (simp add: conn_ok_def mtu_bounded_def)

lemma conn_ok_fields [simp]:
  "conn_ok (c\<lparr>c_rxNext := k\<rparr>) = conn_ok c" "conn_ok (c\<lparr>c_earlyTx := k\<rparr>) = conn_ok c"
  "conn_ok (c\<lparr>c_earlyTx := k, c_earlyRx := k1, c_earlyState := e\<rparr>) = conn_ok c"
  "conn_ok (c\<lparr>c_peerTp := tp\<rparr>) = conn_ok c" "conn_ok (c\<lparr>c_mtu := m\<rparr>) = conn_ok c"
  "conn_ok (c\<lparr>c_peerTpValid := b\<rparr>) = conn_ok c" "conn_ok (c\<lparr>c_tlsCalls := n\<rparr>) = conn_ok c"
  "conn_ok (c\<lparr>c_state := st\<rparr>) = conn_ok c" "conn_ok (c\<lparr>c_sentHandshakePkt := b\<rparr>) = conn_ok c"
  "conn_ok (c\<lparr>c_pathResponse := ctl\<rparr>) = conn_ok c" "conn_ok (c\<lparr>c_discardHandshakeSoon := b\<rparr>) = conn_ok c"
  "conn_ok (c\<lparr>c_now := t\<rparr>) = conn_ok c" "conn_ok (c\<lparr>c_idleDeadline := t\<rparr>) = conn_ok c"
  "conn_ok (c\<lparr>c_now := t, c_bytesRecv := x\<rparr>) = conn_ok c" "conn_ok (c\<lparr>c_pathRecv := x\<rparr>) = conn_ok c"
  "conn_ok (c\<lparr>c_closePending := b\<rparr>) = conn_ok c" "conn_ok (c\<lparr>c_localAddr := a, c_haveLocal := b\<rparr>) = conn_ok c"
  "conn_ok (c\<lparr>c_hooks := hk\<rparr>) = conn_ok c" "conn_ok (c\<lparr>c_mtuTries := n\<rparr>) = conn_ok c"
  "conn_ok (c\<lparr>c_streams := ss, c_streamsUp := b, c_engConnected := b1\<rparr>) = conn_ok c"
  "conn_ok (c\<lparr>c_respondTo := a, c_respondElsewhere := b\<rparr>) = conn_ok c" "conn_ok (c\<lparr>c_pathDeadline := t\<rparr>) = conn_ok c"
  "conn_ok (c\<lparr>c_state := st, c_now := t\<rparr>) = conn_ok c" "conn_ok (c\<lparr>c_dgramOut := d\<rparr>) = conn_ok c"
  "conn_ok (c\<lparr>c_mtuLow := n, c_mtuHigh := m\<rparr>) = conn_ok c" "conn_ok (c\<lparr>c_mtuRaiseAt := t, c_mtuHigh := m\<rparr>) = conn_ok c"
  "conn_ok (c\<lparr>c_recvHandshakePkt := b, c_addrValidated := b1\<rparr>) = conn_ok c"
  "conn_ok (c\<lparr>c_remote := rs, c_peerCidKnown := b\<rparr>) = conn_ok c" "conn_ok (c\<lparr>c_rxPhaseFirst := x\<rparr>) = conn_ok c"
  by (rule conn_ok_cong; simp)+

lemma tlsSecrets_ok:
  assumes "conn_ok c"
  shows "conn_ok (snd (tlsSecrets P c level suite rd wr))"
proof (cases "tls13Suite suite")
  case None
  then show ?thesis using assms by (simp add: tlsSecrets_def)
next
  case (Some su)
  show ?thesis
  proof (cases "level = TLSQL_EarlyData")
    case True
    then show ?thesis using assms Some by (simp add: tlsSecrets_def Let_def split: prod.split bool.split)
  next
    case False
    let ?q = "spaceForLevel level"
    have k: "conn_ok ((setSpace q s c)\<lparr>c_recov := quicRecovSpaceReady q1 (c_recov c)\<rparr>)" for q s q1
      by (rule conn_ok_quiet) (simp_all add: assms recov_quiet.intros(7))
    have twice: "setSpace q s1 (setSpace q s2 c) = setSpace q s1 c" for q s1 s2 by (simp add: setSpace_def)
    obtain b1 k1 where a: "keysSetOpt P (ps_rx (c_pns c ?q)) su rd = (b1, k1)" by (metis surj_pair)
    obtain b2 k2 where b: "keysSetOpt P (ps_tx (c_pns c ?q)) su wr = (b2, k2)" by (metis surj_pair)
    show ?thesis using Some False a b assms
      by (cases b1; cases b2) (simp_all add: tlsSecrets_def Let_def twice k)
  qed
qed

lemma tlsTransportParams_ok: "conn_ok c \<Longrightarrow> conn_ok (snd (tlsTransportParams c data))"
  by (simp add: tlsTransportParams_def Let_def conn_ok_quiet recov_quiet.intros(5) split: option.split)

lemma onConnEarlyOpen_ok: "conn_ok c \<Longrightarrow> conn_ok (snd (onConnEarlyOpen tp c))"
  by (erule conn_ok_keep) (simp_all add: onConnEarlyOpen_def split: option.split)

lemma tlsEarlyParams_ok:
  assumes "conn_ok c"
  shows "conn_ok (snd (tlsEarlyParams c data))"
proof -
  have "conn_ok (c\<lparr>c_earlyTp := tp, c_haveEarlyTp := True\<rparr>)" for tp by (rule conn_ok_keep [OF assms]) simp_all
  then show ?thesis using assms onConnEarlyOpen_ok by (simp add: tlsEarlyParams_def Let_def split: option.split)
qed

lemma earlyRefused_ok:
  assumes "conn_ok c"
  shows "conn_ok (earlyRefused c)"
proof -
  let ?c = "c\<lparr>c_earlyTx := quicKeysDestroy (c_earlyTx c), c_earlyRx := quicKeysDestroy (c_earlyRx c),
    c_earlyState := QUIC_ES_REFUSED\<rparr>"
  obtain r c2 where d: "quicRecovDiscardEarly conn_handlers (unat (ps_next (c_pns c QUIC_PNS_APP))) (c_now c)
      (c_recov c, ?c) = (r, c2)" by (metis surj_pair)
  have "mtu_bounded ?c" "recov_inv (c_recov c)" using assms by (simp_all add: conn_ok_def mtu_bounded_def)
  from conn.recov_inv_DiscardEarly [OF this d] have "conn_ok (c2\<lparr>c_recov := r\<rparr>)" by (simp add: conn_ok_def)
  moreover have "conn_ok (c\<lparr>c_earlyTx := k, c_earlyRx := k1\<rparr>)" for k k1 by (rule conn_ok_keep [OF assms]) simp_all
  ultimately show ?thesis by (simp add: earlyRefused_def Let_def d)
qed

lemma tlsEarlyData_ok: "conn_ok c \<Longrightarrow> conn_ok (tlsEarlyData c accepted)"
  by (simp add: tlsEarlyData_def earlyRefused_ok onConnEarlyOpen_ok)

lemma onConnConnected_ok: "conn_ok c \<Longrightarrow> conn_ok (onConnConnected c)"
  by (erule conn_ok_keep) (simp_all add: onConnConnected_def Let_def split: option.split)

lemma tlsComplete_ok:
  assumes "conn_ok c"
  shows "conn_ok (tlsComplete rnd c)"
proof -
  let ?c1 = "c\<lparr>c_handshakeComplete := True, c_state := (if c_state c = QUIC_CS_HANDSHAKE \<or> c_state c = QUIC_CS_NEW
    then QUIC_CS_CONNECTED else c_state c)\<rparr>"
  define c2 where "c2 = earlyConfirmed ?c1"
  have c2: "conn_ok c2" by (rule conn_ok_keep [OF assms]) (simp_all add: c2_def earlyConfirmed_def)
  define c3 where "c3 = (if c_server c2
                then c2\<lparr>c_handshakeConfirmed := True, c_addrValidated := True,
                        c_earlyRx := quicKeysDestroy (c_earlyRx c2), c_pathValidated := True,
                        c_handshakeDone := quicCtlQueue (c_handshakeDone c2),
                        c_recov := quicRecovConfirmHandshake (c_now c2) (c_recov c2),
                        c_discardHandshakeSoon := True\<rparr> else c2)"
  have "recov_inv (quicRecovConfirmHandshake (c_now c2) (c_recov c2))"
    using c2 recov_inv_quiet recov_quiet.intros(8) by (metis conn_ok_def)
  then have "conn_ok c3" using c2 by (simp add: c3_def conn_ok_def mtu_bounded_def)
  moreover have "tlsComplete rnd c = (if c_hooks (cidReplenish rnd c3) HookConnected
      then onConnConnected (cidReplenish rnd c3) else cidReplenish rnd c3)"
    unfolding tlsComplete_def Let_def c3_def c2_def ..
  ultimately show ?thesis using onConnConnected_ok by simp
qed

lemma tlsAlert_ok: "conn_ok c \<Longrightarrow> conn_ok (tlsAlert c a)"
  by (erule conn_ok_keep) (simp_all add: tlsAlert_def quicConnClose_def connNotifyClosed_def fireHook_def)

lemma tlsRun_ok: "conn_ok c \<Longrightarrow> conn_ok (snd (tlsRun E a c))"
proof (induction a arbitrary: c)
  case (TlsSendCrypto level data k)
  then show ?case using tlsSendCrypto_ok by (simp split: prod.split) (metis snd_conv rangeI)
next
  case (TlsSecrets level suite rd wr k)
  then show ?case using tlsSecrets_ok by (simp split: prod.split) (metis snd_conv rangeI)
next
  case (TlsTransportParams data k)
  then show ?case using tlsTransportParams_ok by (simp split: prod.split) (metis snd_conv rangeI)
next
  case (TlsEarlyParams data k)
  then show ?case using tlsEarlyParams_ok by (simp split: prod.split) (metis snd_conv rangeI)
qed (simp_all add: tlsEarlyData_ok tlsComplete_ok tlsAlert_ok)

lemma tlsquic_ok:
  "conn_ok c \<Longrightarrow> conn_ok (snd (tlsquicRecv E c level data))" "conn_ok c \<Longrightarrow> conn_ok (snd (tlsquicStart E c))"
  by (simp_all add: tlsquicRecv_def tlsquicStart_def tlsRun_ok)

lemma cryptoDrain_ok: "conn_ok c \<Longrightarrow> conn_ok (snd (cryptoDrain E c sp))"
proof (induction E c sp rule: cryptoDrain.induct)
  case (1 E c sp)
  let ?n = "quicReasmReadable (ps_cryptoIn (c_pns c sp))"
  obtain ok c1 where t: "tlsquicRecv E c (levelForSpace sp) (take ?n (the (quicReasmData (ps_cryptoIn (c_pns c sp))))) = (ok, c1)"
    by (metis surj_pair)
  have c1: "conn_ok c1" using tlsquic_ok(1) [OF 1(2)] t by (metis snd_conv)
  show ?case
  proof (cases "ps_discarded (c_pns c sp) \<or> ?n = 0")
    case True
    then show ?thesis using 1(2) by (subst cryptoDrain.simps) (auto simp: Let_def)
  next
    case False
    then show ?thesis
      using 1 c1 t by (subst cryptoDrain.simps) (cases ok; simp add: Let_def)
  qed
qed

section \<open>Sending\<close>

lemma conn_ok_built: "built c c1 \<Longrightarrow> conn_ok c \<Longrightarrow> conn_ok c1"
  using built_sent by (simp add: sent_within_def)

lemma flushPlan_built:
  assumes "flushPlan c cap0 now = (c1, used, ps)"
  shows "built c c1"
proof -
  have step: "built a b \<Longrightarrow> planSpace cap bl now (b, u, sc, pl) sp = (b1, u1, sc1, pl1) \<Longrightarrow> built a b1"
    for a b cap bl u sc pl sp b1 u1 sc1 pl1
    using buildPayload_keeps built_trans
    by (auto simp: planSpace_def Let_def split: if_splits prod.splits)
  have fold: "built a b \<Longrightarrow> foldl (planSpace cap bl now) (b, u, sc, pl) sps = (b1, u1, sc1, pl1) \<Longrightarrow> built a b1"
    for a b cap bl u sc pl sps b1 u1 sc1 pl1
  proof (induction sps arbitrary: b u sc pl)
    case (Cons sp sps)
    then show ?case using step by (metis foldl_Cons prod_cases4)
  qed simp
  show ?thesis using assms fold [OF built_refl] by (auto simp: flushPlan_def split: prod.splits)
qed

lemma flushOne_ok:
  assumes aead: "aead_ok (ce_psa E)" and ok: "conn_ok c"
  shows "conn_ok (snd (snd (flushOne E c now)))"
proof (cases "c_hooks c HookSend \<and> flushCap c \<noteq> None")
  case False
  then show ?thesis using ok by (cases "c_hooks c HookSend") (simp_all add: flushOne_def)
next
  case True
  then obtain cap0 where cap0: "flushCap c = Some cap0" by auto
  obtain ca used ps where p: "flushPlan c cap0 now = (ca, used, ps)" by (metis prod_cases3)
  obtain okb cb dgram el where sl: "sealPlans (ce_psa E) (ce_xalloc E) now ps ca [] False = (okb, cb, dgram, el)"
    by (metis prod_cases4)
  obtain okc cc where fs: "flushSent E now ps cb dgram el = (okc, cc)" by (metis surj_pair)
  have ca: "conn_ok ca" by (rule conn_ok_built [OF flushPlan_built [OF p] ok])
  have cb: "conn_ok cb" by (rule sealPlans_ok [OF aead sl ca])
  have "c_hooks cb HookSend"
    using True flushPlan_built [OF p] sealPlans_sending [OF sl] by (simp add: built_def sendingD)
  note cc = flushSent_facts(8) [OF fs this cb]
  show ?thesis using True cap0 p sl fs ca cb cc by (cases okb) (simp_all add: flushOne_def)
qed

lemma flushLoop_ok:
  assumes "aead_ok (ce_psa E)"
  shows "conn_ok c \<Longrightarrow> conn_ok (snd (flushLoop E now n c))"
proof (induction n arbitrary: c)
  case (Suc n)
  obtain ok went c1 where f: "flushOne E c now = (ok, went, c1)" by (metis prod_cases3)
  have "conn_ok c1" using flushOne_ok [OF assms Suc.prems] f by (metis snd_conv)
  then show ?case using Suc.IH f by (cases ok) simp_all
qed simp

text \<open>A successful \<^verbatim>\<open>sendSolo\<close>, step by step; a failed one leaves the connection as it was or sends all the same.\<close>

lemma sendSolo_ok:
  assumes aead: "aead_ok (ce_psa E)" and ok: "conn_ok c"
  shows "conn_ok (snd (snd (sendSolo E c dest f padTo now)))"
proof -
  have "conn_ok c \<and> outLen < 2 ^ 32 \<Longrightarrow> recov_inv (quicRecovOnSent xa sp pn outLen True True now (c_recov c))" for xa sp pn outLen
    using recov_inv_OnSent by (simp add: conn_ok_def)
  then have r: "recov_inv (quicRecovOnSent xa sp pn n True True now (c_recov c))"
    "recov_inv (quicRecovMark sp1 pn1 m (quicRecovOnSent xa sp pn n True True now (c_recov c)))"
    if "n < 2 ^ 32" for xa sp sp1 pn pn1 n m
    using that ok by (simp_all add: recov_inv_quiet [OF recov_quiet.intros(1)])
  have len: "n < 2 ^ 32" if "quicHdrEncode (quicWrInit (replicate QUIC_MAX_DATAGRAM 0)) h = (True, wr)"
    "quicPktSeal (ce_psa E) k (wr_buf wr) off pnLen pn payload = Some (n, buf)" for h wr k off pnLen pn payload n buf
    using quicPktSeal_length(3) [OF aead that(2)] quicHdrEncode_buf [OF that(1)] by (simp add: quicWrInit_def)
  show ?thesis
    using ok r len
    by (auto simp: sendSolo_def Let_def conn_ok_def mtu_bounded_def setSpace_def fireHook_def
        split: prod.split bool.split option.split)
qed

lemma mtuSearch_ok: "conn_ok c \<Longrightarrow> conn_ok (mtuSearch c now)"
  using mtuSearch_bounded by (simp add: conn_ok_def) (simp add: mtuSearch_def Let_def)

lemma mtu_ok:
  "conn_ok c \<Longrightarrow> conn_ok (mtuStart c now)" "conn_ok c \<Longrightarrow> conn_ok (mtuProbeLost c sz now)"
proof -
  show "conn_ok c \<Longrightarrow> conn_ok (mtuStart c now)" by (simp add: mtuStart_def mtuSearch_ok)
  have "conn_ok c \<Longrightarrow> conn_ok (c\<lparr>c_mtuTries := n, c_mtuHigh := h, c_mtuProbing := 0\<rparr>)"
    "conn_ok c \<Longrightarrow> conn_ok (c\<lparr>c_mtuTries := n, c_mtuProbing := 0\<rparr>)" for n h
    by (simp_all add: conn_ok_def mtu_bounded_def)
  then show "conn_ok c \<Longrightarrow> conn_ok (mtuProbeLost c sz now)"
    by (simp add: mtuProbeLost_def Let_def mtuSearch_ok)
qed

lemma pathRespondElsewhere_ok:
  assumes "aead_ok (ce_psa E)" "conn_ok c"
  shows "conn_ok (pathRespondElsewhere E c now)"
  using sendSolo_ok [OF assms] assms(2)
  by (simp add: pathRespondElsewhere_def split: prod.split bool.split) (metis snd_conv)

lemma mtuProbeSend_ok:
  assumes "aead_ok (ce_psa E)" "conn_ok c"
  shows "conn_ok (mtuProbeSend E c now)"
proof -
  obtain ok pn c1 where s: "sendSolo E c (c_peer c) FPing (c_mtuProbing c) now = (ok, pn, c1)" by (metis prod_cases3)
  have c1: "conn_ok c1" using sendSolo_ok [OF assms, of "c_peer c" FPing "c_mtuProbing c" now] s by simp
  have "recov_inv (quicRecovMark QUIC_PNS_APP (unat pn) QUIC_SENT_PMTU_PROBE (c_recov c1))"
    using c1 recov_inv_quiet [OF recov_quiet.intros(1)] by (simp add: conn_ok_def)
  then have "conn_ok (c1\<lparr>c_mtuProbePn := pn,
      c_recov := quicRecovMark QUIC_PNS_APP (unat pn) QUIC_SENT_PMTU_PROBE (c_recov c1)\<rparr>)"
    using c1 by (simp add: conn_ok_def mtu_bounded_def)
  then show ?thesis using assms(2) s c1 mtu_ok(2) by (cases ok) (simp_all add: mtuProbeSend_def)
qed

lemma flushAfter_ok:
  assumes "aead_ok (ce_psa E)" "conn_ok c"
  shows "conn_ok (flushAfter E c now)"
proof -
  define c1 where "c1 = (if \<not> ps_discarded (c_pns c QUIC_PNS_INITIAL)
      \<and> (\<not> c_server c \<and> c_sentHandshakePkt c \<or> c_server c \<and> c_recvHandshakePkt c)
      then spaceDiscard c QUIC_PNS_INITIAL now else c)"
  define c2 where "c2 = (if c_discardHandshakeSoon c1
      then spaceDiscard (c1\<lparr>c_discardHandshakeSoon := False\<rparr>) QUIC_PNS_HANDSHAKE now else c1)"
  define c4 where "c4 = mtuProbeSend E (mtuStart (pathRespondElsewhere E c2 now) now) now"
  have "conn_ok c1" using assms(2) spaceDiscard_ok by (simp add: c1_def)
  then have "conn_ok c2" using spaceDiscard_ok by (simp add: c2_def)
  then have "conn_ok c4" unfolding c4_def by (intro mtuProbeSend_ok mtu_ok(1) pathRespondElsewhere_ok assms(1))
  then have "conn_ok (c4\<lparr>c_recov := quicRecovSetAppLimited b (c_recov c4)\<rparr>)" for b
    by (rule conn_ok_quiet) (rule recov_quiet.intros)
  moreover have "flushAfter E c now = c4\<lparr>c_recov := quicRecovSetAppLimited (\<not> connWantsToSend c4) (c_recov c4)\<rparr>"
    unfolding flushAfter_def Let_def c4_def c2_def c1_def ..
  ultimately show ?thesis by simp
qed

lemma quicConnFlush_ok:
  assumes "aead_ok (ce_psa E)" "conn_ok c"
  shows "conn_ok (snd (quicConnFlush E c now))"
proof -
  let ?c = "c\<lparr>c_now := now, c_recov := quicRecovPacerRefill now (c_recov c)\<rparr>"
  have "recov_inv (quicRecovPacerRefill now (c_recov c))"
    using assms(2) recov_inv_quiet [OF recov_quiet.intros(9)] by (simp add: conn_ok_def)
  then have "conn_ok ?c" using assms(2) by (simp add: conn_ok_def mtu_bounded_def)
  then have "conn_ok (snd (flushLoop E now QUIC_FLUSH_MAX_DATAGRAMS ?c))" by (rule flushLoop_ok [OF assms(1)])
  then show ?thesis
    using assms flushAfter_ok by (simp add: quicConnFlush_def Let_def split: prod.split bool.split) (metis snd_conv)
qed

section \<open>Receiving\<close>

lemma keyUpdate_ok [simp]: "conn_ok (keyUpdate P c pn now) = conn_ok c"
  by (rule conn_ok_cong) (simp_all add: keyUpdate_def Let_def setSpace_def split: prod.split bool.split)

lemma openApp_ok:
  assumes "openApp P c h pkt outsz now = (out, c1, h1, pkt1)" "conn_ok c"
  shows "conn_ok c1"
  using assms by (auto simp: openApp_def Let_def split: prod.splits option.splits if_splits)

lemma pktSeen_ok: "conn_ok c \<Longrightarrow> conn_ok (snd (pktSeen c sp h ecn now))"
  by (simp add: pktSeen_def Let_def split: prod.split bool.split)

lemma pktDone_ok:
  assumes "conn_ok c"
  shows "conn_ok (pktDone E c sp el now)"
proof -
  let ?s = "c_pns c sp"
  define c1 where "c1 = (if el then setSpace sp (?s\<lparr>ps_ack := (ps_ack ?s)\<lparr>as_elicitCount := as_elicitCount (ps_ack ?s) + 1,
      as_pending := True, as_deadline := now\<rparr>\<rparr>) c else c)"
  obtain ok c2 where d: "cryptoDrain E c1 sp = (ok, c2)" by (metis surj_pair)
  have "conn_ok c1" using assms by (simp add: c1_def)
  then have "conn_ok c2" using cryptoDrain_ok [of c1 E sp] d by simp
  moreover have "pktDone E c sp el now = (case cryptoDrain E c1 sp of (False, c2) \<Rightarrow> c2
      | (True, c2) \<Rightarrow> if c_state c2 = QUIC_CS_NEW then c2\<lparr>c_state := QUIC_CS_HANDSHAKE\<rparr> else c2)"
    unfolding pktDone_def Let_def c1_def ..
  ultimately show ?thesis using d by (cases ok) simp_all
qed

lemma processPacket_returns:
  assumes "conn_ok c"
  shows "\<exists>ok c1 pr nw pkt1. processPacket E c h pkt ecn probing newest now = Some (ok, c1, pr, nw, pkt1) \<and> conn_ok c1"
proof (cases "spaceForPktType (h_type h)")
  case None
  then show ?thesis using assms by (auto simp: processPacket_def)
next
  case (Some sp)
  define rx where "rx = (if h_type h = QUIC_PKT_0RTT then c_earlyRx c else ps_rx (c_pns c sp))"
  obtain out ca ha pa where o: "(if h_type h = QUIC_PKT_SHORT then openApp (ce_psa E) c h pkt QUIC_MAX_DATAGRAM now
      else case quicPktOpen (ce_psa E) rx h pkt (as_largest (ps_ack (c_pns c sp))) QUIC_MAX_DATAGRAM of
             (out, h1, pkt1) \<Rightarrow> (out, c, h1, pkt1)) = (out, ca, ha, pa)" by (metis prod_cases4)
  have ca: "conn_ok ca" using o assms openApp_ok by (auto split: if_splits prod.splits)
  obtain new cb where s: "pktSeen ca sp ha ecn now = (new, cb)" by (metis surj_pair)
  have cb: "conn_ok cb" using pktSeen_ok [OF ca] s by (metis snd_conv)
  note unf = processPacket_def [of E c h pkt ecn probing newest now, unfolded Some option.case Let_def rx_def [symmetric] o prod.case]
  show ?thesis
  proof (cases out)
    case None
    then show ?thesis unfolding unf using assms ca by auto
  next
    case (Some payload)
    obtain ok cc el pr where f: "processFrames (ce_xalloc E) (ce_rnd E) cb sp payload ha probing now = Some (ok, cc, el, pr)"
      "conn_ok cc" using processFrames_ok [OF cb] by blast
    show ?thesis
      unfolding unf Some option.case s prod.case f(1)
      using assms cb f(2) pktDone_ok by (cases new; cases ok) auto
  qed
qed

primrec recv_conn :: "recv_end \<Rightarrow> QuicConn" where
  "recv_conn (RecvReturn ok c) = c"
| "recv_conn (RecvFlush c) = c"
| "recv_conn (RecvDone c data pr nw p) = c"

lemma silentClose_ok [simp]: "conn_ok (connSilentClose c err reason) = conn_ok c"
  by (rule conn_ok_cong) (simp_all add: connSilentClose_def connNotifyClosed_def fireHook_def)

lemma handleVersionNeg_ok: "conn_ok c \<Longrightarrow> conn_ok (handleVersionNeg c h)"
  by (simp add: handleVersionNeg_def)

lemma handleRetry_ok: "conn_ok c \<Longrightarrow> conn_ok (handleRetry P xa c h pkt)"
  by (erule conn_ok_keep) (simp_all add: handleRetry_def Let_def setSpace_def split: option.split prod.split bool.split)

lemma recvLoop_returns:
  "conn_ok c \<Longrightarrow> \<exists>e. recvLoop E ecn now len c data off pr nw p = Some e \<and> conn_ok (recv_conn e)"
proof (induction E ecn now len c data off pr nw p rule: recvLoop.induct)
  case (1 E ecn now len c data off pr nw p)
  show ?case
  proof (cases "off < len \<and> quicHdrDecode (drop off data) (c_localCidLen c) \<noteq> None")
    case False
    then show ?thesis using 1(2) by (subst recvLoop.simps) auto
  next
    case True
    then obtain h where h: "quicHdrDecode (drop off data) (c_localCidLen c) = Some h" by auto
    obtain ok c1 pr1 nw1 pkt1 where p: "processPacket E c h (drop off data) ecn pr nw now = Some (ok, c1, pr1, nw1, pkt1)"
      and c1: "conn_ok c1" using processPacket_returns [OF 1(2)] by blast
    show ?thesis
      using 1 True h p c1 handleVersionNeg_ok handleRetry_ok
      by (subst recvLoop.simps) (simp add: Let_def)
  qed
qed

lemma validatePath_keeps:
  "c_recov (quicConnValidatePath rnd c) = c_recov c" "c_mtuProbing (quicConnValidatePath rnd c) = c_mtuProbing c"
  by (simp_all add: quicConnValidatePath_def draw_def split: option.split)

lemma pathSwitch_ok:
  assumes "conn_ok c"
  shows "conn_ok (pathSwitch rnd c peer loc peerChose now)"
proof -
  have "recov_inv (quicRecovOnPathChange (quicRecovSetMaxDatagram 1200 (c_recov c)))"
    using assms recov_inv_quiet [OF recov_quiet.intros(3)] recov_inv_quiet [OF recov_quiet.intros(4)]
    by (simp add: conn_ok_def)
  then show ?thesis by (simp add: pathSwitch_def Let_def conn_ok_def mtu_bounded_def validatePath_keeps)
qed

lemma connPeerMoved_ok: "conn_ok c \<Longrightarrow> conn_ok (connPeerMoved rnd c peer loc probing newest now)"
  by (simp add: connPeerMoved_def Let_def pathSwitch_ok split: option.split)

lemma checkStatelessReset_ok: "conn_ok c \<Longrightarrow> conn_ok (snd (checkStatelessReset c data))"
  by (simp add: checkStatelessReset_def Let_def)

lemma quicConnRecv_returns:
  assumes aead: "aead_ok (ce_psa E)" and ok: "conn_ok c"
  shows "\<exists>res c1. quicConnRecv E c peer info data now = Some (res, c1) \<and> conn_ok c1"
proof (cases "c_state c = QUIC_CS_CLOSED")
  case True
  then show ?thesis using ok by (auto simp: quicConnRecv_def)
next
  case False
  define ca where "ca = c\<lparr>c_now := now, c_bytesRecv := c_bytesRecv c + of_nat (length data)\<rparr>"
  define ecn where "ecn = (case info of None \<Rightarrow> None | Some i \<Rightarrow> if pi_haveEcn i then Some (pi_ecn i) else None)"
  define loc where "loc = (case info of None \<Rightarrow> None | Some i \<Rightarrow> if pi_haveLocal i then Some (pi_local i) else None)"
  have "conn_ok ca" using ok by (simp add: ca_def)
  then obtain e where e: "recvLoop E ecn now (length data) ca data 0 True False False = Some e" "conn_ok (recv_conn e)"
    using recvLoop_returns by blast
  note unf = quicConnRecv_def [of E c peer info data now, unfolded if_not_P [OF False] Let_def,
      folded ca_def ecn_def loc_def, unfolded e(1) option.case]
  show ?thesis
  proof (cases e)
    case (RecvReturn r c2)
    then show ?thesis unfolding unf using e(2) by simp
  next
    case (RecvFlush c2)
    have "conn_ok c2" using e(2) RecvFlush by simp
    from quicConnFlush_ok [OF aead this, of now] show ?thesis
      unfolding unf RecvFlush recv_end.case by (cases "quicConnFlush E c2 now") simp
  next
    case (RecvDone c2 data1 probing newest processed)
    have c2: "conn_ok c2" using e(2) RecvDone by simp
    define c4 where "c4 = (if \<not> addrEq peer (c_peer ca)
      then connPeerMoved (ce_rnd E) (c2\<lparr>c_idleDeadline := add64 now (idleTimeoutOf c2)\<rparr>) peer loc probing newest now
      else case loc of None \<Rightarrow> c2\<lparr>c_idleDeadline := add64 now (idleTimeoutOf c2)\<rparr>
         | Some a \<Rightarrow> if \<not> c_haveLocal (c2\<lparr>c_idleDeadline := add64 now (idleTimeoutOf c2)\<rparr>)
             then c2\<lparr>c_idleDeadline := add64 now (idleTimeoutOf c2), c_localAddr := a, c_haveLocal := True\<rparr>
             else c2\<lparr>c_idleDeadline := add64 now (idleTimeoutOf c2)\<rparr>)"
    have "conn_ok (c2\<lparr>c_idleDeadline := t, c_localAddr := a, c_haveLocal := True\<rparr>)" for t a
      by (rule conn_ok_keep [OF c2]) simp_all
    then have c4: "conn_ok c4" using c2 by (simp add: c4_def connPeerMoved_ok split: option.split)
    define c6 where "c6 = (if c_state (c4\<lparr>c_pathRecv := c_pathRecv c4 + of_nat (length data)\<rparr>) = QUIC_CS_CLOSING
      then c4\<lparr>c_pathRecv := c_pathRecv c4 + of_nat (length data), c_closePending := True\<rparr>
      else c4\<lparr>c_pathRecv := c_pathRecv c4 + of_nat (length data)\<rparr>)"
    have "conn_ok (c4\<lparr>c_pathRecv := x, c_closePending := b\<rparr>)" for x b by (rule conn_ok_keep [OF c4]) simp_all
    then have c6: "conn_ok c6" using c4 by (simp add: c6_def)
    have "quicConnRecv E c peer info data now = (if \<not> processed then
        (case checkStatelessReset c2 data1 of (True, c3) \<Rightarrow> Some (False, c3)
         | (False, c3) \<Rightarrow> Some (c_state c3 \<noteq> QUIC_CS_CLOSED, c3))
      else if c_state c6 = QUIC_CS_DRAINING then Some (True, c6) else Some (quicConnFlush E c6 now))"
      unfolding unf RecvDone recv_end.case c6_def c4_def ..
    then show ?thesis
      using c6 quicConnFlush_ok [OF aead c6, of now] checkStatelessReset_ok [OF c2, of data1]
      by (cases "quicConnFlush E c6 now"; cases "checkStatelessReset c2 data1"; cases "fst (checkStatelessReset c2 data1)") auto
  qed
qed


section \<open>The timer, the start and the application's calls\<close>

lemma quicConnTick_ok:
  assumes aead: "aead_ok (ce_psa E)" and ok: "conn_ok c"
  shows "conn_ok (quicConnTick E c now)"
proof -
  obtain r c2 where t: "quicRecovOnTimeout conn_handlers now (c_recov (c\<lparr>c_now := now\<rparr>), c\<lparr>c_now := now\<rparr>) = (r, c2)"
    by (metis surj_pair)
  have "mtu_bounded (c\<lparr>c_now := now\<rparr>)" "recov_inv (c_recov (c\<lparr>c_now := now\<rparr>))"
    using ok by (simp_all add: conn_ok_def mtu_bounded_def)
  from conn.recov_inv_OnTimeout [OF this t] have c3: "conn_ok (c2\<lparr>c_recov := r\<rparr>)" by (simp add: conn_ok_def)
  have pv: "conn_ok a \<Longrightarrow> conn_ok (pathValidationFailed a now)" for a
    using recov_inv_quiet [OF recov_quiet.intros(3)]
    by (simp add: pathValidationFailed_def Let_def) (simp add: conn_ok_def mtu_bounded_def)
  have srch: "conn_ok a \<Longrightarrow> conn_ok (mtuSearch (a\<lparr>c_mtuRaiseAt := x, c_mtuHigh := y\<rparr>) now)" for a x y
    by (simp add: mtuSearch_ok)
  show ?thesis
    unfolding quicConnTick_def Let_def t prod.case
    using ok c3 pv srch quicConnFlush_ok [OF aead] by simp
qed

lemma quicConnStart_ok:
  assumes aead: "aead_ok (ce_psa E)" and ok: "conn_ok c"
  shows "conn_ok (snd (quicConnStart E c now))"
proof -
  define c2 where "c2 = c\<lparr>c_state := QUIC_CS_HANDSHAKE, c_now := now,
    c_idleDeadline := add64 now (idleTimeoutOf (c\<lparr>c_state := QUIC_CS_HANDSHAKE, c_now := now\<rparr>))\<rparr>"
  have "conn_ok c2" by (rule conn_ok_keep [OF ok]) (simp_all add: c2_def)
  then have t: "conn_ok (snd (tlsquicStart E c2))" by (rule tlsquic_ok)
  have "quicConnStart E c now = (if c_server c \<or> c_state c \<noteq> QUIC_CS_NEW then (False, c)
      else case tlsquicStart E c2 of (False, c3) \<Rightarrow> (False, c3) | (True, c3) \<Rightarrow> quicConnFlush E c3 now)"
    unfolding quicConnStart_def Let_def c2_def ..
  then show ?thesis
    using ok t quicConnFlush_ok [OF aead] by (cases "tlsquicStart E c2"; cases "fst (tlsquicStart E c2)") auto
qed

lemma calls_ok:
  "conn_ok c \<Longrightarrow> conn_ok (quicConnClose c err app reason)" "conn_ok c \<Longrightarrow> conn_ok (snd (quicConnUpdateKeys P c))"
  "conn_ok c \<Longrightarrow> conn_ok (snd (quicConnMigrate rnd c now))" "conn_ok c \<Longrightarrow> conn_ok (quicConnValidatePath rnd c)"
  "conn_ok c \<Longrightarrow> conn_ok (snd (quicConnDatagramSend c data))" "conn_ok c \<Longrightarrow> conn_ok (quicConnSetHandlers hooks c)"
proof -
  show "conn_ok c \<Longrightarrow> conn_ok (quicConnClose c err app reason)"
    by (erule conn_ok_keep) (simp_all add: quicConnClose_def connNotifyClosed_def fireHook_def)
  show "conn_ok c \<Longrightarrow> conn_ok (snd (quicConnUpdateKeys P c))" by (simp add: quicConnUpdateKeys_def Let_def)
  have m: "conn_ok (a\<lparr>c_remoteActive := n, c_havePrev := b\<rparr>) = conn_ok a" for a n b by (rule conn_ok_cong; simp)
  show "conn_ok c \<Longrightarrow> conn_ok (snd (quicConnMigrate rnd c now))"
    by (simp add: quicConnMigrate_def pathSwitch_ok m split: option.split)
  show "conn_ok c \<Longrightarrow> conn_ok (quicConnValidatePath rnd c)"
    by (erule conn_ok_keep) (simp_all add: validatePath_keeps)
  show "conn_ok c \<Longrightarrow> conn_ok (snd (quicConnDatagramSend c data))" by (simp add: quicConnDatagramSend_def Let_def)
  show "conn_ok c \<Longrightarrow> conn_ok (quicConnSetHandlers hooks c)" by (simp add: quicConnSetHandlers_def)
qed


section \<open>The life of a connection\<close>

text \<open>
  Any sequence of calls on a connection that was created. What the application does with streams in
  between is left open: \<open>app\<close> may leave the stream layer in any state.
\<close>

inductive conn_reach :: "conn_env \<Rightarrow> QuicConn \<Rightarrow> bool" for E where
  create: "quicConnCreate (ce_psa E) (ce_rnd E) te server cfg peer = Some c \<Longrightarrow> conn_reach E c"
| handlers: "conn_reach E c \<Longrightarrow> conn_reach E (quicConnSetHandlers hooks c)"
| start: "conn_reach E c \<Longrightarrow> conn_reach E (snd (quicConnStart E c now))"
| recv: "conn_reach E c \<Longrightarrow> quicConnRecv E c peer info data now = Some (ok, c1) \<Longrightarrow> conn_reach E c1"
| tick: "conn_reach E c \<Longrightarrow> conn_reach E (quicConnTick E c now)"
| flush: "conn_reach E c \<Longrightarrow> conn_reach E (snd (quicConnFlush E c now))"
| close: "conn_reach E c \<Longrightarrow> conn_reach E (quicConnClose c err app reason)"
| update: "conn_reach E c \<Longrightarrow> conn_reach E (snd (quicConnUpdateKeys (ce_psa E) c))"
| migrate: "conn_reach E c \<Longrightarrow> conn_reach E (snd (quicConnMigrate (ce_rnd E) c now))"
| validate: "conn_reach E c \<Longrightarrow> conn_reach E (quicConnValidatePath (ce_rnd E) c)"
| datagram: "conn_reach E c \<Longrightarrow> conn_reach E (snd (quicConnDatagramSend c data))"
| app: "conn_reach E c \<Longrightarrow> conn_reach E (c\<lparr>c_streams := ss, c_streamsUp := b, c_engConnected := b1\<rparr>)"

lemma conn_reach_ok:
  assumes "aead_ok (ce_psa E)" "conn_reach E c"
  shows "conn_ok c"
  using assms(2)
proof (induction rule: conn_reach.induct)
  case (create te server cfg peer c)
  then show ?case by (rule created_ok)
next
  case (recv c peer info data now ok c1)
  then show ?case using quicConnRecv_returns [OF assms(1), of c peer info data now] by auto
qed (simp_all add: calls_ok quicConnStart_ok [OF assms(1)] quicConnTick_ok [OF assms(1)] quicConnFlush_ok [OF assms(1)])


section \<open>Properties\<close>

text \<open>
  C3. Receiving a datagram always returns, in every state a connection can get into and whatever the
  datagram, the TLS engine and the allocator do; and loss recovery then still accounts exactly for the
  packets in flight.
\<close>

theorem connection_recv_returns:
  assumes "aead_ok (ce_psa E)" "conn_reach E c"
  shows "\<exists>ok c1. quicConnRecv E c peer info data now = Some (ok, c1) \<and> recov_inv (c_recov c1)"
  using quicConnRecv_returns [OF assms(1) conn_reach_ok [OF assms], of peer info data now] unfolding conn_ok_def by blast

theorem connection_recv_returns_witness:
  "\<exists>ok c1. quicConnRecv env_example client_example addr_example None [] 0 = Some (ok, c1) \<and> recov_inv (c_recov c1)"
proof -
  have psa: "aead_ok (ce_psa env_example)" by (simp add: env_example_def psa_example_aead)
  have "conn_reach env_example client_example"
    by (rule conn_reach.create [where te = te_example and server = False and cfg = client_cfg and peer = addr_example])
      (simp add: env_example_def example_client)
  then show ?thesis using connection_recv_returns [OF psa] by blast
qed

end
