(* ===== verification/Spec2Isabelle.thy ===== *)
theory Spec2Isabelle
  imports QuicAckState QuicRecovProps QuicStreamProps QuicConnMtu QuicConnKeys QuicConnWire QuicConnProps
begin

text \<open>
  Verification of the QUIC transport of \<^verbatim>\<open>src/cxquic\<close>, with the TLS 1.3 key derivation
  (\<^verbatim>\<open>src/cxtls/tls13kdf.c\<close>) and the byte buffer (\<^verbatim>\<open>src/cx/buffer/buffer.c\<close>) it stands on.

  \<^bold>\<open>The program.\<close> A connection (\<^verbatim>\<open>conn.c\<close>) takes datagrams in through \<^verbatim>\<open>_quicConnRecv\<close>, time through
  \<^verbatim>\<open>_quicConnTick\<close>, and hands datagrams out from \<^verbatim>\<open>_quicConnFlush\<close> through a handler. A datagram is a
  sequence of packets; a packet is a header (\<^verbatim>\<open>wire.c\<close>) and a protected payload (\<^verbatim>\<open>crypto.c\<close>); a payload
  is a sequence of frames (\<^verbatim>\<open>frame.c\<close>). Per packet number space the connection keeps the numbers it has
  received and the handshake bytes it reassembles (\<^verbatim>\<open>reasm.c\<close>) and the handshake bytes it still has to
  get across (\<^verbatim>\<open>sendbuf.c\<close>). Loss recovery (\<^verbatim>\<open>recovery.c\<close>) remembers every packet sent and calls back
  when one is acknowledged or lost; the streams (\<^verbatim>\<open>stream.c\<close>) fill packets, are told the same, and
  carry the data of the application under flow control. Keys come from the TLS engine through the key
  derivation, limits from the transport parameters (\<^verbatim>\<open>params.c\<close>), and a server that has no state for a
  client answers with the stateless packets and tokens of \<^verbatim>\<open>token.c\<close>.

  \<^bold>\<open>Theories.\<close> Each holds the records, the datatypes and one definition per C function, under the
  name of the function without its leading underscore, followed by what is proved of them.
    \<^item> \<open>CxPrelude\<close>: machine integers, byte lists, writes into fixed buffers, shared lemmas and collections.
    \<^item> \<open>CxBuffer\<close>: \<^verbatim>\<open>buffer.c\<close>.
    \<^item> \<open>QuicWire\<close>, \<open>QuicHdr\<close>: \<^verbatim>\<open>wire.c\<close>: readers, writers, variable-length integers, packet numbers; headers.
    \<^item> \<open>QuicFrame\<close>, \<open>QuicAck\<close>: \<^verbatim>\<open>frame.c\<close>: the frames; the ranges of ACK frames.
    \<^item> \<open>QuicReasm\<close>, \<open>QuicAckState\<close>: \<^verbatim>\<open>reasm.c\<close>: reassembly; received packet numbers.
    \<^item> \<open>QuicSendBuf\<close>: \<^verbatim>\<open>sendbuf.c\<close> and the control frames of \<^verbatim>\<open>conn_private.h\<close>.
    \<^item> \<open>QuicParams\<close>: \<^verbatim>\<open>params.c\<close>.
    \<^item> \<open>QuicSentRing\<close>, \<open>QuicRecovery\<close>: \<^verbatim>\<open>recovery.c\<close>; \<open>QuicRecovInv\<close>, \<open>QuicRecovTrace\<close>, \<open>QuicRecovProps\<close>: its
      invariant, what it reports, and its properties over all reachable states.
    \<^item> \<open>Tls13Kdf\<close>, \<open>QuicCrypto\<close>, \<open>QuicToken\<close>: \<^verbatim>\<open>tls13kdf.c\<close>, \<^verbatim>\<open>crypto.c\<close>, \<^verbatim>\<open>token.c\<close>.
    \<^item> \<open>QuicStream\<close>: \<^verbatim>\<open>stream.c\<close>; \<open>QuicStreamInv\<close>, \<open>QuicStreamOps\<close>, \<open>QuicStreamFill\<close>, \<open>QuicStreamRun\<close>,
      \<open>QuicStreamProps\<close>: its invariant, what goes into packets, runs of two endpoints and the properties.
    \<^item> \<open>QuicConn\<close>, \<open>QuicConnFrames\<close>, \<open>QuicConnLife\<close>, \<open>QuicConnSend\<close>, \<open>QuicConnRun\<close>: \<^verbatim>\<open>conn.c\<close> in the order state and
      paths and keys; frames and TLS callbacks; creation; sending; receiving, timers and accessors; with
      the handlers of \<^verbatim>\<open>quicsocket.c\<close> it calls.
    \<^item> \<open>QuicConnInv\<close>, \<open>QuicConnMtu\<close>, \<open>QuicConnKeys\<close>, \<open>QuicConnFlush\<close>, \<open>QuicConnWire\<close>, \<open>QuicConnProps\<close>: the connection as
      a client of loss recovery, path MTU discovery, key updates, the size of what is sent, that the
      peer understands it, and the life of a connection.

  \<^bold>\<open>How the code is represented.\<close> A \<^verbatim>\<open>struct\<close> is a \<^theory_text>\<open>record\<close>, an enumeration or tagged union a
  \<^theory_text>\<open>datatype\<close>; \<^verbatim>\<open>uint8\<close> to \<^verbatim>\<open>uint64\<close> are words of their width, so additions wrap where the code's do;
  \<^verbatim>\<open>size_t\<close> is a natural number, times are integers; a pointer with a length is a byte list, one that
  may be \<^verbatim>\<open>NULL\<close> an \<open>option\<close>. Operations return the updated state, with the return value first. What the
  application is told is appended to \<open>c_events\<close>; a handler that is not installed is not called.

  \<^bold>\<open>Parameters.\<close> Code outside the model is an argument of the definitions that call it. \<open>psa\<close> holds the
  PSA functions; what is relied on is \<open>aead_ok\<close> (what was sealed opens, and only that), \<open>cipher_works\<close>
  (keys that were imported with the right type, size and usage encrypt inputs no longer than a datagram) and
  \<open>kdf_total\<close> (HKDF works for the lengths RFC 5869 allows). \<open>xalloc\<close> says which allocations succeed, \<open>rnd\<close> what
  the random generator gives. The TLS engine is a tree of the calls it makes back (\<open>tls_act\<close>), any tree
  at all. \<open>conn_env\<close> bundles these with the answers of the \<^verbatim>\<open>send\<close> handler. \<open>psa_example\<close>, \<open>env_example\<close> and the
  others are concrete instances, on which every hypothesis is shown to hold.

  \<^bold>\<open>Interfaces.\<close> \<open>wire_item\<close> states what an encoder and a decoder owe each other (interpreted for
  variable-length integers, strings and frames) and gives the round trip of whole sequences.
  \<open>reliable_item\<close> states how something that must get across reacts to acknowledgement and loss
  (interpreted for control frames and send buffers). \<open>recov_client\<close> states what loss recovery needs of
  the handlers it calls (interpreted for the handlers of the connection), so that its invariant holds
  when they run in the middle of its loops.

  \<^bold>\<open>What is shown.\<close>
    \<^item> Encodings: frames, headers, packets, tokens, ACK ranges and transport parameters round trip; the
      decoders stay inside their input, make progress and accept only what is legal.
    \<^item> Data: reassembly gives the reader a prefix of the stream, the send buffer holds what is not
      acknowledged, and two endpoints over a network that loses, repeats and reorders deliver what was
      written, end included; flow control accounts are exact on both sides, as long as the peer's
      parameters lower no limit granted before (the code does not check that, and
      \<open>lowered_limit_overrun\<close> shows what follows).
    \<^item> Recovery: every packet is reported once, the counters are exact, an acknowledgement decides what
      RFC 9002 says, timers are the earliest that apply, a timeout makes a probe owed.
    \<^item> Keys: the key schedule is that of RFC 8446, both ends have the same Initial keys, key generations
      move together, a peer that updates is followed and late packets still open.
    \<^item> Sending: every planned packet is sent and opened by the peer, and a flush stays within the limits
      against amplification and within the congestion window. Two datagrams are outside these
      limits in the code and appear apart in the statements: a PATH_RESPONSE owed to an address the
      connection is not using, and, for amplification, a probe of the path's size.
    \<^item> Receiving: in every state reachable by any calls, receiving any datagram returns; acknowledgements
      of packets never sent are refused; path MTU discovery converges.

  \<^bold>\<open>Loops.\<close> All loops but one are total functions with a measure: the bytes left, the ranges left, the
  streams left to visit. The loop that grows the congestion window in \<^verbatim>\<open>ccOnAcked\<close> ends only when the
  window is positive; it is a partial function with \<open>None\<close> for not returning, and \<open>recov_ack_ends\<close> and
  \<open>connection_recv_returns\<close> show that \<open>None\<close> does not happen. \<^verbatim>\<open>_quicConnFlush\<close> counts its datagrams, sixteen as
  in the code; what is proved of its loop holds for every number.

  \<^bold>\<open>Not modelled.\<close> \<^verbatim>\<open>qlog.c\<close> and the text dumps \<^verbatim>\<open>_quicConnDebug\<close> and \<^verbatim>\<open>_quicStreamsDebug\<close> (output only). The rest
  of \<^verbatim>\<open>quicsocket.c\<close>: socket objects, message queues, the listener and its routing, which are objects of
  the networking framework, threads and system calls. The TLS handshake (\<^verbatim>\<open>tls13hs.c\<close> and the files around
  it), which works on mbedTLS objects. HTTP, the object system and its code generator, the containers,
  strings, serialization, logging and files of \<^verbatim>\<open>src/cx\<close>, and everything vendored.
\<close>

end
